(* ===== verification/Prelude.thy ===== *)
theory Prelude imports Main begin

text \<open>
  Shared vocabulary of the development: the result type of operations that may throw
  (\<open>Inl\<close> the error, \<open>Inr\<close> the value) with its sequencing, the loop over a list whose
  body may throw, JavaScript's \<open>slice\<close> and \<open>splice\<close> on lists, and list lemmas that
  several components use.
\<close>

named_theorems result_simps "evaluation of sequenced results"
named_theorems js_simps "evaluation of the JavaScript array operations"

section \<open>Results\<close>

text \<open>A statement sequence: the first statement that throws ends it.\<close>

definition bindE :: "'e + 'a \<Rightarrow> ('a \<Rightarrow> 'e + 'b) \<Rightarrow> 'e + 'b" where
  "bindE m f = (case m of Inl e \<Rightarrow> Inl e | Inr a \<Rightarrow> f a)"

lemma bindE_Inl [simp, result_simps]: "bindE (Inl e) f = Inl e"
  by (simp add: bindE_def)

lemma bindE_Inr [simp, result_simps]: "bindE (Inr a) f = f a"
  by (simp add: bindE_def)

lemma bindE_eq_Inr: "bindE m f = Inr b \<longleftrightarrow> (\<exists>a. m = Inr a \<and> f a = Inr b)"
  by (cases m) auto

lemma bindE_eq_Inl: "bindE m f = Inl e \<longleftrightarrow> m = Inl e \<or> (\<exists>a. m = Inr a \<and> f a = Inl e)"
  by (cases m) auto

lemma bindE_assoc: "bindE (bindE m f) g = bindE m (\<lambda>a. bindE (f a) g)"
  by (cases m) auto

lemma bindE_cong [fundef_cong]:
  "m = m' \<Longrightarrow> (\<And>a. m' = Inr a \<Longrightarrow> f a = f' a) \<Longrightarrow> bindE m f = bindE m' f'"
  by (cases m') auto

definition is_ok :: "'e + 'a \<Rightarrow> bool" where
  "is_ok m = (case m of Inl _ \<Rightarrow> False | Inr _ \<Rightarrow> True)"

lemma is_ok_simps [simp, result_simps]: "is_ok (Inr a)" "\<not> is_ok (Inl e)"
  by (simp_all add: is_ok_def)

lemma is_ok_iff: "is_ok m \<longleftrightarrow> (\<exists>a. m = Inr a)"
  by (cases m) auto

text \<open>A guard that produces a value, or throws.\<close>

definition require :: "'e \<Rightarrow> 'a option \<Rightarrow> 'e + 'a" where
  "require e m = (case m of None \<Rightarrow> Inl e | Some a \<Rightarrow> Inr a)"

lemma require_simps [simp, result_simps]: "require e None = Inl e" "require e (Some a) = Inr a"
  by (simp_all add: require_def)

lemma require_eq_Inr: "require e m = Inr a \<longleftrightarrow> m = Some a"
  by (cases m) auto

lemma require_eq_Inl: "require e m = Inl d \<longleftrightarrow> m = None \<and> d = e"
  by (cases m) auto

text \<open>A \<open>for ... of\<close> loop whose body may throw, over a state.\<close>

fun foldE :: "('x \<Rightarrow> 's \<Rightarrow> 'e + 's) \<Rightarrow> 'x list \<Rightarrow> 's \<Rightarrow> 'e + 's" where
  "foldE f [] s = Inr s"
| "foldE f (x # xs) s = bindE (f x s) (foldE f xs)"

lemma foldE_append: "foldE f (xs @ ys) s = bindE (foldE f xs s) (foldE f ys)"
proof (induction xs arbitrary: s)
  case (Cons x xs)
  then have "foldE f (xs @ ys) = (\<lambda>u. bindE (foldE f xs u) (foldE f ys))" by auto
  then show ?case by (simp add: bindE_assoc)
qed simp

lemma foldE_append_Inr: "foldE f xs s = Inr t \<Longrightarrow> foldE f (xs @ ys) s = foldE f ys t"
  by (simp add: foldE_append)

lemma foldE_cong [fundef_cong]:
  "xs = ys \<Longrightarrow> s = t \<Longrightarrow> (\<And>x u. x \<in> set ys \<Longrightarrow> f x u = g x u) \<Longrightarrow> foldE f xs s = foldE g ys t"
proof (induction ys arbitrary: xs s t)
  case Nil
  then show ?case by simp
next
  case (Cons y ys)
  then have "\<And>u. foldE f ys u = foldE g ys u" by simp
  then have "foldE f ys = foldE g ys" by auto
  with Cons.prems show ?case by simp
qed

text \<open>A loop that checks each element and throws at the first offending one.\<close>

fun checkE :: "('x \<Rightarrow> 'e + unit) \<Rightarrow> 'x list \<Rightarrow> 'e + unit" where
  "checkE f [] = Inr ()"
| "checkE f (x # xs) = bindE (f x) (\<lambda>_. checkE f xs)"

lemma checkE_ok_iff: "checkE f xs = Inr () \<longleftrightarrow> (\<forall>x\<in>set xs. f x = Inr ())"
  by (induction xs) (auto simp: bindE_eq_Inr)

text \<open>Collecting the values of a loop whose body may throw.\<close>

fun mapE :: "('x \<Rightarrow> 'e + 'y) \<Rightarrow> 'x list \<Rightarrow> 'e + 'y list" where
  "mapE f [] = Inr []"
| "mapE f (x # xs) = bindE (f x) (\<lambda>y. bindE (mapE f xs) (\<lambda>ys. Inr (y # ys)))"

lemma mapE_append: "mapE f (xs @ ys) = bindE (mapE f xs) (\<lambda>as. bindE (mapE f ys) (\<lambda>bs. Inr (as @ bs)))"
proof (induction xs)
  case Nil
  show ?case by (cases "mapE f ys") simp_all
qed (simp add: bindE_assoc)

lemma mapE_Inr: "\<forall>x\<in>set xs. f x = Inr (g x) \<Longrightarrow> mapE f xs = Inr (map g xs)"
  by (induction xs) simp_all

lemma mapE_Inr_length: "mapE f xs = Inr ys \<Longrightarrow> length ys = length xs"
  by (induction xs arbitrary: ys) (auto simp: bindE_eq_Inr)

section \<open>JavaScript array operations\<close>

text \<open>\<open>xs.slice(i, j)\<close> for \<open>0 \<le> i\<close>, \<open>0 \<le> j\<close>.\<close>

definition slice :: "nat \<Rightarrow> nat \<Rightarrow> 'a list \<Rightarrow> 'a list" where
  "slice i j xs = drop i (take j xs)"

text \<open>
  \<open>xs.splice(i, r, ...items)\<close> for natural \<open>i\<close> and \<open>r\<close>: both are clamped to the array,
  so a start beyond the end inserts at the end.
\<close>

definition splice_at :: "nat \<Rightarrow> nat \<Rightarrow> 'a list \<Rightarrow> 'a list \<Rightarrow> 'a list" where
  "splice_at i r items xs = take i xs @ items @ drop (i + r) xs"

lemma splice_at_length:
  "i + r \<le> length xs \<Longrightarrow> length (splice_at i r items xs) = length xs - r + length items"
  by (simp add: splice_at_def)

lemma splice_at_nothing [simp, js_simps]: "splice_at i 0 [] xs = xs"
  by (simp add: splice_at_def)

lemma splice_at_end [js_simps]: "splice_at (length xs) r items xs = xs @ items"
  by (simp add: splice_at_def)

lemma splice_at_set: "set (splice_at i r items xs) \<subseteq> set xs \<union> set items"
  by (auto simp: splice_at_def dest: in_set_takeD in_set_dropD)

lemma splice_at_cases: "x \<in> set (splice_at i r items xs) \<Longrightarrow> x \<in> set xs \<or> x \<in> set items"
  using splice_at_set by fastforce

section \<open>Lists\<close>

lemma last_snoc_butlast: "xs \<noteq> [] \<Longrightarrow> butlast xs @ [last xs] = xs"
  by simp

lemma nth_append_Cons_same: "length xs = n \<Longrightarrow> (xs @ y # ys) ! n = y"
  by (auto simp: nth_append)

lemma take_length_append: "length xs = n \<Longrightarrow> take n (xs @ ys) = xs"
  by simp

lemma find_None_filter: "List.find P xs = None \<longleftrightarrow> filter P xs = []"
  by (induction xs) auto

lemma map_filter_append [simp]:
  "List.map_filter f (xs @ ys) = List.map_filter f xs @ List.map_filter f ys"
  by (simp add: List.map_filter_def)

section \<open>Decimal numerals\<close>

text \<open>\<open>String(n)\<close> for a natural number.\<close>

fun show_nat :: "nat \<Rightarrow> string" where
  "show_nat n = (if n < 10 then [char_of (48 + n)]
                 else show_nat (n div 10) @ [char_of (48 + n mod 10)])"

declare show_nat.simps [simp del]

lemma show_nat_small: "n < 10 \<Longrightarrow> show_nat n = [char_of (48 + n)]"
  by (simp add: show_nat.simps)

lemma show_nat_digits: "c \<in> set (show_nat n) \<Longrightarrow> c \<in> set ''0123456789''"
proof (induction n rule: show_nat.induct)
  case (1 n)
  have d: "\<forall>m\<in>set [0..<10]. char_of (48 + m :: nat) \<in> set ''0123456789''" by code_simp
  have e: "char_of (48 + m) \<in> set ''0123456789''" if "m < 10" for m :: nat
    using that bspec [OF d, of m] by (simp only: set_upt atLeast0LessThan lessThan_iff)
  show ?case
  proof (cases "n < 10")
    case True
    with 1 have "c = char_of (48 + n)" by (simp add: show_nat.simps [of n])
    with e [OF True] show ?thesis by (simp only:)
  next
    case False
    with 1 have "c \<in> set (show_nat (n div 10)) \<or> c = char_of (48 + n mod 10)"
      by (auto simp: show_nat.simps [of n])
    then show ?thesis using "1.IH" [OF False] e [of "n mod 10"]
      by (metis mod_less_divisor zero_less_numeral)
  qed
qed

lemma show_nat_nonempty [simp]: "show_nat n \<noteq> []"
  by (subst show_nat.simps) simp

text \<open>Decimal numerals are read back, also from the front of a longer text.\<close>

definition digits :: string where
  "digits = ''0123456789''"

fun read_nat :: "nat \<Rightarrow> string \<Rightarrow> nat" where
  "read_nat n [] = n"
| "read_nat n (c # s) = read_nat (10 * n + (of_char c - 48)) s"

lemma read_nat_append: "read_nat n (s @ t) = read_nat (read_nat n s) t"
  by (induction s arbitrary: n) simp_all

lemma read_show_nat: "read_nat 0 (show_nat n) = n"
proof (induction n rule: show_nat.induct)
  case (1 n)
  have d: "of_char (char_of (48 + m :: nat)) - 48 = m" if "m < 10" for m :: nat
    using that by (simp add: of_char_of)
  show ?case
  proof (cases "n < 10")
    case True
    then show ?thesis using d [OF True] by (simp add: show_nat_small)
  next
    case False
    then have "show_nat n = show_nat (n div 10) @ [char_of (48 + n mod 10)]"
      by (subst show_nat.simps) (rule if_not_P)
    with "1.IH" [OF False] d [of "n mod 10"] show ?thesis by (simp add: read_nat_append)
  qed
qed

lemma show_nat_append_inj:
  assumes "show_nat n @ x = show_nat m @ y" "x \<noteq> []" "y \<noteq> []"
    and "hd x \<notin> set digits" "hd y \<notin> set digits"
  shows "n = m \<and> x = y"
proof -
  have t: "takeWhile (\<lambda>c. c \<in> set digits) (show_nat k @ z) = show_nat k"
    if z: "z \<noteq> []" "hd z \<notin> set digits" for k z
  proof -
    have "c \<in> set digits" if "c \<in> set (show_nat k)" for c
      unfolding digits_def using that by (rule show_nat_digits)
    then have "takeWhile (\<lambda>c. c \<in> set digits) (show_nat k @ z)
        = show_nat k @ takeWhile (\<lambda>c. c \<in> set digits) z"
      by (rule takeWhile_append2)
    with z show ?thesis by (cases z) simp_all
  qed
  have eq: "show_nat n = show_nat m"
    using t [OF assms(2,4), of n] t [OF assms(3,5), of m] unfolding assms(1) by (rule trans [OF sym])
  then have "read_nat 0 (show_nat n) = read_nat 0 (show_nat m)" by (rule arg_cong)
  then have "n = m" unfolding read_show_nat .
  moreover from assms(1) eq have "x = y" by (simp only: same_append_eq)
  ultimately show ?thesis by (rule conjI)
qed

section \<open>Access to a tree of values\<close>

text \<open>
  A node has children under keys; \<open>get\<close> reads a present child and \<open>put\<close> replaces it. The
  laws are all that navigation along a path needs.
\<close>

locale tree_access =
  fixes get :: "'k \<Rightarrow> 's \<Rightarrow> 's option"
    and put :: "'k \<Rightarrow> 's \<Rightarrow> 's \<Rightarrow> 's"
  assumes get_put: "get k s = Some c \<Longrightarrow> get k (put k d s) = Some d"
    and put_put: "get k s = Some c \<Longrightarrow> put k a (put k b s) = put k a s"
    and put_get: "get k s = Some c \<Longrightarrow> put k c s = s"
begin

fun getp :: "'k list \<Rightarrow> 's \<Rightarrow> 's option" where
  "getp [] s = Some s"
| "getp (k # p) s = (case get k s of None \<Rightarrow> None | Some c \<Rightarrow> getp p c)"

fun putp :: "'k list \<Rightarrow> 's \<Rightarrow> 's \<Rightarrow> 's" where
  "putp [] v s = v"
| "putp (k # p) v s = (case get k s of None \<Rightarrow> s | Some c \<Rightarrow> put k (putp p v c) s)"

lemma getp_append: "getp (p @ q) s = (case getp p s of None \<Rightarrow> None | Some c \<Rightarrow> getp q c)"
  by (induction p arbitrary: s) (auto split: option.split)

lemma getp_snoc: "getp p s = Some n \<Longrightarrow> getp (p @ [k]) s = get k n"
  by (simp add: getp_append split: option.split)

lemma getp_putp: "getp p s = Some c \<Longrightarrow> getp p (putp p v s) = Some v"
proof (induction p arbitrary: s)
  case (Cons k p)
  then show ?case by (cases "get k s") (auto simp: get_put)
qed simp

lemma putp_putp: "getp p s = Some c \<Longrightarrow> putp p a (putp p b s) = putp p a s"
proof (induction p arbitrary: s)
  case (Cons k p)
  then show ?case by (cases "get k s") (auto simp: get_put put_put)
qed simp

lemma putp_getp: "getp p s = Some c \<Longrightarrow> putp p c s = s"
proof (induction p arbitrary: s)
  case (Cons k p)
  then show ?case by (cases "get k s") (auto simp: put_get)
qed simp

lemma putp_snoc: "getp p s = Some n \<Longrightarrow> get k n = Some c \<Longrightarrow>
  putp (p @ [k]) v s = putp p (put k v n) s"
proof (induction p arbitrary: s)
  case (Cons j p)
  then show ?case by (cases "get j s") auto
qed simp

text \<open>Reading below a written node, and writing it again one level up.\<close>

lemma getp_putp_snoc: "getp p s = Some n \<Longrightarrow> getp (p @ [k]) (putp p m s) = get k m"
  by (rule getp_snoc) (rule getp_putp)

lemma putp_putp_snoc:
  "getp p s = Some n \<Longrightarrow> get k m = Some c \<Longrightarrow>
   putp (p @ [k]) v (putp p m s) = putp p (put k v m) s"
  using putp_snoc [OF getp_putp] putp_putp by metis

end

end
