(* ===== verification/EventStream.thy ===== *)
theory EventStream imports Prelude "HOL-Library.Multiset" begin

text \<open>
  \<open>packages/ai/src/utils/event-stream.ts\<close>: the two-array FIFO queue and the push stream
  that carries provider events to the agent loop. A waiting consumer is represented by an
  identifier of the promise resolver it queued; calling the resolver is an entry of the
  delivery log, \<open>(w, Some e)\<close> for \<open>{value: e, done: false}\<close> and \<open>(w, None)\<close> for
  \<open>{done: true}\<close>.
\<close>

section \<open>The interface of a queue\<close>

text \<open>
  What the stream relies on: a queue is a list, read through \<open>contents\<close>, that grows at
  its end and shrinks at its front.
\<close>

locale fifo_queue =
  fixes empty_q :: "'q"
    and enq :: "'a \<Rightarrow> 'q \<Rightarrow> 'q"
    and deq :: "'q \<Rightarrow> 'a option \<times> 'q"
    and contents :: "'q \<Rightarrow> 'a list"
  assumes contents_empty: "contents empty_q = []"
    and contents_enq: "contents (enq x q) = contents q @ [x]"
    and contents_deq: "contents (snd (deq q)) = tl (contents q)"
    and deq_value: "fst (deq q) = (case contents q of [] \<Rightarrow> None | x # _ \<Rightarrow> Some x)"
begin

lemma deq_empty: "contents q = [] \<Longrightarrow> fst (deq q) = None \<and> contents (snd (deq q)) = []"
  by (simp add: contents_deq deq_value)

lemma deq_nonempty:
  "contents q = x # xs \<Longrightarrow> fst (deq q) = Some x \<and> contents (snd (deq q)) = xs"
  by (simp add: contents_deq deq_value)

lemma contents_enq_all: "contents (fold enq xs q) = contents q @ xs"
  by (induction xs arbitrary: q) (simp_all add: contents_enq)

text \<open>Dequeuing as often as elements were enqueued returns them in order.\<close>

fun deq_n :: "nat \<Rightarrow> 'q \<Rightarrow> 'a option list" where
  "deq_n 0 q = []"
| "deq_n (Suc n) q = fst (deq q) # deq_n n (snd (deq q))"

lemma deq_n_contents: "deq_n (length (contents q)) q = map Some (contents q)"
proof (induction "contents q" arbitrary: q)
  case Nil
  then show ?case by simp
next
  case (Cons x xs)
  from Cons.hyps(2) have d: "fst (deq q) = Some x" "contents (snd (deq q)) = xs"
    using deq_nonempty by metis+
  with Cons.hyps(1) [of "snd (deq q)"] show ?case
    by (simp flip: Cons.hyps(2))
qed

end

section \<open>FifoQueue\<close>

record 'a fifo =
  incoming :: "'a list"
  outgoing :: "'a list"

definition fifo_new :: "'a fifo" where
  "fifo_new = \<lparr>incoming = [], outgoing = []\<rparr>"

definition fifo_length :: "'a fifo \<Rightarrow> nat" where
  "fifo_length q = length (incoming q) + length (outgoing q)"

definition fifo_enqueue :: "'a \<Rightarrow> 'a fifo \<Rightarrow> 'a fifo" where
  "fifo_enqueue v q = q\<lparr>incoming := incoming q @ [v]\<rparr>"

text \<open>The \<open>while\<close> loop of \<open>dequeue\<close>: pop from one array, push on the other.\<close>

function fifo_transfer :: "'a list \<Rightarrow> 'a list \<Rightarrow> 'a list" where
  "fifo_transfer inc out =
     (if inc = [] then out else fifo_transfer (butlast inc) (out @ [last inc]))"
  by pat_completeness auto
termination
  by (relation "measure (\<lambda>(inc, out). length inc)") auto

declare fifo_transfer.simps [simp del]

definition fifo_dequeue :: "'a fifo \<Rightarrow> 'a option \<times> 'a fifo" where
  "fifo_dequeue q =
     (let q' = (if outgoing q = []
                then \<lparr>incoming = [], outgoing = fifo_transfer (incoming q) []\<rparr> else q)
      in if outgoing q' = [] then (None, q')
         else (Some (last (outgoing q')), q'\<lparr>outgoing := butlast (outgoing q')\<rparr>))"

definition fifo_list :: "'a fifo \<Rightarrow> 'a list" where
  "fifo_list q = rev (outgoing q) @ incoming q"

lemma fifo_transfer_rev: "fifo_transfer inc out = out @ rev inc"
proof (induction inc out rule: fifo_transfer.induct)
  case (1 inc out)
  show ?case
  proof (cases inc rule: rev_cases)
    case Nil
    then show ?thesis by (simp add: fifo_transfer.simps)
  next
    case (snoc ys y)
    with 1 show ?thesis by (subst fifo_transfer.simps) simp
  qed
qed

interpretation ffq: fifo_queue fifo_new fifo_enqueue fifo_dequeue fifo_list
proof
  fix q :: "'a fifo" and x :: 'a
  show "fifo_list (snd (fifo_dequeue q)) = tl (fifo_list q)"
    by (cases "outgoing q" rule: rev_cases; cases "incoming q")
      (auto simp: fifo_dequeue_def fifo_list_def fifo_transfer_rev Let_def)
  show "fst (fifo_dequeue q) = (case fifo_list q of [] \<Rightarrow> None | x # _ \<Rightarrow> Some x)"
    by (cases "outgoing q" rule: rev_cases; cases "incoming q")
      (auto simp: fifo_dequeue_def fifo_list_def fifo_transfer_rev Let_def)
qed (simp_all add: fifo_new_def fifo_enqueue_def fifo_list_def)

lemma fifo_length_list: "fifo_length q = length (fifo_list q)"
  by (simp add: fifo_length_def fifo_list_def)

lemma fifo_dequeue_None [simp]: "fifo_list q = [] \<Longrightarrow> fst (fifo_dequeue q) = None"
  using ffq.deq_empty by blast

lemma fifo_dequeue_Some: "fifo_dequeue q = (Some w, q') \<Longrightarrow> fifo_list q = w # fifo_list q'"
  using ffq.contents_deq [of q] ffq.deq_value [of q]
  by (cases "fifo_list q") auto

lemma fifo_dequeue_None_iff: "fst (fifo_dequeue q) = None \<longleftrightarrow> fifo_list q = []"
  by (cases "fifo_list q") (auto simp: ffq.deq_value)

lemma fifo_dequeue_shorter:
  "fifo_dequeue q = (Some w, q') \<Longrightarrow> length (fifo_list q') < length (fifo_list q)"
  using fifo_dequeue_Some by fastforce

section \<open>EventStream\<close>

record ('e, 'r, 'w) event_stream =
  es_queue :: "'e fifo"
  es_waiting :: "'w fifo"
  es_done :: bool
  es_final :: "'r option"
  es_log :: "('w \<times> 'e option) list"

definition es_new :: "('e, 'r, 'w) event_stream" where
  "es_new = \<lparr>es_queue = fifo_new, es_waiting = fifo_new, es_done = False,
             es_final = None, es_log = []\<rparr>"

text \<open>A promise keeps the first value it is resolved with.\<close>

definition resolve_final :: "'r \<Rightarrow> ('e, 'r, 'w) event_stream \<Rightarrow> ('e, 'r, 'w) event_stream" where
  "resolve_final r s = s\<lparr>es_final := (case es_final s of None \<Rightarrow> Some r | Some r' \<Rightarrow> Some r')\<rparr>"

definition call_waiter ::
  "'w \<Rightarrow> 'e option \<Rightarrow> ('e, 'r, 'w) event_stream \<Rightarrow> ('e, 'r, 'w) event_stream" where
  "call_waiter w r s = s\<lparr>es_log := es_log s @ [(w, r)]\<rparr>"

definition es_push ::
  "('e \<Rightarrow> bool) \<Rightarrow> ('e \<Rightarrow> 'r) \<Rightarrow> 'e \<Rightarrow> ('e, 'r, 'w) event_stream \<Rightarrow> ('e, 'r, 'w) event_stream" where
  "es_push isComplete extractResult e s =
     (if es_done s then s
      else let s1 = (if isComplete e
                     then resolve_final (extractResult e) (s\<lparr>es_done := True\<rparr>) else s);
               d = fifo_dequeue (es_waiting s1);
               s2 = s1\<lparr>es_waiting := snd d\<rparr>
           in case fst d of
                Some w \<Rightarrow> call_waiter w (Some e) s2
              | None \<Rightarrow> s2\<lparr>es_queue := fifo_enqueue e (es_queue s2)\<rparr>)"

text \<open>The loop of \<open>end\<close>: every waiting consumer is told that the stream is done.\<close>

function es_release :: "('e, 'r, 'w) event_stream \<Rightarrow> ('e, 'r, 'w) event_stream" where
  "es_release s =
     (case fifo_dequeue (es_waiting s) of
        (None, q) \<Rightarrow> s
      | (Some w, q) \<Rightarrow> es_release (call_waiter w None (s\<lparr>es_waiting := q\<rparr>)))"
  by pat_completeness auto
termination
  by (relation "measure (\<lambda>s. length (fifo_list (es_waiting s)))")
    (auto simp: call_waiter_def dest!: fifo_dequeue_shorter [OF sym])

declare es_release.simps [simp del]

lemma es_release_spec:
  "es_queue (es_release s) = es_queue s \<and> es_done (es_release s) = es_done s
   \<and> es_final (es_release s) = es_final s \<and> fifo_list (es_waiting (es_release s)) = []
   \<and> es_log (es_release s) = es_log s @ map (\<lambda>w. (w, None)) (fifo_list (es_waiting s))"
proof (induction s rule: es_release.induct)
  case (1 s)
  show ?case
  proof (cases "fifo_dequeue (es_waiting s)")
    case (Pair v q)
    show ?thesis
    proof (cases v)
      case None
      with Pair have "fifo_list (es_waiting s) = []"
        using fifo_dequeue_None_iff [of "es_waiting s"] by simp
      with Pair None show ?thesis by (simp add: es_release.simps [of s])
    next
      case (Some w)
      with Pair "1.IH" fifo_dequeue_Some [of "es_waiting s" w q] show ?thesis
        by (simp add: es_release.simps [of s] call_waiter_def)
    qed
  qed
qed

definition es_end :: "'r option \<Rightarrow> ('e, 'r, 'w) event_stream \<Rightarrow> ('e, 'r, 'w) event_stream" where
  "es_end result s =
     (let s1 = s\<lparr>es_done := True\<rparr>;
          s2 = (case result of None \<Rightarrow> s1 | Some r \<Rightarrow> resolve_final r s1)
      in es_release s2)"

text \<open>
  One request to the async iterator. The outcome is a log entry of the consumer \<open>w\<close>, now
  or when a later \<open>push\<close> or \<open>end\<close> calls the resolver it queued.
\<close>

definition es_next :: "'w \<Rightarrow> ('e, 'r, 'w) event_stream \<Rightarrow> ('e, 'r, 'w) event_stream" where
  "es_next w s =
     (if 0 < fifo_length (es_queue s)
      then let d = fifo_dequeue (es_queue s)
           in call_waiter w (fst d) (s\<lparr>es_queue := snd d\<rparr>)
      else if es_done s then call_waiter w None s
      else s\<lparr>es_waiting := fifo_enqueue w (es_waiting s)\<rparr>)"

datatype ('e, 'r, 'w) es_op = Push 'e | End "'r option" | Next 'w

fun es_step :: "('e \<Rightarrow> bool) \<Rightarrow> ('e \<Rightarrow> 'r) \<Rightarrow> ('e, 'r, 'w) es_op
    \<Rightarrow> ('e, 'r, 'w) event_stream \<Rightarrow> ('e, 'r, 'w) event_stream" where
  "es_step c x (Push e) s = es_push c x e s"
| "es_step c x (End r) s = es_end r s"
| "es_step c x (Next w) s = es_next w s"

definition es_run :: "('e \<Rightarrow> bool) \<Rightarrow> ('e \<Rightarrow> 'r) \<Rightarrow> ('e, 'r, 'w) es_op list
    \<Rightarrow> ('e, 'r, 'w) event_stream" where
  "es_run c x ops = fold (es_step c x) ops es_new"

section \<open>What the stream promises\<close>

text \<open>The events pushed before the stream is done, the completing one included.\<close>

fun es_accepted :: "('e \<Rightarrow> bool) \<Rightarrow> ('e, 'r, 'w) es_op list \<Rightarrow> 'e list" where
  "es_accepted c [] = []"
| "es_accepted c (Push e # ops) = e # (if c e then [] else es_accepted c ops)"
| "es_accepted c (End r # ops) = []"
| "es_accepted c (Next w # ops) = es_accepted c ops"

fun es_requests :: "('e, 'r, 'w) es_op list \<Rightarrow> 'w list" where
  "es_requests [] = []"
| "es_requests (Next w # ops) = w # es_requests ops"
| "es_requests (_ # ops) = es_requests ops"

fun es_first_result :: "('e \<Rightarrow> bool) \<Rightarrow> ('e \<Rightarrow> 'r) \<Rightarrow> bool \<Rightarrow> ('e, 'r, 'w) es_op list \<Rightarrow> 'r option" where
  "es_first_result c x d [] = None"
| "es_first_result c x d (Push e # ops) =
     (if \<not> d \<and> c e then Some (x e) else es_first_result c x d ops)"
| "es_first_result c x d (End (Some r) # ops) = Some r"
| "es_first_result c x d (End None # ops) = es_first_result c x True ops"
| "es_first_result c x d (Next w # ops) = es_first_result c x d ops"

definition delivered :: "('e, 'r, 'w) event_stream \<Rightarrow> 'e list" where
  "delivered s = List.map_filter snd (es_log s)"

definition es_inv :: "('e, 'r, 'w) event_stream \<Rightarrow> bool" where
  "es_inv s \<longleftrightarrow> (fifo_list (es_waiting s) \<noteq> [] \<longrightarrow> fifo_list (es_queue s) = [])"

lemma delivered_call_waiter [simp]:
  "delivered (call_waiter w (Some e) s) = delivered s @ [e]"
  "delivered (call_waiter w None s) = delivered s"
  by (simp_all add: delivered_def call_waiter_def List.map_filter_def)

lemma es_inv_new [simp]: "es_inv es_new"
  by (simp add: es_inv_def es_new_def fifo_new_def fifo_list_def)

lemma fifo_list_enqueue [simp]: "fifo_list (fifo_enqueue x q) = fifo_list q @ [x]"
  by (rule ffq.contents_enq)

text \<open>Effect of each operation on the abstract view of the stream.\<close>

lemma es_push_cases:
  assumes "\<not> es_done s"
  obtains w ws where "fifo_list (es_waiting s) = w # ws"
      "fifo_list (es_waiting (es_push c x e s)) = ws"
      "es_queue (es_push c x e s) = es_queue s"
      "es_log (es_push c x e s) = es_log s @ [(w, Some e)]"
      "es_done (es_push c x e s) = c e"
  | "fifo_list (es_waiting s) = []" "fifo_list (es_waiting (es_push c x e s)) = []"
      "fifo_list (es_queue (es_push c x e s)) = fifo_list (es_queue s) @ [e]"
      "es_log (es_push c x e s) = es_log s" "es_done (es_push c x e s) = c e"
proof (cases "fifo_dequeue (es_waiting s)")
  case (Pair v q)
  show thesis
  proof (cases v)
    case None
    with Pair have "fifo_list (es_waiting s) = []"
      using fifo_dequeue_None_iff [of "es_waiting s"] by simp
    moreover have "fifo_list q = []"
      using calculation Pair ffq.deq_empty [of "es_waiting s"] by simp
    ultimately show thesis using that(2) Pair None assms
      by (simp add: es_push_def Let_def resolve_final_def)
  next
    case (Some w)
    with Pair show thesis
      using that(1) [of w "fifo_list q"] assms fifo_dequeue_Some [of "es_waiting s" w q]
      by (simp add: es_push_def Let_def resolve_final_def call_waiter_def)
  qed
qed

lemma es_end_view:
  "es_queue (es_end r s) = es_queue s" "es_done (es_end r s)"
  "fifo_list (es_waiting (es_end r s)) = []"
  "es_log (es_end r s) = es_log s @ map (\<lambda>w. (w, None)) (fifo_list (es_waiting s))"
  by (simp_all add: es_end_def Let_def es_release_spec resolve_final_def split: option.splits)

lemma es_next_cases:
  obtains e es where "fifo_list (es_queue s) = e # es" "fifo_list (es_queue (es_next w s)) = es"
      "es_log (es_next w s) = es_log s @ [(w, Some e)]"
      "es_waiting (es_next w s) = es_waiting s" "es_done (es_next w s) = es_done s"
  | "fifo_list (es_queue s) = []" "es_done s"
      "es_next w s = s\<lparr>es_log := es_log s @ [(w, None)]\<rparr>"
  | "fifo_list (es_queue s) = []" "\<not> es_done s"
      "es_queue (es_next w s) = es_queue s" "es_log (es_next w s) = es_log s"
      "fifo_list (es_waiting (es_next w s)) = fifo_list (es_waiting s) @ [w]"
      "\<not> es_done (es_next w s)"
proof (cases "fifo_list (es_queue s)")
  case Nil
  then show thesis using that(2,3)
    by (cases "es_done s") (simp_all add: es_next_def fifo_length_list call_waiter_def)
next
  case (Cons e es)
  then show thesis using that(1) [of e es] ffq.deq_nonempty [of "es_queue s" e es]
    by (simp add: es_next_def fifo_length_list call_waiter_def Let_def)
qed

lemma es_step_inv: "es_inv s \<Longrightarrow> es_inv (es_step c x op s)"
proof (cases op)
  case (Push e)
  assume i: "es_inv s"
  show ?thesis
  proof (cases "es_done s")
    case True
    with i Push show ?thesis by (simp add: es_push_def)
  next
    case False
    then show ?thesis
      by (rule es_push_cases [of s c x e]) (use i Push in \<open>auto simp: es_inv_def\<close>)
  qed
next
  case (End r)
  then show ?thesis by (simp add: es_inv_def es_end_view)
next
  case (Next w)
  assume i: "es_inv s"
  show ?thesis
    by (rule es_next_cases [of s w]) (use i Next in \<open>auto simp: es_inv_def\<close>)
qed

lemma es_run_inv: "es_inv s \<Longrightarrow> es_inv (fold (es_step c x) ops s)"
  by (induction ops arbitrary: s) (auto simp: es_step_inv)

lemma map_filter_snd_None [simp]: "List.map_filter snd (map (\<lambda>w. (w, None)) ws) = []"
  by (induction ws) (simp_all add: List.map_filter_simps)

lemma map_filter_single [simp]:
  "List.map_filter f [x] = (case f x of None \<Rightarrow> [] | Some y \<Rightarrow> [y])"
  by (simp add: List.map_filter_simps split: option.split)

lemma es_run_events:
  "es_inv s \<Longrightarrow>
   delivered (fold (es_step c x) ops s) @ fifo_list (es_queue (fold (es_step c x) ops s))
   = delivered s @ fifo_list (es_queue s) @ (if es_done s then [] else es_accepted c ops)"
proof (induction ops arbitrary: s)
  case Nil
  then show ?case by simp
next
  case (Cons op ops)
  let ?t = "es_step c x op s"
  have IH: "delivered (fold (es_step c x) (op # ops) s)
      @ fifo_list (es_queue (fold (es_step c x) (op # ops) s))
    = delivered ?t @ fifo_list (es_queue ?t) @ (if es_done ?t then [] else es_accepted c ops)"
    using Cons.IH [OF es_step_inv [OF Cons.prems]] by simp
  show ?case
  proof (cases op)
    case (Push e)
    show ?thesis
    proof (cases "es_done s")
      case True
      with Push IH show ?thesis by (simp add: es_push_def)
    next
      case False
      then show ?thesis
        by (rule es_push_cases [of s c x e])
          (use IH Push Cons.prems False in \<open>auto simp: delivered_def es_inv_def\<close>)
    qed
  next
    case (End r)
    with IH show ?thesis by (simp add: es_end_view delivered_def)
  next
    case (Next w)
    show ?thesis
      by (rule es_next_cases [of s w]) (use IH Next in \<open>auto simp: delivered_def\<close>)
  qed
qed

lemma es_run_requests:
  "mset (map fst (es_log (fold (es_step c x) ops s)))
     + mset (fifo_list (es_waiting (fold (es_step c x) ops s)))
   = mset (map fst (es_log s)) + mset (fifo_list (es_waiting s)) + mset (es_requests ops)"
proof (induction ops arbitrary: s)
  case Nil
  then show ?case by simp
next
  case (Cons op ops)
  let ?t = "es_step c x op s"
  have IH: "mset (map fst (es_log (fold (es_step c x) (op # ops) s)))
      + mset (fifo_list (es_waiting (fold (es_step c x) (op # ops) s)))
    = mset (map fst (es_log ?t)) + mset (fifo_list (es_waiting ?t)) + mset (es_requests ops)"
    using Cons.IH [of ?t] by simp
  show ?case
  proof (cases op)
    case (Push e)
    show ?thesis
    proof (cases "es_done s")
      case True
      with Push IH show ?thesis by (simp add: es_push_def)
    next
      case False
      then show ?thesis
        by (rule es_push_cases [of s c x e]) (use IH Push in auto)
    qed
  next
    case (End r)
    with IH show ?thesis by (simp add: es_end_view comp_def)
  next
    case (Next w)
    show ?thesis
      by (rule es_next_cases [of s w]) (use IH Next in auto)
  qed
qed

lemma es_ended_step:
  "es_done s \<and> fifo_list (es_waiting s) = [] \<Longrightarrow>
   es_done (es_step c x op s) \<and> fifo_list (es_waiting (es_step c x op s)) = []"
proof (cases op)
  case (Next w)
  assume "es_done s \<and> fifo_list (es_waiting s) = []"
  then show ?thesis by (cases rule: es_next_cases [of s w]) (auto simp: Next)
qed (auto simp: es_push_def es_end_view)

lemma es_ended_run:
  "es_done s \<and> fifo_list (es_waiting s) = [] \<Longrightarrow> fifo_list (es_waiting (fold (es_step c x) ops s)) = []"
  by (induction ops arbitrary: s) (simp_all add: es_ended_step)

lemma es_run_ended:
  "End r \<in> set ops \<Longrightarrow> fifo_list (es_waiting (fold (es_step c x) ops s)) = []"
proof (induction ops arbitrary: s)
  case (Cons op ops)
  show ?case
  proof (cases "op = End r")
    case True
    then show ?thesis by (simp add: es_ended_run es_end_view)
  next
    case False
    with Cons show ?thesis by simp
  qed
qed simp

lemma es_final_kept: "es_final s = Some r \<Longrightarrow> es_final (es_step c x op s) = Some r"
  by (cases op)
    (auto simp: es_push_def es_end_def es_next_def call_waiter_def resolve_final_def Let_def
      es_release_spec split: option.splits)

lemma es_final_kept_run: "es_final s = Some r \<Longrightarrow> es_final (fold (es_step c x) ops s) = Some r"
  by (induction ops arbitrary: s) (auto simp: es_final_kept)

lemma es_run_final:
  "es_final s = None \<Longrightarrow>
   es_final (fold (es_step c x) ops s) = es_first_result c x (es_done s) ops"
proof (induction ops arbitrary: s)
  case Nil
  then show ?case by simp
next
  case (Cons op ops)
  show ?case
  proof (cases op)
    case (Push e)
    then show ?thesis using Cons
      by (auto simp: es_push_def resolve_final_def call_waiter_def Let_def es_final_kept_run
          split: option.splits)
  next
    case (End r)
    then show ?thesis using Cons
      by (cases r) (auto simp: es_end_def resolve_final_def Let_def es_release_spec es_final_kept_run)
  next
    case (Next w)
    then show ?thesis using Cons
      by (auto simp: es_next_def call_waiter_def Let_def)
  qed
qed

section \<open>Properties\<close>

text \<open>
  The stream loses, duplicates and reorders nothing: whatever pushes, ends and consumer
  requests are interleaved, the values handed to consumers, in order, followed by the values
  still queued, are exactly the events pushed up to the completing one.
\<close>

theorem stream_fifo:
  "delivered (es_run c x ops) @ fifo_list (es_queue (es_run c x ops)) = es_accepted c ops"
  using es_run_events [OF es_inv_new, of c x ops]
  by (simp add: es_run_def es_new_def delivered_def fifo_new_def fifo_list_def List.map_filter_simps)

text \<open>
  C39. Once \<open>end\<close> has been called no consumer is left waiting and every request made to the
  iterator, before or after, has been answered exactly once.
\<close>

theorem stream_end_answers_all:
  assumes "End r \<in> set ops"
  shows "fifo_list (es_waiting (es_run c x ops)) = [] \<and>
    mset (map fst (es_log (es_run c x ops))) = mset (es_requests ops)"
  using es_run_ended [OF assms, of c x es_new] es_run_requests [of c x ops es_new]
  by (simp add: es_run_def es_new_def fifo_new_def fifo_list_def)

lemma stream_end_answers_all_witness:
  "fifo_list (es_waiting (es_run (\<lambda>e. e = (9::nat)) id [Next ''a'', Next ''b'', Push 9, End None])) = [] \<and>
   mset (map fst (es_log (es_run (\<lambda>e. e = (9::nat)) id [Next ''a'', Next ''b'', Push 9, End None])))
   = {#''a'', ''b''#}"
  using stream_end_answers_all [of None "[Next ''a'', Next ''b'', Push 9, End None]"
      "\<lambda>e. e = (9::nat)" id] by simp

text \<open>
  \<open>result()\<close> resolves with the extraction of the first completing event, or with the
  argument of the first \<open>end(result)\<close> before it; events pushed after the stream is done
  never change it.
\<close>

theorem stream_result:
  "es_final (es_run c x ops) = es_first_result c x False ops"
  using es_run_final [of es_new c x ops] by (simp add: es_run_def es_new_def)

end
