(* ===== verification/Json.thy ===== *)
theory Json imports Prelude Complex_Main "HOL-Library.AList" begin

text \<open>
  \<open>JsonValue\<close> of \<open>packages/chord/src/types.ts\<close> with the structural helpers of
  \<open>packages/chord/src/delta/index.ts\<close>. An object is the association list of its own
  enumerable properties in insertion order: a write to a present key keeps its position,
  a write to a new key appends (\<open>AList.update\<close>). A number is a finite double, as the
  rational it denotes; \<open>NaN\<close> and the infinities are no JSON values and \<open>-0\<close> is
  identified with \<open>0\<close>, as \<open>===\<close> does. A string is its list of code units.
\<close>

section \<open>Values\<close>

datatype json =
    JNull
  | JBool bool
  | JNum rat
  | JStr string
  | JArr "json list"
  | JObj "(string \<times> json) list"

lemma json_induct [case_names JNull JBool JNum JStr JArr JObj, induct type: json]:
  assumes "P JNull" "\<And>b. P (JBool b)" "\<And>n. P (JNum n)" "\<And>s. P (JStr s)"
    and arr: "\<And>xs. (\<And>x. x \<in> set xs \<Longrightarrow> P x) \<Longrightarrow> P (JArr xs)"
    and obj: "\<And>es. (\<And>k v. (k, v) \<in> set es \<Longrightarrow> P v) \<Longrightarrow> P (JObj es)"
  shows "P v"
proof (rule json.induct)
  fix es :: "(string \<times> json) list"
  assume "\<And>e v. e \<in> set es \<Longrightarrow> v \<in> Basic_BNFs.snds e \<Longrightarrow> P v"
  then have "P v" if "(k, v) \<in> set es" for k v
    using that Basic_BNFs.snds.intros [of "(k, v)"] by auto
  then show "P (JObj es)" by (rule obj)
qed (use assms in auto)

type_synonym entries = "(string \<times> json) list"

fun wf_json :: "json \<Rightarrow> bool" where
  "wf_json (JArr xs) = (\<forall>x\<in>set xs. wf_json x)"
| "wf_json (JObj es) = (distinct (map fst es) \<and> (\<forall>e\<in>set es. wf_json (snd e)))"
| "wf_json _ = True"

definition isObj :: "json \<Rightarrow> bool" where
  "isObj v = (case v of JArr _ \<Rightarrow> True | JObj _ \<Rightarrow> True | _ \<Rightarrow> False)"

lemma isObj_simps [simp]:
  "isObj (JArr xs)" "isObj (JObj es)" "\<not> isObj JNull" "\<not> isObj (JBool b)"
  "\<not> isObj (JNum n)" "\<not> isObj (JStr s)"
  by (simp_all add: isObj_def)

lemma isObj_cases: "isObj v \<longleftrightarrow> (\<exists>xs. v = JArr xs) \<or> (\<exists>es. v = JObj es)"
  by (cases v) auto

text \<open>\<open>===\<close> on two values no part of which is shared: containers are never identical.\<close>

definition strict_equal :: "json \<Rightarrow> json \<Rightarrow> bool" where
  "strict_equal a b \<longleftrightarrow> \<not> isObj a \<and> a = b"

section \<open>Structural equality\<close>

text \<open>\<open>jsonEqual\<close>: arrays elementwise, objects as maps, whatever the order of their keys.\<close>

fun json_equal :: "json \<Rightarrow> json \<Rightarrow> bool"
  and json_equal_items :: "json list \<Rightarrow> json list \<Rightarrow> bool"
  and json_equal_entries :: "entries \<Rightarrow> entries \<Rightarrow> bool"
where
  "json_equal (JArr xs) (JArr ys) = (length xs = length ys \<and> json_equal_items xs ys)"
| "json_equal (JObj es) (JObj fs) = (length es = length fs \<and> json_equal_entries es fs)"
| "json_equal (JArr xs) _ = False"
| "json_equal (JObj es) _ = False"
| "json_equal JNull r = (r = JNull)"
| "json_equal (JBool b) r = (r = JBool b)"
| "json_equal (JNum n) r = (r = JNum n)"
| "json_equal (JStr s) r = (r = JStr s)"
| "json_equal_items [] ys = True"
| "json_equal_items (x # xs) [] = True"
| "json_equal_items (x # xs) (y # ys) = (json_equal x y \<and> json_equal_items xs ys)"
| "json_equal_entries [] fs = True"
| "json_equal_entries ((k, v) # es) fs =
     ((case map_of fs k of None \<Rightarrow> False | Some w \<Rightarrow> json_equal v w) \<and> json_equal_entries es fs)"

lemma json_equal_items_iff:
  "length xs = length ys \<Longrightarrow> json_equal_items xs ys \<longleftrightarrow> list_all2 json_equal xs ys"
  by (induction xs ys rule: list_induct2) simp_all

lemma json_equal_arr [simp]: "json_equal (JArr xs) (JArr ys) \<longleftrightarrow> list_all2 json_equal xs ys"
  by (cases "length xs = length ys") (auto simp: json_equal_items_iff dest: list_all2_lengthD)

lemma json_equal_entries_iff:
  "json_equal_entries es fs \<longleftrightarrow>
   (\<forall>(k, v)\<in>set es. \<exists>w. map_of fs k = Some w \<and> json_equal v w)"
  by (induction es) (auto split: option.splits)

declare json_equal.simps(1,2) [simp del]

text \<open>Two objects are equal iff they are equal as maps.\<close>

lemma json_equal_obj_iff:
  assumes es: "distinct (map fst es)" and fs: "distinct (map fst fs)"
  shows "json_equal (JObj es) (JObj fs) \<longleftrightarrow>
    (\<forall>k. rel_option json_equal (map_of es k) (map_of fs k))" (is "?l = ?r")
proof
  assume ?l
  then have len: "length es = length fs" and ent: "json_equal_entries es fs"
    by (simp_all add: json_equal.simps)
  have sub: "fst ` set es \<subseteq> fst ` set fs"
    using ent unfolding json_equal_entries_iff by (force dest: map_of_SomeD)
  have "card (fst ` set es) = card (fst ` set fs)"
    using es fs len by (metis distinct_card length_map set_map)
  with sub have keys: "fst ` set es = fst ` set fs"
    by (simp add: card_subset_eq)
  show ?r
  proof
    fix k
    show "rel_option json_equal (map_of es k) (map_of fs k)"
    proof (cases "map_of es k")
      case None
      then have "map_of fs k = None" using keys by (simp add: map_of_eq_None_iff)
      with None show ?thesis by simp
    next
      case (Some v)
      then have "(k, v) \<in> set es" by (rule map_of_SomeD)
      then obtain w where "map_of fs k = Some w" "json_equal v w"
        using ent unfolding json_equal_entries_iff by blast
      with Some show ?thesis by simp
    qed
  qed
next
  assume r: ?r
  have keys: "fst ` set es = fst ` set fs"
  proof -
    have "dom (map_of es) = dom (map_of fs)"
      using r by (force simp: dom_def rel_option_iff split: option.splits)
    then show ?thesis by (simp add: dom_map_of_conv_image_fst)
  qed
  have "length es = length fs"
    using es fs keys by (metis distinct_card length_map set_map)
  moreover have "json_equal_entries es fs"
    unfolding json_equal_entries_iff
  proof (safe)
    fix k v assume "(k, v) \<in> set es"
    then have "map_of es k = Some v" using es by simp
    then show "\<exists>w. map_of fs k = Some w \<and> json_equal v w"
      using r by (metis option_rel_Some1)
  qed
  ultimately show ?l by (simp add: json_equal.simps)
qed

lemma wf_json_entry: "wf_json (JObj es) \<Longrightarrow> map_of es k = Some v \<Longrightarrow> wf_json v"
  by (auto dest: map_of_SomeD)

lemma json_equal_refl: "wf_json v \<Longrightarrow> json_equal v v"
proof (induction v)
  case (JArr xs)
  then show ?case by (auto intro: list.rel_refl_strong)
next
  case (JObj es)
  have "rel_option json_equal (map_of es k) (map_of es k)" for k
  proof (cases "map_of es k")
    case (Some v)
    then have "(k, v) \<in> set es" by (rule map_of_SomeD)
    then show ?thesis using JObj Some
      by (metis option_rel_Some1 snd_conv wf_json.simps(2))
  qed simp
  with JObj show ?case by (simp add: json_equal_obj_iff)
qed simp_all

lemma json_equal_sym: "wf_json u \<Longrightarrow> wf_json v \<Longrightarrow> json_equal u v \<Longrightarrow> json_equal v u"
proof (induction u arbitrary: v)
  case (JArr xs)
  obtain ys where v: "v = JArr ys" using JArr.prems(3) by (cases v) simp_all
  with JArr.prems have "list_all2 json_equal xs ys" by simp
  then have "list_all2 json_equal ys xs"
    using JArr.prems JArr.IH v by (auto simp: list_all2_conv_all_nth)
  with v show ?case by simp
next
  case (JObj es)
  obtain fs where v: "v = JObj fs" using JObj.prems(3) by (cases v) simp_all
  have d: "distinct (map fst es)" "distinct (map fst fs)" using JObj.prems v by simp_all
  have "rel_option json_equal (map_of fs k) (map_of es k)" for k
  proof (cases "map_of es k")
    case None
    then have "map_of fs k = None"
      using JObj.prems(3) d v by (auto simp: json_equal_obj_iff dest!: spec [of _ k])
    with None show ?thesis by simp
  next
    case (Some a)
    then obtain b where b: "map_of fs k = Some b" "json_equal a b"
      using JObj.prems(3) d v by (metis json_equal_obj_iff option_rel_Some1)
    have "wf_json a" "wf_json b"
      using JObj.prems v b(1) Some by (metis wf_json_entry)+
    moreover have "(k, a) \<in> set es" using Some by (rule map_of_SomeD)
    ultimately have "json_equal b a" using JObj.IH b(2) by blast
    with b Some show ?thesis by simp
  qed
  with d v show ?case by (simp add: json_equal_obj_iff)
qed auto

lemma json_equal_trans:
  "wf_json u \<Longrightarrow> wf_json v \<Longrightarrow> wf_json w \<Longrightarrow> json_equal u v \<Longrightarrow> json_equal v w \<Longrightarrow> json_equal u w"
proof (induction u arbitrary: v w)
  case (JArr xs)
  obtain ys zs where v: "v = JArr ys" "w = JArr zs"
    using JArr.prems(4,5) by (cases v; cases w) simp_all
  have l: "length xs = length ys" "length ys = length zs"
    using JArr.prems(4,5) v by (auto dest: list_all2_lengthD)
  have "json_equal (xs ! i) (zs ! i)" if i: "i < length xs" for i
    using JArr.IH [of "xs ! i" "ys ! i" "zs ! i"] JArr.prems v l i
    by (auto simp: list_all2_conv_all_nth)
  with l v show ?case by (simp add: list_all2_conv_all_nth)
next
  case (JObj es)
  obtain fs gs where v: "v = JObj fs" "w = JObj gs"
    using JObj.prems(4,5) by (cases v; cases w) simp_all
  have d: "distinct (map fst es)" "distinct (map fst fs)" "distinct (map fst gs)"
    using JObj.prems v by simp_all
  have r: "rel_option json_equal (map_of es k) (map_of fs k)"
    "rel_option json_equal (map_of fs k) (map_of gs k)" for k
    using JObj.prems(4,5) d v by (simp_all add: json_equal_obj_iff)
  have "rel_option json_equal (map_of es k) (map_of gs k)" for k
  proof (cases "map_of es k")
    case None
    then show ?thesis using r [of k] by auto
  next
    case (Some a)
    then obtain b c where b: "map_of fs k = Some b" "json_equal a b"
        and c: "map_of gs k = Some c" "json_equal b c"
      using r [of k] by (auto simp: option_rel_Some1)
    have "wf_json a" "wf_json b" "wf_json c"
      using JObj.prems v b(1) c(1) Some by (metis wf_json_entry)+
    moreover have "(k, a) \<in> set es" using Some by (rule map_of_SomeD)
    ultimately have "json_equal a c" using JObj.IH b(2) c(2) by blast
    with c Some show ?thesis by simp
  qed
  with d v show ?case by (simp add: json_equal_obj_iff)
qed (auto)

lemma json_equal_isObj: "json_equal u v \<Longrightarrow> isObj u = isObj v"
  by (cases u; cases v) auto

text \<open>Outside objects, structural equality of key-free values is equality.\<close>

lemma json_equal_prim: "\<not> isObj u \<Longrightarrow> json_equal u v \<longleftrightarrow> u = v"
  by (cases u) auto

section \<open>Quoted strings\<close>

text \<open>\<open>JSON.stringify\<close> of a string: what is escaped, and how.\<close>

definition ESCAPES :: "(char \<times> string) list" where
  "ESCAPES =
    [(CHR 0x22, [CHR 0x5C, CHR 0x22]), (CHR 0x5C, [CHR 0x5C, CHR 0x5C]),
     (CHR 0x08, [CHR 0x5C, CHR ''b'']), (CHR 0x09, [CHR 0x5C, CHR ''t'']),
     (CHR 0x0A, [CHR 0x5C, CHR ''n'']), (CHR 0x0C, [CHR 0x5C, CHR ''f'']),
     (CHR 0x0D, [CHR 0x5C, CHR ''r''])] @
    map (\<lambda>(n, h). (char_of n, CHR 0x5C # CHR ''u'' # ''00'' @ h))
     [(0x00 :: nat, ''00''), (0x01, ''01''), (0x02, ''02''), (0x03, ''03''), (0x04, ''04''),
      (0x05, ''05''), (0x06, ''06''), (0x07, ''07''), (0x0B, ''0b''), (0x0E, ''0e''),
      (0x0F, ''0f''), (0x10, ''10''), (0x11, ''11''), (0x12, ''12''), (0x13, ''13''),
      (0x14, ''14''), (0x15, ''15''), (0x16, ''16''), (0x17, ''17''), (0x18, ''18''),
      (0x19, ''19''), (0x1A, ''1a''), (0x1B, ''1b''), (0x1C, ''1c''), (0x1D, ''1d''),
      (0x1E, ''1e''), (0x1F, ''1f'')]"

definition escape :: "char \<Rightarrow> string" where
  "escape c = (case map_of ESCAPES c of None \<Rightarrow> [c] | Some e \<Rightarrow> e)"

fun quoted :: "string \<Rightarrow> string" where
  "quoted [] = [CHR 0x22]"
| "quoted (c # s) = escape c @ quoted s"

text \<open>Escapes form a prefix code without the quote.\<close>

lemma escapes_prefix_free:
  "\<forall>(c, e)\<in>set ESCAPES. \<forall>(d, f)\<in>set ESCAPES.
     c = d \<or> take (min (length e) (length f)) e \<noteq> take (min (length e) (length f)) f"
  by code_simp

lemma escapes_shape:
  "\<forall>(c, e)\<in>set ESCAPES. e \<noteq> [] \<and> hd e = CHR 0x5C" "map_of ESCAPES (CHR 0x22) \<noteq> None"
  "map_of ESCAPES (CHR 0x5C) \<noteq> None"
  by code_simp+

lemma escape_cases:
  obtains "escape c = [c]" "c \<noteq> CHR 0x22" "c \<noteq> CHR 0x5C"
  | e where "(c, e) \<in> set ESCAPES" "escape c = e" "e \<noteq> []" "hd e = CHR 0x5C"
proof (cases "map_of ESCAPES c")
  case None
  then have "c \<noteq> CHR 0x22" "c \<noteq> CHR 0x5C" using escapes_shape(2,3) by metis+
  with that(1) None show thesis by (simp add: escape_def)
next
  case (Some e)
  then have m: "(c, e) \<in> set ESCAPES" by (rule map_of_SomeD)
  moreover have "e \<noteq> []" "hd e = CHR 0x5C" using bspec [OF escapes_shape(1) m] by simp_all
  ultimately show thesis using that(2) Some by (simp add: escape_def)
qed

lemma escape_hd: "escape c \<noteq> [] \<and> hd (escape c) \<noteq> CHR 0x22"
  by (cases c rule: escape_cases) auto

lemma append_prefix_eq: "e @ x = f @ y \<Longrightarrow> take (min (length e) (length f)) e = take (min (length e) (length f)) f"
  by (metis append_eq_append_conv_if min.absorb1 min.absorb2 nat_le_linear take_all_iff take_take)

lemma escape_inj: "escape c @ x = escape d @ y \<Longrightarrow> c = d \<and> x = y"
proof (cases c rule: escape_cases; cases d rule: escape_cases)
  fix e f
  assume eq: "escape c @ x = escape d @ y"
    and c: "(c, e) \<in> set ESCAPES" "escape c = e" and d: "(d, f) \<in> set ESCAPES" "escape d = f"
  have "take (min (length e) (length f)) e = take (min (length e) (length f)) f"
    using eq c d append_prefix_eq by simp
  then have "c = d" using bspec [OF bspec [OF escapes_prefix_free c(1), unfolded case_prod_conv] d(1)]
    by simp
  then show ?thesis using eq by simp
qed (auto simp: neq_Nil_conv)

lemma quoted_inj: "quoted s @ x = quoted t @ y \<Longrightarrow> s = t \<and> x = y"
proof (induction s arbitrary: t)
  case Nil
  then show ?case
  proof (cases t)
    case (Cons d u)
    with Nil have "hd (escape d @ quoted u @ y) = CHR 0x22" by (metis append.assoc append_Cons list.sel(1) quoted.simps)
    with escape_hd [of d] show ?thesis by simp
  qed simp
next
  case (Cons c s)
  show ?case
  proof (cases t)
    case Nil
    with Cons.prems have "hd (escape c @ quoted s @ x) = CHR 0x22" by (metis append.assoc append_Cons list.sel(1) quoted.simps)
    with escape_hd [of c] show ?thesis by simp
  next
    case (Cons d u)
    with Cons.prems have "escape c @ (quoted s @ x) = escape d @ (quoted u @ y)" by simp
    from escape_inj [OF this] Cons.IH [of u] Cons show ?thesis by simp
  qed
qed

definition stringify_string :: "string \<Rightarrow> string" where
  "stringify_string s = CHR 0x22 # quoted s"

end
