(* ===== verification/Messages.thy ===== *)
theory Messages imports Json begin

text \<open>
  The messages of a conversation and the events of one streamed response
  (\<open>packages/ai/src/types.ts\<close>), and the data of the agent loop around them
  (\<open>packages/agent/src/types.ts\<close>). Optional properties are options; opaque payloads are JSON.
\<close>

section \<open>Content\<close>

record text_content =
  tx_text :: string
  tx_signature :: "string option"

record thinking_content =
  th_thinking :: string
  th_signature :: "string option"
  th_redacted :: "bool option"

record image_content =
  im_data :: string
  im_mimeType :: string

record tool_call =
  tc_id :: string
  tc_name :: string
  tc_arguments :: json
  tc_thoughtSignature :: "string option"
  tc_namespace :: "string option"

datatype block = TextB text_content | ImageB image_content

datatype ablock = ATextB text_content | AThinkingB thinking_content | AToolCallB tool_call

section \<open>Messages\<close>

record usage_cost =
  cost_input :: rat
  cost_output :: rat
  cost_cacheRead :: rat
  cost_cacheWrite :: rat
  cost_total :: rat

record usage =
  us_input :: nat
  us_output :: nat
  us_cacheRead :: nat
  us_cacheWrite :: nat
  us_cacheWrite1h :: "nat option"
  us_reasoning :: "nat option"
  us_totalTokens :: nat
  us_cost :: usage_cost

datatype stop_reason = Pending | Stop | Length | ToolUse | Error | Aborted | Deferred

datatype user_content = Plain string | Blocks "block list"

record user_message =
  um_content :: user_content
  um_timestamp :: nat

record assistant_message =
  am_content :: "ablock list"
  am_api :: string
  am_provider :: string
  am_model :: string
  am_responseModel :: "string option"
  am_responseId :: "string option"
  am_providerThinkingLevel :: "string option"
  am_diagnostics :: "json list option"
  am_usage :: usage
  am_stopReason :: stop_reason
  am_deferred :: "json option"
  am_errorMessage :: "string option"
  am_rawStopReason :: "string option"
  am_endTurn :: "bool option"
  am_timestamp :: nat

record tool_result_message =
  tr_toolCallId :: string
  tr_toolName :: string
  tr_content :: "block list"
  tr_details :: "json option"
  tr_usage :: "usage option"
  tr_addedToolNames :: "string list option"
  tr_isError :: bool
  tr_timestamp :: nat

datatype message =
    User user_message
  | Assistant assistant_message
  | ToolResult tool_result_message

text \<open>A message of the application: its role and body.\<close>

datatype agent_message =
    Llm message
  | Custom string json

fun message_role :: "message \<Rightarrow> string" where
  "message_role (User m) = ''user''"
| "message_role (Assistant m) = ''assistant''"
| "message_role (ToolResult m) = ''toolResult''"

fun role :: "agent_message \<Rightarrow> string" where
  "role (Llm m) = message_role m"
| "role (Custom r v) = r"

text \<open>\<open>message.content.filter((c) => c.type === "toolCall")\<close>.\<close>

fun block_tool_call :: "ablock \<Rightarrow> tool_call option" where
  "block_tool_call (AToolCallB c) = Some c"
| "block_tool_call _ = None"

definition tool_calls :: "assistant_message \<Rightarrow> tool_call list" where
  "tool_calls m = List.map_filter block_tool_call (am_content m)"

section \<open>Events of a streamed response\<close>

datatype assistant_event =
    SStart assistant_message
  | SText_start nat assistant_message
  | SText_delta nat string assistant_message
  | SText_end nat string assistant_message
  | SThinking_start nat assistant_message
  | SThinking_delta nat string assistant_message
  | SThinking_end nat string assistant_message
  | SToolcall_start nat assistant_message
  | SToolcall_delta nat string assistant_message
  | SToolcall_end nat tool_call assistant_message
  | SDone stop_reason assistant_message
  | SError stop_reason assistant_message

section \<open>Tools and the agent's context\<close>

datatype execution_mode = Sequential | Parallel

datatype thinking_level = Off | Minimal | Low | Medium | High | Xhigh | Max

record tool_result =
  res_content :: "block list option"
  res_details :: "json option"
  res_usage :: "usage option"
  res_addedToolNames :: "string list option"
  res_terminate :: "bool option"

text \<open>
  A tool call as the world executes it: the partial results it reports to \<open>onUpdate\<close> before
  its promise settles, and how that settles.
\<close>

record tool_run =
  run_updates :: "tool_result list"
  run_outcome :: "string + tool_result"

record 'w agent_tool =
  tool_name :: string
  tool_description :: string
  tool_parameters :: json
  tool_label :: string
  tool_prepareArguments :: "(json \<Rightarrow> string + json) option"
  tool_execute :: "string \<Rightarrow> json \<Rightarrow> 'w \<Rightarrow> tool_run \<times> 'w"
  tool_executionMode :: "execution_mode option"

record 'w agent_context =
  ctx_systemPrompt :: string
  ctx_messages :: "agent_message list"
  ctx_tools :: "'w agent_tool list option"

datatype agent_event =
    AgentStart
  | AgentEnd "agent_message list"
  | TurnStart
  | TurnEnd assistant_message "tool_result_message list"
  | MessageStart agent_message
  | MessageUpdate agent_message assistant_event
  | MessageEnd agent_message
  | ToolStart string string json
  | ToolUpdate string string json tool_result
  | ToolEnd string string tool_result bool

end
