(* ===== verification/AssistantStream.thy ===== *)
theory AssistantStream imports EventStream Messages begin

text \<open>
  \<open>AssistantMessageEventStream\<close> of \<open>packages/ai/src/utils/event-stream.ts\<close>: the stream of the
  events of one response. It fixes the two parameters of \<open>EventStream\<close>; the extraction of the result
  throws on an event that does not complete the stream, and is never asked for one.
\<close>

fun assistant_complete :: "assistant_event \<Rightarrow> bool" where
  "assistant_complete (SDone r m) = True"
| "assistant_complete (SError r m) = True"
| "assistant_complete _ = False"

fun assistant_extract :: "assistant_event \<Rightarrow> string + assistant_message" where
  "assistant_extract (SDone r m) = Inr m"
| "assistant_extract (SError r m) = Inr m"
| "assistant_extract _ = Inl ''Unexpected event type for final result''"

type_synonym 'w assistant_stream = "(assistant_event, string + assistant_message, 'w) event_stream"

definition createAssistantMessageEventStream :: "'w assistant_stream" where
  "createAssistantMessageEventStream = es_new"

definition assistant_push :: "assistant_event \<Rightarrow> 'w assistant_stream \<Rightarrow> 'w assistant_stream" where
  "assistant_push e s = es_push assistant_complete assistant_extract e s"

lemma assistant_extract_ok: "assistant_complete e \<Longrightarrow> is_ok (assistant_extract e)"
  by (cases e) simp_all

text \<open>A provider that only pushes: the result is the message of its first closing event.\<close>

lemma assistant_result:
  fixes es :: "assistant_event list"
  shows "es_final (fold assistant_push es (createAssistantMessageEventStream :: 'w assistant_stream)) =
    map_option assistant_extract (List.find assistant_complete es)"
proof -
  have first: "es_first_result assistant_complete assistant_extract False
      (map Push es :: (assistant_event, string + assistant_message, 'w) es_op list)
    = map_option assistant_extract (List.find assistant_complete es)"
    by (induction es) simp_all
  have "fold assistant_push es s = fold (es_step assistant_complete assistant_extract) (map Push es) s"
    for s :: "'w assistant_stream"
    by (induction es arbitrary: s) (simp_all add: assistant_push_def)
  then show ?thesis
    using es_run_final [of "es_new :: 'w assistant_stream"] first
    by (simp add: createAssistantMessageEventStream_def es_new_def)
qed

lemma assistant_result_ok:
  "es_final (fold assistant_push es createAssistantMessageEventStream) = Some r \<Longrightarrow> is_ok r"
  by (auto simp: assistant_result find_Some_iff intro: assistant_extract_ok)

end
