(* ===== verification/DeltaOps.thy ===== *)
theory DeltaOps imports Json begin

text \<open>
  \<open>packages/chord/src/delta/index.ts\<close>, the vocabulary and the applier: path segments and
  their safety check, the operations \<open>r s d a t p\<close>, the validator of a decoded operation
  and \<open>apply\<close> / \<open>applyImmutable\<close>.

  \<open>apply\<close> mutates its argument; here the new value is returned. The reading is exact
  because the payloads of a batch share no node with the target (the code's ownership
  rule), so a value is a tree. When an operation throws, the result is the error.
\<close>

section \<open>Paths\<close>

datatype seg = SKey string | SIdx nat

type_synonym path = "seg list"

datatype delta_error =
    TypeErr string
  | UnsafePath json
  | PathErr path
  | PathErrId nat

definition RESERVED_SEGMENTS :: "string list" where
  "RESERVED_SEGMENTS = [''__proto__'', ''constructor'', ''prototype'']"

definition reserved :: "string \<Rightarrow> bool" where
  "reserved k \<longleftrightarrow> k \<in> set RESERVED_SEGMENTS"

fun seg_json :: "seg \<Rightarrow> json" where
  "seg_json (SKey k) = JStr k"
| "seg_json (SIdx n) = JNum (of_nat n)"

text \<open>The property name a segment denotes on an object.\<close>

fun seg_key :: "seg \<Rightarrow> string" where
  "seg_key (SKey k) = k"
| "seg_key (SIdx n) = show_nat n"

fun assert_safe_seg :: "seg \<Rightarrow> delta_error + unit" where
  "assert_safe_seg (SKey k) = (if reserved k then Inl (UnsafePath (JStr k)) else Inr ())"
| "assert_safe_seg (SIdx n) = Inr ()"

definition assert_safe_path :: "path \<Rightarrow> delta_error + unit" where
  "assert_safe_path p = checkE assert_safe_seg p"

definition safe_path :: "path \<Rightarrow> bool" where
  "safe_path p \<longleftrightarrow> (\<forall>s\<in>set p. case s of SKey k \<Rightarrow> \<not> reserved k | SIdx n \<Rightarrow> True)"

lemma safe_path_alt: "safe_path p \<longleftrightarrow> (\<forall>k. SKey k \<in> set p \<longrightarrow> \<not> reserved k)"
  by (auto simp: safe_path_def split: seg.splits)

lemma assert_safe_path_iff: "assert_safe_path p = Inr () \<longleftrightarrow> safe_path p"
proof -
  have "assert_safe_seg s = Inr () \<longleftrightarrow> (\<forall>k. s = SKey k \<longrightarrow> \<not> reserved k)" for s
    by (cases s) auto
  then show ?thesis by (auto simp: assert_safe_path_def safe_path_alt checkE_ok_iff)
qed

lemma safe_path_simps [simp]:
  "safe_path []" "safe_path (SIdx n # p) \<longleftrightarrow> safe_path p"
  "safe_path (SKey k # p) \<longleftrightarrow> \<not> reserved k \<and> safe_path p"
  "safe_path (p @ q) \<longleftrightarrow> safe_path p \<and> safe_path q"
  by (auto simp: safe_path_alt)

section \<open>Operations\<close>

datatype op =
    OpR json
  | OpS path json
  | OpD path
  | OpA path string
  | OpT path nat
  | OpP path nat nat "json list"

fun is_replace :: "op \<Rightarrow> bool" where
  "is_replace (OpR v) = True"
| "is_replace _ = False"

definition is_base :: "op list \<Rightarrow> bool" where
  "is_base ops = (case ops of [] \<Rightarrow> False | op # _ \<Rightarrow> is_replace op)"

text \<open>The tuple an operation is, in memory and on disk.\<close>

fun op_json :: "op \<Rightarrow> json" where
  "op_json (OpR v) = JArr [JStr ''r'', v]"
| "op_json (OpS p v) = JArr [JStr ''s'', JArr (map seg_json p), v]"
| "op_json (OpD p) = JArr [JStr ''d'', JArr (map seg_json p)]"
| "op_json (OpA p s) = JArr [JStr ''a'', JArr (map seg_json p), JStr s]"
| "op_json (OpT p n) = JArr [JStr ''t'', JArr (map seg_json p), JNum (of_nat n)]"
| "op_json (OpP p i r items) =
     JArr [JStr ''p'', JArr (map seg_json p), JNum (of_nat i), JNum (of_nat r), JArr items]"

section \<open>Validation of an untyped operation\<close>

text \<open>\<open>Number.isInteger(v) && v >= 0\<close>, with the number when it holds.\<close>

definition as_index :: "json \<Rightarrow> nat option" where
  "as_index v = (case v of
     JNum q \<Rightarrow> if of_int \<lfloor>q\<rfloor> = q \<and> 0 \<le> q then Some (nat \<lfloor>q\<rfloor>) else None
   | _ \<Rightarrow> None)"

definition parse_seg :: "json \<Rightarrow> delta_error + seg" where
  "parse_seg v = (case v of
     JStr k \<Rightarrow> if reserved k then Inl (UnsafePath v) else Inr (SKey k)
   | _ \<Rightarrow> (case as_index v of None \<Rightarrow> Inl (UnsafePath v) | Some n \<Rightarrow> Inr (SIdx n)))"

definition assert_path_arg :: "json \<Rightarrow> bool \<Rightarrow> delta_error + path" where
  "assert_path_arg v nonEmpty = (case v of
     JArr segs \<Rightarrow> if nonEmpty \<and> segs = [] then Inl (TypeErr ''path is empty'')
                  else mapE parse_seg segs
   | _ \<Rightarrow> Inl (TypeErr ''path is not an array''))"

definition as_array :: "json \<Rightarrow> json list option" where
  "as_array v = (case v of JArr xs \<Rightarrow> Some xs | _ \<Rightarrow> None)"

definition as_string :: "json \<Rightarrow> string option" where
  "as_string v = (case v of JStr s \<Rightarrow> Some s | _ \<Rightarrow> None)"

definition assert_valid_op :: "json \<Rightarrow> delta_error + op" where
  "assert_valid_op v = (case v of
     JArr (verb # args) \<Rightarrow>
       if verb = JStr ''r'' then
         (case args of [x] \<Rightarrow> Inr (OpR x) | _ \<Rightarrow> Inl (TypeErr ''r arity''))
       else if verb = JStr ''s'' then
         (case args of
            [p, x] \<Rightarrow> bindE (assert_path_arg p True) (\<lambda>p. Inr (OpS p x))
          | _ \<Rightarrow> Inl (TypeErr ''s arity''))
       else if verb = JStr ''d'' then
         (case args of
            [p] \<Rightarrow> bindE (assert_path_arg p True) (\<lambda>p. Inr (OpD p))
          | _ \<Rightarrow> Inl (TypeErr ''d arity''))
       else if verb = JStr ''a'' then
         (case args of
            [p, s] \<Rightarrow> bindE (require (TypeErr ''a shape'') (as_string s)) (\<lambda>s.
                        bindE (assert_path_arg p True) (\<lambda>p. Inr (OpA p s)))
          | _ \<Rightarrow> Inl (TypeErr ''a shape''))
       else if verb = JStr ''t'' then
         (case args of
            [p, n] \<Rightarrow> bindE (require (TypeErr ''t shape'') (as_index n)) (\<lambda>n.
                        bindE (assert_path_arg p True) (\<lambda>p. Inr (OpT p n)))
          | _ \<Rightarrow> Inl (TypeErr ''t shape''))
       else if verb = JStr ''p'' then
         (case args of
            [p, i, r, items] \<Rightarrow>
              bindE (assert_path_arg p False) (\<lambda>p.
              bindE (require (TypeErr ''p index'') (as_index i)) (\<lambda>i.
              bindE (require (TypeErr ''p remove'') (as_index r)) (\<lambda>r.
              bindE (require (TypeErr ''p items'') (as_array items)) (\<lambda>xs.
                Inr (OpP p i r xs)))))
          | _ \<Rightarrow> Inl (TypeErr ''p arity''))
       else Inl (TypeErr ''unknown op verb'')
   | _ \<Rightarrow> Inl (TypeErr ''op is not a tuple''))"

fun op_path :: "op \<Rightarrow> path option" where
  "op_path (OpR v) = None"
| "op_path (OpS p v) = Some p"
| "op_path (OpD p) = Some p"
| "op_path (OpA p s) = Some p"
| "op_path (OpT p n) = Some p"
| "op_path (OpP p i r items) = Some p"

fun is_splice :: "op \<Rightarrow> bool" where
  "is_splice (OpP p i r items) = True"
| "is_splice _ = False"

text \<open>An operation the type allows and the validator accepts.\<close>

definition valid_op :: "op \<Rightarrow> bool" where
  "valid_op op \<longleftrightarrow> (case op_path op of
     None \<Rightarrow> True | Some p \<Rightarrow> safe_path p \<and> (is_splice op \<or> p \<noteq> []))"

lemma as_index_of_nat [simp]: "as_index (JNum (of_nat n)) = Some n"
  by (simp add: as_index_def)

lemma parse_seg_json [simp]:
  "parse_seg (JStr k) = (if reserved k then Inl (UnsafePath (JStr k)) else Inr (SKey k))"
  "parse_seg (JNum (of_nat n)) = Inr (SIdx n)"
  by (simp_all add: parse_seg_def)

lemma parse_path_json: "safe_path p \<Longrightarrow> mapE parse_seg (map seg_json p) = Inr p"
proof (induction p)
  case (Cons s p)
  then show ?case by (cases s) simp_all
qed simp

lemma assert_path_arg_json:
  "safe_path p \<Longrightarrow> p \<noteq> [] \<or> \<not> ne \<Longrightarrow> assert_path_arg (JArr (map seg_json p)) ne = Inr p"
  by (auto simp: assert_path_arg_def parse_path_json)

lemma mapE_parse_safe: "mapE parse_seg vs = Inr p \<Longrightarrow> safe_path p"
proof (induction vs arbitrary: p)
  case (Cons v vs)
  then show ?case
    by (auto simp: bindE_eq_Inr parse_seg_def split: json.splits option.splits if_splits)
qed simp

lemma assert_path_arg_safe: "assert_path_arg v ne = Inr p \<Longrightarrow> safe_path p \<and> (ne \<longrightarrow> p \<noteq> [])"
  by (auto simp: assert_path_arg_def mapE_parse_safe dest: mapE_Inr_length
      split: json.splits if_splits)

lemma op_json_valid: "valid_op op \<Longrightarrow> assert_valid_op (op_json op) = Inr op"
  by (cases op) (simp_all add: assert_valid_op_def valid_op_def assert_path_arg_json as_array_def as_string_def)

lemma assert_valid_op_valid: "assert_valid_op v = Inr op \<Longrightarrow> valid_op op"
  by (auto simp: assert_valid_op_def valid_op_def bindE_eq_Inr require_eq_Inr
      dest!: assert_path_arg_safe split: json.splits list.splits if_splits)

section \<open>Reading and writing a node\<close>

text \<open>One step of \<open>resolveValue\<close>; \<open>full\<close> is the path the error names.\<close>

definition child :: "path \<Rightarrow> seg \<Rightarrow> json \<Rightarrow> delta_error + json" where
  "child full seg node = (case node of
     JArr xs \<Rightarrow> (case seg of
         SKey k \<Rightarrow> Inl (UnsafePath (JStr k))
       | SIdx n \<Rightarrow> if n < length xs then Inr (xs ! n) else Inl (PathErr full))
   | JObj es \<Rightarrow> (case map_of es (seg_key seg) of
         None \<Rightarrow> Inl (PathErr full) | Some v \<Rightarrow> Inr v)
   | _ \<Rightarrow> Inl (PathErr full))"

fun resolve_value :: "path \<Rightarrow> path \<Rightarrow> json \<Rightarrow> delta_error + json" where
  "resolve_value full [] node = Inr node"
| "resolve_value full (seg # p) node = bindE (child full seg node) (resolve_value full p)"

definition resolve :: "path \<Rightarrow> json \<Rightarrow> delta_error + json" where
  "resolve p rt = bindE (resolve_value p p rt)
     (\<lambda>node. if isObj node then Inr node else Inl (PathErr p))"

text \<open>\<open>defineProperty(parent, key, value)\<close>, for an array key in range or one past the end.\<close>

definition write_prop :: "seg \<Rightarrow> json \<Rightarrow> json \<Rightarrow> json" where
  "write_prop key v parent = (case parent of
     JArr xs \<Rightarrow> (case key of
         SKey k \<Rightarrow> parent
       | SIdx n \<Rightarrow> if n < length xs then JArr (xs[n := v]) else JArr (xs @ [v]))
   | JObj es \<Rightarrow> JObj (AList.update (seg_key key) v es)
   | _ \<Rightarrow> parent)"

text \<open>\<open>Object.hasOwn(parent, key) ? parent[key] : undefined\<close>.\<close>

definition read_prop :: "seg \<Rightarrow> json \<Rightarrow> json option" where
  "read_prop key parent = (case parent of
     JArr xs \<Rightarrow> (case key of
         SKey k \<Rightarrow> None
       | SIdx n \<Rightarrow> if n < length xs then Some (xs ! n) else None)
   | JObj es \<Rightarrow> map_of es (seg_key key)
   | _ \<Rightarrow> None)"

lemma AList_update_same: "map_of es k = Some v \<Longrightarrow> AList.update k v es = es"
  by (induction es) (auto split: if_splits)

lemma AList_update_new: "k \<notin> fst ` set es \<Longrightarrow> AList.update k v es = es @ [(k, v)]"
  by (induction es) auto

lemma AList_update_twice: "AList.update k a (AList.update k b es) = AList.update k a es"
  by (induction es) auto

text \<open>Reading and replacing a present child obeys the laws of tree access.\<close>

interpretation jt: tree_access read_prop write_prop
proof
  fix k s c d
  assume g: "read_prop k s = Some c"
  then show "read_prop k (write_prop k d s) = Some d"
    by (auto simp: read_prop_def write_prop_def update_Some_unfold map_of_Cons_code
        update_conv split: json.splits seg.splits if_splits)
next
  fix k s c a b
  assume "read_prop k s = Some c"
  then show "write_prop k a (write_prop k b s) = write_prop k a s"
    by (auto simp: read_prop_def write_prop_def AList_update_twice
        split: json.splits seg.splits if_splits)
next
  fix k s c
  assume "read_prop k s = Some c"
  then show "write_prop k c s = s"
    by (auto simp: read_prop_def write_prop_def AList_update_same
        split: json.splits seg.splits if_splits)
qed

lemma child_Inr_iff: "child full seg node = Inr c \<longleftrightarrow> read_prop seg node = Some c"
  by (auto simp: child_def read_prop_def split: json.splits seg.splits option.splits)

lemma resolve_value_iff: "resolve_value full p rt = Inr c \<longleftrightarrow> jt.getp p rt = Some c"
  by (induction p arbitrary: rt) (auto simp: bindE_eq_Inr child_Inr_iff split: option.splits)

text \<open>
  The mutation of the node at a path, as the value it leaves at the root: walk down as
  \<open>resolveValue\<close> does, change the node, and put the changed children back.
\<close>

fun modify_at :: "path \<Rightarrow> path \<Rightarrow> (json \<Rightarrow> delta_error + json) \<Rightarrow> json \<Rightarrow> delta_error + json" where
  "modify_at full [] f node = f node"
| "modify_at full (seg # p) f node =
     bindE (child full seg node) (\<lambda>c.
       bindE (modify_at full p f c) (\<lambda>d. Inr (write_prop seg d node)))"

lemma modify_at_getp:
  "jt.getp p rt = Some c \<Longrightarrow>
   modify_at full p f rt = bindE (f c) (\<lambda>d. Inr (jt.putp p d rt))"
proof (induction p arbitrary: rt)
  case Nil
  then show ?case by (cases "f c") simp_all
next
  case (Cons seg p)
  then obtain n where n: "read_prop seg rt = Some n" "jt.getp p n = Some c"
    by (auto split: option.splits)
  with Cons.IH show ?case
    by (cases "f c") (simp_all add: child_Inr_iff [THEN iffD2])
qed

lemma modify_at_Inr:
  "modify_at full p f rt = Inr r \<longleftrightarrow>
   (\<exists>c d. jt.getp p rt = Some c \<and> f c = Inr d \<and> r = jt.putp p d rt)"
proof (induction p arbitrary: rt r)
  case Nil
  then show ?case by auto
next
  case (Cons seg p)
  then show ?case
    by (auto simp: bindE_eq_Inr child_Inr_iff split: option.splits)
qed

section \<open>The applier\<close>

text \<open>
  The insertion loop of a splice: \<open>c\<close> items at a time, so that no call has too many
  arguments. \<open>offset\<close> counts the items already inserted.
\<close>

function insert_chunks :: "nat \<Rightarrow> nat \<Rightarrow> nat \<Rightarrow> 'a list \<Rightarrow> 'a list \<Rightarrow> 'a list" where
  "insert_chunks c i offset items xs =
     (if offset < length items \<and> 0 < c
      then insert_chunks c i (offset + c) items
             (splice_at (i + offset) 0 (slice offset (offset + c) items) xs)
      else xs)"
  by pat_completeness auto
termination
  by (relation "measure (\<lambda>(c, i, offset, items, xs). length items - offset)") auto

declare insert_chunks.simps [simp del]

definition CHUNK_SIZE :: nat where
  "CHUNK_SIZE = 10000"

definition splice_chunked :: "nat \<Rightarrow> nat \<Rightarrow> 'a list \<Rightarrow> 'a list \<Rightarrow> 'a list" where
  "splice_chunked i r items xs = insert_chunks CHUNK_SIZE i 0 items (splice_at i r [] xs)"

text \<open>The guards on the parent of a written key: an index may append, never leave a hole.\<close>

definition check_parent :: "path \<Rightarrow> seg \<Rightarrow> json \<Rightarrow> delta_error + unit" where
  "check_parent pp key parent =
     (if \<not> isObj parent then Inl (PathErr pp)
      else case parent of
        JArr xs \<Rightarrow> (case key of
            SKey k \<Rightarrow> Inl (UnsafePath (JStr k))
          | SIdx n \<Rightarrow> if n > length xs then Inl (UnsafePath (seg_json key)) else Inr ())
      | _ \<Rightarrow> Inr ())"

definition delete_prop :: "path \<Rightarrow> seg \<Rightarrow> json \<Rightarrow> delta_error + json" where
  "delete_prop p key parent = (case parent of
     JArr xs \<Rightarrow> (case key of
         SKey k \<Rightarrow> Inl (PathErr p)
       | SIdx n \<Rightarrow> if n \<ge> length xs then Inl (PathErr p)
                   else Inr (JArr (splice_at n 1 [] xs)))
   | JObj es \<Rightarrow> Inr (JObj (AList.delete (seg_key key) es))
   | _ \<Rightarrow> Inr parent)"

definition update_string :: "path \<Rightarrow> seg \<Rightarrow> (string \<Rightarrow> string) \<Rightarrow> json \<Rightarrow> delta_error + json" where
  "update_string p key f parent = (case read_prop key parent of
     Some (JStr s) \<Rightarrow> Inr (write_prop key (JStr (f s)) parent)
   | _ \<Rightarrow> Inl (PathErr p))"

definition splice_node :: "path \<Rightarrow> nat \<Rightarrow> nat \<Rightarrow> json list \<Rightarrow> json \<Rightarrow> delta_error + json" where
  "splice_node p i r items node = (case node of
     JArr xs \<Rightarrow> Inr (JArr (splice_chunked i r items xs))
   | _ \<Rightarrow> Inl (PathErr p))"

text \<open>The effect of \<open>s\<close>, \<open>d\<close>, \<open>a\<close>, \<open>t\<close> on the parent of the key they name.\<close>

fun apply_key :: "op \<Rightarrow> seg \<Rightarrow> json \<Rightarrow> delta_error + json" where
  "apply_key (OpS p v) key parent = Inr (write_prop key v parent)"
| "apply_key (OpD p) key parent = delete_prop p key parent"
| "apply_key (OpA p s) key parent = update_string p key (\<lambda>c. c @ s) parent"
| "apply_key (OpT p n) key parent = update_string p key (drop n) parent"
| "apply_key _ key parent = Inr parent"

definition apply_op :: "op \<Rightarrow> json \<Rightarrow> delta_error + json" where
  "apply_op op rt = (case op of
     OpR v \<Rightarrow> Inr v
   | OpP p i r items \<Rightarrow>
       bindE (assert_safe_path p) (\<lambda>_. modify_at p p (splice_node p i r items) rt)
   | _ \<Rightarrow> (case op_path op of
       None \<Rightarrow> Inr rt
     | Some p \<Rightarrow>
       bindE (assert_safe_path p) (\<lambda>_.
         modify_at (butlast p) (butlast p)
           (\<lambda>parent. bindE (check_parent (butlast p) (last p) parent)
              (\<lambda>_. apply_key op (last p) parent)) rt)))"

definition apply_ops :: "op list \<Rightarrow> json \<Rightarrow> delta_error + json" where
  "apply_ops ops rt = foldE apply_op ops rt"

text \<open>\<open>apply\<close> on tuples: each is validated when its turn comes.\<close>

definition apply_raw :: "json list \<Rightarrow> json \<Rightarrow> delta_error + json" where
  "apply_raw ops rt =
     foldE (\<lambda>v t. bindE (assert_valid_op v) (\<lambda>op. apply_op op t)) ops rt"

section \<open>The immutable applier\<close>

text \<open>\<open>Object.hasOwn(array, key)\<close> for a string key.\<close>

definition array_has_own :: "json list \<Rightarrow> string \<Rightarrow> bool" where
  "array_has_own xs k \<longleftrightarrow> k = ''length'' \<or> k \<in> set (map show_nat [0..<length xs])"

definition has_own :: "seg \<Rightarrow> json \<Rightarrow> bool" where
  "has_own key v = (case v of
     JArr xs \<Rightarrow> (case key of SKey k \<Rightarrow> array_has_own xs k | SIdx n \<Rightarrow> n < length xs)
   | JObj es \<Rightarrow> map_of es (seg_key key) \<noteq> None
   | _ \<Rightarrow> False)"

text \<open>Copying the containers from the root down to a path: the copy as a value.\<close>

definition copy_node :: "path \<Rightarrow> json \<Rightarrow> delta_error + json" where
  "copy_node p v = (case v of
     JArr xs \<Rightarrow> Inr (JArr xs)
   | JObj es \<Rightarrow> Inr (JObj (foldl (\<lambda>acc (k, c). AList.update k c acc) [] es))
   | _ \<Rightarrow> Inl (PathErr p))"

fun copy_containers :: "path \<Rightarrow> path \<Rightarrow> json \<Rightarrow> delta_error + json" where
  "copy_containers full [] source = copy_node full source"
| "copy_containers full (seg # p) source =
     bindE (copy_node full source) (\<lambda>destination.
       if \<not> isObj source \<or> \<not> has_own seg source then Inl (PathErr full)
       else case (source, seg) of
         (JArr xs, SKey k) \<Rightarrow> Inl (UnsafePath (JStr k))
       | _ \<Rightarrow> (case read_prop seg source of
           None \<Rightarrow> Inl (PathErr full)
         | Some c \<Rightarrow> bindE (copy_containers full p c)
             (\<lambda>copied. Inr (write_prop seg copied destination))))"

fun container_path :: "op \<Rightarrow> path" where
  "container_path (OpP p i r items) = p"
| "container_path op = (case op_path op of None \<Rightarrow> [] | Some p \<Rightarrow> butlast p)"

definition apply_immutable_op :: "op \<Rightarrow> json \<Rightarrow> delta_error + json" where
  "apply_immutable_op op rt = (case op of
     OpR v \<Rightarrow> Inr v
   | _ \<Rightarrow> bindE (copy_containers (container_path op) (container_path op) rt) (apply_op op))"

definition apply_immutable :: "op list \<Rightarrow> json \<Rightarrow> delta_error + json" where
  "apply_immutable ops rt = foldE apply_immutable_op ops rt"

section \<open>Lemmas on the applier\<close>

lemma insert_chunks_eq:
  assumes "0 < c" and "ys = take i xs @ take offset items @ drop (i + r) xs"
    and "i \<le> length xs \<or> drop (i + r) xs = []"
  shows "insert_chunks c i offset items ys = take i xs @ items @ drop (i + r) xs"
  using assms
proof (induction c i offset items ys rule: insert_chunks.induct)
  case (1 c i offset items ys)
  show ?case
  proof (cases "offset < length items")
    case True
    let ?chunk = "slice offset (offset + c) items"
    have t: "take offset items @ ?chunk = take (offset + c) items"
      using append_take_drop_id [of offset "take (offset + c) items"]
      by (simp add: slice_def min_def)
    have "splice_at (i + offset) 0 ?chunk ys = take i xs @ take (offset + c) items @ drop (i + r) xs"
    proof (cases "i \<le> length xs")
      case True
      then have len: "length (take i xs @ take offset items) = i + offset"
        using \<open>offset < length items\<close> by simp
      have "splice_at (i + offset) 0 ?chunk ys
          = (take i xs @ take offset items) @ ?chunk @ drop (i + r) xs"
        using "1.prems"(2) len by (simp add: splice_at_def)
      then show ?thesis using t by (metis append.assoc)
    next
      case False
      then have "drop (i + r) xs = []" "length ys \<le> i + offset" using "1.prems" by auto
      then show ?thesis using t "1.prems"(2) by (simp add: splice_at_def)
    qed
    with "1.IH" "1.prems" True show ?thesis by (simp add: insert_chunks.simps [of c i offset])
  next
    case False
    with "1.prems" show ?thesis by (simp add: insert_chunks.simps [of c i offset])
  qed
qed

lemma splice_chunked_eq: "splice_chunked i r items xs = splice_at i r items xs"
proof -
  have "splice_at i r [] xs = take i xs @ take 0 items @ drop (i + r) xs"
    by (simp add: splice_at_def)
  moreover have "i \<le> length xs \<or> drop (i + r) xs = []" by auto
  ultimately show ?thesis
    unfolding splice_chunked_def
    by (subst insert_chunks_eq [of CHUNK_SIZE _ i xs 0 items r]) (simp_all add: CHUNK_SIZE_def splice_at_def)
qed

text \<open>Each operation, at a place that resolves.\<close>

lemma apply_op_r: "apply_op (OpR v) rt = Inr v"
  by (simp add: apply_op_def)

lemma apply_op_key:
  assumes "op_path op = Some (p @ [k])" "\<not> is_splice op" "safe_path (p @ [k])"
    and "jt.getp p rt = Some parent"
  shows "apply_op op rt =
    bindE (bindE (check_parent p k parent) (\<lambda>_. apply_key op k parent))
      (\<lambda>d. Inr (jt.putp p d rt))"
  using assms assert_safe_path_iff [of "p @ [k]"]
  by (cases op) (simp_all add: apply_op_def modify_at_getp)

lemma check_parent_obj [simp]: "check_parent p k (JObj es) = Inr ()"
  by (simp add: check_parent_def)

lemma check_parent_arr [simp]: "n \<le> length xs \<Longrightarrow> check_parent p (SIdx n) (JArr xs) = Inr ()"
  by (simp add: check_parent_def)

lemma apply_op_splice:
  assumes "safe_path p" "jt.getp p rt = Some (JArr xs)"
  shows "apply_op (OpP p i r items) rt = Inr (jt.putp p (JArr (splice_at i r items xs)) rt)"
  using assms assert_safe_path_iff [of p]
  by (simp add: apply_op_def modify_at_getp splice_node_def splice_chunked_eq)

lemma apply_ops_simps [simp]:
  "apply_ops [] rt = Inr rt"
  "apply_ops (op # ops) rt = bindE (apply_op op rt) (apply_ops ops)"
  by (simp_all add: apply_ops_def [abs_def])

lemma apply_ops_append: "apply_ops (xs @ ys) rt = bindE (apply_ops xs rt) (apply_ops ys)"
  by (simp add: apply_ops_def [abs_def] foldE_append)

text \<open>What a successful operation did.\<close>

lemma apply_op_Inr_cases:
  assumes "apply_op op rt = Inr r"
  obtains v where "op = OpR v" "r = v"
  | p i n items xs where "op = OpP p i n items" "safe_path p" "jt.getp p rt = Some (JArr xs)"
      "r = jt.putp p (JArr (splice_at i n items xs)) rt"
  | p k parent d where "op_path op = Some p" "\<not> is_splice op" "safe_path p" "k = last p"
      "jt.getp (butlast p) rt = Some parent" "check_parent (butlast p) k parent = Inr ()"
      "apply_key op k parent = Inr d" "r = jt.putp (butlast p) d rt"
proof (cases op)
  case (OpR v)
  with that(1) assms show thesis by (simp add: apply_op_def)
next
  case (OpP p i n items)
  with assms obtain c d where "safe_path p" "jt.getp p rt = Some c" "splice_node p i n items c = Inr d"
      "r = jt.putp p d rt"
    by (auto simp: apply_op_def bindE_eq_Inr assert_safe_path_iff modify_at_Inr)
  then show thesis using that(2) OpP
    by (auto simp: splice_node_def splice_chunked_eq split: json.splits)
next
  case (OpS p v)
  with that(3) [of p "last p"] assms show thesis
    by (auto simp: apply_op_def bindE_eq_Inr assert_safe_path_iff modify_at_Inr)
next
  case (OpD p)
  with that(3) [of p "last p"] assms show thesis
    by (auto simp: apply_op_def bindE_eq_Inr assert_safe_path_iff modify_at_Inr)
next
  case (OpA p t)
  with that(3) [of p "last p"] assms show thesis
    by (auto simp: apply_op_def bindE_eq_Inr assert_safe_path_iff modify_at_Inr)
next
  case (OpT p t)
  with that(3) [of p "last p"] assms show thesis
    by (auto simp: apply_op_def bindE_eq_Inr assert_safe_path_iff modify_at_Inr)
qed

section \<open>Well-formed values stay well formed\<close>

lemma wf_read_prop: "wf_json v \<Longrightarrow> read_prop k v = Some c \<Longrightarrow> wf_json c"
  by (auto simp: read_prop_def split: json.splits seg.splits if_splits intro: wf_json_entry)

lemma set_update_entries: "e \<in> set (AList.update k v es) \<Longrightarrow> e = (k, v) \<or> e \<in> set es"
  by (induction es) (auto split: if_splits)

lemma wf_write_prop: "wf_json v \<Longrightarrow> wf_json d \<Longrightarrow> wf_json (write_prop k d v)"
proof (cases v)
  case (JObj es)
  assume w: "wf_json v" "wf_json d"
  then have "\<forall>e\<in>set (AList.update (seg_key k) d es). wf_json (snd e)"
    using JObj by (auto dest!: set_update_entries)
  then show ?thesis using JObj w by (simp add: write_prop_def distinct_update)
next
  case (JArr xs)
  assume "wf_json v" "wf_json d"
  with JArr show ?thesis
    by (auto simp: write_prop_def dest: set_update_subset_insert [THEN subsetD] split: seg.splits)
qed (simp_all add: write_prop_def)

lemma wf_getp: "wf_json v \<Longrightarrow> jt.getp p v = Some c \<Longrightarrow> wf_json c"
  by (induction p arbitrary: v) (auto split: option.splits dest: wf_read_prop)

lemma wf_putp: "wf_json v \<Longrightarrow> wf_json d \<Longrightarrow> wf_json (jt.putp p d v)"
proof (induction p arbitrary: v)
  case (Cons k p)
  then show ?case by (auto split: option.split intro: wf_write_prop wf_read_prop)
qed simp

lemma wf_splice_at: "\<forall>x\<in>set xs. wf_json x \<Longrightarrow> \<forall>x\<in>set items. wf_json x \<Longrightarrow>
    wf_json (JArr (splice_at i r items xs))"
  using splice_at_set [of i r items xs] by auto

fun wf_op :: "op \<Rightarrow> bool" where
  "wf_op (OpR v) = wf_json v"
| "wf_op (OpS p v) = wf_json v"
| "wf_op (OpP p i r items) = (\<forall>x\<in>set items. wf_json x)"
| "wf_op _ = True"

lemma set_delete_entries: "e \<in> set (AList.delete k es) \<Longrightarrow> e \<in> set es"
  by (auto simp: AList.delete_eq)

lemma wf_delete_prop: "wf_json v \<Longrightarrow> delete_prop p k v = Inr d \<Longrightarrow> wf_json d"
proof (cases v)
  case (JObj es)
  assume w: "wf_json v" "delete_prop p k v = Inr d"
  then have "\<forall>e\<in>set (AList.delete (seg_key k) es). wf_json (snd e)"
    using JObj set_delete_entries by fastforce
  with w JObj show ?thesis by (auto simp: delete_prop_def distinct_delete)
qed (auto simp: delete_prop_def dest: wf_splice_at [of _ "[]"] split: seg.splits if_splits)

lemma wf_update_string: "wf_json v \<Longrightarrow> update_string p k f v = Inr d \<Longrightarrow> wf_json d"
  by (auto simp: update_string_def split: option.splits json.splits intro: wf_write_prop)

lemma wf_apply_key: "wf_op op \<Longrightarrow> wf_json v \<Longrightarrow> apply_key op k v = Inr d \<Longrightarrow> wf_json d"
  by (cases op) (auto intro: wf_write_prop wf_delete_prop wf_update_string)

lemma wf_apply_op:
  assumes "wf_op op" "wf_json rt" "apply_op op rt = Inr r"
  shows "wf_json r"
  using assms(3)
proof (cases rule: apply_op_Inr_cases)
  case (2 p i n items xs)
  then have "wf_json (JArr (splice_at i n items xs))"
    using assms(1,2) wf_getp [OF assms(2) 2(3)] by (intro wf_splice_at) auto
  then show ?thesis using 2(4) assms(2) wf_putp by blast
next
  case (3 p k parent d)
  then show ?thesis using assms(1,2) wf_getp wf_apply_key wf_putp by metis
qed (use assms in simp)

lemma wf_apply_ops:
  "\<forall>op\<in>set ops. wf_op op \<Longrightarrow> wf_json rt \<Longrightarrow> apply_ops ops rt = Inr r \<Longrightarrow> wf_json r"
  by (induction ops arbitrary: rt) (auto simp: bindE_eq_Inr dest: wf_apply_op)

section \<open>The applier respects structural equality\<close>

lemma read_prop_equal:
  assumes "wf_json a" "wf_json b" "json_equal a b"
  shows "rel_option json_equal (read_prop k a) (read_prop k b)"
proof (cases a)
  case (JArr xs)
  then obtain ys where "b = JArr ys" "list_all2 json_equal xs ys"
    using assms by (cases b) auto
  with JArr show ?thesis
    by (auto simp: read_prop_def list_all2_conv_all_nth split: seg.splits)
next
  case (JObj es)
  then obtain fs where "b = JObj fs" using assms by (cases b) auto
  with JObj assms show ?thesis by (simp add: read_prop_def json_equal_obj_iff)
qed (use assms in \<open>auto simp: read_prop_def json_equal_prim\<close>)

lemma write_prop_equal:
  assumes "wf_json a" "wf_json b" "json_equal a b" "json_equal c d"
  shows "json_equal (write_prop k c a) (write_prop k d b)"
proof (cases a)
  case (JArr xs)
  then obtain ys where b: "b = JArr ys" "list_all2 json_equal xs ys"
    using assms by (cases b) auto
  then have "length xs = length ys" by (simp add: list_all2_lengthD)
  with JArr b assms show ?thesis
    by (auto simp: write_prop_def intro!: list_all2_update_cong list_all2_appendI split: seg.splits)
next
  case (JObj es)
  then obtain fs where b: "b = JObj fs" using assms by (cases b) auto
  have "distinct (map fst (AList.update (seg_key k) c es))"
    "distinct (map fst (AList.update (seg_key k) d fs))"
    using JObj b assms by (simp_all add: distinct_update)
  with JObj b assms show ?thesis
    by (auto simp: write_prop_def json_equal_obj_iff update_conv)
qed (use assms in \<open>auto simp: write_prop_def json_equal_prim\<close>)

lemma splice_at_equal:
  "list_all2 json_equal xs ys \<Longrightarrow> list_all2 json_equal vs ws \<Longrightarrow>
   list_all2 json_equal (splice_at i r vs xs) (splice_at i r ws ys)"
  unfolding splice_at_def by (intro list_all2_appendI list_all2_takeI list_all2_dropI) simp_all

lemma getp_equal:
  "wf_json a \<Longrightarrow> wf_json b \<Longrightarrow> json_equal a b \<Longrightarrow>
   rel_option json_equal (jt.getp p a) (jt.getp p b)"
proof (induction p arbitrary: a b)
  case (Cons k p)
  note r = read_prop_equal [OF Cons.prems, of k]
  show ?case
  proof (cases "read_prop k a")
    case None
    with r show ?thesis by (simp add: option_rel_Some1)
  next
    case (Some c)
    with r obtain d where d: "read_prop k b = Some d" "json_equal c d"
      by (auto simp: option_rel_Some1)
    then have "rel_option json_equal (jt.getp p c) (jt.getp p d)"
      using Cons.IH Cons.prems Some wf_read_prop by blast
    with Some d show ?thesis by simp
  qed
qed simp

lemma putp_equal:
  "wf_json a \<Longrightarrow> wf_json b \<Longrightarrow> json_equal a b \<Longrightarrow> json_equal c d \<Longrightarrow>
   json_equal (jt.putp p c a) (jt.putp p d b)"
proof (induction p arbitrary: a b)
  case (Cons k p)
  note r = read_prop_equal [OF Cons.prems(1-3), of k]
  show ?case
  proof (cases "read_prop k a")
    case None
    with r Cons.prems show ?thesis by simp
  next
    case (Some u)
    with r obtain v where v: "read_prop k b = Some v" "json_equal u v"
      by (auto simp: option_rel_Some1)
    then have "json_equal (jt.putp p c u) (jt.putp p d v)"
      using Cons.IH Cons.prems Some wf_read_prop by blast
    with Some v Cons.prems show ?thesis by (simp add: write_prop_equal)
  qed
qed simp

lemma check_parent_equal: "json_equal a b \<Longrightarrow> check_parent p k a = check_parent p k b"
  by (cases a; cases b) (auto simp: check_parent_def dest: list_all2_lengthD split: seg.splits)

lemma apply_key_equal:
  assumes "wf_op op" "wf_json a" "wf_json b" "json_equal a b" "apply_key op k a = Inr c"
  shows "\<exists>d. apply_key op k b = Inr d \<and> json_equal c d"
proof -
  have upd: "\<exists>d. update_string p k f b = Inr d \<and> json_equal c d"
    if u: "update_string p k f a = Inr c" for p f
  proof -
    obtain s where "read_prop k a = Some (JStr s)" "c = write_prop k (JStr (f s)) a"
      using u by (auto simp: update_string_def split: option.splits json.splits)
    moreover have "read_prop k b = Some (JStr s)"
      using calculation read_prop_equal [OF assms(2-4), of k] by (auto simp: option_rel_Some1)
    ultimately show ?thesis
      using assms(2-4) write_prop_equal by (fastforce simp: update_string_def)
  qed
  show ?thesis
  proof (cases op)
    case (OpS p v)
    then show ?thesis using assms write_prop_equal json_equal_refl by auto
  next
    case (OpD p)
    show ?thesis
    proof (cases a)
      case (JArr xs)
      then obtain ys where b: "b = JArr ys" "list_all2 json_equal xs ys"
        using assms(4) by (cases b) auto
      moreover have "length xs = length ys" using b by (simp add: list_all2_lengthD)
      ultimately show ?thesis using assms(5) OpD JArr
        by (auto simp: delete_prop_def intro: splice_at_equal split: seg.splits if_splits)
    next
      case (JObj es)
      then obtain fs where b: "b = JObj fs" using assms(4) by (cases b) auto
      with JObj assms OpD show ?thesis
        by (auto simp: delete_prop_def json_equal_obj_iff distinct_delete delete_conv)
    qed (use assms OpD in \<open>auto simp: delete_prop_def json_equal_prim\<close>)
  next
    case (OpA p t)
    with assms(5) upd show ?thesis by simp
  next
    case (OpT p t)
    with assms(5) upd show ?thesis by simp
  qed (use assms in auto)
qed

lemma apply_op_equal:
  assumes "wf_op op" "wf_json a" "wf_json b" "json_equal a b" "apply_op op a = Inr a'"
  shows "\<exists>b'. apply_op op b = Inr b' \<and> json_equal a' b'"
  using assms(5)
proof (cases rule: apply_op_Inr_cases)
  case (1 v)
  with assms show ?thesis by (simp add: apply_op_r json_equal_refl)
next
  case (2 p i n items xs)
  then obtain ys where y: "jt.getp p b = Some (JArr ys)" "list_all2 json_equal xs ys"
    using getp_equal [OF assms(2-4), of p] by (auto simp: option_rel_Some1) (metis json_equal_arr json.exhaust json_equal.simps)
  have "json_equal (JArr (splice_at i n items xs)) (JArr (splice_at i n items ys))"
    using y(2) assms(1) 2(1) by (auto intro!: splice_at_equal list.rel_refl_strong json_equal_refl)
  then show ?thesis using 2 y(1) assms(2-4) by (auto simp: apply_op_splice intro: putp_equal)
next
  case (3 p k parent d)
  then obtain q where q: "jt.getp (butlast p) b = Some q" "json_equal parent q"
    using getp_equal [OF assms(2-4), of "butlast p"] by (auto simp: option_rel_Some1)
  have w: "wf_json parent" "wf_json q" using 3(5) q(1) assms wf_getp by blast+
  obtain e where e: "apply_key op k q = Inr e" "json_equal d e"
    using apply_key_equal [OF assms(1) w q(2) 3(7)] by blast
  have "check_parent (butlast p) k q = Inr ()" using 3(6) check_parent_equal [OF q(2)] by simp
  then have "apply_op op b = Inr (jt.putp (butlast p) e b)"
    using 3 q(1) e(1) assert_safe_path_iff [of p]
    by (cases op) (simp_all add: apply_op_def modify_at_getp)
  then show ?thesis using 3(8) e(2) assms(2-4) putp_equal by blast
qed

lemma apply_ops_equal:
  "\<forall>op\<in>set ops. wf_op op \<Longrightarrow> wf_json a \<Longrightarrow> wf_json b \<Longrightarrow> json_equal a b \<Longrightarrow>
   apply_ops ops a = Inr a' \<Longrightarrow> \<exists>b'. apply_ops ops b = Inr b' \<and> json_equal a' b'"
proof (induction ops arbitrary: a b)
  case (Cons op ops)
  then obtain c where c: "apply_op op a = Inr c" "apply_ops ops c = Inr a'"
    by (auto simp: bindE_eq_Inr)
  obtain d where d: "apply_op op b = Inr d" "json_equal c d"
    using apply_op_equal [OF _ Cons.prems(2-4) c(1)] Cons.prems(1) by auto
  have "wf_json c" "wf_json d"
    using Cons.prems c(1) d(1) wf_apply_op [of op a c] wf_apply_op [of op b d] by simp_all
  with Cons.IH [of c d] Cons.prems(1) c(2) d show ?case by simp
qed simp

section \<open>Copying the containers on a path\<close>

lemma foldl_update_same:
  "distinct (map fst (acc @ es)) \<Longrightarrow>
   foldl (\<lambda>acc (k, c). AList.update k c acc) acc es = acc @ es"
proof (induction es arbitrary: acc)
  case (Cons e es)
  obtain k c where e: "e = (k, c)" by (cases e)
  with Cons.prems have "k \<notin> fst ` set acc" by auto
  then have "AList.update k c acc = acc @ [(k, c)]" by (rule AList_update_new)
  with Cons e show ?case by simp
qed simp

lemma copy_node_Inr_iff: "wf_json v \<Longrightarrow> copy_node p v = Inr c \<longleftrightarrow> isObj v \<and> c = v"
  using foldl_update_same [of "[]"] by (cases v) (auto simp: copy_node_def)

lemma read_prop_has_own: "read_prop k v = Some c \<Longrightarrow> isObj v \<and> has_own k v"
  by (auto simp: read_prop_def has_own_def split: json.splits seg.splits if_splits)

lemma copy_containers_Inr_iff:
  "wf_json v \<Longrightarrow> copy_containers full p v = Inr r \<longleftrightarrow>
   r = v \<and> (\<exists>c. jt.getp p v = Some c \<and> isObj c)"
proof (induction p arbitrary: v r)
  case Nil
  then show ?case by (auto simp: copy_node_Inr_iff)
next
  case (Cons k p)
  show ?case
  proof (cases "read_prop k v")
    case None
    then have "copy_containers full (k # p) v \<noteq> Inr r"
      by (auto simp: bindE_eq_Inr split: json.splits seg.splits)
    with None show ?thesis by simp
  next
    case (Some c)
    then have h: "isObj v" "has_own k v" using read_prop_has_own by blast+
    have na: "\<not> (\<exists>xs j. v = JArr xs \<and> k = SKey j)" using Some by (auto simp: read_prop_def)
    have "copy_containers full (k # p) v = Inr r \<longleftrightarrow>
        (\<exists>d. copy_containers full p c = Inr d \<and> r = write_prop k d v)"
      using h na Some copy_node_Inr_iff [OF Cons.prems, of full v]
      by (auto simp: bindE_eq_Inr split: json.splits seg.splits)
    also have "\<dots> \<longleftrightarrow> r = write_prop k c v \<and> (\<exists>e. jt.getp p c = Some e \<and> isObj e)"
      using Cons.IH [OF wf_read_prop [OF Cons.prems Some]] by auto
    finally show ?thesis using Some jt.put_get [OF Some] by simp
  qed
qed

lemma check_parent_isObj: "check_parent p k v = Inr () \<Longrightarrow> isObj v"
  by (auto simp: check_parent_def split: if_splits)

lemma apply_op_container:
  assumes "apply_op op rt = Inr r" "\<not> is_replace op"
  shows "\<exists>c. jt.getp (container_path op) rt = Some c \<and> isObj c"
  using assms(1)
proof (cases rule: apply_op_Inr_cases)
  case (3 p k parent d)
  then have "container_path op = butlast p" by (cases op) simp_all
  with 3 check_parent_isObj show ?thesis by auto
qed (use assms in auto)

lemma apply_immutable_op_iff:
  assumes "wf_json rt"
  shows "apply_immutable_op op rt = Inr r \<longleftrightarrow> apply_op op rt = Inr r"
proof (cases "is_replace op")
  case True
  then show ?thesis by (cases op) (simp_all add: apply_immutable_op_def apply_op_def)
next
  case False
  then have "apply_immutable_op op rt
      = bindE (copy_containers (container_path op) (container_path op) rt) (apply_op op)"
    by (cases op) (simp_all add: apply_immutable_op_def)
  then show ?thesis
    using apply_op_container [OF _ False] copy_containers_Inr_iff [OF assms]
    by (auto simp: bindE_eq_Inr)
qed

section \<open>What a batch can allocate\<close>

text \<open>The size of a value: one per node, plus the characters of its strings and keys.\<close>

fun weight :: "json \<Rightarrow> nat" where
  "weight (JStr s) = 1 + length s"
| "weight (JArr xs) = 1 + sum_list (map weight xs)"
| "weight (JObj es) = 1 + sum_list (map (\<lambda>e. length (fst e) + weight (snd e)) es)"
| "weight _ = 1"

fun op_weight :: "op \<Rightarrow> nat" where
  "op_weight (OpR v) = weight v"
| "op_weight (OpS p v) = length (seg_key (last p)) + weight v"
| "op_weight (OpD p) = 0"
| "op_weight (OpA p s) = length s"
| "op_weight (OpT p n) = 0"
| "op_weight (OpP p i r items) = sum_list (map weight items)"

lemma sum_list_update_entries:
  fixes f :: "string \<times> json \<Rightarrow> nat"
  shows "map_of es k = Some c \<Longrightarrow>
   sum_list (map f (AList.update k d es)) + f (k, c) = sum_list (map f es) + f (k, d)"
  by (induction es) (auto split: if_splits)

lemma sum_list_update_nth:
  fixes f :: "json \<Rightarrow> nat"
  shows "n < length xs \<Longrightarrow> sum_list (map f (xs[n := d])) + f (xs ! n) = sum_list (map f xs) + f d"
proof (induction xs arbitrary: n)
  case (Cons x xs)
  then show ?case by (cases n) auto
qed simp

lemma weight_write_present:
  "read_prop k v = Some c \<Longrightarrow> weight (write_prop k d v) + weight c = weight v + weight d"
  using sum_list_update_entries [of _ "seg_key k" c "\<lambda>e. length (fst e) + weight (snd e)" d]
    sum_list_update_nth [of _ _ weight d]
  by (auto simp: read_prop_def write_prop_def split: json.splits seg.splits if_splits)

lemma weight_putp:
  "jt.getp p v = Some c \<Longrightarrow> weight (jt.putp p d v) + weight c = weight v + weight d"
proof (induction p arbitrary: v)
  case (Cons k p)
  then obtain n where n: "read_prop k v = Some n" "jt.getp p n = Some c"
    by (auto split: option.splits)
  with Cons.IH [of n] weight_write_present [of k v n "jt.putp p d n"] show ?case by simp
qed simp

lemma weight_write_absent:
  assumes "read_prop k v = None"
  shows "weight (write_prop k d v) \<le> weight v + length (seg_key k) + weight d"
proof (cases v)
  case (JObj es)
  then have "seg_key k \<notin> fst ` set es"
    using assms by (simp add: read_prop_def map_of_eq_None_iff)
  then show ?thesis using JObj by (simp add: write_prop_def AList_update_new)
next
  case (JArr xs)
  then show ?thesis using assms
    by (auto simp: read_prop_def write_prop_def split: seg.splits if_splits)
qed (simp_all add: write_prop_def)

lemma weight_write: "weight (write_prop k d v) \<le> weight v + length (seg_key k) + weight d"
proof (cases "read_prop k v")
  case (Some c)
  from weight_write_present [OF this, of d] show ?thesis by simp
qed (rule weight_write_absent)

lemma sum_list_take_drop_le:
  fixes f :: "'a \<Rightarrow> nat"
  shows "sum_list (map f (take i xs)) + sum_list (map f (drop (i + r) xs)) \<le> sum_list (map f xs)"
proof -
  have "sum_list (map f xs) = sum_list (map f (take i xs)) + sum_list (map f (drop i xs))"
    by (metis append_take_drop_id map_append sum_list_append)
  moreover have "sum_list (map f (drop i xs))
      = sum_list (map f (take r (drop i xs))) + sum_list (map f (drop (i + r) xs))"
    by (metis add.commute append_take_drop_id drop_drop map_append sum_list_append)
  ultimately show ?thesis by simp
qed

lemma weight_splice:
  "weight (JArr (splice_at i r items xs)) \<le> weight (JArr xs) + sum_list (map weight items)"
  using sum_list_take_drop_le [of weight i xs r] by (simp add: splice_at_def)

lemma weight_delete_entries:
  fixes f :: "string \<times> json \<Rightarrow> nat"
  shows "sum_list (map f (AList.delete k es)) \<le> sum_list (map f es)"
  by (induction es) (auto simp: AList.delete_eq)

lemma weight_apply_key:
  assumes "apply_key op k v = Inr d" "op_path op = Some p" "k = last p" "\<not> is_splice op"
  shows "weight d \<le> weight v + op_weight op"
proof -
  have upd: "weight d \<le> weight v + n"
    if u: "update_string q k f v = Inr d" and f: "\<And>s. length (f s) \<le> length s + n" for q f n
  proof -
    obtain s where s: "read_prop k v = Some (JStr s)" "d = write_prop k (JStr (f s)) v"
      using u by (auto simp: update_string_def split: option.splits json.splits)
    show ?thesis using weight_write_present [OF s(1), of "JStr (f s)"] f [of s] s(2) by simp
  qed
  show ?thesis
  proof (cases op)
    case (OpS q u)
    then show ?thesis using assms weight_write [of k u v] by simp
  next
    case (OpD q)
    then show ?thesis using assms weight_splice [of _ 1 "[]"] weight_delete_entries
      by (auto simp: delete_prop_def split: json.splits seg.splits if_splits)
  next
    case (OpA q t)
    with assms upd [of q "\<lambda>c. c @ t" "length t"] show ?thesis by simp
  next
    case (OpT q n)
    with assms upd [of q "drop n" 0] show ?thesis by simp
  qed (use assms in auto)
qed

lemma weight_apply_op:
  assumes "apply_op op rt = Inr r"
  shows "weight r \<le> weight rt + op_weight op"
  using assms
proof (cases rule: apply_op_Inr_cases)
  case (2 p i n items xs)
  then show ?thesis
    using weight_putp [OF 2(3), of "JArr (splice_at i n items xs)"] weight_splice [of i n items xs]
    by simp
next
  case (3 p k parent d)
  then show ?thesis
    using weight_putp [OF 3(5), of d] weight_apply_key [OF 3(7,1,4,2)] by simp
qed simp

section \<open>Reserved property names\<close>

text \<open>Some object inside the value has an own property with a reserved name; those it has.\<close>

fun has_reserved :: "json \<Rightarrow> bool" where
  "has_reserved (JArr xs) = (\<exists>x\<in>set xs. has_reserved x)"
| "has_reserved (JObj es) = (\<exists>e\<in>set es. reserved (fst e) \<or> has_reserved (snd e))"
| "has_reserved _ = False"

fun reserved_props :: "json \<Rightarrow> (string \<times> json) set" where
  "reserved_props (JArr xs) = (\<Union>x\<in>set xs. reserved_props x)"
| "reserved_props (JObj es) = {e \<in> set es. reserved (fst e)} \<union> (\<Union>e\<in>set es. reserved_props (snd e))"
| "reserved_props _ = {}"

lemma reserved_props_obj: "e \<in> reserved_props (JObj es) \<longleftrightarrow>
    e \<in> set es \<and> reserved (fst e) \<or> (\<exists>f\<in>set es. e \<in> reserved_props (snd f))"
  by auto

lemma reserved_props_obj_mono: "set es \<subseteq> set fs \<Longrightarrow> reserved_props (JObj es) \<subseteq> reserved_props (JObj fs)"
  unfolding subset_iff reserved_props_obj by blast

lemma has_reserved_iff: "has_reserved v \<longleftrightarrow> reserved_props v \<noteq> {}"
proof (induction v rule: has_reserved.induct)
  case (2 es)
  then show ?case unfolding ex_in_conv [symmetric] reserved_props_obj has_reserved.simps by blast
qed auto

fun op_reserved :: "op \<Rightarrow> (string \<times> json) set" where
  "op_reserved (OpR v) = reserved_props v"
| "op_reserved (OpS p v) = reserved_props v"
| "op_reserved (OpP p i r items) = reserved_props (JArr items)"
| "op_reserved _ = {}"

lemma reserved_show_nat [simp]: "\<not> reserved (show_nat n)"
proof
  assume "reserved (show_nat n)"
  then have "CHR ''o'' \<in> set (show_nat n)" by (auto simp: reserved_def RESERVED_SEGMENTS_def)
  then show False using show_nat_digits [of "CHR ''o''" n] by simp
qed

lemma reserved_seg_key: "reserved (seg_key k) \<longleftrightarrow> (\<exists>s. k = SKey s \<and> reserved s)"
  by (cases k) auto

lemma reserved_read: "read_prop k v = Some c \<Longrightarrow> reserved_props c \<subseteq> reserved_props v"
  by (fastforce simp: read_prop_def split: json.splits seg.splits if_splits dest: map_of_SomeD)

lemma reserved_write:
  assumes "\<not> reserved (seg_key k)"
  shows "reserved_props (write_prop k d v) \<subseteq> reserved_props v \<union> reserved_props d"
proof (cases v)
  case (JObj es)
  show ?thesis
  proof
    fix e
    assume "e \<in> reserved_props (write_prop k d v)"
    then obtain f where f: "f \<in> set (AList.update (seg_key k) d es)"
        "f = e \<and> reserved (fst e) \<or> e \<in> reserved_props (snd f)"
      unfolding write_prop_def JObj json.case reserved_props_obj by blast
    from set_update_entries [OF f(1)] f(2) assms show "e \<in> reserved_props v \<union> reserved_props d"
      unfolding JObj Un_iff reserved_props_obj by (metis fst_conv snd_conv)
  qed
next
  case (JArr xs)
  then show ?thesis
    by (auto simp: write_prop_def dest: set_update_subset_insert [THEN subsetD] split: seg.splits)
qed (simp_all add: write_prop_def)

lemma reserved_getp: "jt.getp p v = Some c \<Longrightarrow> reserved_props c \<subseteq> reserved_props v"
proof (induction p arbitrary: v)
  case (Cons k p)
  then obtain d where "read_prop k v = Some d" "jt.getp p d = Some c" by (auto split: option.splits)
  with Cons.IH reserved_read show ?case by blast
qed simp

lemma reserved_putp:
  "safe_path p \<Longrightarrow> reserved_props (jt.putp p d v) \<subseteq> reserved_props v \<union> reserved_props d"
proof (induction p arbitrary: v)
  case (Cons k p)
  have k: "\<not> reserved (seg_key k)" "safe_path p"
    using Cons.prems(1) by (auto simp: reserved_seg_key safe_path_alt)
  show ?case
  proof (cases "read_prop k v")
    case (Some c)
    with reserved_write [OF k(1), of "jt.putp p d c" v] Cons.IH [OF k(2), of c] reserved_read [OF Some]
    show ?thesis by auto
  qed simp
qed simp

lemma reserved_delete_prop:
  assumes "delete_prop p k v = Inr d"
  shows "reserved_props d \<subseteq> reserved_props v"
proof (cases v)
  case (JObj es)
  have "set (AList.delete (seg_key k) es) \<subseteq> set es" by (auto dest: set_delete_entries)
  from reserved_props_obj_mono [OF this] JObj assms show ?thesis by (auto simp: delete_prop_def simp del: reserved_props.simps)
next
  case (JArr xs)
  with assms show ?thesis
    by (auto simp: delete_prop_def dest!: splice_at_cases split: seg.splits if_splits)
qed (use assms in \<open>auto simp: delete_prop_def\<close>)

lemma reserved_apply_key:
  assumes "apply_key op k v = Inr d" "\<not> reserved (seg_key k)"
  shows "reserved_props d \<subseteq> reserved_props v \<union> op_reserved op"
proof -
  have "reserved_props d \<subseteq> reserved_props v" if upd: "update_string p k f v = Inr d" for p f
  proof -
    obtain s where "d = write_prop k (JStr s) v"
      using upd by (auto simp: update_string_def split: option.splits json.splits)
    with reserved_write [OF assms(2), of "JStr s" v] show ?thesis by simp
  qed
  with assms reserved_write [OF assms(2)] reserved_delete_prop show ?thesis by (cases op) auto
qed

lemma safe_path_last: "safe_path p \<Longrightarrow> p \<noteq> [] \<Longrightarrow> \<not> reserved (seg_key (last p))"
  by (metis last_in_set reserved_seg_key safe_path_alt)

lemma safe_path_butlast: "safe_path p \<Longrightarrow> safe_path (butlast p)"
  by (auto simp: safe_path_alt dest: in_set_butlastD)

lemma apply_op_reserved:
  assumes "apply_op op rt = Inr r" "valid_op op"
  shows "reserved_props r \<subseteq> reserved_props rt \<union> op_reserved op"
  using assms(1)
proof (cases rule: apply_op_Inr_cases)
  case (2 p i n items xs)
  have "reserved_props (JArr (splice_at i n items xs)) \<subseteq> reserved_props (JArr xs) \<union> op_reserved op"
    using splice_at_set [of i n items xs] by (auto simp: 2(1))
  with reserved_putp [OF 2(2), of "JArr (splice_at i n items xs)" rt] reserved_getp [OF 2(3)]
  show ?thesis unfolding 2(4) by blast
next
  case (3 p k parent d)
  have "p \<noteq> []" using assms(2) 3(1,2) by (simp add: valid_op_def)
  then have "\<not> reserved (seg_key k)" using 3 safe_path_last by simp
  from reserved_apply_key [OF 3(7) this] reserved_getp [OF 3(5)]
    reserved_putp [OF safe_path_butlast [OF 3(3)], of d rt]
  show ?thesis unfolding 3(8) by blast
qed simp

lemma apply_raw_cons:
  "apply_raw (v # vs) rt = bindE (bindE (assert_valid_op v) (\<lambda>op. apply_op op rt)) (apply_raw vs)"
  by (simp add: apply_raw_def [abs_def])

lemma apply_raw_valid: "\<forall>op\<in>set ops. valid_op op \<Longrightarrow> apply_raw (map op_json ops) rt = apply_ops ops rt"
proof (induction ops arbitrary: rt)
  case Nil
  then show ?case by (simp add: apply_raw_def)
next
  case (Cons op ops)
  then have "apply_raw (map op_json ops) = apply_ops ops" by auto
  with Cons show ?case by (simp add: apply_raw_cons op_json_valid)
qed

lemma splice_node_Inr:
  "splice_node p i r items v = Inr d \<longleftrightarrow>
   (\<exists>xs. v = JArr xs \<and> d = JArr (splice_at i r items xs))"
  by (cases v) (auto simp: splice_node_def splice_chunked_eq)

lemma parsed_op_reserved: "assert_valid_op v = Inr op \<Longrightarrow> op_reserved op \<subseteq> reserved_props v"
  by (auto simp: assert_valid_op_def bindE_eq_Inr require_eq_Inr as_array_def
      split: json.splits list.splits if_splits)

section \<open>Properties\<close>

text \<open>
  The wire form of an operation and its validator are inverse: the tuple of an
  operation validates, to that operation, exactly when its path is safe and, but for a
  splice, not empty.
\<close>

theorem op_tuple_roundtrip: "assert_valid_op (op_json op) = Inr op \<longleftrightarrow> valid_op op"
  using op_json_valid assert_valid_op_valid by blast

text \<open>
  Chunked insertion is a splice: applying \<open>p\<close> replaces, in the array its safe path
  names, the \<open>n\<close> items from \<open>i\<close> on by the given ones, both clamped to the array and
  however many chunks the items take; on anything else it throws.
\<close>

theorem apply_splice_exact:
  "apply_op (OpP p i n items) rt = Inr r \<longleftrightarrow>
   safe_path p \<and> (\<exists>xs. jt.getp p rt = Some (JArr xs) \<and>
     r = jt.putp p (JArr (take i xs @ items @ drop (i + n) xs)) rt)"
  by (auto simp: apply_op_def bindE_eq_Inr assert_safe_path_iff modify_at_Inr splice_node_Inr
      splice_at_def)

text \<open>
  The immutable applier agrees with the mutating one: on a well-formed value, a batch
  of well-formed operations succeeds under the one iff it does under the other, with the
  same result.
\<close>

theorem apply_immutable_agrees:
  "wf_json rt \<Longrightarrow> \<forall>op\<in>set ops. wf_op op \<Longrightarrow>
   apply_immutable ops rt = Inr r \<longleftrightarrow> apply_ops ops rt = Inr r"
proof (induction ops arbitrary: rt)
  case Nil
  then show ?case by (simp add: apply_immutable_def)
next
  case (Cons op ops)
  have "apply_immutable (op # ops) rt = Inr r \<longleftrightarrow>
      (\<exists>t. apply_op op rt = Inr t \<and> apply_immutable ops t = Inr r)"
    by (simp add: apply_immutable_def bindE_eq_Inr apply_immutable_op_iff [OF Cons.prems(1)])
  also have "\<dots> \<longleftrightarrow> (\<exists>t. apply_op op rt = Inr t \<and> apply_ops ops t = Inr r)"
    using Cons.IH Cons.prems wf_apply_op by (metis list.set_intros(1,2))
  finally show ?case by (simp add: bindE_eq_Inr)
qed

theorem apply_immutable_agrees_witness:
  "apply_immutable [OpP [SKey ''a''] 1 1 [JNull], OpA [SKey ''b''] ''y'']
     (JObj [(''a'', JArr [JBool True, JBool False]), (''b'', JStr ''x'')])
   = Inr (JObj [(''a'', JArr [JBool True, JNull]), (''b'', JStr ''xy'')])"
proof -
  have "apply_ops [OpP [SKey ''a''] 1 1 [JNull], OpA [SKey ''b''] ''y'']
     (JObj [(''a'', JArr [JBool True, JBool False]), (''b'', JStr ''x'')])
   = Inr (JObj [(''a'', JArr [JBool True, JNull]), (''b'', JStr ''xy'')])" by code_simp
  then show ?thesis by (subst apply_immutable_agrees) simp_all
qed

text \<open>
  A batch allocates no more than it carries: the size of the result is bounded by the
  size of the target plus that of the payloads, whatever indices and counts the
  operations name, so no operation leaves holes or repeats content.
\<close>

theorem apply_ops_weight:
  "apply_ops ops rt = Inr r \<Longrightarrow> weight r \<le> weight rt + sum_list (map op_weight ops)"
proof (induction ops arbitrary: rt)
  case (Cons op ops)
  then obtain t where "apply_op op rt = Inr t" "apply_ops ops t = Inr r"
    by (auto simp: bindE_eq_Inr)
  with Cons.IH [of t] weight_apply_op [of op rt t] show ?case by simp
qed simp

theorem apply_ops_weight_witness:
  "weight (JArr [JNull, JStr ''ab'', JNull]) \<le> weight (JArr [JNull]) +
     sum_list (map op_weight [OpS [SIdx 1] (JStr ''ab''), OpP [] 900 900 [JNull]])"
  by (rule apply_ops_weight) code_simp



end
