(* ===== verification/DeltaDiff.thy ===== *)
theory DeltaDiff imports DeltaOps begin

text \<open>
  \<open>packages/chord/src/delta/index.ts\<close>, the producer of operations: the bounded search
  for the overlap of two strings and the structural diff of two values, at a path of the
  tracked root. A function that pushes onto \<open>out\<close> returns the operations it pushes.
\<close>

section \<open>Overlap\<close>

text \<open>\<open>s.indexOf(head, k)\<close> for a nonempty \<open>head\<close>; \<open>None\<close> is \<open>-1\<close>.\<close>

definition index_of :: "'a list \<Rightarrow> 'a list \<Rightarrow> nat \<Rightarrow> nat option" where
  "index_of s head k = List.find (\<lambda>i. take (length head) (drop i s) = head) [k..<length s]"

text \<open>The candidate loop; the first argument is how many tries \<open>maxCandidates\<close> leaves.\<close>

fun try_candidates :: "nat \<Rightarrow> 'a list \<Rightarrow> 'a list \<Rightarrow> 'a list \<Rightarrow> nat option \<Rightarrow> nat option" where
  "try_candidates _ tail head b None = None"
| "try_candidates 0 tail head b (Some k) = None"
| "try_candidates (Suc m) tail head b (Some k) =
     (let n = length tail - k in
      if n \<le> length b \<and> drop k tail = take n b then Some n
      else try_candidates m tail head b (index_of tail head (k + 1)))"

fun overlap_heads :: "nat \<Rightarrow> 'a list \<Rightarrow> 'a list \<Rightarrow> nat list \<Rightarrow> nat" where
  "overlap_heads maxCandidates tail b [] = 0"
| "overlap_heads maxCandidates tail b (h # hs) =
     (case try_candidates maxCandidates tail (take h b) b (index_of tail (take h b) 0) of
        Some n \<Rightarrow> n
      | None \<Rightarrow> if h = 1 then 0 else overlap_heads maxCandidates tail b hs)"

definition overlap :: "'a list \<Rightarrow> 'a list \<Rightarrow> nat \<Rightarrow> nat" where
  "overlap a b scan =
     (if length a = 0 \<or> length b = 0 \<or> scan = 0 then 0
      else let tail = (if length a > scan then drop (length a - scan) a else a)
           in overlap_heads 8 tail b [min 64 (length b), 1])"

text \<open>A suffix of \<open>a\<close> of length \<open>n\<close> that is a prefix of \<open>b\<close>.\<close>

definition overlaps :: "'a list \<Rightarrow> 'a list \<Rightarrow> nat \<Rightarrow> bool" where
  "overlaps a b n \<longleftrightarrow> n \<le> length a \<and> n \<le> length b \<and> drop (length a - n) a = take n b"

lemma find_upt_Some:
  "List.find P [k..<n] = Some i \<Longrightarrow> k \<le> i \<and> i < n \<and> P i \<and> (\<forall>j. k \<le> j \<and> j < i \<longrightarrow> \<not> P j)"
proof (induction "n - k" arbitrary: k)
  case (Suc m)
  then have k: "k < n" by simp
  show ?case
  proof (cases "P k")
    case True
    with Suc.prems k show ?thesis by (auto simp: upt_conv_Cons)
  next
    case False
    with Suc.prems k have "List.find P [Suc k..<n] = Some i" by (simp add: upt_conv_Cons)
    with Suc.hyps(1) [of "Suc k"] Suc.hyps(2) have
      "Suc k \<le> i \<and> i < n \<and> P i \<and> (\<forall>j. Suc k \<le> j \<and> j < i \<longrightarrow> \<not> P j)" by simp
    with False show ?thesis by (metis Suc_leD Suc_leI le_neq_implies_less)
  qed
qed simp

lemma find_upt_None: "List.find P [k..<n] = None \<Longrightarrow> k \<le> j \<Longrightarrow> j < n \<Longrightarrow> \<not> P j"
  by (simp add: find_None_iff)

text \<open>Every overlap at least as long as the head starts at a candidate.\<close>

lemma overlaps_candidate:
  assumes "overlaps t b m" "h \<le> m" "0 < m"
  shows "take (length (take h b)) (drop (length t - m) t) = take h b"
  using assms by (auto simp: overlaps_def min_def)

lemma try_candidates_Some:
  assumes "try_candidates c t (take h b) b k0 = Some n" "0 < h" "b \<noteq> []"
    and "k0 = index_of t (take h b) k"
    and "\<forall>m. overlaps t b m \<and> min h (length b) \<le> m \<longrightarrow> length t - m \<ge> k"
  shows "overlaps t b n \<and> min h (length b) \<le> n \<and>
    (\<forall>m. overlaps t b m \<longrightarrow> m \<le> n)"
  using assms
proof (induction c t "take h b" b k0 arbitrary: k rule: try_candidates.induct)
  case (3 c t b i)
  let ?P = "\<lambda>i. take (length (take h b)) (drop i t) = take h b"
  have f: "k \<le> i" "i < length t" "?P i" "\<forall>j. k \<le> j \<and> j < i \<longrightarrow> \<not> ?P j"
    using 3(5) find_upt_Some [of ?P k "length t" i] by (auto simp: index_of_def)
  have hn: "min h (length b) \<le> length t - i"
    using arg_cong [OF f(3), of length] by auto
  have ge: "length t - m \<ge> i" if m: "overlaps t b m" "min h (length b) \<le> m" for m
  proof -
    have "0 < m" using m(2) 3(3,4) by (cases b) (auto simp: min_def split: if_splits)
    then have "?P (length t - m)"
      using overlaps_candidate [of t b m "min h (length b)"] m by (simp add: min_def split: if_splits)
    then show ?thesis using f(4) 3(6) m by (meson not_le_imp_less)
  qed
  show ?case
  proof (cases "length t - i \<le> length b \<and> drop i t = take (length t - i) b")
    case True
    then have n: "n = length t - i" using 3(2) by simp
    have "m \<le> n" if m: "overlaps t b m" for m
    proof (cases "min h (length b) \<le> m")
      case True
      with ge m f(2) show ?thesis unfolding n overlaps_def by (metis diff_diff_cancel diff_le_mono2)
    qed (use hn n in simp)
    with True f(2) hn n show ?thesis by (simp add: overlaps_def)
  next
    case False
    have "length t - m \<ge> i + 1" if m: "overlaps t b m" "min h (length b) \<le> m" for m
    proof -
      have "length t - m \<noteq> i"
        using False m f(2) by (auto simp: overlaps_def)
      with ge [OF m] show ?thesis by simp
    qed
    moreover have "try_candidates c t (take h b) b (index_of t (take h b) (i + 1)) = Some n"
      using 3(2) False by (auto simp: Let_def split: if_splits)
    ultimately show ?thesis using 3(1) [OF refl False _ 3(3,4) refl] by simp
  qed
next
  case (2 t b i)
  from 2(1) show ?case unfolding 2(4) [symmetric] by simp
qed simp

lemma overlap_heads_found:
  assumes "0 < overlap_heads c t b hs" "\<forall>h\<in>set hs. 0 < h" "b \<noteq> []"
  shows "overlaps t b (overlap_heads c t b hs) \<and> (\<forall>m. overlaps t b m \<longrightarrow> m \<le> overlap_heads c t b hs)"
  using assms
proof (induction hs)
  case (Cons h hs)
  show ?case
  proof (cases "try_candidates c t (take h b) b (index_of t (take h b) 0)")
    case None
    with Cons show ?thesis by (auto split: if_splits)
  next
    case (Some n)
    with try_candidates_Some [OF Some _ _ refl] Cons.prems show ?thesis by simp
  qed
qed simp

lemma overlaps_tail:
  "s \<le> length a \<Longrightarrow> n \<le> s \<Longrightarrow> overlaps (drop (length a - s) a) b n \<longleftrightarrow> overlaps a b n"
  by (auto simp: overlaps_def)

lemma overlap_cases:
  "overlap a b scan = 0 \<or>
   overlaps a b (overlap a b scan) \<and> overlap a b scan \<le> scan \<and>
   (\<forall>m. overlaps a b m \<and> m \<le> scan \<longrightarrow> m \<le> overlap a b scan)"
proof (cases "overlap a b scan = 0")
  case False
  let ?t = "if length a > scan then drop (length a - scan) a else a"
  have o: "overlap a b scan = overlap_heads 8 ?t b [min 64 (length b), 1]" and b: "b \<noteq> []"
    using False by (auto simp: overlap_def Let_def split: if_splits)
  with False have *: "overlaps ?t b (overlap a b scan)" "\<forall>m. overlaps ?t b m \<longrightarrow> m \<le> overlap a b scan"
    using overlap_heads_found [of 8 ?t b "[min 64 (length b), 1]"] by auto
  show ?thesis
  proof (cases "length a > scan")
    case True
    then have "overlap a b scan \<le> scan" using *(1) by (simp add: overlaps_def)
    then show ?thesis using * True overlaps_tail [of scan a _ b] by simp
  next
    case False
    then show ?thesis using * by (simp add: overlaps_def)
  qed
qed simp

lemma overlap_append:
  assumes "overlap a b scan = n"
  shows "n \<le> length a" "n \<le> length b" "drop (length a - n) a @ drop n b = b"
  using overlap_cases [of a b scan] assms by (auto simp: overlaps_def)

section \<open>Cloning\<close>

text \<open>\<open>cloneJson\<close>: a copy, its properties defined in the order of the source.\<close>

fun clone_json :: "json \<Rightarrow> json" and clone_entries :: "entries \<Rightarrow> entries \<Rightarrow> entries" where
  "clone_json (JArr xs) = JArr (map clone_json xs)"
| "clone_json (JObj es) = JObj (clone_entries [] es)"
| "clone_json v = v"
| "clone_entries result [] = result"
| "clone_entries result ((k, c) # es) =
     clone_entries (AList.update k (clone_json c) result) es"

lemma clone_json_eq: "wf_json v \<Longrightarrow> clone_json v = v"
proof (induction v)
  case (JArr xs)
  then show ?case by (simp add: map_idI)
next
  case (JObj es)
  have "distinct (map fst (acc @ es)) \<Longrightarrow> \<forall>(k, v)\<in>set es. clone_json v = v \<Longrightarrow>
      clone_entries acc es = acc @ es" for acc
  proof (induction es arbitrary: acc)
    case (Cons e es)
    obtain k c where e: "e = (k, c)" by (cases e)
    with Cons.prems have "k \<notin> fst ` set acc" by auto
    then have "AList.update k c acc = acc @ [(k, c)]" by (rule AList_update_new)
    with Cons e show ?case by simp
  qed simp
  from this [of "[]"] JObj show ?case by fastforce
qed simp_all

lemma clone_items_eq: "\<forall>x\<in>set xs. wf_json x \<Longrightarrow> map clone_json xs = xs"
  by (simp add: map_idI clone_json_eq)

section \<open>The structural diff\<close>

definition emit_set :: "path \<Rightarrow> json \<Rightarrow> op list" where
  "emit_set path v = (let snapshot = clone_json v in
     if length path = 0 then [OpR snapshot] else [OpS path snapshot])"

definition emit_delete :: "path \<Rightarrow> delta_error + op list" where
  "emit_delete path =
     (if length path = 0 then Inl (TypeErr ''the tracked root cannot be deleted'')
      else Inr [OpD path])"

definition diff_string :: "string \<Rightarrow> string \<Rightarrow> path \<Rightarrow> nat \<Rightarrow> op list" where
  "diff_string before after path scan =
     (if before = after then []
      else if length path = 0 then emit_set path (JStr after)
      else if length after > length before \<and> take (length before) after = before
        then [OpA path (drop (length before) after)]
      else let shared = overlap before after scan in
        if shared = 0 then [OpS path (JStr after)]
        else OpT path (length before - shared) #
          (if length after > shared then [OpA path (drop shared after)] else []))"

text \<open>The two counting loops of \<open>diffArray\<close>.\<close>

function common_prefix :: "json list \<Rightarrow> json list \<Rightarrow> nat \<Rightarrow> nat" where
  "common_prefix before after prefix =
     (if prefix < length before \<and> prefix < length after \<and>
         json_equal (before ! prefix) (after ! prefix)
      then common_prefix before after (prefix + 1) else prefix)"
  by pat_completeness auto
termination by (relation "measure (\<lambda>(before, after, prefix). length before - prefix)") auto

function common_suffix :: "json list \<Rightarrow> json list \<Rightarrow> nat \<Rightarrow> nat \<Rightarrow> nat" where
  "common_suffix before after prefix suffix =
     (if suffix < length before - prefix \<and> suffix < length after - prefix \<and>
         json_equal (before ! (length before - 1 - suffix)) (after ! (length after - 1 - suffix))
      then common_suffix before after prefix (suffix + 1) else suffix)"
  by pat_completeness auto
termination by (relation "measure (\<lambda>(before, after, prefix, suffix). length before - suffix)") auto

declare common_prefix.simps [simp del] common_suffix.simps [simp del]

text \<open>
  \<open>diffValue\<close> on two present values, \<open>diffObject\<close>, its loop over the keys of \<open>after\<close>,
  \<open>diffArray\<close> and its loop over the common indices (from \<open>index\<close> on).
\<close>

function (sequential) diff_present :: "nat \<Rightarrow> json \<Rightarrow> json \<Rightarrow> path \<Rightarrow> op list"
  and diff_object :: "nat \<Rightarrow> entries \<Rightarrow> entries \<Rightarrow> path \<Rightarrow> op list"
  and diff_entries :: "nat \<Rightarrow> entries \<Rightarrow> entries \<Rightarrow> path \<Rightarrow> op list"
  and diff_array :: "nat \<Rightarrow> json list \<Rightarrow> json list \<Rightarrow> path \<Rightarrow> op list"
  and diff_items :: "nat \<Rightarrow> json list \<Rightarrow> json list \<Rightarrow> path \<Rightarrow> nat \<Rightarrow> op list"
where
  "diff_present scan before after path =
     (if strict_equal before after then []
      else case after of
        JStr a \<Rightarrow> (case before of
          JStr b \<Rightarrow> diff_string b a path scan
        | _ \<Rightarrow> emit_set path after)
      | JArr ys \<Rightarrow> (case before of
          JArr xs \<Rightarrow> diff_array scan xs ys path
        | _ \<Rightarrow> emit_set path after)
      | JObj fs \<Rightarrow> (case before of
          JObj es \<Rightarrow> diff_object scan es fs path
        | _ \<Rightarrow> emit_set path after)
      | _ \<Rightarrow> emit_set path after)"
| "diff_object scan before after path =
     (if \<exists>k\<in>set (map fst before @ map fst after). reserved k then emit_set path (JObj after)
      else diff_entries scan before after path @
        map (\<lambda>k. OpD (path @ [SKey k])) (filter (\<lambda>k. map_of after k = None) (map fst before)))"
| "diff_entries scan before [] path = []"
| "diff_entries scan before ((k, v) # es) path =
     (case map_of before k of
        None \<Rightarrow> emit_set (path @ [SKey k]) v
      | Some b \<Rightarrow> diff_present scan b v (path @ [SKey k])) @
     diff_entries scan before es path"
| "diff_array scan before after path =
     (if length before = length after then diff_items scan before after path 0
      else
        let prefix = common_prefix before after 0;
            suffix = common_suffix before after prefix 0;
            shorter = min (length before) (length after)
        in if prefix + suffix = shorter then
             let remove = length before - prefix - suffix;
                 items = slice prefix (length after - suffix) after
             in if prefix = 0 \<and> remove = length before then emit_set path (JArr after)
                else [OpP path prefix remove (map clone_json items)]
           else diff_items scan before after path 0 @
             (if length after > length before then
                [OpP path (length before) 0 (map clone_json (drop (length before) after))]
              else if length before > length after then
                (if length after = 0 then emit_set path (JArr after)
                 else [OpP path (length after) (length before - length after) []])
              else []))"
| "diff_items scan (x # xs) (y # ys) path index =
     diff_present scan x y (path @ [SIdx index]) @ diff_items scan xs ys path (index + 1)"
| "diff_items scan [] ys path index = []"
| "diff_items scan (x # xs) [] path index = []"
  by pat_completeness auto
termination
  by (relation "measure (\<lambda>s. case s of
        Inl (Inl (scan, before, after, path)) \<Rightarrow> 2 * size after
      | Inl (Inr (scan, es, fs, path)) \<Rightarrow> 1 + 2 * size_list (size_prod (\<lambda>x. 0) size) fs
      | Inr (Inl (scan, es, fs, path)) \<Rightarrow> 2 * size_list (size_prod (\<lambda>x. 0) size) fs
      | Inr (Inr (Inl (scan, xs, ys, path))) \<Rightarrow> 1 + 2 * size_list size ys
      | Inr (Inr (Inr (scan, xs, ys, path, index))) \<Rightarrow> 2 * size_list size ys)") auto

definition diff_value :: "nat \<Rightarrow> json option \<Rightarrow> json option \<Rightarrow> path \<Rightarrow> delta_error + op list" where
  "diff_value scan before after path =
     (case before of
        None \<Rightarrow> (case after of None \<Rightarrow> Inr [] | Some v \<Rightarrow> Inr (emit_set path v))
      | Some b \<Rightarrow> (case after of
          None \<Rightarrow> emit_delete path
        | Some v \<Rightarrow> Inr (diff_present scan b v path)))"

declare diff_present.simps [simp del] diff_object.simps [simp del] diff_array.simps [simp del]

section \<open>The counting loops\<close>

lemma common_prefix_spec:
  "i \<le> length xs \<Longrightarrow> i \<le> length ys \<Longrightarrow> \<forall>j<i. json_equal (xs ! j) (ys ! j) \<Longrightarrow>
   common_prefix xs ys i \<le> length xs \<and> common_prefix xs ys i \<le> length ys \<and>
   (\<forall>j<common_prefix xs ys i. json_equal (xs ! j) (ys ! j))"
proof (induction xs ys i rule: common_prefix.induct)
  case (1 xs ys i)
  show ?case
  proof (cases "i < length xs \<and> i < length ys \<and> json_equal (xs ! i) (ys ! i)")
    case True
    then have "common_prefix xs ys i = common_prefix xs ys (i + 1)"
      by (simp add: common_prefix.simps [of xs ys i])
    with True 1 show ?thesis by (simp add: less_Suc_eq)
  next
    case False
    then have "common_prefix xs ys i = i" unfolding common_prefix.simps [of xs ys i] by (rule if_not_P)
    with 1 show ?thesis by simp
  qed
qed

lemma common_suffix_spec:
  "s \<le> length xs - p \<Longrightarrow> s \<le> length ys - p \<Longrightarrow>
   \<forall>j<s. json_equal (xs ! (length xs - 1 - j)) (ys ! (length ys - 1 - j)) \<Longrightarrow>
   common_suffix xs ys p s \<le> length xs - p \<and> common_suffix xs ys p s \<le> length ys - p \<and>
   (\<forall>j<common_suffix xs ys p s. json_equal (xs ! (length xs - 1 - j)) (ys ! (length ys - 1 - j)))"
proof (induction xs ys p s rule: common_suffix.induct)
  case (1 xs ys p s)
  show ?case
  proof (cases "s < length xs - p \<and> s < length ys - p \<and>
      json_equal (xs ! (length xs - 1 - s)) (ys ! (length ys - 1 - s))")
    case True
    then have "common_suffix xs ys p s = common_suffix xs ys p (s + 1)"
      by (simp add: common_suffix.simps [of xs ys p s])
    with True 1 show ?thesis by (simp add: less_Suc_eq)
  next
    case False
    then have "common_suffix xs ys p s = s"
      unfolding common_suffix.simps [of xs ys p s] by (rule if_not_P)
    with 1 show ?thesis by simp
  qed
qed

text \<open>Replacing what lies between a common prefix and a common suffix.\<close>

lemma splice_between:
  assumes "p \<le> length xs" "p \<le> length ys" "\<forall>j<p. json_equal (xs ! j) (ys ! j)"
    and "s \<le> length xs - p" "s \<le> length ys - p"
    and "\<forall>j<s. json_equal (xs ! (length xs - 1 - j)) (ys ! (length ys - 1 - j))"
    and "\<forall>y\<in>set ys. wf_json y"
  shows "list_all2 json_equal
    (splice_at p (length xs - p - s) (slice p (length ys - s) ys) xs) ys"
proof -
  have "p \<le> length ys - s" using assms(2,5) by linarith
  then have "take p (take (length ys - s) ys) = take p ys" by (simp add: min_def)
  then have "take p ys @ slice p (length ys - s) ys = take (length ys - s) ys"
    by (metis append_take_drop_id slice_def)
  then have ys: "ys = take p ys @ slice p (length ys - s) ys @ drop (length ys - s) ys"
    by (metis append_assoc append_take_drop_id)
  have a: "list_all2 json_equal (take p xs) (take p ys)"
    using assms(1-3) by (simp add: list_all2_conv_all_nth)
  have b: "list_all2 json_equal (slice p (length ys - s) ys) (slice p (length ys - s) ys)"
    using assms(7) by (auto simp: slice_def intro!: list.rel_refl_strong json_equal_refl
        dest: in_set_takeD in_set_dropD)
  have "json_equal (xs ! (length xs - s + i)) (ys ! (length ys - s + i))" if i: "i < s" for i
  proof -
    have "length xs - 1 - (s - 1 - i) = length xs - s + i" "length ys - 1 - (s - 1 - i) = length ys - s + i"
      using i assms(4,5) by auto
    moreover have "s - 1 - i < s" using i by simp
    ultimately show ?thesis using assms(6) by metis
  qed
  then have c: "list_all2 json_equal (drop (length xs - s) xs) (drop (length ys - s) ys)"
    using assms(4,5) by (auto simp: list_all2_conv_all_nth)
  have "p + (length xs - p - s) = length xs - s" using assms(1,4) by simp
  then have "list_all2 json_equal
      (splice_at p (length xs - p - s) (slice p (length ys - s) ys) xs)
      (take p ys @ slice p (length ys - s) ys @ drop (length ys - s) ys)"
    unfolding splice_at_def using a b c by (simp add: list_all2_appendI)
  with ys show ?thesis by simp
qed

section \<open>Replaying a diff\<close>

text \<open>The operations turn the node at \<open>p\<close> into a value equal to \<open>after\<close>, and nothing else.\<close>

definition becomes :: "op list \<Rightarrow> path \<Rightarrow> json \<Rightarrow> json \<Rightarrow> bool" where
  "becomes ops p rt after \<longleftrightarrow>
     (\<exists>v. apply_ops ops rt = Inr (jt.putp p v rt) \<and> wf_json v \<and> json_equal v after)"

lemma check_parent_read: "read_prop k v = Some c \<Longrightarrow> check_parent p k v = Inr ()"
  by (auto simp: read_prop_def check_parent_def split: json.splits seg.splits if_splits)

text \<open>An operation on a present key writes what it makes of the child.\<close>

lemma apply_op_child:
  assumes "op_path op = Some p" "\<not> is_splice op" "safe_path p" "p \<noteq> []"
    and "jt.getp p rt = Some c" "\<And>k parent. read_prop k parent = Some c \<Longrightarrow>
      apply_key op k parent = Inr (write_prop k d parent)"
  shows "apply_op op rt = Inr (jt.putp p d rt)"
proof -
  obtain q k where p: "p = q @ [k]" using assms(4) by (metis append_butlast_last_id)
  then obtain parent where g: "jt.getp q rt = Some parent" "read_prop k parent = Some c"
    using assms(5) by (auto simp: jt.getp_append split: option.splits)
  have "apply_op op rt = bindE (bindE (check_parent q k parent) (\<lambda>_. apply_key op k parent))
      (\<lambda>d. Inr (jt.putp q d rt))"
    using assms(1-3) p g(1) by (intro apply_op_key) simp_all
  with p g assms(6) [OF g(2)] check_parent_read [OF g(2)] jt.putp_snoc [OF g] show ?thesis by simp
qed

lemma apply_op_s:
  "safe_path p \<Longrightarrow> p \<noteq> [] \<Longrightarrow> jt.getp p rt = Some c \<Longrightarrow> apply_op (OpS p v) rt = Inr (jt.putp p v rt)"
  by (rule apply_op_child) auto

lemma apply_op_a:
  "safe_path p \<Longrightarrow> p \<noteq> [] \<Longrightarrow> jt.getp p rt = Some (JStr s) \<Longrightarrow>
   apply_op (OpA p t) rt = Inr (jt.putp p (JStr (s @ t)) rt)"
  by (rule apply_op_child) (auto simp: update_string_def)

lemma apply_op_t:
  "safe_path p \<Longrightarrow> p \<noteq> [] \<Longrightarrow> jt.getp p rt = Some (JStr s) \<Longrightarrow>
   apply_op (OpT p n) rt = Inr (jt.putp p (JStr (drop n s)) rt)"
  by (rule apply_op_child) (auto simp: update_string_def)

lemma apply_emit_set:
  "safe_path p \<Longrightarrow> jt.getp p rt = Some c \<Longrightarrow> wf_json v \<Longrightarrow>
   apply_ops (emit_set p v) rt = Inr (jt.putp p v rt)"
  by (auto simp: emit_set_def clone_json_eq apply_op_r apply_op_s)

lemma becomes_emit_set:
  "safe_path p \<Longrightarrow> jt.getp p rt = Some c \<Longrightarrow> wf_json v \<Longrightarrow> becomes (emit_set p v) p rt v"
  unfolding becomes_def using apply_emit_set json_equal_refl by blast

lemma becomes_unchanged: "jt.getp p rt = Some v \<Longrightarrow> wf_json v \<Longrightarrow> json_equal v w \<Longrightarrow> becomes [] p rt w"
  unfolding becomes_def using jt.putp_getp [of p rt v] by (intro exI [of _ v]) simp

lemma becomes_diff_string:
  assumes p: "safe_path p" and b: "jt.getp p rt = Some (JStr b)"
  shows "becomes (diff_string b a p scan) p rt (JStr a)"
proof (cases "b = a \<or> p = []")
  case True
  then show ?thesis
    using becomes_emit_set [OF p b] becomes_unchanged [OF b] by (auto simp: diff_string_def)
next
  case False
  then have ne: "p \<noteq> []" by simp
  note step = apply_op_a [OF p ne] apply_op_s [OF p ne b] apply_op_t [OF p ne b]
    jt.getp_putp [OF b] jt.putp_putp [OF b]
  let ?n = "overlap b a scan"
  have o: "drop (length b - ?n) b @ drop ?n a = a" "?n \<le> length a"
    using overlap_append [OF refl, of b a scan] by simp_all
  have "apply_ops (diff_string b a p scan) rt = Inr (jt.putp p (JStr a) rt)"
  proof (cases "length a > length b \<and> take (length b) a = b")
    case True
    then have "b @ drop (length b) a = a" by (metis append_take_drop_id)
    with True False b step show ?thesis by (simp add: diff_string_def)
  next
    case no: False
    show ?thesis
    proof (cases "?n = 0")
      case True
      with no False step show ?thesis by (auto simp: diff_string_def)
    next
      case nz: False
      have "apply_ops (diff_string b a p scan) rt =
          apply_ops (OpT p (length b - ?n) # (if length a > ?n then [OpA p (drop ?n a)] else [])) rt"
        using no False nz by (auto simp: diff_string_def Let_def)
      then show ?thesis using step o by auto
    qed
  qed
  then show ?thesis unfolding becomes_def by auto
qed

lemma becomes_deletes:
  assumes p: "safe_path p" and ks: "\<forall>k\<in>set ks. \<not> reserved k"
    and rt: "jt.getp p rt = Some (JObj es)"
  shows "apply_ops (map (\<lambda>k. OpD (p @ [SKey k])) ks) rt =
    Inr (jt.putp p (JObj (foldl (\<lambda>es k. AList.delete k es) es ks)) rt)"
  using ks rt
proof (induction ks arbitrary: rt es)
  case Nil
  then show ?case by (simp add: jt.putp_getp)
next
  case (Cons k ks)
  let ?rt = "jt.putp p (JObj (AList.delete k es)) rt"
  have "apply_op (OpD (p @ [SKey k])) rt = Inr ?rt"
    using Cons.prems p apply_op_key [of "OpD (p @ [SKey k])" p "SKey k" rt "JObj es"]
    by (simp add: delete_prop_def)
  moreover have "jt.getp p ?rt = Some (JObj (AList.delete k es))"
    using Cons.prems(2) by (rule jt.getp_putp)
  ultimately show ?case using Cons by (simp add: jt.putp_putp [OF Cons.prems(2)])
qed

lemma foldl_delete:
  "map_of (foldl (\<lambda>es k. AList.delete k es) es ks) k = (if k \<in> set ks then None else map_of es k)"
  by (induction ks arbitrary: es) (auto simp: delete_conv)

lemma wf_foldl_delete: "wf_json (JObj es) \<Longrightarrow> wf_json (JObj (foldl (\<lambda>es k. AList.delete k es) es ks))"
proof (induction ks arbitrary: es)
  case (Cons k ks)
  from Cons.prems have "wf_json (JObj (AList.delete k es))"
    by (auto simp: distinct_delete dest: set_delete_entries)
  from Cons.IH [OF this] show ?case by simp
qed simp

text \<open>The steps of the two loops: one key, one index.\<close>

lemma diff_entry_step:
  assumes b: "\<And>b. map_of before k = Some b \<Longrightarrow> jt.getp (p @ [SKey k]) rt = Some b \<Longrightarrow>
      becomes (diff_present scan b v (p @ [SKey k])) (p @ [SKey k]) rt v"
    and p: "safe_path p" "\<not> reserved k" and v: "wf_json v"
    and cur: "jt.getp p rt = Some (JObj cur)" "map_of cur k = map_of before k"
  shows "\<exists>w. apply_ops (case map_of before k of None \<Rightarrow> emit_set (p @ [SKey k]) v
      | Some b \<Rightarrow> diff_present scan b v (p @ [SKey k])) rt
    = Inr (jt.putp p (JObj (AList.update k w cur)) rt) \<and> wf_json w \<and> json_equal w v"
proof (cases "map_of before k")
  case None
  have "apply_op (OpS (p @ [SKey k]) v) rt = Inr (jt.putp p (JObj (AList.update k v cur)) rt)"
    using p cur apply_op_key [of "OpS (p @ [SKey k]) v" p "SKey k" rt "JObj cur"]
    by (simp add: write_prop_def)
  with None v show ?thesis by (auto simp: emit_set_def clone_json_eq json_equal_refl)
next
  case (Some b)
  then have r: "read_prop (SKey k) (JObj cur) = Some b" using cur(2) by (simp add: read_prop_def)
  then have "jt.getp (p @ [SKey k]) rt = Some b" using jt.getp_snoc [OF cur(1)] by simp
  then obtain w where "apply_ops (diff_present scan b v (p @ [SKey k])) rt =
      Inr (jt.putp (p @ [SKey k]) w rt)" "wf_json w" "json_equal w v"
    using assms(1) Some unfolding becomes_def by blast
  then show ?thesis using Some jt.putp_snoc [OF cur(1) r, of w] by (auto simp: write_prop_def)
qed

lemma diff_item_step:
  assumes x: "jt.getp (p @ [SIdx (length pre)]) rt = Some x \<Longrightarrow>
      becomes (diff_present scan x y (p @ [SIdx (length pre)])) (p @ [SIdx (length pre)]) rt y"
    and cur: "jt.getp p rt = Some (JArr (pre @ x # xs))"
  shows "\<exists>w. apply_ops (diff_present scan x y (p @ [SIdx (length pre)])) rt
    = Inr (jt.putp p (JArr (pre @ w # xs)) rt) \<and> wf_json w \<and> json_equal w y"
proof -
  have r: "read_prop (SIdx (length pre)) (JArr (pre @ x # xs)) = Some x" by (simp add: read_prop_def)
  then have "jt.getp (p @ [SIdx (length pre)]) rt = Some x" using jt.getp_snoc [OF cur] by simp
  with x obtain w where "apply_ops (diff_present scan x y (p @ [SIdx (length pre)])) rt =
      Inr (jt.putp (p @ [SIdx (length pre)]) w rt)" "wf_json w" "json_equal w y"
    unfolding becomes_def by blast
  then show ?thesis using jt.putp_snoc [OF cur r, of w] by (auto simp: write_prop_def)
qed

text \<open>What the two loops leave, given the steps.\<close>

definition entries_reach :: "entries \<Rightarrow> entries \<Rightarrow> entries \<Rightarrow> bool" where
  "entries_reach cur fs cur' \<longleftrightarrow> wf_json (JObj cur') \<and>
     (\<forall>k. if k \<in> fst ` set fs then rel_option json_equal (map_of cur' k) (map_of fs k)
          else map_of cur' k = map_of cur k)"

definition entries_become :: "op list \<Rightarrow> path \<Rightarrow> json \<Rightarrow> entries \<Rightarrow> entries \<Rightarrow> bool" where
  "entries_become ops p rt cur fs \<longleftrightarrow>
     (\<exists>cur'. apply_ops ops rt = Inr (jt.putp p (JObj cur') rt) \<and> entries_reach cur fs cur')"

definition items_become :: "op list \<Rightarrow> path \<Rightarrow> json \<Rightarrow> json list \<Rightarrow> json list \<Rightarrow> json list \<Rightarrow> bool" where
  "items_become ops p rt pre xs ys \<longleftrightarrow>
     (\<exists>zs. apply_ops ops rt = Inr (jt.putp p (JArr (pre @ zs @ drop (length ys) xs)) rt) \<and>
       (\<forall>z\<in>set zs. wf_json z) \<and> list_all2 json_equal zs (take (length xs) ys))"

lemma entries_reach_Cons:
  assumes "entries_reach (AList.update k w cur) fs cur'" "json_equal w v" "k \<notin> fst ` set fs"
  shows "entries_reach cur ((k, v) # fs) cur'"
  unfolding entries_reach_def
proof (intro conjI allI)
  show "wf_json (JObj cur')" using assms(1) by (simp add: entries_reach_def)
next
  fix j
  have h: "if j \<in> fst ` set fs then rel_option json_equal (map_of cur' j) (map_of fs j)
      else map_of cur' j = map_of (AList.update k w cur) j"
    using assms(1) by (simp add: entries_reach_def)
  show "if j \<in> fst ` set ((k, v) # fs)
      then rel_option json_equal (map_of cur' j) (map_of ((k, v) # fs) j)
      else map_of cur' j = map_of cur j"
    using h assms(2,3) by (cases "j = k") (auto simp: update_conv)
qed

lemma becomes_object:
  assumes "entries_become (diff_entries scan es fs p) p rt es fs"
    and p: "safe_path p" "jt.getp p rt = Some (JObj es)" "wf_json (JObj fs)"
    and ks: "\<forall>k\<in>set (map fst es @ map fst fs). \<not> reserved k"
  shows "becomes (diff_object scan es fs p) p rt (JObj fs)"
proof -
  let ?ks = "filter (\<lambda>k. map_of fs k = None) (map fst es)"
  obtain cur where cur: "apply_ops (diff_entries scan es fs p) rt = Inr (jt.putp p (JObj cur) rt)"
      "entries_reach es fs cur"
    using assms(1) by (auto simp: entries_become_def)
  define cur' where "cur' = foldl (\<lambda>es k. AList.delete k es) cur ?ks"
  have w: "wf_json (JObj cur')"
    using cur(2) wf_foldl_delete unfolding cur'_def entries_reach_def by blast
  have "jt.getp p (jt.putp p (JObj cur) rt) = Some (JObj cur)" using p(2) by (rule jt.getp_putp)
  from becomes_deletes [OF p(1) _ this, of ?ks]
  have "apply_ops (map (\<lambda>k. OpD (p @ [SKey k])) ?ks) (jt.putp p (JObj cur) rt)
      = Inr (jt.putp p (JObj cur') rt)"
    using ks jt.putp_putp [OF p(2)] by (auto simp: cur'_def)
  then have "apply_ops (diff_object scan es fs p) rt = Inr (jt.putp p (JObj cur') rt)"
    using ks cur(1) by (auto simp: diff_object.simps apply_ops_append)
  moreover have "json_equal (JObj cur') (JObj fs)"
  proof (subst json_equal_obj_iff)
    show "\<forall>k. rel_option json_equal (map_of cur' k) (map_of fs k)"
    proof
      fix k
      have h: "if k \<in> fst ` set fs then rel_option json_equal (map_of cur k) (map_of fs k)
          else map_of cur k = map_of es k"
        using cur(2) by (simp add: entries_reach_def)
      show "rel_option json_equal (map_of cur' k) (map_of fs k)"
      proof (cases "k \<in> fst ` set fs")
        case True
        with h show ?thesis by (auto simp: cur'_def foldl_delete map_of_eq_None_iff)
      next
        case False
        then have "map_of fs k = None" by (simp add: map_of_eq_None_iff)
        moreover from False h have "map_of cur k = map_of es k" by simp
        ultimately have "map_of cur' k = None"
          unfolding cur'_def foldl_delete by (auto simp: map_of_eq_None_iff)
        with \<open>map_of fs k = None\<close> show ?thesis by simp
      qed
    qed
  qed (use w p(3) in simp_all)
  ultimately show ?thesis using w unfolding becomes_def by blast
qed

text \<open>Replacing the tail of an array after its common indices.\<close>

lemma becomes_tail:
  assumes items: "items_become (diff_items scan xs ys p 0) p rt [] xs ys"
    and p: "safe_path p" "jt.getp p rt = Some (JArr xs)" and ys: "\<forall>y\<in>set ys. wf_json y"
    and xs: "\<forall>x\<in>set xs. wf_json x"
  shows "becomes (diff_items scan xs ys p 0 @
      (if length ys > length xs then [OpP p (length xs) 0 (map clone_json (drop (length xs) ys))]
       else if length xs > length ys then
         (if length ys = 0 then emit_set p (JArr ys)
          else [OpP p (length ys) (length xs - length ys) []])
       else [])) p rt (JArr ys)" (is "becomes (_ @ ?tail) _ _ _")
proof -
  obtain zs where zs: "apply_ops (diff_items scan xs ys p 0) rt =
        Inr (jt.putp p (JArr (zs @ drop (length ys) xs)) rt)"
      "\<forall>z\<in>set zs. wf_json z" "list_all2 json_equal zs (take (length xs) ys)"
    using items by (auto simp: items_become_def)
  then have len: "length zs = min (length ys) (length xs)" by (simp add: list_all2_lengthD)
  let ?rt = "jt.putp p (JArr (zs @ drop (length ys) xs)) rt"
  have g: "jt.getp p ?rt = Some (JArr (zs @ drop (length ys) xs))" using p(2) by (rule jt.getp_putp)
  note w = jt.putp_putp [OF p(2)]
  have c: "map clone_json (drop (length xs) ys) = drop (length xs) ys"
    using ys by (intro clone_items_eq) (auto dest: in_set_dropD)
  have "\<exists>v. apply_ops ?tail ?rt = Inr (jt.putp p v rt) \<and> wf_json v \<and> json_equal v (JArr ys)"
  proof (cases rule: linorder_cases [of "length xs" "length ys"])
    case less
    have "list_all2 json_equal (drop (length xs) ys) (drop (length xs) ys)"
      using ys by (auto intro!: list.rel_refl_strong json_equal_refl dest: in_set_dropD)
    with zs(3) have "list_all2 json_equal (zs @ drop (length xs) ys) (take (length xs) ys @ drop (length xs) ys)"
      by (rule list_all2_appendI)
    moreover have "apply_ops ?tail ?rt = Inr (jt.putp p (JArr (zs @ drop (length xs) ys)) rt)"
      using less len g p(1) w by (simp add: apply_op_splice c splice_at_def)
    ultimately show ?thesis using zs(2) ys by (intro exI [of _ "JArr (zs @ drop (length xs) ys)"])
      (auto dest: in_set_dropD)
  next
    case equal
    with zs xs show ?thesis by (intro exI [of _ "JArr zs"]) simp
  next
    case greater
    show ?thesis
    proof (cases "ys = []")
      case True
      with greater g p(1) w show ?thesis
        by (intro exI [of _ "JArr []"]) (simp add: apply_emit_set)
    next
      case False
      with greater len g p(1) w zs show ?thesis
        by (intro exI [of _ "JArr zs"]) (simp add: apply_op_splice splice_at_def)
    qed
  qed
  with zs(1) show ?thesis unfolding becomes_def by (simp add: apply_ops_append)
qed

lemma becomes_array:
  assumes items: "length xs = length ys \<or>
      common_prefix xs ys 0 + common_suffix xs ys (common_prefix xs ys 0) 0
        \<noteq> min (length xs) (length ys) \<Longrightarrow>
      items_become (diff_items scan xs ys p 0) p rt [] xs ys"
    and p: "safe_path p" "jt.getp p rt = Some (JArr xs)"
    and ys: "\<forall>y\<in>set ys. wf_json y" and xs: "\<forall>x\<in>set xs. wf_json x"
  shows "becomes (diff_array scan xs ys p) p rt (JArr ys)"
proof (cases "length xs = length ys")
  case True
  with becomes_tail [OF items p ys xs] show ?thesis by (simp add: diff_array.simps)
next
  case False
  let ?p = "common_prefix xs ys 0"
  let ?s = "common_suffix xs ys ?p 0"
  have pre: "?p \<le> length xs" "?p \<le> length ys" "\<forall>j<?p. json_equal (xs ! j) (ys ! j)"
    using common_prefix_spec [of 0 xs ys] by simp_all
  have suf: "?s \<le> length xs - ?p" "?s \<le> length ys - ?p"
      "\<forall>j<?s. json_equal (xs ! (length xs - 1 - j)) (ys ! (length ys - 1 - j))"
    using common_suffix_spec [of 0 xs ?p ys] by simp_all
  show ?thesis
  proof (cases "?p + ?s = min (length xs) (length ys)")
    case True
    let ?items = "slice ?p (length ys - ?s) ys"
    let ?zs = "splice_at ?p (length xs - ?p - ?s) ?items xs"
    have it: "\<forall>x\<in>set ?items. wf_json x"
      using ys by (auto simp: slice_def dest: in_set_takeD in_set_dropD)
    show ?thesis
    proof (cases "?p = 0 \<and> length xs - ?p - ?s = length xs")
      case True
      then have "diff_array scan xs ys p = emit_set p (JArr ys)"
        using False \<open>?p + ?s = _\<close> by (simp add: diff_array.simps Let_def)
      then show ?thesis using becomes_emit_set [OF p] ys by simp
    next
      case no: False
      have "diff_array scan xs ys p = [OpP p ?p (length xs - ?p - ?s) ?items]"
        using False True no clone_items_eq [OF it] unfolding diff_array.simps Let_def
        by (auto simp del: diff_diff_left)
      moreover have "json_equal (JArr ?zs) (JArr ys)"
        using splice_between [OF pre suf ys] by simp
      moreover have "wf_json (JArr ?zs)" using xs it by (rule wf_splice_at)
      ultimately show ?thesis
        unfolding becomes_def using apply_op_splice [OF p]
        by (intro exI [of _ "JArr ?zs"]) simp
    qed
  next
    case no: False
    with False have "diff_array scan xs ys p = diff_items scan xs ys p 0 @
      (if length ys > length xs then [OpP p (length xs) 0 (map clone_json (drop (length xs) ys))]
       else if length xs > length ys then
         (if length ys = 0 then emit_set p (JArr ys)
          else [OpP p (length ys) (length xs - length ys) []])
       else [])"
      unfolding diff_array.simps Let_def by (simp only: if_False)
    with becomes_tail [OF items p ys xs] no show ?thesis by simp
  qed
qed

text \<open>The induction over the five functions: what each makes of the node it is given.\<close>

lemma diff_replays:
  shows "wf_json before \<Longrightarrow> wf_json after \<Longrightarrow> safe_path p \<Longrightarrow> jt.getp p rt = Some before \<Longrightarrow>
      becomes (diff_present scan before after p) p rt after"
    and "wf_json (JObj es) \<Longrightarrow> wf_json (JObj fs) \<Longrightarrow> safe_path p \<Longrightarrow>
      jt.getp p rt = Some (JObj es) \<Longrightarrow> becomes (diff_object scan es fs p) p rt (JObj fs)"
    and "wf_json (JObj es) \<Longrightarrow> wf_json (JObj fs) \<Longrightarrow> wf_json (JObj cur) \<Longrightarrow> safe_path p \<Longrightarrow>
      \<forall>k\<in>fst ` set fs. \<not> reserved k \<and> map_of cur k = map_of es k \<Longrightarrow>
      jt.getp p rt = Some (JObj cur) \<Longrightarrow> entries_become (diff_entries scan es fs p) p rt cur fs"
    and "\<forall>x\<in>set xs. wf_json x \<Longrightarrow> \<forall>y\<in>set ys. wf_json y \<Longrightarrow> safe_path p \<Longrightarrow>
      jt.getp p rt = Some (JArr xs) \<Longrightarrow> becomes (diff_array scan xs ys p) p rt (JArr ys)"
    and "\<forall>x\<in>set xs. wf_json x \<Longrightarrow> \<forall>y\<in>set ys. wf_json y \<Longrightarrow> safe_path p \<Longrightarrow> length pre = i \<Longrightarrow>
      jt.getp p rt = Some (JArr (pre @ xs)) \<Longrightarrow>
      items_become (diff_items scan xs ys p i) p rt pre xs ys"
proof (induction scan before after p and scan es fs p and scan es fs p and scan xs ys p
    and scan xs ys p i arbitrary: rt and rt and cur rt and rt and pre rt
    rule: diff_present_diff_object_diff_entries_diff_array_diff_items.induct)
  case (1 scan before after p)
  note set = becomes_emit_set [OF 1(5,6,4)]
  show ?case
  proof (cases "strict_equal before after")
    case True
    then show ?thesis
      using becomes_unchanged [OF 1(6,3)] json_equal_refl 1(3)
      by (auto simp: diff_present.simps strict_equal_def)
  next
    case False
    then show ?thesis
      using 1 set becomes_diff_string [of p rt]
      by (auto simp: diff_present.simps split: json.splits)
  qed
next
  case (2 scan es fs p)
  show ?case
  proof (cases "\<exists>k\<in>set (map fst es @ map fst fs). reserved k")
    case True
    with becomes_emit_set [OF 2(4,5,3)] show ?thesis by (simp add: diff_object.simps)
  next
    case False
    then have "entries_become (diff_entries scan es fs p) p rt es fs"
      using 2(1) [OF _ 2(2,3,2,4) _ 2(5)] by auto
    with False 2(2-) show ?thesis by (intro becomes_object) auto
  qed
next
  case (3 scan es p)
  then show ?case
    by (auto simp: entries_become_def entries_reach_def jt.putp_getp intro!: exI [of _ cur])
next
  case (4 scan es k v fs p)
  have v: "wf_json v" "wf_json (JObj fs)" "k \<notin> fst ` set fs" "\<not> reserved k"
      "map_of cur k = map_of es k"
    using 4(4,7) by auto
  have ih: "becomes (diff_present scan b v (p @ [SKey k])) (p @ [SKey k]) rt v"
    if "map_of es k = Some b" "jt.getp (p @ [SKey k]) rt = Some b" for b
    using 4(1) [OF that(1) _ v(1) _ that(2)] that v(4) 4(6) wf_json_entry [OF 4(3)] by simp
  obtain w where w: "apply_ops (case map_of es k of None \<Rightarrow> emit_set (p @ [SKey k]) v
        | Some b \<Rightarrow> diff_present scan b v (p @ [SKey k])) rt
      = Inr (jt.putp p (JObj (AList.update k w cur)) rt)" "wf_json w" "json_equal w v"
    using diff_entry_step [OF ih 4(6) v(4,1) 4(8) v(5)] by blast
  let ?cur = "AList.update k w cur" and ?rt = "jt.putp p (JObj (AList.update k w cur)) rt"
  have wc: "wf_json (JObj ?cur)"
    using 4(5) w(2) wf_write_prop [of "JObj cur" w "SKey k"] by (simp add: write_prop_def)
  have g: "jt.getp p ?rt = Some (JObj ?cur)" using 4(8) by (rule jt.getp_putp)
  have "\<forall>j\<in>fst ` set fs. \<not> reserved j \<and> map_of ?cur j = map_of es j"
    using 4(7) v(3) by (auto simp: update_conv)
  then obtain cur' where "apply_ops (diff_entries scan es fs p) ?rt = Inr (jt.putp p (JObj cur') ?rt)"
      "entries_reach ?cur fs cur'"
    using 4(2) [OF 4(3) v(2) wc 4(6) _ g] unfolding entries_become_def by blast
  then show ?case
    using w entries_reach_Cons [OF _ w(3) v(3)] jt.putp_putp [OF 4(8)]
    by (auto simp: entries_become_def apply_ops_append)
next
  case (5 scan xs ys p)
  have "items_become (diff_items scan xs ys p 0) p rt [] xs ys" if "length xs = length ys \<or>
      common_prefix xs ys 0 + common_suffix xs ys (common_prefix xs ys 0) 0
        \<noteq> min (length xs) (length ys)"
    using 5(1) [of "[]" rt] 5(2) [OF _ refl refl refl, of "[]" rt] 5(3-) that
    by (cases "length xs = length ys") simp_all
  then show ?case using 5(3-) by (intro becomes_array) simp_all
next
  case (6 scan x xs y ys p i)
  obtain w where w: "apply_ops (diff_present scan x y (p @ [SIdx i])) rt
      = Inr (jt.putp p (JArr (pre @ w # xs)) rt)" "wf_json w" "json_equal w y"
    using diff_item_step [of p pre rt x scan y xs] 6 by auto
  let ?rt = "jt.putp p (JArr (pre @ w # xs)) rt"
  have "jt.getp p ?rt = Some (JArr ((pre @ [w]) @ xs))" using jt.getp_putp [OF 6(7)] by simp
  then obtain zs where "apply_ops (diff_items scan xs ys p (i + 1)) ?rt
      = Inr (jt.putp p (JArr ((pre @ [w]) @ zs @ drop (length ys) xs)) ?rt)"
      "\<forall>z\<in>set zs. wf_json z" "list_all2 json_equal zs (take (length xs) ys)"
    using 6(2) [of "pre @ [w]" ?rt] 6 unfolding items_become_def by auto
  then show ?case
    using w jt.putp_putp [OF 6(7)]
    by (auto simp: items_become_def apply_ops_append intro!: exI [of _ "w # zs"])
next
  case (7 scan ys p i)
  then show ?case by (auto simp: items_become_def jt.putp_getp)
next
  case (8 scan x xs p i)
  then show ?case by (auto simp: items_become_def jt.putp_getp intro!: exI [of _ "[]"])
qed

section \<open>Equal values\<close>

lemma equal_keys:
  assumes "\<forall>k. rel_option R (map_of es k) (map_of fs k)"
  shows "fst ` set es = fst ` set fs"
proof -
  have "map_of es k = None \<longleftrightarrow> map_of fs k = None" for k
    using assms [rule_format, of k] by (cases "map_of es k"; cases "map_of fs k") simp_all
  then show ?thesis by (simp add: map_of_eq_None_iff set_eq_iff)
qed

lemma entries_all_present:
  "\<forall>k. rel_option json_equal (map_of es k) (map_of fs k) \<Longrightarrow>
   filter (\<lambda>k. map_of fs k = None) (map fst es) = []"
  using equal_keys [of json_equal es fs] by (auto simp: filter_empty_conv map_of_eq_None_iff)

lemma diff_of_equal:
  shows "wf_json before \<Longrightarrow> wf_json after \<Longrightarrow> \<not> has_reserved before \<Longrightarrow> json_equal before after \<Longrightarrow>
      diff_present scan before after p = []"
    and "wf_json (JObj es) \<Longrightarrow> wf_json (JObj fs) \<Longrightarrow> \<not> has_reserved (JObj es) \<Longrightarrow>
      json_equal (JObj es) (JObj fs) \<Longrightarrow> diff_object scan es fs p = []"
    and "wf_json (JObj es) \<Longrightarrow> wf_json (JObj fs) \<Longrightarrow> \<not> has_reserved (JObj es) \<Longrightarrow>
      \<forall>(k, v)\<in>set fs. \<exists>b. map_of es k = Some b \<and> json_equal b v \<Longrightarrow> diff_entries scan es fs p = []"
    and "\<forall>x\<in>set xs. wf_json x \<and> \<not> has_reserved x \<Longrightarrow> \<forall>y\<in>set ys. wf_json y \<Longrightarrow>
      list_all2 json_equal xs ys \<Longrightarrow> diff_array scan xs ys p = []"
    and "\<forall>x\<in>set xs. wf_json x \<and> \<not> has_reserved x \<Longrightarrow> \<forall>y\<in>set ys. wf_json y \<Longrightarrow>
      list_all2 json_equal xs ys \<Longrightarrow> diff_items scan xs ys p i = []"
proof (induction scan before after p and scan es fs p and scan es fs p and scan xs ys p
    and scan xs ys p i rule: diff_present_diff_object_diff_entries_diff_array_diff_items.induct)
  case (1 scan before after p)
  then show ?case
    by (cases before; cases after)
      (auto simp: diff_present.simps strict_equal_def diff_string_def json_equal_prim)
next
  case (2 scan es fs p)
  have d: "distinct (map fst es)" "distinct (map fst fs)" using 2(2,3) by simp_all
  have r: "\<forall>k. rel_option json_equal (map_of es k) (map_of fs k)"
    using 2(5) d by (simp add: json_equal_obj_iff)
  have "\<not> reserved k" if "k \<in> set (map fst es @ map fst fs)" for k
  proof -
    have "k \<in> fst ` set es" using that equal_keys [OF r] by (simp add: image_Un)
    then show ?thesis using 2(4) by auto
  qed
  moreover have "\<forall>(k, v)\<in>set fs. \<exists>b. map_of es k = Some b \<and> json_equal b v"
  proof (safe)
    fix k v assume "(k, v) \<in> set fs"
    then have "map_of fs k = Some v" using d by simp
    then show "\<exists>b. map_of es k = Some b \<and> json_equal b v"
      using r [rule_format, of k] by (auto simp: option_rel_Some2)
  qed
  ultimately show ?case using 2 entries_all_present [OF r] by (simp add: diff_object.simps)
next
  case (4 scan es k v fs p)
  then obtain b where b: "map_of es k = Some b" "json_equal b v" by auto
  then have "(k, b) \<in> set es" by (simp add: map_of_SomeD)
  with 4(5) have "\<not> has_reserved b" by auto
  with 4 b show ?case by (auto simp: wf_json_entry)
next
  case (5 scan xs ys p)
  then show ?case by (simp add: diff_array.simps list_all2_lengthD)
qed auto

section \<open>Properties\<close>

text \<open>
  \<open>overlap\<close> returns a length of a suffix of \<open>a\<close> that is a prefix of \<open>b\<close>; when it does
  not give up with 0, no longer one exists within the scanned tail.
\<close>

theorem overlap_correct:
  "overlaps a b (overlap a b scan) \<and>
   (overlap a b scan = 0 \<or>
    overlap a b scan \<le> scan \<and> {m. overlaps a b m \<and> m \<le> scan} \<subseteq> {..overlap a b scan})"
proof -
  have "overlaps a b 0" by (simp add: overlaps_def)
  with overlap_cases [of a b scan] show ?thesis by (elim disjE) auto
qed

text \<open>
  C12. Replaying a diff reproduces the new value: wherever the old value sits in a document,
  applying the operations that \<open>diffValue\<close> emits succeeds, puts a value equal to the new one
  there and changes nothing else, for any scan bound.
\<close>

theorem diff_value_replays:
  assumes "wf_json before" "wf_json after" "safe_path p" "jt.getp p rt = Some before"
  shows "\<exists>ops v. diff_value scan (Some before) (Some after) p = Inr ops \<and>
    apply_ops ops rt = Inr (jt.putp p v rt) \<and> json_equal v after"
  using diff_replays(1) [OF assms, of scan] by (auto simp: diff_value_def becomes_def)

theorem diff_value_replays_witness:
  "\<exists>ops v. diff_value 65536 (Some (JArr [JStr ''abc'', JNull])) (Some (JArr [JStr ''bcd'', JBool True]))
      [SKey ''log''] = Inr ops \<and>
    apply_ops ops (JObj [(''log'', JArr [JStr ''abc'', JNull])]) =
      Inr (jt.putp [SKey ''log''] v (JObj [(''log'', JArr [JStr ''abc'', JNull])])) \<and>
    json_equal v (JArr [JStr ''bcd'', JBool True])"
  by (rule diff_value_replays)
    (simp_all add: read_prop_def reserved_def RESERVED_SEGMENTS_def)

text \<open>
  Nothing is emitted for what did not change: two structurally equal values without
  reserved property names have an empty diff.
\<close>

theorem diff_value_silent:
  assumes "wf_json before" "wf_json after" "\<not> has_reserved before" "json_equal before after"
  shows "diff_value scan (Some before) (Some after) p = Inr []"
  using diff_of_equal(1) [OF assms] by (simp add: diff_value_def)

theorem diff_value_silent_witness:
  "diff_value 10 (Some (JObj [(''a'', JNull), (''b'', JArr [JStr ''x''])]))
     (Some (JObj [(''b'', JArr [JStr ''x'']), (''a'', JNull)])) [] = Inr []"
  by (rule diff_value_silent) code_simp+

end
