(* ===== verification/DeltaCodec.thy ===== *)
theory DeltaCodec imports DeltaOps begin

text \<open>
  \<open>packages/chord/src/delta/index.ts\<close>, the wire form of a stream of batches: path ids
  defined on the second use of a path, operations whose path repeats the previous one sent
  without it, the encoder and decoder of one stream with their dictionaries, and the
  validator of the wire grammar.
\<close>

section \<open>Path keys\<close>

fun stringify_seg :: "seg \<Rightarrow> string" where
  "stringify_seg (SKey k) = CHR 0x22 # quoted k"
| "stringify_seg (SIdx n) = show_nat n"

fun stringify_tail :: "path \<Rightarrow> string" where
  "stringify_tail [] = '']''"
| "stringify_tail (s # p) = '','' @ stringify_seg s @ stringify_tail p"

definition path_key :: "path \<Rightarrow> string" where
  "path_key p = ''['' @ (case p of [] \<Rightarrow> '']'' | s # q \<Rightarrow> stringify_seg s @ stringify_tail q)"

lemma stringify_seg_inj:
  assumes "stringify_seg s @ x = stringify_seg t @ y" "hd x \<notin> set digits" "hd y \<notin> set digits"
    "x \<noteq> []" "y \<noteq> []"
  shows "s = t \<and> x = y"
proof -
  have q: "CHR 0x22 # a \<noteq> show_nat n @ b" for a b n
  proof
    assume "CHR 0x22 # a = show_nat n @ b"
    then have "CHR 0x22 \<in> set (show_nat n)"
      by (metis append_Cons list.sel(1) list.set_intros(1) neq_Nil_conv show_nat_nonempty)
    then show False using show_nat_digits [of "CHR 0x22" n] by simp
  qed
  show ?thesis
  proof (cases s; cases t)
    fix n m assume s: "s = SIdx n" and t: "t = SIdx m"
    with assms(1) have "show_nat n @ x = show_nat m @ y" by simp
    from show_nat_append_inj [OF this assms(4,5,2,3)] s t show ?thesis by simp
  next
    fix j k assume s: "s = SKey j" and t: "t = SKey k"
    with assms(1) have "quoted j @ x = quoted k @ y" by simp
    from quoted_inj [OF this] s t show ?thesis by simp
  next
    fix n k assume "s = SIdx n" "t = SKey k"
    with assms(1) q [of "quoted k @ y" n x] show ?thesis by simp
  next
    fix j m assume "s = SKey j" "t = SIdx m"
    with assms(1) q [of "quoted j @ x" m y] show ?thesis by simp
  qed
qed

lemma stringify_tail_hd: "stringify_tail p \<noteq> [] \<and> hd (stringify_tail p) \<notin> set digits"
  by (cases p) (simp_all add: digits_def)

lemma stringify_tail_inj: "stringify_tail p = stringify_tail q \<Longrightarrow> p = q"
proof (induction p arbitrary: q)
  case Nil
  then show ?case by (cases q) simp_all
next
  case (Cons s p)
  then obtain t u where q: "q = t # u" by (cases q) simp_all
  with Cons.prems have "stringify_seg s @ stringify_tail p = stringify_seg t @ stringify_tail u" by simp
  with stringify_seg_inj stringify_tail_hd have "s = t" "stringify_tail p = stringify_tail u" by blast+
  with Cons.IH q show ?case by simp
qed

lemma path_key_inj: "path_key p = path_key q \<Longrightarrow> p = q"
proof -
  have ne: "stringify_seg s @ x \<noteq> '']''" for s x
  proof (cases s)
    case (SIdx n)
    have "CHR 0x5D \<notin> set (show_nat n)" using show_nat_digits [of "CHR 0x5D" n] by auto
    with SIdx show ?thesis by (metis append_Cons hd_Cons_tl list.sel(1) list.set_intros(1)
          show_nat_nonempty stringify_seg.simps(2))
  qed simp
  assume "path_key p = path_key q"
  moreover have "stringify_seg s @ stringify_tail p = stringify_seg t @ stringify_tail q \<Longrightarrow> s = t \<and> p = q"
    for s t p q
    using stringify_seg_inj stringify_tail_hd stringify_tail_inj by blast
  ultimately show ?thesis using ne not_sym [OF ne]
    by (cases p; cases q) (simp_all add: path_key_def)
qed

section \<open>Wire operations\<close>

datatype path_ref = Inline path | Ref nat

text \<open>\<open>None\<close> in the place of the reference is the short form.\<close>

datatype wire_op =
    WR json
  | WS "path_ref option" json
  | WD "path_ref option"
  | WA "path_ref option" string
  | WT "path_ref option" nat
  | WP "path_ref option" nat nat "json list"
  | WDef nat path

fun ref_json :: "path_ref option \<Rightarrow> json list" where
  "ref_json None = []"
| "ref_json (Some (Inline p)) = [JArr (map seg_json p)]"
| "ref_json (Some (Ref i)) = [JNum (of_nat i)]"

fun wire_json :: "wire_op \<Rightarrow> json" where
  "wire_json (WR v) = JArr [JStr ''r'', v]"
| "wire_json (WS r v) = JArr (JStr ''s'' # ref_json r @ [v])"
| "wire_json (WD r) = JArr (JStr ''d'' # ref_json r)"
| "wire_json (WA r s) = JArr (JStr ''a'' # ref_json r @ [JStr s])"
| "wire_json (WT r n) = JArr (JStr ''t'' # ref_json r @ [JNum (of_nat n)])"
| "wire_json (WP r i n items) =
     JArr (JStr ''p'' # ref_json r @ [JNum (of_nat i), JNum (of_nat n), JArr items])"
| "wire_json (WDef i p) = JArr [JStr ''#'', JNum (of_nat i), JArr (map seg_json p)]"

section \<open>Validation of a wire operation\<close>

definition ok_ref :: "json \<Rightarrow> delta_error + path_ref" where
  "ok_ref r = (case r of
     JNum _ \<Rightarrow> bindE (require (TypeErr ''bad path id'') (as_index r)) (\<lambda>i. Inr (Ref i))
   | JArr segs \<Rightarrow> bindE (mapE parse_seg segs) (\<lambda>p. Inr (Inline p))
   | _ \<Rightarrow> Inl (TypeErr ''path is not an array''))"

definition ok_splice :: "path_ref option \<Rightarrow> json \<Rightarrow> json \<Rightarrow> json \<Rightarrow> delta_error + wire_op" where
  "ok_splice r i n items =
     bindE (require (TypeErr ''p index'') (as_index i)) (\<lambda>i.
     bindE (require (TypeErr ''p remove'') (as_index n)) (\<lambda>n.
     bindE (require (TypeErr ''p items'') (as_array items)) (\<lambda>xs. Inr (WP r i n xs))))"

definition assert_valid_wire_op :: "json \<Rightarrow> delta_error + wire_op" where
  "assert_valid_wire_op v = (case v of
     JArr (verb # args) \<Rightarrow>
       if verb = JStr ''r'' then
         (case args of [x] \<Rightarrow> Inr (WR x) | _ \<Rightarrow> Inl (TypeErr ''r arity''))
       else if verb = JStr ''s'' then
         (case args of
            [r, x] \<Rightarrow> bindE (ok_ref r) (\<lambda>r. Inr (WS (Some r) x))
          | [x] \<Rightarrow> Inr (WS None x)
          | _ \<Rightarrow> Inl (TypeErr ''s arity''))
       else if verb = JStr ''d'' then
         (case args of
            [r] \<Rightarrow> bindE (ok_ref r) (\<lambda>r. Inr (WD (Some r)))
          | [] \<Rightarrow> Inr (WD None)
          | _ \<Rightarrow> Inl (TypeErr ''d arity''))
       else if verb = JStr ''a'' then
         (case args of
            [r, s] \<Rightarrow> bindE (ok_ref r) (\<lambda>r.
                        bindE (require (TypeErr ''a value'') (as_string s)) (\<lambda>s. Inr (WA (Some r) s)))
          | [s] \<Rightarrow> bindE (require (TypeErr ''a value'') (as_string s)) (\<lambda>s. Inr (WA None s))
          | _ \<Rightarrow> Inl (TypeErr ''a arity''))
       else if verb = JStr ''t'' then
         (case args of
            [r, n] \<Rightarrow> bindE (ok_ref r) (\<lambda>r.
                        bindE (require (TypeErr ''t count'') (as_index n)) (\<lambda>n. Inr (WT (Some r) n)))
          | [n] \<Rightarrow> bindE (require (TypeErr ''t count'') (as_index n)) (\<lambda>n. Inr (WT None n))
          | _ \<Rightarrow> Inl (TypeErr ''t arity''))
       else if verb = JStr ''p'' then
         (case args of
            [r, i, n, items] \<Rightarrow> bindE (ok_ref r) (\<lambda>r. ok_splice (Some r) i n items)
          | [i, n, items] \<Rightarrow> ok_splice None i n items
          | _ \<Rightarrow> Inl (TypeErr ''p arity''))
       else if verb = JStr ''#'' then
         (case args of
            [i, p] \<Rightarrow>
              bindE (require (TypeErr ''# shape'') (as_index i)) (\<lambda>i.
              bindE (require (TypeErr ''# shape'') (as_array p)) (\<lambda>segs.
              bindE (mapE parse_seg segs) (\<lambda>p. Inr (WDef i p))))
          | _ \<Rightarrow> Inl (TypeErr ''# shape''))
       else Inl (TypeErr ''unknown op verb'')
   | _ \<Rightarrow> Inl (TypeErr ''op is not a tuple''))"

text \<open>The wire operations whose inline paths are safe.\<close>

fun wire_path :: "wire_op \<Rightarrow> path option" where
  "wire_path (WS (Some (Inline p)) v) = Some p"
| "wire_path (WD (Some (Inline p))) = Some p"
| "wire_path (WA (Some (Inline p)) s) = Some p"
| "wire_path (WT (Some (Inline p)) n) = Some p"
| "wire_path (WP (Some (Inline p)) i n items) = Some p"
| "wire_path (WDef i p) = Some p"
| "wire_path _ = None"

definition valid_wire_op :: "wire_op \<Rightarrow> bool" where
  "valid_wire_op w \<longleftrightarrow> (case wire_path w of None \<Rightarrow> True | Some p \<Rightarrow> safe_path p)"

lemma ok_ref_json [simp]:
  "ok_ref (JNum (of_nat i)) = Inr (Ref i)"
  "safe_path p \<Longrightarrow> ok_ref (JArr (map seg_json p)) = Inr (Inline p)"
  by (simp_all add: ok_ref_def parse_path_json)

lemma ok_splice_json [simp]:
  "ok_splice r (JNum (of_nat i)) (JNum (of_nat n)) (JArr items) = Inr (WP r i n items)"
  by (simp add: ok_splice_def as_array_def)

lemma wire_json_valid: "valid_wire_op w \<Longrightarrow> assert_valid_wire_op (wire_json w) = Inr w"
  by (cases w rule: wire_path.cases)
    (simp_all add: assert_valid_wire_op_def valid_wire_op_def as_string_def as_array_def
      parse_path_json)

section \<open>Encoder\<close>

record encoder =
  seen :: "string list"
  ids :: "(string \<times> nat) list"
  nextId :: nat

definition encoder_new :: encoder where
  "encoder_new = \<lparr>seen = [], ids = [], nextId = 0\<rparr>"

fun wire_with :: "op \<Rightarrow> path_ref option \<Rightarrow> wire_op" where
  "wire_with (OpR v) r = WR v"
| "wire_with (OpS p v) r = WS r v"
| "wire_with (OpD p) r = WD r"
| "wire_with (OpA p s) r = WA r s"
| "wire_with (OpT p n) r = WT r n"
| "wire_with (OpP p i n items) r = WP r i n items"

text \<open>The reference for a path that is not the previous one, with the definition it needs.\<close>

definition encode_ref :: "path \<Rightarrow> encoder \<Rightarrow> path_ref \<times> wire_op list \<times> encoder" where
  "encode_ref path e = (let key = path_key path in
     case map_of (ids e) key of
       Some existing \<Rightarrow> (Ref existing, [], e)
     | None \<Rightarrow>
         if key \<in> set (seen e) then
           (let id = nextId e in
             (Ref id, [WDef id path], e\<lparr>ids := (key, id) # ids e, nextId := id + 1\<rparr>))
         else (Inline path, [], e\<lparr>seen := key # seen e\<rparr>))"

fun encode_ops :: "op list \<Rightarrow> string option \<Rightarrow> encoder \<Rightarrow> wire_op list \<times> encoder" where
  "encode_ops [] previous e = ([], e)"
| "encode_ops (op # ops) previous e =
     (case op_path op of
        None \<Rightarrow>
          (let (out, e') = encode_ops ops None (e\<lparr>seen := [], ids := [], nextId := 0\<rparr>)
           in (wire_with op None # out, e'))
      | Some path \<Rightarrow>
          let key = path_key path in
          if previous = Some key then
            (let (out, e') = encode_ops ops previous e in (wire_with op None # out, e'))
          else
            (let (ref, defs, e1) = encode_ref path e;
                 (out, e') = encode_ops ops (Some key) e1
             in (defs @ wire_with op (Some ref) # out, e')))"

definition encode :: "op list \<Rightarrow> encoder \<Rightarrow> wire_op list \<times> encoder" where
  "encode ops e = encode_ops ops None e"

section \<open>Decoder\<close>

type_synonym decoder = "(nat \<times> path) list"

definition decoder_new :: decoder where
  "decoder_new = []"

fun wire_ref :: "wire_op \<Rightarrow> path_ref option" where
  "wire_ref (WS r v) = r"
| "wire_ref (WD r) = r"
| "wire_ref (WA r s) = r"
| "wire_ref (WT r n) = r"
| "wire_ref (WP r i n items) = r"
| "wire_ref _ = None"

fun op_with :: "wire_op \<Rightarrow> path \<Rightarrow> delta_error + op" where
  "op_with (WP r i n items) path = Inr (OpP path i n items)"
| "op_with (WS r v) path = (if path = [] then Inl (PathErr path) else Inr (OpS path v))"
| "op_with (WD r) path = (if path = [] then Inl (PathErr path) else Inr (OpD path))"
| "op_with (WA r s) path = (if path = [] then Inl (PathErr path) else Inr (OpA path s))"
| "op_with (WT r n) path = (if path = [] then Inl (PathErr path) else Inr (OpT path n))"
| "op_with (WR v) path = Inr (OpR v)"
| "op_with (WDef i p) path = Inl (PathErr path)"

definition decode_path :: "path_ref option \<Rightarrow> path option \<Rightarrow> decoder \<Rightarrow> delta_error + path" where
  "decode_path ref previous paths = (case ref of
     None \<Rightarrow> require (PathErr []) previous
   | Some (Ref i) \<Rightarrow> require (PathErrId i) (map_of paths i)
   | Some (Inline path) \<Rightarrow> Inr path)"

text \<open>The loop of \<open>decode\<close>: an operation is validated when its turn comes.\<close>

fun decode_ops :: "json list \<Rightarrow> path option \<Rightarrow> decoder \<Rightarrow> delta_error + op list \<times> decoder" where
  "decode_ops [] previous paths = Inr ([], paths)"
| "decode_ops (v # wire) previous paths =
     bindE (assert_valid_wire_op v) (\<lambda>w. case w of
       WDef i path \<Rightarrow>
         bindE (assert_safe_path path) (\<lambda>_. decode_ops wire previous ((i, path) # paths))
     | WR x \<Rightarrow>
         bindE (decode_ops wire None []) (\<lambda>(out, paths'). Inr (OpR x # out, paths'))
     | _ \<Rightarrow>
         bindE (decode_path (wire_ref w) previous paths) (\<lambda>path.
         bindE (op_with w path) (\<lambda>op.
         bindE (decode_ops wire (Some path) paths) (\<lambda>(out, paths'). Inr (op # out, paths')))))"

definition decode :: "json list \<Rightarrow> decoder \<Rightarrow> delta_error + op list \<times> decoder" where
  "decode wire paths = decode_ops wire None paths"

text \<open>A stream of batches through one encoder, and through one decoder.\<close>

fun encode_stream :: "op list list \<Rightarrow> encoder \<Rightarrow> json list list" where
  "encode_stream [] e = []"
| "encode_stream (ops # batches) e =
     (let (ws, e') = encode ops e in map wire_json ws # encode_stream batches e')"

fun decode_stream :: "json list list \<Rightarrow> decoder \<Rightarrow> delta_error + op list list" where
  "decode_stream [] d = Inr []"
| "decode_stream (wire # batches) d =
     bindE (decode wire d) (\<lambda>(ops, d'). bindE (decode_stream batches d') (\<lambda>bs. Inr (ops # bs)))"

section \<open>Encoder and decoder in step\<close>

text \<open>Every id the encoder may refer to is defined at the decoder, as that path.\<close>

definition in_step :: "encoder \<Rightarrow> decoder \<Rightarrow> bool" where
  "in_step e d \<longleftrightarrow> (\<forall>p i. map_of (ids e) (path_key p) = Some i \<longrightarrow>
     i < nextId e \<and> map_of d i = Some p)"

lemma in_step_new [simp]: "in_step (e\<lparr>seen := [], ids := [], nextId := 0\<rparr>) d" "in_step encoder_new d"
  by (simp_all add: in_step_def encoder_new_def)

lemma in_step_define:
  assumes "in_step e d"
  shows "in_step (e\<lparr>ids := (path_key p, nextId e) # ids e, nextId := nextId e + 1\<rparr>)
    ((nextId e, p) # d)"
  unfolding in_step_def
proof (intro allI impI)
  fix q i
  assume "map_of (ids (e\<lparr>ids := (path_key p, nextId e) # ids e, nextId := nextId e + 1\<rparr>))
    (path_key q) = Some i"
  then have "p = q \<and> i = nextId e \<or> map_of (ids e) (path_key q) = Some i"
    by (auto dest: path_key_inj split: if_splits)
  moreover have "i < nextId e \<and> map_of d i = Some q" if "map_of (ids e) (path_key q) = Some i"
    using assms that by (simp add: in_step_def)
  ultimately show "i < nextId (e\<lparr>ids := (path_key p, nextId e) # ids e, nextId := nextId e + 1\<rparr>) \<and>
      map_of ((nextId e, p) # d) i = Some q"
    by auto
qed

lemma in_step_seen [simp]: "in_step (e\<lparr>seen := ks\<rparr>) d = in_step e d"
  by (simp add: in_step_def)

lemma wire_with_ref: "op_path op = Some p \<Longrightarrow> wire_ref (wire_with op r) = r"
  by (cases op) simp_all

lemma op_with_wire: "valid_op op \<Longrightarrow> op_path op = Some p \<Longrightarrow> op_with (wire_with op r) p = Inr op"
  by (cases op) (auto simp: valid_op_def)

lemma valid_wire_with:
  "op_path op = Some p \<Longrightarrow> safe_path p \<Longrightarrow> r = Some (Inline p) \<or> r = None \<or> (\<exists>i. r = Some (Ref i)) \<Longrightarrow>
   valid_wire_op (wire_with op r)"
  by (cases op) (auto simp: valid_wire_op_def)

text \<open>Decoding one encoded operation that carries a path.\<close>

lemma decode_wire_with:
  assumes "valid_op op" "op_path op = Some p" "valid_wire_op (wire_with op r)"
    and "decode_path r previous d = Inr p"
  shows "decode_ops (wire_json (wire_with op r) # wire) previous d =
    bindE (decode_ops wire (Some p) d) (\<lambda>(out, d'). Inr (op # out, d'))"
  using assms op_with_wire [OF assms(1,2), of r] wire_with_ref [OF assms(2), of r]
    wire_json_valid [OF assms(3)]
  by (cases op) (simp_all del: wire_json.simps)

lemma encode_ref_decodes:
  assumes "encode_ref p e = (ref, defs, e1)" "in_step e d" "safe_path p"
  shows "\<exists>d1. in_step e1 d1 \<and> decode_path (Some ref) previous d1 = Inr p \<and>
    (ref = Inline p \<or> (\<exists>i. ref = Ref i)) \<and>
    (\<forall>wire. decode_ops (map wire_json defs @ wire) previous d = decode_ops wire previous d1)"
proof (cases "map_of (ids e) (path_key p)")
  case (Some i)
  with assms show ?thesis
    by (intro exI [of _ d]) (auto simp: encode_ref_def decode_path_def in_step_def)
next
  case None
  show ?thesis
  proof (cases "path_key p \<in> set (seen e)")
    case True
    with None assms(1) have "ref = Ref (nextId e)" "defs = [WDef (nextId e) p]"
        "e1 = e\<lparr>ids := (path_key p, nextId e) # ids e, nextId := nextId e + 1\<rparr>"
      by (auto simp: encode_ref_def Let_def)
    moreover have "valid_wire_op (WDef (nextId e) p)" using assms(3) by (simp add: valid_wire_op_def)
    moreover have "assert_safe_path p = Inr ()" using assms(3) by (simp add: assert_safe_path_iff)
    ultimately show ?thesis using in_step_define [OF assms(2), of p]
      by (intro exI [of _ "(nextId e, p) # d"]) (simp add: decode_path_def wire_json_valid del: wire_json.simps)
  next
    case False
    with None assms show ?thesis
      by (intro exI [of _ d]) (auto simp: encode_ref_def Let_def decode_path_def)
  qed
qed

text \<open>The previous path of the encoder is that of the decoder.\<close>

lemma decode_encode_ops:
  assumes "\<forall>op\<in>set ops. valid_op op" "in_step e d"
    and "previous = map_option path_key q"
  shows "\<exists>d'. decode_ops (map wire_json (fst (encode_ops ops previous e))) q d = Inr (ops, d') \<and>
    in_step (snd (encode_ops ops previous e)) d'"
  using assms
proof (induction ops arbitrary: previous e d q)
  case (Cons op ops)
  have v: "valid_op op" "\<forall>op\<in>set ops. valid_op op" using Cons.prems by simp_all
  show ?case
  proof (cases "op_path op")
    case None
    then obtain x where op: "op = OpR x" by (cases op) simp_all
    let ?e = "e\<lparr>seen := [], ids := [], nextId := 0\<rparr>"
    obtain d' where "decode_ops (map wire_json (fst (encode_ops ops None ?e))) None [] = Inr (ops, d')"
        "in_step (snd (encode_ops ops None ?e)) d'"
      using Cons.IH [OF v(2), of ?e "[]" None None] by auto
    moreover have "assert_valid_wire_op (wire_json (WR x)) = Inr (WR x)"
      by (rule wire_json_valid) (simp add: valid_wire_op_def)
    ultimately show ?thesis using op
      by (simp add: split_beta del: wire_json.simps)
  next
    case (Some p)
    then have sp: "safe_path p" using v(1) by (simp add: valid_op_def)
    show ?thesis
    proof (cases "previous = Some (path_key p)")
      case True
      then have q: "q = Some p" using Cons.prems(3) by (auto dest: path_key_inj)
      obtain d' where ih: "decode_ops (map wire_json (fst (encode_ops ops previous e))) (Some p) d = Inr (ops, d')"
          "in_step (snd (encode_ops ops previous e)) d'"
        using Cons.IH [OF v(2) Cons.prems(2), of previous q] Cons.prems(3) q by auto
      have "valid_wire_op (wire_with op None)" using valid_wire_with [OF Some sp] by simp
      from decode_wire_with [OF v(1) Some this, of q d] ih Some True q show ?thesis
        by (simp add: decode_path_def split_beta Let_def)
    next
      case False
      obtain ref defs e1 where r: "encode_ref p e = (ref, defs, e1)" by (metis prod_cases3)
      obtain d1 where d1: "in_step e1 d1" "decode_path (Some ref) q d1 = Inr p"
          "ref = Inline p \<or> (\<exists>i. ref = Ref i)"
          "\<And>wire. decode_ops (map wire_json defs @ wire) q d = decode_ops wire q d1"
        using encode_ref_decodes [OF r Cons.prems(2) sp, of q] by blast
      obtain d' where ih: "decode_ops (map wire_json (fst (encode_ops ops (Some (path_key p)) e1))) (Some p) d1
            = Inr (ops, d')" "in_step (snd (encode_ops ops (Some (path_key p)) e1)) d'"
        using Cons.IH [OF v(2) d1(1), of "Some (path_key p)" "Some p"] by auto
      have "valid_wire_op (wire_with op (Some ref))" using valid_wire_with [OF Some sp] d1(3) by auto
      from decode_wire_with [OF v(1) Some this d1(2)] ih Some False r d1(4) show ?thesis
        by (simp add: split_beta Let_def)
    qed
  qed
qed simp

lemma decode_encode_step:
  assumes "\<forall>op\<in>set ops. valid_op op" "in_step e d"
  obtains d' where "decode (map wire_json (fst (encode ops e))) d = Inr (ops, d')"
    "in_step (snd (encode ops e)) d'"
  using decode_encode_ops [OF assms, of None None] unfolding decode_def encode_def by auto

lemma decode_encode_stream:
  "\<forall>ops\<in>set batches. \<forall>op\<in>set ops. valid_op op \<Longrightarrow> in_step e d \<Longrightarrow>
   decode_stream (encode_stream batches e) d = Inr batches"
proof (induction batches arbitrary: e d)
  case (Cons ops batches)
  then obtain d' where "decode (map wire_json (fst (encode ops e))) d = Inr (ops, d')"
      "in_step (snd (encode ops e)) d'"
    using decode_encode_step [of ops e d] by auto
  with Cons show ?case by (simp add: split_beta)
qed simp

text \<open>A base batch resets the encoder, so what follows it does not depend on what preceded.\<close>

lemma encode_base: "is_base b \<Longrightarrow> encode b (e\<lparr>seen := [], ids := [], nextId := 0\<rparr>) = encode b e"
  by (cases b) (auto simp: is_base_def encode_def elim!: is_replace.elims)

lemma decode_encode_base:
  assumes "\<forall>op\<in>set b. valid_op op" "is_base b"
  obtains d' where "decode (map wire_json (fst (encode b e))) d = Inr (b, d')"
    "in_step (snd (encode b e)) d'"
  using decode_encode_step [OF assms(1) in_step_new(1) [of e d]]
  unfolding encode_base [OF assms(2)] by blast

lemma encode_stream_append:
  "\<exists>e'. encode_stream (pre @ post) e = encode_stream pre e @ encode_stream post e'"
proof (induction pre arbitrary: e)
  case Nil
  show ?case by auto
next
  case (Cons ops pre)
  from Cons.IH [of "snd (encode ops e)"] show ?case by (simp add: split_beta)
qed

lemma encode_stream_length: "length (encode_stream batches e) = length batches"
  by (induction batches arbitrary: e) (simp_all add: split_beta)

section \<open>What an untrusted stream decodes to\<close>

lemma ok_ref_safe: "ok_ref v = Inr r \<Longrightarrow> r = Inline p \<Longrightarrow> safe_path p"
  by (auto simp: ok_ref_def bindE_eq_Inr dest: mapE_parse_safe split: json.splits)

lemma assert_valid_wire_op_valid: "assert_valid_wire_op v = Inr w \<Longrightarrow> valid_wire_op w"
proof -
  have s: "valid_wire_op w" if "ok_splice r i n items = Inr w" "\<And>p. r = Some (Inline p) \<Longrightarrow> safe_path p"
    for r i n items
    using that by (cases w rule: wire_path.cases) (auto simp: ok_splice_def bindE_eq_Inr valid_wire_op_def)
  have r: "valid_wire_op (WS (Some r) x)" "valid_wire_op (WD (Some r))" "valid_wire_op (WA (Some r) t)"
    "valid_wire_op (WT (Some r) n)" if "ok_ref u = Inr r" for u r x t n
    using ok_ref_safe [OF that] by (cases r; simp add: valid_wire_op_def)+
  assume "assert_valid_wire_op v = Inr w"
  then show ?thesis
    by (auto simp: assert_valid_wire_op_def bindE_eq_Inr require_eq_Inr r
        intro: s dest: mapE_parse_safe ok_ref_safe split: json.splits list.splits if_splits)
      (auto simp: valid_wire_op_def dest: mapE_parse_safe)
qed

lemma decode_path_safe:
  assumes "decode_path (wire_ref w) previous d = Inr p" "valid_wire_op w"
    "\<forall>(i, q)\<in>set d. safe_path q" "\<And>q. previous = Some q \<Longrightarrow> safe_path q"
  shows "safe_path p"
  using assms
  by (cases w rule: wire_path.cases)
    (auto simp: decode_path_def require_eq_Inr valid_wire_op_def dest!: map_of_SomeD)

lemma op_with_valid: "op_with w p = Inr op \<Longrightarrow> safe_path p \<Longrightarrow> valid_op op"
  by (cases w) (auto simp: valid_op_def split: if_splits)

lemma decode_ops_valid:
  "decode_ops wire previous d = Inr (ops, d') \<Longrightarrow> \<forall>(i, q)\<in>set d. safe_path q \<Longrightarrow>
   (\<And>q. previous = Some q \<Longrightarrow> safe_path q) \<Longrightarrow>
   (\<forall>op\<in>set ops. valid_op op) \<and> (\<forall>(i, q)\<in>set d'. safe_path q)"
proof (induction wire arbitrary: previous d ops)
  case (Cons v wire)
  then obtain w where w: "assert_valid_wire_op v = Inr w" by (auto simp: bindE_eq_Inr)
  then have vw: "valid_wire_op w" by (rule assert_valid_wire_op_valid)
  show ?case
  proof (cases "(\<exists>i p. w = WDef i p) \<or> (\<exists>x. w = WR x)")
    case True
    then show ?thesis
      using Cons.prems(1,2) Cons.prems(3) vw w
        Cons.IH [of previous "(i, p) # d" for i p] Cons.IH [of None "[]"]
      by (fastforce simp: bindE_eq_Inr valid_wire_op_def valid_op_def assert_safe_path_iff)
  next
    case False
    then obtain p op out where p: "decode_path (wire_ref w) previous d = Inr p" "op_with w p = Inr op"
        "decode_ops wire (Some p) d = Inr (out, d')" "ops = op # out"
      using Cons.prems(1) w by (cases w) (auto simp: bindE_eq_Inr)
    have "safe_path p" using decode_path_safe [OF p(1) vw Cons.prems(2,3)] by simp
    with Cons.IH [OF p(3) Cons.prems(2)] p op_with_valid show ?thesis by auto
  qed
qed simp

lemma decode_stream_valid:
  "decode_stream wires d = Inr batches \<Longrightarrow> \<forall>(i, q)\<in>set d. safe_path q \<Longrightarrow>
   \<forall>ops\<in>set batches. \<forall>op\<in>set ops. valid_op op"
proof (induction wires arbitrary: d batches)
  case (Cons wire wires)
  then obtain ops d' bs where "decode wire d = Inr (ops, d')" "decode_stream wires d' = Inr bs"
      "batches = ops # bs"
    by (auto simp: bindE_eq_Inr)
  with Cons.IH [of d' bs] Cons.prems(2) decode_ops_valid [of wire None d ops d'] show ?case
    by (auto simp: decode_def)
qed simp

section \<open>Properties\<close>

text \<open>
  C18. A stream of batches survives its wire form: a fresh decoder fed with the tuples a
  fresh encoder makes of valid operations returns the batches, in order, whatever path ids
  and short forms the encoder chose.
\<close>

theorem codec_roundtrip:
  assumes "\<forall>ops\<in>set batches. \<forall>op\<in>set ops. valid_op op"
  shows "decode_stream (encode_stream batches encoder_new) decoder_new = Inr batches"
  using decode_encode_stream [OF assms in_step_new(2)] .

theorem codec_roundtrip_witness:
  "decode_stream (encode_stream
      [[OpR (JObj []), OpS [SKey ''a''] JNull, OpA [SKey ''b''] ''x'', OpA [SKey ''b''] ''y''],
       [OpA [SKey ''b''] ''z'', OpD [SKey ''b'']]] encoder_new) decoder_new
   = Inr [[OpR (JObj []), OpS [SKey ''a''] JNull, OpA [SKey ''b''] ''x'', OpA [SKey ''b''] ''y''],
       [OpA [SKey ''b''] ''z'', OpD [SKey ''b'']]]"
  by (rule codec_roundtrip) code_simp

text \<open>
  C19. A base batch is a recovery point: from the first batch that begins with a replacement
  on, the wire form of a stream decodes to the batches it encodes from any state of the
  decoder, so a reader may join there with a fresh one.
\<close>

theorem codec_recovery:
  assumes "\<forall>ops\<in>set (base # post). \<forall>op\<in>set ops. valid_op op" "is_base base"
  shows "decode_stream (drop (length pre) (encode_stream (pre @ base # post) e)) d
    = Inr (base # post)"
proof -
  obtain e' where e': "encode_stream (pre @ base # post) e = encode_stream pre e @ encode_stream (base # post) e'"
    using encode_stream_append by blast
  obtain d' where d': "decode (map wire_json (fst (encode base e'))) d = Inr (base, d')"
      "in_step (snd (encode base e')) d'"
    using decode_encode_base [of base e' d] assms by auto
  have "decode_stream (encode_stream post (snd (encode base e'))) d' = Inr post"
    using assms(1) d'(2) by (intro decode_encode_stream) simp_all
  with e' d'(1) show ?thesis by (simp add: encode_stream_length split_beta)
qed

theorem codec_recovery_witness:
  "decode_stream (drop (length [[OpD [SKey ''a'']], [OpD [SKey ''a'']]])
     (encode_stream ([[OpD [SKey ''a'']], [OpD [SKey ''a'']]] @
        [OpR JNull, OpD [SKey ''a'']] # [[OpD [SKey ''a'']]]) encoder_new)) [(0, [SKey ''b''])]
   = Inr ([OpR JNull, OpD [SKey ''a'']] # [[OpD [SKey ''a'']]])"
  by (rule codec_recovery) code_simp+

text \<open>
  Whatever a fresh decoder returns is safe to apply: every operation it decodes from
  untrusted tuples has a safe path, and a nonempty one unless it is a splice.
\<close>

theorem decode_stream_safe:
  "decode_stream wires decoder_new = Inr batches \<Longrightarrow> \<forall>ops\<in>set batches. \<forall>op\<in>set ops. valid_op op"
  using decode_stream_valid [of wires "[]" batches] by (simp add: decoder_new_def)

theorem decode_stream_safe_witness: "valid_op (OpD [SKey ''x''])"
proof -
  have "decode_stream [[JArr [JStr ''#'', JNum 7, JArr [JStr ''x'']], JArr [JStr ''d'', JNum 7]]]
      decoder_new = Inr [[OpD [SKey ''x'']]]" by code_simp
  from decode_stream_safe [OF this] show ?thesis by simp
qed

end
