(* ===== verification/Effects.thy ===== *)
theory Effects imports Prelude begin

text \<open>
  Operations that act on the outside world, may throw, and report events: the reading of an
  \<open>async\<close> function whose awaits are not interleaved with those of another. The state is the
  world, which the callbacks of the program act on, with the log of the events emitted so
  far. A property of the events an operation emits, and of how it ends, is stated with
  \<open>does\<close> and proved compositionally.
\<close>

section \<open>Actions\<close>

type_synonym ('s, 'a) act = "'s \<Rightarrow> (string + 'a) \<times> 's"

definition retA :: "'a \<Rightarrow> ('s, 'a) act" where
  "retA x = (\<lambda>s. (Inr x, s))"

definition throwA :: "string \<Rightarrow> ('s, 'a) act" where
  "throwA e = (\<lambda>s. (Inl e, s))"

definition bindA :: "('s, 'a) act \<Rightarrow> ('a \<Rightarrow> ('s, 'b) act) \<Rightarrow> ('s, 'b) act" where
  "bindA m f = (\<lambda>s. case m s of (Inl e, t) \<Rightarrow> (Inl e, t) | (Inr a, t) \<Rightarrow> f a t)"

text \<open>\<open>try { m } catch (error) { h }\<close>.\<close>

definition catchA :: "('s, 'a) act \<Rightarrow> (string \<Rightarrow> ('s, 'a) act) \<Rightarrow> ('s, 'a) act" where
  "catchA m h = (\<lambda>s. case m s of (Inl e, t) \<Rightarrow> h e t | (Inr a, t) \<Rightarrow> (Inr a, t))"

definition getA :: "('s \<Rightarrow> 'a) \<Rightarrow> ('s, 'a) act" where
  "getA f = (\<lambda>s. (Inr (f s), s))"

definition liftE :: "string + 'a \<Rightarrow> ('s, 'a) act" where
  "liftE r = (\<lambda>s. (r, s))"

lemma act_simps:
  "retA x s = (Inr x, s)" "throwA e s = (Inl e, s)" "getA f s = (Inr (f s), s)" "liftE r s = (r, s)"
  by (simp_all add: retA_def throwA_def getA_def liftE_def)

lemma bindA_run: "bindA m f s = (case m s of (Inl e, t) \<Rightarrow> (Inl e, t) | (Inr a, t) \<Rightarrow> f a t)"
  by (simp add: bindA_def)

lemma bindA_retA [simp]: "bindA (retA x) f = f x"
  by (simp add: bindA_def retA_def)

lemma bindA_throwA [simp]: "bindA (throwA e) f = throwA e"
  by (simp add: bindA_def throwA_def)

lemma bindA_cong [fundef_cong]:
  "m s = m' s' \<Longrightarrow> (\<And>a t. m' s' = (Inr a, t) \<Longrightarrow> f a t = f' a t) \<Longrightarrow> bindA m f s = bindA m' f' s'"
  by (auto simp: bindA_def split: prod.split sum.split)

lemma bindA_Inr:
  "bindA m f s = (Inr b, t) \<longleftrightarrow> (\<exists>a u. m s = (Inr a, u) \<and> f a u = (Inr b, t))"
  by (auto simp: bindA_def split: prod.splits sum.splits)

text \<open>\<open>for (const x of xs) ...\<close>, and the same collecting a value per element.\<close>

fun forA :: "('x \<Rightarrow> ('s, unit) act) \<Rightarrow> 'x list \<Rightarrow> ('s, unit) act" where
  "forA f [] = retA ()"
| "forA f (x # xs) = bindA (f x) (\<lambda>_. forA f xs)"

fun mapA :: "('x \<Rightarrow> ('s, 'y) act) \<Rightarrow> 'x list \<Rightarrow> ('s, 'y list) act" where
  "mapA f [] = retA []"
| "mapA f (x # xs) = bindA (f x) (\<lambda>y. bindA (mapA f xs) (\<lambda>ys. retA (y # ys)))"

section \<open>The world and its log\<close>

record ('w, 'ev) logged =
  world :: 'w
  log :: "'ev list"

type_synonym ('w, 'ev, 'a) lact = "(('w, 'ev) logged, 'a) act"

text \<open>A callback of the program acts on the world only.\<close>

definition hook :: "('w, 'a) act \<Rightarrow> ('w, 'ev, 'a) lact" where
  "hook h = (\<lambda>s. let (r, w) = h (world s) in (r, s\<lparr>world := w\<rparr>))"

text \<open>An event is reported to its sink, which may throw.\<close>

definition emit :: "('ev \<Rightarrow> ('w, unit) act) \<Rightarrow> 'ev \<Rightarrow> ('w, 'ev, unit) lact" where
  "emit sink e = (\<lambda>s. hook (sink e) (s\<lparr>log := log s @ [e]\<rparr>))"

section \<open>What an action reports\<close>

text \<open>
  \<open>does m Q\<close>: whatever the state, \<open>m\<close> extends the log by events \<open>es\<close> and ends with \<open>r\<close> such
  that \<open>Q es r\<close>.
\<close>

definition does :: "('w, 'ev, 'a) lact \<Rightarrow> ('ev list \<Rightarrow> string + 'a \<Rightarrow> bool) \<Rightarrow> bool" where
  "does m Q \<longleftrightarrow> (\<forall>s. \<exists>es. log (snd (m s)) = log s @ es \<and> Q es (fst (m s)))"

lemma doesD: "does m Q \<Longrightarrow> m s = (r, t) \<Longrightarrow> \<exists>es. log t = log s @ es \<and> Q es r"
  unfolding does_def by (metis fst_conv snd_conv)

lemma doesI: "(\<And>s r t. m s = (r, t) \<Longrightarrow> \<exists>es. log t = log s @ es \<and> Q es r) \<Longrightarrow> does m Q"
  unfolding does_def by (metis prod.collapse)

lemma does_mono: "does m Q \<Longrightarrow> (\<And>es r. Q es r \<Longrightarrow> R es r) \<Longrightarrow> does m R"
  unfolding does_def by blast

lemma does_retA: "Q [] (Inr x) \<Longrightarrow> does (retA x) Q"
  by (simp add: does_def act_simps)

lemma does_throwA: "Q [] (Inl e) \<Longrightarrow> does (throwA e) Q"
  by (simp add: does_def act_simps)

lemma does_getA: "(\<And>s. Q [] (Inr (f s))) \<Longrightarrow> does (getA f) Q"
  by (simp add: does_def act_simps)

lemma does_liftE: "Q [] r \<Longrightarrow> does (liftE r) Q"
  by (simp add: does_def act_simps)

lemma does_hook: "(\<And>w. Q [] (fst (h w))) \<Longrightarrow> does (hook h) Q"
  unfolding does_def hook_def by (auto simp: Let_def split_beta)

lemma does_emit: "(\<And>r. Q [e] r) \<Longrightarrow> does (emit sink e) Q"
  by (auto simp: does_def emit_def hook_def split: prod.split)

lemma does_bindA:
  assumes "does m (\<lambda>es r. case r of Inl e \<Rightarrow> Q es (Inl e) | Inr a \<Rightarrow> does (f a) (\<lambda>fs. Q (es @ fs)))"
  shows "does (bindA m f) Q"
proof (rule doesI)
  fix s r t
  assume run: "bindA m f s = (r, t)"
  obtain r1 u where m: "m s = (r1, u)" by (cases "m s")
  from doesD [OF assms m] obtain es where es: "log u = log s @ es"
      "case r1 of Inl e \<Rightarrow> Q es (Inl e) | Inr a \<Rightarrow> does (f a) (\<lambda>fs. Q (es @ fs))" by blast
  show "\<exists>es. log t = log s @ es \<and> Q es r"
  proof (cases r1)
    case (Inl e)
    with run m es show ?thesis by (auto simp: bindA_run)
  next
    case (Inr a)
    with run m have "f a u = (r, t)" by (simp add: bindA_run)
    with es Inr obtain fs where "log t = log u @ fs" "Q (es @ fs) r" by (auto dest: doesD)
    with es show ?thesis by auto
  qed
qed

lemma does_catchA:
  assumes "does m (\<lambda>es r. case r of Inl e \<Rightarrow> does (h e) (\<lambda>fs. Q (es @ fs)) | Inr a \<Rightarrow> Q es (Inr a))"
  shows "does (catchA m h) Q"
proof (rule doesI)
  fix s r t
  assume run: "catchA m h s = (r, t)"
  obtain r1 u where m: "m s = (r1, u)" by (cases "m s")
  from doesD [OF assms m] obtain es where es: "log u = log s @ es"
      "case r1 of Inl e \<Rightarrow> does (h e) (\<lambda>fs. Q (es @ fs)) | Inr a \<Rightarrow> Q es (Inr a)" by blast
  show "\<exists>es. log t = log s @ es \<and> Q es r"
  proof (cases r1)
    case (Inl e)
    with run m have "h e u = (r, t)" by (simp add: catchA_def)
    with es Inl obtain fs where "log t = log u @ fs" "Q (es @ fs) r" by (auto dest: doesD)
    with es show ?thesis by auto
  next
    case (Inr a)
    with run m es show ?thesis by (auto simp: catchA_def)
  qed
qed

text \<open>An action that reports nothing, and what it may return.\<close>

definition silent :: "('w, 'ev, 'a) lact \<Rightarrow> ('a \<Rightarrow> bool) \<Rightarrow> bool" where
  "silent m P \<longleftrightarrow> does m (\<lambda>es r. es = [] \<and> (\<forall>a. r = Inr a \<longrightarrow> P a))"

lemma silent_mono: "silent m P \<Longrightarrow> (\<And>a. P a \<Longrightarrow> R a) \<Longrightarrow> silent m R"
  unfolding silent_def by (erule does_mono) blast

lemma silent_retA: "P a \<Longrightarrow> silent (retA a) P"
  unfolding silent_def by (rule does_retA) simp

lemma silent_liftE: "(\<And>a. r = Inr a \<Longrightarrow> P a) \<Longrightarrow> silent (liftE r) P"
  unfolding silent_def by (rule does_liftE) simp

lemma silent_getA: "(\<And>s. P (f s)) \<Longrightarrow> silent (getA f) P"
  unfolding silent_def by (rule does_getA) simp

lemma silent_hook: "(\<And>w a. fst (h w) = Inr a \<Longrightarrow> P a) \<Longrightarrow> silent (hook h) P"
  unfolding silent_def by (rule does_hook) simp

lemma silent_bindA: "silent m (\<lambda>a. silent (f a) P) \<Longrightarrow> silent (bindA m f) P"
  unfolding silent_def
  by (rule does_bindA, erule does_mono) (auto split: sum.split elim: does_mono)

lemma silent_catchA: "silent m P \<Longrightarrow> (\<And>e. silent (h e) P) \<Longrightarrow> silent (catchA m h) P"
  unfolding silent_def
  by (rule does_catchA, erule does_mono) (auto split: sum.split elim: does_mono)

section \<open>What an action returns, and what it keeps of the world\<close>

definition returns :: "('s, 'a) act \<Rightarrow> ('a \<Rightarrow> bool) \<Rightarrow> bool" where
  "returns m P \<longleftrightarrow> (\<forall>s a t. m s = (Inr a, t) \<longrightarrow> P a)"

lemma returns_mono: "returns m P \<Longrightarrow> (\<And>a. P a \<Longrightarrow> R a) \<Longrightarrow> returns m R"
  unfolding returns_def by blast

lemma returns_any: "(\<And>a. P a) \<Longrightarrow> returns m P"
  unfolding returns_def by blast

lemma returns_retA: "P a \<Longrightarrow> returns (retA a) P"
  by (simp add: returns_def act_simps)

lemma returns_throwA: "returns (throwA e) P"
  by (simp add: returns_def act_simps)

lemma returns_bindA: "returns m (\<lambda>a. returns (f a) P) \<Longrightarrow> returns (bindA m f) P"
  unfolding returns_def bindA_Inr by blast

text \<open>
  An invariant of the world and its log that the action keeps, also when it throws; and one of
  the world alone, \<open>inworld I\<close>, that a callback keeps.
\<close>

definition keeps :: "(('w, 'ev) logged \<Rightarrow> bool) \<Rightarrow> ('w, 'ev, 'a) lact \<Rightarrow> bool" where
  "keeps I m \<longleftrightarrow> (\<forall>s. I s \<longrightarrow> I (snd (m s)))"

definition keepsW :: "('w \<Rightarrow> bool) \<Rightarrow> ('w, 'a) act \<Rightarrow> bool" where
  "keepsW I h \<longleftrightarrow> (\<forall>w. I w \<longrightarrow> I (snd (h w)))"

definition inworld :: "('w \<Rightarrow> bool) \<Rightarrow> ('w, 'ev) logged \<Rightarrow> bool" where
  "inworld I s = I (world s)"

lemma keepsD: "keeps I m \<Longrightarrow> m s = (r, t) \<Longrightarrow> I s \<Longrightarrow> I t"
  unfolding keeps_def by (metis snd_conv)

lemma keepsD_world: "keeps (inworld I) m \<Longrightarrow> m s = (r, t) \<Longrightarrow> I (world s) \<Longrightarrow> I (world t)"
  using keepsD [of "inworld I" m s r t] by (simp add: inworld_def)

lemma keeps_simple: "keeps I (retA x)" "keeps I (throwA e)" "keeps I (getA f)" "keeps I (liftE r)"
  by (simp_all add: keeps_def act_simps)

lemma keeps_hook: "keepsW I h \<Longrightarrow> keeps (inworld I) (hook h)"
  by (auto simp: keeps_def keepsW_def inworld_def hook_def Let_def split: prod.split)

lemma keeps_emit: "(\<And>e. keepsW I (sink e)) \<Longrightarrow> keeps (inworld I) (emit sink e)"
  by (auto simp: keeps_def emit_def inworld_def hook_def keepsW_def Let_def split: prod.split) (metis snd_conv)

lemma keeps_bindA: "keeps I m \<Longrightarrow> (\<And>a. keeps I (f a)) \<Longrightarrow> keeps I (bindA m f)"
  by (auto simp: keeps_def bindA_run split: prod.split sum.split)

lemma keeps_catchA: "keeps I m \<Longrightarrow> (\<And>e. keeps I (h e)) \<Longrightarrow> keeps I (catchA m h)"
  by (auto simp: keeps_def catchA_def split: prod.split sum.split)

lemma keeps_forA: "(\<And>x. x \<in> set xs \<Longrightarrow> keeps I (f x)) \<Longrightarrow> keeps I (forA f xs)"
  by (induction xs) (auto intro!: keeps_simple keeps_bindA)

lemma keeps_mapA: "(\<And>x. x \<in> set xs \<Longrightarrow> keeps I (f x)) \<Longrightarrow> keeps I (mapA f xs)"
  by (induction xs) (auto intro!: keeps_simple keeps_bindA)

section \<open>Monitoring a log\<close>

text \<open>
  A protocol is a partial step function on the states of a monitor; an observation extracts
  what a caller later accounts for. \<open>steps p m Q\<close>: from monitor state \<open>p\<close> the action never
  violates the protocol, even when it throws, and when it returns \<open>a\<close> in state \<open>q\<close> having
  reported observations \<open>os\<close>, then \<open>Q q os a\<close>.
\<close>

locale monitor =
  fixes step :: "'p \<Rightarrow> 'ev \<Rightarrow> 'p option"
    and obs :: "'ev \<Rightarrow> 'o list"
begin

fun run :: "'p \<Rightarrow> 'ev list \<Rightarrow> 'p option" where
  "run p [] = Some p"
| "run p (e # es) = (case step p e of None \<Rightarrow> None | Some q \<Rightarrow> run q es)"

definition observed :: "'ev list \<Rightarrow> 'o list" where
  "observed es = concat (map obs es)"

lemma run_append: "run p (es @ fs) = (case run p es of None \<Rightarrow> None | Some q \<Rightarrow> run q fs)"
  by (induction es arbitrary: p) (auto split: option.splits)

lemma observed_simps [simp]:
  "observed [] = []" "observed (e # es) = obs e @ observed es"
  "observed (es @ fs) = observed es @ observed fs"
  by (simp_all add: observed_def)

definition steps :: "'p \<Rightarrow> ('w, 'ev, 'a) lact \<Rightarrow> ('p \<Rightarrow> 'o list \<Rightarrow> 'a \<Rightarrow> bool) \<Rightarrow> bool" where
  "steps p m Q \<longleftrightarrow> does m (\<lambda>es r. case r of
     Inl e \<Rightarrow> run p es \<noteq> None
   | Inr a \<Rightarrow> \<exists>q. run p es = Some q \<and> Q q (observed es) a)"

lemma steps_mono: "steps p m Q \<Longrightarrow> (\<And>q os a. Q q os a \<Longrightarrow> R q os a) \<Longrightarrow> steps p m R"
  unfolding steps_def by (erule does_mono) (auto split: sum.splits)

lemma steps_retA: "Q p [] a \<Longrightarrow> steps p (retA a) Q"
  unfolding steps_def by (rule does_retA) simp

lemma steps_throwA: "steps p (throwA e) Q"
  unfolding steps_def by (rule does_throwA) simp

lemma steps_getA: "(\<And>s. Q p [] (f s)) \<Longrightarrow> steps p (getA f) Q"
  unfolding steps_def by (rule does_getA) simp

lemma steps_hook: "(\<And>w a. fst (h w) = Inr a \<Longrightarrow> Q p [] a) \<Longrightarrow> steps p (hook h) Q"
  unfolding steps_def by (rule does_hook) (simp split: sum.split)

lemma steps_silent: "silent m P \<Longrightarrow> (\<And>a. P a \<Longrightarrow> Q p [] a) \<Longrightarrow> steps p m Q"
  unfolding steps_def silent_def by (erule does_mono) (auto split: sum.split)

lemma steps_emit: "step p e = Some q \<Longrightarrow> Q q (obs e) () \<Longrightarrow> steps p (emit sink e) Q"
  unfolding steps_def by (rule does_emit) (auto split: sum.split)

lemma steps_bindA:
  assumes "steps p m (\<lambda>q os a. steps q (f a) (\<lambda>q' os' b. Q q' (os @ os') b))"
  shows "steps p (bindA m f) Q"
  unfolding steps_def
proof (rule does_bindA, rule does_mono [OF assms [unfolded steps_def]])
  fix es and r :: "string + 'b"
  assume h: "case r of Inl e \<Rightarrow> run p es \<noteq> None
    | Inr a \<Rightarrow> \<exists>q. run p es = Some q \<and> does (f a) (\<lambda>fs r. case r of
        Inl e \<Rightarrow> run q fs \<noteq> None
      | Inr b \<Rightarrow> \<exists>q'. run q fs = Some q' \<and> Q q' (observed es @ observed fs) b)"
  show "case r of Inl e \<Rightarrow> (case Inl e of Inl e \<Rightarrow> run p es \<noteq> None
      | Inr a \<Rightarrow> \<exists>q. run p es = Some q \<and> Q q (observed es) a)
    | Inr a \<Rightarrow> does (f a) (\<lambda>fs r. case r of Inl e \<Rightarrow> run p (es @ fs) \<noteq> None
      | Inr a \<Rightarrow> \<exists>q. run p (es @ fs) = Some q \<and> Q q (observed (es @ fs)) a)"
  proof (cases r)
    case (Inl e)
    with h show ?thesis by simp
  next
    case (Inr a)
    with h obtain q where q: "run p es = Some q" "does (f a) (\<lambda>fs r. case r of
        Inl e \<Rightarrow> run q fs \<noteq> None
      | Inr b \<Rightarrow> \<exists>q'. run q fs = Some q' \<and> Q q' (observed es @ observed fs) b)" by auto
    from q(2) have "does (f a) (\<lambda>fs r. case r of Inl e \<Rightarrow> run p (es @ fs) \<noteq> None
      | Inr a \<Rightarrow> \<exists>q. run p (es @ fs) = Some q \<and> Q q (observed (es @ fs)) a)"
      by (rule does_mono) (simp add: run_append q(1) split: sum.splits)
    with Inr show ?thesis by (simp only: sum.case)
  qed
qed

lemma steps_forA:
  assumes "\<And>x. x \<in> set xs \<Longrightarrow> steps p (f x) (\<lambda>q os _. q = p \<and> os = g x)"
  shows "steps p (forA f xs) (\<lambda>q os _. q = p \<and> os = concat (map g xs))"
  using assms
proof (induction xs)
  case Nil
  show ?case by (auto intro: steps_retA)
next
  case (Cons x xs)
  have "steps p (forA f xs) (\<lambda>q os _. q = p \<and> os = concat (map g xs))"
    using Cons by simp
  with Cons.prems [of x] show ?case
    by (auto intro!: steps_bindA elim!: steps_mono)
qed

text \<open>A loop that collects values, each accounted for in the monitor's state and observations.\<close>

lemma steps_mapA:
  assumes "\<And>x. x \<in> set xs \<Longrightarrow> steps p (f x) (\<lambda>q os y. q = p \<and> os = g y \<and> P x y)"
  shows "steps p (mapA f xs) (\<lambda>q os ys. q = p \<and> os = concat (map g ys) \<and> list_all2 P xs ys)"
  using assms
proof (induction xs)
  case Nil
  show ?case by (auto intro: steps_retA)
next
  case (Cons x xs)
  have "steps p (mapA f xs) (\<lambda>q os ys. q = p \<and> os = concat (map g ys) \<and> list_all2 P xs ys)"
    using Cons by simp
  with Cons.prems [of x] show ?case
    by (auto intro!: steps_bindA steps_retA elim!: steps_mono)
qed

text \<open>What a run of the action shows of its log.\<close>

lemma stepsD:
  assumes "steps p m Q" "m s = (r, t)"
  shows "\<exists>es. log t = log s @ es \<and> (case r of
     Inl e \<Rightarrow> run p es \<noteq> None
   | Inr a \<Rightarrow> \<exists>q. run p es = Some q \<and> Q q (observed es) a)"
  using doesD [OF assms(1) [unfolded steps_def] assms(2)] .

end

end
