(* ===== verification/AgentLoop.thy ===== *)
theory AgentLoop imports Messages Effects begin

text \<open>
  \<open>packages/agent/src/agent-loop.ts\<close>: the loop that alternates assistant responses and tool
  batches. What the loop calls and does not define is a parameter, in the configuration or
  the environment: the hooks, the tools, the stream function, the validator of tool
  arguments, the clock, the abort signal and the event sink. They act on a world of any type
  and may throw. Two \<open>while\<close> loops of the code may run for ever; they take fuel and
  return \<open>None\<close> when it runs out.

  An array the code mutates in place (\<open>context.messages\<close>, \<open>newMessages\<close>) is returned updated.
  The events of one streamed response and the partial results of one tool execution are
  known when its promise is awaited. The calls of a concurrent batch interleave in any order
  the schedule of the environment gives, from one event or callback to the next; when one of
  them rejects, the others go on for as long as the schedule says before the batch rejects.
\<close>

section \<open>Configuration\<close>

record model_ref =
  model_provider :: string
  model_id :: string
  model_api :: string

record 'w turn_context =
  turn_message :: assistant_message
  turn_toolResults :: "tool_result_message list"
  turn_context :: "'w agent_context"
  turn_newMessages :: "agent_message list"

record 'w turn_update =
  upd_context :: "'w agent_context option"
  upd_model :: "model_ref option"
  upd_thinkingLevel :: "thinking_level option"

record before_result =
  before_block :: "bool option"
  before_reason :: "string option"
  before_terminate :: "bool option"

record after_result =
  after_content :: "block list option"
  after_details :: "json option"
  after_isError :: "bool option"
  after_usage :: "usage option"
  after_terminate :: "bool option"

record 'w before_context =
  bc_assistantMessage :: assistant_message
  bc_toolCall :: tool_call
  bc_args :: json
  bc_context :: "'w agent_context"

record 'w after_context =
  ac_assistantMessage :: assistant_message
  ac_toolCall :: tool_call
  ac_args :: json
  ac_result :: tool_result
  ac_isError :: bool
  ac_context :: "'w agent_context"

record 'w loop_config =
  cfg_model :: model_ref
  cfg_reasoning :: "thinking_level option"
  cfg_apiKey :: "string option"
  cfg_convertToLlm :: "agent_message list \<Rightarrow> ('w, message list) act"
  cfg_transformContext :: "(agent_message list \<Rightarrow> ('w, agent_message list) act) option"
  cfg_getApiKey :: "(string \<Rightarrow> ('w, string option) act) option"
  cfg_shouldStopAfterTurn :: "('w turn_context \<Rightarrow> ('w, bool) act) option"
  cfg_prepareNextTurn :: "('w turn_context \<Rightarrow> ('w, 'w turn_update option) act) option"
  cfg_getSteeringMessages :: "('w, agent_message list) act option"
  cfg_getFollowUpMessages :: "('w, agent_message list) act option"
  cfg_toolExecution :: "execution_mode option"
  cfg_beforeToolCall :: "('w before_context \<Rightarrow> ('w, before_result option) act) option"
  cfg_afterToolCall :: "('w after_context \<Rightarrow> ('w, after_result option) act) option"

record 'w llm_request =
  req_model :: model_ref
  req_systemPrompt :: string
  req_messages :: "message list"
  req_tools :: "'w agent_tool list option"
  req_reasoning :: "thinking_level option"
  req_apiKey :: "string option"

text \<open>A streamed response: its events in order and what \<open>result()\<close> resolves with.\<close>

record response =
  resp_events :: "assistant_event list"
  resp_result :: assistant_message

record 'w loop_env =
  env_aborted :: "'w \<Rightarrow> bool"
  env_now :: "'w \<Rightarrow> nat"
  env_sink :: "agent_event \<Rightarrow> ('w, unit) act"
  env_validate :: "'w agent_tool \<Rightarrow> tool_call \<Rightarrow> ('w, json) act"
  env_streamFn :: "'w llm_request \<Rightarrow> ('w, response) act"
  env_schedule :: "'w \<Rightarrow> nat list"

type_synonym ('w, 'a) loop_act = "('w, agent_event, 'a) lact"

definition send :: "'w loop_env \<Rightarrow> agent_event \<Rightarrow> ('w, unit) loop_act" where
  "send env e = emit (env_sink env) e"

text \<open>\<open>signal?.aborted\<close>.\<close>

definition aborted :: "'w loop_env \<Rightarrow> ('w, bool) loop_act" where
  "aborted env = getA (\<lambda>s. env_aborted env (world s))"

text \<open>\<open>(await f?.()) || []\<close>.\<close>

definition poll :: "('w, agent_message list) act option \<Rightarrow> ('w, agent_message list) loop_act" where
  "poll f = (case f of None \<Rightarrow> retA [] | Some h \<Rightarrow> hook h)"

section \<open>Results of tool calls\<close>

record finalized =
  fin_toolCall :: tool_call
  fin_result :: tool_result
  fin_isError :: bool

record executed =
  exe_result :: tool_result
  exe_isError :: bool

record 'w prepared =
  prep_toolCall :: tool_call
  prep_tool :: "'w agent_tool"
  prep_args :: json

datatype 'w preparation = Immediate tool_result bool | Prepared "'w prepared"

record batch =
  batch_messages :: "tool_result_message list"
  batch_terminate :: bool

definition createErrorToolResult :: "string \<Rightarrow> tool_result" where
  "createErrorToolResult message =
     \<lparr>res_content = Some [TextB \<lparr>tx_text = message, tx_signature = None\<rparr>],
      res_details = Some (JObj []), res_usage = None, res_addedToolNames = None,
      res_terminate = None\<rparr>"

definition shouldTerminateToolBatch :: "finalized list \<Rightarrow> bool" where
  "shouldTerminateToolBatch calls \<longleftrightarrow>
     length calls > 0 \<and> list_all (\<lambda>f. res_terminate (fin_result f) = Some True) calls"

definition createToolResultMessage :: "finalized \<Rightarrow> nat \<Rightarrow> tool_result_message" where
  "createToolResultMessage f now =
     \<lparr>tr_toolCallId = tc_id (fin_toolCall f), tr_toolName = tc_name (fin_toolCall f),
      tr_content = (case res_content (fin_result f) of None \<Rightarrow> [] | Some c \<Rightarrow> c),
      tr_details = res_details (fin_result f), tr_usage = res_usage (fin_result f),
      tr_addedToolNames = (case res_addedToolNames (fin_result f) of
          None \<Rightarrow> None | Some names \<Rightarrow> if length names > 0 then Some names else None),
      tr_isError = fin_isError f, tr_timestamp = now\<rparr>"

definition emitToolExecutionStart :: "'w loop_env \<Rightarrow> tool_call \<Rightarrow> ('w, unit) loop_act" where
  "emitToolExecutionStart env c = send env (ToolStart (tc_id c) (tc_name c) (tc_arguments c))"

definition emitToolExecutionEnd :: "'w loop_env \<Rightarrow> finalized \<Rightarrow> ('w, unit) loop_act" where
  "emitToolExecutionEnd env f =
     send env (ToolEnd (tc_id (fin_toolCall f)) (tc_name (fin_toolCall f)) (fin_result f) (fin_isError f))"

definition emitMessage :: "'w loop_env \<Rightarrow> agent_message \<Rightarrow> ('w, unit) loop_act" where
  "emitMessage env m = bindA (send env (MessageStart m)) (\<lambda>_. send env (MessageEnd m))"

definition emitToolResultMessage :: "'w loop_env \<Rightarrow> tool_result_message \<Rightarrow> ('w, unit) loop_act" where
  "emitToolResultMessage env m = emitMessage env (Llm (ToolResult m))"

text \<open>The message of a finalized call, created now and reported.\<close>

definition report_result :: "'w loop_env \<Rightarrow> finalized \<Rightarrow> ('w, tool_result_message) loop_act" where
  "report_result env f =
     bindA (getA (\<lambda>s. createToolResultMessage f (env_now env (world s)))) (\<lambda>m.
     bindA (emitToolResultMessage env m) (\<lambda>_. retA m))"

section \<open>One tool call\<close>

definition prepareToolCallArguments :: "'w agent_tool \<Rightarrow> tool_call \<Rightarrow> string + tool_call" where
  "prepareToolCallArguments tool call = (case tool_prepareArguments tool of
     None \<Rightarrow> Inr call
   | Some f \<Rightarrow> bindE (f (tc_arguments call)) (\<lambda>a.
       Inr (if a = tc_arguments call then call else call\<lparr>tc_arguments := a\<rparr>)))"

definition find_tool :: "'w agent_context \<Rightarrow> string \<Rightarrow> 'w agent_tool option" where
  "find_tool ctx name = (case ctx_tools ctx of
     None \<Rightarrow> None | Some tools \<Rightarrow> List.find (\<lambda>t. tool_name t = name) tools)"

definition abortedOutcome :: "'w preparation" where
  "abortedOutcome = Immediate (createErrorToolResult ''Operation aborted'') True"

text \<open>\<open>reason || text\<close>: an absent or empty reason is replaced.\<close>

definition or_text :: "string option \<Rightarrow> string \<Rightarrow> string" where
  "or_text r t = (case r of None \<Rightarrow> t | Some s \<Rightarrow> if s = [] then t else s)"

definition blockedOutcome :: "before_result \<Rightarrow> 'w preparation" where
  "blockedOutcome b =
     (let result = createErrorToolResult (or_text (before_reason b) ''Tool execution was blocked'')
      in Immediate (if before_terminate b = Some True then result\<lparr>res_terminate := Some True\<rparr>
                    else result) True)"

text \<open>What follows the validation of the arguments, with the hook when there is one.\<close>

definition consult_hook ::
  "'w loop_env \<Rightarrow> 'w loop_config \<Rightarrow> 'w before_context \<Rightarrow> 'w preparation \<Rightarrow> ('w, 'w preparation) loop_act"
where
  "consult_hook env cfg bc prepared =
     (let proceed = bindA (aborted env) (\<lambda>ab. retA (if ab then abortedOutcome else prepared))
      in case cfg_beforeToolCall cfg of
           None \<Rightarrow> proceed
         | Some before \<Rightarrow> bindA (hook (before bc)) (\<lambda>r. bindA (aborted env) (\<lambda>ab.
             if ab then retA abortedOutcome
             else case r of
               None \<Rightarrow> proceed
             | Some b \<Rightarrow> if before_block b = Some True then retA (blockedOutcome b) else proceed)))"

definition prepareToolCall ::
  "'w loop_env \<Rightarrow> 'w loop_config \<Rightarrow> 'w agent_context \<Rightarrow> assistant_message \<Rightarrow> tool_call
   \<Rightarrow> ('w, 'w preparation) loop_act"
where
  "prepareToolCall env cfg ctx message call = (case find_tool ctx (tc_name call) of
     None \<Rightarrow> retA (Immediate (createErrorToolResult (''Tool '' @ tc_name call @ '' not found'')) True)
   | Some tool \<Rightarrow>
       catchA
         (bindA (liftE (prepareToolCallArguments tool call)) (\<lambda>preparedCall.
          bindA (hook (env_validate env tool preparedCall)) (\<lambda>args.
            consult_hook env cfg
              \<lparr>bc_assistantMessage = message, bc_toolCall = call, bc_args = args, bc_context = ctx\<rparr>
              (Prepared \<lparr>prep_toolCall = call, prep_tool = tool, prep_args = args\<rparr>))))
         (\<lambda>e. retA (Immediate (createErrorToolResult e) True)))"

text \<open>
  The partial results of a tool are emitted as it reports them, each emission started
  whatever the others do; \<open>Promise.all\<close> then rejects with the first failure.
\<close>

fun emit_updates :: "'w loop_env \<Rightarrow> tool_call \<Rightarrow> tool_result list \<Rightarrow> ('w, unit) loop_act" where
  "emit_updates env c [] = retA ()"
| "emit_updates env c (u # us) = (\<lambda>s.
     let (r, s1) = send env (ToolUpdate (tc_id c) (tc_name c) (tc_arguments c) u) s;
         (r', s2) = emit_updates env c us s1
     in (case r of Inl e \<Rightarrow> Inl e | Inr _ \<Rightarrow> r', s2))"

definition run_result :: "tool_run \<Rightarrow> executed" where
  "run_result run = (case run_outcome run of
     Inr result \<Rightarrow> \<lparr>exe_result = result, exe_isError = False\<rparr>
   | Inl e \<Rightarrow> \<lparr>exe_result = createErrorToolResult e, exe_isError = True\<rparr>)"

definition start_tool :: "'w prepared \<Rightarrow> ('w, tool_run) loop_act" where
  "start_tool p = hook (\<lambda>w.
     let (run, w') = tool_execute (prep_tool p) (tc_id (prep_toolCall p)) (prep_args p) w
     in (Inr run, w'))"

definition executePreparedToolCall :: "'w loop_env \<Rightarrow> 'w prepared \<Rightarrow> ('w, executed) loop_act" where
  "executePreparedToolCall env p =
     bindA (start_tool p) (\<lambda>run.
     bindA (emit_updates env (prep_toolCall p) (run_updates run)) (\<lambda>_. retA (run_result run)))"

definition or_else :: "'a option \<Rightarrow> 'a option \<Rightarrow> 'a option" where
  "or_else a b = (case a of None \<Rightarrow> b | Some _ \<Rightarrow> a)"

definition override_result :: "after_result \<Rightarrow> tool_result \<Rightarrow> tool_result" where
  "override_result a r = r\<lparr>
     res_content := or_else (after_content a) (res_content r),
     res_details := or_else (after_details a) (res_details r),
     res_usage := or_else (after_usage a) (res_usage r),
     res_terminate := or_else (after_terminate a) (res_terminate r)\<rparr>"

definition finalizeExecutedToolCall ::
  "'w loop_config \<Rightarrow> 'w agent_context \<Rightarrow> assistant_message \<Rightarrow> 'w prepared \<Rightarrow> executed
   \<Rightarrow> ('w, finalized) loop_act"
where
  "finalizeExecutedToolCall cfg ctx message p x =
     (let final = (\<lambda>result isError.
        \<lparr>fin_toolCall = prep_toolCall p, fin_result = result, fin_isError = isError\<rparr>)
      in case cfg_afterToolCall cfg of
           None \<Rightarrow> retA (final (exe_result x) (exe_isError x))
         | Some after \<Rightarrow>
             catchA
               (bindA (hook (after
                  \<lparr>ac_assistantMessage = message, ac_toolCall = prep_toolCall p, ac_args = prep_args p,
                   ac_result = exe_result x, ac_isError = exe_isError x, ac_context = ctx\<rparr>)) (\<lambda>a.
                retA (case a of
                  None \<Rightarrow> final (exe_result x) (exe_isError x)
                | Some a \<Rightarrow> final (override_result a (exe_result x))
                    (case after_isError a of None \<Rightarrow> exe_isError x | Some b \<Rightarrow> b))))
               (\<lambda>e. retA (final (createErrorToolResult e) True)))"

section \<open>A batch of tool calls\<close>

text \<open>A call that is not executed: its outcome is known and reported.\<close>

definition immediate_finalized :: "tool_call \<Rightarrow> tool_result \<Rightarrow> bool \<Rightarrow> finalized" where
  "immediate_finalized call r isError = \<lparr>fin_toolCall = call, fin_result = r, fin_isError = isError\<rparr>"

definition truncatedText :: "string \<Rightarrow> string" where
  "truncatedText name = ''Tool call \"'' @ name @ ''\" was not executed: the response hit the output token limit, so its arguments may be truncated. Re-issue the tool call with complete arguments.''"

definition failToolCall :: "'w loop_env \<Rightarrow> tool_call \<Rightarrow> ('w, tool_result_message) loop_act" where
  "failToolCall env call =
     bindA (emitToolExecutionStart env call) (\<lambda>_.
       let f = immediate_finalized call (createErrorToolResult (truncatedText (tc_name call))) True
       in bindA (emitToolExecutionEnd env f) (\<lambda>_. report_result env f))"

definition failToolCallsFromTruncatedMessage ::
  "'w loop_env \<Rightarrow> tool_call list \<Rightarrow> ('w, batch) loop_act"
where
  "failToolCallsFromTruncatedMessage env calls =
     bindA (mapA (failToolCall env) calls)
       (\<lambda>ms. retA \<lparr>batch_messages = ms, batch_terminate = False\<rparr>)"

definition run_prepared ::
  "'w loop_env \<Rightarrow> 'w loop_config \<Rightarrow> 'w agent_context \<Rightarrow> assistant_message \<Rightarrow> 'w prepared
   \<Rightarrow> ('w, finalized) loop_act"
where
  "run_prepared env cfg ctx message p =
     bindA (executePreparedToolCall env p) (finalizeExecutedToolCall cfg ctx message p)"

fun sequential_loop ::
  "'w loop_env \<Rightarrow> 'w loop_config \<Rightarrow> 'w agent_context \<Rightarrow> assistant_message \<Rightarrow> tool_call list
   \<Rightarrow> ('w, (finalized \<times> tool_result_message) list) loop_act"
where
  "sequential_loop env cfg ctx message [] = retA []"
| "sequential_loop env cfg ctx message (call # calls) =
     bindA (emitToolExecutionStart env call) (\<lambda>_.
     bindA (prepareToolCall env cfg ctx message call) (\<lambda>preparation.
     bindA (case preparation of
         Immediate r isError \<Rightarrow> retA (immediate_finalized call r isError)
       | Prepared p \<Rightarrow> run_prepared env cfg ctx message p) (\<lambda>f.
     bindA (emitToolExecutionEnd env f) (\<lambda>_.
     bindA (report_result env f) (\<lambda>m.
     bindA (aborted env) (\<lambda>ab.
       if ab then retA [(f, m)]
       else bindA (sequential_loop env cfg ctx message calls) (\<lambda>rest. retA ((f, m) # rest))))))))"

definition executeToolCallsSequential ::
  "'w loop_env \<Rightarrow> 'w loop_config \<Rightarrow> 'w agent_context \<Rightarrow> assistant_message \<Rightarrow> tool_call list
   \<Rightarrow> ('w, batch) loop_act"
where
  "executeToolCallsSequential env cfg ctx message calls =
     bindA (sequential_loop env cfg ctx message calls) (\<lambda>rs.
       retA \<lparr>batch_messages = map snd rs,
             batch_terminate = shouldTerminateToolBatch (map fst rs)\<rparr>)"

text \<open>
  A call of the parallel mode and how far it has got. A running one has the partial results it has
  still to report, and the first failure of those it reported; a rejected one takes no further step.
\<close>

datatype 'w slot =
    Deferred_call "'w prepared"
  | Running_call "'w prepared" tool_run "tool_result list" "string option"
  | Executed_call "'w prepared" executed
  | Ending_call finalized
  | Settled finalized
  | Rejected_call tool_call

fun slot_call :: "'w slot \<Rightarrow> tool_call" where
  "slot_call (Deferred_call p) = prep_toolCall p"
| "slot_call (Running_call p run us failed) = prep_toolCall p"
| "slot_call (Executed_call p x) = prep_toolCall p"
| "slot_call (Ending_call f) = fin_toolCall f"
| "slot_call (Settled f) = fin_toolCall f"
| "slot_call (Rejected_call c) = c"

text \<open>The preflight loop, in source order.\<close>

fun preflight_loop ::
  "'w loop_env \<Rightarrow> 'w loop_config \<Rightarrow> 'w agent_context \<Rightarrow> assistant_message \<Rightarrow> tool_call list
   \<Rightarrow> ('w, 'w slot list) loop_act"
where
  "preflight_loop env cfg ctx message [] = retA []"
| "preflight_loop env cfg ctx message (call # calls) =
     bindA (emitToolExecutionStart env call) (\<lambda>_.
     bindA (prepareToolCall env cfg ctx message call) (\<lambda>preparation.
     bindA (case preparation of
         Immediate r isError \<Rightarrow>
           let f = immediate_finalized call r isError
           in bindA (emitToolExecutionEnd env f) (\<lambda>_. retA (Settled f))
       | Prepared p \<Rightarrow> retA (Deferred_call p)) (\<lambda>slot.
     bindA (aborted env) (\<lambda>ab.
       if ab then retA [slot]
       else bindA (preflight_loop env cfg ctx message calls) (\<lambda>rest. retA (slot # rest))))))"

text \<open>One step of a call, to its next event or callback.\<close>

fun slot_step ::
  "'w loop_env \<Rightarrow> 'w loop_config \<Rightarrow> 'w agent_context \<Rightarrow> assistant_message \<Rightarrow> 'w slot
   \<Rightarrow> ('w, 'w slot) loop_act"
where
  "slot_step env cfg ctx message (Deferred_call p) =
     bindA (aborted env) (\<lambda>ab.
       if ab then retA (Ending_call (immediate_finalized (prep_toolCall p)
                          (createErrorToolResult ''Operation aborted'') True))
       else bindA (start_tool p) (\<lambda>run. retA (Running_call p run (run_updates run) None)))"
| "slot_step env cfg ctx message (Running_call p run (u # us) failed) = (\<lambda>s.
     let c = prep_toolCall p;
         (r, s1) = send env (ToolUpdate (tc_id c) (tc_name c) (tc_arguments c) u) s;
         failed' = (case failed of Some e \<Rightarrow> Some e
                    | None \<Rightarrow> (case r of Inl e \<Rightarrow> Some e | Inr _ \<Rightarrow> None))
     in (Inr (Running_call p run us failed'), s1))"
| "slot_step env cfg ctx message (Running_call p run [] failed) = (case failed of
     Some e \<Rightarrow> throwA e | None \<Rightarrow> retA (Executed_call p (run_result run)))"
| "slot_step env cfg ctx message (Executed_call p x) =
     bindA (finalizeExecutedToolCall cfg ctx message p x) (\<lambda>f. retA (Ending_call f))"
| "slot_step env cfg ctx message (Ending_call f) =
     bindA (emitToolExecutionEnd env f) (\<lambda>_. retA (Settled f))"
| "slot_step env cfg ctx message (Settled f) = retA (Settled f)"
| "slot_step env cfg ctx message (Rejected_call c) = retA (Rejected_call c)"

text \<open>
  The concurrent calls, as the schedule picks them. \<open>Promise.all\<close> rejects with the first
  failure and stops none of the other calls: they go on while the schedule lasts.
\<close>

fun scheduled_loop ::
  "'w loop_env \<Rightarrow> 'w loop_config \<Rightarrow> 'w agent_context \<Rightarrow> assistant_message \<Rightarrow> nat list \<Rightarrow> 'w slot list
   \<Rightarrow> ('w, 'w slot list) loop_act"
where
  "scheduled_loop env cfg ctx message [] slots = retA slots"
| "scheduled_loop env cfg ctx message (i # is) slots = (\<lambda>s.
     if i < length slots then
       (case slot_step env cfg ctx message (slots ! i) s of
          (Inr slot, s1) \<Rightarrow> scheduled_loop env cfg ctx message is (slots[i := slot]) s1
        | (Inl e, s1) \<Rightarrow>
            (Inl e, snd (scheduled_loop env cfg ctx message is
               (slots[i := Rejected_call (slot_call (slots ! i))]) s1)))
     else scheduled_loop env cfg ctx message is slots s)"

text \<open>Then each in order to its end: the steps that are left once a call has started.\<close>

fun slot_rank :: "'w slot \<Rightarrow> nat" where
  "slot_rank (Running_call p run us failed) = length us + 3"
| "slot_rank (Executed_call p x) = 2"
| "slot_rank (Ending_call f) = 1"
| "slot_rank _ = 0"

fun settle_steps ::
  "nat \<Rightarrow> 'w loop_env \<Rightarrow> 'w loop_config \<Rightarrow> 'w agent_context \<Rightarrow> assistant_message \<Rightarrow> 'w slot
   \<Rightarrow> ('w, 'w slot) loop_act"
where
  "settle_steps 0 env cfg ctx message slot = retA slot"
| "settle_steps (Suc n) env cfg ctx message slot =
     bindA (slot_step env cfg ctx message slot) (settle_steps n env cfg ctx message)"

definition settle_slot ::
  "'w loop_env \<Rightarrow> 'w loop_config \<Rightarrow> 'w agent_context \<Rightarrow> assistant_message \<Rightarrow> 'w slot
   \<Rightarrow> ('w, finalized) loop_act"
where
  "settle_slot env cfg ctx message slot =
     bindA (slot_step env cfg ctx message slot) (\<lambda>started.
     bindA (settle_steps (slot_rank started) env cfg ctx message started) (\<lambda>ended.
       case ended of Settled f \<Rightarrow> retA f | _ \<Rightarrow> throwA ''unsettled''))"

definition executeToolCallsParallel ::
  "'w loop_env \<Rightarrow> 'w loop_config \<Rightarrow> 'w agent_context \<Rightarrow> assistant_message \<Rightarrow> tool_call list
   \<Rightarrow> ('w, batch) loop_act"
where
  "executeToolCallsParallel env cfg ctx message calls =
     bindA (preflight_loop env cfg ctx message calls) (\<lambda>slots.
     bindA (getA (\<lambda>s. env_schedule env (world s))) (\<lambda>sched.
     bindA (scheduled_loop env cfg ctx message sched slots) (\<lambda>slots.
     bindA (mapA (settle_slot env cfg ctx message) slots) (\<lambda>fs.
     bindA (mapA (report_result env) fs) (\<lambda>ms.
       retA \<lparr>batch_messages = ms, batch_terminate = shouldTerminateToolBatch fs\<rparr>)))))"

definition executeToolCalls ::
  "'w loop_env \<Rightarrow> 'w loop_config \<Rightarrow> 'w agent_context \<Rightarrow> assistant_message \<Rightarrow> ('w, batch) loop_act"
where
  "executeToolCalls env cfg ctx message =
     (let calls = tool_calls message;
          hasSequentialToolCall = list_ex (\<lambda>c. case find_tool ctx (tc_name c) of
              None \<Rightarrow> False | Some t \<Rightarrow> tool_executionMode t = Some Sequential) calls
      in if cfg_toolExecution cfg = Some Sequential \<or> hasSequentialToolCall
         then executeToolCallsSequential env cfg ctx message calls
         else executeToolCallsParallel env cfg ctx message calls)"

section \<open>One assistant response\<close>

definition set_last :: "'a \<Rightarrow> 'a list \<Rightarrow> 'a list" where
  "set_last x xs = butlast xs @ [x]"

definition finish_response ::
  "'w loop_env \<Rightarrow> assistant_message \<Rightarrow> bool \<Rightarrow> 'w agent_context
   \<Rightarrow> ('w, assistant_message \<times> 'w agent_context) loop_act"
where
  "finish_response env final addedPartial ctx =
     (let m = Llm (Assistant final);
          ctx' = ctx\<lparr>ctx_messages := (if addedPartial then set_last m (ctx_messages ctx)
                                      else ctx_messages ctx @ [m])\<rparr>
      in bindA (if addedPartial then retA () else send env (MessageStart m)) (\<lambda>_.
         bindA (send env (MessageEnd m)) (\<lambda>_. retA (final, ctx'))))"

text \<open>The message so far that an update event carries.\<close>

fun event_partial :: "assistant_event \<Rightarrow> assistant_message option" where
  "event_partial (SText_start i m) = Some m"
| "event_partial (SText_delta i d m) = Some m"
| "event_partial (SText_end i c m) = Some m"
| "event_partial (SThinking_start i m) = Some m"
| "event_partial (SThinking_delta i d m) = Some m"
| "event_partial (SThinking_end i c m) = Some m"
| "event_partial (SToolcall_start i m) = Some m"
| "event_partial (SToolcall_delta i d m) = Some m"
| "event_partial (SToolcall_end i c m) = Some m"
| "event_partial _ = None"

text \<open>
  The loop over the response: whether a partial message has been added to the context is
  whether \<open>partialMessage\<close> is set.
\<close>

fun response_loop ::
  "'w loop_env \<Rightarrow> assistant_message \<Rightarrow> assistant_event list \<Rightarrow> bool \<Rightarrow> 'w agent_context
   \<Rightarrow> ('w, assistant_message \<times> 'w agent_context) loop_act"
where
  "response_loop env final [] addedPartial ctx = finish_response env final addedPartial ctx"
| "response_loop env final (SStart m # evs) addedPartial ctx =
     bindA (send env (MessageStart (Llm (Assistant m)))) (\<lambda>_.
       response_loop env final evs True
         (ctx\<lparr>ctx_messages := ctx_messages ctx @ [Llm (Assistant m)]\<rparr>))"
| "response_loop env final (SDone reason m # evs) addedPartial ctx =
     finish_response env final addedPartial ctx"
| "response_loop env final (SError reason m # evs) addedPartial ctx =
     finish_response env final addedPartial ctx"
| "response_loop env final (ev # evs) addedPartial ctx =
     (case event_partial ev of
        None \<Rightarrow> response_loop env final evs addedPartial ctx
      | Some m \<Rightarrow>
          if addedPartial then
            bindA (send env (MessageUpdate (Llm (Assistant m)) ev)) (\<lambda>_.
              response_loop env final evs True
                (ctx\<lparr>ctx_messages := set_last (Llm (Assistant m)) (ctx_messages ctx)\<rparr>))
          else response_loop env final evs False ctx)"

text \<open>\<open>(getApiKey ? await getApiKey(provider) : undefined) || apiKey\<close>.\<close>

definition resolve_key :: "string option \<Rightarrow> string option \<Rightarrow> string option" where
  "resolve_key resolved own = (case resolved of
     None \<Rightarrow> own | Some k \<Rightarrow> if k = [] then own else Some k)"

definition streamAssistantResponse ::
  "'w loop_env \<Rightarrow> 'w loop_config \<Rightarrow> 'w agent_context
   \<Rightarrow> ('w, assistant_message \<times> 'w agent_context) loop_act"
where
  "streamAssistantResponse env cfg ctx =
     bindA (case cfg_transformContext cfg of
         None \<Rightarrow> retA (ctx_messages ctx) | Some f \<Rightarrow> hook (f (ctx_messages ctx))) (\<lambda>messages.
     bindA (hook (cfg_convertToLlm cfg messages)) (\<lambda>llmMessages.
     bindA (case cfg_getApiKey cfg of
         None \<Rightarrow> retA None | Some f \<Rightarrow> hook (f (model_provider (cfg_model cfg)))) (\<lambda>key.
     bindA (hook (env_streamFn env
         \<lparr>req_model = cfg_model cfg, req_systemPrompt = ctx_systemPrompt ctx,
          req_messages = llmMessages, req_tools = ctx_tools ctx,
          req_reasoning = cfg_reasoning cfg, req_apiKey = resolve_key key (cfg_apiKey cfg)\<rparr>)) (\<lambda>resp.
       response_loop env (resp_result resp) (resp_events resp) False ctx))))"

section \<open>The loop\<close>

record 'w loop_vars =
  v_context :: "'w agent_context"
  v_newMessages :: "agent_message list"
  v_config :: "'w loop_config"
  v_lastTurn :: "'w turn_context option"
  v_pending :: "agent_message list"
  v_hasMore :: bool

definition apply_turn_update :: "'w turn_update \<Rightarrow> 'w loop_vars \<Rightarrow> 'w loop_vars" where
  "apply_turn_update u v = v\<lparr>
     v_context := (case upd_context u of None \<Rightarrow> v_context v | Some c \<Rightarrow> c),
     v_config := (v_config v)\<lparr>
       cfg_model := (case upd_model u of None \<Rightarrow> cfg_model (v_config v) | Some m \<Rightarrow> m),
       cfg_reasoning := (case upd_thinkingLevel u of
           None \<Rightarrow> cfg_reasoning (v_config v)
         | Some l \<Rightarrow> if l = Off then None else Some l)\<rparr>\<rparr>"

text \<open>What precedes every turn but the first.\<close>

definition begin_turn :: "'w loop_env \<Rightarrow> 'w loop_vars \<Rightarrow> ('w, 'w loop_vars) loop_act" where
  "begin_turn env v = (case v_lastTurn v of
     None \<Rightarrow> retA v
   | Some turn \<Rightarrow>
       bindA (case cfg_prepareNextTurn (v_config v) of
           None \<Rightarrow> retA None | Some f \<Rightarrow> hook (f turn)) (\<lambda>snapshot.
       let v1 = (case snapshot of None \<Rightarrow> v | Some u \<Rightarrow> apply_turn_update u v) in
       bindA (if length (v_pending v1) = 0 then poll (cfg_getSteeringMessages (v_config v1))
              else retA (v_pending v1)) (\<lambda>pending.
       bindA (send env TurnStart) (\<lambda>_. retA (v1\<lparr>v_pending := pending\<rparr>)))))"

definition inject_pending :: "'w loop_env \<Rightarrow> 'w loop_vars \<Rightarrow> ('w, 'w loop_vars) loop_act" where
  "inject_pending env v =
     bindA (forA (emitMessage env) (v_pending v)) (\<lambda>_.
       retA (v\<lparr>v_context := (v_context v)\<lparr>ctx_messages := ctx_messages (v_context v) @ v_pending v\<rparr>,
               v_newMessages := v_newMessages v @ v_pending v, v_pending := []\<rparr>))"

text \<open>The tool calls of the message, if any, with their results added to the transcript.\<close>

definition answer_tool_calls ::
  "'w loop_env \<Rightarrow> assistant_message \<Rightarrow> 'w loop_vars
   \<Rightarrow> ('w, tool_result_message list \<times> 'w loop_vars) loop_act"
where
  "answer_tool_calls env message v =
     (let calls = tool_calls message in
      if length calls > 0 then
        bindA (if am_stopReason message = Length
               then failToolCallsFromTruncatedMessage env calls
               else executeToolCalls env (v_config v) (v_context v) message) (\<lambda>b.
          let results = map (\<lambda>r. Llm (ToolResult r)) (batch_messages b) in
          retA (batch_messages b,
            v\<lparr>v_hasMore := \<not> batch_terminate b,
              v_context := (v_context v)\<lparr>ctx_messages := ctx_messages (v_context v) @ results\<rparr>,
              v_newMessages := v_newMessages v @ results\<rparr>))
      else retA ([], v\<lparr>v_hasMore := False\<rparr>))"

text \<open>The end of a turn: \<open>True\<close> when \<open>runLoop\<close> returns there.\<close>

definition close_turn ::
  "'w loop_env \<Rightarrow> assistant_message \<Rightarrow> tool_result_message list \<Rightarrow> 'w loop_vars
   \<Rightarrow> ('w, bool \<times> 'w loop_vars) loop_act"
where
  "close_turn env message toolResults v =
     bindA (send env (TurnEnd message toolResults)) (\<lambda>_.
     let turn = \<lparr>turn_message = message, turn_toolResults = toolResults,
                 turn_context = v_context v, turn_newMessages = v_newMessages v\<rparr>;
         v' = v\<lparr>v_lastTurn := Some turn\<rparr> in
     bindA (case cfg_shouldStopAfterTurn (v_config v') of
         None \<Rightarrow> retA False | Some f \<Rightarrow> hook (f turn)) (\<lambda>stop.
     if stop then
       bindA (send env (AgentEnd (v_newMessages v'))) (\<lambda>_. retA (True, v'))
     else
       bindA (poll (cfg_getSteeringMessages (v_config v'))) (\<lambda>pending.
         retA (False, v'\<lparr>v_pending := pending\<rparr>))))"

text \<open>One iteration of the inner loop.\<close>

definition fail_turn ::
  "'w loop_env \<Rightarrow> assistant_message \<Rightarrow> 'w loop_vars \<Rightarrow> ('w, bool \<times> 'w loop_vars) loop_act"
where
  "fail_turn env message v =
     bindA (send env (TurnEnd message [])) (\<lambda>_.
     bindA (send env (AgentEnd (v_newMessages v))) (\<lambda>_. retA (True, v)))"

definition loop_turn :: "'w loop_env \<Rightarrow> 'w loop_vars \<Rightarrow> ('w, bool \<times> 'w loop_vars) loop_act" where
  "loop_turn env v0 =
     bindA (begin_turn env v0) (\<lambda>v1.
     bindA (inject_pending env v1) (\<lambda>v2.
     bindA (streamAssistantResponse env (v_config v2) (v_context v2)) (\<lambda>(message, ctx).
     let v3 = v2\<lparr>v_context := ctx, v_newMessages := v_newMessages v2 @ [Llm (Assistant message)]\<rparr> in
     if am_stopReason message = Error \<or> am_stopReason message = Aborted then fail_turn env message v3
     else
       bindA (answer_tool_calls env message v3) (\<lambda>(toolResults, v4).
         close_turn env message toolResults v4))))"

text \<open>
  Both \<open>while\<close> loops: an iteration of the inner one while its condition holds, else the poll
  for follow-up messages and another round of the outer one.
\<close>

fun loop_rounds :: "nat \<Rightarrow> 'w loop_env \<Rightarrow> 'w loop_vars \<Rightarrow> ('w, 'w loop_vars option) loop_act" where
  "loop_rounds 0 env v = retA None"
| "loop_rounds (Suc n) env v =
     (if v_hasMore v \<or> length (v_pending v) > 0 then
        bindA (loop_turn env v) (\<lambda>(returned, v').
          if returned then retA (Some v') else loop_rounds n env v')
      else
        bindA (poll (cfg_getFollowUpMessages (v_config v))) (\<lambda>followUp.
          if length followUp > 0
          then loop_rounds n env (v\<lparr>v_pending := followUp, v_hasMore := True\<rparr>)
          else bindA (send env (AgentEnd (v_newMessages v))) (\<lambda>_. retA (Some v))))"

definition runLoop ::
  "nat \<Rightarrow> 'w loop_env \<Rightarrow> 'w loop_config \<Rightarrow> 'w agent_context \<Rightarrow> agent_message list
   \<Rightarrow> ('w, agent_message list option) loop_act"
where
  "runLoop fuel env cfg ctx newMessages =
     bindA (poll (cfg_getSteeringMessages cfg)) (\<lambda>pending.
     bindA (loop_rounds fuel env
       \<lparr>v_context = ctx, v_newMessages = newMessages, v_config = cfg, v_lastTurn = None,
        v_pending = pending, v_hasMore = True\<rparr>) (\<lambda>v.
       retA (map_option v_newMessages v)))"

definition runAgentLoop ::
  "nat \<Rightarrow> 'w loop_env \<Rightarrow> 'w loop_config \<Rightarrow> 'w agent_context \<Rightarrow> agent_message list
   \<Rightarrow> ('w, agent_message list option) loop_act"
where
  "runAgentLoop fuel env cfg ctx prompts =
     bindA (send env AgentStart) (\<lambda>_.
     bindA (send env TurnStart) (\<lambda>_.
     bindA (forA (emitMessage env) prompts) (\<lambda>_.
       runLoop fuel env cfg (ctx\<lparr>ctx_messages := ctx_messages ctx @ prompts\<rparr>) prompts)))"

definition runAgentLoopContinue ::
  "nat \<Rightarrow> 'w loop_env \<Rightarrow> 'w loop_config \<Rightarrow> 'w agent_context
   \<Rightarrow> ('w, agent_message list option) loop_act"
where
  "runAgentLoopContinue fuel env cfg ctx =
     (if length (ctx_messages ctx) = 0 then throwA ''Cannot continue: no messages in context''
      else if role (last (ctx_messages ctx)) = ''assistant''
        then throwA ''Cannot continue from message role: assistant''
      else
        bindA (send env AgentStart) (\<lambda>_.
        bindA (send env TurnStart) (\<lambda>_.
          runLoop fuel env cfg ctx [])))"

end
