(* ===== verification/Agent.thy ===== *)
theory Agent imports AgentLoop begin

text \<open>
  \<open>packages/agent/src/agent.ts\<close>: the stateful agent around the loop. Its transcript, streaming state
  and queues are the world the loop acts on, so hooks, tools, listeners and the stream function
  may steer, abort or read the agent while it runs; the options, the tools and the listeners
  are parameters. \<open>ag_run\<close> is the active run: whether its abort controller has fired. The
  closure variable \<open>skipInitialSteeringPoll\<close> of the current run is part of the state.
\<close>

section \<open>Message queues\<close>

datatype queue_mode = All | OneAtATime

record message_queue =
  pq_messages :: "agent_message list"
  pq_mode :: queue_mode

definition pq_new :: "queue_mode \<Rightarrow> message_queue" where
  "pq_new mode = \<lparr>pq_messages = [], pq_mode = mode\<rparr>"

definition pq_enqueue :: "agent_message \<Rightarrow> message_queue \<Rightarrow> message_queue" where
  "pq_enqueue m q = q\<lparr>pq_messages := pq_messages q @ [m]\<rparr>"

definition pq_hasItems :: "message_queue \<Rightarrow> bool" where
  "pq_hasItems q = (length (pq_messages q) > 0)"

definition pq_drain :: "message_queue \<Rightarrow> agent_message list \<times> message_queue" where
  "pq_drain q = (case pq_mode q of
     All \<Rightarrow> (pq_messages q, q\<lparr>pq_messages := []\<rparr>)
   | OneAtATime \<Rightarrow> (case pq_messages q of
       [] \<Rightarrow> ([], q)
     | first # rest \<Rightarrow> ([first], q\<lparr>pq_messages := rest\<rparr>)))"

definition pq_clear :: "message_queue \<Rightarrow> message_queue" where
  "pq_clear q = q\<lparr>pq_messages := []\<rparr>"

section \<open>The agent\<close>

record agent_state =
  st_systemPrompt :: string
  st_model :: model_ref
  st_thinkingLevel :: thinking_level
  st_messages :: "agent_message list"
  st_isStreaming :: bool
  st_streamingMessage :: "agent_message option"
  st_pendingToolCalls :: "string list"
  st_errorMessage :: "string option"

record 'u agent = agent_state +
  ag_steering :: message_queue
  ag_followUp :: message_queue
  ag_run :: "bool option"
  ag_skipPoll :: bool
  ag_user :: 'u

record 'w agent_options =
  opt_tools :: "'w agent_tool list"
  opt_convertToLlm :: "(agent_message list \<Rightarrow> ('w, message list) act) option"
  opt_transformContext :: "(agent_message list \<Rightarrow> ('w, agent_message list) act) option"
  opt_streamFn :: "'w llm_request \<Rightarrow> ('w, response) act"
  opt_getApiKey :: "(string \<Rightarrow> ('w, string option) act) option"
  opt_beforeToolCall :: "('w before_context \<Rightarrow> ('w, before_result option) act) option"
  opt_afterToolCall :: "('w after_context \<Rightarrow> ('w, after_result option) act) option"
  opt_shouldStopAfterTurn :: "('w turn_context \<Rightarrow> ('w, bool) act) option"
  opt_prepareNextTurn :: "('w, 'w turn_update option) act option"
  opt_prepareNextTurnWithContext :: "('w turn_context \<Rightarrow> ('w, 'w turn_update option) act) option"
  opt_toolExecution :: execution_mode
  opt_listeners :: "(agent_event \<Rightarrow> ('w, unit) act) list"
  opt_now :: "'w \<Rightarrow> nat"
  opt_validate :: "'w agent_tool \<Rightarrow> tool_call \<Rightarrow> ('w, json) act"
  opt_schedule :: "'w \<Rightarrow> nat list"

type_synonym 'u agent_opts = "'u agent agent_options"

definition defaultConvertToLlm :: "agent_message list \<Rightarrow> message list" where
  "defaultConvertToLlm ms = List.map_filter (\<lambda>m. case m of Llm x \<Rightarrow> Some x | Custom r v \<Rightarrow> None) ms"

definition EMPTY_USAGE :: usage where
  "EMPTY_USAGE = \<lparr>us_input = 0, us_output = 0, us_cacheRead = 0, us_cacheWrite = 0,
     us_cacheWrite1h = None, us_reasoning = None, us_totalTokens = 0,
     us_cost = \<lparr>cost_input = 0, cost_output = 0, cost_cacheRead = 0, cost_cacheWrite = 0, cost_total = 0\<rparr>\<rparr>"

definition DEFAULT_MODEL :: model_ref where
  "DEFAULT_MODEL = \<lparr>model_provider = ''unknown'', model_id = ''unknown'', model_api = ''unknown''\<rparr>"

text \<open>The initial state, each part of it optional.\<close>

record initial_state =
  in_systemPrompt :: "string option"
  in_model :: "model_ref option"
  in_thinkingLevel :: "thinking_level option"
  in_messages :: "agent_message list option"
  in_steeringMode :: "queue_mode option"
  in_followUpMode :: "queue_mode option"

definition createMutableAgentState :: "initial_state \<Rightarrow> agent_state" where
  "createMutableAgentState i = \<lparr>
     st_systemPrompt = (case in_systemPrompt i of None \<Rightarrow> [] | Some p \<Rightarrow> p),
     st_model = (case in_model i of None \<Rightarrow> DEFAULT_MODEL | Some m \<Rightarrow> m),
     st_thinkingLevel = (case in_thinkingLevel i of None \<Rightarrow> Off | Some l \<Rightarrow> l),
     st_messages = (case in_messages i of None \<Rightarrow> [] | Some ms \<Rightarrow> ms),
     st_isStreaming = False, st_streamingMessage = None, st_pendingToolCalls = [],
     st_errorMessage = None\<rparr>"

definition createAgent :: "initial_state \<Rightarrow> 'u \<Rightarrow> 'u agent" where
  "createAgent i u = (let s = createMutableAgentState i in
     \<lparr>st_systemPrompt = st_systemPrompt s, st_model = st_model s, st_thinkingLevel = st_thinkingLevel s,
      st_messages = st_messages s, st_isStreaming = st_isStreaming s,
      st_streamingMessage = st_streamingMessage s, st_pendingToolCalls = st_pendingToolCalls s,
      st_errorMessage = st_errorMessage s,
      ag_steering = pq_new (case in_steeringMode i of None \<Rightarrow> OneAtATime | Some m \<Rightarrow> m),
      ag_followUp = pq_new (case in_followUpMode i of None \<Rightarrow> OneAtATime | Some m \<Rightarrow> m),
      ag_run = None, ag_skipPoll = False, ag_user = u\<rparr>)"

definition set_steeringMode :: "queue_mode \<Rightarrow> 'u agent \<Rightarrow> 'u agent" where
  "set_steeringMode mode a = a\<lparr>ag_steering := (ag_steering a)\<lparr>pq_mode := mode\<rparr>\<rparr>"

definition set_followUpMode :: "queue_mode \<Rightarrow> 'u agent \<Rightarrow> 'u agent" where
  "set_followUpMode mode a = a\<lparr>ag_followUp := (ag_followUp a)\<lparr>pq_mode := mode\<rparr>\<rparr>"

definition steer :: "agent_message \<Rightarrow> 'u agent \<Rightarrow> 'u agent" where
  "steer m a = a\<lparr>ag_steering := pq_enqueue m (ag_steering a)\<rparr>"

definition followUp :: "agent_message \<Rightarrow> 'u agent \<Rightarrow> 'u agent" where
  "followUp m a = a\<lparr>ag_followUp := pq_enqueue m (ag_followUp a)\<rparr>"

definition clearSteeringQueue :: "'u agent \<Rightarrow> 'u agent" where
  "clearSteeringQueue a = a\<lparr>ag_steering := pq_clear (ag_steering a)\<rparr>"

definition clearFollowUpQueue :: "'u agent \<Rightarrow> 'u agent" where
  "clearFollowUpQueue a = a\<lparr>ag_followUp := pq_clear (ag_followUp a)\<rparr>"

definition clearAllQueues :: "'u agent \<Rightarrow> 'u agent" where
  "clearAllQueues a = clearFollowUpQueue (clearSteeringQueue a)"

definition hasQueuedMessages :: "'u agent \<Rightarrow> bool" where
  "hasQueuedMessages a = (pq_hasItems (ag_steering a) \<or> pq_hasItems (ag_followUp a))"

definition abort :: "'u agent \<Rightarrow> 'u agent" where
  "abort a = a\<lparr>ag_run := map_option (\<lambda>_. True) (ag_run a)\<rparr>"

text \<open>\<open>signal?.aborted\<close> of the active run.\<close>

definition run_aborted :: "'u agent \<Rightarrow> bool" where
  "run_aborted a = (ag_run a = Some True)"

definition reset :: "('u agent, unit) act" where
  "reset = (\<lambda>a.
     if ag_run a \<noteq> None then
       (Inl ''Agent is already processing. Wait for completion before resetting.'', a)
     else (Inr (), clearSteeringQueue (clearFollowUpQueue
       (a\<lparr>st_messages := [], st_isStreaming := False, st_streamingMessage := None,
          st_pendingToolCalls := [], st_errorMessage := None\<rparr>))))"

section \<open>Events\<close>

definition add_pending :: "string \<Rightarrow> string list \<Rightarrow> string list" where
  "add_pending i ids = (if i \<in> set ids then ids else ids @ [i])"

text \<open>The state an event leaves.\<close>

fun reduce_event :: "agent_event \<Rightarrow> 'u agent \<Rightarrow> 'u agent" where
  "reduce_event (MessageStart m) a = a\<lparr>st_streamingMessage := Some m\<rparr>"
| "reduce_event (MessageUpdate m e) a = a\<lparr>st_streamingMessage := Some m\<rparr>"
| "reduce_event (MessageEnd m) a =
     a\<lparr>st_streamingMessage := None, st_messages := st_messages a @ [m]\<rparr>"
| "reduce_event (ToolStart i n args) a =
     a\<lparr>st_pendingToolCalls := add_pending i (st_pendingToolCalls a)\<rparr>"
| "reduce_event (ToolEnd i n r e) a =
     a\<lparr>st_pendingToolCalls := removeAll i (st_pendingToolCalls a)\<rparr>"
| "reduce_event (TurnEnd m rs) a = (case am_errorMessage m of
     None \<Rightarrow> a
   | Some e \<Rightarrow> if e \<noteq> [] then a\<lparr>st_errorMessage := Some e\<rparr> else a)"
| "reduce_event (AgentEnd ms) a = a\<lparr>st_streamingMessage := None\<rparr>"
| "reduce_event _ a = a"

definition outside_run :: string where
  "outside_run = ''Agent listener invoked outside active run''"

text \<open>The listeners are awaited in subscription order; one that throws ends the event.\<close>

definition processEvents :: "'u agent_opts \<Rightarrow> agent_event \<Rightarrow> ('u agent, unit) act" where
  "processEvents opts e = (\<lambda>a.
     let a1 = reduce_event e a in
     if ag_run a1 = None then (Inl outside_run, a1)
     else forA (\<lambda>l. l e) (opt_listeners opts) a1)"

section \<open>The configuration of a run\<close>

definition agent_env :: "'u agent_opts \<Rightarrow> 'u agent loop_env" where
  "agent_env opts = \<lparr>env_aborted = run_aborted, env_now = opt_now opts,
     env_sink = processEvents opts, env_validate = opt_validate opts,
     env_streamFn = opt_streamFn opts, env_schedule = opt_schedule opts\<rparr>"

definition drain_steering :: "('u agent, agent_message list) act" where
  "drain_steering = (\<lambda>a. let (ms, q) = pq_drain (ag_steering a) in (Inr ms, a\<lparr>ag_steering := q\<rparr>))"

definition drain_followUp :: "('u agent, agent_message list) act" where
  "drain_followUp = (\<lambda>a. let (ms, q) = pq_drain (ag_followUp a) in (Inr ms, a\<lparr>ag_followUp := q\<rparr>))"

text \<open>\<open>getSteeringMessages\<close>: the first poll of a run that consumed the queue itself is skipped.\<close>

definition poll_steering :: "('u agent, agent_message list) act" where
  "poll_steering = (\<lambda>a. if ag_skipPoll a then (Inr [], a\<lparr>ag_skipPoll := False\<rparr>) else drain_steering a)"

definition createLoopConfig :: "'u agent_opts \<Rightarrow> 'u agent \<Rightarrow> 'u agent loop_config" where
  "createLoopConfig opts a = \<lparr>
     cfg_model = st_model a,
     cfg_reasoning = (if st_thinkingLevel a = Off then None else Some (st_thinkingLevel a)),
     cfg_apiKey = None,
     cfg_convertToLlm = (case opt_convertToLlm opts of
         Some f \<Rightarrow> f | None \<Rightarrow> (\<lambda>ms. retA (defaultConvertToLlm ms))),
     cfg_transformContext = opt_transformContext opts,
     cfg_getApiKey = opt_getApiKey opts,
     cfg_shouldStopAfterTurn = opt_shouldStopAfterTurn opts,
     cfg_prepareNextTurn = (case opt_prepareNextTurnWithContext opts of
         Some f \<Rightarrow> Some f
       | None \<Rightarrow> (case opt_prepareNextTurn opts of Some h \<Rightarrow> Some (\<lambda>_. h) | None \<Rightarrow> None)),
     cfg_getSteeringMessages = Some poll_steering,
     cfg_getFollowUpMessages = Some drain_followUp,
     cfg_toolExecution = Some (opt_toolExecution opts),
     cfg_beforeToolCall = opt_beforeToolCall opts,
     cfg_afterToolCall = opt_afterToolCall opts\<rparr>"

definition createContextSnapshot :: "'u agent_opts \<Rightarrow> 'u agent \<Rightarrow> 'u agent agent_context" where
  "createContextSnapshot opts a = \<lparr>ctx_systemPrompt = st_systemPrompt a,
     ctx_messages = st_messages a, ctx_tools = Some (opt_tools opts)\<rparr>"

section \<open>The life of a run\<close>

definition failure_message :: "'u agent_opts \<Rightarrow> string \<Rightarrow> bool \<Rightarrow> 'u agent \<Rightarrow> assistant_message" where
  "failure_message opts e wasAborted a =
    \<lparr>am_content = [ATextB \<lparr>tx_text = [], tx_signature = None\<rparr>],
     am_api = model_api (st_model a), am_provider = model_provider (st_model a),
     am_model = model_id (st_model a), am_responseModel = None, am_responseId = None,
     am_providerThinkingLevel = None, am_diagnostics = None, am_usage = EMPTY_USAGE,
     am_stopReason = (if wasAborted then Aborted else Error), am_deferred = None,
     am_errorMessage = Some e, am_rawStopReason = None, am_endTurn = None, am_timestamp = opt_now opts a\<rparr>"

definition handleRunFailure :: "'u agent_opts \<Rightarrow> string \<Rightarrow> bool \<Rightarrow> ('u agent, unit) loop_act" where
  "handleRunFailure opts e wasAborted =
     (let env = agent_env opts in
      bindA (getA (\<lambda>s. failure_message opts e wasAborted (world s))) (\<lambda>m.
      bindA (send env (MessageStart (Llm (Assistant m)))) (\<lambda>_.
      bindA (send env (MessageEnd (Llm (Assistant m)))) (\<lambda>_.
      bindA (send env (TurnEnd m [])) (\<lambda>_.
        send env (AgentEnd [Llm (Assistant m)]))))))"

definition finishRun :: "'u agent \<Rightarrow> 'u agent" where
  "finishRun a = a\<lparr>st_isStreaming := False, st_streamingMessage := None,
     st_pendingToolCalls := [], ag_run := None\<rparr>"

definition beginRun :: "'u agent \<Rightarrow> 'u agent" where
  "beginRun a = a\<lparr>ag_run := Some False, st_isStreaming := True, st_streamingMessage := None,
     st_errorMessage := None\<rparr>"

text \<open>
  The executor runs in \<open>try\<close>, its error is reported as a failed turn, and the run is finished
  whatever happened. \<open>Inr None\<close>: the loop has not returned within the fuel, so the run is
  still active.
\<close>

definition runWithLifecycle ::
  "'u agent_opts \<Rightarrow> ('u agent, agent_message list option) loop_act \<Rightarrow> ('u agent, unit option) loop_act" where
  "runWithLifecycle opts executor = (\<lambda>s.
     if ag_run (world s) \<noteq> None then (Inl ''Agent is already processing.'', s)
     else
       let (r, s1) = executor (s\<lparr>world := beginRun (world s)\<rparr>) in
       case r of
         Inr None \<Rightarrow> (Inr None, s1)
       | Inr (Some _) \<Rightarrow> (Inr (Some ()), s1\<lparr>world := finishRun (world s1)\<rparr>)
       | Inl e \<Rightarrow>
           let (r2, s2) = handleRunFailure opts e (run_aborted (world s1)) s1 in
           (case r2 of Inl e2 \<Rightarrow> Inl e2 | Inr _ \<Rightarrow> Inr (Some ()), s2\<lparr>world := finishRun (world s2)\<rparr>))"

definition runPromptMessages ::
  "nat \<Rightarrow> 'u agent_opts \<Rightarrow> bool \<Rightarrow> agent_message list \<Rightarrow> ('u agent, unit option) loop_act" where
  "runPromptMessages fuel opts skipInitialSteeringPoll messages =
     runWithLifecycle opts (\<lambda>s.
       runAgentLoop fuel (agent_env opts) (createLoopConfig opts (world s))
         (createContextSnapshot opts (world s)) messages
         (s\<lparr>world := (world s)\<lparr>ag_skipPoll := skipInitialSteeringPoll\<rparr>\<rparr>))"

definition runContinuation :: "nat \<Rightarrow> 'u agent_opts \<Rightarrow> ('u agent, unit option) loop_act" where
  "runContinuation fuel opts =
     runWithLifecycle opts (\<lambda>s.
       runAgentLoopContinue fuel (agent_env opts) (createLoopConfig opts (world s))
         (createContextSnapshot opts (world s))
         (s\<lparr>world := (world s)\<lparr>ag_skipPoll := False\<rparr>\<rparr>))"

section \<open>Starting a run\<close>

datatype prompt_input = PromptText string "image_content list" | PromptMessage agent_message
  | PromptMessages "agent_message list"

definition normalizePromptInput :: "nat \<Rightarrow> prompt_input \<Rightarrow> agent_message list" where
  "normalizePromptInput now p = (case p of
     PromptMessages ms \<Rightarrow> ms
   | PromptMessage m \<Rightarrow> [m]
   | PromptText t images \<Rightarrow>
       [Llm (User \<lparr>um_content = Blocks (TextB \<lparr>tx_text = t, tx_signature = None\<rparr> # map ImageB images),
                   um_timestamp = now\<rparr>)])"

definition prompt ::
  "nat \<Rightarrow> 'u agent_opts \<Rightarrow> prompt_input \<Rightarrow> ('u agent, unit option) loop_act" where
  "prompt fuel opts p = (\<lambda>s.
     if ag_run (world s) \<noteq> None then
       (Inl ''Agent is already processing a prompt. Use steer() or followUp() to queue messages, or wait for completion.'', s)
     else runPromptMessages fuel opts False (normalizePromptInput (opt_now opts (world s)) p) s)"

definition continue_agent :: "nat \<Rightarrow> 'u agent_opts \<Rightarrow> ('u agent, unit option) loop_act" where
  "continue_agent fuel opts = (\<lambda>s.
     if ag_run (world s) \<noteq> None then
       (Inl ''Agent is already processing. Wait for completion before continuing.'', s)
     else if st_messages (world s) = [] then (Inl ''No messages to continue from'', s)
     else if role (last (st_messages (world s))) = ''assistant'' then
       bindA (hook drain_steering) (\<lambda>queuedSteering.
         if length queuedSteering > 0 then runPromptMessages fuel opts True queuedSteering
         else bindA (hook drain_followUp) (\<lambda>queuedFollowUps.
           if length queuedFollowUps > 0 then runPromptMessages fuel opts False queuedFollowUps
           else throwA ''Cannot continue from message role: assistant'')) s
     else runContinuation fuel opts s)"

end
