(* ===== verification/AgentLoopLaws.thy ===== *)
theory AgentLoopLaws imports AgentLoop "HOL-Library.Multiset" begin

text \<open>
  What the agent loop promises to the sink of its events, as a monitor that every run
  follows: the phases of a run, of a turn, of a message and of the tool calls, the transcript
  of the turn that \<open>turn_end\<close> closes, and the answers its tool calls got.
\<close>

section \<open>The protocol\<close>

datatype phase =
    Idle
  | Between
  | InTurn "string multiset" "agent_message list"
  | InMessage string "agent_message list"
  | Ended "agent_message list"

text \<open>
  A tool result answers a call of the message under the same index; results may stop short
  only if the run was aborted. A truncated message has every call answered by an error, a
  failed one has no results.
\<close>

definition answers :: "tool_call \<Rightarrow> tool_result_message \<Rightarrow> bool" where
  "answers c r \<longleftrightarrow> tr_toolCallId r = tc_id c \<and> tr_toolName r = tc_name c"

definition answered :: "bool \<Rightarrow> tool_call list \<Rightarrow> tool_result_message list \<Rightarrow> bool" where
  "answered all calls rs \<longleftrightarrow>
     length rs \<le> length calls \<and> list_all2 answers (take (length rs) calls) rs \<and>
     (if all then length rs = length calls else calls = [] \<or> rs \<noteq> [])"

definition turn_ok :: "bool \<Rightarrow> assistant_message \<Rightarrow> tool_result_message list \<Rightarrow> bool" where
  "turn_ok all m rs \<longleftrightarrow>
     (if am_stopReason m = Error \<or> am_stopReason m = Aborted then rs = []
      else if am_stopReason m = Length
        then answered True (tool_calls m) rs \<and> list_all tr_isError rs
      else answered all (tool_calls m) rs)"

definition turn_transcript :: "assistant_message \<Rightarrow> tool_result_message list \<Rightarrow> agent_message list" where
  "turn_transcript m rs = Llm (Assistant m) # map (\<lambda>r. Llm (ToolResult r)) rs"

definition ends_with :: "'a list \<Rightarrow> 'a list \<Rightarrow> bool" where
  "ends_with xs ys \<longleftrightarrow> length ys \<le> length xs \<and> drop (length xs - length ys) xs = ys"

lemma ends_with_append [simp]: "ends_with (xs @ ys) ys"
  by (simp add: ends_with_def)

fun agent_step :: "bool \<Rightarrow> phase \<Rightarrow> agent_event \<Rightarrow> phase option" where
  "agent_step all Idle AgentStart = Some Between"
| "agent_step all Between TurnStart = Some (InTurn {#} [])"
| "agent_step all Between (AgentEnd ms) = Some (Ended ms)"
| "agent_step all (InTurn T ms) (ToolStart i n a) = Some (InTurn (add_mset i T) ms)"
| "agent_step all (InTurn T ms) (ToolUpdate i n a u) = (if i \<in># T then Some (InTurn T ms) else None)"
| "agent_step all (InTurn T ms) (ToolEnd i n r e) =
     (if i \<in># T then Some (InTurn (T - {#i#}) ms) else None)"
| "agent_step all (InTurn T ms) (MessageStart m) =
     (if T = {#} then Some (InMessage (role m) ms) else None)"
| "agent_step all (InMessage r ms) (MessageUpdate m e) =
     (if role m = r \<and> r = ''assistant'' then Some (InMessage r ms) else None)"
| "agent_step all (InMessage r ms) (MessageEnd m) =
     (if role m = r then Some (InTurn {#} (ms @ [m])) else None)"
| "agent_step all (InTurn T ms) (TurnEnd m rs) =
     (if T = {#} \<and> turn_ok all m rs \<and> ends_with ms (turn_transcript m rs)
      then Some Between else None)"
| "agent_step all _ _ = None"

fun ended_message :: "agent_event \<Rightarrow> agent_message list" where
  "ended_message (MessageEnd m) = [m]"
| "ended_message _ = []"

interpretation ag: monitor "agent_step all" ended_message for all .

text \<open>The signal is never set.\<close>

definition never_aborted :: "'w loop_env \<Rightarrow> bool" where
  "never_aborted env \<longleftrightarrow> env_aborted env = (\<lambda>w. False)"

lemma steps_send:
  "agent_step all p e = Some q \<Longrightarrow> Q q (ended_message e) () \<Longrightarrow> ag.steps all p (send env e) Q"
  unfolding send_def by (rule ag.steps_emit)

lemma steps_aborted:
  "(\<And>ab. (never_aborted env \<Longrightarrow> \<not> ab) \<Longrightarrow> Q p [] ab) \<Longrightarrow> ag.steps all p (aborted env) Q"
  unfolding aborted_def ag.steps_def does_def by (auto simp: getA_def never_aborted_def)

lemma silent_aborted: "(\<And>ab. P ab) \<Longrightarrow> silent (aborted env) P"
  unfolding aborted_def by (rule silent_getA)

lemmas steps_intros = ag.steps_bindA ag.steps_retA steps_send

section \<open>Messages\<close>

lemma steps_emitMessage:
  "ag.steps all (InTurn {#} ms) (emitMessage env m) (\<lambda>q os _. q = InTurn {#} (ms @ [m]) \<and> os = [m])"
  unfolding emitMessage_def by (rule ag.steps_bindA steps_send | simp)+

lemma steps_emitMessages:
  "ag.steps all (InTurn {#} ms) (forA (emitMessage env) xs)
     (\<lambda>q os _. q = InTurn {#} (ms @ xs) \<and> os = xs)"
proof (induction xs arbitrary: ms)
  case Nil
  show ?case by (auto intro: ag.steps_retA)
next
  case (Cons x xs)
  show ?case
    by (auto intro!: ag.steps_bindA ag.steps_mono [OF steps_emitMessage] ag.steps_mono [OF Cons.IH])
qed

definition result_of :: "finalized \<Rightarrow> tool_result_message \<Rightarrow> bool" where
  "result_of f r \<longleftrightarrow> (\<exists>now. r = createToolResultMessage f now)"

lemma result_of_answers: "result_of f r \<Longrightarrow> answers (fin_toolCall f) r"
  by (auto simp: result_of_def answers_def createToolResultMessage_def)

lemma result_of_isError: "result_of f r \<Longrightarrow> tr_isError r = fin_isError f"
  by (auto simp: result_of_def createToolResultMessage_def)

lemma steps_report_result:
  "ag.steps all (InTurn {#} ms) (report_result env f)
     (\<lambda>q os r. q = InTurn {#} (ms @ [Llm (ToolResult r)]) \<and> os = [Llm (ToolResult r)] \<and> result_of f r)"
  unfolding report_result_def emitToolResultMessage_def
  by (auto intro!: ag.steps_bindA ag.steps_getA ag.steps_retA ag.steps_mono [OF steps_emitMessage]
      simp: result_of_def)

lemma steps_report_results:
  "ag.steps all (InTurn {#} ms) (mapA (report_result env) fs)
     (\<lambda>q os rs. os = map (\<lambda>r. Llm (ToolResult r)) rs \<and> q = InTurn {#} (ms @ os) \<and>
        list_all2 result_of fs rs)"
proof (induction fs arbitrary: ms)
  case Nil
  show ?case by (auto intro: ag.steps_retA)
next
  case (Cons f fs)
  show ?case
    by (auto intro!: ag.steps_bindA ag.steps_retA ag.steps_mono [OF steps_report_result]
        ag.steps_mono [OF Cons.IH])
qed

section \<open>One tool call\<close>

lemma steps_tool_start:
  "ag.steps all (InTurn T ms) (emitToolExecutionStart env c)
     (\<lambda>q os _. q = InTurn (add_mset (tc_id c) T) ms \<and> os = [])"
  unfolding emitToolExecutionStart_def by (rule steps_send) auto

lemma steps_tool_end:
  "ag.steps all (InTurn (add_mset (tc_id (fin_toolCall f)) T) ms) (emitToolExecutionEnd env f)
     (\<lambda>q os _. q = InTurn T ms \<and> os = [])"
  unfolding emitToolExecutionEnd_def by (rule steps_send) auto

definition prepared_for :: "tool_call \<Rightarrow> 'w preparation \<Rightarrow> bool" where
  "prepared_for c p \<longleftrightarrow> (case p of Immediate r e \<Rightarrow> True | Prepared p \<Rightarrow> prep_toolCall p = c)"

lemma silent_proceed:
  "prepared_for c p \<Longrightarrow>
   silent (bindA (aborted env) (\<lambda>ab. retA (if ab then abortedOutcome else p))) (prepared_for c)"
  by (rule silent_bindA, rule silent_aborted, rule silent_retA)
    (simp add: prepared_for_def abortedOutcome_def)

lemma silent_consult_hook:
  "prepared_for c p \<Longrightarrow> silent (consult_hook env cfg bc p) (prepared_for c)"
  unfolding consult_hook_def Let_def
  by (auto intro!: silent_bindA silent_hook silent_aborted silent_retA silent_proceed
      simp: prepared_for_def abortedOutcome_def blockedOutcome_def Let_def split: option.split)

lemma silent_prepareToolCall: "silent (prepareToolCall env cfg ctx m c) (prepared_for c)"
  unfolding prepareToolCall_def
  by (auto intro!: silent_catchA silent_bindA silent_liftE silent_hook silent_retA silent_consult_hook
      simp: prepared_for_def split: option.split)

lemma steps_emit_updates:
  assumes "tc_id c \<in># T"
  shows "ag.steps all (InTurn T ms) (emit_updates env c us) (\<lambda>q os _. q = InTurn T ms \<and> os = [])"
proof (induction us)
  case Nil
  show ?case by (auto intro: ag.steps_retA)
next
  case (Cons u us)
  let ?e = "ToolUpdate (tc_id c) (tc_name c) (tc_arguments c) u"
  have e: "\<exists>es. log t = log s @ es \<and> (es = [?e])" if "send env ?e s = (r, t)" for s r t
    using doesD [OF does_emit [where Q = "\<lambda>es r. es = [?e]"] that [unfolded send_def]] by auto
  show ?case
    unfolding ag.steps_def
  proof (rule doesI)
    fix s and r :: "string + unit" and t
    assume run: "emit_updates env c (u # us) s = (r, t)"
    obtain r1 s1 where 1: "send env ?e s = (r1, s1)" by (cases "send env ?e s")
    obtain r2 where 2: "emit_updates env c us s1 = (r2, t)" "r = (case r1 of Inl e \<Rightarrow> Inl e | Inr _ \<Rightarrow> r2)"
      using run 1 by (auto split: prod.splits)
    from ag.stepsD [OF Cons 2(1)] obtain es where es: "log t = log s1 @ es"
      "case r2 of Inl e \<Rightarrow> ag.run all (InTurn T ms) es \<noteq> None
       | Inr a \<Rightarrow> \<exists>q. ag.run all (InTurn T ms) es = Some q \<and> q = InTurn T ms \<and> ag.observed es = []" by blast
    have "log t = log s @ ?e # es" using e [OF 1] es(1) by auto
    then show "\<exists>es. log t = log s @ es \<and> (case r of
        Inl e \<Rightarrow> ag.run all (InTurn T ms) es \<noteq> None
      | Inr a \<Rightarrow> \<exists>q. ag.run all (InTurn T ms) es = Some q \<and> q = InTurn T ms \<and> ag.observed es = [])"
      using es(2) 2(2) assms by (intro exI [of _ "?e # es"]) (auto split: sum.splits)
  qed
qed

lemma steps_execute:
  assumes "tc_id (prep_toolCall p) \<in># T"
  shows "ag.steps all (InTurn T ms) (executePreparedToolCall env p) (\<lambda>q os _. q = InTurn T ms \<and> os = [])"
  unfolding executePreparedToolCall_def start_tool_def
  by (auto intro!: ag.steps_bindA ag.steps_hook ag.steps_retA ag.steps_mono [OF steps_emit_updates [OF assms]])

lemma silent_finalize: "silent (finalizeExecutedToolCall cfg ctx m p x) (\<lambda>f. fin_toolCall f = prep_toolCall p)"
  unfolding finalizeExecutedToolCall_def Let_def
  by (auto intro!: silent_catchA silent_bindA silent_hook silent_retA split: option.split)

lemma steps_run_prepared:
  assumes "tc_id (prep_toolCall p) \<in># T"
  shows "ag.steps all (InTurn T ms) (run_prepared env cfg ctx m p)
    (\<lambda>q os f. q = InTurn T ms \<and> os = [] \<and> fin_toolCall f = prep_toolCall p)"
  unfolding run_prepared_def
  by (auto intro!: ag.steps_bindA ag.steps_mono [OF steps_execute [OF assms]] ag.steps_silent [OF silent_finalize])

section \<open>Batches\<close>

lemma answered_Nil [simp]: "answered all [] rs \<longleftrightarrow> rs = []"
  by (auto simp: answered_def)

lemma answered_Cons: "answers c r \<Longrightarrow> answered all cs rs \<Longrightarrow> answered all (c # cs) (r # rs)"
  by (auto simp: answered_def)

lemma answered_cut: "answers c r \<Longrightarrow> \<not> all \<Longrightarrow> answered all (c # cs) [r]"
  by (simp add: answered_def)

lemma answered_full: "list_all2 answers calls rs \<Longrightarrow> answered all calls rs"
proof -
  assume a: "list_all2 answers calls rs"
  then have "length calls = length rs" by (rule list_all2_lengthD)
  with a show ?thesis by (cases calls) (auto simp: answered_def)
qed

abbreviation result_message :: "tool_result_message \<Rightarrow> agent_message" where
  "result_message r \<equiv> Llm (ToolResult r)"

lemma steps_failToolCall:
  "ag.steps all (InTurn {#} ms) (failToolCall env c)
     (\<lambda>q os r. q = InTurn {#} (ms @ [result_message r]) \<and> os = [result_message r] \<and>
        answers c r \<and> tr_isError r)"
proof -
  let ?f = "immediate_finalized c (createErrorToolResult (truncatedText (tc_name c))) True"
  have f: "fin_toolCall ?f = c" "fin_isError ?f" by (simp_all add: immediate_finalized_def)
  have "ag.steps all (InTurn {#} ms) (report_result env ?f)
     (\<lambda>q os r. q = InTurn {#} (ms @ [result_message r]) \<and> os = [result_message r] \<and>
        answers c r \<and> tr_isError r)"
    using result_of_answers [of ?f] result_of_isError [of ?f] f
    by (auto intro!: ag.steps_mono [OF steps_report_result])
  then show ?thesis
    unfolding failToolCall_def Let_def
    using steps_tool_end [of all ?f "{#}" ms env] f
    by (auto intro!: ag.steps_bindA ag.steps_mono [OF steps_tool_start] elim!: ag.steps_mono)
qed

lemma steps_failToolCalls:
  "ag.steps all (InTurn {#} ms) (mapA (failToolCall env) calls)
     (\<lambda>q os rs. os = map result_message rs \<and> q = InTurn {#} (ms @ os) \<and>
        list_all2 answers calls rs \<and> list_all tr_isError rs)"
proof (induction calls arbitrary: ms)
  case Nil
  show ?case by (auto intro: ag.steps_retA)
next
  case (Cons c calls)
  show ?case
    by (auto intro!: ag.steps_bindA ag.steps_retA ag.steps_mono [OF steps_failToolCall]
        ag.steps_mono [OF Cons.IH])
qed

text \<open>The settlement of a call that was prepared or answered at once.\<close>

lemma steps_outcome:
  assumes "prepared_for c p" "tc_id c \<in># T"
  shows "ag.steps all (InTurn T ms)
    (case p of Immediate r e \<Rightarrow> retA (immediate_finalized c r e) | Prepared p \<Rightarrow> run_prepared env cfg ctx m p)
    (\<lambda>q os f. q = InTurn T ms \<and> os = [] \<and> fin_toolCall f = c)"
  using assms steps_run_prepared
  by (auto simp: prepared_for_def immediate_finalized_def intro: ag.steps_retA split: preparation.splits)

lemma steps_sequential_loop:
  assumes "all \<Longrightarrow> never_aborted env"
  shows "ag.steps all (InTurn {#} ms) (sequential_loop env cfg ctx m calls)
    (\<lambda>q os rs. os = map (\<lambda>r. result_message (snd r)) rs \<and> q = InTurn {#} (ms @ os) \<and>
       answered all calls (map snd rs))"
proof (induction calls arbitrary: ms)
  case Nil
  show ?case by (auto intro: ag.steps_retA)
next
  case (Cons c calls)
  show ?case
    apply simp
    apply (rule ag.steps_bindA, rule ag.steps_mono [OF steps_tool_start], clarsimp)
    apply (rule ag.steps_bindA, rule ag.steps_silent [OF silent_prepareToolCall])
    apply (rule ag.steps_bindA, rule ag.steps_mono [OF steps_outcome], assumption, simp, clarsimp)
    apply (rule ag.steps_bindA, rule ag.steps_mono [OF steps_tool_end], clarsimp)
    apply (rule ag.steps_bindA, rule ag.steps_mono [OF steps_report_result], clarsimp)
    apply (rule ag.steps_bindA, rule steps_aborted)
    using assms
    by (auto intro!: ag.steps_retA ag.steps_bindA ag.steps_mono [OF Cons.IH])
      (blast intro: answered_cut answered_Cons result_of_answers)+
qed

section \<open>Concurrent calls\<close>

text \<open>The call ids a slot still has open; a rejected call is no longer waited for.\<close>

fun slot_open :: "'w slot \<Rightarrow> string multiset" where
  "slot_open (Settled f) = {#}"
| "slot_open (Rejected_call c) = {#}"
| "slot_open s = {#tc_id (slot_call s)#}"

lemma steps_preflight_loop:
  assumes "all \<Longrightarrow> never_aborted env"
  shows "ag.steps all (InTurn T ms) (preflight_loop env cfg ctx m calls)
    (\<lambda>q os slots. os = [] \<and> q = InTurn (T + sum_list (map slot_open slots)) ms \<and>
       length slots \<le> length calls \<and> map slot_call slots = take (length slots) calls \<and>
       (if all then length slots = length calls else calls = [] \<or> slots \<noteq> []))"
proof (induction calls arbitrary: T)
  case Nil
  show ?case by (auto intro: ag.steps_retA)
next
  case (Cons c calls)
  have slot: "ag.steps all (InTurn (add_mset (tc_id c) T) ms)
      (case p of Immediate r e \<Rightarrow> let f = immediate_finalized c r e
           in bindA (emitToolExecutionEnd env f) (\<lambda>_. retA (Settled f))
       | Prepared p \<Rightarrow> retA (Deferred_call p))
      (\<lambda>q os slot. os = [] \<and> q = InTurn (T + slot_open slot) ms \<and> slot_call slot = c)"
    if "prepared_for c p" for p :: "'b preparation"
  proof (cases p)
    case (Immediate r e)
    then show ?thesis
      using steps_tool_end [of all "immediate_finalized c r e" T ms env]
      by (auto simp: Let_def immediate_finalized_def intro!: ag.steps_bindA ag.steps_retA
          elim!: ag.steps_mono)
  next
    case (Prepared p)
    with that show ?thesis by (auto simp: prepared_for_def intro!: ag.steps_retA)
  qed
  show ?case
    apply simp
    apply (rule ag.steps_bindA, rule ag.steps_mono [OF steps_tool_start], clarsimp)
    apply (rule ag.steps_bindA, rule ag.steps_silent [OF silent_prepareToolCall])
    apply (rule ag.steps_bindA, rule ag.steps_mono [OF slot], assumption, clarsimp)
    apply (rule ag.steps_bindA, rule steps_aborted)
    using assms
    by (auto intro!: ag.steps_retA ag.steps_bindA ag.steps_mono [OF Cons.IH] simp: ac_simps)
qed

text \<open>
  A step of a call reports no message and, unless it rejects, leaves open what the slot says; a
  call that rejects may leave its own id open.
\<close>

definition slot_steps ::
  "bool \<Rightarrow> string multiset \<Rightarrow> agent_message list \<Rightarrow> 'w slot \<Rightarrow> ('w, 'w slot) loop_act \<Rightarrow> bool" where
  "slot_steps all R ms slot m \<longleftrightarrow> does m (\<lambda>es r. \<exists>q.
     ag.run all (InTurn (R + slot_open slot) ms) es = Some (InTurn q ms) \<and> ag.observed es = [] \<and>
     (case r of Inl e \<Rightarrow> R \<subseteq># q
      | Inr slot' \<Rightarrow> q = R + slot_open slot' \<and> slot_call slot' = slot_call slot))"

lemma slot_steps_silent:
  "silent m (\<lambda>slot'. slot_open slot' = slot_open slot \<and> slot_call slot' = slot_call slot) \<Longrightarrow>
   slot_steps all R ms slot m"
  unfolding slot_steps_def silent_def by (erule does_mono) (auto split: sum.split)

lemma slot_step_steps: "slot_steps all R ms slot (slot_step env cfg ctx m slot)"
proof (cases slot)
  case (Deferred_call p)
  have "silent (slot_step env cfg ctx m slot)
      (\<lambda>slot'. slot_open slot' = slot_open slot \<and> slot_call slot' = slot_call slot)"
    unfolding Deferred_call slot_step.simps start_tool_def
    by (rule silent_bindA, rule silent_aborted)
      (auto intro!: silent_bindA silent_hook silent_retA simp: immediate_finalized_def)
  then show ?thesis by (rule slot_steps_silent)
next
  case (Running_call p run us failed)
  show ?thesis
  proof (cases us)
    case Nil
    then show ?thesis
      by (auto simp: Running_call intro!: slot_steps_silent silent_retA split: option.split)
        (simp add: silent_def does_throwA)
  next
    case (Cons u us')
    show ?thesis
      unfolding slot_steps_def Running_call Cons
      by (rule doesI)
        (auto simp: Let_def send_def emit_def hook_def intro!: exI [of _ "[ToolUpdate _ _ _ _]"] split: prod.splits)
  qed
next
  case (Executed_call p x)
  show ?thesis
    unfolding Executed_call
    by (rule slot_steps_silent) (auto intro!: silent_bindA silent_mono [OF silent_finalize] silent_retA)
next
  case (Ending_call f)
  show ?thesis
    unfolding Ending_call slot_steps_def slot_step.simps emitToolExecutionEnd_def send_def
    by (rule does_bindA, rule does_emit) (auto intro!: does_retA split: sum.split)
qed (auto intro!: slot_steps_silent silent_retA)

lemma steps_slot_step:
  "ag.steps all (InTurn (R + slot_open slot) ms) (slot_step env cfg ctx m slot)
    (\<lambda>q os slot'. os = [] \<and> q = InTurn (R + slot_open slot') ms \<and> slot_call slot' = slot_call slot)"
  using slot_step_steps [of all R ms slot env cfg ctx m]
  unfolding slot_steps_def ag.steps_def by (rule does_mono) (auto split: sum.splits)

lemma sum_list_pick:
  fixes f :: "'a \<Rightarrow> 'b multiset"
  assumes "i < length xs"
  obtains R where "sum_list (map f xs) = R + f (xs ! i)"
    "\<And>y. sum_list (map f (xs[i := y])) = R + f y"
proof -
  have x: "xs = take i xs @ xs ! i # drop (Suc i) xs" using assms by (rule id_take_nth_drop)
  have "sum_list (map f xs) = sum_list (map f (take i xs)) + sum_list (map f (drop (Suc i) xs)) + f (xs ! i)"
    by (subst x) (simp add: ac_simps)
  moreover have "sum_list (map f (xs[i := y])) =
      sum_list (map f (take i xs)) + sum_list (map f (drop (Suc i) xs)) + f y" for y
    by (subst upd_conv_take_nth_drop [OF assms]) (simp add: ac_simps)
  ultimately show thesis using that by blast
qed

lemma map_slot_call:
  "slot_call y = slot_call (xs ! i) \<Longrightarrow> map slot_call (xs[i := y]) = map slot_call xs"
  by (cases "i < length xs") (simp_all add: map_update list_update_same_conv [THEN iffD2] list_update_beyond)

lemma steps_scheduled_loop:
  "ag.steps all (InTurn (T + sum_list (map slot_open slots)) ms) (scheduled_loop env cfg ctx m sched slots)
    (\<lambda>q os slots'. os = [] \<and> q = InTurn (T + sum_list (map slot_open slots')) ms \<and>
       map slot_call slots' = map slot_call slots)"
proof (induction sched arbitrary: slots T)
  case Nil
  show ?case by (auto intro: ag.steps_retA)
next
  case (Cons i sched)
  show ?case
  proof (cases "i < length slots")
    case True
    obtain R where R: "sum_list (map slot_open slots) = R + slot_open (slots ! i)"
        "\<And>y. sum_list (map slot_open (slots[i := y])) = R + slot_open y"
      using sum_list_pick [OF True] by metis
    show ?thesis
      unfolding ag.steps_def
    proof (rule doesI)
      fix s and r :: "string + 'a slot list" and t
      assume run: "scheduled_loop env cfg ctx m (i # sched) slots s = (r, t)"
      obtain r1 s1 where 1: "slot_step env cfg ctx m (slots ! i) s = (r1, s1)" by fastforce
      from doesD [OF slot_step_steps [of all "T + R" ms, unfolded slot_steps_def] 1] obtain es q where
        es: "log s1 = log s @ es" "ag.observed es = []"
          "ag.run all (InTurn (T + R + slot_open (slots ! i)) ms) es = Some (InTurn q ms)"
        and q: "case r1 of Inl e \<Rightarrow> T + R \<subseteq># q
          | Inr y \<Rightarrow> q = T + R + slot_open y \<and> slot_call y = slot_call (slots ! i)" by blast
      define y where "y = (case r1 of Inl e \<Rightarrow> Rejected_call (slot_call (slots ! i)) | Inr y \<Rightarrow> y)"
      have y: "slot_call y = slot_call (slots ! i)" using q by (auto simp: y_def split: sum.splits)
      obtain T' where T': "q = T' + (R + slot_open y)" "\<And>y. r1 = Inr y \<Longrightarrow> T' = T"
        using q that [of "q - R"] by (cases r1) (auto simp: y_def ac_simps subset_mset.le_iff_add)
      obtain r2 where 2: "scheduled_loop env cfg ctx m sched (slots[i := y]) s1 = (r2, t)"
          "r = (case r1 of Inl e \<Rightarrow> Inl e | Inr _ \<Rightarrow> r2)"
        using run 1 True by (cases "scheduled_loop env cfg ctx m sched (slots[i := y]) s1")
          (auto simp: y_def split: sum.splits)
      from ag.stepsD [OF Cons.IH [of T'] 2(1)] obtain fs where fs: "log t = log s1 @ fs"
        "case r2 of Inl e \<Rightarrow> ag.run all (InTurn q ms) fs \<noteq> None
         | Inr slots' \<Rightarrow> \<exists>p. ag.run all (InTurn q ms) fs = Some p \<and> ag.observed fs = [] \<and>
             p = InTurn (T' + sum_list (map slot_open slots')) ms \<and> map slot_call slots' = map slot_call slots"
        unfolding R(2) T'(1) map_slot_call [OF y] by blast
      show "\<exists>es. log t = log s @ es \<and> (case r of
          Inl e \<Rightarrow> ag.run all (InTurn (T + sum_list (map slot_open slots)) ms) es \<noteq> None
        | Inr slots' \<Rightarrow> \<exists>p. ag.run all (InTurn (T + sum_list (map slot_open slots)) ms) es = Some p \<and>
            ag.observed es = [] \<and> p = InTurn (T + sum_list (map slot_open slots')) ms \<and>
            map slot_call slots' = map slot_call slots)"
      proof (rule exI [of _ "es @ fs"], rule conjI)
        show "log t = log s @ es @ fs" using es fs by simp
        have run: "ag.run all (InTurn (T + sum_list (map slot_open slots)) ms) (es @ fs) = ag.run all (InTurn q ms) fs"
          unfolding R(1) using es(3) by (simp add: ag.run_append add.assoc)
        show "case r of
            Inl e \<Rightarrow> ag.run all (InTurn (T + sum_list (map slot_open slots)) ms) (es @ fs) \<noteq> None
          | Inr slots' \<Rightarrow> \<exists>p. ag.run all (InTurn (T + sum_list (map slot_open slots)) ms) (es @ fs) = Some p \<and>
              ag.observed (es @ fs) = [] \<and> p = InTurn (T + sum_list (map slot_open slots')) ms \<and>
              map slot_call slots' = map slot_call slots"
          unfolding run using es(2) fs(2) 2(2) T'(2) by (auto split: sum.splits)
      qed
    qed
  next
    case False
    have "scheduled_loop env cfg ctx m (i # sched) slots = scheduled_loop env cfg ctx m sched slots"
      using False by (simp add: fun_eq_iff)
    with Cons.IH show ?thesis by simp
  qed
qed

lemma steps_settle_steps:
  "ag.steps all (InTurn (R + slot_open slot) ms) (settle_steps n env cfg ctx m slot)
    (\<lambda>q os slot'. os = [] \<and> q = InTurn (R + slot_open slot') ms \<and> slot_call slot' = slot_call slot)"
proof (induction n arbitrary: slot)
  case 0
  show ?case by (auto intro: ag.steps_retA)
next
  case (Suc n)
  show ?case
    by (auto intro!: ag.steps_bindA ag.steps_mono [OF steps_slot_step] ag.steps_mono [OF Suc.IH])
qed

lemma steps_settle_slot:
  "ag.steps all (InTurn (R + slot_open slot) ms) (settle_slot env cfg ctx m slot)
    (\<lambda>q os f. os = [] \<and> q = InTurn R ms \<and> fin_toolCall f = slot_call slot)"
  unfolding settle_slot_def
  apply (rule ag.steps_bindA, rule ag.steps_mono [OF steps_slot_step], clarsimp)
  apply (rule ag.steps_bindA, rule ag.steps_mono [OF steps_settle_steps], clarsimp)
  by (auto intro!: ag.steps_retA ag.steps_throwA split: slot.split)

text \<open>Its rank is how many steps a started call needs, so a call that is not rejected settles.\<close>

lemma slot_step_rank:
  "returns (slot_step env cfg ctx m slot) (\<lambda>slot'. slot_rank slot' = slot_rank slot - 1 \<and>
     ((\<exists>c. slot' = Rejected_call c) \<longleftrightarrow> (\<exists>c. slot = Rejected_call c)) \<and> (\<nexists>p. slot' = Deferred_call p))"
  if "\<nexists>p. slot = Deferred_call p"
  using that
  by (cases "(env, cfg, ctx, m, slot)" rule: slot_step.cases)
    (auto simp: returns_def act_simps bindA_Inr Let_def split: prod.splits option.splits)

lemma settle_steps_settled:
  assumes "\<nexists>p. slot = Deferred_call p" "\<nexists>c. slot = Rejected_call c"
  shows "returns (settle_steps (slot_rank slot) env cfg ctx m slot) (\<lambda>slot'. \<exists>f. slot' = Settled f)"
  using assms
proof (induction "slot_rank slot" arbitrary: slot)
  case 0
  then show ?case by (cases slot) (auto intro: returns_retA)
next
  case (Suc n)
  have "returns (slot_step env cfg ctx m slot)
      (\<lambda>y. returns (settle_steps n env cfg ctx m y) (\<lambda>slot'. \<exists>f. slot' = Settled f))"
  proof (rule returns_mono [OF slot_step_rank [OF Suc.prems(1)]])
    fix y :: "'a slot"
    assume y: "slot_rank y = slot_rank slot - 1 \<and>
      ((\<exists>c. y = Rejected_call c) \<longleftrightarrow> (\<exists>c. slot = Rejected_call c)) \<and> (\<nexists>p. y = Deferred_call p)"
    then have "n = slot_rank y" using Suc.hyps(2) by simp
    with Suc.hyps(1) [OF this] y Suc.prems(2)
    show "returns (settle_steps n env cfg ctx m y) (\<lambda>slot'. \<exists>f. slot' = Settled f)" by blast
  qed
  then show ?case
    unfolding Suc.hyps(2) [symmetric] settle_steps.simps by (rule returns_bindA)
qed

lemma steps_settle_slots:
  "ag.steps all (InTurn (sum_list (map slot_open slots)) ms) (mapA (settle_slot env cfg ctx m) slots)
    (\<lambda>q os fs. os = [] \<and> q = InTurn {#} ms \<and> map fin_toolCall fs = map slot_call slots)"
proof (induction slots)
  case Nil
  show ?case by (auto intro: ag.steps_retA)
next
  case (Cons slot slots)
  have "ag.steps all (InTurn (sum_list (map slot_open (slot # slots))) ms) (settle_slot env cfg ctx m slot)
    (\<lambda>q os f. os = [] \<and> q = InTurn (sum_list (map slot_open slots)) ms \<and> fin_toolCall f = slot_call slot)"
    using steps_settle_slot [of all "sum_list (map slot_open slots)" slot] by (simp add: ac_simps)
  then show ?case
    by (auto intro!: ag.steps_bindA ag.steps_retA ag.steps_mono [OF Cons.IH] elim!: ag.steps_mono)
qed

lemma results_answer:
  assumes fs: "map fin_toolCall fs = take (length slots) calls" and rs: "list_all2 result_of fs rs"
    and slots: "length slots \<le> length calls"
    and all: "if all then length slots = length calls else calls = [] \<or> slots \<noteq> []"
  shows "answered all calls rs"
proof -
  have "length fs = length slots" using fs slots by (metis length_map length_take min.absorb2)
  then have len: "length rs = length slots" using rs by (simp add: list_all2_lengthD)
  have "list_all2 answers (map fin_toolCall fs) rs"
    using rs by (auto simp: list_all2_conv_all_nth result_of_answers)
  with fs slots all len show ?thesis by (auto simp: answered_def)
qed

lemma steps_executeToolCalls:
  assumes "all \<Longrightarrow> never_aborted env"
  shows "ag.steps all (InTurn {#} ms) (executeToolCalls env cfg ctx m)
    (\<lambda>q os b. os = map result_message (batch_messages b) \<and> q = InTurn {#} (ms @ os) \<and>
       answered all (tool_calls m) (batch_messages b))"
proof -
  have seq: "ag.steps all (InTurn {#} ms) (executeToolCallsSequential env cfg ctx m calls)
      (\<lambda>q os b. os = map result_message (batch_messages b) \<and> q = InTurn {#} (ms @ os) \<and>
       answered all calls (batch_messages b))" for calls
    unfolding executeToolCallsSequential_def
    by (auto intro!: ag.steps_bindA ag.steps_retA ag.steps_mono [OF steps_sequential_loop [OF assms]])
  have par: "ag.steps all (InTurn {#} ms) (executeToolCallsParallel env cfg ctx m calls)
      (\<lambda>q os b. os = map result_message (batch_messages b) \<and> q = InTurn {#} (ms @ os) \<and>
       answered all calls (batch_messages b))" for calls
    unfolding executeToolCallsParallel_def
    apply (rule ag.steps_bindA, rule ag.steps_mono [OF steps_preflight_loop [OF assms]], assumption, clarsimp)
    apply (rule ag.steps_bindA, rule ag.steps_getA)
    apply (rule ag.steps_bindA, rule ag.steps_mono [OF steps_scheduled_loop [where T = "{#}", simplified]], clarsimp)
    apply (rule ag.steps_bindA, rule ag.steps_mono [OF steps_settle_slots], clarsimp)
    apply (rule ag.steps_bindA, rule ag.steps_mono [OF steps_report_results])
    by (rule ag.steps_retA, simp, rule results_answer, simp_all)
  show ?thesis
    unfolding executeToolCalls_def Let_def using seq par by simp
qed

section \<open>One response\<close>

text \<open>
  The documented contract of a stream: at most one \<open>start\<close> before it terminates. The loop
  relies on it, as a second one would open a message inside another.
\<close>

fun starts :: "assistant_event list \<Rightarrow> nat" where
  "starts [] = 0"
| "starts (SStart m # evs) = Suc (starts evs)"
| "starts (SDone reason m # evs) = 0"
| "starts (SError reason m # evs) = 0"
| "starts (ev # evs) = starts evs"

definition well_started :: "'w loop_env \<Rightarrow> bool" where
  "well_started env \<longleftrightarrow>
     (\<forall>req w resp. fst (env_streamFn env req w) = Inr resp \<longrightarrow> starts (resp_events resp) \<le> 1)"

lemma set_last_simps [simp]:
  "set_last x (set_last y xs) = set_last x xs" "set_last x (xs @ [y]) = xs @ [x]"
  by (simp_all add: set_last_def)

abbreviation assistant_of :: "assistant_message \<Rightarrow> agent_message" where
  "assistant_of m \<equiv> Llm (Assistant m)"

lemma steps_finish_added:
  "ag.steps all (InMessage ''assistant'' ms) (finish_response env m True ctx)
    (\<lambda>q os a. q = InTurn {#} (ms @ [assistant_of m]) \<and> os = [assistant_of m] \<and>
       a = (m, ctx\<lparr>ctx_messages := set_last (assistant_of m) (ctx_messages ctx)\<rparr>))"
  unfolding finish_response_def Let_def by (auto intro!: steps_intros)

lemma steps_finish_new:
  "ag.steps all (InTurn {#} ms) (finish_response env m False ctx)
    (\<lambda>q os a. q = InTurn {#} (ms @ [assistant_of m]) \<and> os = [assistant_of m] \<and>
       a = (m, ctx\<lparr>ctx_messages := ctx_messages ctx @ [assistant_of m]\<rparr>))"
  unfolding finish_response_def Let_def by (auto intro!: steps_intros)

lemma steps_response_added:
  "starts evs = 0 \<Longrightarrow>
   ag.steps all (InMessage ''assistant'' ms) (response_loop env m evs True ctx)
    (\<lambda>q os a. q = InTurn {#} (ms @ [assistant_of m]) \<and> os = [assistant_of m] \<and>
       a = (m, ctx\<lparr>ctx_messages := set_last (assistant_of m) (ctx_messages ctx)\<rparr>))"
proof (induction evs arbitrary: ctx)
  case Nil
  show ?case using steps_finish_added by simp
next
  case (Cons ev evs)
  have upd: "ag.steps all (InMessage ''assistant'' ms)
      (bindA (send env (MessageUpdate (assistant_of p) ev)) (\<lambda>_.
         response_loop env m evs True (ctx\<lparr>ctx_messages := set_last (assistant_of p) (ctx_messages ctx)\<rparr>)))
      (\<lambda>q os a. q = InTurn {#} (ms @ [assistant_of m]) \<and> os = [assistant_of m] \<and>
         a = (m, ctx\<lparr>ctx_messages := set_last (assistant_of m) (ctx_messages ctx)\<rparr>))"
    if "starts evs = 0" for p
    using that
    by (auto intro!: ag.steps_bindA steps_send ag.steps_mono [OF Cons.IH])
  show ?case using Cons.prems upd steps_finish_added by (cases ev) simp_all
qed

lemma steps_response_new:
  "starts evs \<le> 1 \<Longrightarrow>
   ag.steps all (InTurn {#} ms) (response_loop env m evs False ctx)
    (\<lambda>q os a. q = InTurn {#} (ms @ [assistant_of m]) \<and> os = [assistant_of m] \<and>
       a = (m, ctx\<lparr>ctx_messages := ctx_messages ctx @ [assistant_of m]\<rparr>))"
proof (induction evs)
  case Nil
  show ?case using steps_finish_new by simp
next
  case (Cons ev evs)
  show ?case
  proof (cases "\<exists>p. ev = SStart p")
    case True
    with Cons.prems show ?thesis
      by (auto intro!: ag.steps_bindA steps_send ag.steps_mono [OF steps_response_added])
  next
    case False
    with Cons steps_finish_new show ?thesis by (cases ev) simp_all
  qed
qed

lemma steps_streamAssistantResponse:
  assumes "well_started env"
  shows "ag.steps all (InTurn {#} ms) (streamAssistantResponse env cfg ctx)
    (\<lambda>q os (m, ctx'). q = InTurn {#} (ms @ [assistant_of m]) \<and> os = [assistant_of m] \<and>
       ctx' = ctx\<lparr>ctx_messages := ctx_messages ctx @ [assistant_of m]\<rparr>)"
proof -
  have r: "ag.steps all (InTurn {#} ms) (response_loop env (resp_result r) (resp_events r) False ctx)
    (\<lambda>q os (m, ctx'). q = InTurn {#} (ms @ [assistant_of m]) \<and> os = [assistant_of m] \<and>
       ctx' = ctx\<lparr>ctx_messages := ctx_messages ctx @ [assistant_of m]\<rparr>)"
    if "fst (env_streamFn env req w) = Inr r" for req w r
    using assms that by (auto simp: well_started_def intro!: ag.steps_mono [OF steps_response_new])
  have opt: "ag.steps all p (case f of None \<Rightarrow> retA d | Some f \<Rightarrow> hook (f x))
      (\<lambda>q os a. q = p \<and> os = [])" for p f x and d :: 'e
    by (auto intro!: ag.steps_retA ag.steps_hook split: option.split)
  show ?thesis
    unfolding streamAssistantResponse_def
    apply (rule ag.steps_bindA, rule ag.steps_mono [OF opt], clarsimp)
    apply (rule ag.steps_bindA, rule ag.steps_hook)
    apply (rule ag.steps_bindA, rule ag.steps_mono [OF opt], clarsimp)
    apply (rule ag.steps_bindA, rule ag.steps_hook)
    apply (simp, rule r, assumption)
    done
qed

section \<open>Turns\<close>

text \<open>Where the monitor stands before an iteration of the inner loop.\<close>

definition at_round :: "'w loop_vars \<Rightarrow> phase \<Rightarrow> bool" where
  "at_round v p \<longleftrightarrow> (case v_lastTurn v of
     None \<Rightarrow> (\<exists>ms. p = InTurn {#} ms) \<and> v_hasMore v | Some turn \<Rightarrow> p = Between)"

lemma steps_poll: "ag.steps all p (poll f) (\<lambda>q os _. q = p \<and> os = [])"
  unfolding poll_def by (auto intro!: ag.steps_retA ag.steps_hook split: option.split)

lemma steps_begin_turn:
  assumes "at_round v p"
  shows "ag.steps all p (begin_turn env v)
    (\<lambda>q os v'. (\<exists>ms. q = InTurn {#} ms) \<and> os = [] \<and> v_newMessages v' = v_newMessages v)"
proof (cases "v_lastTurn v")
  case None
  then show ?thesis
    using assms by (auto simp: begin_turn_def at_round_def intro!: ag.steps_retA)
next
  case (Some turn)
  then have p: "p = Between" using assms by (simp add: at_round_def)
  have opt: "ag.steps all Between (case cfg_prepareNextTurn cfg of None \<Rightarrow> retA None | Some f \<Rightarrow> hook (f turn))
      (\<lambda>q os _. q = Between \<and> os = [])" for cfg :: "'a loop_config"
    by (auto intro!: ag.steps_retA ag.steps_hook split: option.split)
  have n: "v_newMessages (case s of None \<Rightarrow> v | Some u \<Rightarrow> apply_turn_update u v) = v_newMessages v" for s
    by (simp add: apply_turn_update_def split: option.split)
  show ?thesis
    unfolding begin_turn_def Some option.case p Let_def
    apply (rule ag.steps_bindA, rule ag.steps_mono [OF opt], clarsimp)
    using n by (auto intro!: steps_intros ag.steps_mono [OF steps_poll])
qed

lemma steps_inject_pending:
  "ag.steps all (InTurn {#} ms) (inject_pending env v)
    (\<lambda>q os v'. (\<exists>ms. q = InTurn {#} ms) \<and> v_newMessages v' = v_newMessages v @ os)"
  unfolding inject_pending_def
  by (auto intro!: ag.steps_bindA ag.steps_retA ag.steps_mono [OF steps_emitMessages])

lemma steps_answer_tool_calls:
  assumes "all \<Longrightarrow> never_aborted env"
    and "am_stopReason m \<noteq> Error" "am_stopReason m \<noteq> Aborted"
  shows "ag.steps all (InTurn {#} ms) (answer_tool_calls env m v)
    (\<lambda>q os (rs, v'). os = map result_message rs \<and> q = InTurn {#} (ms @ os) \<and>
       v_newMessages v' = v_newMessages v @ os \<and> turn_ok all m rs)"
proof (cases "tool_calls m = []")
  case True
  then show ?thesis
    using assms by (auto simp: answer_tool_calls_def turn_ok_def intro!: ag.steps_retA)
next
  case False
  have fail: "ag.steps all (InTurn {#} ms) (failToolCallsFromTruncatedMessage env (tool_calls m))
    (\<lambda>q os b. os = map result_message (batch_messages b) \<and> q = InTurn {#} (ms @ os) \<and>
       answered True (tool_calls m) (batch_messages b) \<and> list_all tr_isError (batch_messages b))"
    unfolding failToolCallsFromTruncatedMessage_def
    by (auto intro!: ag.steps_bindA ag.steps_retA answered_full ag.steps_mono [OF steps_failToolCalls])
  show ?thesis
    using False assms
    by (auto simp: answer_tool_calls_def turn_ok_def Let_def
        intro!: ag.steps_bindA ag.steps_retA ag.steps_mono [OF fail]
          ag.steps_mono [OF steps_executeToolCalls [OF assms(1)]])
qed

text \<open>The transcript of the turn ends with the message and the results that close it.\<close>

definition turn_recorded :: "bool \<Rightarrow> assistant_message \<Rightarrow> tool_result_message list \<Rightarrow> phase \<Rightarrow> bool" where
  "turn_recorded all m rs q \<longleftrightarrow>
     (\<exists>ms. q = InTurn {#} (ms @ turn_transcript m rs)) \<and> turn_ok all m rs"

definition turn_outcome :: "agent_message list \<Rightarrow> phase \<Rightarrow> agent_message list \<Rightarrow> bool \<times> 'w loop_vars \<Rightarrow> bool" where
  "turn_outcome new q os r \<longleftrightarrow> (case r of (returned, v') \<Rightarrow>
     v_newMessages v' = new @ os \<and>
     (if returned then q = Ended (v_newMessages v') else q = Between \<and> v_lastTurn v' \<noteq> None))"

lemma steps_turn_end:
  "turn_recorded all m rs p \<Longrightarrow> ag.steps all p (send env (TurnEnd m rs)) (\<lambda>q os _. q = Between \<and> os = [])"
  by (auto simp: turn_recorded_def intro!: steps_send)

lemma steps_close_turn:
  assumes "turn_recorded all m rs p"
  shows "ag.steps all p (close_turn env m rs v) (turn_outcome (v_newMessages v))"
proof -
  have opt: "ag.steps all q (case f of None \<Rightarrow> retA False | Some f \<Rightarrow> hook (f turn)) (\<lambda>q' os _. q' = q \<and> os = [])"
    for q turn and f :: "('a turn_context \<Rightarrow> ('a, bool) act) option"
    by (auto intro!: ag.steps_retA ag.steps_hook split: option.split)
  show ?thesis
    unfolding close_turn_def
    by (auto simp: Let_def turn_outcome_def intro!: steps_intros ag.steps_mono [OF steps_turn_end [OF assms]]
        ag.steps_mono [OF opt] ag.steps_mono [OF steps_poll])
qed

lemma steps_fail_turn:
  assumes "turn_recorded all m [] p"
  shows "ag.steps all p (fail_turn env m v) (turn_outcome (v_newMessages v))"
  unfolding fail_turn_def
  by (auto simp: turn_outcome_def intro!: steps_intros ag.steps_mono [OF steps_turn_end [OF assms]])

lemma turn_outcome_shift:
  "turn_outcome (new @ os) q os' r \<Longrightarrow> turn_outcome new q (os @ os') r"
  by (auto simp: turn_outcome_def)

lemma steps_answered_turn:
  assumes "all \<Longrightarrow> never_aborted env" "am_stopReason m \<noteq> Error" "am_stopReason m \<noteq> Aborted"
  shows "ag.steps all (InTurn {#} (ms @ [assistant_of m]))
    (bindA (answer_tool_calls env m v) (\<lambda>(rs, v'). close_turn env m rs v')) (turn_outcome (v_newMessages v))"
proof (rule ag.steps_bindA, rule ag.steps_mono [OF steps_answer_tool_calls [OF assms]], assumption)
  fix q os and r :: "tool_result_message list \<times> 'a loop_vars"
  obtain rs v' where r: "r = (rs, v')" by (cases r)
  assume "case r of (rs, v') \<Rightarrow> os = map result_message rs \<and> q = InTurn {#} ((ms @ [assistant_of m]) @ os) \<and>
    v_newMessages v' = v_newMessages v @ os \<and> turn_ok all m rs"
  then have h: "turn_recorded all m rs q" "v_newMessages v' = v_newMessages v @ os"
    using r by (auto simp: turn_recorded_def turn_transcript_def)
  then show "ag.steps all q (case r of (rs, v') \<Rightarrow> close_turn env m rs v')
      (\<lambda>q' os'. turn_outcome (v_newMessages v) q' (os @ os'))"
    using r ag.steps_mono [OF steps_close_turn [OF h(1)]] turn_outcome_shift by (metis (no_types, lifting) case_prod_conv)
qed

lemma steps_loop_turn:
  assumes "well_started env" "all \<Longrightarrow> never_aborted env" "at_round v p"
  shows "ag.steps all p (loop_turn env v) (turn_outcome (v_newMessages v))"
proof -
  have last: "ag.steps all (InTurn {#} (ms @ [assistant_of m]))
      (if am_stopReason m = Error \<or> am_stopReason m = Aborted then fail_turn env m v'
       else bindA (answer_tool_calls env m v') (\<lambda>(rs, v'). close_turn env m rs v'))
      (turn_outcome (v_newMessages v'))" for ms m and v' :: "'a loop_vars"
    using steps_answered_turn [OF assms(2), where m = m and v = v' and ms = ms]
      steps_fail_turn [where m = m and v = v' and p = "InTurn {#} (ms @ [assistant_of m])"]
    by (auto simp: turn_recorded_def turn_transcript_def turn_ok_def)
  have step: "ag.steps all q
      (let v3 = v2\<lparr>v_context := ctx, v_newMessages := new @ [Llm (Assistant m)]\<rparr> in
       if am_stopReason m = Error \<or> am_stopReason m = Aborted then fail_turn env m v3
       else bindA (answer_tool_calls env m v3) (\<lambda>(rs, v4). close_turn env m rs v4))
      (\<lambda>q' os'. turn_outcome (v_newMessages v) q' (os @ os'))"
    if "q = InTurn {#} (ms @ [assistant_of m])" "new @ [assistant_of m] = v_newMessages v @ os"
    for q ms m v2 ctx os new
    unfolding Let_def that(1)
    by (rule ag.steps_mono [OF last]) (use that(2) in \<open>simp add: turn_outcome_shift\<close>)
  show ?thesis
    unfolding loop_turn_def
    apply (rule ag.steps_bindA, rule ag.steps_mono [OF steps_begin_turn [OF assms(3)]])
    apply (elim exE conjE, hypsubst)
    apply (rule ag.steps_bindA, rule ag.steps_mono [OF steps_inject_pending])
    apply (elim exE conjE, hypsubst)
    apply (rule ag.steps_bindA, rule ag.steps_mono [OF steps_streamAssistantResponse [OF assms(1)]])
    apply (simp only: append_Nil append_assoc [symmetric] split: prod.splits)
    apply (intro allI impI, simp only: prod.inject, elim conjE, hypsubst)
    apply (rule step)
     apply (rule refl)
    apply simp
    done
qed

lemma steps_loop_rounds:
  assumes "well_started env" "all \<Longrightarrow> never_aborted env"
  shows "at_round v p \<Longrightarrow> ag.steps all p (loop_rounds fuel env v)
    (\<lambda>q os v'. case v' of None \<Rightarrow> True
       | Some v' \<Rightarrow> v_newMessages v' = v_newMessages v @ os \<and> q = Ended (v_newMessages v'))"
proof (induction fuel arbitrary: v p)
  case 0
  show ?case by (auto intro: ag.steps_retA)
next
  case (Suc fuel)
  show ?case
  proof (cases "v_hasMore v \<or> length (v_pending v) > 0")
    case True
    have "ag.steps all p (bindA (loop_turn env v) (\<lambda>(returned, v').
          if returned then retA (Some v') else loop_rounds fuel env v'))
      (\<lambda>q os v'. case v' of None \<Rightarrow> True
         | Some v' \<Rightarrow> v_newMessages v' = v_newMessages v @ os \<and> q = Ended (v_newMessages v'))"
      apply (rule ag.steps_bindA, rule ag.steps_mono [OF steps_loop_turn [OF assms Suc.prems]], assumption)
      apply (clarsimp simp: turn_outcome_def, intro conjI impI)
       apply (rule ag.steps_retA, simp)
      apply (rule ag.steps_mono [OF Suc.IH])
       apply (auto simp: at_round_def split: option.splits)
      done
    with True show ?thesis by simp
  next
    case False
    then obtain turn where "v_lastTurn v = Some turn" and p: "p = Between"
      using Suc.prems by (auto simp: at_round_def split: option.splits)
    then have "at_round (v\<lparr>v_pending := ms, v_hasMore := True\<rparr>) Between" for ms
      by (simp add: at_round_def)
    note ih = Suc.IH [OF this]
    have "ag.steps all Between (bindA (poll (cfg_getFollowUpMessages (v_config v))) (\<lambda>followUp.
          if length followUp > 0
          then loop_rounds fuel env (v\<lparr>v_pending := followUp, v_hasMore := True\<rparr>)
          else bindA (send env (AgentEnd (v_newMessages v))) (\<lambda>_. retA (Some v))))
      (\<lambda>q os v'. case v' of None \<Rightarrow> True
         | Some v' \<Rightarrow> v_newMessages v' = v_newMessages v @ os \<and> q = Ended (v_newMessages v'))"
      apply (rule ag.steps_bindA, rule ag.steps_mono [OF steps_poll], clarsimp)
      apply (intro conjI impI)
       apply (rule ag.steps_mono [OF ih])
       apply (auto intro!: steps_intros split: option.splits)
      done
    with False p show ?thesis by simp
  qed
qed

text \<open>A whole run, from the emission of \<open>agent_start\<close>.\<close>

lemma steps_runLoop:
  assumes "well_started env" "all \<Longrightarrow> never_aborted env"
  shows "ag.steps all (InTurn {#} ms) (runLoop fuel env cfg ctx new)
    (\<lambda>q os r. case r of None \<Rightarrow> True | Some out \<Rightarrow> out = new @ os \<and> q = Ended out)"
  unfolding runLoop_def
  apply (rule ag.steps_bindA, rule ag.steps_mono [OF steps_poll], clarsimp)
  apply (rule ag.steps_bindA, rule ag.steps_mono [OF steps_loop_rounds [OF assms]])
    apply assumption
   apply (simp add: at_round_def)
  apply (rule ag.steps_retA)
  apply (auto split: option.splits)
  done

lemma steps_runAgentLoop:
  assumes "well_started env" "all \<Longrightarrow> never_aborted env"
  shows "ag.steps all Idle (runAgentLoop fuel env cfg ctx prompts)
    (\<lambda>q os r. case r of None \<Rightarrow> True | Some out \<Rightarrow> out = os \<and> q = Ended out)"
  unfolding runAgentLoop_def
  apply (rule ag.steps_bindA steps_send | simp)+
  apply (rule ag.steps_mono [OF steps_emitMessages], clarsimp)
  apply (rule ag.steps_mono [OF steps_runLoop [OF assms]], assumption)
  apply (auto split: option.splits)
  done

lemma steps_runAgentLoopContinue:
  assumes "well_started env" "all \<Longrightarrow> never_aborted env"
  shows "ag.steps all Idle (runAgentLoopContinue fuel env cfg ctx)
    (\<lambda>q os r. case r of None \<Rightarrow> True | Some out \<Rightarrow> out = os \<and> q = Ended out)"
proof -
  have "ag.steps all Idle (bindA (send env AgentStart) (\<lambda>_. bindA (send env TurnStart) (\<lambda>_.
      runLoop fuel env cfg ctx []))) (\<lambda>q os r. case r of None \<Rightarrow> True | Some out \<Rightarrow> out = os \<and> q = Ended out)"
    apply (rule ag.steps_bindA steps_send | simp)+
    apply (rule ag.steps_mono [OF steps_runLoop [OF assms]], assumption)
    apply (auto split: option.splits)
    done
  then show ?thesis by (simp add: runAgentLoopContinue_def ag.steps_throwA)
qed

end
