(* ===== verification/AgentLoopEnds.thy ===== *)
theory AgentLoopEnds imports AgentLoop begin

text \<open>
  That the agent loop returns: nothing in the loop bounds the number of turns, so it ends
  when the world runs out of reasons to go on. The reasons are a budget of the world that no
  callback increases, that every response with tool calls uses up some of, and every
  nonempty batch of steering or follow-up messages.
\<close>

section \<open>Callbacks that do not increase the budget\<close>

definition nonincr :: "('w \<Rightarrow> nat) \<Rightarrow> ('w, 'a) act \<Rightarrow> bool" where
  "nonincr \<mu> h \<longleftrightarrow> (\<forall>w. \<mu> (snd (h w)) \<le> \<mu> w)"

definition option_nonincr :: "('w \<Rightarrow> nat) \<Rightarrow> ('x \<Rightarrow> ('w, 'a) act) option \<Rightarrow> bool" where
  "option_nonincr \<mu> f \<longleftrightarrow> (case f of None \<Rightarrow> True | Some h \<Rightarrow> \<forall>x. nonincr \<mu> (h x))"

definition frugal_poll :: "('w \<Rightarrow> nat) \<Rightarrow> ('w, agent_message list) act option \<Rightarrow> bool" where
  "frugal_poll \<mu> f \<longleftrightarrow> (case f of None \<Rightarrow> True | Some h \<Rightarrow>
     nonincr \<mu> h \<and> (\<forall>w ms. fst (h w) = Inr ms \<and> ms \<noteq> [] \<longrightarrow> \<mu> (snd (h w)) < \<mu> w))"

definition frugal_ctx :: "('w \<Rightarrow> nat) \<Rightarrow> 'w agent_context \<Rightarrow> bool" where
  "frugal_ctx \<mu> ctx \<longleftrightarrow> (case ctx_tools ctx of None \<Rightarrow> True | Some tools \<Rightarrow>
     \<forall>t\<in>set tools. \<forall>i a w. \<mu> (snd (tool_execute t i a w)) \<le> \<mu> w)"

definition frugal_env :: "('w \<Rightarrow> nat) \<Rightarrow> 'w loop_env \<Rightarrow> bool" where
  "frugal_env \<mu> env \<longleftrightarrow> (\<forall>e. nonincr \<mu> (env_sink env e)) \<and> (\<forall>t c. nonincr \<mu> (env_validate env t c)) \<and>
     (\<forall>req. nonincr \<mu> (env_streamFn env req)) \<and>
     (\<forall>req w resp. fst (env_streamFn env req w) = Inr resp \<and> tool_calls (resp_result resp) \<noteq> [] \<longrightarrow>
        \<mu> (snd (env_streamFn env req w)) < \<mu> w)"

definition frugal_cfg :: "('w \<Rightarrow> nat) \<Rightarrow> 'w loop_config \<Rightarrow> bool" where
  "frugal_cfg \<mu> cfg \<longleftrightarrow> (\<forall>ms. nonincr \<mu> (cfg_convertToLlm cfg ms)) \<and>
     option_nonincr \<mu> (cfg_transformContext cfg) \<and> option_nonincr \<mu> (cfg_getApiKey cfg) \<and>
     option_nonincr \<mu> (cfg_shouldStopAfterTurn cfg) \<and> option_nonincr \<mu> (cfg_beforeToolCall cfg) \<and>
     option_nonincr \<mu> (cfg_afterToolCall cfg) \<and> option_nonincr \<mu> (cfg_prepareNextTurn cfg) \<and>
     (\<forall>f turn w u c. cfg_prepareNextTurn cfg = Some f \<and> fst (f turn w) = Inr (Some u) \<and>
        upd_context u = Some c \<longrightarrow> frugal_ctx \<mu> c) \<and>
     frugal_poll \<mu> (cfg_getSteeringMessages cfg) \<and> frugal_poll \<mu> (cfg_getFollowUpMessages cfg)"

text \<open>A budget that has been kept below \<open>n\<close>, strictly when \<open>b\<close> holds.\<close>

definition budget_within :: "('w \<Rightarrow> nat) \<Rightarrow> nat \<Rightarrow> bool \<Rightarrow> 'w \<Rightarrow> bool" where
  "budget_within \<mu> n b w \<longleftrightarrow> \<mu> w \<le> n \<and> (b \<longrightarrow> \<mu> w < n)"

lemma nonincr_keeps: "nonincr \<mu> h \<Longrightarrow> keepsW (budget_within \<mu> n b) h"
  unfolding nonincr_def keepsW_def budget_within_def by (meson le_less_trans le_trans)

lemma option_nonincr_Some: "option_nonincr \<mu> (Some h) \<Longrightarrow> nonincr \<mu> (h x)"
  by (simp add: option_nonincr_def)

section \<open>What keeps an invariant of the world\<close>

text \<open>The callbacks of a batch keep \<open>I\<close>.\<close>

definition sink_keeps :: "(('w, agent_event) logged \<Rightarrow> bool) \<Rightarrow> 'w loop_env \<Rightarrow> bool" where
  "sink_keeps I env \<longleftrightarrow> (\<forall>e. keeps I (send env e))"

definition option_keeps ::
  "(('w, agent_event) logged \<Rightarrow> bool) \<Rightarrow> ('x \<Rightarrow> ('w, 'a) act) option \<Rightarrow> bool" where
  "option_keeps I f \<longleftrightarrow> (case f of None \<Rightarrow> True | Some h \<Rightarrow> \<forall>x. keeps I (hook (h x)))"

definition tools_keep :: "(('w, agent_event) logged \<Rightarrow> bool) \<Rightarrow> 'w agent_context \<Rightarrow> bool" where
  "tools_keep I ctx \<longleftrightarrow> (\<forall>tools t i a. ctx_tools ctx = Some tools \<and> t \<in> set tools \<longrightarrow>
     keeps I (hook (\<lambda>w. let (run, w') = tool_execute t i a w in (Inr run, w'))))"

definition batch_keeps ::
  "(('w, agent_event) logged \<Rightarrow> bool) \<Rightarrow> 'w loop_env \<Rightarrow> 'w loop_config \<Rightarrow> 'w agent_context \<Rightarrow> bool" where
  "batch_keeps I env cfg ctx \<longleftrightarrow> sink_keeps I env \<and> (\<forall>t c. keeps I (hook (env_validate env t c))) \<and> option_keeps I (cfg_beforeToolCall cfg) \<and>
     option_keeps I (cfg_afterToolCall cfg) \<and> tools_keep I ctx"

lemma batch_sink: "batch_keeps I env cfg ctx \<Longrightarrow> sink_keeps I env"
  by (simp add: batch_keeps_def)

lemma sink_keeps_world: "(\<And>e. keepsW I (env_sink env e)) \<Longrightarrow> sink_keeps (inworld I) env"
  unfolding sink_keeps_def send_def by (auto intro: keeps_emit)

lemma keeps_send: "sink_keeps I env \<Longrightarrow> keeps I (send env e)"
  by (simp add: sink_keeps_def)

lemma option_keeps_Some: "option_keeps I (Some h) \<Longrightarrow> keeps I (hook (h x))"
  by (simp add: option_keeps_def)

lemma keeps_option_hook:
  "option_keeps I f \<Longrightarrow> keeps I (case f of None \<Rightarrow> retA d | Some h \<Rightarrow> hook (h x))"
  by (auto simp: option_keeps_def intro: keeps_simple split: option.splits)

named_theorems keeps_intros "rules for keeping an invariant of the world"

declare keeps_simple [keeps_intros] keeps_bindA [keeps_intros]
  keeps_catchA [keeps_intros] keeps_mapA [keeps_intros] keeps_forA [keeps_intros]

lemma keeps_sending [keeps_intros]:
  assumes "sink_keeps I env"
  shows "keeps I (send env e)" "keeps I (emitMessage env m)" "keeps I (emitToolResultMessage env r)"
    "keeps I (emitToolExecutionStart env c)" "keeps I (emitToolExecutionEnd env f)"
    "keeps I (report_result env f)" "keeps I (aborted env)" "keeps I (failToolCall env c)"
    "keeps I (finish_response env am b ctx)"
  using assms
  by (auto intro!: keeps_send keeps_bindA keeps_simple simp: emitMessage_def emitToolResultMessage_def
      emitToolExecutionStart_def emitToolExecutionEnd_def report_result_def aborted_def failToolCall_def
      finish_response_def Let_def)

lemma keeps_emit_updates: "sink_keeps I env \<Longrightarrow> keeps I (emit_updates env c us)"
proof (induction us)
  case (Cons u us)
  have a: "keeps I (send env (ToolUpdate (tc_id c) (tc_name c) (tc_arguments c) u))"
    using Cons.prems by (rule keeps_send)
  show ?case
    unfolding keeps_def using Cons
    by (auto split: prod.split dest!: keepsD [OF a] keepsD [OF Cons.IH])
qed (simp add: keeps_simple)

lemma keeps_response_loop: "sink_keeps I env \<Longrightarrow> keeps I (response_loop env m evs b ctx)"
proof (induction evs arbitrary: b ctx)
  case (Cons ev evs)
  then show ?case by (cases ev) (auto intro!: keeps_intros)
qed (simp add: keeps_sending)

lemma keeps_prepareToolCall:
  assumes "batch_keeps I env cfg ctx"
  shows "keeps I (prepareToolCall env cfg ctx m c)"
proof -
  have "keeps I (consult_hook env cfg bc p)" for bc p
    using assms batch_sink [OF assms]
    by (auto simp: consult_hook_def batch_keeps_def option_keeps_def Let_def intro!: keeps_intros
        split: option.splits)
  moreover have "keeps I (hook (env_validate env t c))" for t c
    using assms by (simp add: batch_keeps_def)
  ultimately show ?thesis
    by (auto simp: prepareToolCall_def intro!: keeps_intros split: option.split)
qed

text \<open>The tool of a prepared call is one of the context's.\<close>

definition known :: "'w agent_context \<Rightarrow> 'w preparation \<Rightarrow> bool" where
  "known ctx p \<longleftrightarrow> (case p of Immediate r e \<Rightarrow> True | Prepared p \<Rightarrow>
     (\<exists>tools. ctx_tools ctx = Some tools \<and> prep_tool p \<in> set tools))"

lemma returns_catchA: "returns m P \<Longrightarrow> (\<And>e. returns (h e) P) \<Longrightarrow> returns (catchA m h) P"
  by (auto simp: returns_def catchA_def split: prod.splits sum.splits)

lemma returns_then: "(\<And>a. returns (f a) P) \<Longrightarrow> returns (bindA m f) P"
  by (rule returns_bindA, rule returns_any)

lemma returns_prepareToolCall: "returns (prepareToolCall env cfg ctx m c) (known ctx)"
proof -
  have c: "returns (consult_hook env cfg bc p) (known ctx)" if "known ctx p" for bc p
    using that unfolding consult_hook_def Let_def
    by (auto intro!: returns_then returns_retA
        simp: known_def abortedOutcome_def blockedOutcome_def Let_def split: option.split)
  show ?thesis
    unfolding prepareToolCall_def
    by (auto intro!: returns_catchA returns_then returns_retA c
        simp: known_def find_tool_def find_Some_iff split: option.splits)
qed

lemma keeps_run_prepared:
  assumes "batch_keeps I env cfg ctx" "ctx_tools ctx = Some tools" "prep_tool p \<in> set tools"
  shows "keeps I (start_tool p)" "keeps I (executePreparedToolCall env p)"
    "keeps I (finalizeExecutedToolCall cfg ctx m p x)"
proof -
  show start: "keeps I (start_tool p)"
    using assms by (simp add: start_tool_def batch_keeps_def tools_keep_def)
  show "keeps I (executePreparedToolCall env p)"
    unfolding executePreparedToolCall_def
    by (intro keeps_bindA start keeps_simple keeps_emit_updates batch_sink [OF assms(1)])
  have "keeps I (hook (f y))" if "cfg_afterToolCall cfg = Some f" for f y
    using assms(1) that by (simp add: batch_keeps_def option_keeps_def)
  then show "keeps I (finalizeExecutedToolCall cfg ctx m p x)"
    by (auto simp: finalizeExecutedToolCall_def Let_def intro!: keeps_intros split: option.split)
qed

text \<open>An action that keeps \<open>I\<close> and whose value the rest may rely on.\<close>

lemma keeps_bindA_returns:
  "keeps I m \<Longrightarrow> returns m P \<Longrightarrow> (\<And>a. P a \<Longrightarrow> keeps I (f a)) \<Longrightarrow> keeps I (bindA m f)"
  by (auto simp: keeps_def returns_def bindA_run split: prod.split sum.split) (metis snd_conv)

lemma keeps_sequential_loop:
  assumes "batch_keeps I env cfg ctx"
  shows "keeps I (sequential_loop env cfg ctx m calls)"
proof (induction calls)
  case Nil
  show ?case by (simp add: keeps_simple)
next
  case (Cons c calls)
  have out: "keeps I (case p of Immediate r e \<Rightarrow> retA (immediate_finalized c r e)
      | Prepared p \<Rightarrow> run_prepared env cfg ctx m p)" if "known ctx p" for p
    using that keeps_run_prepared [OF assms]
    by (auto simp: known_def run_prepared_def intro!: keeps_intros split: preparation.splits)
  show ?case
    using batch_sink [OF assms] keeps_prepareToolCall [OF assms] Cons
    by (auto intro!: keeps_intros keeps_bindA_returns [OF _ returns_prepareToolCall] out)
qed

text \<open>The slots of the parallel mode hold tools of the context.\<close>

definition slot_known :: "'w agent_context \<Rightarrow> 'w slot \<Rightarrow> bool" where
  "slot_known ctx slot \<longleftrightarrow> (case slot of
     Deferred_call p \<Rightarrow> known ctx (Prepared p)
   | Running_call p run us failed \<Rightarrow> known ctx (Prepared p)
   | Executed_call p x \<Rightarrow> known ctx (Prepared p)
   | _ \<Rightarrow> True)"

lemma keeps_slot_step:
  assumes "batch_keeps I env cfg ctx" "slot_known ctx slot"
  shows "keeps I (slot_step env cfg ctx m slot)"
proof (cases "(env, cfg, ctx, m, slot)" rule: slot_step.cases)
  case (2 e' c' x' m' p run u us failed)
  have "keeps I (send e' (ToolUpdate (tc_id c) (tc_name c) (tc_arguments c) u))" for c
    using keeps_send [OF batch_sink [OF assms(1)]] 2 by simp
  from keepsD [OF this] 2 show ?thesis by (auto simp: keeps_def Let_def split: prod.split)
qed (use assms(2) batch_sink [OF assms(1)] keeps_run_prepared [OF assms(1)] in
  \<open>auto simp: slot_known_def known_def intro!: keeps_intros split: option.split\<close>)

lemma returns_slot_step: "slot_known ctx slot \<Longrightarrow> returns (slot_step env cfg ctx m slot) (slot_known ctx)"
  by (cases "(env, cfg, ctx, m, slot)" rule: slot_step.cases)
    (auto simp: slot_known_def returns_def act_simps Let_def bindA_Inr split: prod.splits option.splits if_splits)

lemma keeps_preflight_loop:
  assumes "batch_keeps I env cfg ctx"
  shows "keeps I (preflight_loop env cfg ctx m calls)"
proof (induction calls)
  case (Cons c calls)
  then show ?case
    using batch_sink [OF assms] keeps_prepareToolCall [OF assms]
    by (auto simp: Let_def intro!: keeps_intros split: preparation.split)
qed (simp add: keeps_simple)

lemma returns_preflight_loop:
  "returns (preflight_loop env cfg ctx m calls) (\<lambda>slots. \<forall>s\<in>set slots. slot_known ctx s)"
proof (induction calls)
  case (Cons c calls)
  have slot: "returns (case p of Immediate r e \<Rightarrow> let f = immediate_finalized c r e
        in bindA (emitToolExecutionEnd env f) (\<lambda>_. retA (Settled f))
      | Prepared p \<Rightarrow> retA (Deferred_call p)) (slot_known ctx)" if "known ctx p" for p :: "'a preparation"
    using that by (auto simp: slot_known_def Let_def intro!: returns_then returns_retA split: preparation.splits)
  show ?case
    apply simp
    apply (rule returns_then)
    apply (rule returns_bindA, rule returns_mono [OF returns_prepareToolCall])
    apply (rule returns_bindA, rule returns_mono [OF slot], assumption)
    apply (rule returns_then)
    apply (auto intro!: returns_retA returns_bindA returns_mono [OF Cons])
    done
qed (simp add: returns_retA)

lemma slots_known_update:
  "\<forall>s\<in>set slots. slot_known ctx s \<Longrightarrow> slot_known ctx y \<Longrightarrow> \<forall>s\<in>set (slots[i := y]). slot_known ctx s"
  using set_update_subset_insert [of slots i y] by auto

lemma rejected_known [simp]: "slot_known ctx (Rejected_call c)"
  by (simp add: slot_known_def)

lemma scheduled_loop_kept:
  assumes "batch_keeps I env cfg ctx"
  shows "\<forall>s\<in>set slots. slot_known ctx s \<Longrightarrow> I s \<Longrightarrow>
    scheduled_loop env cfg ctx m sched slots s = (r, t) \<Longrightarrow>
    I t \<and> (case r of Inl e \<Rightarrow> True | Inr slots \<Rightarrow> \<forall>s\<in>set slots. slot_known ctx s)"
proof (induction sched arbitrary: slots s r t)
  case (Cons i sched)
  show ?case
  proof (cases "i < length slots")
    case True
    then have k: "slot_known ctx (slots ! i)" using Cons.prems(1) by simp
    obtain r1 s1 where 1: "slot_step env cfg ctx m (slots ! i) s = (r1, s1)" by fastforce
    have s1: "I s1" using keepsD [OF keeps_slot_step [OF assms k] 1 Cons.prems(2)] .
    show ?thesis
    proof (cases r1)
      case (Inl e)
      let ?slots = "slots[i := Rejected_call (slot_call (slots ! i))]"
      obtain r2 t2 where 2: "scheduled_loop env cfg ctx m sched ?slots s1 = (r2, t2)" by fastforce
      with Cons.prems(3) True 1 Inl have "t = t2" "r = Inl e" by auto
      with Cons.IH [OF slots_known_update [OF Cons.prems(1) rejected_known] s1 2] show ?thesis by simp
    next
      case (Inr y)
      have "slot_known ctx y" using returns_slot_step [OF k, of env cfg m] 1 Inr by (auto simp: returns_def)
      from Cons.IH [OF slots_known_update [OF Cons.prems(1) this] s1] Cons.prems(3) True 1 Inr
      show ?thesis by simp
    qed
  next
    case False
    with Cons show ?thesis by simp
  qed
qed (auto simp: act_simps)

lemma keeps_scheduled_loop:
  assumes "batch_keeps I env cfg ctx" "\<forall>s\<in>set slots. slot_known ctx s"
  shows "keeps I (scheduled_loop env cfg ctx m sched slots)"
  unfolding keeps_def using scheduled_loop_kept [OF assms] by (metis prod.collapse)

lemma returns_scheduled_loop:
  assumes "\<forall>s\<in>set slots. slot_known ctx s"
  shows "returns (scheduled_loop env cfg ctx m sched slots) (\<lambda>slots'. \<forall>s\<in>set slots'. slot_known ctx s)"
proof -
  have "batch_keeps (\<lambda>_. True) env cfg ctx"
    by (simp add: batch_keeps_def sink_keeps_def option_keeps_def tools_keep_def keeps_def split: option.split)
  from scheduled_loop_kept [OF this assms] show ?thesis by (force simp: returns_def)
qed

lemma keeps_settle_steps:
  assumes "batch_keeps I env cfg ctx"
  shows "slot_known ctx slot \<Longrightarrow> keeps I (settle_steps n env cfg ctx m slot)"
proof (induction n arbitrary: slot)
  case (Suc n)
  then show ?case
    by (auto intro!: keeps_bindA_returns [OF keeps_slot_step [OF assms] returns_slot_step])
qed (simp add: keeps_simple)

lemma keeps_settle_slot:
  assumes "batch_keeps I env cfg ctx" "slot_known ctx slot"
  shows "keeps I (settle_slot env cfg ctx m slot)"
  unfolding settle_slot_def
  by (rule keeps_bindA_returns [OF keeps_slot_step [OF assms] returns_slot_step [OF assms(2)]])
    (auto intro!: keeps_bindA keeps_settle_steps [OF assms(1)] keeps_simple split: slot.split)

lemma keeps_executeToolCalls:
  assumes "batch_keeps I env cfg ctx"
  shows "keeps I (executeToolCalls env cfg ctx m)"
proof -
  note s = batch_sink [OF assms]
  have "keeps I (executeToolCallsSequential env cfg ctx m calls)" for calls
    unfolding executeToolCallsSequential_def
    by (intro keeps_intros keeps_sequential_loop assms)
  moreover have "keeps I (executeToolCallsParallel env cfg ctx m calls)" for calls
    unfolding executeToolCallsParallel_def
    apply (rule keeps_bindA_returns [OF keeps_preflight_loop [OF assms] returns_preflight_loop])
    apply (rule keeps_bindA, rule keeps_simple)
    apply (rule keeps_bindA_returns [OF keeps_scheduled_loop [OF assms] returns_scheduled_loop], assumption+)
    using s by (auto intro!: keeps_intros keeps_settle_slot [OF assms])
  ultimately show ?thesis unfolding executeToolCalls_def Let_def by simp
qed

section \<open>A turn uses up the budget\<close>

text \<open>From any world within the budget the action ends, if it returns, with \<open>Q\<close>.\<close>

definition ensures :: "('w \<Rightarrow> bool) \<Rightarrow> ('w, 'ev, 'a) lact \<Rightarrow> ('a \<Rightarrow> 'w \<Rightarrow> bool) \<Rightarrow> bool" where
  "ensures I m Q \<longleftrightarrow> (\<forall>s a t. I (world s) \<and> m s = (Inr a, t) \<longrightarrow> Q a (world t))"

lemma ensures_bindA:
  "ensures I m R \<Longrightarrow> (\<And>a. ensures (R a) (f a) Q) \<Longrightarrow> ensures I (bindA m f) Q"
  unfolding ensures_def bindA_Inr by blast

lemma ensures_retA: "(\<And>w. I w \<Longrightarrow> Q a w) \<Longrightarrow> ensures I (retA a) Q"
  by (simp add: ensures_def act_simps)

lemma ensures_keeps: "keeps (inworld I) m \<Longrightarrow> returns m P \<Longrightarrow> ensures I m (\<lambda>a w. I w \<and> P a)"
  unfolding ensures_def returns_def by (metis keepsD_world)

lemma ensures_kept: "keeps (inworld I) m \<Longrightarrow> ensures I m (\<lambda>_. I)"
  unfolding ensures_def by (metis keepsD_world)

lemma ensures_mono: "ensures I m R \<Longrightarrow> (\<And>w. J w \<Longrightarrow> I w) \<Longrightarrow> (\<And>a w. R a w \<Longrightarrow> Q a w) \<Longrightarrow> ensures J m Q"
  unfolding ensures_def by blast

lemma ensures_assume: "(P \<Longrightarrow> ensures I m Q) \<Longrightarrow> ensures (\<lambda>w. I w \<and> P) m Q"
  unfolding ensures_def by blast

lemma ensures_hook:
  "(\<And>w a. I w \<Longrightarrow> fst (h w) = Inr a \<Longrightarrow> Q a (snd (h w))) \<Longrightarrow> ensures I (hook h) Q"
  by (auto simp: ensures_def hook_def Let_def split: prod.splits) (metis fst_conv snd_conv)

definition frugal :: "('w \<Rightarrow> nat) \<Rightarrow> 'w loop_vars \<Rightarrow> bool" where
  "frugal \<mu> v \<longleftrightarrow> frugal_cfg \<mu> (v_config v) \<and> frugal_ctx \<mu> (v_context v)"

lemma option_nonincr_keeps:
  "option_nonincr \<mu> f \<Longrightarrow> option_keeps (inworld (budget_within \<mu> n b)) f"
  by (auto simp: option_nonincr_def option_keeps_def intro: keeps_hook nonincr_keeps split: option.splits)

lemma frugal_sink: "frugal_env \<mu> env \<Longrightarrow> sink_keeps (inworld (budget_within \<mu> n b)) env"
  by (auto simp: frugal_env_def intro: sink_keeps_world nonincr_keeps)

lemma frugal_batch:
  assumes "frugal_env \<mu> env" "frugal_cfg \<mu> cfg" "frugal_ctx \<mu> ctx"
  shows "batch_keeps (inworld (budget_within \<mu> n b)) env cfg ctx"
proof -
  have "keeps (inworld (budget_within \<mu> n b)) (hook (\<lambda>w. let (run, w') = tool_execute t i a w in (Inr run, w')))"
    if "ctx_tools ctx = Some tools" "t \<in> set tools" for tools t i a
    using assms(3) that
    by (intro keeps_hook nonincr_keeps) (auto simp: frugal_ctx_def nonincr_def split_beta)
  then have "tools_keep (inworld (budget_within \<mu> n b)) ctx" unfolding tools_keep_def by blast
  moreover have "keeps (inworld (budget_within \<mu> n b)) (hook (env_validate env t c) :: ('a, json) loop_act)" for t c
    using assms(1) by (intro keeps_hook nonincr_keeps) (simp add: frugal_env_def)
  ultimately show ?thesis
    using assms by (simp add: batch_keeps_def frugal_sink frugal_cfg_def option_nonincr_keeps)
qed

lemma keeps_optional:
  "option_nonincr \<mu> f \<Longrightarrow>
   keeps (inworld (budget_within \<mu> n b)) (case f of None \<Rightarrow> retA d | Some h \<Rightarrow> hook (h x))"
  by (auto simp: option_nonincr_def intro!: keeps_simple keeps_hook nonincr_keeps split: option.splits)

lemma budget_step:
  "budget_within \<mu> n b w \<Longrightarrow> \<mu> w' \<le> \<mu> w \<Longrightarrow> (c \<Longrightarrow> \<mu> w' < \<mu> w) \<Longrightarrow> budget_within \<mu> n (b \<or> c) w'"
  by (auto simp: budget_within_def)

lemma ensures_poll:
  assumes "frugal_poll \<mu> f"
  shows "ensures (budget_within \<mu> n b) (poll f) (\<lambda>ms w. budget_within \<mu> n (b \<or> ms \<noteq> []) w)"
proof (cases f)
  case None
  then show ?thesis by (auto simp: poll_def intro!: ensures_retA)
next
  case (Some h)
  have "budget_within \<mu> n (b \<or> ms \<noteq> []) (snd (h w))"
    if "budget_within \<mu> n b w" "fst (h w) = Inr ms" for w ms
    using assms Some that(2)
    by (intro budget_step [OF that(1)]) (auto simp: frugal_poll_def nonincr_def)
  with Some show ?thesis by (auto simp: poll_def intro!: ensures_hook)
qed

lemma keeps_poll: "frugal_poll \<mu> f \<Longrightarrow> keeps (inworld (budget_within \<mu> n b)) (poll f)"
  unfolding poll_def frugal_poll_def
  by (auto intro: keeps_simple keeps_hook nonincr_keeps split: option.splits)

lemma ensures_begin_turn:
  assumes "frugal_env \<mu> env" "frugal \<mu> v"
  shows "ensures (budget_within \<mu> n False) (begin_turn env v)
    (\<lambda>v' w. budget_within \<mu> n False w \<and> frugal \<mu> v')"
proof (cases "v_lastTurn v")
  case None
  with assms show ?thesis by (auto simp: begin_turn_def intro: ensures_retA)
next
  case (Some turn)
  let ?upd = "\<lambda>u. case u of None \<Rightarrow> v | Some u \<Rightarrow> apply_turn_update u v"
  have prep: "ensures (budget_within \<mu> n False)
      (case cfg_prepareNextTurn (v_config v) of None \<Rightarrow> retA None | Some f \<Rightarrow> hook (f turn))
      (\<lambda>u w. budget_within \<mu> n False w \<and> frugal \<mu> (?upd u))"
  proof (cases "cfg_prepareNextTurn (v_config v)")
    case None
    with assms show ?thesis by (auto intro: ensures_retA)
  next
    case (Some f)
    with assms(2) have f: "nonincr \<mu> (f turn)" "\<And>w u c. fst (f turn w) = Inr (Some u) \<Longrightarrow>
        upd_context u = Some c \<Longrightarrow> frugal_ctx \<mu> c"
      by (auto simp: frugal_def frugal_cfg_def option_nonincr_def)
    have "frugal \<mu> (?upd u)" if "fst (f turn w) = Inr u" for w u
      using assms(2) f(2) that
      by (auto simp: frugal_def frugal_cfg_def apply_turn_update_def split: option.splits)
    with Some f(1) nonincr_keeps [OF f(1), of n False] show ?thesis
      by (auto simp: keepsW_def intro!: ensures_hook)
  qed
  have "ensures (budget_within \<mu> n False)
      (if length (v_pending v1) = 0 then poll (cfg_getSteeringMessages (v_config v1)) else retA (v_pending v1))
      (\<lambda>_ w. budget_within \<mu> n False w)" if "frugal \<mu> v1" for v1 :: "'a loop_vars"
    using that by (auto simp: frugal_def frugal_cfg_def intro!: ensures_kept keeps_simple keeps_poll)
  then have rest: "ensures (\<lambda>w. budget_within \<mu> n False w \<and> frugal \<mu> v1)
      (bindA (if length (v_pending v1) = 0 then poll (cfg_getSteeringMessages (v_config v1))
         else retA (v_pending v1)) (\<lambda>pending.
       bindA (send env TurnStart) (\<lambda>_. retA (v1\<lparr>v_pending := pending\<rparr>))))
      (\<lambda>v' w. budget_within \<mu> n False w \<and> frugal \<mu> v')" for v1
    by (intro ensures_assume ensures_bindA [where R = "\<lambda>_. budget_within \<mu> n False"] ensures_retA)
      (auto simp: frugal_def intro: ensures_kept keeps_send [OF frugal_sink [OF assms(1)]])
  show ?thesis
    unfolding begin_turn_def Some option.case Let_def
    by (rule ensures_bindA [OF prep rest])
qed

lemma keeps_inject_pending: "sink_keeps I env \<Longrightarrow> keeps I (inject_pending env v)"
  unfolding inject_pending_def by (intro keeps_intros)

lemma returns_inject_pending: "frugal \<mu> v \<Longrightarrow> returns (inject_pending env v) (frugal \<mu>)"
  unfolding inject_pending_def
  by (auto intro!: returns_then returns_retA simp: frugal_def frugal_ctx_def)

lemma returns_response_loop:
  "returns (response_loop env m evs b ctx) (\<lambda>(m', ctx'). m' = m \<and> ctx_tools ctx' = ctx_tools ctx)"
proof (induction evs arbitrary: b ctx)
  case Nil
  show ?case
    by (auto simp: finish_response_def Let_def intro!: returns_then returns_retA)
next
  case (Cons ev evs)
  have fin: "returns (finish_response env m b ctx) (\<lambda>(m', ctx'). m' = m \<and> ctx_tools ctx' = ctx_tools ctx)"
    by (auto simp: finish_response_def Let_def intro!: returns_then returns_retA)
  show ?case
    using fin Cons by (cases ev) (auto intro!: returns_then returns_mono [OF Cons])
qed

lemma ensures_stream:
  assumes "frugal_env \<mu> env" "frugal_cfg \<mu> cfg"
  shows "ensures (budget_within \<mu> n False) (streamAssistantResponse env cfg ctx)
    (\<lambda>(m, ctx') w. budget_within \<mu> n (tool_calls m \<noteq> []) w \<and> ctx_tools ctx' = ctx_tools ctx)"
proof -
  let ?B = "budget_within \<mu> n False"
  have opt: "ensures ?B (case f of None \<Rightarrow> retA d | Some h \<Rightarrow> hook (h x)) (\<lambda>_. ?B)"
    if "option_nonincr \<mu> f" for f d x
    by (rule ensures_kept) (rule keeps_optional [OF that])
  have conv: "ensures ?B (hook (cfg_convertToLlm cfg ms)) (\<lambda>_. ?B)" for ms
    using assms(2) nonincr_keeps [of \<mu> "cfg_convertToLlm cfg ms" n False]
    by (auto simp: frugal_cfg_def keepsW_def intro!: ensures_hook)
  have str: "ensures ?B (hook (env_streamFn env req))
      (\<lambda>r w. budget_within \<mu> n (tool_calls (resp_result r) \<noteq> []) w)" for req
  proof (rule ensures_hook)
    fix w r assume w: "budget_within \<mu> n False w" and r: "fst (env_streamFn env req w) = Inr r"
    have "budget_within \<mu> n (False \<or> tool_calls (resp_result r) \<noteq> []) (snd (env_streamFn env req w))"
      using assms(1) r by (intro budget_step [OF w]) (auto simp: frugal_env_def nonincr_def)
    then show "budget_within \<mu> n (tool_calls (resp_result r) \<noteq> []) (snd (env_streamFn env req w))" by simp
  qed
  have loop: "ensures (budget_within \<mu> n (tool_calls (resp_result r) \<noteq> []))
      (response_loop env (resp_result r) (resp_events r) False ctx)
      (\<lambda>(m, ctx') w. budget_within \<mu> n (tool_calls m \<noteq> []) w \<and> ctx_tools ctx' = ctx_tools ctx)" for r
    using ensures_keeps [OF keeps_response_loop [OF frugal_sink [OF assms(1)]] returns_response_loop]
    by (rule ensures_mono) auto
  show ?thesis
    unfolding streamAssistantResponse_def
    apply (rule ensures_bindA [OF opt])
    using assms(2) apply (simp add: frugal_cfg_def)
    apply (rule ensures_bindA [OF conv])
    apply (rule ensures_bindA [OF opt])
    using assms(2) apply (simp add: frugal_cfg_def)
    apply (rule ensures_bindA [OF str])
    apply (rule loop)
    done
qed

lemma ensures_answer:
  assumes "frugal_env \<mu> env" "frugal \<mu> v"
  shows "ensures (budget_within \<mu> n (tool_calls m \<noteq> [])) (answer_tool_calls env m v)
    (\<lambda>(rs, v') w. budget_within \<mu> n (v_hasMore v') w \<and> frugal \<mu> v')"
proof (cases "tool_calls m = []")
  case True
  with assms(2) show ?thesis
    by (auto simp: answer_tool_calls_def frugal_def intro!: ensures_retA)
next
  case False
  let ?batch = "if am_stopReason m = Length then failToolCallsFromTruncatedMessage env (tool_calls m)
    else executeToolCalls env (v_config v) (v_context v) m"
  have "keeps (inworld (budget_within \<mu> n True)) ?batch"
    using keeps_executeToolCalls [OF frugal_batch, of \<mu> env] assms frugal_sink [OF assms(1)]
    by (auto simp: failToolCallsFromTruncatedMessage_def frugal_def intro!: keeps_intros)
  from ensures_kept [OF this] have "ensures (budget_within \<mu> n True)
      (bindA ?batch (\<lambda>b. let results = map (\<lambda>r. Llm (ToolResult r)) (batch_messages b) in
          retA (batch_messages b,
            v\<lparr>v_hasMore := \<not> batch_terminate b,
              v_context := (v_context v)\<lparr>ctx_messages := ctx_messages (v_context v) @ results\<rparr>,
              v_newMessages := v_newMessages v @ results\<rparr>)))
      (\<lambda>(rs, v') w. budget_within \<mu> n (v_hasMore v') w \<and> frugal \<mu> v')"
    by (rule ensures_bindA) (use assms(2) in \<open>auto simp: Let_def frugal_def frugal_ctx_def budget_within_def intro!: ensures_retA\<close>)
  with False show ?thesis by (simp add: answer_tool_calls_def)
qed

definition active :: "'w loop_vars \<Rightarrow> bool" where
  "active v \<longleftrightarrow> v_hasMore v \<or> v_pending v \<noteq> []"

definition turn_spends :: "('w \<Rightarrow> nat) \<Rightarrow> nat \<Rightarrow> bool \<times> 'w loop_vars \<Rightarrow> 'w \<Rightarrow> bool" where
  "turn_spends \<mu> n r w \<longleftrightarrow> (case r of (returned, v') \<Rightarrow>
     returned \<or> budget_within \<mu> n (active v') w \<and> frugal \<mu> v')"

lemma ensures_send: "frugal_env \<mu> env \<Longrightarrow>
    ensures (budget_within \<mu> n b) (send env e) (\<lambda>_. budget_within \<mu> n b)"
  by (intro ensures_kept keeps_send frugal_sink)

lemma ensures_close_turn:
  assumes "frugal_env \<mu> env"
  shows "ensures (\<lambda>w. budget_within \<mu> n (v_hasMore v) w \<and> frugal \<mu> v) (close_turn env m rs v) (turn_spends \<mu> n)"
proof (rule ensures_assume)
  assume v: "frugal \<mu> v"
  let ?B = "budget_within \<mu> n (v_hasMore v)"
  have stop: "ensures ?B (case cfg_shouldStopAfterTurn (v_config u) of None \<Rightarrow> retA False | Some f \<Rightarrow> hook (f turn))
      (\<lambda>_. ?B)" if "frugal \<mu> u" for turn u
    using that by (auto simp: frugal_def frugal_cfg_def intro!: ensures_kept keeps_optional)
  have poll: "ensures ?B (poll (cfg_getSteeringMessages (v_config v)))
      (\<lambda>ms w. budget_within \<mu> n (v_hasMore v \<or> ms \<noteq> []) w)"
    using v by (auto simp: frugal_def frugal_cfg_def intro!: ensures_poll)
  have u: "frugal \<mu> (v\<lparr>v_lastTurn := x\<rparr>)" for x using v by (simp add: frugal_def)
  show "ensures ?B (close_turn env m rs v) (turn_spends \<mu> n)"
    unfolding close_turn_def Let_def
    apply (rule ensures_bindA [OF ensures_send [OF assms]])
    apply (rule ensures_bindA [OF stop [OF u]])
    using v
    by (auto simp: turn_spends_def frugal_def active_def intro!: ensures_bindA [OF ensures_send [OF assms]]
        ensures_bindA [OF poll] ensures_retA)
qed

lemma ensures_loop_turn:
  assumes "frugal_env \<mu> env" "frugal \<mu> v"
  shows "ensures (budget_within \<mu> n False) (loop_turn env v) (turn_spends \<mu> n)"
proof -
  let ?B = "budget_within \<mu> n"
  have 2: "ensures (\<lambda>w. ?B False w \<and> frugal \<mu> v1) (inject_pending env v1) (\<lambda>v2 w. ?B False w \<and> frugal \<mu> v2)"
    for v1
    by (intro ensures_assume ensures_keeps keeps_inject_pending frugal_sink returns_inject_pending assms(1))
  have 3: "ensures (\<lambda>w. ?B False w \<and> frugal \<mu> v2) (streamAssistantResponse env (v_config v2) (v_context v2))
      (\<lambda>(m, ctx) w. ?B (tool_calls m \<noteq> []) w \<and> ctx_tools ctx = ctx_tools (v_context v2) \<and> frugal \<mu> v2)" for v2
    using ensures_stream [OF assms(1), of "v_config v2" n "v_context v2"]
    by (intro ensures_assume) (auto simp: frugal_def elim!: ensures_mono)
  have 4: "ensures (\<lambda>w. ?B (tool_calls m \<noteq> []) w \<and> frugal \<mu> v3)
      (if am_stopReason m = Error \<or> am_stopReason m = Aborted then fail_turn env m v3
       else bindA (answer_tool_calls env m v3) (\<lambda>(rs, v4). close_turn env m rs v4))
      (turn_spends \<mu> n)" for m v3
  proof (rule ensures_assume)
    assume v3: "frugal \<mu> v3"
    have "ensures I (fail_turn env m v3) (turn_spends \<mu> n)" for I
      by (auto simp: fail_turn_def ensures_def bindA_Inr act_simps turn_spends_def)
    moreover have "ensures (?B (tool_calls m \<noteq> [])) (bindA (answer_tool_calls env m v3)
        (\<lambda>(rs, v4). close_turn env m rs v4)) (turn_spends \<mu> n)"
      using ensures_close_turn [OF assms(1), of n]
      by (intro ensures_bindA [OF ensures_answer [OF assms(1) v3]]) (auto split: prod.split)
    ultimately show "ensures (?B (tool_calls m \<noteq> []))
        (if am_stopReason m = Error \<or> am_stopReason m = Aborted then fail_turn env m v3
         else bindA (answer_tool_calls env m v3) (\<lambda>(rs, v4). close_turn env m rs v4))
        (turn_spends \<mu> n)" by simp
  qed
  have 5: "ensures (\<lambda>w. ?B (tool_calls m \<noteq> []) w \<and> ctx_tools ctx = ctx_tools (v_context v2) \<and> frugal \<mu> v2)
      (let v3 = v2\<lparr>v_context := ctx, v_newMessages := v_newMessages v2 @ [Llm (Assistant m)]\<rparr> in
       if am_stopReason m = Error \<or> am_stopReason m = Aborted then fail_turn env m v3
       else bindA (answer_tool_calls env m v3) (\<lambda>(rs, v4). close_turn env m rs v4))
      (turn_spends \<mu> n)" for v2 m ctx
    unfolding Let_def by (rule ensures_mono [OF 4]) (auto simp: frugal_def frugal_ctx_def)
  show ?thesis
    unfolding loop_turn_def
    apply (rule ensures_bindA [OF ensures_begin_turn [OF assms]])
    apply (rule ensures_bindA [OF 2])
    apply (rule ensures_bindA [OF 3])
    subgoal for v1 v2 r by (cases r, simp only: prod.case, rule 5)
    done
qed

text \<open>Enough fuel for the rounds that the budget allows.\<close>

lemma loop_rounds_end:
  assumes "frugal_env \<mu> env"
  shows "frugal \<mu> v \<Longrightarrow> \<mu> (world s) \<le> n \<Longrightarrow> 2 * n + (if active v then 1 else 0) < fuel \<Longrightarrow>
    fst (loop_rounds fuel env v s) \<noteq> Inr None"
proof (induction fuel arbitrary: v s n)
  case (Suc fuel)
  have start: "budget_within \<mu> n False (world s)" using Suc.prems(2) by (simp add: budget_within_def)
  have next': "fst (loop_rounds fuel env v' t) \<noteq> Inr None"
    if v': "frugal \<mu> v'" "budget_within \<mu> n (active v') (world t)" and f: "2 * n \<le> fuel" "active v' \<Longrightarrow> 2 * n - 1 < fuel + 1"
      and less: "active v' \<or> 2 * n < fuel" for v' t
  proof (cases "active v'")
    case True
    then have m: "\<mu> (world t) < n" using v'(2) by (simp add: budget_within_def)
    then show ?thesis using True f v'(1) by (intro Suc.IH [of v' t "n - 1"]) auto
  next
    case False
    then show ?thesis using less v' by (intro Suc.IH [of v' t n]) (auto simp: budget_within_def)
  qed
  show ?case
  proof (cases "active v")
    case True
    obtain r t where turn: "loop_turn env v s = (r, t)" by (cases "loop_turn env v s")
    have "turn_spends \<mu> n a (world t)" if "r = Inr a" for a
      using ensures_loop_turn [OF assms Suc.prems(1), of n] start turn that unfolding ensures_def by blast
    then show ?thesis
      using True turn Suc.prems(3) next'
      by (auto simp: active_def bindA_run turn_spends_def act_simps split: sum.split prod.split)
  next
    case False
    let ?p = "poll (cfg_getFollowUpMessages (v_config v))"
    obtain r t where poll: "?p s = (r, t)" by (cases "?p s")
    have "frugal_poll \<mu> (cfg_getFollowUpMessages (v_config v))"
      using Suc.prems(1) by (simp add: frugal_def frugal_cfg_def)
    from ensures_poll [OF this] have b: "budget_within \<mu> n (ms \<noteq> []) (world t)" if "r = Inr ms" for ms
      using start poll that by (fastforce simp: ensures_def)
    have "fst (loop_rounds fuel env (v\<lparr>v_pending := ms, v_hasMore := True\<rparr>) t) \<noteq> Inr None"
      if "r = Inr ms" "ms \<noteq> []" for ms
      using b [OF that(1)] that Suc.prems(1,3) False
      by (intro next') (auto simp: frugal_def active_def)
    with False poll show ?thesis
      by (auto simp: active_def bindA_run act_simps split: sum.split prod.split)
  qed
qed simp

text \<open>More fuel changes nothing once the loop has ended.\<close>

lemma loop_rounds_more:
  "fst (loop_rounds n env v s) \<noteq> Inr None \<Longrightarrow> n \<le> m \<Longrightarrow> loop_rounds m env v s = loop_rounds n env v s"
proof (induction n arbitrary: m v s)
  case 0
  then show ?case by (simp add: act_simps)
next
  case (Suc n)
  then obtain k where m: "m = Suc k" "n \<le> k" by (cases m) auto
  show ?case
    using Suc.prems(1) Suc.IH [OF _ m(2)] unfolding m(1)
    by (auto simp: bindA_run split: sum.splits prod.splits if_splits)
qed

end
