(* ===== verification/AgentLoopProps.thy ===== *)
theory AgentLoopProps imports AgentLoopLaws AgentLoopEnds begin

text \<open>
  The properties of the agent loop, over the laws of its event protocol (\<open>AgentLoopLaws\<close>) and
  of its budget (\<open>AgentLoopEnds\<close>), and a small concrete environment in which their hypotheses
  hold: a model that calls the tool \<open>t\<close> as often as the world says and then stops.
\<close>

section \<open>A concrete environment\<close>

definition demo_usage :: usage where
  "demo_usage = \<lparr>us_input = 1, us_output = 1, us_cacheRead = 0, us_cacheWrite = 0,
     us_cacheWrite1h = None, us_reasoning = None, us_totalTokens = 2,
     us_cost = \<lparr>cost_input = 0, cost_output = 0, cost_cacheRead = 0, cost_cacheWrite = 0, cost_total = 0\<rparr>\<rparr>"

definition demo_message :: "ablock list \<Rightarrow> stop_reason \<Rightarrow> assistant_message" where
  "demo_message content stop = \<lparr>am_content = content, am_api = ''api'', am_provider = ''p'',
     am_model = ''m'', am_responseModel = None, am_responseId = None, am_providerThinkingLevel = None,
     am_diagnostics = None, am_usage = demo_usage, am_stopReason = stop, am_deferred = None,
     am_errorMessage = None, am_rawStopReason = None, am_endTurn = None, am_timestamp = 0\<rparr>"

definition demo_call :: tool_call where
  "demo_call = \<lparr>tc_id = ''c'', tc_name = ''t'', tc_arguments = JObj [], tc_thoughtSignature = None,
     tc_namespace = None\<rparr>"

definition demo_result :: tool_result where
  "demo_result = \<lparr>res_content = None, res_details = None, res_usage = None,
     res_addedToolNames = None, res_terminate = None\<rparr>"

definition demo_tool :: "nat agent_tool" where
  "demo_tool = \<lparr>tool_name = ''t'', tool_description = [], tool_parameters = JNull, tool_label = [],
     tool_prepareArguments = None,
     tool_execute = (\<lambda>i a w. (\<lparr>run_updates = [demo_result], run_outcome = Inr demo_result\<rparr>, w)),
     tool_executionMode = None\<rparr>"

definition demo_ctx :: "nat agent_context" where
  "demo_ctx = \<lparr>ctx_systemPrompt = [], ctx_messages = [], ctx_tools = Some [demo_tool]\<rparr>"

definition demo_cfg :: "nat loop_config" where
  "demo_cfg = \<lparr>cfg_model = \<lparr>model_provider = ''p'', model_id = ''m'', model_api = ''api''\<rparr>,
     cfg_reasoning = None, cfg_apiKey = None, cfg_convertToLlm = (\<lambda>ms. retA []),
     cfg_transformContext = None, cfg_getApiKey = None, cfg_shouldStopAfterTurn = None,
     cfg_prepareNextTurn = None, cfg_getSteeringMessages = None, cfg_getFollowUpMessages = None,
     cfg_toolExecution = None, cfg_beforeToolCall = None, cfg_afterToolCall = None\<rparr>"

definition demo_response :: "assistant_message \<Rightarrow> response" where
  "demo_response m = \<lparr>resp_events = [SStart m, SDone (am_stopReason m) m], resp_result = m\<rparr>"

definition demo_env :: "nat loop_env" where
  "demo_env = \<lparr>env_aborted = (\<lambda>w. False), env_now = (\<lambda>w. 0), env_sink = (\<lambda>e. retA ()),
     env_validate = (\<lambda>t c. retA (tc_arguments c)),
     env_streamFn = (\<lambda>req w. (Inr (demo_response
        (if w = 0 then demo_message [] Stop else demo_message [AToolCallB demo_call] ToolUse)), w - 1)),
     env_schedule = (\<lambda>w. [0, 0])\<rparr>"

definition demo_prompt :: agent_message where
  "demo_prompt = Custom ''note'' JNull"

lemma demo_well_started: "well_started demo_env"
  by (auto simp: well_started_def demo_env_def demo_response_def)

lemma demo_never: "never_aborted demo_env"
  by (simp add: never_aborted_def demo_env_def)

lemma demo_frugal: "frugal_env (\<lambda>w. w) demo_env" "frugal_cfg (\<lambda>w. w) demo_cfg" "frugal_ctx (\<lambda>w. w) demo_ctx"
  by (auto simp: frugal_env_def frugal_cfg_def frugal_ctx_def nonincr_def option_nonincr_def
      frugal_poll_def demo_env_def demo_cfg_def demo_ctx_def demo_tool_def demo_response_def
      demo_message_def tool_calls_def act_simps List.map_filter_simps split: if_splits)

lemma demo_run:
  "fst (runAgentLoop 4 demo_env demo_cfg demo_ctx [demo_prompt] \<lparr>world = 1, log = []\<rparr>) =
   Inr (Some [demo_prompt, Llm (Assistant (demo_message [AToolCallB demo_call] ToolUse)),
     Llm (ToolResult (createToolResultMessage (immediate_finalized demo_call demo_result False) 0)),
     Llm (Assistant (demo_message [] Stop))])"
  by code_simp

section \<open>Fuel\<close>

lemma runLoop_more:
  assumes "fst (runLoop n env cfg ctx ms s) \<noteq> Inr None" "n \<le> k"
  shows "runLoop k env cfg ctx ms s = runLoop n env cfg ctx ms s"
proof -
  have h: "bindA m (\<lambda>p. bindA (loop_rounds k env (g p)) h) s = bindA m (\<lambda>p. bindA (loop_rounds n env (g p)) h) s"
    if "fst (bindA m (\<lambda>p. bindA (loop_rounds n env (g p)) h) s) \<noteq> Inr None" "h = (\<lambda>v. retA (map_option v_newMessages v))"
    for m :: "('a, agent_message list) loop_act" and g h
    using that loop_rounds_more [OF _ assms(2), of env]
    by (auto simp: bindA_run act_simps split: sum.splits prod.splits)
  show ?thesis unfolding runLoop_def by (rule h) (use assms(1) in \<open>simp_all add: runLoop_def\<close>)
qed

lemma runLoop_returns:
  assumes "frugal_env \<mu> env" "frugal_cfg \<mu> cfg" "frugal_ctx \<mu> ctx" "2 * \<mu> (world s) + 1 < fuel"
  shows "fst (runLoop fuel env cfg ctx ms s) \<noteq> Inr None"
proof -
  let ?p = "poll (cfg_getSteeringMessages cfg)"
  obtain r t where p: "?p s = (r, t)" by (cases "?p s")
  have "frugal_poll \<mu> (cfg_getSteeringMessages cfg)" using assms(2) by (simp add: frugal_cfg_def)
  from keepsD_world [OF keeps_poll [OF this, of "\<mu> (world s)" False] p] have t: "\<mu> (world t) \<le> \<mu> (world s)"
    by (simp add: budget_within_def)
  have "fst (loop_rounds fuel env \<lparr>v_context = ctx, v_newMessages = ms, v_config = cfg,
      v_lastTurn = None, v_pending = pending, v_hasMore = True\<rparr> t) \<noteq> Inr None" for pending
    using assms t by (intro loop_rounds_end [OF assms(1)]) (auto simp: frugal_def)
  note l = this
  show ?thesis
  proof (cases r)
    case (Inl e)
    with p show ?thesis by (simp add: runLoop_def bindA_run)
  next
    case (Inr pending)
    with p l [of pending] show ?thesis
      by (auto simp: runLoop_def bindA_run act_simps split: sum.splits prod.splits)
  qed
qed

lemma keeps_prologue:
  assumes "frugal_env \<mu> env"
  shows "keeps (inworld (budget_within \<mu> n False)) (send env e)"
    "keeps (inworld (budget_within \<mu> n False)) (forA (emitMessage env) ms)"
  using frugal_sink [OF assms, of n False] by (auto intro!: keeps_intros)

text \<open>Where the prologue of a run leaves the world.\<close>

lemma runAgentLoop_split:
  assumes "frugal_env \<mu> env"
  shows "(\<exists>e t. \<forall>fuel. runAgentLoop fuel env cfg ctx prompts s = (Inl e, t)) \<or>
    (\<exists>t. \<mu> (world t) \<le> \<mu> (world s) \<and> (\<forall>fuel. runAgentLoop fuel env cfg ctx prompts s =
       runLoop fuel env cfg (ctx\<lparr>ctx_messages := ctx_messages ctx @ prompts\<rparr>) prompts t))"
proof -
  let ?pre = "bindA (send env AgentStart) (\<lambda>_. bindA (send env TurnStart) (\<lambda>_. forA (emitMessage env) prompts))"
  have split: "runAgentLoop fuel env cfg ctx prompts s = bindA ?pre (\<lambda>_.
      runLoop fuel env cfg (ctx\<lparr>ctx_messages := ctx_messages ctx @ prompts\<rparr>) prompts) s" for fuel
    by (simp add: runAgentLoop_def bindA_run split: sum.split prod.split)
  obtain r t where p: "?pre s = (r, t)" by (cases "?pre s")
  have "keeps (inworld (budget_within \<mu> (\<mu> (world s)) False)) ?pre"
    using assms by (intro keeps_bindA keeps_prologue)
  from keepsD_world [OF this p] have "\<mu> (world t) \<le> \<mu> (world s)" by (simp add: budget_within_def)
  with p split show ?thesis by (cases r) (auto simp: bindA_run)
qed

lemma runAgentLoop_ends:
  assumes "frugal_env \<mu> env" "frugal_cfg \<mu> cfg" "frugal_ctx \<mu> ctx" "2 * \<mu> (world s) + 1 < fuel"
  shows "fst (runAgentLoop fuel env cfg ctx prompts s) \<noteq> Inr None"
  using runAgentLoop_split [OF assms(1), of cfg ctx prompts s]
proof (elim disjE exE conjE)
  fix t
  assume t: "\<mu> (world t) \<le> \<mu> (world s)" and eq: "\<forall>fuel. runAgentLoop fuel env cfg ctx prompts s =
    runLoop fuel env cfg (ctx\<lparr>ctx_messages := ctx_messages ctx @ prompts\<rparr>) prompts t"
  then show ?thesis
    using assms by (simp add: runLoop_returns [where \<mu> = \<mu>] frugal_ctx_def)
qed simp

section \<open>Properties\<close>

text \<open>
  C1. The event protocol of a run. Whatever the hooks, tools and sink do, and whatever order
  concurrent tool executions take, the events of \<open>runAgentLoop\<close> follow the protocol; when
  it returns, \<open>agent_end\<close> is the last event and carries the returned messages, which are
  exactly the messages whose \<open>message_end\<close> was emitted, in order. In every turn the results
  answer the tool calls of the message by id and in source order, all of them if the run is
  never aborted; a truncated message has all its calls answered by errors and a failed one
  ends the turn without results.
\<close>

theorem agent_run_protocol:
  assumes "well_started env" "runAgentLoop fuel env cfg ctx prompts s = (r, t)"
  shows "\<exists>es. log t = log s @ es \<and> (case r of
      Inr (Some ms) \<Rightarrow> ag.run (never_aborted env) Idle es = Some (Ended ms) \<and> ag.observed es = ms
    | _ \<Rightarrow> ag.run (never_aborted env) Idle es \<noteq> None)"
proof -
  obtain es where "log t = log s @ es" "case r of Inl e \<Rightarrow> ag.run (never_aborted env) Idle es \<noteq> None
     | Inr a \<Rightarrow> \<exists>q. ag.run (never_aborted env) Idle es = Some q \<and>
         (case a of None \<Rightarrow> True | Some out \<Rightarrow> out = ag.observed es \<and> q = Ended out)"
    using ag.stepsD [OF steps_runAgentLoop [OF assms(1), of "never_aborted env"] assms(2)] by blast
  then show ?thesis by (intro exI [of _ es]) (auto split: sum.splits option.splits)
qed

theorem agent_run_protocol_witness:
  "\<exists>es. log (snd (runAgentLoop 4 demo_env demo_cfg demo_ctx [demo_prompt] \<lparr>world = 1, log = []\<rparr>)) = es \<and>
     ag.run True Idle es = Some (Ended
       [demo_prompt, Llm (Assistant (demo_message [AToolCallB demo_call] ToolUse)),
        Llm (ToolResult (createToolResultMessage (immediate_finalized demo_call demo_result False) 0)),
        Llm (Assistant (demo_message [] Stop))])"
  using agent_run_protocol [OF demo_well_started, of 4 demo_cfg demo_ctx "[demo_prompt]" "\<lparr>world = 1, log = []\<rparr>"]
    demo_run demo_never
  by (cases "runAgentLoop 4 demo_env demo_cfg demo_ctx [demo_prompt] \<lparr>world = 1, log = []\<rparr>") auto

text \<open>
  C13. The loop returns. If no callback increases the budget of the world and every response
  with tool calls and every nonempty poll for messages uses some of it up, then twice the
  budget and two more rounds are enough: the run ends, in a result or a throw, and more fuel
  does not change how.
\<close>

theorem agent_run_returns:
  assumes "frugal_env \<mu> env" "frugal_cfg \<mu> cfg" "frugal_ctx \<mu> ctx" "2 * \<mu> (world s) + 1 < fuel"
  shows "fst (runAgentLoop fuel env cfg ctx prompts s) \<noteq> Inr None \<and>
    (\<forall>more. runAgentLoop (fuel + more) env cfg ctx prompts s = runAgentLoop fuel env cfg ctx prompts s)"
  using runAgentLoop_split [OF assms(1), of cfg ctx prompts s]
proof (elim disjE exE conjE)
  fix e t
  assume "\<forall>fuel. runAgentLoop fuel env cfg ctx prompts s = (Inl e, t)"
  then show ?thesis by simp
next
  fix t
  assume t: "\<mu> (world t) \<le> \<mu> (world s)" and eq: "\<forall>fuel. runAgentLoop fuel env cfg ctx prompts s =
    runLoop fuel env cfg (ctx\<lparr>ctx_messages := ctx_messages ctx @ prompts\<rparr>) prompts t"
  have "fst (runLoop fuel env cfg (ctx\<lparr>ctx_messages := ctx_messages ctx @ prompts\<rparr>) prompts t) \<noteq> Inr None"
    using assms t by (intro runLoop_returns [where \<mu> = \<mu>]) (auto simp: frugal_ctx_def)
  note ends = this
  have "runLoop (fuel + more) env cfg (ctx\<lparr>ctx_messages := ctx_messages ctx @ prompts\<rparr>) prompts t =
      runLoop fuel env cfg (ctx\<lparr>ctx_messages := ctx_messages ctx @ prompts\<rparr>) prompts t" for more
    by (rule runLoop_more [OF ends]) simp
  with ends show ?thesis unfolding eq [rule_format] by blast
qed

theorem agent_run_returns_witness:
  "fst (runAgentLoop 4 demo_env demo_cfg demo_ctx [demo_prompt] \<lparr>world = 1, log = []\<rparr>) \<noteq> Inr None"
  using agent_run_returns [OF demo_frugal, of "\<lparr>world = 1, log = []\<rparr>" 4 "[demo_prompt]"] by simp

text \<open>
  What a truncated message answers to a call, and the events that report it.
\<close>

definition refused :: "tool_call \<Rightarrow> tool_result_message \<Rightarrow> bool" where
  "refused c r \<longleftrightarrow> answers c r \<and> tr_isError r \<and>
     tr_content r = [TextB \<lparr>tx_text = truncatedText (tc_name c), tx_signature = None\<rparr>]"

definition refusal_events :: "tool_call \<Rightarrow> tool_result_message \<Rightarrow> agent_event list" where
  "refusal_events c r =
     [ToolStart (tc_id c) (tc_name c) (tc_arguments c),
      ToolEnd (tc_id c) (tc_name c) (createErrorToolResult (truncatedText (tc_name c))) True,
      MessageStart (Llm (ToolResult r)), MessageEnd (Llm (ToolResult r))]"

lemma refused_result:
  "refused c (createToolResultMessage
     (immediate_finalized c (createErrorToolResult (truncatedText (tc_name c))) True) now)"
  by (simp add: refused_def answers_def createToolResultMessage_def immediate_finalized_def
      createErrorToolResult_def)

lemma failToolCall_sends:
  "\<exists>r. refused c r \<and>
     failToolCall env c s = bindA (forA (send env) (refusal_events c r)) (\<lambda>_. retA r) s"
proof -
  let ?f = "immediate_finalized c (createErrorToolResult (truncatedText (tc_name c))) True"
  let ?r = "\<lambda>w. createToolResultMessage ?f (env_now env w)"
  let ?two = "bindA (emitToolExecutionStart env c) (\<lambda>_. emitToolExecutionEnd env ?f)"
  have run: "failToolCall env c s = bindA ?two (\<lambda>_. report_result env ?f) s"
    by (simp add: failToolCall_def bindA_run Let_def split: prod.split sum.split)
  obtain q t where two: "?two s = (q, t)" by fastforce
  have "failToolCall env c s = bindA (forA (send env) (refusal_events c (?r (world t)))) (\<lambda>_. retA (?r (world t))) s"
    using two unfolding run
    by (auto simp: bindA_run act_simps refusal_events_def emitToolExecutionStart_def emitToolExecutionEnd_def
        report_result_def emitToolResultMessage_def emitMessage_def immediate_finalized_def
        split: prod.splits sum.splits)
  with refused_result show ?thesis by blast
qed

lemma forA_append: "forA f (xs @ ys) s = bindA (forA f xs) (\<lambda>_. forA f ys) s"
  by (induction xs arbitrary: s) (simp_all add: bindA_run split: prod.split sum.split)

lemma failToolCalls_send:
  "\<exists>rs. list_all2 refused calls rs \<and> mapA (failToolCall env) calls s =
     bindA (forA (send env) (concat (map2 refusal_events calls rs))) (\<lambda>_. retA rs) s"
proof (induction calls arbitrary: s)
  case Nil
  show ?case by (intro exI [of _ "[]"]) simp
next
  case (Cons c calls)
  obtain r where r: "refused c r"
      "failToolCall env c s = bindA (forA (send env) (refusal_events c r)) (\<lambda>_. retA r) s"
    using failToolCall_sends by blast
  obtain q t where t: "forA (send env) (refusal_events c r) s = (q, t)" by fastforce
  obtain rs where rs: "list_all2 refused calls rs" "mapA (failToolCall env) calls t =
      bindA (forA (send env) (concat (map2 refusal_events calls rs))) (\<lambda>_. retA rs) t"
    using Cons.IH by blast
  have "mapA (failToolCall env) (c # calls) s =
      bindA (forA (send env) (concat (map2 refusal_events (c # calls) (r # rs)))) (\<lambda>_. retA (r # rs)) s"
    using t rs(2) by (simp add: r(2) bindA_run forA_append act_simps split: prod.splits sum.splits)
  with r(1) rs(1) show ?case by (intro exI [of _ "r # rs"]) simp
qed

text \<open>
  C30. A truncated response executes nothing. When the message hit the output limit, answering its
  tool calls does to the world and the log what reporting four events per call to the event
  sink does, in order and with nothing between them: the start and the end of the call and the
  message of its result. So no tool, hook or validator runs, whatever they would do to the world
  and whatever the sink is. If the sink throws, the turn throws that error where it was; else every call is
  answered, in order, by an error that says it was not executed, and the loop goes on.
\<close>

theorem truncated_calls_inert:
  assumes "am_stopReason m = Length"
  shows "\<exists>rs. list_all2 refused (tool_calls m) rs \<and>
    answer_tool_calls env m v s =
      (case forA (send env) (concat (map2 refusal_events (tool_calls m) rs)) s of
         (Inl e, t) \<Rightarrow> (Inl e, t)
       | (Inr _, t) \<Rightarrow> (Inr (rs, v\<lparr>v_hasMore := tool_calls m \<noteq> [],
           v_context := (v_context v)\<lparr>ctx_messages := ctx_messages (v_context v) @ map result_message rs\<rparr>,
           v_newMessages := v_newMessages v @ map result_message rs\<rparr>), t))"
proof -
  obtain rs where rs: "list_all2 refused (tool_calls m) rs" "mapA (failToolCall env) (tool_calls m) s =
      bindA (forA (send env) (concat (map2 refusal_events (tool_calls m) rs))) (\<lambda>_. retA rs) s"
    using failToolCalls_send by blast
  then show ?thesis
    using assms by (intro exI [of _ rs] conjI)
      (auto simp: answer_tool_calls_def failToolCallsFromTruncatedMessage_def bindA_run act_simps Let_def
        split: prod.splits sum.splits)
qed

theorem truncated_calls_inert_witness:
  "\<exists>r. refused demo_call r \<and>
    answer_tool_calls
      (demo_env\<lparr>env_validate := \<lambda>t c w. (Inl ''invalid'', w + 5), env_sink := \<lambda>e w. (Inr (), w + 1)\<rparr>)
      (demo_message [AToolCallB demo_call] Length)
      \<lparr>v_context = demo_ctx, v_newMessages = [], v_config = demo_cfg, v_lastTurn = None,
       v_pending = [], v_hasMore = True\<rparr> \<lparr>world = 7, log = []\<rparr> =
    (Inr ([r], \<lparr>v_context = demo_ctx\<lparr>ctx_messages := [result_message r]\<rparr>, v_newMessages = [result_message r],
       v_config = demo_cfg, v_lastTurn = None, v_pending = [], v_hasMore = True\<rparr>),
     \<lparr>world = 11, log = refusal_events demo_call r\<rparr>)"
proof -
  let ?env = "demo_env\<lparr>env_validate := \<lambda>t c w. (Inl ''invalid'', w + 5), env_sink := \<lambda>e w. (Inr (), w + 1)\<rparr>"
  have calls: "tool_calls (demo_message [AToolCallB demo_call] Length) = [demo_call]"
    by (simp add: tool_calls_def demo_message_def List.map_filter_simps)
  let ?v = "\<lparr>v_context = demo_ctx, v_newMessages = [], v_config = demo_cfg, v_lastTurn = None,
    v_pending = [], v_hasMore = True\<rparr>"
  have "am_stopReason (demo_message [AToolCallB demo_call] Length) = Length"
    by (simp add: demo_message_def)
  note t = truncated_calls_inert [OF this, of ?env ?v "\<lparr>world = 7, log = []\<rparr>"]
  have "forA (send ?env) (refusal_events demo_call r) \<lparr>world = 7, log = []\<rparr> =
      (Inr (), \<lparr>world = 11, log = refusal_events demo_call r\<rparr>)" for r
    by (simp add: send_def emit_def hook_def bindA_run act_simps refusal_events_def)
  with t show ?thesis unfolding calls by (auto simp: list_all2_Cons1 demo_ctx_def)
qed

text \<open>
  Continuing needs something to answer: \<open>runAgentLoopContinue\<close> throws, before any event
  or effect, exactly on an empty context or one that ends with an assistant message.
\<close>

theorem continue_guard:
  "runAgentLoopContinue fuel env cfg ctx s =
    (if ctx_messages ctx = [] then (Inl ''Cannot continue: no messages in context'', s)
     else if (\<exists>m. last (ctx_messages ctx) = Llm (Assistant m)) \<or> (\<exists>v. last (ctx_messages ctx) = Custom ''assistant'' v)
       then (Inl ''Cannot continue from message role: assistant'', s)
     else bindA (send env AgentStart) (\<lambda>_. bindA (send env TurnStart) (\<lambda>_. runLoop fuel env cfg ctx [])) s)"
proof -
  have "role m = ''assistant'' \<longleftrightarrow> (\<exists>a. m = Llm (Assistant a)) \<or> (\<exists>v. m = Custom ''assistant'' v)" for m
  proof (cases m)
    case (Llm l)
    then show ?thesis by (cases l) auto
  qed auto
  then show ?thesis by (simp add: runAgentLoopContinue_def act_simps)
qed

end
