(* ===== verification/AgentLoopKeeps.thy ===== *)
theory AgentLoopKeeps imports AgentLoopEnds begin

text \<open>
  What the whole agent loop keeps: an invariant of the world and the events emitted so far that
  every callback keeps and every emission keeps holds after the run, however it ends.
\<close>

definition poll_keeps ::
  "(('w, agent_event) logged \<Rightarrow> bool) \<Rightarrow> ('w, agent_message list) act option \<Rightarrow> bool" where
  "poll_keeps I f \<longleftrightarrow> (case f of None \<Rightarrow> True | Some h \<Rightarrow> keeps I (hook h))"

definition loop_keeps :: "(('w, agent_event) logged \<Rightarrow> bool) \<Rightarrow> 'w loop_env \<Rightarrow> 'w loop_config \<Rightarrow> bool" where
  "loop_keeps I env cfg \<longleftrightarrow> sink_keeps I env \<and> (\<forall>req. keeps I (hook (env_streamFn env req))) \<and>
     (\<forall>t c. keeps I (hook (env_validate env t c))) \<and>
     (\<forall>ms. keeps I (hook (cfg_convertToLlm cfg ms))) \<and>
     option_keeps I (cfg_transformContext cfg) \<and> option_keeps I (cfg_getApiKey cfg) \<and>
     option_keeps I (cfg_shouldStopAfterTurn cfg) \<and> option_keeps I (cfg_prepareNextTurn cfg) \<and>
     option_keeps I (cfg_beforeToolCall cfg) \<and> option_keeps I (cfg_afterToolCall cfg) \<and>
     poll_keeps I (cfg_getSteeringMessages cfg) \<and> poll_keeps I (cfg_getFollowUpMessages cfg) \<and>
     (\<forall>f turn w u c. cfg_prepareNextTurn cfg = Some f \<and> fst (f turn w) = Inr (Some u) \<and>
        upd_context u = Some c \<longrightarrow> tools_keep I c)"

definition vars_keep :: "(('w, agent_event) logged \<Rightarrow> bool) \<Rightarrow> 'w loop_env \<Rightarrow> 'w loop_vars \<Rightarrow> bool" where
  "vars_keep I env v \<longleftrightarrow> loop_keeps I env (v_config v) \<and> tools_keep I (v_context v)"

lemma loop_keepsD:
  assumes "loop_keeps I env cfg"
  shows "sink_keeps I env" "keeps I (hook (env_streamFn env req))" "keeps I (hook (cfg_convertToLlm cfg ms))"
    "option_keeps I (cfg_transformContext cfg)" "option_keeps I (cfg_getApiKey cfg)"
    "option_keeps I (cfg_shouldStopAfterTurn cfg)" "option_keeps I (cfg_prepareNextTurn cfg)"
    "poll_keeps I (cfg_getSteeringMessages cfg)" "poll_keeps I (cfg_getFollowUpMessages cfg)"
  using assms by (simp_all add: loop_keeps_def)

lemma loop_keeps_batch: "loop_keeps I env cfg \<Longrightarrow> tools_keep I ctx \<Longrightarrow> batch_keeps I env cfg ctx"
  by (simp add: loop_keeps_def batch_keeps_def)

lemma vars_keepD: "vars_keep I env v \<Longrightarrow> loop_keeps I env (v_config v)"
  by (simp add: vars_keep_def)

lemma keeps_polled: "poll_keeps I f \<Longrightarrow> keeps I (poll f)"
  by (auto simp: poll_keeps_def poll_def intro: keeps_simple split: option.splits)

lemma tools_keep_messages [simp]: "tools_keep I (ctx\<lparr>ctx_messages := ms\<rparr>) = tools_keep I ctx"
  by (simp add: tools_keep_def)

lemma tools_keep_cong: "ctx_tools a = ctx_tools b \<Longrightarrow> tools_keep I a = tools_keep I b"
  by (simp only: tools_keep_def)

lemma loop_keeps_settings [simp]:
  "loop_keeps I env (cfg\<lparr>cfg_model := m, cfg_reasoning := r\<rparr>) = loop_keeps I env cfg"
  by (simp add: loop_keeps_def)

lemma vars_keep_updates [simp]:
  "vars_keep I env (v\<lparr>v_pending := p\<rparr>) = vars_keep I env v"
  "vars_keep I env (v\<lparr>v_hasMore := b\<rparr>) = vars_keep I env v"
  "vars_keep I env (v\<lparr>v_lastTurn := l\<rparr>) = vars_keep I env v"
  "vars_keep I env (v\<lparr>v_newMessages := n\<rparr>) = vars_keep I env v"
  by (simp_all add: vars_keep_def)

section \<open>Turn by turn\<close>

lemma returns_hook: "(\<And>w a. fst (h w) = Inr a \<Longrightarrow> P a) \<Longrightarrow> returns (hook h) P"
  unfolding returns_def hook_def by (auto simp: Let_def split_beta)

lemma keeps_begin_turn:
  assumes "vars_keep I env v"
  shows "keeps I (begin_turn env v)" "returns (begin_turn env v) (vars_keep I env)"
proof -
  note c = loop_keepsD [OF vars_keepD [OF assms]]
  let ?prep = "\<lambda>turn. case cfg_prepareNextTurn (v_config v) of None \<Rightarrow> retA None | Some f \<Rightarrow> hook (f turn)"
  let ?upd = "\<lambda>u. case u of None \<Rightarrow> v | Some u \<Rightarrow> apply_turn_update u v"
  have prep: "keeps I (?prep turn)" for turn using c(7) by (rule keeps_option_hook)
  have vars: "returns (?prep turn) (\<lambda>u. vars_keep I env (?upd u))" for turn
  proof (cases "cfg_prepareNextTurn (v_config v)")
    case None
    with assms show ?thesis by (auto intro: returns_retA)
  next
    case (Some f)
    have "tools_keep I cx" if "fst (f turn w) = Inr (Some u)" "upd_context u = Some cx" for w u cx
      using assms Some that unfolding vars_keep_def loop_keeps_def by blast
    then have "vars_keep I env (?upd u)" if "fst (f turn w) = Inr u" for w u
      using assms that by (auto simp: vars_keep_def apply_turn_update_def split: option.split)
    with Some show ?thesis by (auto intro!: returns_hook)
  qed
  have rest: "keeps I (bindA (if length (v_pending v1) = 0 then poll (cfg_getSteeringMessages (v_config v1))
         else retA (v_pending v1)) (\<lambda>pending. bindA (send env TurnStart) (\<lambda>_. retA (v1\<lparr>v_pending := pending\<rparr>))))"
    if "vars_keep I env v1" for v1
    using loop_keepsD [OF vars_keepD [OF that]]
    by (auto intro!: keeps_bindA keeps_simple keeps_polled keeps_send)
  show "keeps I (begin_turn env v)"
  proof (cases "v_lastTurn v")
    case (Some turn)
    show ?thesis
      unfolding begin_turn_def Some option.case Let_def
      by (rule keeps_bindA_returns [OF prep vars], rule rest)
  qed (simp add: begin_turn_def keeps_simple)
  show "returns (begin_turn env v) (vars_keep I env)"
  proof (cases "v_lastTurn v")
    case (Some turn)
    have tail: "returns (bindA m (\<lambda>pending. bindA (send env TurnStart) (\<lambda>_. retA (v1\<lparr>v_pending := pending\<rparr>))))
        (vars_keep I env)" if "vars_keep I env v1" for v1 and m :: "('a, agent_message list) loop_act"
      using that by (intro returns_then returns_retA) simp
    show ?thesis
      unfolding begin_turn_def Some option.case Let_def
      by (rule returns_bindA, rule returns_mono [OF vars], rule tail)
  qed (simp add: begin_turn_def returns_retA assms)
qed

lemma keeps_streamAssistantResponse:
  assumes "loop_keeps I env cfg"
  shows "keeps I (streamAssistantResponse env cfg ctx)"
  unfolding streamAssistantResponse_def
  by (intro keeps_bindA keeps_option_hook keeps_response_loop loop_keepsD [OF assms])

lemma returns_streamAssistantResponse:
  "returns (streamAssistantResponse env cfg ctx) (\<lambda>(m, ctx'). ctx_tools ctx' = ctx_tools ctx)"
  unfolding streamAssistantResponse_def
  by (intro returns_then returns_mono [OF returns_response_loop]) auto

lemma keeps_answer_tool_calls:
  assumes "vars_keep I env v"
  shows "keeps I (answer_tool_calls env m v)"
    "returns (answer_tool_calls env m v) (\<lambda>(rs, v'). vars_keep I env v')"
proof -
  have s: "sink_keeps I env" by (rule loop_keepsD [OF vars_keepD [OF assms]])
  have b: "batch_keeps I env (v_config v) (v_context v)"
    using assms by (intro loop_keeps_batch) (simp_all add: vars_keep_def)
  show "keeps I (answer_tool_calls env m v)"
    unfolding answer_tool_calls_def Let_def failToolCallsFromTruncatedMessage_def
    using s by (auto intro!: keeps_intros keeps_executeToolCalls [OF b])
  show "returns (answer_tool_calls env m v) (\<lambda>(rs, v'). vars_keep I env v')"
    unfolding answer_tool_calls_def Let_def using assms
    by (auto intro!: returns_then returns_retA simp: vars_keep_def)
qed

lemma keeps_close_turn:
  assumes "vars_keep I env v"
  shows "keeps I (close_turn env m rs v)"
    "returns (close_turn env m rs v) (\<lambda>(b, v'). vars_keep I env v')"
proof -
  note c = loop_keepsD [OF vars_keepD [OF assms]]
  have stop: "keeps I (case cfg_shouldStopAfterTurn (v_config v) of None \<Rightarrow> retA False | Some f \<Rightarrow> hook (f turn))"
    for turn using c(6) by (rule keeps_option_hook)
  show "keeps I (close_turn env m rs v)"
    unfolding close_turn_def Let_def
    using stop by (auto intro!: keeps_bindA keeps_send c keeps_simple keeps_polled)
  show "returns (close_turn env m rs v) (\<lambda>(b, v'). vars_keep I env v')"
    unfolding close_turn_def Let_def using assms
    by (auto intro!: returns_then returns_retA)
qed

lemma keeps_loop_turn:
  assumes "vars_keep I env v"
  shows "keeps I (loop_turn env v)" "returns (loop_turn env v) (\<lambda>(b, v'). vars_keep I env v')"
proof -
  have s: "sink_keeps I env" by (rule loop_keepsD [OF vars_keepD [OF assms]])
  have inj: "returns (inject_pending env v1) (vars_keep I env)" if "vars_keep I env v1" for v1
    unfolding inject_pending_def using that by (auto intro!: returns_then returns_retA simp: vars_keep_def)
  let ?rest = "\<lambda>v2 m ctx. let v3 = v2\<lparr>v_context := ctx, v_newMessages := v_newMessages v2 @ [Llm (Assistant m)]\<rparr> in
     if am_stopReason m = Error \<or> am_stopReason m = Aborted then fail_turn env m v3
     else bindA (answer_tool_calls env m v3) (\<lambda>(rs, v4). close_turn env m rs v4)"
  have rest: "keeps I (?rest v2 m ctx) \<and> returns (?rest v2 m ctx) (\<lambda>(b, v'). vars_keep I env v')"
    if v2: "vars_keep I env v2" and t: "ctx_tools ctx = ctx_tools (v_context v2)" for v2 m ctx
  proof -
    have v3: "vars_keep I env (v2\<lparr>v_context := ctx, v_newMessages := n\<rparr>)" for n
      using v2 tools_keep_cong [OF t, of I] by (simp add: vars_keep_def)
    have "keeps I (fail_turn env m u)" "vars_keep I env u \<Longrightarrow> returns (fail_turn env m u) (\<lambda>(b, v'). vars_keep I env v')" for u
      unfolding fail_turn_def by (auto intro!: keeps_bindA keeps_send s keeps_simple returns_then returns_retA)
    then show ?thesis
      unfolding Let_def using v3
      by (auto intro!: keeps_bindA_returns [OF keeps_answer_tool_calls] keeps_close_turn
          returns_bindA returns_mono [OF keeps_answer_tool_calls(2)])
  qed
  show "keeps I (loop_turn env v)"
    unfolding loop_turn_def
    apply (rule keeps_bindA_returns [OF keeps_begin_turn [OF assms]])
    apply (rule keeps_bindA_returns [OF keeps_inject_pending [OF s] inj], assumption)
    apply (rule keeps_bindA_returns [OF keeps_streamAssistantResponse [OF vars_keepD] returns_streamAssistantResponse], assumption)
    subgoal for v1 v2 r by (cases r, simp only: prod.case, rule rest [THEN conjunct1])
    done
  show "returns (loop_turn env v) (\<lambda>(b, v'). vars_keep I env v')"
    unfolding loop_turn_def
    apply (rule returns_bindA, rule returns_mono [OF keeps_begin_turn(2) [OF assms]])
    apply (rule returns_bindA, rule returns_mono [OF inj], assumption)
    apply (rule returns_bindA, rule returns_mono [OF returns_streamAssistantResponse])
    subgoal for v1 v2 r by (cases r, simp only: prod.case, rule rest [THEN conjunct2])
    done
qed

lemma keeps_loop_rounds: "vars_keep I env v \<Longrightarrow> keeps I (loop_rounds fuel env v)"
proof (induction fuel arbitrary: v)
  case (Suc fuel)
  note c = loop_keepsD [OF vars_keepD [OF Suc.prems]]
  have turn: "keeps I (bindA (loop_turn env v) (\<lambda>(returned, v').
          if returned then retA (Some v') else loop_rounds fuel env v'))"
    by (rule keeps_bindA_returns [OF keeps_loop_turn [OF Suc.prems]])
       (auto intro: keeps_simple Suc.IH)
  then show ?case
    using Suc.prems by (auto intro!: keeps_bindA keeps_polled c keeps_simple keeps_send Suc.IH)
qed (simp add: keeps_simple)

lemma keeps_runLoop:
  assumes "loop_keeps I env cfg" "tools_keep I ctx"
  shows "keeps I (runLoop fuel env cfg ctx ms)"
  unfolding runLoop_def
  by (intro keeps_bindA keeps_polled loop_keepsD [OF assms(1)] keeps_loop_rounds keeps_simple)
     (use assms in \<open>simp add: vars_keep_def\<close>)

lemma keeps_runAgentLoop:
  assumes "loop_keeps I env cfg" "tools_keep I ctx"
  shows "keeps I (runAgentLoop fuel env cfg ctx prompts)" "keeps I (runAgentLoopContinue fuel env cfg ctx)"
proof -
  have s: "sink_keeps I env" by (rule loop_keepsD [OF assms(1)])
  then show "keeps I (runAgentLoop fuel env cfg ctx prompts)"
    unfolding runAgentLoop_def using assms
    by (intro keeps_intros keeps_runLoop keeps_sending) simp_all
  show "keeps I (runAgentLoopContinue fuel env cfg ctx)"
    unfolding runAgentLoopContinue_def using assms s
    by (auto intro!: keeps_simple keeps_bindA keeps_send keeps_runLoop)
qed

end
