(* ===== verification/AgentLaws.thy ===== *)
theory AgentLaws imports Agent AgentLoopProps AgentLoopKeeps begin

text \<open>
  What the agent keeps while it runs. The callbacks are only known to move the agent along a
  relation; from that follow what they keep of the state together with the log, and that they
  do not enlarge a budget. The state an observer sees is the fold of the reducer over the
  events of the run.
\<close>

section \<open>Callbacks that move the agent along a relation\<close>

definition moves :: "('w \<Rightarrow> 'w \<Rightarrow> bool) \<Rightarrow> ('w, 'a) act \<Rightarrow> bool" where
  "moves R h \<longleftrightarrow> (\<forall>a. R a (snd (h a)))"

definition option_moves :: "('w \<Rightarrow> 'w \<Rightarrow> bool) \<Rightarrow> ('x \<Rightarrow> ('w, 'a) act) option \<Rightarrow> bool" where
  "option_moves R f \<longleftrightarrow> (case f of None \<Rightarrow> True | Some h \<Rightarrow> \<forall>x. moves R (h x))"

definition tools_move :: "('w \<Rightarrow> 'w \<Rightarrow> bool) \<Rightarrow> 'w agent_tool list \<Rightarrow> bool" where
  "tools_move R tools \<longleftrightarrow> (\<forall>t\<in>set tools. \<forall>i x a. R a (snd (tool_execute t i x a)))"

definition update_moves :: "('w \<Rightarrow> 'w \<Rightarrow> bool) \<Rightarrow> ('w, 'w turn_update option) act \<Rightarrow> bool" where
  "update_moves R h \<longleftrightarrow> moves R h \<and> (\<forall>a u c tools. fst (h a) = Inr (Some u) \<and> upd_context u = Some c \<and>
     ctx_tools c = Some tools \<longrightarrow> tools_move R tools)"

definition opts_move :: "('u agent \<Rightarrow> 'u agent \<Rightarrow> bool) \<Rightarrow> 'u agent_opts \<Rightarrow> bool" where
  "opts_move R opts \<longleftrightarrow> (\<forall>req. moves R (opt_streamFn opts req)) \<and>
     (\<forall>t c. moves R (opt_validate opts t c)) \<and> tools_move R (opt_tools opts) \<and>
     (\<forall>l\<in>set (opt_listeners opts). \<forall>e. moves R (l e)) \<and>
     option_moves R (opt_convertToLlm opts) \<and> option_moves R (opt_transformContext opts) \<and>
     option_moves R (opt_getApiKey opts) \<and> option_moves R (opt_shouldStopAfterTurn opts) \<and>
     option_moves R (opt_beforeToolCall opts) \<and> option_moves R (opt_afterToolCall opts) \<and>
     (case opt_prepareNextTurn opts of None \<Rightarrow> True | Some h \<Rightarrow> update_moves R h) \<and>
     (case opt_prepareNextTurnWithContext opts of None \<Rightarrow> True | Some f \<Rightarrow> \<forall>turn. update_moves R (f turn))"

definition config_moves :: "('w \<Rightarrow> 'w \<Rightarrow> bool) \<Rightarrow> 'w loop_config \<Rightarrow> bool" where
  "config_moves R cfg \<longleftrightarrow> (\<forall>ms. moves R (cfg_convertToLlm cfg ms)) \<and>
     option_moves R (cfg_transformContext cfg) \<and> option_moves R (cfg_getApiKey cfg) \<and>
     option_moves R (cfg_shouldStopAfterTurn cfg) \<and> option_moves R (cfg_beforeToolCall cfg) \<and>
     option_moves R (cfg_afterToolCall cfg) \<and>
     (\<forall>f turn. cfg_prepareNextTurn cfg = Some f \<longrightarrow> update_moves R (f turn))"

lemma moves_ret: "(\<And>a. R a a) \<Longrightarrow> moves R (retA x)"
  by (simp add: moves_def act_simps)

lemma config_moves_agent:
  assumes "opts_move R opts" "\<And>a. R a a"
  shows "config_moves R (createLoopConfig opts a)"
proof -
  have "moves R (case opt_convertToLlm opts of Some f \<Rightarrow> f ms | None \<Rightarrow> retA (defaultConvertToLlm ms))" for ms
    using assms by (auto simp: opts_move_def option_moves_def intro: moves_ret split: option.splits)
  with assms show ?thesis
    by (auto simp: config_moves_def createLoopConfig_def opts_move_def split: option.splits)
qed

section \<open>Invariants of the state and the log\<close>

definition stable :: "('w \<Rightarrow> 'w \<Rightarrow> bool) \<Rightarrow> (('w, 'ev) logged \<Rightarrow> bool) \<Rightarrow> bool" where
  "stable R I \<longleftrightarrow> (\<forall>s w. I s \<and> R (world s) w \<longrightarrow> I (s\<lparr>world := w\<rparr>))"

lemma keeps_moves: "stable R I \<Longrightarrow> moves R h \<Longrightarrow> keeps I (hook h)"
  by (auto simp: stable_def moves_def keeps_def hook_def Let_def split: prod.split) (metis snd_conv)

lemma option_keeps_moves: "stable R I \<Longrightarrow> option_moves R f \<Longrightarrow> option_keeps I f"
  by (auto simp: option_moves_def option_keeps_def intro: keeps_moves split: option.splits)

lemma tools_keep_moves:
  assumes "stable R I" "\<And>tools. ctx_tools c = Some tools \<Longrightarrow> tools_move R tools"
  shows "tools_keep I c"
  unfolding tools_keep_def
proof (intro allI impI, elim conjE)
  fix tools t i a
  assume "ctx_tools c = Some tools" "t \<in> set tools"
  with assms(2) have "moves R (\<lambda>w. let (run, w') = tool_execute t i a w in (Inr run, w'))"
    by (auto simp: moves_def tools_move_def split_beta Let_def)
  with assms(1) show "keeps I (hook (\<lambda>w. let (run, w') = tool_execute t i a w in (Inr run, w')))"
    by (rule keeps_moves)
qed

text \<open>An event is applied to the state before the listeners hear of it.\<close>

definition event_stable :: "(('u agent, agent_event) logged \<Rightarrow> bool) \<Rightarrow> bool" where
  "event_stable I \<longleftrightarrow> (\<forall>s e. I s \<longrightarrow> I (s\<lparr>log := log s @ [e], world := reduce_event e (world s)\<rparr>))"

lemma stable_listeners:
  assumes "stable R I" "\<forall>l\<in>set ls. moves R (l e)"
  shows "I s \<Longrightarrow> I (s\<lparr>world := snd (forA (\<lambda>l. l e) ls (world s))\<rparr>)"
  using assms(2)
proof (induction ls arbitrary: s)
  case (Cons l ls)
  let ?s = "s\<lparr>world := snd (l e (world s))\<rparr>"
  have "R (world s) (snd (l e (world s)))" using Cons.prems(2) by (simp add: moves_def)
  then have s: "I ?s" using assms(1) Cons.prems(1) unfolding stable_def by blast
  from Cons.IH [OF s] Cons.prems(2) s show ?case
    by (auto simp: bindA_run split: prod.splits sum.splits)
qed (simp add: act_simps)

lemma sink_keeps_agent:
  assumes "stable R I" "event_stable I" "opts_move R opts"
  shows "sink_keeps I (agent_env opts)"
  unfolding sink_keeps_def keeps_def
proof (intro allI impI)
  fix e s
  assume I: "I s"
  let ?s = "s\<lparr>log := log s @ [e], world := reduce_event e (world s)\<rparr>"
  have s: "I ?s" using I assms(2) by (simp add: event_stable_def)
  have "\<forall>l\<in>set (opt_listeners opts). moves R (l e)"
    using assms(3) by (simp add: opts_move_def)
  note l = stable_listeners [OF assms(1) this s]
  show "I (snd (send (agent_env opts) e s))"
  proof (cases "ag_run (world ?s)")
    case None
    then have "snd (send (agent_env opts) e s) = ?s"
      by (simp add: send_def emit_def hook_def agent_env_def processEvents_def Let_def)
    with s show ?thesis by (simp only:)
  next
    case (Some x)
    then have "snd (send (agent_env opts) e s) =
        ?s\<lparr>world := snd (forA (\<lambda>l. l e) (opt_listeners opts) (world ?s))\<rparr>"
      by (simp add: send_def emit_def hook_def agent_env_def processEvents_def Let_def split: prod.split)
    with l show ?thesis by (simp only:)
  qed
qed

definition poll_stable :: "(('u agent, agent_event) logged \<Rightarrow> bool) \<Rightarrow> bool" where
  "poll_stable I \<longleftrightarrow> keeps I (hook poll_steering) \<and> keeps I (hook drain_followUp)"

lemma loop_keeps_agent:
  assumes "stable R I" "event_stable I" "poll_stable I" "opts_move R opts" "\<And>a. R a a"
  shows "loop_keeps I (agent_env opts) (createLoopConfig opts a)"
    "tools_keep I (createContextSnapshot opts a)"
proof -
  let ?cfg = "createLoopConfig opts a"
  have c: "config_moves R ?cfg" by (rule config_moves_agent [OF assms(4,5)])
  have stream: "keeps I (hook (env_streamFn (agent_env opts) req))" for req
    using assms(4) by (auto simp: agent_env_def opts_move_def intro: keeps_moves [OF assms(1)])
  have validate: "keeps I (hook (env_validate (agent_env opts) t c))" for t c
    using assms(4) by (auto simp: agent_env_def opts_move_def intro: keeps_moves [OF assms(1)])
  have "option_keeps I (cfg_prepareNextTurn ?cfg)"
    using c by (intro option_keeps_moves [OF assms(1)])
      (auto simp: config_moves_def option_moves_def update_moves_def split: option.split)
  moreover have "tools_keep I x"
    if "cfg_prepareNextTurn ?cfg = Some f" "fst (f turn w) = Inr (Some u)" "upd_context u = Some x" for f turn w u x
  proof -
    have "update_moves R (f turn)" using c that(1) by (auto simp: config_moves_def)
    with that show ?thesis
      unfolding update_moves_def by (intro tools_keep_moves [OF assms(1)]) blast
  qed
  moreover have "poll_keeps I (cfg_getSteeringMessages ?cfg)" "poll_keeps I (cfg_getFollowUpMessages ?cfg)"
    using assms(3) by (simp_all add: poll_stable_def poll_keeps_def createLoopConfig_def)
  moreover have "keeps I (hook (cfg_convertToLlm ?cfg ms))" for ms
    using c by (auto simp: config_moves_def intro: keeps_moves [OF assms(1)])
  ultimately show "loop_keeps I (agent_env opts) ?cfg"
    unfolding loop_keeps_def
    using c sink_keeps_agent [OF assms(1,2,4)] stream validate
    by (auto simp: config_moves_def intro: option_keeps_moves [OF assms(1)])
  show "tools_keep I (createContextSnapshot opts a)"
    using assms(4) by (intro tools_keep_moves [OF assms(1)])
      (simp add: createContextSnapshot_def opts_move_def)
qed

section \<open>The outcomes of a run\<close>

lemma keeps_handleRunFailure:
  "sink_keeps I (agent_env opts) \<Longrightarrow> keeps I (handleRunFailure opts e b)"
  unfolding handleRunFailure_def Let_def by (intro keeps_bindA keeps_simple keeps_send)

text \<open>A run from an idle agent: the executor's outcome, and what follows it.\<close>

lemma lifecycle_cases:
  assumes "runWithLifecycle opts executor s = (r, t)" "ag_run (world s) = None"
  obtains
    (running) "executor (s\<lparr>world := beginRun (world s)\<rparr>) = (Inr None, t)" "r = Inr None"
  | (finished) x s1 where "executor (s\<lparr>world := beginRun (world s)\<rparr>) = (Inr (Some x), s1)"
      "r = Inr (Some ())" "t = s1\<lparr>world := finishRun (world s1)\<rparr>"
  | (failed) e s1 r2 s2 where "executor (s\<lparr>world := beginRun (world s)\<rparr>) = (Inl e, s1)"
      "handleRunFailure opts e (run_aborted (world s1)) s1 = (r2, s2)"
      "r = (case r2 of Inl e2 \<Rightarrow> Inl e2 | Inr _ \<Rightarrow> Inr (Some ()))" "t = s2\<lparr>world := finishRun (world s2)\<rparr>"
proof -
  obtain r1 s1 where e: "executor (s\<lparr>world := beginRun (world s)\<rparr>) = (r1, s1)" by fastforce
  show ?thesis
  proof (cases r1)
    case (Inl e')
    obtain r2 s2 where "handleRunFailure opts e' (run_aborted (world s1)) s1 = (r2, s2)" by fastforce
    with assms e Inl failed show ?thesis by (simp add: runWithLifecycle_def Let_def)
  next
    case (Inr a)
    with assms e running finished show ?thesis
      by (cases a) (simp_all add: runWithLifecycle_def Let_def)
  qed
qed

definition idle :: "'u agent \<Rightarrow> bool" where
  "idle a \<longleftrightarrow> ag_run a = None \<and> \<not> st_isStreaming a \<and> st_streamingMessage a = None \<and> st_pendingToolCalls a = []"

lemma idle_finishRun: "idle (finishRun a)"
  by (simp add: idle_def finishRun_def)

lemma lifecycle_idle:
  "runWithLifecycle opts executor s = (r, t) \<Longrightarrow> ag_run (world s) = None \<Longrightarrow> r \<noteq> Inr None \<Longrightarrow> idle (world t)"
  by (erule lifecycle_cases) (simp_all add: idle_finishRun)

text \<open>What the executor keeps holds just before the run is finished.\<close>

lemma lifecycle_keeps:
  assumes "runWithLifecycle opts executor s = (r, t)" "ag_run (world s) = None"
    "keeps I executor" "sink_keeps I (agent_env opts)" "I (s\<lparr>world := beginRun (world s)\<rparr>)"
  obtains s1 where "I s1" "log t = log s1" "t = s1 \<or> world t = finishRun (world s1)"
  using assms(1,2)
proof (cases rule: lifecycle_cases)
  case running
  with that [of t] keepsD [OF assms(3)] assms(5) show ?thesis by blast
next
  case (finished x s1)
  with that [of s1] keepsD [OF assms(3)] assms(5) show ?thesis by simp
next
  case (failed e s1 r2 s2)
  have "I s2"
    using failed keepsD [OF assms(3)] keepsD [OF keeps_handleRunFailure [OF assms(4)]] assms(5) by blast
  with that [of s2] failed show ?thesis by simp
qed

section \<open>The state is the fold of the reducer over the events\<close>

definition view ::
  "'u agent \<Rightarrow> agent_message list \<times> agent_message option \<times> string list \<times> string option" where
  "view a = (st_messages a, st_streamingMessage a, st_pendingToolCalls a, st_errorMessage a)"

definition replay :: "agent_event list \<Rightarrow> 'u agent \<Rightarrow> 'u agent" where
  "replay es a = fold reduce_event es a"

lemma replay_simps [simp]: "replay [] a = a" "replay (es @ [e]) a = reduce_event e (replay es a)"
  by (simp_all add: replay_def)

lemma view_reduce: "view a = view b \<Longrightarrow> view (reduce_event e a) = view (reduce_event e b)"
  by (cases e) (auto simp: view_def split: option.split)

lemma view_replay: "view a = view b \<Longrightarrow> view (replay es a) = view (replay es b)"
proof (induction es rule: rev_induct)
  case (snoc e es)
  then show ?case using view_reduce [of "replay es a" "replay es b" e] by simp
qed simp

text \<open>Callbacks that leave the view of the agent to the events may still steer it, or abort it.\<close>

definition same_view :: "'u agent \<Rightarrow> 'u agent \<Rightarrow> bool" where
  "same_view a b \<longleftrightarrow> view b = view a"

lemma same_view_refl: "same_view a a"
  by (simp add: same_view_def)

lemma same_view_controls:
  "same_view a (steer m a)" "same_view a (followUp m a)" "same_view a (abort a)"
  "same_view a (clearAllQueues a)" "same_view a (a\<lparr>ag_user := u\<rparr>)"
  by (simp_all add: same_view_def view_def steer_def followUp_def abort_def clearAllQueues_def
      clearSteeringQueue_def clearFollowUpQueue_def)

definition replayed ::
  "agent_event list \<Rightarrow> 'u agent \<Rightarrow> ('u agent, agent_event) logged \<Rightarrow> bool" where
  "replayed l a s \<longleftrightarrow> (\<exists>es. log s = l @ es \<and> view (world s) = view (replay es a))"

lemma replayed_stable:
  "stable same_view (replayed l a)" "event_stable (replayed l a)" "poll_stable (replayed l a)"
proof -
  show "stable same_view (replayed l a)"
    by (auto simp: stable_def replayed_def same_view_def)
  show "event_stable (replayed l a)"
    unfolding event_stable_def replayed_def
  proof (intro allI impI, elim exE conjE)
    fix s e es
    assume "log s = l @ es" "view (world s) = view (replay es a)"
    then show "\<exists>es. log (s\<lparr>log := log s @ [e], world := reduce_event e (world s)\<rparr>) = l @ es \<and>
        view (world (s\<lparr>log := log s @ [e], world := reduce_event e (world s)\<rparr>)) = view (replay es a)"
      using view_reduce [of "world s" "replay es a" e] by (intro exI [of _ "es @ [e]"]) simp
  qed
  have v: "view (snd (poll_steering b)) = view b" "view (snd (drain_followUp b)) = view b" for b :: "'a agent"
    by (simp_all add: poll_steering_def drain_steering_def drain_followUp_def view_def split_beta Let_def)
  have "keeps (replayed l a) (hook h)" if "\<And>b. view (snd (h b)) = view b" for h :: "('a agent, agent_message list) act"
    using that by (auto simp: replayed_def keeps_def hook_def split_beta Let_def)
  with v show "poll_stable (replayed l a)" by (simp add: poll_stable_def)
qed

lemma reduce_messages: "st_messages (reduce_event e a) = st_messages a @ ended_message e"
  by (cases e) (simp_all split: option.split)

lemma replay_messages: "st_messages (replay es a) = st_messages a @ ag.observed es"
  by (induction es rule: rev_induct) (simp_all add: reduce_messages)

lemma run_keeps_replayed:
  assumes "opts_move same_view opts"
  shows "keeps (replayed l a) (\<lambda>s. runAgentLoop fuel (agent_env opts) (createLoopConfig opts (world s))
       (createContextSnapshot opts (world s)) messages (s\<lparr>world := (world s)\<lparr>ag_skipPoll := b\<rparr>\<rparr>))"
    "keeps (replayed l a) (\<lambda>s. runAgentLoopContinue fuel (agent_env opts) (createLoopConfig opts (world s))
       (createContextSnapshot opts (world s)) (s\<lparr>world := (world s)\<lparr>ag_skipPoll := b\<rparr>\<rparr>))"
proof -
  note k = loop_keeps_agent [OF replayed_stable assms same_view_refl]
  have skip: "replayed l a (s\<lparr>world := (world s)\<lparr>ag_skipPoll := b\<rparr>\<rparr>)" if "replayed l a s" for s
    using that by (simp add: replayed_def view_def)
  show "keeps (replayed l a) (\<lambda>s. runAgentLoop fuel (agent_env opts) (createLoopConfig opts (world s))
       (createContextSnapshot opts (world s)) messages (s\<lparr>world := (world s)\<lparr>ag_skipPoll := b\<rparr>\<rparr>))"
    using keeps_runAgentLoop(1) [OF k] skip unfolding keeps_def by blast
  show "keeps (replayed l a) (\<lambda>s. runAgentLoopContinue fuel (agent_env opts) (createLoopConfig opts (world s))
       (createContextSnapshot opts (world s)) (s\<lparr>world := (world s)\<lparr>ag_skipPoll := b\<rparr>\<rparr>))"
    using keeps_runAgentLoop(2) [OF k] skip unfolding keeps_def by blast
qed

lemma lifecycle_replayed:
  assumes "runWithLifecycle opts executor s = (r, t)" "ag_run (world s) = None"
    "\<And>l a. keeps (replayed l a) executor" "opts_move same_view opts"
  shows "\<exists>es. log t = log s @ es \<and> st_messages (world t) = st_messages (world s) @ ag.observed es \<and>
    st_errorMessage (world t) = st_errorMessage (replay es (beginRun (world s)))"
proof -
  let ?a = "beginRun (world s)"
  have "replayed (log s) ?a (s\<lparr>world := ?a\<rparr>)"
    by (auto simp: replayed_def intro: exI [of _ "[]"])
  from lifecycle_keeps [OF assms(1,2) assms(3) sink_keeps_agent [OF replayed_stable(1,2) assms(4)] this]
  obtain s1 where s1: "replayed (log s) ?a s1" "log t = log s1" "t = s1 \<or> world t = finishRun (world s1)" .
  then obtain es where es: "log t = log s @ es" "view (world s1) = view (replay es ?a)"
    by (auto simp: replayed_def)
  have "st_messages (world t) = st_messages (world s1)" "st_errorMessage (world t) = st_errorMessage (world s1)"
    using s1(3) by (auto simp: finishRun_def)
  with es show ?thesis
    by (intro exI [of _ es]) (simp add: view_def replay_messages, simp add: beginRun_def)
qed

section \<open>The events of a run\<close>

definition prompt_executor ::
  "nat \<Rightarrow> 'u agent_opts \<Rightarrow> bool \<Rightarrow> agent_message list \<Rightarrow> ('u agent, agent_message list option) loop_act" where
  "prompt_executor fuel opts skip messages = (\<lambda>s.
     runAgentLoop fuel (agent_env opts) (createLoopConfig opts (world s))
       (createContextSnapshot opts (world s)) messages (s\<lparr>world := (world s)\<lparr>ag_skipPoll := skip\<rparr>\<rparr>))"

lemma runPromptMessages_executor:
  "runPromptMessages fuel opts skip messages = runWithLifecycle opts (prompt_executor fuel opts skip messages)"
  by (simp add: runPromptMessages_def prompt_executor_def)

lemma send_log: "send env e s = (r, t) \<Longrightarrow> log t = log s @ [e]"
  by (auto simp: send_def emit_def hook_def Let_def split: prod.splits)

lemma executor_protocol:
  assumes "well_started (agent_env opts)" "prompt_executor fuel opts skip messages s = (r, t)"
  shows "\<exists>es. log t = log s @ es \<and> (case r of
      Inr (Some ms) \<Rightarrow> ag.run False Idle es = Some (Ended ms) \<and> ag.observed es = ms
    | _ \<Rightarrow> ag.run False Idle es \<noteq> None)"
  using ag.stepsD [OF steps_runAgentLoop [OF assms(1), of False] assms(2) [unfolded prompt_executor_def]]
  by (auto split: sum.splits option.splits)

text \<open>The events of a failed turn.\<close>

definition failed_turn :: "assistant_message \<Rightarrow> agent_event list" where
  "failed_turn m = [MessageStart (Llm (Assistant m)), MessageEnd (Llm (Assistant m)), TurnEnd m [],
     AgentEnd [Llm (Assistant m)]]"

lemma handleRunFailure_log:
  assumes "handleRunFailure opts e b s = (Inr x, t)"
  shows "log t = log s @ failed_turn (failure_message opts e b (world s))"
  using assms
  by (auto simp: handleRunFailure_def Let_def bindA_Inr act_simps failed_turn_def dest!: send_log)

lemma failure_message_fields [simp]:
  "am_errorMessage (failure_message opts e b a) = Some e"
  "am_stopReason (failure_message opts e b a) = (if b then Aborted else Error)"
  "tool_calls (failure_message opts e b a) = []"
  by (simp_all add: failure_message_def tool_calls_def List.map_filter_simps)

lemma replay_failed_turn:
  "st_errorMessage (replay (es @ failed_turn m) a) = (case am_errorMessage m of
      Some (c # e) \<Rightarrow> Some (c # e) | _ \<Rightarrow> st_errorMessage (replay es a))"
  by (auto simp: replay_def failed_turn_def split: option.split list.split)

section \<open>The budget of an agent\<close>

text \<open>Queued messages, and what the user's part of the state counts, are what a run lives on.\<close>

definition agent_budget :: "('u \<Rightarrow> nat) \<Rightarrow> 'u agent \<Rightarrow> nat" where
  "agent_budget \<nu> a = length (pq_messages (ag_steering a)) + length (pq_messages (ag_followUp a)) + \<nu> (ag_user a)"

definition spends :: "('u \<Rightarrow> nat) \<Rightarrow> 'u agent \<Rightarrow> 'u agent \<Rightarrow> bool" where
  "spends \<nu> a b \<longleftrightarrow> agent_budget \<nu> b \<le> agent_budget \<nu> a"

definition frugal_opts :: "('u \<Rightarrow> nat) \<Rightarrow> 'u agent_opts \<Rightarrow> bool" where
  "frugal_opts \<nu> opts \<longleftrightarrow> opts_move (spends \<nu>) opts \<and>
     (\<forall>req a resp. fst (opt_streamFn opts req a) = Inr resp \<and> tool_calls (resp_result resp) \<noteq> [] \<longrightarrow>
        agent_budget \<nu> (snd (opt_streamFn opts req a)) < agent_budget \<nu> a)"

lemma moves_spends: "moves (spends \<nu>) h \<longleftrightarrow> nonincr (agent_budget \<nu>) h"
  by (simp add: moves_def spends_def nonincr_def)

lemma option_moves_spends: "option_moves (spends \<nu>) f = option_nonincr (agent_budget \<nu>) f"
  by (cases f) (simp_all add: option_moves_def option_nonincr_def moves_spends)

lemma budget_simps [simp]:
  "agent_budget \<nu> (reduce_event e a) = agent_budget \<nu> a"
  "agent_budget \<nu> (beginRun a) = agent_budget \<nu> a"
  "agent_budget \<nu> (a\<lparr>ag_skipPoll := b\<rparr>) = agent_budget \<nu> a"
  by (cases e) (simp_all add: agent_budget_def beginRun_def split: option.split)

lemma pq_drain_length:
  "pq_drain q = (ms, q') \<Longrightarrow> length (pq_messages q') + length ms = length (pq_messages q)"
  by (auto simp: pq_drain_def split: queue_mode.splits list.splits)

lemma drains_spend:
  "frugal_poll (agent_budget \<nu>) (Some poll_steering)" "frugal_poll (agent_budget \<nu>) (Some drain_followUp)"
proof -
  have s: "agent_budget \<nu> (snd (poll_steering a)) + length ms = agent_budget \<nu> a"
    if "fst (poll_steering a) = Inr ms" for a :: "'a agent" and ms
    using that pq_drain_length [of "ag_steering a"]
    by (auto simp: poll_steering_def drain_steering_def agent_budget_def split: if_splits prod.splits)
  have f: "agent_budget \<nu> (snd (drain_followUp a)) + length ms = agent_budget \<nu> a"
    if "fst (drain_followUp a) = Inr ms" for a :: "'a agent" and ms
    using that pq_drain_length [of "ag_followUp a"]
    by (auto simp: drain_followUp_def agent_budget_def split: prod.splits)
  have e: "\<exists>ms. fst (poll_steering a) = Inr ms" "\<exists>ms. fst (drain_followUp a) = Inr ms" for a :: "'a agent"
    by (auto simp: poll_steering_def drain_steering_def drain_followUp_def split: prod.split)
  have general: "frugal_poll (agent_budget \<nu>) (Some h)"
    if h: "\<And>a ms. fst (h a) = Inr ms \<Longrightarrow> agent_budget \<nu> (snd (h a)) + length ms = agent_budget \<nu> a"
      and total: "\<And>a. \<exists>ms. fst (h a) = Inr ms" for h :: "('a agent, agent_message list) act"
    unfolding frugal_poll_def nonincr_def option.case
  proof (intro conjI allI impI)
    fix w
    obtain ms where "fst (h w) = Inr ms" using total by blast
    with h show "agent_budget \<nu> (snd (h w)) \<le> agent_budget \<nu> w" by fastforce
  next
    fix w ms
    assume "fst (h w) = Inr ms \<and> ms \<noteq> []"
    with h [of w ms] show "agent_budget \<nu> (snd (h w)) < agent_budget \<nu> w" by (cases ms) auto
  qed
  show "frugal_poll (agent_budget \<nu>) (Some poll_steering)" by (rule general) (use s e in blast)+
  show "frugal_poll (agent_budget \<nu>) (Some drain_followUp)" by (rule general) (use f e in blast)+
qed

lemma nonincr_forA:
  "(\<And>l. l \<in> set ls \<Longrightarrow> nonincr \<mu> (f l)) \<Longrightarrow> nonincr \<mu> (forA f ls)"
proof (induction ls)
  case (Cons l ls)
  have "nonincr \<mu> (f l)" "nonincr \<mu> (forA f ls)" using Cons by simp_all
  then show ?case
    by (auto simp: nonincr_def bindA_run split: prod.split sum.split) (metis le_trans snd_conv)+
qed (simp add: nonincr_def act_simps)

lemma frugal_agent:
  assumes "frugal_opts \<nu> opts"
  shows "frugal_env (agent_budget \<nu>) (agent_env opts)"
    "frugal_cfg (agent_budget \<nu>) (createLoopConfig opts a)"
    "frugal_ctx (agent_budget \<nu>) (createContextSnapshot opts a)"
proof -
  have m: "opts_move (spends \<nu>) opts" using assms by (simp add: frugal_opts_def)
  have tools: "frugal_ctx (agent_budget \<nu>) c"
    if "\<And>tools. ctx_tools c = Some tools \<Longrightarrow> tools_move (spends \<nu>) tools" for c
    using that by (auto simp: frugal_ctx_def tools_move_def spends_def split: option.split)
  have "nonincr (agent_budget \<nu>) (\<lambda>a. forA (\<lambda>l. l e) (opt_listeners opts) (reduce_event e a))" for e
  proof -
    have "nonincr (agent_budget \<nu>) (forA (\<lambda>l. l e) (opt_listeners opts))"
      using m by (intro nonincr_forA) (auto simp: opts_move_def moves_spends)
    then show ?thesis by (auto simp: nonincr_def) (metis budget_simps(1))
  qed
  then have "nonincr (agent_budget \<nu>) (processEvents opts e)" for e
    by (auto simp: nonincr_def processEvents_def Let_def)
  with m assms show "frugal_env (agent_budget \<nu>) (agent_env opts)"
    by (auto simp: frugal_env_def frugal_opts_def agent_env_def opts_move_def moves_spends)
  have c: "config_moves (spends \<nu>) (createLoopConfig opts a)"
    using m by (rule config_moves_agent) (simp add: spends_def)
  have next_turn: "option_nonincr (agent_budget \<nu>) (cfg_prepareNextTurn (createLoopConfig opts a))"
    using c by (auto simp: config_moves_def update_moves_def option_nonincr_def moves_spends split: option.split)
  have "frugal_ctx (agent_budget \<nu>) x"
    if "cfg_prepareNextTurn (createLoopConfig opts a) = Some f" "fst (f turn w) = Inr (Some u)"
      "upd_context u = Some x" for f turn w u x
  proof (rule tools)
    fix tl
    assume "ctx_tools x = Some tl"
    moreover have "update_moves (spends \<nu>) (f turn)" using c that(1) by (auto simp: config_moves_def)
    ultimately show "tools_move (spends \<nu>) tl" using that unfolding update_moves_def by blast
  qed
  then show "frugal_cfg (agent_budget \<nu>) (createLoopConfig opts a)"
    unfolding frugal_cfg_def using c next_turn
    by (auto simp: config_moves_def moves_spends option_moves_spends createLoopConfig_def
        intro: drains_spend [unfolded createLoopConfig_def])
  show "frugal_ctx (agent_budget \<nu>) (createContextSnapshot opts a)"
    using m by (intro tools) (simp add: createContextSnapshot_def opts_move_def)
qed

lemma executor_ends:
  assumes "frugal_opts \<nu> opts" "2 * agent_budget \<nu> (world s) + 1 < fuel"
  shows "fst (prompt_executor fuel opts skip messages s) \<noteq> Inr None"
  unfolding prompt_executor_def
  by (rule runAgentLoop_ends [OF frugal_agent [OF assms(1)]]) (use assms(2) in simp)

end
