(* ===== verification/AgentProps.thy ===== *)
theory AgentProps imports AgentLaws begin

text \<open>
  The properties of the stateful agent: its transcript is the log of its runs, its runs settle
  and leave it idle, failures are reported as a failed turn, only one run is active, and its
  queues deliver in order. The witnesses run an agent whose model calls the tool \<open>t\<close> as often
  as the user state counts.
\<close>

section \<open>A concrete agent\<close>

definition demo_agent_tool :: "nat agent agent_tool" where
  "demo_agent_tool = \<lparr>tool_name = ''t'', tool_description = [], tool_parameters = JNull, tool_label = [],
     tool_prepareArguments = None,
     tool_execute = (\<lambda>i x a. (\<lparr>run_updates = [demo_result], run_outcome = Inr demo_result\<rparr>, a)),
     tool_executionMode = None\<rparr>"

definition demo_stream :: "nat agent llm_request \<Rightarrow> (nat agent, response) act" where
  "demo_stream req a = (Inr (demo_response
      (if ag_user a = 0 then demo_message [] Stop else demo_message [AToolCallB demo_call] ToolUse)),
      a\<lparr>ag_user := ag_user a - 1\<rparr>)"

definition demo_opts :: "nat agent_opts" where
  "demo_opts = \<lparr>opt_tools = [demo_agent_tool], opt_convertToLlm = None, opt_transformContext = None,
     opt_streamFn = demo_stream, opt_getApiKey = None, opt_beforeToolCall = None,
     opt_afterToolCall = None, opt_shouldStopAfterTurn = None, opt_prepareNextTurn = None,
     opt_prepareNextTurnWithContext = None, opt_toolExecution = Parallel,
     opt_listeners = [\<lambda>e. retA ()], opt_now = (\<lambda>a. 0), opt_validate = (\<lambda>t c. retA (tc_arguments c)),
     opt_schedule = (\<lambda>a. [])\<rparr>"

definition demo_initial :: initial_state where
  "demo_initial = \<lparr>in_systemPrompt = None, in_model = None, in_thinkingLevel = None,
     in_messages = None, in_steeringMode = None, in_followUpMode = None\<rparr>"

definition demo_start :: "(nat agent, agent_event) logged" where
  "demo_start = \<lparr>world = createAgent demo_initial 1, log = []\<rparr>"

lemma demo_agent_started: "well_started (agent_env demo_opts)"
  by (auto simp: well_started_def agent_env_def demo_opts_def demo_stream_def demo_response_def)

lemma demo_agent_moves: "opts_move same_view demo_opts"
  by (simp add: opts_move_def demo_opts_def moves_def tools_move_def option_moves_def demo_agent_tool_def
      demo_stream_def same_view_def view_def act_simps)

lemma demo_agent_frugal: "frugal_opts (\<lambda>n. n) demo_opts"
  by (simp add: frugal_opts_def opts_move_def demo_opts_def moves_def tools_move_def option_moves_def
      demo_agent_tool_def demo_stream_def spends_def agent_budget_def act_simps demo_response_def
      demo_message_def tool_calls_def List.map_filter_simps)

lemma demo_agent_idle: "ag_run (world demo_start) = None" "log demo_start = []"
    "st_pendingToolCalls (world demo_start) = []" "ag_user (world demo_start) = 1"
    "st_messages (world demo_start) = []"
    "ag_steering (world demo_start) = pq_new OneAtATime" "ag_followUp (world demo_start) = pq_new OneAtATime"
  by (simp_all add: demo_start_def createAgent_def createMutableAgentState_def demo_initial_def)

lemma demo_agent_run: "fst (prompt 6 demo_opts (PromptText ''hi'' []) demo_start) = Inr (Some ())"
  by code_simp

section \<open>Properties\<close>

text \<open>
  C2. A prompt ends in one of two ways. When it returns, the agent is idle, the transcript has
  grown by exactly the messages whose \<open>message_end\<close> was emitted, in order, and either the events
  followed the protocol to an \<open>agent_end\<close> that carries these messages, or what was emitted
  before the error is a prefix of the protocol, and it is followed by one failed turn whose
  message says why and becomes the error message of the state. Callbacks may steer, abort and
  change their own state, but leave the view of the agent to the events.
\<close>

theorem prompt_outcome:
  assumes "well_started (agent_env opts)" "opts_move same_view opts" "ag_run (world s) = None"
    "prompt fuel opts p s = (Inr (Some ()), t)"
  shows "\<exists>es. log t = log s @ es \<and> idle (world t) \<and>
    st_messages (world t) = st_messages (world s) @ ag.observed es \<and>
    (ag.run False Idle es = Some (Ended (ag.observed es)) \<or>
     (\<exists>es0 m e. es = es0 @ failed_turn m \<and> ag.run False Idle es0 \<noteq> None \<and>
        am_stopReason m \<in> {Error, Aborted} \<and> am_errorMessage m = Some e \<and>
        (e \<noteq> [] \<longrightarrow> st_errorMessage (world t) = Some e)))"
proof -
  let ?ex = "prompt_executor fuel opts False (normalizePromptInput (opt_now opts (world s)) p)"
  have run: "runWithLifecycle opts ?ex s = (Inr (Some ()), t)"
    using assms(3,4) by (simp add: prompt_def runPromptMessages_executor)
  have "keeps (replayed l a) ?ex" for l a
    unfolding prompt_executor_def by (rule run_keeps_replayed [OF assms(2)])
  from lifecycle_replayed [OF run assms(3) this assms(2)]
  obtain es where es: "log t = log s @ es"
      "st_messages (world t) = st_messages (world s) @ ag.observed es"
      "st_errorMessage (world t) = st_errorMessage (replay es (beginRun (world s)))" by blast
  have idle: "idle (world t)" using lifecycle_idle [OF run assms(3)] by simp
  from run assms(3) show ?thesis
  proof (cases rule: lifecycle_cases)
    case (finished x s1)
    with executor_protocol [OF assms(1) finished(1)] es idle show ?thesis by (intro exI [of _ es]) auto
  next
    case (failed e s1 r2 s2)
    let ?m = "failure_message opts e (run_aborted (world s1)) (world s1)"
    from executor_protocol [OF assms(1) failed(1)] obtain es0
      where es0: "log s1 = log s @ es0" "ag.run False Idle es0 \<noteq> None" by auto
    have "log s2 = log s1 @ failed_turn ?m"
      using failed(2,3) by (auto intro: handleRunFailure_log split: sum.splits)
    with failed(4) es(1) es0(1) have "es = es0 @ failed_turn ?m" by simp
    moreover from this have "e \<noteq> [] \<longrightarrow> st_errorMessage (world t) = Some e"
      using es(3) by (simp add: replay_failed_turn split: list.split)
    ultimately show ?thesis
      using es idle es0(2) by (intro exI [of _ es] conjI disjI2 exI [of _ es0] exI [of _ ?m] exI [of _ e]) auto
  qed simp
qed

theorem prompt_outcome_witness:
  "\<exists>es t. prompt 6 demo_opts (PromptText ''hi'' []) demo_start = (Inr (Some ()), t) \<and> log t = es \<and>
     idle (world t) \<and> st_messages (world t) = ag.observed es"
proof -
  obtain t where t: "prompt 6 demo_opts (PromptText ''hi'' []) demo_start = (Inr (Some ()), t)"
    using demo_agent_run by (cases "prompt 6 demo_opts (PromptText ''hi'' []) demo_start") auto
  from prompt_outcome [OF demo_agent_started demo_agent_moves demo_agent_idle(1) t] t
  show ?thesis by (auto simp: demo_agent_idle)
qed

text \<open>
  C16. Every prompt settles. If callbacks do not enlarge the budget of the agent, which counts its
  queued messages and what the user state provides, and a response with tool calls spends some
  of it, then twice the budget and two rounds are enough for the prompt to settle, normally or
  with the error of a listener, and it leaves the agent idle, so that it can be prompted again.
\<close>

theorem prompt_settles:
  assumes "frugal_opts \<nu> opts" "ag_run (world s) = None" "2 * agent_budget \<nu> (world s) + 1 < fuel"
  shows "fst (prompt fuel opts p s) \<noteq> Inr None \<and> idle (world (snd (prompt fuel opts p s)))"
proof -
  let ?ex = "prompt_executor fuel opts False (normalizePromptInput (opt_now opts (world s)) p)"
  obtain r t where run: "runWithLifecycle opts ?ex s = (r, t)" by fastforce
  have "fst (?ex (s\<lparr>world := beginRun (world s)\<rparr>)) \<noteq> Inr None"
    using assms by (intro executor_ends [OF assms(1)]) simp
  with run assms(2) have "r \<noteq> Inr None"
    by (cases rule: lifecycle_cases) (auto split: sum.splits)
  with run assms(2) lifecycle_idle [OF run assms(2)] show ?thesis
    by (simp add: prompt_def runPromptMessages_executor)
qed

theorem prompt_settles_witness:
  "fst (prompt 4 demo_opts (PromptText ''hi'' []) demo_start) \<noteq> Inr None"
  using prompt_settles [OF demo_agent_frugal demo_agent_idle(1), of 4 "PromptText ''hi'' []"]
  by (simp add: agent_budget_def demo_agent_idle pq_new_def)

text \<open>The failure report is the events of a failed turn, each given to the sink.\<close>

lemma handleRunFailure_sends:
  "handleRunFailure opts e b s =
   forA (send (agent_env opts)) (failed_turn (failure_message opts e b (world s))) s"
  by (simp add: handleRunFailure_def failed_turn_def Let_def bindA_run act_simps split: prod.split sum.split)

text \<open>One event given to the agent: it is applied to the state, whatever the listeners then do.\<close>

lemma send_agent_view:
  assumes "\<forall>l\<in>set (opt_listeners opts). \<forall>e. moves same_view (l e)"
    "send (agent_env opts) e s = (r, t)"
  shows "log t = log s @ [e] \<and> view (world t) = view (reduce_event e (world s))"
proof -
  let ?a = "reduce_event e (world s)" let ?s = "s\<lparr>log := log s @ [e], world := ?a\<rparr>"
  let ?I = "\<lambda>u. log u = log s @ [e] \<and> view (world u) = view ?a"
  have "stable same_view ?I" by (auto simp: stable_def same_view_def)
  moreover have "\<forall>l\<in>set (opt_listeners opts). moves same_view (l e)" using assms(1) by blast
  ultimately have "?I (?s\<lparr>world := snd (forA (\<lambda>l. l e) (opt_listeners opts) (world ?s))\<rparr>)"
    by (rule stable_listeners) simp
  then show ?thesis
    using assms(2) by (auto simp: send_def emit_def hook_def agent_env_def processEvents_def Let_def
        split: prod.splits if_splits)
qed

lemma sends_agent_view:
  assumes "\<forall>l\<in>set (opt_listeners opts). \<forall>e. moves same_view (l e)"
  shows "forA (send (agent_env opts)) evs s = (r, t) \<Longrightarrow> \<exists>n. log t = log s @ take n evs \<and>
    view (world t) = view (replay (take n evs) (world s)) \<and>
    (case r of Inr _ \<Rightarrow> length evs \<le> n | Inl _ \<Rightarrow> 1 \<le> n)"
proof (induction evs arbitrary: s)
  case (Cons e evs)
  obtain r1 s1 where 1: "send (agent_env opts) e s = (r1, s1)" by fastforce
  note v = send_agent_view [OF assms 1]
  show ?case
  proof (cases r1)
    case (Inl x)
    with Cons.prems 1 v show ?thesis by (intro exI [of _ 1]) (auto simp: bindA_run replay_def)
  next
    case (Inr x)
    with Cons.prems 1 have "forA (send (agent_env opts)) evs s1 = (r, t)" by (simp add: bindA_run)
    from Cons.IH [OF this] obtain n where n: "log t = log s1 @ take n evs"
        "view (world t) = view (replay (take n evs) (world s1))"
        "case r of Inr _ \<Rightarrow> length evs \<le> n | Inl _ \<Rightarrow> 1 \<le> n" by blast
    have "view (replay (take n evs) (world s1)) = view (replay (take n evs) (reduce_event e (world s)))"
      using v by (intro view_replay) simp
    with n v show ?thesis by (intro exI [of _ "Suc n"]) (auto simp: replay_def split: sum.splits)
  qed
qed (auto simp: act_simps)

text \<open>Listeners that return, and leave the run active.\<close>

definition undisturbed :: "(agent_event \<Rightarrow> ('u agent, unit) act) list \<Rightarrow> bool" where
  "undisturbed ls \<longleftrightarrow> (\<forall>l\<in>set ls. \<forall>e a. fst (l e a) = Inr () \<and>
     (ag_run a \<noteq> None \<longrightarrow> ag_run (snd (l e a)) \<noteq> None))"

lemma undisturbed_listeners:
  "undisturbed ls \<Longrightarrow> ag_run a \<noteq> None \<Longrightarrow> \<exists>b. forA (\<lambda>l. l e) ls a = (Inr (), b) \<and> ag_run b \<noteq> None"
proof (induction ls arbitrary: a)
  case (Cons l ls)
  obtain r b where b: "l e a = (r, b)" by fastforce
  with Cons.prems have "r = Inr ()" "ag_run b \<noteq> None" unfolding undisturbed_def by (metis fst_conv snd_conv list.set_intros(1))+
  moreover have "undisturbed ls" using Cons.prems(1) by (simp add: undisturbed_def)
  ultimately show ?case using Cons.IH [of b] b by (simp add: bindA_run)
qed (simp add: act_simps)

lemma reduce_run [simp]: "ag_run (reduce_event e a) = ag_run a"
  by (cases e) (simp_all split: option.split)

lemma sends_undisturbed:
  "undisturbed (opt_listeners opts) \<Longrightarrow> ag_run (world s) \<noteq> None \<Longrightarrow>
   fst (forA (send (agent_env opts)) evs s) = Inr ()"
proof (induction evs arbitrary: s)
  case (Cons e evs)
  obtain b where b: "forA (\<lambda>l. l e) (opt_listeners opts) (reduce_event e (world s)) = (Inr (), b)" "ag_run b \<noteq> None"
    using undisturbed_listeners [OF Cons.prems(1), of "reduce_event e (world s)" e] Cons.prems(2) by auto
  have "send (agent_env opts) e s = (Inr (), s\<lparr>log := log s @ [e], world := b\<rparr>)"
    using b(1) Cons.prems(2)
    by (auto simp add: send_def emit_def hook_def agent_env_def processEvents_def Let_def)
  with Cons.IH [of "s\<lparr>log := log s @ [e], world := b\<rparr>"] Cons.prems(1) b(2) show ?case
    by (simp add: bindA_run)
qed (simp add: act_simps)

text \<open>
  C32. A run that fails is reported. When the executor throws, the events of a failed turn follow
  what was emitted, and its message says why, with the stop reason \<open>aborted\<close> exactly if the abort
  controller fired. If the listeners return and leave the run active, all four events are
  reported, the run succeeds, and the failure message ends the transcript and is the error of
  the state. If a listener throws, the run rejects and the report ends with that event; the
  transcript and the error of the state are then those of the events reported so far. In every
  case the agent is idle. Listeners may steer, abort and change their own state, but leave the
  view of the agent to the events.
\<close>

theorem failed_run_reported:
  assumes "ag_run (world s) = None" "executor (s\<lparr>world := beginRun (world s)\<rparr>) = (Inl e, s1)"
    "\<forall>l\<in>set (opt_listeners opts). \<forall>ev. moves same_view (l ev)"
    "m = failure_message opts e (run_aborted (world s1)) (world s1)"
    "runWithLifecycle opts executor s = (r, t)"
  shows "am_stopReason m = (if run_aborted (world s1) then Aborted else Error) \<and>
    am_errorMessage m = Some e \<and> idle (world t) \<and>
    (\<exists>n. 1 \<le> n \<and> n \<le> 4 \<and> log t = log s1 @ take n (failed_turn m) \<and>
       st_messages (world t) = st_messages (world s1) @ (if 2 \<le> n then [Llm (Assistant m)] else []) \<and>
       st_errorMessage (world t) = (if 3 \<le> n \<and> e \<noteq> [] then Some e else st_errorMessage (world s1)) \<and>
       (r = Inr (Some ()) \<and> n = 4 \<or> (\<exists>e2. r = Inl e2))) \<and>
    (undisturbed (opt_listeners opts) \<and> ag_run (world s1) \<noteq> None \<longrightarrow> r = Inr (Some ()))"
proof -
  obtain r2 s2 where 2: "forA (send (agent_env opts)) (failed_turn m) s1 = (r2, s2)" by fastforce
  have run: "r = (case r2 of Inl e2 \<Rightarrow> Inl e2 | Inr _ \<Rightarrow> Inr (Some ()))" "log t = log s2"
      "world t = finishRun (world s2)"
    using assms(1,2,5) 2
    by (auto simp: runWithLifecycle_def handleRunFailure_sends assms(4) split: prod.splits sum.splits)
  have four: "length (failed_turn m) = 4" by (simp add: failed_turn_def)
  from sends_agent_view [OF assms(3) 2, unfolded four] obtain k where k: "log s2 = log s1 @ take k (failed_turn m)"
      "view (world s2) = view (replay (take k (failed_turn m)) (world s1))"
      "case r2 of Inr _ \<Rightarrow> 4 \<le> k | Inl _ \<Rightarrow> 1 \<le> k" by blast
  define n where "n = min k 4"
  have take: "take k (failed_turn m) = take n (failed_turn m)" by (simp add: n_def failed_turn_def min_def)
  have n: "1 \<le> n" "n \<le> 4" "r = Inr (Some ()) \<and> n = 4 \<or> (\<exists>e2. r = Inl e2)"
    using k(3) run(1) by (auto simp: n_def split: sum.splits)
  have m: "am_errorMessage m = Some e" "am_stopReason m = (if run_aborted (world s1) then Aborted else Error)"
    by (simp_all add: assms(4))
  from n(1,2) have "n = 1 \<or> n = 2 \<or> n = 3 \<or> n = 4" by linarith
  then have state: "st_messages (world t) = st_messages (world s1) @ (if 2 \<le> n then [Llm (Assistant m)] else [])"
      "st_errorMessage (world t) = (if 3 \<le> n \<and> e \<noteq> [] then Some e else st_errorMessage (world s1))"
    using k(2) m(1) unfolding take run(3)
    by (auto simp: view_def finishRun_def failed_turn_def replay_def)
  have "r = Inr (Some ())" if "undisturbed (opt_listeners opts)" "ag_run (world s1) \<noteq> None"
    using sends_undisturbed [OF that, of "failed_turn m"] 2 run(1) by simp
  with m n state run k(1) take show ?thesis by (auto simp: idle_finishRun intro!: exI [of _ n])
qed

text \<open>A listener that throws at \<open>turn_end\<close>, and one that steers.\<close>

theorem failed_run_reported_witness:
  "\<exists>m t t'. runWithLifecycle (demo_opts\<lparr>opt_listeners := [\<lambda>e a. (Inr (), steer demo_prompt a)]\<rparr>)
      (\<lambda>s. (Inl ''boom'', s\<lparr>world := abort (world s)\<rparr>)) demo_start = (Inr (Some ()), t) \<and>
     log t = failed_turn m \<and> st_errorMessage (world t) = Some ''boom'' \<and> am_stopReason m = Aborted \<and>
     runWithLifecycle (demo_opts\<lparr>opt_listeners :=
         [\<lambda>e a. if (case e of TurnEnd _ _ \<Rightarrow> True | _ \<Rightarrow> False) then (Inl ''listener'', a) else (Inr (), a)]\<rparr>)
      (\<lambda>s. (Inl ''boom'', s)) demo_start = (Inl ''listener'', t') \<and>
     length (st_messages (world t')) = 1 \<and> idle (world t')"
proof -
  let ?o1 = "demo_opts\<lparr>opt_listeners := [\<lambda>e a. (Inr (), steer demo_prompt a)]\<rparr>"
  let ?x1 = "\<lambda>s :: (nat agent, agent_event) logged. (Inl ''boom'', s\<lparr>world := abort (world s)\<rparr>)"
  let ?l2 = "\<lambda>e (a :: nat agent). if (case e of TurnEnd _ _ \<Rightarrow> True | _ \<Rightarrow> False)
    then (Inl ''listener'', a) else (Inr (), a)"
  let ?o2 = "demo_opts\<lparr>opt_listeners := [?l2]\<rparr>"
  let ?x2 = "\<lambda>s :: (nat agent, agent_event) logged. (Inl ''boom'', s)"
  obtain r t where 1: "runWithLifecycle ?o1 ?x1 demo_start = (r, t)" by fastforce
  have l1: "\<forall>l\<in>set (opt_listeners ?o1). \<forall>ev. moves same_view (l ev)" "undisturbed (opt_listeners ?o1)"
    by (simp_all add: moves_def undisturbed_def steer_def same_view_def view_def)
  let ?s1 = "demo_start\<lparr>world := abort (beginRun (world demo_start))\<rparr>"
  have "?x1 (demo_start\<lparr>world := beginRun (world demo_start)\<rparr>) = (Inl ''boom'', ?s1)" by simp
  from failed_run_reported [OF demo_agent_idle(1) this l1(1) refl 1] l1(2)
  have t: "r = Inr (Some ())" "log t = failed_turn (failure_message ?o1 ''boom'' True (world ?s1))"
      "st_errorMessage (world t) = Some ''boom''"
    by (auto simp: abort_def beginRun_def run_aborted_def demo_agent_idle failed_turn_def)
  obtain r' t' where 2: "runWithLifecycle ?o2 ?x2 demo_start = (r', t')" by fastforce
  have l2: "\<forall>l\<in>set (opt_listeners ?o2). \<forall>ev. moves same_view (l ev)"
    by (simp add: moves_def same_view_refl)
  let ?s2 = "demo_start\<lparr>world := beginRun (world demo_start)\<rparr>"
  have "?x2 ?s2 = (Inl ''boom'', ?s2)" by simp
  from failed_run_reported [OF demo_agent_idle(1) this l2 refl 2] have i: "idle (world t')" by blast
  have "r' = Inl ''listener''" "length (st_messages (world t')) = 1"
    using 2 by (auto simp: runWithLifecycle_def handleRunFailure_sends failed_turn_def demo_agent_idle
        send_def emit_def hook_def agent_env_def processEvents_def beginRun_def finishRun_def bindA_run act_simps)
  with t 1 2 i show ?thesis by (intro exI [of _ "failure_message ?o1 ''boom'' True (world ?s1)"] exI [of _ t] exI [of _ t']) auto
qed

text \<open>
  One run at a time. While a run is active, from inside a tool, a hook or a listener, prompting,
  continuing and resetting throw and change nothing, neither the state nor the log; steering,
  queueing follow-ups and aborting do not end the run.
\<close>

theorem one_run_at_a_time:
  assumes "ag_run (world s) = Some fired"
  shows "\<exists>e1 e2 e3 e4. prompt fuel opts p s = (Inl e1, s) \<and> continue_agent fuel opts s = (Inl e2, s) \<and>
    runWithLifecycle opts executor s = (Inl e3, s) \<and> reset (world s) = (Inl e4, world s) \<and>
    ag_run (steer m (world s)) = Some fired \<and> ag_run (followUp m (world s)) = Some fired \<and>
    ag_run (abort (world s)) = Some True \<and> run_aborted (abort (world s))"
  using assms
  by (simp add: prompt_def continue_agent_def runWithLifecycle_def reset_def steer_def followUp_def
      abort_def run_aborted_def)

theorem one_run_at_a_time_witness:
  "\<exists>e. prompt 3 demo_opts (PromptText ''hi'' []) (demo_start\<lparr>world := beginRun (world demo_start)\<rparr>) =
     (Inl e, demo_start\<lparr>world := beginRun (world demo_start)\<rparr>)"
  using one_run_at_a_time [of "demo_start\<lparr>world := beginRun (world demo_start)\<rparr>" False 3 demo_opts
      "PromptText ''hi'' []"]
  by (auto simp: beginRun_def)

text \<open>A call id that a log has started and, since, not ended; what the monitor has executing.\<close>

definition started_not_ended :: "agent_event list \<Rightarrow> string \<Rightarrow> bool" where
  "started_not_ended es i \<longleftrightarrow> (\<exists>pre post n x. es = pre @ ToolStart i n x # post \<and>
     (\<forall>n r b. ToolEnd i n r b \<notin> set post))"

fun executing :: "phase \<Rightarrow> string set" where
  "executing (InTurn T ms) = set_mset T"
| "executing _ = {}"

lemma started_not_ended_snoc:
  "started_not_ended (es @ [e]) i \<longleftrightarrow> (\<exists>n x. e = ToolStart i n x) \<or>
     started_not_ended es i \<and> (\<forall>n r b. e \<noteq> ToolEnd i n r b)"
proof
  assume "started_not_ended (es @ [e]) i"
  then obtain pre post n x where h: "es @ [e] = pre @ ToolStart i n x # post" "\<forall>n r b. ToolEnd i n r b \<notin> set post"
    by (auto simp: started_not_ended_def)
  show "(\<exists>n x. e = ToolStart i n x) \<or> started_not_ended es i \<and> (\<forall>n r b. e \<noteq> ToolEnd i n r b)"
  proof (cases post rule: rev_cases)
    case (snoc post' e')
    with h have "es = pre @ ToolStart i n x # post'" "e = e'" by auto
    moreover have "\<forall>n r b. ToolEnd i n r b \<notin> set post'" "\<forall>n r b. e' \<noteq> ToolEnd i n r b"
      using h(2) snoc by auto
    ultimately show ?thesis unfolding started_not_ended_def by blast
  qed (use h in auto)
next
  assume "(\<exists>n x. e = ToolStart i n x) \<or> started_not_ended es i \<and> (\<forall>n r b. e \<noteq> ToolEnd i n r b)"
  then show "started_not_ended (es @ [e]) i"
  proof (elim disjE exE conjE)
    fix n x
    assume "e = ToolStart i n x"
    then show ?thesis
      unfolding started_not_ended_def by (intro exI [of _ es] exI [of _ "[]"] exI [of _ n] exI [of _ x]) simp
  next
    assume "started_not_ended es i" and e: "\<forall>n r b. e \<noteq> ToolEnd i n r b"
    then obtain pre post n x where "es = pre @ ToolStart i n x # post" "\<forall>n r b. ToolEnd i n r b \<notin> set post"
      by (auto simp: started_not_ended_def)
    with e show ?thesis
      unfolding started_not_ended_def by (intro exI [of _ pre] exI [of _ "post @ [e]"] exI [of _ n] exI [of _ x]) auto
  qed
qed

lemma replay_pending:
  assumes "st_pendingToolCalls a = []"
  shows "distinct (st_pendingToolCalls (replay es a)) \<and>
    (\<forall>i. i \<in> set (st_pendingToolCalls (replay es a)) \<longleftrightarrow> started_not_ended es i)"
proof (induction es rule: rev_induct)
  case Nil
  with assms show ?case by (simp add: started_not_ended_def)
next
  case (snoc e es)
  then show ?case
    by (cases e) (auto simp: started_not_ended_snoc add_pending_def distinct_removeAll split: option.splits)
qed

lemma pending_within:
  "ag.run all Idle es = Some q \<Longrightarrow> started_not_ended es i \<Longrightarrow> i \<in> executing q"
proof (induction es arbitrary: q rule: rev_induct)
  case (snoc e es)
  then obtain p where p: "ag.run all Idle es = Some p" "agent_step all p e = Some q"
    by (auto simp: ag.run_append split: option.splits)
  from snoc.prems(2) snoc.IH [OF p(1)] have
    "(\<exists>n x. e = ToolStart i n x) \<or> i \<in> executing p \<and> (\<forall>n r b. e \<noteq> ToolEnd i n r b)"
    by (auto simp: started_not_ended_snoc)
  with p(2) show ?case
    by (cases p; cases e) (auto split: if_splits simp: in_diff_count)
qed (simp add: started_not_ended_def)

text \<open>
  C31. The pending tool calls of the agent are those that are executing. However a run of the loop
  over the agent ends, the identifiers its state lists as pending are, without repetition, exactly
  those whose call the events of the run have started and not ended, and the protocol has them executing;
  so none is pending while a message is streamed, between turns and after the run. A listener that
  throws ends a run where it is, so this holds of the state every listener sees. Callbacks may
  steer, abort and change their own state, but leave the view of the agent to the events.
\<close>

theorem pending_calls_executing:
  assumes "well_started (agent_env opts)" "opts_move same_view opts" "st_pendingToolCalls (world s) = []"
    "runAgentLoop fuel (agent_env opts) (createLoopConfig opts a) (createContextSnapshot opts a) prompts s = (r, t)"
  shows "\<exists>es q. log t = log s @ es \<and> ag.run False Idle es = Some q \<and>
    distinct (st_pendingToolCalls (world t)) \<and>
    set (st_pendingToolCalls (world t)) = {i. started_not_ended es i} \<and>
    set (st_pendingToolCalls (world t)) \<subseteq> executing q"
proof -
  from ag.stepsD [OF steps_runAgentLoop [OF assms(1), of False] assms(4)]
  obtain es q where es: "log t = log s @ es" "ag.run False Idle es = Some q" by (cases r) auto
  have "replayed (log s) (world s) s" by (auto simp: replayed_def intro: exI [of _ "[]"])
  from keepsD [OF keeps_runAgentLoop(1) [OF loop_keeps_agent [OF replayed_stable assms(2) same_view_refl]] assms(4) this]
  have "view (world t) = view (replay es (world s))" by (auto simp: replayed_def es(1))
  then have "st_pendingToolCalls (world t) = st_pendingToolCalls (replay es (world s))" by (simp add: view_def)
  with replay_pending [OF assms(3), of es] pending_within [OF es(2)] es show ?thesis
    by (intro exI [of _ es] exI [of _ q]) auto
qed

text \<open>A listener that throws when the call \<open>c\<close> starts: the call is pending.\<close>

definition stop_at_start :: "agent_event \<Rightarrow> (nat agent, unit) act" where
  "stop_at_start e = (case e of ToolStart i n x \<Rightarrow> throwA ''stop'' | _ \<Rightarrow> retA ())"

lemma stopped_run:
  "let (r, t) = runAgentLoop 4 (agent_env (demo_opts\<lparr>opt_listeners := [stop_at_start]\<rparr>))
      (createLoopConfig demo_opts (beginRun (world demo_start)))
      (createContextSnapshot demo_opts (beginRun (world demo_start))) [demo_prompt]
      (demo_start\<lparr>world := beginRun (world demo_start)\<rparr>)
   in r = Inl ''stop'' \<and> st_pendingToolCalls (world t) = [''c'']"
  by code_simp

theorem pending_calls_executing_witness:
  "\<exists>es t. runAgentLoop 4 (agent_env (demo_opts\<lparr>opt_listeners := [stop_at_start]\<rparr>))
      (createLoopConfig demo_opts (beginRun (world demo_start)))
      (createContextSnapshot demo_opts (beginRun (world demo_start))) [demo_prompt]
      (demo_start\<lparr>world := beginRun (world demo_start)\<rparr>) = (Inl ''stop'', t) \<and>
     log t = es \<and> st_pendingToolCalls (world t) = [''c''] \<and> started_not_ended es ''c''"
proof -
  let ?o = "demo_opts\<lparr>opt_listeners := [stop_at_start]\<rparr>" let ?a = "beginRun (world demo_start)"
  have same: "createLoopConfig ?o ?a = createLoopConfig demo_opts ?a"
      "createContextSnapshot ?o ?a = createContextSnapshot demo_opts ?a"
    by (simp_all add: createLoopConfig_def createContextSnapshot_def demo_opts_def)
  have o: "well_started (agent_env ?o)" "opts_move same_view ?o"
    using demo_agent_started demo_agent_moves
    by (auto simp: well_started_def agent_env_def opts_move_def moves_def stop_at_start_def act_simps
        same_view_refl split: agent_event.split)
  have "st_pendingToolCalls (world (demo_start\<lparr>world := ?a\<rparr>)) = []" "log (demo_start\<lparr>world := ?a\<rparr>) = []"
    by (simp_all add: beginRun_def demo_agent_idle)
  note p = pending_calls_executing [OF o this(1), unfolded this(2)]
  obtain r t where run: "runAgentLoop 4 (agent_env ?o) (createLoopConfig ?o ?a) (createContextSnapshot ?o ?a)
      [demo_prompt] (demo_start\<lparr>world := ?a\<rparr>) = (r, t)" by fastforce
  have "r = Inl ''stop''" "st_pendingToolCalls (world t) = [''c'']"
    using stopped_run run by (simp_all add: same Let_def)
  with p [OF run] run show ?thesis by (auto simp: same)
qed

text \<open>
  Queued messages are delivered once and in order. Whatever the sequence of enqueues, drains and
  changes of mode, what was drained followed by what is still queued is what was queued at
  first followed by what was enqueued; a drain of a nonempty queue delivers something, exactly
  one message in the mode \<open>one-at-a-time\<close> and all of them in the mode \<open>all\<close>.
\<close>

datatype queue_op = Enqueue agent_message | Drain | SetMode queue_mode

fun queue_run :: "queue_op list \<Rightarrow> message_queue \<Rightarrow> agent_message list list \<times> message_queue" where
  "queue_run [] q = ([], q)"
| "queue_run (Enqueue m # ops) q = queue_run ops (pq_enqueue m q)"
| "queue_run (SetMode mode # ops) q = queue_run ops (q\<lparr>pq_mode := mode\<rparr>)"
| "queue_run (Drain # ops) q = (let (ms, q1) = pq_drain q; (out, q2) = queue_run ops q1 in (ms # out, q2))"

fun enqueued :: "queue_op list \<Rightarrow> agent_message list" where
  "enqueued [] = []"
| "enqueued (Enqueue m # ops) = m # enqueued ops"
| "enqueued (_ # ops) = enqueued ops"

lemma pq_drain_split: "pq_drain q = (ms, q') \<Longrightarrow> ms @ pq_messages q' = pq_messages q \<and> pq_mode q' = pq_mode q"
  by (auto simp: pq_drain_def split: queue_mode.splits list.splits)

lemma queue_run_fifo:
  "queue_run ops q = (outs, q') \<Longrightarrow> concat outs @ pq_messages q' = pq_messages q @ enqueued ops"
proof (induction ops q arbitrary: outs rule: queue_run.induct)
  case (4 ops q)
  obtain ms q1 where 1: "pq_drain q = (ms, q1)" by fastforce
  obtain out q2 where 2: "queue_run ops q1 = (out, q2)" by fastforce
  from 4 1 2 pq_drain_split [OF 1] show ?case by auto
qed (auto simp: pq_enqueue_def)

theorem queue_in_order:
  "let (outs, q') = queue_run ops q in
     concat outs @ pq_messages q' = pq_messages q @ enqueued ops \<and>
     fst (pq_drain q') = (if pq_mode q' = All then pq_messages q' else take 1 (pq_messages q')) \<and>
     pq_messages (snd (pq_drain q')) = (if pq_mode q' = All then [] else drop 1 (pq_messages q')) \<and>
     (pq_hasItems q' = (fst (pq_drain q') \<noteq> []))"
proof -
  obtain outs q' where r: "queue_run ops q = (outs, q')" by fastforce
  from queue_run_fifo [OF r] show ?thesis
    by (auto simp: r pq_drain_def pq_hasItems_def split: queue_mode.split list.split)
qed

text \<open>
  Continuing. \<open>continue\<close> appends to the transcript exactly the messages its run ends, whether it
  resumes from the last message or takes queued messages as prompts; once it settles no run is
  active. With nothing to continue from, an empty transcript or an assistant message last and
  both queues empty, it throws and changes nothing.
\<close>

lemma drain_outcome:
  "hook drain_steering s = (Inr (fst (pq_drain (ag_steering (world s)))),
     s\<lparr>world := (world s)\<lparr>ag_steering := snd (pq_drain (ag_steering (world s)))\<rparr>\<rparr>)"
  "hook drain_followUp s = (Inr (fst (pq_drain (ag_followUp (world s)))),
     s\<lparr>world := (world s)\<lparr>ag_followUp := snd (pq_drain (ag_followUp (world s)))\<rparr>\<rparr>)"
  by (simp_all add: hook_def drain_steering_def drain_followUp_def split_beta Let_def)

lemma pq_drain_empty: "pq_messages q = [] \<Longrightarrow> pq_drain q = ([], q)"
  by (simp add: pq_drain_def split: queue_mode.split)

definition run_outcome :: "'u agent \<Rightarrow> agent_event list \<Rightarrow> ('u agent, agent_event) logged \<Rightarrow> bool \<Rightarrow> bool" where
  "run_outcome a l t settled \<longleftrightarrow> (settled \<longrightarrow> ag_run (world t) = None) \<and>
     (\<exists>es. log t = l @ es \<and> st_messages (world t) = st_messages a @ ag.observed es)"

lemma lifecycle_outcome:
  assumes "runWithLifecycle opts executor s = (r, t)" "ag_run (world s) = None"
    "\<And>l a. keeps (replayed l a) executor" "opts_move same_view opts"
    "st_messages (world s) = st_messages a" "log s = l"
  shows "run_outcome a l t (r \<noteq> Inr None)"
  using lifecycle_replayed [OF assms(1-4)] lifecycle_idle [OF assms(1,2)] assms(5,6)
  by (auto simp: run_outcome_def idle_def)

lemma runs_outcome:
  assumes "ag_run (world s) = None" "opts_move same_view opts" "st_messages (world s) = st_messages a" "log s = l"
  shows "runPromptMessages fuel opts b ms s = (r, t) \<Longrightarrow> run_outcome a l t (r \<noteq> Inr None)"
    "runContinuation fuel opts s = (r, t) \<Longrightarrow> run_outcome a l t (r \<noteq> Inr None)"
  unfolding runPromptMessages_def runContinuation_def
  by (erule lifecycle_outcome [OF _ assms(1) run_keeps_replayed(1) [OF assms(2)] assms(2-4)],
      erule lifecycle_outcome [OF _ assms(1) run_keeps_replayed(2) [OF assms(2)] assms(2-4)])

theorem continue_outcome:
  assumes "opts_move same_view opts" "ag_run (world s) = None" "continue_agent fuel opts s = (r, t)"
  shows "(r \<noteq> Inr None \<longrightarrow> ag_run (world t) = None) \<and>
    (\<exists>es. log t = log s @ es \<and> st_messages (world t) = st_messages (world s) @ ag.observed es) \<and>
    (st_messages (world s) = [] \<or> role (last (st_messages (world s))) = ''assistant'' \<and>
       \<not> hasQueuedMessages (world s) \<longrightarrow> (\<exists>e. r = Inl e) \<and> t = s)"
proof -
  let ?s1 = "s\<lparr>world := (world s)\<lparr>ag_steering := snd (pq_drain (ag_steering (world s)))\<rparr>\<rparr>"
  let ?s2 = "?s1\<lparr>world := (world ?s1)\<lparr>ag_followUp := snd (pq_drain (ag_followUp (world s)))\<rparr>\<rparr>"
  have runs: "runPromptMessages fuel opts b ms u = (r, t) \<Longrightarrow> run_outcome (world s) (log s) t (r \<noteq> Inr None)"
    "runContinuation fuel opts u = (r, t) \<Longrightarrow> run_outcome (world s) (log s) t (r \<noteq> Inr None)"
    if "u \<in> {s, ?s1, ?s2}" for u b ms
    using that assms(2) by (auto elim!: runs_outcome [OF _ assms(1), rotated -1])
  have stays: "run_outcome (world s) (log s) u b" if "u \<in> {s, ?s1, ?s2}" for u b
    using that assms(2) by (auto simp: run_outcome_def)
  have out: "run_outcome (world s) (log s) t (r \<noteq> Inr None)"
    using assms(2,3) stays
    by (auto simp: continue_agent_def bindA_run drain_outcome act_simps split: if_splits
        intro: runs [of s] runs [of ?s1] runs [of ?s2])
  have "(\<exists>e. r = Inl e) \<and> t = s" if "st_messages (world s) = [] \<or>
      role (last (st_messages (world s))) = ''assistant'' \<and> \<not> hasQueuedMessages (world s)"
    using that assms(2,3)
    by (auto simp: continue_agent_def bindA_run drain_outcome act_simps hasQueuedMessages_def
        pq_hasItems_def pq_drain_empty split: if_splits)
  with out show ?thesis by (simp add: run_outcome_def)
qed

theorem continue_outcome_witness:
  "\<exists>e. continue_agent 3 demo_opts demo_start = (Inl e, demo_start)"
proof -
  obtain r t where "continue_agent 3 demo_opts demo_start = (r, t)" by fastforce
  with continue_outcome [OF demo_agent_moves demo_agent_idle(1) this] show ?thesis
    by (auto simp: demo_agent_idle)
qed

end
