(* ===== verification/CodingMessages.thy ===== *)
theory CodingMessages imports Messages begin

text \<open>
  The message kinds the coding agent adds to a conversation, how they are created from session
  data, and their translation into messages a model accepts
  (\<open>packages/coding-agent/src/core/messages.ts\<close>).
\<close>

section \<open>The message kinds\<close>

definition newline :: char where
  "newline = char_of (10 :: nat)"

definition backtick :: char where
  "backtick = char_of (96 :: nat)"

definition COMPACTION_SUMMARY_PREFIX :: string where
  "COMPACTION_SUMMARY_PREFIX =
     ''The conversation history before this point was compacted into the following summary:''
     @ [newline, newline] @ ''<summary>'' @ [newline]"

definition COMPACTION_SUMMARY_SUFFIX :: string where
  "COMPACTION_SUMMARY_SUFFIX = newline # ''</summary>''"

definition BRANCH_SUMMARY_PREFIX :: string where
  "BRANCH_SUMMARY_PREFIX =
     ''The following is a summary of a branch that this conversation came back from:''
     @ [newline, newline] @ ''<summary>'' @ [newline]"

definition BRANCH_SUMMARY_SUFFIX :: string where
  "BRANCH_SUMMARY_SUFFIX = ''</summary>''"

record bash_execution =
  be_command :: string
  be_output :: string
  be_exitCode :: "int option"
  be_cancelled :: bool
  be_truncated :: bool
  be_fullOutputPath :: "string option"
  be_timestamp :: nat
  be_excludeFromContext :: "bool option"

record custom_message =
  cu_customType :: string
  cu_content :: user_content
  cu_display :: bool
  cu_details :: "json option"
  cu_timestamp :: nat

record branch_summary_message =
  bm_summary :: string
  bm_fromId :: "string option"
  bm_timestamp :: nat

record compaction_summary_message =
  cm_summary :: string
  cm_tokensBefore :: nat
  cm_timestamp :: nat

text \<open>
  \<open>AgentMessage\<close> with the coding agent's declarations merged in. \<open>Unlisted\<close> is a message whose
  role is none of these, such as the \<open>hookMessage\<close> of old session files.
\<close>

datatype coding_message =
    Core message
  | BashExecution bash_execution
  | CustomMsg custom_message
  | BranchSummary branch_summary_message
  | CompactionSummary compaction_summary_message
  | Unlisted string custom_message

fun coding_role :: "coding_message \<Rightarrow> string" where
  "coding_role (Core m) = message_role m"
| "coding_role (BashExecution b) = ''bashExecution''"
| "coding_role (CustomMsg c) = ''custom''"
| "coding_role (BranchSummary b) = ''branchSummary''"
| "coding_role (CompactionSummary c) = ''compactionSummary''"
| "coding_role (Unlisted r c) = r"

section \<open>Creating messages\<close>

definition createBranchSummaryMessage ::
  "(string \<Rightarrow> nat) \<Rightarrow> string \<Rightarrow> string option \<Rightarrow> string \<Rightarrow> branch_summary_message" where
  "createBranchSummaryMessage time summary fromId ts =
     \<lparr>bm_summary = summary, bm_fromId = fromId, bm_timestamp = time ts\<rparr>"

definition createCompactionSummaryMessage ::
  "(string \<Rightarrow> nat) \<Rightarrow> string \<Rightarrow> nat \<Rightarrow> string \<Rightarrow> compaction_summary_message" where
  "createCompactionSummaryMessage time summary tokensBefore ts =
     \<lparr>cm_summary = summary, cm_tokensBefore = tokensBefore, cm_timestamp = time ts\<rparr>"

definition createCustomMessage ::
  "(string \<Rightarrow> nat) \<Rightarrow> string \<Rightarrow> user_content \<Rightarrow> bool \<Rightarrow> json option \<Rightarrow> string \<Rightarrow> custom_message" where
  "createCustomMessage time ty content display details ts =
     \<lparr>cu_customType = ty, cu_content = content, cu_display = display, cu_details = details,
      cu_timestamp = time ts\<rparr>"

section \<open>What the model sees\<close>

text \<open>\<open>String(n)\<close> of an integer.\<close>

definition show_int :: "int \<Rightarrow> string" where
  "show_int i = (if i < 0 then CHR ''-'' # show_nat (nat (- i)) else show_nat (nat i))"

definition bashExecutionToText :: "bash_execution \<Rightarrow> string" where
  "bashExecutionToText msg =
    (let t1 = ''Ran '' @ [backtick] @ be_command msg @ [backtick, newline];
         t2 = t1 @ (if be_output msg \<noteq> [] then
                      [backtick, backtick, backtick, newline] @ be_output msg
                      @ [newline, backtick, backtick, backtick]
                    else ''(no output)'');
         t3 = t2 @ (if be_cancelled msg then [newline, newline] @ ''(command cancelled)''
                    else case be_exitCode msg of
                      None \<Rightarrow> []
                    | Some c \<Rightarrow> if c \<noteq> 0 then
                        [newline, newline] @ ''Command exited with code '' @ show_int c else [])
     in t3 @ (case be_fullOutputPath msg of
                None \<Rightarrow> []
              | Some p \<Rightarrow> if be_truncated msg \<and> p \<noteq> [] then
                  [newline, newline] @ ''[Output truncated. Full output: '' @ p @ '']'' else []))"

definition text_block :: "string \<Rightarrow> block" where
  "text_block s = TextB \<lparr>tx_text = s, tx_signature = None\<rparr>"

definition user_blocks :: "block list \<Rightarrow> nat \<Rightarrow> message" where
  "user_blocks bs ts = User \<lparr>um_content = Blocks bs, um_timestamp = ts\<rparr>"

fun toLlm :: "coding_message \<Rightarrow> message option" where
  "toLlm (BashExecution b) =
     (if be_excludeFromContext b = Some True then None
      else Some (user_blocks [text_block (bashExecutionToText b)] (be_timestamp b)))"
| "toLlm (CustomMsg c) =
     Some (user_blocks (case cu_content c of Plain s \<Rightarrow> [text_block s] | Blocks bs \<Rightarrow> bs)
             (cu_timestamp c))"
| "toLlm (BranchSummary b) =
     Some (user_blocks
       [text_block (BRANCH_SUMMARY_PREFIX @ bm_summary b @ BRANCH_SUMMARY_SUFFIX)] (bm_timestamp b))"
| "toLlm (CompactionSummary c) =
     Some (user_blocks
       [text_block (COMPACTION_SUMMARY_PREFIX @ cm_summary c @ COMPACTION_SUMMARY_SUFFIX)]
       (cm_timestamp c))"
| "toLlm (Core m) = Some m"
| "toLlm (Unlisted r c) = None"

definition convertToLlm :: "coding_message list \<Rightarrow> message list" where
  "convertToLlm ms = List.map_filter toLlm ms"

lemma convertToLlm_simps [simp]:
  "convertToLlm [] = []"
  "convertToLlm (m # ms) =
     (case toLlm m of None \<Rightarrow> convertToLlm ms | Some x \<Rightarrow> x # convertToLlm ms)"
  by (simp_all add: convertToLlm_def map_filter_simps split: option.splits)

lemma convertToLlm_append [simp]: "convertToLlm (ms @ ns) = convertToLlm ms @ convertToLlm ns"
  by (induction ms) (auto split: option.splits)

text \<open>Which messages reach the model, and that the model's own pass unchanged.\<close>

lemma toLlm_None_iff:
  "toLlm m = None \<longleftrightarrow>
     (\<exists>b. m = BashExecution b \<and> be_excludeFromContext b = Some True) \<or> (\<exists>r c. m = Unlisted r c)"
  by (cases m) auto

lemma convertToLlm_core: "convertToLlm (map Core ms) = ms"
  by (induction ms) auto

lemma convertToLlm_kind:
  "x \<in> set (convertToLlm ms) \<Longrightarrow> Core x \<in> set ms \<or> (\<exists>bs ts. x = user_blocks bs ts)"
proof (induction ms)
  case (Cons m ms)
  then show ?case by (cases m) (auto split: if_splits)
qed simp

end
