(* ===== verification/SessionEntries.thy ===== *)
theory SessionEntries imports CodingMessages "HOL-Library.AList" begin

text \<open>
  The entries of a session file, their migration from older formats, the walk from an entry to
  the root, and the projection of that path into the context of the model: the functions at
  module level of \<open>packages/coding-agent/src/core/session-manager.ts\<close>. An absent, null or
  undefined identifier is \<open>None\<close>; a JavaScript \<open>Map\<close> is an association list in insertion order.
\<close>

section \<open>Data\<close>

definition CURRENT_SESSION_VERSION :: nat where
  "CURRENT_SESSION_VERSION = 3"

type_synonym ident = "string option"

record session_header =
  sh_version :: "nat option"
  sh_id :: string
  sh_timestamp :: string
  sh_cwd :: string
  sh_parentSession :: "string option"

text \<open>
  A message as a file holds it. Files are parsed without validation: \<open>NoContent m\<close> is a model
  message whose content is null or missing (the content of \<open>m\<close> is not there).
\<close>

datatype stored_message = Whole coding_message | NoContent message

record compaction_data =
  co_summary :: string
  co_firstKeptEntryId :: ident
  co_firstKeptEntryIndex :: "nat option"
  co_tokensBefore :: nat
  co_details :: "json option"
  co_usage :: "usage option"
  co_fromHook :: "bool option"

record branch_summary_data =
  bs_fromId :: string
  bs_summary :: string
  bs_details :: "json option"
  bs_usage :: "usage option"
  bs_fromHook :: "bool option"

record custom_message_data =
  cd_customType :: string
  cd_content :: "user_content option"
  cd_details :: "json option"
  cd_display :: bool

datatype body =
    MessageB stored_message
  | ThinkingLevelChange string
  | ModelChange string string
  | Compaction compaction_data
  | BranchSummaryB branch_summary_data
  | CustomB string "json option"
  | CustomMessageB custom_message_data
  | LabelB ident "string option"
  | SessionInfoB "string option"

record entry =
  e_id :: ident
  e_parentId :: ident
  e_timestamp :: string
  e_body :: body

datatype file_entry = Header session_header | Entry entry

record session_context =
  sc_messages :: "coding_message list"
  sc_thinkingLevel :: string
  sc_model :: "(string \<times> string) option"

fun is_header :: "file_entry \<Rightarrow> bool" where
  "is_header (Header h) = True"
| "is_header (Entry e) = False"

fun entry_of :: "file_entry \<Rightarrow> entry option" where
  "entry_of (Header h) = None"
| "entry_of (Entry e) = Some e"

definition entries_of :: "file_entry list \<Rightarrow> entry list" where
  "entries_of fs = List.map_filter entry_of fs"

lemma entries_of_simps [simp]:
  "entries_of [] = []" "entries_of (Header h # fs) = entries_of fs"
  "entries_of (Entry e # fs) = e # entries_of fs"
  by (simp_all add: entries_of_def map_filter_simps)

lemma entries_of_append [simp]: "entries_of (fs @ gs) = entries_of fs @ entries_of gs"
  by (simp add: entries_of_def List.map_filter_def)

lemma entries_of_Entry [simp]: "entries_of (map Entry es) = es"
  by (induction es) simp_all

definition is_compaction :: "entry \<Rightarrow> bool" where
  "is_compaction e = (case e_body e of Compaction _ \<Rightarrow> True | _ \<Rightarrow> False)"

text \<open>A value that JavaScript takes for true.\<close>

definition truthy :: "string option \<Rightarrow> bool" where
  "truthy v = (v \<noteq> None \<and> v \<noteq> Some [])"

lemma truthy_simps [simp]: "\<not> truthy None" "truthy (Some s) \<longleftrightarrow> s \<noteq> []"
  by (simp_all add: truthy_def)

section \<open>Identifiers\<close>

definition is_alnum :: "char \<Rightarrow> bool" where
  "is_alnum c = (let n = of_char c :: nat in
     (48 \<le> n \<and> n \<le> 57) \<or> (65 \<le> n \<and> n \<le> 90) \<or> (97 \<le> n \<and> n \<le> 122))"

text \<open>
  The pattern: an alphanumeric character, and when more follow, any of the allowed characters
  up to a last alphanumeric one.
\<close>

definition assertValidSessionId :: "string \<Rightarrow> string + unit" where
  "assertValidSessionId i =
    (if i \<noteq> [] \<and> is_alnum (hd i) \<and> is_alnum (last i)
        \<and> list_all (\<lambda>c. is_alnum c \<or> c \<in> set ''._-'') i
     then Inr ()
     else Inl ''Session id must be non-empty, contain only alphanumeric characters, '-', '_', and '.', and start and end with an alphanumeric character'')"

text \<open>
  The \<open>n\<close>-th result of \<open>randomUUID()\<close> is \<open>uuid n\<close>; a draw returns the new counter. At most 100
  short identifiers are tried against the used ones, then a full one is taken unchecked.
\<close>

fun draw_id :: "(nat \<Rightarrow> string) \<Rightarrow> (ident \<Rightarrow> bool) \<Rightarrow> nat \<Rightarrow> nat \<Rightarrow> string \<times> nat" where
  "draw_id uuid has 0 n = (uuid n, Suc n)"
| "draw_id uuid has (Suc k) n =
     (let i = take 8 (uuid n) in
      if \<not> has (Some i) then (i, Suc n) else draw_id uuid has k (Suc n))"

definition generateId :: "(nat \<Rightarrow> string) \<Rightarrow> (ident \<Rightarrow> bool) \<Rightarrow> nat \<Rightarrow> string \<times> nat" where
  "generateId uuid has n = draw_id uuid has 100 n"

text \<open>
  A drawn identifier is an unused prefix, or the full one after a hundred collisions.
\<close>

lemma draw_id_cases:
  "draw_id uuid has k n = (i, m) \<Longrightarrow>
     n < m \<and> m \<le> n + k + 1 \<and>
     ((i = take 8 (uuid (m - 1)) \<and> \<not> has (Some i)) \<or>
      (m = n + k + 1 \<and> i = uuid (n + k) \<and> (\<forall>j<k. has (Some (take 8 (uuid (n + j)))))))"
proof (induction k arbitrary: n)
  case (Suc k)
  show ?case
  proof (cases "has (Some (take 8 (uuid n)))")
    case True
    with Suc.prems have r: "draw_id uuid has k (Suc n) = (i, m)" by (simp add: Let_def)
    have step: "has (Some (take 8 (uuid (n + j))))"
      if "\<forall>j<k. has (Some (take 8 (uuid (Suc n + j))))" "j < Suc k" for j
      using that True by (cases j) auto
    from Suc.IH [OF r] step show ?thesis by auto
  next
    case False
    with Suc.prems show ?thesis by (auto simp: Let_def)
  qed
qed auto

section \<open>Migrations\<close>

text \<open>
  The loop of \<open>migrateV1ToV2\<close> at position \<open>length done\<close>: entries already visited carry their new
  identifiers, those still to come the old ones (none, in such a file). The set of used
  identifiers the loop hands to \<open>generateId\<close> is never added to, so it is empty at each turn.
\<close>

definition file_entry_id :: "file_entry \<Rightarrow> ident" where
  "file_entry_id f = (case f of Header h \<Rightarrow> None | Entry e \<Rightarrow> e_id e)"

definition migrate_compaction :: "file_entry list \<Rightarrow> compaction_data \<Rightarrow> compaction_data" where
  "migrate_compaction entries c = (case co_firstKeptEntryIndex c of
     None \<Rightarrow> c
   | Some i \<Rightarrow>
       (let c' = (if i < length entries \<and> \<not> is_header (entries ! i)
                  then c\<lparr>co_firstKeptEntryId := file_entry_id (entries ! i)\<rparr> else c)
        in c'\<lparr>co_firstKeptEntryIndex := None\<rparr>))"

fun migrateV1ToV2_loop ::
  "(nat \<Rightarrow> string) \<Rightarrow> file_entry list \<Rightarrow> ident \<Rightarrow> file_entry list \<Rightarrow> nat \<Rightarrow> file_entry list \<times> nat" where
  "migrateV1ToV2_loop uuid visited prevId [] n = (visited, n)"
| "migrateV1ToV2_loop uuid visited prevId (Header h # rest) n =
     migrateV1ToV2_loop uuid (visited @ [Header (h\<lparr>sh_version := Some 2\<rparr>)]) prevId rest n"
| "migrateV1ToV2_loop uuid visited prevId (Entry e # rest) n =
     (let (i, n') = generateId uuid (\<lambda>_. False) n;
          e1 = e\<lparr>e_id := Some i, e_parentId := prevId\<rparr>;
          e2 = (case e_body e1 of
                  Compaction c \<Rightarrow>
                    e1\<lparr>e_body := Compaction (migrate_compaction (visited @ Entry e1 # rest) c)\<rparr>
                | _ \<Rightarrow> e1)
      in migrateV1ToV2_loop uuid (visited @ [Entry e2]) (Some i) rest n')"

definition migrateV1ToV2 ::
  "(nat \<Rightarrow> string) \<Rightarrow> file_entry list \<Rightarrow> nat \<Rightarrow> file_entry list \<times> nat" where
  "migrateV1ToV2 uuid entries n = migrateV1ToV2_loop uuid [] None entries n"

fun rename_hook :: "body \<Rightarrow> body" where
  "rename_hook (MessageB (Whole (Unlisted r c))) =
     (if r = ''hookMessage'' then MessageB (Whole (CustomMsg c)) else MessageB (Whole (Unlisted r c)))"
| "rename_hook b = b"

fun migrate_v2_entry :: "file_entry \<Rightarrow> file_entry" where
  "migrate_v2_entry (Header h) = Header (h\<lparr>sh_version := Some 3\<rparr>)"
| "migrate_v2_entry (Entry e) = Entry (e\<lparr>e_body := rename_hook (e_body e)\<rparr>)"

definition migrateV2ToV3 :: "file_entry list \<Rightarrow> file_entry list" where
  "migrateV2ToV3 entries = map migrate_v2_entry entries"

fun find_header :: "file_entry list \<Rightarrow> session_header option" where
  "find_header [] = None"
| "find_header (Header h # fs) = Some h"
| "find_header (Entry e # fs) = find_header fs"

definition file_version :: "file_entry list \<Rightarrow> nat" where
  "file_version entries = (case find_header entries of
     None \<Rightarrow> 1 | Some h \<Rightarrow> (case sh_version h of None \<Rightarrow> 1 | Some v \<Rightarrow> v))"

text \<open>The migrated entries, the draws used, and whether any migration was applied.\<close>

definition migrateToCurrentVersion ::
  "(nat \<Rightarrow> string) \<Rightarrow> file_entry list \<Rightarrow> nat \<Rightarrow> file_entry list \<times> nat \<times> bool" where
  "migrateToCurrentVersion uuid entries n =
    (let version = file_version entries in
     if version \<ge> CURRENT_SESSION_VERSION then (entries, n, False)
     else
       let (entries1, n1) = (if version < 2 then migrateV1ToV2 uuid entries n else (entries, n));
           entries2 = (if version < 3 then migrateV2ToV3 entries1 else entries1)
       in (entries2, n1, True))"

section \<open>The path to an entry\<close>

fun getLatestCompactionEntry :: "entry list \<Rightarrow> entry option" where
  "getLatestCompactionEntry [] = None"
| "getLatestCompactionEntry (e # es) =
     (case getLatestCompactionEntry es of
        Some c \<Rightarrow> Some c
      | None \<Rightarrow> if is_compaction e then Some e else None)"

type_synonym entry_index = "(ident \<times> entry) list"

definition buildEntryIndex :: "entry list \<Rightarrow> entry_index option \<Rightarrow> entry_index" where
  "buildEntryIndex entries byId = (case byId of
     Some b \<Rightarrow> b
   | None \<Rightarrow> foldl (\<lambda>m e. AList.update (e_id e) e m) [] entries)"

text \<open>
  The loop that follows \<open>parentId\<close>; it need not end when the parents of a file form a cycle,
  and then its value is \<open>None\<close>.
\<close>

partial_function (option) walk ::
  "entry_index \<Rightarrow> entry option \<Rightarrow> entry list \<Rightarrow> entry list option" where
  "walk index current path = (case current of
     None \<Rightarrow> Some path
   | Some e \<Rightarrow>
       walk index (if truthy (e_parentId e) then map_of index (e_parentId e) else None) (path @ [e]))"

definition path_from :: "entry_index \<Rightarrow> entry option \<Rightarrow> entry list option" where
  "path_from index start = map_option rev (walk index start [])"

definition buildSessionPath ::
  "entry list \<Rightarrow> ident option \<Rightarrow> entry_index option \<Rightarrow> entry list option" where
  "buildSessionPath entries leafId byId =
    (let index = buildEntryIndex entries byId in
     if leafId = Some None then Some []
     else
       let found = (case leafId of
                      Some l \<Rightarrow> if truthy l then map_of index l else None
                    | None \<Rightarrow> None);
           leaf = (case found of
                     Some e \<Rightarrow> Some e
                   | None \<Rightarrow> if entries = [] then None else Some (last entries))
       in case leaf of None \<Rightarrow> Some [] | Some e \<Rightarrow> path_from index (Some e))"

section \<open>The context of a path\<close>

text \<open>The assistant message an entry stores.\<close>

fun stored_assistant :: "body \<Rightarrow> assistant_message option" where
  "stored_assistant (MessageB (Whole (Core (Assistant m)))) = Some m"
| "stored_assistant (MessageB (NoContent (Assistant m))) = Some m"
| "stored_assistant _ = None"

definition settings_step ::
  "string \<times> (string \<times> string) option \<Rightarrow> entry \<Rightarrow> string \<times> (string \<times> string) option" where
  "settings_step s e = (case e_body e of
     ThinkingLevelChange l \<Rightarrow> (l, snd s)
   | ModelChange p m \<Rightarrow> (fst s, Some (p, m))
   | b \<Rightarrow> (case stored_assistant b of
            Some m \<Rightarrow> (fst s, Some (am_provider m, am_model m))
          | None \<Rightarrow> s))"

definition getSessionContextSettings :: "entry list \<Rightarrow> string \<times> (string \<times> string) option" where
  "getSessionContextSettings path = foldl settings_step (''off'', None) path"

fun empty_content :: "message \<Rightarrow> message" where
  "empty_content (User m) = User (m\<lparr>um_content := Blocks []\<rparr>)"
| "empty_content (Assistant m) = Assistant (m\<lparr>am_content := []\<rparr>)"
| "empty_content (ToolResult m) = ToolResult (m\<lparr>tr_content := []\<rparr>)"

definition sessionEntryToContextMessages ::
  "(string \<Rightarrow> nat) \<Rightarrow> entry \<Rightarrow> coding_message list" where
  "sessionEntryToContextMessages time e = (case e_body e of
     MessageB (NoContent m) \<Rightarrow> [Core (empty_content m)]
   | MessageB (Whole m) \<Rightarrow> [m]
   | CustomMessageB c \<Rightarrow>
       [CustomMsg (createCustomMessage time (cd_customType c)
          (case cd_content c of Some x \<Rightarrow> x | None \<Rightarrow> Blocks []) (cd_display c) (cd_details c)
          (e_timestamp e))]
   | BranchSummaryB b \<Rightarrow>
       (if bs_summary b \<noteq> [] then
          [BranchSummary (createBranchSummaryMessage time (bs_summary b) (Some (bs_fromId b))
             (e_timestamp e))]
        else [])
   | Compaction c \<Rightarrow>
       [CompactionSummary (createCompactionSummaryMessage time (co_summary c) (co_tokensBefore c)
          (e_timestamp e))]
   | _ \<Rightarrow> [])"

text \<open>The position of the first element with a property, as \<open>findIndex\<close>.\<close>

fun find_index :: "('a \<Rightarrow> bool) \<Rightarrow> 'a list \<Rightarrow> nat option" where
  "find_index P [] = None"
| "find_index P (x # xs) = (if P x then Some 0 else map_option Suc (find_index P xs))"

definition last_compaction :: "entry list \<Rightarrow> entry option" where
  "last_compaction path = foldl (\<lambda>c e. if is_compaction e then Some e else c) None path"

definition first_kept :: "entry \<Rightarrow> ident" where
  "first_kept e = (case e_body e of Compaction c \<Rightarrow> co_firstKeptEntryId c | _ \<Rightarrow> None)"

definition kept_step :: "ident \<Rightarrow> bool \<times> entry list \<Rightarrow> entry \<Rightarrow> bool \<times> entry list" where
  "kept_step firstKept s e =
    (let found = fst s \<or> e_id e = firstKept
     in (found, if found then snd s @ [e] else snd s))"

definition context_of_path :: "entry list \<Rightarrow> entry list" where
  "context_of_path path = (case last_compaction path of
     None \<Rightarrow> path
   | Some c \<Rightarrow>
       (case find_index (\<lambda>e. e_id e = e_id c) path of
          None \<Rightarrow> path
        | Some i \<Rightarrow>
            snd (foldl (kept_step (first_kept c)) (False, [c]) (take i path))
            @ drop (i + 1) path))"

definition buildContextEntries ::
  "entry list \<Rightarrow> ident option \<Rightarrow> entry_index option \<Rightarrow> entry list option" where
  "buildContextEntries entries leafId byId =
     map_option context_of_path (buildSessionPath entries leafId byId)"

definition buildSessionContext ::
  "(string \<Rightarrow> nat) \<Rightarrow> entry list \<Rightarrow> ident option \<Rightarrow> entry_index option \<Rightarrow> session_context option" where
  "buildSessionContext time entries leafId byId =
     (case buildSessionPath entries leafId byId of
        None \<Rightarrow> None
      | Some path \<Rightarrow>
          (case buildContextEntries entries leafId byId of
             None \<Rightarrow> None
           | Some ctx \<Rightarrow>
               (let (level, model) = getSessionContextSettings path in
                Some \<lparr>sc_messages = concat (map (sessionEntryToContextMessages time) ctx),
                      sc_thinkingLevel = level, sc_model = model\<rparr>)))"

end
