(* ===== verification/SessionStore.thy ===== *)
theory SessionStore imports SessionEntries Effects begin

text \<open>
  The session manager of \<open>packages/coding-agent/src/core/session-manager.ts\<close>: loading a session
  file, the append-only tree of entries with its leaf, labels and branches, and the writing of
  entries to the file. The files are part of the state, as strings by path; parsing and
  printing a line, identifiers, clocks and path functions come from the environment.
\<close>

section \<open>The environment and the state\<close>

record session_env =
  env_uuid :: "nat \<Rightarrow> string"
  env_uuidv7 :: "nat \<Rightarrow> string"
  env_now :: "nat \<Rightarrow> string"
  env_time :: "string \<Rightarrow> nat"
  env_stringify :: "file_entry \<Rightarrow> string"
  env_parse :: "string \<Rightarrow> file_entry option"
  env_chunks :: "string \<Rightarrow> string list"
  env_resolvePath :: "string \<Rightarrow> string"
  env_normalizePath :: "string \<Rightarrow> string"
  env_join :: "string \<Rightarrow> string \<Rightarrow> string"

record manager =
  sm_sessionId :: string
  sm_sessionFile :: "string option"
  sm_sessionDir :: string
  sm_cwd :: string
  sm_persist :: bool
  sm_flushed :: bool
  sm_fileEntries :: "file_entry list"
  sm_byId :: entry_index
  sm_labelsById :: "(ident \<times> string) list"
  sm_labelTimestampsById :: "(ident \<times> string) list"
  sm_leafId :: ident
  files :: "string \<Rightarrow> string option"
  draws :: nat
  sessions_drawn :: nat
  ticks :: nat

record new_session_options =
  ns_id :: "string option"
  ns_parentSession :: "string option"

text \<open>Statements that read or replace the state.\<close>

definition modifyA :: "('s \<Rightarrow> 's) \<Rightarrow> ('s, unit) act" where
  "modifyA f = (\<lambda>s. (Inr (), f s))"

definition withA :: "('s \<Rightarrow> ('s, 'a) act) \<Rightarrow> ('s, 'a) act" where
  "withA f = (\<lambda>s. f s s)"

section \<open>Reading a file\<close>

definition is_space :: "char \<Rightarrow> bool" where
  "is_space c = (let n = of_char c :: nat in (9 \<le> n \<and> n \<le> 13) \<or> n = 32 \<or> n = 160)"

definition trim :: "string \<Rightarrow> string" where
  "trim s = rev (dropWhile is_space (rev (dropWhile is_space s)))"

definition parseSessionEntryLine :: "(string \<Rightarrow> file_entry option) \<Rightarrow> string \<Rightarrow> file_entry option" where
  "parseSessionEntryLine parse line = (if trim line = [] then None else parse line)"

definition push_parsed :: "file_entry option \<Rightarrow> file_entry list \<Rightarrow> file_entry list" where
  "push_parsed e entries = (case e of None \<Rightarrow> entries | Some x \<Rightarrow> entries @ [x])"

text \<open>The text before the first line end, and what follows it.\<close>

fun break_line :: "string \<Rightarrow> (string \<times> string) option" where
  "break_line [] = None"
| "break_line (c # s) =
     (if c = newline then Some ([], s)
      else map_option (\<lambda>(l, r). (c # l, r)) (break_line s))"

lemma break_line_shorter: "break_line s = Some (l, r) \<Longrightarrow> length r < length s"
proof (induction s arbitrary: l)
  case (Cons c s)
  show ?case
  proof (cases "c = newline")
    case False
    with Cons.prems obtain l' where "break_line s = Some (l', r)" by auto
    from Cons.IH [OF this] show ?thesis by simp
  qed (use Cons.prems in auto)
qed simp

text \<open>The inner loop: every complete line of the pending text is parsed.\<close>

function drain_lines ::
  "(string \<Rightarrow> file_entry option) \<Rightarrow> string \<Rightarrow> file_entry list \<Rightarrow> file_entry list \<times> string" where
  "drain_lines parse pending entries = (case break_line pending of
     None \<Rightarrow> (entries, pending)
   | Some (line, rest) \<Rightarrow>
       drain_lines parse rest (push_parsed (parseSessionEntryLine parse line) entries))"
  by pat_completeness auto
termination
  by (relation "measure (\<lambda>(_, p, _). length p)") (auto dest: break_line_shorter)

declare drain_lines.simps [simp del]

fun read_chunks ::
  "(string \<Rightarrow> file_entry option) \<Rightarrow> string list \<Rightarrow> file_entry list \<times> string \<Rightarrow> file_entry list \<times> string" where
  "read_chunks parse [] s = s"
| "read_chunks parse (c # cs) (entries, pending) =
     read_chunks parse cs (drain_lines parse (pending @ c) entries)"

text \<open>The entries of a file, and whether its last line lacks an end.\<close>

definition loadEntries :: "(string \<Rightarrow> file_entry option) \<Rightarrow> string list \<Rightarrow> file_entry list \<times> bool" where
  "loadEntries parse chunks =
    (let (entries0, pending) = read_chunks parse chunks ([], []);
         entries = push_parsed (parseSessionEntryLine parse pending) entries0
     in case entries of
          [] \<Rightarrow> ([], False)
        | Header h # _ \<Rightarrow> (entries, pending \<noteq> [])
        | Entry e # _ \<Rightarrow> ([], False))"

definition appendFile :: "string \<Rightarrow> string \<Rightarrow> manager \<Rightarrow> manager" where
  "appendFile p str s = s\<lparr>files := (files s)(p \<mapsto> (case files s p of None \<Rightarrow> [] | Some c \<Rightarrow> c) @ str)\<rparr>"

definition loadEntriesFromFile :: "session_env \<Rightarrow> string \<Rightarrow> manager \<Rightarrow> file_entry list \<times> manager" where
  "loadEntriesFromFile env path s =
    (let p = env_normalizePath env path in
     case files s p of
       None \<Rightarrow> ([], s)
     | Some content \<Rightarrow>
         (let (entries, unended) = loadEntries (env_parse env) (env_chunks env content)
          in (entries, if unended then appendFile p [newline] s else s)))"

section \<open>The index\<close>

text \<open>A label entry sets the label of its target, or clears it when empty or absent.\<close>

definition put_label :: "ident \<Rightarrow> string option \<Rightarrow> string \<Rightarrow> manager \<Rightarrow> manager" where
  "put_label target label ts s =
    (let clear = s\<lparr>sm_labelsById := AList.delete target (sm_labelsById s),
                   sm_labelTimestampsById := AList.delete target (sm_labelTimestampsById s)\<rparr>
     in case label of
          None \<Rightarrow> clear
        | Some l \<Rightarrow>
            if l \<noteq> [] then
              s\<lparr>sm_labelsById := AList.update target l (sm_labelsById s),
                sm_labelTimestampsById := AList.update target ts (sm_labelTimestampsById s)\<rparr>
            else clear)"

fun index_entry :: "manager \<Rightarrow> file_entry \<Rightarrow> manager" where
  "index_entry s (Header h) = s"
| "index_entry s (Entry e) =
    (let s1 = s\<lparr>sm_byId := AList.update (e_id e) e (sm_byId s), sm_leafId := e_id e\<rparr>
     in case e_body e of
          LabelB target label \<Rightarrow> put_label target label (e_timestamp e) s1
        | _ \<Rightarrow> s1)"

definition buildIndex :: "manager \<Rightarrow> manager" where
  "buildIndex s = foldl index_entry
     (s\<lparr>sm_byId := [], sm_labelsById := [], sm_labelTimestampsById := [], sm_leafId := None\<rparr>)
     (sm_fileEntries s)"

section \<open>Writing\<close>

definition line_of :: "session_env \<Rightarrow> file_entry \<Rightarrow> string" where
  "line_of env e = env_stringify env e @ [newline]"

definition file_text :: "session_env \<Rightarrow> file_entry list \<Rightarrow> string" where
  "file_text env es = concat (map (line_of env) es)"

definition rewriteFile :: "session_env \<Rightarrow> manager \<Rightarrow> manager" where
  "rewriteFile env s =
    (if \<not> sm_persist s then s
     else case sm_sessionFile s of
       None \<Rightarrow> s
     | Some p \<Rightarrow> if p = [] then s
                else s\<lparr>files := (files s)(p \<mapsto> file_text env (sm_fileEntries s))\<rparr>)"

fun is_assistant_entry :: "file_entry \<Rightarrow> bool" where
  "is_assistant_entry (Header h) = False"
| "is_assistant_entry (Entry e) = (stored_assistant (e_body e) \<noteq> None)"

definition has_assistant :: "file_entry list \<Rightarrow> bool" where
  "has_assistant es = list_ex is_assistant_entry es"

text \<open>
  Entries are kept in memory until the session has an assistant message; then the file is
  created, exclusively, with all of them, and later entries are appended to it.
\<close>

definition persist :: "session_env \<Rightarrow> entry \<Rightarrow> (manager, unit) act" where
  "persist env e = (\<lambda>s.
     if \<not> sm_persist s then (Inr (), s)
     else case sm_sessionFile s of
       None \<Rightarrow> (Inr (), s)
     | Some p \<Rightarrow>
         if p = [] then (Inr (), s)
         else if \<not> has_assistant (sm_fileEntries s) then
           (if sm_flushed s then (Inr (), appendFile p (line_of env (Entry e)) s)
            else (Inr (), s\<lparr>sm_flushed := False\<rparr>))
         else if \<not> sm_flushed s then
           (if files s p \<noteq> None then (Inl ''EEXIST'', s)
            else (Inr (), s\<lparr>files := (files s)(p \<mapsto> file_text env (sm_fileEntries s)),
                            sm_flushed := True\<rparr>))
         else (Inr (), appendFile p (line_of env (Entry e)) s))"

definition appendEntry :: "session_env \<Rightarrow> entry \<Rightarrow> (manager, unit) act" where
  "appendEntry env e = bindA (modifyA (\<lambda>s. s\<lparr>sm_fileEntries := sm_fileEntries s @ [Entry e],
                                           sm_byId := AList.update (e_id e) e (sm_byId s),
                                           sm_leafId := e_id e\<rparr>))
                         (\<lambda>_. persist env e)"

section \<open>Appending\<close>

text \<open>The base of a new entry: a fresh identifier, the leaf as parent, and the time.\<close>

definition has_id :: "manager \<Rightarrow> ident \<Rightarrow> bool" where
  "has_id s i = (map_of (sm_byId s) i \<noteq> None)"

definition new_entry :: "session_env \<Rightarrow> body \<Rightarrow> (manager, entry) act" where
  "new_entry env b = (\<lambda>s.
     let (i, d) = generateId (env_uuid env) (has_id s) (draws s) in
     (Inr \<lparr>e_id = Some i, e_parentId = sm_leafId s, e_timestamp = env_now env (ticks s),
           e_body = b\<rparr>,
      s\<lparr>draws := d, ticks := Suc (ticks s)\<rparr>))"

definition append_body :: "session_env \<Rightarrow> body \<Rightarrow> (manager, ident) act" where
  "append_body env b =
     bindA (new_entry env b) (\<lambda>e. bindA (appendEntry env e) (\<lambda>_. retA (e_id e)))"

definition appendMessage :: "session_env \<Rightarrow> coding_message \<Rightarrow> (manager, ident) act" where
  "appendMessage env m = append_body env (MessageB (Whole m))"

definition appendThinkingLevelChange :: "session_env \<Rightarrow> string \<Rightarrow> (manager, ident) act" where
  "appendThinkingLevelChange env l = append_body env (ThinkingLevelChange l)"

definition appendModelChange :: "session_env \<Rightarrow> string \<Rightarrow> string \<Rightarrow> (manager, ident) act" where
  "appendModelChange env provider modelId = append_body env (ModelChange provider modelId)"

definition appendCompaction ::
  "session_env \<Rightarrow> string \<Rightarrow> string \<Rightarrow> nat \<Rightarrow> json option \<Rightarrow> bool option \<Rightarrow> usage option \<Rightarrow>
   (manager, ident) act" where
  "appendCompaction env summary firstKept tokensBefore details fromHook usage =
     append_body env (Compaction \<lparr>co_summary = summary, co_firstKeptEntryId = Some firstKept,
       co_firstKeptEntryIndex = None, co_tokensBefore = tokensBefore, co_details = details,
       co_usage = usage, co_fromHook = fromHook\<rparr>)"

definition appendCustomEntry :: "session_env \<Rightarrow> string \<Rightarrow> json option \<Rightarrow> (manager, ident) act" where
  "appendCustomEntry env ty data = append_body env (CustomB ty data)"

text \<open>\<open>name.replace(/[\r\n]+/g, " ")\<close>.\<close>

definition is_line_end :: "char \<Rightarrow> bool" where
  "is_line_end c = (c = newline \<or> c = char_of (13 :: nat))"

fun join_lines :: "string \<Rightarrow> string" where
  "join_lines [] = []"
| "join_lines (c # s) =
     (if is_line_end c then
        (case s of [] \<Rightarrow> '' ''
         | d # _ \<Rightarrow> if is_line_end d then join_lines s else CHR '' '' # join_lines s)
      else c # join_lines s)"

definition appendSessionInfo :: "session_env \<Rightarrow> string \<Rightarrow> (manager, ident) act" where
  "appendSessionInfo env name = append_body env (SessionInfoB (Some (trim (join_lines name))))"

definition appendCustomMessageEntry ::
  "session_env \<Rightarrow> string \<Rightarrow> user_content \<Rightarrow> bool \<Rightarrow> json option \<Rightarrow> (manager, ident) act" where
  "appendCustomMessageEntry env ty content display details =
     append_body env (CustomMessageB \<lparr>cd_customType = ty, cd_content = Some content,
       cd_details = details, cd_display = display\<rparr>)"

definition not_found :: "string \<Rightarrow> string" where
  "not_found i = ''Entry '' @ i @ '' not found''"

definition appendLabelChange :: "session_env \<Rightarrow> string \<Rightarrow> string option \<Rightarrow> (manager, ident) act" where
  "appendLabelChange env target label = withA (\<lambda>s.
     if \<not> has_id s (Some target) then throwA (not_found target)
     else bindA (new_entry env (LabelB (Some target) label)) (\<lambda>e.
          bindA (appendEntry env e) (\<lambda>_.
          bindA (modifyA (put_label (Some target) label (e_timestamp e))) (\<lambda>_.
          retA (e_id e)))))"

section \<open>Reading the tree\<close>

definition getEntries :: "manager \<Rightarrow> entry list" where
  "getEntries s = entries_of (sm_fileEntries s)"

definition getHeader :: "manager \<Rightarrow> session_header option" where
  "getHeader s = find_header (sm_fileEntries s)"

definition getEntry :: "manager \<Rightarrow> ident \<Rightarrow> entry option" where
  "getEntry s i = map_of (sm_byId s) i"

definition getLeafEntry :: "manager \<Rightarrow> entry option" where
  "getLeafEntry s = (if truthy (sm_leafId s) then map_of (sm_byId s) (sm_leafId s) else None)"

definition getChildren :: "manager \<Rightarrow> ident \<Rightarrow> entry list" where
  "getChildren s parentId = filter (\<lambda>e. e_parentId e = parentId) (map snd (sm_byId s))"

definition getLabel :: "manager \<Rightarrow> ident \<Rightarrow> string option" where
  "getLabel s i = map_of (sm_labelsById s) i"

text \<open>\<open>entry.name?.trim() || undefined\<close> of the latest session info entry.\<close>

fun latest_name :: "entry list \<Rightarrow> string option" where
  "latest_name [] = None"
| "latest_name (e # es) = (case e_body e of
     SessionInfoB n \<Rightarrow>
       (case n of None \<Rightarrow> None | Some x \<Rightarrow> if trim x = [] then None else Some (trim x))
   | _ \<Rightarrow> latest_name es)"

definition getSessionName :: "manager \<Rightarrow> string option" where
  "getSessionName s = latest_name (rev (getEntries s))"

definition getBranch :: "ident \<Rightarrow> manager \<Rightarrow> entry list option" where
  "getBranch fromId s =
    (let startId = (if fromId = None then sm_leafId s else fromId)
     in path_from (sm_byId s) (if truthy startId then map_of (sm_byId s) startId else None))"

definition manager_context_entries :: "manager \<Rightarrow> entry list option" where
  "manager_context_entries s =
     buildContextEntries (getEntries s) (Some (sm_leafId s)) (Some (sm_byId s))"

definition manager_context :: "session_env \<Rightarrow> manager \<Rightarrow> session_context option" where
  "manager_context env s =
     buildSessionContext (env_time env) (getEntries s) (Some (sm_leafId s)) (Some (sm_byId s))"

section \<open>Branching\<close>

definition branch :: "string \<Rightarrow> (manager, unit) act" where
  "branch branchFromId = withA (\<lambda>s.
     if \<not> has_id s (Some branchFromId) then throwA (not_found branchFromId)
     else modifyA (\<lambda>s. s\<lparr>sm_leafId := Some branchFromId\<rparr>))"

definition resetLeaf :: "(manager, unit) act" where
  "resetLeaf = modifyA (\<lambda>s. s\<lparr>sm_leafId := None\<rparr>)"

definition branchWithSummary ::
  "session_env \<Rightarrow> ident \<Rightarrow> string \<Rightarrow> json option \<Rightarrow> bool option \<Rightarrow> usage option \<Rightarrow>
   (manager, ident) act" where
  "branchWithSummary env branchFromId summary details fromHook usage = withA (\<lambda>s.
     case branchFromId of
       Some i \<Rightarrow> (if \<not> has_id s (Some i) then throwA (not_found i) else
         bindA (modifyA (\<lambda>s. s\<lparr>sm_leafId := branchFromId\<rparr>)) (\<lambda>_.
           append_body env (BranchSummaryB \<lparr>
             bs_fromId = (case sm_leafId s of None \<Rightarrow> ''root'' | Some l \<Rightarrow> l), bs_summary = summary,
             bs_details = details, bs_usage = usage, bs_fromHook = fromHook\<rparr>)))
     | None \<Rightarrow>
         bindA (modifyA (\<lambda>s. s\<lparr>sm_leafId := None\<rparr>)) (\<lambda>_.
           append_body env (BranchSummaryB \<lparr>
             bs_fromId = (case sm_leafId s of None \<Rightarrow> ''root'' | Some l \<Rightarrow> l), bs_summary = summary,
             bs_details = details, bs_usage = usage, bs_fromHook = fromHook\<rparr>)))"

section \<open>Opening sessions\<close>

definition file_stamp :: "string \<Rightarrow> string" where
  "file_stamp ts = map (\<lambda>c. if c = CHR '':'' \<or> c = CHR ''.'' then CHR ''-'' else c) ts"

definition session_path :: "session_env \<Rightarrow> string \<Rightarrow> string \<Rightarrow> string \<Rightarrow> string" where
  "session_path env dir ts i = env_join env dir (file_stamp ts @ ''_'' @ i @ ''.jsonl'')"

definition newSession ::
  "session_env \<Rightarrow> new_session_options option \<Rightarrow> (manager, string option) act" where
  "newSession env options =
    bindA (liftE (case options of
        Some o1 \<Rightarrow> (case ns_id o1 of Some i \<Rightarrow> assertValidSessionId i | None \<Rightarrow> Inr ())
      | None \<Rightarrow> Inr ())) (\<lambda>_ s.
      let given = (case options of Some o1 \<Rightarrow> ns_id o1 | None \<Rightarrow> None);
          i = (case given of Some i \<Rightarrow> i | None \<Rightarrow> env_uuidv7 env (sessions_drawn s));
          drawn = (if given = None then Suc (sessions_drawn s) else sessions_drawn s);
          ts = env_now env (ticks s);
          header = \<lparr>sh_version = Some CURRENT_SESSION_VERSION, sh_id = i, sh_timestamp = ts,
                    sh_cwd = sm_cwd s,
                    sh_parentSession = (case options of Some o1 \<Rightarrow> ns_parentSession o1 | None \<Rightarrow> None)\<rparr>;
          s1 = s\<lparr>sm_sessionId := i, sm_fileEntries := [Header header], sm_byId := [],
                 sm_labelsById := [], sm_labelTimestampsById := [], sm_leafId := None,
                 sm_flushed := False, sessions_drawn := drawn, ticks := Suc (ticks s)\<rparr>;
          s2 = (if sm_persist s1
                then s1\<lparr>sm_sessionFile := Some (session_path env (sm_sessionDir s1) ts i)\<rparr> else s1)
      in (Inr (sm_sessionFile s2), s2))"

definition loadEntriesInto ::
  "session_env \<Rightarrow> file_entry list \<Rightarrow> new_session_options option \<Rightarrow> (manager, unit) act" where
  "loadEntriesInto env entries options =
    bindA (case find_header entries of
        Some h \<Rightarrow> modifyA (\<lambda>s.
          let (entries', d, migrated) = migrateToCurrentVersion (env_uuid env) entries (draws s);
              s1 = s\<lparr>sm_fileEntries := entries', sm_sessionId := sh_id h, draws := d\<rparr>
          in if migrated then rewriteFile env s1 else s1)
      | None \<Rightarrow>
          bindA (newSession env options) (\<lambda>_.
            modifyA (\<lambda>s. s\<lparr>sm_fileEntries := sm_fileEntries s @ entries\<rparr>)))
      (\<lambda>_. modifyA buildIndex)"

definition setSessionFile ::
  "session_env \<Rightarrow> string \<Rightarrow> file_entry list option \<Rightarrow> (manager, unit) act" where
  "setSessionFile env file preloaded = withA (\<lambda>s0.
    let p = env_resolvePath env file in
    bindA (modifyA (\<lambda>s. s\<lparr>sm_sessionFile := Some p\<rparr>)) (\<lambda>_.
    if files s0 p \<noteq> None then
      bindA (case preloaded of
          Some es \<Rightarrow> retA es
        | None \<Rightarrow> (\<lambda>s. let (es, t) = loadEntriesFromFile env p s in (Inr es, t))) (\<lambda>entries.
        if entries = [] then
          withA (\<lambda>s.
            if files s p \<noteq> None \<and> files s p \<noteq> Some [] then
              throwA (''Session file is not a valid pi session: '' @ p)
            else
              bindA (newSession env None) (\<lambda>_. modifyA (\<lambda>s.
                (rewriteFile env (s\<lparr>sm_sessionFile := Some p\<rparr>))\<lparr>sm_flushed := True\<rparr>)))
        else
          bindA (loadEntriesInto env entries None) (\<lambda>_. modifyA (\<lambda>s. s\<lparr>sm_flushed := True\<rparr>)))
    else
      bindA (newSession env None) (\<lambda>_. modifyA (\<lambda>s. s\<lparr>sm_sessionFile := Some p\<rparr>))))"

text \<open>The private constructor, over the world the manager is created in.\<close>

record session_world =
  wo_files :: "string \<Rightarrow> string option"
  wo_draws :: nat
  wo_sessions :: nat
  wo_ticks :: nat

definition initial_manager ::
  "session_env \<Rightarrow> string \<Rightarrow> string \<Rightarrow> bool \<Rightarrow> session_world \<Rightarrow> manager" where
  "initial_manager env cwd dir persisted w =
    \<lparr>sm_sessionId = [], sm_sessionFile = None, sm_sessionDir = env_normalizePath env dir,
     sm_cwd = env_resolvePath env cwd, sm_persist = persisted, sm_flushed = False,
     sm_fileEntries = [], sm_byId = [], sm_labelsById = [], sm_labelTimestampsById = [],
     sm_leafId = None, files = wo_files w, draws = wo_draws w, sessions_drawn = wo_sessions w,
     ticks = wo_ticks w\<rparr>"

definition open_manager ::
  "session_env \<Rightarrow> string \<Rightarrow> string \<Rightarrow> string option \<Rightarrow> bool \<Rightarrow> new_session_options option \<Rightarrow>
   file_entry list option \<Rightarrow> session_world \<Rightarrow> (string + unit) \<times> manager" where
  "open_manager env cwd dir file persisted options preloaded w =
    (if truthy file then
       setSessionFile env (case file of Some f \<Rightarrow> f | None \<Rightarrow> []) preloaded
     else if preloaded \<noteq> None \<and> preloaded \<noteq> Some [] then
       loadEntriesInto env (case preloaded of Some es \<Rightarrow> es | None \<Rightarrow> []) options
     else bindA (newSession env options) (\<lambda>_. retA ()))
    (initial_manager env cwd dir persisted w)"

definition inMemory ::
  "session_env \<Rightarrow> string \<Rightarrow> new_session_options option \<Rightarrow> file_entry list option \<Rightarrow> session_world \<Rightarrow>
   (string + unit) \<times> manager" where
  "inMemory env cwd options entries w = open_manager env cwd [] None False options entries w"

end
