(* ===== verification/SessionLaws.thy ===== *)
theory SessionLaws imports SessionStore begin

text \<open>
  Facts of the session entries: well-formed entry lists, the path of an entry as a structural
  recursion on them, the walk of the code against it, the context of a path, migration, and
  the reading of a file in chunks.
\<close>

section \<open>Well-formed entry lists\<close>

text \<open>
  In file order, each entry has an identifier of its own, and a parent that came earlier or none.
\<close>

fun wf_entries :: "ident list \<Rightarrow> entry list \<Rightarrow> bool" where
  "wf_entries seen [] = True"
| "wf_entries seen (e # es) =
     (truthy (e_id e) \<and> e_id e \<notin> set seen
      \<and> (e_parentId e = None \<or> e_parentId e \<in> set seen) \<and> wf_entries (e_id e # seen) es)"

abbreviation ids :: "entry list \<Rightarrow> ident list" where
  "ids es \<equiv> map e_id es"

lemma wf_entries_cong: "set seen = set seen' \<Longrightarrow> wf_entries seen es = wf_entries seen' es"
  by (induction es arbitrary: seen seen') (auto, (metis insert_iff list.simps(15))+)

lemma wf_entries_append:
  "wf_entries seen (es @ fs) \<longleftrightarrow> wf_entries seen es \<and> wf_entries (rev (ids es) @ seen) fs"
  by (induction es arbitrary: seen) auto

lemma wf_entries_snoc:
  "wf_entries seen (es @ [e]) \<longleftrightarrow> wf_entries seen es \<and> truthy (e_id e) \<and>
     e_id e \<notin> set (ids es) \<union> set seen \<and>
     (e_parentId e = None \<or> e_parentId e \<in> set (ids es) \<union> set seen)"
  by (auto simp: wf_entries_append)

lemma wf_entries_truthy: "wf_entries seen es \<Longrightarrow> e \<in> set es \<Longrightarrow> truthy (e_id e)"
  by (induction es arbitrary: seen) auto

lemma wf_entries_fresh: "wf_entries seen es \<Longrightarrow> i \<in> set seen \<Longrightarrow> i \<notin> set (ids es)"
proof (induction es arbitrary: seen)
  case (Cons e es)
  then have "wf_entries (e_id e # seen) es" "i \<in> set (e_id e # seen)" "e_id e \<noteq> i" by auto
  with Cons.IH show ?case by auto
qed simp

lemma wf_entries_distinct: "wf_entries seen es \<Longrightarrow> distinct (ids es)"
proof (induction es arbitrary: seen)
  case (Cons e es)
  then have "wf_entries (e_id e # seen) es" by simp
  with Cons.IH [OF this] wf_entries_fresh [OF this, of "e_id e"] show ?case by simp
qed simp

lemma wf_entries_None: "wf_entries seen es \<Longrightarrow> None \<notin> set (ids es)"
  using wf_entries_truthy by fastforce

section \<open>Lookup and lineage\<close>

text \<open>The entry of an identifier, among entries given newest first.\<close>

definition entry_named :: "entry list \<Rightarrow> ident \<Rightarrow> entry option" where
  "entry_named rs i = List.find (\<lambda>e. e_id e = i) rs"

lemma entry_named_simps [simp]:
  "entry_named [] i = None"
  "entry_named (e # rs) i = (if e_id e = i then Some e else entry_named rs i)"
  by (simp_all add: entry_named_def)

lemma entry_named_None: "entry_named rs i = None \<longleftrightarrow> i \<notin> set (ids rs)"
  by (induction rs) auto

lemma entry_named_Some: "entry_named rs i = Some e \<Longrightarrow> e \<in> set rs \<and> e_id e = i"
  by (induction rs) (auto split: if_splits)

text \<open>
  The ancestors of an identifier, oldest first: the specification of every path the code walks.
\<close>

fun lineage :: "entry list \<Rightarrow> ident \<Rightarrow> entry list" where
  "lineage [] l = []"
| "lineage (e # rs) l =
     (if e_id e = l then lineage rs (e_parentId e) @ [e] else lineage rs l)"

lemma lineage_absent: "l \<notin> set (ids rs) \<Longrightarrow> lineage rs l = []"
  by (induction rs) auto

lemma lineage_subset: "set (lineage rs l) \<subseteq> set rs"
  by (induction rs arbitrary: l) auto

lemma lineage_present: "l \<in> set (ids rs) \<Longrightarrow> lineage rs l \<noteq> [] \<and> e_id (last (lineage rs l)) = l"
  by (induction rs arbitrary: l) auto

lemma lineage_distinct: "distinct (ids rs) \<Longrightarrow> distinct (ids (lineage rs l))"
proof (induction rs arbitrary: l)
  case (Cons e rs)
  have "e_id e \<notin> set (ids (lineage rs k))" for k
    using Cons.prems lineage_subset [of rs k] by auto
  with Cons show ?case by auto
qed simp

text \<open>Consecutive entries of a lineage are child and parent, and it starts at a root.\<close>

fun linked :: "ident \<Rightarrow> entry list \<Rightarrow> bool" where
  "linked p [] = True"
| "linked p (e # es) = (e_parentId e = p \<and> linked (e_id e) es)"

lemma linked_append:
  "linked p (es @ fs) \<longleftrightarrow> linked p es \<and> linked (if es = [] then p else e_id (last es)) fs"
  by (induction es arbitrary: p) auto

lemma lineage_linked: "wf_entries [] (rev rs) \<Longrightarrow> linked None (lineage rs l)"
proof (induction rs arbitrary: l)
  case (Cons e rs)
  then have wf: "wf_entries [] (rev rs)" "e_parentId e = None \<or> e_parentId e \<in> set (ids rs)"
    by (auto simp: wf_entries_snoc)
  have par: "linked None (lineage rs (e_parentId e) @ [e])"
  proof (cases "e_parentId e = None")
    case True
    with wf have "lineage rs (e_parentId e) = []"
      using wf_entries_None [OF wf(1)] by (intro lineage_absent) auto
    with True show ?thesis by simp
  next
    case False
    with wf(2) have "e_parentId e \<in> set (ids rs)" by simp
    from lineage_present [OF this] Cons.IH [OF wf(1)] show ?thesis
      by (simp add: linked_append)
  qed
  with Cons.IH [OF wf(1)] show ?case by simp
qed simp

text \<open>New entries do not change the lineage of old ones.\<close>

lemma lineage_extend:
  assumes "wf_entries [] (es @ fs)" "l \<in> set (ids es)"
  shows "lineage (rev (es @ fs)) l = lineage (rev es) l"
  using assms
proof (induction fs rule: rev_induct)
  case (snoc f fs)
  then have "wf_entries [] ((es @ fs) @ [f])" by simp
  then have wf: "wf_entries [] (es @ fs)" "e_id f \<notin> set (ids (es @ fs))"
    by (simp_all only: wf_entries_snoc) auto
  with snoc.prems(2) have "e_id f \<noteq> l" by auto
  with snoc.IH [OF wf(1) snoc.prems(2)] show ?case by simp
qed simp

section \<open>The walk\<close>

lemma map_of_index_fold:
  "map_of (foldl (\<lambda>m e. AList.update (e_id e) e m) m es) i =
     (case entry_named (rev es) i of Some e \<Rightarrow> Some e | None \<Rightarrow> map_of m i)"
proof (induction es rule: rev_induct)
  case (snoc e es)
  then show ?case by (simp add: update_conv')
qed simp

text \<open>An index answers for a list of entries, the last of equal identifiers winning.\<close>

definition indexes :: "entry_index \<Rightarrow> entry list \<Rightarrow> bool" where
  "indexes m es \<longleftrightarrow> map_of m = entry_named (rev es)"

lemma buildEntryIndex_indexes: "indexes (buildEntryIndex es None) es"
  unfolding indexes_def buildEntryIndex_def
  by (rule ext) (simp add: map_of_index_fold split: option.split)

lemma indexes_snoc: "indexes m es \<Longrightarrow> indexes (AList.update (e_id e) e m) (es @ [e])"
  unfolding indexes_def by (rule ext) (simp add: update_conv')

lemma indexes_Nil [simp]: "indexes [] []"
  by (simp add: indexes_def fun_eq_iff)

declare walk.simps [code]

lemma walk_None [simp]: "walk m None path = Some path"
  by (subst walk.simps) simp

lemma walk_Some: "walk m (Some e) path =
  walk m (if truthy (e_parentId e) then map_of m (e_parentId e) else None) (path @ [e])"
  by (subst walk.simps) simp

lemma walk_lineage:
  assumes "wf_entries [] (rev rs)" "\<And>l. l \<in> set (ids rs) \<Longrightarrow> map_of m l = entry_named rs l"
  shows "walk m (entry_named rs l) path = Some (path @ rev (lineage rs l))"
  using assms
proof (induction rs arbitrary: l path)
  case (Cons e rs)
  from Cons.prems(1) have wf: "wf_entries [] (rev rs)" "e_id e \<notin> set (ids rs)"
      "e_parentId e = None \<or> e_parentId e \<in> set (ids rs)"
    by (auto simp: wf_entries_snoc)
  have old: "map_of m k = entry_named rs k" if "k \<in> set (ids rs)" for k
    using Cons.prems(2) [of k] that wf(2) by auto
  have IH: "walk m (entry_named rs k) p = Some (p @ rev (lineage rs k))" for k p
    using Cons.IH [OF wf(1)] old by blast
  have parent: "(if truthy (e_parentId e) then map_of m (e_parentId e) else None)
      = entry_named rs (e_parentId e)"
  proof (cases "e_parentId e = None")
    case True
    then show ?thesis
      using wf_entries_None [OF wf(1)] by (simp add: entry_named_None [THEN iffD2])
  next
    case False
    with wf(3) obtain d where d: "d \<in> set rs" "e_id d = e_parentId e" by auto
    with wf_entries_truthy [OF wf(1), of d] have "truthy (e_parentId e)" by simp
    moreover have "map_of m (e_parentId e) = entry_named rs (e_parentId e)"
      using d by (intro old) (metis image_eqI image_set)
    ultimately show ?thesis by simp
  qed
  show ?case
  proof (cases "e_id e = l")
    case True
    then show ?thesis by (simp add: walk_Some parent IH)
  next
    case False
    then show ?thesis by (simp add: IH)
  qed
qed simp

lemma path_from_lineage:
  assumes "wf_entries [] es" "indexes m es"
  shows "path_from m (map_of m l) = Some (lineage (rev es) l)"
proof -
  from assms(2) have "map_of m l = entry_named (rev es) l" for l by (simp add: indexes_def)
  moreover have "wf_entries [] (rev (rev es))" using assms(1) by simp
  ultimately show ?thesis
    unfolding path_from_def using walk_lineage [of "rev es" m l "[]"] by simp
qed

lemma path_from_None [simp]: "path_from m None = Some []"
  by (simp add: path_from_def)

text \<open>A parent cycle of one entry is walked for ever.\<close>

lemma walk_self_loop:
  assumes "truthy (e_parentId e)" "map_of m (e_parentId e) = Some e"
  shows "walk m (Some e) path = None"
proof (cases "walk m (Some e) path")
  case (Some y)
  have "Some e = Some e \<longrightarrow> m = m \<longrightarrow> False"
  proof (rule walk.raw_induct [where P = "\<lambda>m' c p y. c = Some e \<longrightarrow> m' = m \<longrightarrow> False", OF _ Some],
      intro impI)
    fix walk' m' current p y
    assume step: "\<And>m' c p y. walk' m' c p = Some y \<Longrightarrow> c = Some e \<longrightarrow> m' = m \<longrightarrow> False"
      and run: "(case current of None \<Rightarrow> Some p
        | Some e \<Rightarrow> walk' m' (if truthy (e_parentId e) then map_of m' (e_parentId e) else None) (p @ [e]))
          = Some y"
      and c: "current = Some e" "m' = m"
    from run c assms have "walk' m (Some e) (p @ [e]) = Some y" by simp
    from step [OF this] show False by simp
  qed
  then show ?thesis by simp
qed simp

section \<open>The context of a path\<close>

lemma last_compaction_snoc [simp]:
  "last_compaction [] = None"
  "last_compaction (es @ [e]) = (if is_compaction e then Some e else last_compaction es)"
  by (simp_all add: last_compaction_def)

lemma last_compaction_append:
  "last_compaction (es @ fs) =
     (case last_compaction fs of Some c \<Rightarrow> Some c | None \<Rightarrow> last_compaction es)"
  by (induction fs rule: rev_induct) (simp_all flip: append_assoc)

lemma last_compaction_None: "last_compaction es = None \<longleftrightarrow> \<not> list_ex is_compaction es"
  by (induction es rule: rev_induct) auto

lemma last_compaction_split:
  "last_compaction es = Some c \<Longrightarrow>
     \<exists>pre post. es = pre @ c # post \<and> is_compaction c \<and> \<not> list_ex is_compaction post"
proof (induction es rule: rev_induct)
  case (snoc e es)
  show ?case
  proof (cases "is_compaction e")
    case True
    with snoc.prems have "es @ [e] = es @ c # []" "is_compaction c" by simp_all
    then show ?thesis by fastforce
  next
    case False
    with snoc obtain pre post where "es = pre @ c # post" "is_compaction c" "\<not> list_ex is_compaction post"
      by auto
    with False have "es @ [e] = pre @ c # (post @ [e])" "\<not> list_ex is_compaction (post @ [e])" by auto
    with \<open>is_compaction c\<close> show ?thesis by blast
  qed
qed simp

lemma find_index_append:
  "\<not> list_ex P xs \<Longrightarrow> P y \<Longrightarrow> find_index P (xs @ y # ys) = Some (length xs)"
  by (induction xs) auto

lemma kept_fold:
  "foldl (kept_step k) (b, acc) es =
     (b \<or> k \<in> set (ids es), acc @ (if b then es else dropWhile (\<lambda>e. e_id e \<noteq> k) es))"
proof (induction es arbitrary: b acc)
  case (Cons e es)
  then show ?case by (cases "b \<or> e_id e = k") (auto simp: kept_step_def Let_def)
qed (simp add: kept_step_def)

lemma context_compacted:
  assumes "distinct (ids (pre @ c # post))" "is_compaction c" "\<not> list_ex is_compaction post"
  shows "context_of_path (pre @ c # post) = c # dropWhile (\<lambda>e. e_id e \<noteq> first_kept c) pre @ post"
proof -
  have "last_compaction [c] = Some c" using assms(2) by (simp add: last_compaction_def)
  moreover have "last_compaction post = None" using assms(3) by (simp add: last_compaction_None)
  ultimately have last: "last_compaction (pre @ c # post) = Some c"
    using last_compaction_append [of "pre @ [c]" post] last_compaction_append [of pre "[c]"] by simp
  have "\<not> list_ex (\<lambda>e. e_id e = e_id c) pre" using assms(1) by (simp add: list_ex_iff) (metis image_eqI)
  from find_index_append [OF this, of c post]
  have "find_index (\<lambda>e. e_id e = e_id c) (pre @ c # post) = Some (length pre)" by simp
  with last show ?thesis by (simp add: context_of_path_def kept_fold)
qed

lemma context_plain: "\<not> list_ex is_compaction path \<Longrightarrow> context_of_path path = path"
  by (simp add: context_of_path_def last_compaction_None [THEN iffD2])

section \<open>Reading a file in chunks\<close>

text \<open>The complete lines of a text and what follows the last line end.\<close>

fun split_lines :: "string \<Rightarrow> string list \<times> string" where
  "split_lines [] = ([], [])"
| "split_lines (c # s) =
     (let (ls, r) = split_lines s in
      if c = newline then ([] # ls, r)
      else case ls of [] \<Rightarrow> ([], c # r) | l # ls' \<Rightarrow> ((c # l) # ls', r))"

lemma break_line_split:
  "split_lines s = (case break_line s of
     None \<Rightarrow> ([], s) | Some (l, r) \<Rightarrow> (l # fst (split_lines r), snd (split_lines r)))"
  by (induction s) (auto simp: Let_def split: prod.splits option.splits list.splits)

lemma split_lines_append:
  "split_lines (s @ t) =
     (fst (split_lines s) @ fst (split_lines (snd (split_lines s) @ t)),
      snd (split_lines (snd (split_lines s) @ t)))"
proof (induction s)
  case (Cons c s)
  obtain ls r where s: "split_lines s = (ls, r)" by (cases "split_lines s")
  obtain ms u where t: "split_lines (r @ t) = (ms, u)" by (cases "split_lines (r @ t)")
  from Cons s t have st: "split_lines (s @ t) = (ls @ ms, u)" by simp
  show ?case by (cases ls) (auto simp: Let_def s t st)
qed simp

lemma split_lines_rest: "split_lines (snd (split_lines s)) = ([], snd (split_lines s))"
proof (induction s)
  case (Cons c s)
  obtain ls r where s: "split_lines s = (ls, r)" by (cases "split_lines s")
  with Cons have "split_lines r = ([], r)" by simp
  with s show ?case by (cases ls) (auto simp: Let_def)
qed simp

lemma split_lines_line: "newline \<notin> set l \<Longrightarrow> split_lines (l @ newline # s) =
  (l # fst (split_lines s), snd (split_lines s))"
  by (induction l) (auto simp: Let_def split: prod.split)

definition parsed_lines :: "(string \<Rightarrow> file_entry option) \<Rightarrow> string list \<Rightarrow> file_entry list" where
  "parsed_lines parse ls = List.map_filter (parseSessionEntryLine parse) ls"

lemma push_parsed_snoc: "push_parsed e es = es @ (case e of None \<Rightarrow> [] | Some x \<Rightarrow> [x])"
  by (simp add: push_parsed_def split: option.split)

lemma parsed_lines_simps [simp]:
  "parsed_lines parse [] = []"
  "parsed_lines parse (l # ls) = push_parsed (parseSessionEntryLine parse l) [] @ parsed_lines parse ls"
  by (simp_all add: parsed_lines_def map_filter_simps push_parsed_snoc split: option.split)

lemma parsed_lines_append [simp]:
  "parsed_lines parse (ls @ ms) = parsed_lines parse ls @ parsed_lines parse ms"
  by (simp add: parsed_lines_def List.map_filter_def)

lemma drain_lines_split:
  "drain_lines parse p es = (es @ parsed_lines parse (fst (split_lines p)), snd (split_lines p))"
proof (induction parse p es rule: drain_lines.induct)
  case (1 parse p es)
  show ?case
  proof (cases "break_line p")
    case None
    with break_line_split [of p] show ?thesis by (subst drain_lines.simps) simp
  next
    case (Some lr)
    obtain l r where lr: "lr = (l, r)" by (cases lr)
    with Some have "split_lines p = (l # fst (split_lines r), snd (split_lines r))"
      using break_line_split [of p] by simp
    with Some lr 1 [OF Some] show ?thesis
      by (subst drain_lines.simps) (simp add: push_parsed_snoc)
  qed
qed

lemma read_chunks_split:
  "split_lines p = ([], p) \<Longrightarrow>
   read_chunks parse cs (es, p) =
     (es @ parsed_lines parse (fst (split_lines (p @ concat cs))), snd (split_lines (p @ concat cs)))"
proof (induction cs arbitrary: es p)
  case (Cons c cs)
  show ?case
    using Cons.IH [OF split_lines_rest] split_lines_append [of "p @ c" "concat cs"]
    by (simp add: drain_lines_split)
qed simp

text \<open>Only the text matters, not how it arrives.\<close>

lemma loadEntries_text:
  "loadEntries parse cs =
    (let (ls, r) = split_lines (concat cs);
         entries = parsed_lines parse (ls @ [r])
     in case entries of
          [] \<Rightarrow> ([], False) | Header h # _ \<Rightarrow> (entries, r \<noteq> []) | Entry e # _ \<Rightarrow> ([], False))"
  by (cases "split_lines (concat cs)")
     (simp add: loadEntries_def read_chunks_split push_parsed_snoc Let_def)

text \<open>What printing and parsing a line promise.\<close>

definition line_codec :: "session_env \<Rightarrow> file_entry list \<Rightarrow> bool" where
  "line_codec env es \<longleftrightarrow> (\<forall>e\<in>set es. env_parse env (env_stringify env e) = Some e
     \<and> newline \<notin> set (env_stringify env e) \<and> trim (env_stringify env e) \<noteq> [])"

lemma split_file_text:
  assumes "line_codec env es"
  shows "split_lines (file_text env es) = (map (env_stringify env) es, [])"
  using assms
proof (induction es)
  case (Cons e es)
  then have "line_codec env es" by (simp add: line_codec_def)
  with Cons.IH have IH: "split_lines (file_text env es) = (map (env_stringify env) es, [])" .
  from Cons.prems have "newline \<notin> set (env_stringify env e)" by (simp add: line_codec_def)
  from split_lines_line [OF this, of "file_text env es"] IH show ?case
    by (simp add: file_text_def line_of_def)
qed (simp add: file_text_def)

lemma parsed_file_text:
  "line_codec env es \<Longrightarrow> parsed_lines (env_parse env) (map (env_stringify env) es) = es"
  by (induction es) (simp_all add: parseSessionEntryLine_def push_parsed_snoc line_codec_def)

lemma load_file_text:
  assumes "line_codec env (Header h # es)" "concat cs = file_text env (Header h # es)"
  shows "loadEntries (env_parse env) cs = (Header h # es, False)"
proof -
  have "parseSessionEntryLine (env_parse env) [] = None"
    by (simp add: parseSessionEntryLine_def trim_def)
  moreover have "parsed_lines (env_parse env) (map (env_stringify env) (Header h # es)) = Header h # es"
    using assms(1) by (rule parsed_file_text)
  moreover have "split_lines (concat cs) = (map (env_stringify env) (Header h # es), [])"
    by (simp only: assms(2) split_file_text [OF assms(1)])
  ultimately show ?thesis
    by (simp only: loadEntries_text Let_def prod.case parsed_lines_append parsed_lines_simps)
       (simp add: push_parsed_snoc)
qed

section \<open>Migration\<close>

text \<open>
  The identifiers a first-version file gets: a short prefix per entry, and the entries in a chain.
\<close>

lemma generateId_unchecked: "generateId uuid (\<lambda>_. False) n = (take 8 (uuid n), Suc n)"
proof -
  have "draw_id uuid (\<lambda>_. False) (Suc k) n = (take 8 (uuid n), Suc n)" for k
    by (simp add: Let_def)
  from this [of 99] show ?thesis by (simp only: generateId_def) simp
qed

lemma migrateV1ToV2_loop_visited:
  "\<exists>out. fst (migrateV1ToV2_loop uuid visited prev rest n) = visited @ out \<and>
     length out = length rest \<and> linked prev (entries_of out) \<and>
     ids (entries_of out) = map (\<lambda>k. Some (take 8 (uuid (n + k)))) [0..<length (entries_of rest)]"
proof (induction uuid visited prev rest n rule: migrateV1ToV2_loop.induct)
  case (2 uuid visited prev h rest n)
  then obtain out where
    "fst (migrateV1ToV2_loop uuid (visited @ [Header (h\<lparr>sh_version := Some 2\<rparr>)]) prev rest n) =
       (visited @ [Header (h\<lparr>sh_version := Some 2\<rparr>)]) @ out \<and>
     length out = length rest \<and> linked prev (entries_of out) \<and>
     ids (entries_of out) = map (\<lambda>k. Some (take 8 (uuid (n + k)))) [0..<length (entries_of rest)]"
    by blast
  then show ?case by (intro exI [of _ "Header (h\<lparr>sh_version := Some 2\<rparr>) # out"]) simp
next
  case (3 uuid visited prev e rest n)
  define e1 where "e1 = e\<lparr>e_id := Some (take 8 (uuid n)), e_parentId := prev\<rparr>"
  define e2 where "e2 = (case e_body e1 of
      Compaction c \<Rightarrow> e1\<lparr>e_body := Compaction (migrate_compaction (visited @ Entry e1 # rest) c)\<rparr>
    | _ \<Rightarrow> e1)"
  have base: "e_id e2 = Some (take 8 (uuid n))" "e_parentId e2 = prev"
    by (simp_all add: e2_def e1_def split: body.split)
  have step: "migrateV1ToV2_loop uuid visited prev (Entry e # rest) n =
      migrateV1ToV2_loop uuid (visited @ [Entry e2]) (Some (take 8 (uuid n))) rest (Suc n)"
    unfolding e2_def e1_def by (simp add: generateId_unchecked Let_def)
  have "\<exists>out. fst (migrateV1ToV2_loop uuid (visited @ [Entry e2]) (Some (take 8 (uuid n))) rest (Suc n)) =
      (visited @ [Entry e2]) @ out \<and>
     length out = length rest \<and> linked (Some (take 8 (uuid n))) (entries_of out) \<and>
     ids (entries_of out) = map (\<lambda>k. Some (take 8 (uuid (Suc n + k)))) [0..<length (entries_of rest)]"
    by (rule 3 [OF generateId_unchecked [symmetric] refl e1_def e2_def])
  then obtain out where out:
    "fst (migrateV1ToV2_loop uuid (visited @ [Entry e2]) (Some (take 8 (uuid n))) rest (Suc n)) =
      (visited @ [Entry e2]) @ out"
    "length out = length rest" "linked (Some (take 8 (uuid n))) (entries_of out)"
    "ids (entries_of out) = map (\<lambda>k. Some (take 8 (uuid (Suc n + k)))) [0..<length (entries_of rest)]"
    by blast
  show ?case
    by (rule exI [of _ "Entry e2 # out"])
       (simp add: step out base upt_conv_Cons map_Suc_upt [symmetric] o_def del: upt_Suc migrateV1ToV2_loop.simps)
qed simp

lemma migrateV1ToV2_chain:
  "linked None (entries_of (fst (migrateV1ToV2 uuid es n)))"
  "ids (entries_of (fst (migrateV1ToV2 uuid es n))) =
     map (\<lambda>k. Some (take 8 (uuid (n + k)))) [0..<length (entries_of es)]"
  using migrateV1ToV2_loop_visited [of uuid "[]" None es n] by (auto simp: migrateV1ToV2_def)

lemma migrate_v2_base:
  "ids (entries_of (migrateV2ToV3 es)) = ids (entries_of es)"
  "linked p (entries_of (migrateV2ToV3 es)) = linked p (entries_of es)"
proof -
  have "entries_of (migrateV2ToV3 (f # fs)) =
      (case f of Header h \<Rightarrow> [] | Entry e \<Rightarrow> [e\<lparr>e_body := rename_hook (e_body e)\<rparr>])
      @ entries_of (migrateV2ToV3 fs)" for f fs
    by (cases f) (simp_all add: migrateV2ToV3_def)
  moreover have "entries_of (f # fs) = (case f of Header h \<Rightarrow> [] | Entry e \<Rightarrow> [e]) @ entries_of fs" for f fs
    by (cases f) simp_all
  ultimately show "ids (entries_of (migrateV2ToV3 es)) = ids (entries_of es)"
    by (induction es) (simp_all add: migrateV2ToV3_def split: file_entry.split)
  show "linked p (entries_of (migrateV2ToV3 es)) = linked p (entries_of es)"
  proof (induction es arbitrary: p)
    case (Cons f es)
    then show ?case by (cases f) (simp_all add: migrateV2ToV3_def)
  qed (simp add: migrateV2ToV3_def)
qed

text \<open>A chain of distinct identifiers is a well-formed list whose last entry has all as lineage.\<close>

lemma linked_wf:
  assumes "linked p es" "distinct (ids es)" "\<forall>i\<in>set (ids es). truthy i"
    "p = None \<or> p \<in> set seen" "set (ids es) \<inter> set seen = {}"
  shows "wf_entries seen es"
  using assms
proof (induction es arbitrary: p seen)
  case (Cons e es)
  from Cons.prems have "wf_entries (e_id e # seen) es"
    by (intro Cons.IH [of "e_id e"]) auto
  with Cons.prems show ?case by auto
qed simp

lemma linked_lineage:
  assumes "linked None es" "distinct (ids es)" "None \<notin> set (ids es)" "es \<noteq> []"
  shows "lineage (rev es) (e_id (last es)) = es"
  using assms
proof (induction es rule: rev_induct)
  case (snoc e es)
  show ?case
  proof (cases "es = []")
    case True
    with snoc.prems show ?thesis by simp
  next
    case False
    with snoc.prems have "linked None es" "e_parentId e = e_id (last es)" by (simp_all add: linked_append)
    with snoc False show ?thesis by simp
  qed
qed simp

end
