(* ===== verification/SessionInv.thy ===== *)
theory SessionInv imports SessionLaws begin

text \<open>
  The invariant of a session manager and its preservation by every operation on the tree:
  well-formed entries, an index and labels equal to a rebuild from the entries, a leaf among
  the entries, identifiers the source cannot repeat, and a file that holds all entries or is
  not there yet.
\<close>

section \<open>Operations\<close>

datatype session_op =
    AppendMessage coding_message
  | AppendThinkingLevel string
  | AppendModel string string
  | AppendCompaction string string nat "json option" "bool option" "usage option"
  | AppendCustom string "json option"
  | AppendInfo string
  | AppendCustomMessage string user_content bool "json option"
  | AppendLabel string "string option"
  | BranchTo string
  | ResetLeaf
  | BranchSummarized ident string "json option" "bool option" "usage option"

fun run_op :: "session_env \<Rightarrow> session_op \<Rightarrow> (manager, ident) act" where
  "run_op env (AppendMessage m) = appendMessage env m"
| "run_op env (AppendThinkingLevel l) = appendThinkingLevelChange env l"
| "run_op env (AppendModel p m) = appendModelChange env p m"
| "run_op env (AppendCompaction su fk tb d fh u) = appendCompaction env su fk tb d fh u"
| "run_op env (AppendCustom ty d) = appendCustomEntry env ty d"
| "run_op env (AppendInfo n) = appendSessionInfo env n"
| "run_op env (AppendCustomMessage ty c di d) = appendCustomMessageEntry env ty c di d"
| "run_op env (AppendLabel t l) = appendLabelChange env t l"
| "run_op env (BranchTo i) = bindA (branch i) (\<lambda>_. retA None)"
| "run_op env ResetLeaf = bindA resetLeaf (\<lambda>_. retA None)"
| "run_op env (BranchSummarized i su d fh u) = branchWithSummary env i su d fh u"

text \<open>A caller goes on after an operation that throws.\<close>

fun run_ops :: "session_env \<Rightarrow> session_op list \<Rightarrow> manager \<Rightarrow> manager" where
  "run_ops env [] s = s"
| "run_ops env (op # ops) s = run_ops env ops (snd (run_op env op s))"

section \<open>The invariant\<close>

definition uuid_source :: "session_env \<Rightarrow> bool" where
  "uuid_source env \<longleftrightarrow> inj (env_uuid env) \<and> (\<forall>n. 8 < length (env_uuid env n))"

definition index_fields ::
  "manager \<Rightarrow> entry_index \<times> (ident \<times> string) list \<times> (ident \<times> string) list" where
  "index_fields s = (sm_byId s, sm_labelsById s, sm_labelTimestampsById s)"

definition file_ok :: "session_env \<Rightarrow> manager \<Rightarrow> bool" where
  "file_ok env s = (sm_persist s \<longrightarrow> (case sm_sessionFile s of
     None \<Rightarrow> False
   | Some p \<Rightarrow> p \<noteq> [] \<and>
       (if sm_flushed s then files s p = Some (file_text env (sm_fileEntries s))
        else files s p = None \<and> \<not> has_assistant (sm_fileEntries s))))"

definition session_ok :: "session_env \<Rightarrow> manager \<Rightarrow> bool" where
  "session_ok env s \<longleftrightarrow>
     (\<exists>h es. sm_fileEntries s = Header h # map Entry es) \<and>
     wf_entries [] (getEntries s) \<and>
     indexes (sm_byId s) (getEntries s) \<and>
     (sm_leafId s = None \<or> sm_leafId s \<in> set (ids (getEntries s))) \<and>
     (\<forall>n\<ge>draws s. Some (env_uuid env n) \<notin> set (ids (getEntries s))) \<and>
     index_fields (buildIndex s) = index_fields s \<and>
     file_ok env s"

lemma session_okD:
  assumes "session_ok env s"
  shows "wf_entries [] (getEntries s)" "indexes (sm_byId s) (getEntries s)"
    "sm_leafId s = None \<or> sm_leafId s \<in> set (ids (getEntries s))"
    "\<And>n. draws s \<le> n \<Longrightarrow> Some (env_uuid env n) \<notin> set (ids (getEntries s))"
    "index_fields (buildIndex s) = index_fields s" "file_ok env s"
  using assms by (auto simp: session_ok_def)

lemma has_id_iff: "indexes (sm_byId s) (getEntries s) \<Longrightarrow> has_id s i \<longleftrightarrow> i \<in> set (ids (getEntries s))"
  by (simp add: has_id_def indexes_def entry_named_None image_def)

lemma file_ok_leaf [simp]: "file_ok env (s\<lparr>sm_leafId := l\<rparr>) = file_ok env s"
  by (cases "sm_sessionFile s") (simp_all add: file_ok_def)

lemma getEntries_leaf [simp]: "getEntries (s\<lparr>sm_leafId := l\<rparr>) = getEntries s"
  by (simp add: getEntries_def)

section \<open>Fresh identifiers\<close>

lemma generateId_fresh:
  assumes src: "uuid_source env"
    and used: "\<And>n. d \<le> n \<Longrightarrow> \<not> has (Some (env_uuid env n))"
    and gen: "generateId (env_uuid env) has d = (i, d')"
  shows "i \<noteq> []" "\<not> has (Some i)" "d < d'" "\<And>n. d' \<le> n \<Longrightarrow> env_uuid env n \<noteq> i"
proof -
  from draw_id_cases [OF gen [unfolded generateId_def]]
  have d: "d < d'" and c: "(i = take 8 (env_uuid env (d' - 1)) \<and> \<not> has (Some i)) \<or>
      (d' = d + 101 \<and> i = env_uuid env (d + 100))" by auto
  from d show "d < d'" .
  have "env_uuid env n \<noteq> []" for n
    using src by (metis uuid_source_def list.size(3) not_less0)
  with c show "i \<noteq> []" by (metis take_eq_Nil zero_neq_numeral)
  from c used show "\<not> has (Some i)" by auto
  fix n assume n: "d' \<le> n"
  from c show "env_uuid env n \<noteq> i"
  proof (elim disjE conjE)
    assume "i = take 8 (env_uuid env (d' - 1))"
    then have "length i \<le> 8" by simp
    moreover have "8 < length (env_uuid env n)" using src by (simp add: uuid_source_def)
    ultimately show ?thesis by auto
  next
    assume "d' = d + 101" "i = env_uuid env (d + 100)"
    with n src show ?thesis by (auto simp: uuid_source_def dest: injD)
  qed
qed

section \<open>The step of an append\<close>

lemma file_text_snoc: "file_text env (es @ [e]) = file_text env es @ line_of env e"
  by (simp add: file_text_def)

lemma has_assistant_snoc: "has_assistant (es @ [e]) \<longleftrightarrow> has_assistant es \<or> is_assistant_entry e"
  by (simp add: has_assistant_def)

lemma persist_step:
  assumes "file_ok env s" "sm_fileEntries t = sm_fileEntries s @ [Entry e]"
    "sm_persist t = sm_persist s" "sm_sessionFile t = sm_sessionFile s"
    "sm_flushed t = sm_flushed s" "files t = files s"
  shows "\<exists>fs fl. persist env e t = (Inr (), t\<lparr>files := fs, sm_flushed := fl\<rparr>)
     \<and> file_ok env (t\<lparr>files := fs, sm_flushed := fl\<rparr>)"
proof (cases "sm_persist s")
  case False
  then have "persist env e t = (Inr (), t\<lparr>files := files t, sm_flushed := sm_flushed t\<rparr>)"
    using assms by (simp add: persist_def)
  with False assms show ?thesis by (fastforce simp: file_ok_def)
next
  case True
  with assms(1) obtain p where p: "sm_sessionFile s = Some p" "p \<noteq> []"
    "if sm_flushed s then files s p = Some (file_text env (sm_fileEntries s))
     else files s p = None \<and> \<not> has_assistant (sm_fileEntries s)"
    by (auto simp: file_ok_def split: option.splits)
  note fields = True p assms(2-)
  show ?thesis
  proof (cases "sm_flushed s")
    case fl: True
    with fields have "persist env e t = (Inr (), appendFile p (line_of env (Entry e)) t)"
      by (simp add: persist_def)
    moreover have "appendFile p (line_of env (Entry e)) t =
        t\<lparr>files := (files s)(p \<mapsto> file_text env (sm_fileEntries t)), sm_flushed := True\<rparr>"
      using fl fields by (simp add: appendFile_def file_text_snoc)
    ultimately show ?thesis using fields by (fastforce simp: file_ok_def)
  next
    case fl: False
    show ?thesis
    proof (cases "has_assistant (sm_fileEntries t)")
      case True
      with fl fields have "persist env e t =
          (Inr (), t\<lparr>files := (files s)(p \<mapsto> file_text env (sm_fileEntries t)), sm_flushed := True\<rparr>)"
        by (simp add: persist_def)
      then show ?thesis using fields by (fastforce simp: file_ok_def)
    next
      case False
      with fl fields have "persist env e t = (Inr (), t\<lparr>files := files s, sm_flushed := False\<rparr>)"
        by (simp add: persist_def)
      moreover have "file_ok env (t\<lparr>files := files s, sm_flushed := False\<rparr>)"
        using False fields fl by (simp add: file_ok_def)
      ultimately show ?thesis by blast
    qed
  qed
qed

text \<open>The index a rebuild gives, entry by entry.\<close>

lemma put_label_frame [simp]:
  "sm_fileEntries (put_label t l ts s) = sm_fileEntries s"
  "sm_persist (put_label t l ts s) = sm_persist s"
  "sm_sessionFile (put_label t l ts s) = sm_sessionFile s"
  "sm_flushed (put_label t l ts s) = sm_flushed s"
  "sm_sessionId (put_label t l ts s) = sm_sessionId s"
  "sm_byId (put_label t l ts s) = sm_byId s"
  "sm_leafId (put_label t l ts s) = sm_leafId s"
  "files (put_label t l ts s) = files s"
  "draws (put_label t l ts s) = draws s"
  by (simp_all add: put_label_def Let_def split: option.split)

lemma put_label_ok [simp]:
  "file_ok env (put_label t l ts s) = file_ok env s" "getEntries (put_label t l ts s) = getEntries s"
  by (cases "sm_sessionFile s"; simp add: file_ok_def getEntries_def)+

lemma put_label_fields:
  "index_fields s = index_fields t \<Longrightarrow> index_fields (put_label g l ts s) = index_fields (put_label g l ts t)"
  by (simp add: put_label_def index_fields_def Let_def split: option.split)

lemma index_entry_frame [simp]:
  "sm_fileEntries (index_entry s f) = sm_fileEntries s"
  "sm_persist (index_entry s f) = sm_persist s"
  "sm_sessionFile (index_entry s f) = sm_sessionFile s"
  "sm_flushed (index_entry s f) = sm_flushed s"
  "sm_sessionId (index_entry s f) = sm_sessionId s"
  "files (index_entry s f) = files s"
  "draws (index_entry s f) = draws s"
  by (cases f; simp add: Let_def split: body.split)+

lemma index_entry_fields:
  assumes "index_fields s = index_fields t"
  shows "index_fields (index_entry s f) = index_fields (index_entry t f)"
proof (cases f)
  case (Entry e)
  have "index_fields (s\<lparr>sm_byId := AList.update (e_id e) e (sm_byId s), sm_leafId := e_id e\<rparr>) =
      index_fields (t\<lparr>sm_byId := AList.update (e_id e) e (sm_byId t), sm_leafId := e_id e\<rparr>)"
    using assms by (simp add: index_fields_def)
  with Entry show ?thesis
    by (cases "e_body e") (simp_all add: put_label_fields [of "s\<lparr>sm_byId := AList.update (e_id e) e (sm_byId s), sm_leafId := e_id e\<rparr>" "t\<lparr>sm_byId := AList.update (e_id e) e (sm_byId t), sm_leafId := e_id e\<rparr>"])
qed (use assms in simp)

lemma buildIndex_snoc:
  assumes "sm_fileEntries t = sm_fileEntries s @ [f]"
  shows "index_fields (buildIndex t) = index_fields (index_entry (buildIndex s) f)"
proof -
  have "index_fields (foldl index_entry u fs) = index_fields (foldl index_entry v fs)"
    if "index_fields u = index_fields v" for u v fs
    using that
  proof (induction fs arbitrary: u v)
    case (Cons g fs)
    from Cons.IH [OF index_entry_fields [OF Cons.prems]] show ?case by simp
  qed simp
  moreover have "index_fields (t\<lparr>sm_byId := [], sm_labelsById := [], sm_labelTimestampsById := [], sm_leafId := None\<rparr>)
    = index_fields (s\<lparr>sm_byId := [], sm_labelsById := [], sm_labelTimestampsById := [], sm_leafId := None\<rparr>)"
    by (simp add: index_fields_def)
  ultimately show ?thesis
    unfolding buildIndex_def assms foldl_append foldl.simps by (intro index_entry_fields) blast
qed

definition is_label :: "body \<Rightarrow> bool" where
  "is_label b = (case b of LabelB _ _ \<Rightarrow> True | _ \<Rightarrow> False)"

lemma index_entry_plain:
  "\<not> is_label (e_body e) \<Longrightarrow> index_entry s (Entry e) =
     s\<lparr>sm_byId := AList.update (e_id e) e (sm_byId s), sm_leafId := e_id e\<rparr>"
  by (simp add: is_label_def split: body.split body.splits)

text \<open>
  An append to an invariant state: it returns the fresh identifier, and what it leaves.
  \<open>appended\<close> is the core of the effect, shared by all operations that append.
\<close>

definition appended :: "session_env \<Rightarrow> manager \<Rightarrow> body \<Rightarrow> entry \<Rightarrow> manager \<Rightarrow> bool" where
  "appended env s b e t \<longleftrightarrow>
     e_parentId e = sm_leafId s \<and> e_body e = b \<and>
     sm_fileEntries t = sm_fileEntries s @ [Entry e] \<and> sm_leafId t = e_id e \<and>
     sm_byId t = AList.update (e_id e) e (sm_byId s) \<and>
     wf_entries [] (getEntries t) \<and>
     (\<forall>n\<ge>draws t. Some (env_uuid env n) \<notin> set (ids (getEntries t))) \<and>
     file_ok env t"

lemma getEntries_append:
  "sm_fileEntries t = sm_fileEntries s @ [Entry e] \<Longrightarrow> getEntries t = getEntries s @ [e]"
  by (simp add: getEntries_def)

lemma new_entry_append:
  assumes src: "uuid_source env" and ok: "session_ok env s"
  shows "\<exists>e u t fs fl. new_entry env b s = (Inr e, u) \<and> appendEntry env e u = (Inr (), t) \<and>
     appended env s b e t \<and>
     t = u\<lparr>sm_fileEntries := sm_fileEntries s @ [Entry e],
           sm_byId := AList.update (e_id e) e (sm_byId s), sm_leafId := e_id e,
           files := fs, sm_flushed := fl\<rparr> \<and>
     index_fields u = index_fields s"
proof -
  note okD = session_okD [OF ok]
  obtain i d where gen: "generateId (env_uuid env) (has_id s) (draws s) = (i, d)" by force
  have used: "\<not> has_id s (Some (env_uuid env n))" if "draws s \<le> n" for n
    using okD(4) [OF that] by (simp add: has_id_iff [OF okD(2)])
  have fresh: "i \<noteq> []" "\<not> has_id s (Some i)" "draws s < d" "\<And>n. d \<le> n \<Longrightarrow> env_uuid env n \<noteq> i"
    using generateId_fresh [of env "draws s" "has_id s" i d] src used gen by blast+
  define e where "e = \<lparr>e_id = Some i, e_parentId = sm_leafId s, e_timestamp = env_now env (ticks s),
      e_body = b\<rparr>"
  define u where "u = s\<lparr>draws := d, ticks := Suc (ticks s)\<rparr>"
  define v where "v = u\<lparr>sm_fileEntries := sm_fileEntries s @ [Entry e],
      sm_byId := AList.update (e_id e) e (sm_byId s), sm_leafId := e_id e\<rparr>"
  have new: "new_entry env b s = (Inr e, u)" by (simp add: new_entry_def gen e_def u_def)
  from persist_step [OF okD(6), of v e] obtain fs fl where
    per: "persist env e v = (Inr (), v\<lparr>files := fs, sm_flushed := fl\<rparr>)"
      "file_ok env (v\<lparr>files := fs, sm_flushed := fl\<rparr>)"
    by (auto simp: v_def u_def)
  define t where "t = v\<lparr>files := fs, sm_flushed := fl\<rparr>"
  have app: "appendEntry env e u = (Inr (), t)"
    using per(1) by (simp add: appendEntry_def bindA_def modifyA_def t_def v_def u_def)
  have ge: "getEntries t = getEntries s @ [e]"
    by (rule getEntries_append) (simp add: t_def v_def)
  from fresh(2) have "Some i \<notin> set (ids (getEntries s))" by (simp add: has_id_iff [OF okD(2)])
  with okD(1,3) fresh(1) have wf: "wf_entries [] (getEntries t)"
    by (simp add: ge wf_entries_snoc e_def)
  have "Some (env_uuid env n) \<notin> set (ids (getEntries t))" if "draws t \<le> n" for n
  proof -
    from that have "d \<le> n" by (simp add: t_def v_def u_def)
    with fresh(3) fresh(4) [OF this] okD(4) [of n] show ?thesis by (auto simp: ge e_def)
  qed
  with wf per(2) have "appended env s b e t"
    by (simp add: appended_def) (simp add: t_def v_def e_def)
  moreover have "t = u\<lparr>sm_fileEntries := sm_fileEntries s @ [Entry e],
       sm_byId := AList.update (e_id e) e (sm_byId s), sm_leafId := e_id e,
       files := fs, sm_flushed := fl\<rparr>" by (simp add: t_def v_def)
  moreover have "index_fields u = index_fields s" by (simp add: u_def index_fields_def)
  ultimately show ?thesis using new app by blast
qed

lemma appended_ok:
  assumes "session_ok env s" "appended env s b e t"
    "index_fields t = index_fields (index_entry s (Entry e))"
  shows "session_ok env t"
proof -
  note okD = session_okD [OF assms(1)]
  from assms(2) have fe: "sm_fileEntries t = sm_fileEntries s @ [Entry e]" by (simp add: appended_def)
  note ge = getEntries_append [OF fe]
  from assms(1) obtain h es where "sm_fileEntries s = Header h # map Entry es"
    by (auto simp: session_ok_def)
  with fe have "sm_fileEntries t = Header h # map Entry (es @ [e])" by simp
  then have shape: "\<exists>h es. sm_fileEntries t = Header h # map Entry es" by blast
  have idx: "indexes (sm_byId t) (getEntries t)"
    using assms(2) indexes_snoc [OF okD(2), of e] by (simp add: appended_def ge)
  have "index_fields (buildIndex t) = index_fields t"
    by (simp only: buildIndex_snoc [OF fe] assms(3) index_entry_fields [OF okD(5)])
  with shape idx assms(2) show ?thesis by (simp add: session_ok_def appended_def ge)
qed

lemma append_body_step:
  assumes src: "uuid_source env" and ok: "session_ok env s" and "\<not> is_label b"
  shows "\<exists>e t. append_body env b s = (Inr (e_id e), t) \<and> appended env s b e t \<and> session_ok env t"
proof -
  from new_entry_append [OF src ok, of b] obtain e u t fs fl where
    r: "new_entry env b s = (Inr e, u)" "appendEntry env e u = (Inr (), t)" "appended env s b e t"
      "t = u\<lparr>sm_fileEntries := sm_fileEntries s @ [Entry e],
           sm_byId := AList.update (e_id e) e (sm_byId s), sm_leafId := e_id e,
           files := fs, sm_flushed := fl\<rparr>" "index_fields u = index_fields s" by blast
  have "append_body env b s = (Inr (e_id e), t)"
    by (simp add: append_body_def bindA_def r retA_def)
  moreover have "index_fields t = index_fields (index_entry s (Entry e))"
    using r(3,5) assms(3) by (subst index_entry_plain) (simp_all add: appended_def r(4) index_fields_def)
  ultimately show ?thesis using r(3) appended_ok [OF ok] by blast
qed

section \<open>Every operation keeps the invariant\<close>

lemma session_ok_leaf:
  assumes "session_ok env s" "l = None \<or> l \<in> set (ids (getEntries s))"
  shows "session_ok env (s\<lparr>sm_leafId := l\<rparr>)"
proof -
  have "buildIndex (s\<lparr>sm_leafId := l\<rparr>) = buildIndex s" by (simp add: buildIndex_def)
  with assms show ?thesis
    by (simp add: session_ok_def index_fields_def)
qed

lemma index_entry_label:
  "e_body e = LabelB g l \<Longrightarrow> index_entry s (Entry e) =
     put_label g l (e_timestamp e) (s\<lparr>sm_byId := AList.update (e_id e) e (sm_byId s), sm_leafId := e_id e\<rparr>)"
  by simp

lemma appended_put_label:
  "appended env s b e t \<Longrightarrow> appended env s b e (put_label g l ts t)"
  by (simp add: appended_def)

lemma appendLabelChange_step:
  assumes src: "uuid_source env" and ok: "session_ok env s" and known: "has_id s (Some g)"
  shows "\<exists>e t. appendLabelChange env g l s = (Inr (e_id e), t) \<and>
     appended env s (LabelB (Some g) l) e t \<and> session_ok env t"
proof -
  from new_entry_append [OF src ok, of "LabelB (Some g) l"] obtain e u t fs fl where
    r: "new_entry env (LabelB (Some g) l) s = (Inr e, u)" "appendEntry env e u = (Inr (), t)"
      "appended env s (LabelB (Some g) l) e t"
      "t = u\<lparr>sm_fileEntries := sm_fileEntries s @ [Entry e],
           sm_byId := AList.update (e_id e) e (sm_byId s), sm_leafId := e_id e,
           files := fs, sm_flushed := fl\<rparr>" "index_fields u = index_fields s" by blast
  let ?t = "put_label (Some g) l (e_timestamp e) t"
  have run: "appendLabelChange env g l s = (Inr (e_id e), ?t)"
    by (simp add: appendLabelChange_def withA_def known bindA_def r(1,2) modifyA_def retA_def)
  have app: "appended env s (LabelB (Some g) l) e ?t" using r(3) by (rule appended_put_label)
  have "index_fields t =
      index_fields (s\<lparr>sm_byId := AList.update (e_id e) e (sm_byId s), sm_leafId := e_id e\<rparr>)"
    using r(5) by (simp add: r(4) index_fields_def)
  note fields = put_label_fields [OF this, of "Some g" l "e_timestamp e"]
  have "e_body e = LabelB (Some g) l" using r(3) by (simp add: appended_def)
  from fields have "index_fields ?t = index_fields (index_entry s (Entry e))"
    unfolding index_entry_label [OF \<open>e_body e = LabelB (Some g) l\<close>] .
  with run app appended_ok [OF ok app] show ?thesis by blast
qed

text \<open>
  What an operation did: it appended one entry below the leaf it set, or no entry at all; and it
  throws only for an identifier the session does not have, leaving it as it was.
\<close>

definition op_leaf :: "session_op \<Rightarrow> manager \<Rightarrow> ident" where
  "op_leaf op s = (case op of BranchSummarized i _ _ _ _ \<Rightarrow> i | _ \<Rightarrow> sm_leafId s)"

definition op_target :: "session_op \<Rightarrow> string option" where
  "op_target op = (case op of
     AppendLabel g _ \<Rightarrow> Some g | BranchTo i \<Rightarrow> Some i | BranchSummarized i _ _ _ _ \<Rightarrow> i
   | _ \<Rightarrow> None)"

definition op_appends :: "session_op \<Rightarrow> bool" where
  "op_appends op = (case op of BranchTo _ \<Rightarrow> False | ResetLeaf \<Rightarrow> False | _ \<Rightarrow> True)"

lemma run_op_throws:
  assumes "op_target op = Some i" "\<not> has_id s (Some i)"
  shows "run_op env op s = (Inl (not_found i), s)"
  using assms
  by (cases op) (auto simp: op_target_def appendLabelChange_def branch_def branchWithSummary_def
      withA_def throwA_def bindA_def)

definition op_known :: "session_op \<Rightarrow> manager \<Rightarrow> bool" where
  "op_known op s = (case op_target op of None \<Rightarrow> True | Some i \<Rightarrow> has_id s (Some i))"

lemma append_body_branch:
  assumes "uuid_source env" "session_ok env s" "l = None \<or> l \<in> set (ids (getEntries s))" "\<not> is_label b"
  shows "\<exists>e t. append_body env b (s\<lparr>sm_leafId := l\<rparr>) = (Inr (e_id e), t) \<and>
     appended env (s\<lparr>sm_leafId := l\<rparr>) b e t \<and> session_ok env t"
  using append_body_step [OF assms(1) session_ok_leaf [OF assms(2,3)] assms(4)] by blast

lemmas append_defs = appendMessage_def appendThinkingLevelChange_def appendModelChange_def
  appendCompaction_def appendCustomEntry_def appendSessionInfo_def appendCustomMessageEntry_def

lemma run_op_appends:
  assumes src: "uuid_source env" and ok: "session_ok env s"
    and "op_appends op" "op_known op s"
  shows "\<exists>b e t. run_op env op s = (Inr (e_id e), t) \<and>
     appended env (s\<lparr>sm_leafId := op_leaf op s\<rparr>) b e t \<and> session_ok env t"
proof -
  note step = append_body_step [OF src ok]
  have keep: "s\<lparr>sm_leafId := sm_leafId s\<rparr> = s" by simp
  show ?thesis
  proof (cases op)
    case (AppendLabel g l)
    with assms(4) have "has_id s (Some g)" by (simp add: op_known_def op_target_def)
    from appendLabelChange_step [OF src ok this, of l] AppendLabel show ?thesis
      by (auto simp: op_leaf_def)
  next
    case (BranchSummarized i su d fh us)
    define b where "b = BranchSummaryB \<lparr>
      bs_fromId = (case sm_leafId s of None \<Rightarrow> ''root'' | Some l \<Rightarrow> l), bs_summary = su,
      bs_details = d, bs_usage = us, bs_fromHook = fh\<rparr>"
    have known: "i = None \<or> i \<in> set (ids (getEntries s))"
      using assms(4) BranchSummarized has_id_iff [OF session_okD(2) [OF ok]]
      by (auto simp: op_known_def op_target_def split: option.splits)
    then have "i = None \<or> has_id s i" by (simp add: has_id_iff [OF session_okD(2) [OF ok]])
    then have "run_op env op s = append_body env b (s\<lparr>sm_leafId := i\<rparr>)"
      by (cases i) (auto simp: BranchSummarized branchWithSummary_def withA_def bindA_def modifyA_def b_def)
    moreover have "\<not> is_label b" by (simp add: b_def is_label_def)
    ultimately show ?thesis
      using append_body_branch [OF src ok known, of b] BranchSummarized by (auto simp: op_leaf_def)
  qed (use assms(3) step in \<open>simp_all add: append_defs op_leaf_def op_appends_def is_label_def,
         (metis body.simps)+\<close>)
qed

lemma run_op_moves:
  assumes ok: "session_ok env s" and "\<not> op_appends op" "op_known op s"
  shows "\<exists>l. run_op env op s = (Inr None, s\<lparr>sm_leafId := l\<rparr>) \<and> session_ok env (s\<lparr>sm_leafId := l\<rparr>)"
proof (cases op)
  case (BranchTo i)
  with assms(3) have known: "has_id s (Some i)" by (simp add: op_known_def op_target_def)
  have run: "run_op env op s = (Inr None, s\<lparr>sm_leafId := Some i\<rparr>)"
    by (simp add: BranchTo branch_def withA_def bindA_def modifyA_def retA_def known)
  have "session_ok env (s\<lparr>sm_leafId := Some i\<rparr>)"
    using known has_id_iff [OF session_okD(2) [OF ok]] by (intro session_ok_leaf [OF ok]) simp
  with run show ?thesis by blast
next
  case ResetLeaf
  have "run_op env op s = (Inr None, s\<lparr>sm_leafId := None\<rparr>)"
    by (simp add: ResetLeaf resetLeaf_def bindA_def modifyA_def retA_def)
  then show ?thesis using session_ok_leaf [OF ok, of None] by blast
qed (use assms(2) in \<open>simp_all add: op_appends_def\<close>)

lemma run_op_unknown:
  assumes "\<not> op_known op s"
  shows "\<exists>i. run_op env op s = (Inl (not_found i), s)"
  using assms run_op_throws by (auto simp: op_known_def split: option.splits)

lemma run_op_ok:
  assumes "uuid_source env" "session_ok env s"
  shows "session_ok env (snd (run_op env op s)) \<and>
     (\<exists>new. sm_fileEntries (snd (run_op env op s)) = sm_fileEntries s @ map Entry new)"
proof (cases "op_known op s")
  case False
  from run_op_unknown [OF this, of env] show ?thesis using assms(2) by (metis append_Nil2 list.map(1) snd_conv)
next
  case known: True
  show ?thesis
  proof (cases "op_appends op")
    case True
    from run_op_appends [OF assms this known] obtain b e t where
      "run_op env op s = (Inr (e_id e), t)" "appended env (s\<lparr>sm_leafId := op_leaf op s\<rparr>) b e t"
      "session_ok env t" by blast
    then show ?thesis by (auto simp: appended_def intro: exI [of _ "[e]"])
  next
    case False
    from run_op_moves [OF assms(2) this known] obtain l where
      "run_op env op s = (Inr None, s\<lparr>sm_leafId := l\<rparr>)" "session_ok env (s\<lparr>sm_leafId := l\<rparr>)" by blast
    then show ?thesis by (auto intro: exI [of _ "[]"])
  qed
qed

lemma run_ops_ok:
  assumes "uuid_source env" "session_ok env s"
  shows "session_ok env (run_ops env ops s) \<and>
     (\<exists>new. sm_fileEntries (run_ops env ops s) = sm_fileEntries s @ map Entry new)"
  using assms(2)
proof (induction ops arbitrary: s)
  case Nil
  then show ?case by (auto intro: exI [of _ "[]"])
next
  case (Cons op ops)
  let ?t = "snd (run_op env op s)"
  from run_op_ok [OF assms(1) Cons.prems, of op] obtain new where
    "session_ok env ?t" "sm_fileEntries ?t = sm_fileEntries s @ map Entry new" by blast
  with Cons.IH [OF this(1)] obtain new' where
    "session_ok env (run_ops env ops ?t)"
    "sm_fileEntries (run_ops env ops ?t) = sm_fileEntries s @ map Entry (new @ new')" by auto
  then show ?case unfolding run_ops.simps by blast
qed

section \<open>The branch of an identifier\<close>

lemma getBranch_lineage:
  assumes "session_ok env s"
  shows "getBranch l s = Some (lineage (rev (getEntries s)) (if l = None then sm_leafId s else l))"
proof -
  note okD = session_okD [OF assms]
  have path: "path_from (sm_byId s) (if truthy i then map_of (sm_byId s) i else None) =
      Some (lineage (rev (getEntries s)) i)" for i
  proof (cases "truthy i")
    case True
    then show ?thesis using path_from_lineage [OF okD(1,2)] by simp
  next
    case False
    then have "i \<notin> set (ids (getEntries s))" using wf_entries_truthy [OF okD(1)] by auto
    then have "lineage (rev (getEntries s)) i = []" by (intro lineage_absent) simp
    with False show ?thesis by simp
  qed
  show ?thesis by (simp add: getBranch_def Let_def path)
qed

text \<open>The start of a new session is an invariant state.\<close>

lemma newSession_fields:
  assumes "newSession env options s = (Inr f, t)"
  shows "\<exists>h. sm_fileEntries t = [Header h] \<and> sh_version h = Some CURRENT_SESSION_VERSION
      \<and> sm_sessionId t = sh_id h \<and> sh_cwd h = sm_cwd s"
    "index_fields t = ([], [], [])" "sm_leafId t = None" "\<not> sm_flushed t" "files t = files s"
    "sm_persist t = sm_persist s" "sm_sessionFile t = f" "draws t = draws s"
  using assms
  by (cases "sm_persist s"; auto simp: newSession_def bindA_def liftE_def Let_def index_fields_def
      split: sum.splits)+

lemma newSession_ok:
  assumes "newSession env options s = (Inr f, t)"
    "sm_persist s \<Longrightarrow> \<exists>p. f = Some p \<and> p \<noteq> [] \<and> files s p = None"
  shows "session_ok env t"
proof -
  note fields = newSession_fields [OF assms(1)]
  from fields(1) obtain h where h: "sm_fileEntries t = [Header h]" by blast
  then have "index_fields (buildIndex t) = ([], [], [])" by (simp add: buildIndex_def index_fields_def)
  moreover have "file_ok env t"
    using assms(2) fields(4-7) h by (auto simp: file_ok_def has_assistant_def)
  ultimately show ?thesis
    using fields h by (simp add: session_ok_def getEntries_def index_fields_def)
qed

end
