(* ===== verification/SessionFork.thy ===== *)
theory SessionFork imports SessionInv begin

text \<open>
  Extracting the path to an entry into a session of its own (\<open>createBranchedSession\<close>) and copying a
  session file under another directory (\<open>forkFrom\<close>), with the facts of the relinked path: it is
  a chain, its labels are recreated behind it, and it gives the model the same context.
\<close>

section \<open>Relinking a path without its labels\<close>

record relink_state =
  rk_path :: "entry list"
  rk_replacement :: "(ident \<times> ident) list"
  rk_pending :: "ident list"
  rk_parent :: ident

definition relink_start :: relink_state where
  "relink_start = \<lparr>rk_path = [], rk_replacement = [], rk_pending = [], rk_parent = None\<rparr>"

definition relink_entry :: "(ident \<times> ident) list \<Rightarrow> ident \<Rightarrow> entry \<Rightarrow> entry" where
  "relink_entry repl parent e = (case e_body e of
     Compaction c \<Rightarrow>
       e\<lparr>e_parentId := parent,
         e_body := Compaction (c\<lparr>co_firstKeptEntryId :=
           (case map_of repl (co_firstKeptEntryId c) of
              Some i \<Rightarrow> i | None \<Rightarrow> co_firstKeptEntryId c)\<rparr>)\<rparr>
   | _ \<Rightarrow> e\<lparr>e_parentId := parent\<rparr>)"

definition relink_step :: "relink_state \<Rightarrow> entry \<Rightarrow> relink_state" where
  "relink_step s e =
    (if is_label (e_body e) then s\<lparr>rk_pending := rk_pending s @ [e_id e]\<rparr>
     else
       let repl = foldl (\<lambda>m l. AList.update l (e_id e) m) (rk_replacement s) (rk_pending s)
       in \<lparr>rk_path = rk_path s @ [relink_entry repl (rk_parent s) e],
           rk_replacement = repl, rk_pending = [], rk_parent = e_id e\<rparr>)"

definition relink :: "entry list \<Rightarrow> relink_state" where
  "relink path = foldl relink_step relink_start path"

section \<open>Recreating the labels\<close>

type_synonym label_to_write = "ident \<times> string \<times> string"

definition labels_to_write :: "manager \<Rightarrow> ident list \<Rightarrow> label_to_write list" where
  "labels_to_write s pathIds =
     map (\<lambda>(t, l). (t, l, case map_of (sm_labelTimestampsById s) t of Some ts \<Rightarrow> ts | None \<Rightarrow> []))
       (filter (\<lambda>(t, l). t \<in> set pathIds) (sm_labelsById s))"

fun write_labels ::
  "(nat \<Rightarrow> string) \<Rightarrow> label_to_write list \<Rightarrow> ident list \<Rightarrow> ident \<Rightarrow> nat \<Rightarrow> entry list \<times> nat" where
  "write_labels uuid [] used parent d = ([], d)"
| "write_labels uuid ((t, l, ts) # rest) used parent d =
     (let (i, d1) = generateId uuid (\<lambda>x. x \<in> set used) d;
          (es, d2) = write_labels uuid rest (used @ [Some i]) (Some i) d1
      in (\<lparr>e_id = Some i, e_parentId = parent, e_timestamp = ts, e_body = LabelB t (Some l)\<rparr> # es, d2))"

text \<open>\<open>path[path.length - 1]?.id || null\<close>.\<close>

definition last_id :: "entry list \<Rightarrow> ident" where
  "last_id es = (if es = [] then None else if truthy (e_id (last es)) then e_id (last es) else None)"

text \<open>
  The new session replaces the one the manager holds. \<open>None\<close> when the walk to the root does
  not end.
\<close>

definition createBranchedSession ::
  "session_env \<Rightarrow> string \<Rightarrow> manager \<Rightarrow> ((string + string option) \<times> manager) option" where
  "createBranchedSession env leafId s = (case getBranch (Some leafId) s of
     None \<Rightarrow> None
   | Some path \<Rightarrow> Some (
       if path = [] then (Inl (not_found leafId), s)
       else
         let kept = rk_path (relink path);
             newId = env_uuidv7 env (sessions_drawn s);
             ts = env_now env (ticks s);
             newFile = session_path env (sm_sessionDir s) ts newId;
             header = \<lparr>sh_version = Some CURRENT_SESSION_VERSION, sh_id = newId, sh_timestamp = ts,
                       sh_cwd = sm_cwd s,
                       sh_parentSession = (if sm_persist s then sm_sessionFile s else None)\<rparr>;
             pathIds = ids kept;
             (labels, d) = write_labels (env_uuid env) (labels_to_write s pathIds) pathIds
                             (last_id kept) (draws s);
             s1 = s\<lparr>sessions_drawn := Suc (sessions_drawn s), ticks := Suc (ticks s), draws := d,
                    sm_fileEntries := Header header # map Entry (kept @ labels),
                    sm_sessionId := newId\<rparr>
         in if sm_persist s then
              let s2 = buildIndex (s1\<lparr>sm_sessionFile := Some newFile\<rparr>);
                  s3 = (if has_assistant (sm_fileEntries s2)
                        then (rewriteFile env s2)\<lparr>sm_flushed := True\<rparr>
                        else s2\<lparr>sm_flushed := False\<rparr>)
              in (Inr (Some newFile), s3)
            else (Inr None, buildIndex s1)))"

section \<open>Copying a session file\<close>

definition forkFrom ::
  "session_env \<Rightarrow> string \<Rightarrow> string \<Rightarrow> string \<Rightarrow> new_session_options option \<Rightarrow> session_world \<Rightarrow>
   (string + unit) \<times> manager" where
  "forkFrom env sourcePath targetCwd dir options w =
    (let source = env_resolvePath env sourcePath;
         cwd = env_resolvePath env targetCwd;
         d = env_normalizePath env dir;
         s0 = initial_manager env cwd d True w;
         (entries, s1) = loadEntriesFromFile env source s0
     in if entries = [] then
          (Inl (''Cannot fork: source session file is empty or invalid: '' @ source), s1)
        else case find_header entries of
          None \<Rightarrow> (Inl (''Cannot fork: source session has no header: '' @ source), s1)
        | Some _ \<Rightarrow>
            bindA (liftE (case options of
                Some o1 \<Rightarrow> (case ns_id o1 of Some i \<Rightarrow> assertValidSessionId i | None \<Rightarrow> Inr ())
              | None \<Rightarrow> Inr ())) (\<lambda>_ s.
              let given = (case options of Some o1 \<Rightarrow> ns_id o1 | None \<Rightarrow> None);
                  i = (case given of Some i \<Rightarrow> i | None \<Rightarrow> env_uuidv7 env (sessions_drawn s));
                  drawn = (if given = None then Suc (sessions_drawn s) else sessions_drawn s);
                  ts = env_now env (ticks s);
                  file = session_path env d ts i;
                  header = \<lparr>sh_version = Some CURRENT_SESSION_VERSION, sh_id = i, sh_timestamp = ts,
                            sh_cwd = cwd, sh_parentSession = Some source\<rparr>
              in if files s file \<noteq> None then
                   (Inl ''EEXIST'', s\<lparr>sessions_drawn := drawn, ticks := Suc (ticks s)\<rparr>)
                 else
                   let s2 = s\<lparr>files := (files s)(file \<mapsto> line_of env (Header header)),
                              sessions_drawn := drawn, ticks := Suc (ticks s)\<rparr>;
                       s3 = foldl (\<lambda>t e. appendFile file (line_of env (Entry e)) t) s2
                              (entries_of entries)
                   in open_manager env cwd d (Some file) True None None
                        \<lparr>wo_files = files s3, wo_draws = draws s3, wo_sessions = sessions_drawn s3,
                         wo_ticks = ticks s3\<rparr>) s1)"

section \<open>The relinked path\<close>

lemma relink_snoc: "relink (path @ [e]) = relink_step (relink path) e"
  by (simp add: relink_def)

lemma relink_Nil [simp]: "relink [] = relink_start"
  by (simp add: relink_def)

lemma relink_entry_base [simp]:
  "e_id (relink_entry repl p e) = e_id e" "e_parentId (relink_entry repl p e) = p"
  "e_timestamp (relink_entry repl p e) = e_timestamp e"
  by (simp_all add: relink_entry_def split: body.split)

abbreviation real_entries :: "entry list \<Rightarrow> entry list" where
  "real_entries es \<equiv> filter (\<lambda>e. \<not> is_label (e_body e)) es"

text \<open>The entries in order, chained from the root, and what else the loop carries.\<close>

lemma relink_ids: "ids (rk_path (relink path)) = ids (real_entries path)"
  by (induction path rule: rev_induct)
     (simp_all add: relink_snoc relink_step_def relink_start_def Let_def)

lemma relink_parent:
  "rk_parent (relink path) = (if rk_path (relink path) = [] then None else e_id (last (rk_path (relink path))))"
  by (induction path rule: rev_induct)
     (simp_all add: relink_snoc relink_step_def relink_start_def Let_def)

lemma relink_linked: "linked None (rk_path (relink path))"
proof (induction path rule: rev_induct)
  case (snoc e path)
  then show ?case
    using relink_parent [of path]
    by (auto simp: relink_snoc relink_step_def linked_append Let_def split: if_splits)
qed (simp add: relink_start_def)

lemma relink_messages_entry:
  "\<not> is_label (e_body e) \<Longrightarrow>
     sessionEntryToContextMessages time (relink_entry repl p e) = sessionEntryToContextMessages time e"
  "settings_step s (relink_entry repl p e) = settings_step s e"
  "is_compaction (relink_entry repl p e) = is_compaction e"
  by (simp_all add: relink_entry_def sessionEntryToContextMessages_def settings_step_def is_compaction_def
      split: body.split)

lemma relink_entry_assistant [simp]:
  "stored_assistant (e_body (relink_entry repl p e)) = stored_assistant (e_body e)"
  by (simp add: relink_entry_def split: body.split)

lemma label_silent:
  "is_label (e_body e) \<Longrightarrow> sessionEntryToContextMessages time e = []"
  "is_label (e_body e) \<Longrightarrow> settings_step s e = s"
  "is_label (e_body e) \<Longrightarrow> \<not> is_compaction e"
  by (simp_all add: is_label_def sessionEntryToContextMessages_def settings_step_def is_compaction_def
      split: body.splits)

abbreviation messages_of :: "(string \<Rightarrow> nat) \<Rightarrow> entry list \<Rightarrow> coding_message list" where
  "messages_of time es \<equiv> concat (map (sessionEntryToContextMessages time) es)"

lemma messages_of_real: "messages_of time (real_entries es) = messages_of time es"
  by (induction es) (auto simp: label_silent)

lemma messages_of_labels: "\<forall>e\<in>set es. is_label (e_body e) \<Longrightarrow> messages_of time es = []"
  by (induction es) (auto simp: label_silent)

text \<open>Entry by entry, the relinked path says what the real entries of the path say.\<close>

definition same_content :: "entry \<Rightarrow> entry \<Rightarrow> bool" where
  "same_content d e \<longleftrightarrow> (\<exists>repl p. d = relink_entry repl p e) \<and> \<not> is_label (e_body e)"

lemma relink_same: "list_all2 same_content (rk_path (relink path)) (real_entries path)"
proof (induction path rule: rev_induct)
  case (snoc e path)
  then show ?case
    by (auto simp: relink_snoc relink_step_def Let_def same_content_def intro!: list_all2_appendI)
qed (simp add: relink_start_def)

lemma same_content_messages:
  "list_all2 same_content ds es \<Longrightarrow> messages_of time ds = messages_of time es"
  by (induction rule: list_all2_induct) (auto simp: same_content_def relink_messages_entry)

lemma same_content_settings:
  "list_all2 same_content ds es \<Longrightarrow> foldl settings_step s ds = foldl settings_step s es"
  by (induction arbitrary: s rule: list_all2_induct) (auto simp: same_content_def relink_messages_entry)

lemma same_content_ids: "list_all2 same_content ds es \<Longrightarrow> ids ds = ids es"
  by (induction rule: list_all2_induct) (auto simp: same_content_def)

lemma settings_labels:
  "\<forall>e\<in>set ls. is_label (e_body e) \<Longrightarrow> foldl settings_step s ls = s"
  by (induction ls) (auto simp: label_silent)

lemma settings_real: "foldl settings_step s (real_entries es) = foldl settings_step s es"
  by (induction es arbitrary: s) (auto simp: label_silent)

end
