(* ===== verification/SessionForkLaws.thy ===== *)
theory SessionForkLaws imports SessionFork begin

text \<open>
  What extracting a branch preserves: the kept range of the last compaction survives the removal
  of labels, so the messages and settings of the context are those of the original path, and
  the new session satisfies the invariant of the manager.
\<close>

section \<open>The replacement of a removed label\<close>

lemma map_of_replace:
  "map_of (foldl (\<lambda>m l. AList.update l n m) m ls) k = (if k \<in> set ls then Some n else map_of m k)"
  by (induction ls arbitrary: m) (auto simp: update_conv')

lemma dropWhile_id_append:
  "k \<in> set (ids es) \<Longrightarrow> dropWhile (\<lambda>e. e_id e \<noteq> k) (es @ fs) = dropWhile (\<lambda>e. e_id e \<noteq> k) es @ fs"
  by (induction es) auto

lemma dropWhile_id_absent: "k \<notin> set (ids es) \<Longrightarrow> dropWhile (\<lambda>e. e_id e \<noteq> k) es = []"
  by (induction es) auto

lemma dropWhile_id_absent_append:
  "k \<notin> set (ids es) \<Longrightarrow> dropWhile (\<lambda>e. e_id e \<noteq> k) (es @ fs) = dropWhile (\<lambda>e. e_id e \<noteq> k) fs"
  by (induction es) auto

lemma real_labels: "\<forall>e\<in>set ls. is_label (e_body e) \<Longrightarrow> real_entries ls = []"
  by simp

text \<open>
  After a path, the pending labels are those at its end, and every other label of the path is
  replaced by the first real entry after it.
\<close>

definition relinked_so_far :: "entry list \<Rightarrow> relink_state \<Rightarrow> bool" where
  "relinked_so_far path r \<longleftrightarrow> (\<exists>a ls. path = a @ ls \<and> (\<forall>e\<in>set ls. is_label (e_body e)) \<and>
     rk_pending r = ids ls \<and>
     (\<forall>k. k \<notin> set (ids (filter (\<lambda>e. is_label (e_body e)) a)) \<longrightarrow> map_of (rk_replacement r) k = None) \<and>
     (\<forall>k \<in> set (ids (filter (\<lambda>e. is_label (e_body e)) a)).
        \<exists>n \<in> set (ids (real_entries a)). map_of (rk_replacement r) k = Some n \<and>
          dropWhile (\<lambda>e. e_id e \<noteq> n) (real_entries a) = real_entries (dropWhile (\<lambda>e. e_id e \<noteq> k) a)))"

lemma relinked_real:
  assumes a: "\<forall>k \<in> set (ids (filter (\<lambda>e. is_label (e_body e)) a)).
        \<exists>n \<in> set (ids (real_entries a)). map_of m k = Some n \<and>
          dropWhile (\<lambda>e. e_id e \<noteq> n) (real_entries a) = real_entries (dropWhile (\<lambda>e. e_id e \<noteq> k) a)"
    and ls: "\<forall>e\<in>set ls. is_label (e_body e)" and d: "distinct (ids (a @ ls @ [x]))"
    and x: "\<not> is_label (e_body x)" and k: "k \<in> set (ids (filter (\<lambda>e. is_label (e_body e)) (a @ ls @ [x])))"
  shows "\<exists>n \<in> set (ids (real_entries (a @ ls @ [x]))).
     (if k \<in> set (ids ls) then Some (e_id x) else map_of m k) = Some n \<and>
     dropWhile (\<lambda>e. e_id e \<noteq> n) (real_entries (a @ ls @ [x])) =
       real_entries (dropWhile (\<lambda>e. e_id e \<noteq> k) (a @ ls @ [x]))"
proof (cases "k \<in> set (ids ls)")
  case True
  have reals: "real_entries (a @ ls @ [x]) = real_entries a @ [x]" using ls x by simp
  from d have "e_id x \<notin> set (ids (real_entries a))" by auto
  then have l: "dropWhile (\<lambda>e. e_id e \<noteq> e_id x) (real_entries a @ [x]) = [x]"
    by (subst dropWhile_id_absent_append) simp_all
  from d True have "k \<notin> set (ids a)" by auto
  then have "dropWhile (\<lambda>e. e_id e \<noteq> k) (a @ ls @ [x]) = dropWhile (\<lambda>e. e_id e \<noteq> k) ls @ [x]"
    using dropWhile_id_absent_append [of k a "ls @ [x]"] dropWhile_id_append [of k ls "[x]"] True by simp
  moreover have "real_entries (dropWhile (\<lambda>e. e_id e \<noteq> k) ls) = []"
    using ls by (auto simp: filter_empty_conv dest: set_dropWhileD)
  ultimately have r: "real_entries (dropWhile (\<lambda>e. e_id e \<noteq> k) (a @ ls @ [x])) = [x]" using x by simp
  show ?thesis using True by (intro bexI [of _ "e_id x"]) (simp_all only: reals l r, simp_all)
next
  case False
  with k x have ka: "k \<in> set (ids (filter (\<lambda>e. is_label (e_body e)) a))" by auto
  with a obtain n where n: "n \<in> set (ids (real_entries a))" "map_of m k = Some n"
    "dropWhile (\<lambda>e. e_id e \<noteq> n) (real_entries a) = real_entries (dropWhile (\<lambda>e. e_id e \<noteq> k) a)"
    by blast
  have reals: "real_entries (a @ ls @ [x]) = real_entries a @ [x]" using ls x by simp
  from ka have "k \<in> set (ids a)" by auto
  then have "real_entries (dropWhile (\<lambda>e. e_id e \<noteq> k) (a @ ls @ [x])) =
      real_entries (dropWhile (\<lambda>e. e_id e \<noteq> k) a) @ [x]"
    using ls x by (simp add: dropWhile_id_append)
  moreover have "dropWhile (\<lambda>e. e_id e \<noteq> n) (real_entries a @ [x]) =
      dropWhile (\<lambda>e. e_id e \<noteq> n) (real_entries a) @ [x]"
    using n(1) by (rule dropWhile_id_append)
  ultimately show ?thesis
    using n False by (intro bexI [of _ n]) (simp_all only: reals, simp_all)
qed

lemma relink_replacement:
  "distinct (ids path) \<Longrightarrow> relinked_so_far path (relink path)"
proof (induction path rule: rev_induct)
  case Nil
  show ?case
    by (rule relinked_so_far_def [THEN iffD2], intro exI [of _ "[]"]) (simp add: relink_start_def)
next
  case (snoc x path)
  then have "relinked_so_far path (relink path)" by simp
  then obtain a ls where h: "path = a @ ls" "\<forall>e\<in>set ls. is_label (e_body e)"
     "rk_pending (relink path) = ids ls"
     "\<forall>k. k \<notin> set (ids (filter (\<lambda>e. is_label (e_body e)) a)) \<longrightarrow> map_of (rk_replacement (relink path)) k = None"
     "\<forall>k \<in> set (ids (filter (\<lambda>e. is_label (e_body e)) a)).
        \<exists>n \<in> set (ids (real_entries a)). map_of (rk_replacement (relink path)) k = Some n \<and>
          dropWhile (\<lambda>e. e_id e \<noteq> n) (real_entries a) = real_entries (dropWhile (\<lambda>e. e_id e \<noteq> k) a)"
    unfolding relinked_so_far_def by blast
  show ?case
  proof (cases "is_label (e_body x)")
    case True
    with h show ?thesis
      unfolding relinked_so_far_def relink_snoc relink_step_def
      by (intro exI [of _ a] exI [of _ "ls @ [x]"]) simp
  next
    case False
    define r where "r = relink_step (relink path) x"
    from False h(3) have r: "rk_pending r = []"
      "map_of (rk_replacement r) k =
         (if k \<in> set (ids ls) then Some (e_id x) else map_of (rk_replacement (relink path)) k)" for k
      by (simp_all add: r_def relink_step_def Let_def map_of_replace)
    have d: "distinct (ids (a @ ls @ [x]))" using snoc.prems h(1) by simp
    have none: "map_of (rk_replacement r) k = None"
      if "k \<notin> set (ids (filter (\<lambda>e. is_label (e_body e)) (a @ ls @ [x])))" for k
    proof -
      from that h(2) have "k \<notin> set (ids ls)" "k \<notin> set (ids (filter (\<lambda>e. is_label (e_body e)) a))" by auto
      with h(4) r(2) show ?thesis by simp
    qed
    note some = relinked_real [OF h(5) h(2) d False, folded r(2)]
    have "path @ [x] = (a @ ls @ [x]) @ []" using h(1) by simp
    moreover have "rk_pending r = ids []" using r(1) by simp
    ultimately show ?thesis
      using none some unfolding relinked_so_far_def relink_snoc r_def [symmetric]
      by (intro exI [of _ "a @ ls @ [x]"] exI [of _ "[]"] conjI allI impI ballI) simp_all
  qed
qed

section \<open>The context of the extracted path\<close>

lemma list_all2_dropWhile_id:
  "list_all2 same_content ds es \<Longrightarrow>
     list_all2 same_content (dropWhile (\<lambda>e. e_id e \<noteq> k) ds) (dropWhile (\<lambda>e. e_id e \<noteq> k) es)"
proof (induction rule: list_all2_induct)
  case (Cons d ds e es)
  then have "e_id d = e_id e" by (auto simp: same_content_def)
  with Cons show ?case by simp
qed simp

lemma real_dropWhile:
  "k \<notin> set (ids (filter (\<lambda>e. is_label (e_body e)) es)) \<Longrightarrow>
     real_entries (dropWhile (\<lambda>e. e_id e \<noteq> k) es) = dropWhile (\<lambda>e. e_id e \<noteq> k) (real_entries es)"
  by (induction es) (auto split: if_splits)

text \<open>The kept range, from the entry the summary names, has the same real entries.\<close>

lemma kept_range:
  assumes d: "distinct (ids (pre @ [c]))" and c: "\<not> is_label (e_body c)"
  shows "dropWhile (\<lambda>e. e_id e \<noteq> (case map_of (rk_replacement (relink (pre @ [c]))) k of
       Some i \<Rightarrow> i | None \<Rightarrow> k)) (real_entries pre) = real_entries (dropWhile (\<lambda>e. e_id e \<noteq> k) pre)"
proof -
  from relink_replacement [OF d] obtain a ls where h: "pre @ [c] = a @ ls" "\<forall>e\<in>set ls. is_label (e_body e)"
     "\<forall>k. k \<notin> set (ids (filter (\<lambda>e. is_label (e_body e)) a)) \<longrightarrow>
       map_of (rk_replacement (relink (pre @ [c]))) k = None"
     "\<forall>k \<in> set (ids (filter (\<lambda>e. is_label (e_body e)) a)).
        \<exists>n \<in> set (ids (real_entries a)). map_of (rk_replacement (relink (pre @ [c]))) k = Some n \<and>
          dropWhile (\<lambda>e. e_id e \<noteq> n) (real_entries a) = real_entries (dropWhile (\<lambda>e. e_id e \<noteq> k) a)"
    unfolding relinked_so_far_def by blast
  have "ls = []"
  proof (cases ls rule: rev_cases)
    case (snoc ms l)
    with h(1) have "l = c" by simp
    with h(2) c snoc show ?thesis by simp
  qed
  with h(1) have a: "a = pre @ [c]" by simp
  note at_real = real_dropWhile [of k pre]
  show ?thesis
  proof (cases "k \<in> set (ids (filter (\<lambda>e. is_label (e_body e)) a))")
    case False
    with h(3) have none: "map_of (rk_replacement (relink (pre @ [c]))) k = None" by blast
    from False a have "k \<notin> set (ids (filter (\<lambda>e. is_label (e_body e)) pre))" by auto
    from real_dropWhile [OF this] show ?thesis by (simp add: none)
  next
    case True
    with h(4) obtain n where n: "n \<in> set (ids (real_entries a))"
      "map_of (rk_replacement (relink (pre @ [c]))) k = Some n"
      "dropWhile (\<lambda>e. e_id e \<noteq> n) (real_entries a) = real_entries (dropWhile (\<lambda>e. e_id e \<noteq> k) a)" by blast
    from True a c have "k \<in> set (ids pre)" by auto
    then have "dropWhile (\<lambda>e. e_id e \<noteq> n) (real_entries pre @ [c]) =
        real_entries (dropWhile (\<lambda>e. e_id e \<noteq> k) pre) @ [c]"
      using n(3) c by (simp add: a dropWhile_id_append)
    moreover have "dropWhile (\<lambda>e. e_id e \<noteq> n) (real_entries pre @ [c]) =
        dropWhile (\<lambda>e. e_id e \<noteq> n) (real_entries pre) @ [c]"
    proof (cases "n \<in> set (ids (real_entries pre))")
      case True
      then show ?thesis by (rule dropWhile_id_append)
    next
      case False
      with n(1) a c have "n = e_id c" by auto
      with False show ?thesis
        using dropWhile_id_absent_append [OF False, of "[c]"] dropWhile_id_absent [OF False] by simp
    qed
    ultimately show ?thesis by (simp add: n(2))
  qed
qed

lemma relink_append_prefix:
  "\<exists>more. rk_path (relink (es @ fs)) = rk_path (relink es) @ more"
proof (induction fs rule: rev_induct)
  case (snoc f fs)
  then obtain more where "rk_path (relink (es @ fs)) = rk_path (relink es) @ more" by blast
  then show ?case
    using relink_snoc [of "es @ fs" f] by (simp add: relink_step_def Let_def)
qed simp

lemma relink_compaction:
  assumes "\<not> is_label (e_body c)"
  shows "rk_path (relink (pre @ [c])) =
     rk_path (relink pre) @ [relink_entry (rk_replacement (relink (pre @ [c]))) (rk_parent (relink pre)) c]"
  using assms by (simp add: relink_snoc relink_step_def Let_def)

lemma first_kept_relink:
  "is_compaction c \<Longrightarrow> first_kept (relink_entry repl p c) =
     (case map_of repl (first_kept c) of Some i \<Rightarrow> i | None \<Rightarrow> first_kept c)"
  by (cases "e_body c")
     (simp_all add: is_compaction_def first_kept_def relink_entry_def split: option.split)

lemma same_content_compaction:
  "list_all2 same_content ds es \<Longrightarrow> list_ex is_compaction ds = list_ex is_compaction es"
  by (induction rule: list_all2_induct) (auto simp: same_content_def relink_messages_entry)

lemma compaction_real: "list_ex is_compaction (real_entries es) = list_ex is_compaction es"
  by (induction es) (auto simp: label_silent)

lemma labels_no_compaction:
  "\<forall>e\<in>set ls. is_label (e_body e) \<Longrightarrow> \<not> list_ex is_compaction ls"
  by (auto simp: list_ex_iff label_silent)

lemma relink_context:
  assumes path: "distinct (ids path)"
    and new: "distinct (ids (rk_path (relink path) @ ls))" and ls: "\<forall>e\<in>set ls. is_label (e_body e)"
  shows "messages_of time (context_of_path (rk_path (relink path) @ ls)) =
         messages_of time (context_of_path path)"
proof (cases "last_compaction path")
  case None
  then have "\<not> list_ex is_compaction path" by (simp add: last_compaction_None)
  moreover have "\<not> list_ex is_compaction (rk_path (relink path) @ ls)"
    using calculation same_content_compaction [OF relink_same] labels_no_compaction [OF ls]
    by (simp add: compaction_real)
  ultimately show ?thesis
    using same_content_messages [OF relink_same, of time path] messages_of_labels [OF ls]
    by (simp add: context_plain messages_of_real)
next
  case (Some c)
  then obtain pre post where p: "path = pre @ c # post" "is_compaction c" "\<not> list_ex is_compaction post"
    using last_compaction_split by blast
  from p(2) have c: "\<not> is_label (e_body c)" using label_silent(3) by blast
  from relink_append_prefix [of "pre @ [c]" post] p(1)
  obtain more where more: "rk_path (relink path) = rk_path (relink (pre @ [c])) @ more" by auto
  define c' where "c' = relink_entry (rk_replacement (relink (pre @ [c]))) (rk_parent (relink pre)) c"
  have split: "rk_path (relink path) = rk_path (relink pre) @ c' # more"
    by (simp add: more relink_compaction [OF c] c'_def)
  have same: "list_all2 same_content (rk_path (relink pre)) (real_entries pre)"
    by (rule relink_same)
  have "real_entries path = real_entries pre @ c # real_entries post" using p(1) c by simp
  with relink_same [of path] have "list_all2 same_content
      (rk_path (relink pre) @ c' # more) (real_entries pre @ c # real_entries post)" by (simp only: split)
  with same have sm: "list_all2 same_content more (real_entries post)"
    using list_all2_lengthD [OF same] by (simp add: list_all2_append)
  have c': "is_compaction c'" using p(2) by (simp add: c'_def relink_messages_entry)
  have tail: "\<not> list_ex is_compaction (more @ ls)"
    using p(3) same_content_compaction [OF sm] labels_no_compaction [OF ls] by (simp add: compaction_real)
  have ctx': "context_of_path (rk_path (relink path) @ ls) =
      c' # dropWhile (\<lambda>e. e_id e \<noteq> first_kept c') (rk_path (relink pre)) @ more @ ls"
    using context_compacted [of "rk_path (relink pre)" c' "more @ ls"] new c' tail by (simp add: split)
  have ctx: "context_of_path path = c # dropWhile (\<lambda>e. e_id e \<noteq> first_kept c) pre @ post"
    using context_compacted [OF _ p(2,3)] path by (simp add: p(1))
  from path p(1) have "distinct (ids (pre @ [c]))" by simp
  note range = kept_range [OF this c, of "first_kept c"]
  have "messages_of time (dropWhile (\<lambda>e. e_id e \<noteq> first_kept c') (rk_path (relink pre))) =
      messages_of time (dropWhile (\<lambda>e. e_id e \<noteq> first_kept c) pre)"
    using same_content_messages [OF list_all2_dropWhile_id [OF same], of time "first_kept c'"] range
    by (simp add: c'_def first_kept_relink [OF p(2)] messages_of_real)
  moreover have "messages_of time more = messages_of time post"
    using same_content_messages [OF sm] by (simp add: messages_of_real)
  moreover have "sessionEntryToContextMessages time c' = sessionEntryToContextMessages time c"
    using c by (simp add: c'_def relink_messages_entry)
  ultimately show ?thesis by (simp add: ctx ctx' messages_of_labels [OF ls])
qed

lemma relink_settings:
  assumes "\<forall>e\<in>set ls. is_label (e_body e)"
  shows "getSessionContextSettings (rk_path (relink path) @ ls) = getSessionContextSettings path"
  by (simp add: getSessionContextSettings_def settings_labels [OF assms]
      same_content_settings [OF relink_same] settings_real)

section \<open>The index of the new session\<close>

lemma buildIndex_frame [simp]:
  "sm_fileEntries (buildIndex s) = sm_fileEntries s" "sm_persist (buildIndex s) = sm_persist s"
  "sm_sessionFile (buildIndex s) = sm_sessionFile s" "sm_flushed (buildIndex s) = sm_flushed s"
  "sm_sessionId (buildIndex s) = sm_sessionId s" "files (buildIndex s) = files s"
  "draws (buildIndex s) = draws s"
proof -
  have "sm_fileEntries (foldl index_entry u fs) = sm_fileEntries u \<and>
      sm_persist (foldl index_entry u fs) = sm_persist u \<and>
      sm_sessionFile (foldl index_entry u fs) = sm_sessionFile u \<and>
      sm_flushed (foldl index_entry u fs) = sm_flushed u \<and>
      sm_sessionId (foldl index_entry u fs) = sm_sessionId u \<and>
      files (foldl index_entry u fs) = files u \<and> draws (foldl index_entry u fs) = draws u" for u fs
    by (induction fs arbitrary: u) simp_all
  then show "sm_fileEntries (buildIndex s) = sm_fileEntries s" "sm_persist (buildIndex s) = sm_persist s"
  "sm_sessionFile (buildIndex s) = sm_sessionFile s" "sm_flushed (buildIndex s) = sm_flushed s"
  "sm_sessionId (buildIndex s) = sm_sessionId s" "files (buildIndex s) = files s"
  "draws (buildIndex s) = draws s"
    by (simp_all add: buildIndex_def)
qed

lemma index_entry_byId:
  "sm_byId (index_entry s (Entry e)) = AList.update (e_id e) e (sm_byId s)"
  "sm_leafId (index_entry s (Entry e)) = e_id e"
  by (simp_all add: Let_def split: body.split)

lemma buildIndex_byId:
  "sm_byId (buildIndex s) = buildEntryIndex (getEntries s) None"
  "sm_leafId (buildIndex s) = (if getEntries s = [] then None else e_id (last (getEntries s)))"
proof -
  have "sm_byId (foldl index_entry u fs) = foldl (\<lambda>m e. AList.update (e_id e) e m) (sm_byId u) (entries_of fs)
      \<and> sm_leafId (foldl index_entry u fs) =
        (if entries_of fs = [] then sm_leafId u else e_id (last (entries_of fs)))" for u fs
  proof (induction fs arbitrary: u)
    case (Cons f fs)
    then show ?case by (cases f) (simp_all add: index_entry_byId del: index_entry.simps(2))
  qed simp
  then show "sm_byId (buildIndex s) = buildEntryIndex (getEntries s) None"
    "sm_leafId (buildIndex s) = (if getEntries s = [] then None else e_id (last (getEntries s)))"
    by (simp_all add: buildIndex_def buildEntryIndex_def getEntries_def)
qed

lemma buildIndex_indexes: "indexes (sm_byId (buildIndex s)) (getEntries s)"
  by (simp add: buildIndex_byId buildEntryIndex_indexes)

lemma buildIndex_cong:
  assumes "sm_fileEntries s = sm_fileEntries t"
  shows "index_fields (buildIndex s) = index_fields (buildIndex t)"
proof -
  have step: "index_fields (foldl index_entry u fs) = index_fields (foldl index_entry v fs)"
    if "index_fields u = index_fields v" for u v fs
    using that
  proof (induction fs arbitrary: u v)
    case (Cons g fs)
    from Cons.IH [OF index_entry_fields [OF Cons.prems]] show ?case by simp
  qed simp
  show ?thesis unfolding buildIndex_def assms by (rule step) (simp add: index_fields_def)
qed

lemma getEntries_buildIndex [simp]: "getEntries (buildIndex s) = getEntries s"
  by (simp add: getEntries_def)

text \<open>A rebuilt manager satisfies the invariant when its entries and file do.\<close>

lemma buildIndex_ok:
  assumes "sm_fileEntries s = Header h # map Entry es" "wf_entries [] es"
    "\<And>n. draws s \<le> n \<Longrightarrow> Some (env_uuid env n) \<notin> set (ids es)"
    "file_ok env ((buildIndex s)\<lparr>files := F, sm_flushed := B\<rparr>)"
  shows "session_ok env ((buildIndex s)\<lparr>files := F, sm_flushed := B\<rparr>)"
proof -
  let ?t = "(buildIndex s)\<lparr>files := F, sm_flushed := B\<rparr>"
  have es: "getEntries s = es" "getEntries ?t = es" by (simp_all add: getEntries_def assms(1))
  have "index_fields (buildIndex ?t) = index_fields (buildIndex s)"
    by (rule buildIndex_cong) simp
  then have "index_fields (buildIndex ?t) = index_fields ?t" by (simp add: index_fields_def)
  moreover have "sm_leafId (buildIndex s) = None \<or> sm_leafId (buildIndex s) \<in> set (ids es)"
    by (simp add: buildIndex_byId es)
  ultimately show ?thesis
    using assms buildIndex_indexes [of s] es by (auto simp: session_ok_def)
qed

section \<open>The recreated labels\<close>

lemma write_labels_props:
  assumes src: "uuid_source env"
  shows "write_labels (env_uuid env) ws used parent d = (es, d') \<Longrightarrow>
     (\<And>n. d \<le> n \<Longrightarrow> Some (env_uuid env n) \<notin> set used) \<Longrightarrow> parent = None \<or> parent \<in> set used \<Longrightarrow>
     wf_entries used es \<and> d \<le> d' \<and>
     (\<forall>n\<ge>d'. Some (env_uuid env n) \<notin> set (used @ ids es)) \<and>
     map (\<lambda>e. (e_timestamp e, e_body e)) es = map (\<lambda>(t, l, ts). (ts, LabelB t (Some l))) ws"
proof (induction ws arbitrary: used parent d es)
  case (Cons w ws)
  obtain t l ts where w: "w = (t, l, ts)" by (cases w)
  obtain i d1 where gen: "generateId (env_uuid env) (\<lambda>x. x \<in> set used) d = (i, d1)" by force
  obtain fs where rest: "write_labels (env_uuid env) ws (used @ [Some i]) (Some i) d1 = (fs, d')"
    and es: "es = \<lparr>e_id = Some i, e_parentId = parent, e_timestamp = ts, e_body = LabelB t (Some l)\<rparr> # fs"
    using Cons.prems(1) gen by (auto simp: w split: prod.splits)
  have fresh: "i \<noteq> []" "Some i \<notin> set used" "d < d1" "\<And>n. d1 \<le> n \<Longrightarrow> env_uuid env n \<noteq> i"
    using generateId_fresh [of env d "\<lambda>x. x \<in> set used" i d1] src gen Cons.prems(2) by blast+
  have later: "Some (env_uuid env n) \<notin> set (used @ [Some i])" if "d1 \<le> n" for n
    using fresh(3) fresh(4) [OF that] Cons.prems(2) [of n] that by auto
  have IH: "wf_entries (used @ [Some i]) fs \<and> d1 \<le> d' \<and>
     (\<forall>n\<ge>d'. Some (env_uuid env n) \<notin> set ((used @ [Some i]) @ ids fs)) \<and>
     map (\<lambda>e. (e_timestamp e, e_body e)) fs = map (\<lambda>(t, l, ts). (ts, LabelB t (Some l))) ws"
    by (rule Cons.IH [OF rest later]) simp_all
  moreover have "wf_entries (Some i # used) fs = wf_entries (used @ [Some i]) fs"
    by (rule wf_entries_cong) auto
  ultimately show ?case using Cons.prems(3) fresh(1,2,3) by (auto simp: es w)
qed simp

lemma write_labels_labels:
  "write_labels uuid ws used parent d = (es, d') \<Longrightarrow> e \<in> set es \<Longrightarrow> is_label (e_body e)"
proof (induction ws arbitrary: used parent d es)
  case (Cons w ws)
  then show ?case
    by (cases w) (auto simp: is_label_def split: prod.splits; blast)
qed simp

lemma write_labels_linked:
  "write_labels uuid ws used parent d = (es, d') \<Longrightarrow> linked parent es"
proof (induction ws arbitrary: used parent d es)
  case (Cons w ws)
  then show ?case by (cases w) (auto split: prod.splits)
qed simp

section \<open>The whole operation\<close>

lemma session_context_ok:
  assumes ok: "session_ok env s"
  shows "manager_context env s =
     (let path = lineage (rev (getEntries s)) (sm_leafId s) in
      Some \<lparr>sc_messages = messages_of (env_time env) (context_of_path path),
            sc_thinkingLevel = fst (getSessionContextSettings path),
            sc_model = snd (getSessionContextSettings path)\<rparr>)"
proof -
  note okD = session_okD [OF ok]
  have "buildSessionPath (getEntries s) (Some (sm_leafId s)) (Some (sm_byId s)) =
      Some (lineage (rev (getEntries s)) (sm_leafId s))"
  proof (cases "sm_leafId s = None")
    case True
    then have "lineage (rev (getEntries s)) (sm_leafId s) = []"
      using wf_entries_None [OF okD(1)] by (intro lineage_absent) auto
    with True show ?thesis by (simp add: buildSessionPath_def)
  next
    case False
    then obtain e where e: "e \<in> set (getEntries s)" "e_id e = sm_leafId s" using okD(3) by auto
    with wf_entries_truthy [OF okD(1) e(1)] have t: "truthy (sm_leafId s)" by simp
    have "map_of (sm_byId s) (sm_leafId s) \<noteq> None"
      using okD(2) e by (auto simp: indexes_def entry_named_None image_def) metis
    with t False path_from_lineage [OF okD(1,2), of "sm_leafId s"] show ?thesis
      by (auto simp: buildSessionPath_def buildEntryIndex_def)
  qed
  then show ?thesis
    by (simp add: manager_context_def buildSessionContext_def buildContextEntries_def Let_def split_beta)
qed

lemma createBranched_path:
  assumes "session_ok env s" "has_id s (Some l)"
  shows "getBranch (Some l) s = Some (lineage (rev (getEntries s)) (Some l))"
    "lineage (rev (getEntries s)) (Some l) \<noteq> []" "distinct (ids (lineage (rev (getEntries s)) (Some l)))"
proof -
  note okD = session_okD [OF assms(1)]
  show "getBranch (Some l) s = Some (lineage (rev (getEntries s)) (Some l))"
    using getBranch_lineage [OF assms(1), of "Some l"] by simp
  from assms(2) have "Some l \<in> set (ids (rev (getEntries s)))" by (simp add: has_id_iff [OF okD(2)])
  from lineage_present [OF this] show "lineage (rev (getEntries s)) (Some l) \<noteq> []" by blast
  have "distinct (ids (rev (getEntries s)))"
    using wf_entries_distinct [OF okD(1)] by (simp flip: rev_map)
  then show "distinct (ids (lineage (rev (getEntries s)) (Some l)))" by (rule lineage_distinct)
qed

lemma buildIndex_self: "(buildIndex s)\<lparr>files := files s, sm_flushed := sm_flushed s\<rparr> = buildIndex s"
proof -
  have "(buildIndex s)\<lparr>files := files (buildIndex s), sm_flushed := sm_flushed (buildIndex s)\<rparr> = buildIndex s"
    by simp
  then show ?thesis by (simp only: buildIndex_frame)
qed

text \<open>The state the operation leaves: a rebuilt index over the relinked path and its labels.\<close>

lemma createBranched_run:
  assumes ok: "session_ok env s" and known: "has_id s (Some l)"
    and path: "sm_persist s \<Longrightarrow>
      session_path env (sm_sessionDir s) (env_now env (ticks s)) (env_uuidv7 env (sessions_drawn s)) \<noteq> []
      \<and> files s (session_path env (sm_sessionDir s) (env_now env (ticks s)) (env_uuidv7 env (sessions_drawn s))) = None"
  defines "kept \<equiv> rk_path (relink (lineage (rev (getEntries s)) (Some l)))"
  shows "\<exists>h labels d f u F B.
     write_labels (env_uuid env) (labels_to_write s (ids kept)) (ids kept) (last_id kept) (draws s) = (labels, d) \<and>
     createBranchedSession env l s = Some (Inr f, (buildIndex u)\<lparr>files := F, sm_flushed := B\<rparr>) \<and>
     sm_fileEntries u = Header h # map Entry (kept @ labels) \<and> draws u = d \<and>
     file_ok env ((buildIndex u)\<lparr>files := F, sm_flushed := B\<rparr>)"
proof -
  note P = createBranched_path [OF ok known]
  obtain labels d where w: "write_labels (env_uuid env) (labels_to_write s (ids kept)) (ids kept)
      (last_id kept) (draws s) = (labels, d)" by force
  let ?file = "session_path env (sm_sessionDir s) (env_now env (ticks s)) (env_uuidv7 env (sessions_drawn s))"
  define header where "header = \<lparr>sh_version = Some CURRENT_SESSION_VERSION,
    sh_id = env_uuidv7 env (sessions_drawn s), sh_timestamp = env_now env (ticks s), sh_cwd = sm_cwd s,
    sh_parentSession = (if sm_persist s then sm_sessionFile s else None)\<rparr>"
  define u where "u = s\<lparr>sessions_drawn := Suc (sessions_drawn s), ticks := Suc (ticks s), draws := d,
    sm_fileEntries := Header header # map Entry (kept @ labels),
    sm_sessionId := env_uuidv7 env (sessions_drawn s)\<rparr>"
  show ?thesis
  proof (cases "sm_persist s")
    case False
    then have "createBranchedSession env l s = Some (Inr None, buildIndex u)"
      using P(2) by (simp add: createBranchedSession_def P(1) kept_def [symmetric] w header_def u_def Let_def)
    moreover have "file_ok env (buildIndex u)" using False by (simp add: file_ok_def u_def)
    moreover have "sm_fileEntries u = Header header # map Entry (kept @ labels)" "draws u = d"
      by (simp_all add: u_def)
    ultimately show ?thesis using w buildIndex_self [of u] by metis
  next
    case True
    define v where "v = u\<lparr>sm_sessionFile := Some ?file\<rparr>"
    define B where "B = has_assistant (sm_fileEntries v)"
    define F where "F = (if B then (files s)(?file \<mapsto> file_text env (sm_fileEntries v)) else files s)"
    have files: "(if B then (rewriteFile env (buildIndex v))\<lparr>sm_flushed := True\<rparr>
        else (buildIndex v)\<lparr>sm_flushed := False\<rparr>) = (buildIndex v)\<lparr>files := F, sm_flushed := B\<rparr>"
    proof (cases B)
      case True
      then show ?thesis using \<open>sm_persist s\<close> path by (simp add: rewriteFile_def F_def v_def u_def)
    next
      case False
      then have "F = files (buildIndex v)" by (simp add: F_def v_def u_def)
      with False show ?thesis by simp
    qed
    have run: "createBranchedSession env l s = Some (Inr (Some ?file),
        if B then (rewriteFile env (buildIndex v))\<lparr>sm_flushed := True\<rparr> else (buildIndex v)\<lparr>sm_flushed := False\<rparr>)"
      using P(2) True
      by (simp add: createBranchedSession_def P(1) kept_def [symmetric] w header_def u_def v_def B_def Let_def)
    have stored: "file_ok env ((buildIndex v)\<lparr>files := F, sm_flushed := B\<rparr>)"
      using True path by (auto simp: file_ok_def F_def B_def v_def u_def)
    have "sm_fileEntries v = Header header # map Entry (kept @ labels)" "draws v = d"
      by (simp_all add: v_def u_def)
    with w run [unfolded files] stored show ?thesis by blast
  qed
qed

lemma createBranched_ok:
  assumes src: "uuid_source env" and ok: "session_ok env s" and known: "has_id s (Some l)"
    and path: "sm_persist s \<Longrightarrow>
      session_path env (sm_sessionDir s) (env_now env (ticks s)) (env_uuidv7 env (sessions_drawn s)) \<noteq> []
      \<and> files s (session_path env (sm_sessionDir s) (env_now env (ticks s)) (env_uuidv7 env (sessions_drawn s))) = None"
  shows "\<exists>f t. createBranchedSession env l s = Some (Inr f, t) \<and> session_ok env t \<and>
     manager_context env t = manager_context env (s\<lparr>sm_leafId := Some l\<rparr>)"
proof -
  note okD = session_okD [OF ok]
  define P where "P = lineage (rev (getEntries s)) (Some l)"
  define kept where "kept = rk_path (relink P)"
  from createBranched_run [OF ok known path] obtain h labels d f u F B where
    w: "write_labels (env_uuid env) (labels_to_write s (ids kept)) (ids kept) (last_id kept) (draws s) = (labels, d)"
    and run: "createBranchedSession env l s = Some (Inr f, (buildIndex u)\<lparr>files := F, sm_flushed := B\<rparr>)"
    and u: "sm_fileEntries u = Header h # map Entry (kept @ labels)" "draws u = d"
    and stored: "file_ok env ((buildIndex u)\<lparr>files := F, sm_flushed := B\<rparr>)"
    unfolding kept_def P_def by blast
  let ?t = "(buildIndex u)\<lparr>files := F, sm_flushed := B\<rparr>"
  have dP: "distinct (ids P)" unfolding P_def by (rule createBranched_path(3) [OF ok known])
  have sub: "set (ids kept) \<subseteq> set (ids (getEntries s))"
    using lineage_subset [of "rev (getEntries s)" "Some l"] by (auto simp: kept_def relink_ids P_def)
  have linked: "linked None kept" unfolding kept_def by (rule relink_linked)
  have dk: "distinct (ids kept)" using dP by (simp add: kept_def relink_ids distinct_map_filter)
  have truth: "\<forall>i\<in>set (ids kept). truthy i" using sub wf_entries_truthy [OF okD(1)] by fastforce
  have wfk: "wf_entries [] kept" by (rule linked_wf [OF linked dk truth]) simp_all
  have fresh: "Some (env_uuid env n) \<notin> set (ids kept)" if "draws s \<le> n" for n
    using okD(4) [OF that] sub by blast
  have "last_id kept = None \<or> last_id kept \<in> set (ids kept)" by (simp add: last_id_def)
  from write_labels_props [OF src w fresh this] have
    wl: "wf_entries (ids kept) labels" "\<And>n. d \<le> n \<Longrightarrow> Some (env_uuid env n) \<notin> set (ids kept @ ids labels)"
    by blast+
  have "wf_entries (rev (ids kept) @ []) labels"
    using wl(1) wf_entries_cong [of "ids kept" "rev (ids kept) @ []" labels] by simp
  with wfk have wf: "wf_entries [] (kept @ labels)" by (simp add: wf_entries_append)
  have t_ok: "session_ok env ?t"
    by (rule buildIndex_ok [OF u(1) wf _ stored]) (use wl(2) u(2) in simp)
  have ents: "getEntries ?t = kept @ labels" by (simp add: getEntries_def u(1))
  have ltail: "linked (last_id kept) labels" by (rule write_labels_linked [OF w])
  have tk: "truthy (e_id (last kept))" if "kept \<noteq> []" using truth that by simp
  have "linked None (kept @ labels)"
    using linked ltail tk by (auto simp: linked_append last_id_def split: if_splits)
  moreover have "distinct (ids (kept @ labels))" using wf by (rule wf_entries_distinct)
  moreover have "None \<notin> set (ids (kept @ labels))" using wf by (rule wf_entries_None)
  ultimately have leaf: "lineage (rev (kept @ labels)) (sm_leafId ?t) = kept @ labels"
    using linked_lineage [of "kept @ labels"] u(1)
    by (cases "kept @ labels = []") (auto simp: buildIndex_byId getEntries_def)
  then have leaf': "lineage (rev labels @ rev kept) (sm_leafId (buildIndex u)) = kept @ labels" by simp
  have ll: "\<forall>e\<in>set labels. is_label (e_body e)" using write_labels_labels [OF w] by blast
  have "Some l \<in> set (ids (getEntries s))" using known by (simp add: has_id_iff [OF okD(2)])
  then have okl: "session_ok env (s\<lparr>sm_leafId := Some l\<rparr>)" by (intro session_ok_leaf [OF ok]) simp
  have "manager_context env ?t = manager_context env (s\<lparr>sm_leafId := Some l\<rparr>)"
    using relink_context [OF dP _ ll, of "env_time env"] relink_settings [OF ll, of P]
      wf_entries_distinct [OF wf]
    by (simp add: session_context_ok [OF t_ok] session_context_ok [OF okl] ents leaf' Let_def
        flip: P_def kept_def)
  with run t_ok show ?thesis by blast
qed

section \<open>Opening a written file\<close>

lemma open_written:
  assumes p: "p \<noteq> []" "wo_files w p = Some (file_text env fs)"
    and h: "fs = Header h # es" "sh_version h = Some CURRENT_SESSION_VERSION"
    and paths: "env_resolvePath env p = p" "env_normalizePath env p = p"
    and codec: "line_codec env fs"
    and chunks: "concat (env_chunks env (file_text env fs)) = file_text env fs"
  shows "\<exists>u. open_manager env cwd dir (Some p) True options None w = (Inr (), (buildIndex u)\<lparr>sm_flushed := True\<rparr>)
    \<and> sm_fileEntries u = fs \<and> sm_sessionId u = sh_id h \<and> files u = wo_files w \<and> draws u = wo_draws w
    \<and> sm_sessionFile u = Some p \<and> sm_persist u \<and> sm_cwd u = env_resolvePath env cwd"
proof -
  define i where "i = initial_manager env cwd dir True w"
  define i1 where "i1 = i\<lparr>sm_sessionFile := Some p\<rparr>"
  have i1: "files i1 p = Some (file_text env fs)" using p(2) by (simp add: i1_def i_def initial_manager_def)
  have "loadEntries (env_parse env) (env_chunks env (file_text env fs)) = (fs, False)"
    using load_file_text [of env h es "env_chunks env (file_text env fs)"] chunks codec by (simp only: h(1))
  then have load: "loadEntriesFromFile env p i1 = (fs, i1)"
    using i1 by (simp add: loadEntriesFromFile_def paths)
  define u where "u = i1\<lparr>sm_fileEntries := fs, sm_sessionId := sh_id h, draws := draws i1\<rparr>"
  have into: "loadEntriesInto env fs None i1 = (Inr (), buildIndex u)"
    by (simp add: loadEntriesInto_def h bindA_def modifyA_def migrateToCurrentVersion_def
        file_version_def u_def Let_def)
  have "setSessionFile env p None i = (Inr (), (buildIndex u)\<lparr>sm_flushed := True\<rparr>)"
    using load into p(2) h(1)
    by (simp add: setSessionFile_def withA_def paths Let_def bindA_def modifyA_def retA_def
        flip: i1_def) (simp add: i_def initial_manager_def)
  then have "open_manager env cwd dir (Some p) True options None w = (Inr (), (buildIndex u)\<lparr>sm_flushed := True\<rparr>)"
    using p(1) by (simp add: open_manager_def flip: i_def)
  then show ?thesis
    by (intro exI [of _ u] conjI) (simp_all add: u_def i1_def i_def initial_manager_def)
qed

lemma append_entries:
  "files (foldl (\<lambda>t e. appendFile p (line_of env (Entry e)) t) s es) =
     (if es = [] then files s
      else (files s)(p \<mapsto> (case files s p of None \<Rightarrow> [] | Some c \<Rightarrow> c) @ file_text env (map Entry es)))"
proof (induction es arbitrary: s)
  case (Cons e es)
  show ?case
    unfolding foldl.simps Cons.IH by (rule ext) (auto simp: appendFile_def file_text_def)
qed simp

lemma append_entries_draws:
  "draws (foldl (\<lambda>t e. appendFile p (line_of env (Entry e)) t) s es) = draws s"
  by (induction es arbitrary: s) (simp_all add: appendFile_def)

lemma fork_run:
  assumes source: "wo_files w source = Some (file_text env (Header h # map Entry es))"
    and paths: "env_resolvePath env source = source" "env_normalizePath env source = source"
    and target: "file = session_path env (env_normalizePath env dir) (env_now env (wo_ticks w)) (env_uuidv7 env (wo_sessions w))"
      "wo_files w file = None" "file \<noteq> []" "env_resolvePath env file = file" "env_normalizePath env file = file"
    and new: "nh = \<lparr>sh_version = Some CURRENT_SESSION_VERSION, sh_id = env_uuidv7 env (wo_sessions w),
       sh_timestamp = env_now env (wo_ticks w), sh_cwd = env_resolvePath env cwd, sh_parentSession = Some source\<rparr>"
    and codec: "line_codec env (Header h # Header nh # map Entry es)"
    and chunks: "\<And>c. concat (env_chunks env c) = c"
  shows "\<exists>t. forkFrom env source cwd dir None w = (Inr (), t)
    \<and> sm_fileEntries t = Header nh # map Entry es
    \<and> sm_sessionFile t = Some file \<and> sm_sessionId t = sh_id nh
    \<and> files t = (wo_files w)(file \<mapsto> file_text env (Header nh # map Entry es))
    \<and> sm_leafId t = (if es = [] then None else e_id (last es))"
proof -
  let ?d = "env_normalizePath env dir" and ?c = "env_resolvePath env cwd"
  let ?fs = "Header nh # map Entry es"
  define s0 where "s0 = initial_manager env ?c ?d True w"
  have s0: "files s0 = wo_files w" "draws s0 = wo_draws w" "sessions_drawn s0 = wo_sessions w" "ticks s0 = wo_ticks w"
    by (simp_all add: s0_def initial_manager_def)
  have codecs: "line_codec env (Header h # map Entry es)" "line_codec env ?fs"
    using codec by (auto simp: line_codec_def)
  have load: "loadEntriesFromFile env source s0 = (Header h # map Entry es, s0)"
    using load_file_text [OF codecs(1) chunks] source by (simp add: loadEntriesFromFile_def paths s0(1))
  define s2 where "s2 = s0\<lparr>files := (files s0)(file \<mapsto> line_of env (Header nh)),
      sessions_drawn := Suc (wo_sessions w), ticks := Suc (wo_ticks w)\<rparr>"
  define s3 where "s3 = foldl (\<lambda>t e. appendFile file (line_of env (Entry e)) t) s2 es"
  define w' where "w' = \<lparr>wo_files = files s3, wo_draws = draws s3, wo_sessions = sessions_drawn s3, wo_ticks = ticks s3\<rparr>"
  have f3: "files s3 = (wo_files w)(file \<mapsto> file_text env ?fs)"
    unfolding s3_def append_entries by (auto simp: s2_def s0 file_text_def)
  have run: "forkFrom env source cwd dir None w = open_manager env ?c ?d (Some file) True None None w'"
    using target(2)
    by (simp add: forkFrom_def paths Let_def load bindA_def liftE_def s0 flip: s0_def target(1) new)
       (simp add: w'_def s3_def s2_def s0 target(1) new)
  have "wo_files w' file = Some (file_text env ?fs)" by (simp add: w'_def f3)
  from open_written [OF target(3) this refl _ target(4,5) codecs(2) chunks, of ?c ?d None] new obtain u where
    u: "open_manager env ?c ?d (Some file) True None None w' = (Inr (), (buildIndex u)\<lparr>sm_flushed := True\<rparr>)"
      "sm_fileEntries u = ?fs" "sm_sessionId u = sh_id nh" "files u = wo_files w'" "sm_sessionFile u = Some file"
    by auto
  have "files u = (wo_files w)(file \<mapsto> file_text env ?fs)" using u(4) f3 by (simp add: w'_def)
  then show ?thesis
    unfolding run u(1)
    by (intro exI [of _ "(buildIndex u)\<lparr>sm_flushed := True\<rparr>"])
       (simp add: u(2,3,5) buildIndex_byId getEntries_def)
qed

end
