(* ===== verification/SessionProps.thy ===== *)
theory SessionProps imports SessionForkLaws begin

text \<open>
  The properties of the session store, each with a concrete session at which its hypotheses hold.
\<close>

section \<open>A concrete session\<close>

definition demo_header :: session_header where
  "demo_header = \<lparr>sh_version = Some 3, sh_id = ''s1'', sh_timestamp = ''0'', sh_cwd = ''w'',
     sh_parentSession = None\<rparr>"

definition demo_assistant :: assistant_message where
  "demo_assistant = \<lparr>am_content = [], am_api = ''a'', am_provider = ''p'', am_model = ''m'',
     am_responseModel = None, am_responseId = None, am_providerThinkingLevel = None,
     am_diagnostics = None,
     am_usage = \<lparr>us_input = 0, us_output = 0, us_cacheRead = 0, us_cacheWrite = 0,
       us_cacheWrite1h = None, us_reasoning = None, us_totalTokens = 0,
       us_cost = \<lparr>cost_input = 0, cost_output = 0, cost_cacheRead = 0, cost_cacheWrite = 0, cost_total = 0\<rparr>\<rparr>,
     am_stopReason = Stop, am_deferred = None, am_errorMessage = None, am_rawStopReason = None,
     am_endTurn = None, am_timestamp = 0\<rparr>"

definition demo_message :: entry where
  "demo_message = \<lparr>e_id = Some ''m1'', e_parentId = None, e_timestamp = ''1'',
     e_body = MessageB (Whole (Core (Assistant demo_assistant)))\<rparr>"

definition demo_compaction :: entry where
  "demo_compaction = \<lparr>e_id = Some ''c1'', e_parentId = Some ''m1'', e_timestamp = ''2'',
     e_body = Compaction \<lparr>co_summary = ''s'', co_firstKeptEntryId = Some ''m1'',
       co_firstKeptEntryIndex = None, co_tokensBefore = 1, co_details = None, co_usage = None,
       co_fromHook = None\<rparr>\<rparr>"

definition old_header :: session_header where
  "old_header = \<lparr>sh_version = None, sh_id = ''s0'', sh_timestamp = ''0'', sh_cwd = ''w'',
     sh_parentSession = None\<rparr>"

definition old_message :: entry where
  "old_message = demo_message\<lparr>e_id := None\<rparr>"

definition demo_fork_header :: session_header where
  "demo_fork_header = \<lparr>sh_version = Some 3, sh_id = ''0'', sh_timestamp = ''9'', sh_cwd = ''x'',
     sh_parentSession = Some ''f''\<rparr>"

definition demo_session_env :: session_env where
  "demo_session_env = \<lparr>env_uuid = (\<lambda>n. replicate (n + 9) (CHR ''a'')), env_uuidv7 = (\<lambda>_. ''0''),
     env_now = (\<lambda>_. ''9''), env_time = length,
     env_stringify = (\<lambda>f. case f of
         Header h \<Rightarrow> if sh_id h = ''s1'' then ''H'' else if sh_id h = ''s0'' then ''O'' else ''N''
       | Entry e \<Rightarrow> if e_id e = Some ''m1'' then ''M'' else if e_id e = None then ''L'' else ''C''),
     env_parse = (\<lambda>s. if s = ''H'' then Some (Header demo_header)
        else if s = ''O'' then Some (Header old_header)
        else if s = ''N'' then Some (Header demo_fork_header)
        else if s = ''L'' then Some (Entry old_message)
        else if s = ''M'' then Some (Entry demo_message)
        else if s = ''C'' then Some (Entry demo_compaction) else None),
     env_chunks = (\<lambda>s. [s]), env_resolvePath = (\<lambda>s. s), env_normalizePath = (\<lambda>s. s),
     env_join = (\<lambda>a b. a @ ''/'' @ b)\<rparr>"

definition demo_session :: manager where
  "demo_session = \<lparr>sm_sessionId = ''s1'', sm_sessionFile = Some ''f'', sm_sessionDir = ''d'',
     sm_cwd = ''w'', sm_persist = True, sm_flushed = True,
     sm_fileEntries = [Header demo_header, Entry demo_message, Entry demo_compaction],
     sm_byId = [(Some ''m1'', demo_message), (Some ''c1'', demo_compaction)],
     sm_labelsById = [], sm_labelTimestampsById = [], sm_leafId = Some ''c1'',
     files = [''f'' \<mapsto> [CHR ''H'', newline, CHR ''M'', newline, CHR ''C'', newline]],
     draws = 0, sessions_drawn = 0, ticks = 3\<rparr>"

lemma demo_source: "uuid_source demo_session_env"
  by (auto simp: uuid_source_def demo_session_env_def intro!: injI dest: arg_cong [where f = length])

lemma demo_entries: "getEntries demo_session = [demo_message, demo_compaction]"
  by (simp add: getEntries_def demo_session_def)

lemma demo_ids: "e_id demo_message = Some ''m1''" "e_id demo_compaction = Some ''c1''"
  "e_parentId demo_message = None" "e_parentId demo_compaction = Some ''m1''"
  by (simp_all add: demo_message_def demo_compaction_def)

lemma demo_ok: "session_ok demo_session_env demo_session"
proof -
  have wf: "wf_entries [] (getEntries demo_session)" by (simp add: demo_entries demo_ids)
  have idx: "indexes (sm_byId demo_session) (getEntries demo_session)"
    unfolding indexes_def demo_entries by (rule ext) (auto simp: demo_session_def demo_ids)
  have fresh: "Some (env_uuid demo_session_env n) \<notin> set (ids (getEntries demo_session))" for n
    by (auto simp: demo_entries demo_ids demo_session_env_def dest: arg_cong [where f = length])
  have "index_fields (buildIndex demo_session) = index_fields demo_session"
    by (simp add: buildIndex_def index_fields_def demo_session_def demo_message_def demo_compaction_def)
  moreover have "file_ok demo_session_env demo_session"
    by (simp add: file_ok_def demo_session_def file_text_def line_of_def demo_session_env_def demo_ids demo_header_def)
  moreover have "\<exists>h es. sm_fileEntries demo_session = Header h # map Entry es"
    by (rule exI [of _ demo_header], rule exI [of _ "[demo_message, demo_compaction]"])
       (simp add: demo_session_def)
  moreover have "sm_leafId demo_session \<in> set (ids (getEntries demo_session))"
    by (simp add: demo_entries demo_ids) (simp add: demo_session_def)
  ultimately show ?thesis using wf idx fresh by (simp add: session_ok_def)
qed

lemma demo_has: "has_id demo_session (Some ''m1'')" "has_id demo_session (Some ''c1'')"
  "\<not> has_id demo_session (Some ''zz'')"
  by (simp_all add: has_id_def demo_session_def)

section \<open>The tree only grows\<close>

text \<open>
  C4. However appends, labels, branches and failing calls follow one another, the manager's
  invariant holds (unique identifiers, parents before children, an index and labels equal to
  a rebuild, a file that holds every entry once it exists), entries written before stay as
  they are, and the branch of every old entry is unchanged.
\<close>

theorem session_append_only:
  assumes src: "uuid_source env" and ok: "session_ok env s" and old: "has_id s l"
  shows "session_ok env (run_ops env ops s)
    \<and> take (length (sm_fileEntries s)) (sm_fileEntries (run_ops env ops s)) = sm_fileEntries s
    \<and> getBranch l (run_ops env ops s) = getBranch l s
    \<and> getBranch l s = Some (lineage (rev (getEntries s)) l)"
proof -
  from run_ops_ok [OF src ok] obtain new where
    r: "session_ok env (run_ops env ops s)"
      "sm_fileEntries (run_ops env ops s) = sm_fileEntries s @ map Entry new" by blast
  have l: "l \<in> set (ids (getEntries s))" using old by (simp add: has_id_iff [OF session_okD(2) [OF ok]])
  have "l \<noteq> None" using l wf_entries_None [OF session_okD(1) [OF ok]] by metis
  moreover have ge: "getEntries (run_ops env ops s) = getEntries s @ new" using r(2) by (simp add: getEntries_def)
  moreover have "lineage (rev (getEntries s @ new)) l = lineage (rev (getEntries s)) l"
    using lineage_extend [OF _ l] session_okD(1) [OF r(1)] by (simp add: ge)
  ultimately show ?thesis
    using r getBranch_lineage [OF ok, of l] getBranch_lineage [OF r(1), of l] by auto
qed

theorem session_append_only_witness:
  "session_ok demo_session_env
     (run_ops demo_session_env [AppendThinkingLevel ''high'', BranchTo ''m1'', BranchTo ''zz'', AppendInfo ''x''] demo_session)
   \<and> getBranch (Some ''c1'')
     (run_ops demo_session_env [AppendThinkingLevel ''high'', BranchTo ''m1'', BranchTo ''zz'', AppendInfo ''x''] demo_session)
     = Some [demo_message, demo_compaction]"
  using session_append_only [OF demo_source demo_ok demo_has(2),
      of "[AppendThinkingLevel ''high'', BranchTo ''m1'', BranchTo ''zz'', AppendInfo ''x'']"]
  by (simp add: demo_entries demo_ids)

text \<open>
  An append adds exactly one entry with an identifier the session did not have, as a child
  of the leaf (for a branch summary: of the entry branched from), and the new branch is the old
  one with that entry at its end.
\<close>

theorem append_extends_branch:
  assumes src: "uuid_source env" and ok: "session_ok env s" and "op_appends op" "op_known op s"
  shows "\<exists>e t. run_op env op s = (Inr (e_id e), t) \<and> \<not> has_id s (e_id e)
    \<and> e_parentId e = op_leaf op s
    \<and> sm_fileEntries t = sm_fileEntries s @ [Entry e] \<and> sm_leafId t = e_id e
    \<and> getBranch None t = Some (lineage (rev (getEntries s)) (op_leaf op s) @ [e])"
proof -
  from run_op_appends [OF assms] obtain b e t where
    r: "run_op env op s = (Inr (e_id e), t)" "appended env (s\<lparr>sm_leafId := op_leaf op s\<rparr>) b e t"
      "session_ok env t" by blast
  from r(2) have t: "sm_fileEntries t = sm_fileEntries s @ [Entry e]" "sm_leafId t = e_id e"
    "e_parentId e = op_leaf op s" by (simp_all add: appended_def)
  have ge: "getEntries t = getEntries s @ [e]" by (rule getEntries_append [OF t(1)])
  from session_okD(1) [OF r(3)] have new: "e_id e \<notin> set (ids (getEntries s))"
    by (simp add: ge wf_entries_snoc)
  then have "\<not> has_id s (e_id e)" by (simp add: has_id_iff [OF session_okD(2) [OF ok]])
  moreover have "getBranch None t = Some (lineage (rev (getEntries s)) (op_leaf op s) @ [e])"
    using getBranch_lineage [OF r(3), of None] by (simp add: ge t)
  ultimately show ?thesis using r(1) t by blast
qed

theorem append_extends_branch_witness:
  "\<exists>e t. run_op demo_session_env (BranchSummarized (Some ''m1'') ''sum'' None None None) demo_session
      = (Inr (e_id e), t) \<and> e_parentId e = Some ''m1''
    \<and> getBranch None t = Some [demo_message, e]"
  using append_extends_branch [OF demo_source demo_ok,
      of "BranchSummarized (Some ''m1'') ''sum'' None None None"]
  by (simp add: op_appends_def op_known_def op_target_def op_leaf_def demo_has demo_entries demo_ids) blast

text \<open>
  Labelling or branching from an identifier the session does not have throws, and leaves
  the session, its file and its leaf untouched.
\<close>

theorem unknown_entry_throws:
  assumes "op_target op = Some i" "\<not> has_id s (Some i)"
  shows "run_op env op s = (Inl (not_found i), s)"
  using assms by (rule run_op_throws)

theorem unknown_entry_throws_witness:
  "run_op demo_session_env (AppendLabel ''zz'' (Some ''x'')) demo_session
     = (Inl ''Entry zz not found'', demo_session)"
  using unknown_entry_throws [of "AppendLabel ''zz'' (Some ''x'')" "''zz''" demo_session demo_session_env]
  by (simp add: op_target_def demo_has not_found_def)

section \<open>Files\<close>

text \<open>
  Reading a session file gives the parsed non-blank lines of its text, in order, however
  the text arrives in chunks; a text whose first entry is no header gives nothing, and only a
  last line without its end asks for a repair.
\<close>

theorem load_reads_lines:
  "loadEntries parse cs =
    (let (ls, r) = split_lines (concat cs);
         entries = parsed_lines parse (ls @ [r])
     in case entries of
          [] \<Rightarrow> ([], False) | Header h # _ \<Rightarrow> (entries, r \<noteq> []) | Entry e # _ \<Rightarrow> ([], False))"
  by (rule loadEntries_text)

text \<open>
  C17. A written session survives a restart: opening its file gives back every entry, the same
  index and labels, and an invariant state at the last entry, whatever chunks the file is read
  in and whatever session the manager held.
\<close>

theorem saved_session_reloads:
  assumes ok: "session_ok env s" and written: "sm_persist s" "sm_flushed s" "sm_sessionFile s = Some p"
    and h: "sm_fileEntries s = Header h # es" "sh_version h = Some CURRENT_SESSION_VERSION"
    and paths: "env_resolvePath env p = p" "env_normalizePath env p = p"
    and codec: "line_codec env (sm_fileEntries s)"
    and chunks: "concat (env_chunks env (file_text env (sm_fileEntries s))) = file_text env (sm_fileEntries s)"
    and world: "wo_files w p = files s p" "draws s \<le> wo_draws w"
  shows "\<exists>t. open_manager env cwd dir (Some p) True options None w = (Inr (), t)
    \<and> session_ok env t \<and> sm_fileEntries t = sm_fileEntries s \<and> index_fields t = index_fields s
    \<and> sm_sessionId t = sh_id h \<and> files t = wo_files w
    \<and> sm_leafId t = (if getEntries s = [] then None else e_id (last (getEntries s)))"
proof -
  note okD = session_okD [OF ok]
  from okD(6) written have p: "p \<noteq> []" "files s p = Some (file_text env (sm_fileEntries s))"
    by (simp_all add: file_ok_def)
  from open_written [OF p(1) _ h paths codec chunks, of w cwd dir options] p(2) world(1) obtain u where
    u: "open_manager env cwd dir (Some p) True options None w = (Inr (), (buildIndex u)\<lparr>sm_flushed := True\<rparr>)"
      "sm_fileEntries u = sm_fileEntries s" "sm_sessionId u = sh_id h" "files u = wo_files w"
      "draws u = wo_draws w" "sm_sessionFile u = Some p" "sm_persist u" by auto
  define t where "t = (buildIndex u)\<lparr>sm_flushed := True\<rparr>"
  have run: "open_manager env cwd dir (Some p) True options None w = (Inr (), t)" using u(1) by (simp only: t_def)
  have t: "t = (buildIndex u)\<lparr>files := wo_files w, sm_flushed := True\<rparr>"
  proof -
    have "files (buildIndex u) = wo_files w" by (simp add: u)
    then have "(buildIndex u)\<lparr>files := wo_files w\<rparr> = buildIndex u" by (metis manager.surjective manager.update_convs(12))
    then show ?thesis by (simp only: t_def)
  qed
  from ok obtain h' es' where shape: "sm_fileEntries s = Header h' # map Entry es'"
    by (auto simp: session_ok_def)
  then have es': "getEntries s = es'" by (simp add: getEntries_def)
  have tf: "sm_sessionFile t = Some p" "files t p = Some (file_text env (sm_fileEntries s))"
    "sm_fileEntries t = sm_fileEntries s"
    using world(1) p(2) by (simp_all add: t u)
  have "session_ok env t"
    unfolding t
  proof (rule buildIndex_ok)
    show "sm_fileEntries u = Header h' # map Entry es'" by (simp add: u(2) shape)
    show "wf_entries [] es'" using okD(1) by (simp add: es')
    show "Some (env_uuid env n) \<notin> set (ids es')" if "draws u \<le> n" for n
      using okD(4) [of n] that world(2) by (simp add: u(5) es')
    show "file_ok env ((buildIndex u)\<lparr>files := wo_files w, sm_flushed := True\<rparr>)"
      using tf p(1) by (simp add: file_ok_def flip: t) (simp add: t)
  qed
  moreover have "index_fields t = index_fields s"
    using buildIndex_cong [of u s] okD(5) by (simp add: t index_fields_def u(2))
  moreover have "sm_leafId t = (if getEntries s = [] then None else e_id (last (getEntries s)))"
    by (simp add: t buildIndex_byId) (simp add: getEntries_def u(2))
  moreover have "sm_sessionId t = sh_id h" "files t = wo_files w" by (simp_all add: t u)
  ultimately show ?thesis using run tf(3) by blast
qed

lemma demo_codec: "line_codec demo_session_env
    [Header demo_header, Header demo_fork_header, Entry demo_message, Entry demo_compaction]"
  "line_codec demo_session_env [Header old_header, Header demo_fork_header, Entry old_message]"
proof -
  have n: "newline = CHR 0x0A" by code_simp
  show "line_codec demo_session_env
    [Header demo_header, Header demo_fork_header, Entry demo_message, Entry demo_compaction]"
  "line_codec demo_session_env [Header old_header, Header demo_fork_header, Entry old_message]"
    by (simp_all add: line_codec_def demo_session_env_def demo_ids n trim_def is_space_def demo_header_def
        demo_fork_header_def old_header_def old_message_def)
qed

definition demo_world :: session_world where
  "demo_world = \<lparr>wo_files = files demo_session, wo_draws = 0, wo_sessions = 0, wo_ticks = 9\<rparr>"

theorem saved_session_reloads_witness:
  "\<exists>t. open_manager demo_session_env ''w'' ''d'' (Some ''f'') True None None demo_world = (Inr (), t)
    \<and> sm_fileEntries t = [Header demo_header, Entry demo_message, Entry demo_compaction]
    \<and> sm_leafId t = Some ''c1''"
proof -
  have codec: "line_codec demo_session_env (sm_fileEntries demo_session)"
    using demo_codec(1) by (simp add: line_codec_def demo_session_def)
  have "\<exists>t. open_manager demo_session_env ''w'' ''d'' (Some ''f'') True None None demo_world = (Inr (), t)
    \<and> session_ok demo_session_env t \<and> sm_fileEntries t = sm_fileEntries demo_session
    \<and> index_fields t = index_fields demo_session
    \<and> sm_sessionId t = sh_id demo_header \<and> files t = wo_files demo_world
    \<and> sm_leafId t = (if getEntries demo_session = [] then None else e_id (last (getEntries demo_session)))"
    by (rule saved_session_reloads [OF demo_ok, where h = demo_header, OF _ _ _ _ _ _ _ codec])
       (simp_all add: demo_session_def demo_session_env_def demo_header_def CURRENT_SESSION_VERSION_def demo_world_def)
  then show ?thesis by (auto simp: demo_entries demo_ids) (simp add: demo_session_def)
qed

section \<open>The context of the model\<close>

text \<open>
  C26. After a compaction the context starts with the latest summary, followed by the entries
  of the branch from the first kept one up to the summary, and everything after it; entries
  before the kept range are gone, and the settings still come from the whole branch.
\<close>

theorem compacted_context:
  assumes ok: "session_ok env s" and path: "getBranch (sm_leafId s) s = Some (pre @ c # post)"
    and c: "is_compaction c" "\<not> list_ex is_compaction post"
  shows "manager_context env s = Some
     \<lparr>sc_messages = sessionEntryToContextMessages (env_time env) c
        @ messages_of (env_time env) (dropWhile (\<lambda>e. e_id e \<noteq> first_kept c) pre)
        @ messages_of (env_time env) post,
      sc_thinkingLevel = fst (getSessionContextSettings (pre @ c # post)),
      sc_model = snd (getSessionContextSettings (pre @ c # post))\<rparr>"
proof -
  have lin: "lineage (rev (getEntries s)) (sm_leafId s) = pre @ c # post"
    using path getBranch_lineage [OF ok, of "sm_leafId s"] by (simp split: if_splits)
  have "distinct (ids (rev (getEntries s)))"
    using wf_entries_distinct [OF session_okD(1) [OF ok]] by (simp flip: rev_map)
  from lineage_distinct [OF this, of "sm_leafId s"] have "distinct (ids (pre @ c # post))" by (simp only: lin)
  from context_compacted [OF this c] show ?thesis
    by (simp add: session_context_ok [OF ok] lin Let_def)
qed

theorem compacted_context_witness:
  "manager_context demo_session_env demo_session = Some
     \<lparr>sc_messages = [CompactionSummary \<lparr>cm_summary = ''s'', cm_tokensBefore = 1, cm_timestamp = 1\<rparr>,
        Core (Assistant demo_assistant)],
      sc_thinkingLevel = ''off'', sc_model = Some (''p'', ''m'')\<rparr>"
proof -
  have "getBranch (sm_leafId demo_session) demo_session = Some ([demo_message] @ demo_compaction # [])"
    using getBranch_lineage [OF demo_ok, of "sm_leafId demo_session"]
    by (simp add: demo_entries demo_ids) (simp add: demo_session_def)
  moreover have "is_compaction demo_compaction" by (simp add: demo_compaction_def is_compaction_def)
  moreover have "e_id demo_message = first_kept demo_compaction"
    by (simp add: demo_ids) (simp add: first_kept_def demo_compaction_def)
  ultimately show ?thesis
    using compacted_context [OF demo_ok, of "[demo_message]" demo_compaction "[]"]
    by (simp add: sessionEntryToContextMessages_def createCompactionSummaryMessage_def
        getSessionContextSettings_def settings_step_def)
       (simp add: demo_compaction_def demo_message_def demo_assistant_def demo_session_env_def
        sessionEntryToContextMessages_def createCompactionSummaryMessage_def settings_step_def)
qed

text \<open>
  C11. Extracting a branch into a session of its own always succeeds for an entry of the
  session, leaves an invariant session, and gives the model exactly the context it would have
  had at that entry: removing the label entries from the path loses no message, setting or
  kept range.
\<close>

theorem branched_session_context:
  assumes "uuid_source env" "session_ok env s" "has_id s (Some l)"
    and "sm_persist s \<Longrightarrow>
      session_path env (sm_sessionDir s) (env_now env (ticks s)) (env_uuidv7 env (sessions_drawn s)) \<noteq> []
      \<and> files s (session_path env (sm_sessionDir s) (env_now env (ticks s)) (env_uuidv7 env (sessions_drawn s))) = None"
  shows "\<exists>f t. createBranchedSession env l s = Some (Inr f, t) \<and> session_ok env t \<and>
     manager_context env t = manager_context env (s\<lparr>sm_leafId := Some l\<rparr>)"
  using assms by (rule createBranched_ok)

theorem branched_session_context_witness:
  "\<exists>f t. createBranchedSession demo_session_env ''c1'' demo_session = Some (Inr f, t)
    \<and> session_ok demo_session_env t
    \<and> manager_context demo_session_env t
      = manager_context demo_session_env (demo_session\<lparr>sm_leafId := Some ''c1''\<rparr>)"
  by (rule branched_session_context [OF demo_source demo_ok demo_has(2)])
     (simp add: session_path_def demo_session_env_def demo_session_def file_stamp_def)

section \<open>Migration of old files\<close>

text \<open>
  C38. A first-version file whose generated short identifiers do not collide becomes a
  well-formed session: the entries are one chain in file order, and the path to its end is all
  of them.
\<close>

theorem migrated_file_linear:
  assumes "file_version es < 2" "migrateToCurrentVersion uuid es n = (out, n', changed)"
    and "distinct (map (\<lambda>k. take 8 (uuid (n + k))) [0..<length (entries_of es)])"
    and "[] \<notin> set (map (\<lambda>k. take 8 (uuid (n + k))) [0..<length (entries_of es)])"
  shows "changed \<and> wf_entries [] (entries_of out)
    \<and> buildSessionPath (entries_of out) None None = Some (entries_of out)"
proof -
  let ?v2 = "fst (migrateV1ToV2 uuid es n)"
  let ?ids = "map (\<lambda>k. take 8 (uuid (n + k))) [0..<length (entries_of es)]"
  have out: "out = migrateV2ToV3 ?v2" "changed"
    using assms(1,2) by (auto simp: migrateToCurrentVersion_def CURRENT_SESSION_VERSION_def
        Let_def split: prod.splits if_splits)
  have i: "ids (entries_of out) = map Some ?ids"
    using migrateV1ToV2_chain(2) [of uuid es n] by (simp add: out(1) migrate_v2_base o_def)
  have l: "linked None (entries_of out)"
    using migrateV1ToV2_chain(1) [of uuid es n] by (simp add: out(1) migrate_v2_base)
  have d: "distinct (ids (entries_of out))"
    unfolding i using assms(3) by (simp only: distinct_map) (simp add: inj_on_def)
  have t: "\<forall>x\<in>set (ids (entries_of out)). truthy x"
    unfolding i using assms(4) by (auto simp: image_iff)
  have wf: "wf_entries [] (entries_of out)" by (rule linked_wf [OF l d t]) simp_all
  have "buildSessionPath (entries_of out) None None = Some (entries_of out)"
  proof (cases "entries_of out = []")
    case True
    then show ?thesis by (simp add: buildSessionPath_def)
  next
    case False
    let ?m = "buildEntryIndex (entries_of out) None"
    let ?e = "last (entries_of out)"
    have "map_of ?m (e_id ?e) = Some ?e"
    proof -
      obtain fs where "entries_of out = fs @ [?e]" using False by (metis append_butlast_last_id)
      then have "entry_named (rev (entries_of out)) (e_id ?e) = Some ?e"
        by (metis entry_named_simps(2) rev.simps(2) rev_rev_ident)
      then show ?thesis using buildEntryIndex_indexes [of "entries_of out"] by (simp add: indexes_def)
    qed
    moreover have "lineage (rev (entries_of out)) (e_id ?e) = entries_of out"
      using l d wf_entries_None [OF wf] False by (rule linked_lineage)
    ultimately have "path_from ?m (Some ?e) = Some (entries_of out)"
      using path_from_lineage [OF wf buildEntryIndex_indexes, of "e_id ?e"] by simp
    with False show ?thesis by (simp add: buildSessionPath_def Let_def)
  qed
  with out(2) wf show ?thesis by blast
qed

definition old_file :: "file_entry list" where
  "old_file = [Header (demo_header\<lparr>sh_version := None\<rparr>),
     Entry (demo_message\<lparr>e_id := None\<rparr>),
     Entry (demo_compaction\<lparr>e_id := None, e_parentId := None\<rparr>)]"

theorem migrated_file_linear_witness:
  "\<exists>out n' changed. migrateToCurrentVersion show_nat old_file 1 = (out, n', changed) \<and> changed
    \<and> wf_entries [] (entries_of out)
    \<and> buildSessionPath (entries_of out) None None = Some (entries_of out)"
proof -
  obtain out n' changed where r: "migrateToCurrentVersion show_nat old_file 1 = (out, n', changed)"
    by (cases "migrateToCurrentVersion show_nat old_file 1") auto
  have "length (entries_of old_file) = 2" by (simp add: old_file_def)
  then have u: "[0..<length (entries_of old_file)] = [0, 1]" by (simp add: upt_rec)
  have "file_version old_file < 2" by (simp add: old_file_def file_version_def)
  from migrated_file_linear [OF this r] have "changed \<and> wf_entries [] (entries_of out)
    \<and> buildSessionPath (entries_of out) None None = Some (entries_of out)"
    by (simp add: u show_nat_small)
  with r show ?thesis by blast
qed

text \<open>
  C40. The identifiers drawn during that migration are not checked against each other: when two
  consecutive ones share their short prefix, the second entry becomes its own parent and the
  walk to the root does not end.
\<close>

theorem migrated_file_collision:
  assumes "take 8 (uuid n) = take 8 (uuid (Suc n))" "uuid n \<noteq> []"
  shows "buildSessionPath
    (entries_of (fst (migrateToCurrentVersion uuid
       [Header (h\<lparr>sh_version := None\<rparr>), Entry a, Entry b] n))) None None = None"
proof -
  let ?es = "[Header (h\<lparr>sh_version := None\<rparr>), Entry a, Entry b]"
  let ?out = "entries_of (fst (migrateToCurrentVersion uuid ?es n))"
  have out: "fst (migrateToCurrentVersion uuid ?es n) = migrateV2ToV3 (fst (migrateV1ToV2 uuid ?es n))"
    by (simp add: migrateToCurrentVersion_def file_version_def CURRENT_SESSION_VERSION_def Let_def split_beta)
  have i: "ids ?out = [Some (take 8 (uuid n)), Some (take 8 (uuid n))]"
    using migrateV1ToV2_chain(2) [of uuid ?es n] assms(1) by (simp add: out migrate_v2_base upt_rec)
  have l: "linked None ?out"
    using migrateV1ToV2_chain(1) [of uuid ?es n] by (simp add: out migrate_v2_base)
  from i obtain x y where xy: "?out = [x, y]" "e_id x = Some (take 8 (uuid n))" "e_id y = Some (take 8 (uuid n))"
    by (auto simp: Cons_eq_map_conv map_eq_Cons_conv)
  with l have p: "e_parentId y = Some (take 8 (uuid n))" by simp
  have "map_of (buildEntryIndex [x, y] None) (e_parentId y) = Some y"
    using xy(2,3) p buildEntryIndex_indexes [of "[x, y]"] by (simp add: indexes_def)
  moreover have "truthy (e_parentId y)" using p assms(2) by simp
  ultimately have "walk (buildEntryIndex [x, y] None) (Some y) [] = None" by (intro walk_self_loop)
  then show ?thesis unfolding xy(1) by (simp add: buildSessionPath_def path_from_def)
qed

theorem migrated_file_collision_witness:
  "buildSessionPath (entries_of (fst (migrateToCurrentVersion (\<lambda>n. replicate (n + 9) (CHR ''a''))
     [Header (demo_header\<lparr>sh_version := None\<rparr>), Entry demo_message, Entry demo_compaction] 0))) None None = None"
  by (rule migrated_file_collision) (simp_all add: take_replicate)

section \<open>Forking\<close>

text \<open>
  Forking a session file into another directory copies every entry, in order and unchanged,
  behind a new header of the current version for the target directory that names its source;
  the source file is not touched.
\<close>

theorem fork_copies_history:
  assumes "wo_files w source = Some (file_text env (Header h # map Entry es))"
    and "env_resolvePath env source = source" "env_normalizePath env source = source"
    and "target = session_path env (env_normalizePath env dir) (env_now env (wo_ticks w)) (env_uuidv7 env (wo_sessions w))"
      "wo_files w target = None" "target \<noteq> []" "env_resolvePath env target = target" "env_normalizePath env target = target"
    and "nh = \<lparr>sh_version = Some CURRENT_SESSION_VERSION, sh_id = env_uuidv7 env (wo_sessions w),
       sh_timestamp = env_now env (wo_ticks w), sh_cwd = env_resolvePath env cwd, sh_parentSession = Some source\<rparr>"
    and "line_codec env (Header h # Header nh # map Entry es)"
    and "\<And>c. concat (env_chunks env c) = c"
  shows "\<exists>t. forkFrom env source cwd dir None w = (Inr (), t)
    \<and> sm_fileEntries t = Header nh # map Entry es
    \<and> sm_sessionFile t = Some target \<and> sm_sessionId t = sh_id nh
    \<and> files t source = wo_files w source
    \<and> files t target = Some (file_text env (Header nh # map Entry es))"
proof -
  have "source \<noteq> target" using assms(1,5) by auto
  with fork_run [OF assms] show ?thesis by auto
qed

lemma demo_fork_file: "session_path demo_session_env ''d'' ''9'' ''0'' = ''d/9_0.jsonl''"
  by (simp add: session_path_def file_stamp_def demo_session_env_def)

lemma demo_env_simps:
  "env_resolvePath demo_session_env s = s" "env_normalizePath demo_session_env s = s"
  "env_now demo_session_env n = ''9''" "env_uuidv7 demo_session_env n = ''0''"
  "env_chunks demo_session_env s = [s]"
  by (simp_all add: demo_session_env_def)

theorem fork_copies_history_witness:
  "\<exists>t. forkFrom demo_session_env ''f'' ''x'' ''d'' None demo_world = (Inr (), t)
    \<and> sm_fileEntries t = [Header demo_fork_header, Entry demo_message, Entry demo_compaction]"
proof -
  have "\<exists>t. forkFrom demo_session_env ''f'' ''x'' ''d'' None demo_world = (Inr (), t)
    \<and> sm_fileEntries t = Header demo_fork_header # map Entry [demo_message, demo_compaction]
    \<and> sm_sessionFile t = Some ''d/9_0.jsonl'' \<and> sm_sessionId t = sh_id demo_fork_header
    \<and> files t ''f'' = wo_files demo_world ''f''
    \<and> files t ''d/9_0.jsonl'' = Some (file_text demo_session_env
        (Header demo_fork_header # map Entry [demo_message, demo_compaction]))"
    by (rule fork_copies_history [where h = demo_header])
       (use demo_codec(1) session_okD(6) [OF demo_ok] in
        \<open>simp_all add: demo_env_simps demo_fork_file demo_world_def demo_session_def
          demo_fork_header_def file_ok_def CURRENT_SESSION_VERSION_def\<close>)
  then show ?thesis by auto
qed

text \<open>
  The copy is not migrated, although its header says it is current: when the source is a
  file of the first version, whose entries have no identifiers, the forked session holds all
  its entries but gives the model an empty context.
\<close>

theorem fork_of_old_file_empty:
  assumes "wo_files w source = Some (file_text env (Header h # map Entry es))"
    and "env_resolvePath env source = source" "env_normalizePath env source = source"
    and "target = session_path env (env_normalizePath env dir) (env_now env (wo_ticks w)) (env_uuidv7 env (wo_sessions w))"
      "wo_files w target = None" "target \<noteq> []" "env_resolvePath env target = target" "env_normalizePath env target = target"
    and "nh = \<lparr>sh_version = Some CURRENT_SESSION_VERSION, sh_id = env_uuidv7 env (wo_sessions w),
       sh_timestamp = env_now env (wo_ticks w), sh_cwd = env_resolvePath env cwd, sh_parentSession = Some source\<rparr>"
    and "line_codec env (Header h # Header nh # map Entry es)"
    and "\<And>c. concat (env_chunks env c) = c"
    and old: "set (ids es) \<subseteq> {None}"
  shows "\<exists>t. forkFrom env source cwd dir None w = (Inr (), t) \<and> getEntries t = es
    \<and> manager_context env t = Some \<lparr>sc_messages = [], sc_thinkingLevel = ''off'', sc_model = None\<rparr>"
proof -
  from fork_run [OF assms(1-11)] obtain t where
    t: "forkFrom env source cwd dir None w = (Inr (), t)" "sm_fileEntries t = Header nh # map Entry es"
      "sm_leafId t = (if es = [] then None else e_id (last es))" by blast
  have "e_id (last es) = None" if "es \<noteq> []" using old last_in_set [OF that] by auto
  with t(3) have "sm_leafId t = None" by simp
  then have "manager_context env t = Some \<lparr>sc_messages = [], sc_thinkingLevel = ''off'', sc_model = None\<rparr>"
    by (simp add: manager_context_def buildSessionContext_def buildContextEntries_def
        buildSessionPath_def getSessionContextSettings_def context_of_path_def last_compaction_def)
  moreover have "getEntries t = es" by (simp add: getEntries_def t(2))
  ultimately show ?thesis using t(1) by blast
qed

definition old_world :: session_world where
  "old_world = \<lparr>wo_files = [''f'' \<mapsto> [CHR ''O'', newline, CHR ''L'', newline]], wo_draws = 0,
     wo_sessions = 0, wo_ticks = 9\<rparr>"

lemma old_file_text:
  "file_text demo_session_env [Header old_header, Entry old_message] = [CHR ''O'', newline, CHR ''L'', newline]"
  by (simp add: file_text_def line_of_def demo_session_env_def old_header_def old_message_def)

theorem fork_of_old_file_empty_witness:
  "\<exists>t. forkFrom demo_session_env ''f'' ''x'' ''d'' None old_world = (Inr (), t)
    \<and> getEntries t = [old_message]
    \<and> manager_context demo_session_env t = Some \<lparr>sc_messages = [], sc_thinkingLevel = ''off'', sc_model = None\<rparr>"
  by (rule fork_of_old_file_empty [where h = old_header and nh = demo_fork_header and target = "''d/9_0.jsonl''"])
     (use demo_codec(2) in
      \<open>simp_all add: old_world_def demo_env_simps demo_fork_file demo_fork_header_def
        CURRENT_SESSION_VERSION_def old_file_text\<close>,
      simp add: old_message_def)

end
