(* ===== verification/Bytes.thy ===== *)
theory Bytes imports Effects "HOL-Library.Word" begin

text \<open>
  Bytes and the big-endian integers the protocol writes into byte arrays: storing a number in a
  \<open>Uint8Array\<close> keeps its low eight bits, \<open>>>>\<close> drops bits of a nonnegative integer, and
  \<open>set\<close> overwrites a range of an array that is long enough.
\<close>

type_synonym byte = "8 word"
type_synonym bytes = "byte list"

abbreviation MAX_UINT32 :: nat where "MAX_UINT32 \<equiv> 4294967295"
abbreviation UINT32_BASE :: nat where "UINT32_BASE \<equiv> 4294967296"

definition be16 :: "nat \<Rightarrow> bytes" where
  "be16 n = [word_of_nat (drop_bit 8 n), word_of_nat n]"

definition be32 :: "nat \<Rightarrow> bytes" where
  "be32 n = [word_of_nat (drop_bit 24 n), word_of_nat (drop_bit 16 n), word_of_nat (drop_bit 8 n), word_of_nat n]"

text \<open>The value of a big-endian sequence.\<close>

definition be_value :: "bytes \<Rightarrow> nat" where
  "be_value bs = foldl (\<lambda>n b. n * 256 + unat b) 0 bs"

definition overwrite :: "'a list \<Rightarrow> nat \<Rightarrow> 'a list \<Rightarrow> 'a list" where
  "overwrite xs i ys = take i xs @ ys @ drop (i + length ys) xs"

lemma unat_byte [simp]: "unat (word_of_nat n :: byte) = n mod 256"
  by (simp add: unat_of_nat)

lemma byte_of_unat [simp]: "(word_of_nat (unat b) :: byte) = b"
  by simp

lemma unat_byte_less: "unat (b :: byte) < 256"
  using unsigned_less [of b] by simp

lemma be_length [simp]: "length (be16 n) = 2" "length (be32 n) = 4"
  by (simp_all add: be16_def be32_def)

lemma be_value_simps [simp]:
  "be_value [] = 0" "be_value (bs @ [b]) = be_value bs * 256 + unat b"
  by (simp_all add: be_value_def)

lemma be_value_4: "be_value [a, b, c, d] = unat a * 16777216 + unat b * 65536 + unat c * 256 + unat d"
  by (simp add: be_value_def)

lemma be_value_2: "be_value [a, b] = unat a * 256 + unat b"
  by (simp add: be_value_def)

lemma be_value_less: "be_value bs < 256 ^ length bs"
proof (induction bs rule: rev_induct)
  case (snoc b bs)
  with unat_byte_less [of b] show ?case by simp
qed simp

lemma be_value_be16: "n < 65536 \<Longrightarrow> be_value (be16 n) = n"
  by (simp add: be16_def be_value_2 drop_bit_eq_div)

lemma be_value_be32:
  assumes "n < 4294967296"
  shows "be_value (be32 n) = n"
proof -
  have a: "n div 16777216 < 256" using assms by (simp add: less_mult_imp_div_less)
  have "n div 65536 div 256 = n div 16777216" "n div 256 div 256 = n div 65536"
    by (simp_all flip: div_mult2_eq)
  then have "n div 65536 = n div 16777216 * 256 + n div 65536 mod 256"
    "n div 256 = n div 65536 * 256 + n div 256 mod 256"
    by (metis div_mult_mod_eq)+
  moreover have "n = n div 256 * 256 + n mod 256" by simp
  moreover have "be_value (be32 n) = n div 16777216 mod 256 * 16777216 + n div 65536 mod 256 * 65536 +
      n div 256 mod 256 * 256 + n mod 256"
    by (simp add: be32_def be_value_4 drop_bit_eq_div)
  moreover have "n div 16777216 mod 256 = n div 16777216" using a by simp
  ultimately show ?thesis by linarith
qed

lemma be_value_last:
  "be_value (bs @ [b]) div 256 = be_value bs" "(word_of_nat (be_value (bs @ [b])) :: byte) = b"
  using unat_byte_less [of b] by (simp_all add: word_unat_eq_iff del: of_nat_add of_nat_mult)

lemma be32_be_value:
  assumes "length bs = 4"
  shows "be32 (be_value bs) = bs"
proof -
  obtain a b c d where bs: "bs = [a, b, c, d]"
    using assms by (auto simp: length_Suc_conv numeral_eq_Suc)
  note l = be_value_last [of "[a, b, c]" d] be_value_last [of "[a, b]" c] be_value_last [of "[a]" b] be_value_last [of "[]" a]
  have "n div 65536 = n div 256 div 256" "n div 16777216 = n div 256 div 256 div 256" for n :: nat
    by (simp_all flip: div_mult2_eq)
  with l show ?thesis unfolding bs be32_def drop_bit_eq_div by simp
qed

lemma length_overwrite [simp]: "i + length ys \<le> length xs \<Longrightarrow> length (overwrite xs i ys) = length xs"
  by (simp add: overwrite_def)

lemma take_overwrite: "i + length ys \<le> length xs \<Longrightarrow> take (i + length ys) (overwrite xs i ys) = take i xs @ ys"
  by (simp add: overwrite_def)

end
