(* ===== verification/Utf8.thy ===== *)
theory Utf8 imports Bytes begin

text \<open>
  The text of the wire: a JavaScript string is its list of 16-bit code units, and \<open>TextEncoder\<close> and
  the fatal \<open>TextDecoder\<close> (which keeps a byte order mark) of the standard library turn it into
  UTF-8 and back. The encoder replaces a lone surrogate by U+FFFD; the decoder accepts the
  shortest forms of scalar values only.
\<close>

type_synonym code_unit = "16 word"
type_synonym text_string = "code_unit list"

section \<open>Scalar values\<close>

definition high_surrogate :: "nat \<Rightarrow> bool" where
  "high_surrogate u \<longleftrightarrow> 0xD800 \<le> u \<and> u < 0xDC00"

definition low_surrogate :: "nat \<Rightarrow> bool" where
  "low_surrogate u \<longleftrightarrow> 0xDC00 \<le> u \<and> u < 0xE000"

definition scalar :: "nat \<Rightarrow> bool" where
  "scalar c \<longleftrightarrow> c < 0xD800 \<or> (0xE000 \<le> c \<and> c < 0x110000)"

fun to_scalars :: "nat list \<Rightarrow> nat list" where
  "to_scalars [] = []"
| "to_scalars [u] = [if high_surrogate u \<or> low_surrogate u then 0xFFFD else u]"
| "to_scalars (u # v # us) =
     (if high_surrogate u \<and> low_surrogate v
      then (0x10000 + (u - 0xD800) * 0x400 + (v - 0xDC00)) # to_scalars us
      else (if high_surrogate u \<or> low_surrogate u then 0xFFFD else u) # to_scalars (v # us))"

definition from_scalar :: "nat \<Rightarrow> nat list" where
  "from_scalar c = (if c < 0x10000 then [c]
     else [0xD800 + (c - 0x10000) div 0x400, 0xDC00 + (c - 0x10000) mod 0x400])"

section \<open>UTF-8\<close>

definition utf8 :: "nat \<Rightarrow> nat list" where
  "utf8 c = (if c < 0x80 then [c]
     else if c < 0x800 then [0xC0 + c div 64, 0x80 + c mod 64]
     else if c < 0x10000 then [0xE0 + c div 4096, 0x80 + c div 64 mod 64, 0x80 + c mod 64]
     else [0xF0 + c div 262144, 0x80 + c div 4096 mod 64, 0x80 + c div 64 mod 64, 0x80 + c mod 64])"

definition continues :: "nat \<Rightarrow> bool" where
  "continues b \<longleftrightarrow> 0x80 \<le> b \<and> b < 0xC0"

fun utf8_decode :: "nat list \<Rightarrow> nat list option" where
  "utf8_decode [] = Some []"
| "utf8_decode (b # bs) =
     (if b < 0x80 then map_option ((#) b) (utf8_decode bs)
      else if 0xC2 \<le> b \<and> b < 0xE0 then
        (case bs of
           b1 # bs1 \<Rightarrow> if continues b1
             then map_option ((#) ((b - 0xC0) * 64 + (b1 - 0x80))) (utf8_decode bs1) else None
         | _ \<Rightarrow> None)
      else if 0xE0 \<le> b \<and> b < 0xF0 then
        (case bs of
           b1 # b2 # bs2 \<Rightarrow>
             if continues b1 \<and> continues b2 \<and> (b = 0xE0 \<longrightarrow> 0xA0 \<le> b1) \<and> (b = 0xED \<longrightarrow> b1 < 0xA0)
             then map_option ((#) (((b - 0xE0) * 64 + (b1 - 0x80)) * 64 + (b2 - 0x80))) (utf8_decode bs2)
             else None
         | _ \<Rightarrow> None)
      else if 0xF0 \<le> b \<and> b < 0xF5 then
        (case bs of
           b1 # b2 # b3 # bs3 \<Rightarrow>
             if continues b1 \<and> continues b2 \<and> continues b3 \<and>
                (b = 0xF0 \<longrightarrow> 0x90 \<le> b1) \<and> (b = 0xF4 \<longrightarrow> b1 < 0x90)
             then map_option ((#) ((((b - 0xF0) * 64 + (b1 - 0x80)) * 64 + (b2 - 0x80)) * 64 + (b3 - 0x80)))
                    (utf8_decode bs3)
             else None
         | _ \<Rightarrow> None)
      else None)"

definition text_encode :: "text_string \<Rightarrow> bytes" where
  "text_encode s = map word_of_nat (concat (map utf8 (to_scalars (map unat s))))"

definition text_decode :: "bytes \<Rightarrow> text_string option" where
  "text_decode bs = map_option (\<lambda>cs. map word_of_nat (concat (map from_scalar cs))) (utf8_decode (map unat bs))"

section \<open>One scalar value\<close>

lemma sextets: "(b :: nat) < 64 \<Longrightarrow> (a * 64 + b) div 64 = a \<and> (a * 64 + b) mod 64 = b"
  by simp

lemma split_64: "(c :: nat) = c div 64 * 64 + c mod 64"
  by simp

lemma utf8_decode_utf8:
  assumes "scalar c"
  shows "utf8_decode (utf8 c @ bs) = map_option ((#) c) (utf8_decode bs)"
proof -
  define x y z where "x = c div 64" and "y = x div 64" and "z = y div 64"
  have d: "c div 4096 = y" "c div 262144 = z"
    by (simp_all add: x_def y_def z_def flip: div_mult2_eq)
  have e: "c = x * 64 + c mod 64" "x = y * 64 + x mod 64" "y = z * 64 + y mod 64"
    by (simp_all add: x_def y_def z_def)
  have m: "c mod 64 < 64" "x mod 64 < 64" "y mod 64 < 64" by simp_all
  have k: "continues (0x80 + c mod 64)" "continues (0x80 + x mod 64)" "continues (0x80 + y mod 64)"
    by (simp_all add: continues_def)
  consider "c < 0x80" | "0x80 \<le> c" "c < 0x800" | "0x800 \<le> c" "c < 0x10000" | "0x10000 \<le> c" by linarith
  then show ?thesis
  proof cases
    case 2
    then have "2 \<le> x" "x < 32" using e(1) m(1) by linarith+
    with 2 k e(1) show ?thesis by (simp add: utf8_def x_def [symmetric])
  next
    case 3
    have "y < 16" using 3 e m by linarith
    moreover have "y = 0 \<longrightarrow> 32 \<le> x mod 64" using 3 e m by linarith
    moreover have "y = 13 \<longrightarrow> x mod 64 < 32" using assms 3 e m unfolding scalar_def by linarith
    ultimately show ?thesis using 3 k e by (simp add: utf8_def d x_def [symmetric])
  next
    case 4
    then have c: "c < 0x110000" using assms by (simp add: scalar_def)
    have "z < 5" using c e m by linarith
    moreover have "z = 0 \<longrightarrow> 16 \<le> y mod 64" using 4 e m by linarith
    moreover have "z = 4 \<longrightarrow> y mod 64 < 16" using c e m by linarith
    ultimately show ?thesis using 4 k e by (simp add: utf8_def d x_def [symmetric])
  qed (simp add: utf8_def)
qed

lemma utf8_decode_all: "\<forall>c\<in>set cs. scalar c \<Longrightarrow> utf8_decode (concat (map utf8 cs)) = Some cs"
  by (induction cs) (simp_all add: utf8_decode_utf8)

lemma utf8_bytes: "c < 0x110000 \<Longrightarrow> \<forall>b\<in>set (utf8 c). b < 256"
proof -
  assume "c < 0x110000"
  then have "c div 262144 < 5" by (simp add: less_mult_imp_div_less)
  moreover have "c < 0x10000 \<longrightarrow> c div 4096 < 16" "c < 0x800 \<longrightarrow> c div 64 < 32"
    by (simp_all add: less_mult_imp_div_less)
  moreover have "x mod 64 < (64 :: nat)" for x by simp
  note this [of c] this [of "c div 64"] this [of "c div 4096"]
  ultimately show ?thesis by (auto simp: utf8_def)
qed

section \<open>The decoder accepts encodings only\<close>

lemma continues_sextet: "continues b \<Longrightarrow> \<exists>a<64. b = 0x80 + a"
  by (intro exI [of _ "b - 0x80"]) (auto simp: continues_def)

lemma utf8_2: "a < 32 \<Longrightarrow> 2 \<le> a \<Longrightarrow> x < 64 \<Longrightarrow> utf8 (a * 64 + x) = [0xC0 + a, 0x80 + x] \<and> scalar (a * 64 + x)"
  by (simp add: utf8_def scalar_def)

lemma utf8_3:
  assumes "a < 16" "x < 64" "y < 64" "a = 0 \<longrightarrow> 32 \<le> x" "a = 13 \<longrightarrow> x < 32"
  shows "utf8 ((a * 64 + x) * 64 + y) = [0xE0 + a, 0x80 + x, 0x80 + y] \<and> scalar ((a * 64 + x) * 64 + y)"
proof -
  let ?c = "(a * 64 + x) * 64 + y"
  have "0x800 \<le> ?c" "?c < 0x10000"
    using assms by (cases "a = 0"; simp; linarith)+
  moreover have "scalar ?c"
  proof -
    consider "a < 13" | "a = 13" | "13 < a" by linarith
    then show ?thesis using assms by cases (simp_all add: scalar_def)
  qed
  moreover have "?c div 64 = a * 64 + x" "?c mod 64 = y"
    using sextets [OF assms(3), of "a * 64 + x"] by blast+
  moreover have "?c div 4096 = ?c div 64 div 64" by (simp flip: div_mult2_eq)
  ultimately show ?thesis using assms(2) by (simp add: utf8_def)
qed

lemma utf8_4:
  assumes "a < 5" "x < 64" "y < 64" "z < 64" "a = 0 \<longrightarrow> 16 \<le> x" "a = 4 \<longrightarrow> x < 16"
  shows "utf8 (((a * 64 + x) * 64 + y) * 64 + z) = [0xF0 + a, 0x80 + x, 0x80 + y, 0x80 + z] \<and>
    scalar (((a * 64 + x) * 64 + y) * 64 + z)"
proof -
  let ?c = "((a * 64 + x) * 64 + y) * 64 + z"
  have "0x10000 \<le> ?c" "?c < 0x110000"
    using assms by (cases "a = 0"; cases "a = 4"; simp; linarith)+
  moreover from this have "scalar ?c" by (simp add: scalar_def)
  moreover have "?c div 64 = (a * 64 + x) * 64 + y" "?c mod 64 = z"
    using sextets [OF assms(4), of "(a * 64 + x) * 64 + y"] by blast+
  moreover have "((a * 64 + x) * 64 + y) div 64 = a * 64 + x" "((a * 64 + x) * 64 + y) mod 64 = y"
    using sextets [OF assms(3), of "a * 64 + x"] by blast+
  moreover have "?c div 4096 = ?c div 64 div 64" "?c div 262144 = ?c div 64 div 64 div 64"
    by (simp_all flip: div_mult2_eq)
  ultimately show ?thesis using assms(2) by (simp add: utf8_def)
qed

lemma utf8_decode_sound: "utf8_decode bs = Some cs \<Longrightarrow> concat (map utf8 cs) = bs \<and> (\<forall>c\<in>set cs. scalar c)"
proof (induction bs arbitrary: cs rule: length_induct)
  case (1 bs)
  have ih: "concat (map utf8 ds) = rest \<and> (\<forall>c\<in>set ds. scalar c)"
    if "utf8_decode rest = Some ds" "length rest < length bs" for rest ds
    using 1 that by blast
  show ?case
  proof (cases bs)
    case Nil
    with 1 show ?thesis by simp
  next
    case (Cons b rest)
    consider "b < 0x80" | "0xC2 \<le> b" "b < 0xE0" | "0xE0 \<le> b" "b < 0xF0" | "0xF0 \<le> b" "b < 0xF5"
      | "\<not> b < 0x80" "\<not> (0xC2 \<le> b \<and> b < 0xF5)" by linarith
    then show ?thesis
    proof cases
      case 1
      with "1.prems" Cons obtain ds where "utf8_decode rest = Some ds" "cs = b # ds" by auto
      moreover have "utf8 b = [b]" "scalar b" using 1 by (simp_all add: utf8_def scalar_def)
      ultimately show ?thesis using ih [of rest ds] Cons by simp
    next
      case 2
      with "1.prems" Cons obtain b1 bs1 ds where r: "rest = b1 # bs1" "continues b1"
          "utf8_decode bs1 = Some ds" "cs = ((b - 0xC0) * 64 + (b1 - 0x80)) # ds"
        by (auto split: list.splits if_splits)
      obtain x where x: "x < 64" "b1 = 0x80 + x" using continues_sextet [OF r(2)] by blast
      define a where "a = b - 0xC0"
      have a: "b = 0xC0 + a" "2 \<le> a" "a < 32" using 2 by (auto simp: a_def)
      from ih [OF r(3)] utf8_2 [OF a(3,2) x(1)] Cons r a x show ?thesis by simp
    next
      case 3
      with "1.prems" Cons obtain b1 b2 bs2 ds where r: "rest = b1 # b2 # bs2" "continues b1" "continues b2"
          "b = 0xE0 \<longrightarrow> 0xA0 \<le> b1" "b = 0xED \<longrightarrow> b1 < 0xA0" "utf8_decode bs2 = Some ds"
          "cs = (((b - 0xE0) * 64 + (b1 - 0x80)) * 64 + (b2 - 0x80)) # ds"
        by (auto split: list.splits if_splits)
      obtain x y where x: "x < 64" "b1 = 0x80 + x" "y < 64" "b2 = 0x80 + y"
        using r(2,3) [THEN continues_sextet] by (elim exE conjE) (rule that)
      define a where "a = b - 0xE0"
      have a: "b = 0xE0 + a" "a < 16" "a = 0 \<longrightarrow> 32 \<le> x" "a = 13 \<longrightarrow> x < 32"
        using 3 r(4,5) x by (auto simp: a_def)
      from ih [OF r(6)] utf8_3 [OF a(2) x(1,3) a(3,4)] Cons r(1,7) a(1) x(2,4) show ?thesis by simp
    next
      case 4
      with "1.prems" Cons obtain b1 b2 b3 bs3 ds where r: "rest = b1 # b2 # b3 # bs3" "continues b1" "continues b2"
          "continues b3" "b = 0xF0 \<longrightarrow> 0x90 \<le> b1" "b = 0xF4 \<longrightarrow> b1 < 0x90" "utf8_decode bs3 = Some ds"
          "cs = ((((b - 0xF0) * 64 + (b1 - 0x80)) * 64 + (b2 - 0x80)) * 64 + (b3 - 0x80)) # ds"
        by (auto split: list.splits if_splits)
      obtain x y z where x: "x < 64" "b1 = 0x80 + x" "y < 64" "b2 = 0x80 + y" "z < 64" "b3 = 0x80 + z"
        using r(2-4) [THEN continues_sextet] by (elim exE conjE) (rule that)
      define a where "a = b - 0xF0"
      have a: "b = 0xF0 + a" "a < 5" "a = 0 \<longrightarrow> 16 \<le> x" "a = 4 \<longrightarrow> x < 16"
        using 4 r(5,6) x by (auto simp: a_def)
      from ih [OF r(7)] utf8_4 [OF a(2) x(1,3,5) a(3,4)] Cons r(1,8) a(1) x(2,4,6) show ?thesis by simp
    next
      case 5
      with "1.prems" Cons show ?thesis by (auto split: if_splits)
    qed
  qed
qed

section \<open>UTF-16\<close>

lemma to_scalars_from_scalar:
  assumes "scalar c"
  shows "to_scalars (from_scalar c @ us) = c # to_scalars us"
proof (cases "c < 0x10000")
  case True
  then have "\<not> high_surrogate c" "\<not> low_surrogate c"
    using assms by (auto simp: scalar_def high_surrogate_def low_surrogate_def)
  with True show ?thesis by (cases us) (simp_all add: from_scalar_def)
next
  case False
  define k where "k = c - 0x10000"
  have k: "c = 0x10000 + k" "k < 0x100000" using assms False by (auto simp: scalar_def k_def)
  then have "k div 0x400 < 0x400" "k mod 0x400 < 0x400" by (simp_all add: less_mult_imp_div_less)
  then have "high_surrogate (0xD800 + k div 0x400)" "low_surrogate (0xDC00 + k mod 0x400)"
    by (simp_all add: high_surrogate_def low_surrogate_def)
  with False show ?thesis by (simp add: from_scalar_def k(1) k_def [symmetric])
qed

lemma to_scalars_all: "\<forall>c\<in>set cs. scalar c \<Longrightarrow> to_scalars (concat (map from_scalar cs)) = cs"
  by (induction cs) (simp_all add: to_scalars_from_scalar)

lemma to_scalars_scalar: "\<forall>u\<in>set us. u < 0x10000 \<Longrightarrow> \<forall>c\<in>set (to_scalars us). scalar c"
  by (induction us rule: to_scalars.induct)
    (auto simp: scalar_def high_surrogate_def low_surrogate_def)

lemma from_scalar_units: "scalar c \<Longrightarrow> \<forall>u\<in>set (from_scalar c). u < 0x10000"
proof -
  assume "scalar c"
  then have "(c - 0x10000) div 0x400 < 0x400" by (auto simp: scalar_def less_mult_imp_div_less)
  moreover have "(c - 0x10000) mod 0x400 < 0x400" by simp
  ultimately show ?thesis by (auto simp: from_scalar_def)
qed

section \<open>Text\<close>

lemma unat_unit: "unat (word_of_nat n :: code_unit) = n mod 65536"
  by (simp add: unat_of_nat)

lemma map_unat_units: "\<forall>u\<in>set us. u < 0x10000 \<Longrightarrow> map unat (map (word_of_nat :: nat \<Rightarrow> code_unit) us) = us"
  by (induction us) (simp_all add: unat_unit)

lemma map_unat_bytes: "\<forall>u\<in>set us. u < 256 \<Longrightarrow> map unat (map (word_of_nat :: nat \<Rightarrow> byte) us) = us"
  by (induction us) simp_all

lemma units_less: "\<forall>u\<in>set (map unat (s :: text_string)). u < 0x10000"
  using unsigned_less [where ?'a = nat and ?'b = 16] by auto

lemma unat_text_encode: "map unat (text_encode s) = concat (map utf8 (to_scalars (map unat s)))"
proof -
  have "\<forall>c\<in>set (to_scalars (map unat s)). scalar c" using units_less by (rule to_scalars_scalar)
  then have "\<forall>b\<in>set (concat (map utf8 (to_scalars (map unat s)))). b < 256"
    by (auto simp: scalar_def dest!: bspec intro!: utf8_bytes [rule_format])
  then show ?thesis unfolding text_encode_def by (rule map_unat_bytes)
qed

text \<open>Well-formed text, with no lone surrogate, is what the two give back unchanged.\<close>

definition well_formed_text :: "text_string \<Rightarrow> bool" where
  "well_formed_text s \<longleftrightarrow> text_decode (text_encode s) = Some s"

lemma text_decode_sound:
  assumes "text_decode bs = Some s"
  shows "text_encode s = bs" "well_formed_text s"
proof -
  obtain cs where cs: "utf8_decode (map unat bs) = Some cs" "s = map word_of_nat (concat (map from_scalar cs))"
    using assms by (auto simp: text_decode_def)
  from utf8_decode_sound [OF cs(1)] have c: "concat (map utf8 cs) = map unat bs" "\<forall>c\<in>set cs. scalar c" by blast+
  have "\<forall>u\<in>set (concat (map from_scalar cs)). u < 0x10000"
    using c(2) from_scalar_units by auto
  then have "map unat s = concat (map from_scalar cs)" unfolding cs(2) by (rule map_unat_units)
  then have "to_scalars (map unat s) = cs" using to_scalars_all [OF c(2)] by simp
  moreover have "map (word_of_nat \<circ> unat) bs = bs" by (simp add: comp_def)
  ultimately show "text_encode s = bs" using c(1) by (simp add: text_encode_def del: map_map, simp)
  with assms show "well_formed_text s" by (simp add: well_formed_text_def)
qed

lemma text_encode_nonempty: "text_encode s = [] \<longleftrightarrow> s = []"
proof -
  have "utf8 c \<noteq> []" for c by (simp add: utf8_def)
  moreover have "to_scalars us = [] \<longleftrightarrow> us = []" for us by (cases us rule: to_scalars.cases) auto
  ultimately show ?thesis by (cases "to_scalars (map unat s)") (auto simp: text_encode_def)
qed

end
