(* ===== verification/Cbor.thy ===== *)
theory Cbor imports Utf8 "HOL-Library.While_Combinator" begin

unbundle bit_operations_syntax

text \<open>
  \<open>packages/protocol/src/cbor\<close>: the options (\<open>options.ts\<close>), the encoder with its growing buffer
  (\<open>encoder.ts\<close>) and the decoder (\<open>decoder.ts\<close>). A value is a finite tree of the data the two can
  meet: cyclic objects, which the encoder detects by identity, are not among them. A number is
  an integer, or a double by its bits; an object has its properties in the order \<open>Object.keys\<close>
  lists them, and a flag for an enumerable symbol property.
\<close>

section \<open>Numbers and values\<close>

datatype js_number = JsInt int | JsFloat "64 word"

definition float_exponent :: "64 word \<Rightarrow> nat" where
  "float_exponent b = unat b div 2 ^ 52 mod 2048"

text \<open>The double that \<open>bits\<close> denote: a finite integer that is not \<open>-0\<close>, or something else.\<close>

definition number_of_bits :: "64 word \<Rightarrow> js_number" where
  "number_of_bits bits =
     (let ex = float_exponent bits; fraction = unat bits mod 2 ^ 52; negative = (unat bits \<ge> 2 ^ 63);
          m = (if ex = 0 then fraction else 2 ^ 52 + fraction); scale = (if ex = 0 then 1 else ex);
          whole = (if scale \<ge> 1075 then m * 2 ^ (scale - 1075) else m div 2 ^ (1075 - scale))
      in if ex = 2047 \<or> (scale < 1075 \<and> m mod 2 ^ (1075 - scale) \<noteq> 0) \<or> (negative \<and> whole = 0)
         then JsFloat bits else JsInt (if negative then - int whole else int whole))"

definition is_finite :: "js_number \<Rightarrow> bool" where
  "is_finite x = (case x of JsInt i \<Rightarrow> True | JsFloat b \<Rightarrow> float_exponent b \<noteq> 2047)"

definition is_safe_integer :: "int \<Rightarrow> bool" where
  "is_safe_integer i \<longleftrightarrow> \<bar>i\<bar> \<le> 2 ^ 53 - 1"

definition float64_bytes :: "64 word \<Rightarrow> bytes" where
  "float64_bytes b = be32 (unat b div UINT32_BASE) @ be32 (unat b mod UINT32_BASE)"

definition float64_value :: "bytes \<Rightarrow> 64 word" where
  "float64_value bs = word_of_nat (be_value (take 4 bs) * UINT32_BASE + be_value (drop 4 bs))"

datatype js_value =
    VNull
  | VUndefined
  | VBool bool
  | VNumber js_number
  | VString text_string
  | VBytes bytes
  | VArray "js_value list"
  | VObject bool "(text_string \<times> js_value) list"
  | VOther string

type_synonym properties = "(text_string \<times> js_value) list"

text \<open>The array index a property name stands for; such properties come first, in ascending order.\<close>

definition array_index :: "text_string \<Rightarrow> nat option" where
  "array_index s =
     (let us = map unat s; n = foldl (\<lambda>n u. n * 10 + (u - 48)) 0 us in
      if us \<noteq> [] \<and> (\<forall>u\<in>set us. 48 \<le> u \<and> u \<le> 57) \<and> (hd us = 48 \<longrightarrow> length us = 1) \<and> n < MAX_UINT32
      then Some n else None)"

definition key_before :: "text_string \<Rightarrow> text_string \<Rightarrow> bool" where
  "key_before a b = (case array_index a of
     Some i \<Rightarrow> (case array_index b of Some j \<Rightarrow> i < j | None \<Rightarrow> True)
   | None \<Rightarrow> array_index b = None)"

text \<open>\<open>Object.defineProperty\<close> with a name the object does not have yet.\<close>

definition define_property :: "text_string \<Rightarrow> js_value \<Rightarrow> properties \<Rightarrow> properties" where
  "define_property k v ps =
     takeWhile (\<lambda>p. key_before (fst p) k) ps @ (k, v) # dropWhile (\<lambda>p. key_before (fst p) k) ps"

section \<open>Options\<close>

record cbor_options =
  maxByteLength :: nat
  maxContainerLength :: nat
  maxDepth :: nat

record cbor_limits =
  lim_maxByteLength :: "int option"
  lim_maxContainerLength :: "int option"
  lim_maxDepth :: "int option"

definition MAX_CONFIGURED_DEPTH :: nat where "MAX_CONFIGURED_DEPTH = 512"
definition DEFAULT_MAX_CBOR_BYTE_LENGTH :: int where "DEFAULT_MAX_CBOR_BYTE_LENGTH = 16 * 1024 * 1024"
definition DEFAULT_MAX_CBOR_CONTAINER_LENGTH :: int where "DEFAULT_MAX_CBOR_CONTAINER_LENGTH = 1000000"
definition DEFAULT_MAX_CBOR_DEPTH :: int where "DEFAULT_MAX_CBOR_DEPTH = 64"

definition resolveLimit :: "string \<Rightarrow> int \<Rightarrow> nat \<Rightarrow> string + nat" where
  "resolveLimit name v maximum =
     (if v < 0 \<or> v > int maximum then Inl (name @ '' must be an integer in its range'') else Inr (nat v))"

definition resolveOptions :: "cbor_limits option \<Rightarrow> string + cbor_options" where
  "resolveOptions options =
     (let given = (\<lambda>f d. case options of None \<Rightarrow> d | Some l \<Rightarrow> (case f l of None \<Rightarrow> d | Some n \<Rightarrow> n)) in
      bindE (resolveLimit ''maxByteLength'' (given lim_maxByteLength DEFAULT_MAX_CBOR_BYTE_LENGTH) MAX_UINT32) (\<lambda>b.
      bindE (resolveLimit ''maxContainerLength''
               (given lim_maxContainerLength DEFAULT_MAX_CBOR_CONTAINER_LENGTH) MAX_UINT32) (\<lambda>c.
      bindE (resolveLimit ''maxDepth'' (given lim_maxDepth DEFAULT_MAX_CBOR_DEPTH) MAX_CONFIGURED_DEPTH) (\<lambda>d.
        Inr \<lparr>maxByteLength = b, maxContainerLength = c, maxDepth = d\<rparr>))))"

section \<open>The writer\<close>

record writer =
  wr_buffer :: bytes
  wr_offset :: nat
  wr_max :: nat

definition writer_new :: "nat \<Rightarrow> writer" where
  "writer_new limit = \<lparr>wr_buffer = replicate (min 256 limit) 0, wr_offset = 0, wr_max = limit\<rparr>"

definition grown_capacity :: "nat \<Rightarrow> nat \<Rightarrow> nat \<Rightarrow> nat" where
  "grown_capacity limit required capacity =
     while (\<lambda>c. c < required) (\<lambda>c. min limit (max required (c * 2))) capacity"

definition ensureCapacity :: "nat \<Rightarrow> (writer, unit) act" where
  "ensureCapacity additional = (\<lambda>w.
     let required = wr_offset w + additional in
     if required > wr_max w then (Inl ''CBOR byte length exceeds configured limit'', w)
     else if required \<le> length (wr_buffer w) then (Inr (), w)
     else
       let capacity = grown_capacity (wr_max w) required (max 1 (length (wr_buffer w)))
       in (Inr (), w\<lparr>wr_buffer := overwrite (replicate capacity 0) 0 (wr_buffer w)\<rparr>))"

definition modifyW :: "(writer \<Rightarrow> writer) \<Rightarrow> (writer, unit) act" where
  "modifyW f = (\<lambda>w. (Inr (), f w))"

definition writeByte :: "byte \<Rightarrow> (writer, unit) act" where
  "writeByte b = bindA (ensureCapacity 1) (\<lambda>_. modifyW (\<lambda>w.
     w\<lparr>wr_buffer := (wr_buffer w)[wr_offset w := b], wr_offset := wr_offset w + 1\<rparr>))"

definition writeBytes :: "bytes \<Rightarrow> (writer, unit) act" where
  "writeBytes bs = bindA (ensureCapacity (length bs)) (\<lambda>_. modifyW (\<lambda>w.
     w\<lparr>wr_buffer := overwrite (wr_buffer w) (wr_offset w) bs, wr_offset := wr_offset w + length bs\<rparr>))"

definition writeUint16 :: "nat \<Rightarrow> (writer, unit) act" where
  "writeUint16 n = bindA (ensureCapacity 2) (\<lambda>_. modifyW (\<lambda>w.
     w\<lparr>wr_buffer := (wr_buffer w)[wr_offset w := word_of_nat (drop_bit 8 n), wr_offset w + 1 := word_of_nat n],
       wr_offset := wr_offset w + 2\<rparr>))"

definition writeUint32 :: "nat \<Rightarrow> (writer, unit) act" where
  "writeUint32 n = bindA (ensureCapacity 4) (\<lambda>_. modifyW (\<lambda>w.
     w\<lparr>wr_buffer := (wr_buffer w)[wr_offset w := word_of_nat (drop_bit 24 n),
         wr_offset w + 1 := word_of_nat (drop_bit 16 n), wr_offset w + 2 := word_of_nat (drop_bit 8 n),
         wr_offset w + 3 := word_of_nat n],
       wr_offset := wr_offset w + 4\<rparr>))"

definition writeUint64 :: "nat \<Rightarrow> (writer, unit) act" where
  "writeUint64 n = (let high = n div UINT32_BASE; low = n - high * UINT32_BASE in
     bindA (writeUint32 high) (\<lambda>_. writeUint32 low))"

definition writeFloat64 :: "64 word \<Rightarrow> (writer, unit) act" where
  "writeFloat64 b = bindA (ensureCapacity 9) (\<lambda>_. modifyW (\<lambda>w.
     w\<lparr>wr_buffer := overwrite ((wr_buffer w)[wr_offset w := 0xfb]) (wr_offset w + 1) (float64_bytes b),
       wr_offset := wr_offset w + 9\<rparr>))"

definition finish :: "writer \<Rightarrow> bytes" where
  "finish w = take (wr_offset w) (wr_buffer w)"

section \<open>The encoder\<close>

definition head_byte :: "nat \<Rightarrow> nat \<Rightarrow> byte" where
  "head_byte majorType v = word_of_nat (push_bit 5 majorType OR v)"

definition writeArgument :: "nat \<Rightarrow> nat \<Rightarrow> (writer, unit) act" where
  "writeArgument majorType v =
     (if v < 24 then writeByte (head_byte majorType v)
      else if v \<le> 0xff then bindA (writeByte (head_byte majorType 24)) (\<lambda>_. writeByte (word_of_nat v))
      else if v \<le> 0xffff then bindA (writeByte (head_byte majorType 25)) (\<lambda>_. writeUint16 v)
      else if v \<le> MAX_UINT32 then bindA (writeByte (head_byte majorType 26)) (\<lambda>_. writeUint32 v)
      else bindA (writeByte (head_byte majorType 27)) (\<lambda>_. writeUint64 v))"

definition encodeText :: "cbor_options \<Rightarrow> text_string \<Rightarrow> (writer, unit) act" where
  "encodeText opts s =
     (let bs = text_encode s in
      if length bs > maxByteLength opts then throwA ''CBOR text string length exceeds configured limit''
      else if text_decode bs \<noteq> Some s then throwA ''CBOR text strings must contain valid Unicode scalar values''
      else bindA (writeArgument 3 (length bs)) (\<lambda>_. writeBytes bs))"

definition encodeNumber :: "js_number \<Rightarrow> (writer, unit) act" where
  "encodeNumber x =
     (if \<not> is_finite x then throwA ''CBOR numbers must be finite''
      else case x of
        JsInt i \<Rightarrow>
          if \<not> is_safe_integer i then throwA ''CBOR integers must be safe JavaScript integers''
          else if i \<ge> 0 then writeArgument 0 (nat i)
          else writeArgument 1 (nat (-1 - i))
      | JsFloat b \<Rightarrow> writeFloat64 b)"

text \<open>The properties that are encoded.\<close>

definition defined_entries :: "properties \<Rightarrow> properties" where
  "defined_entries ps = filter (\<lambda>p. snd p \<noteq> VUndefined) ps"

fun encodeValue :: "cbor_options \<Rightarrow> nat \<Rightarrow> js_value \<Rightarrow> (writer, unit) act"
  and encodeItems :: "cbor_options \<Rightarrow> nat \<Rightarrow> js_value list \<Rightarrow> (writer, unit) act"
  and encodeEntries :: "cbor_options \<Rightarrow> nat \<Rightarrow> properties \<Rightarrow> (writer, unit) act"
where
  "encodeValue opts depth v =
     (if depth > maxDepth opts then throwA ''CBOR nesting depth exceeds configured limit''
      else case v of
        VNull \<Rightarrow> writeByte 0xf6
      | VBool b \<Rightarrow> writeByte (if b then 0xf5 else 0xf4)
      | VNumber x \<Rightarrow> encodeNumber x
      | VString s \<Rightarrow> encodeText opts s
      | VBytes bs \<Rightarrow>
          if length bs > maxByteLength opts then throwA ''CBOR byte string length exceeds configured limit''
          else bindA (writeArgument 2 (length bs)) (\<lambda>_. writeBytes bs)
      | VArray vs \<Rightarrow>
          if length vs > maxContainerLength opts then throwA ''CBOR array length exceeds configured limit''
          else bindA (writeArgument 4 (length vs)) (\<lambda>_. encodeItems opts (depth + 1) vs)
      | VObject symbols ps \<Rightarrow>
          if symbols then throwA ''CBOR map keys must be strings''
          else if length (defined_entries ps) > maxContainerLength opts
            then throwA ''CBOR map length exceeds configured limit''
          else bindA (writeArgument 5 (length (defined_entries ps))) (\<lambda>_. encodeEntries opts (depth + 1) ps)
      | VUndefined \<Rightarrow> throwA ''Unsupported CBOR value type: undefined''
      | VOther t \<Rightarrow> throwA (''Unsupported CBOR value type: '' @ t))"
| "encodeItems opts depth [] = retA ()"
| "encodeItems opts depth (v # vs) =
     (if v = VUndefined then throwA ''CBOR arrays must not contain holes or undefined values''
      else bindA (encodeValue opts depth v) (\<lambda>_. encodeItems opts depth vs))"
| "encodeEntries opts depth [] = retA ()"
| "encodeEntries opts depth ((k, v) # ps) =
     (if v = VUndefined then encodeEntries opts depth ps
      else bindA (encodeText opts k) (\<lambda>_.
           bindA (encodeValue opts depth v) (\<lambda>_. encodeEntries opts depth ps)))"

definition encodeCbor :: "cbor_limits option \<Rightarrow> js_value \<Rightarrow> string + bytes" where
  "encodeCbor options v =
     bindE (resolveOptions options) (\<lambda>opts.
       case encodeValue opts 0 v (writer_new (maxByteLength opts)) of
         (Inl e, w) \<Rightarrow> Inl e
       | (Inr _, w) \<Rightarrow> Inr (finish w))"

section \<open>The reader and the decoder\<close>

record reader =
  rd_bytes :: bytes
  rd_offset :: nat

definition readByte :: "(reader, nat) act" where
  "readByte = (\<lambda>r.
     if rd_offset r \<ge> length (rd_bytes r) then (Inl ''Truncated CBOR payload'', r)
     else (Inr (unat (rd_bytes r ! rd_offset r)), r\<lparr>rd_offset := rd_offset r + 1\<rparr>))"

definition readBytes :: "nat \<Rightarrow> (reader, bytes) act" where
  "readBytes n = (\<lambda>r.
     if n > length (rd_bytes r) - rd_offset r then (Inl ''Truncated CBOR payload'', r)
     else (Inr (take n (drop (rd_offset r) (rd_bytes r))), r\<lparr>rd_offset := rd_offset r + n\<rparr>))"

definition readUint32 :: "(reader, nat) act" where
  "readUint32 = bindA (readBytes 4) (\<lambda>bs. retA
     (unat (bs ! 0) * 0x1000000 + unat (bs ! 1) * 0x10000 + unat (bs ! 2) * 0x100 + unat (bs ! 3)))"

definition readArgument :: "nat \<Rightarrow> (reader, nat) act" where
  "readArgument ai =
     (if ai < 24 then retA ai
      else if ai = 24 then readByte
      else if ai = 25 then bindA (readBytes 2) (\<lambda>bs. retA (unat (bs ! 0) * 0x100 + unat (bs ! 1)))
      else if ai = 26 then readUint32
      else if ai = 27 then
        bindA readUint32 (\<lambda>high. bindA readUint32 (\<lambda>low.
          if high > 0x1fffff then throwA ''Decoded CBOR integer or length is outside the safe range''
          else retA (high * UINT32_BASE + low)))
      else if ai = 31 then throwA ''Indefinite-length CBOR items are not supported''
      else throwA ''Malformed CBOR additional information'')"

definition readLength :: "nat \<Rightarrow> string \<Rightarrow> nat \<Rightarrow> (reader, nat) act" where
  "readLength ai kind limit =
     (if ai = 31 then throwA (''Indefinite-length CBOR '' @ kind @ ''s are not supported'')
      else bindA (readArgument ai) (\<lambda>n.
        if n > limit then throwA (''CBOR '' @ kind @ '' length exceeds configured limit'') else retA n))"

definition readSimple :: "nat \<Rightarrow> (reader, js_value) act" where
  "readSimple ai =
     (if ai = 20 then retA (VBool False)
      else if ai = 21 then retA (VBool True)
      else if ai = 22 then retA VNull
      else if ai = 27 then
        bindA (readBytes 8) (\<lambda>bs. let x = number_of_bits (float64_value bs) in
          if \<not> is_finite x then throwA ''Decoded CBOR number must be finite''
          else if (case x of JsInt i \<Rightarrow> \<not> is_safe_integer i | JsFloat b \<Rightarrow> False)
            then throwA ''Decoded CBOR integer is outside the safe range''
          else retA (VNumber x))
      else if ai = 31 then throwA ''CBOR break marker is not supported''
      else throwA ''Unsupported CBOR simple value or floating-point width'')"

fun read_items :: "(reader, js_value) act \<Rightarrow> nat \<Rightarrow> (reader, js_value list) act" where
  "read_items item 0 = retA []"
| "read_items item (Suc n) = bindA item (\<lambda>v. bindA (read_items item n) (\<lambda>vs. retA (v # vs)))"

fun read_entries ::
  "(reader, js_value) act \<Rightarrow> nat \<Rightarrow> text_string list \<Rightarrow> properties \<Rightarrow> (reader, properties) act" where
  "read_entries item 0 keys ps = retA ps"
| "read_entries item (Suc n) keys ps = bindA item (\<lambda>k. case k of
     VString key \<Rightarrow>
       if key \<in> set keys then throwA ''CBOR map contains a duplicate key''
       else bindA item (\<lambda>v. read_entries item n (keys @ [key]) (define_property key v ps))
   | _ \<Rightarrow> throwA ''CBOR map keys must be strings'')"

function readItem :: "cbor_options \<Rightarrow> nat \<Rightarrow> (reader, js_value) act" where
  "readItem opts depth =
     (if depth > maxDepth opts then throwA ''CBOR nesting depth exceeds configured limit''
      else bindA readByte (\<lambda>initial.
        let majorType = drop_bit 5 initial; ai = initial AND 0x1f in
        if majorType = 0 then bindA (readArgument ai) (\<lambda>n. retA (VNumber (JsInt (int n))))
        else if majorType = 1 then bindA (readArgument ai) (\<lambda>n.
          if \<not> is_safe_integer (-1 - int n) then throwA ''Decoded CBOR integer is outside the safe range''
          else retA (VNumber (JsInt (-1 - int n))))
        else if majorType = 2 then
          bindA (readLength ai ''byte string'' (maxByteLength opts)) (\<lambda>n.
          bindA (readBytes n) (\<lambda>bs. retA (VBytes bs)))
        else if majorType = 3 then
          bindA (readLength ai ''text string'' (maxByteLength opts)) (\<lambda>n.
          bindA (readBytes n) (\<lambda>bs. case text_decode bs of
            None \<Rightarrow> throwA ''CBOR text string contains invalid UTF-8''
          | Some s \<Rightarrow> retA (VString s)))
        else if majorType = 4 then
          bindA (readLength ai ''array'' (maxContainerLength opts)) (\<lambda>n.
          bindA (read_items (readItem opts (depth + 1)) n) (\<lambda>vs. retA (VArray vs)))
        else if majorType = 5 then
          bindA (readLength ai ''map'' (maxContainerLength opts)) (\<lambda>n.
          bindA (read_entries (readItem opts (depth + 1)) n [] []) (\<lambda>ps. retA (VObject False ps)))
        else if majorType = 6 then throwA ''CBOR tags are not supported''
        else if majorType = 7 then readSimple ai
        else throwA ''Malformed CBOR major type''))"
  by pat_completeness auto
termination by (relation "measure (\<lambda>(opts, depth). Suc (maxDepth opts) - depth)") auto

declare readItem.simps [simp del]

definition decodeCbor :: "cbor_limits option \<Rightarrow> bytes \<Rightarrow> string + js_value" where
  "decodeCbor options bs =
     bindE (resolveOptions options) (\<lambda>opts.
       if length bs > maxByteLength opts then Inl ''CBOR byte length exceeds configured limit''
       else case readItem opts 0 \<lparr>rd_bytes = bs, rd_offset = 0\<rparr> of
         (Inl e, r) \<Rightarrow> Inl e
       | (Inr v, r) \<Rightarrow>
           if rd_offset r \<noteq> length (rd_bytes r) then Inl ''CBOR payload contains trailing data'' else Inr v)"

end
