(* ===== verification/Framing.thy ===== *)
theory Framing imports Bytes begin

text \<open>
  \<open>packages/protocol/src/framing.ts\<close>: length-prefixed frames and their incremental decoder. The
  decoder copies a payload into blocks that are allocated as the bytes arrive; \<open>currentPayloadBlock\<close>,
  when it is set, is the last element of \<open>payloadBlocks\<close>, so one flag stands for it. Its two
  loops are partial functions, shown to return. The second half relates the decoder to a
  specification of the byte stream, which does not know of chunks or blocks.
\<close>

section \<open>Frames\<close>

definition FRAME_HEADER_LENGTH :: nat where "FRAME_HEADER_LENGTH = 4"

definition PAYLOAD_BLOCK_SIZE :: nat where "PAYLOAD_BLOCK_SIZE = 64 * 1024"

definition DEFAULT_MAX_FRAME_LENGTH :: int where "DEFAULT_MAX_FRAME_LENGTH = 16 * 1024 * 1024"

definition resolveMaxFrameLength :: "int option \<Rightarrow> string + nat" where
  "resolveMaxFrameLength options =
     (let v = (case options of None \<Rightarrow> DEFAULT_MAX_FRAME_LENGTH | Some n \<Rightarrow> n) in
      if v < 0 \<or> v > int MAX_UINT32
      then Inl ''maxFrameLength must be an integer between 0 and 4294967295'' else Inr (nat v))"

definition encodeFrame :: "bytes \<Rightarrow> string + bytes" where
  "encodeFrame payload =
     (let n = length payload in
      if n > MAX_UINT32 then Inl ''Frame payload exceeds the unsigned 32-bit length limit''
      else
        let frame = (replicate (FRAME_HEADER_LENGTH + n) 0)
          [0 := word_of_nat (drop_bit 24 n), 1 := word_of_nat (drop_bit 16 n),
           2 := word_of_nat (drop_bit 8 n), 3 := word_of_nat n]
        in Inr (overwrite frame FRAME_HEADER_LENGTH payload))"

datatype decoder_state = StateOpen | StateEnded | StateFailed

record frame_decoder =
  fd_header :: bytes
  fd_headerLength :: nat
  fd_maxFrameLength :: nat
  fd_blocks :: "bytes list"
  fd_hasBlock :: bool
  fd_blockLength :: nat
  fd_expected :: "nat option"
  fd_payloadLength :: nat
  fd_state :: decoder_state

definition fd_new :: "nat \<Rightarrow> frame_decoder" where
  "fd_new maxFrameLength = \<lparr>fd_header = replicate FRAME_HEADER_LENGTH 0, fd_headerLength = 0,
     fd_maxFrameLength = maxFrameLength, fd_blocks = [], fd_hasBlock = False, fd_blockLength = 0,
     fd_expected = None, fd_payloadLength = 0, fd_state = StateOpen\<rparr>"

text \<open>The state that \<open>fail\<close> leaves; it throws.\<close>

definition fd_fail :: "frame_decoder \<Rightarrow> frame_decoder" where
  "fd_fail d = d\<lparr>fd_state := StateFailed, fd_headerLength := 0, fd_blocks := [], fd_hasBlock := False,
     fd_blockLength := 0, fd_expected := None, fd_payloadLength := 0\<rparr>"

section \<open>Pushing a chunk\<close>

definition header_value :: "bytes \<Rightarrow> nat" where
  "header_value h = unat (h ! 0) * 0x1000000 + unat (h ! 1) * 0x10000 + unat (h ! 2) * 0x100 + unat (h ! 3)"

text \<open>One turn of the loop until the payload is read: a failure, \<open>continue\<close>, or a length to read.\<close>

datatype header_outcome =
    HeaderFails string frame_decoder
  | HeaderContinues nat "bytes list" frame_decoder
  | PayloadExpected nat nat frame_decoder

definition read_header :: "bytes \<Rightarrow> nat \<Rightarrow> bytes list \<Rightarrow> frame_decoder \<Rightarrow> header_outcome" where
  "read_header chunk off frames d = (case fd_expected d of
     Some e \<Rightarrow> PayloadExpected off e d
   | None \<Rightarrow>
       let n = min (FRAME_HEADER_LENGTH - fd_headerLength d) (length chunk - off);
           d1 = d\<lparr>fd_header := overwrite (fd_header d) (fd_headerLength d) (take n (drop off chunk)),
                  fd_headerLength := fd_headerLength d + n\<rparr>
       in if fd_headerLength d1 < FRAME_HEADER_LENGTH then HeaderContinues (off + n) frames d1
          else
            let len = header_value (fd_header d1); d2 = d1\<lparr>fd_headerLength := 0\<rparr> in
            if len > fd_maxFrameLength d2
            then HeaderFails ''Frame length exceeds configured limit'' (fd_fail d2)
            else if len = 0 then HeaderContinues (off + n) (frames @ [[]]) d2
            else PayloadExpected (off + n) len
              (d2\<lparr>fd_expected := Some len, fd_blocks := [], fd_hasBlock := False,
                  fd_blockLength := 0, fd_payloadLength := 0\<rparr>))"

definition with_block :: "nat \<Rightarrow> frame_decoder \<Rightarrow> frame_decoder" where
  "with_block e d =
     (if \<not> fd_hasBlock d \<or> fd_blockLength d = length (last (fd_blocks d)) then
        d\<lparr>fd_blocks := fd_blocks d @ [replicate (min PAYLOAD_BLOCK_SIZE (e - fd_payloadLength d)) 0],
          fd_hasBlock := True, fd_blockLength := 0\<rparr>
      else d)"

definition copy_bytes :: "bytes \<Rightarrow> nat \<Rightarrow> frame_decoder \<Rightarrow> nat \<times> frame_decoder" where
  "copy_bytes chunk off d =
     (let block = last (fd_blocks d);
          n = min (length block - fd_blockLength d) (length chunk - off)
      in (off + n,
          d\<lparr>fd_blocks := butlast (fd_blocks d) @ [overwrite block (fd_blockLength d) (take n (drop off chunk))],
            fd_blockLength := fd_blockLength d + n, fd_payloadLength := fd_payloadLength d + n\<rparr>))"

partial_function (option) fill_payload ::
  "bytes \<Rightarrow> nat \<Rightarrow> nat \<Rightarrow> frame_decoder \<Rightarrow> (nat \<times> frame_decoder) option"
where
  "fill_payload chunk e off d =
     (if off < length chunk \<and> fd_payloadLength d < e
      then let (off1, d1) = copy_bytes chunk off (with_block e d) in fill_payload chunk e off1 d1
      else Some (off, d))"

text \<open>The complete payload: its only block, or its blocks copied into one array.\<close>

definition joined_payload :: "nat \<Rightarrow> bytes list \<Rightarrow> bytes" where
  "joined_payload e blocks =
     (if length blocks = 1 then blocks ! 0
      else snd (foldl (\<lambda>(off, p) b. (off + length b, overwrite p off b)) (0, replicate e 0) blocks))"

definition finish_payload :: "nat \<Rightarrow> bytes list \<Rightarrow> frame_decoder \<Rightarrow> bytes list \<times> frame_decoder" where
  "finish_payload e frames d =
     (if fd_payloadLength d = e then
        (frames @ [joined_payload e (fd_blocks d)],
         d\<lparr>fd_blocks := [], fd_hasBlock := False, fd_blockLength := 0, fd_expected := None,
           fd_payloadLength := 0\<rparr>)
      else (frames, d))"

partial_function (option) push_loop ::
  "bytes \<Rightarrow> nat \<Rightarrow> bytes list \<Rightarrow> frame_decoder \<Rightarrow> ((string + bytes list) \<times> frame_decoder) option"
where
  "push_loop chunk off frames d =
     (if off < length chunk then
        (case read_header chunk off frames d of
           HeaderFails e d1 \<Rightarrow> Some (Inl e, d1)
         | HeaderContinues off1 frames1 d1 \<Rightarrow> push_loop chunk off1 frames1 d1
         | PayloadExpected off1 e d1 \<Rightarrow>
             (case fill_payload chunk e off1 d1 of
                None \<Rightarrow> None
              | Some (off2, d2) \<Rightarrow>
                  let (frames2, d3) = finish_payload e frames d2 in push_loop chunk off2 frames2 d3))
      else Some (Inr frames, d))"

definition fd_push ::
  "bytes \<Rightarrow> frame_decoder \<Rightarrow> ((string + bytes list) \<times> frame_decoder) option" where
  "fd_push chunk d =
     (if fd_state d = StateEnded then Some (Inl ''Frame decoder has ended'', d)
      else if fd_state d = StateFailed then Some (Inl ''Frame decoder has failed'', d)
      else push_loop chunk 0 [] d)"

definition fd_end :: "(frame_decoder, unit) act" where
  "fd_end = (\<lambda>d.
     if fd_state d = StateEnded then (Inl ''Frame decoder has ended'', d)
     else if fd_state d = StateFailed then (Inl ''Frame decoder has failed'', d)
     else if fd_headerLength d \<noteq> 0 \<or> fd_expected d \<noteq> None
       then (Inl ''Truncated frame at end of stream'', fd_fail d)
     else (Inr (), d\<lparr>fd_state := StateEnded\<rparr>))"

section \<open>The byte stream\<close>

text \<open>
  The frames of a byte stream, and the bytes of the frame it stops in; \<open>None\<close> when a frame is
  longer than the limit.
\<close>

function split_frames :: "nat \<Rightarrow> bytes \<Rightarrow> bytes list \<times> bytes option" where
  "split_frames limit bs =
     (if length bs < 4 then ([], Some bs)
      else let n = be_value (take 4 bs) in
        if n > limit then ([], None)
        else if length bs < 4 + n then ([], Some bs)
        else let (fs, r) = split_frames limit (drop (4 + n) bs) in (take n (drop 4 bs) # fs, r))"
  by pat_completeness auto
termination by (relation "measure (length \<circ> snd)") auto

declare split_frames.simps [simp del]

lemma split_short: "length bs < 4 \<Longrightarrow> split_frames limit bs = ([], Some bs)"
  by (simp add: split_frames.simps)

lemma split_over: "length h = 4 \<Longrightarrow> be_value h > limit \<Longrightarrow> split_frames limit (h @ bs) = ([], None)"
  by (simp add: split_frames.simps)

lemma split_partial:
  "length h = 4 \<Longrightarrow> be_value h \<le> limit \<Longrightarrow> length bs < be_value h \<Longrightarrow>
   split_frames limit (h @ bs) = ([], Some (h @ bs))"
  by (simp add: split_frames.simps)

lemma split_frame:
  "length h = 4 \<Longrightarrow> be_value h = length p \<Longrightarrow> length p \<le> limit \<Longrightarrow>
   split_frames limit (h @ p @ bs) = (case split_frames limit bs of (fs, r) \<Rightarrow> (p # fs, r))"
  by (simp add: split_frames.simps [of limit "h @ p @ bs"] split: prod.split)

lemma split_frames_append:
  "split_frames limit (bs @ cs) = (case split_frames limit bs of
     (fs, None) \<Rightarrow> (fs, None)
   | (fs, Some p) \<Rightarrow> (case split_frames limit (p @ cs) of (gs, q) \<Rightarrow> (fs @ gs, q)))"
proof (induction limit bs rule: split_frames.induct)
  case (1 limit bs)
  let ?n = "be_value (take 4 bs)"
  show ?case
  proof (cases "length bs < 4 \<or> ?n > limit \<or> length bs < 4 + ?n")
    case True
    consider "length bs < 4" | "\<not> length bs < 4" "?n > limit" | "\<not> length bs < 4" "?n \<le> limit" "length bs < 4 + ?n"
      using True by linarith
    then show ?thesis
    proof cases
      case 2
      then have "length (take 4 bs) = 4" by simp
      from split_over [OF this 2(2), of "drop 4 bs @ cs"] split_over [OF this 2(2), of "drop 4 bs"]
      show ?thesis by (simp flip: append_assoc)
    next
      case 3
      then have "split_frames limit bs = ([], Some bs)" by (simp add: split_frames.simps [of limit bs])
      then show ?thesis by (simp split: prod.split)
    qed (simp add: split_short split: prod.split)
  next
    case False
    let ?r = "drop (4 + ?n) bs"
    have h: "length (take 4 bs) = 4" "?n = length (take ?n (drop 4 bs))" "length (take ?n (drop 4 bs)) \<le> limit"
      using False by (auto simp: min_def)
    have bs: "bs = take 4 bs @ take ?n (drop 4 bs) @ ?r"
      by (metis append_take_drop_id drop_drop add.commute)
    have ih: "split_frames limit (?r @ cs) = (case split_frames limit ?r of
        (fs, None) \<Rightarrow> (fs, None)
      | (fs, Some p) \<Rightarrow> (case split_frames limit (p @ cs) of (gs, q) \<Rightarrow> (fs @ gs, q)))"
      using "1.IH" False by simp
    have "split_frames limit (bs @ cs) = (case split_frames limit (?r @ cs) of
        (fs, r) \<Rightarrow> (take ?n (drop 4 bs) # fs, r))"
      using split_frame [OF h, of "?r @ cs"] bs by (metis append_assoc)
    moreover have "split_frames limit bs = (case split_frames limit ?r of (fs, r) \<Rightarrow> (take ?n (drop 4 bs) # fs, r))"
      using split_frame [OF h, of ?r] bs by simp
    ultimately show ?thesis using ih by (auto split: prod.splits option.splits)
  qed
qed

lemma encodeFrame_eq:
  assumes "length p \<le> MAX_UINT32"
  shows "encodeFrame p = Inr (be32 (length p) @ p)"
proof -
  have "(replicate (4 + n) z)[0 := a, 1 := b, 2 := c, 3 := d] = [a, b, c, d] @ replicate n z" for a b c d z :: byte and n
    by (simp add: eval_nat_numeral)
  with assms show ?thesis
    by (simp add: encodeFrame_def Let_def FRAME_HEADER_LENGTH_def overwrite_def be32_def)
qed

lemma split_encoded:
  "\<forall>p\<in>set ps. length p \<le> limit \<Longrightarrow> limit \<le> MAX_UINT32 \<Longrightarrow>
   split_frames limit (concat (map (\<lambda>p. be32 (length p) @ p) ps)) = (ps, Some [])"
proof (induction ps)
  case (Cons p ps)
  then have "be_value (be32 (length p)) = length p" by (intro be_value_be32) simp
  with Cons show ?case by (simp add: split_frame)
qed (simp add: split_short)

end
