(* ===== verification/ProtocolCodec.thy ===== *)
theory ProtocolCodec imports Cbor Framing begin

text \<open>
  \<open>packages/protocol/src/protocol.ts\<close>, the schemas of the messages as data, and
  \<open>packages/protocol/src/codec.ts\<close>, the validated encoder and the incremental decoder of messages,
  with \<open>isJsonValue\<close> of \<open>packages/chord/src/json.ts\<close>. \<open>Check\<close> of the library \<open>typebox\<close> is the
  parameter \<open>chk\<close>. Errors are their messages; those that quote a configured number leave it out.
\<close>

section \<open>Strict JSON\<close>

text \<open>
  \<open>check\<close>: a hole is an \<open>undefined\<close> element, and a value is a finite tree, so no object is its own
  ancestor. Instances of other classes and functions are \<open>VOther\<close>, byte arrays \<open>VBytes\<close>.
\<close>

fun check_json :: "nat \<Rightarrow> js_value \<Rightarrow> bool" where
  "check_json depth v = (if depth > 512 then False else case v of
     VNull \<Rightarrow> True
   | VString s \<Rightarrow> True
   | VBool b \<Rightarrow> True
   | VNumber x \<Rightarrow> is_finite x
   | VArray vs \<Rightarrow> (\<forall>w\<in>set vs. check_json (depth + 1) w)
   | VObject symbols ps \<Rightarrow> \<not> symbols \<and> (\<forall>w\<in>snd ` set ps. check_json (depth + 1) w)
   | _ \<Rightarrow> False)"

declare check_json.simps [simp del]

definition isJsonValue :: "js_value \<Rightarrow> bool" where
  "isJsonValue v = check_json 0 v"

section \<open>Schemas\<close>

datatype schema_literal = LitString string | LitInt int | LitBool bool

text \<open>The type builders of \<open>typebox\<close> that \<open>protocol.ts\<close> uses; an object has its properties and
  whether others are allowed.\<close>

datatype schema =
    TString "nat option" "string option"
  | TUnknown
  | TUnsafe schema
  | TLiteral schema_literal
  | TInteger "int option"
  | TNull
  | TOptional schema
  | TUnion "schema list"
  | TObject "(string \<times> schema) list" bool

definition PROTOCOL_VERSION :: int where "PROTOCOL_VERSION = 8"

definition IdSchema :: schema where "IdSchema = TString (Some 1) None"

definition OpaqueJsonValueSchema :: schema where "OpaqueJsonValueSchema = TUnsafe TUnknown"

definition StrictObject :: "(string \<times> schema) list \<Rightarrow> schema" where
  "StrictObject ps = TObject ps False"

definition ServerIdSchema :: schema where
  "ServerIdSchema =
     TString None (Some ''^[0-9a-f]{8}-[0-9a-f]{4}-4[0-9a-f]{3}-[89ab][0-9a-f]{3}-[0-9a-f]{12}$'')"

definition isServerId :: "(schema \<Rightarrow> js_value \<Rightarrow> bool) \<Rightarrow> js_value \<Rightarrow> bool" where
  "isServerId chk v = chk ServerIdSchema v"

definition ProtocolErrorSchema :: schema where
  "ProtocolErrorSchema = StrictObject [(''code'', IdSchema), (''message'', TString None None)]"

definition ClientHelloSchema :: schema where
  "ClientHelloSchema = StrictObject
     [(''type'', TLiteral (LitString ''hello'')), (''version'', TInteger (Some 0))]"

definition ServerTargetSchema :: schema where
  "ServerTargetSchema = StrictObject [(''serverId'', ServerIdSchema)]"

definition SessionTargetSchema :: schema where
  "SessionTargetSchema = StrictObject
     [(''serverId'', ServerIdSchema), (''sessionId'', IdSchema), (''attachmentId'', IdSchema)]"

definition RpcTargetSchema :: schema where
  "RpcTargetSchema = TUnion [ServerTargetSchema, SessionTargetSchema]"

definition RequestEnvelopeSchema :: schema where
  "RequestEnvelopeSchema = StrictObject
     [(''type'', TLiteral (LitString ''request'')), (''id'', IdSchema),
      (''target'', RpcTargetSchema), (''call'', OpaqueJsonValueSchema)]"

definition CancelEnvelopeSchema :: schema where
  "CancelEnvelopeSchema = StrictObject
     [(''type'', TLiteral (LitString ''cancel'')), (''id'', IdSchema), (''target'', RpcTargetSchema)]"

definition ClientMessageSchema :: schema where
  "ClientMessageSchema = TUnion [ClientHelloSchema, RequestEnvelopeSchema, CancelEnvelopeSchema]"

definition ServerHelloSchema :: schema where
  "ServerHelloSchema = StrictObject
     [(''type'', TLiteral (LitString ''hello'')), (''version'', TLiteral (LitInt PROTOCOL_VERSION)),
      (''serverId'', ServerIdSchema)]"

definition ServerHelloErrorSchema :: schema where
  "ServerHelloErrorSchema = StrictObject
     [(''type'', TLiteral (LitString ''hello_error'')), (''error'', ProtocolErrorSchema)]"

definition ResponseEnvelopeSchema :: schema where
  "ResponseEnvelopeSchema = TUnion
     [StrictObject
        [(''type'', TLiteral (LitString ''response'')), (''id'', IdSchema),
         (''ok'', TLiteral (LitBool True)), (''result'', TOptional OpaqueJsonValueSchema)],
      StrictObject
        [(''type'', TLiteral (LitString ''response'')), (''id'', IdSchema),
         (''ok'', TLiteral (LitBool False)), (''error'', ProtocolErrorSchema)]]"

definition ServiceEventEnvelopeSchema :: schema where
  "ServiceEventEnvelopeSchema = StrictObject
     [(''type'', TLiteral (LitString ''service_update'')), (''subscriptionId'', IdSchema),
      (''update'', OpaqueJsonValueSchema)]"

definition AttachmentEnvelopeSchema :: schema where
  "AttachmentEnvelopeSchema = StrictObject
     [(''type'', TLiteral (LitString ''attachment'')),
      (''attachment'', TUnion [SessionTargetSchema, TNull])]"

definition ServerMessageSchema :: schema where
  "ServerMessageSchema = TUnion [ServerHelloSchema, ServerHelloErrorSchema, ResponseEnvelopeSchema,
     ServiceEventEnvelopeSchema, AttachmentEnvelopeSchema]"

section \<open>Parsing and encoding a message\<close>

definition parseClientMessage :: "(schema \<Rightarrow> js_value \<Rightarrow> bool) \<Rightarrow> js_value \<Rightarrow> string + js_value" where
  "parseClientMessage chk v =
     (if \<not> chk ClientMessageSchema v \<or> \<not> isJsonValue v
      then Inl ''Invalid client protocol message'' else Inr v)"

definition parseServerMessage :: "(schema \<Rightarrow> js_value \<Rightarrow> bool) \<Rightarrow> js_value \<Rightarrow> string + js_value" where
  "parseServerMessage chk v =
     (if \<not> chk ServerMessageSchema v \<or> \<not> isJsonValue v
      then Inl ''Invalid server protocol message'' else Inr v)"

text \<open>Whatever the codec throws is an \<open>Error\<close>.\<close>

definition boundedErrorMessage :: "string \<Rightarrow> string" where
  "boundedErrorMessage message = (if length message \<le> 500 then message else take 497 message @ ''...'')"

definition frame_limit :: "int option \<Rightarrow> int" where
  "frame_limit options = (case options of None \<Rightarrow> DEFAULT_MAX_FRAME_LENGTH | Some n \<Rightarrow> n)"

definition byte_limit :: "int \<Rightarrow> cbor_limits" where
  "byte_limit n = \<lparr>lim_maxByteLength = Some n, lim_maxContainerLength = None, lim_maxDepth = None\<rparr>"

definition encodeProtocolMessage ::
  "js_value \<Rightarrow> (js_value \<Rightarrow> string + js_value) \<Rightarrow> string \<Rightarrow> int option \<Rightarrow> string + bytes" where
  "encodeProtocolMessage v parse kind options = bindE (parse v) (\<lambda>validated.
     case bindE (encodeCbor (Some (byte_limit (frame_limit options))) validated) encodeFrame of
       Inl e \<Rightarrow> Inl (''Unable to encode '' @ kind @ '' protocol message: '' @ boundedErrorMessage e)
     | Inr bs \<Rightarrow> Inr bs)"

definition encodeClientMessage ::
  "(schema \<Rightarrow> js_value \<Rightarrow> bool) \<Rightarrow> js_value \<Rightarrow> int option \<Rightarrow> string + bytes" where
  "encodeClientMessage chk message options =
     encodeProtocolMessage message (parseClientMessage chk) ''client'' options"

definition encodeServerMessage ::
  "(schema \<Rightarrow> js_value \<Rightarrow> bool) \<Rightarrow> js_value \<Rightarrow> int option \<Rightarrow> string + bytes" where
  "encodeServerMessage chk message options =
     encodeProtocolMessage message (parseServerMessage chk) ''server'' options"

section \<open>The incremental decoder\<close>

record message_decoder =
  md_failed :: bool
  md_frames :: frame_decoder
  md_kind :: string
  md_maxFrameLength :: int
  md_parse :: "js_value \<Rightarrow> string + js_value"

definition md_new ::
  "string \<Rightarrow> (js_value \<Rightarrow> string + js_value) \<Rightarrow> int option \<Rightarrow> string + message_decoder" where
  "md_new kind parse options = bindE (resolveMaxFrameLength options) (\<lambda>n.
     Inr \<lparr>md_failed = False, md_frames = fd_new n, md_kind = kind,
          md_maxFrameLength = frame_limit options, md_parse = parse\<rparr>)"

definition failed_message :: "message_decoder \<Rightarrow> string" where
  "failed_message d = md_kind d @ '' message decoder has failed''"

definition decode_message :: "message_decoder \<Rightarrow> bytes \<Rightarrow> string + js_value" where
  "decode_message d frame = (case decodeCbor (Some (byte_limit (md_maxFrameLength d))) frame of
     Inl e \<Rightarrow> Inl (''Invalid '' @ md_kind d @ '' protocol frame: '' @ boundedErrorMessage e)
   | Inr v \<Rightarrow> md_parse d v)"

text \<open>\<open>None\<close> is a push whose frame decoder does not return.\<close>

definition md_push ::
  "bytes \<Rightarrow> message_decoder \<Rightarrow> ((string + js_value list) \<times> message_decoder) option" where
  "md_push chunk d =
     (if md_failed d then Some (Inl (failed_message d), d)
      else case fd_push chunk (md_frames d) of
        None \<Rightarrow> None
      | Some (Inl e, fr) \<Rightarrow>
          Some (Inl (''Invalid '' @ md_kind d @ '' protocol frame: '' @ boundedErrorMessage e),
            d\<lparr>md_frames := fr, md_failed := True\<rparr>)
      | Some (Inr frames, fr) \<Rightarrow>
          (case mapE (decode_message d) frames of
             Inl e \<Rightarrow> Some (Inl e, d\<lparr>md_frames := fr, md_failed := True\<rparr>)
           | Inr messages \<Rightarrow> Some (Inr messages, d\<lparr>md_frames := fr\<rparr>)))"

definition md_end :: "(message_decoder, unit) act" where
  "md_end = (\<lambda>d.
     if md_failed d then (Inl (failed_message d), d)
     else case fd_end (md_frames d) of
       (Inl e, fr) \<Rightarrow> (Inl (''Invalid '' @ md_kind d @ '' protocol framing: '' @ boundedErrorMessage e),
         d\<lparr>md_frames := fr, md_failed := True\<rparr>)
     | (Inr _, fr) \<Rightarrow> (Inr (), d\<lparr>md_frames := fr\<rparr>))"

text \<open>The two exported decoders delegate to one of these.\<close>

definition clientMessageDecoder ::
  "(schema \<Rightarrow> js_value \<Rightarrow> bool) \<Rightarrow> int option \<Rightarrow> string + message_decoder" where
  "clientMessageDecoder chk options = md_new ''client'' (parseClientMessage chk) options"

definition serverMessageDecoder ::
  "(schema \<Rightarrow> js_value \<Rightarrow> bool) \<Rightarrow> int option \<Rightarrow> string + message_decoder" where
  "serverMessageDecoder chk options = md_new ''server'' (parseServerMessage chk) options"

definition isSupportedProtocolVersion :: "js_number \<Rightarrow> bool" where
  "isSupportedProtocolVersion x = (case x of JsInt i \<Rightarrow> i = PROTOCOL_VERSION | JsFloat b \<Rightarrow> False)"

end
