(* ===== verification/CborLaws.thy ===== *)
theory CborLaws imports Cbor begin

text \<open>
  The bytes a value has on the wire, and what the writer and the reader do with them: writing
  appends them or throws, depending only on the value and the limits (\<open>encodable\<close>); reading
  consumes exactly them and returns the value.
\<close>

section \<open>Writing\<close>

definition writer_ok :: "writer \<Rightarrow> bool" where
  "writer_ok w \<longleftrightarrow> wr_offset w \<le> length (wr_buffer w) \<and> wr_offset w \<le> wr_max w"

text \<open>The action appends \<open>bs\<close>, or throws when they do not fit.\<close>

definition writes :: "(writer, unit) act \<Rightarrow> bytes \<Rightarrow> bool" where
  "writes m bs \<longleftrightarrow> (\<forall>w. writer_ok w \<longrightarrow>
     (if wr_offset w + length bs \<le> wr_max w
      then \<exists>w'. m w = (Inr (), w') \<and> writer_ok w' \<and> finish w' = finish w @ bs \<and> wr_max w' = wr_max w
      else \<exists>e. fst (m w) = Inl e))"

definition fails :: "(writer, unit) act \<Rightarrow> bool" where
  "fails m \<longleftrightarrow> (\<forall>w. writer_ok w \<longrightarrow> (\<exists>e. fst (m w) = Inl e))"

lemma length_finish: "writer_ok w \<Longrightarrow> length (finish w) = wr_offset w"
  by (simp add: finish_def writer_ok_def)

lemma writes_offset: "writer_ok w \<Longrightarrow> writer_ok w' \<Longrightarrow> finish w' = finish w @ bs \<Longrightarrow>
    wr_offset w' = wr_offset w + length bs"
  by (metis length_append length_finish)

lemma writes_bindA:
  assumes "writes m bs" "writes k cs"
  shows "writes (bindA m (\<lambda>_. k)) (bs @ cs)"
  unfolding writes_def
proof (intro allI impI)
  fix w assume w: "writer_ok w"
  show "if wr_offset w + length (bs @ cs) \<le> wr_max w
      then \<exists>w'. bindA m (\<lambda>_. k) w = (Inr (), w') \<and> writer_ok w' \<and> finish w' = finish w @ bs @ cs \<and> wr_max w' = wr_max w
      else \<exists>e. fst (bindA m (\<lambda>_. k) w) = Inl e"
  proof (cases "wr_offset w + length bs \<le> wr_max w")
    case True
    with assms(1) w obtain w1 where 1: "m w = (Inr (), w1)" "writer_ok w1" "finish w1 = finish w @ bs"
        "wr_max w1 = wr_max w" unfolding writes_def by metis
    have "wr_offset w1 + length cs = wr_offset w + length (bs @ cs)" using writes_offset [OF w 1(2,3)] by simp
    with assms(2) 1 show ?thesis unfolding writes_def by (auto simp: bindA_run)
  next
    case False
    with assms(1) w obtain e where "fst (m w) = Inl e" unfolding writes_def by metis
    with False show ?thesis by (auto simp: bindA_run split: prod.split sum.split)
  qed
qed

lemma writes_retA: "writes (retA ()) []"
  by (simp add: writes_def writer_ok_def act_simps)

lemma fails_throwA: "fails (throwA e)"
  by (simp add: fails_def act_simps)

lemma fails_bindA: "fails m \<Longrightarrow> fails (bindA m k)"
  unfolding fails_def by (auto simp: bindA_run split: prod.split sum.split)

lemma writes_fails: "writes m bs \<Longrightarrow> fails k \<Longrightarrow> fails (bindA m (\<lambda>_. k))"
  unfolding fails_def writes_def
  by (auto simp: bindA_run split: prod.split sum.split)
    (metis fst_conv Inl_Inr_False Pair_inject)

section \<open>The buffer\<close>

lemma grown_capacity_ok:
  assumes "required \<le> limit"
  shows "required \<le> grown_capacity limit required c"
proof (cases "c < required")
  case True
  have "grown_capacity limit required c = grown_capacity limit required (min limit (max required (c * 2)))"
    unfolding grown_capacity_def by (subst while_unfold) (simp add: True)
  also have "\<dots> = min limit (max required (c * 2))"
    unfolding grown_capacity_def by (subst while_unfold) (use assms in auto)
  finally show ?thesis using assms by simp
next
  case False
  then show ?thesis unfolding grown_capacity_def by (subst while_unfold) simp
qed

text \<open>The growth loop of a request within the limit ends.\<close>

lemma grown_capacity_ends:
  fixes required limit c :: nat
  assumes "required \<le> limit"
  shows "while_option (\<lambda>c. c < required) (\<lambda>c. min limit (max required (c * 2))) c \<noteq> None"
proof -
  have "while_option (\<lambda>c. c < required) (\<lambda>c. min limit (max required (c * 2))) d = Some d" if "required \<le> d" for d
    using that by (subst while_option_unfold) simp
  then show ?thesis using assms by (subst while_option_unfold) auto
qed

lemma ensureCapacity_run:
  assumes "writer_ok w"
  shows "if wr_offset w + k \<le> wr_max w
    then \<exists>w'. ensureCapacity k w = (Inr (), w') \<and> finish w' = finish w \<and> wr_offset w' = wr_offset w \<and>
      wr_max w' = wr_max w \<and> wr_offset w + k \<le> length (wr_buffer w')
    else \<exists>e. ensureCapacity k w = (Inl e, w)"
proof (cases "wr_offset w + k \<le> wr_max w \<and> length (wr_buffer w) < wr_offset w + k")
  case True
  let ?c = "grown_capacity (wr_max w) (wr_offset w + k) (max 1 (length (wr_buffer w)))"
  have "wr_offset w + k \<le> ?c" using True by (intro grown_capacity_ok) simp
  with True assms show ?thesis
    by (simp add: ensureCapacity_def Let_def finish_def overwrite_def writer_ok_def)
next
  case False
  then show ?thesis by (auto simp: ensureCapacity_def Let_def)
qed

text \<open>A write that stores \<open>bs\<close> at the offset once there is room for it.\<close>

lemma writes_store:
  assumes "\<And>w. wr_offset w + length bs \<le> length (wr_buffer w) \<Longrightarrow>
      f w = w\<lparr>wr_buffer := overwrite (wr_buffer w) (wr_offset w) bs, wr_offset := wr_offset w + length bs\<rparr>"
    "n = length bs"
  shows "writes (bindA (ensureCapacity n) (\<lambda>_. modifyW f)) bs"
  unfolding writes_def
proof (intro allI impI)
  fix w assume w: "writer_ok w"
  show "if wr_offset w + length bs \<le> wr_max w
      then \<exists>w'. bindA (ensureCapacity n) (\<lambda>_. modifyW f) w = (Inr (), w') \<and> writer_ok w' \<and>
        finish w' = finish w @ bs \<and> wr_max w' = wr_max w
      else \<exists>e. fst (bindA (ensureCapacity n) (\<lambda>_. modifyW f) w) = Inl e"
  proof (cases "wr_offset w + length bs \<le> wr_max w")
    case True
    with ensureCapacity_run [OF w, of n] assms(2) obtain w1 where 1: "ensureCapacity n w = (Inr (), w1)"
        "finish w1 = finish w" "wr_offset w1 = wr_offset w" "wr_max w1 = wr_max w"
        "wr_offset w + length bs \<le> length (wr_buffer w1)" by auto
    let ?w2 = "w1\<lparr>wr_buffer := overwrite (wr_buffer w1) (wr_offset w1) bs, wr_offset := wr_offset w1 + length bs\<rparr>"
    have room: "wr_offset w1 + length bs \<le> length (wr_buffer w1)" using 1(3,5) by simp
    have "bindA (ensureCapacity n) (\<lambda>_. modifyW f) w = (Inr (), ?w2)"
      using assms(1) [OF room] 1(1) by (simp add: bindA_run modifyW_def)
    moreover have "finish ?w2 = finish w @ bs"
      using take_overwrite [OF room] 1(2) by (simp add: finish_def)
    moreover have "writer_ok ?w2" using True 1 room by (simp add: writer_ok_def)
    ultimately show ?thesis using True 1(4) by simp
  next
    case False
    with ensureCapacity_run [OF w, of n] assms(2) show ?thesis by (auto simp: bindA_run)
  qed
qed

lemma overwrite_Cons:
  "i + length (x # ys) \<le> length xs \<Longrightarrow> overwrite xs i (x # ys) = overwrite (xs[i := x]) (i + 1) ys"
  by (simp add: overwrite_def take_Suc_conv_app_nth)

lemma overwrite_Nil: "i \<le> length xs \<Longrightarrow> overwrite xs i [] = xs"
  by (simp add: overwrite_def)

lemma length_float64_bytes [simp]: "length (float64_bytes x) = 8"
  by (simp add: float64_bytes_def)

lemma writes_writeBytes: "writes (writeBytes bs) bs"
  unfolding writeBytes_def by (rule writes_store) simp_all

lemma writes_writeByte: "writes (writeByte b) [b]"
  unfolding writeByte_def by (rule writes_store) (simp_all add: overwrite_Cons overwrite_Nil)

lemma writes_writeUint16: "writes (writeUint16 n) (be16 n)"
  unfolding writeUint16_def by (rule writes_store) (simp_all add: overwrite_Cons overwrite_Nil be16_def)

lemma writes_writeUint32: "writes (writeUint32 n) (be32 n)"
  unfolding writeUint32_def
proof (rule writes_store)
  fix w assume "wr_offset w + length (be32 n) \<le> length (wr_buffer w)"
  then have "overwrite (wr_buffer w) (wr_offset w) (be32 n) =
      (wr_buffer w)[wr_offset w := word_of_nat (drop_bit 24 n), wr_offset w + 1 := word_of_nat (drop_bit 16 n),
        wr_offset w + 1 + 1 := word_of_nat (drop_bit 8 n), wr_offset w + 1 + 1 + 1 := word_of_nat n]"
    by (simp add: overwrite_Cons overwrite_Nil be32_def)
  moreover have "i + 1 + 1 = i + 2" "i + 1 + 1 + 1 = i + 3" for i :: nat by simp_all
  ultimately show "w\<lparr>wr_buffer := (wr_buffer w)[wr_offset w := word_of_nat (drop_bit 24 n),
         wr_offset w + 1 := word_of_nat (drop_bit 16 n), wr_offset w + 2 := word_of_nat (drop_bit 8 n),
         wr_offset w + 3 := word_of_nat n], wr_offset := wr_offset w + 4\<rparr> =
      w\<lparr>wr_buffer := overwrite (wr_buffer w) (wr_offset w) (be32 n), wr_offset := wr_offset w + length (be32 n)\<rparr>"
    by (simp only: be_length)
qed simp

lemma writes_writeFloat64: "writes (writeFloat64 x) (0xfb # float64_bytes x)"
  unfolding writeFloat64_def by (rule writes_store) (simp_all add: overwrite_Cons)

lemmas writes_primitive = writes_writeByte writes_writeBytes writes_writeUint16 writes_writeUint32 writes_writeFloat64

definition be64 :: "nat \<Rightarrow> bytes" where
  "be64 n = be32 (n div UINT32_BASE) @ be32 (n mod UINT32_BASE)"

lemma writes_writeUint64: "writes (writeUint64 n) (be64 n)"
  unfolding writeUint64_def be64_def Let_def minus_div_mult_eq_mod
  by (intro writes_bindA writes_primitive)

section \<open>What is written\<close>

definition arg_bytes :: "nat \<Rightarrow> nat \<Rightarrow> bytes" where
  "arg_bytes majorType v =
     (if v < 24 then [head_byte majorType v]
      else if v \<le> 0xff then [head_byte majorType 24, word_of_nat v]
      else if v \<le> 0xffff then head_byte majorType 25 # be16 v
      else if v \<le> MAX_UINT32 then head_byte majorType 26 # be32 v
      else head_byte majorType 27 # be64 v)"

lemma writes_Cons: "writes m [b] \<Longrightarrow> writes k bs \<Longrightarrow> writes (bindA m (\<lambda>_. k)) (b # bs)"
  using writes_bindA [of m "[b]" k bs] by simp

lemma writes_writeArgument: "writes (writeArgument t v) (arg_bytes t v)"
  unfolding writeArgument_def arg_bytes_def
  by (auto intro!: writes_Cons writes_primitive writes_writeUint64)

definition text_bytes :: "text_string \<Rightarrow> bytes" where
  "text_bytes s = arg_bytes 3 (length (text_encode s)) @ text_encode s"

definition text_ok :: "cbor_options \<Rightarrow> text_string \<Rightarrow> bool" where
  "text_ok opts s \<longleftrightarrow> length (text_encode s) \<le> maxByteLength opts \<and> well_formed_text s"

lemma encodeText_writes:
  "text_ok opts s \<Longrightarrow> writes (encodeText opts s) (text_bytes s)"
  "\<not> text_ok opts s \<Longrightarrow> fails (encodeText opts s)"
  by (auto simp: encodeText_def text_ok_def well_formed_text_def text_bytes_def Let_def
      intro!: writes_bindA writes_writeArgument writes_primitive fails_throwA)

fun cbor_bytes :: "js_value \<Rightarrow> bytes" where
  "cbor_bytes VNull = [0xf6]"
| "cbor_bytes VUndefined = []"
| "cbor_bytes (VBool b) = [if b then 0xf5 else 0xf4]"
| "cbor_bytes (VNumber (JsInt i)) = (if i \<ge> 0 then arg_bytes 0 (nat i) else arg_bytes 1 (nat (-1 - i)))"
| "cbor_bytes (VNumber (JsFloat b)) = 0xfb # float64_bytes b"
| "cbor_bytes (VString s) = text_bytes s"
| "cbor_bytes (VBytes bs) = arg_bytes 2 (length bs) @ bs"
| "cbor_bytes (VArray vs) = arg_bytes 4 (length vs) @ concat (map cbor_bytes vs)"
| "cbor_bytes (VObject b ps) = arg_bytes 5 (length (defined_entries ps)) @
     concat (map (\<lambda>(k, v). if v = VUndefined then [] else text_bytes k @ cbor_bytes v) ps)"
| "cbor_bytes (VOther t) = []"

text \<open>The values \<open>encodeValue\<close> accepts at a depth.\<close>

fun encodable :: "cbor_options \<Rightarrow> nat \<Rightarrow> js_value \<Rightarrow> bool" where
  "encodable opts depth VNull = (depth \<le> maxDepth opts)"
| "encodable opts depth VUndefined = False"
| "encodable opts depth (VBool b) = (depth \<le> maxDepth opts)"
| "encodable opts depth (VNumber x) = (depth \<le> maxDepth opts \<and> is_finite x \<and>
     (case x of JsInt i \<Rightarrow> is_safe_integer i | JsFloat b \<Rightarrow> True))"
| "encodable opts depth (VString s) = (depth \<le> maxDepth opts \<and> text_ok opts s)"
| "encodable opts depth (VBytes bs) = (depth \<le> maxDepth opts \<and> length bs \<le> maxByteLength opts)"
| "encodable opts depth (VArray vs) = (depth \<le> maxDepth opts \<and> length vs \<le> maxContainerLength opts \<and>
     (\<forall>v\<in>set vs. encodable opts (depth + 1) v))"
| "encodable opts depth (VObject b ps) = (depth \<le> maxDepth opts \<and> \<not> b \<and>
     length (defined_entries ps) \<le> maxContainerLength opts \<and>
     (\<forall>(k, v)\<in>set ps. v = VUndefined \<or> (text_ok opts k \<and> encodable opts (depth + 1) v)))"
| "encodable opts depth (VOther t) = False"

section \<open>The outcome of encoding\<close>

definition outcome :: "(writer, unit) act \<Rightarrow> bool \<Rightarrow> bytes \<Rightarrow> bool" where
  "outcome m ok bs \<longleftrightarrow> (if ok then writes m bs else fails m)"

lemma outcome_bindA:
  "outcome m a bs \<Longrightarrow> (a \<Longrightarrow> outcome k b cs) \<Longrightarrow> outcome (bindA m (\<lambda>_. k)) (a \<and> b) (bs @ cs)"
  by (cases a; cases b) (auto simp: outcome_def intro: writes_bindA writes_fails fails_bindA)

lemma outcome_writes: "writes m bs \<Longrightarrow> outcome m True bs"
  by (simp add: outcome_def)

lemma outcome_throwA: "outcome (throwA e) False bs"
  by (simp add: outcome_def fails_throwA)

lemma outcome_guard: "(\<not> c \<Longrightarrow> outcome m a bs) \<Longrightarrow> outcome (if c then throwA e else m) (\<not> c \<and> a) bs"
  by (auto simp: outcome_def fails_throwA)

lemma outcome_text: "outcome (encodeText opts s) (text_ok opts s) (text_bytes s)"
  by (simp add: outcome_def encodeText_writes)

lemma outcome_number:
  "outcome (encodeNumber x) (is_finite x \<and> (case x of JsInt i \<Rightarrow> is_safe_integer i | JsFloat b \<Rightarrow> True))
     (cbor_bytes (VNumber x))"
  by (auto simp: outcome_def encodeNumber_def fails_throwA
      intro: writes_writeArgument writes_primitive split: js_number.split)

lemma outcome_argument: "outcome (writeArgument t n) True (arg_bytes t n)"
  by (simp add: outcome_def writes_writeArgument)

lemma outcome_then: "writes m bs \<Longrightarrow> outcome k b cs \<Longrightarrow> outcome (bindA m (\<lambda>_. k)) b (bs @ cs)"
  by (auto simp: outcome_def intro: writes_bindA writes_fails)

lemma encode_outcome:
  "outcome (encodeValue opts depth v) (encodable opts depth v) (cbor_bytes v)"
  "outcome (encodeItems opts depth vs) (\<forall>v\<in>set vs. encodable opts depth v) (concat (map cbor_bytes vs))"
  "outcome (encodeEntries opts depth ps)
     (\<forall>(k, v)\<in>set ps. v = VUndefined \<or> (text_ok opts k \<and> encodable opts depth v))
     (concat (map (\<lambda>(k, v). if v = VUndefined then [] else text_bytes k @ cbor_bytes v) ps))"
proof (induction opts depth v and opts depth vs and opts depth ps rule: encodeValue_encodeItems_encodeEntries.induct)
  case (1 opts depth v)
  show ?case
  proof (cases "depth > maxDepth opts")
    case True
    then show ?thesis by (cases v) (simp_all add: outcome_throwA)
  next
    case False
    note ih = 1 [OF False]
    show ?thesis
    proof (cases v)
      case (VArray vs)
      with ih(1) [OF VArray] False show ?thesis
        using outcome_then [OF writes_writeArgument [of 4 "length vs"]]
        by (auto simp: outcome_throwA not_less)
    next
      case (VObject b ps)
      with ih(2) [OF VObject] False show ?thesis
        using outcome_then [OF writes_writeArgument [of 5 "length (defined_entries ps)"]]
        by (auto simp: outcome_throwA not_less)
    next
      case (VBytes bs)
      with False show ?thesis
        by (auto simp: outcome_throwA not_less intro!: outcome_writes writes_bindA writes_writeArgument writes_primitive)
    qed (use False in \<open>auto simp: outcome_throwA outcome_text outcome_number not_less simp del: cbor_bytes.simps(4,5)
        intro!: outcome_writes writes_primitive\<close>)
  qed
next
  case (2 opts depth)
  show ?case by (simp add: outcome_writes writes_retA)
next
  case (3 opts depth v vs)
  show ?case
  proof (cases "v = VUndefined")
    case True
    then show ?thesis by (simp add: outcome_throwA)
  next
    case False
    with outcome_bindA [OF 3(1) 3(2)] show ?thesis by simp
  qed
next
  case (4 opts depth)
  show ?case by (simp add: outcome_writes writes_retA)
next
  case (5 opts depth k v ps)
  show ?case
  proof (cases "v = VUndefined")
    case False
    with outcome_bindA [OF outcome_text outcome_bindA [OF 5(2) 5(3)]] show ?thesis by (simp add: conj_assoc)
  qed (use 5(1) in simp)
qed

lemma writer_new_ok: "writer_ok (writer_new n)" "finish (writer_new n) = []" "wr_max (writer_new n) = n"
    "wr_offset (writer_new n) = 0"
  by (simp_all add: writer_ok_def writer_new_def finish_def)

lemma encodeCbor_iff:
  assumes "resolveOptions options = Inr opts"
  shows "encodeCbor options v = Inr bs \<longleftrightarrow>
    encodable opts 0 v \<and> length (cbor_bytes v) \<le> maxByteLength opts \<and> bs = cbor_bytes v"
proof (cases "encodable opts 0 v")
  case True
  with encode_outcome(1) [of opts 0 v] have w: "writes (encodeValue opts 0 v) (cbor_bytes v)"
    by (simp add: outcome_def)
  let ?w = "writer_new (maxByteLength opts)"
  from w [unfolded writes_def, rule_format, OF writer_new_ok(1), of "maxByteLength opts"]
  show ?thesis
    using True assms by (auto simp: encodeCbor_def writer_new_ok split: if_splits prod.split sum.split)
next
  case False
  with encode_outcome(1) [of opts 0 v] have "fails (encodeValue opts 0 v)" by (simp add: outcome_def)
  then obtain e where "fst (encodeValue opts 0 v (writer_new (maxByteLength opts))) = Inl e"
    using writer_new_ok(1) unfolding fails_def by blast
  with False assms show ?thesis by (auto simp: encodeCbor_def split: prod.split sum.split)
qed

section \<open>Reading\<close>

definition rest :: "reader \<Rightarrow> bytes" where
  "rest r = drop (rd_offset r) (rd_bytes r)"

definition advance :: "nat \<Rightarrow> reader \<Rightarrow> reader" where
  "advance n r = r\<lparr>rd_offset := rd_offset r + n\<rparr>"

text \<open>In front of \<open>bs\<close> the action consumes them and returns \<open>a\<close>.\<close>

definition reads :: "(reader, 'a) act \<Rightarrow> bytes \<Rightarrow> 'a \<Rightarrow> bool" where
  "reads m bs a \<longleftrightarrow> (\<forall>r xs. rest r = bs @ xs \<longrightarrow> m r = (Inr a, advance (length bs) r))"

lemma rest_advance: "rest r = bs @ xs \<Longrightarrow> rest (advance (length bs) r) = xs"
  by (metis advance_def append_eq_conv_conj drop_drop rest_def add.commute reader.select_convs
      reader.update_convs(2) reader.surjective)

lemma advance_advance: "advance n (advance m r) = advance (m + n) r"
  by (simp add: advance_def add.assoc)

lemma reads_bindA: "reads m bs a \<Longrightarrow> reads (f a) cs b \<Longrightarrow> reads (bindA m f) (bs @ cs) b"
  unfolding reads_def by (auto simp: bindA_run rest_advance advance_advance)

lemma reads_retA: "reads (retA a) [] a"
  by (simp add: reads_def act_simps advance_def)

lemma reads_then: "reads m bs a \<Longrightarrow> f a = retA b \<Longrightarrow> reads (bindA m f) bs b"
  using reads_bindA [of m bs a f "[]" b] by (simp add: reads_retA)

lemma reads_readByte: "reads readByte [b] (unat b)"
proof -
  have "rd_offset r < length (rd_bytes r) \<and> rd_bytes r ! rd_offset r = b" if "rest r = [b] @ xs" for r xs
  proof -
    have "rd_offset r < length (rd_bytes r)" using that by (metis rest_def append_Cons drop_eq_Nil2 list.distinct(1) not_less)
    with that show ?thesis by (simp add: rest_def Cons_nth_drop_Suc [symmetric])
  qed
  then show ?thesis by (auto simp: reads_def readByte_def advance_def not_le [symmetric])
qed

lemma reads_readBytes: "reads (readBytes (length bs)) bs bs"
proof -
  have "length bs \<le> length (rd_bytes r) - rd_offset r" "take (length bs) (drop (rd_offset r) (rd_bytes r)) = bs"
    if "rest r = bs @ xs" for r xs
    using that unfolding rest_def by (metis length_append length_drop le_add1, simp)
  then show ?thesis unfolding reads_def readBytes_def advance_def by (metis not_less)
qed

lemma reads_bytes: "length bs = n \<Longrightarrow> reads (readBytes n) bs bs"
  using reads_readBytes by blast

lemma be_32_nth:
  assumes "length bs = 4"
  shows "unat (bs ! 0) * 0x1000000 + unat (bs ! 1) * 0x10000 + unat (bs ! 2) * 0x100 + unat (bs ! 3) = be_value bs"
proof -
  obtain a b c d where "bs = [a, b, c, d]" using assms by (auto simp: length_Suc_conv numeral_eq_Suc)
  then show ?thesis by (simp add: be_value_4)
qed

lemma reads_readUint32: "n < UINT32_BASE \<Longrightarrow> reads readUint32 (be32 n) n"
  unfolding readUint32_def
  by (rule reads_then [OF reads_bytes]) (simp, unfold be_32_nth [OF be_length(2)], simp add: be_value_be32)

definition safe_nat :: "nat \<Rightarrow> bool" where "safe_nat n \<longleftrightarrow> n < 2 ^ 53"

lemma reads_readArgument:
  assumes "safe_nat n"
  shows "\<exists>ai bs. arg_bytes t n = head_byte t ai # bs \<and> ai < 28 \<and> reads (readArgument ai) bs n"
proof -
  consider "n < 24" | "24 \<le> n" "n \<le> 255" | "255 < n" "n \<le> 65535" | "65535 < n" "n \<le> MAX_UINT32" | "MAX_UINT32 < n"
    by linarith
  then show ?thesis
  proof cases
    case 1
    then show ?thesis
      by (intro exI [of _ n] exI [of _ "[]"]) (simp add: arg_bytes_def readArgument_def reads_retA)
  next
    case 2
    then have "reads readByte [word_of_nat n] n" using reads_readByte [of "word_of_nat n"] by simp
    with 2 show ?thesis
      by (intro exI [of _ 24] exI [of _ "[word_of_nat n]"]) (simp add: arg_bytes_def readArgument_def)
  next
    case 3
    have "be16 n = [word_of_nat (drop_bit 8 n), word_of_nat n]" by (simp add: be16_def)
    then have "unat (be16 n ! 0) * 256 + unat (be16 n ! 1) = be_value (be16 n)" by (simp add: be_value_2)
    with 3 have "unat (be16 n ! 0) * 256 + unat (be16 n ! 1) = n" using be_value_be16 [of n] by simp
    with 3 show ?thesis
      by (intro exI [of _ 25] exI [of _ "be16 n"])
        (simp add: arg_bytes_def readArgument_def reads_then [OF reads_bytes])
  next
    case 4
    with reads_readUint32 [of n] show ?thesis
      by (intro exI [of _ 26] exI [of _ "be32 n"]) (simp add: arg_bytes_def readArgument_def)
  next
    case 5
    have high: "n div UINT32_BASE \<le> 0x1fffff" using assms by (simp add: safe_nat_def div_le_dividend less_mult_imp_div_less less_Suc_eq_le [symmetric])
    have "reads (readArgument 27) (be64 n) n"
      unfolding readArgument_def be64_def using high
      by (auto intro!: reads_bindA [OF reads_readUint32] reads_then [OF reads_readUint32])
    with 5 show ?thesis
      by (intro exI [of _ 27] exI [of _ "be64 n"]) (simp add: arg_bytes_def)
  qed
qed

lemma head_byte_sum:
  assumes "ai < 32"
  shows "head_byte t ai = word_of_nat (32 * t + ai)"
proof -
  have "push_bit 5 t AND take_bit 5 ai = 0" by (rule bit_eqI) (auto simp: bit_simps)
  then have "push_bit 5 t AND ai = 0" using assms by (simp add: take_bit_nat_eq_self)
  then have "push_bit 5 t OR ai = push_bit 5 t + ai" by (simp add: disjunctive_add_eq_or)
  then show ?thesis by (simp add: head_byte_def push_bit_eq_mult ac_simps)
qed

lemma head_byte_bits:
  assumes "t < 8" "ai < 32"
  shows "drop_bit 5 (unat (head_byte t ai)) = t" "unat (head_byte t ai) AND 0x1f = ai"
proof -
  have u: "unat (head_byte t ai) = t * 32 + ai"
    using assms by (simp add: head_byte_sum del: of_nat_add of_nat_mult)
  show "drop_bit 5 (unat (head_byte t ai)) = t" using u assms(2) by (simp add: drop_bit_eq_div)
  have "x AND 0x1f = x mod 32" for x :: nat
    using take_bit_eq_mask [of 5 x] by (simp add: take_bit_eq_mod mask_eq_exp_minus_1)
  then show "unat (head_byte t ai) AND 0x1f = ai" using u assms(2) by simp
qed

section \<open>Values that can exist, and what is read back\<close>

text \<open>Properties are in the order of \<open>Object.keys\<close>; bits are used only where no integer is meant.\<close>

definition keys_ordered :: "text_string list \<Rightarrow> bool" where
  "keys_ordered ks \<longleftrightarrow> sorted_wrt (\<lambda>a b. key_before a b \<and> a \<noteq> b) ks"

fun wf_js :: "js_value \<Rightarrow> bool" where
  "wf_js (VNumber (JsFloat b)) = (number_of_bits b = JsFloat b)"
| "wf_js (VArray vs) = (\<forall>v\<in>set vs. wf_js v)"
| "wf_js (VObject b ps) = (keys_ordered (map fst ps) \<and> (\<forall>(k, v)\<in>set ps. wf_js v))"
| "wf_js _ = True"

text \<open>The value without the properties that are undefined.\<close>

fun defined_value :: "js_value \<Rightarrow> js_value" where
  "defined_value (VArray vs) = VArray (map defined_value vs)"
| "defined_value (VObject b ps) =
     VObject b (concat (map (\<lambda>(k, v). if v = VUndefined then [] else [(k, defined_value v)]) ps))"
| "defined_value v = v"

lemma js_value_induct [case_names VNull VUndefined VBool VNumber VString VBytes VArray VObject VOther]:
  assumes "P VNull" "P VUndefined" "\<And>b. P (VBool b)" "\<And>n. P (VNumber n)" "\<And>s. P (VString s)" "\<And>bs. P (VBytes bs)"
    and arr: "\<And>vs. (\<And>v. v \<in> set vs \<Longrightarrow> P v) \<Longrightarrow> P (VArray vs)"
    and obj: "\<And>b ps. (\<And>k v. (k, v) \<in> set ps \<Longrightarrow> P v) \<Longrightarrow> P (VObject b ps)"
    and oth: "\<And>t. P (VOther t)"
  shows "P v"
proof (rule js_value.induct)
  fix b and ps :: properties
  assume "\<And>e v. e \<in> set ps \<Longrightarrow> v \<in> Basic_BNFs.snds e \<Longrightarrow> P v"
  then have "P v" if "(k, v) \<in> set ps" for k v
    using that Basic_BNFs.snds.intros [of "(k, v)"] by auto
  then show "P (VObject b ps)" by (rule obj)
qed (use assms in auto)

lemma define_last: "keys_ordered (map fst ps @ [k]) \<Longrightarrow> define_property k v ps = ps @ [(k, v)]"
proof -
  assume "keys_ordered (map fst ps @ [k])"
  then have "takeWhile (\<lambda>p. key_before (fst p) k) ps = ps" "dropWhile (\<lambda>p. key_before (fst p) k) ps = []"
    by (auto simp: keys_ordered_def sorted_wrt_append takeWhile_eq_all_conv dropWhile_eq_Nil_conv)
  then show ?thesis by (simp add: define_property_def)
qed

lemma keys_ordered_defined: "keys_ordered (map fst ps) \<Longrightarrow> keys_ordered (map fst (defined_entries ps))"
proof (induction ps)
  case (Cons p ps)
  have "set (map fst (defined_entries ps)) \<subseteq> set (map fst ps)" by (auto simp: defined_entries_def)
  with Cons show ?case by (auto simp: keys_ordered_def defined_entries_def)
qed (simp add: defined_entries_def)

section \<open>Reading what was written\<close>

definition readMajor :: "cbor_options \<Rightarrow> nat \<Rightarrow> nat \<Rightarrow> nat \<Rightarrow> (reader, js_value) act" where
  "readMajor opts depth majorType ai =
     (if majorType = 0 then bindA (readArgument ai) (\<lambda>n. retA (VNumber (JsInt (int n))))
      else if majorType = 1 then bindA (readArgument ai) (\<lambda>n.
        if \<not> is_safe_integer (-1 - int n) then throwA ''Decoded CBOR integer is outside the safe range''
        else retA (VNumber (JsInt (-1 - int n))))
      else if majorType = 2 then
        bindA (readLength ai ''byte string'' (maxByteLength opts)) (\<lambda>n.
        bindA (readBytes n) (\<lambda>bs. retA (VBytes bs)))
      else if majorType = 3 then
        bindA (readLength ai ''text string'' (maxByteLength opts)) (\<lambda>n.
        bindA (readBytes n) (\<lambda>bs. case text_decode bs of
          None \<Rightarrow> throwA ''CBOR text string contains invalid UTF-8''
        | Some s \<Rightarrow> retA (VString s)))
      else if majorType = 4 then
        bindA (readLength ai ''array'' (maxContainerLength opts)) (\<lambda>n.
        bindA (read_items (readItem opts (depth + 1)) n) (\<lambda>vs. retA (VArray vs)))
      else if majorType = 5 then
        bindA (readLength ai ''map'' (maxContainerLength opts)) (\<lambda>n.
        bindA (read_entries (readItem opts (depth + 1)) n [] []) (\<lambda>ps. retA (VObject False ps)))
      else if majorType = 6 then throwA ''CBOR tags are not supported''
      else if majorType = 7 then readSimple ai
      else throwA ''Malformed CBOR major type'')"

lemma readMajor_3: "readMajor opts depth 3 ai =
    bindA (readLength ai ''text string'' (maxByteLength opts)) (\<lambda>n.
    bindA (readBytes n) (\<lambda>bs. case text_decode bs of
      None \<Rightarrow> throwA ''CBOR text string contains invalid UTF-8'' | Some s \<Rightarrow> retA (VString s)))"
  by (simp add: readMajor_def)

lemma readMajor_2: "readMajor opts depth 2 ai =
    bindA (readLength ai ''byte string'' (maxByteLength opts)) (\<lambda>n.
    bindA (readBytes n) (\<lambda>bs. retA (VBytes bs)))"
  by (simp add: readMajor_def)

lemma readMajor_4: "readMajor opts depth 4 ai =
    bindA (readLength ai ''array'' (maxContainerLength opts)) (\<lambda>n.
    bindA (read_items (readItem opts (depth + 1)) n) (\<lambda>vs. retA (VArray vs)))"
  by (simp add: readMajor_def)

lemma readMajor_5: "readMajor opts depth 5 ai =
    bindA (readLength ai ''map'' (maxContainerLength opts)) (\<lambda>n.
    bindA (read_entries (readItem opts (depth + 1)) n [] []) (\<lambda>ps. retA (VObject False ps)))"
  by (simp add: readMajor_def)

lemma readMajor_7: "readMajor opts depth 7 ai = readSimple ai"
  by (simp add: readMajor_def)

lemma readItem_major:
  "readItem opts depth = (if depth > maxDepth opts then throwA ''CBOR nesting depth exceeds configured limit''
     else bindA readByte (\<lambda>i. readMajor opts depth (drop_bit 5 i) (i AND 0x1f)))"
  by (subst readItem.simps) (simp only: readMajor_def Let_def)

lemma reads_item:
  assumes "depth \<le> maxDepth opts" "t < 8" "ai < 32" "reads (readMajor opts depth t ai) bs v"
  shows "reads (readItem opts depth) (head_byte t ai # bs) v"
  using reads_bindA [OF reads_readByte [of "head_byte t ai"], of "\<lambda>i. readMajor opts depth (drop_bit 5 i) (i AND 0x1f)" bs v]
    assms by (simp add: readItem_major head_byte_bits)

lemma reads_argument_item:
  assumes "depth \<le> maxDepth opts" "t < 8" "safe_nat n"
    "\<And>ai bs. ai < 28 \<Longrightarrow> reads (readArgument ai) bs n \<Longrightarrow> reads (readMajor opts depth t ai) (bs @ cs) v"
  shows "reads (readItem opts depth) (arg_bytes t n @ cs) v"
proof -
  obtain ai bs where a: "arg_bytes t n = head_byte t ai # bs" "ai < 28" "reads (readArgument ai) bs n"
    using reads_readArgument [OF assms(3)] by blast
  from reads_item [OF assms(1,2), of ai "bs @ cs" v] a assms(4) [OF a(2,3)] show ?thesis by simp
qed

lemma reads_readLength: "ai < 28 \<Longrightarrow> reads (readArgument ai) bs n \<Longrightarrow> n \<le> limit \<Longrightarrow> reads (readLength ai kind limit) bs n"
  unfolding readLength_def by (auto intro!: reads_then)

definition opts_ok :: "cbor_options \<Rightarrow> bool" where
  "opts_ok opts \<longleftrightarrow> maxByteLength opts \<le> MAX_UINT32 \<and> maxContainerLength opts \<le> MAX_UINT32"

lemma opts_ok_safe:
  "opts_ok opts \<Longrightarrow> n \<le> maxByteLength opts \<Longrightarrow> safe_nat n"
  "opts_ok opts \<Longrightarrow> n \<le> maxContainerLength opts \<Longrightarrow> safe_nat n"
  by (simp_all add: opts_ok_def safe_nat_def)

lemma resolveOptions_ok: "resolveOptions options = Inr opts \<Longrightarrow> opts_ok opts"
  by (auto simp: resolveOptions_def resolveLimit_def opts_ok_def bindE_def Let_def split: sum.splits if_splits)

lemma reads_text:
  assumes "opts_ok opts" "depth \<le> maxDepth opts" "text_ok opts s"
  shows "reads (readItem opts depth) (text_bytes s) (VString s)"
proof -
  let ?bs = "text_encode s"
  have l: "length ?bs \<le> maxByteLength opts" "text_decode ?bs = Some s"
    using assms(3) by (simp_all add: text_ok_def well_formed_text_def)
  have body: "reads (bindA (readBytes (length ?bs)) (\<lambda>bs. case text_decode bs of
          None \<Rightarrow> throwA ''CBOR text string contains invalid UTF-8'' | Some s \<Rightarrow> retA (VString s))) ?bs (VString s)"
    by (rule reads_then [OF reads_readBytes]) (simp add: l(2))
  show ?thesis
    unfolding text_bytes_def
  proof (rule reads_argument_item [OF assms(2) _ opts_ok_safe(1) [OF assms(1) l(1)]])
    fix ai bs
    assume a: "ai < 28" "reads (readArgument ai) bs (length ?bs)"
    show "reads (readMajor opts depth 3 ai) (bs @ ?bs) (VString s)"
      unfolding readMajor_3 by (rule reads_bindA, rule reads_readLength [OF a l(1)], rule body)
  qed simp
qed

lemma reads_read_items:
  "\<forall>v\<in>set vs. reads item (enc v) (f v) \<Longrightarrow> reads (read_items item (length vs)) (concat (map enc vs)) (map f vs)"
proof (induction vs)
  case (Cons v vs)
  then have h: "reads item (enc v) (f v)" "reads (read_items item (length vs)) (concat (map enc vs)) (map f vs)"
    by simp_all
  have "reads (read_items item (length (v # vs))) (enc v @ concat (map enc vs)) (f v # map f vs)"
    unfolding list.size(4) add_0_right add_Suc_right read_items.simps
    by (rule reads_bindA [OF h(1)], rule reads_then [OF h(2)], rule refl)
  then show ?case by simp
qed (simp add: reads_retA)

lemma reads_read_entries:
  assumes "\<forall>(k, v)\<in>set es. reads item (text_bytes k) (VString k) \<and> reads item (enc v) (f v)"
    "keys_ordered (map fst acc @ map fst es)"
  shows "reads (read_entries item (length es) (map fst acc) acc)
     (concat (map (\<lambda>(k, v). text_bytes k @ enc v) es)) (acc @ map (\<lambda>(k, v). (k, f v)) es)"
  using assms
proof (induction es arbitrary: acc)
  case (Cons e es)
  obtain k v where e: "e = (k, v)" by fastforce
  have o: "keys_ordered (map fst acc @ [k])" "keys_ordered (map fst (acc @ [(k, f v)]) @ map fst es)"
    using Cons.prems(2) by (auto simp: e keys_ordered_def sorted_wrt_append)
  have k: "k \<notin> set (map fst acc)"
    using o(1) by (auto simp: keys_ordered_def sorted_wrt_append)
  have ih: "reads (read_entries item (length es) (map fst acc @ [k]) (acc @ [(k, f v)]))
      (concat (map (\<lambda>(k, v). text_bytes k @ enc v) es)) (acc @ (k, f v) # map (\<lambda>(k, v). (k, f v)) es)"
    using Cons.IH [of "acc @ [(k, f v)]"] Cons.prems(1) o(2) by simp
  have h: "reads item (enc v) (f v)" "reads item (text_bytes k) (VString k)"
    using Cons.prems(1) by (auto simp: e)
  have v: "reads (bindA item (\<lambda>v. read_entries item (length es) (map fst acc @ [k]) (define_property k v acc)))
      (enc v @ concat (map (\<lambda>(k, v). text_bytes k @ enc v) es)) (acc @ (k, f v) # map (\<lambda>(k, v). (k, f v)) es)"
    by (rule reads_bindA [OF h(1)]) (simp add: define_last [OF o(1)] ih)
  have "reads (read_entries item (Suc (length es)) (map fst acc) acc)
      (text_bytes k @ enc v @ concat (map (\<lambda>(k, v). text_bytes k @ enc v) es))
      (acc @ (k, f v) # map (\<lambda>(k, v). (k, f v)) es)"
    unfolding read_entries.simps by (rule reads_bindA [OF h(2)]) (use k v in simp)
  then show ?case by (simp add: e)
qed (simp add: reads_retA)

lemma head_constants:
  "head_byte 7 22 = 0xf6" "head_byte 7 21 = 0xf5" "head_byte 7 20 = 0xf4" "head_byte 7 27 = 0xfb"
  by (simp_all add: head_byte_def)

lemma reads_simple:
  assumes "depth \<le> maxDepth opts" "reads (readSimple ai) bs v" "ai < 32"
  shows "reads (readItem opts depth) (head_byte 7 ai # bs) v"
  by (rule reads_item) (use assms in \<open>simp_all add: readMajor_7\<close>)

lemma float64_value_bytes: "float64_value (float64_bytes b) = b"
proof -
  have "unat b < 2 ^ 64" using unsigned_less [of b] by simp
  then have "unat b div UINT32_BASE < UINT32_BASE" by (simp add: less_mult_imp_div_less)
  then show ?thesis
    by (simp add: float64_value_def float64_bytes_def be_value_be32 del: of_nat_add of_nat_mult)
qed

lemma reads_number:
  assumes "depth \<le> maxDepth opts" "is_finite x" "case x of JsInt i \<Rightarrow> is_safe_integer i | JsFloat b \<Rightarrow> True"
    "wf_js (VNumber x)"
  shows "reads (readItem opts depth) (cbor_bytes (VNumber x)) (VNumber x)"
proof (cases x)
  case (JsInt i)
  then have i: "is_safe_integer i" using assms(3) by simp
  show ?thesis
  proof (cases "i \<ge> 0")
    case True
    have "reads (readItem opts depth) (arg_bytes 0 (nat i) @ []) (VNumber (JsInt i))"
    proof (rule reads_argument_item [OF assms(1)])
      fix ai bs assume "reads (readArgument ai) bs (nat i)"
      then show "reads (readMajor opts depth 0 ai) (bs @ []) (VNumber (JsInt i))"
        using True by (auto simp: readMajor_def intro!: reads_then)
    qed (use i True in \<open>simp_all add: safe_nat_def is_safe_integer_def\<close>)
    with True JsInt show ?thesis by simp
  next
    case False
    have "reads (readItem opts depth) (arg_bytes 1 (nat (-1 - i)) @ []) (VNumber (JsInt i))"
    proof (rule reads_argument_item [OF assms(1)])
      fix ai bs assume "reads (readArgument ai) bs (nat (-1 - i))"
      then show "reads (readMajor opts depth 1 ai) (bs @ []) (VNumber (JsInt i))"
        using False i by (auto simp: readMajor_def intro!: reads_then)
    qed (use i False in \<open>simp_all add: safe_nat_def is_safe_integer_def\<close>)
    with False JsInt show ?thesis by simp
  qed
next
  case (JsFloat b)
  have "reads (readSimple 27) (float64_bytes b) (VNumber (JsFloat b))"
    unfolding readSimple_def using assms(2,4) JsFloat
    by (auto intro!: reads_then reads_bytes simp: float64_value_bytes)
  from reads_simple [OF assms(1) this] JsFloat show ?thesis by (simp add: head_constants)
qed

lemma reads_value:
  assumes "opts_ok opts"
  shows "encodable opts depth v \<Longrightarrow> wf_js v \<Longrightarrow> reads (readItem opts depth) (cbor_bytes v) (defined_value v)"
proof (induction v arbitrary: depth rule: js_value_induct)
  case VNull
  then show ?case
    using reads_simple [of depth opts 22 "[]" VNull] by (simp add: readSimple_def reads_retA head_constants)
next
  case (VBool b)
  then show ?case
    using reads_simple [of depth opts 21 "[]" "VBool True"] reads_simple [of depth opts 20 "[]" "VBool False"]
    by (simp add: readSimple_def reads_retA head_constants)
next
  case (VNumber x)
  then show ?case using reads_number [of depth opts x] by simp
next
  case (VString s)
  then show ?case using reads_text [OF assms, of depth s] by simp
next
  case (VBytes bs)
  then have d: "depth \<le> maxDepth opts" "length bs \<le> maxByteLength opts" by simp_all
  have "reads (readItem opts depth) (arg_bytes 2 (length bs) @ bs) (VBytes bs)"
  proof (rule reads_argument_item [OF d(1) _ opts_ok_safe(1) [OF assms d(2)]])
    fix ai cs assume a: "ai < 28" "reads (readArgument ai) cs (length bs)"
    show "reads (readMajor opts depth 2 ai) (cs @ bs) (VBytes bs)"
      unfolding readMajor_2
      by (rule reads_bindA, rule reads_readLength [OF a d(2)], rule reads_then [OF reads_readBytes refl])
  qed simp
  then show ?case by simp
next
  case (VArray vs)
  then have d: "depth \<le> maxDepth opts" "length vs \<le> maxContainerLength opts" by simp_all
  have "\<forall>v\<in>set vs. reads (readItem opts (depth + 1)) (cbor_bytes v) (defined_value v)"
    using VArray by simp
  then have items: "reads (read_items (readItem opts (depth + 1)) (length vs)) (concat (map cbor_bytes vs)) (map defined_value vs)"
    by (rule reads_read_items)
  have "reads (readItem opts depth) (arg_bytes 4 (length vs) @ concat (map cbor_bytes vs)) (VArray (map defined_value vs))"
  proof (rule reads_argument_item [OF d(1) _ opts_ok_safe(2) [OF assms d(2)]])
    fix ai cs assume a: "ai < 28" "reads (readArgument ai) cs (length vs)"
    show "reads (readMajor opts depth 4 ai) (cs @ concat (map cbor_bytes vs)) (VArray (map defined_value vs))"
      unfolding readMajor_4
      by (rule reads_bindA, rule reads_readLength [OF a d(2)], rule reads_then [OF items refl])
  qed simp
  then show ?case by simp
next
  case (VObject b ps)
  let ?es = "defined_entries ps"
  let ?bytes = "concat (map (\<lambda>(k, v). text_bytes k @ cbor_bytes v) ?es)"
  let ?out = "map (\<lambda>(k, v). (k, defined_value v)) ?es"
  have d: "depth \<le> maxDepth opts" "length ?es \<le> maxContainerLength opts" "\<not> b" using VObject.prems by simp_all
  have each: "\<forall>(k, v)\<in>set ?es. reads (readItem opts (depth + 1)) (text_bytes k) (VString k) \<and>
      reads (readItem opts (depth + 1)) (cbor_bytes v) (defined_value v)"
  proof (intro ballI case_prodI2)
    fix e k v assume e: "e \<in> set ?es" "e = (k, v)"
    then have p: "(k, v) \<in> set ps" "v \<noteq> VUndefined" by (auto simp: defined_entries_def)
    then have v: "text_ok opts k" "encodable opts (depth + 1) v" "wf_js v" using VObject.prems by auto
    then have "depth + 1 \<le> maxDepth opts" by (cases v) auto
    with v VObject.IH [OF p(1)] show "reads (readItem opts (depth + 1)) (text_bytes k) (VString k) \<and>
        reads (readItem opts (depth + 1)) (cbor_bytes v) (defined_value v)"
      using reads_text [OF assms] by blast
  qed
  have "keys_ordered (map fst ?es)" using VObject.prems(2) by (simp add: keys_ordered_defined)
  then have es: "reads (read_entries (readItem opts (depth + 1)) (length ?es) [] []) ?bytes ?out"
    using reads_read_entries [OF each, of "[]"] by simp
  have "reads (readItem opts depth) (arg_bytes 5 (length ?es) @ ?bytes) (VObject False ?out)"
  proof (rule reads_argument_item [OF d(1) _ opts_ok_safe(2) [OF assms d(2)]])
    fix ai cs assume a: "ai < 28" "reads (readArgument ai) cs (length ?es)"
    show "reads (readMajor opts depth 5 ai) (cs @ ?bytes) (VObject False ?out)"
      unfolding readMajor_5
      by (rule reads_bindA, rule reads_readLength [OF a d(2)], rule reads_then [OF es refl])
  qed simp
  moreover have "?bytes = concat (map (\<lambda>(k, v). if v = VUndefined then [] else text_bytes k @ cbor_bytes v) ps)"
    by (induction ps) (auto simp: defined_entries_def)
  moreover have "?out = concat (map (\<lambda>(k, v). if v = VUndefined then [] else [(k, defined_value v)]) ps)"
    by (induction ps) (auto simp: defined_entries_def)
  ultimately show ?case using d(3) by simp
qed simp_all

lemma decode_encoded:
  assumes "resolveOptions options = Inr opts" "encodable opts 0 v" "wf_js v"
    "length (cbor_bytes v) \<le> maxByteLength opts"
  shows "decodeCbor options (cbor_bytes v) = Inr (defined_value v)"
proof -
  let ?r = "\<lparr>rd_bytes = cbor_bytes v, rd_offset = 0\<rparr>"
  have "reads (readItem opts 0) (cbor_bytes v) (defined_value v)"
    by (rule reads_value [OF resolveOptions_ok [OF assms(1)] assms(2,3)])
  moreover have "rest ?r = cbor_bytes v @ []" by (simp add: rest_def)
  ultimately have "readItem opts 0 ?r = (Inr (defined_value v), advance (length (cbor_bytes v)) ?r)"
    unfolding reads_def by blast
  with assms(1,4) show ?thesis by (simp add: decodeCbor_def advance_def)
qed

end
