(* ===== verification/CborSound.thy ===== *)
theory CborSound imports CborLaws begin

text \<open>
  What the decoder accepts. Whatever the bytes, a value it returns is one the encoder accepts under
  the same limits, in no more bytes than were read; duplicate keys, unsafe integers, overlong or
  broken text and values nested too deeply never come out of it.
\<close>

section \<open>Consuming bytes\<close>

text \<open>When the action returns \<open>a\<close> it has consumed \<open>n\<close> bytes with \<open>P a n\<close>.\<close>

definition consumes :: "(reader, 'a) act \<Rightarrow> ('a \<Rightarrow> nat \<Rightarrow> bool) \<Rightarrow> bool" where
  "consumes m P \<longleftrightarrow> (\<forall>r a r'. m r = (Inr a, r') \<longrightarrow>
     (\<exists>n. r' = advance n r \<and> P a n \<and> (rd_offset r \<le> length (rd_bytes r) \<longrightarrow> rd_offset r' \<le> length (rd_bytes r))))"

lemma consumes_mono: "consumes m P \<Longrightarrow> (\<And>a n. P a n \<Longrightarrow> Q a n) \<Longrightarrow> consumes m Q"
  unfolding consumes_def by blast

lemma consumes_retA: "P a 0 \<Longrightarrow> consumes (retA a) P"
  by (auto simp: consumes_def act_simps advance_def intro!: exI [of _ 0])

lemma consumes_throwA: "consumes (throwA e) P"
  by (simp add: consumes_def act_simps)

lemma advance_simps [simp]: "rd_bytes (advance n r) = rd_bytes r" "rd_offset (advance n r) = rd_offset r + n"
  by (simp_all add: advance_def)

lemma consumes_bindA:
  assumes "consumes m P" "\<And>a n. P a n \<Longrightarrow> consumes (f a) (\<lambda>b k. Q b (n + k))"
  shows "consumes (bindA m f) Q"
  unfolding consumes_def
proof (intro allI impI)
  fix r b r'
  assume "bindA m f r = (Inr b, r')"
  then obtain a r1 where 1: "m r = (Inr a, r1)" "f a r1 = (Inr b, r')" by (auto simp: bindA_Inr)
  from assms(1) 1(1) obtain n where n: "r1 = advance n r" "P a n"
      "rd_offset r \<le> length (rd_bytes r) \<longrightarrow> rd_offset r1 \<le> length (rd_bytes r)"
    unfolding consumes_def by blast
  from assms(2) [OF n(2)] 1(2) obtain k where "r' = advance k r1" "Q b (n + k)"
      "rd_offset r1 \<le> length (rd_bytes r1) \<longrightarrow> rd_offset r' \<le> length (rd_bytes r1)"
    unfolding consumes_def by blast
  with n show "\<exists>n. r' = advance n r \<and> Q b n \<and>
      (rd_offset r \<le> length (rd_bytes r) \<longrightarrow> rd_offset r' \<le> length (rd_bytes r))"
    by (intro exI [of _ "n + k"]) (auto simp: advance_advance)
qed

lemma consumes_readByte: "consumes readByte (\<lambda>b n. n = 1 \<and> b < 256)"
proof -
  have "consumes readByte (\<lambda>b n. n = 1 \<and> (\<exists>x :: byte. b = unat x))"
    by (auto simp: consumes_def readByte_def advance_def split: if_splits)
  then show ?thesis by (rule consumes_mono) (use unat_byte_less in auto)
qed

lemma consumes_readBytes: "consumes (readBytes k) (\<lambda>bs n. n = k \<and> length bs = k)"
  by (auto simp: consumes_def readBytes_def advance_def split: if_splits)

lemma consumes_readUint32: "consumes readUint32 (\<lambda>v n. n = 4 \<and> v < UINT32_BASE)"
  unfolding readUint32_def
proof (rule consumes_bindA [OF consumes_readBytes], elim conjE)
  fix bs :: bytes and n :: nat assume b: "n = 4" "length bs = 4"
  have "be_value bs < 256 ^ length bs" by (rule be_value_less)
  with b be_32_nth [OF b(2)] show "consumes (retA (unat (bs ! 0) * 0x1000000 + unat (bs ! 1) * 0x10000 +
      unat (bs ! 2) * 0x100 + unat (bs ! 3))) (\<lambda>v k. n + k = 4 \<and> v < UINT32_BASE)"
    by (intro consumes_retA) simp
qed

lemma consumes_readArgument:
  assumes "ai < 32"
  shows "consumes (readArgument ai) (\<lambda>v n. length (arg_bytes t v) \<le> Suc n \<and> safe_nat v)"
proof -
  consider "ai < 24" | "ai = 24" | "ai = 25" | "ai = 26" | "ai = 27" | "27 < ai" by linarith
  then show ?thesis
  proof cases
    case 1
    then show ?thesis by (simp add: readArgument_def consumes_retA arg_bytes_def safe_nat_def)
  next
    case 2
    have "consumes readByte (\<lambda>v n. length (arg_bytes t v) \<le> Suc n \<and> safe_nat v)"
      by (rule consumes_mono [OF consumes_readByte]) (simp add: arg_bytes_def safe_nat_def)
    with 2 show ?thesis by (simp add: readArgument_def)
  next
    case 3
    have "consumes (bindA (readBytes 2) (\<lambda>bs. retA (unat (bs ! 0) * 0x100 + unat (bs ! 1))))
        (\<lambda>v n. length (arg_bytes t v) \<le> Suc n \<and> safe_nat v)"
    proof (rule consumes_bindA [OF consumes_readBytes], elim conjE, rule consumes_retA)
      fix bs :: bytes and n :: nat assume b: "n = 2" "length bs = 2"
      have "unat (bs ! 0) * 256 + unat (bs ! 1) < 65536"
        using unat_byte_less [of "bs ! 0"] unat_byte_less [of "bs ! 1"] by linarith
      with b show "length (arg_bytes t (unat (bs ! 0) * 0x100 + unat (bs ! 1))) \<le> Suc (n + 0) \<and>
          safe_nat (unat (bs ! 0) * 0x100 + unat (bs ! 1))"
        by (simp add: arg_bytes_def safe_nat_def)
    qed
    with 3 show ?thesis by (simp add: readArgument_def)
  next
    case 4
    have "consumes readUint32 (\<lambda>v n. length (arg_bytes t v) \<le> Suc n \<and> safe_nat v)"
      by (rule consumes_mono [OF consumes_readUint32]) (simp add: arg_bytes_def safe_nat_def)
    with 4 show ?thesis by (simp add: readArgument_def)
  next
    case 5
    have "consumes (bindA readUint32 (\<lambda>high. bindA readUint32 (\<lambda>low.
          if high > 0x1fffff then throwA ''Decoded CBOR integer or length is outside the safe range''
          else retA (high * UINT32_BASE + low))))
        (\<lambda>v n. length (arg_bytes t v) \<le> Suc n \<and> safe_nat v)"
      apply (rule consumes_bindA [OF consumes_readUint32], elim conjE)
      apply (rule consumes_bindA [OF consumes_readUint32], elim conjE)
      apply (auto intro!: consumes_throwA consumes_retA simp: arg_bytes_def be64_def safe_nat_def)
      done
    with 5 show ?thesis by (simp add: readArgument_def)
  next
    case 6
    then show ?thesis by (simp add: readArgument_def consumes_throwA)
  qed
qed

lemma consumes_readLength:
  assumes "ai < 32"
  shows "consumes (readLength ai kind limit) (\<lambda>v n. length (arg_bytes t v) \<le> Suc n \<and> v \<le> limit)"
  unfolding readLength_def
  by (auto intro!: consumes_throwA consumes_retA consumes_bindA [OF consumes_readArgument [OF assms, of t]])

section \<open>Property names\<close>

definition digits_value :: "nat list \<Rightarrow> nat" where
  "digits_value us = foldl (\<lambda>n u. n * 10 + (u - 48)) 0 us"

lemma digits_value_snoc [simp]: "digits_value [] = 0" "digits_value [u] = u - 48"
    "digits_value (us @ [u]) = digits_value us * 10 + (u - 48)"
  by (simp_all add: digits_value_def)

definition index_digits :: "nat list \<Rightarrow> bool" where
  "index_digits us \<longleftrightarrow> us \<noteq> [] \<and> (\<forall>u\<in>set us. 48 \<le> u \<and> u \<le> 57) \<and> (hd us = 48 \<longrightarrow> length us = 1)"

lemma digits_positive: "\<forall>u\<in>set us. 48 \<le> u \<and> u \<le> 57 \<Longrightarrow> us \<noteq> [] \<Longrightarrow> hd us \<noteq> 48 \<Longrightarrow> 0 < digits_value us"
proof (induction us rule: rev_induct)
  case (snoc u us)
  then show ?case by (cases "us = []") auto
qed simp

lemma ten_digits: "(a :: nat) < 10 \<Longrightarrow> b < 10 \<Longrightarrow> x * 10 + a = y * 10 + b \<Longrightarrow> a = b \<and> x = y"
  by presburger

lemma digits_value_inj:
  "index_digits us \<Longrightarrow> index_digits vs \<Longrightarrow> digits_value us = digits_value vs \<Longrightarrow> us = vs"
proof (induction us arbitrary: vs rule: rev_induct)
  case (snoc u us)
  obtain ws v where vs: "vs = ws @ [v]" using snoc.prems(2) by (cases vs rule: rev_cases) (auto simp: index_digits_def)
  have d: "u - 48 < 10" "v - 48 < 10" "48 \<le> u" "48 \<le> v"
    using snoc.prems(1,2) by (auto simp: index_digits_def vs)
  have e: "digits_value us * 10 + (u - 48) = digits_value ws * 10 + (v - 48)"
    using snoc.prems(3) by (simp add: vs)
  have uv: "u - 48 = v - 48" "digits_value us = digits_value ws"
    using ten_digits [OF d(1,2) e] by blast+
  have pos: "0 < digits_value xs" "index_digits xs" if "index_digits (xs @ [x])" "xs \<noteq> []" for xs x
    using that digits_positive [of xs] by (auto simp: index_digits_def)
  have "us = ws"
  proof (cases "us = [] \<or> ws = []")
    case True
    with uv(2) pos(1) [of us u] pos(1) [of ws v] snoc.prems(1,2) vs show ?thesis by fastforce
  next
    case False
    with snoc.IH [of ws] pos(2) [of us u] pos(2) [of ws v] snoc.prems(1,2) vs uv(2) show ?thesis by simp
  qed
  with uv(1) d(3,4) show ?case by (simp add: vs)
qed (simp add: index_digits_def)

lemma array_index_inj: "array_index a = Some i \<Longrightarrow> array_index b = Some i \<Longrightarrow> a = b"
proof -
  assume "array_index a = Some i" "array_index b = Some i"
  then have "index_digits (map unat a)" "index_digits (map unat b)"
    "digits_value (map unat a) = digits_value (map unat b)"
    by (auto simp: array_index_def index_digits_def digits_value_def Let_def split: if_splits)
  then have "map unat a = map unat b" by (rule digits_value_inj)
  moreover have "inj (unat :: code_unit \<Rightarrow> nat)" by (simp add: inj_def word_unat_eq_iff)
  ultimately show ?thesis by (simp add: inj_map_eq_map)
qed

lemma key_before_total: "a \<noteq> b \<Longrightarrow> \<not> key_before a b \<Longrightarrow> key_before b a"
  using array_index_inj [of a _ b] by (auto simp: key_before_def split: option.splits) (metis linorder_neqE_nat)

lemma key_before_trans: "key_before a b \<Longrightarrow> key_before b c \<Longrightarrow> key_before a c"
  by (auto simp: key_before_def split: option.splits)

text \<open>Defining a new property keeps the order and adds just it.\<close>

lemma define_property_keys:
  assumes "keys_ordered (map fst ps)" "k \<notin> set (map fst ps)"
  shows "keys_ordered (map fst (define_property k v ps))"
    "set (define_property k v ps) = insert (k, v) (set ps)"
    "length (define_property k v ps) = Suc (length ps)"
    "sum_list (map f (define_property k v ps)) = (f (k, v) + sum_list (map f ps) :: nat)"
proof -
  let ?q = "\<lambda>p. key_before (fst p) k"
  define xs where "xs = takeWhile ?q ps"
  define ys where "ys = dropWhile ?q ps"
  have ps: "ps = xs @ ys" by (simp add: xs_def ys_def)
  have def: "define_property k v ps = xs @ (k, v) # ys" by (simp add: define_property_def xs_def ys_def)
  have o: "keys_ordered (map fst xs)" "keys_ordered (map fst ys)"
      "\<forall>x\<in>set xs. \<forall>y\<in>set ys. key_before (fst x) (fst y) \<and> fst x \<noteq> fst y"
    using assms(1) by (auto simp: ps keys_ordered_def sorted_wrt_append)
  have nk: "\<forall>x\<in>set xs. fst x \<noteq> k" "\<forall>x\<in>set ys. fst x \<noteq> k" using assms(2) by (auto simp: ps)
  have a: "\<forall>x\<in>set xs. key_before (fst x) k" by (auto simp: xs_def dest: set_takeWhileD)
  have b: "\<forall>y\<in>set ys. key_before k (fst y)"
  proof (cases ys)
    case (Cons z zs)
    then have "\<not> ?q z" unfolding ys_def by (metis dropWhile_eq_Cons_conv)
    then have kz: "key_before k (fst z)" using nk(2) Cons key_before_total by auto
    moreover have "\<forall>y\<in>set zs. key_before (fst z) (fst y)" using o(2) Cons by (auto simp: keys_ordered_def)
    ultimately show ?thesis using Cons key_before_trans by fastforce
  qed simp
  show "keys_ordered (map fst (define_property k v ps))"
    using o a b nk by (auto simp: def keys_ordered_def sorted_wrt_append)
  show "set (define_property k v ps) = insert (k, v) (set ps)"
    "length (define_property k v ps) = Suc (length ps)"
    "sum_list (map f (define_property k v ps)) = f (k, v) + sum_list (map f ps)"
    unfolding def by (auto simp: ps)
qed

section \<open>What comes out of the decoder\<close>

definition sound :: "cbor_options \<Rightarrow> nat \<Rightarrow> js_value \<Rightarrow> bool" where
  "sound opts depth v \<longleftrightarrow> encodable opts depth v \<and> wf_js v \<and> defined_value v = v"

definition sound_entries :: "cbor_options \<Rightarrow> nat \<Rightarrow> properties \<Rightarrow> bool" where
  "sound_entries opts depth ps \<longleftrightarrow> keys_ordered (map fst ps) \<and>
     (\<forall>(k, v)\<in>set ps. text_ok opts k \<and> sound opts depth v)"

definition entry_size :: "text_string \<times> js_value \<Rightarrow> nat" where
  "entry_size p = length (text_bytes (fst p)) + length (cbor_bytes (snd p))"

lemma consumes_read_items:
  assumes "consumes item (\<lambda>v n. sound opts depth v \<and> length (cbor_bytes v) \<le> n)"
  shows "consumes (read_items item k) (\<lambda>vs n. length vs = k \<and> (\<forall>v\<in>set vs. sound opts depth v) \<and>
     length (concat (map cbor_bytes vs)) \<le> n)"
proof (induction k)
  case 0
  show ?case by (simp add: consumes_retA)
next
  case (Suc k)
  show ?case
    unfolding read_items.simps
    apply (rule consumes_bindA [OF assms], elim conjE)
    apply (rule consumes_bindA [OF Suc], elim conjE)
    apply (rule consumes_retA, auto)
    done
qed

lemma consumes_read_entries:
  assumes "consumes item (\<lambda>v n. sound opts depth v \<and> length (cbor_bytes v) \<le> n)"
  shows "sound_entries opts depth ps \<Longrightarrow> set keys = set (map fst ps) \<Longrightarrow>
    consumes (read_entries item k keys ps) (\<lambda>qs n. sound_entries opts depth qs \<and> length qs = length ps + k \<and>
      sum_list (map entry_size qs) \<le> sum_list (map entry_size ps) + n)"
proof (induction k arbitrary: keys ps)
  case 0
  then show ?case by (simp add: consumes_retA)
next
  case (Suc k)
  let ?Q = "\<lambda>j qs m. sound_entries opts depth qs \<and> length qs = length ps + Suc k \<and>
    sum_list (map entry_size qs) \<le> sum_list (map entry_size ps) + (j + m)"
  show ?case
    unfolding read_entries.simps
  proof (rule consumes_bindA [OF assms], elim conjE)
    fix kv n
    assume kv: "sound opts depth kv" "length (cbor_bytes kv) \<le> n"
    show "consumes (case kv of VString key \<Rightarrow>
         if key \<in> set keys then throwA ''CBOR map contains a duplicate key''
         else bindA item (\<lambda>v. read_entries item k (keys @ [key]) (define_property key v ps))
       | _ \<Rightarrow> throwA ''CBOR map keys must be strings'') (?Q n)"
    proof (cases "\<exists>key. kv = VString key \<and> key \<notin> set keys")
      case False
      then show ?thesis by (cases kv) (auto simp: consumes_throwA)
    next
      case True
      then obtain key where key: "kv = VString key" "key \<notin> set (map fst ps)" using Suc.prems(2) by auto
      have o: "keys_ordered (map fst ps)" using Suc.prems(1) by (simp add: sound_entries_def)
      have t: "text_ok opts key" "length (text_bytes key) \<le> n" using kv key(1) by (simp_all add: sound_def)
      have "consumes (bindA item (\<lambda>v. read_entries item k (keys @ [key]) (define_property key v ps))) (?Q n)"
      proof (rule consumes_bindA [OF assms], elim conjE)
        fix v m
        assume v: "sound opts depth v" "length (cbor_bytes v) \<le> m"
        note d = define_property_keys [OF o key(2), where v = v]
        have "sound_entries opts depth (define_property key v ps)"
          using Suc.prems(1) t(1) v(1) d(1,2) by (auto simp: sound_entries_def)
        moreover have "set (keys @ [key]) = set (map fst (define_property key v ps))"
          using Suc.prems(2) d(2) by auto
        ultimately have "consumes (read_entries item k (keys @ [key]) (define_property key v ps))
          (\<lambda>qs n. sound_entries opts depth qs \<and> length qs = length (define_property key v ps) + k \<and>
            sum_list (map entry_size qs) \<le> sum_list (map entry_size (define_property key v ps)) + n)"
          by (rule Suc.IH)
        moreover have "entry_size (key, v) \<le> n + m" using t(2) v(2) by (simp add: entry_size_def)
        ultimately show "consumes (read_entries item k (keys @ [key]) (define_property key v ps))
          (\<lambda>qs j. ?Q n qs (m + j))"
          using d(3) d(4) [of entry_size] by (elim consumes_mono) auto
      qed
      with key Suc.prems(2) show ?thesis by simp
    qed
  qed
qed

lemma sound_object:
  assumes "sound_entries opts (depth + 1) ps" "length ps \<le> maxContainerLength opts" "depth \<le> maxDepth opts"
  shows "sound opts depth (VObject False ps)"
    "length (cbor_bytes (VObject False ps)) = length (arg_bytes 5 (length ps)) + sum_list (map entry_size ps)"
proof -
  have nu: "v \<noteq> VUndefined \<and> text_ok opts k \<and> sound opts (depth + 1) v" if "(k, v) \<in> set ps" for k v
    using assms(1) that by (force simp: sound_entries_def sound_def)
  then have es: "defined_entries ps = ps" by (auto simp: defined_entries_def filter_id_conv)
  have "concat (map (\<lambda>(k, v). if v = VUndefined then [] else [(k, defined_value v)]) qs) = qs"
    if "set qs \<subseteq> set ps" for qs
    using that nu by (induction qs) (auto simp: sound_def)
  from this [of ps] show "sound opts depth (VObject False ps)"
    using assms nu es by (auto simp: sound_def sound_entries_def)
  have "concat (map (\<lambda>(k, v). if v = VUndefined then [] else text_bytes k @ cbor_bytes v) qs) =
      concat (map (\<lambda>p. text_bytes (fst p) @ cbor_bytes (snd p)) qs)" if "set qs \<subseteq> set ps" for qs
    using that nu by (induction qs) auto
  from this [of ps] show "length (cbor_bytes (VObject False ps)) =
      length (arg_bytes 5 (length ps)) + sum_list (map entry_size ps)"
    by (simp add: es length_concat comp_def entry_size_def [abs_def])
qed

lemma number_of_bits_cases: "(\<exists>i. number_of_bits b = JsInt i) \<or> number_of_bits b = JsFloat b"
  by (simp add: number_of_bits_def Let_def)

lemma arg_bytes_length: "length (arg_bytes t n) \<le> 9"
  by (simp add: arg_bytes_def be64_def)

lemma consumes_readSimple:
  assumes "depth \<le> maxDepth opts"
  shows "consumes (readSimple ai) (\<lambda>v n. sound opts depth v \<and> length (cbor_bytes v) \<le> Suc n)"
proof -
  have "consumes (bindA (readBytes 8) (\<lambda>bs. let x = number_of_bits (float64_value bs) in
      if \<not> is_finite x then throwA ''Decoded CBOR number must be finite''
      else if (case x of JsInt i \<Rightarrow> \<not> is_safe_integer i | JsFloat b \<Rightarrow> False)
        then throwA ''Decoded CBOR integer is outside the safe range''
      else retA (VNumber x))) (\<lambda>v n. sound opts depth v \<and> length (cbor_bytes v) \<le> Suc n)"
  proof (rule consumes_bindA [OF consumes_readBytes], elim conjE)
    fix bs :: bytes and n :: nat assume n: "n = 8"
    let ?x = "number_of_bits (float64_value bs)"
    show "consumes (let x = ?x in
      if \<not> is_finite x then throwA ''Decoded CBOR number must be finite''
      else if (case x of JsInt i \<Rightarrow> \<not> is_safe_integer i | JsFloat b \<Rightarrow> False)
        then throwA ''Decoded CBOR integer is outside the safe range''
      else retA (VNumber x)) (\<lambda>v k. sound opts depth v \<and> length (cbor_bytes v) \<le> Suc (n + k))"
      using number_of_bits_cases [of "float64_value bs"] assms n arg_bytes_length
      by (auto simp: Let_def sound_def le_Suc_eq intro!: consumes_throwA consumes_retA)
  qed
  with assms show ?thesis
    by (auto simp: readSimple_def sound_def intro!: consumes_throwA consumes_retA)
qed

lemma consumes_argument_value:
  assumes "ai < 32" "\<And>n k. safe_nat n \<Longrightarrow> length (arg_bytes t n) \<le> Suc k \<Longrightarrow> consumes (f n) (\<lambda>v m. Q v (k + m))"
  shows "consumes (bindA (readArgument ai) f) Q"
  by (rule consumes_bindA [OF consumes_readArgument [OF assms(1), of t]]) (use assms(2) in blast)

lemma consumes_length_value:
  assumes "ai < 32" "\<And>n k. n \<le> limit \<Longrightarrow> length (arg_bytes t n) \<le> Suc k \<Longrightarrow> consumes (f n) (\<lambda>v m. Q v (k + m))"
  shows "consumes (bindA (readLength ai kind limit) f) Q"
  by (rule consumes_bindA [OF consumes_readLength [OF assms(1), of kind limit t]]) (use assms(2) in blast)

lemma consumes_readMajor:
  assumes "depth \<le> maxDepth opts" "ai < 32"
    "consumes (readItem opts (depth + 1)) (\<lambda>v n. sound opts (depth + 1) v \<and> length (cbor_bytes v) \<le> n)"
  shows "consumes (readMajor opts depth t ai) (\<lambda>v n. sound opts depth v \<and> length (cbor_bytes v) \<le> Suc n)"
proof -
  let ?Q = "\<lambda>v n. sound opts depth v \<and> length (cbor_bytes v) \<le> Suc n"
  consider "t = 0" | "t = 1" | "t = 2" | "t = 3" | "t = 4" | "t = 5" | "t = 7"
    | "t \<noteq> 0" "t \<noteq> 1" "t \<noteq> 2" "t \<noteq> 3" "t \<noteq> 4" "t \<noteq> 5" "t \<noteq> 7" by blast
  then show ?thesis
  proof cases
    case 1
    have "consumes (bindA (readArgument ai) (\<lambda>n. retA (VNumber (JsInt (int n))))) ?Q"
      by (rule consumes_argument_value [OF assms(2), of 0])
        (use assms(1) in \<open>auto intro!: consumes_retA simp: sound_def is_finite_def is_safe_integer_def safe_nat_def\<close>)
    with 1 show ?thesis by (simp add: readMajor_def)
  next
    case 2
    have "consumes (bindA (readArgument ai) (\<lambda>n.
        if \<not> is_safe_integer (-1 - int n) then throwA ''Decoded CBOR integer is outside the safe range''
        else retA (VNumber (JsInt (-1 - int n))))) ?Q"
      by (rule consumes_argument_value [OF assms(2), of 1])
        (use assms(1) in \<open>auto intro!: consumes_retA consumes_throwA simp: sound_def is_finite_def\<close>)
    with 2 show ?thesis by (simp add: readMajor_def)
  next
    case 3
    have "consumes (bindA (readLength ai ''byte string'' (maxByteLength opts)) (\<lambda>n.
        bindA (readBytes n) (\<lambda>bs. retA (VBytes bs)))) ?Q"
      by (rule consumes_length_value [OF assms(2), of _ 2], rule consumes_bindA [OF consumes_readBytes])
        (use assms(1) in \<open>auto intro!: consumes_retA simp: sound_def\<close>)
    with 3 show ?thesis by (simp add: readMajor_2)
  next
    case 4
    have str: "consumes (case text_decode bs of None \<Rightarrow> throwA ''CBOR text string contains invalid UTF-8''
         | Some s \<Rightarrow> retA (VString s)) (\<lambda>v m. ?Q v (k + (length bs + m)))"
      if "length bs \<le> maxByteLength opts" "length (arg_bytes 3 (length bs)) \<le> Suc k" for bs k
    proof (cases "text_decode bs")
      case (Some s)
      with that assms(1) text_decode_sound [OF Some] show ?thesis
        by (auto intro!: consumes_retA simp: sound_def text_ok_def text_bytes_def)
    qed (simp add: consumes_throwA)
    have "consumes (bindA (readLength ai ''text string'' (maxByteLength opts)) (\<lambda>n.
        bindA (readBytes n) (\<lambda>bs. case text_decode bs of
          None \<Rightarrow> throwA ''CBOR text string contains invalid UTF-8''
        | Some s \<Rightarrow> retA (VString s)))) ?Q"
      by (rule consumes_length_value [OF assms(2), of _ 3], rule consumes_bindA [OF consumes_readBytes])
        (use str in blast)
    with 4 show ?thesis by (simp add: readMajor_3)
  next
    case 5
    have "consumes (bindA (readLength ai ''array'' (maxContainerLength opts)) (\<lambda>n.
        bindA (read_items (readItem opts (depth + 1)) n) (\<lambda>vs. retA (VArray vs)))) ?Q"
      by (rule consumes_length_value [OF assms(2), of _ 4], rule consumes_bindA [OF consumes_read_items [OF assms(3)]])
        (use assms(1) in \<open>auto intro!: consumes_retA map_idI simp: sound_def\<close>)
    with 5 show ?thesis by (simp add: readMajor_4)
  next
    case 6
    have start: "sound_entries opts (depth + 1) []" by (simp add: sound_entries_def keys_ordered_def)
    have "consumes (bindA (readLength ai ''map'' (maxContainerLength opts)) (\<lambda>n.
        bindA (read_entries (readItem opts (depth + 1)) n [] []) (\<lambda>ps. retA (VObject False ps)))) ?Q"
    proof (rule consumes_length_value [OF assms(2), of _ 5])
      fix n k assume n: "n \<le> maxContainerLength opts" "length (arg_bytes 5 n) \<le> Suc k"
      show "consumes (bindA (read_entries (readItem opts (depth + 1)) n [] []) (\<lambda>ps. retA (VObject False ps)))
          (\<lambda>v m. ?Q v (k + m))"
      proof (rule consumes_bindA [OF consumes_read_entries [OF assms(3) start]], simp, elim conjE, rule consumes_retA)
        fix ps m
        assume ps: "sound_entries opts (depth + 1) ps" "length ps = length [] + n"
          "sum_list (map entry_size ps) \<le> sum_list (map entry_size []) + m"
        then have "length ps \<le> maxContainerLength opts" using n(1) by simp
        from sound_object [OF ps(1) this assms(1)] ps(2,3) n(2)
        show "?Q (VObject False ps) (k + (m + 0))" by (simp del: cbor_bytes.simps)
      qed
    qed
    with 6 show ?thesis by (simp add: readMajor_5)
  next
    case 7
    with consumes_readSimple [OF assms(1)] show ?thesis by (simp add: readMajor_7)
  next
    case 8
    then show ?thesis by (simp add: readMajor_def consumes_throwA)
  qed
qed

lemma consumes_readItem: "consumes (readItem opts depth) (\<lambda>v n. sound opts depth v \<and> length (cbor_bytes v) \<le> n)"
proof (induction "Suc (maxDepth opts) - depth" arbitrary: depth rule: less_induct)
  case less
  show ?case
  proof (cases "depth > maxDepth opts")
    case True
    then show ?thesis by (simp add: readItem_major consumes_throwA)
  next
    case False
    then have "Suc (maxDepth opts) - (depth + 1) < Suc (maxDepth opts) - depth" by simp
    note ih = less.hyps [OF this]
    have ai: "i AND 0x1f < (32 :: nat)" for i :: nat
    proof -
      have "i AND 0x1f = i mod 32" using take_bit_eq_mask [of 5 i] by (simp add: take_bit_eq_mod mask_eq_exp_minus_1)
      then show ?thesis by simp
    qed
    have "consumes (bindA readByte (\<lambda>i. readMajor opts depth (drop_bit 5 i) (i AND 0x1f)))
        (\<lambda>v n. sound opts depth v \<and> length (cbor_bytes v) \<le> n)"
    proof (rule consumes_bindA [OF consumes_readByte], elim conjE)
      fix i n :: nat assume "n = 1"
      with consumes_readMajor [OF _ ai ih, of "drop_bit 5 i" i] False
      show "consumes (readMajor opts depth (drop_bit 5 i) (i AND 0x1f))
          (\<lambda>v k. sound opts depth v \<and> length (cbor_bytes v) \<le> n + k)" by simp
    qed
    with False show ?thesis by (simp add: readItem_major)
  qed
qed

lemma decoded_sound:
  assumes "resolveOptions options = Inr opts" "decodeCbor options bs = Inr v"
  shows "sound opts 0 v" "length (cbor_bytes v) \<le> length bs" "length bs \<le> maxByteLength opts"
proof -
  let ?r = "\<lparr>rd_bytes = bs, rd_offset = 0\<rparr>"
  obtain r' where r': "readItem opts 0 ?r = (Inr v, r')" "rd_offset r' = length (rd_bytes r')"
      and l: "length bs \<le> maxByteLength opts"
    using assms by (auto simp: decodeCbor_def split: if_splits prod.splits sum.splits)
  from consumes_readItem [of opts 0, unfolded consumes_def, rule_format, OF r'(1)]
  obtain n where n: "r' = advance n ?r" "sound opts 0 v" "length (cbor_bytes v) \<le> n" by blast
  with r'(2) show "sound opts 0 v" "length (cbor_bytes v) \<le> length bs" by simp_all
  show "length bs \<le> maxByteLength opts" by (rule l)
qed

end
