(* ===== verification/StreamDecoder.thy ===== *)
theory StreamDecoder imports Bytes begin

text \<open>
  The interface of an incremental decoder: it is given a byte stream in chunks and returns what the
  bytes up to now complete. Its contract is a specification of whole streams; a client needs only
  that, and that a decoder which has failed keeps throwing. The frame decoder and the message
  decoder of the protocol provide it.
\<close>

text \<open>Pushing chunks until one push throws: what the pushes returned, and the decoder.
  \<open>None\<close> is a push that does not return.\<close>

fun push_all ::
  "(bytes \<Rightarrow> 'd \<Rightarrow> ((string + 'm list) \<times> 'd) option) \<Rightarrow> bytes list \<Rightarrow> 'd \<Rightarrow> ((string + 'm list) \<times> 'd) option" where
  "push_all push [] d = Some (Inr [], d)"
| "push_all push (c # cs) d = (case push c d of
     None \<Rightarrow> None
   | Some (Inl e, d1) \<Rightarrow> Some (Inl e, d1)
   | Some (Inr ms, d1) \<Rightarrow> (case push_all push cs d1 of
       None \<Rightarrow> None
     | Some (Inl e, d2) \<Rightarrow> Some (Inl e, d2)
     | Some (Inr ns, d2) \<Rightarrow> Some (Inr (ms @ ns), d2)))"

text \<open>
  \<open>spec d bs\<close> is what a decoder configured as \<open>d\<close> must return for the stream \<open>bs\<close>, with the bytes
  it keeps, or \<open>None\<close> where it must throw. Between pushes it is \<open>ok\<close> and keeps \<open>pend d\<close>.
\<close>

locale stream_decoder =
  fixes push :: "bytes \<Rightarrow> 'd \<Rightarrow> ((string + 'm list) \<times> 'd) option"
    and ok :: "'d \<Rightarrow> bool"
    and pend :: "'d \<Rightarrow> bytes"
    and broken :: "'d \<Rightarrow> bool"
    and spec :: "'d \<Rightarrow> bytes \<Rightarrow> ('m list \<times> bytes) option"
  assumes spec_pend: "ok d \<Longrightarrow> spec d (pend d) = Some ([], pend d)"
    and spec_append_None: "spec d bs = None \<Longrightarrow> spec d (bs @ cs) = None"
    and spec_append_Some: "spec d bs = Some (ms, p) \<Longrightarrow>
      spec d (bs @ cs) = map_option (\<lambda>(ns, q). (ms @ ns, q)) (spec d (p @ cs))"
    and push_Some: "ok d \<Longrightarrow> spec d (pend d @ c) = Some (ms, p) \<Longrightarrow>
      \<exists>d'. push c d = Some (Inr ms, d') \<and> ok d' \<and> pend d' = p \<and> spec d' = spec d"
    and push_None: "ok d \<Longrightarrow> spec d (pend d @ c) = None \<Longrightarrow>
      \<exists>e d'. push c d = Some (Inl e, d') \<and> broken d'"
    and push_broken: "broken d \<Longrightarrow> \<exists>e. push c d = Some (Inl e, d)"
begin

lemma push_all_Some:
  "ok d \<Longrightarrow> spec d (pend d @ concat cs) = Some (ms, p) \<Longrightarrow>
   \<exists>d'. push_all push cs d = Some (Inr ms, d') \<and> ok d' \<and> pend d' = p \<and> spec d' = spec d"
proof (induction cs arbitrary: d ms)
  case Nil
  then show ?case using spec_pend [of d] by simp
next
  case (Cons c cs)
  obtain ls r where r: "spec d (pend d @ c) = Some (ls, r)"
    using spec_append_None [of d "pend d @ c" "concat cs"] Cons.prems(2) by fastforce
  obtain d1 where 1: "push c d = Some (Inr ls, d1)" "ok d1" "pend d1 = r" "spec d1 = spec d"
    using push_Some [OF Cons.prems(1) r] by blast
  obtain ns where ns: "spec d (r @ concat cs) = Some (ns, p)" "ms = ls @ ns"
    using Cons.prems(2) spec_append_Some [OF r, of "concat cs"] by (auto dest: sym)
  with Cons.IH [OF 1(2), of ns] 1 show ?case by auto
qed

lemma push_all_None:
  "ok d \<Longrightarrow> spec d (pend d @ concat cs) = None \<Longrightarrow> \<exists>e d'. push_all push cs d = Some (Inl e, d') \<and> broken d'"
proof (induction cs arbitrary: d)
  case Nil
  then show ?case using spec_pend [of d] by simp
next
  case (Cons c cs)
  show ?case
  proof (cases "spec d (pend d @ c)")
    case None
    from push_None [OF Cons.prems(1) None] show ?thesis by auto
  next
    case (Some q)
    obtain ls r where q: "q = (ls, r)" by fastforce
    obtain d1 where 1: "push c d = Some (Inr ls, d1)" "ok d1" "pend d1 = r" "spec d1 = spec d"
      using push_Some [OF Cons.prems(1), of c ls r] Some q by blast
    have "spec d (r @ concat cs) = None"
      using Cons.prems(2) spec_append_Some [of d "pend d @ c" ls r "concat cs"] Some q by simp
    with Cons.IH [OF 1(2)] 1 show ?thesis by fastforce
  qed
qed

lemma push_all_broken: "broken d \<Longrightarrow> cs \<noteq> [] \<Longrightarrow> \<exists>e. push_all push cs d = Some (Inl e, d)"
  by (cases cs) (auto dest!: push_broken [of d "hd cs"])

text \<open>How the stream is cut into chunks does not matter.\<close>

lemma push_all_rechunk:
  assumes "ok d" "concat cs = concat cs'" "push_all push cs d = Some (Inr ms, d')"
  shows "\<exists>d''. push_all push cs' d = Some (Inr ms, d'') \<and> pend d'' = pend d'"
proof (cases "spec d (pend d @ concat cs)")
  case None
  from push_all_None [OF assms(1) None] assms(3) show ?thesis by auto
next
  case (Some q)
  obtain ls r where q: "q = (ls, r)" by fastforce
  with push_all_Some [OF assms(1), of cs ls r] push_all_Some [OF assms(1), of cs' ls r] Some assms(2,3)
  show ?thesis by auto
qed

end

end
