(* ===== verification/FramingLaws.thy ===== *)
theory FramingLaws imports Framing StreamDecoder begin

text \<open>
  The decoder implements the specification of the byte stream: between pushes its header and
  blocks hold the bytes of the unfinished frame (\<open>pending\<close>), both loops return, and a push
  delivers the frames of those bytes followed by the chunk. It is a \<open>stream_decoder\<close>.
\<close>

section \<open>Filling a payload\<close>

definition content :: "frame_decoder \<Rightarrow> bytes" where
  "content d = (if fd_blocks d = [] then []
     else concat (butlast (fd_blocks d)) @ take (fd_blockLength d) (last (fd_blocks d)))"

definition filling :: "nat \<Rightarrow> frame_decoder \<Rightarrow> bool" where
  "filling e d \<longleftrightarrow> fd_hasBlock d = (fd_blocks d \<noteq> []) \<and>
     (fd_blocks d \<noteq> [] \<longrightarrow> fd_blockLength d \<le> length (last (fd_blocks d))) \<and>
     fd_payloadLength d = length (content d) \<and> length (concat (fd_blocks d)) \<le> e"

text \<open>What reading a payload leaves alone.\<close>

definition same_frame :: "frame_decoder \<Rightarrow> frame_decoder \<Rightarrow> bool" where
  "same_frame d d' \<longleftrightarrow> fd_header d' = fd_header d \<and> fd_headerLength d' = fd_headerLength d \<and>
     fd_maxFrameLength d' = fd_maxFrameLength d \<and> fd_expected d' = fd_expected d \<and> fd_state d' = fd_state d"

lemma same_frame_refl: "same_frame d d"
  by (simp add: same_frame_def)

lemma same_frame_trans: "same_frame a b \<Longrightarrow> same_frame b c \<Longrightarrow> same_frame a c"
  by (simp add: same_frame_def)

lemma concat_last: "bs \<noteq> [] \<Longrightarrow> concat bs = concat (butlast bs) @ last bs"
  by (metis append_butlast_last_id concat.simps concat_append append_Nil2)

lemma with_block_filling:
  assumes "filling e d" "fd_payloadLength d < e"
  shows "filling e (with_block e d)" "content (with_block e d) = content d" "same_frame d (with_block e d)"
    "fd_blocks (with_block e d) \<noteq> []"
    "fd_blockLength (with_block e d) < length (last (fd_blocks (with_block e d)))"
proof -
  have full: "concat (fd_blocks d) = content d"
    if "\<not> fd_hasBlock d \<or> fd_blockLength d = length (last (fd_blocks d))"
    using that assms(1) by (auto simp: filling_def content_def concat_last)
  show "content (with_block e d) = content d"
    using full assms(1) by (auto simp: with_block_def content_def butlast_append)
  then show "filling e (with_block e d)"
    using full assms by (auto simp: with_block_def filling_def)
  show "same_frame d (with_block e d)" by (simp add: with_block_def same_frame_def)
  show "fd_blocks (with_block e d) \<noteq> []" using assms(1) by (auto simp: with_block_def filling_def)
  show "fd_blockLength (with_block e d) < length (last (fd_blocks (with_block e d)))"
    using assms by (auto simp: with_block_def filling_def PAYLOAD_BLOCK_SIZE_def)
qed

lemma copy_bytes_filling:
  assumes "filling e d" "fd_blocks d \<noteq> []" "fd_blockLength d < length (last (fd_blocks d))" "off < length chunk"
  shows "\<exists>n d1. copy_bytes chunk off d = (off + n, d1) \<and> 0 < n \<and> off + n \<le> length chunk \<and> filling e d1 \<and>
    content d1 = content d @ take n (drop off chunk) \<and> same_frame d d1"
proof -
  let ?b = "last (fd_blocks d)"
  let ?n = "min (length ?b - fd_blockLength d) (length chunk - off)"
  let ?ys = "take ?n (drop off chunk)"
  obtain d1 where d1: "copy_bytes chunk off d = (off + ?n, d1)" by (simp add: copy_bytes_def Let_def)
  have l: "length ?ys = ?n" "fd_blockLength d + length ?ys \<le> length ?b" using assms(3) by auto
  have b: "fd_blocks d1 = butlast (fd_blocks d) @ [overwrite ?b (fd_blockLength d) ?ys]"
      "fd_blockLength d1 = fd_blockLength d + length ?ys" "fd_payloadLength d1 = fd_payloadLength d + length ?ys"
      "fd_hasBlock d1 = fd_hasBlock d"
    using d1 l(1) by (auto simp: copy_bytes_def Let_def)
  have c: "content d1 = content d @ ?ys"
    using assms(2) l(2) take_overwrite [OF l(2)] by (simp add: content_def b)
  moreover have "length (concat (fd_blocks d1)) = length (concat (fd_blocks d))"
    using assms(2) l(2) by (simp add: b concat_last)
  ultimately have "filling e d1"
    using assms(1,2) l by (simp add: filling_def b)
  moreover have "same_frame d d1"
    using d1 by (auto simp: copy_bytes_def Let_def same_frame_def)
  ultimately show ?thesis
    using d1 c assms(3,4) by (intro exI [of _ ?n] exI [of _ d1]) auto
qed

lemma fill_payload_fills:
  assumes "filling e d" "fd_payloadLength d \<le> e" "off \<le> length chunk"
  shows "\<exists>n d1. fill_payload chunk e off d = Some (off + n, d1) \<and> filling e d1 \<and>
    content d1 = content d @ take n (drop off chunk) \<and> off + n \<le> length chunk \<and>
    fd_payloadLength d1 = fd_payloadLength d + n \<and> same_frame d d1 \<and> fd_payloadLength d1 \<le> e \<and>
    (fd_payloadLength d1 = e \<or> off + n = length chunk) \<and> (off < length chunk \<longrightarrow> fd_payloadLength d < e \<longrightarrow> 0 < n)"
  using assms
proof (induction "length chunk - off" arbitrary: off d rule: less_induct)
  case less
  show ?case
  proof (cases "off < length chunk \<and> fd_payloadLength d < e")
    case False
    with less.prems show ?thesis
      by (intro exI [of _ 0] exI [of _ d]) (auto simp: fill_payload.simps same_frame_refl)
  next
    case True
    note w = with_block_filling [OF less.prems(1) True [THEN conjunct2]]
    obtain n d1 where 1: "copy_bytes chunk off (with_block e d) = (off + n, d1)" "0 < n"
        "off + n \<le> length chunk" "filling e d1"
        "content d1 = content d @ take n (drop off chunk)" "same_frame (with_block e d) d1"
      using copy_bytes_filling [OF w(1,4,5) True [THEN conjunct1]] w(2) by auto
    have len: "fd_payloadLength d1 = fd_payloadLength d + n"
      using 1 less.prems(1) by (simp add: filling_def)
    have "length (content d1) \<le> length (concat (fd_blocks d1))"
      by (auto simp: content_def concat_last)
    then have "fd_payloadLength d1 \<le> e" using 1(4) by (simp add: filling_def)
    moreover have "length chunk - (off + n) < length chunk - off" using 1(2,3) by linarith
    note less.hyps [OF this 1(4) _ 1(3)]
    ultimately obtain m d2 where 2: "fill_payload chunk e (off + n) d1 = Some (off + n + m, d2)"
        "filling e d2" "content d2 = content d1 @ take m (drop (off + n) chunk)" "off + n + m \<le> length chunk"
        "fd_payloadLength d2 = fd_payloadLength d1 + m" "same_frame d1 d2" "fd_payloadLength d2 \<le> e"
        "fd_payloadLength d2 = e \<or> off + n + m = length chunk"
      by blast
    have "content d2 = content d @ take (n + m) (drop off chunk)"
      using 2(3) 1(5) by (simp add: take_add add.commute [of n off])
    moreover have "same_frame d d2"
      using same_frame_trans [OF same_frame_trans [OF w(3) 1(6)] 2(6)] .
    moreover have "fill_payload chunk e off d = Some (off + (n + m), d2)"
      using True 1(1) 2(1) by (simp add: fill_payload.simps [of chunk e off d] add.assoc)
    ultimately show ?thesis
      using 2 len 1(2) by (intro exI [of _ "n + m"] exI [of _ d2]) (auto simp: add.assoc)
  qed
qed

lemma joined_payload_concat: "length (concat blocks) = e \<Longrightarrow> joined_payload e blocks = concat blocks"
proof -
  assume e: "length (concat blocks) = e"
  have "foldl (\<lambda>(off, p) b. (off + length b, overwrite p off b)) (length pre, pre @ rest) bs =
      (length pre + length (concat bs), pre @ concat bs)"
    if "length rest = length (concat bs)" for bs :: "bytes list" and pre rest
    using that
  proof (induction bs arbitrary: pre rest)
    case (Cons b bs)
    let ?r = "drop (length b) rest"
    have "overwrite (pre @ rest) (length pre) b = (pre @ b) @ ?r" by (simp add: overwrite_def)
    moreover have "length ?r = length (concat bs)" using Cons.prems by simp
    ultimately show ?case using Cons.IH [of ?r "pre @ b"] by (simp add: add.assoc)
  qed simp
  from this [of "replicate e 0" blocks "[]"] e show ?thesis
    by (cases blocks rule: list.exhaust) (auto simp: joined_payload_def length_Suc_conv)
qed

lemma complete_payload:
  assumes "filling e d" "fd_payloadLength d = e"
  shows "joined_payload e (fd_blocks d) = content d"
proof -
  have l: "length (content d) = e" "length (concat (fd_blocks d)) \<le> e"
    using assms by (simp_all add: filling_def)
  have "content d = concat (fd_blocks d)"
  proof (cases "fd_blocks d = []")
    case False
    have "length (last (fd_blocks d)) \<le> fd_blockLength d"
      using l False by (simp add: content_def concat_last)
    with False show ?thesis by (simp add: content_def concat_last)
  qed (simp add: content_def)
  with l show ?thesis by (simp add: joined_payload_concat)
qed

section \<open>Pushes\<close>

definition dec_ok :: "frame_decoder \<Rightarrow> bool" where
  "dec_ok d \<longleftrightarrow> fd_state d = StateOpen \<and> length (fd_header d) = 4 \<and> fd_maxFrameLength d \<le> MAX_UINT32 \<and>
     (case fd_expected d of None \<Rightarrow> fd_headerLength d < 4
      | Some e \<Rightarrow> fd_headerLength d = 0 \<and> 0 < e \<and> e \<le> fd_maxFrameLength d \<and> filling e d \<and> fd_payloadLength d < e)"

definition pending :: "frame_decoder \<Rightarrow> bytes" where
  "pending d = (case fd_expected d of None \<Rightarrow> take (fd_headerLength d) (fd_header d) | Some e \<Rightarrow> be32 e @ content d)"

lemma dec_ok_new: "limit \<le> MAX_UINT32 \<Longrightarrow> dec_ok (fd_new limit)" "pending (fd_new limit) = []"
  by (simp_all add: dec_ok_def fd_new_def pending_def FRAME_HEADER_LENGTH_def)

lemma header_value_be: "length h = 4 \<Longrightarrow> header_value h = be_value h"
proof -
  assume "length h = 4"
  then obtain a b c d where "h = [a, b, c, d]" by (auto simp: length_Suc_conv numeral_eq_Suc)
  then show ?thesis by (simp add: header_value_def be_value_4)
qed

text \<open>What a push that has delivered \<open>frames\<close> so far may still return.\<close>

definition delivers ::
  "nat \<Rightarrow> bytes list \<Rightarrow> bytes \<Rightarrow> ((string + bytes list) \<times> frame_decoder) option \<Rightarrow> bool" where
  "delivers limit frames bs res \<longleftrightarrow> (\<exists>r d. res = Some (r, d) \<and> fd_maxFrameLength d = limit \<and>
     (case split_frames limit bs of
        (fs, None) \<Rightarrow> (\<exists>e. r = Inl e) \<and> fd_state d = StateFailed
      | (fs, Some p) \<Rightarrow> r = Inr (frames @ fs) \<and> dec_ok d \<and> pending d = p))"

lemma pending_short: "dec_ok d \<Longrightarrow> split_frames (fd_maxFrameLength d) (pending d) = ([], Some (pending d))"
proof -
  assume ok: "dec_ok d"
  show ?thesis
  proof (cases "fd_expected d")
    case None
    with ok show ?thesis by (simp add: dec_ok_def pending_def split_short)
  next
    case (Some e)
    then have "be_value (be32 e) = e" using ok by (intro be_value_be32) (auto simp: dec_ok_def)
    moreover have "length (content d) < e" using ok Some by (auto simp: dec_ok_def filling_def)
    ultimately show ?thesis
      using ok Some by (simp add: dec_ok_def pending_def split_partial)
  qed
qed

lemma delivers_done: "dec_ok d \<Longrightarrow> fd_maxFrameLength d = limit \<Longrightarrow> delivers limit frames (pending d) (Some (Inr frames, d))"
  using pending_short [of d] by (auto simp: delivers_def)

lemma delivers_frame:
  assumes "delivers limit (frames @ [p]) bs res" "length h = 4" "be_value h = length p" "length p \<le> limit"
  shows "delivers limit frames (h @ p @ bs) res"
  using assms(1) by (auto simp: delivers_def split_frame [OF assms(2-4)] split: prod.splits option.splits)

text \<open>The header of a frame, once the chunk gives what is missing of it.\<close>

lemma read_header_cases:
  assumes "dec_ok d" "fd_expected d = None" "off < length chunk"
  obtains
    (short) n d1 where "read_header chunk off frames d = HeaderContinues (off + n) frames d1" "dec_ok d1"
      "0 < n" "off + n \<le> length chunk" "pending d1 = pending d @ take n (drop off chunk)"
      "fd_maxFrameLength d1 = fd_maxFrameLength d"
  | (over) n h e d1 where "read_header chunk off frames d = HeaderFails e d1" "fd_state d1 = StateFailed"
      "length h = 4" "h = pending d @ take n (drop off chunk)" "be_value h > fd_maxFrameLength d"
      "fd_maxFrameLength d1 = fd_maxFrameLength d"
  | (empty) n h d1 where "read_header chunk off frames d = HeaderContinues (off + n) (frames @ [[]]) d1" "dec_ok d1"
      "0 < n" "off + n \<le> length chunk" "length h = 4" "h = pending d @ take n (drop off chunk)" "be_value h = 0"
      "pending d1 = []" "fd_maxFrameLength d1 = fd_maxFrameLength d"
  | (payload) n h d1 where "read_header chunk off frames d = PayloadExpected (off + n) (be_value h) d1" "0 < n"
      "off + n \<le> length chunk" "length h = 4" "h = pending d @ take n (drop off chunk)"
      "dec_ok d1" "fd_expected d1 = Some (be_value h)" "content d1 = []" "fd_maxFrameLength d1 = fd_maxFrameLength d"
proof -
  define n where "n = min (4 - fd_headerLength d) (length chunk - off)"
  define ys where "ys = take n (drop off chunk)"
  define h where "h = overwrite (fd_header d) (fd_headerLength d) ys"
  have d: "length (fd_header d) = 4" "fd_headerLength d < 4" "fd_state d = StateOpen"
      "fd_maxFrameLength d \<le> MAX_UINT32"
    using assms(1,2) by (simp_all add: dec_ok_def)
  have n: "0 < n" "off + n \<le> length chunk" "fd_headerLength d + n \<le> 4"
    using assms(3) d(2) by (auto simp: n_def)
  have ys: "length ys = n" using n(2) by (simp add: ys_def)
  have lh: "length h = 4" using d(1) n(3) ys by (simp add: h_def)
  have th: "take (fd_headerLength d + n) h = pending d @ ys"
    using take_overwrite [of "fd_headerLength d" ys "fd_header d"] d(1) n(3) ys assms(2)
    by (simp add: pending_def h_def)
  have rd: "read_header chunk off frames d =
    (let d1 = d\<lparr>fd_header := h, fd_headerLength := fd_headerLength d + n\<rparr> in
     if fd_headerLength d + n < 4 then HeaderContinues (off + n) frames d1
     else if header_value h > fd_maxFrameLength d
       then HeaderFails ''Frame length exceeds configured limit'' (fd_fail (d1\<lparr>fd_headerLength := 0\<rparr>))
     else if header_value h = 0 then HeaderContinues (off + n) (frames @ [[]]) (d1\<lparr>fd_headerLength := 0\<rparr>)
     else PayloadExpected (off + n) (header_value h)
       (d\<lparr>fd_header := h, fd_headerLength := 0, fd_expected := Some (header_value h), fd_blocks := [],
          fd_hasBlock := False, fd_blockLength := 0, fd_payloadLength := 0\<rparr>))"
    unfolding read_header_def assms(2) option.case FRAME_HEADER_LENGTH_def Let_def
    by (simp add: n_def [symmetric] ys_def [symmetric] h_def [symmetric])
  have v: "header_value h = be_value h" by (rule header_value_be [OF lh])
  show thesis
  proof (cases "fd_headerLength d + n < 4")
    case True
    let ?d1 = "d\<lparr>fd_header := h, fd_headerLength := fd_headerLength d + n\<rparr>"
    have "dec_ok ?d1" "pending ?d1 = pending d @ ys"
      using True assms(2) d lh th by (simp_all add: dec_ok_def pending_def)
    then show thesis using True n rd by (intro short [of n ?d1]) (simp_all add: ys_def)
  next
    case False
    then have h: "h = pending d @ take n (drop off chunk)" using th lh n(3) by (simp add: ys_def)
    consider "be_value h > fd_maxFrameLength d" | "be_value h \<le> fd_maxFrameLength d" "be_value h = 0"
      | "be_value h \<le> fd_maxFrameLength d" "be_value h \<noteq> 0" by linarith
    then show thesis
    proof cases
      case 1
      then have rh: "read_header chunk off frames d = HeaderFails ''Frame length exceeds configured limit''
          (fd_fail (d\<lparr>fd_header := h, fd_headerLength := 0\<rparr>))"
        using False v rd by simp
      from 1 show thesis by (intro over [OF rh _ lh h]) (simp_all add: fd_fail_def)
    next
      case 2
      then have rh: "read_header chunk off frames d =
          HeaderContinues (off + n) (frames @ [[]]) (d\<lparr>fd_header := h, fd_headerLength := 0\<rparr>)"
        using False v rd by simp
      from 2 d lh assms(2) show thesis
        by (intro empty [OF rh _ n(1,2) lh h]) (simp_all add: dec_ok_def pending_def)
    next
      case 3
      let ?d1 = "d\<lparr>fd_header := h, fd_headerLength := 0, fd_expected := Some (be_value h), fd_blocks := [],
          fd_hasBlock := False, fd_blockLength := 0, fd_payloadLength := 0\<rparr>"
      have ok: "dec_ok ?d1" "content ?d1 = []"
        using 3 d lh by (simp_all add: dec_ok_def content_def filling_def)
      show thesis
        by (rule payload [OF _ n(1,2) lh h ok(1) _ ok(2)]) (use False 3 v rd in simp_all)
    qed
  qed
qed

lemma fill_and_finish:
  assumes "dec_ok d" "fd_expected d = Some e" "off \<le> length chunk"
  obtains n d1 frames1 d2 where "fill_payload chunk e off d = Some (off + n, d1)"
    "finish_payload e frames d1 = (frames1, d2)" "dec_ok d2" "fd_maxFrameLength d2 = fd_maxFrameLength d"
    "off + n \<le> length chunk" "off < length chunk \<longrightarrow> 0 < n"
    "(frames1 = frames \<and> pending d2 = pending d @ take n (drop off chunk)) \<or>
     (\<exists>p. frames1 = frames @ [p] \<and> pending d2 = [] \<and> pending d @ take n (drop off chunk) = be32 e @ p \<and> length p = e)"
proof -
  have f: "filling e d" "fd_payloadLength d \<le> e" "fd_payloadLength d < e"
    using assms(1,2) by (simp_all add: dec_ok_def)
  obtain n d1 where 1: "fill_payload chunk e off d = Some (off + n, d1)" "filling e d1"
      "content d1 = content d @ take n (drop off chunk)" "off + n \<le> length chunk" "same_frame d d1"
      "fd_payloadLength d1 \<le> e" "off < length chunk \<longrightarrow> fd_payloadLength d < e \<longrightarrow> 0 < n"
    using fill_payload_fills [OF f(1,2) assms(3)] by blast
  have p: "pending d @ take n (drop off chunk) = be32 e @ content d1"
    using assms(2) 1(3) by (simp add: pending_def)
  show thesis
  proof (cases "fd_payloadLength d1 = e")
    case True
    let ?d2 = "d1\<lparr>fd_blocks := [], fd_hasBlock := False, fd_blockLength := 0, fd_expected := None, fd_payloadLength := 0\<rparr>"
    have fp: "finish_payload e frames d1 = (frames @ [content d1], ?d2)"
      using True complete_payload [OF 1(2) True] by (simp add: finish_payload_def)
    have ok: "dec_ok ?d2" "pending ?d2 = []" "fd_maxFrameLength ?d2 = fd_maxFrameLength d"
      using assms(1,2) 1(5) by (auto simp: dec_ok_def same_frame_def pending_def)
    have "length (content d1) = e" using True 1(2) by (simp add: filling_def)
    then show thesis
      using that [OF 1(1) fp ok(1,3) 1(4)] 1(7) ok(2) p f(3) by blast
  next
    case False
    have fp: "finish_payload e frames d1 = (frames, d1)" using False by (simp add: finish_payload_def)
    have ok: "dec_ok d1" "fd_maxFrameLength d1 = fd_maxFrameLength d" "fd_expected d1 = Some e"
      using assms(1,2) 1(2,5,6) False by (auto simp: dec_ok_def same_frame_def)
    then have "pending d1 = pending d @ take n (drop off chunk)"
      using p by (simp add: pending_def)
    then show thesis
      using that [OF 1(1) fp ok(1,2) 1(4)] 1(7) f(3) by blast
  qed
qed

lemma take_drop_append: "xs @ drop off ys = (xs @ take n (drop off ys)) @ drop (off + n) ys"
  by (metis append.assoc append_take_drop_id drop_drop add.commute)

lemma push_loop_delivers:
  assumes "dec_ok d" "off \<le> length chunk"
  shows "delivers (fd_maxFrameLength d) frames (pending d @ drop off chunk) (push_loop chunk off frames d)"
  using assms
proof (induction "length chunk - off" arbitrary: off d frames rule: less_induct)
  case less
  let ?l = "fd_maxFrameLength d"
  have IH: "delivers ?l frames1 (pending d1 @ drop (off + n) chunk) (push_loop chunk (off + n) frames1 d1)"
    if "0 < n" "off + n \<le> length chunk" "dec_ok d1" "fd_maxFrameLength d1 = ?l" for n d1 frames1
  proof -
    have "length chunk - (off + n) < length chunk - off" using that(1,2) by linarith
    from less.hyps [OF this that(3,2), of frames1] that(4) show ?thesis by simp
  qed
  have rest: "delivers ?l frames (bs @ drop off1 chunk)
      (case fill_payload chunk e off1 d1 of None \<Rightarrow> None
       | Some (off2, d2) \<Rightarrow> let (frames2, d3) = finish_payload e frames d2 in push_loop chunk off2 frames2 d3)"
    if r: "dec_ok d1" "fd_expected d1 = Some e" "off \<le> off1" "off1 \<le> length chunk" "pending d1 = bs"
      "off < off1 \<or> off < length chunk" "fd_maxFrameLength d1 = ?l" for e off1 d1 bs
  proof -
    obtain n d2 frames1 d3 where f: "fill_payload chunk e off1 d1 = Some (off1 + n, d2)"
        "finish_payload e frames d2 = (frames1, d3)" "dec_ok d3" "fd_maxFrameLength d3 = fd_maxFrameLength d1"
        "off1 + n \<le> length chunk" "off1 < length chunk \<longrightarrow> 0 < n"
        "(frames1 = frames \<and> pending d3 = pending d1 @ take n (drop off1 chunk)) \<or>
         (\<exists>p. frames1 = frames @ [p] \<and> pending d3 = [] \<and> pending d1 @ take n (drop off1 chunk) = be32 e @ p \<and> length p = e)"
      using fill_and_finish [OF r(1,2,4)] by blast
    have "\<exists>k. off1 + n = off + k \<and> 0 < k"
      using f(6) r(3,4,6) by (intro exI [of _ "off1 + n - off"]) auto
    then obtain k where k: "off1 + n = off + k" "0 < k" by blast
    have step: "delivers ?l frames1 (pending d3 @ drop (off1 + n) chunk) (push_loop chunk (off1 + n) frames1 d3)"
      using IH [of k d3 frames1] k f(3-5) r(7) by simp
    have e: "be_value (be32 e) = e" "e \<le> ?l"
      using r(1,2,7) by (auto simp: dec_ok_def intro!: be_value_be32)
    have "delivers ?l frames (bs @ drop off1 chunk) (push_loop chunk (off1 + n) frames1 d3)"
      using f(7)
    proof (elim disjE exE conjE)
      assume "frames1 = frames" "pending d3 = pending d1 @ take n (drop off1 chunk)"
      with step r(5) show ?thesis by (simp add: take_drop_append [of bs off1 chunk n])
    next
      fix p
      assume p: "frames1 = frames @ [p]" "pending d3 = []" "pending d1 @ take n (drop off1 chunk) = be32 e @ p" "length p = e"
      have "delivers ?l frames (be32 e @ p @ drop (off1 + n) chunk) (push_loop chunk (off1 + n) frames1 d3)"
        by (rule delivers_frame) (use step p(1,2,4) e in simp_all)
      moreover have "bs @ drop off1 chunk = be32 e @ p @ drop (off1 + n) chunk"
        using take_drop_append [of bs off1 chunk n] p(3) r(5) by (metis append.assoc)
      ultimately show ?thesis by simp
    qed
    with f(1,2) show ?thesis by simp
  qed
  show ?case
  proof (cases "off < length chunk")
    case False
    with less.prems show ?thesis
      by (simp add: push_loop.simps [of chunk "length chunk" frames d] delivers_done)
  next
    case True
    note pl = push_loop.simps [of chunk off frames d]
    show ?thesis
    proof (cases "fd_expected d")
      case (Some e)
      have "read_header chunk off frames d = PayloadExpected off e d" by (simp add: read_header_def Some)
      with rest [OF less.prems(1) Some order_refl less.prems(2) refl] True show ?thesis
        by (simp add: pl)
    next
      case None
      from less.prems(1) None True show ?thesis
      proof (cases rule: read_header_cases [where frames = frames])
        case (short n d1)
        with IH [of n d1 frames] True show ?thesis
          by (simp add: pl take_drop_append [of "pending d" off chunk n])
      next
        case (over n h e d1)
        have "delivers ?l frames (h @ drop (off + n) chunk) (Some (Inl e, d1))"
          using split_over [OF over(3,5)] over(2,6) by (simp add: delivers_def)
        with over(1,4) True show ?thesis by (simp add: pl take_drop_append [of "pending d" off chunk n])
      next
        case (empty n h d1)
        have "delivers ?l frames (h @ [] @ drop (off + n) chunk) (push_loop chunk (off + n) (frames @ [[]]) d1)"
          by (rule delivers_frame) (use IH [of n d1 "frames @ [[]]"] empty in simp_all)
        with empty(1,6) True show ?thesis by (simp add: pl take_drop_append [of "pending d" off chunk n])
      next
        case (payload n h d1)
        have "pending d1 = h"
          using payload(4,7,8) by (simp add: pending_def be32_be_value)
        from rest [OF payload(6,7) _ payload(3) this _ payload(9)] payload(2) True
        have "delivers ?l frames (h @ drop (off + n) chunk) (push_loop chunk off frames d)"
          by (simp add: pl payload(1))
        then show ?thesis
          unfolding take_drop_append [of "pending d" off chunk n] payload(5) [symmetric] .
      qed
    qed
  qed
qed

lemma fd_push_delivers:
  assumes "dec_ok d"
  shows "delivers (fd_maxFrameLength d) [] (pending d @ chunk) (fd_push chunk d)"
proof -
  have "fd_state d = StateOpen" using assms by (simp add: dec_ok_def)
  then show ?thesis using push_loop_delivers [OF assms, of 0 chunk "[]"] by (simp add: fd_push_def)
qed

section \<open>A stream of chunks\<close>

definition frames_spec :: "frame_decoder \<Rightarrow> bytes \<Rightarrow> (bytes list \<times> bytes) option" where
  "frames_spec d bs = (case split_frames (fd_maxFrameLength d) bs of
     (fs, None) \<Rightarrow> None
   | (fs, Some p) \<Rightarrow> Some (fs, p))"

lemma frames_spec_eqs:
  "frames_spec d bs = None \<longleftrightarrow> snd (split_frames (fd_maxFrameLength d) bs) = None"
  "frames_spec d bs = Some (fs, p) \<longleftrightarrow> split_frames (fd_maxFrameLength d) bs = (fs, Some p)"
  by (auto simp: frames_spec_def split: prod.splits option.splits)

lemma frames_spec_same: "fd_maxFrameLength d' = fd_maxFrameLength d \<Longrightarrow> frames_spec d' = frames_spec d"
  by (simp add: frames_spec_def fun_eq_iff)

interpretation fdec: stream_decoder fd_push dec_ok pending "\<lambda>d. fd_state d = StateFailed" frames_spec
proof (unfold_locales, goal_cases)
  case (1 d)
  then show ?case by (simp add: frames_spec_eqs pending_short)
next
  case (2 d bs cs)
  then show ?case by (auto simp: frames_spec_eqs split_frames_append split: prod.split)
next
  case (3 d bs ms p cs)
  then show ?case
    using split_frames_append [of "fd_maxFrameLength d" bs cs] unfolding frames_spec_eqs(2)
    by (auto simp: frames_spec_def split: prod.splits option.splits)
next
  case (4 d c ms p)
  from fd_push_delivers [OF 4(1), of c] 4(2) [unfolded frames_spec_eqs(2)] show ?case
    by (auto simp: delivers_def intro: frames_spec_same)
next
  case (5 d c)
  from 5(2) obtain fs where "split_frames (fd_maxFrameLength d) (pending d @ c) = (fs, None)"
    by (cases "split_frames (fd_maxFrameLength d) (pending d @ c)") (simp add: frames_spec_eqs)
  with fd_push_delivers [OF 5(1), of c] show ?case by (auto simp: delivers_def)
next
  case (6 d c)
  then show ?case by (simp add: fd_push_def)
qed

end
