(* ===== verification/ProtocolLaws.thy ===== *)
theory ProtocolLaws imports ProtocolCodec CborSound FramingLaws begin

text \<open>
  The message decoder is a \<open>stream_decoder\<close> over the one of the frames: what a stream must deliver
  are the frames of its bytes, each decoded and parsed. A message that was encoded is a value that
  its own frame decodes to.
\<close>

section \<open>Messages and their frames\<close>

lemma check_json_defined: "check_json depth v \<Longrightarrow> defined_value v = v"
proof (induction v arbitrary: depth rule: js_value_induct)
  case (VArray vs)
  then show ?case by (auto simp: check_json.simps [of depth] intro!: map_idI split: if_splits)
next
  case (VObject b ps)
  have "v \<noteq> VUndefined \<and> defined_value v = v" if "(k, v) \<in> set ps" for k v
    using VObject.IH [OF that] VObject.prems that
    by (force simp: check_json.simps [of depth] check_json.simps [of _ VUndefined] split: if_splits)
  then have "concat (map (\<lambda>(k, v). if v = VUndefined then [] else [(k, defined_value v)]) qs) = qs"
    if "set qs \<subseteq> set ps" for qs
    using that by (induction qs) auto
  from this [of ps] show ?case by simp
qed simp_all

lemma json_defined: "isJsonValue v \<Longrightarrow> defined_value v = v"
  by (simp add: isJsonValue_def check_json_defined)

lemma resolve_byte_limit:
  "resolveOptions (Some (byte_limit n)) = Inr opts \<Longrightarrow> maxByteLength opts = nat n \<and> 0 \<le> n \<and> n \<le> int MAX_UINT32"
  by (auto simp: resolveOptions_def resolveLimit_def byte_limit_def Let_def bindE_eq_Inr split: if_splits)

lemma resolve_frame_limit:
  "resolveMaxFrameLength options = Inr n \<Longrightarrow> frame_limit options = int n \<and> n \<le> MAX_UINT32"
  by (auto simp: resolveMaxFrameLength_def frame_limit_def Let_def split: if_splits)

lemma encodeCbor_resolved: "encodeCbor options v = Inr bs \<Longrightarrow> \<exists>opts. resolveOptions options = Inr opts"
  by (auto simp: encodeCbor_def bindE_eq_Inr)

lemma encoded_message:
  assumes "encodeProtocolMessage v parse kind options = Inr f" "parse v = Inr v" "isJsonValue v" "wf_js v"
  shows "\<exists>p. f = be32 (length p) @ p \<and> int (length p) \<le> frame_limit options \<and>
    decodeCbor (Some (byte_limit (frame_limit options))) p = Inr v"
proof -
  let ?o = "Some (byte_limit (frame_limit options))"
  obtain p where p: "encodeCbor ?o v = Inr p" "encodeFrame p = Inr f"
    using assms(1,2) by (auto simp: encodeProtocolMessage_def bindE_eq_Inr split: sum.splits)
  obtain opts where o: "resolveOptions ?o = Inr opts" using encodeCbor_resolved [OF p(1)] by blast
  have e: "encodable opts 0 v" "length p \<le> maxByteLength opts" "p = cbor_bytes v"
    using encodeCbor_iff [OF o, of v p] p(1) by auto
  have l: "int (length p) \<le> frame_limit options" "length p \<le> MAX_UINT32"
    using e(2) resolve_byte_limit [OF o] by auto
  have "decodeCbor ?o p = Inr v"
    using decode_encoded [OF o e(1) assms(4)] e(2,3) json_defined [OF assms(3)] by simp
  with l p(2) encodeFrame_eq [OF l(2)] show ?thesis by auto
qed

section \<open>The decoder of a stream\<close>

definition messages_spec :: "message_decoder \<Rightarrow> bytes \<Rightarrow> (js_value list \<times> bytes) option" where
  "messages_spec d bs = (case frames_spec (md_frames d) bs of
     None \<Rightarrow> None
   | Some (fs, p) \<Rightarrow> (case mapE (decode_message d) fs of Inl e \<Rightarrow> None | Inr ms \<Rightarrow> Some (ms, p)))"

definition md_ok :: "message_decoder \<Rightarrow> bool" where
  "md_ok d \<longleftrightarrow> \<not> md_failed d \<and> dec_ok (md_frames d)"

definition md_pending :: "message_decoder \<Rightarrow> bytes" where
  "md_pending d = pending (md_frames d)"

lemma messages_spec_Some:
  "messages_spec d bs = Some (ms, p) \<longleftrightarrow>
   (\<exists>fs. frames_spec (md_frames d) bs = Some (fs, p) \<and> mapE (decode_message d) fs = Inr ms)"
  by (auto simp: messages_spec_def split: option.splits sum.splits)

lemma messages_spec_frames:
  assumes "frames_spec fr = frames_spec (md_frames d)"
  shows "messages_spec (d\<lparr>md_frames := fr\<rparr>) = messages_spec d"
proof -
  have eq: "decode_message (d\<lparr>md_frames := fr\<rparr>) = decode_message d"
    by (rule ext) (simp add: decode_message_def split: sum.split)
  show ?thesis unfolding messages_spec_def [abs_def] eq assms [symmetric] by simp
qed

interpretation mdec: stream_decoder md_push md_ok md_pending md_failed messages_spec
proof (unfold_locales, goal_cases)
  case (1 d)
  with fdec.spec_pend [of "md_frames d"] show ?case
    by (auto simp: messages_spec_Some md_ok_def md_pending_def)
next
  case (2 d bs cs)
  show ?case
  proof (cases "frames_spec (md_frames d) bs")
    case None
    from fdec.spec_append_None [OF None] show ?thesis by (simp add: messages_spec_def)
  next
    case (Some q)
    obtain fs p where q: "q = (fs, p)" by fastforce
    with 2 Some obtain e where "mapE (decode_message d) fs = Inl e"
      by (auto simp: messages_spec_def split: sum.splits)
    with fdec.spec_append_Some [OF Some [unfolded q]] show ?thesis
      by (auto simp: messages_spec_def mapE_append split: option.split)
  qed
next
  case (3 d bs ms p cs)
  then obtain fs where fs: "frames_spec (md_frames d) bs = Some (fs, p)" "mapE (decode_message d) fs = Inr ms"
    by (auto simp: messages_spec_Some)
  with fdec.spec_append_Some [OF fs(1)] show ?case
    by (auto simp: messages_spec_def mapE_append bindE_def split: option.splits sum.splits)
next
  case (4 d c ms p)
  then obtain fs where fs: "frames_spec (md_frames d) (pending (md_frames d) @ c) = Some (fs, p)"
      "mapE (decode_message d) fs = Inr ms"
    by (auto simp: messages_spec_Some md_pending_def)
  from fdec.push_Some [OF _ fs(1)] 4(1) obtain fr where "fd_push c (md_frames d) = Some (Inr fs, fr)"
      "dec_ok fr" "pending fr = p" "frames_spec fr = frames_spec (md_frames d)"
    by (auto simp: md_ok_def)
  with fs(2) 4(1) show ?case by (simp add: md_push_def md_ok_def md_pending_def messages_spec_frames)
next
  case (5 d c)
  then have ok: "\<not> md_failed d" "dec_ok (md_frames d)" by (simp_all add: md_ok_def)
  show ?case
  proof (cases "frames_spec (md_frames d) (pending (md_frames d) @ c)")
    case None
    from fdec.push_None [OF ok(2) None] ok(1) show ?thesis by (auto simp: md_push_def)
  next
    case (Some q)
    obtain fs p where q: "q = (fs, p)" by fastforce
    with 5 Some obtain e where e: "mapE (decode_message d) fs = Inl e"
      by (auto simp: messages_spec_def md_pending_def split: sum.splits)
    from fdec.push_Some [OF ok(2) Some [unfolded q]] e ok(1) show ?thesis by (auto simp: md_push_def)
  qed
next
  case (6 d c)
  then show ?case by (simp add: md_push_def)
qed

lemma md_new_ok:
  assumes "md_new kind parse options = Inr d"
  shows "md_ok d" "md_pending d = []"
    "\<exists>n. md_frames d = fd_new n \<and> n \<le> MAX_UINT32 \<and> frame_limit options = int n \<and> md_maxFrameLength d = int n"
    "md_parse d = parse" "md_kind d = kind"
  using assms resolve_frame_limit [of options]
  by (auto simp: md_new_def md_ok_def md_pending_def bindE_eq_Inr dec_ok_new)

text \<open>A stream of encoded messages delivers them.\<close>

lemma messages_spec_encoded:
  assumes "md_new kind parse options = Inr d" "list_all2 (\<lambda>v f. encodeProtocolMessage v parse kind options = Inr f) vs fs"
    "\<forall>v\<in>set vs. parse v = Inr v \<and> isJsonValue v \<and> wf_js v"
  shows "messages_spec d (concat fs) = Some (vs, [])"
proof -
  obtain n where n: "md_frames d = fd_new n" "n \<le> MAX_UINT32" "frame_limit options = int n" "md_maxFrameLength d = int n"
    using md_new_ok(3) [OF assms(1)] by blast
  have "\<exists>ps. fs = map (\<lambda>p. be32 (length p) @ p) ps \<and> (\<forall>p\<in>set ps. length p \<le> n) \<and> mapE (decode_message d) ps = Inr vs"
    using assms(2,3)
  proof (induction rule: list_all2_induct)
    case (Cons v vs f fs)
    then obtain ps where ps: "fs = map (\<lambda>p. be32 (length p) @ p) ps" "\<forall>p\<in>set ps. length p \<le> n"
        "mapE (decode_message d) ps = Inr vs" by auto
    have v: "parse v = Inr v" "isJsonValue v" "wf_js v" using Cons.prems by simp_all
    from encoded_message [OF Cons.hyps(1) v] obtain p where p: "f = be32 (length p) @ p" "length p \<le> n"
        "decodeCbor (Some (byte_limit (int n))) p = Inr v"
      by (auto simp: n(3))
    then have "decode_message d p = Inr v" by (simp add: decode_message_def n(4) md_new_ok(4) [OF assms(1)] v(1))
    with ps p(1,2) show ?case by (intro exI [of _ "p # ps"]) simp
  qed simp
  then obtain ps where ps: "fs = map (\<lambda>p. be32 (length p) @ p) ps" "\<forall>p\<in>set ps. length p \<le> n"
      "mapE (decode_message d) ps = Inr vs" by blast
  from split_encoded [OF ps(2) n(2)] ps(1,3) show ?thesis
    by (auto simp: messages_spec_Some frames_spec_eqs n(1) fd_new_def)
qed

lemma md_end_ok: "md_ok d \<Longrightarrow> is_ok (fst (md_end d)) \<longleftrightarrow> md_pending d = []"
  by (auto simp: md_end_def md_ok_def fd_end_def dec_ok_def md_pending_def pending_def be32_def split: option.splits)

end
