(* ===== verification/ProtocolProps.thy ===== *)
theory ProtocolProps imports ProtocolLaws begin

text \<open>The properties of the protocol codec, with their witnesses.\<close>

text \<open>
  C14. A stream of client messages survives any transport. Whatever \<open>Check\<close> accepts, messages that
  \<open>encodeClientMessage\<close> encodes, concatenated and cut into chunks in any way, come out of a new
  decoder with the same options, in order and unchanged; the decoder returns from every push, throws
  on none, and accepts the end of the stream.
\<close>

theorem client_messages_any_chunks:
  assumes "clientMessageDecoder chk options = Inr d"
    "list_all2 (\<lambda>v f. encodeClientMessage chk v options = Inr f) vs fs"
    "list_all wf_js vs" "concat chunks = concat fs"
  shows "\<exists>d'. push_all md_push chunks d = Some (Inr vs, d') \<and> fst (md_end d') = Inr ()"
proof -
  have new: "md_new ''client'' (parseClientMessage chk) options = Inr d"
    using assms(1) by (simp add: clientMessageDecoder_def)
  have parsed: "parseClientMessage chk v = Inr v \<and> isJsonValue v \<and> wf_js v" if v: "v \<in> set vs" for v
  proof -
    from v assms(2) obtain f where "encodeClientMessage chk v options = Inr f"
      by (auto simp: list_all2_conv_all_nth in_set_conv_nth)
    with v assms(3) show ?thesis
      by (auto simp: encodeClientMessage_def encodeProtocolMessage_def parseClientMessage_def bindE_eq_Inr
          list_all_iff split: if_splits)
  qed
  have "messages_spec d (md_pending d @ concat chunks) = Some (vs, [])"
    using messages_spec_encoded [OF new] assms(2,4) parsed md_new_ok(2) [OF new]
    by (simp add: encodeClientMessage_def)
  from mdec.push_all_Some [OF md_new_ok(1) [OF new] this] obtain d' where
    d': "push_all md_push chunks d = Some (Inr vs, d')" "md_ok d'" "md_pending d' = []" by blast
  with md_end_ok [OF d'(2)] show ?thesis by (auto simp: is_ok_iff)
qed

text \<open>The first message of a client, and its frame.\<close>

definition hello_message :: js_value where
  "hello_message = VObject False
     [([116, 121, 112, 101], VString [104, 101, 108, 108, 111]),
      ([118, 101, 114, 115, 105, 111, 110], VNumber (JsInt 8))]"

definition hello_frame :: bytes where
  "hello_frame = [0, 0, 0, 21, 0xa2, 0x64, 116, 121, 112, 101, 0x65, 104, 101, 108, 108, 111,
     0x67, 118, 101, 114, 115, 105, 111, 110, 8]"

lemma hello_bytes: "encodeCbor (Some (byte_limit 16777216)) hello_message = Inr (drop 4 hello_frame)"
proof -
  have o: "resolveOptions (Some (byte_limit 16777216)) =
      Inr \<lparr>maxByteLength = 16777216, maxContainerLength = 1000000, maxDepth = 64\<rparr>"
    by (simp add: resolveOptions_def resolveLimit_def Let_def byte_limit_def
        DEFAULT_MAX_CBOR_CONTAINER_LENGTH_def DEFAULT_MAX_CBOR_DEPTH_def MAX_CONFIGURED_DEPTH_def)
  show ?thesis
    unfolding encodeCbor_iff [OF o] hello_message_def hello_frame_def
    by (simp add: text_ok_def well_formed_text_def text_bytes_def arg_bytes_def head_byte_sum defined_entries_def
        is_finite_def is_safe_integer_def text_encode_def utf8_def text_decode_def from_scalar_def
        high_surrogate_def low_surrogate_def)
qed

lemma hello_json: "isJsonValue hello_message" "wf_js hello_message"
  by (simp_all add: isJsonValue_def hello_message_def check_json.simps is_finite_def keys_ordered_def
      key_before_def array_index_def Let_def)

lemma hello_encoded:
  assumes "chk ClientMessageSchema hello_message"
  shows "encodeClientMessage chk hello_message None = Inr hello_frame"
proof -
  have "encodeFrame (drop 4 hello_frame) = Inr hello_frame"
    by (simp add: encodeFrame_eq hello_frame_def be32_def drop_bit_eq_div)
  with assms show ?thesis
    by (simp add: encodeClientMessage_def encodeProtocolMessage_def parseClientMessage_def hello_json
        frame_limit_def DEFAULT_MAX_FRAME_LENGTH_def hello_bytes)
qed

lemma client_messages_any_chunks_witness:
  "\<exists>d d'. clientMessageDecoder (\<lambda>s v. s = ClientMessageSchema \<and> v = hello_message) None = Inr d \<and>
     push_all md_push [take 2 hello_frame, [], drop 2 hello_frame @ take 9 hello_frame, drop 9 hello_frame] d =
       Some (Inr [hello_message, hello_message], d') \<and> fst (md_end d') = Inr ()"
proof -
  let ?chk = "\<lambda>s v. s = ClientMessageSchema \<and> v = hello_message"
  obtain d where d: "clientMessageDecoder ?chk None = Inr d"
    by (simp add: clientMessageDecoder_def md_new_def resolveMaxFrameLength_def DEFAULT_MAX_FRAME_LENGTH_def)
  have e: "list_all2 (\<lambda>v f. encodeClientMessage ?chk v None = Inr f) [hello_message, hello_message] [hello_frame, hello_frame]"
    by (simp add: hello_encoded)
  note whole = client_messages_any_chunks [OF d e, of
      "[take 2 hello_frame, [], drop 2 hello_frame @ take 9 hello_frame, drop 9 hello_frame]"]
  have "\<exists>d'. push_all md_push [take 2 hello_frame, [], drop 2 hello_frame @ take 9 hello_frame, drop 9 hello_frame] d =
      Some (Inr [hello_message, hello_message], d') \<and> fst (md_end d') = Inr ()"
    by (rule whole) (simp_all add: hello_json hello_frame_def)
  with d show ?thesis by blast
qed

text \<open>
  C15. The frame decoder implements the byte stream. However the bytes are cut into chunks, a new
  decoder returns from every push; together the pushes deliver exactly the frames of the stream, and
  the end is accepted exactly when no frame is left unfinished. When a frame is longer than the
  limit a push throws, and so does every later one.
\<close>

theorem frames_any_chunks:
  assumes "resolveMaxFrameLength options = Inr limit"
  shows "case split_frames limit (concat chunks) of
      (fs, Some left) \<Rightarrow> \<exists>d. push_all fd_push chunks (fd_new limit) = Some (Inr fs, d) \<and>
        (is_ok (fst (fd_end d)) = (left = []))
    | (fs, None) \<Rightarrow> \<exists>e d. push_all fd_push chunks (fd_new limit) = Some (Inl e, d) \<and>
        (\<forall>chunk. \<exists>e'. fd_push chunk d = Some (Inl e', d))"
proof (cases "split_frames limit (concat chunks)")
  case (Pair fs left)
  have new: "dec_ok (fd_new limit)" "pending (fd_new limit) = []"
    using resolve_frame_limit [OF assms] by (simp_all add: dec_ok_new)
  have limit: "fd_maxFrameLength (fd_new limit) = limit" by (simp add: fd_new_def)
  show ?thesis
  proof (cases left)
    case None
    with fdec.push_all_None [OF new(1), of chunks] Pair fdec.push_broken show ?thesis
      by (auto simp: new(2) frames_spec_eqs limit)
  next
    case (Some p)
    with fdec.push_all_Some [OF new(1), of chunks fs p] Pair obtain d where
        "push_all fd_push chunks (fd_new limit) = Some (Inr fs, d)" "dec_ok d" "pending d = p"
      by (auto simp: new(2) frames_spec_eqs limit)
    then show ?thesis
      using Pair Some
      by (auto simp: fd_end_def dec_ok_def pending_def be32_def split: option.splits)
  qed
qed

theorem frames_any_chunks_witness:
  "\<exists>d. push_all fd_push [[0, 0, 0], [1, 7, 0, 0], [], [0, 0]] (fd_new 2) = Some (Inr [[7], []], d) \<and>
    is_ok (fst (fd_end d))"
proof -
  have "split_frames 2 (concat [[0, 0, 0], [1, 7, 0, 0], [], [0, 0]]) = ([[7], []], Some [])"
    by (simp add: split_frames.simps be_value_def)
  with frames_any_chunks [of "Some 2" 2 "[[0, 0, 0], [1, 7, 0, 0], [], [0, 0]]"] show ?thesis
    by (simp add: resolveMaxFrameLength_def)
qed

lemma default_options:
  "resolveOptions None = Inr \<lparr>maxByteLength = 16777216, maxContainerLength = 1000000, maxDepth = 64\<rparr>"
  by (simp add: resolveOptions_def resolveLimit_def Let_def DEFAULT_MAX_CBOR_BYTE_LENGTH_def
      DEFAULT_MAX_CBOR_CONTAINER_LENGTH_def DEFAULT_MAX_CBOR_DEPTH_def MAX_CONFIGURED_DEPTH_def)

text \<open>
  C25. CBOR round trip. What the encoder writes, the decoder with the same options reads back as the
  value without its \<open>undefined\<close> properties; so integers, doubles by their bits, text, bytes and the
  order of the properties are kept.
\<close>

theorem cbor_encode_decode:
  assumes "encodeCbor options v = Inr bs" "wf_js v"
  shows "decodeCbor options bs = Inr (defined_value v)"
proof -
  obtain opts where o: "resolveOptions options = Inr opts" using encodeCbor_resolved [OF assms(1)] by blast
  have "encodable opts 0 v" "length (cbor_bytes v) \<le> maxByteLength opts" "bs = cbor_bytes v"
    using encodeCbor_iff [OF o, of v bs] assms(1) by auto
  with decode_encoded [OF o _ assms(2)] show ?thesis by simp
qed

lemma cbor_encode_decode_witness:
  "decodeCbor None [0xa1, 0x61, 98, 0x82, 0x19, 1, 44, 0xf6] =
    Inr (VObject False [([98], VArray [VNumber (JsInt 300), VNull])])"
proof -
  have "encodeCbor None (VObject False [([98], VArray [VNumber (JsInt 300), VNull]), ([120], VUndefined)]) =
      Inr [0xa1, 0x61, 98, 0x82, 0x19, 1, 44, 0xf6]"
    unfolding encodeCbor_iff [OF default_options]
    by (simp add: text_ok_def well_formed_text_def text_bytes_def arg_bytes_def head_byte_sum defined_entries_def be16_def
        is_finite_def is_safe_integer_def text_encode_def utf8_def text_decode_def
        from_scalar_def high_surrogate_def low_surrogate_def)
  from cbor_encode_decode [OF this] show ?thesis
    by (simp add: keys_ordered_def key_before_def array_index_def)
qed

text \<open>
  C24. The decoder accepts nothing the encoder could not have written. Whatever bytes it decodes, the
  value has an encoding under the same options, no longer than those bytes, and that encoding
  decodes to the same value.
\<close>

theorem cbor_decode_encode:
  assumes "decodeCbor options bs = Inr v"
  shows "\<exists>cs. encodeCbor options v = Inr cs \<and> length cs \<le> length bs \<and> decodeCbor options cs = Inr v"
proof -
  obtain opts where o: "resolveOptions options = Inr opts"
    using assms by (auto simp: decodeCbor_def bindE_eq_Inr)
  note s = decoded_sound [OF o assms]
  then have v: "encodable opts 0 v" "wf_js v" "defined_value v = v" "length (cbor_bytes v) \<le> maxByteLength opts"
    by (simp_all add: sound_def)
  then have "encodeCbor options v = Inr (cbor_bytes v)" using encodeCbor_iff [OF o] by blast
  with decode_encoded [OF o v(1,2,4)] v(3) s(2) show ?thesis by auto
qed

lemma cbor_decode_encode_witness:
  "decodeCbor None [0x19, 0, 5] = Inr (VNumber (JsInt 5)) \<and>
   (\<exists>cs. encodeCbor None (VNumber (JsInt 5)) = Inr cs \<and> length cs \<le> length [0x19 :: byte, 0, 5] \<and>
     decodeCbor None cs = Inr (VNumber (JsInt 5)))"
proof -
  have d: "decodeCbor None [0x19, 0, 5] = Inr (VNumber (JsInt 5))"
    by (simp add: decodeCbor_def default_options readItem.simps readByte_def bindA_run act_simps
        readArgument_def readBytes_def)
  from cbor_decode_encode [OF d] d show ?thesis by blast
qed

end
