(* ===== verification/DeltaTracker.thy ===== *)
theory DeltaTracker imports DeltaDiff begin

text \<open>
  The tracker of \<open>packages/chord/src/delta/index.ts\<close>: \<open>track\<close>, its tree of dirty paths, the walk
  that turns it into operations and the baseline. A client changes the state through proxies that
  it reaches from \<open>state\<close> by reading properties. Here an access is the list of keys it reads and
  the operation on the container it arrives at, always starting at the root, and the state is a
  tree. Then a cached child proxy is the proxy \<open>wrap\<close> would make, so the caches are left out;
  proxies kept across a change of an array, values shared between two places and symbol keys are
  outside of the model, and so is assigning an object to the property that holds it.
\<close>

section \<open>Dirty paths\<close>

datatype array_dirty = ArrAppend nat | ArrDiff | ArrReplace

datatype dirty = Dirty (d_value: bool) (d_array: "array_dirty option") (d_children: "(seg \<times> dirty) list")

definition dirty_node :: dirty where "dirty_node = Dirty False None []"

definition settled :: "dirty \<Rightarrow> bool" where
  "settled n \<longleftrightarrow> d_value n \<or> d_array n = Some ArrDiff \<or> d_array n = Some ArrReplace"

text \<open>\<open>ensureNode\<close> with what its caller does to the node it returns; nothing when it returns
  \<open>undefined\<close>. A child on the way becomes the last of its map.\<close>

fun mark_at :: "path \<Rightarrow> (dirty \<Rightarrow> dirty) \<Rightarrow> dirty \<Rightarrow> dirty" where
  "mark_at [] f node = f node"
| "mark_at (s # p) f node =
     (if settled node then node
      else let child = (case map_of (d_children node) s of None \<Rightarrow> dirty_node | Some c \<Rightarrow> c) in
        Dirty (d_value node) (d_array node)
          (AList.delete s (d_children node) @ [(s, mark_at p f child)]))"

fun find_node :: "path \<Rightarrow> dirty \<Rightarrow> dirty option" where
  "find_node [] node = Some node"
| "find_node (s # p) node = (case map_of (d_children node) s of None \<Rightarrow> None | Some c \<Rightarrow> find_node p c)"

definition value_node :: "dirty \<Rightarrow> dirty" where
  "value_node n = Dirty True None []"

definition append_node :: "nat \<Rightarrow> dirty \<Rightarrow> dirty" where
  "append_node start n =
     (if settled n then n
      else if d_array n = None then Dirty (d_value n) (Some (ArrAppend start)) (d_children n) else n)"

definition diff_node :: "dirty \<Rightarrow> dirty" where
  "diff_node n = (if d_value n \<or> d_array n = Some ArrReplace then n else Dirty (d_value n) (Some ArrDiff) [])"

definition replace_node :: "dirty \<Rightarrow> dirty" where
  "replace_node n = (if d_value n then n else Dirty (d_value n) (Some ArrReplace) [])"

text \<open>The calls of \<open>markValue\<close> and its siblings an operation makes: at most one.\<close>

datatype mark = NoMark | MarkValue path | MarkAppend path nat | MarkDiff path | MarkReplace path

fun put_mark :: "mark \<Rightarrow> dirty \<Rightarrow> dirty" where
  "put_mark NoMark n = n"
| "put_mark (MarkValue p) n = mark_at p value_node n"
| "put_mark (MarkAppend p start) n = mark_at p (append_node start) n"
| "put_mark (MarkDiff p) n = mark_at p diff_node n"
| "put_mark (MarkReplace p) n = mark_at p replace_node n"

definition append_start :: "path \<Rightarrow> dirty \<Rightarrow> nat option" where
  "append_start p n = (case find_node p n of
     None \<Rightarrow> None
   | Some c \<Rightarrow> (case d_array c of Some (ArrAppend start) \<Rightarrow> Some start | _ \<Rightarrow> None))"

section \<open>Keys and proxies\<close>

text \<open>The regular expression \<open>INDEX\<close>, and \<open>norm\<close>.\<close>

definition is_digit :: "char \<Rightarrow> bool" where
  "is_digit c \<longleftrightarrow> c \<in> set ''0123456789''"

definition is_index :: "string \<Rightarrow> bool" where
  "is_index k \<longleftrightarrow> k = ''0'' \<or> (k \<noteq> [] \<and> hd k \<noteq> CHR ''0'' \<and> list_all is_digit k)"

definition norm_key :: "json \<Rightarrow> string \<Rightarrow> seg" where
  "norm_key target key = (case target of
     JArr xs \<Rightarrow> if is_index key then SIdx (read_nat 0 key) else SKey key
   | _ \<Rightarrow> SKey key)"

definition guard :: "seg \<Rightarrow> delta_error + seg" where
  "guard s = (case s of
     SKey k \<Rightarrow> if reserved k then Inl (UnsafePath (JStr k)) else Inr s
   | SIdx i \<Rightarrow> Inr s)"

text \<open>
  Reading a chain of properties from the proxy of \<open>node\<close>: the segment that blocks the proxy it
  arrives at, its path and its container. Reading \<open>__proto__\<close> where it is not an own property
  gives the prototype, an object, which \<open>guard\<close> refuses; other values that are no container have
  no proxy, and the client's next access throws.
\<close>

fun navigate :: "seg option \<Rightarrow> path \<Rightarrow> string list \<Rightarrow> json \<Rightarrow> delta_error + (seg option \<times> path \<times> json)" where
  "navigate blocked path [] node = Inr (blocked, path, node)"
| "navigate blocked path (key # keys) node =
     (let s = norm_key node key in
      case read_prop s node of
        None \<Rightarrow> Inl (if key = ''__proto__'' then UnsafePath (case blocked of None \<Rightarrow> JStr key | Some b \<Rightarrow> seg_json b)
                 else TypeErr ''the property is no tracked object'')
      | Some v \<Rightarrow>
          if \<not> isObj v then Inl (TypeErr ''the property is no tracked object'')
          else navigate (if blocked = None \<and> (\<exists>k\<in>set RESERVED_SEGMENTS. s = SKey k) then Some s else blocked)
                 (path @ [s]) keys v)"

section \<open>Numeric arguments\<close>

datatype js_num = NaN | Finite rat | Infinity | NegInfinity

datatype whole = Whole int | AboveAll | BelowAll

definition integer :: "js_num \<Rightarrow> whole" where
  "integer v = (case v of
     NaN \<Rightarrow> Whole 0
   | Finite q \<Rightarrow> Whole (if 0 \<le> q then \<lfloor>q\<rfloor> else \<lceil>q\<rceil>)
   | Infinity \<Rightarrow> AboveAll
   | NegInfinity \<Rightarrow> BelowAll)"

fun relative_index :: "nat \<Rightarrow> whole \<Rightarrow> nat" where
  "relative_index len (Whole i) = (if i < 0 then nat (max 0 (int len + i)) else min (nat i) len)"
| "relative_index len AboveAll = len"
| "relative_index len BelowAll = 0"

fun clamp_count :: "nat \<Rightarrow> whole \<Rightarrow> nat" where
  "clamp_count available (Whole i) = nat (max 0 (min i (int available)))"
| "clamp_count available AboveAll = available"
| "clamp_count available BelowAll = 0"

datatype splice_args = NoArgs | StartOnly js_num | StartCount js_num js_num "json list"

fun splice_range :: "nat \<Rightarrow> splice_args \<Rightarrow> nat \<times> nat" where
  "splice_range len NoArgs = (relative_index len (Whole 0), 0)"
| "splice_range len (StartOnly s) = (let i = relative_index len (integer s) in (i, len - i))"
| "splice_range len (StartCount s r items) =
     (let i = relative_index len (integer s) in (i, clamp_count (len - i) (integer r)))"

fun splice_given :: "splice_args \<Rightarrow> json list" where
  "splice_given (StartCount s r items) = items"
| "splice_given _ = []"

section \<open>Operations on a proxy\<close>

datatype tracked_op =
    AssignProp string "json option"
  | DeleteProp string
  | CallPush "json list"
  | CallPop
  | CallShift
  | CallUnshift "json list"
  | CallSplice splice_args
  | CallSort "json list \<Rightarrow> json list"
  | CallReverse
  | CallFill json js_num js_num
  | CallCopyWithin js_num js_num js_num
  | DefineProperty
  | SetPrototypeOf
  | PreventExtensions

datatype tracked_result =
    RUndefined | RTrue | RProxy | RLength nat | RJson json | RItems "json list"

text \<open>\<open>fill\<close> and \<open>copyWithin\<close> of the standard library with all their arguments.\<close>

definition array_fill :: "json \<Rightarrow> js_num \<Rightarrow> js_num \<Rightarrow> json list \<Rightarrow> json list" where
  "array_fill v s e xs =
     (let i = relative_index (length xs) (integer s); j = relative_index (length xs) (integer e)
      in take i xs @ replicate (j - i) v @ drop (max i j) xs)"

definition array_copy_within :: "js_num \<Rightarrow> js_num \<Rightarrow> js_num \<Rightarrow> json list \<Rightarrow> json list" where
  "array_copy_within t s e xs =
     (let n = length xs; to = relative_index n (integer t); i = relative_index n (integer s);
          j = relative_index n (integer e); count = min (j - i) (n - to)
      in take to xs @ take count (drop i xs) @ drop (to + count) xs)"

text \<open>
  The mutators: the mark, the result and the new array. \<open>start\<close> is \<open>appendStart\<close> of the path.
\<close>

fun call_mutator :: "nat option \<Rightarrow> path \<Rightarrow> tracked_op \<Rightarrow> json list \<Rightarrow> (tracked_result \<times> json list \<times> mark) option" where
  "call_mutator start path (CallPush items) xs =
     (let ys = splice_chunked (length xs) 0 items xs in
      Some (RLength (length ys), ys, if items \<noteq> [] then MarkAppend path (length xs) else NoMark))"
| "call_mutator start path (CallUnshift items) xs =
     (let ys = splice_chunked 0 0 items xs in
      Some (RLength (length ys), ys, if items \<noteq> [] then MarkDiff path else NoMark))"
| "call_mutator start path CallPop xs =
     Some (if xs = [] then RUndefined else RJson (last xs), butlast xs,
       if xs \<noteq> [] \<and> (case start of None \<Rightarrow> True | Some s \<Rightarrow> length xs - 1 < s) then MarkDiff path else NoMark)"
| "call_mutator start path CallShift xs =
     Some (if xs = [] then RUndefined else RJson (hd xs), tl xs, if xs \<noteq> [] then MarkDiff path else NoMark)"
| "call_mutator start path (CallSplice args) xs =
     (let items = splice_given args; (i, r) = splice_range (length xs) args;
          m = (if r > 0 \<or> items \<noteq> [] then
                 if i = 0 \<and> r = length xs then MarkReplace path
                 else if (case start of None \<Rightarrow> False | Some s \<Rightarrow> i \<ge> s) then NoMark
                 else if i = length xs \<and> r = 0 then MarkAppend path (length xs)
                 else MarkDiff path
               else NoMark)
      in Some (RItems (slice i (i + r) xs), splice_chunked i r items xs, m))"
| "call_mutator start path (CallSort f) xs = Some (RProxy, f xs, MarkDiff path)"
| "call_mutator start path CallReverse xs = Some (RProxy, rev xs, MarkDiff path)"
| "call_mutator start path (CallFill v s e) xs = Some (RProxy, array_fill v s e xs, MarkDiff path)"
| "call_mutator start path (CallCopyWithin t s e) xs = Some (RProxy, array_copy_within t s e xs, MarkDiff path)"
| "call_mutator start path _ xs = None"

text \<open>Assigning \<open>length\<close>, which is a number.\<close>

definition assign_length :: "nat option \<Rightarrow> path \<Rightarrow> json option \<Rightarrow> json list \<Rightarrow>
    delta_error + (tracked_result \<times> json \<times> mark)" where
  "assign_length start path v xs = (case v of
     Some (JNum q) \<Rightarrow>
       if of_int \<lfloor>q\<rfloor> \<noteq> q \<or> q < 0 \<or> q > 4294967295 then Inl (TypeErr ''Invalid array length'')
       else
         let n = nat \<lfloor>q\<rfloor> in
         if n < length xs then
           Inr (RTrue, JArr (take n xs),
             if n = 0 then MarkReplace path
             else if (case start of None \<Rightarrow> True | Some s \<Rightarrow> n < s) then MarkDiff path else NoMark)
         else if n > length xs then
           Inr (RTrue, JArr (xs @ replicate (n - length xs) JNull), MarkAppend path (length xs))
         else Inr (RTrue, JArr xs, NoMark)
   | _ \<Rightarrow> Inl (TypeErr ''Invalid array length''))"

definition delete_key :: "seg \<Rightarrow> json \<Rightarrow> json" where
  "delete_key s target = (case target of JObj es \<Rightarrow> JObj (AList.delete (seg_key s) es) | _ \<Rightarrow> target)"

definition check_slot :: "seg \<Rightarrow> json \<Rightarrow> delta_error + unit" where
  "check_slot s target = (case target of
     JArr xs \<Rightarrow> (case s of
         SKey k \<Rightarrow> Inl (UnsafePath (JStr k))
       | SIdx i \<Rightarrow> if i > length xs then Inl (UnsafePath (seg_json s)) else Inr ())
   | _ \<Rightarrow> Inr ())"

definition assign_prop :: "nat option \<Rightarrow> path \<Rightarrow> string \<Rightarrow> json option \<Rightarrow> json \<Rightarrow>
    delta_error + (tracked_result \<times> json \<times> mark)" where
  "assign_prop start path key v target =
     bindE (guard (norm_key target key)) (\<lambda>s. bindE (check_slot s target) (\<lambda>_.
       case v of
         None \<Rightarrow> (case target of
             JArr xs \<Rightarrow> Inl (TypeErr ''undefined would create a sparse array; use splice instead'')
           | _ \<Rightarrow> Inr (RTrue, delete_key s target, MarkValue (path @ [s])))
       | Some w \<Rightarrow>
           if (case read_prop s target of None \<Rightarrow> False | Some u \<Rightarrow> strict_equal u w) then Inr (RTrue, target, NoMark)
           else Inr (RTrue, write_prop s w target,
             case target of
               JArr xs \<Rightarrow> if s = SIdx (length xs) then MarkAppend path (length xs)
                 else if (case start of None \<Rightarrow> True | Some st \<Rightarrow> (case s of SIdx i \<Rightarrow> i < st | SKey k \<Rightarrow> True))
                   then MarkValue (path @ [s]) else NoMark
             | _ \<Rightarrow> MarkValue (path @ [s]))))"

definition delete_prop_of :: "path \<Rightarrow> string \<Rightarrow> json \<Rightarrow> delta_error + (tracked_result \<times> json \<times> mark)" where
  "delete_prop_of path key target =
     bindE (guard (norm_key target key)) (\<lambda>s.
       case target of
         JArr xs \<Rightarrow> (case s of
             SKey k \<Rightarrow> Inl (UnsafePath (JStr k))
           | SIdx i \<Rightarrow> Inl (TypeErr ''delete would create a sparse array; use splice instead''))
       | _ \<Rightarrow> Inr (RTrue, delete_key s target, MarkValue (path @ [s])))"

definition check_blocked :: "seg option \<Rightarrow> delta_error + unit" where
  "check_blocked blocked = (case blocked of None \<Rightarrow> Inr () | Some s \<Rightarrow> Inl (UnsafePath (seg_json s)))"

definition proxy_op :: "seg option \<Rightarrow> nat option \<Rightarrow> path \<Rightarrow> tracked_op \<Rightarrow> json \<Rightarrow>
    delta_error + (tracked_result \<times> json \<times> mark)" where
  "proxy_op blocked start path op target = (case op of
     AssignProp key v \<Rightarrow> bindE (check_blocked blocked) (\<lambda>_.
       case target of
          JArr xs \<Rightarrow> if key = ''length'' then assign_length start path v xs
                     else assign_prop start path key v target
        | _ \<Rightarrow> assign_prop start path key v target)
   | DeleteProp key \<Rightarrow> bindE (check_blocked blocked) (\<lambda>_. delete_prop_of path key target)
   | DefineProperty \<Rightarrow> Inl (TypeErr ''defineProperty is not supported on tracked state; use assignment'')
   | SetPrototypeOf \<Rightarrow> Inl (TypeErr ''setPrototypeOf is not supported on tracked state'')
   | PreventExtensions \<Rightarrow> Inl (TypeErr ''preventExtensions is not supported on tracked state'')
   | _ \<Rightarrow> (case target of
        JArr xs \<Rightarrow> bindE (check_blocked blocked) (\<lambda>_. case call_mutator start path op xs of
            None \<Rightarrow> Inl (TypeErr ''not a function'')
          | Some (r, ys, m) \<Rightarrow> Inr (r, JArr ys, m))
      | _ \<Rightarrow> Inl (TypeErr ''not a function'')))"

section \<open>The walk over the dirty paths\<close>

definition skipped :: "nat option \<Rightarrow> seg \<Rightarrow> bool" where
  "skipped limit s = (case limit of
     None \<Rightarrow> False
   | Some start \<Rightarrow> (case s of SKey k \<Rightarrow> True | SIdx i \<Rightarrow> i \<ge> start))"

fun walk_dirty :: "nat \<Rightarrow> json \<Rightarrow> json \<Rightarrow> dirty \<Rightarrow> path \<Rightarrow> delta_error + op list"
  and walk_children :: "nat \<Rightarrow> nat option \<Rightarrow> json \<Rightarrow> json \<Rightarrow> (seg \<times> dirty) list \<Rightarrow> path \<Rightarrow> delta_error + op list"
where
  "walk_dirty scan before after (Dirty v a cs) path =
     (if v then diff_value scan (Some before) (Some after) path
      else case a of
        Some ArrReplace \<Rightarrow> Inr (if \<not> json_equal before after then emit_set path after else [])
      | Some ArrDiff \<Rightarrow> diff_value scan (Some before) (Some after) path
      | Some (ArrAppend start) \<Rightarrow>
          (case (before, after) of
             (JArr xs, JArr ys) \<Rightarrow>
               if length xs \<noteq> start \<or> length ys < start then diff_value scan (Some before) (Some after) path
               else bindE (walk_children scan (Some start) before after cs path) (\<lambda>ops.
                 Inr (ops @ (if drop start ys \<noteq> [] then [OpP path start 0 (map clone_json (drop start ys))] else [])))
           | _ \<Rightarrow> diff_value scan (Some before) (Some after) path)
      | None \<Rightarrow> walk_children scan None before after cs path)"
| "walk_children scan limit before after [] path = Inr []"
| "walk_children scan limit before after ((s, c) # cs) path =
     (if skipped limit s then walk_children scan limit before after cs path
      else bindE
        (case (read_prop s before, read_prop s after) of
           (Some b, Some r) \<Rightarrow>
             if d_value c \<or> \<not> isObj b \<or> \<not> isObj r then diff_value scan (Some b) (Some r) (path @ [s])
             else walk_dirty scan b r c (path @ [s])
         | (b, r) \<Rightarrow> diff_value scan b r (path @ [s]))
        (\<lambda>ops. bindE (walk_children scan limit before after cs path) (\<lambda>more. Inr (ops @ more))))"

section \<open>The baseline\<close>

fun can_sync :: "dirty \<Rightarrow> bool" where
  "can_sync (Dirty v a cs) =
     ((case a of Some ArrDiff \<Rightarrow> False | Some ArrReplace \<Rightarrow> False | _ \<Rightarrow> True) \<and> (\<forall>(s, c)\<in>set cs. can_sync c))"

text \<open>Removing the property that \<open>root\<close> no longer has.\<close>

definition drop_prop :: "seg \<Rightarrow> json \<Rightarrow> json" where
  "drop_prop s parent = (case parent of
     JArr xs \<Rightarrow> (case s of SIdx i \<Rightarrow> JArr (splice_at i 1 [] xs) | SKey k \<Rightarrow> parent)
   | JObj es \<Rightarrow> JObj (AList.delete (seg_key s) es)
   | _ \<Rightarrow> parent)"

definition same_kind :: "json \<Rightarrow> json \<Rightarrow> bool" where
  "same_kind a b \<longleftrightarrow> (case a of
     JArr xs \<Rightarrow> (case b of JArr ys \<Rightarrow> True | _ \<Rightarrow> False)
   | JObj es \<Rightarrow> (case b of JObj fs \<Rightarrow> True | _ \<Rightarrow> False)
   | _ \<Rightarrow> False)"

text \<open>The start and the items of a pure append.\<close>

definition appended :: "array_dirty option \<Rightarrow> json \<Rightarrow> json \<Rightarrow> (nat \<times> json list) option" where
  "appended a baseline rt = (case a of
     Some (ArrAppend start) \<Rightarrow> (case baseline of
         JArr xs \<Rightarrow> (case rt of JArr ys \<Rightarrow> Some (start, drop start ys) | _ \<Rightarrow> None)
       | _ \<Rightarrow> None)
   | _ \<Rightarrow> None)"

fun sync_into :: "json \<Rightarrow> json \<Rightarrow> dirty \<Rightarrow> json"
  and sync_children :: "nat option \<Rightarrow> json \<Rightarrow> json \<Rightarrow> (seg \<times> dirty) list \<Rightarrow> json"
where
  "sync_into baseline rt (Dirty v a cs) =
     (case appended a baseline rt of
        None \<Rightarrow> sync_children None baseline rt cs
      | Some (start, items) \<Rightarrow>
          (case sync_children (Some start) baseline rt cs of
             JArr zs \<Rightarrow> JArr (zs @ map clone_json items)
           | z \<Rightarrow> z))"
| "sync_children limit parent rt [] = parent"
| "sync_children limit parent rt ((s, c) # cs) =
     (if skipped limit s then sync_children limit parent rt cs
      else sync_children limit
        (case read_prop s rt of
           None \<Rightarrow> drop_prop s parent
         | Some cur \<Rightarrow> (case read_prop s parent of
             None \<Rightarrow> write_prop s (clone_json cur) parent
           | Some prev \<Rightarrow>
               if d_value c \<or> \<not> same_kind cur prev then write_prop s (clone_json cur) parent
               else write_prop s (sync_into prev cur c) parent))
        rt cs)"

definition sync_baseline :: "json \<Rightarrow> json \<Rightarrow> dirty \<Rightarrow> json option" where
  "sync_baseline baseline rt node = (if can_sync node then Some (sync_into baseline rt node) else None)"

fun clone_op :: "op \<Rightarrow> op" where
  "clone_op (OpR v) = OpR (clone_json v)"
| "clone_op (OpS p v) = OpS p (clone_json v)"
| "clone_op (OpP p i r items) = OpP p i r (map clone_json items)"
| "clone_op op = op"

section \<open>The tracker\<close>

record tracker =
  tk_root :: json
  tk_scan :: nat
  tk_pending :: dirty
  tk_hasPending :: bool
  tk_baseline :: "json option"
  tk_forceBase :: bool

definition track :: "json \<Rightarrow> nat option \<Rightarrow> tracker" where
  "track rt scan = \<lparr>tk_root = rt, tk_scan = (case scan of None \<Rightarrow> 65536 | Some n \<Rightarrow> n),
     tk_pending = dirty_node, tk_hasPending = False, tk_baseline = None, tk_forceBase = True\<rparr>"

definition clear_pending :: "tracker \<Rightarrow> tracker" where
  "clear_pending t = t\<lparr>tk_pending := dirty_node, tk_hasPending := False\<rparr>"

text \<open>An operation of a client on the container that the keys lead to.\<close>

definition tracked_call :: "string list \<Rightarrow> tracked_op \<Rightarrow> tracker \<Rightarrow> delta_error + (tracked_result \<times> tracker)" where
  "tracked_call keys op t = bindE (navigate None [] keys (tk_root t)) (\<lambda>(blocked, path, target).
     bindE (proxy_op blocked (append_start path (tk_pending t)) path op target) (\<lambda>(r, target', m).
       Inr (r, t\<lparr>tk_root := jt.putp path target' (tk_root t), tk_pending := put_mark m (tk_pending t),
         tk_hasPending := (tk_hasPending t \<or> m \<noteq> NoMark)\<rparr>)))"

text \<open>Assigning \<open>state\<close>: the state's own proxy is \<open>None\<close>.\<close>

definition set_state :: "json option \<Rightarrow> tracker \<Rightarrow> tracker" where
  "set_state next t = (case next of
     None \<Rightarrow> (clear_pending t)\<lparr>tk_forceBase := True\<rparr>
   | Some v \<Rightarrow> (clear_pending t)\<lparr>tk_root := v, tk_baseline := None, tk_forceBase := True\<rparr>)"

definition rebase :: "tracker \<Rightarrow> tracker" where
  "rebase t = (clear_pending t)\<lparr>tk_forceBase := True\<rparr>"

definition is_dirty :: "tracker \<Rightarrow> bool" where
  "is_dirty t \<longleftrightarrow> tk_forceBase t \<or> tk_hasPending t"

definition discard :: "tracker \<Rightarrow> tracker" where
  "discard t = clear_pending (t\<lparr>tk_baseline := Some (clone_json (tk_root t))\<rparr>)"

definition flush :: "tracker \<Rightarrow> delta_error + (op list \<times> tracker)" where
  "flush t =
     (if tk_forceBase t then
        Inr ([OpR (clone_json (tk_root t))],
          clear_pending (t\<lparr>tk_baseline := Some (clone_json (tk_root t)), tk_forceBase := False\<rparr>))
      else case tk_baseline t of
        None \<Rightarrow> Inr ([], t)
      | Some b \<Rightarrow>
          if \<not> tk_hasPending t then Inr ([], t)
          else bindE (walk_dirty (tk_scan t) b (tk_root t) (tk_pending t) []) (\<lambda>out.
            bindE (case sync_baseline b (tk_root t) (tk_pending t) of
                Some b' \<Rightarrow> Inr b'
              | None \<Rightarrow> if out \<noteq> [] then apply_ops (map clone_op out) b else Inr b) (\<lambda>b'.
              Inr (out, clear_pending (t\<lparr>tk_baseline := Some b'\<rparr>)))))"

end
