(* ===== verification/TrackerLaws.thy ===== *)
theory TrackerLaws imports DeltaTracker begin

text \<open>
  What the tree of dirty paths says. \<open>covered node b r\<close> holds when everything in which \<open>r\<close> differs
  from the baseline \<open>b\<close> lies under a mark of \<open>node\<close>. Then the walk produces operations that turn
  \<open>b\<close> into \<open>r\<close>, and copying along the marks brings the baseline up to \<open>r\<close>.
\<close>

section \<open>Slots of a container\<close>

text \<open>The segments under which a container has children.\<close>

definition proper :: "seg \<Rightarrow> json \<Rightarrow> bool" where
  "proper s v \<longleftrightarrow> (case v of JArr xs \<Rightarrow> (\<exists>i. s = SIdx i) | _ \<Rightarrow> (\<exists>k. s = SKey k))"

text \<open>Containers of the same kind; arrays of the same length.\<close>

definition alike :: "json \<Rightarrow> json \<Rightarrow> bool" where
  "alike a b \<longleftrightarrow> (case a of
     JArr xs \<Rightarrow> (case b of JArr ys \<Rightarrow> length xs = length ys | _ \<Rightarrow> False)
   | JObj es \<Rightarrow> (case b of JObj fs \<Rightarrow> True | _ \<Rightarrow> False)
   | _ \<Rightarrow> False)"

lemma alike_cases:
  "alike a b \<longleftrightarrow> (\<exists>xs ys. a = JArr xs \<and> b = JArr ys \<and> length xs = length ys) \<or> (\<exists>es fs. a = JObj es \<and> b = JObj fs)"
  by (auto simp: alike_def split: json.splits)

lemma alike_refl: "isObj a \<Longrightarrow> alike a a"
  by (auto simp: alike_cases isObj_cases)

lemma alike_trans: "alike a b \<Longrightarrow> alike b c \<Longrightarrow> alike a c"
  by (auto simp: alike_cases)

lemma alike_sym: "alike a b \<Longrightarrow> alike b a"
  by (auto simp: alike_cases)

lemma alike_proper: "alike a b \<Longrightarrow> proper s a = proper s b"
  by (auto simp: alike_cases proper_def)

lemma alike_isObj: "alike a b \<Longrightarrow> isObj a \<and> isObj b"
  by (auto simp: alike_cases)

lemma read_isObj: "read_prop s v = Some c \<Longrightarrow> isObj v"
  by (auto simp: read_prop_def isObj_cases split: json.splits)

lemma alike_write: "read_prop s v = Some c \<Longrightarrow> alike v (write_prop s d v)"
  by (auto simp: read_prop_def write_prop_def alike_cases split: json.splits seg.splits if_splits)

lemma read_write_other:
  "read_prop s v = Some c \<Longrightarrow> proper s v \<Longrightarrow> proper t v \<Longrightarrow> t \<noteq> s \<Longrightarrow>
   read_prop t (write_prop s d v) = read_prop t v"
  by (auto simp: read_prop_def write_prop_def proper_def update_conv split: json.splits seg.splits if_splits)

lemma read_proper_None: "alike a b \<Longrightarrow> a = JArr xs \<Longrightarrow> (read_prop s a = None) = (read_prop s b = None)"
  by (auto simp: alike_cases read_prop_def split: seg.splits)

text \<open>Alike containers with equal children are equal.\<close>

lemma json_equal_slots:
  assumes "alike a b" "wf_json a" "wf_json b"
    "\<And>s. proper s a \<Longrightarrow> rel_option json_equal (read_prop s a) (read_prop s b)"
  shows "json_equal a b"
proof (cases a)
  case (JArr xs)
  then obtain ys where b: "b = JArr ys" "length xs = length ys" using assms(1) by (auto simp: alike_cases)
  have "json_equal (xs ! i) (ys ! i)" if "i < length xs" for i
    using assms(4) [of "SIdx i"] that b(2) by (simp add: JArr b(1) proper_def read_prop_def)
  then show ?thesis using b by (simp add: JArr list_all2_conv_all_nth)
next
  case (JObj es)
  then obtain fs where b: "b = JObj fs" using assms(1) by (auto simp: alike_cases)
  have "rel_option json_equal (map_of es k) (map_of fs k)" for k
    using assms(4) [of "SKey k"] by (simp add: JObj b proper_def read_prop_def)
  then show ?thesis using assms(2,3) by (simp add: JObj b json_equal_obj_iff)
qed (use assms(1) in \<open>auto simp: alike_cases\<close>)

lemma json_equal_alike: "json_equal a b \<Longrightarrow> isObj a \<Longrightarrow> alike a b"
  by (cases a; cases b) (auto simp: alike_cases dest: list_all2_lengthD)

section \<open>Coverage\<close>

definition append_limit :: "array_dirty option \<Rightarrow> nat option" where
  "append_limit a = (case a of Some (ArrAppend start) \<Rightarrow> Some start | _ \<Rightarrow> None)"

definition key_ok :: "seg \<Rightarrow> bool" where
  "key_ok s \<longleftrightarrow> (case s of SKey k \<Rightarrow> \<not> reserved k | SIdx i \<Rightarrow> True)"

text \<open>The shape a node's own mark promises.\<close>

definition fits :: "array_dirty option \<Rightarrow> json \<Rightarrow> json \<Rightarrow> bool" where
  "fits a b r \<longleftrightarrow> (case append_limit a of
     None \<Rightarrow> alike b r
   | Some start \<Rightarrow> (\<exists>xs ys. b = JArr xs \<and> r = JArr ys \<and> length xs = start \<and> start \<le> length ys))"

fun covered :: "dirty \<Rightarrow> json \<Rightarrow> json \<Rightarrow> bool" where
  "covered (Dirty v a cs) b r \<longleftrightarrow> v \<or> a = Some ArrDiff \<or> a = Some ArrReplace \<or>
     (fits a b r \<and> distinct (map fst cs) \<and>
      (\<forall>(s, c)\<in>set cs. proper s b \<and> key_ok s \<and> (\<not> skipped (append_limit a) s \<longrightarrow>
         (case read_prop s b of None \<Rightarrow> True | Some x \<Rightarrow> (case read_prop s r of None \<Rightarrow> True | Some y \<Rightarrow>
            d_value c \<or> \<not> isObj x \<or> \<not> isObj y \<or> covered c x y)))) \<and>
      (\<forall>s. proper s b \<and> \<not> skipped (append_limit a) s \<and> s \<notin> fst ` set cs \<longrightarrow>
         rel_option json_equal (read_prop s b) (read_prop s r)))"

text \<open>A child, named or not, and the values it stands for.\<close>

definition slot_covered :: "dirty \<Rightarrow> json option \<Rightarrow> json option \<Rightarrow> bool" where
  "slot_covered c b r \<longleftrightarrow> (\<forall>x y. b = Some x \<and> r = Some y \<longrightarrow>
     d_value c \<or> \<not> isObj x \<or> \<not> isObj y \<or> covered c x y)"

definition child_covered :: "(seg \<times> dirty) list \<Rightarrow> seg \<Rightarrow> json option \<Rightarrow> json option \<Rightarrow> bool" where
  "child_covered cs s b r \<longleftrightarrow> (case map_of cs s of
     None \<Rightarrow> rel_option json_equal b r
   | Some c \<Rightarrow> slot_covered c b r)"

lemma child_covered_simps:
  "map_of cs s = None \<Longrightarrow> child_covered cs s b r = rel_option json_equal b r"
  "map_of cs s = Some c \<Longrightarrow> child_covered cs s b r = slot_covered c b r"
  by (simp_all add: child_covered_def)

definition covered_slots :: "array_dirty option \<Rightarrow> (seg \<times> dirty) list \<Rightarrow> json \<Rightarrow> json \<Rightarrow> bool" where
  "covered_slots a cs b r \<longleftrightarrow> fits a b r \<and> distinct (map fst cs) \<and> (\<forall>s\<in>fst ` set cs. proper s b \<and> key_ok s) \<and>
     (\<forall>s. proper s b \<and> \<not> skipped (append_limit a) s \<longrightarrow> child_covered cs s (read_prop s b) (read_prop s r))"

lemma covered_iff: "covered n b r \<longleftrightarrow> settled n \<or> covered_slots (d_array n) (d_children n) b r"
proof (cases n)
  case (Dirty v a cs)
  have "map_of cs s = Some c \<longleftrightarrow> (s, c) \<in> set cs" if "distinct (map fst cs)" for s c
    using that by simp
  then show ?thesis
    unfolding Dirty covered.simps settled_def covered_slots_def child_covered_def slot_covered_def dirty.sel
    by (auto split: option.splits simp: map_of_eq_None_iff) (force+)
qed

declare covered.simps [simp del]


lemma covered_fresh: "json_equal b r \<Longrightarrow> wf_json b \<Longrightarrow> wf_json r \<Longrightarrow> isObj b \<Longrightarrow> covered dirty_node b r"
  by (auto simp: covered_iff dirty_node_def covered_slots_def fits_def append_limit_def child_covered_def
      intro: json_equal_alike read_prop_equal)

lemma covered_fresh_equal: "covered dirty_node b r \<Longrightarrow> wf_json b \<Longrightarrow> wf_json r \<Longrightarrow> json_equal b r"
  by (rule json_equal_slots)
    (auto simp: covered_iff dirty_node_def settled_def covered_slots_def fits_def append_limit_def child_covered_def
      skipped_def)

section \<open>Marks keep coverage\<close>

fun typed :: "path \<Rightarrow> json \<Rightarrow> bool" where
  "typed [] v = True"
| "typed (s # p) v = (proper s v \<and> key_ok s \<and> (case read_prop s v of None \<Rightarrow> False | Some c \<Rightarrow> typed p c))"

lemma settled_value: "d_value n \<Longrightarrow> settled n"
  by (simp add: settled_def)

lemma covered_settled: "settled n \<Longrightarrow> covered n b r"
  by (simp add: covered_iff)

lemma fits_proper: "fits a b r \<Longrightarrow> proper s b = proper s r"
  by (cases "append_limit a") (auto simp: fits_def alike_proper, auto simp: proper_def)

lemma fits_write: "fits a b r \<Longrightarrow> read_prop s r = Some c \<Longrightarrow> fits a b (write_prop s d r)"
  using alike_write [of s r c d]
  by (auto simp: fits_def alike_cases split: option.splits)

lemma map_of_moved:
  "map_of (AList.delete s cs @ [(s, c)]) t = (if t = s then Some c else map_of cs t)"
  by (auto simp: map_add_def delete_conv split: option.split)

lemma distinct_moved: "distinct (map fst cs) \<Longrightarrow> distinct (map fst (AList.delete s cs @ [(s, c)]))"
  by (simp add: distinct_delete) (auto simp: AList.delete_eq)

lemma keys_moved: "fst ` set (AList.delete s cs @ [(s, c)]) = insert s (fst ` set cs)"
  by (auto simp: AList.delete_eq image_iff)

text \<open>One child of the value and of the node change.\<close>

lemma covered_slots_change:
  assumes "covered_slots a cs b r" "fits a b r'" "\<And>t. proper t b \<Longrightarrow> t \<noteq> s \<Longrightarrow> read_prop t r' = read_prop t r"
    "\<not> skipped (append_limit a) s \<Longrightarrow> slot_covered c (read_prop s b) (read_prop s r')"
  shows "proper s b \<Longrightarrow> key_ok s \<Longrightarrow> covered_slots a (AList.delete s cs @ [(s, c)]) b r'"
    and "map_of cs s = Some c \<Longrightarrow> covered_slots a cs b r'"
proof -
  note f = assms(1) [unfolded covered_slots_def]
  have main: "child_covered ds t (read_prop t b) (read_prop t r')"
    if ds: "\<And>u. map_of ds u = (if u = s then Some c else map_of cs u)"
      and t: "proper t b" "\<not> skipped (append_limit a) t" for ds t
  proof (cases "t = s")
    case True
    then show ?thesis using assms(4) t ds [of s] by (simp add: child_covered_simps)
  next
    case False
    with f t assms(3) ds [of t] show ?thesis by (simp add: child_covered_def)
  qed
  show "covered_slots a (AList.delete s cs @ [(s, c)]) b r'" if "proper s b" "key_ok s"
    using f that assms(2) main [OF map_of_moved]
    unfolding covered_slots_def keys_moved by (simp only: distinct_moved ball_simps simp_thms) blast
  show "covered_slots a cs b r'" if "map_of cs s = Some c"
    using f that assms(2) main [of cs] unfolding covered_slots_def by auto
qed

lemma covered_slots_write:
  assumes "covered_slots a cs b r" "proper s r" "read_prop s r = Some z"
    "\<not> skipped (append_limit a) s \<Longrightarrow> slot_covered c (read_prop s b) (Some z')"
  shows "key_ok s \<Longrightarrow> covered_slots a (AList.delete s cs @ [(s, c)]) b (write_prop s z' r)"
    and "map_of cs s = Some c \<Longrightarrow> covered_slots a cs b (write_prop s z' r)"
proof -
  have f: "fits a b r" using assms(1) by (simp add: covered_slots_def)
  have p: "proper t b = proper t r" for t using fits_proper [OF f] .
  have other: "read_prop t (write_prop s z' r) = read_prop t r" if "proper t b" "t \<noteq> s" for t
    using read_write_other [OF assms(3,2)] that p by simp
  have here: "slot_covered c (read_prop s b) (read_prop s (write_prop s z' r))" if "\<not> skipped (append_limit a) s"
    using assms(4) that jt.get_put [OF assms(3)] by simp
  note change = covered_slots_change [OF assms(1) fits_write [OF f assms(3)] other here]
  show "key_ok s \<Longrightarrow> covered_slots a (AList.delete s cs @ [(s, c)]) b (write_prop s z' r)"
    using change(1) assms(2) p by simp
  show "map_of cs s = Some c \<Longrightarrow> covered_slots a cs b (write_prop s z' r)"
    by (rule change(2))
qed

lemma covered_mark_at:
  assumes "isObj x" "isObj x'" "\<And>c. d_value c \<Longrightarrow> d_value (f c)"
    "\<And>c y. covered c y x \<Longrightarrow> covered (f c) y x'" "wf_json r"
  shows "covered node b r \<Longrightarrow> jt.getp p r = Some x \<Longrightarrow> typed p r \<Longrightarrow> wf_json b \<Longrightarrow> wf_json r \<Longrightarrow>
    covered (mark_at p f node) b (jt.putp p x' r)"
proof (induction p arbitrary: node b r)
  case Nil
  then show ?case using assms(4) by simp
next
  case (Cons s p)
  show ?case
  proof (cases "settled node")
    case True
    then show ?thesis by (simp add: covered_settled)
  next
    case False
    obtain z where z: "read_prop s r = Some z" "jt.getp p z = Some x" "typed p z" "proper s r" "key_ok s"
      using Cons.prems(2,3) by (auto split: option.splits)
    have zo: "isObj z" using z(2) assms(1) by (cases p) (auto split: option.splits dest: read_isObj)
    let ?c = "case map_of (d_children node) s of None \<Rightarrow> dirty_node | Some c \<Rightarrow> c"
    let ?c' = "mark_at p f ?c" and ?z' = "jt.putp p x' z"
    have slots: "covered_slots (d_array node) (d_children node) b r"
      using Cons.prems(1) False by (simp add: covered_iff)
    have "slot_covered ?c' (read_prop s b) (Some ?z')" if ns: "\<not> skipped (append_limit (d_array node)) s"
    proof (cases "read_prop s b")
      case (Some y)
      have wy: "wf_json y" "wf_json z" using Some z(1) Cons.prems(4,5) wf_read_prop by blast+
      have "proper s b" using slots z(4) fits_proper by (auto simp: covered_slots_def)
      then have cc: "child_covered (d_children node) s (Some y) (Some z)"
        using slots ns Some z(1) unfolding covered_slots_def by metis
      then consider "d_value ?c" | "\<not> isObj y" | "covered ?c y z"
        using zo covered_fresh [of y z] wy json_equal_isObj [of y z]
        by (auto simp: child_covered_def slot_covered_def split: option.splits)
      then show ?thesis
      proof cases
        case 1
        then have "d_value ?c'" using assms(3) by (cases p) (simp_all add: settled_value)
        then show ?thesis by (simp add: slot_covered_def)
      next
        case 3
        from Cons.IH [OF 3 z(2,3) wy] show ?thesis using Some by (simp add: slot_covered_def)
      qed (simp add: slot_covered_def Some)
    qed (simp add: slot_covered_def)
    from covered_slots_write(1) [OF slots z(4,1) this z(5)] False show ?thesis
      by (simp add: covered_iff z(1) Let_def)
  qed
qed

text \<open>A change in the tail that an append mark already covers.\<close>

lemma covered_tail:
  "covered node b r \<Longrightarrow> find_node p node = Some c \<Longrightarrow> d_array c = Some (ArrAppend start) \<Longrightarrow>
   jt.getp p r = Some (JArr xs) \<Longrightarrow> typed p r \<Longrightarrow> start \<le> length xs' \<Longrightarrow> take start xs' = take start xs \<Longrightarrow>
   covered node b (jt.putp p (JArr xs') r)"
proof (induction p arbitrary: node b r)
  case Nil
  then have n: "node = c" "r = JArr xs" by simp_all
  have same: "read_prop (SIdx i) (JArr xs') = read_prop (SIdx i) (JArr xs)" if "i < start" "start \<le> length xs" for i
    using that Nil.prems(6,7) by (auto simp: read_prop_def) (metis nth_take)
  show ?case
  proof (cases "settled c")
    case False
    then have s: "covered_slots (Some (ArrAppend start)) (d_children c) b (JArr xs)"
      using Nil.prems(1,3) n by (simp add: covered_iff)
    then have l: "start \<le> length xs" by (auto simp: covered_slots_def fits_def append_limit_def)
    have "child_covered (d_children c) t (read_prop t b) (read_prop t (JArr xs'))"
      if "proper t b" "\<not> skipped (Some start) t" for t
      using s that same [OF _ l] by (auto simp: covered_slots_def append_limit_def skipped_def split: seg.splits)
    then have "covered_slots (Some (ArrAppend start)) (d_children c) b (JArr xs')"
      using s Nil.prems(6) unfolding covered_slots_def fits_def append_limit_def by auto
    with Nil.prems(3) n show ?thesis by (simp add: covered_iff)
  qed (simp add: n covered_settled)
next
  case (Cons s p)
  obtain z where z: "read_prop s r = Some z" "jt.getp p z = Some (JArr xs)" "typed p z" "proper s r" "key_ok s"
    using Cons.prems(4,5) by (auto split: option.splits)
  obtain n where n: "map_of (d_children node) s = Some n" "find_node p n = Some c"
    using Cons.prems(2) by (auto split: option.splits)
  show ?case
  proof (cases "settled node")
    case False
    then have slots: "covered_slots (d_array node) (d_children node) b r"
      using Cons.prems(1) by (simp add: covered_iff)
    have zo: "isObj z" using z(2) by (cases p) (auto split: option.splits dest: read_isObj)
    let ?z' = "jt.putp p (JArr xs') z"
    have "slot_covered n (read_prop s b) (Some ?z')" if ns: "\<not> skipped (append_limit (d_array node)) s"
    proof (cases "read_prop s b")
      case (Some y)
      have "proper s b" using slots z(4) fits_proper by (auto simp: covered_slots_def)
      then have "child_covered (d_children node) s (Some y) (Some z)"
        using slots ns Some z(1) unfolding covered_slots_def by metis
      then have "d_value n \<or> \<not> isObj y \<or> covered n y z" using zo n(1) by (simp add: child_covered_def slot_covered_def)
      with Cons.IH [OF _ n(2) Cons.prems(3) z(2,3) Cons.prems(6,7)] show ?thesis
        by (auto simp: slot_covered_def Some)
    qed (simp add: slot_covered_def)
    from covered_slots_write(2) [OF slots z(4,1) this n(1)] show ?thesis by (simp add: covered_iff z(1))
  qed (simp add: covered_settled)
qed

end
