(* ===== verification/TrackerOps.thy ===== *)
theory TrackerOps imports TrackerLaws "HOL-Library.Multiset" begin

text \<open>
  The operations of a client keep the coverage: whatever a proxy does to its container, the mark it
  leaves covers the change.
\<close>

section \<open>What the marks do to a node\<close>

lemma mark_at_snoc: "mark_at (p @ [s]) f n = mark_at p (mark_at [s] f) n"
  by (induction p arbitrary: n) simp_all

lemma marked_value:
  "d_value c \<Longrightarrow> d_value (value_node c)" "d_value c \<Longrightarrow> d_value (append_node st c)"
  "d_value c \<Longrightarrow> d_value (diff_node c)" "d_value c \<Longrightarrow> d_value (replace_node c)"
  "d_value c \<Longrightarrow> d_value (mark_at [s] f c)"
  by (simp_all add: value_node_def append_node_def diff_node_def replace_node_def settled_def)

lemma settled_marks: "settled (diff_node c)" "settled (replace_node c)"
  by (auto simp: settled_def diff_node_def replace_node_def)

text \<open>Replacing, adding or removing one property under a value mark.\<close>

lemma covered_value_child:
  assumes "covered c y x" "proper s x" "key_ok s" "alike x x'"
    "\<And>t. proper t x \<Longrightarrow> t \<noteq> s \<Longrightarrow> read_prop t x' = read_prop t x"
  shows "covered (mark_at [s] value_node c) y x'"
proof (cases "settled c")
  case False
  then have slots: "covered_slots (d_array c) (d_children c) y x" using assms(1) by (simp add: covered_iff)
  then have f: "fits (d_array c) y x" by (simp add: covered_slots_def)
  then have f': "fits (d_array c) y x'"
    using assms(4) alike_trans by (auto simp: fits_def alike_cases split: option.splits)
  have p: "proper t y = proper t x" for t by (rule fits_proper [OF f])
  let ?n = "value_node (case map_of (d_children c) s of None \<Rightarrow> dirty_node | Some n \<Rightarrow> n)"
  have "slot_covered ?n u w" for u w by (simp add: slot_covered_def value_node_def)
  with covered_slots_change(1) [OF slots f' _ this] p assms(2,3,5) False show ?thesis
    by (simp add: covered_iff Let_def)
qed (simp add: covered_settled)

lemma covered_append_node:
  assumes "covered c y (JArr xs)" "take (length xs) xs' = xs"
  shows "covered (append_node (length xs) c) y (JArr xs')"
proof (cases "settled c")
  case False
  then have slots: "covered_slots (d_array c) (d_children c) y (JArr xs)" using assms(1) by (simp add: covered_iff)
  have l: "length xs \<le> length xs'" using assms(2) by (metis length_take min.cobounded1)
  have same: "read_prop (SIdx i) (JArr xs') = read_prop (SIdx i) (JArr xs)" if "i < length xs" for i
    using that l assms(2) by (auto simp: read_prop_def) (metis nth_take)
  show ?thesis
  proof (cases "d_array c")
    case None
    then obtain ys where y: "y = JArr ys" "length ys = length xs"
      using slots by (auto simp: covered_slots_def fits_def append_limit_def alike_cases)
    have "covered_slots (Some (ArrAppend (length xs))) (d_children c) y (JArr xs')"
      unfolding covered_slots_def
    proof (intro conjI allI impI)
      show "fits (Some (ArrAppend (length xs))) y (JArr xs')"
        using y l by (simp add: fits_def append_limit_def)
      fix t assume t: "proper t y \<and> \<not> skipped (append_limit (Some (ArrAppend (length xs)))) t"
      then obtain i where i: "t = SIdx i" "i < length xs"
        by (auto simp: append_limit_def skipped_def split: seg.splits)
      have "child_covered (d_children c) t (read_prop t y) (read_prop t (JArr xs))"
        using slots t None by (auto simp: covered_slots_def append_limit_def skipped_def)
      then show "child_covered (d_children c) t (read_prop t y) (read_prop t (JArr xs'))"
        using same [OF i(2)] i(1) by simp
    qed (use slots in \<open>auto simp: covered_slots_def\<close>)
    with None False show ?thesis by (simp add: covered_iff append_node_def settled_def)
  next
    case (Some a)
    then obtain st where a: "d_array c = Some (ArrAppend st)"
      using False by (cases a) (auto simp: settled_def)
    then have "st \<le> length xs" using slots by (auto simp: covered_slots_def fits_def append_limit_def)
    then have "take st xs' = take st xs" using assms(2) by (metis min.absorb1 take_take)
    with covered_tail [of c y "JArr xs" "[]" c st xs xs'] assms(1) a l \<open>st \<le> length xs\<close> False
    show ?thesis by (simp add: append_node_def)
  qed
qed (simp add: covered_settled append_node_def)

section \<open>Each operation\<close>

text \<open>What an operation may do, by its mark.\<close>

definition mark_fits :: "nat option \<Rightarrow> path \<Rightarrow> json \<Rightarrow> json \<Rightarrow> mark \<Rightarrow> bool" where
  "mark_fits start path x x' m \<longleftrightarrow> (case m of
     NoMark \<Rightarrow> x' = x \<or> (\<exists>st xs xs'. start = Some st \<and> x = JArr xs \<and> x' = JArr xs' \<and>
       st \<le> length xs' \<and> take st xs' = take st xs)
   | MarkValue p \<Rightarrow> (\<exists>s. p = path @ [s] \<and> proper s x \<and> key_ok s \<and> alike x x' \<and>
       (\<forall>t. proper t x \<and> t \<noteq> s \<longrightarrow> read_prop t x' = read_prop t x))
   | MarkAppend p n \<Rightarrow> p = path \<and> (\<exists>xs xs'. x = JArr xs \<and> x' = JArr xs' \<and> n = length xs \<and> take n xs' = xs)
   | MarkDiff p \<Rightarrow> p = path
   | MarkReplace p \<Rightarrow> p = path)"

lemma splice_at_take: "st \<le> i \<Longrightarrow> i \<le> length xs \<Longrightarrow> take st (splice_at i r items xs) = take st xs"
  by (simp add: splice_at_def min_def)

lemma relative_index_le: "relative_index n w \<le> n"
  by (cases w) (auto simp: min_def)

lemma splice_range_le: "splice_range n args = (i, r) \<Longrightarrow> i \<le> n"
  by (cases args) (auto simp: Let_def relative_index_le simp del: relative_index.simps)

lemma take_butlast_le: "n \<le> length xs - Suc 0 \<Longrightarrow> take n (butlast xs) = take n xs"
  by (simp add: butlast_conv_take min_absorb1)

lemma call_mutator_fits:
  assumes "call_mutator start path op xs = Some (res, xs', m)"
  shows "mark_fits start path (JArr xs) (JArr xs') m"
proof (cases op)
  case (CallPush items)
  with assms show ?thesis by (auto simp: mark_fits_def Let_def splice_chunked_eq splice_at_end)
next
  case (CallUnshift items)
  with assms show ?thesis by (auto simp: mark_fits_def Let_def splice_chunked_eq splice_at_def)
next
  case CallPop
  with assms show ?thesis
    by (auto simp: mark_fits_def not_less take_butlast_le split: option.splits if_splits)
next
  case CallShift
  with assms show ?thesis by (auto simp: mark_fits_def)
next
  case (CallSplice args)
  obtain i r where ir: "splice_range (length xs) args = (i, r)" by fastforce
  note i = splice_range_le [OF ir]
  have xs': "xs' = splice_at i r (splice_given args) xs"
    using assms CallSplice ir by (auto simp: Let_def splice_chunked_eq)
  have same: "splice_at i 0 [] xs = xs" by (simp add: splice_at_def)
  have st: "st \<le> length xs'" "take st xs' = take st xs" if "st \<le> i" for st
  proof -
    show "take st xs' = take st xs" using splice_at_take [OF that i] xs' by simp
    then show "st \<le> length xs'" using that i by (metis length_take min.absorb1 order_trans min.bounded_iff order_refl)
  qed
  have "m = (if r > 0 \<or> splice_given args \<noteq> [] then
                 if i = 0 \<and> r = length xs then MarkReplace path
                 else if (case start of None \<Rightarrow> False | Some s \<Rightarrow> i \<ge> s) then NoMark
                 else if i = length xs \<and> r = 0 then MarkAppend path (length xs)
                 else MarkDiff path
               else NoMark)"
    using assms CallSplice ir by (auto simp: Let_def)
  then show ?thesis
    using xs' same st by (auto simp: mark_fits_def splice_at_end split: option.splits)
qed (use assms in \<open>auto simp: mark_fits_def\<close>)

lemma norm_key_proper: "isObj x \<Longrightarrow> proper (norm_key x key) x \<or> (\<exists>xs. x = JArr xs \<and> norm_key x key = SKey key)"
  by (auto simp: norm_key_def proper_def isObj_cases)

lemma guard_Inr: "guard s = Inr s' \<longleftrightarrow> s' = s \<and> key_ok s"
  by (auto simp: guard_def key_ok_def split: seg.splits)

lemma guard_ok: "key_ok s \<Longrightarrow> guard s = Inr s"
  by (simp add: guard_Inr)

lemma delete_key_same: "s = SKey k \<Longrightarrow> proper t (JObj es) \<Longrightarrow> t \<noteq> s \<Longrightarrow>
    read_prop t (delete_key s (JObj es)) = read_prop t (JObj es)"
  by (auto simp: delete_key_def read_prop_def proper_def delete_conv)

lemma write_key_same: "s = SKey k \<Longrightarrow> proper t (JObj es) \<Longrightarrow> t \<noteq> s \<Longrightarrow>
    read_prop t (write_prop s v (JObj es)) = read_prop t (JObj es)"
  by (auto simp: write_prop_def read_prop_def proper_def update_conv)

lemma write_array_fits:
  assumes "i < length xs"
  shows "alike (JArr xs) (write_prop (SIdx i) v (JArr xs))"
    "proper t (JArr xs) \<Longrightarrow> t \<noteq> SIdx i \<Longrightarrow> read_prop t (write_prop (SIdx i) v (JArr xs)) = read_prop t (JArr xs)"
    "st \<le> i \<Longrightarrow> \<exists>ys. write_prop (SIdx i) v (JArr xs) = JArr ys \<and> st \<le> length ys \<and> take st ys = take st xs"
  using assms by (auto simp: write_prop_def alike_cases read_prop_def proper_def nth_list_update split: if_splits)

lemma assign_prop_fits:
  assumes "assign_prop start path key v x = Inr (res, x', m)" "isObj x"
  shows "mark_fits start path x x' m"
proof -
  let ?s = "norm_key x key"
  have ok: "key_ok ?s" "check_slot ?s x = Inr ()"
    using assms(1) by (auto simp: assign_prop_def bindE_eq_Inr guard_Inr)
  show ?thesis
  proof (cases x)
    case (JObj es)
    then have s: "?s = SKey key" by (simp add: norm_key_def)
    have p: "proper ?s x" unfolding s by (simp add: JObj proper_def)
    show ?thesis
      using assms(1) ok p delete_key_same [OF s] write_key_same [OF s]
      by (auto simp: assign_prop_def guard_ok mark_fits_def split: option.splits if_splits)
        (auto simp: JObj alike_cases delete_key_def write_prop_def)
  next
    case (JArr xs)
    then obtain i where i: "?s = SIdx i" "i \<le> length xs" "proper ?s x"
      using ok(2) by (auto simp: check_slot_def proper_def not_less split: seg.splits if_splits)
    obtain w where v: "v = Some w" using assms(1) ok JArr by (cases v) (auto simp: assign_prop_def guard_ok)
    show ?thesis
    proof (cases "i = length xs")
      case True
      then show ?thesis
        using assms(1) i ok by (auto simp: assign_prop_def guard_ok JArr v mark_fits_def write_prop_def read_prop_def)
    next
      case False
      then have "i < length xs" using i(2) by simp
      note w = write_array_fits [OF this]
      show ?thesis
        using assms(1) i(1,3) ok False w
        by (auto simp: assign_prop_def guard_ok JArr v mark_fits_def not_less split: option.splits if_splits)
    qed
  qed (use assms(2) in simp_all)
qed

lemma assign_length_fits:
  "assign_length start path v xs = Inr (res, x', m) \<Longrightarrow> mark_fits start path (JArr xs) x' m"
  by (auto simp: assign_length_def mark_fits_def Let_def not_less min_def split: option.splits json.splits if_splits)

lemma delete_prop_fits:
  assumes "delete_prop_of path key x = Inr (res, x', m)" "isObj x"
  shows "mark_fits start path x x' m"
proof -
  obtain es where es: "x = JObj es"
    using assms by (cases "norm_key x key") (auto simp: delete_prop_of_def bindE_eq_Inr isObj_cases guard_Inr)
  then have s: "norm_key x key = SKey key" by (simp add: norm_key_def)
  with assms(1) es delete_key_same [OF s] show ?thesis
    by (auto simp: delete_prop_of_def bindE_eq_Inr guard_Inr mark_fits_def proper_def alike_cases delete_key_def)
qed

text \<open>A call of a mutator reaches the array.\<close>

lemma proxy_op_mutator:
  assumes "proxy_op blocked start path op x = Inr (res, x', m)" "\<nexists>key v. op = AssignProp key v" "\<nexists>key. op = DeleteProp key"
  obtains xs ys where "x = JArr xs" "call_mutator start path op xs = Some (res, ys, m)" "x' = JArr ys"
  using assms by (cases op; cases x)
    (auto simp: proxy_op_def bindE_eq_Inr simp del: call_mutator.simps split: option.splits)

lemma proxy_op_unblocked: "proxy_op blocked start path op x = Inr (res, x', m) \<Longrightarrow> blocked = None"
  by (cases op; cases x) (auto simp: proxy_op_def check_blocked_def bindE_eq_Inr split: option.splits)

lemma proxy_op_fits:
  assumes "proxy_op blocked start path op x = Inr (res, x', m)" "isObj x"
  shows "mark_fits start path x x' m"
proof -
  consider key v where "op = AssignProp key v" | key where "op = DeleteProp key"
    | "\<nexists>key v. op = AssignProp key v" "\<nexists>key. op = DeleteProp key" by blast
  then show ?thesis
  proof cases
    case 1
    with assms(1) have "(\<exists>xs. x = JArr xs \<and> assign_length start path v xs = Inr (res, x', m)) \<or>
        assign_prop start path key v x = Inr (res, x', m)"
      by (auto simp: proxy_op_def bindE_eq_Inr split: json.splits if_splits)
    with assms(2) assign_prop_fits assign_length_fits show ?thesis by blast
  next
    case 2
    with assms delete_prop_fits show ?thesis by (auto simp: proxy_op_def bindE_eq_Inr)
  next
    case 3
    obtain xs ys where "x = JArr xs" "call_mutator start path op xs = Some (res, ys, m)" "x' = JArr ys"
      by (rule proxy_op_mutator [OF assms(1) 3])
    with call_mutator_fits show ?thesis by simp
  qed
qed

section \<open>Coverage after an operation\<close>

lemma mark_covers:
  assumes "mark_fits (append_start path node) path x x' m" "covered node b r" "jt.getp path r = Some x"
    "isObj x" "isObj x'" "typed path r" "wf_json b" "wf_json r"
  shows "covered (put_mark m node) b (jt.putp path x' r)"
proof -
  have mark: "covered (mark_at path f node) b (jt.putp path x' r)"
    if "\<And>c. d_value c \<Longrightarrow> d_value (f c)" "\<And>c y. covered c y x \<Longrightarrow> covered (f c) y x'" for f
    by (rule covered_mark_at [OF assms(4,5) that assms(8,2,3,6,7,8)])
  show ?thesis
  proof (cases m)
    case NoMark
    then consider "x' = x" | st xs xs' where "append_start path node = Some st" "x = JArr xs" "x' = JArr xs'"
        "st \<le> length xs'" "take st xs' = take st xs"
      using assms(1) by (auto simp: mark_fits_def)
    then show ?thesis
    proof cases
      case 1
      with assms(2) jt.putp_getp [OF assms(3)] NoMark show ?thesis by simp
    next
      case 2
      then obtain c where "find_node path node = Some c" "d_array c = Some (ArrAppend st)"
        by (auto simp: append_start_def split: option.splits array_dirty.splits)
      from covered_tail [OF assms(2) this _ assms(6) 2(4,5)] 2 assms(3) NoMark show ?thesis by simp
    qed
  next
    case (MarkValue p)
    then obtain s where s: "p = path @ [s]" "proper s x" "key_ok s" "alike x x'"
        "\<And>t. proper t x \<Longrightarrow> t \<noteq> s \<Longrightarrow> read_prop t x' = read_prop t x"
      using assms(1) by (auto simp: mark_fits_def)
    have "covered (mark_at [s] value_node c) y x'" if "covered c y x" for c y
      by (rule covered_value_child [OF that s(2-5)])
    from mark [OF marked_value(5) this] show ?thesis by (simp only: MarkValue s(1) put_mark.simps mark_at_snoc)
  next
    case (MarkAppend p n)
    then obtain xs xs' where "p = path" "x = JArr xs" "x' = JArr xs'" "n = length xs" "take (length xs) xs' = xs"
      using assms(1) by (auto simp: mark_fits_def)
    with mark [of "append_node n"] covered_append_node marked_value(2) MarkAppend show ?thesis by simp
  next
    case (MarkDiff p)
    then have "p = path" using assms(1) by (simp add: mark_fits_def)
    with mark [of diff_node] marked_value(3) settled_marks(1) MarkDiff show ?thesis by (simp add: covered_settled)
  next
    case (MarkReplace p)
    then have "p = path" using assms(1) by (simp add: mark_fits_def)
    with mark [of replace_node] marked_value(4) settled_marks(2) MarkReplace show ?thesis by (simp add: covered_settled)
  qed
qed

end
