(* ===== verification/TrackerWalk.thy ===== *)
theory TrackerWalk imports TrackerOps begin

text \<open>
  From coverage to operations. When the marks cover the difference between the baseline and the
  state, \<open>walkDirty\<close> returns operations that turn the one, wherever it sits in a document, into the
  other, and \<open>syncBaseline\<close>, where it does not decline, copies exactly what differs.
\<close>

section \<open>One child of the walk\<close>

text \<open>The node \<open>cur\<close> at the path becomes \<open>cur'\<close>, which differs only under \<open>s\<close>, where it is now \<open>r\<close>.\<close>

definition child_becomes :: "seg \<Rightarrow> json option \<Rightarrow> json \<Rightarrow> json \<Rightarrow> bool" where
  "child_becomes s r cur cur' \<longleftrightarrow> wf_json cur' \<and> alike cur cur' \<and>
     (\<forall>t. proper t cur \<and> t \<noteq> s \<longrightarrow> read_prop t cur' = read_prop t cur) \<and>
     rel_option json_equal (read_prop s cur') r"

lemma child_becomes_write:
  assumes "read_prop s cur = Some x" "proper s cur" "wf_json cur" "wf_json v" "json_equal v y"
  shows "child_becomes s (Some y) cur (write_prop s v cur)"
  using assms jt.get_put [OF assms(1)]
  by (simp add: child_becomes_def wf_write_prop alike_write [OF assms(1)] read_write_other)

text \<open>Presence of a slot differs in objects only.\<close>

definition slots_agree :: "nat option \<Rightarrow> json \<Rightarrow> json \<Rightarrow> bool" where
  "slots_agree limit b r \<longleftrightarrow> (\<forall>xs s. b = JArr xs \<and> \<not> skipped limit s \<and> proper s b \<longrightarrow>
     (read_prop s b = None) = (read_prop s r = None))"

lemma fits_slots_agree: "fits a b r \<Longrightarrow> slots_agree (append_limit a) b r"
  by (auto simp: fits_def slots_agree_def alike_cases read_prop_def proper_def skipped_def
      split: option.splits seg.splits)

definition child_ops :: "nat \<Rightarrow> json option \<Rightarrow> json option \<Rightarrow> dirty \<Rightarrow> path \<Rightarrow> delta_error + op list" where
  "child_ops scan b r c path = (case (b, r) of
     (Some x, Some y) \<Rightarrow>
       if d_value c \<or> \<not> isObj x \<or> \<not> isObj y then diff_value scan (Some x) (Some y) path
       else walk_dirty scan x y c path
   | (x, y) \<Rightarrow> diff_value scan x y path)"

lemma walk_children_Cons:
  "walk_children scan limit b r ((s, c) # cs) path =
     (if skipped limit s then walk_children scan limit b r cs path
      else bindE (child_ops scan (read_prop s b) (read_prop s r) c (path @ [s]))
        (\<lambda>ops. bindE (walk_children scan limit b r cs path) (\<lambda>more. Inr (ops @ more))))"
  by (simp add: child_ops_def)

lemma proper_obj: "proper s (JObj es) \<Longrightarrow> \<exists>k. s = SKey k"
  by (simp add: proper_def)

lemma child_step:
  assumes ih: "\<And>x y. read_prop s b = Some x \<Longrightarrow> read_prop s r = Some y \<Longrightarrow> covered c x y \<Longrightarrow> isObj x \<Longrightarrow> isObj y \<Longrightarrow>
      jt.getp (path @ [s]) rt = Some x \<Longrightarrow>
      \<exists>ops. walk_dirty scan x y c (path @ [s]) = Inr ops \<and> becomes ops (path @ [s]) rt y"
    and slot: "slot_covered c (read_prop s b) (read_prop s r)" "slots_agree limit b r" "\<not> skipped limit s"
    and s: "proper s b" "key_ok s" and wf: "wf_json b" "wf_json r" "wf_json cur"
    and cur: "jt.getp path rt = Some cur" "alike b cur" "read_prop s cur = read_prop s b"
    and path: "safe_path path"
  shows "\<exists>ops cur'. child_ops scan (read_prop s b) (read_prop s r) c (path @ [s]) = Inr ops \<and>
    apply_ops ops rt = Inr (jt.putp path cur' rt) \<and> child_becomes s (read_prop s r) cur cur'"
proof -
  have ps: "proper s cur" using alike_proper [OF cur(2)] s(1) by simp
  have safe: "safe_path (path @ [s])" using path s(2) by (simp add: key_ok_def split: seg.splits)
  have obj: "\<exists>es k. cur = JObj es \<and> s = SKey k" if "(read_prop s b = None) \<noteq> (read_prop s r = None)"
  proof -
    from that slot(2,3) s(1) have "\<nexists>xs. b = JArr xs" unfolding slots_agree_def by blast
    with cur(2) ps show ?thesis by (auto simp: alike_cases proper_def)
  qed
  show ?thesis
  proof (cases "read_prop s b")
    case b: (Some x)
    then have g: "jt.getp (path @ [s]) rt = Some x" using jt.getp_snoc [OF cur(1), of s] cur(3) by simp
    have wx: "wf_json x" using wf(1) b by (rule wf_read_prop)
    show ?thesis
    proof (cases "read_prop s r")
      case r: (Some y)
      have wy: "wf_json y" using wf(2) r by (rule wf_read_prop)
      have "\<exists>ops. child_ops scan (Some x) (Some y) c (path @ [s]) = Inr ops \<and> becomes ops (path @ [s]) rt y"
        using ih [OF b r _ _ _ g] slot(1) diff_replays(1) [OF wx wy safe g, of scan]
        by (auto simp: child_ops_def diff_value_def slot_covered_def b r)
      then obtain ops v where ops: "child_ops scan (Some x) (Some y) c (path @ [s]) = Inr ops"
          "apply_ops ops rt = Inr (jt.putp (path @ [s]) v rt)" "wf_json v" "json_equal v y"
        by (auto simp: becomes_def)
      moreover have "jt.putp (path @ [s]) v rt = jt.putp path (write_prop s v cur) rt"
        using jt.putp_snoc [OF cur(1), of s x v] cur(3) b by simp
      ultimately show ?thesis
        using child_becomes_write [OF _ ps wf(3) ops(3,4)] cur(3) by (auto simp: b r)
    next
      case r: None
      then obtain es k where o: "cur = JObj es" "s = SKey k" using obj b by auto
      have "apply_op (OpD (path @ [s])) rt = Inr (jt.putp path (JObj (AList.delete k es)) rt)"
        using apply_op_key [of "OpD (path @ [s])" path s rt cur] cur(1) o safe by (simp add: delete_prop_def)
      moreover have "child_becomes s None cur (JObj (AList.delete k es))"
        using wf(3) o wf_delete_prop [of cur "[]" s]
        by (auto simp: child_becomes_def alike_cases read_prop_def proper_def delete_conv delete_prop_def)
      ultimately show ?thesis by (auto simp: child_ops_def diff_value_def emit_delete_def b r)
    qed
  next
    case b: None
    show ?thesis
    proof (cases "read_prop s r")
      case r: (Some y)
      then obtain es k where o: "cur = JObj es" "s = SKey k" using obj b by auto
      have wy: "wf_json y" using wf(2) r by (rule wf_read_prop)
      have "apply_op (OpS (path @ [s]) y) rt = Inr (jt.putp path (JObj (AList.update k y es)) rt)"
        using apply_op_key [of "OpS (path @ [s]) y" path s rt cur] cur(1) o safe by (simp add: write_prop_def)
      moreover have "child_becomes s (Some y) cur (JObj (AList.update k y es))"
        using wf(3) wy o wf_write_prop [of cur y s] json_equal_refl [OF wy]
        by (auto simp: child_becomes_def alike_cases read_prop_def proper_def update_conv write_prop_def)
      ultimately show ?thesis
        by (auto simp: child_ops_def diff_value_def emit_set_def clone_json_eq [OF wy] b r)
    next
      case r: None
      have "child_becomes s None cur cur"
        using wf(3) cur alike_refl [of cur] alike_isObj [OF cur(2)] b by (simp add: child_becomes_def)
      with jt.putp_getp [OF cur(1)] show ?thesis
        by (intro exI [of _ "[]"] exI [of _ cur]) (simp add: child_ops_def diff_value_def b r)
    qed
  qed
qed

section \<open>The walk\<close>

definition children_become :: "nat option \<Rightarrow> seg set \<Rightarrow> json \<Rightarrow> json \<Rightarrow> json \<Rightarrow> bool" where
  "children_become limit S r cur cur' \<longleftrightarrow> wf_json cur' \<and> alike cur cur' \<and>
     (\<forall>s. proper s cur \<longrightarrow> (if s \<in> S \<and> \<not> skipped limit s then rel_option json_equal (read_prop s cur') (read_prop s r)
                          else read_prop s cur' = read_prop s cur))"

lemma children_become_skip:
  "skipped limit s \<Longrightarrow> children_become limit S r cur cur' \<Longrightarrow> children_become limit (insert s S) r cur cur'"
  by (auto simp: children_become_def)

lemma children_become_step:
  assumes "child_becomes s (read_prop s r) cur cur1" "children_become limit S r cur1 cur2" "s \<notin> S" "\<not> skipped limit s"
  shows "children_become limit (insert s S) r cur cur2"
proof -
  have p: "proper t cur1 = proper t cur" for t
    using assms(1) alike_proper [of cur cur1 t] by (simp add: child_becomes_def)
  show ?thesis
    unfolding children_become_def
  proof (intro conjI allI impI)
    show "wf_json cur2" "alike cur cur2"
      using assms(1,2) alike_trans by (auto simp: child_becomes_def children_become_def)
    fix t assume t: "proper t cur"
    show "if t \<in> insert s S \<and> \<not> skipped limit t then rel_option json_equal (read_prop t cur2) (read_prop t r)
        else read_prop t cur2 = read_prop t cur"
      using assms t p by (cases "t = s") (auto simp: child_becomes_def children_become_def)
  qed
qed

lemma covered_children:
  assumes "covered_slots a cs b r" "children_become (append_limit a) (fst ` set cs) r b cur"
    "proper s b" "\<not> skipped (append_limit a) s"
  shows "rel_option json_equal (read_prop s cur) (read_prop s r)"
proof (cases "s \<in> fst ` set cs")
  case False
  then have "map_of cs s = None" by (simp add: map_of_eq_None_iff)
  then have "rel_option json_equal (read_prop s b) (read_prop s r)"
    using assms(1,3,4) by (auto simp: covered_slots_def child_covered_def)
  with False assms(2,3) show ?thesis by (auto simp: children_become_def)
qed (use assms(2-4) in \<open>auto simp: children_become_def\<close>)

lemma covered_slots_entries:
  assumes "covered_slots a cs b r"
  shows "\<forall>(s, c)\<in>set cs. proper s b \<and> key_ok s \<and> (\<not> skipped (append_limit a) s \<longrightarrow> slot_covered c (read_prop s b) (read_prop s r))"
    "distinct (map fst cs)" "slots_agree (append_limit a) b r"
  using assms fits_slots_agree [of a b r] by (auto simp: covered_slots_def child_covered_def)

lemma becomes_walked:
  assumes "covered_slots None cs b r" "wf_json r" "apply_ops ops rt = Inr (jt.putp p cur rt)"
    "children_become None (fst ` set cs) r b cur"
  shows "becomes ops p rt r"
proof -
  have "alike b cur" "alike b r"
    using assms(1,4) by (simp_all add: covered_slots_def fits_def append_limit_def children_become_def)
  then have "alike cur r" by (rule alike_trans [OF alike_sym])
  moreover have "proper s cur = proper s b" for s
    using assms(4) alike_proper [of b cur] by (simp add: children_become_def)
  ultimately have "json_equal cur r"
    using assms covered_children [of None cs b r cur]
    by (intro json_equal_slots) (auto simp: children_become_def append_limit_def skipped_def)
  with assms(3,4) show ?thesis by (auto simp: becomes_def children_become_def)
qed

lemma becomes_appended:
  assumes "covered_slots (Some (ArrAppend start)) cs (JArr xs) (JArr ys)" "wf_json (JArr ys)" "safe_path p"
    "jt.getp p rt = Some (JArr xs)" "apply_ops ops rt = Inr (jt.putp p cur rt)"
    "children_become (Some start) (fst ` set cs) (JArr ys) (JArr xs) cur"
  shows "becomes (ops @ (if drop start ys \<noteq> [] then [OpP p start 0 (map clone_json (drop start ys))] else [])) p rt (JArr ys)"
proof -
  have l: "length xs = start" "start \<le> length ys"
    using assms(1) by (auto simp: covered_slots_def fits_def append_limit_def)
  obtain zs where zs: "cur = JArr zs" "length zs = start" "\<forall>z\<in>set zs. wf_json z"
    using assms(6) l by (auto simp: children_become_def alike_cases)
  have "json_equal (zs ! i) (ys ! i)" if "i < start" for i
    using covered_children [of "Some (ArrAppend start)" cs "JArr xs" "JArr ys" cur "SIdx i"] assms(1,6) that zs l
    by (simp add: append_limit_def proper_def skipped_def read_prop_def)
  then have eq: "list_all2 json_equal (zs @ drop start ys) ys"
    using zs(2) l assms(2)
    by (auto simp: list_all2_conv_all_nth nth_append intro!: json_equal_refl)
  have wf: "\<forall>v\<in>set (zs @ drop start ys). wf_json v" using zs(3) assms(2) by (auto dest: in_set_dropD)
  have g: "jt.getp p (jt.putp p cur rt) = Some (JArr zs)" using jt.getp_putp [OF assms(4)] zs(1) by simp
  have cl: "map clone_json (drop start ys) = drop start ys"
    by (rule clone_items_eq) (use assms(2) in \<open>auto dest: in_set_dropD\<close>)
  have "splice_at start 0 (drop start ys) zs = zs @ drop start ys"
    using splice_at_end [of zs] zs(2) by simp
  then have op: "apply_op (OpP p start 0 (map clone_json (drop start ys))) (jt.putp p cur rt) =
      Inr (jt.putp p (JArr (zs @ drop start ys)) rt)"
    using apply_op_splice [OF assms(3) g, of start 0 "drop start ys"] cl
    by (simp add: jt.putp_putp [OF assms(4)])
  show ?thesis
    unfolding becomes_def
  proof (intro exI conjI)
    show "apply_ops (ops @ (if drop start ys \<noteq> [] then [OpP p start 0 (map clone_json (drop start ys))] else [])) rt =
        Inr (jt.putp p (JArr (zs @ drop start ys)) rt)"
      using assms(5) op zs(1) by (simp add: apply_ops_append)
    show "wf_json (JArr (zs @ drop start ys))" using wf by simp
    show "json_equal (JArr (zs @ drop start ys)) (JArr ys)" using eq by simp
  qed
qed

lemma walk_replays:
  "covered node before after \<Longrightarrow> wf_json before \<Longrightarrow> wf_json after \<Longrightarrow> safe_path path \<Longrightarrow>
     jt.getp path rt = Some before \<Longrightarrow>
     \<exists>ops. walk_dirty scan before after node path = Inr ops \<and> becomes ops path rt after"
  "\<forall>(s, c)\<in>set cs. proper s b \<and> key_ok s \<and> (\<not> skipped limit s \<longrightarrow> slot_covered c (read_prop s b) (read_prop s r)) \<Longrightarrow>
     distinct (map fst cs) \<Longrightarrow> slots_agree limit b r \<Longrightarrow> wf_json b \<Longrightarrow> wf_json r \<Longrightarrow> wf_json cur \<Longrightarrow> safe_path path \<Longrightarrow>
     jt.getp path rt = Some cur \<Longrightarrow> alike b cur \<Longrightarrow> \<forall>s\<in>fst ` set cs. read_prop s cur = read_prop s b \<Longrightarrow>
     \<exists>ops cur'. walk_children scan limit b r cs path = Inr ops \<and> apply_ops ops rt = Inr (jt.putp path cur' rt) \<and>
       children_become limit (fst ` set cs) r cur cur'"
proof (induction scan before after node path and scan limit b r cs path
    arbitrary: rt and rt cur rule: walk_dirty_walk_children.induct)
  case (1 scan before after v a cs path)
  have diff: "\<exists>ops. diff_value scan (Some before) (Some after) path = Inr ops \<and> becomes ops path rt after"
    using diff_replays(1) [OF 1(4,5,6,7), of scan] by (simp add: diff_value_def)
  show ?case
  proof (cases "settled (Dirty v a cs)")
    case True
    show ?thesis
    proof (cases "v \<or> a = Some ArrDiff")
      case False
      with True have "\<not> v" "a = Some ArrReplace" by (auto simp: settled_def)
      then show ?thesis
        using becomes_emit_set [OF 1(6,7,5)] becomes_unchanged [OF 1(7,4)] by simp
    qed (use diff in auto)
  next
    case False
    then have slots: "covered_slots a cs before after" and v: "\<not> v"
      using 1(3) by (auto simp: covered_iff settled_def)
    note e = covered_slots_entries [OF slots]
    have self: "alike before before"
      using slots by (auto simp: covered_slots_def fits_def alike_cases split: option.splits)
    show ?thesis
    proof (cases a)
      case None
      have "\<exists>ops cur'. walk_children scan None before after cs path = Inr ops \<and>
          apply_ops ops rt = Inr (jt.putp path cur' rt) \<and> children_become None (fst ` set cs) after before cur'"
        using 1(1) [OF v None, of before rt] e 1(4-7) self None by (simp add: append_limit_def)
      with becomes_walked [OF _ 1(5)] slots v None show ?thesis by auto
    next
      case (Some d)
      then obtain start where d: "d = ArrAppend start" using False by (cases d) (auto simp: settled_def)
      obtain xs ys where xy: "before = JArr xs" "after = JArr ys" "length xs = start" "start \<le> length ys"
        using slots by (auto simp: covered_slots_def fits_def append_limit_def Some d)
      have "\<exists>ops cur'. walk_children scan (Some start) before after cs path = Inr ops \<and>
          apply_ops ops rt = Inr (jt.putp path cur' rt) \<and> children_become (Some start) (fst ` set cs) after before cur'"
        using 1(2) [OF v Some d refl xy(1,2), of before rt] e 1(4-7) self xy Some d by (simp add: append_limit_def)
      with becomes_appended [of start cs xs ys path rt] slots v Some d xy 1(5-7) show ?thesis by auto
    qed
  qed
next
  case (2 scan limit b r path)
  then show ?case
    using alike_refl [of cur] alike_isObj [of b cur] jt.putp_getp [of path rt cur]
    by (intro exI [of _ "[]"] exI [of _ cur]) (simp add: children_become_def)
next
  case (3 scan limit b r s c cs path)
  show ?case
  proof (cases "skipped limit s")
    case True
    with 3(1) [OF True, of cur rt] 3(4-) children_become_skip show ?thesis by fastforce
  next
    case False
    have h: "slot_covered c (read_prop s b) (read_prop s r)" "proper s b" "key_ok s" "s \<notin> fst ` set cs"
      using 3(4,5) False by auto
    have ih: "\<exists>ops. walk_dirty scan x y c (path @ [s]) = Inr ops \<and> becomes ops (path @ [s]) rt y"
      if "read_prop s b = Some x" "read_prop s r = Some y" "covered c x y" "isObj x" "isObj y"
        "jt.getp (path @ [s]) rt = Some x" for x y
    proof (cases "d_value c")
      case True
      then obtain a ds where "c = Dirty True a ds" by (cases c) simp
      have "safe_path (path @ [s])" using 3(10) h(3) by (simp add: key_ok_def split: seg.splits)
      with \<open>c = _\<close> diff_replays(1) [OF _ _ this that(6), of y scan] that(1,2) 3(7,8) show ?thesis
        by (auto simp: diff_value_def dest: wf_read_prop)
    next
      case nv: False
      have "safe_path (path @ [s])" using 3(10) h(3) by (simp add: key_ok_def split: seg.splits)
      with 3(2) [OF False refl that(1,2) _ that(3) _ _ this that(6)] nv that(1,2,4,5) 3(7,8) show ?thesis
        by (auto dest: wf_read_prop)
    qed
    have now: "read_prop s cur = read_prop s b" using 3(13) by simp
    obtain ops cur1 where 1: "child_ops scan (read_prop s b) (read_prop s r) c (path @ [s]) = Inr ops"
        "apply_ops ops rt = Inr (jt.putp path cur1 rt)" "child_becomes s (read_prop s r) cur cur1"
      using child_step [OF ih h(1) 3(6) False h(2,3) 3(7,8,9,11,12) now 3(10)] by blast
    let ?rt = "jt.putp path cur1 rt"
    have g: "jt.getp path ?rt = Some cur1" using 3(11) by (rule jt.getp_putp)
    have a: "alike b cur1" "wf_json cur1"
      using 1(3) 3(12) alike_trans by (auto simp: child_becomes_def)
    have "read_prop t cur1 = read_prop t b" if "t \<in> fst ` set cs" for t
    proof -
      have "t \<noteq> s" "proper t b" "read_prop t cur = read_prop t b" using that h(4) 3(4,13) by auto
      with 1(3) alike_proper [OF 3(12), of t] show ?thesis by (simp add: child_becomes_def)
    qed
    then obtain more cur2 where 2: "walk_children scan limit b r cs path = Inr more"
        "apply_ops more ?rt = Inr (jt.putp path cur2 ?rt)" "children_become limit (fst ` set cs) r cur1 cur2"
      using 3(3) [OF False _ _ _ 3(6-8) a(2) 3(10) g a(1), of ops] 1(1) 3(4,5) by (auto simp: child_ops_def)
    have "children_become limit (fst ` set ((s, c) # cs)) r cur cur2"
      using children_become_step [OF 1(3) 2(3) h(4) False] by simp
    with 1(1,2) 2(1,2) False jt.putp_putp [OF 3(11)] show ?thesis
      by (auto simp: walk_children_Cons apply_ops_append simp del: walk_children.simps)
  qed
qed


section \<open>The synchronization\<close>

lemma same_kind_isObj: "same_kind a b \<Longrightarrow> isObj a \<and> isObj b"
  by (auto simp: same_kind_def split: json.splits)

lemma child_becomes_drop:
  assumes "proper s cur" "wf_json cur" "isObj cur" "\<And>xs. cur = JArr xs \<Longrightarrow> read_prop s cur = None"
  shows "child_becomes s None cur (drop_prop s cur)"
proof (cases cur)
  case (JArr xs)
  then obtain i where i: "s = SIdx i" "length xs \<le> i"
    using assms(1,4) by (auto simp: proper_def read_prop_def split: if_splits)
  then have "drop_prop s cur = cur" by (simp add: JArr drop_prop_def splice_at_def)
  with assms JArr alike_refl [of cur] show ?thesis by (simp add: child_becomes_def)
next
  case (JObj es)
  then obtain k where k: "s = SKey k" using assms(1) by (auto simp: proper_def)
  then show ?thesis
    using assms(2) wf_delete_prop [of cur "[]" s] JObj
    by (auto simp: child_becomes_def alike_cases read_prop_def proper_def delete_conv delete_prop_def drop_prop_def)
qed (use assms(3) in simp_all)

lemma child_becomes_set:
  assumes "proper s cur" "wf_json cur" "isObj cur" "wf_json v" "json_equal v y"
    "\<And>xs. cur = JArr xs \<Longrightarrow> read_prop s cur \<noteq> None"
  shows "child_becomes s (Some y) cur (write_prop s v cur)"
proof (cases "read_prop s cur")
  case None
  then obtain es where es: "cur = JObj es" using assms(3,6) by (auto simp: isObj_cases)
  then obtain k where k: "s = SKey k" using assms(1) by (auto simp: proper_def)
  show ?thesis
    using assms(2,4,5) wf_write_prop [of cur v s]
    by (auto simp: child_becomes_def alike_cases read_prop_def proper_def update_conv write_prop_def es k)
next
  case (Some x)
  from child_becomes_write [OF this assms(1,2,4,5)] show ?thesis .
qed

lemma sync_copies:
  "covered node b r \<Longrightarrow> can_sync node \<Longrightarrow> \<not> d_value node \<Longrightarrow> wf_json b \<Longrightarrow> wf_json r \<Longrightarrow>
     wf_json (sync_into b r node) \<and> json_equal (sync_into b r node) r"
  "\<forall>(s, c)\<in>set cs. proper s b \<and> key_ok s \<and> (\<not> skipped limit s \<longrightarrow> slot_covered c (read_prop s b) (read_prop s r)) \<Longrightarrow>
     \<forall>(s, c)\<in>set cs. can_sync c \<Longrightarrow> distinct (map fst cs) \<Longrightarrow> slots_agree limit b r \<Longrightarrow> wf_json b \<Longrightarrow> wf_json r \<Longrightarrow>
     wf_json cur \<Longrightarrow> alike b cur \<Longrightarrow> \<forall>s\<in>fst ` set cs. read_prop s cur = read_prop s b \<Longrightarrow>
     children_become limit (fst ` set cs) r cur (sync_children limit cur r cs)"
proof (induction b r node and limit cur r cs arbitrary: and b rule: sync_into_sync_children.induct)
  case (1 b r v a cs)
  have slots: "covered_slots a cs b r" and v: "\<not> v"
    using 1(3,4,5) by (auto simp: covered_iff settled_def)
  note e = covered_slots_entries [OF slots]
  have self: "alike b b"
    using slots by (auto simp: covered_slots_def fits_def alike_cases split: option.splits)
  have sub: "\<forall>(s, c)\<in>set cs. can_sync c" using 1(4) by auto
  show ?case
  proof (cases a)
    case None
    have c: "children_become None (fst ` set cs) r b (sync_children None b r cs)"
      using 1(1) [of b] e sub 1(6,7) self None by (simp add: append_limit_def appended_def)
    have "alike b r" "alike b (sync_children None b r cs)"
      using slots c None by (simp_all add: covered_slots_def fits_def append_limit_def children_become_def)
    then have "alike (sync_children None b r cs) r" by (metis alike_trans alike_sym)
    moreover have "rel_option json_equal (read_prop s (sync_children None b r cs)) (read_prop s r)"
      if "proper s (sync_children None b r cs)" for s
      using covered_children [OF slots, of "sync_children None b r cs" s] c that None
        alike_proper [of b "sync_children None b r cs" s]
      by (simp add: append_limit_def children_become_def skipped_def)
    ultimately have "json_equal (sync_children None b r cs) r"
      using c 1(7) by (intro json_equal_slots) (simp_all add: children_become_def)
    with c None show ?thesis by (simp add: children_become_def appended_def)
  next
    case (Some d)
    then obtain start where d: "d = ArrAppend start" using 1(4) by (cases d) auto
    obtain xs ys where xy: "b = JArr xs" "r = JArr ys" "length xs = start" "start \<le> length ys"
      using slots by (auto simp: covered_slots_def fits_def append_limit_def Some d)
    have c: "children_become (Some start) (fst ` set cs) r b (sync_children (Some start) b r cs)"
      using 1(2) [of _ start "drop start ys" b] e sub 1(6,7) self Some d xy by (simp add: append_limit_def appended_def)
    then obtain zs where zs: "sync_children (Some start) b r cs = JArr zs" "length zs = start" "\<forall>z\<in>set zs. wf_json z"
      using xy by (auto simp: children_become_def alike_cases)
    have "json_equal (zs ! i) (ys ! i)" if "i < start" for i
      using covered_children [of a cs b r "JArr zs" "SIdx i"] slots c that zs xy
      by (simp add: append_limit_def proper_def skipped_def read_prop_def Some d)
    then have eq: "list_all2 json_equal (zs @ drop start ys) ys"
      using zs(2) xy 1(7) by (auto simp: list_all2_conv_all_nth nth_append intro!: json_equal_refl)
    have cl: "map clone_json (drop start ys) = drop start ys"
      by (rule clone_items_eq) (use 1(7) xy in \<open>auto dest: in_set_dropD\<close>)
    have "\<forall>z\<in>set (zs @ drop start ys). wf_json z" using zs(3) 1(7) xy by (auto dest: in_set_dropD)
    with eq cl zs(1) xy Some d show ?thesis by (simp add: appended_def)
  qed
next
  case (2 limit cur r)
  then show ?case
    using alike_refl [of cur] alike_isObj [of b cur] by (simp add: children_become_def)
next
  case (3 limit cur r s c cs)
  show ?case
  proof (cases "skipped limit s")
    case True
    with 3(1) [OF True, of b] 3(4-) children_become_skip show ?thesis by fastforce
  next
    case False
    have h: "slot_covered c (read_prop s b) (read_prop s r)" "proper s b" "s \<notin> fst ` set cs" "can_sync c"
      using 3(4,5,6) False by auto
    have now: "read_prop s cur = read_prop s b" using 3(12) by simp
    have ps: "proper s cur" using alike_proper [OF 3(11)] h(2) by simp
    have o: "isObj cur" using alike_isObj [OF 3(11)] by simp
    have arr: "(read_prop s cur = None) = (read_prop s r = None)" if ca: "cur = JArr xs" for xs
    proof -
      obtain ys where "b = JArr ys" using 3(11) ca by (auto simp: alike_cases)
      with 3(7) False h(2) now show ?thesis by (simp add: slots_agree_def)
    qed
    let ?cur = "case read_prop s r of
           None \<Rightarrow> drop_prop s cur
         | Some y \<Rightarrow> (case read_prop s cur of
             None \<Rightarrow> write_prop s (clone_json y) cur
           | Some x \<Rightarrow>
               if d_value c \<or> \<not> same_kind y x then write_prop s (clone_json y) cur
               else write_prop s (sync_into x y c) cur)"
    have step: "child_becomes s (read_prop s r) cur ?cur"
    proof (cases "read_prop s r")
      case None
      with child_becomes_drop [OF ps 3(10) o] arr show ?thesis by simp
    next
      case (Some y)
      have wy: "wf_json y" using 3(9) Some by (rule wf_read_prop)
      have present: "read_prop s cur \<noteq> None" if "cur = JArr xs" for xs using arr [OF that] Some by simp
      have set: "child_becomes s (Some y) cur (write_prop s v cur)" if "wf_json v" "json_equal v y" for v
        by (rule child_becomes_set [OF ps 3(10) o that present])
      show ?thesis
      proof (cases "\<exists>x. read_prop s cur = Some x \<and> \<not> d_value c \<and> same_kind y x")
        case True
        then obtain x where x: "read_prop s cur = Some x" "\<not> d_value c" "same_kind y x" by blast
        then have "covered c x y" "wf_json x"
          using h(1) now Some same_kind_isObj [OF x(3)] wf_read_prop [OF 3(10) x(1)] by (auto simp: slot_covered_def)
        with 3(2) [OF False Some x(1)] x h(4) wy have "wf_json (sync_into x y c) \<and> json_equal (sync_into x y c) y"
          by simp
        with set x Some show ?thesis by simp
      next
        case f: False
        have "?cur = write_prop s (clone_json y) cur"
          using f Some by (cases "read_prop s cur") auto
        with set [OF wy json_equal_refl [OF wy]] Some clone_json_eq [OF wy] show ?thesis by simp
      qed
    qed
    have a: "alike b ?cur" "wf_json ?cur"
      using step 3(11) alike_trans by (auto simp: child_becomes_def)
    have keep: "read_prop t ?cur = read_prop t b" if "t \<in> fst ` set cs" for t
    proof -
      have "t \<noteq> s" "proper t b" "read_prop t cur = read_prop t b" using that h(3) 3(4,12) by auto
      with step alike_proper [OF 3(11), of t] show ?thesis by (simp add: child_becomes_def)
    qed
    have "children_become limit (fst ` set cs) r ?cur (sync_children limit ?cur r cs)"
      using 3(3) [OF False _ _ _ 3(7-9) a(2,1)] 3(4,5,6) keep by auto
    from children_become_step [OF step this h(3) False] False show ?thesis by simp
  qed
qed

end
