(* ===== verification/TrackerProps.thy ===== *)
theory TrackerProps imports TrackerWalk begin

text \<open>
  The tracker as a whole. Its invariant says that the marks cover what changed since the baseline;
  the property of the tracker is that a replica which applies every flushed batch mirrors the state.
\<close>

section \<open>Operations are well formed\<close>

lemma wf_emit_set: "wf_json v \<Longrightarrow> \<forall>op\<in>set (emit_set p v). wf_op op"
  by (simp add: emit_set_def clone_json_eq Let_def)

lemma wf_diff_string: "\<forall>op\<in>set (diff_string b a p scan). wf_op op"
  by (simp add: diff_string_def emit_set_def Let_def)

lemma wf_clone_items: "\<forall>x\<in>set xs. wf_json x \<Longrightarrow> set ys \<subseteq> set xs \<Longrightarrow> \<forall>x\<in>set (map clone_json ys). wf_json x"
  by (auto simp: clone_json_eq)

lemma slice_subset: "set (slice i j xs) \<subseteq> set xs"
  by (auto simp: slice_def dest: in_set_dropD in_set_takeD)

lemma wf_diff:
  "wf_json before \<Longrightarrow> wf_json after \<Longrightarrow> \<forall>op\<in>set (diff_present scan before after p). wf_op op"
  "wf_json (JObj es) \<Longrightarrow> wf_json (JObj fs) \<Longrightarrow> \<forall>op\<in>set (diff_object scan es fs p). wf_op op"
  "wf_json (JObj es) \<Longrightarrow> wf_json (JObj fs) \<Longrightarrow> \<forall>op\<in>set (diff_entries scan es fs p). wf_op op"
  "\<forall>x\<in>set xs. wf_json x \<Longrightarrow> \<forall>y\<in>set ys. wf_json y \<Longrightarrow> \<forall>op\<in>set (diff_array scan xs ys p). wf_op op"
  "\<forall>x\<in>set xs. wf_json x \<Longrightarrow> \<forall>y\<in>set ys. wf_json y \<Longrightarrow> \<forall>op\<in>set (diff_items scan xs ys p i). wf_op op"
proof (induction scan before after p and scan es fs p and scan es fs p and scan xs ys p
    and scan xs ys p i rule: diff_present_diff_object_diff_entries_diff_array_diff_items.induct)
  case (1 scan before after p)
  show ?case
  proof (cases "strict_equal before after")
    case False
    then show ?thesis
      using 1 wf_emit_set [of after p] wf_diff_string
      by (auto simp: diff_present.simps split: json.splits)
  qed (simp add: diff_present.simps)
next
  case (2 scan es fs p)
  then show ?case using wf_emit_set [OF 2(3), of p] by (auto simp: diff_object.simps)
next
  case (4 scan es k v fs p)
  have v: "wf_json v" "wf_json (JObj fs)" using 4(4) by simp_all
  have "\<forall>op\<in>set (diff_entries scan es fs p). wf_op op" by (rule 4(2) [OF 4(3) v(2)])
  moreover have "\<forall>op\<in>set (case map_of es k of None \<Rightarrow> emit_set (p @ [SKey k]) v
      | Some b \<Rightarrow> diff_present scan b v (p @ [SKey k])). wf_op op"
    using 4(1) [OF _ wf_json_entry [OF 4(3)] v(1)] wf_emit_set [OF v(1)] by (simp split: option.split)
  ultimately show ?case by (simp add: ball_Un)
next
  case (5 scan xs ys p)
  have c: "\<forall>x\<in>set (map clone_json (slice i j ys)). wf_json x"
      "\<forall>x\<in>set (map clone_json (drop i ys)). wf_json x" for i j
    by (rule wf_clone_items [OF 5(4) slice_subset], rule wf_clone_items [OF 5(4) set_drop_subset])
  have s: "\<forall>op\<in>set (emit_set p (JArr ys)). wf_op op" by (rule wf_emit_set) (use 5(4) in simp)
  show ?case
  proof (cases "length xs = length ys")
    case True
    with 5 show ?thesis by (simp add: diff_array.simps)
  next
    case False
    then show ?thesis
      using 5(2) [OF False refl refl refl] 5(3,4) c c(2) [of 0] s
      by (auto simp: diff_array.simps Let_def simp del: set_map split: if_splits)
  qed
qed (simp_all add: ball_Un)

lemma wf_diff_value:
  "diff_value scan b r p = Inr ops \<Longrightarrow> (\<And>x. b = Some x \<Longrightarrow> wf_json x) \<Longrightarrow> (\<And>y. r = Some y \<Longrightarrow> wf_json y) \<Longrightarrow>
   \<forall>op\<in>set ops. wf_op op"
  using wf_diff(1) wf_emit_set by (auto simp: diff_value_def emit_delete_def split: option.splits if_splits)

lemma wf_walk:
  "walk_dirty scan before after node path = Inr ops \<Longrightarrow> wf_json before \<Longrightarrow> wf_json after \<Longrightarrow> \<forall>op\<in>set ops. wf_op op"
  "walk_children scan limit b r cs path = Inr ops \<Longrightarrow> wf_json b \<Longrightarrow> wf_json r \<Longrightarrow> \<forall>op\<in>set ops. wf_op op"
proof (induction scan before after node path and scan limit b r cs path
    arbitrary: ops and ops rule: walk_dirty_walk_children.induct)
  case (1 scan before after v a cs path)
  note d = wf_diff_value [of scan "Some before" "Some after" path ops]
  have e: "\<forall>op\<in>set (emit_set path after). wf_op op" using wf_emit_set 1(5) by blast
  have t: "\<forall>x\<in>set (map clone_json (drop i ys)). wf_json x" if "after = JArr ys" for i ys
    using wf_clone_items [of ys] set_drop_subset [of i ys] 1(5) that by simp
  show ?case
    using 1 d e t
    by (auto simp: bindE_eq_Inr simp del: set_map split: if_splits option.splits array_dirty.splits json.splits)
next
  case (3 scan limit b r s c cs path)
  show ?case
  proof (cases "skipped limit s")
    case True
    with 3 show ?thesis by simp
  next
    case False
    obtain o1 o2 where o: "child_ops scan (read_prop s b) (read_prop s r) c (path @ [s]) = Inr o1"
        "walk_children scan limit b r cs path = Inr o2" "ops = o1 @ o2"
      using 3(4) False by (auto simp: walk_children_Cons bindE_eq_Inr simp del: walk_children.simps)
    have w: "\<And>x. read_prop s b = Some x \<Longrightarrow> wf_json x" "\<And>y. read_prop s r = Some y \<Longrightarrow> wf_json y"
      using wf_read_prop 3(5,6) by blast+
    have "\<forall>op\<in>set o1. wf_op op"
    proof (cases "\<exists>x y. read_prop s b = Some x \<and> read_prop s r = Some y \<and> \<not> (d_value c \<or> \<not> isObj x \<or> \<not> isObj y)")
      case True
      then obtain x y where xy: "read_prop s b = Some x" "read_prop s r = Some y" "\<not> (d_value c \<or> \<not> isObj x \<or> \<not> isObj y)"
        by blast
      with o(1) have "walk_dirty scan x y c (path @ [s]) = Inr o1" by (simp add: child_ops_def)
      with 3(2) [OF False refl xy] w xy show ?thesis by blast
    next
      case f: False
      then have "child_ops scan (read_prop s b) (read_prop s r) c (path @ [s]) =
          diff_value scan (read_prop s b) (read_prop s r) (path @ [s])"
        by (auto simp: child_ops_def split: option.split)
      with o(1) wf_diff_value w show ?thesis by metis
    qed
    moreover have "\<forall>op\<in>set o2. wf_op op" using 3(3) [OF False _ o(2) 3(5,6)] o(1) by (auto simp: child_ops_def)
    ultimately show ?thesis using o(3) by auto
  qed
qed simp

lemma clone_op_eq: "wf_op op \<Longrightarrow> clone_op op = op"
  by (cases op) (simp_all add: clone_json_eq clone_items_eq)

section \<open>Where a client's keys lead\<close>

lemma read_norm_key: "read_prop (norm_key v key) v = Some c \<Longrightarrow> proper (norm_key v key) v"
  by (auto simp: norm_key_def proper_def read_prop_def split: json.splits if_splits)

lemma navigate_arrives:
  "navigate blocked p keys node = Inr (None, path, x) \<Longrightarrow> isObj node \<Longrightarrow>
   blocked = None \<and> (\<exists>q. path = p @ q \<and> jt.getp q node = Some x \<and> typed q node) \<and> isObj x"
proof (induction keys arbitrary: blocked p node)
  case (Cons key keys)
  let ?s = "norm_key node key"
  obtain v where v: "read_prop ?s node = Some v" "isObj v"
      "navigate (if blocked = None \<and> (\<exists>k\<in>set RESERVED_SEGMENTS. ?s = SKey k) then Some ?s else blocked)
         (p @ [?s]) keys v = Inr (None, path, x)"
    using Cons.prems(1) by (auto simp: Let_def split: option.splits if_splits)
  from Cons.IH [OF v(3,2)] obtain q where q: "path = (p @ [?s]) @ q" "jt.getp q v = Some x" "typed q v" "isObj x"
      "blocked = None" "\<not> (\<exists>k\<in>set RESERVED_SEGMENTS. ?s = SKey k)"
    by (auto split: if_splits)
  have "key_ok ?s" using q(6) by (auto simp: key_ok_def reserved_def split: seg.split)
  with q v(1) read_norm_key [OF v(1)] show ?case by (intro conjI exI [of _ "?s # q"]) simp_all
qed simp

section \<open>The values an operation leaves\<close>

fun wf_tracked_op :: "tracked_op \<Rightarrow> bool" where
  "wf_tracked_op (AssignProp key v) = (case v of None \<Rightarrow> True | Some w \<Rightarrow> wf_json w)"
| "wf_tracked_op (CallPush items) = (\<forall>x\<in>set items. wf_json x)"
| "wf_tracked_op (CallUnshift items) = (\<forall>x\<in>set items. wf_json x)"
| "wf_tracked_op (CallSplice args) = (\<forall>x\<in>set (splice_given args). wf_json x)"
| "wf_tracked_op (CallSort f) = (\<forall>xs. mset (f xs) = mset xs)"
| "wf_tracked_op (CallFill v s e) = wf_json v"
| "wf_tracked_op _ = True"

lemma array_fill_set: "set (array_fill v s e xs) \<subseteq> insert v (set xs)"
  unfolding array_fill_def Let_def set_append
  by (intro Un_least) (auto dest: in_set_takeD in_set_dropD)

lemma array_copy_within_set: "set (array_copy_within t s e xs) \<subseteq> set xs"
  unfolding array_copy_within_def Let_def set_append
  by (intro Un_least order_trans [OF set_take_subset] set_take_subset set_drop_subset)

lemma call_mutator_set:
  "call_mutator start path op xs = Some (res, ys, m) \<Longrightarrow> wf_tracked_op op \<Longrightarrow> \<forall>x\<in>set xs. wf_json x \<Longrightarrow> \<forall>y\<in>set ys. wf_json y"
proof (cases op)
  case (CallSplice args)
  assume a: "call_mutator start path op xs = Some (res, ys, m)" "wf_tracked_op op" "\<forall>x\<in>set xs. wf_json x"
  obtain i r where "splice_range (length xs) args = (i, r)" by fastforce
  then have "ys = splice_at i r (splice_given args) xs"
    using a(1) CallSplice by (auto simp: Let_def splice_chunked_eq)
  then show ?thesis using a(2,3) CallSplice splice_at_set [of i r "splice_given args" xs] by auto
next
  case (CallSort f)
  assume a: "call_mutator start path op xs = Some (res, ys, m)" "wf_tracked_op op" "\<forall>x\<in>set xs. wf_json x"
  then have "ys = f xs" "mset (f xs) = mset xs" by (auto simp: CallSort)
  then show ?thesis using a(3) by (metis set_mset_mset)
next
  case (CallFill v s e)
  assume "call_mutator start path op xs = Some (res, ys, m)" "wf_tracked_op op" "\<forall>x\<in>set xs. wf_json x"
  with array_fill_set [of v s e xs] CallFill show ?thesis by auto
next
  case (CallCopyWithin t s e)
  assume "call_mutator start path op xs = Some (res, ys, m)" "wf_tracked_op op" "\<forall>x\<in>set xs. wf_json x"
  with array_copy_within_set [of t s e xs] CallCopyWithin show ?thesis by auto
qed (auto simp: Let_def splice_chunked_eq splice_at_def dest: in_set_butlastD list.set_sel(2) split: if_splits)

lemma wf_delete_key: "wf_json x \<Longrightarrow> wf_json (delete_key s x)"
  using wf_delete_prop [of x "[]" s] by (cases x) (auto simp: delete_key_def delete_prop_def)

lemma assign_length_array:
  assumes "assign_length start path v xs = Inr (res, x', m)"
  shows "\<exists>n k. x' = JArr (take n xs @ replicate k JNull)"
proof -
  obtain q where v: "v = Some (JNum q)"
    using assms by (auto simp: assign_length_def split: option.splits json.splits)
  let ?n = "nat \<lfloor>q\<rfloor>"
  have "x' = JArr (take ?n xs @ replicate (?n - length xs) JNull)"
    using assms by (simp add: assign_length_def v Let_def split: if_splits)
  then show ?thesis by blast
qed

lemma proxy_op_wf:
  assumes "proxy_op blocked start path op x = Inr (res, x', m)" "wf_tracked_op op" "wf_json x" "isObj x"
  shows "wf_json x' \<and> isObj x'"
proof -
  have o: "isObj (write_prop s v x)" "isObj (delete_key s x)" for s v
    using assms(4) by (auto simp: isObj_cases write_prop_def delete_key_def split: seg.split)
  consider key v where "op = AssignProp key v" | key where "op = DeleteProp key"
    | "\<nexists>key v. op = AssignProp key v" "\<nexists>key. op = DeleteProp key" by blast
  then show ?thesis
  proof cases
    case 1
    with assms(1) have "(\<exists>xs. x = JArr xs \<and> assign_length start path v xs = Inr (res, x', m)) \<or>
        assign_prop start path key v x = Inr (res, x', m)"
      by (auto simp: proxy_op_def bindE_eq_Inr split: json.splits if_splits)
    then show ?thesis
    proof
      assume "\<exists>xs. x = JArr xs \<and> assign_length start path v xs = Inr (res, x', m)"
      then obtain xs where x: "x = JArr xs" "assign_length start path v xs = Inr (res, x', m)" by (elim exE conjE)
      from assign_length_array [OF x(2)] obtain n k where "x' = JArr (take n xs @ replicate k JNull)" by (elim exE)
      with assms(3) x(1) show ?thesis by (auto dest: in_set_takeD)
    next
      assume a: "assign_prop start path key v x = Inr (res, x', m)"
      then have "x' = x \<or> x' = delete_key (norm_key x key) x \<or> (\<exists>w. v = Some w \<and> x' = write_prop (norm_key x key) w x)"
        by (cases v; cases x) (auto simp: assign_prop_def bindE_eq_Inr guard_Inr split: if_splits)
      then show ?thesis using assms 1 o wf_delete_key wf_write_prop by auto
    qed
  next
    case 2
    with assms(1) have "x' = delete_key (norm_key x key) x"
      by (auto simp: proxy_op_def delete_prop_of_def bindE_eq_Inr guard_Inr split: json.splits seg.splits)
    with assms(3) o wf_delete_key show ?thesis by simp
  next
    case 3
    obtain xs ys where "x = JArr xs" "call_mutator start path op xs = Some (res, ys, m)" "x' = JArr ys"
      by (rule proxy_op_mutator [OF assms(1) 3])
    with call_mutator_set assms(2,3) show ?thesis by auto
  qed
qed

section \<open>The invariant\<close>

definition tracker_ok :: "tracker \<Rightarrow> bool" where
  "tracker_ok t \<longleftrightarrow> wf_json (tk_root t) \<and> isObj (tk_root t) \<and> \<not> d_value (tk_pending t) \<and>
     (\<not> tk_hasPending t \<longrightarrow> tk_pending t = dirty_node) \<and>
     (case tk_baseline t of
        None \<Rightarrow> tk_forceBase t
      | Some b \<Rightarrow> wf_json b \<and> isObj b \<and> (\<not> tk_forceBase t \<longrightarrow> covered (tk_pending t) b (tk_root t)))"

lemma dirty_node_value: "\<not> d_value dirty_node"
  by (simp add: dirty_node_def)

lemma track_ok: "wf_json rt \<Longrightarrow> isObj rt \<Longrightarrow> tracker_ok (track rt scan)"
  by (simp add: tracker_ok_def track_def dirty_node_value)

lemma mark_at_value: "p \<noteq> [] \<or> (\<forall>c. d_value (f c) = d_value c) \<Longrightarrow> d_value (mark_at p f n) = d_value n"
  by (cases p) (auto simp: Let_def)

lemma put_mark_value: "mark_fits start path x x' m \<Longrightarrow> d_value (put_mark m n) = d_value n"
  by (cases m) (auto simp: mark_fits_def append_node_def diff_node_def replace_node_def intro!: mark_at_value split: if_splits)

lemma put_mark_fresh: "m = NoMark \<Longrightarrow> put_mark m n = n"
  by simp

lemma tracked_call_ok:
  assumes "tracker_ok t" "tracked_call keys op t = Inr (res, t')" "wf_tracked_op op"
  shows "tracker_ok t' \<and> tk_baseline t' = tk_baseline t \<and> tk_forceBase t' = tk_forceBase t"
proof -
  obtain blocked path x x' m where n: "navigate None [] keys (tk_root t) = Inr (blocked, path, x)"
      "proxy_op blocked (append_start path (tk_pending t)) path op x = Inr (res, x', m)"
      "t' = t\<lparr>tk_root := jt.putp path x' (tk_root t), tk_pending := put_mark m (tk_pending t),
         tk_hasPending := (tk_hasPending t \<or> m \<noteq> NoMark)\<rparr>"
    using assms(2) by (auto simp: tracked_call_def bindE_eq_Inr)
  have b: "blocked = None" by (rule proxy_op_unblocked [OF n(2)])
  have ok: "wf_json (tk_root t)" "isObj (tk_root t)" using assms(1) by (simp_all add: tracker_ok_def)
  from navigate_arrives [OF n(1) [unfolded b] ok(2)] have p: "jt.getp path (tk_root t) = Some x"
      "typed path (tk_root t)" "isObj x" by auto
  have wx: "wf_json x" using ok(1) p(1) by (rule wf_getp)
  note fits = proxy_op_fits [OF n(2) p(3)]
  have x': "wf_json x'" "isObj x'" using proxy_op_wf [OF n(2) assms(3) wx p(3)] by simp_all
  have o: "isObj (jt.putp path x' (tk_root t))"
  proof (cases path)
    case (Cons s q)
    with p(1) ok(2) show ?thesis
      by (auto simp: isObj_cases write_prop_def split: option.splits seg.splits)
  qed (simp add: x')
  have "covered (put_mark m (tk_pending t)) b' (jt.putp path x' (tk_root t))"
    if "covered (tk_pending t) b' (tk_root t)" "wf_json b'" for b'
    by (rule mark_covers [OF fits that(1) p(1,3) x'(2) p(2) that(2) ok(1)])
  then show ?thesis
    using assms(1) o wf_putp [OF ok(1) x'(1)] put_mark_value [OF fits]
    by (auto simp: tracker_ok_def n(3) split: option.splits)
qed

section \<open>A replica\<close>

text \<open>What can happen to a tracker; the replica starts the next batch from the state at a \<open>discard\<close>.\<close>

datatype tracker_action =
    ClientCall "string list" tracked_op
  | AssignState "json option"
  | Rebase
  | Discard
  | Flush

fun wf_action :: "tracker_action \<Rightarrow> bool" where
  "wf_action (ClientCall keys op) = wf_tracked_op op"
| "wf_action (AssignState v) = (case v of None \<Rightarrow> True | Some w \<Rightarrow> wf_json w \<and> isObj w)"
| "wf_action _ = True"

fun mirror_step :: "tracker_action \<Rightarrow> tracker \<times> json \<Rightarrow> (tracker \<times> json) option" where
  "mirror_step (ClientCall keys op) (t, rep) =
     (case tracked_call keys op t of Inl e \<Rightarrow> Some (t, rep) | Inr (res, t') \<Rightarrow> Some (t', rep))"
| "mirror_step (AssignState v) (t, rep) = Some (set_state v t, rep)"
| "mirror_step Rebase (t, rep) = Some (rebase t, rep)"
| "mirror_step Discard (t, rep) = Some (discard t, tk_root t)"
| "mirror_step Flush (t, rep) = (case flush t of
     Inl e \<Rightarrow> None
   | Inr (ops, t') \<Rightarrow> (case apply_ops ops rep of Inl e \<Rightarrow> None | Inr rep' \<Rightarrow> Some (t', rep')))"

fun mirror :: "tracker_action list \<Rightarrow> tracker \<times> json \<Rightarrow> (tracker \<times> json) option" where
  "mirror [] s = Some s"
| "mirror (a # as) s = (case mirror_step a s of None \<Rightarrow> None | Some s' \<Rightarrow> mirror as s')"

lemma mirror_append: "mirror (as @ bs) s = (case mirror as s of None \<Rightarrow> None | Some s' \<Rightarrow> mirror bs s')"
  by (induction as arbitrary: s) (auto split: option.split)

definition mirror_ok :: "tracker \<Rightarrow> json \<Rightarrow> bool" where
  "mirror_ok t rep \<longleftrightarrow> tracker_ok t \<and> wf_json rep \<and>
     (\<not> tk_forceBase t \<longrightarrow> (\<exists>b. tk_baseline t = Some b \<and> json_equal rep b))"

lemma flush_mirrors:
  assumes "mirror_ok t rep"
  shows "\<exists>ops t' rep'. flush t = Inr (ops, t') \<and> apply_ops ops rep = Inr rep' \<and> mirror_ok t' rep' \<and>
    tk_root t' = tk_root t \<and> json_equal rep' (tk_root t) \<and> \<not> is_dirty t'"
proof -
  let ?r = "tk_root t"
  have ok: "tracker_ok t" "wf_json rep" "wf_json ?r" "isObj ?r"
    using assms by (simp_all add: mirror_ok_def tracker_ok_def)
  note rr = json_equal_refl [OF ok(3)]
  show ?thesis
  proof (cases "tk_forceBase t")
    case True
    then show ?thesis
      using ok rr covered_fresh [OF rr ok(3,3,4)]
      by (auto simp: flush_def clear_pending_def clone_json_eq apply_op_r mirror_ok_def tracker_ok_def
          dirty_node_value is_dirty_def)
  next
    case False
    then obtain b where b: "tk_baseline t = Some b" "json_equal rep b" "wf_json b" "isObj b"
        "covered (tk_pending t) b ?r"
      using assms by (auto simp: mirror_ok_def tracker_ok_def)
    show ?thesis
    proof (cases "tk_hasPending t")
      case pending: False
      then have "json_equal b ?r"
        using covered_fresh_equal [of b ?r] b(3,5) ok by (simp add: tracker_ok_def)
      then have "json_equal rep ?r" using json_equal_trans [OF ok(2) b(3) ok(3) b(2)] by blast
      with pending False b(1) assms show ?thesis by (auto simp: flush_def is_dirty_def)
    next
      case True
      obtain out where out: "walk_dirty (tk_scan t) b ?r (tk_pending t) [] = Inr out" "becomes out [] b ?r"
        using walk_replays(1) [OF b(5,3) ok(3), of "[]" b "tk_scan t"] by auto
      then obtain v where v: "apply_ops out b = Inr v" "wf_json v" "json_equal v ?r"
        by (auto simp: becomes_def)
      have w: "\<forall>op\<in>set out. wf_op op" by (rule wf_walk(1) [OF out(1) b(3) ok(3)])
      have "json_equal b rep" using json_equal_sym [OF ok(2) b(3,2)] .
      then obtain rep' where rep': "apply_ops out rep = Inr rep'" "json_equal v rep'"
        using apply_ops_equal [OF w b(3) ok(2) _ v(1)] by blast
      have wr: "wf_json rep'" using wf_apply_ops [OF w ok(2) rep'(1)] .
      have mirrored: "json_equal rep' ?r"
        using json_equal_trans [OF wr v(2) ok(3) json_equal_sym [OF v(2) wr rep'(2)] v(3)] .
      obtain b' where b': "(case sync_baseline b ?r (tk_pending t) of Some b' \<Rightarrow> Inr b'
              | None \<Rightarrow> if out \<noteq> [] then apply_ops (map clone_op out) b else Inr b) = Inr b'"
          "wf_json b'" "json_equal b' ?r"
      proof (cases "can_sync (tk_pending t)")
        case True
        then show thesis
          using that [of "sync_into b ?r (tk_pending t)"] sync_copies(1) [OF b(5) True _ b(3) ok(3)] ok(1)
          by (simp add: sync_baseline_def tracker_ok_def)
      next
        case f: False
        have "map clone_op out = out" using w by (simp add: map_idI clone_op_eq)
        then show thesis using that [of v] v f by (cases "out = []") (simp_all add: sync_baseline_def)
      qed
      let ?t = "clear_pending (t\<lparr>tk_baseline := Some b'\<rparr>)"
      have fl: "flush t = Inr (out, ?t)"
        using False b(1) True out(1) b'(1) by (simp add: flush_def)
      have "isObj b'" using b'(3) ok(4) json_equal_isObj by blast
      moreover have "json_equal rep' b'"
        using json_equal_trans [OF wr ok(3) b'(2) mirrored json_equal_sym [OF b'(2) ok(3) b'(3)]] .
      ultimately have "mirror_ok ?t rep'"
        using False ok(3,4) wr b'(2) covered_fresh [OF b'(3,2) ok(3)]
        by (auto simp: mirror_ok_def tracker_ok_def clear_pending_def dirty_node_value)
      with fl rep'(1) mirrored False show ?thesis
        by (intro exI [of _ out] exI [of _ ?t] exI [of _ rep']) (simp add: clear_pending_def is_dirty_def)
    qed
  qed
qed

lemma mirror_step_ok:
  assumes "mirror_ok t rep" "wf_action a"
  shows "\<exists>t' rep'. mirror_step a (t, rep) = Some (t', rep') \<and> mirror_ok t' rep'"
proof (cases a)
  case (ClientCall keys op)
  show ?thesis
  proof (cases "tracked_call keys op t")
    case (Inr q)
    obtain res t' where q: "q = (res, t')" by fastforce
    from tracked_call_ok [OF _ Inr [unfolded q]] assms ClientCall Inr q show ?thesis
      by (simp add: mirror_ok_def)
  qed (use assms ClientCall in simp)
next
  case (AssignState v)
  with assms show ?thesis
    by (auto simp: mirror_ok_def set_state_def clear_pending_def tracker_ok_def dirty_node_value split: option.splits)
next
  case Rebase
  with assms show ?thesis
    by (auto simp: mirror_ok_def rebase_def clear_pending_def tracker_ok_def dirty_node_value split: option.splits)
next
  case Discard
  with assms show ?thesis
    using covered_fresh [OF json_equal_refl, of "tk_root t"] json_equal_refl [of "tk_root t"]
    by (auto simp: mirror_ok_def discard_def clear_pending_def tracker_ok_def dirty_node_value clone_json_eq)
next
  case Flush
  with flush_mirrors [OF assms(1)] show ?thesis by auto
qed

lemma mirror_runs:
  "mirror_ok t rep \<Longrightarrow> list_all wf_action as \<Longrightarrow> \<exists>t' rep'. mirror as (t, rep) = Some (t', rep') \<and> mirror_ok t' rep'"
proof (induction as arbitrary: t rep)
  case (Cons a as)
  then obtain t1 rep1 where "mirror_step a (t, rep) = Some (t1, rep1)" "mirror_ok t1 rep1"
    using mirror_step_ok [OF Cons.prems(1), of a] by auto
  with Cons show ?case by simp
qed simp

section \<open>Base batches\<close>

text \<open>A batch for the place \<open>p\<close> replaces the whole value only by itself.\<close>

definition base_exact :: "path \<Rightarrow> op list \<Rightarrow> bool" where
  "base_exact p ops \<longleftrightarrow> (\<forall>op\<in>set ops. \<not> is_replace op) \<or> (p = [] \<and> (\<exists>v. ops = [OpR v]))"

lemma base_exact_simps [simp]:
  "base_exact p []" "p \<noteq> [] \<Longrightarrow> base_exact p ops \<longleftrightarrow> (\<forall>op\<in>set ops. \<not> is_replace op)"
  by (simp_all add: base_exact_def)

lemma base_exact_plain: "\<forall>op\<in>set ops. \<not> is_replace op \<Longrightarrow> base_exact p ops"
  by (simp add: base_exact_def)

lemma base_exact_emit_set: "base_exact p (emit_set p v)"
  by (simp add: base_exact_def emit_set_def Let_def)

lemma base_exact_diff_string: "base_exact p (diff_string b a p scan)"
  using base_exact_emit_set [of p "JStr a"] by (auto simp: diff_string_def base_exact_def Let_def)

lemma base_exact_diff:
  "base_exact p (diff_present scan before after p)"
  "base_exact p (diff_object scan es fs p)"
  "\<forall>op\<in>set (diff_entries scan es fs p). \<not> is_replace op"
  "base_exact p (diff_array scan xs ys p)"
  "\<forall>op\<in>set (diff_items scan xs ys p i). \<not> is_replace op"
proof (induction scan before after p and scan es fs p and scan es fs p and scan xs ys p
    and scan xs ys p i rule: diff_present_diff_object_diff_entries_diff_array_diff_items.induct)
  case (1 scan before after p)
  then show ?case
    using base_exact_emit_set [of p] base_exact_diff_string [of p]
    by (simp add: diff_present.simps split: json.split)
next
  case (2 scan es fs p)
  show ?case
  proof (cases "\<exists>k\<in>set (map fst es @ map fst fs). reserved k")
    case True
    with base_exact_emit_set show ?thesis by (simp add: diff_object.simps)
  next
    case False
    with 2 show ?thesis by (intro base_exact_plain) (auto simp: diff_object.simps)
  qed
next
  case (4 scan es k v fs p)
  have "\<forall>op\<in>set (case map_of es k of None \<Rightarrow> emit_set (p @ [SKey k]) v
      | Some b \<Rightarrow> diff_present scan b v (p @ [SKey k])). \<not> is_replace op"
    using 4(1) by (auto simp: emit_set_def split: option.split)
  with 4(2) show ?case by (simp add: ball_Un)
next
  case (5 scan xs ys p)
  have s: "base_exact p (emit_set p (JArr ys))" by (rule base_exact_emit_set)
  have none: "diff_items scan xs [] p 0 = []" by (cases xs) simp_all
  show ?case
  proof (cases "length xs = length ys")
    case True
    with 5(1) show ?thesis by (simp add: diff_array.simps base_exact_plain)
  next
    case False
    show ?thesis
    proof (cases "ys = []")
      case True
      with False s none show ?thesis by (simp add: diff_array.simps Let_def base_exact_plain)
    next
      case ys: False
      then show ?thesis
        using 5(2) [OF False refl refl refl] s False
        by (simp add: diff_array.simps Let_def) (auto intro!: base_exact_plain)
    qed
  qed
qed (auto simp: ball_Un)

lemma base_exact_diff_value: "diff_value scan b r p = Inr ops \<Longrightarrow> base_exact p ops"
  using base_exact_diff(1) [of p] base_exact_emit_set [of p]
  by (auto simp: diff_value_def emit_delete_def split: option.splits if_splits)

lemma base_exact_walk:
  "walk_dirty scan before after node path = Inr ops \<Longrightarrow> base_exact path ops"
  "walk_children scan limit b r cs path = Inr ops \<Longrightarrow> \<forall>op\<in>set ops. \<not> is_replace op"
proof (induction scan before after node path and scan limit b r cs path
    arbitrary: ops and ops rule: walk_dirty_walk_children.induct)
  case (1 scan before after v a cs path)
  note d = base_exact_diff_value [of scan "Some before" "Some after" path ops]
  have e: "base_exact path (emit_set path after)" by (rule base_exact_emit_set)
  show ?case
    using 1 d e
    by (auto simp: bindE_eq_Inr base_exact_plain ball_Un split: if_splits option.splits array_dirty.splits json.splits)
next
  case (3 scan limit b r s c cs path)
  show ?case
  proof (cases "skipped limit s")
    case True
    with 3 show ?thesis by simp
  next
    case False
    obtain o1 o2 where o: "child_ops scan (read_prop s b) (read_prop s r) c (path @ [s]) = Inr o1"
        "walk_children scan limit b r cs path = Inr o2" "ops = o1 @ o2"
      using 3(4) False by (auto simp: walk_children_Cons bindE_eq_Inr simp del: walk_children.simps)
    have "base_exact (path @ [s]) o1"
    proof (cases "\<exists>x y. read_prop s b = Some x \<and> read_prop s r = Some y \<and> \<not> (d_value c \<or> \<not> isObj x \<or> \<not> isObj y)")
      case True
      then obtain x y where xy: "read_prop s b = Some x" "read_prop s r = Some y" "\<not> (d_value c \<or> \<not> isObj x \<or> \<not> isObj y)"
        by blast
      with o(1) have "walk_dirty scan x y c (path @ [s]) = Inr o1" by (simp add: child_ops_def)
      with 3(2) [OF False refl xy] show ?thesis by blast
    next
      case f: False
      then have "child_ops scan (read_prop s b) (read_prop s r) c (path @ [s]) =
          diff_value scan (read_prop s b) (read_prop s r) (path @ [s])"
        by (auto simp: child_ops_def split: option.split)
      with o(1) base_exact_diff_value show ?thesis by metis
    qed
    moreover have "\<forall>op\<in>set o2. \<not> is_replace op" using 3(3) [OF False _ o(2)] o(1) by (auto simp: child_ops_def)
    ultimately show ?thesis using o(3) by (simp add: ball_Un)
  qed
qed simp

section \<open>The properties\<close>

text \<open>
  C3. A replica mirrors the tracked state. Start a tracker on any object and run any sequence of
  client operations on its proxies (assignments, deletions, every array method, also those that
  throw), replacements of the state, rebases, discards and flushes. No flush fails, every flushed
  batch applies to the replica, and after a flush the replica equals the state, wherever the changes
  were, however they overlapped and whatever the replica held before the first batch.
\<close>

theorem tracker_mirrors_state:
  assumes "wf_json rt" "isObj rt" "wf_json rep0" "list_all wf_action as"
  shows "\<exists>t rep. mirror (as @ [Flush]) (track rt scan, rep0) = Some (t, rep) \<and>
    json_equal rep (tk_root t) \<and> \<not> is_dirty t"
proof -
  have "mirror_ok (track rt scan) rep0"
    using track_ok [OF assms(1,2), of scan] assms(3) by (simp add: mirror_ok_def track_def)
  from mirror_runs [OF this assms(4)] obtain t1 rep1 where
    1: "mirror as (track rt scan, rep0) = Some (t1, rep1)" "mirror_ok t1 rep1" by blast
  from flush_mirrors [OF 1(2)] obtain ops t rep where
    "flush t1 = Inr (ops, t)" "apply_ops ops rep1 = Inr rep" "tk_root t = tk_root t1"
    "json_equal rep (tk_root t1)" "\<not> is_dirty t" by blast
  with 1(1) show ?thesis by (simp add: mirror_append)
qed

lemma tracker_mirrors_state_witness:
  "\<exists>t rep. mirror
     ([ClientCall [] (AssignProp ''name'' (Some (JStr ''ab''))), Flush,
       ClientCall [''items''] (CallPush [JObj [(''n'', JNull)]]),
       ClientCall [''items'', ''0''] (AssignProp ''n'' (Some (JBool True))),
       ClientCall [] (AssignProp ''name'' (Some (JStr ''abc''))), Flush,
       ClientCall [''items''] (CallSplice (StartCount (Finite (-1)) Infinity [JStr ''x''])),
       ClientCall [''items''] CallReverse,
       ClientCall [''items''] (AssignProp ''length'' (Some (JNum 3))),
       ClientCall [] (DeleteProp ''name''),
       ClientCall [] (DeleteProp ''__proto__'')] @ [Flush])
     (track (JObj [(''items'', JArr []), (''name'', JStr ''a'')]) None, JNull) = Some (t, rep) \<and>
   json_equal rep (tk_root t) \<and> \<not> is_dirty t"
  by (rule tracker_mirrors_state) simp_all


text \<open>
  \<open>isBase\<close> is exact on what a tracker flushes. A batch of any tracker holds a replacement of the
  whole value exactly when it begins with one, and then that is its only operation.
\<close>

theorem flush_base_exact:
  assumes "flush t = Inr (ops, t')"
  shows "if is_base ops then length ops = 1 else list_all (\<lambda>op. \<not> is_replace op) ops"
proof -
  have "base_exact [] ops"
    using assms base_exact_walk(1) [of "tk_scan t" _ "tk_root t" "tk_pending t" "[]"]
    by (auto simp: flush_def bindE_eq_Inr base_exact_def split: if_splits option.splits)
  then show ?thesis by (auto simp: base_exact_def is_base_def list_all_iff split: list.splits)
qed

lemma flush_base_exact_witness:
  "if is_base [OpS [SKey ''a''] (JBool True)] then length [OpS [SKey ''a''] (JBool True)] = 1
   else list_all (\<lambda>op. \<not> is_replace op) [OpS [SKey ''a''] (JBool True)]"
proof -
  let ?t = "\<lparr>tk_root = JObj [(''a'', JBool True), (''b'', JArr [])], tk_scan = 10,
      tk_pending = Dirty False None [(SKey ''a'', Dirty True None [])], tk_hasPending = True,
      tk_baseline = Some (JObj [(''a'', JNull), (''b'', JArr [])]), tk_forceBase = False\<rparr>"
  have "\<exists>t'. flush ?t = Inr ([OpS [SKey ''a''] (JBool True)], t')"
    by (simp add: flush_def diff_value_def diff_present.simps strict_equal_def read_prop_def
        emit_set_def sync_baseline_def skipped_def bindE_def)
  then obtain t' where "flush ?t = Inr ([OpS [SKey ''a''] (JBool True)], t')" ..
  from flush_base_exact [OF this] show ?thesis .
qed

end
