(* ===== verification/DurableData.thy ===== *)
theory DurableData imports CodingMessages begin

text \<open>
  The durable session storage of the agent harness, its data: entries, usage rows, addressed values
  and lists (\<open>packages/agent/src/harness/session/types.ts\<close>, \<open>values.ts\<close>), the writes of a commit
  and their validation (\<open>commit.ts\<close>), and the sums of usage (\<open>harness/utils/usage.ts\<close>). Sequence
  numbers and times are integers; a stored value is JSON; the addition of two amounts of money is
  the rounded addition of doubles, a parameter.
\<close>

section \<open>Errors\<close>

datatype durable_error =
    DError string
  | DTypeError string
  | SessionInvariant string
  | SessionInvalidBranch string string
  | SessionBranchExists string
  | SessionPendingAssistant
  | SessionUnknownTarget string
  | SessionClosed

section \<open>Entries and usage\<close>

datatype entry_type = MessageT | CompactionT | BranchSummaryT | CustomT

datatype entry_body =
    MessageB coding_message bool
  | CompactionB string "coding_message list" nat "json option" "usage option" bool
  | BranchSummaryB "string option" string "json option" "usage option" bool
  | CustomB "json option"

fun body_type :: "entry_body \<Rightarrow> entry_type" where
  "body_type (MessageB m t) = MessageT"
| "body_type (CompactionB s r n d u h) = CompactionT"
| "body_type (BranchSummaryB f s d u h) = BranchSummaryT"
| "body_type (CustomB d) = CustomT"

text \<open>An entry before the storage assigns its sequence and time, and after.\<close>

record new_entry =
  de_id :: string
  de_parentId :: "string option"
  de_customType :: "string option"
  de_body :: entry_body

record entry = new_entry +
  de_seq :: int
  de_timestamp :: int

definition de_type :: "'a new_entry_scheme \<Rightarrow> entry_type" where
  "de_type e = body_type (de_body e)"

record new_usage =
  ur_id :: string
  ur_usage :: usage
  ur_entryId :: "string option"
  ur_adjustment :: bool
  ur_details :: "json option"

record usage_row = new_usage +
  ur_seq :: int

section \<open>Sums of usage\<close>

definition emptyUsage :: usage where
  "emptyUsage =
    \<lparr>us_input = 0, us_output = 0, us_cacheRead = 0, us_cacheWrite = 0, us_cacheWrite1h = None,
     us_reasoning = None, us_totalTokens = 0,
     us_cost = \<lparr>cost_input = 0, cost_output = 0, cost_cacheRead = 0, cost_cacheWrite = 0,
                cost_total = 0\<rparr>\<rparr>"

fun add_optional :: "nat option \<Rightarrow> nat option \<Rightarrow> nat option" where
  "add_optional None None = None"
| "add_optional l r = Some ((case l of None \<Rightarrow> 0 | Some n \<Rightarrow> n) + (case r of None \<Rightarrow> 0 | Some n \<Rightarrow> n))"

definition addUsage :: "(rat \<Rightarrow> rat \<Rightarrow> rat) \<Rightarrow> usage \<Rightarrow> usage \<Rightarrow> usage" where
  "addUsage fadd l r =
    \<lparr>us_input = us_input l + us_input r,
     us_output = us_output l + us_output r,
     us_cacheRead = us_cacheRead l + us_cacheRead r,
     us_cacheWrite = us_cacheWrite l + us_cacheWrite r,
     us_cacheWrite1h = add_optional (us_cacheWrite1h l) (us_cacheWrite1h r),
     us_reasoning = add_optional (us_reasoning l) (us_reasoning r),
     us_totalTokens = us_totalTokens l + us_totalTokens r,
     us_cost =
      \<lparr>cost_input = fadd (cost_input (us_cost l)) (cost_input (us_cost r)),
       cost_output = fadd (cost_output (us_cost l)) (cost_output (us_cost r)),
       cost_cacheRead = fadd (cost_cacheRead (us_cost l)) (cost_cacheRead (us_cost r)),
       cost_cacheWrite = fadd (cost_cacheWrite (us_cost l)) (cost_cacheWrite (us_cost r)),
       cost_total = fadd (cost_total (us_cost l)) (cost_total (us_cost r))\<rparr>\<rparr>"

record session_stats =
  st_messageCount :: nat
  st_usage :: usage

section \<open>Addresses of values and lists\<close>

datatype address_kind = ValueA | ListA

record address =
  ad_namespace :: string
  ad_key :: string
  ad_kind :: address_kind

definition NUL :: char where
  "NUL = char_of (0 :: nat)"

lemma NUL_char: "NUL = CHR 0x00"
  by (simp add: NUL_def char_of_def)

definition u0000 :: string where
  "u0000 = char_of (92 :: nat) # ''u0000''"

definition validateAddress :: "string \<Rightarrow> string \<Rightarrow> durable_error + unit" where
  "validateAddress namespace key =
    (if namespace = [] then Inl (DTypeError ''Value namespace must not be empty'')
     else if NUL \<in> set namespace then Inl (DTypeError (''Value namespace must not contain '' @ u0000))
     else if NUL \<in> set key then Inl (DTypeError (''Value key must not contain '' @ u0000))
     else Inr ())"

definition value_at :: "string \<Rightarrow> string \<Rightarrow> durable_error + address" where
  "value_at namespace key = bindE (validateAddress namespace key) (\<lambda>_.
     Inr \<lparr>ad_namespace = namespace, ad_key = key, ad_kind = ValueA\<rparr>)"

definition list_at :: "string \<Rightarrow> string \<Rightarrow> durable_error + address" where
  "list_at namespace key = bindE (validateAddress namespace key) (\<lambda>_.
     Inr \<lparr>ad_namespace = namespace, ad_key = key, ad_kind = ListA\<rparr>)"

definition branchTip :: "string \<Rightarrow> durable_error + address" where
  "branchTip branch = value_at ''pi.branch.tip'' branch"

definition laneConfig :: "string \<Rightarrow> durable_error + address" where
  "laneConfig lane = value_at ''pi.lane.config'' lane"

definition laneState :: "string \<Rightarrow> durable_error + address" where
  "laneState lane = value_at ''pi.lane.state'' lane"

definition sessionName :: "durable_error + address" where
  "sessionName = value_at ''pi.session.name'' []"

definition entryLabel :: "string \<Rightarrow> durable_error + address" where
  "entryLabel entryId = value_at ''pi.entry.label'' entryId"

record stored_value =
  sv_address :: address
  sv_value :: json
  sv_seq :: int

record list_element =
  le_seq :: int
  le_value :: json

section \<open>Options of a list read\<close>

datatype scan_order = Asc | Desc

record list_read =
  lr_cursor :: "int option"
  lr_order :: "scan_order option"
  lr_limit :: "int option"

record resolved_list_read =
  rl_cursor :: "int option"
  rl_order :: scan_order
  rl_limit :: int

definition isSafeInteger :: "int \<Rightarrow> bool" where
  "isSafeInteger n \<longleftrightarrow> \<bar>n\<bar> \<le> 2 ^ 53 - 1"

definition or_else :: "'a option \<Rightarrow> 'a \<Rightarrow> 'a" where
  "or_else x d = (case x of None \<Rightarrow> d | Some v \<Rightarrow> v)"

lemma or_else_simps [simp]: "or_else None d = d" "or_else (Some v) d = v"
  by (simp_all add: or_else_def)

definition resolveListReadOptions :: "list_read \<Rightarrow> durable_error + resolved_list_read" where
  "resolveListReadOptions options =
    (let requested = or_else (lr_limit options) 1000 in
     if \<not> isSafeInteger requested \<or> requested \<le> 0
     then Inl (DTypeError ''List read limit must be a positive safe integer'')
     else Inr \<lparr>rl_cursor = lr_cursor options, rl_order = or_else (lr_order options) Asc,
               rl_limit = min requested 10000\<rparr>)"

section \<open>Writes\<close>

datatype dwrite =
    EntryW new_entry
  | UsageW new_usage
  | ValueSetW string string json
  | ValueDeleteW string string
  | ListAppendW string string json
  | ListDeleteW string string

definition setValueWrite :: "address \<Rightarrow> json \<Rightarrow> dwrite" where
  "setValueWrite a next = ValueSetW (ad_namespace a) (ad_key a) next"

definition deleteValueWrite :: "address \<Rightarrow> dwrite" where
  "deleteValueWrite a = ValueDeleteW (ad_namespace a) (ad_key a)"

definition appendListWrite :: "address \<Rightarrow> json \<Rightarrow> dwrite" where
  "appendListWrite a element = ListAppendW (ad_namespace a) (ad_key a) element"

definition deleteListWrite :: "address \<Rightarrow> dwrite" where
  "deleteListWrite a = ListDeleteW (ad_namespace a) (ad_key a)"

datatype committed =
    CEntry entry
  | CUsage usage_row
  | CValueSet int string string json
  | CValueDelete int string string
  | CListAppend int string string json
  | CListDelete int string string

fun cw_seq :: "committed \<Rightarrow> int" where
  "cw_seq (CEntry e) = de_seq e"
| "cw_seq (CUsage r) = ur_seq r"
| "cw_seq (CValueSet s n k v) = s"
| "cw_seq (CValueDelete s n k) = s"
| "cw_seq (CListAppend s n k v) = s"
| "cw_seq (CListDelete s n k) = s"

definition materializeCommittedEntry :: "new_entry \<Rightarrow> int \<Rightarrow> int \<Rightarrow> entry" where
  "materializeCommittedEntry e seq ts = new_entry.extend e (entry.fields seq ts)"

fun commitWrite :: "dwrite \<Rightarrow> int \<Rightarrow> int \<Rightarrow> committed" where
  "commitWrite (EntryW e) seq ts = CEntry (materializeCommittedEntry e seq ts)"
| "commitWrite (UsageW r) seq ts = CUsage (new_usage.extend r (usage_row.fields seq))"
| "commitWrite (ValueSetW n k v) seq ts = CValueSet seq n k v"
| "commitWrite (ValueDeleteW n k) seq ts = CValueDelete seq n k"
| "commitWrite (ListAppendW n k v) seq ts = CListAppend seq n k v"
| "commitWrite (ListDeleteW n k) seq ts = CListDelete seq n k"

record prepared_commit =
  pc_writes :: "committed list"
  pc_firstSeq :: int
  pc_seqs :: "int list"
  pc_timestamp :: int

text \<open>\<open>writes.map((write, index) => commitWrite(write, firstSeq + index, timestamp))\<close>.\<close>

fun commit_writes :: "dwrite list \<Rightarrow> int \<Rightarrow> int \<Rightarrow> committed list" where
  "commit_writes [] seq ts = []"
| "commit_writes (w # ws) seq ts = commitWrite w seq ts # commit_writes ws (seq + 1) ts"

definition prepareStorageCommit :: "dwrite list \<Rightarrow> int \<Rightarrow> int \<Rightarrow> prepared_commit" where
  "prepareStorageCommit writes firstSeq ts =
    (let ws = commit_writes writes firstSeq ts in
     \<lparr>pc_writes = ws, pc_firstSeq = firstSeq, pc_seqs = map cw_seq ws, pc_timestamp = ts\<rparr>)"

section \<open>Validation of committed writes\<close>

text \<open>The identifiers a committed write brings in, and its place in the tree.\<close>

fun cw_id :: "committed \<Rightarrow> string option" where
  "cw_id (CEntry e) = Some (de_id e)"
| "cw_id (CUsage r) = Some (ur_id r)"
| "cw_id _ = None"

fun cw_parent :: "committed \<Rightarrow> string option" where
  "cw_parent (CEntry e) = de_parentId e"
| "cw_parent _ = None"

fun cw_entry :: "committed \<Rightarrow> entry option" where
  "cw_entry (CEntry e) = Some e"
| "cw_entry _ = None"

record validation =
  va_previousSeq :: int
  va_ids :: "string list"
  va_entryIds :: "string list"

definition validate_write ::
  "(string \<Rightarrow> bool) \<Rightarrow> (string \<Rightarrow> bool) \<Rightarrow> committed \<Rightarrow> validation \<Rightarrow> durable_error + validation" where
  "validate_write hasEntryOrUsageId hasEntryId w va =
    (if cw_seq w \<le> va_previousSeq va then Inl (DError (''Non-monotonic storage sequence: '' @ show_int (cw_seq w)))
     else
       let va = va\<lparr>va_previousSeq := cw_seq w\<rparr> in
       case cw_id w of
         None \<Rightarrow> Inr va
       | Some i \<Rightarrow>
           if hasEntryOrUsageId i \<or> i \<in> set (va_ids va)
           then Inl (DError (''Duplicate entry or usage id: '' @ i))
           else case cw_parent w of
             Some p \<Rightarrow>
               if \<not> hasEntryId p \<and> p \<notin> set (va_entryIds va)
               then Inl (DError (''Missing parent entry: '' @ p))
               else Inr (va\<lparr>va_ids := i # va_ids va, va_entryIds := i # va_entryIds va\<rparr>)
           | None \<Rightarrow>
               Inr (va\<lparr>va_ids := i # va_ids va,
                       va_entryIds := (if cw_entry w = None then va_entryIds va
                                       else i # va_entryIds va)\<rparr>))"

definition validateCommittedWrites ::
  "committed list \<Rightarrow> int \<Rightarrow> (string \<Rightarrow> bool) \<Rightarrow> (string \<Rightarrow> bool) \<Rightarrow> durable_error + unit" where
  "validateCommittedWrites writes firstSeq hasEntryOrUsageId hasEntryId =
    bindE (foldE (validate_write hasEntryOrUsageId hasEntryId) writes
             \<lparr>va_previousSeq = firstSeq - 1, va_ids = [], va_entryIds = []\<rparr>)
          (\<lambda>_. Inr ())"

end
