(* ===== verification/DurableState.thy ===== *)
theory DurableState imports DurableData begin

text \<open>
  \<open>InMemoryStorageState\<close> of \<open>packages/agent/src/harness/session/in-memory-storage-state.ts\<close>: the
  whole state of one durable session. A \<open>Map\<close> whose order shows is the association list of its
  entries in insertion order; the map of entries is only looked up and is a partial function.
\<close>

section \<open>The state\<close>

record list_snapshot =
  ls_address :: address
  ls_elements :: "list_element list"

record storage_state =
  ss_entries :: "string \<rightharpoonup> entry"
  ss_bySeq :: "entry list"
  ss_scalar :: "(string \<times> stored_value) list"
  ss_lists :: "(string \<times> list_snapshot) list"
  ss_usage :: "(string \<times> usage_row) list"
  ss_stats :: session_stats
  ss_nextSeq :: int

definition physicalKey :: "string \<Rightarrow> string \<Rightarrow> string" where
  "physicalKey namespace key = namespace @ NUL # key"

definition storage_new :: storage_state where
  "storage_new =
    \<lparr>ss_entries = Map.empty, ss_bySeq = [], ss_scalar = [], ss_lists = [], ss_usage = [],
     ss_stats = \<lparr>st_messageCount = 0, st_usage = emptyUsage\<rparr>, ss_nextSeq = 1\<rparr>"

section \<open>Commits\<close>

definition hasEntryId :: "storage_state \<Rightarrow> string \<Rightarrow> bool" where
  "hasEntryId st i \<longleftrightarrow> ss_entries st i \<noteq> None"

definition hasEntryOrUsageId :: "storage_state \<Rightarrow> string \<Rightarrow> bool" where
  "hasEntryOrUsageId st i \<longleftrightarrow> ss_entries st i \<noteq> None \<or> map_of (ss_usage st) i \<noteq> None"

definition validateCommitted :: "committed list \<Rightarrow> storage_state \<Rightarrow> durable_error + unit" where
  "validateCommitted writes st =
    validateCommittedWrites writes (ss_nextSeq st) (hasEntryOrUsageId st) (hasEntryId st)"

definition prepareCommit ::
  "dwrite list \<Rightarrow> int \<Rightarrow> storage_state \<Rightarrow> durable_error + prepared_commit" where
  "prepareCommit writes ts st =
    (let prepared = prepareStorageCommit writes (ss_nextSeq st) ts in
     bindE (validateCommitted (pc_writes prepared) st) (\<lambda>_. Inr prepared))"

definition value_set ::
  "int \<Rightarrow> string \<Rightarrow> string \<Rightarrow> json \<Rightarrow> storage_state \<Rightarrow> durable_error + storage_state" where
  "value_set seq namespace key v st =
    bindE (value_at namespace key) (\<lambda>a.
      Inr (st\<lparr>ss_scalar := AList.update (physicalKey namespace key)
             \<lparr>sv_address = a, sv_value = v, sv_seq = seq\<rparr> (ss_scalar st)\<rparr>))"

definition list_append ::
  "int \<Rightarrow> string \<Rightarrow> string \<Rightarrow> json \<Rightarrow> storage_state \<Rightarrow> durable_error + storage_state" where
  "list_append seq namespace key v st =
    (let pk = physicalKey namespace key;
         element = \<lparr>le_seq = seq, le_value = v\<rparr>
     in case map_of (ss_lists st) pk of
          None \<Rightarrow> bindE (list_at namespace key) (\<lambda>a.
            Inr (st\<lparr>ss_lists := AList.update pk \<lparr>ls_address = a, ls_elements = [element]\<rparr> (ss_lists st)\<rparr>))
        | Some stored \<Rightarrow> Inr (st\<lparr>ss_lists := AList.update pk
            (stored\<lparr>ls_elements := ls_elements stored @ [element]\<rparr>) (ss_lists st)\<rparr>))"

text \<open>
  One round of the loop of \<open>applyValidated\<close>, without the assignment of \<open>nextSeq\<close> and with it. A
  value or a new list is stored under the address that \<open>value()\<close> or \<open>list()\<close> makes, which throws
  for an invalid one before anything is stored.
\<close>

fun apply_effect ::
  "(rat \<Rightarrow> rat \<Rightarrow> rat) \<Rightarrow> committed \<Rightarrow> storage_state \<Rightarrow> durable_error + storage_state" where
  "apply_effect fadd (CEntry e) st =
    (let st = st\<lparr>ss_entries := (ss_entries st)(de_id e \<mapsto> e), ss_bySeq := ss_bySeq st @ [e]\<rparr>
     in Inr (if de_type e = MessageT
             then st\<lparr>ss_stats := (ss_stats st)\<lparr>st_messageCount := st_messageCount (ss_stats st) + 1\<rparr>\<rparr>
             else st))"
| "apply_effect fadd (CUsage r) st =
    Inr (st\<lparr>ss_usage := AList.update (ur_id r) r (ss_usage st),
            ss_stats := (ss_stats st)\<lparr>st_usage := addUsage fadd (st_usage (ss_stats st)) (ur_usage r)\<rparr>\<rparr>)"
| "apply_effect fadd (CValueSet seq n k v) st = value_set seq n k v st"
| "apply_effect fadd (CValueDelete seq n k) st =
    Inr (st\<lparr>ss_scalar := AList.delete (physicalKey n k) (ss_scalar st)\<rparr>)"
| "apply_effect fadd (CListAppend seq n k v) st = list_append seq n k v st"
| "apply_effect fadd (CListDelete seq n k) st =
    Inr (st\<lparr>ss_lists := AList.delete (physicalKey n k) (ss_lists st)\<rparr>)"

definition apply_write ::
  "(rat \<Rightarrow> rat \<Rightarrow> rat) \<Rightarrow> committed \<Rightarrow> storage_state \<Rightarrow> durable_error + storage_state" where
  "apply_write fadd w st = bindE (apply_effect fadd w st) (\<lambda>st. Inr (st\<lparr>ss_nextSeq := cw_seq w + 1\<rparr>))"

text \<open>A write that throws ends the loop; the state keeps what the writes before it did.\<close>

fun applyValidated ::
  "(rat \<Rightarrow> rat \<Rightarrow> rat) \<Rightarrow> committed list \<Rightarrow> storage_state
    \<Rightarrow> (durable_error + session_stats) \<times> storage_state" where
  "applyValidated fadd [] st = (Inr (ss_stats st), st)"
| "applyValidated fadd (w # ws) st =
    (case apply_write fadd w st of
       Inl e \<Rightarrow> (Inl e, st)
     | Inr st' \<Rightarrow> applyValidated fadd ws st')"

record commit_result =
  cr_firstSeq :: int
  cr_seqs :: "int list"
  cr_timestamp :: int
  cr_stats :: session_stats

text \<open>The job that \<open>MemoryStorage.commit\<close> puts on its commit queue, at the time \<open>ts\<close>.\<close>

definition storage_commit ::
  "(rat \<Rightarrow> rat \<Rightarrow> rat) \<Rightarrow> dwrite list \<Rightarrow> int \<Rightarrow> storage_state \<Rightarrow> (durable_error + commit_result) \<times> storage_state" where
  "storage_commit fadd writes ts st =
    (case prepareCommit writes ts st of
       Inl e \<Rightarrow> (Inl e, st)
     | Inr p \<Rightarrow>
         (case applyValidated fadd (pc_writes p) st of
            (Inl e, st') \<Rightarrow> (Inl e, st')
          | (Inr stats, st') \<Rightarrow>
              (Inr \<lparr>cr_firstSeq = pc_firstSeq p, cr_seqs = pc_seqs p, cr_timestamp = pc_timestamp p,
                    cr_stats = stats\<rparr>, st')))"

definition advanceNextSeq :: "int \<Rightarrow> storage_state \<Rightarrow> durable_error + storage_state" where
  "advanceNextSeq nextSeq st =
    (if \<not> isSafeInteger nextSeq \<or> nextSeq < 1
     then Inl (DError (''Invalid storage sequence high-water mark: '' @ show_int nextSeq))
     else Inr (st\<lparr>ss_nextSeq := max (ss_nextSeq st) nextSeq\<rparr>))"

section \<open>Reads\<close>

definition getEntries :: "string list \<Rightarrow> storage_state \<Rightarrow> (string \<times> entry) list" where
  "getEntries ids st =
    fold (\<lambda>i found. case ss_entries st i of None \<Rightarrow> found | Some e \<Rightarrow> AList.update i e found) ids []"

definition getValue :: "address \<Rightarrow> storage_state \<Rightarrow> stored_value option" where
  "getValue a st = map_of (ss_scalar st) (physicalKey (ad_namespace a) (ad_key a))"

text \<open>Keys are compared code point by code point; \<open>sort\<close> is stable.\<close>

fun compareKeys :: "string \<Rightarrow> string \<Rightarrow> int" where
  "compareKeys (a # l) (b # r) =
    (let difference = of_char a - of_char b
     in if difference \<noteq> 0 then difference else compareKeys l r)"
| "compareKeys l r = int (length l) - int (length r)"

fun insort_by :: "('a \<Rightarrow> 'a \<Rightarrow> int) \<Rightarrow> 'a \<Rightarrow> 'a list \<Rightarrow> 'a list" where
  "insort_by cmp x [] = [x]"
| "insort_by cmp x (y # ys) = (if cmp x y \<le> 0 then x # y # ys else y # insort_by cmp x ys)"

definition sort_by :: "('a \<Rightarrow> 'a \<Rightarrow> int) \<Rightarrow> 'a list \<Rightarrow> 'a list" where
  "sort_by cmp xs = foldr (insort_by cmp) xs []"

definition starts_with :: "string \<Rightarrow> string \<Rightarrow> bool" where
  "starts_with s p \<longleftrightarrow> take (length p) s = p"

definition scanValues :: "address \<Rightarrow> storage_state \<Rightarrow> stored_value list" where
  "scanValues p st =
    sort_by (\<lambda>l r. compareKeys (ad_key (sv_address l)) (ad_key (sv_address r)))
      (filter (\<lambda>s. ad_namespace (sv_address s) = ad_namespace p \<and>
                   starts_with (ad_key (sv_address s)) (ad_key p))
        (map snd (ss_scalar st)))"

text \<open>\<open>xs.slice(0, limit)\<close> for an integer limit that is not negative.\<close>

definition first_n :: "int \<Rightarrow> 'a list \<Rightarrow> 'a list" where
  "first_n limit xs = take (nat limit) xs"

definition after_cursor :: "scan_order \<Rightarrow> int option \<Rightarrow> int \<Rightarrow> bool" where
  "after_cursor order cursor seq =
    (case cursor of None \<Rightarrow> True | Some c \<Rightarrow> if order = Asc then c < seq else seq < c)"

definition in_order :: "scan_order \<Rightarrow> 'a list \<Rightarrow> 'a list" where
  "in_order order xs = (if order = Asc then xs else rev xs)"

definition readList :: "address \<Rightarrow> list_read \<Rightarrow> storage_state \<Rightarrow> durable_error + list_element list" where
  "readList a options st = bindE (resolveListReadOptions options) (\<lambda>r.
    let elements = (case map_of (ss_lists st) (physicalKey (ad_namespace a) (ad_key a)) of
                      None \<Rightarrow> [] | Some stored \<Rightarrow> ls_elements stored);
        filtered = filter (\<lambda>x. after_cursor (rl_order r) (rl_cursor r) (le_seq x)) elements
    in Inr (first_n (rl_limit r) (in_order (rl_order r) filtered)))"

section \<open>Scans of a branch\<close>

datatype branch_order = NewestFirst | OldestFirst

record branch_scan =
  bs_stopAtType :: "entry_type option"
  bs_stopAtId :: "string option"
  bs_type :: "entry_type option"
  bs_customType :: "string option"
  bs_order :: "branch_order option"
  bs_limit :: "int option"
  bs_cursor :: "int option"

text \<open>
  The walk to the root. The loop ends at an entry without a parent and throws at a parent that is
  missing; on a cycle of parents it would not end, which is the value \<open>None\<close>.
\<close>

partial_function (option) branch_path ::
  "(string \<rightharpoonup> entry) \<Rightarrow> entry \<Rightarrow> entry list \<Rightarrow> (durable_error + entry list) option" where
  "branch_path es e path =
    (case de_parentId e of
       None \<Rightarrow> Some (Inr (path @ [e]))
     | Some p \<Rightarrow>
         (case es p of
            None \<Rightarrow> Some (Inl (DError ''Corrupt branch: missing parent''))
          | Some e' \<Rightarrow> branch_path es e' (path @ [e])))"

fun stop_after :: "('a \<Rightarrow> bool) \<Rightarrow> 'a list \<Rightarrow> 'a list" where
  "stop_after stop [] = []"
| "stop_after stop (x # xs) = x # (if stop x then [] else stop_after stop xs)"

definition matches :: "'a option \<Rightarrow> 'a \<Rightarrow> bool" where
  "matches q v = (case q of None \<Rightarrow> True | Some w \<Rightarrow> v = w)"

definition limited :: "int option \<Rightarrow> 'a list \<Rightarrow> 'a list" where
  "limited limit xs = (case limit of None \<Rightarrow> xs | Some n \<Rightarrow> first_n (max 0 n) xs)"

definition scan_path :: "branch_scan \<Rightarrow> entry list \<Rightarrow> entry list" where
  "scan_path q newest =
    (let path = (if bs_order q = Some OldestFirst then rev newest else newest);
         stopped = stop_after (\<lambda>e. bs_stopAtId q = Some (de_id e) \<or> bs_stopAtType q = Some (de_type e)) path;
         filtered = filter (\<lambda>e. case bs_cursor q of None \<Rightarrow> True
                       | Some c \<Rightarrow> if bs_order q = Some OldestFirst then c < de_seq e else de_seq e < c)
                     (filter (\<lambda>e. bs_customType q = None \<or> de_customType e = bs_customType q)
                        (filter (\<lambda>e. matches (bs_type q) (de_type e)) stopped))
     in limited (bs_limit q) filtered)"

definition scanBranch ::
  "string \<Rightarrow> branch_scan \<Rightarrow> storage_state \<Rightarrow> (durable_error + entry list) option" where
  "scanBranch start q st =
    (case ss_entries st start of
       None \<Rightarrow> Some (Inl (DError (''Unknown branch start: '' @ start)))
     | Some e \<Rightarrow> map_option (map_sum id (scan_path q)) (branch_path (ss_entries st) e []))"

record entry_structure =
  et_id :: string
  et_parentId :: "string option"
  et_seq :: int
  et_timestamp :: int
  et_type :: entry_type
  et_customType :: "string option"

definition structure_of :: "entry \<Rightarrow> entry_structure" where
  "structure_of e = \<lparr>et_id = de_id e, et_parentId = de_parentId e, et_seq = de_seq e,
     et_timestamp = de_timestamp e, et_type = de_type e, et_customType = de_customType e\<rparr>"

definition scanBranchStructure ::
  "string \<Rightarrow> branch_scan \<Rightarrow> storage_state \<Rightarrow> (durable_error + entry_structure list) option" where
  "scanBranchStructure start q st =
    map_option (map_sum id (map structure_of)) (scanBranch start q st)"

section \<open>Scans of all entries and usage rows\<close>

record entry_scan =
  sc_type :: "entry_type option"
  sc_customType :: "string option"
  sc_fromSeq :: "int option"
  sc_toSeq :: "int option"
  sc_order :: "scan_order option"
  sc_limit :: "int option"

definition in_range :: "int option \<Rightarrow> int option \<Rightarrow> int \<Rightarrow> bool" where
  "in_range from_seq to_seq seq \<longleftrightarrow>
    (case from_seq of None \<Rightarrow> True | Some f \<Rightarrow> f \<le> seq) \<and>
    (case to_seq of None \<Rightarrow> True | Some t \<Rightarrow> seq \<le> t)"

definition scan_matches :: "entry_scan \<Rightarrow> entry \<Rightarrow> bool" where
  "scan_matches q e \<longleftrightarrow>
    matches (sc_type q) (de_type e) \<and>
    (sc_customType q = None \<or> de_customType e = sc_customType q) \<and>
    in_range (sc_fromSeq q) (sc_toSeq q) (de_seq e)"

text \<open>
  The loop of \<open>scanEntries\<close> over an index that runs up or down the array, until the array or the
  limit is exhausted.
\<close>

function scan_loop :: "entry_scan \<Rightarrow> int option \<Rightarrow> bool \<Rightarrow> entry list \<Rightarrow> int \<Rightarrow> entry list \<Rightarrow> entry list" where
  "scan_loop q limit descending bySeq index found =
    (if 0 \<le> index \<and> index < int (length bySeq) \<and>
        (case limit of None \<Rightarrow> True | Some n \<Rightarrow> int (length found) < n)
     then scan_loop q limit descending bySeq
            (if descending then index - 1 else index + 1)
            (if scan_matches q (bySeq ! nat index) then found @ [bySeq ! nat index] else found)
     else found)"
  by pat_completeness auto
termination
  by (relation "measure (\<lambda>(q, limit, descending, bySeq, index, found).
        if descending then nat (index + 1) else nat (int (length bySeq) - index))") auto

declare scan_loop.simps [simp del]

definition scanEntries :: "entry_scan \<Rightarrow> storage_state \<Rightarrow> entry list" where
  "scanEntries q st =
    (let limit = map_option (max 0) (sc_limit q);
         descending = (sc_order q = Some Desc)
     in scan_loop q limit descending (ss_bySeq st)
          (if descending then int (length (ss_bySeq st)) - 1 else 0) [])"

record usage_scan =
  uq_fromSeq :: "int option"
  uq_toSeq :: "int option"
  uq_order :: "scan_order option"
  uq_limit :: "int option"

definition scanUsage :: "usage_scan \<Rightarrow> storage_state \<Rightarrow> usage_row list" where
  "scanUsage q st =
    limited (uq_limit q)
      (sort_by (\<lambda>l r. if uq_order q = Some Desc then ur_seq r - ur_seq l else ur_seq l - ur_seq r)
        (filter (\<lambda>r. in_range (uq_fromSeq q) (uq_toSeq q) (ur_seq r)) (map snd (ss_usage st))))"

definition getStats :: "storage_state \<Rightarrow> session_stats" where
  "getStats st = ss_stats st"

definition getNextSeq :: "storage_state \<Rightarrow> int" where
  "getNextSeq st = ss_nextSeq st"

end
