(* ===== verification/DurableFork.thy ===== *)
theory DurableFork imports DurableState begin

text \<open>
  Copying a durable session: the policy of \<open>packages/agent/src/harness/session/fork-policy.ts\<close>, the
  copy made by \<open>InMemoryStorageState.createFork\<close> and the snapshot built by \<open>session/fork.ts\<close>. The
  value stored as the tip of a branch is a string or null; the set of entries that a fork selects
  is the list in which they are selected.
\<close>

section \<open>The policy\<close>

datatype fork_position = Before | At

datatype fork_options =
    ForkBranch string "string option" "fork_position option"
  | ForkTree

datatype fork_plan =
    PlanBranch string "string option"
  | PlanTree

text \<open>A stored tip, read as \<open>string | null\<close>.\<close>

fun tip_of :: "json \<Rightarrow> string option" where
  "tip_of (JStr s) = Some s"
| "tip_of _ = None"

fun tip_json :: "string option \<Rightarrow> json" where
  "tip_json (Some s) = JStr s"
| "tip_json None = JNull"

text \<open>
  The loop of \<open>selectBranchFork\<close> from the tip to the root; \<open>parent\<close> answers \<open>None\<close> for an unknown
  entry. Its value is whether the requested entry was found, the tip of the destination and the
  selected entries.
\<close>

partial_function (option) select_loop ::
  "(string \<rightharpoonup> string option) \<Rightarrow> string option \<Rightarrow> fork_position option \<Rightarrow> string option \<Rightarrow> bool
    \<Rightarrow> string option \<Rightarrow> string list
    \<Rightarrow> (durable_error + (bool \<times> string option \<times> string list)) option" where
  "select_loop parent requested pos entryId found dest selected =
    (case entryId of
       None \<Rightarrow> Some (Inr (found, dest, selected))
     | Some i \<Rightarrow>
         (case parent i of
            None \<Rightarrow> Some (Inl (DError (''Corrupt source branch: missing parent '' @ i)))
          | Some p \<Rightarrow>
              if Some i = requested
              then select_loop parent requested pos p True
                     (if pos = Some Before then p else Some i)
                     (if pos = Some Before then selected else selected @ [i])
              else select_loop parent requested pos p found dest
                     (if found then selected @ [i] else selected)))"

definition selectBranchFork ::
  "string \<Rightarrow> string option \<Rightarrow> fork_position option \<Rightarrow> string option option \<Rightarrow> (string \<rightharpoonup> string option)
    \<Rightarrow> (durable_error + (fork_plan \<times> string list)) option" where
  "selectBranchFork branch entryId pos tip parent =
    (case tip of
       None \<Rightarrow> Some (Inl (DError (''Unknown source branch: '' @ branch)))
     | Some t \<Rightarrow>
         let requested = (case entryId of Some i \<Rightarrow> Some i | None \<Rightarrow> t)
         in map_option (\<lambda>r. bindE r (\<lambda>(found, dest, selected).
              if found then Inr (PlanBranch branch dest, selected)
              else Inl (DError (''Fork entry '' @ or_else requested ''null''
                                @ '' is not on source branch '' @ stringify_string branch))))
            (select_loop parent requested pos t (requested = None) None []))"

datatype projected = Keep json | Omit

text \<open>
  What becomes of one current value or surviving list element: it is kept, with the value that it
  has in the destination, or omitted. A reserved namespace that the policy does not know throws.
\<close>

definition idle_lane_state :: json where
  "idle_lane_state =
    JObj [(''currentOperationId'', JNull), (''lastOperationId'', JNull), (''inbox'', JArr [])]"

definition projectForkCurrentStateWrite ::
  "fork_plan \<Rightarrow> (string \<Rightarrow> bool) \<Rightarrow> string \<Rightarrow> string \<Rightarrow> json \<Rightarrow> durable_error + projected" where
  "projectForkCurrentStateWrite plan isEntryCopied namespace key v =
    (if namespace = ''pi.session.name'' then Inr (Keep v)
     else if namespace = ''pi.entry.label'' then Inr (if isEntryCopied key then Keep v else Omit)
     else if namespace = ''pi.branch.tip'' then
       Inr (case plan of PlanTree \<Rightarrow> Keep v
            | PlanBranch b dest \<Rightarrow> if key = b then Keep (tip_json dest) else Omit)
     else if namespace = ''pi.lane.config'' then
       Inr (case plan of PlanTree \<Rightarrow> Keep v | PlanBranch b dest \<Rightarrow> if key = b then Keep v else Omit)
     else if namespace = ''pi.lane.state'' then
       Inr (case plan of PlanTree \<Rightarrow> Keep idle_lane_state
            | PlanBranch b dest \<Rightarrow> if key = b then Keep idle_lane_state else Omit)
     else if namespace = ''pi.result'' then Inr Omit
     else if starts_with namespace ''pi.op.'' \<or> starts_with namespace ''pi.pending.'' then Inr Omit
     else if namespace = ''pi'' \<or> starts_with namespace ''pi.'' then
       Inl (DError (''Unknown reserved fork namespace: '' @ namespace))
     else Inr (case plan of PlanTree \<Rightarrow> Keep v | PlanBranch b dest \<Rightarrow> Omit))"

section \<open>The fork of the state in memory\<close>

text \<open>\<open>this.entries.get(entryId)?.parentId\<close>.\<close>

definition parent_in :: "(string \<rightharpoonup> entry) \<Rightarrow> string \<rightharpoonup> string option" where
  "parent_in es i = map_option de_parentId (es i)"

definition value_of :: "string \<Rightarrow> string \<Rightarrow> storage_state \<Rightarrow> json option" where
  "value_of namespace key st = map_option sv_value (map_of (ss_scalar st) (physicalKey namespace key))"

definition selectForkPlan ::
  "fork_options \<Rightarrow> storage_state \<Rightarrow> (durable_error + (fork_plan \<times> string list)) option" where
  "selectForkPlan options st =
    (case options of
       ForkTree \<Rightarrow> Some (Inr (PlanTree, []))
     | ForkBranch branch entryId pos \<Rightarrow>
         (case branchTip branch of
            Inl e \<Rightarrow> Some (Inl e)
          | Inr a \<Rightarrow>
              map_option (\<lambda>r. bindE r (\<lambda>plan.
                 bindE (laneConfig branch) (\<lambda>ca.
                   if getValue ca st = None
                   then Inl (DError (''Source branch '' @ stringify_string branch @ '' is not a configured AgentLane''))
                   else bindE (laneState branch) (\<lambda>sa.
                     if getValue sa st = None
                     then Inl (DError (''Source branch '' @ stringify_string branch @ '' is not a configured AgentLane''))
                     else Inr plan))))
              (selectBranchFork branch entryId pos
                 (map_option (\<lambda>s. tip_of (sv_value s)) (getValue a st))
                 (parent_in (ss_entries st)))))"

definition copied :: "fork_plan \<Rightarrow> string list \<Rightarrow> string \<Rightarrow> bool" where
  "copied plan selected i = (case plan of PlanTree \<Rightarrow> True | PlanBranch b dest \<Rightarrow> i \<in> set selected)"

definition fork_entry :: "(string \<Rightarrow> bool) \<Rightarrow> entry \<Rightarrow> storage_state \<Rightarrow> storage_state" where
  "fork_entry isEntryCopied e dst =
    (if isEntryCopied (de_id e)
     then dst\<lparr>ss_entries := (ss_entries dst)(de_id e \<mapsto> e), ss_bySeq := ss_bySeq dst @ [e],
              ss_stats := (ss_stats dst)\<lparr>st_messageCount :=
                st_messageCount (ss_stats dst) + (if de_type e = MessageT then 1 else 0)\<rparr>\<rparr>
     else dst)"

definition fork_value ::
  "fork_plan \<Rightarrow> (string \<Rightarrow> bool) \<Rightarrow> stored_value \<Rightarrow> storage_state \<Rightarrow> durable_error + storage_state" where
  "fork_value plan isEntryCopied stored dst =
    (let ns = ad_namespace (sv_address stored); k = ad_key (sv_address stored) in
     bindE (projectForkCurrentStateWrite plan isEntryCopied ns k (sv_value stored)) (\<lambda>p.
       case p of Omit \<Rightarrow> Inr dst | Keep v \<Rightarrow> value_set (sv_seq stored) ns k v dst))"

definition fork_element ::
  "fork_plan \<Rightarrow> (string \<Rightarrow> bool) \<Rightarrow> address \<Rightarrow> list_element \<Rightarrow> storage_state \<Rightarrow> durable_error + storage_state" where
  "fork_element plan isEntryCopied a x dst =
    bindE (projectForkCurrentStateWrite plan isEntryCopied (ad_namespace a) (ad_key a) (le_value x)) (\<lambda>p.
      case p of Omit \<Rightarrow> Inr dst
      | Keep v \<Rightarrow> list_append (le_seq x) (ad_namespace a) (ad_key a) v dst)"

definition fork_list ::
  "fork_plan \<Rightarrow> (string \<Rightarrow> bool) \<Rightarrow> list_snapshot \<Rightarrow> storage_state \<Rightarrow> durable_error + storage_state" where
  "fork_list plan isEntryCopied l dst =
    foldE (fork_element plan isEntryCopied (ls_address l)) (ls_elements l) dst"

definition createFork :: "fork_options \<Rightarrow> storage_state \<Rightarrow> (durable_error + storage_state) option" where
  "createFork options st =
    map_option (\<lambda>r. bindE r (\<lambda>(plan, selected).
      let isEntryCopied = copied plan selected;
          dst = fold (fork_entry isEntryCopied) (ss_bySeq st) storage_new
      in bindE (foldE (fork_value plan isEntryCopied) (map snd (ss_scalar st)) dst) (\<lambda>dst.
         bindE (foldE (fork_list plan isEntryCopied) (map snd (ss_lists st)) dst) (\<lambda>dst.
           Inr (dst\<lparr>ss_nextSeq := ss_nextSeq st\<rparr>)))))
    (selectForkPlan options st)"

section \<open>The fork of a snapshot\<close>

text \<open>
  \<open>fork.ts\<close>: a backend hands over its entries and current values and gets those of the
  destination. \<open>complete\<close> is \<open>entriesComplete !== false\<close>.
\<close>

record fork_source =
  fs_entries :: "entry list"
  fs_scalar :: "stored_value list"
  fs_complete :: bool

record fork_destination =
  fd_entries :: "(string \<times> entry) list"
  fd_scalar :: "stored_value list"
  fd_nextSeq :: int

definition storedValuesInNamespace :: "stored_value list \<Rightarrow> string \<Rightarrow> stored_value list" where
  "storedValuesInNamespace vs namespace = filter (\<lambda>s. ad_namespace (sv_address s) = namespace) vs"

definition findStoredValue :: "stored_value list \<Rightarrow> string \<Rightarrow> string \<Rightarrow> stored_value option" where
  "findStoredValue vs namespace key =
    List.find (\<lambda>s. ad_namespace (sv_address s) = namespace \<and> ad_key (sv_address s) = key) vs"

text \<open>\<open>new Map(source.entries.map((entry) => [entry.id, entry]))\<close>.\<close>

definition source_map :: "entry list \<Rightarrow> (string \<times> entry) list" where
  "source_map es = fold (\<lambda>e m. AList.update (de_id e) e m) es []"

definition validateForkSourceSnapshot ::
  "fork_source \<Rightarrow> (string \<times> entry) list \<Rightarrow> stored_value list \<Rightarrow> fork_options \<Rightarrow> durable_error + unit" where
  "validateForkSourceSnapshot source sourceEntries sourceTips options =
    bindE (checkE (\<lambda>s.
        let ns = ad_namespace (sv_address s); k = ad_key (sv_address s) in
        if (ns = ''pi.lane.config'' \<or> ns = ''pi.lane.state'')
           \<and> k \<notin> set (map (\<lambda>t. ad_key (sv_address t)) sourceTips)
        then Inl (DError (''Source session branch '' @ stringify_string k @ '' is missing branch.tip''))
        else Inr ()) (fs_scalar source)) (\<lambda>_.
    checkE (\<lambda>t.
        let k = ad_key (sv_address t);
            configuration = findStoredValue (fs_scalar source) ''pi.lane.config'' k;
            lane = findStoredValue (fs_scalar source) ''pi.lane.state'' k
        in if (configuration = None) \<noteq> (lane = None)
           then Inl (DError (''Source session branch '' @ stringify_string k @ '' has incomplete lane state''))
           else if (case options of ForkBranch b i p \<Rightarrow> k = b \<and> configuration = None | ForkTree \<Rightarrow> False)
           then Inl (DError (''Source branch '' @ stringify_string k @ '' is not a configured AgentLane''))
           else if (fs_complete source \<or> options = ForkTree)
                   \<and> (case tip_of (sv_value t) of None \<Rightarrow> False | Some i \<Rightarrow> map_of sourceEntries i = None)
           then Inl (DError (''Source session branch '' @ stringify_string k @ '' has an unknown tip''))
           else Inr ()) sourceTips)"

definition selectForkContents ::
  "(string \<times> entry) list \<Rightarrow> stored_value list \<Rightarrow> fork_options
    \<Rightarrow> (durable_error + (fork_plan \<times> string list)) option" where
  "selectForkContents sourceEntries sourceTips options =
    (case options of
       ForkTree \<Rightarrow> Some (Inr (PlanTree, map fst sourceEntries))
     | ForkBranch branch entryId pos \<Rightarrow>
         selectBranchFork branch entryId pos
           (map_option (\<lambda>s. tip_of (sv_value s))
              (List.find (\<lambda>s. ad_key (sv_address s) = branch) sourceTips))
           (parent_in (map_of sourceEntries)))"

text \<open>The projected values, renumbered from the sequence after the last entry.\<close>

definition snapshot_value ::
  "fork_plan \<Rightarrow> string list \<Rightarrow> stored_value \<Rightarrow> stored_value list \<times> int
    \<Rightarrow> durable_error + (stored_value list \<times> int)" where
  "snapshot_value plan entryIds stored acc =
    (let ns = ad_namespace (sv_address stored); k = ad_key (sv_address stored) in
     bindE (projectForkCurrentStateWrite plan (\<lambda>i. i \<in> set entryIds) ns k (sv_value stored)) (\<lambda>p.
       case p of Omit \<Rightarrow> Inr acc
       | Keep v \<Rightarrow> bindE (value_at ns k) (\<lambda>a.
           Inr (fst acc @ [\<lparr>sv_address = a, sv_value = v, sv_seq = snd acc\<rparr>], snd acc + 1))))"

definition highest_seq :: "entry list \<Rightarrow> int" where
  "highest_seq es = fold (\<lambda>e m. max m (de_seq e)) es 0"

definition createForkSnapshot ::
  "fork_source \<Rightarrow> fork_options \<Rightarrow> (durable_error + fork_destination) option" where
  "createForkSnapshot source options =
    (let sourceEntries = source_map (fs_entries source);
         sourceTips = storedValuesInNamespace (fs_scalar source) ''pi.branch.tip''
     in case validateForkSourceSnapshot source sourceEntries sourceTips options of
          Inl e \<Rightarrow> Some (Inl e)
        | Inr u \<Rightarrow>
            map_option (\<lambda>r. bindE r (\<lambda>(plan, entryIds).
              let entries = List.map_filter (\<lambda>i. map_option (Pair i) (map_of sourceEntries i)) entryIds
              in bindE (foldE (snapshot_value plan entryIds) (fs_scalar source)
                          ([], highest_seq (map snd entries) + 1)) (\<lambda>(vs, next).
                   Inr \<lparr>fd_entries = entries, fd_scalar = vs, fd_nextSeq = next\<rparr>)))
            (selectForkContents sourceEntries sourceTips options))"

end
