(* ===== verification/DurableLaws.thy ===== *)
theory DurableLaws imports DurableFork begin

text \<open>
  The invariant of a durable session and its preservation by commits. What the validation of a
  whole transaction accepts is what each of its writes needs of the state it meets (\<open>validated\<close>),
  so that the invariant has to be kept by single writes only. The validation does not look at
  addresses: a write of it takes effect when its address is valid as well (\<open>admissible\<close>), and the loop
  of \<open>applyValidated\<close> is specified by total functions on such writes (\<open>after_write\<close>).
\<close>

section \<open>Lists updated by key\<close>

lemma update_fresh: "k \<notin> fst ` set al \<Longrightarrow> AList.update k v al = al @ [(k, v)]"
  by (induction al) auto

lemma set_update_cases: "(j, x) \<in> set (AList.update k v al) \<Longrightarrow> (j, x) = (k, v) \<or> (j, x) \<in> set al"
  by (induction al) (auto split: if_splits)

lemma set_delete_subset: "set (AList.delete k al) \<subseteq> set al"
  by (simp add: AList.delete_eq)

lemma map_of_entries: "map_of (map (\<lambda>e. (f e, e)) (xs @ [x])) i =
  (case map_of (map (\<lambda>e. (f e, e)) xs) i of None \<Rightarrow> (if i = f x then Some x else None) | Some e \<Rightarrow> Some e)"
  by (simp add: map_add_def split: option.splits)

section \<open>What a write leaves\<close>

text \<open>The effect of a write whose address is not looked at.\<close>

definition put_value :: "int \<Rightarrow> string \<Rightarrow> string \<Rightarrow> json \<Rightarrow> storage_state \<Rightarrow> storage_state" where
  "put_value seq namespace key v st =
    st\<lparr>ss_scalar := AList.update (physicalKey namespace key)
         \<lparr>sv_address = \<lparr>ad_namespace = namespace, ad_key = key, ad_kind = ValueA\<rparr>,
          sv_value = v, sv_seq = seq\<rparr> (ss_scalar st)\<rparr>"

definition put_list :: "int \<Rightarrow> string \<Rightarrow> string \<Rightarrow> json \<Rightarrow> storage_state \<Rightarrow> storage_state" where
  "put_list seq namespace key v st =
    (let pk = physicalKey namespace key;
         element = \<lparr>le_seq = seq, le_value = v\<rparr>
     in case map_of (ss_lists st) pk of
          None \<Rightarrow> st\<lparr>ss_lists := AList.update pk
            \<lparr>ls_address = \<lparr>ad_namespace = namespace, ad_key = key, ad_kind = ListA\<rparr>,
             ls_elements = [element]\<rparr> (ss_lists st)\<rparr>
        | Some stored \<Rightarrow> st\<lparr>ss_lists := AList.update pk
            (stored\<lparr>ls_elements := ls_elements stored @ [element]\<rparr>) (ss_lists st)\<rparr>)"

fun write_effect :: "(rat \<Rightarrow> rat \<Rightarrow> rat) \<Rightarrow> committed \<Rightarrow> storage_state \<Rightarrow> storage_state" where
  "write_effect fadd (CEntry e) st =
    (let st = st\<lparr>ss_entries := (ss_entries st)(de_id e \<mapsto> e), ss_bySeq := ss_bySeq st @ [e]\<rparr>
     in if de_type e = MessageT
        then st\<lparr>ss_stats := (ss_stats st)\<lparr>st_messageCount := st_messageCount (ss_stats st) + 1\<rparr>\<rparr>
        else st)"
| "write_effect fadd (CUsage r) st =
    st\<lparr>ss_usage := AList.update (ur_id r) r (ss_usage st),
       ss_stats := (ss_stats st)\<lparr>st_usage := addUsage fadd (st_usage (ss_stats st)) (ur_usage r)\<rparr>\<rparr>"
| "write_effect fadd (CValueSet seq n k v) st = put_value seq n k v st"
| "write_effect fadd (CValueDelete seq n k) st =
    st\<lparr>ss_scalar := AList.delete (physicalKey n k) (ss_scalar st)\<rparr>"
| "write_effect fadd (CListAppend seq n k v) st = put_list seq n k v st"
| "write_effect fadd (CListDelete seq n k) st =
    st\<lparr>ss_lists := AList.delete (physicalKey n k) (ss_lists st)\<rparr>"

definition after_write :: "(rat \<Rightarrow> rat \<Rightarrow> rat) \<Rightarrow> committed \<Rightarrow> storage_state \<Rightarrow> storage_state" where
  "after_write fadd w st = (write_effect fadd w st)\<lparr>ss_nextSeq := cw_seq w + 1\<rparr>"

definition after_writes ::
  "(rat \<Rightarrow> rat \<Rightarrow> rat) \<Rightarrow> committed list \<Rightarrow> storage_state \<Rightarrow> storage_state" where
  "after_writes fadd writes st = fold (after_write fadd) writes st"

text \<open>A write at an address that \<open>value()\<close> and \<open>list()\<close> accept; deletions do not ask.\<close>

definition valid_address :: "string \<Rightarrow> string \<Rightarrow> bool" where
  "valid_address n k \<longleftrightarrow> n \<noteq> [] \<and> NUL \<notin> set n \<and> NUL \<notin> set k"

lemma valid_address_iff: "valid_address n k \<longleftrightarrow> validateAddress n k = Inr ()"
  by (auto simp: valid_address_def validateAddress_def)

lemma address_of_valid:
  "valid_address n k \<Longrightarrow> value_at n k = Inr \<lparr>ad_namespace = n, ad_key = k, ad_kind = ValueA\<rparr>"
  "valid_address n k \<Longrightarrow> list_at n k = Inr \<lparr>ad_namespace = n, ad_key = k, ad_kind = ListA\<rparr>"
  by (simp_all add: valid_address_iff value_at_def list_at_def)

lemma address_of_invalid:
  assumes "\<not> valid_address n k"
  obtains e where "value_at n k = Inl e" "list_at n k = Inl e"
  using assms by (cases "validateAddress n k") (simp_all add: valid_address_iff value_at_def list_at_def)

fun addressed :: "committed \<Rightarrow> bool" where
  "addressed (CValueSet seq n k v) = valid_address n k"
| "addressed (CListAppend seq n k v) = valid_address n k"
| "addressed w = True"

lemma value_set_valid: "valid_address n k \<Longrightarrow> value_set seq n k v st = Inr (put_value seq n k v st)"
  by (simp add: value_set_def put_value_def address_of_valid)

lemma list_append_valid: "valid_address n k \<Longrightarrow> list_append seq n k v st = Inr (put_list seq n k v st)"
  by (simp add: list_append_def put_list_def address_of_valid Let_def split: option.split)

lemma apply_write_addressed: "addressed w \<Longrightarrow> apply_write fadd w st = Inr (after_write fadd w st)"
  by (cases w) (simp_all add: apply_write_def after_write_def value_set_valid list_append_valid Let_def)

lemma applyValidated_addressed:
  "\<forall>w\<in>set ws. addressed w \<Longrightarrow>
    applyValidated fadd ws st = (Inr (ss_stats (after_writes fadd ws st)), after_writes fadd ws st)"
  by (induction ws arbitrary: st) (simp_all add: apply_write_addressed after_writes_def)

section \<open>Admissible writes\<close>

definition validated :: "committed \<Rightarrow> storage_state \<Rightarrow> bool" where
  "validated w st \<longleftrightarrow>
    ss_nextSeq st \<le> cw_seq w \<and>
    (case cw_id w of None \<Rightarrow> True | Some i \<Rightarrow> \<not> hasEntryOrUsageId st i) \<and>
    (case cw_parent w of None \<Rightarrow> True | Some p \<Rightarrow> hasEntryId st p)"

definition admissible :: "committed \<Rightarrow> storage_state \<Rightarrow> bool" where
  "admissible w st \<longleftrightarrow> validated w st \<and> addressed w"

fun validated_all :: "(rat \<Rightarrow> rat \<Rightarrow> rat) \<Rightarrow> committed list \<Rightarrow> storage_state \<Rightarrow> bool" where
  "validated_all fadd [] st = True"
| "validated_all fadd (w # ws) st = (validated w st \<and> validated_all fadd ws (after_write fadd w st))"

fun admissible_all :: "(rat \<Rightarrow> rat \<Rightarrow> rat) \<Rightarrow> committed list \<Rightarrow> storage_state \<Rightarrow> bool" where
  "admissible_all fadd [] st = True"
| "admissible_all fadd (w # ws) st = (admissible w st \<and> admissible_all fadd ws (after_write fadd w st))"

lemma admissible_all_iff: "admissible_all fadd ws st \<longleftrightarrow> validated_all fadd ws st \<and> (\<forall>w\<in>set ws. addressed w)"
  by (induction ws arbitrary: st) (auto simp: admissible_def)

lemma after_write_nextSeq [simp]: "ss_nextSeq (after_write fadd w st) = cw_seq w + 1"
  by (simp add: after_write_def)

lemma put_value_fields [simp]:
  "ss_entries (put_value s n k v st) = ss_entries st" "ss_bySeq (put_value s n k v st) = ss_bySeq st"
  "ss_usage (put_value s n k v st) = ss_usage st" "ss_lists (put_value s n k v st) = ss_lists st"
  "ss_stats (put_value s n k v st) = ss_stats st" "ss_nextSeq (put_value s n k v st) = ss_nextSeq st"
  by (simp_all add: put_value_def)

lemma put_list_fields [simp]:
  "ss_entries (put_list s n k v st) = ss_entries st" "ss_bySeq (put_list s n k v st) = ss_bySeq st"
  "ss_usage (put_list s n k v st) = ss_usage st" "ss_scalar (put_list s n k v st) = ss_scalar st"
  "ss_stats (put_list s n k v st) = ss_stats st" "ss_nextSeq (put_list s n k v st) = ss_nextSeq st"
  by (simp_all add: put_list_def Let_def split: option.splits)

lemma after_write_entries [simp]:
  "ss_entries (after_write fadd w st) =
    (case cw_entry w of None \<Rightarrow> ss_entries st | Some e \<Rightarrow> (ss_entries st)(de_id e \<mapsto> e))"
  "ss_bySeq (after_write fadd w st) = ss_bySeq st @ (case cw_entry w of None \<Rightarrow> [] | Some e \<Rightarrow> [e])"
  by (cases w; simp add: after_write_def Let_def)+

lemma after_write_ids:
  "hasEntryId (after_write fadd w st) i \<longleftrightarrow> hasEntryId st i \<or> (cw_entry w \<noteq> None \<and> cw_id w = Some i)"
  "hasEntryOrUsageId (after_write fadd w st) i \<longleftrightarrow> hasEntryOrUsageId st i \<or> cw_id w = Some i"
  by (cases w; auto simp: hasEntryId_def hasEntryOrUsageId_def after_write_def Let_def update_conv')+

lemma validate_write_ok:
  assumes "\<And>i. hasEntryOrUsageId st i \<longleftrightarrow> hasU i \<or> i \<in> set (va_ids va)"
    and "\<And>i. hasEntryId st i \<longleftrightarrow> hasE i \<or> i \<in> set (va_entryIds va)"
    and "va_previousSeq va = ss_nextSeq st - 1"
  shows "is_ok (validate_write hasU hasE w va) \<longleftrightarrow> validated w st"
  using assms
  by (cases w) (auto simp: validate_write_def validated_def Let_def is_ok_iff split: option.splits if_splits)

lemma validate_write_next:
  assumes "validate_write hasU hasE w va = Inr va'"
    and "\<And>i. hasEntryOrUsageId st i \<longleftrightarrow> hasU i \<or> i \<in> set (va_ids va)"
    and "\<And>i. hasEntryId st i \<longleftrightarrow> hasE i \<or> i \<in> set (va_entryIds va)"
  shows "(\<forall>i. hasEntryOrUsageId (after_write fadd w st) i \<longleftrightarrow> hasU i \<or> i \<in> set (va_ids va')) \<and>
    (\<forall>i. hasEntryId (after_write fadd w st) i \<longleftrightarrow> hasE i \<or> i \<in> set (va_entryIds va')) \<and>
    va_previousSeq va' = ss_nextSeq (after_write fadd w st) - 1"
  using assms
  by (cases w) (auto simp: validate_write_def after_write_ids Let_def split: option.splits if_splits)

lemma validate_all_iff:
  assumes "\<And>i. hasEntryOrUsageId st i \<longleftrightarrow> hasU i \<or> i \<in> set (va_ids va)"
    and "\<And>i. hasEntryId st i \<longleftrightarrow> hasE i \<or> i \<in> set (va_entryIds va)"
    and "va_previousSeq va = ss_nextSeq st - 1"
  shows "is_ok (foldE (validate_write hasU hasE) ws va) \<longleftrightarrow> validated_all fadd ws st"
  using assms
proof (induction ws arbitrary: va st)
  case Nil
  show ?case by simp
next
  case (Cons w ws)
  note one = validate_write_ok [OF Cons.prems, of w]
  show ?case
  proof (cases "validate_write hasU hasE w va")
    case (Inl e)
    with one show ?thesis by simp
  next
    case (Inr va')
    with one have "validated w st" by simp
    with Inr Cons.IH [of "after_write fadd w st" va']
      validate_write_next [OF Inr Cons.prems(1,2), of fadd] show ?thesis by simp
  qed
qed

lemma validateCommitted_iff: "is_ok (validateCommitted ws st) \<longleftrightarrow> validated_all fadd ws st"
proof -
  define va where "va = \<lparr>va_previousSeq = ss_nextSeq st - 1, va_ids = [], va_entryIds = []\<rparr>"
  have "is_ok (foldE (validate_write (hasEntryOrUsageId st) (hasEntryId st)) ws va)
      \<longleftrightarrow> validated_all fadd ws st"
    by (rule validate_all_iff) (simp_all add: va_def)
  then show ?thesis
    by (auto simp: validateCommitted_def validateCommittedWrites_def va_def is_ok_iff bindE_eq_Inr)
qed

lemma after_writes_simps [simp]:
  "after_writes fadd [] st = st"
  "after_writes fadd (w # ws) st = after_writes fadd ws (after_write fadd w st)"
  by (simp_all add: after_writes_def)

lemma after_writes_append:
  "after_writes fadd (us @ vs) st = after_writes fadd vs (after_writes fadd us st)"
  by (simp add: after_writes_def)

lemma admissible_all_append:
  "admissible_all fadd (us @ vs) st \<longleftrightarrow>
    admissible_all fadd us st \<and> admissible_all fadd vs (after_writes fadd us st)"
  by (induction us arbitrary: st) auto

lemma validated_all_append:
  "validated_all fadd (us @ vs) st \<longleftrightarrow>
    validated_all fadd us st \<and> validated_all fadd vs (after_writes fadd us st)"
  by (induction us arbitrary: st) auto

section \<open>The invariant\<close>

text \<open>Every entry comes after its parent.\<close>

definition parents_first :: "entry list \<Rightarrow> bool" where
  "parents_first es \<longleftrightarrow>
    (\<forall>us e vs. es = us @ e # vs \<longrightarrow>
      (case de_parentId e of None \<Rightarrow> True | Some p \<Rightarrow> p \<in> de_id ` set us))"

definition entries_wf :: "int \<Rightarrow> entry list \<Rightarrow> bool" where
  "entries_wf next es \<longleftrightarrow> distinct (map de_id es) \<and> sorted_wrt (<) (map de_seq es) \<and> parents_first es \<and>
    (\<forall>e\<in>set es. de_seq e < next)"

definition index_of :: "entry list \<Rightarrow> string \<rightharpoonup> entry" where
  "index_of es = map_of (map (\<lambda>e. (de_id e, e)) es)"

definition message_count :: "entry list \<Rightarrow> nat" where
  "message_count es = length (filter (\<lambda>e. de_type e = MessageT) es)"

definition usage_wf :: "int \<Rightarrow> entry list \<Rightarrow> (string \<times> usage_row) list \<Rightarrow> bool" where
  "usage_wf next es us \<longleftrightarrow> distinct (map fst us) \<and>
    (\<forall>(i, r)\<in>set us. ur_id r = i \<and> ur_seq r < next \<and> i \<notin> de_id ` set es)"

definition sums_of :: "(rat \<Rightarrow> rat \<Rightarrow> rat) \<Rightarrow> usage_row list \<Rightarrow> usage" where
  "sums_of fadd rows = fold (\<lambda>r u. addUsage fadd u (ur_usage r)) rows emptyUsage"

definition lists_wf :: "int \<Rightarrow> (string \<times> list_snapshot) list \<Rightarrow> bool" where
  "lists_wf next ls \<longleftrightarrow> distinct (map fst ls) \<and>
    (\<forall>(k, l)\<in>set ls. k = physicalKey (ad_namespace (ls_address l)) (ad_key (ls_address l)) \<and>
       valid_address (ad_namespace (ls_address l)) (ad_key (ls_address l)) \<and>
       sorted_wrt (<) (map le_seq (ls_elements l)) \<and> (\<forall>x\<in>set (ls_elements l). le_seq x < next))"

definition values_wf :: "int \<Rightarrow> (string \<times> stored_value) list \<Rightarrow> bool" where
  "values_wf next vs \<longleftrightarrow> distinct (map fst vs) \<and>
    (\<forall>(k, s)\<in>set vs. k = physicalKey (ad_namespace (sv_address s)) (ad_key (sv_address s)) \<and>
       valid_address (ad_namespace (sv_address s)) (ad_key (sv_address s)) \<and>
       ad_kind (sv_address s) = ValueA \<and> sv_seq s < next)"

definition storage_inv :: "(rat \<Rightarrow> rat \<Rightarrow> rat) \<Rightarrow> storage_state \<Rightarrow> bool" where
  "storage_inv fadd st \<longleftrightarrow>
    entries_wf (ss_nextSeq st) (ss_bySeq st) \<and>
    ss_entries st = index_of (ss_bySeq st) \<and>
    usage_wf (ss_nextSeq st) (ss_bySeq st) (ss_usage st) \<and>
    values_wf (ss_nextSeq st) (ss_scalar st) \<and>
    lists_wf (ss_nextSeq st) (ss_lists st) \<and>
    st_messageCount (ss_stats st) = message_count (ss_bySeq st) \<and>
    st_usage (ss_stats st) = sums_of fadd (map snd (ss_usage st))"

lemma storage_inv_new: "storage_inv fadd storage_new"
  by (simp add: storage_inv_def storage_new_def entries_wf_def parents_first_def values_wf_def
      usage_wf_def lists_wf_def sums_of_def index_of_def message_count_def)

lemma index_of_snoc: "de_id e \<notin> de_id ` set es \<Longrightarrow> index_of (es @ [e]) = (index_of es)(de_id e \<mapsto> e)"
  by (simp add: index_of_def map_add_upd_left dom_map_of_conv_image_fst image_image)

lemma index_of_None: "index_of es i = None \<longleftrightarrow> i \<notin> de_id ` set es"
  by (simp add: index_of_def map_of_eq_None_iff image_image)

lemma index_of_Some: "index_of es i = Some e \<Longrightarrow> e \<in> set es \<and> de_id e = i"
  by (auto simp: index_of_def dest!: map_of_SomeD)

lemma index_of_mem: "distinct (map de_id es) \<Longrightarrow> e \<in> set es \<Longrightarrow> index_of es (de_id e) = Some e"
  by (simp add: index_of_def comp_def)

lemma message_count_snoc:
  "message_count (es @ [e]) = message_count es + (if de_type e = MessageT then 1 else 0)"
  by (simp add: message_count_def)

lemma parents_first_snoc:
  "parents_first (es @ [e]) \<longleftrightarrow> parents_first es \<and>
    (case de_parentId e of None \<Rightarrow> True | Some p \<Rightarrow> p \<in> de_id ` set es)"
proof -
  have split: "es @ [e] = us @ x # vs \<longleftrightarrow> (vs = [] \<and> us = es \<and> x = e) \<or> (\<exists>ws. vs = ws @ [e] \<and> es = us @ x # ws)"
    for us x vs
    by (cases vs rule: rev_cases) auto
  show ?thesis unfolding parents_first_def split by blast
qed

lemma values_wf_mono: "values_wf n vs \<Longrightarrow> n \<le> m \<Longrightarrow> values_wf m vs"
  by (fastforce simp: values_wf_def)

lemma lists_wf_mono:
  assumes "lists_wf n ls" "n \<le> m"
  shows "lists_wf m ls"
proof -
  have "le_seq x < m" if "(k, l) \<in> set ls" "x \<in> set (ls_elements l)" for k l x
    using assms that unfolding lists_wf_def by fastforce
  with assms(1) show ?thesis unfolding lists_wf_def by fastforce
qed

lemma values_wf_set:
  assumes "values_wf n vs" "n \<le> seq" "valid_address ns k"
  shows "values_wf (seq + 1) (AList.update (physicalKey ns k)
    \<lparr>sv_address = \<lparr>ad_namespace = ns, ad_key = k, ad_kind = ValueA\<rparr>, sv_value = v, sv_seq = seq\<rparr> vs)"
  using assms unfolding values_wf_def
  by (auto simp: distinct_update dest!: set_update_cases)

lemma values_wf_delete: "values_wf n vs \<Longrightarrow> values_wf n (AList.delete k vs)"
  unfolding values_wf_def using set_delete_subset [of k vs] by (auto simp: distinct_delete)

lemma lists_wf_delete: "lists_wf n ls \<Longrightarrow> lists_wf n (AList.delete k ls)"
  unfolding lists_wf_def by (fastforce simp: distinct_delete dest!: subsetD [OF set_delete_subset])

lemma lists_wf_update:
  assumes "lists_wf n ls" "k = physicalKey (ad_namespace (ls_address l)) (ad_key (ls_address l))"
    and "valid_address (ad_namespace (ls_address l)) (ad_key (ls_address l))"
    and "sorted_wrt (<) (map le_seq (ls_elements l))" "\<forall>x\<in>set (ls_elements l). le_seq x < n"
  shows "lists_wf n (AList.update k l ls)"
  using assms unfolding lists_wf_def by (auto simp: distinct_update dest!: set_update_cases)

lemma lists_wf_append:
  assumes wf: "lists_wf n (ss_lists st)" and n: "n \<le> seq" and valid: "valid_address ns k"
  shows "lists_wf (seq + 1) (ss_lists (put_list seq ns k v st))"
proof -
  have wf': "lists_wf (seq + 1) (ss_lists st)" using lists_wf_mono [OF wf] n by simp
  show ?thesis
  proof (cases "map_of (ss_lists st) (physicalKey ns k)")
    case None
    then show ?thesis using wf' valid by (auto simp: put_list_def Let_def intro!: lists_wf_update)
  next
    case (Some l)
    then have "(physicalKey ns k, l) \<in> set (ss_lists st)" by (rule map_of_SomeD)
    with wf have "physicalKey ns k = physicalKey (ad_namespace (ls_address l)) (ad_key (ls_address l))"
        "valid_address (ad_namespace (ls_address l)) (ad_key (ls_address l))"
        "sorted_wrt (<) (map le_seq (ls_elements l))" "\<forall>x\<in>set (ls_elements l). le_seq x < n"
      by (auto simp: lists_wf_def)
    moreover from this(4) n have "\<forall>x\<in>set (ls_elements l). le_seq x < seq" by fastforce
    ultimately show ?thesis using Some wf'
      by (fastforce simp: put_list_def Let_def sorted_wrt_append intro!: lists_wf_update)
  qed
qed

lemma sums_of_append: "sums_of fadd (rs @ [r]) = addUsage fadd (sums_of fadd rs) (ur_usage r)"
  by (simp add: sums_of_def)

lemma entries_wf_mono: "entries_wf n es \<Longrightarrow> n \<le> m \<Longrightarrow> entries_wf m es"
  by (fastforce simp: entries_wf_def)

lemma usage_wf_mono: "usage_wf n es us \<Longrightarrow> n \<le> m \<Longrightarrow> usage_wf m es us"
  by (fastforce simp: usage_wf_def)

lemma entries_wf_snoc:
  assumes "entries_wf n es" "n \<le> de_seq e" "de_id e \<notin> de_id ` set es"
    and "case de_parentId e of None \<Rightarrow> True | Some p \<Rightarrow> p \<in> de_id ` set es"
  shows "entries_wf (de_seq e + 1) (es @ [e])"
  using assms by (fastforce simp: entries_wf_def parents_first_snoc sorted_wrt_append)

lemma usage_wf_entry:
  "usage_wf n es us \<Longrightarrow> de_id e \<notin> fst ` set us \<Longrightarrow> usage_wf n (es @ [e]) us"
  by (force simp: usage_wf_def)

lemma usage_wf_snoc:
  assumes "usage_wf n es us" "n \<le> ur_seq r" "ur_id r \<notin> de_id ` set es" "ur_id r \<notin> fst ` set us"
  shows "usage_wf (ur_seq r + 1) es (us @ [(ur_id r, r)])"
  using assms by (fastforce simp: usage_wf_def)

text \<open>The three kinds of fresh content keep the invariant.\<close>

lemma inv_has_ids:
  assumes "storage_inv fadd st"
  shows "hasEntryId st i \<longleftrightarrow> i \<in> de_id ` set (ss_bySeq st)"
    and "hasEntryOrUsageId st i \<longleftrightarrow> i \<in> de_id ` set (ss_bySeq st) \<or> i \<in> fst ` set (ss_usage st)"
  using assms index_of_None [of "ss_bySeq st" i]
  by (simp_all add: hasEntryId_def hasEntryOrUsageId_def storage_inv_def map_of_eq_None_iff del: not_None_eq)

lemma entry_keeps_inv:
  assumes inv: "storage_inv fadd st" and adm: "validated (CEntry e) st"
  shows "storage_inv fadd (after_write fadd (CEntry e) st)"
proof -
  from adm have seq: "ss_nextSeq st \<le> de_seq e"
    and fresh: "de_id e \<notin> de_id ` set (ss_bySeq st)" "de_id e \<notin> fst ` set (ss_usage st)"
    and parent: "case de_parentId e of None \<Rightarrow> True | Some p \<Rightarrow> p \<in> de_id ` set (ss_bySeq st)"
    using inv_has_ids [OF inv] by (simp_all add: validated_def split: option.splits)
  from inv seq fresh parent
  have "entries_wf (de_seq e + 1) (ss_bySeq st @ [e])"
    "usage_wf (de_seq e + 1) (ss_bySeq st @ [e]) (ss_usage st)"
    "values_wf (de_seq e + 1) (ss_scalar st)" "lists_wf (de_seq e + 1) (ss_lists st)"
    by (auto simp: storage_inv_def intro: entries_wf_snoc usage_wf_mono [OF usage_wf_entry]
        values_wf_mono lists_wf_mono)
  with inv show ?thesis
    by (simp add: storage_inv_def after_write_def Let_def index_of_snoc [OF fresh(1)] message_count_snoc)
qed

lemma usage_keeps_inv:
  assumes inv: "storage_inv fadd st" and adm: "validated (CUsage r) st"
  shows "storage_inv fadd (after_write fadd (CUsage r) st)"
proof -
  from adm have seq: "ss_nextSeq st \<le> ur_seq r"
    and fresh: "ur_id r \<notin> de_id ` set (ss_bySeq st)" "ur_id r \<notin> fst ` set (ss_usage st)"
    using inv_has_ids [OF inv] by (simp_all add: validated_def)
  from inv seq fresh
  have "entries_wf (ur_seq r + 1) (ss_bySeq st)"
    "usage_wf (ur_seq r + 1) (ss_bySeq st) (ss_usage st @ [(ur_id r, r)])"
    "values_wf (ur_seq r + 1) (ss_scalar st)" "lists_wf (ur_seq r + 1) (ss_lists st)"
    by (auto simp: storage_inv_def intro: usage_wf_snoc entries_wf_mono values_wf_mono lists_wf_mono)
  with inv show ?thesis
    by (simp add: storage_inv_def after_write_def update_fresh [OF fresh(2)] sums_of_append)
qed

lemma state_keeps_inv:
  assumes inv: "storage_inv fadd st" and seq: "ss_nextSeq st \<le> seq"
    and same: "ss_entries st' = ss_entries st" "ss_bySeq st' = ss_bySeq st" "ss_usage st' = ss_usage st"
      "ss_stats st' = ss_stats st" "ss_nextSeq st' = seq + 1"
    and vs: "values_wf (seq + 1) (ss_scalar st')" and ls: "lists_wf (seq + 1) (ss_lists st')"
  shows "storage_inv fadd st'"
  using inv vs ls same seq
  by (simp add: storage_inv_def entries_wf_mono [of "ss_nextSeq st"] usage_wf_mono [of "ss_nextSeq st"])

lemma after_write_keeps_inv:
  assumes inv: "storage_inv fadd st" and adm: "admissible w st"
  shows "storage_inv fadd (after_write fadd w st)"
proof -
  from adm have seq: "ss_nextSeq st \<le> cw_seq w" and val: "validated w st" and addr: "addressed w"
    by (simp_all add: admissible_def validated_def)
  from inv have vs: "values_wf (ss_nextSeq st) (ss_scalar st)" and ls: "lists_wf (ss_nextSeq st) (ss_lists st)"
    by (simp_all add: storage_inv_def)
  have vs': "values_wf (cw_seq w + 1) (ss_scalar st)" and ls': "lists_wf (cw_seq w + 1) (ss_lists st)"
    using values_wf_mono [OF vs] lists_wf_mono [OF ls] seq by simp_all
  show ?thesis
  proof (cases "cw_id w")
    case (Some i)
    with inv val show ?thesis by (cases w) (simp_all add: entry_keeps_inv usage_keeps_inv)
  next
    case None
    have "values_wf (cw_seq w + 1) (ss_scalar (after_write fadd w st))"
      using None vs vs' seq addr
      by (cases w) (simp_all add: after_write_def put_value_def values_wf_set values_wf_delete)
    moreover have "lists_wf (cw_seq w + 1) (ss_lists (after_write fadd w st))"
      using None ls ls' seq addr
      by (cases w) (simp_all add: after_write_def lists_wf_append lists_wf_delete)
    ultimately show ?thesis
      using None by (intro state_keeps_inv [OF inv seq]) (cases w; simp add: after_write_def)+
  qed
qed

lemma after_writes_keeps_inv:
  "storage_inv fadd st \<Longrightarrow> admissible_all fadd ws st \<Longrightarrow> storage_inv fadd (after_writes fadd ws st)"
  by (induction ws arbitrary: st) (simp_all add: after_write_keeps_inv)

text \<open>
  An address that \<open>value()\<close> and \<open>list()\<close> refuse is stored nowhere, and its physical key is not that of
  another address either: that one has a single separator, and not in front.
\<close>

lemma physicalKey_inj:
  assumes "physicalKey n k = physicalKey m j" "NUL \<notin> set n" "NUL \<notin> set m"
  shows "n = m \<and> k = j"
proof -
  have "takeWhile (\<lambda>c. c \<noteq> NUL) (physicalKey n k) = n" if "NUL \<notin> set n" for n k
    using that by (induction n) (auto simp: physicalKey_def)
  with assms have "n = m" by metis
  with assms(1) show ?thesis by (simp add: physicalKey_def)
qed

lemma physicalKey_valid:
  assumes "physicalKey n k = physicalKey m j" "valid_address m j"
  shows "valid_address n k"
proof -
  have split: "valid_address a b \<longleftrightarrow> a \<noteq> [] \<and> count_list (physicalKey a b) NUL = 1" for a b
    by (auto simp: valid_address_def physicalKey_def count_list_0_iff)
  have "n \<noteq> []"
  proof
    assume "n = []"
    with assms(1) have "hd (physicalKey m j) = NUL" by (metis append_Nil list.sel(1) physicalKey_def)
    with assms(2) show False by (cases m) (auto simp: physicalKey_def valid_address_def)
  qed
  with assms show ?thesis unfolding split by simp
qed

lemma apply_write_unaddressed:
  assumes inv: "storage_inv fadd st" and bad: "\<not> addressed w"
  obtains e where "apply_write fadd w st = Inl e"
proof (cases w)
  case (CValueSet seq n k v)
  with bad that show ?thesis
    by (auto simp: apply_write_def value_set_def elim!: address_of_invalid)
next
  case (CListAppend seq n k v)
  then have invalid: "\<not> valid_address n k" using bad by simp
  have "map_of (ss_lists st) (physicalKey n k) = None"
  proof (rule ccontr)
    assume "map_of (ss_lists st) (physicalKey n k) \<noteq> None"
    then obtain l where "(physicalKey n k, l) \<in> set (ss_lists st)" by (auto dest: map_of_SomeD)
    then have "physicalKey n k = physicalKey (ad_namespace (ls_address l)) (ad_key (ls_address l))"
      "valid_address (ad_namespace (ls_address l)) (ad_key (ls_address l))"
      using inv by (auto simp: storage_inv_def lists_wf_def)
    then show False using physicalKey_valid invalid by blast
  qed
  with CListAppend invalid that show ?thesis
    by (auto simp: apply_write_def list_append_def elim!: address_of_invalid)
qed (use bad in simp_all)

lemma applyValidated_thrown:
  assumes "storage_inv fadd st" "validated_all fadd ws st" "\<not> (\<forall>w\<in>set ws. addressed w)"
  shows "\<exists>e. applyValidated fadd ws st = (Inl e, after_writes fadd (takeWhile addressed ws) st)"
  using assms
proof (induction ws arbitrary: st)
  case (Cons w ws)
  show ?case
  proof (cases "addressed w")
    case True
    with Cons.prems have "storage_inv fadd (after_write fadd w st)"
      by (intro after_write_keeps_inv) (simp_all add: admissible_def)
    with Cons.IH Cons.prems True show ?thesis by (simp add: apply_write_addressed)
  next
    case False
    with apply_write_unaddressed [OF Cons.prems(1)] show ?thesis by fastforce
  qed
qed simp

lemma admissible_prefix: "validated_all fadd ws st \<Longrightarrow> admissible_all fadd (takeWhile addressed ws) st"
  by (induction ws arbitrary: st) (simp_all add: admissible_def)

text \<open>
  A commit is rejected as a whole, applied as a whole, or applied up to its first write at an invalid
  address, at which it throws.
\<close>

lemma storage_commit_cases [consumes 1, case_names rejected thrown accepted]:
  assumes "storage_inv fadd st"
  obtains (rejected) e where "storage_commit fadd writes ts st = (Inl e, st)"
    | (thrown) e where "storage_commit fadd writes ts st =
        (Inl e, after_writes fadd (takeWhile addressed (commit_writes writes (ss_nextSeq st) ts)) st)"
      "validated_all fadd (commit_writes writes (ss_nextSeq st) ts) st"
      "\<not> (\<forall>w\<in>set (commit_writes writes (ss_nextSeq st) ts). addressed w)"
    | (accepted) r where "storage_commit fadd writes ts st =
        (Inr r, after_writes fadd (commit_writes writes (ss_nextSeq st) ts) st)"
      "admissible_all fadd (commit_writes writes (ss_nextSeq st) ts) st"
      "cr_seqs r = map cw_seq (commit_writes writes (ss_nextSeq st) ts)"
      "cr_firstSeq r = ss_nextSeq st"
      "cr_stats r = ss_stats (after_writes fadd (commit_writes writes (ss_nextSeq st) ts) st)"
proof -
  let ?ws = "commit_writes writes (ss_nextSeq st) ts"
  note val = validateCommitted_iff [of ?ws st fadd]
  show ?thesis
  proof (cases "validateCommitted ?ws st")
    case (Inl e)
    with rejected show ?thesis
      by (simp add: storage_commit_def prepareCommit_def prepareStorageCommit_def Let_def)
  next
    case (Inr u)
    then have ok: "validated_all fadd ?ws st" using val by simp
    show ?thesis
    proof (cases "\<forall>w\<in>set ?ws. addressed w")
      case True
      with Inr accepted ok show ?thesis
        by (simp add: storage_commit_def prepareCommit_def prepareStorageCommit_def Let_def
            applyValidated_addressed admissible_all_iff)
    next
      case False
      with applyValidated_thrown [OF assms ok] obtain e
        where "applyValidated fadd ?ws st = (Inl e, after_writes fadd (takeWhile addressed ?ws) st)" by blast
      with Inr ok False thrown show ?thesis
        by (simp add: storage_commit_def prepareCommit_def prepareStorageCommit_def Let_def)
    qed
  qed
qed

lemma storage_commit_keeps_inv:
  assumes "storage_inv fadd st"
  shows "storage_inv fadd (snd (storage_commit fadd writes ts st))"
  by (cases rule: storage_commit_cases [OF assms, of writes ts])
    (use assms in \<open>simp_all add: after_writes_keeps_inv admissible_prefix\<close>)

end
