(* ===== verification/DurableScan.thy ===== *)
theory DurableScan imports DurableLaws "HOL-Library.Sublist" begin

text \<open>
  What the reads of a durable session return under its invariant: the walk to the root ends, the
  results of a scan are ordered by sequence, and reading page by page with a cursor returns the same
  as one read without a limit. The loop of \<open>readAssistantFrames\<close>
  (\<open>packages/agent/src/harness/runtime/progress.ts\<close>) is such a reader.
\<close>

section \<open>The path of an entry\<close>

fun lineage_rev :: "entry list \<Rightarrow> string \<Rightarrow> entry list" where
  "lineage_rev [] i = []"
| "lineage_rev (e # es) i =
    (if de_id e = i then e # (case de_parentId e of None \<Rightarrow> [] | Some p \<Rightarrow> lineage_rev es p)
     else lineage_rev es i)"

definition lineage :: "entry list \<Rightarrow> string \<Rightarrow> entry list" where
  "lineage es i = lineage_rev (rev es) i"

lemma lineage_snoc:
  "lineage (es @ [e]) i =
    (if de_id e = i then e # (case de_parentId e of None \<Rightarrow> [] | Some p \<Rightarrow> lineage es p) else lineage es i)"
  by (simp add: lineage_def split: option.split)

lemma lineage_Nil [simp]: "lineage [] i = []"
  by (simp add: lineage_def)

lemma parents_first_butlast: "parents_first (es @ [e]) \<Longrightarrow> parents_first es"
  by (simp add: parents_first_snoc)

lemma branch_path_lineage:
  assumes "parents_first es" "distinct (map de_id es)" "index_of es \<subseteq>\<^sub>m m" "index_of es i = Some e"
  shows "branch_path m e acc = Some (Inr (acc @ lineage es i))"
  using assms
proof (induction es arbitrary: i e acc rule: rev_induct)
  case Nil
  then show ?case by (simp add: index_of_def)
next
  case (snoc x es)
  have fresh: "de_id x \<notin> de_id ` set es" using snoc.prems(2) by simp
  have snoc_map: "index_of (es @ [x]) = (index_of es)(de_id x \<mapsto> x)" by (rule index_of_snoc [OF fresh])
  have le: "index_of es \<subseteq>\<^sub>m m"
    using snoc.prems(3) fresh index_of_None [of es "de_id x"]
    unfolding snoc_map map_le_def by (metis domIff fun_upd_apply)
  have pf: "parents_first es" and d: "distinct (map de_id es)" using snoc.prems(1,2) by (auto simp: parents_first_snoc)
  note IH = snoc.IH [OF pf d le]
  show ?case
  proof (cases "i = de_id x")
    case False
    then have "index_of es i = Some e" using snoc.prems(4) by (simp add: snoc_map)
    with IH False show ?thesis by (simp add: lineage_snoc)
  next
    case True
    then have e: "e = x" using snoc.prems(4) by (simp add: snoc_map)
    show ?thesis
    proof (cases "de_parentId x")
      case None
      with e True show ?thesis by (simp add: branch_path.simps [of m] lineage_snoc)
    next
      case (Some p)
      then have "p \<in> de_id ` set es" using snoc.prems(1) by (simp add: parents_first_snoc)
      then obtain e' where e': "index_of es p = Some e'" using index_of_None [of es p] by fastforce
      then have "m p = Some e'" using le by (metis domI map_le_def)
      with e True Some IH [OF e', of "acc @ [x]"] show ?thesis
        by (simp add: branch_path.simps [of m x] lineage_snoc)
    qed
  qed
qed

lemma branch_path_inv:
  assumes "storage_inv fadd st" "ss_entries st i = Some e"
  shows "branch_path (ss_entries st) e [] = Some (Inr (lineage (ss_bySeq st) i))"
  using branch_path_lineage [of "ss_bySeq st" "ss_entries st" i e "[]"] assms
  by (simp add: storage_inv_def entries_wf_def)

lemma scanBranch_inv:
  assumes "storage_inv fadd st" "ss_entries st start = Some e"
  shows "scanBranch start q st = Some (Inr (scan_path q (lineage (ss_bySeq st) start)))"
  using branch_path_inv [OF assms] assms(2) by (simp add: scanBranch_def)

lemma lineage_subseq: "subseq (lineage_rev es i) es"
proof (induction es i rule: lineage_rev.induct)
  case (2 e es i)
  then show ?case by (cases "de_parentId e") auto
qed simp

lemma subseq_members: "subseq xs ys \<Longrightarrow> set xs \<subseteq> set ys"
  by (auto simp: subseq_conv_nths dest: in_set_nthsD)

lemma sorted_wrt_subseq: "subseq xs ys \<Longrightarrow> sorted_wrt P ys \<Longrightarrow> sorted_wrt P xs"
proof (induction ys arbitrary: xs)
  case (Cons y ys)
  show ?case
  proof (cases xs)
    case (Cons x zs)
    then have "subseq zs ys \<and> x = y \<or> subseq xs ys" using Cons.prems(1) by (auto split: if_splits)
    then show ?thesis
    proof
      assume zs: "subseq zs ys \<and> x = y"
      then have "set zs \<subseteq> set ys" by (simp add: subseq_members)
      with zs Cons.IH [of zs] Cons.prems(2) show ?thesis unfolding Cons by auto
    qed (use Cons.IH Cons.prems(2) in simp)
  qed simp
next
  case Nil
  then show ?case by (cases xs) auto
qed

lemma lineage_descends:
  assumes "sorted_wrt (<) (map de_seq es)"
  shows "sorted_wrt (\<lambda>a b. de_seq b < de_seq a) (lineage es i)"
proof -
  have "sorted_wrt (\<lambda>a b. de_seq b < de_seq a) (rev es)"
    using assms by (simp add: sorted_wrt_rev sorted_wrt_map)
  from lineage_subseq this show ?thesis unfolding lineage_def by (rule sorted_wrt_subseq)
qed

lemma lineage_set: "set (lineage es i) \<subseteq> set es"
  using subseq_members [OF lineage_subseq [of "rev es" i]] by (simp add: lineage_def)

section \<open>Reading in pages\<close>

text \<open>
  A source of items that are numbered, strictly upwards or downwards. A page starts after a cursor,
  the number of an item already read, and holds the next items up to its limit.
\<close>

definition beyond :: "bool \<Rightarrow> int \<Rightarrow> int \<Rightarrow> bool" where
  "beyond up c n = (if up then c < n else n < c)"

text \<open>The reader that asks for pages until one is not full.\<close>

fun read_pages :: "nat \<Rightarrow> ('a \<Rightarrow> int) \<Rightarrow> (int option \<Rightarrow> 'a list) \<Rightarrow> nat \<Rightarrow> int option \<Rightarrow> 'a list" where
  "read_pages 0 seq page n c = []"
| "read_pages (Suc k) seq page n c =
    (let p = page c in if length p < n then p else p @ read_pages k seq page n (Some (seq (last p))))"

locale paged_source =
  fixes valid :: "'s \<Rightarrow> bool"
    and items :: "'s \<Rightarrow> 'a list"
    and up :: "'s \<Rightarrow> bool"
    and seq :: "'a \<Rightarrow> int"
    and page :: "'s \<Rightarrow> nat \<Rightarrow> int option \<Rightarrow> 'a list"
    and fits :: "nat \<Rightarrow> bool"
  assumes ranked: "valid s \<Longrightarrow> sorted_wrt (\<lambda>x y. beyond (up s) (seq x) (seq y)) (items s)"
    and fits_pos: "fits n \<Longrightarrow> 0 < n"
    and page_first: "valid s \<Longrightarrow> fits n \<Longrightarrow> page s n None = take n (items s)"
    and page_after: "valid s \<Longrightarrow> fits n \<Longrightarrow>
      page s n (Some c) = take n (filter (\<lambda>x. beyond (up s) c (seq x)) (items s))"
begin

lemma page_rest:
  assumes "valid s" "fits n" "items s = us @ x # vs"
  shows "page s n (Some (seq x)) = take n vs"
proof -
  have r: "sorted_wrt (\<lambda>x y. beyond (up s) (seq x) (seq y)) (us @ x # vs)"
    using ranked [OF assms(1)] assms(3) by simp
  have "\<forall>u\<in>set us. \<not> beyond (up s) (seq x) (seq u)" "\<not> beyond (up s) (seq x) (seq x)"
    "\<forall>v\<in>set vs. beyond (up s) (seq x) (seq v)"
    using r by (fastforce simp: sorted_wrt_append beyond_def split: if_splits)+
  then have "filter (\<lambda>y. beyond (up s) (seq x) (seq y)) (items s) = vs" by (simp add: assms(3))
  with assms(1,2) show ?thesis by (simp add: page_after)
qed

lemma read_pages_from:
  assumes "valid s" "fits n" "items s = us @ vs" "length vs < k * n"
    and "c = (if us = [] then None else Some (seq (last us)))"
  shows "read_pages k seq (page s n) n c = vs"
  using assms(3-)
proof (induction k arbitrary: us vs c)
  case (Suc k)
  have p: "page s n c = take n vs"
  proof (cases us rule: rev_cases)
    case Nil
    with Suc.prems assms(1,2) show ?thesis by (simp add: page_first)
  next
    case (snoc ws x)
    with Suc.prems assms(1,2) show ?thesis using page_rest [of s n ws x vs] by simp
  qed
  show ?case
  proof (cases "length vs < n")
    case True
    with p show ?thesis by (simp add: Let_def)
  next
    case False
    then have l: "length (take n vs) = n" "take n vs \<noteq> []" using fits_pos [OF assms(2)] by auto
    have "read_pages k seq (page s n) n (Some (seq (last (take n vs)))) = drop n vs"
      by (rule Suc.IH [of "us @ take n vs"]) (use Suc.prems l in \<open>auto simp: Let_def\<close>)
    with p l show ?thesis by (simp add: Let_def)
  qed
qed simp

lemma read_pages_all:
  "valid s \<Longrightarrow> fits n \<Longrightarrow> length (items s) < k * n \<Longrightarrow> read_pages k seq (page s n) n None = items s"
  using read_pages_from [of s n "[]" "items s" k None] by simp

end

section \<open>Scans of a branch\<close>

text \<open>What the reads need of the invariant.\<close>

definition readable :: "storage_state \<Rightarrow> bool" where
  "readable st \<longleftrightarrow> entries_wf (ss_nextSeq st) (ss_bySeq st) \<and> ss_entries st = index_of (ss_bySeq st) \<and>
    lists_wf (ss_nextSeq st) (ss_lists st)"

lemma inv_readable: "storage_inv fadd st \<Longrightarrow> readable st"
  by (simp add: storage_inv_def readable_def)

lemma readable_scanBranch:
  assumes "readable st" "ss_entries st start = Some e"
  shows "scanBranch start q st = Some (Inr (scan_path q (lineage (ss_bySeq st) start)))"
  using branch_path_lineage [of "ss_bySeq st" "ss_entries st" start e "[]"] assms
  by (simp add: readable_def entries_wf_def scanBranch_def)

definition whole :: "branch_scan \<Rightarrow> branch_scan" where
  "whole q = q\<lparr>bs_cursor := None, bs_limit := None\<rparr>"

definition branch_items :: "string \<times> branch_scan \<times> storage_state \<Rightarrow> entry list" where
  "branch_items = (\<lambda>(start, q, st). scan_path (whole q) (lineage (ss_bySeq st) start))"

definition branch_page :: "string \<times> branch_scan \<times> storage_state \<Rightarrow> nat \<Rightarrow> int option \<Rightarrow> entry list" where
  "branch_page = (\<lambda>(start, q, st) n c.
    case scanBranch start (q\<lparr>bs_cursor := c, bs_limit := Some (int n)\<rparr>) st of
      Some (Inr es) \<Rightarrow> es | _ \<Rightarrow> [])"

definition branch_valid :: "string \<times> branch_scan \<times> storage_state \<Rightarrow> bool" where
  "branch_valid = (\<lambda>(start, q, st). readable st \<and> ss_entries st start \<noteq> None)"

lemma stop_after_subseq: "subseq (stop_after stop xs) xs"
  by (induction xs) auto

text \<open>A scan with a cursor and a limit is the whole scan, filtered and cut.\<close>

lemma scan_path_page:
  "scan_path (q\<lparr>bs_cursor := c, bs_limit := Some (int n)\<rparr>) path =
    take n (filter (\<lambda>e. case c of None \<Rightarrow> True
       | Some c \<Rightarrow> beyond (bs_order q = Some OldestFirst) c (de_seq e))
      (scan_path (whole q) path))"
  by (cases c) (simp_all add: scan_path_def whole_def limited_def first_n_def beyond_def)

lemma scan_path_whole:
  "scan_path (whole q) path =
    filter (\<lambda>e. (bs_customType q = None \<or> de_customType e = bs_customType q) \<and> matches (bs_type q) (de_type e))
      (stop_after (\<lambda>e. bs_stopAtId q = Some (de_id e) \<or> bs_stopAtType q = Some (de_type e))
        (if bs_order q = Some OldestFirst then rev path else path))"
  by (simp add: scan_path_def whole_def limited_def conj_commute)

lemma scan_path_subseq:
  "subseq (scan_path (whole q) path) (if bs_order q = Some OldestFirst then rev path else path)"
  unfolding scan_path_whole by (rule subseq_order.trans [OF subseq_filter_left stop_after_subseq])

lemma branch_items_ranked:
  assumes "readable st"
  shows "sorted_wrt (\<lambda>x y. beyond (bs_order q = Some OldestFirst) (de_seq x) (de_seq y)) (branch_items (start, q, st))"
proof -
  let ?path = "lineage (ss_bySeq st) start"
  have "sorted_wrt (\<lambda>a b. de_seq b < de_seq a) ?path"
    using assms by (simp add: readable_def entries_wf_def lineage_descends)
  then have "sorted_wrt (\<lambda>a b. beyond (bs_order q = Some OldestFirst) (de_seq a) (de_seq b))
      (if bs_order q = Some OldestFirst then rev ?path else ?path)"
    by (simp add: beyond_def sorted_wrt_rev)
  with scan_path_subseq show ?thesis unfolding branch_items_def prod.case by (rule sorted_wrt_subseq)
qed

interpretation bp: paged_source branch_valid branch_items "\<lambda>(start, q, st). bs_order q = Some OldestFirst"
  de_seq branch_page "\<lambda>n. 0 < n"
proof
  fix s :: "string \<times> branch_scan \<times> storage_state" and c :: int and n :: nat
  obtain start q st where s: "s = (start, q, st)" by (cases s)
  assume v: "branch_valid s"
  then have r: "readable st" and "ss_entries st start \<noteq> None" by (simp_all add: s branch_valid_def)
  then obtain e where "ss_entries st start = Some e" by auto
  note scan = readable_scanBranch [OF r this]
  show "sorted_wrt (\<lambda>x y. beyond (case s of (start, q, st) \<Rightarrow> bs_order q = Some OldestFirst) (de_seq x) (de_seq y))
      (branch_items s)"
    using branch_items_ranked [OF r] by (simp add: s)
  show "branch_page s n None = take n (branch_items s)"
    using scan_path_page [where q = q and c = None and n = n] by (simp add: s branch_page_def branch_items_def scan)
  show "branch_page s n (Some c) =
      take n (filter (\<lambda>x. beyond (case s of (start, q, st) \<Rightarrow> bs_order q = Some OldestFirst) c (de_seq x)) (branch_items s))"
    using scan_path_page [where q = q and c = "Some c" and n = n] by (simp add: s branch_page_def branch_items_def scan)
qed simp

section \<open>Reads of a list\<close>

definition stored_elements :: "address \<Rightarrow> storage_state \<Rightarrow> list_element list" where
  "stored_elements a st =
    (case map_of (ss_lists st) (physicalKey (ad_namespace a) (ad_key a)) of
       None \<Rightarrow> [] | Some stored \<Rightarrow> ls_elements stored)"

lemma stored_elements_ascend: "readable st \<Longrightarrow> sorted_wrt (<) (map le_seq (stored_elements a st))"
  by (auto simp: stored_elements_def readable_def lists_wf_def dest!: map_of_SomeD split: option.splits)

lemma readList_eq:
  assumes "0 < n" "n \<le> 10000"
  shows "readList a \<lparr>lr_cursor = c, lr_order = Some order, lr_limit = Some (int n)\<rparr> st =
    Inr (take n (in_order order (filter (\<lambda>x. after_cursor order c (le_seq x)) (stored_elements a st))))"
  using assms
  by (simp add: readList_def resolveListReadOptions_def isSafeInteger_def stored_elements_def first_n_def)

definition list_items :: "address \<times> scan_order \<times> storage_state \<Rightarrow> list_element list" where
  "list_items = (\<lambda>(a, order, st). in_order order (stored_elements a st))"

definition list_page :: "address \<times> scan_order \<times> storage_state \<Rightarrow> nat \<Rightarrow> int option \<Rightarrow> list_element list" where
  "list_page = (\<lambda>(a, order, st) n c.
    case readList a \<lparr>lr_cursor = c, lr_order = Some order, lr_limit = Some (int n)\<rparr> st of
      Inr xs \<Rightarrow> xs | Inl e \<Rightarrow> [])"

lemma in_order_filter: "in_order order (filter P xs) = filter P (in_order order xs)"
  by (simp add: in_order_def rev_filter)

interpretation lp: paged_source "\<lambda>(a, order, st). readable st" list_items "\<lambda>(a, order, st). order = Asc"
  le_seq list_page "\<lambda>n. 0 < n \<and> n \<le> 10000"
proof
  fix s :: "address \<times> scan_order \<times> storage_state" and c :: int and n :: nat
  obtain a order st where s: "s = (a, order, st)" by (cases s)
  show "sorted_wrt (\<lambda>x y. beyond (case s of (a, order, st) \<Rightarrow> order = Asc) (le_seq x) (le_seq y)) (list_items s)"
    if "case s of (a, order, st) \<Rightarrow> readable st"
    using that stored_elements_ascend [of st a]
    by (simp add: s list_items_def in_order_def beyond_def sorted_wrt_rev sorted_wrt_map)
  show "list_page s n None = take n (list_items s)" if "0 < n \<and> n \<le> 10000"
    using that readList_eq [of n a None order st] by (simp add: s list_page_def list_items_def after_cursor_def)
  show "list_page s n (Some c) =
      take n (filter (\<lambda>x. beyond (case s of (a, order, st) \<Rightarrow> order = Asc) c (le_seq x)) (list_items s))"
    if "0 < n \<and> n \<le> 10000"
    using that readList_eq [of n a "Some c" order st]
    by (simp add: s list_page_def list_items_def after_cursor_def beyond_def in_order_filter)
qed simp_all

section \<open>The frames of a response in progress\<close>

definition pendingAssistantFrames :: "string \<Rightarrow> string \<Rightarrow> durable_error + address" where
  "pendingAssistantFrames operationId responseEntryId =
    list_at ''pi.pending.assistant_frame'' (operationId @ '':'' @ responseEntryId)"

text \<open>The \<open>for (;;)\<close> loop of \<open>readAssistantFrames\<close>, on a state that does not change meanwhile.\<close>

partial_function (option) frames_loop ::
  "address \<Rightarrow> storage_state \<Rightarrow> int option \<Rightarrow> json list \<Rightarrow> (durable_error + json list) option" where
  "frames_loop a st cursor frames =
    (case readList a \<lparr>lr_cursor = cursor, lr_order = Some Asc, lr_limit = Some 1000\<rparr> st of
       Inl e \<Rightarrow> Some (Inl e)
     | Inr page \<Rightarrow>
         if length page < 1000 then Some (Inr (frames @ map le_value page))
         else frames_loop a st (Some (le_seq (last page))) (frames @ map le_value page))"

definition readAssistantFrames ::
  "string \<Rightarrow> string \<Rightarrow> storage_state \<Rightarrow> (durable_error + json list) option" where
  "readAssistantFrames operationId responseEntryId st =
    (case pendingAssistantFrames operationId responseEntryId of
       Inl e \<Rightarrow> Some (Inl e)
     | Inr a \<Rightarrow> frames_loop a st None [])"

lemma frames_loop_rest:
  assumes "readable st" "stored_elements a st = us @ vs"
    and "c = (if us = [] then None else Some (le_seq (last us)))"
  shows "frames_loop a st c frames = Some (Inr (frames @ map le_value vs))"
  using assms(2,3)
proof (induction "length vs" arbitrary: us vs c frames rule: less_induct)
  case less
  let ?s = "(a, Asc, st)"
  have items: "list_items ?s = us @ vs" using less.prems(1) by (simp add: list_items_def in_order_def)
  have "list_page ?s 1000 c = take 1000 vs"
  proof (cases us rule: rev_cases)
    case Nil
    with less.prems items assms(1) show ?thesis by (simp add: lp.page_first)
  next
    case (snoc ws x)
    with less.prems items assms(1) show ?thesis using lp.page_rest [of ?s 1000 ws x vs] by simp
  qed
  then have page: "readList a \<lparr>lr_cursor = c, lr_order = Some Asc, lr_limit = Some 1000\<rparr> st = Inr (take 1000 vs)"
    using readList_eq [of 1000 a c Asc st] by (cases c) (simp_all add: list_page_def)
  show ?case
  proof (cases "length vs < 1000")
    case True
    with page show ?thesis by (simp add: frames_loop.simps [of a])
  next
    case False
    then have ne: "take 1000 vs \<noteq> []" by auto
    have "frames_loop a st (Some (le_seq (last (take 1000 vs)))) (frames @ map le_value (take 1000 vs))
        = Some (Inr ((frames @ map le_value (take 1000 vs)) @ map le_value (drop 1000 vs)))"
      by (rule less.hyps [of "drop 1000 vs" "us @ take 1000 vs"]) (use False ne less.prems(1) in auto)
    also have "\<dots> = Some (Inr (frames @ map le_value vs))"
      by (metis append.assoc append_take_drop_id map_append)
    finally show ?thesis using page False by (simp add: frames_loop.simps [of a])
  qed
qed

end
