(* ===== verification/DurableSession.thy ===== *)
theory DurableSession imports DurableScan begin

text \<open>
  \<open>StorageBackedSession\<close> of \<open>packages/agent/src/harness/session/session.ts\<close> over the storage in
  memory (\<open>memory.ts\<close>). The callback of a mutation is a \<open>job\<close>: it looks at the storage, commits, and
  ends with a result or an error, with an \<open>await\<close> between its steps; \<open>run_job\<close> is a job that nothing
  interrupts, which is what the mutation line of \<open>DurableLine\<close> provides. The random identifier and
  the clock are arguments.
\<close>

section \<open>Mutations\<close>

datatype 'a job =
    Done "durable_error + 'a"
  | Look "storage_state \<Rightarrow> 'a job"
  | Commit "dwrite list" "durable_error + commit_result \<Rightarrow> 'a job"

fun pending_message :: "coding_message \<Rightarrow> bool" where
  "pending_message (Core (Assistant m)) = (am_stopReason m = Pending)"
| "pending_message _ = False"

fun pending_write :: "dwrite \<Rightarrow> bool" where
  "pending_write (EntryW e) = (case de_body e of MessageB m t \<Rightarrow> pending_message m | _ \<Rightarrow> False)"
| "pending_write _ = False"

definition mutator_commit ::
  "(rat \<Rightarrow> rat \<Rightarrow> rat) \<Rightarrow> dwrite list \<Rightarrow> int \<Rightarrow> storage_state \<Rightarrow> (durable_error + commit_result) \<times> storage_state" where
  "mutator_commit fadd writes ts st =
    (if \<exists>w\<in>set writes. pending_write w then (Inl SessionPendingAssistant, st)
     else storage_commit fadd writes ts st)"

text \<open>\<open>attempted\<close> says that the mutator has already been asked to commit.\<close>

definition job_commit ::
  "(rat \<Rightarrow> rat \<Rightarrow> rat) \<Rightarrow> dwrite list \<Rightarrow> int \<Rightarrow> bool \<Rightarrow> storage_state \<Rightarrow> (durable_error + commit_result) \<times> storage_state" where
  "job_commit fadd writes ts attempted st =
    (if attempted then (Inl (DError ''SessionMutator commit already attempted''), st)
     else mutator_commit fadd writes ts st)"

primrec run_job ::
  "(rat \<Rightarrow> rat \<Rightarrow> rat) \<Rightarrow> int \<Rightarrow> 'a job \<Rightarrow> bool \<Rightarrow> storage_state \<Rightarrow> (durable_error + 'a) \<times> storage_state" where
  "run_job fadd ts (Done r) = (\<lambda>attempted st. (r, st))"
| "run_job fadd ts (Look f) = (\<lambda>attempted st. run_job fadd ts (f st) attempted st)"
| "run_job fadd ts (Commit ws f) = (\<lambda>attempted st.
    let (r, st') = job_commit fadd ws ts attempted st in run_job fadd ts (f r) True st')"

section \<open>The session\<close>

datatype session_status = SOpen | SClosing | SClosed

record durable_session =
  sn_storage :: storage_state
  sn_status :: session_status

definition mutate ::
  "(rat \<Rightarrow> rat \<Rightarrow> rat) \<Rightarrow> int \<Rightarrow> 'a job \<Rightarrow> durable_session \<Rightarrow> (durable_error + 'a) \<times> durable_session" where
  "mutate fadd ts job s =
    (if sn_status s \<noteq> SOpen then (Inl SessionClosed, s)
     else let (r, st) = run_job fadd ts job False (sn_storage s) in (r, s\<lparr>sn_storage := st\<rparr>))"

definition whenOpen :: "durable_session \<Rightarrow> (storage_state \<Rightarrow> durable_error + 'a) \<Rightarrow> durable_error + 'a" where
  "whenOpen s f = (if sn_status s \<noteq> SOpen then Inl SessionClosed else f (sn_storage s))"

definition session_getEntries :: "string list \<Rightarrow> durable_session \<Rightarrow> durable_error + (string \<times> entry) list" where
  "session_getEntries ids s = whenOpen s (\<lambda>st. Inr (getEntries ids st))"

definition session_getEntry :: "string \<Rightarrow> durable_session \<Rightarrow> durable_error + entry option" where
  "session_getEntry i s = bindE (session_getEntries [i] s) (\<lambda>es. Inr (map_of es i))"

definition session_getValue :: "address \<Rightarrow> durable_session \<Rightarrow> durable_error + stored_value option" where
  "session_getValue a s = whenOpen s (\<lambda>st. Inr (getValue a st))"

definition session_scanValues :: "address \<Rightarrow> durable_session \<Rightarrow> durable_error + stored_value list" where
  "session_scanValues p s = whenOpen s (\<lambda>st. Inr (scanValues p st))"

definition session_readList :: "address \<Rightarrow> list_read \<Rightarrow> durable_session \<Rightarrow> durable_error + list_element list" where
  "session_readList a options s = whenOpen s (readList a options)"

definition session_scanBranch ::
  "string \<Rightarrow> branch_scan \<Rightarrow> durable_session \<Rightarrow> (durable_error + entry list) option" where
  "session_scanBranch start q s =
    (if sn_status s \<noteq> SOpen then Some (Inl SessionClosed) else scanBranch start q (sn_storage s))"

definition session_getStats :: "durable_session \<Rightarrow> durable_error + session_stats" where
  "session_getStats s = whenOpen s (\<lambda>st. Inr (getStats st))"

definition session_getName :: "durable_session \<Rightarrow> durable_error + json option" where
  "session_getName s = bindE sessionName (\<lambda>a. bindE (session_getValue a s) (\<lambda>v. Inr (map_option sv_value v)))"

definition session_getLabel :: "string \<Rightarrow> durable_session \<Rightarrow> durable_error + json option" where
  "session_getLabel targetId s =
    bindE (entryLabel targetId) (\<lambda>a. bindE (session_getValue a s) (\<lambda>v. Inr (map_option sv_value v)))"

record entry_query =
  eq_type :: "entry_type option"
  eq_customType :: "string option"
  eq_order :: "scan_order option"
  eq_limit :: "int option"
  eq_cursor :: "int option"

definition MAX_SAFE_INTEGER :: int where
  "MAX_SAFE_INTEGER = 2 ^ 53 - 1"

definition session_findEntries :: "entry_query \<Rightarrow> durable_session \<Rightarrow> durable_error + entry list" where
  "session_findEntries query s = whenOpen s (\<lambda>st.
    let order = or_else (eq_order query) Desc in
    if (case eq_cursor query of None \<Rightarrow> False
        | Some c \<Rightarrow> (order = Asc \<and> c = MAX_SAFE_INTEGER) \<or> (order = Desc \<and> c \<le> 1))
    then Inr []
    else Inr (scanEntries
      \<lparr>sc_type = eq_type query, sc_customType = eq_customType query,
       sc_fromSeq = (case eq_cursor query of None \<Rightarrow> None
                     | Some c \<Rightarrow> if order = Asc then Some (c + 1) else None),
       sc_toSeq = (case eq_cursor query of None \<Rightarrow> None
                   | Some c \<Rightarrow> if order = Asc then None else Some (c - 1)),
       sc_order = Some order, sc_limit = eq_limit query\<rparr> st))"

definition at_most_one :: "int option \<Rightarrow> int option" where
  "at_most_one limit = (case limit of None \<Rightarrow> Some 1 | Some n \<Rightarrow> Some (min n 1))"

fun first_of :: "'a list \<Rightarrow> 'a option" where
  "first_of [] = None"
| "first_of (x # xs) = Some x"

definition session_findEntry :: "entry_query \<Rightarrow> durable_session \<Rightarrow> durable_error + entry option" where
  "session_findEntry query s =
    bindE (session_findEntries (query\<lparr>eq_limit := at_most_one (eq_limit query)\<rparr>) s) (\<lambda>es. Inr (first_of es))"

section \<open>Writers of the session\<close>

definition commit_job :: "dwrite list \<Rightarrow> unit job" where
  "commit_job writes = Commit writes (\<lambda>r. Done (bindE r (\<lambda>_. Inr ())))"

definition session_setValue ::
  "(rat \<Rightarrow> rat \<Rightarrow> rat) \<Rightarrow> int \<Rightarrow> address \<Rightarrow> json \<Rightarrow> durable_session \<Rightarrow> (durable_error + unit) \<times> durable_session" where
  "session_setValue fadd ts a v = mutate fadd ts (commit_job [setValueWrite a v])"

definition session_deleteValue ::
  "(rat \<Rightarrow> rat \<Rightarrow> rat) \<Rightarrow> int \<Rightarrow> address \<Rightarrow> durable_session \<Rightarrow> (durable_error + unit) \<times> durable_session" where
  "session_deleteValue fadd ts a = mutate fadd ts (commit_job [deleteValueWrite a])"

definition session_appendList ::
  "(rat \<Rightarrow> rat \<Rightarrow> rat) \<Rightarrow> int \<Rightarrow> address \<Rightarrow> json \<Rightarrow> durable_session \<Rightarrow> (durable_error + unit) \<times> durable_session" where
  "session_appendList fadd ts a v = mutate fadd ts (commit_job [appendListWrite a v])"

definition session_deleteList ::
  "(rat \<Rightarrow> rat \<Rightarrow> rat) \<Rightarrow> int \<Rightarrow> address \<Rightarrow> durable_session \<Rightarrow> (durable_error + unit) \<times> durable_session" where
  "session_deleteList fadd ts a = mutate fadd ts (commit_job [deleteListWrite a])"

definition session_setName ::
  "(rat \<Rightarrow> rat \<Rightarrow> rat) \<Rightarrow> int \<Rightarrow> string option \<Rightarrow> durable_session \<Rightarrow> (durable_error + unit) \<times> durable_session" where
  "session_setName fadd ts name s =
    (case sessionName of Inl e \<Rightarrow> (Inl e, s)
     | Inr a \<Rightarrow> (case name of None \<Rightarrow> session_deleteValue fadd ts a s
                | Some n \<Rightarrow> session_setValue fadd ts a (JStr n) s))"

definition session_setLabel ::
  "(rat \<Rightarrow> rat \<Rightarrow> rat) \<Rightarrow> int \<Rightarrow> string \<Rightarrow> string option \<Rightarrow> durable_session \<Rightarrow> (durable_error + unit) \<times> durable_session" where
  "session_setLabel fadd ts targetId label s =
    (case entryLabel targetId of Inl e \<Rightarrow> (Inl e, s)
     | Inr a \<Rightarrow> (case label of None \<Rightarrow> session_deleteValue fadd ts a s
                | Some l \<Rightarrow> session_setValue fadd ts a (JStr l) s))"

section \<open>Branches\<close>

definition assertValidBranchName :: "string \<Rightarrow> durable_error + unit" where
  "assertValidBranchName name =
    (if name = [] then Inl (SessionInvalidBranch name ''branch name must not be empty'')
     else if NUL \<in> set name
     then Inl (SessionInvalidBranch name (''branch name must not contain '' @ u0000))
     else Inr ())"

text \<open>The tip of a branch, read in a job; an address that cannot be built throws.\<close>

definition look_tip :: "string \<Rightarrow> (address \<Rightarrow> stored_value option \<Rightarrow> 'a job) \<Rightarrow> 'a job" where
  "look_tip name k = (case branchTip name of Inl e \<Rightarrow> Done (Inl e) | Inr a \<Rightarrow> Look (\<lambda>st. k a (getValue a st)))"

definition createBranch_job :: "string \<Rightarrow> string option \<Rightarrow> unit job" where
  "createBranch_job name atId = look_tip name (\<lambda>a tip.
     if tip \<noteq> None then Done (Inl (SessionBranchExists name))
     else case atId of
       None \<Rightarrow> commit_job [setValueWrite a (tip_json atId)]
     | Some i \<Rightarrow> Look (\<lambda>st.
         if map_of (getEntries [i] st) i = None then Done (Inl (SessionUnknownTarget i))
         else commit_job [setValueWrite a (tip_json atId)]))"

definition createBranch ::
  "(rat \<Rightarrow> rat \<Rightarrow> rat) \<Rightarrow> int \<Rightarrow> string \<Rightarrow> string option \<Rightarrow> durable_session \<Rightarrow> (durable_error + unit) \<times> durable_session" where
  "createBranch fadd ts name atId s =
    (if sn_status s \<noteq> SOpen then (Inl SessionClosed, s)
     else case assertValidBranchName name of
       Inl e \<Rightarrow> (Inl e, s)
     | Inr u \<Rightarrow> mutate fadd ts (createBranch_job name atId) s)"

text \<open>Whether the branch exists; the object that the code hands out only remembers the name.\<close>

definition session_branch :: "string \<Rightarrow> durable_session \<Rightarrow> durable_error + bool" where
  "session_branch name s =
    bindE (assertValidBranchName name) (\<lambda>_. bindE (branchTip name) (\<lambda>a.
      bindE (session_getValue a s) (\<lambda>v. Inr (v \<noteq> None))))"

definition getBranchTip :: "string \<Rightarrow> durable_session \<Rightarrow> durable_error + string option" where
  "getBranchTip name s =
    bindE (branchTip name) (\<lambda>a. bindE (session_getValue a s) (\<lambda>stored.
      case stored of None \<Rightarrow> Inl (SessionInvariant (''Unknown branch: '' @ name))
      | Some v \<Rightarrow> Inr (tip_of (sv_value v))))"

definition branch_findEntries ::
  "string \<Rightarrow> string option \<Rightarrow> branch_scan \<Rightarrow> durable_session \<Rightarrow> (durable_error + entry list) option" where
  "branch_findEntries name start q s =
    (case (case start of Some i \<Rightarrow> Inr (Some i) | None \<Rightarrow> getBranchTip name s) of
       Inl e \<Rightarrow> Some (Inl e)
     | Inr None \<Rightarrow> Some (Inr [])
     | Inr (Some i) \<Rightarrow>
         session_scanBranch i (q\<lparr>bs_order := Some (or_else (bs_order q) NewestFirst)\<rparr>) s)"

definition branch_findEntry ::
  "string \<Rightarrow> string option \<Rightarrow> branch_scan \<Rightarrow> durable_session \<Rightarrow> (durable_error + entry option) option" where
  "branch_findEntry name start q s =
    map_option (\<lambda>r. bindE r (\<lambda>es. Inr (first_of es)))
      (branch_findEntries name start (q\<lparr>bs_limit := at_most_one (bs_limit q)\<rparr>) s)"

datatype branch_entry = AppendMessage coding_message | AppendCustom string "json option"

fun new_branch_entry :: "string \<Rightarrow> string option \<Rightarrow> branch_entry \<Rightarrow> new_entry" where
  "new_branch_entry i parent (AppendMessage m) =
    \<lparr>de_id = i, de_parentId = parent, de_customType = None, de_body = MessageB m False\<rparr>"
| "new_branch_entry i parent (AppendCustom ty data) =
    \<lparr>de_id = i, de_parentId = parent, de_customType = Some ty, de_body = CustomB data\<rparr>"

fun pending_append :: "branch_entry \<Rightarrow> bool" where
  "pending_append (AppendMessage m) = pending_message m"
| "pending_append (AppendCustom ty data) = False"

definition append_job :: "string \<Rightarrow> branch_entry \<Rightarrow> string \<Rightarrow> string job" where
  "append_job name e i = look_tip name (\<lambda>a tip.
     case tip of
       None \<Rightarrow> Done (Inl (SessionInvariant (''Unknown branch: '' @ name)))
     | Some t \<Rightarrow> Commit [EntryW (new_branch_entry i (tip_of (sv_value t)) e), setValueWrite a (JStr i)]
         (\<lambda>r. Done (bindE r (\<lambda>_. Inr i))))"

definition appendToBranch ::
  "(rat \<Rightarrow> rat \<Rightarrow> rat) \<Rightarrow> int \<Rightarrow> string \<Rightarrow> string \<Rightarrow> branch_entry \<Rightarrow> durable_session
    \<Rightarrow> (durable_error + string) \<times> durable_session" where
  "appendToBranch fadd ts i name e s =
    (if sn_status s \<noteq> SOpen then (Inl SessionClosed, s)
     else if pending_append e then (Inl SessionPendingAssistant, s)
     else mutate fadd ts (append_job name e i) s)"

section \<open>The context of a branch\<close>

text \<open>
  \<open>packages/agent/src/harness/session/context.ts\<close>: the entries from the latest compaction on, and the
  messages they stand for. The projectors of custom entries are a parameter.
\<close>

fun last_compaction :: "entry list \<Rightarrow> nat \<Rightarrow> nat option" where
  "last_compaction es 0 = None"
| "last_compaction es (Suc k) = (if de_type (es ! k) = CompactionT then Some k else last_compaction es k)"

definition buildContextEntries :: "entry list \<Rightarrow> entry list" where
  "buildContextEntries path =
    (case last_compaction path (length path) of
       None \<Rightarrow> path
     | Some k \<Rightarrow> path ! k # drop (k + 1) path)"

fun isContextMessage :: "coding_message \<Rightarrow> bool" where
  "isContextMessage (Core (Assistant m)) = (am_stopReason m \<notin> {Error, Aborted, Deferred})"
| "isContextMessage _ = True"

definition sessionEntryToContextMessages :: "entry \<Rightarrow> coding_message list" where
  "sessionEntryToContextMessages e =
    (case de_body e of
       MessageB m t \<Rightarrow> if isContextMessage m then [m] else []
     | CompactionB summary retainedTail tokensBefore d u h \<Rightarrow>
         CompactionSummary \<lparr>cm_summary = summary, cm_tokensBefore = tokensBefore,
                            cm_timestamp = nat (de_timestamp e)\<rparr> # filter isContextMessage retainedTail
     | BranchSummaryB fromId summary d u h \<Rightarrow>
         if summary \<noteq> [] then [BranchSummary \<lparr>bm_summary = summary, bm_fromId = fromId,
                                  bm_timestamp = nat (de_timestamp e)\<rparr>] else []
     | CustomB d \<Rightarrow> [])"

definition durableSessionContext ::
  "(string \<Rightarrow> (entry \<Rightarrow> coding_message list option) option) \<Rightarrow> entry list \<Rightarrow> coding_message list" where
  "durableSessionContext projectors path =
    concat (map (\<lambda>e.
      if de_type e \<noteq> CustomT then sessionEntryToContextMessages e
      else case Option.bind (de_customType e) projectors of
        None \<Rightarrow> []
      | Some projector \<Rightarrow> or_else (projector e) []) (buildContextEntries path))"

end
