(* ===== verification/DurableLine.thy ===== *)
theory DurableLine imports DurableSession begin

text \<open>
  The mutation line of a durable session (\<open>packages/agent/src/harness/session/mutation-line.ts\<close> with
  \<open>beginMutation\<close> and \<open>mutate\<close> of \<open>session.ts\<close>): a step relation whose steps are the calls of clients
  and the single steps of the callback that holds the line, in any interleaving. Every execution
  is one in which the callbacks run one after another, each without interruption, in the order in
  which they were admitted.
\<close>

section \<open>The step relation\<close>

text \<open>
  A job that was admitted has a number. \<open>ml_running\<close> is the callback that holds the line, with what it
  has still to do and whether it has committed; \<open>ml_log\<close> are the settled promises of admitted jobs.
\<close>

record 'a mutation_line =
  ml_queue :: "(nat \<times> 'a job) list"
  ml_running :: "(nat \<times> 'a job \<times> bool) option"
  ml_sealed :: "durable_error option"
  ml_storage :: storage_state
  ml_admitted :: "'a job list"
  ml_log :: "(nat \<times> (durable_error + 'a)) list"

definition line_new :: "storage_state \<Rightarrow> 'a mutation_line" where
  "line_new st = \<lparr>ml_queue = [], ml_running = None, ml_sealed = None, ml_storage = st,
     ml_admitted = [], ml_log = []\<rparr>"

inductive line_step ::
  "(rat \<Rightarrow> rat \<Rightarrow> rat) \<Rightarrow> 'a mutation_line \<Rightarrow> 'a mutation_line \<Rightarrow> bool" for fadd where
  admit: "ml_sealed l = None \<Longrightarrow>
    line_step fadd l (l\<lparr>ml_queue := ml_queue l @ [(length (ml_admitted l), j)],
                       ml_admitted := ml_admitted l @ [j]\<rparr>)"
| start: "ml_running l = None \<Longrightarrow> ml_queue l = (n, j) # rest \<Longrightarrow> ml_sealed l = None \<Longrightarrow>
    line_step fadd l (l\<lparr>ml_queue := rest, ml_running := Some (n, j, False)\<rparr>)"
| refuse: "ml_running l = None \<Longrightarrow> ml_queue l = (n, j) # rest \<Longrightarrow> ml_sealed l = Some e \<Longrightarrow>
    line_step fadd l (l\<lparr>ml_queue := rest, ml_log := ml_log l @ [(n, Inl e)]\<rparr>)"
| look: "ml_running l = Some (n, Look f, c) \<Longrightarrow>
    line_step fadd l (l\<lparr>ml_running := Some (n, f (ml_storage l), c)\<rparr>)"
| commit: "ml_running l = Some (n, Commit ws f, c) \<Longrightarrow> job_commit fadd ws ts c (ml_storage l) = (r, st) \<Longrightarrow>
    line_step fadd l (l\<lparr>ml_running := Some (n, f r, True), ml_storage := st\<rparr>)"
| release: "ml_running l = Some (n, Done r, c) \<Longrightarrow>
    line_step fadd l (l\<lparr>ml_running := None, ml_log := ml_log l @ [(n, r)]\<rparr>)"
| seal: "line_step fadd l (l\<lparr>ml_sealed := Some (or_else (ml_sealed l) e)\<rparr>)"

inductive line_reach ::
  "(rat \<Rightarrow> rat \<Rightarrow> rat) \<Rightarrow> 'a mutation_line \<Rightarrow> 'a mutation_line \<Rightarrow> bool" for fadd where
  reach_refl: "line_reach fadd l l"
| reach_step: "line_reach fadd l m \<Longrightarrow> line_step fadd m k \<Longrightarrow> line_reach fadd l k"

section \<open>Serial executions\<close>

text \<open>
  The clock may show another time at every commit of a job, of which only the first has an effect.
  \<open>serial fadd jobs st rs st'\<close>: the jobs run one after another from \<open>st\<close> to \<open>st'\<close> with the results \<open>rs\<close>.
\<close>

inductive serial ::
  "(rat \<Rightarrow> rat \<Rightarrow> rat) \<Rightarrow> 'a job list \<Rightarrow> storage_state \<Rightarrow> (durable_error + 'a) list \<Rightarrow> storage_state \<Rightarrow> bool"
  for fadd where
  serial_Nil: "serial fadd [] st [] st"
| serial_snoc: "serial fadd js st rs st' \<Longrightarrow> run_job fadd ts j False st' = (r, st'') \<Longrightarrow>
    serial fadd (js @ [j]) st (rs @ [r]) st''"

lemma serial_lengths: "serial fadd js st rs st' \<Longrightarrow> length rs = length js"
  by (induction rule: serial.induct) simp_all

lemma run_job_keeps_inv:
  "storage_inv fadd st \<Longrightarrow> storage_inv fadd (snd (run_job fadd ts j c st))"
proof (induction j arbitrary: c st)
  case (Commit ws f)
  have "storage_inv fadd (snd (job_commit fadd ws ts c st))"
    using Commit.prems by (simp add: job_commit_def mutator_commit_def storage_commit_keeps_inv)
  with Commit.IH show ?case by (auto simp: split_beta)
qed auto

lemma serial_keeps_inv: "serial fadd js st rs st' \<Longrightarrow> storage_inv fadd st \<Longrightarrow> storage_inv fadd st'"
  by (induction rule: serial.induct) (metis run_job_keeps_inv snd_conv)+

text \<open>What the running callback has done and has left to do makes one uninterrupted run.\<close>

definition resumes :: "(rat \<Rightarrow> rat \<Rightarrow> rat) \<Rightarrow> 'a job \<Rightarrow> storage_state \<Rightarrow> 'a job \<Rightarrow> bool \<Rightarrow> storage_state \<Rightarrow> bool" where
  "resumes fadd j st k c st' \<longleftrightarrow>
    (if c then \<exists>ts. \<forall>ts'. run_job fadd ts j False st = run_job fadd ts' k True st'
     else \<forall>ts. run_job fadd ts j False st = run_job fadd ts k False st')"

text \<open>
  The reading of a state of the line: the first \<open>executed\<close> of the admitted jobs have run serially, the
  next one is running, the others wait or were refused after the line was sealed.
\<close>

definition waits :: "nat \<Rightarrow> 'a mutation_line \<Rightarrow> bool" where
  "waits k l \<longleftrightarrow> ml_queue l = map (\<lambda>n. (n, ml_admitted l ! n)) [k ..< length (ml_admitted l)]"

definition line_inv ::
  "(rat \<Rightarrow> rat \<Rightarrow> rat) \<Rightarrow> storage_state \<Rightarrow> 'a mutation_line \<Rightarrow> nat \<Rightarrow> nat \<Rightarrow> (durable_error + 'a) list \<Rightarrow> bool" where
  "line_inv fadd st0 l executed refused rs \<longleftrightarrow>
    executed + refused \<le> length (ml_admitted l) \<and>
    (case ml_running l of
       None \<Rightarrow> serial fadd (take executed (ml_admitted l)) st0 rs (ml_storage l) \<and> waits (executed + refused) l
     | Some (n, k, c) \<Rightarrow> n = executed \<and> n < length (ml_admitted l) \<and> refused = 0 \<and> waits (Suc n) l \<and>
         (\<exists>st. serial fadd (take n (ml_admitted l)) st0 rs st \<and>
               resumes fadd (ml_admitted l ! n) st k c (ml_storage l))) \<and>
    (if refused = 0 then ml_log l = zip [0..<executed] rs
     else \<exists>e. ml_sealed l = Some e \<and>
       ml_log l = zip [0..<executed] rs @ map (\<lambda>n. (n, Inl e)) [executed ..< executed + refused])"

lemma line_inv_new: "line_inv fadd st (line_new st) 0 0 []"
  by (simp add: line_inv_def line_new_def waits_def serial_Nil)

lemma waits_admit:
  "k \<le> length (ml_admitted l) \<Longrightarrow> waits k l \<Longrightarrow>
   waits k (l\<lparr>ml_queue := ml_queue l @ [(length (ml_admitted l), j)], ml_admitted := ml_admitted l @ [j]\<rparr>)"
  by (auto simp: waits_def nth_append)

lemma waits_next:
  assumes "waits k l" "ml_queue l = (n, j) # rest"
  shows "n = k \<and> j = ml_admitted l ! k \<and> k < length (ml_admitted l) \<and>
    rest = map (\<lambda>n. (n, ml_admitted l ! n)) [Suc k ..< length (ml_admitted l)]"
proof -
  have "k < length (ml_admitted l)" using assms by (auto simp: waits_def intro: ccontr)
  with assms show ?thesis by (simp add: waits_def upt_conv_Cons)
qed

lemma zip_upt_snoc: "length rs = n \<Longrightarrow> zip [0..<n] rs @ [(n, r)] = zip [0..<Suc n] (rs @ [r])"
  by simp

lemma attempted_clock: "run_job fadd ts j True st = run_job fadd ts' j True st"
  by (induction j arbitrary: st) (auto simp: job_commit_def)

lemma step_keeps_line_inv:
  assumes "line_step fadd l l'" "line_inv fadd st0 l executed refused rs"
  shows "\<exists>executed refused rs. line_inv fadd st0 l' executed refused rs"
  using assms
proof (induction rule: line_step.induct)
  case (admit l j)
  then have "refused = 0" by (auto simp: line_inv_def split: if_splits)
  with admit show ?case
    by (intro exI [of _ executed] exI [of _ 0] exI [of _ rs])
      (auto simp: line_inv_def nth_append intro!: waits_admit split: option.splits prod.splits)
next
  case (start l n j rest)
  then have inv: "refused = 0" "serial fadd (take executed (ml_admitted l)) st0 rs (ml_storage l)" "waits executed l"
    "ml_log l = zip [0..<executed] rs"
    by (auto simp: line_inv_def split: if_splits)
  from waits_next [OF inv(3) start.hyps(2)] inv show ?case
    by (intro exI [of _ executed] exI [of _ 0] exI [of _ rs])
      (auto simp: line_inv_def waits_def resumes_def)
next
  case (refuse l n j rest e)
  then have inv: "serial fadd (take executed (ml_admitted l)) st0 rs (ml_storage l)" "waits (executed + refused) l"
    "ml_log l = zip [0..<executed] rs @ map (\<lambda>n. (n, Inl e)) [executed ..< executed + refused]"
    by (auto simp: line_inv_def split: if_splits)
  from waits_next [OF inv(2) refuse.hyps(2)] inv refuse.hyps show ?case
    by (intro exI [of _ executed] exI [of _ "Suc refused"] exI [of _ rs]) (auto simp: line_inv_def waits_def)
next
  case (look l n f c)
  then show ?case
    by (intro exI [of _ executed] exI [of _ refused] exI [of _ rs])
      (auto simp: line_inv_def waits_def resumes_def)
next
  case (commit l n ws f c ts r st)
  then obtain st1 where inv: "n = executed" "refused = 0"
    "resumes fadd (ml_admitted l ! n) st1 (Commit ws f) c (ml_storage l)"
    "serial fadd (take n (ml_admitted l)) st0 rs st1"
    by (auto simp: line_inv_def)
  have "resumes fadd (ml_admitted l ! n) st1 (f r) True st"
  proof (cases c)
    case True
    with inv(3) commit.hyps(2) show ?thesis by (auto simp: resumes_def job_commit_def)
  next
    case False
    then have "run_job fadd ts (ml_admitted l ! n) False st1 = run_job fadd ts (f r) True st"
      using inv(3) commit.hyps(2) by (auto simp: resumes_def)
    then show ?thesis using attempted_clock unfolding resumes_def by (metis (full_types))
  qed
  with commit inv show ?case
    by (intro exI [of _ executed] exI [of _ 0] exI [of _ rs]) (auto simp: line_inv_def waits_def)
next
  case (release l n r c)
  then obtain st1 where inv: "n = executed" "refused = 0" "n < length (ml_admitted l)" "waits (Suc n) l"
    "resumes fadd (ml_admitted l ! n) st1 (Done r) c (ml_storage l)"
    "serial fadd (take n (ml_admitted l)) st0 rs st1" "ml_log l = zip [0..<n] rs"
    by (auto simp: line_inv_def)
  obtain ts where "run_job fadd ts (ml_admitted l ! n) False st1 = (r, ml_storage l)"
    using inv(5) by (auto simp: resumes_def split: if_splits)
  with inv(6) have "serial fadd (take n (ml_admitted l) @ [ml_admitted l ! n]) st0 (rs @ [r]) (ml_storage l)"
    by (rule serial_snoc)
  then have "serial fadd (take (Suc n) (ml_admitted l)) st0 (rs @ [r]) (ml_storage l)"
    using inv(3) by (simp add: take_Suc_conv_app_nth)
  moreover have "length rs = n" using serial_lengths [OF inv(6)] inv(3) by simp
  then have "ml_log l @ [(n, r)] = zip [0..<Suc n] (rs @ [r])" using inv(7) by (simp only: zip_upt_snoc)
  ultimately have "line_inv fadd st0 (l\<lparr>ml_running := None, ml_log := ml_log l @ [(n, r)]\<rparr>) (Suc n) 0 (rs @ [r])"
    using inv(3,4) unfolding line_inv_def waits_def by (simp del: upt_Suc)
  then show ?case by (intro exI)
next
  case (seal l e)
  then have "line_inv fadd st0 (l\<lparr>ml_sealed := Some (or_else (ml_sealed l) e)\<rparr>) executed refused rs"
    by (cases "refused = 0"; cases "ml_running l") (auto simp: line_inv_def waits_def)
  then show ?case by (intro exI)
qed

lemma line_reach_inv:
  fixes l :: "'a mutation_line"
  assumes "line_reach fadd (line_new st0) l"
  shows "\<exists>executed refused rs. line_inv fadd st0 l executed refused rs"
  using assms
proof (induction "line_new st0 :: 'a mutation_line" l rule: line_reach.induct)
  case reach_refl
  show ?case by (intro exI) (rule line_inv_new)
next
  case (reach_step m k)
  then show ?case using step_keeps_line_inv by metis
qed


end
