(* ===== verification/DurableForkLaws.thy ===== *)
theory DurableForkLaws imports DurableSession begin

text \<open>
  What a fork of a durable session contains: the loop over the ancestors of the tip selects the path
  of the new tip, the copy satisfies the invariant of a session, and its branch reads as the path in
  the source. The snapshot of \<open>fork.ts\<close> selects the same entries and values.
\<close>

section \<open>The path of an entry, one step at a time\<close>

definition tree_wf :: "entry list \<Rightarrow> bool" where
  "tree_wf es \<longleftrightarrow> distinct (map de_id es) \<and> parents_first es"

lemma inv_tree_wf: "storage_inv fadd st \<Longrightarrow> tree_wf (ss_bySeq st)"
  by (simp add: storage_inv_def entries_wf_def tree_wf_def)

lemma tree_wf_snoc:
  "tree_wf (es @ [x]) \<longleftrightarrow> tree_wf es \<and> de_id x \<notin> de_id ` set es \<and>
    (case de_parentId x of None \<Rightarrow> True | Some p \<Rightarrow> p \<in> de_id ` set es)"
  by (auto simp: tree_wf_def parents_first_snoc)

lemma lineage_fresh: "i \<noteq> de_id x \<Longrightarrow> lineage (es @ [x]) i = lineage es i"
  by (simp add: lineage_snoc)

lemma lineage_unfold:
  assumes "tree_wf es" "index_of es i = Some e"
  shows "lineage es i = e # (case de_parentId e of None \<Rightarrow> [] | Some p \<Rightarrow> lineage es p)"
  using assms
proof (induction es rule: rev_induct)
  case Nil
  then show ?case by (simp add: index_of_def)
next
  case (snoc x es)
  then have x: "de_id x \<notin> de_id ` set es" and wf: "tree_wf es" by (simp_all add: tree_wf_snoc)
  have other: "lineage (es @ [x]) p = lineage es p" if "p \<in> de_id ` set es" for p
    using that x by (intro lineage_fresh) metis
  show ?case
  proof (cases "i = de_id x")
    case True
    then have "e = x" using snoc.prems(2) by (simp add: index_of_snoc [OF x])
    moreover have "lineage (es @ [x]) i = x # (case de_parentId x of None \<Rightarrow> [] | Some p \<Rightarrow> lineage es p)"
      using True by (simp add: lineage_snoc)
    ultimately show ?thesis using snoc.prems(1) other by (cases "de_parentId x") (simp_all add: tree_wf_snoc)
  next
    case False
    then have e: "index_of es i = Some e" using snoc.prems(2) by (simp add: index_of_snoc [OF x])
    have "p \<in> de_id ` set es" if p: "de_parentId e = Some p" for p
    proof -
      obtain us vs where "es = us @ e # vs" using index_of_Some [OF e] by (meson split_list)
      then show ?thesis using wf p by (fastforce simp: tree_wf_def parents_first_def)
    qed
    with snoc.IH [OF wf e] False other show ?thesis
      by (simp add: lineage_fresh split: option.split)
  qed
qed

lemma parent_known:
  assumes "tree_wf es" "index_of es i = Some e" "de_parentId e = Some p"
  shows "\<exists>e'. index_of es p = Some e'"
proof -
  obtain us vs where es: "es = us @ e # vs" using index_of_Some [OF assms(2)] by (meson split_list)
  then have "p \<in> de_id ` set us" using assms(1,3) by (fastforce simp: tree_wf_def parents_first_def)
  then have "index_of es p \<noteq> None" unfolding index_of_None by (auto simp: es)
  then show ?thesis by simp
qed

text \<open>Induction along the parents: the path gets shorter.\<close>

lemma lineage_induct [consumes 2, case_names step]:
  assumes wf: "tree_wf es" and i: "index_of es i = Some e"
    and step: "\<And>i e. index_of es i = Some e \<Longrightarrow>
      (\<And>p e'. de_parentId e = Some p \<Longrightarrow> index_of es p = Some e' \<Longrightarrow> P p e') \<Longrightarrow> P i e"
  shows "P i e"
  using i
proof (induction "length (lineage es i)" arbitrary: i e rule: less_induct)
  case less
  show ?case
  proof (rule step [OF less.prems])
    fix p e' assume p: "de_parentId e = Some p" "index_of es p = Some e'"
    then have "length (lineage es p) < length (lineage es i)"
      using lineage_unfold [OF wf less.prems] by simp
    with less.hyps p(2) show "P p e'" by blast
  qed
qed

definition path_from :: "entry list \<Rightarrow> string option \<Rightarrow> entry list" where
  "path_from es t = (case t of None \<Rightarrow> [] | Some i \<Rightarrow> lineage es i)"

lemma path_from_simps [simp]: "path_from es None = []" "path_from es (Some i) = lineage es i"
  by (simp_all add: path_from_def)

definition known_tip :: "entry list \<Rightarrow> string option \<Rightarrow> bool" where
  "known_tip es t \<longleftrightarrow> (case t of None \<Rightarrow> True | Some i \<Rightarrow> index_of es i \<noteq> None)"

lemma lineage_step:
  "tree_wf es \<Longrightarrow> index_of es i = Some e \<Longrightarrow> lineage es i = e # path_from es (de_parentId e)"
  by (simp add: lineage_unfold path_from_def)

lemma lineage_ids_distinct:
  assumes "tree_wf es" shows "distinct (map de_id (lineage es i))"
proof -
  have "subseq (lineage es i) (rev es)" using lineage_subseq by (simp add: lineage_def)
  then have "subseq (map de_id (lineage es i)) (map de_id (rev es))" by (rule subseq_map)
  moreover have "distinct (map de_id (rev es))"
    using assms unfolding rev_map [symmetric] by (simp add: tree_wf_def)
  ultimately show ?thesis by (auto simp: subseq_conv_nths intro: distinct_nthsI)
qed

section \<open>The selection of a branch\<close>

lemma parent_in_index: "index_of es i = Some e \<Longrightarrow> parent_in (index_of es) i = Some (de_parentId e)"
  by (simp add: parent_in_def)

lemma select_rest:
  assumes wf: "tree_wf es" and i: "index_of es i = Some e"
    and r: "\<forall>x\<in>set (lineage es i). requested \<noteq> Some (de_id x)"
  shows "select_loop (parent_in (index_of es)) requested pos (Some i) found dest sel =
    Some (Inr (found, dest, if found then sel @ map de_id (lineage es i) else sel))"
  using wf i r
proof (induction i e arbitrary: sel rule: lineage_induct)
  case (step i e)
  have here: "requested \<noteq> Some i" and rest: "\<forall>x\<in>set (path_from es (de_parentId e)). requested \<noteq> Some (de_id x)"
    using step.prems index_of_Some [OF step.hyps] lineage_step [OF wf step.hyps] by auto
  note eq = select_loop.simps [of "parent_in (index_of es)" requested pos "Some i"]
  show ?case
  proof (cases "de_parentId e")
    case None
    with here show ?thesis
      by (simp add: eq parent_in_index [OF step.hyps] lineage_step [OF wf step.hyps] index_of_Some [OF step.hyps]
          select_loop.simps [of _ _ _ None])
  next
    case (Some p)
    obtain e' where "index_of es p = Some e'" using parent_known [OF wf step.hyps Some] by blast
    with step.IH [OF Some this] Some here rest show ?thesis
      by (simp add: eq parent_in_index [OF step.hyps] lineage_step [OF wf step.hyps] index_of_Some [OF step.hyps])
  qed
qed

text \<open>The tip of the destination when the fork takes the entry \<open>e\<close> or stops before it.\<close>

definition fork_tip :: "fork_position option \<Rightarrow> entry \<Rightarrow> string option" where
  "fork_tip pos e = (if pos = Some Before then de_parentId e else Some (de_id e))"

lemma select_found:
  assumes wf: "tree_wf es" and i: "index_of es i = Some e"
    and r: "x \<in> set (lineage es i)" "requested = Some (de_id x)"
  shows "select_loop (parent_in (index_of es)) requested pos (Some i) False None [] =
    Some (Inr (True, fork_tip pos x, map de_id (path_from es (fork_tip pos x))))"
  using wf i r(1)
proof (induction i e rule: lineage_induct)
  case (step i e)
  note eq = select_loop.simps [of "parent_in (index_of es)" requested pos "Some i"]
  note path = lineage_step [OF wf step.hyps] and id = index_of_Some [OF step.hyps]
  have d: "distinct (map de_id (lineage es i))" by (rule lineage_ids_distinct [OF wf])
  show ?case
  proof (cases "x = e")
    case True
    have rest: "\<forall>y\<in>set (path_from es (de_parentId e)). requested \<noteq> Some (de_id y)"
      using d path r(2) True by auto
    have hit: "(Some i = requested) = True" using True r(2) id by simp
    show ?thesis
    proof (cases "de_parentId e")
      case None
      with True id show ?thesis
        by (subst eq) (simp add: hit parent_in_index [OF step.hyps] select_loop.simps [of _ _ _ None] fork_tip_def path)
    next
      case (Some p)
      obtain e' where e': "index_of es p = Some e'" using parent_known [OF wf step.hyps Some] by blast
      have "\<forall>y\<in>set (lineage es p). requested \<noteq> Some (de_id y)" using rest Some by simp
      from select_rest [OF wf e' this, of pos True] True id Some show ?thesis
        by (subst eq) (simp add: hit parent_in_index [OF step.hyps] fork_tip_def path)
    qed
  next
    case False
    then have "x \<in> set (path_from es (de_parentId e))" using step.prems path by simp
    then obtain p where p: "de_parentId e = Some p" "x \<in> set (lineage es p)"
      by (cases "de_parentId e") auto
    obtain e' where e': "index_of es p = Some e'" using parent_known [OF wf step.hyps p(1)] by blast
    have "de_id x \<in> de_id ` set (lineage es p)" using p(2) by (rule imageI)
    then have "requested \<noteq> Some i" using d path p(1) r(2) id by auto
    with step.IH [OF p(1) e' p(2)] p show ?thesis
      by (simp add: eq parent_in_index [OF step.hyps])
  qed
qed

text \<open>The tip of the destination of a fork.\<close>

definition fork_dest ::
  "entry list \<Rightarrow> string option \<Rightarrow> string option \<Rightarrow> fork_position option \<Rightarrow> string option" where
  "fork_dest es t entryId pos =
    (case (case entryId of Some i \<Rightarrow> Some i | None \<Rightarrow> t) of
       None \<Rightarrow> None
     | Some r \<Rightarrow> Option.bind (index_of es r) (fork_tip pos))"

lemma selectBranchFork_ok:
  assumes wf: "tree_wf es" and t: "known_tip es t"
    and r: "case entryId of None \<Rightarrow> True | Some r \<Rightarrow> r \<in> de_id ` set (path_from es t)"
  shows "selectBranchFork b entryId pos (Some t) (parent_in (index_of es)) =
    Some (Inr (PlanBranch b (fork_dest es t entryId pos),
      map de_id (path_from es (fork_dest es t entryId pos))))"
proof (cases t)
  case None
  then have "entryId = None" using r by (cases entryId) auto
  with None show ?thesis
    by (simp add: selectBranchFork_def select_loop.simps [of _ _ _ None] fork_dest_def)
next
  case (Some i)
  then obtain e where e: "index_of es i = Some e" using t by (auto simp: known_tip_def)
  define requested where "requested = (case entryId of Some j \<Rightarrow> Some j | None \<Rightarrow> Some i)"
  obtain x where x: "x \<in> set (lineage es i)" "requested = Some (de_id x)"
  proof (cases entryId)
    case None
    then show ?thesis using that [of e] lineage_step [OF wf e] index_of_Some [OF e]
      by (simp add: requested_def)
  next
    case (Some r')
    then show ?thesis using that r \<open>t = Some i\<close> by (auto simp: requested_def)
  qed
  have "x \<in> set es" using x(1) lineage_set by blast
  then have ix: "index_of es (de_id x) = Some x" using wf by (simp add: index_of_mem tree_wf_def)
  have dest: "fork_dest es (Some i) entryId pos = fork_tip pos x"
    unfolding fork_dest_def requested_def [symmetric] x(2) by (simp add: ix)
  show ?thesis
    unfolding Some dest unfolding selectBranchFork_def option.case Let_def requested_def [symmetric]
    using select_found [OF wf e x, of pos] x(2) by simp
qed

section \<open>The copied entries\<close>

lemma fold_fork_entry:
  assumes "distinct (map de_id es)"
  shows "fold (fork_entry c) es storage_new =
    storage_new\<lparr>ss_entries := index_of (filter (\<lambda>e. c (de_id e)) es),
      ss_bySeq := filter (\<lambda>e. c (de_id e)) es,
      ss_stats := \<lparr>st_messageCount = message_count (filter (\<lambda>e. c (de_id e)) es), st_usage = emptyUsage\<rparr>\<rparr>"
  using assms
proof (induction es rule: rev_induct)
  case Nil
  show ?case by (simp add: storage_new_def index_of_def message_count_def)
next
  case (snoc x es)
  then have "de_id x \<notin> de_id ` set (filter (\<lambda>e. c (de_id e)) es)" by auto
  with snoc show ?case
    by (auto simp: fork_entry_def index_of_snoc message_count_snoc)
qed

text \<open>A set of entries that is closed under parents remains a tree.\<close>

definition closed_in :: "(entry \<Rightarrow> bool) \<Rightarrow> entry list \<Rightarrow> bool" where
  "closed_in P es \<longleftrightarrow>
    (\<forall>e\<in>set es. \<forall>x\<in>set es. P e \<longrightarrow> de_parentId e = Some (de_id x) \<longrightarrow> P x)"

lemma closed_in_mono: "closed_in P ys \<Longrightarrow> set xs \<subseteq> set ys \<Longrightarrow> closed_in P xs"
  unfolding closed_in_def by blast

lemma closed_inD:
  "closed_in P es \<Longrightarrow> e \<in> set es \<Longrightarrow> x \<in> set es \<Longrightarrow> P e \<Longrightarrow> de_parentId e = Some (de_id x) \<Longrightarrow> P x"
  unfolding closed_in_def by blast

lemma parents_first_filter:
  assumes "parents_first es" "closed_in P es"
  shows "parents_first (filter P es)"
  using assms
proof (induction es rule: rev_induct)
  case (snoc x es)
  have pf: "parents_first es" using snoc.prems(1) by (simp add: parents_first_snoc)
  have closed: "closed_in P es" using snoc.prems(2) by (rule closed_in_mono) auto
  have "p \<in> de_id ` set (filter P es)" if px: "P x" and par: "de_parentId x = Some p" for p
  proof -
    obtain y where y: "y \<in> set es" "de_id y = p"
      using snoc.prems(1) par by (auto simp: parents_first_snoc)
    moreover have "P y" using closed_inD [OF snoc.prems(2), of x y] px par y by simp
    ultimately show ?thesis by (force simp: image_iff)
  qed
  with snoc.IH [OF pf closed] show ?case by (simp add: parents_first_snoc split: option.split)
qed (simp add: parents_first_def)

lemma entries_wf_filter:
  assumes "entries_wf n es" "closed_in P es"
  shows "entries_wf n (filter P es)"
proof -
  have "sorted_wrt (<) (map de_seq (filter P es))"
    using assms(1) sorted_wrt_filter [of "\<lambda>a b. de_seq a < de_seq b" es P]
    by (simp add: entries_wf_def sorted_wrt_map)
  then show ?thesis using assms parents_first_filter [of es P]
    by (simp add: entries_wf_def distinct_map_filter)
qed

text \<open>The path of an entry is closed under parents and reads the same in the copy.\<close>

lemma lineage_closed:
  assumes wf: "tree_wf es" and i: "index_of es i = Some e"
  shows "\<forall>x\<in>set (lineage es i). \<forall>p. de_parentId x = Some p \<longrightarrow> p \<in> de_id ` set (lineage es i)"
  using wf i
proof (induction i e rule: lineage_induct)
  case (step i e)
  show ?case
  proof (cases "de_parentId e")
    case None
    then show ?thesis by (simp add: lineage_step [OF wf step.hyps])
  next
    case (Some p)
    obtain e' where e': "index_of es p = Some e'" using parent_known [OF wf step.hyps Some] by blast
    have "p \<in> de_id ` set (lineage es p)"
      using lineage_step [OF wf e'] index_of_Some [OF e'] by (simp add: image_iff)
    with step.IH [OF Some e'] Some show ?thesis
      by (simp add: lineage_step [OF wf step.hyps])
  qed
qed

lemma index_of_filter:
  assumes "tree_wf es" "index_of es i = Some e" "P e"
  shows "index_of (filter P es) i = Some e"
proof -
  from assms(1) have "distinct (map de_id (filter P es))" by (simp add: tree_wf_def distinct_map_filter)
  moreover have "e \<in> set (filter P es)" using assms index_of_Some by fastforce
  ultimately show ?thesis using index_of_mem index_of_Some [OF assms(2)] by metis
qed

lemma lineage_filter:
  assumes wf: "tree_wf es" and wf': "tree_wf (filter P es)" and i: "index_of es i = Some e"
    and all: "\<forall>x\<in>set (lineage es i). P x"
  shows "lineage (filter P es) i = lineage es i"
  using wf i all
proof (induction i e rule: lineage_induct)
  case (step i e)
  note path = lineage_step [OF wf step.hyps]
  have "index_of (filter P es) i = Some e" using step.prems path by (intro index_of_filter [OF wf step.hyps]) simp
  note path' = lineage_step [OF wf' this]
  show ?case
  proof (cases "de_parentId e")
    case None
    then show ?thesis by (simp add: path path')
  next
    case (Some p)
    obtain e' where "index_of es p = Some e'" using parent_known [OF wf step.hyps Some] by blast
    with step.IH [OF Some] step.prems path Some show ?thesis by (simp add: path')
  qed
qed

section \<open>The copied values and lists\<close>

text \<open>Whether the policy throws depends on the namespace only.\<close>

definition known_namespace :: "string \<Rightarrow> bool" where
  "known_namespace ns \<longleftrightarrow> is_ok (projectForkCurrentStateWrite PlanTree (\<lambda>i. True) ns [] JNull)"

lemma project_ok: "is_ok (projectForkCurrentStateWrite plan c ns k v) \<longleftrightarrow> known_namespace ns"
  by (simp add: known_namespace_def projectForkCurrentStateWrite_def)

definition kept :: "fork_plan \<Rightarrow> (string \<Rightarrow> bool) \<Rightarrow> string \<Rightarrow> string \<Rightarrow> json \<Rightarrow> json option" where
  "kept plan c ns k v =
    (case projectForkCurrentStateWrite plan c ns k v of Inr (Keep w) \<Rightarrow> Some w | _ \<Rightarrow> None)"

definition kept_values ::
  "fork_plan \<Rightarrow> (string \<Rightarrow> bool) \<Rightarrow> (string \<times> stored_value) list \<Rightarrow> (string \<times> stored_value) list" where
  "kept_values plan c vs = List.map_filter (\<lambda>(pk, s).
     map_option (\<lambda>w. (pk, s\<lparr>sv_value := w\<rparr>))
       (kept plan c (ad_namespace (sv_address s)) (ad_key (sv_address s)) (sv_value s))) vs"

lemma kept_values_Cons:
  "kept_values plan c ((pk, s) # vs) =
    (case kept plan c (ad_namespace (sv_address s)) (ad_key (sv_address s)) (sv_value s) of
       None \<Rightarrow> kept_values plan c vs
     | Some w \<Rightarrow> (pk, s\<lparr>sv_value := w\<rparr>) # kept_values plan c vs)"
  by (simp add: kept_values_def map_filter_simps split: option.split)

lemma kept_values_keys: "fst ` set (kept_values plan c vs) \<subseteq> fst ` set vs"
  by (auto simp: kept_values_def List.map_filter_def) force

lemma stored_again:
  assumes "ad_kind (sv_address s) = ValueA"
  shows "\<lparr>sv_address = \<lparr>ad_namespace = ad_namespace (sv_address s), ad_key = ad_key (sv_address s), ad_kind = ValueA\<rparr>,
    sv_value = w, sv_seq = sv_seq s\<rparr> = s\<lparr>sv_value := w\<rparr>"
  using assms by simp

lemma foldE_fork_value:
  assumes "values_wf n vs" "\<forall>(pk, s)\<in>set vs. known_namespace (ad_namespace (sv_address s))"
    and "fst ` set vs \<inter> fst ` set (ss_scalar dst) = {}"
  shows "foldE (fork_value plan c) (map snd vs) dst =
    Inr (dst\<lparr>ss_scalar := ss_scalar dst @ kept_values plan c vs\<rparr>)"
  using assms
proof (induction vs arbitrary: dst)
  case Nil
  show ?case by (simp add: kept_values_def List.map_filter_def)
next
  case (Cons p vs)
  obtain pk s where p: "p = (pk, s)" by (cases p)
  let ?ns = "ad_namespace (sv_address s)" and ?k = "ad_key (sv_address s)"
  from Cons.prems(1) have s: "pk = physicalKey ?ns ?k" "ad_kind (sv_address s) = ValueA"
    and valid: "valid_address ?ns ?k" and wf: "values_wf n vs" and fresh: "pk \<notin> fst ` set vs"
    by (auto simp: values_wf_def p)
  have ok: "is_ok (projectForkCurrentStateWrite plan c ?ns ?k (sv_value s))"
    using Cons.prems(2) by (simp add: p project_ok)
  show ?case
  proof (cases "kept plan c ?ns ?k (sv_value s)")
    case None
    with ok have "fork_value plan c s dst = Inr dst"
      by (auto simp: kept_def fork_value_def Let_def is_ok_iff split: projected.splits)
    with None Cons.IH [OF wf, of dst] Cons.prems(2,3) show ?thesis by (simp add: p kept_values_Cons)
  next
    case (Some w)
    have up: "AList.update pk (s\<lparr>sv_value := w\<rparr>) (ss_scalar dst) = ss_scalar dst @ [(pk, s\<lparr>sv_value := w\<rparr>)]"
      using Cons.prems(3) p by (intro update_fresh) auto
    from Some have "fork_value plan c s dst = Inr (put_value (sv_seq s) ?ns ?k w dst)"
      using valid by (auto simp: kept_def fork_value_def Let_def value_set_valid split: sum.splits projected.splits)
    also have "put_value (sv_seq s) ?ns ?k w dst = dst\<lparr>ss_scalar := ss_scalar dst @ [(pk, s\<lparr>sv_value := w\<rparr>)]\<rparr>"
      unfolding put_value_def stored_again [OF s(2)] s(1) [symmetric] up ..
    finally show ?thesis
      using Some Cons.IH [OF wf, of "dst\<lparr>ss_scalar := ss_scalar dst @ [(pk, s\<lparr>sv_value := w\<rparr>)]\<rparr>"]
        Cons.prems(2,3) fresh
      by (simp add: p kept_values_Cons)
  qed
qed

definition kept_elements ::
  "fork_plan \<Rightarrow> (string \<Rightarrow> bool) \<Rightarrow> address \<Rightarrow> list_element list \<Rightarrow> list_element list" where
  "kept_elements plan c a xs = List.map_filter (\<lambda>x.
     map_option (\<lambda>w. x\<lparr>le_value := w\<rparr>) (kept plan c (ad_namespace a) (ad_key a) (le_value x))) xs"

definition kept_lists ::
  "fork_plan \<Rightarrow> (string \<Rightarrow> bool) \<Rightarrow> (string \<times> list_snapshot) list \<Rightarrow> (string \<times> list_snapshot) list" where
  "kept_lists plan c ls = List.map_filter (\<lambda>(pk, l).
     let xs = kept_elements plan c (ls_address l) (ls_elements l) in
     if xs = [] then None
     else Some (pk, \<lparr>ls_address = (ls_address l)\<lparr>ad_kind := ListA\<rparr>, ls_elements = xs\<rparr>)) ls"

definition add_list :: "string \<Rightarrow> address \<Rightarrow> list_element list \<Rightarrow> storage_state \<Rightarrow> storage_state" where
  "add_list pk a xs dst =
    (if xs = [] then dst
     else dst\<lparr>ss_lists := ss_lists dst @ [(pk, \<lparr>ls_address = a\<lparr>ad_kind := ListA\<rparr>, ls_elements = xs\<rparr>)]\<rparr>)"

lemma update_last: "k \<notin> fst ` set xs \<Longrightarrow> AList.update k v (xs @ [(k, w)]) = xs @ [(k, v)]"
  by (induction xs) auto

lemma put_list_again:
  assumes "pk \<notin> fst ` set (ss_lists dst)" "pk = physicalKey (ad_namespace a) (ad_key a)"
  shows "put_list (le_seq x) (ad_namespace a) (ad_key a) v (add_list pk a xs dst) =
    add_list pk a (xs @ [\<lparr>le_seq = le_seq x, le_value = v\<rparr>]) dst"
proof -
  have m: "map_of (ss_lists dst) pk = None" using assms(1) by (simp add: map_of_eq_None_iff)
  show ?thesis
  proof (cases "xs = []")
    case True
    with m show ?thesis
      by (simp add: put_list_def add_list_def Let_def assms(2) [symmetric] update_fresh [OF assms(1)])
  next
    case False
    with m show ?thesis
      by (simp add: put_list_def add_list_def Let_def assms(2) [symmetric] update_last [OF assms(1)]
          map_add_def)
  qed
qed

lemma kept_elements_Cons:
  "kept_elements plan c a (x # xs) =
    (case kept plan c (ad_namespace a) (ad_key a) (le_value x) of
       None \<Rightarrow> kept_elements plan c a xs
     | Some w \<Rightarrow> x\<lparr>le_value := w\<rparr> # kept_elements plan c a xs)"
  by (simp add: kept_elements_def map_filter_simps split: option.split)

lemma foldE_fork_element:
  assumes "known_namespace (ad_namespace a)" "pk \<notin> fst ` set (ss_lists dst)"
    and "pk = physicalKey (ad_namespace a) (ad_key a)" and valid: "valid_address (ad_namespace a) (ad_key a)"
  shows "foldE (fork_element plan c a) xs (add_list pk a ys dst) =
    Inr (add_list pk a (ys @ kept_elements plan c a xs) dst)"
proof (induction xs arbitrary: ys)
  case Nil
  show ?case by (simp add: kept_elements_def List.map_filter_def)
next
  case (Cons x xs)
  have ok: "is_ok (projectForkCurrentStateWrite plan c (ad_namespace a) (ad_key a) (le_value x))"
    using assms(1) by (simp add: project_ok)
  show ?case
  proof (cases "kept plan c (ad_namespace a) (ad_key a) (le_value x)")
    case None
    with ok have "fork_element plan c a x (add_list pk a ys dst) = Inr (add_list pk a ys dst)"
      by (auto simp: kept_def fork_element_def is_ok_iff split: projected.splits)
    with None Cons.IH show ?thesis by (simp add: kept_elements_Cons)
  next
    case (Some w)
    then have "fork_element plan c a x (add_list pk a ys dst) =
        Inr (put_list (le_seq x) (ad_namespace a) (ad_key a) w (add_list pk a ys dst))"
      using valid by (auto simp: kept_def fork_element_def list_append_valid split: sum.splits projected.splits)
    also have "\<dots> = Inr (add_list pk a (ys @ [x\<lparr>le_value := w\<rparr>]) dst)"
      unfolding put_list_again [OF assms(2,3)] by (cases x) simp
    finally show ?thesis using Some Cons.IH [of "ys @ [x\<lparr>le_value := w\<rparr>]"] by (simp add: kept_elements_Cons)
  qed
qed

lemma kept_lists_Cons:
  "kept_lists plan c ((pk, l) # ls) =
    (let xs = kept_elements plan c (ls_address l) (ls_elements l) in
     (if xs = [] then [] else [(pk, \<lparr>ls_address = (ls_address l)\<lparr>ad_kind := ListA\<rparr>, ls_elements = xs\<rparr>)])
     @ kept_lists plan c ls)"
  by (simp add: kept_lists_def map_filter_simps Let_def)

lemma foldE_fork_list:
  assumes "lists_wf n ls" "\<forall>(pk, l)\<in>set ls. known_namespace (ad_namespace (ls_address l))"
    and "fst ` set ls \<inter> fst ` set (ss_lists dst) = {}"
  shows "foldE (fork_list plan c) (map snd ls) dst =
    Inr (dst\<lparr>ss_lists := ss_lists dst @ kept_lists plan c ls\<rparr>)"
  using assms
proof (induction ls arbitrary: dst)
  case Nil
  show ?case by (simp add: kept_lists_def List.map_filter_def)
next
  case (Cons p ls)
  obtain pk l where p: "p = (pk, l)" by (cases p)
  from Cons.prems(1) have l: "pk = physicalKey (ad_namespace (ls_address l)) (ad_key (ls_address l))"
    and valid: "valid_address (ad_namespace (ls_address l)) (ad_key (ls_address l))"
    and wf: "lists_wf n ls" and fresh: "pk \<notin> fst ` set ls"
    by (auto simp: lists_wf_def p)
  let ?xs = "kept_elements plan c (ls_address l) (ls_elements l)"
  have "fork_list plan c l dst = Inr (add_list pk (ls_address l) ?xs dst)"
    using foldE_fork_element [OF _ _ l valid, of dst plan c "ls_elements l" "[]"] Cons.prems(2,3)
    by (simp add: p fork_list_def add_list_def [of _ _ "[]"])
  moreover have "fst ` set ls \<inter> fst ` set (ss_lists (add_list pk (ls_address l) ?xs dst)) = {}"
    using Cons.prems(3) fresh by (auto simp: p add_list_def)
  ultimately show ?case
    using Cons.IH [OF wf, of "add_list pk (ls_address l) ?xs dst"] Cons.prems(2)
    by (simp add: p kept_lists_Cons Let_def add_list_def)
qed

lemma kept_values_wf: "values_wf n vs \<Longrightarrow> values_wf n (kept_values plan c vs)"
proof (induction vs)
  case Nil
  show ?case by (simp add: kept_values_def List.map_filter_def values_wf_def)
next
  case (Cons p vs)
  obtain pk s where p: "p = (pk, s)" by (cases p)
  have "values_wf n (kept_values plan c vs)" using Cons by (auto simp: values_wf_def)
  moreover have "pk \<notin> fst ` set (kept_values plan c vs)"
    using Cons.prems kept_values_keys [of plan c vs] by (auto simp: p values_wf_def)
  ultimately show ?case using Cons.prems by (auto simp: p kept_values_Cons values_wf_def split: option.split)
qed

lemma kept_elements_seqs: "subseq (map le_seq (kept_elements plan c a xs)) (map le_seq xs)"
proof (induction xs)
  case (Cons x xs)
  then show ?case by (auto simp: kept_elements_Cons split: option.split)
qed (simp add: kept_elements_def List.map_filter_def)

lemma kept_lists_keys: "fst ` set (kept_lists plan c ls) \<subseteq> fst ` set ls"
proof (induction ls)
  case Nil
  show ?case by (simp add: kept_lists_def List.map_filter_def)
next
  case (Cons p ls)
  then show ?case by (cases p) (auto simp: kept_lists_Cons Let_def split: if_splits)
qed

lemma kept_lists_wf: "lists_wf n ls \<Longrightarrow> lists_wf n (kept_lists plan c ls)"
proof (induction ls)
  case Nil
  show ?case by (simp add: kept_lists_def List.map_filter_def lists_wf_def)
next
  case (Cons p ls)
  obtain pk l where p: "p = (pk, l)" by (cases p)
  let ?xs = "kept_elements plan c (ls_address l) (ls_elements l)"
  have tail: "lists_wf n (kept_lists plan c ls)" using Cons by (auto simp: lists_wf_def)
  have fresh: "pk \<notin> fst ` set (kept_lists plan c ls)"
    using Cons.prems kept_lists_keys [of plan c ls] by (auto simp: p lists_wf_def)
  have seqs: "sorted_wrt (<) (map le_seq ?xs)"
    using Cons.prems by (intro sorted_wrt_subseq [OF kept_elements_seqs]) (auto simp: p lists_wf_def)
  have "le_seq ` set ?xs \<subseteq> le_seq ` set (ls_elements l)"
    using subseq_members [OF kept_elements_seqs, of plan c "ls_address l" "ls_elements l"] by simp
  then have below: "\<forall>x\<in>set ?xs. le_seq x < n"
    using Cons.prems by (fastforce simp: p lists_wf_def)
  have "pk = physicalKey (ad_namespace (ls_address l)) (ad_key (ls_address l))"
    using Cons.prems by (auto simp: p lists_wf_def)
  moreover have "valid_address (ad_namespace (ls_address l)) (ad_key (ls_address l))"
    using Cons.prems by (auto simp: p lists_wf_def)
  ultimately show ?case using tail fresh seqs below by (auto simp: p kept_lists_Cons Let_def lists_wf_def)
qed

section \<open>The fork\<close>

definition forkable :: "storage_state \<Rightarrow> bool" where
  "forkable st \<longleftrightarrow>
    (\<forall>(pk, s)\<in>set (ss_scalar st). known_namespace (ad_namespace (sv_address s))) \<and>
    (\<forall>(pk, l)\<in>set (ss_lists st). known_namespace (ad_namespace (ls_address l)))"

definition forked :: "fork_plan \<Rightarrow> (string \<Rightarrow> bool) \<Rightarrow> storage_state \<Rightarrow> storage_state" where
  "forked plan c st =
    (let es = filter (\<lambda>e. c (de_id e)) (ss_bySeq st) in
     \<lparr>ss_entries = index_of es, ss_bySeq = es, ss_scalar = kept_values plan c (ss_scalar st),
      ss_lists = kept_lists plan c (ss_lists st), ss_usage = [],
      ss_stats = \<lparr>st_messageCount = message_count es, st_usage = emptyUsage\<rparr>,
      ss_nextSeq = ss_nextSeq st\<rparr>)"

lemma createFork_forked:
  assumes inv: "storage_inv fadd st" and ok: "forkable st"
    and plan: "selectForkPlan options st = Some (Inr (plan, selected))"
  shows "createFork options st = Some (Inr (forked plan (copied plan selected) st))"
proof -
  let ?c = "copied plan selected"
  let ?dst = "fold (fork_entry ?c) (ss_bySeq st) storage_new"
  have d: "distinct (map de_id (ss_bySeq st))" and vs: "values_wf (ss_nextSeq st) (ss_scalar st)"
    and ls: "lists_wf (ss_nextSeq st) (ss_lists st)"
    using inv by (simp_all add: storage_inv_def entries_wf_def)
  note dst = fold_fork_entry [OF d, of ?c]
  have v: "foldE (fork_value plan ?c) (map snd (ss_scalar st)) ?dst =
      Inr (?dst\<lparr>ss_scalar := kept_values plan ?c (ss_scalar st)\<rparr>)"
    using foldE_fork_value [OF vs, of ?dst plan ?c] ok unfolding dst
    by (simp add: forkable_def storage_new_def)
  have l: "foldE (fork_list plan ?c) (map snd (ss_lists st)) (?dst\<lparr>ss_scalar := kept_values plan ?c (ss_scalar st)\<rparr>) =
      Inr (?dst\<lparr>ss_scalar := kept_values plan ?c (ss_scalar st), ss_lists := kept_lists plan ?c (ss_lists st)\<rparr>)"
    using foldE_fork_list [OF ls, of "?dst\<lparr>ss_scalar := kept_values plan ?c (ss_scalar st)\<rparr>" plan ?c] ok unfolding dst
    by (simp add: forkable_def storage_new_def)
  have "?dst\<lparr>ss_scalar := kept_values plan ?c (ss_scalar st), ss_lists := kept_lists plan ?c (ss_lists st),
      ss_nextSeq := ss_nextSeq st\<rparr> = forked plan ?c st"
    unfolding dst by (simp add: forked_def storage_new_def Let_def)
  with v l show ?thesis by (simp add: createFork_def plan Let_def)
qed

lemma forked_inv:
  assumes inv: "storage_inv fadd st" and closed: "closed_in (\<lambda>e. c (de_id e)) (ss_bySeq st)"
  shows "storage_inv fadd (forked plan c st)"
  using inv entries_wf_filter [OF _ closed]
  by (simp add: storage_inv_def forked_def Let_def kept_values_wf kept_lists_wf usage_wf_def sums_of_def)

section \<open>What the fork of a branch contains\<close>

text \<open>A branch that can be forked: its tip is known, and it is a configured lane.\<close>

definition lane_branch :: "string \<Rightarrow> string option \<Rightarrow> storage_state \<Rightarrow> bool" where
  "lane_branch b t st \<longleftrightarrow> NUL \<notin> set b \<and> value_of ''pi.branch.tip'' b st = Some (tip_json t) \<and>
    known_tip (ss_bySeq st) t \<and>
    value_of ''pi.lane.config'' b st \<noteq> None \<and> value_of ''pi.lane.state'' b st \<noteq> None"

lemma tip_of_json [simp]: "tip_of (tip_json t) = t"
  by (cases t) simp_all

lemma NUL_names: "NUL \<notin> set ''pi.branch.tip''" "NUL \<notin> set ''pi.lane.config''" "NUL \<notin> set ''pi.lane.state''"
  "NUL \<notin> set ''pi.entry.label''" "NUL \<notin> set ''pi.session.name''" "NUL \<notin> set ''pi.pending.assistant_frame''"
  unfolding NUL_def by code_simp+

lemma branch_address:
  assumes "NUL \<notin> set b"
  shows "branchTip b = Inr \<lparr>ad_namespace = ''pi.branch.tip'', ad_key = b, ad_kind = ValueA\<rparr>"
    "laneConfig b = Inr \<lparr>ad_namespace = ''pi.lane.config'', ad_key = b, ad_kind = ValueA\<rparr>"
    "laneState b = Inr \<lparr>ad_namespace = ''pi.lane.state'', ad_key = b, ad_kind = ValueA\<rparr>"
  unfolding branchTip_def laneConfig_def laneState_def value_at_def validateAddress_def
  by (subst if_not_P, rule list.distinct, subst if_not_P, rule NUL_names,
      simp only: if_not_P [OF assms] bindE_Inr)+

lemma selectForkPlan_branch:
  assumes wf: "tree_wf (ss_bySeq st)" and ix: "ss_entries st = index_of (ss_bySeq st)"
    and lane: "lane_branch b t st"
    and r: "case entryId of None \<Rightarrow> True | Some r \<Rightarrow> r \<in> de_id ` set (path_from (ss_bySeq st) t)"
  shows "selectForkPlan (ForkBranch b entryId pos) st =
    Some (Inr (PlanBranch b (fork_dest (ss_bySeq st) t entryId pos),
      map de_id (path_from (ss_bySeq st) (fork_dest (ss_bySeq st) t entryId pos))))"
proof -
  let ?tip = "\<lparr>ad_namespace = ''pi.branch.tip'', ad_key = b, ad_kind = ValueA\<rparr>"
  from lane have nul: "NUL \<notin> set b" and t: "known_tip (ss_bySeq st) t"
    and tip: "map_option (\<lambda>s. tip_of (sv_value s)) (getValue ?tip st) = Some t"
    and cs: "getValue \<lparr>ad_namespace = ''pi.lane.config'', ad_key = b, ad_kind = ValueA\<rparr> st \<noteq> None"
      "getValue \<lparr>ad_namespace = ''pi.lane.state'', ad_key = b, ad_kind = ValueA\<rparr> st \<noteq> None"
    by (auto simp: lane_branch_def value_of_def getValue_def)
  have sel: "selectBranchFork b entryId pos (Some t) (parent_in (ss_entries st)) =
    Some (Inr (PlanBranch b (fork_dest (ss_bySeq st) t entryId pos),
      map de_id (path_from (ss_bySeq st) (fork_dest (ss_bySeq st) t entryId pos))))"
    unfolding ix by (rule selectBranchFork_ok [OF wf t r])
  show ?thesis
    unfolding selectForkPlan_def fork_options.case branch_address(1) [OF nul] sum.case tip sel
    using cs by (simp add: branch_address [OF nul])
qed

lemma fork_dest_known:
  assumes "tree_wf es" "known_tip es t"
  shows "known_tip es (fork_dest es t entryId pos)"
proof (cases "case entryId of Some i \<Rightarrow> Some i | None \<Rightarrow> t")
  case None
  then show ?thesis by (simp add: fork_dest_def known_tip_def)
next
  case (Some r)
  show ?thesis
  proof (cases "index_of es r")
    case None
    with Some show ?thesis by (simp add: fork_dest_def known_tip_def)
  next
    case (Some e)
    with \<open>_ = Some r\<close> parent_known [OF assms(1) Some] index_of_Some [OF Some] show ?thesis
      by (auto simp: fork_dest_def known_tip_def fork_tip_def split: option.split)
  qed
qed

lemma path_closed:
  assumes wf: "tree_wf es" and d: "known_tip es d"
  shows "closed_in (\<lambda>e. de_id e \<in> de_id ` set (path_from es d)) es"
proof (cases d)
  case None
  then show ?thesis by (simp add: closed_in_def)
next
  case (Some i)
  then obtain e where e: "index_of es i = Some e" using d by (auto simp: known_tip_def)
  have inj: "x = y" if "x \<in> set es" "y \<in> set es" "de_id x = de_id y" for x y
    using that wf index_of_mem [of es] unfolding tree_wf_def by (metis option.inject)
  show ?thesis unfolding closed_in_def
  proof (intro ballI impI)
    fix y x assume y: "y \<in> set es" and "x \<in> set es" "de_id y \<in> de_id ` set (path_from es d)"
      and p: "de_parentId y = Some (de_id x)"
    then obtain z where z: "z \<in> set (lineage es i)" "de_id z = de_id y" using Some by auto
    then have "z = y" using inj lineage_set [of es i] y by blast
    with lineage_closed [OF wf e] z p show "de_id x \<in> de_id ` set (path_from es d)" using Some by simp
  qed
qed

lemma path_of_fork:
  assumes wf: "tree_wf es" and d: "known_tip es d" and P: "P = (\<lambda>e. de_id e \<in> de_id ` set (path_from es d))"
  shows "path_from (filter P es) d = path_from es d"
    and "set (filter P es) = set (path_from es d)"
proof -
  have wf': "tree_wf (filter P es)"
    using wf path_closed [OF wf d] parents_first_filter unfolding P tree_wf_def
    by (simp add: distinct_map_filter)
  have all: "\<forall>x\<in>set (path_from es d). P x" by (simp add: P)
  show "path_from (filter P es) d = path_from es d"
  proof (cases d)
    case (Some i)
    then obtain e where "index_of es i = Some e" using d by (auto simp: known_tip_def)
    from lineage_filter [OF wf wf' this] all Some show ?thesis by simp
  qed simp
  have sub: "set (path_from es d) \<subseteq> set es" using lineage_set by (cases d) auto
  have "x \<in> set (path_from es d)" if x: "x \<in> set es" and px: "P x" for x
  proof -
    obtain y where y: "y \<in> set (path_from es d)" "de_id y = de_id x" using px by (auto simp: P)
    then have "y = x" using x sub wf index_of_mem [of es] unfolding tree_wf_def
      by (metis option.inject subsetD)
    with y show ?thesis by simp
  qed
  with sub all show "set (filter P es) = set (path_from es d)" by auto
qed

text \<open>The value at an address of the fork.\<close>

lemma inv_namespace:
  assumes "storage_inv fadd st"
  shows "(pk, s) \<in> set (ss_scalar st) \<Longrightarrow> NUL \<notin> set (ad_namespace (sv_address s))"
    and "(pk, l) \<in> set (ss_lists st) \<Longrightarrow> NUL \<notin> set (ad_namespace (ls_address l))"
  using assms by (fastforce simp: storage_inv_def values_wf_def lists_wf_def valid_address_def)+

lemma map_of_kept_values:
  "distinct (map fst vs) \<Longrightarrow> map_of (kept_values plan c vs) pk =
    Option.bind (map_of vs pk) (\<lambda>s. map_option (\<lambda>w. s\<lparr>sv_value := w\<rparr>)
      (kept plan c (ad_namespace (sv_address s)) (ad_key (sv_address s)) (sv_value s)))"
proof (induction vs)
  case Nil
  show ?case by (simp add: kept_values_def List.map_filter_def)
next
  case (Cons p vs)
  obtain k s where p: "p = (k, s)" by (cases p)
  have "map_of (kept_values plan c vs) k = None"
    using Cons.prems kept_values_keys [of plan c vs] by (auto simp: p map_of_eq_None_iff)
  with Cons show ?case by (auto simp: p kept_values_Cons split: option.split)
qed

lemma forked_value:
  assumes inv: "storage_inv fadd st"
  shows "value_of ns k (forked plan c st) = Option.bind (value_of ns k st) (kept plan c ns k)"
proof (cases "map_of (ss_scalar st) (physicalKey ns k)")
  case None
  then show ?thesis using inv
    by (simp add: value_of_def forked_def Let_def map_of_kept_values storage_inv_def values_wf_def)
next
  case (Some s)
  have m: "(physicalKey ns k, s) \<in> set (ss_scalar st)" using Some by (rule map_of_SomeD)
  then have "physicalKey ns k = physicalKey (ad_namespace (sv_address s)) (ad_key (sv_address s))"
    "valid_address (ad_namespace (sv_address s)) (ad_key (sv_address s))"
    using inv by (auto simp: storage_inv_def values_wf_def)
  then have "ad_namespace (sv_address s) = ns \<and> ad_key (sv_address s) = k"
    using physicalKey_valid physicalKey_inj unfolding valid_address_def by metis
  with Some inv show ?thesis
    by (simp add: value_of_def forked_def Let_def map_of_kept_values storage_inv_def values_wf_def
        option.map_comp comp_def option.map_ident)
qed

definition list_of :: "address \<Rightarrow> list_element list \<Rightarrow> list_snapshot option" where
  "list_of a xs = (if xs = [] then None else Some \<lparr>ls_address = a, ls_elements = xs\<rparr>)"

lemma map_of_kept_lists:
  assumes "distinct (map fst ls)"
  shows "map_of (kept_lists plan c ls) pk = Option.bind (map_of ls pk) (\<lambda>l.
    list_of ((ls_address l)\<lparr>ad_kind := ListA\<rparr>) (kept_elements plan c (ls_address l) (ls_elements l)))"
  using assms
proof (induction ls)
  case Nil
  show ?case by (simp add: kept_lists_def map_filter_simps)
next
  case (Cons p ls)
  obtain k l where p: "p = (k, l)" by (cases p)
  have "map_of (kept_lists plan c ls) k = None"
    using Cons.prems kept_lists_keys [of plan c ls] by (auto simp: p map_of_eq_None_iff)
  with Cons show ?case by (auto simp: p kept_lists_Cons Let_def list_of_def)
qed

lemma kept_elements_kind: "kept_elements plan c (a\<lparr>ad_kind := x\<rparr>) xs = kept_elements plan c a xs"
  by (simp add: kept_elements_def)

text \<open>The elements of a list of the fork.\<close>

lemma kept_address: "kept_elements plan c a xs = kept_elements plan c b xs"
  if "ad_namespace a = ad_namespace b" "ad_key a = ad_key b"
  using that by (simp add: kept_elements_def)

lemma kept_elements_nil [simp]: "kept_elements plan c a [] = []"
  by (simp add: kept_elements_def List.map_filter_def)

lemma kept_elements_cases:
  assumes "\<And>v. kept plan c (ad_namespace a) (ad_key a) v = (if A then Some v else if B then Some x else if C then Some y else None)"
  shows "kept_elements plan c a xs =
    (if A then xs else if B then map (\<lambda>e. e\<lparr>le_value := x\<rparr>) xs else if C then map (\<lambda>e. e\<lparr>le_value := y\<rparr>) xs else [])"
  by (induction xs) (simp_all add: kept_elements_Cons assms)

lemma forked_list:
  assumes inv: "storage_inv fadd st"
  shows "stored_elements a (forked plan c st) = kept_elements plan c a (stored_elements a st)"
proof (cases "map_of (ss_lists st) (physicalKey (ad_namespace a) (ad_key a))")
  case None
  then show ?thesis using inv
    by (simp add: stored_elements_def forked_def Let_def map_of_kept_lists storage_inv_def lists_wf_def)
next
  case (Some l)
  then have "(physicalKey (ad_namespace a) (ad_key a), l) \<in> set (ss_lists st)" by (rule map_of_SomeD)
  then have "physicalKey (ad_namespace a) (ad_key a) = physicalKey (ad_namespace (ls_address l)) (ad_key (ls_address l))"
    "valid_address (ad_namespace (ls_address l)) (ad_key (ls_address l))"
    using inv by (auto simp: storage_inv_def lists_wf_def)
  then have "ad_namespace (ls_address l) = ad_namespace a \<and> ad_key (ls_address l) = ad_key a"
    using physicalKey_valid physicalKey_inj unfolding valid_address_def by metis
  with Some inv kept_address [of "ls_address l" a] show ?thesis
    by (simp add: stored_elements_def forked_def Let_def map_of_kept_lists storage_inv_def lists_wf_def list_of_def)
qed

lemma selectBranchFork_success:
  assumes wf: "tree_wf es" and s: "selectBranchFork b entryId pos (Some t) (parent_in (index_of es)) = Some (Inr r)"
  shows "known_tip es t \<and> (case entryId of None \<Rightarrow> True | Some r \<Rightarrow> r \<in> de_id ` set (path_from es t))"
proof (cases t)
  case None
  with s show ?thesis
    by (cases entryId) (simp_all add: selectBranchFork_def select_loop.simps [of _ _ _ None] known_tip_def)
next
  case (Some i)
  show ?thesis
  proof (cases "index_of es i")
    case None
    with s Some show ?thesis
      by (simp add: selectBranchFork_def select_loop.simps [of _ _ _ "Some i"] parent_in_def Let_def)
  next
    case e: (Some e)
    have "r' \<in> de_id ` set (lineage es i)" if "entryId = Some r'" for r'
    proof (rule ccontr)
      assume "r' \<notin> de_id ` set (lineage es i)"
      then have "\<forall>x\<in>set (lineage es i). Some r' \<noteq> Some (de_id x)" by auto
      from select_rest [OF wf e this] s Some that show False by (simp add: selectBranchFork_def Let_def)
    qed
    with Some e show ?thesis by (simp add: known_tip_def split: option.split)
  qed
qed

lemma selected_known:
  assumes wf: "tree_wf es" and s: "selectBranchFork b entryId pos tip (parent_in (index_of es)) = Some (Inr (plan, selected))"
  shows "set selected \<subseteq> de_id ` set es"
proof -
  obtain t where t: "tip = Some t" using s by (cases tip) (simp_all add: selectBranchFork_def)
  note known = selectBranchFork_success [OF wf s [unfolded t]]
  from selectBranchFork_ok [OF wf known [THEN conjunct1] known [THEN conjunct2], of b pos] s t
  have "selected = map de_id (path_from es (fork_dest es t entryId pos))" by simp
  moreover have "set (path_from es x) \<subseteq> set es" for x using lineage_set by (cases x) auto
  ultimately show ?thesis by auto
qed

lemma select_closed:
  assumes inv: "storage_inv fadd st" and s: "selectForkPlan options st = Some (Inr (plan, selected))"
  shows "closed_in (\<lambda>e. copied plan selected (de_id e)) (ss_bySeq st)"
proof (cases options)
  case ForkTree
  with s show ?thesis by (simp add: selectForkPlan_def copied_def closed_in_def)
next
  case (ForkBranch b entryId pos)
  let ?es = "ss_bySeq st"
  have wf: "tree_wf ?es" and ix: "ss_entries st = index_of ?es"
    using inv inv_tree_wf by (auto simp: storage_inv_def)
  obtain tip where tip: "selectBranchFork b entryId pos tip (parent_in (index_of ?es)) = Some (Inr (plan, selected))"
    using s ix by (auto simp: selectForkPlan_def ForkBranch bindE_eq_Inr split: sum.splits if_splits) 
  then obtain t where t: "tip = Some t" by (cases tip) (simp_all add: selectBranchFork_def)
  from selectBranchFork_success [OF wf tip [unfolded t]]
  have known: "known_tip ?es t" "case entryId of None \<Rightarrow> True | Some r \<Rightarrow> r \<in> de_id ` set (path_from ?es t)" by simp_all
  note d = fork_dest_known [OF wf known(1), of entryId pos]
  from selectBranchFork_ok [OF wf known, of b pos] tip t
  have "plan = PlanBranch b (fork_dest ?es t entryId pos)" "selected = map de_id (path_from ?es (fork_dest ?es t entryId pos))"
    by simp_all
  with path_closed [OF wf d] show ?thesis by (simp add: copied_def)
qed

section \<open>The fork of a snapshot agrees\<close>

definition source_of :: "storage_state \<Rightarrow> fork_source" where
  "source_of st = \<lparr>fs_entries = ss_bySeq st, fs_scalar = map snd (ss_scalar st), fs_complete = True\<rparr>"

lemma source_map_eq:
  "distinct (map de_id es) \<Longrightarrow> source_map es = map (\<lambda>e. (de_id e, e)) es"
proof (induction es rule: rev_induct)
  case (snoc x es)
  then have "de_id x \<notin> fst ` set (map (\<lambda>e. (de_id e, e)) es)" by auto
  with snoc show ?case by (simp add: source_map_def update_fresh)
qed (simp add: source_map_def)

lemma find_stored:
  assumes inv: "storage_inv fadd st" and ns: "NUL \<notin> set ns"
  shows "findStoredValue (map snd (ss_scalar st)) ns k = map_of (ss_scalar st) (physicalKey ns k)"
proof -
  have "findStoredValue (map snd vs) ns k = map_of vs (physicalKey ns k)"
    if "\<forall>(pk, s)\<in>set vs. pk = physicalKey (ad_namespace (sv_address s)) (ad_key (sv_address s)) \<and>
        NUL \<notin> set (ad_namespace (sv_address s))" for vs
    using that
  proof (induction vs)
    case (Cons p vs)
    obtain pk s where p: "p = (pk, s)" by (cases p)
    have "pk = physicalKey (ad_namespace (sv_address s)) (ad_key (sv_address s)) \<and> NUL \<notin> set (ad_namespace (sv_address s))"
      using Cons.prems by (simp add: p)
    then have iff: "ad_namespace (sv_address s) = ns \<and> ad_key (sv_address s) = k \<longleftrightarrow> pk = physicalKey ns k"
      using physicalKey_inj ns by metis
    have IH: "findStoredValue (map snd vs) ns k = map_of vs (physicalKey ns k)"
      by (rule Cons.IH) (use Cons.prems in \<open>meson list.set_intros(2)\<close>)
    have "findStoredValue (map snd (p # vs)) ns k =
        (if ad_namespace (sv_address s) = ns \<and> ad_key (sv_address s) = k then Some s
         else findStoredValue (map snd vs) ns k)"
      by (simp add: p findStoredValue_def)
    also have "\<dots> = map_of (p # vs) (physicalKey ns k)" unfolding iff IH by (auto simp: p)
    finally show ?case .
  qed (simp add: findStoredValue_def)
  moreover have "\<forall>(pk, s)\<in>set (ss_scalar st). pk = physicalKey (ad_namespace (sv_address s)) (ad_key (sv_address s)) \<and>
        NUL \<notin> set (ad_namespace (sv_address s))"
    using inv inv_namespace(1) [OF inv] by (auto simp: storage_inv_def values_wf_def)
  ultimately show ?thesis by blast
qed

lemma find_filter: "List.find P (filter Q xs) = List.find (\<lambda>x. Q x \<and> P x) xs"
  by (induction xs) auto

lemma map_of_selected:
  "map_of (List.map_filter (\<lambda>i. map_option (Pair i) (m i)) is) j = (if j \<in> set is then m j else None)"
  by (induction "is") (auto simp: map_filter_simps split: option.split)

lemma index_of_filtered:
  assumes "distinct (map de_id es)"
  shows "index_of (filter (\<lambda>e. c (de_id e)) es) i = (if c i then index_of es i else None)"
  using assms
proof (induction es rule: rev_induct)
  case (snoc x es)
  then have "de_id x \<notin> de_id ` set es" "de_id x \<notin> de_id ` set (filter (\<lambda>e. c (de_id e)) es)" by auto
  with snoc show ?case by (auto simp: index_of_snoc)
qed (simp add: index_of_def)

definition contents_of :: "stored_value list \<Rightarrow> (address \<times> json) list" where
  "contents_of vs = map (\<lambda>s. (sv_address s, sv_value s)) vs"

text \<open>The values of a snapshot, without the labels of entries that are not in it.\<close>

definition without_labels :: "(string \<Rightarrow> bool) \<Rightarrow> (address \<times> json) list \<Rightarrow> (address \<times> json) list" where
  "without_labels known = filter (\<lambda>(a, v). ad_namespace a = ''pi.entry.label'' \<longrightarrow> known (ad_key a))"

lemma without_labels_simps [simp]:
  "without_labels known [] = []"
  "without_labels known (p # vs) =
    (if ad_namespace (fst p) = ''pi.entry.label'' \<and> \<not> known (ad_key (fst p)) then [] else [p]) @ without_labels known vs"
  by (auto simp: without_labels_def split: prod.split)

lemma without_labels_kept:
  assumes "\<And>i. known i \<longleftrightarrow> c i \<and> known' i"
  shows "without_labels known (contents_of (map snd (kept_values plan c vs))) =
    without_labels known' (contents_of (map snd (kept_values plan c vs)))"
proof (induction vs)
  case (Cons p vs)
  have "known k \<longleftrightarrow> known' k" if "kept plan c ''pi.entry.label'' k v = Some w" for k v w
    using that assms by (auto simp: kept_def projectForkCurrentStateWrite_def split: if_splits)
  then have "kept plan c ''pi.entry.label'' k v = None" if "known k \<noteq> known' k" for k v
    using that by (cases "kept plan c ''pi.entry.label'' k v") auto
  with Cons show ?case
    by (cases p) (auto simp: kept_values_Cons contents_of_def split: option.split)
qed (simp add: kept_values_def List.map_filter_def contents_of_def)

lemma foldE_snapshot_value:
  assumes "values_wf n vs" "\<forall>(pk, s)\<in>set vs. known_namespace (ad_namespace (sv_address s))"
    and ids: "\<And>i. i \<in> set ids \<longleftrightarrow> c i \<and> known i"
  shows "\<exists>ws. foldE (snapshot_value plan ids) (map snd vs) (acc, next) = Inr (acc @ ws, next + int (length ws)) \<and>
    contents_of ws = without_labels known (contents_of (map snd (kept_values plan c vs))) \<and>
    map sv_seq ws = map (\<lambda>i. next + int i) [0..<length ws]"
  using assms(1,2)
proof (induction vs arbitrary: acc "next")
  case Nil
  show ?case by (simp add: contents_of_def kept_values_def List.map_filter_def)
next
  case (Cons p vs)
  obtain pk s where p: "p = (pk, s)" by (cases p)
  let ?ns = "ad_namespace (sv_address s)" and ?k = "ad_key (sv_address s)"
  have ok: "is_ok (projectForkCurrentStateWrite plan c ?ns ?k (sv_value s))"
    using Cons.prems(2) by (simp add: p project_ok)
  have wf: "values_wf n vs" using Cons.prems(1) by (auto simp: values_wf_def p)
  note IH = Cons.IH [OF wf]
  show ?case
  proof (cases "?ns = ''pi.entry.label'' \<and> \<not> known ?k")
    case True
    then have "projectForkCurrentStateWrite plan (\<lambda>i. i \<in> set ids) ?ns ?k (sv_value s) = Inr Omit"
      using ids by (simp add: projectForkCurrentStateWrite_def)
    then have "snapshot_value plan ids s (acc, next) = Inr (acc, next)"
      unfolding snapshot_value_def Let_def by simp
    with True IH [of acc "next"] Cons.prems(2) show ?thesis
      by (simp add: p kept_values_Cons contents_of_def split: option.split)
  next
    case False
    then have same: "projectForkCurrentStateWrite plan (\<lambda>i. i \<in> set ids) ?ns ?k v =
        projectForkCurrentStateWrite plan c ?ns ?k v" for v
      using ids by (simp add: projectForkCurrentStateWrite_def)
    show ?thesis
    proof (cases "kept plan c ?ns ?k (sv_value s)")
      case None
      with ok have "snapshot_value plan ids s (acc, next) = Inr (acc, next)"
        by (auto simp: kept_def snapshot_value_def same Let_def is_ok_iff split: projected.splits)
      with None IH [of acc "next"] Cons.prems(2) show ?thesis by (simp add: p kept_values_Cons)
    next
      case (Some w)
      have addr: "\<lparr>ad_namespace = ?ns, ad_key = ?k, ad_kind = ValueA\<rparr> = sv_address s"
        and valid: "valid_address ?ns ?k"
        using Cons.prems(1) by (cases "sv_address s"; auto simp: p values_wf_def)+
      have at: "value_at ?ns ?k = Inr (sv_address s)" using address_of_valid(1) [OF valid] addr by simp
      let ?v = "\<lparr>sv_address = sv_address s, sv_value = w, sv_seq = next\<rparr>"
      have step: "snapshot_value plan ids s (acc, next) = Inr (acc @ [?v], next + 1)"
        using Some by (auto simp: kept_def snapshot_value_def same at Let_def split: sum.splits projected.splits)
      obtain ws where ws: "foldE (snapshot_value plan ids) (map snd vs) (acc @ [?v], next + 1) =
          Inr ((acc @ [?v]) @ ws, next + 1 + int (length ws))"
        "contents_of ws = without_labels known (contents_of (map snd (kept_values plan c vs)))"
        "map sv_seq ws = map (\<lambda>i. next + 1 + int i) [0..<length ws]"
        using IH [of "acc @ [?v]" "next + 1"] Cons.prems(2) by auto
      have "map sv_seq (?v # ws) = map (\<lambda>i. next + int i) [0..<length (?v # ws)]"
        using ws(3) by (simp add: upt_conv_Cons map_Suc_upt [symmetric] comp_def add.assoc del: upt_Suc)
      with step ws Some False show ?thesis
        by (intro exI [of _ "?v # ws"]) (simp add: p kept_values_Cons contents_of_def)
    qed
  qed
qed

end
