(* ===== verification/DurableProps.thy ===== *)
theory DurableProps imports DurableLine DurableForkLaws begin

text \<open>The properties of the durable session storage, with their witnesses.\<close>

section \<open>Mutations\<close>

text \<open>
  C5. However clients and callbacks interleave on the mutation line of a fresh session, whenever no
  callback holds the line the state of the storage satisfies its invariant and is the one reached
  by running a prefix of the admitted jobs one after another, uninterrupted and in the order of
  their admission; the settled promises are exactly their results, followed by refusals of the next
  jobs with the error the line was sealed with; the other jobs still wait in order.
\<close>

theorem mutations_serialize:
  fixes l :: "'a mutation_line"
  assumes "line_reach fadd (line_new storage_new) l" "ml_running l = None"
  shows "\<exists>k m rs e.
    serial fadd (take k (ml_admitted l)) storage_new rs (ml_storage l) \<and> storage_inv fadd (ml_storage l) \<and>
    k + m \<le> length (ml_admitted l) \<and>
    ml_log l = zip [0..<k] rs @ map (\<lambda>n. (n, Inl e)) [k..<k + m] \<and> (0 < m \<longrightarrow> ml_sealed l = Some e) \<and>
    ml_queue l = map (\<lambda>n. (n, ml_admitted l ! n)) [k + m..<length (ml_admitted l)]"
proof -
  obtain k m rs where inv: "line_inv fadd storage_new l k m rs" using line_reach_inv [OF assms(1)] by blast
  then have ser: "serial fadd (take k (ml_admitted l)) storage_new rs (ml_storage l)"
    using assms(2) by (simp add: line_inv_def)
  have keeps: "storage_inv fadd (ml_storage l)" by (rule serial_keeps_inv [OF ser storage_inv_new])
  have rest: "k + m \<le> length (ml_admitted l)"
    "ml_queue l = map (\<lambda>n. (n, ml_admitted l ! n)) [k + m..<length (ml_admitted l)]"
    using inv assms(2) by (simp_all add: line_inv_def waits_def)
  show ?thesis
  proof (cases "m = 0")
    case True
    with inv have "ml_log l = zip [0..<k] rs" by (simp add: line_inv_def)
    with ser keeps rest True show ?thesis by (intro exI [of _ k] exI [of _ 0] exI [of _ rs]) simp
  next
    case False
    with inv obtain e where "ml_sealed l = Some e"
      "ml_log l = zip [0..<k] rs @ map (\<lambda>n. (n, Inl e)) [k..<k + m]"
      by (auto simp: line_inv_def)
    with ser keeps rest show ?thesis by (intro exI [of _ k] exI [of _ m] exI [of _ rs] exI [of _ e]) simp
  qed
qed

lemmas apply_eval = apply_write_def value_set_def list_append_def value_at_def list_at_def validateAddress_def
  NUL_char Let_def

text \<open>A job that names the session runs while a second one waits and is refused by the seal.\<close>

definition name_job :: "unit job" where
  "name_job = commit_job [ValueSetW ''pi.session.name'' [] (JStr ''n'')]"

definition named_line :: "unit mutation_line" where
  "named_line =
    \<lparr>ml_queue = [], ml_running = None, ml_sealed = Some SessionClosed,
     ml_storage = snd (job_commit (+) [ValueSetW ''pi.session.name'' [] (JStr ''n'')] 5 False storage_new),
     ml_admitted = [name_job, name_job], ml_log = [(0, Inr ()), (1, Inl SessionClosed)]\<rparr>"

lemma named_line_reached: "line_reach (+) (line_new storage_new) named_line"
proof -
  let ?ws = "[ValueSetW ''pi.session.name'' [] (JStr ''n'')]"
  let ?f = "\<lambda>r :: durable_error + commit_result. Done (bindE r (\<lambda>_. Inr ()))"
  let ?st = "snd (job_commit (+) ?ws 5 False storage_new)"
  let ?r = "fst (job_commit (+) ?ws 5 False storage_new)"
  have r: "bindE ?r (\<lambda>_. Inr ()) = Inr ()"
    by (simp add: job_commit_def mutator_commit_def storage_commit_def prepareCommit_def prepareStorageCommit_def
        validateCommitted_def validateCommittedWrites_def validate_write_def storage_new_def apply_eval)
  define l0 :: "unit mutation_line" where "l0 = line_new storage_new"
  define l1 where "l1 = l0\<lparr>ml_queue := [(0, name_job)], ml_admitted := [name_job]\<rparr>"
  define l2 where "l2 = l0\<lparr>ml_queue := [(0, name_job), (1, name_job)], ml_admitted := [name_job, name_job]\<rparr>"
  define l3 where "l3 = l2\<lparr>ml_queue := [(1, name_job)], ml_running := Some (0, Commit ?ws ?f, False)\<rparr>"
  define l4 where "l4 = l3\<lparr>ml_running := Some (0, ?f ?r, True), ml_storage := ?st\<rparr>"
  define l5 where "l5 = l4\<lparr>ml_sealed := Some SessionClosed\<rparr>"
  define l6 where "l6 = l5\<lparr>ml_running := None, ml_log := [(0, Inr ())]\<rparr>"
  have "line_step (+) l0 l1"
    using admit [of l0 "(+)" name_job] by (simp add: l0_def l1_def line_new_def)
  moreover have "line_step (+) l1 l2"
    using admit [of l1 "(+)" name_job] by (simp add: l0_def l1_def l2_def line_new_def)
  moreover have "line_step (+) l2 l3"
    using start [of l2 0 name_job "[(1, name_job)]" "(+)"]
    by (simp add: l0_def l2_def l3_def line_new_def name_job_def commit_job_def)
  moreover have "line_step (+) l3 l4"
    unfolding l4_def by (rule commit [where ts = 5]) (simp_all add: l3_def l0_def l2_def line_new_def)
  moreover have "line_step (+) l4 l5"
    using seal [of "(+)" l4 SessionClosed] by (simp add: l5_def l4_def l3_def l2_def l0_def line_new_def)
  moreover have "line_step (+) l5 l6"
    using release [of l5 0 "Inr ()" True "(+)"] r
    by (simp add: l6_def l5_def l4_def l3_def l2_def l0_def line_new_def)
  moreover have "line_step (+) l6 named_line"
    using refuse [of l6 1 name_job "[]" SessionClosed "(+)"]
    by (simp add: l6_def l5_def l4_def l3_def l2_def l0_def line_new_def named_line_def)
  ultimately have "line_reach (+) l0 named_line"
    by (meson reach_refl reach_step)
  then show ?thesis by (simp add: l0_def)
qed

theorem mutations_serialize_witness:
  "\<exists>k rs. serial (+) (take k [name_job, name_job]) storage_new rs (ml_storage named_line) \<and>
    storage_inv (+) (ml_storage named_line)"
  using mutations_serialize [OF named_line_reached] by (auto simp: named_line_def)

section \<open>Commits\<close>

definition written_entries :: "committed list \<Rightarrow> entry list" where
  "written_entries ws = List.map_filter cw_entry ws"

lemma after_writes_entries:
  "ss_bySeq (after_writes fadd ws st) = ss_bySeq st @ written_entries ws"
  by (induction ws arbitrary: st)
    (auto simp: written_entries_def map_filter_simps split: option.split)

lemma commitWrite_seq: "cw_seq (commitWrite w n ts) = n"
proof (cases w)
  case (EntryW e)
  then show ?thesis by (cases e) (simp add: materializeCommittedEntry_def entry.defs new_entry.defs)
next
  case (UsageW r)
  then show ?thesis by (cases r) (simp add: usage_row.defs new_usage.defs)
qed simp_all

lemma commit_writes_seqs:
  "map cw_seq (commit_writes ws n ts) = map (\<lambda>i. n + int i) [0..<length ws]"
proof (induction ws arbitrary: n)
  case (Cons w ws)
  then show ?case
    by (simp add: commitWrite_seq upt_conv_Cons map_Suc_upt [symmetric] comp_def add.assoc del: upt_Suc)
qed simp

text \<open>What a sequence of writes does to the value and to the list of an address.\<close>

fun value_write :: "string \<Rightarrow> string \<Rightarrow> committed \<Rightarrow> json option \<Rightarrow> json option" where
  "value_write n k (CValueSet seq m j v) x = (if m = n \<and> j = k then Some v else x)"
| "value_write n k (CValueDelete seq m j) x = (if m = n \<and> j = k then None else x)"
| "value_write n k w x = x"

fun list_write :: "string \<Rightarrow> string \<Rightarrow> committed \<Rightarrow> list_element list \<Rightarrow> list_element list" where
  "list_write n k (CListAppend seq m j v) xs = (if m = n \<and> j = k then xs @ [\<lparr>le_seq = seq, le_value = v\<rparr>] else xs)"
| "list_write n k (CListDelete seq m j) xs = (if m = n \<and> j = k then [] else xs)"
| "list_write n k w xs = xs"

fun cw_usage :: "committed \<Rightarrow> usage_row option" where
  "cw_usage (CUsage r) = Some r"
| "cw_usage w = None"

definition list_in :: "string \<Rightarrow> string \<Rightarrow> storage_state \<Rightarrow> list_element list" where
  "list_in n k st = stored_elements \<lparr>ad_namespace = n, ad_key = k, ad_kind = ListA\<rparr> st"

text \<open>
  All of the writes have taken effect: entries and usage rows follow the existing ones, every address
  holds what the writes to it leave, in their order, and the next sequence comes after theirs.
\<close>

definition taken_effect :: "committed list \<Rightarrow> storage_state \<Rightarrow> storage_state \<Rightarrow> bool" where
  "taken_effect ws st st' \<longleftrightarrow>
    ss_nextSeq st' = ss_nextSeq st + int (length ws) \<and>
    ss_bySeq st' = ss_bySeq st @ written_entries ws \<and>
    map snd (ss_usage st') = map snd (ss_usage st) @ List.map_filter cw_usage ws \<and>
    (\<forall>n k. value_of n k st' = fold (value_write n k) ws (value_of n k st)) \<and>
    (\<forall>n k. list_in n k st' = fold (list_write n k) ws (list_in n k st))"

lemma value_of_stored:
  assumes "storage_inv fadd st" "value_of n k st \<noteq> None"
  shows "valid_address n k"
proof -
  obtain s where "(physicalKey n k, s) \<in> set (ss_scalar st)"
    using assms(2) by (auto simp: value_of_def dest: map_of_SomeD)
  then show ?thesis using assms(1) physicalKey_valid by (fastforce simp: storage_inv_def values_wf_def)
qed

lemma list_in_stored:
  assumes "storage_inv fadd st" "map_of (ss_lists st) (physicalKey n k) \<noteq> None"
  shows "valid_address n k"
proof -
  obtain l where "(physicalKey n k, l) \<in> set (ss_lists st)"
    using assms(2) by (auto dest: map_of_SomeD)
  then show ?thesis using assms(1) physicalKey_valid by (fastforce simp: storage_inv_def lists_wf_def)
qed

lemma same_key:
  assumes "valid_address n k"
  shows "physicalKey m j = physicalKey n k \<longleftrightarrow> m = n \<and> j = k" "physicalKey n k = physicalKey m j \<longleftrightarrow> m = n \<and> j = k"
  using assms physicalKey_valid [of m j n k] physicalKey_inj [of m j n k] unfolding valid_address_def by metis+

lemma after_write_value:
  assumes inv: "storage_inv fadd st" and w: "addressed w"
  shows "value_of n k (after_write fadd w st) = value_write n k w (value_of n k st)"
proof (cases "valid_address n k")
  case True
  show ?thesis
    by (cases w) (auto simp: value_of_def after_write_def Let_def put_value_def update_conv' delete_conv' same_key [OF True])
next
  case False
  then have none: "value_of n k st = None" using value_of_stored [OF inv] by blast
  have "physicalKey n k \<noteq> physicalKey m j" "physicalKey m j \<noteq> physicalKey n k" if "valid_address m j" for m j
    using physicalKey_valid [of n k m j] that False by metis+
  with none w False show ?thesis
    by (cases w) (auto simp: value_of_def after_write_def Let_def put_value_def update_conv' delete_conv')
qed

lemma after_write_list:
  assumes inv: "storage_inv fadd st" and w: "addressed w"
  shows "list_in n k (after_write fadd w st) = list_write n k w (list_in n k st)"
proof (cases "valid_address n k")
  case True
  show ?thesis
    by (cases w) (auto simp: list_in_def stored_elements_def after_write_def Let_def put_list_def update_conv' delete_conv'
        same_key [OF True] split: option.split)
next
  case False
  then have none: "map_of (ss_lists st) (physicalKey n k) = None" using list_in_stored [OF inv] by blast
  have "physicalKey n k \<noteq> physicalKey m j" "physicalKey m j \<noteq> physicalKey n k" if "valid_address m j" for m j
    using physicalKey_valid [of n k m j] that False by metis+
  with none w False show ?thesis
    by (cases w) (auto simp: list_in_def stored_elements_def after_write_def Let_def put_list_def update_conv' delete_conv'
        split: option.split)
qed

lemma after_write_usage:
  assumes inv: "storage_inv fadd st" and w: "admissible w st"
  shows "map snd (ss_usage (after_write fadd w st)) =
    map snd (ss_usage st) @ (case cw_usage w of None \<Rightarrow> [] | Some r \<Rightarrow> [r])"
  using w inv_has_ids(2) [OF inv]
  by (cases w) (auto simp: after_write_def Let_def admissible_def validated_def update_fresh)

lemma after_writes_taken:
  assumes "storage_inv fadd st" "admissible_all fadd ws st" "map cw_seq ws = map (\<lambda>i. ss_nextSeq st + int i) [0..<length ws]"
  shows "taken_effect ws st (after_writes fadd ws st)"
  using assms
proof (induction ws arbitrary: st)
  case Nil
  show ?case by (simp add: taken_effect_def written_entries_def List.map_filter_def)
next
  case (Cons w ws)
  have w: "admissible w st" "addressed w" using Cons.prems(2) by (simp_all add: admissible_def)
  have seqs: "cw_seq w = ss_nextSeq st" "map cw_seq ws = map (\<lambda>i. ss_nextSeq (after_write fadd w st) + int i) [0..<length ws]"
    using Cons.prems(3) by (simp_all add: upt_conv_Cons map_Suc_upt [symmetric] comp_def add.assoc del: upt_Suc)
  have inv: "storage_inv fadd (after_write fadd w st)" by (rule after_write_keeps_inv [OF Cons.prems(1) w(1)])
  note rest = Cons.IH [OF inv _ seqs(2), unfolded taken_effect_def]
  show ?case
    unfolding taken_effect_def
  proof (intro conjI allI)
    show "ss_nextSeq (after_writes fadd (w # ws) st) = ss_nextSeq st + int (length (w # ws))"
      using rest Cons.prems(2) seqs(1) by simp
    show "ss_bySeq (after_writes fadd (w # ws) st) = ss_bySeq st @ written_entries (w # ws)"
      by (simp add: after_writes_entries del: after_writes_simps)
    show "map snd (ss_usage (after_writes fadd (w # ws) st)) = map snd (ss_usage st) @ List.map_filter cw_usage (w # ws)"
      using rest Cons.prems(2) after_write_usage [OF Cons.prems(1) w(1)]
      by (simp add: map_filter_simps split: option.split)
    show "value_of n k (after_writes fadd (w # ws) st) = fold (value_write n k) (w # ws) (value_of n k st)" for n k
      using rest Cons.prems(2) after_write_value [OF Cons.prems(1) w(2)] by simp
    show "list_in n k (after_writes fadd (w # ws) st) = fold (list_write n k) (w # ws) (list_in n k st)" for n k
      using rest Cons.prems(2) after_write_list [OF Cons.prems(1) w(2)] by simp
  qed
qed

lemma seqs_prefix:
  assumes "map cw_seq (us @ vs) = map (\<lambda>i. n + int i) [0..<length (us @ vs)]"
  shows "map cw_seq us = map (\<lambda>i. n + int i) [0..<length us]"
  using arg_cong [OF assms, of "take (length us)"] by (simp add: take_map)


definition note_entry :: "string \<Rightarrow> string option \<Rightarrow> new_entry" where
  "note_entry i p = \<lparr>de_id = i, de_parentId = p, de_customType = Some ''note'', de_body = CustomB None\<rparr>"

lemmas commit_eval = storage_commit_def prepareCommit_def prepareStorageCommit_def validateCommitted_def
  validateCommittedWrites_def validate_write_def storage_new_def Let_def hasEntryOrUsageId_def hasEntryId_def
  materializeCommittedEntry_def entry.defs new_entry.defs note_entry_def apply_eval


section \<open>Reads in pages\<close>

text \<open>
  C22. A scan of the branch of any known entry returns (the walk to the root ends and finds every
  parent), and asking for the same scan page by page, with the sequence of the last entry read as the
  cursor and any positive limit, returns exactly its entries, in both orders and under all filters
  and stops.
\<close>

theorem branch_reads_in_pages:
  assumes "storage_inv fadd st" "ss_entries st start = Some e" "0 < n"
  shows "\<exists>es. scanBranch start (whole q) st = Some (Inr es) \<and>
    read_pages (Suc (length es)) de_seq (branch_page (start, q, st) n) n None = es"
proof -
  have r: "readable st" by (rule inv_readable [OF assms(1)])
  let ?es = "branch_items (start, q, st)"
  have "scanBranch start (whole q) st = Some (Inr ?es)"
    using readable_scanBranch [OF r assms(2)] by (simp add: branch_items_def)
  moreover have "length ?es < Suc (length ?es) * n"
    using assms(3) by (metis lessI less_le_trans mult.commute mult_le_mono2 nat_mult_1 Suc_leI One_nat_def)
  then have "read_pages (Suc (length ?es)) de_seq (branch_page (start, q, st) n) n None = ?es"
    by (intro bp.read_pages_all) (use assms r in \<open>simp_all add: branch_valid_def\<close>)
  ultimately show ?thesis by blast
qed

definition no_query :: branch_scan where
  "no_query = \<lparr>bs_stopAtType = None, bs_stopAtId = None, bs_type = None, bs_customType = None,
     bs_order = None, bs_limit = None, bs_cursor = None\<rparr>"

definition two_notes :: storage_state where
  "two_notes = snd (storage_commit (+)
     [EntryW (note_entry ''a'' None), EntryW (note_entry ''b'' (Some ''a'')),
      ListAppendW ''pi.pending.assistant_frame'' ''o:r'' JNull,
      ListAppendW ''pi.pending.assistant_frame'' ''o:r'' (JBool True)] 7 storage_new)"

lemma two_notes_inv: "storage_inv (+) two_notes"
  unfolding two_notes_def by (rule storage_commit_keeps_inv [OF storage_inv_new])

theorem branch_reads_in_pages_witness:
  "\<exists>es. scanBranch ''b'' (whole no_query) two_notes = Some (Inr es) \<and>
    read_pages (Suc (length es)) de_seq (branch_page (''b'', no_query, two_notes) 1) 1 None = es"
proof -
  have "ss_entries two_notes ''b'' \<noteq> None" unfolding two_notes_def by (simp add: commit_eval)
  then obtain e where "ss_entries two_notes ''b'' = Some e" by blast
  from branch_reads_in_pages [OF two_notes_inv this, of 1 no_query] show ?thesis by simp
qed

text \<open>
  The loop that reads the frames of a response in progress returns, with the values of all
  elements of the list in the order in which they were appended, however many pages that takes.
\<close>

theorem frames_read_completely:
  assumes "storage_inv fadd st" "pendingAssistantFrames op resp = Inr a"
  shows "readAssistantFrames op resp st = Some (Inr (map le_value (stored_elements a st)))"
  using frames_loop_rest [OF inv_readable [OF assms(1)], of a "[]"] assms(2)
  by (simp add: readAssistantFrames_def)

theorem frames_read_completely_witness:
  "pendingAssistantFrames ''o'' ''r'' = Inr \<lparr>ad_namespace = ''pi.pending.assistant_frame'', ad_key = ''o:r'', ad_kind = ListA\<rparr> \<and>
   readAssistantFrames ''o'' ''r'' two_notes = Some (Inr [JNull, JBool True])"
proof -
  have a: "pendingAssistantFrames ''o'' ''r'' =
      Inr \<lparr>ad_namespace = ''pi.pending.assistant_frame'', ad_key = ''o:r'', ad_kind = ListA\<rparr>"
    unfolding pendingAssistantFrames_def list_at_def validateAddress_def by (simp add: NUL_char)
  have "map le_value (stored_elements
      \<lparr>ad_namespace = ''pi.pending.assistant_frame'', ad_key = ''o:r'', ad_kind = ListA\<rparr> two_notes) = [JNull, JBool True]"
    unfolding two_notes_def
    by (simp add: commit_eval stored_elements_def physicalKey_def)
  with a frames_read_completely [OF two_notes_inv a] show ?thesis by simp
qed

section \<open>Branches\<close>

definition tip_stored :: "string \<Rightarrow> string option \<Rightarrow> storage_state \<Rightarrow> bool" where
  "tip_stored b t st \<longleftrightarrow>
    NUL \<notin> set b \<and> value_of ''pi.branch.tip'' b st = Some (tip_json t) \<and> known_tip (ss_bySeq st) t"

lemma no_query_order [simp]: "bs_order no_query = None"
  by (simp add: no_query_def)

lemma scan_plain: "scan_path (no_query\<lparr>bs_order := Some NewestFirst\<rparr>) path = path"
proof -
  have "stop_after (\<lambda>e. False) xs = xs" for xs :: "entry list" by (induction xs) auto
  then show ?thesis by (simp add: scan_path_def no_query_def limited_def matches_def)
qed

lemma tip_value:
  assumes "tip_stored b t st"
  shows "\<exists>v. getValue \<lparr>ad_namespace = ''pi.branch.tip'', ad_key = b, ad_kind = ValueA\<rparr> st = Some v \<and> tip_of (sv_value v) = t"
  using assms by (auto simp: tip_stored_def value_of_def getValue_def)

lemma branch_reads_path:
  assumes inv: "storage_inv fadd (sn_storage s)" and op: "sn_status s = SOpen"
    and tip: "tip_stored b t (sn_storage s)"
  shows "branch_findEntries b None no_query s = Some (Inr (path_from (ss_bySeq (sn_storage s)) t))"
proof -
  have nul: "NUL \<notin> set b" using tip by (simp add: tip_stored_def)
  obtain v where v: "getValue \<lparr>ad_namespace = ''pi.branch.tip'', ad_key = b, ad_kind = ValueA\<rparr> (sn_storage s) = Some v"
    "tip_of (sv_value v) = t"
    using tip_value [OF tip] by blast
  then have g: "getBranchTip b s = Inr t"
    by (simp add: getBranchTip_def branch_address [OF nul] session_getValue_def whenOpen_def op)
  show ?thesis
  proof (cases t)
    case None
    with g show ?thesis by (simp add: branch_findEntries_def)
  next
    case (Some i)
    then obtain e where "ss_entries (sn_storage s) i = Some e"
      using tip inv by (auto simp: tip_stored_def known_tip_def storage_inv_def)
    from scanBranch_inv [OF inv this] g Some op show ?thesis
      by (simp add: branch_findEntries_def session_scanBranch_def scan_plain)
  qed
qed

text \<open>
  C35. Appending to a branch of an open session under a fresh identifier succeeds: the branch then
  reads as the new entry followed by what it was before, the invariant of the storage is kept, and
  every other branch reads as before.
\<close>

theorem append_grows_branch:
  assumes inv: "storage_inv fadd (sn_storage s)" and op: "sn_status s = SOpen"
    and tip: "tip_stored b t (sn_storage s)" and fresh: "\<not> hasEntryOrUsageId (sn_storage s) i"
    and settled: "\<not> pending_append e"
    and run: "appendToBranch fadd ts i b e s = (r, s')"
  shows "r = Inr i \<and> storage_inv fadd (sn_storage s') \<and> sn_status s' = SOpen \<and>
    (\<exists>x es. branch_findEntries b None no_query s = Some (Inr es) \<and>
      branch_findEntries b None no_query s' = Some (Inr (x # es)) \<and>
      de_id x = i \<and> de_body x = de_body (new_branch_entry i t e) \<and>
      (\<forall>b' t'. b' \<noteq> b \<longrightarrow> tip_stored b' t' (sn_storage s) \<longrightarrow>
        branch_findEntries b' None no_query s' = branch_findEntries b' None no_query s))"
proof -
  let ?st = "sn_storage s" and ?n = "ss_nextSeq (sn_storage s)"
  let ?ne = "new_branch_entry i t e"
  let ?tip = "CValueSet (?n + 1) ''pi.branch.tip'' b (JStr i)"
  define x where "x = materializeCommittedEntry ?ne ?n ts"
  have nul: "NUL \<notin> set b" using tip by (simp add: tip_stored_def)
  obtain v where v: "getValue \<lparr>ad_namespace = ''pi.branch.tip'', ad_key = b, ad_kind = ValueA\<rparr> ?st = Some v"
    "tip_of (sv_value v) = t"
    using tip_value [OF tip] by blast
  have x: "de_id x = i" "de_parentId x = t" "de_seq x = ?n" "de_body x = de_body ?ne"
    by (cases e; simp add: x_def materializeCommittedEntry_def entry.defs new_entry.defs)+
  define st' where "st' = after_write fadd ?tip (after_write fadd (CEntry x) ?st)"
  have ws: "commit_writes [EntryW ?ne, setValueWrite \<lparr>ad_namespace = ''pi.branch.tip'', ad_key = b, ad_kind = ValueA\<rparr> (JStr i)] ?n ts
      = [CEntry x, ?tip]"
    by (simp add: x_def setValueWrite_def)
  have "case t of None \<Rightarrow> True | Some p \<Rightarrow> hasEntryId ?st p"
    using tip inv by (auto simp: tip_stored_def known_tip_def storage_inv_def hasEntryId_def split: option.splits)
  moreover have "valid_address ''pi.branch.tip'' b" using nul NUL_names(1) by (simp add: valid_address_def)
  ultimately have adm: "admissible_all fadd [CEntry x, ?tip] ?st"
    using fresh by (simp add: admissible_def validated_def x)
  have unpending: "\<not> pending_write (EntryW ?ne)" using settled by (cases e) simp_all
  have "validateCommitted [CEntry x, ?tip] ?st = Inr ()"
    using validateCommitted_iff [of "[CEntry x, ?tip]" ?st fadd] adm by (auto simp: is_ok_iff admissible_all_iff)
  moreover have "applyValidated fadd [CEntry x, ?tip] ?st = (Inr (ss_stats st'), st')"
    using applyValidated_addressed [of "[CEntry x, ?tip]" fadd ?st] adm by (simp add: admissible_def st'_def)
  ultimately obtain res where "storage_commit fadd [EntryW ?ne,
      setValueWrite \<lparr>ad_namespace = ''pi.branch.tip'', ad_key = b, ad_kind = ValueA\<rparr> (JStr i)] ts ?st = (Inr res, st')"
    unfolding storage_commit_def prepareCommit_def prepareStorageCommit_def ws Let_def by (simp add: st'_def)
  with unpending have "run_job fadd ts (append_job b e i) False ?st = (Inr i, st')"
    by (simp add: append_job_def look_tip_def branch_address [OF nul] v job_commit_def mutator_commit_def setValueWrite_def)
  then have r: "r = Inr i" and s': "s' = s\<lparr>sn_storage := st'\<rparr>"
    using run op settled by (simp_all add: appendToBranch_def mutate_def)
  have inv': "storage_inv fadd st'"
    using after_writes_keeps_inv [OF inv adm] by (simp add: st'_def)
  have seq': "ss_bySeq st' = ss_bySeq ?st @ [x]" by (simp add: st'_def)
  have wf: "tree_wf (ss_bySeq st')" by (rule inv_tree_wf [OF inv'])
  have x_known: "index_of (ss_bySeq st') i = Some x"
    using wf x(1) index_of_mem [of "ss_bySeq st'" x] by (simp add: tree_wf_def seq')
  have value': "value_of ''pi.branch.tip'' b' st' = (if b' = b then Some (JStr i) else value_of ''pi.branch.tip'' b' ?st)" for b'
    by (simp add: st'_def value_of_def after_write_def Let_def put_value_def update_conv' physicalKey_def)
  have tip': "tip_stored b (Some i) st'"
    using x_known by (simp add: tip_stored_def nul value' known_tip_def)
  have old: "path_from (ss_bySeq st') t' = path_from (ss_bySeq ?st) t'" if "known_tip (ss_bySeq ?st) t'" for t'
  proof (cases t')
    case (Some j)
    then have "j \<in> de_id ` set (ss_bySeq ?st)" using that index_of_None [of "ss_bySeq ?st" j] by (auto simp: known_tip_def)
    moreover have "de_id x \<notin> de_id ` set (ss_bySeq ?st)" using wf by (simp add: seq' tree_wf_snoc)
    ultimately have "j \<noteq> de_id x" by metis
    with Some show ?thesis by (simp add: seq' lineage_fresh)
  qed simp
  have "path_from (ss_bySeq st') (Some i) = x # path_from (ss_bySeq ?st) t"
    using lineage_step [OF wf x_known] old [of t] tip x(2) by (simp add: tip_stored_def)
  moreover have "branch_findEntries b' None no_query s' = branch_findEntries b' None no_query s"
    if "b' \<noteq> b" and t': "tip_stored b' t' ?st" for b' t'
  proof -
    have "known_tip (ss_bySeq st') t'"
      using t' wf by (auto simp: tip_stored_def known_tip_def seq' tree_wf_snoc index_of_snoc split: option.splits)
    then have "tip_stored b' t' st'" using t' that(1) by (simp add: tip_stored_def value')
    from branch_reads_path [of fadd s' b' t'] this branch_reads_path [OF inv op t'] inv' s' op old t'
    show ?thesis by (simp add: tip_stored_def)
  qed
  ultimately show ?thesis
    using r inv' s' op x branch_reads_path [OF inv op tip] branch_reads_path [of fadd s' b "Some i"] tip' by auto
qed

definition branch_state :: storage_state where
  "branch_state = snd (storage_commit (+)
     [EntryW (note_entry ''a'' None), EntryW (note_entry ''b'' (Some ''a'')), EntryW (note_entry ''c'' (Some ''a'')),
      ValueSetW ''pi.branch.tip'' ''main'' (JStr ''b''), ValueSetW ''pi.lane.config'' ''main'' JNull,
      ValueSetW ''pi.lane.state'' ''main'' (JArr [JNull]), ValueSetW ''pi.branch.tip'' ''side'' (JStr ''c''),
      ValueSetW ''pi.pending.entry'' ''x'' JNull, ValueSetW ''app'' ''k'' (JBool True)] 7 storage_new)"

lemma branch_state_inv: "storage_inv (+) branch_state"
  unfolding branch_state_def by (rule storage_commit_keeps_inv [OF storage_inv_new])

lemma branch_state_eval:
  "branch_state =
    (let a = \<lparr>de_id = ''a'', de_parentId = None, de_customType = Some ''note'', de_body = CustomB None, de_seq = 1, de_timestamp = 7\<rparr>;
         b = \<lparr>de_id = ''b'', de_parentId = Some ''a'', de_customType = Some ''note'', de_body = CustomB None, de_seq = 2, de_timestamp = 7\<rparr>;
         c = \<lparr>de_id = ''c'', de_parentId = Some ''a'', de_customType = Some ''note'', de_body = CustomB None, de_seq = 3, de_timestamp = 7\<rparr>;
         stored = (\<lambda>ns k v seq. (physicalKey ns k, \<lparr>sv_address = \<lparr>ad_namespace = ns, ad_key = k, ad_kind = ValueA\<rparr>, sv_value = v, sv_seq = seq\<rparr>))
     in \<lparr>ss_entries = [''a'' \<mapsto> a, ''b'' \<mapsto> b, ''c'' \<mapsto> c], ss_bySeq = [a, b, c],
         ss_scalar = [stored ''pi.branch.tip'' ''main'' (JStr ''b'') 4, stored ''pi.lane.config'' ''main'' JNull 5,
           stored ''pi.lane.state'' ''main'' (JArr [JNull]) 6, stored ''pi.branch.tip'' ''side'' (JStr ''c'') 7,
           stored ''pi.pending.entry'' ''x'' JNull 8, stored ''app'' ''k'' (JBool True) 9],
         ss_lists = [], ss_usage = [], ss_stats = \<lparr>st_messageCount = 0, st_usage = emptyUsage\<rparr>, ss_nextSeq = 10\<rparr>)"
  unfolding branch_state_def
  by (simp add: commit_eval physicalKey_def de_type_def)

lemma branch_state_main: "tip_stored ''main'' (Some ''b'') branch_state"
  by (simp add: tip_stored_def NUL_char branch_state_eval Let_def value_of_def known_tip_def physicalKey_def index_of_def)

definition open_session :: durable_session where
  "open_session = \<lparr>sn_storage = branch_state, sn_status = SOpen\<rparr>"

theorem append_grows_branch_witness:
  "fst (appendToBranch (+) 9 ''d'' ''main'' (AppendCustom ''note'' None) open_session) = Inr ''d'' \<and>
   (\<exists>x es. branch_findEntries ''main'' None no_query open_session = Some (Inr es) \<and>
     branch_findEntries ''main'' None no_query
       (snd (appendToBranch (+) 9 ''d'' ''main'' (AppendCustom ''note'' None) open_session)) = Some (Inr (x # es)))"
proof -
  have "\<not> hasEntryOrUsageId (sn_storage open_session) ''d''"
    by (simp add: open_session_def branch_state_eval Let_def hasEntryOrUsageId_def)
  from append_grows_branch [OF _ _ _ this _ prod.collapse [symmetric], of "(+)" "''main''" "Some ''b''"
      "AppendCustom ''note'' None" 9]
  show ?thesis using branch_state_inv branch_state_main by (auto simp: open_session_def)
qed

section \<open>Forks\<close>

text \<open>
  C20. Forking a configured branch at or before an entry of its path succeeds, when no stored address is
  in a reserved namespace that the policy does not know, and leaves a session that satisfies the
  invariant: its branch points at the chosen entry and reads exactly as the path of that entry in the
  source, no other entries are copied, the configuration is kept and the lane is idle, names and the
  labels of copied entries are kept, and no other value is, so nothing of an operation in progress,
  no other branch and no application value. Lists follow the same policy: none is copied but one
  at the name of the session, at the label of a copied entry or at the tip, configuration or state of
  the branch (where the harness keeps no lists). No usage row is copied.
\<close>

theorem fork_copies_branch:
  fixes pos :: "fork_position option"
  assumes inv: "storage_inv fadd st" and ok: "forkable st" and lane: "lane_branch b t st"
    and r: "case entryId of None \<Rightarrow> True | Some r \<Rightarrow> r \<in> de_id ` set (path_from (ss_bySeq st) t)"
  defines "d \<equiv> fork_dest (ss_bySeq st) t entryId pos"
  shows "\<exists>dst. createFork (ForkBranch b entryId pos) st = Some (Inr dst) \<and> storage_inv fadd dst \<and>
    ss_nextSeq dst = ss_nextSeq st \<and>
    value_of ''pi.branch.tip'' b dst = Some (tip_json d) \<and>
    path_from (ss_bySeq dst) d = path_from (ss_bySeq st) d \<and>
    set (ss_bySeq dst) = set (path_from (ss_bySeq st) d) \<and>
    value_of ''pi.lane.config'' b dst = value_of ''pi.lane.config'' b st \<and>
    value_of ''pi.lane.state'' b dst = Some idle_lane_state \<and>
    value_of ''pi.session.name'' [] dst = value_of ''pi.session.name'' [] st \<and>
    (\<forall>i. value_of ''pi.entry.label'' i dst =
       (if i \<in> de_id ` set (ss_bySeq dst) then value_of ''pi.entry.label'' i st else None)) \<and>
    (\<forall>b'. b' \<noteq> b \<longrightarrow> value_of ''pi.branch.tip'' b' dst = None \<and> value_of ''pi.lane.config'' b' dst = None \<and>
       value_of ''pi.lane.state'' b' dst = None) \<and>
    (\<forall>ns k. ns \<notin> {''pi.session.name'', ''pi.entry.label'', ''pi.branch.tip'',
       ''pi.lane.config'', ''pi.lane.state''} \<longrightarrow> value_of ns k dst = None) \<and>
    (\<forall>ns k. list_in ns k dst =
       (if ns = ''pi.session.name'' \<or> ns = ''pi.entry.label'' \<and> k \<in> de_id ` set (ss_bySeq dst) \<or>
           ns = ''pi.lane.config'' \<and> k = b then list_in ns k st
        else if ns = ''pi.branch.tip'' \<and> k = b then map (\<lambda>x. x\<lparr>le_value := tip_json d\<rparr>) (list_in ns k st)
        else if ns = ''pi.lane.state'' \<and> k = b then map (\<lambda>x. x\<lparr>le_value := idle_lane_state\<rparr>) (list_in ns k st)
        else [])) \<and>
    ss_usage dst = []"
proof -
  let ?es = "ss_bySeq st"
  let ?plan = "PlanBranch b d" and ?sel = "map de_id (path_from ?es d)"
  let ?c = "copied ?plan ?sel"
  have wf: "tree_wf ?es" and ix: "ss_entries st = index_of ?es"
    using inv_tree_wf [OF inv] inv by (simp_all add: storage_inv_def)
  have t: "known_tip ?es t" using lane by (simp add: lane_branch_def)
  have known: "known_tip ?es d" unfolding d_def by (rule fork_dest_known [OF wf t])
  have plan: "selectForkPlan (ForkBranch b entryId pos) st = Some (Inr (?plan, ?sel))"
    unfolding d_def by (rule selectForkPlan_branch [OF wf ix lane r])
  define dst where "dst = forked ?plan ?c st"
  have fork: "createFork (ForkBranch b entryId pos) st = Some (Inr dst)"
    unfolding dst_def by (rule createFork_forked [OF inv ok plan])
  have c: "(\<lambda>e. ?c (de_id e)) = (\<lambda>e. de_id e \<in> de_id ` set (path_from ?es d))"
    by (auto simp: copied_def)
  have inv': "storage_inv fadd dst"
    unfolding dst_def using path_closed [OF wf known] by (intro forked_inv [OF inv]) (simp only: c)
  note path = path_of_fork [OF wf known c]
  have es': "ss_bySeq dst = filter (\<lambda>e. ?c (de_id e)) ?es" by (simp add: dst_def forked_def Let_def)
  have rest: "ss_usage dst = []" "ss_nextSeq dst = ss_nextSeq st" by (simp_all add: dst_def forked_def Let_def)
  note val = forked_value [OF inv, of _ _ ?plan ?c, folded dst_def]
  note policy = kept_def projectForkCurrentStateWrite_def
  have lookup: "value_of ''pi.branch.tip'' b st = Some (tip_json t)"
    "value_of ''pi.lane.state'' b st \<noteq> None"
    using lane by (simp_all add: lane_branch_def)
  have vals: "value_of ''pi.branch.tip'' b dst = Some (tip_json d)"
    "value_of ''pi.lane.config'' b dst = value_of ''pi.lane.config'' b st"
    "value_of ''pi.lane.state'' b dst = Some idle_lane_state"
    "value_of ''pi.session.name'' [] dst = value_of ''pi.session.name'' [] st"
    using lookup by (auto simp: val policy bind_eq_Some_conv split: Option.bind_splits)
  have labels: "value_of ''pi.entry.label'' i dst =
      (if i \<in> de_id ` set (ss_bySeq dst) then value_of ''pi.entry.label'' i st else None)" for i
    using path(2) by (auto simp: val policy es' copied_def split: Option.bind_splits)
  have tips: "value_of ''pi.branch.tip'' b' dst = None \<and> value_of ''pi.lane.config'' b' dst = None \<and>
      value_of ''pi.lane.state'' b' dst = None" if "b' \<noteq> b" for b'
    using that by (auto simp: val policy split: Option.bind_splits)
  have others: "value_of ns k dst = None" if
    "ns \<notin> {''pi.session.name'', ''pi.entry.label'', ''pi.branch.tip'', ''pi.lane.config'', ''pi.lane.state''}" for ns k
    using that by (auto simp: val policy split: Option.bind_splits)
  have lists: "list_in ns k dst =
       (if ns = ''pi.session.name'' \<or> ns = ''pi.entry.label'' \<and> k \<in> de_id ` set (ss_bySeq dst) \<or>
           ns = ''pi.lane.config'' \<and> k = b then list_in ns k st
        else if ns = ''pi.branch.tip'' \<and> k = b then map (\<lambda>x. x\<lparr>le_value := tip_json d\<rparr>) (list_in ns k st)
        else if ns = ''pi.lane.state'' \<and> k = b then map (\<lambda>x. x\<lparr>le_value := idle_lane_state\<rparr>) (list_in ns k st)
        else [])" for ns k
  proof -
    have c': "?c k \<longleftrightarrow> k \<in> de_id ` set (ss_bySeq dst)" using path(2) by (auto simp: es' copied_def)
    have pol: "kept ?plan ?c ns k v =
       (if ns = ''pi.session.name'' \<or> ns = ''pi.entry.label'' \<and> k \<in> de_id ` set (ss_bySeq dst) \<or>
           ns = ''pi.lane.config'' \<and> k = b then Some v
        else if ns = ''pi.branch.tip'' \<and> k = b then Some (tip_json d)
        else if ns = ''pi.lane.state'' \<and> k = b then Some idle_lane_state else None)" for v
      using c' by (simp add: policy)
    have lst: "list_in ns k dst = kept_elements ?plan ?c \<lparr>ad_namespace = ns, ad_key = k, ad_kind = ListA\<rparr> (list_in ns k st)"
      unfolding list_in_def dst_def by (rule forked_list [OF inv])
    show ?thesis unfolding lst by (rule kept_elements_cases) (simp only: pol address.simps)
  qed
  have paths: "path_from (ss_bySeq dst) d = path_from ?es d" "set (ss_bySeq dst) = set (path_from ?es d)"
    using path by (simp_all add: es')
  show ?thesis
  proof (intro exI [of _ dst] conjI)
    show "\<forall>b'. b' \<noteq> b \<longrightarrow> value_of ''pi.branch.tip'' b' dst = None \<and> value_of ''pi.lane.config'' b' dst = None \<and>
       value_of ''pi.lane.state'' b' dst = None" using tips by blast
    show "\<forall>ns k. ns \<notin> {''pi.session.name'', ''pi.entry.label'', ''pi.branch.tip'', ''pi.lane.config'', ''pi.lane.state''} \<longrightarrow>
      value_of ns k dst = None" using others by blast
  qed (rule fork inv' rest vals paths | rule allI, rule labels | intro allI, rule lists)+
qed

lemma branch_state_forkable: "forkable branch_state" "lane_branch ''main'' (Some ''b'') branch_state"
proof -
  show "forkable branch_state"
    by (simp add: forkable_def branch_state_eval Let_def known_namespace_def projectForkCurrentStateWrite_def starts_with_def)
  show "lane_branch ''main'' (Some ''b'') branch_state"
    by (simp add: lane_branch_def NUL_char branch_state_eval Let_def value_of_def known_tip_def physicalKey_def index_of_def)
qed

theorem fork_copies_branch_witness:
  "\<exists>dst. createFork (ForkBranch ''main'' None (Some Before)) branch_state = Some (Inr dst) \<and>
    storage_inv (+) dst \<and> value_of ''pi.branch.tip'' ''main'' dst = Some (JStr ''a'') \<and>
    map de_id (path_from (ss_bySeq dst) (Some ''a'')) = [''a'']"
proof -
  have d: "fork_dest (ss_bySeq branch_state) (Some ''b'') None (Some Before) = Some ''a''"
    by (simp add: fork_dest_def branch_state_eval Let_def index_of_def fork_tip_def)
  have p: "map de_id (path_from (ss_bySeq branch_state) (Some ''a'')) = [''a'']"
    by (simp add: branch_state_eval Let_def lineage_def)
  show ?thesis
    using fork_copies_branch [OF branch_state_inv branch_state_forkable, of None "Some Before"] p
    unfolding d by auto
qed


text \<open>A label of an entry that does not exist is what the two forks of a tree disagree on.\<close>

definition labelled_state :: storage_state where
  "labelled_state = snd (storage_commit (+)
     [EntryW (note_entry ''a'' None), ValueSetW ''pi.entry.label'' ''a'' JNull, ValueSetW ''pi.entry.label'' ''zz'' JNull]
     7 storage_new)"

lemma labelled_state_inv: "storage_inv (+) labelled_state"
  unfolding labelled_state_def by (rule storage_commit_keeps_inv [OF storage_inv_new])


end
