(* ===== verification/Compaction.thy ===== *)
theory Compaction imports DurableSession begin

text \<open>
  The compaction of a branch (\<open>packages/agent/src/harness/compaction/compaction.ts\<close> and
  \<open>utils.ts\<close>): estimates of the size of a context, the choice of the first entry that is kept, and
  the preparation of a summary. \<open>JSON.stringify\<close> is the parameter \<open>stringify\<close>. An index that may be
  -1 is an option, a \<open>Set\<close> of paths the list of its elements in insertion order, and the length of
  a string is that of its list of characters.
\<close>

section \<open>Estimates\<close>

text \<open>A loop \<open>for (let i = k - 1; i >= start; i--)\<close> that returns at the first hit.\<close>

fun scan_down :: "nat \<Rightarrow> (nat \<Rightarrow> 'a option) \<Rightarrow> nat \<Rightarrow> 'a option" where
  "scan_down start f 0 = None"
| "scan_down start f (Suc k) =
    (if k < start then None else case f k of Some x \<Rightarrow> Some x | None \<Rightarrow> scan_down start f k)"

definition calculateContextTokens :: "usage \<Rightarrow> nat" where
  "calculateContextTokens u =
    (if us_totalTokens u \<noteq> 0 then us_totalTokens u
     else us_input u + us_output u + us_cacheRead u + us_cacheWrite u)"

fun getAssistantUsage :: "coding_message \<Rightarrow> usage option" where
  "getAssistantUsage (Core (Assistant m)) =
    (if am_stopReason m \<noteq> Aborted \<and> am_stopReason m \<noteq> Error \<and> 0 < calculateContextTokens (am_usage m)
     then Some (am_usage m) else None)"
| "getAssistantUsage _ = None"

fun entry_message :: "entry_body \<Rightarrow> coding_message option" where
  "entry_message (MessageB m t) = Some m"
| "entry_message _ = None"

definition getLastAssistantUsage :: "entry list \<Rightarrow> usage option" where
  "getLastAssistantUsage es =
    scan_down 0 (\<lambda>i. Option.bind (entry_message (de_body (es ! i))) getAssistantUsage) (length es)"

definition getLastAssistantUsageInfo :: "coding_message list \<Rightarrow> (usage \<times> nat) option" where
  "getLastAssistantUsageInfo ms =
    scan_down 0 (\<lambda>i. map_option (\<lambda>u. (u, i)) (getAssistantUsage (ms ! i))) (length ms)"

definition ESTIMATED_IMAGE_CHARS :: nat where
  "ESTIMATED_IMAGE_CHARS = 4800"

fun block_chars :: "block \<Rightarrow> nat" where
  "block_chars (TextB t) = length (tx_text t)"
| "block_chars (ImageB i) = ESTIMATED_IMAGE_CHARS"

fun estimateTextAndImageContentChars :: "user_content \<Rightarrow> nat" where
  "estimateTextAndImageContentChars (Plain s) = length s"
| "estimateTextAndImageContentChars (Blocks bs) = sum_list (map block_chars bs)"

fun ablock_chars :: "(json \<Rightarrow> string) \<Rightarrow> ablock \<Rightarrow> nat" where
  "ablock_chars stringify (ATextB t) = length (tx_text t)"
| "ablock_chars stringify (AThinkingB t) = length (th_thinking t)"
| "ablock_chars stringify (AToolCallB c) = length (tc_name c) + length (stringify (tc_arguments c))"

fun message_chars :: "(json \<Rightarrow> string) \<Rightarrow> coding_message \<Rightarrow> nat" where
  "message_chars stringify (Core (User m)) = estimateTextAndImageContentChars (um_content m)"
| "message_chars stringify (Core (Assistant m)) = sum_list (map (ablock_chars stringify) (am_content m))"
| "message_chars stringify (Core (ToolResult m)) = estimateTextAndImageContentChars (Blocks (tr_content m))"
| "message_chars stringify (CustomMsg c) = estimateTextAndImageContentChars (cu_content c)"
| "message_chars stringify (BashExecution b) = length (be_command b) + length (be_output b)"
| "message_chars stringify (BranchSummary b) = length (bm_summary b)"
| "message_chars stringify (CompactionSummary c) = length (cm_summary c)"
| "message_chars stringify (Unlisted r c) = 0"

text \<open>\<open>Math.ceil(chars / 4)\<close>.\<close>

definition estimateTokens :: "(json \<Rightarrow> string) \<Rightarrow> coding_message \<Rightarrow> nat" where
  "estimateTokens stringify m = (message_chars stringify m + 3) div 4"

record context_estimate =
  ce_tokens :: nat
  ce_usageTokens :: nat
  ce_trailingTokens :: nat
  ce_lastUsageIndex :: "nat option"

definition estimateContextTokens :: "(json \<Rightarrow> string) \<Rightarrow> coding_message list \<Rightarrow> context_estimate" where
  "estimateContextTokens stringify ms =
    (case getLastAssistantUsageInfo ms of
       None \<Rightarrow>
         let estimated = sum_list (map (estimateTokens stringify) ms)
         in \<lparr>ce_tokens = estimated, ce_usageTokens = 0, ce_trailingTokens = estimated, ce_lastUsageIndex = None\<rparr>
     | Some (u, i) \<Rightarrow>
         let usageTokens = calculateContextTokens u;
             trailing = sum_list (map (estimateTokens stringify) (drop (i + 1) ms))
         in \<lparr>ce_tokens = usageTokens + trailing, ce_usageTokens = usageTokens,
             ce_trailingTokens = trailing, ce_lastUsageIndex = Some i\<rparr>)"

record compaction_settings =
  cs_enabled :: bool
  cs_reserveTokens :: nat
  cs_keepRecentTokens :: nat

definition DEFAULT_COMPACTION_SETTINGS :: compaction_settings where
  "DEFAULT_COMPACTION_SETTINGS = \<lparr>cs_enabled = True, cs_reserveTokens = 16384, cs_keepRecentTokens = 20000\<rparr>"

definition shouldCompact :: "nat \<Rightarrow> nat \<Rightarrow> compaction_settings \<Rightarrow> bool" where
  "shouldCompact contextTokens contextWindow settings =
    (if \<not> cs_enabled settings then False
     else int contextTokens > int contextWindow - int (cs_reserveTokens settings))"

section \<open>The cut point\<close>

fun is_tool_result :: "coding_message \<Rightarrow> bool" where
  "is_tool_result (Core (ToolResult m)) = True"
| "is_tool_result _ = False"

fun unlisted_message :: "coding_message \<Rightarrow> bool" where
  "unlisted_message (Unlisted r c) = True"
| "unlisted_message _ = False"

fun valid_cut :: "entry_body \<Rightarrow> bool" where
  "valid_cut (MessageB m t) = (\<not> is_tool_result m \<and> \<not> unlisted_message m)"
| "valid_cut (BranchSummaryB f s d u h) = True"
| "valid_cut _ = False"

definition findValidCutPoints :: "entry list \<Rightarrow> nat \<Rightarrow> nat \<Rightarrow> nat list" where
  "findValidCutPoints es startIndex endIndex = filter (\<lambda>i. valid_cut (de_body (es ! i))) [startIndex..<endIndex]"

fun starts_turn :: "entry_body \<Rightarrow> bool" where
  "starts_turn (BranchSummaryB f s d u h) = True"
| "starts_turn (MessageB (Core (User m)) t) = True"
| "starts_turn (MessageB (BashExecution b) t) = True"
| "starts_turn _ = False"

definition findTurnStartIndex :: "entry list \<Rightarrow> nat \<Rightarrow> nat \<Rightarrow> nat option" where
  "findTurnStartIndex es entryIndex startIndex =
    scan_down startIndex (\<lambda>i. if starts_turn (de_body (es ! i)) then Some i else None) (Suc entryIndex)"

record cut_point =
  cut_firstKeptEntryIndex :: nat
  cut_turnStartIndex :: "nat option"
  cut_isSplitTurn :: bool

text \<open>
  The loop that adds up the messages from the end, until they reach the budget: the index it stops
  at, for the tokens added up so far.
\<close>

fun reach_budget :: "(json \<Rightarrow> string) \<Rightarrow> entry list \<Rightarrow> nat \<Rightarrow> nat \<Rightarrow> nat \<Rightarrow> nat \<Rightarrow> nat option" where
  "reach_budget stringify es startIndex keep acc 0 = None"
| "reach_budget stringify es startIndex keep acc (Suc k) =
    (if k < startIndex then None
     else case entry_message (de_body (es ! k)) of
       None \<Rightarrow> reach_budget stringify es startIndex keep acc k
     | Some m \<Rightarrow>
         let acc = acc + estimateTokens stringify m
         in if keep \<le> acc then Some k else reach_budget stringify es startIndex keep acc k)"

text \<open>The loop that moves the cut back over entries that are neither messages nor compactions.\<close>

fun move_back :: "entry list \<Rightarrow> nat \<Rightarrow> nat \<Rightarrow> nat" where
  "move_back es startIndex 0 = 0"
| "move_back es startIndex (Suc c) =
    (if Suc c \<le> startIndex then Suc c
     else if de_type (es ! c) = CompactionT \<or> de_type (es ! c) = MessageT then Suc c
     else move_back es startIndex c)"

definition chosen_cut :: "(json \<Rightarrow> string) \<Rightarrow> entry list \<Rightarrow> nat \<Rightarrow> nat \<Rightarrow> nat \<Rightarrow> nat list \<Rightarrow> nat" where
  "chosen_cut stringify es startIndex endIndex keep cutPoints =
    (case reach_budget stringify es startIndex keep 0 endIndex of
       None \<Rightarrow> hd cutPoints
     | Some i \<Rightarrow> (case List.find (\<lambda>c. i \<le> c) cutPoints of None \<Rightarrow> hd cutPoints | Some c \<Rightarrow> c))"

fun user_entry :: "entry_body \<Rightarrow> bool" where
  "user_entry (MessageB (Core (User m)) t) = True"
| "user_entry _ = False"

definition findCutPoint :: "(json \<Rightarrow> string) \<Rightarrow> entry list \<Rightarrow> nat \<Rightarrow> nat \<Rightarrow> nat \<Rightarrow> cut_point" where
  "findCutPoint stringify es startIndex endIndex keepRecentTokens =
    (let cutPoints = findValidCutPoints es startIndex endIndex in
     if cutPoints = []
     then \<lparr>cut_firstKeptEntryIndex = startIndex, cut_turnStartIndex = None, cut_isSplitTurn = False\<rparr>
     else
       let cutIndex = move_back es startIndex
             (chosen_cut stringify es startIndex endIndex keepRecentTokens cutPoints);
           isUserMessage = user_entry (de_body (es ! cutIndex));
           turnStartIndex = (if isUserMessage then None else findTurnStartIndex es cutIndex startIndex)
       in \<lparr>cut_firstKeptEntryIndex = cutIndex, cut_turnStartIndex = turnStartIndex,
           cut_isSplitTurn = (\<not> isUserMessage \<and> turnStartIndex \<noteq> None)\<rparr>)"

section \<open>File operations\<close>

record file_operations =
  fo_read :: "string list"
  fo_written :: "string list"
  fo_edited :: "string list"

definition createFileOps :: file_operations where
  "createFileOps = \<lparr>fo_read = [], fo_written = [], fo_edited = []\<rparr>"

definition set_add :: "'a \<Rightarrow> 'a list \<Rightarrow> 'a list" where
  "set_add x s = (if x \<in> set s then s else s @ [x])"

fun tool_path :: "json \<Rightarrow> string option" where
  "tool_path (JObj kvs) = (case map_of kvs ''path'' of Some (JStr p) \<Rightarrow> if p = [] then None else Some p | _ \<Rightarrow> None)"
| "tool_path _ = None"

fun extract_block :: "ablock \<Rightarrow> file_operations \<Rightarrow> file_operations" where
  "extract_block (AToolCallB c) ops =
    (case tool_path (tc_arguments c) of
       None \<Rightarrow> ops
     | Some p \<Rightarrow>
         if tc_name c = ''read'' then ops\<lparr>fo_read := set_add p (fo_read ops)\<rparr>
         else if tc_name c = ''write'' then ops\<lparr>fo_written := set_add p (fo_written ops)\<rparr>
         else if tc_name c = ''edit'' then ops\<lparr>fo_edited := set_add p (fo_edited ops)\<rparr>
         else ops)"
| "extract_block _ ops = ops"

fun extractFileOpsFromMessage :: "coding_message \<Rightarrow> file_operations \<Rightarrow> file_operations" where
  "extractFileOpsFromMessage (Core (Assistant m)) ops = fold extract_block (am_content m) ops"
| "extractFileOpsFromMessage _ ops = ops"

text \<open>The strings in the array that a property of the details of an entry holds.\<close>

fun json_string :: "json \<Rightarrow> string option" where
  "json_string (JStr s) = Some s"
| "json_string _ = None"

definition detail_paths :: "string \<Rightarrow> json option \<Rightarrow> string list" where
  "detail_paths k details =
    (case details of
       Some (JObj kvs) \<Rightarrow> (case map_of kvs k of Some (JArr xs) \<Rightarrow> List.map_filter json_string xs | _ \<Rightarrow> [])
     | _ \<Rightarrow> [])"

definition add_details :: "json option \<Rightarrow> file_operations \<Rightarrow> file_operations" where
  "add_details details ops =
    ops\<lparr>fo_read := fold set_add (detail_paths ''readFiles'' details) (fo_read ops),
        fo_edited := fold set_add (detail_paths ''modifiedFiles'' details) (fo_edited ops)\<rparr>"

fun compaction_details :: "entry_body \<Rightarrow> json option" where
  "compaction_details (CompactionB s r n d u h) = d"
| "compaction_details _ = None"

definition extractFileOperations :: "coding_message list \<Rightarrow> entry list \<Rightarrow> nat option \<Rightarrow> file_operations" where
  "extractFileOperations ms es prevCompactionIndex =
    fold extractFileOpsFromMessage ms
      (case prevCompactionIndex of
         None \<Rightarrow> createFileOps
       | Some i \<Rightarrow> add_details (compaction_details (de_body (es ! i))) createFileOps)"

text \<open>The default order of \<open>sort\<close> is by code units.\<close>

definition computeFileLists :: "file_operations \<Rightarrow> string list \<times> string list" where
  "computeFileLists ops =
    (let modified = fold set_add (fo_written ops) (fold set_add (fo_edited ops) []);
         readOnly = sort_by compareKeys (filter (\<lambda>f. f \<notin> set modified) (fo_read ops))
     in (readOnly, sort_by compareKeys modified))"

section \<open>Preparation\<close>

definition getMessageFromEntry :: "entry \<Rightarrow> coding_message option" where
  "getMessageFromEntry e =
    (case de_body e of
       MessageB m t \<Rightarrow> Some m
     | BranchSummaryB fromId summary d u h \<Rightarrow>
         Some (BranchSummary \<lparr>bm_summary = summary, bm_fromId = fromId, bm_timestamp = nat (de_timestamp e)\<rparr>)
     | CompactionB summary r tokensBefore d u h \<Rightarrow>
         Some (CompactionSummary \<lparr>cm_summary = summary, cm_tokensBefore = tokensBefore,
                                  cm_timestamp = nat (de_timestamp e)\<rparr>)
     | CustomB d \<Rightarrow> None)"

definition getMessageFromEntryForCompaction :: "entry \<Rightarrow> coding_message option" where
  "getMessageFromEntryForCompaction e = (if de_type e = CompactionT then None else getMessageFromEntry e)"

fun coding_timestamp :: "coding_message \<Rightarrow> nat" where
  "coding_timestamp (Core (User m)) = um_timestamp m"
| "coding_timestamp (Core (Assistant m)) = am_timestamp m"
| "coding_timestamp (Core (ToolResult m)) = tr_timestamp m"
| "coding_timestamp (BashExecution b) = be_timestamp b"
| "coding_timestamp (CustomMsg c) = cu_timestamp c"
| "coding_timestamp (BranchSummary b) = bm_timestamp b"
| "coding_timestamp (CompactionSummary c) = cm_timestamp c"
| "coding_timestamp (Unlisted r c) = cu_timestamp c"

definition retained_id :: "entry \<Rightarrow> nat \<Rightarrow> string" where
  "retained_id prev index = de_id prev @ '':retained:'' @ show_nat index"

definition virtual_retained :: "entry \<Rightarrow> nat \<times> coding_message \<Rightarrow> entry" where
  "virtual_retained prev = (\<lambda>(index, message).
    \<lparr>de_id = retained_id prev index,
     de_parentId = Some (if index = 0 then de_id prev else retained_id prev (index - 1)),
     de_customType = None, de_body = MessageB message False, de_seq = de_seq prev,
     de_timestamp = int (coding_timestamp message)\<rparr>)"

fun retained_of :: "entry_body \<Rightarrow> coding_message list" where
  "retained_of (CompactionB s r n d u h) = r"
| "retained_of _ = []"

fun summary_of :: "entry_body \<Rightarrow> string option" where
  "summary_of (CompactionB s r n d u h) = Some s"
| "summary_of _ = None"

definition compactable :: "entry list \<Rightarrow> nat option \<Rightarrow> entry list" where
  "compactable path prevCompactionIndex =
    (case prevCompactionIndex of
       None \<Rightarrow> path
     | Some i \<Rightarrow> map (virtual_retained (path ! i)) (List.enumerate 0 (retained_of (de_body (path ! i))))
                @ drop (i + 1) path)"

record compaction_preparation =
  cp_messagesToSummarize :: "coding_message list"
  cp_turnPrefixMessages :: "coding_message list"
  cp_retainedTail :: "coding_message list"
  cp_isSplitTurn :: bool
  cp_tokensBefore :: nat
  cp_previousSummary :: "string option"
  cp_fileOps :: file_operations
  cp_settings :: compaction_settings

definition messages_between :: "nat \<Rightarrow> nat \<Rightarrow> entry list \<Rightarrow> coding_message list" where
  "messages_between i j es = List.map_filter getMessageFromEntryForCompaction (slice i j es)"

definition prepareCompaction ::
  "(json \<Rightarrow> string) \<Rightarrow> entry list \<Rightarrow> compaction_settings \<Rightarrow> compaction_preparation option" where
  "prepareCompaction stringify path settings =
    (if path = [] \<or> de_type (last path) = CompactionT then None
     else
       let prev = last_compaction path (length path);
           previousSummary = Option.bind prev (\<lambda>i. summary_of (de_body (path ! i)));
           es = compactable path prev;
           boundaryEnd = length es;
           tokensBefore = ce_tokens (estimateContextTokens stringify
             (concat (map sessionEntryToContextMessages (buildContextEntries path))));
           cut = findCutPoint stringify es 0 boundaryEnd (cs_keepRecentTokens settings);
           kept = cut_firstKeptEntryIndex cut;
           turnStart = or_else (cut_turnStartIndex cut) kept;
           historyEnd = (if cut_isSplitTurn cut then turnStart else kept);
           messagesToSummarize = messages_between 0 historyEnd es;
           turnPrefixMessages = (if cut_isSplitTurn cut then messages_between turnStart kept es else []);
           retainedTail = messages_between kept boundaryEnd es;
           fileOps = extractFileOperations messagesToSummarize path prev
       in Some \<lparr>cp_messagesToSummarize = messagesToSummarize, cp_turnPrefixMessages = turnPrefixMessages,
            cp_retainedTail = retainedTail, cp_isSplitTurn = cut_isSplitTurn cut,
            cp_tokensBefore = tokensBefore, cp_previousSummary = previousSummary,
            cp_fileOps = (if cut_isSplitTurn cut then fold extractFileOpsFromMessage turnPrefixMessages fileOps
                          else fileOps),
            cp_settings = settings\<rparr>)"

end
