(* ===== verification/Summaries.thy ===== *)
theory Summaries imports Compaction Effects begin

text \<open>
  The summaries of compactions and abandoned branches: the text of a conversation
  (\<open>compaction/utils.ts\<close>), the requests that ask a model for a summary (\<open>compaction.ts\<close>), and the
  entries and messages of a branch that is left (\<open>branch-summarization.ts\<close>). A request is an action
  on the world that may throw; the clock reads the world.
\<close>

section \<open>Text of a conversation\<close>

text \<open>\<open>parts.join(separator)\<close>.\<close>

fun join :: "string \<Rightarrow> string list \<Rightarrow> string" where
  "join separator [] = []"
| "join separator [s] = s"
| "join separator (s # ss) = s @ separator @ join separator ss"

fun block_text :: "block \<Rightarrow> string option" where
  "block_text (TextB t) = Some (tx_text t)"
| "block_text (ImageB i) = None"

fun ablock_text :: "ablock \<Rightarrow> string option" where
  "ablock_text (ATextB t) = Some (tx_text t)"
| "ablock_text _ = None"

text \<open>\<open>contentText\<close>, of the content of a user or tool message and of an assistant's blocks.\<close>

fun contentText :: "string \<Rightarrow> user_content \<Rightarrow> string" where
  "contentText separator (Plain s) = s"
| "contentText separator (Blocks bs) = join separator (List.map_filter block_text bs)"

definition assistantText :: "string \<Rightarrow> ablock list \<Rightarrow> string" where
  "assistantText separator bs = join separator (List.map_filter ablock_text bs)"

definition TOOL_RESULT_MAX_CHARS :: nat where
  "TOOL_RESULT_MAX_CHARS = 2000"

definition truncateForSummary :: "string \<Rightarrow> nat \<Rightarrow> string" where
  "truncateForSummary s maxChars =
    (if length s \<le> maxChars then s
     else take maxChars s @ [newline, newline] @ ''[... '' @ show_nat (length s - maxChars)
          @ '' more characters truncated]'')"

fun thinking_text :: "ablock \<Rightarrow> string option" where
  "thinking_text (AThinkingB t) = Some (th_thinking t)"
| "thinking_text _ = None"

fun object_entries :: "json \<Rightarrow> (string \<times> json) list" where
  "object_entries (JObj kvs) = kvs"
| "object_entries _ = []"

fun tool_call_text :: "(json \<Rightarrow> string) \<Rightarrow> ablock \<Rightarrow> string option" where
  "tool_call_text stringify (AToolCallB c) =
    Some (tc_name c @ ''('' @ join '', '' (map (\<lambda>(k, v). k @ ''='' @ stringify v) (object_entries (tc_arguments c))) @ '')'')"
| "tool_call_text stringify _ = None"

fun conversation_parts :: "(json \<Rightarrow> string) \<Rightarrow> message \<Rightarrow> string list" where
  "conversation_parts stringify (User m) =
    (let content = contentText [] (um_content m) in if content \<noteq> [] then [''[User]: '' @ content] else [])"
| "conversation_parts stringify (Assistant m) =
    (let thinkingParts = List.map_filter thinking_text (am_content m);
         toolCalls = List.map_filter (tool_call_text stringify) (am_content m)
     in (if thinkingParts \<noteq> [] then [''[Assistant thinking]: '' @ join [newline] thinkingParts] else [])
        @ (if \<exists>b\<in>set (am_content m). ablock_text b \<noteq> None
           then [''[Assistant]: '' @ assistantText [newline] (am_content m)] else [])
        @ (if toolCalls \<noteq> [] then [''[Assistant tool calls]: '' @ join ''; '' toolCalls] else []))"
| "conversation_parts stringify (ToolResult m) =
    (let content = contentText [] (Blocks (tr_content m)) in
     if content \<noteq> [] then [''[Tool result]: '' @ truncateForSummary content TOOL_RESULT_MAX_CHARS] else [])"

definition serializeConversation :: "(json \<Rightarrow> string) \<Rightarrow> message list \<Rightarrow> string" where
  "serializeConversation stringify ms = join [newline, newline] (concat (map (conversation_parts stringify) ms))"

definition file_section :: "string \<Rightarrow> string list \<Rightarrow> string list" where
  "file_section tag paths =
    (if paths = [] then []
     else [''<'' @ tag @ ''>'' @ [newline] @ join [newline] paths @ [newline] @ ''</'' @ tag @ ''>''])"

definition formatFileOperations :: "string list \<Rightarrow> string list \<Rightarrow> string" where
  "formatFileOperations readFiles modifiedFiles =
    (let sections = file_section ''read-files'' readFiles @ file_section ''modified-files'' modifiedFiles in
     if sections = [] then [] else [newline, newline] @ join [newline, newline] sections)"

section \<open>Prompts\<close>

definition SUMMARIZATION_SYSTEM_PROMPT :: string where
  \<open>SUMMARIZATION_SYSTEM_PROMPT = join [newline]
    [''You are a context summarization assistant. Your task is to read a conversation between a user and an AI assistant, then produce a structured summary following the exact format specified.'',
     '''',
     ''Do NOT continue the conversation. Do NOT respond to any questions in the conversation. ONLY output the structured summary.'']\<close>

definition SUMMARIZATION_PROMPT :: string where
  \<open>SUMMARIZATION_PROMPT = join [newline]
    [''The messages above are a conversation to summarize. Create a structured context checkpoint summary that another LLM will use to continue the work.'',
     '''',
     ''Use this EXACT format:'',
     '''',
     ''## Goal'',
     ''[What is the user trying to accomplish? Can be multiple items if the session covers different tasks.]'',
     '''',
     ''## Constraints & Preferences'',
     ''- [Any constraints, preferences, or requirements mentioned by user]'',
     ''- [Or "(none)" if none were mentioned]'',
     '''',
     ''## Progress'',
     ''### Done'',
     ''- [x] [Completed tasks/changes]'',
     '''',
     ''### In Progress'',
     ''- [ ] [Current work]'',
     '''',
     ''### Blocked'',
     ''- [Issues preventing progress, if any]'',
     '''',
     ''## Key Decisions'',
     ''- **[Decision]**: [Brief rationale]'',
     '''',
     ''## Next Steps'',
     ''1. [Ordered list of what should happen next]'',
     '''',
     ''## Critical Context'',
     ''- [Any data, examples, or references needed to continue]'',
     ''- [Or "(none)" if not applicable]'',
     '''',
     ''Keep each section concise. Preserve exact file paths, function names, and error messages.'']\<close>

definition UPDATE_SUMMARIZATION_PROMPT :: string where
  \<open>UPDATE_SUMMARIZATION_PROMPT = join [newline]
    [''The messages above are NEW conversation messages to incorporate into the existing summary provided in <previous-summary> tags.'',
     '''',
     ''Update the existing structured summary with new information. RULES:'',
     ''- PRESERVE all existing information from the previous summary'',
     ''- ADD new progress, decisions, and context from the new messages'',
     ''- UPDATE the Progress section: move items from "In Progress" to "Done" when completed'',
     ''- UPDATE "Next Steps" based on what was accomplished'',
     ''- PRESERVE exact file paths, function names, and error messages'',
     ''- If something is no longer relevant, you may remove it'',
     '''',
     ''Use this EXACT format:'',
     '''',
     ''## Goal'',
     ''[Preserve existing goals, add new ones if the task expanded]'',
     '''',
     ''## Constraints & Preferences'',
     ''- [Preserve existing, add new ones discovered]'',
     '''',
     ''## Progress'',
     ''### Done'',
     ''- [x] [Include previously done items AND newly completed items]'',
     '''',
     ''### In Progress'',
     ''- [ ] [Current work - update based on progress]'',
     '''',
     ''### Blocked'',
     ''- [Current blockers - remove if resolved]'',
     '''',
     ''## Key Decisions'',
     ''- **[Decision]**: [Brief rationale] (preserve all previous, add new)'',
     '''',
     ''## Next Steps'',
     ''1. [Update based on current state]'',
     '''',
     ''## Critical Context'',
     ''- [Preserve important context, add new if needed]'',
     '''',
     ''Keep each section concise. Preserve exact file paths, function names, and error messages.'']\<close>

definition TURN_PREFIX_SUMMARIZATION_PROMPT :: string where
  \<open>TURN_PREFIX_SUMMARIZATION_PROMPT = join [newline]
    [''This is the PREFIX of a turn that was too large to keep. The SUFFIX (recent work) is retained.'',
     '''',
     ''Summarize the prefix to provide context for the retained suffix:'',
     '''',
     ''## Original Request'',
     ''[What did the user ask for in this turn?]'',
     '''',
     ''## Early Progress'',
     ''- [Key decisions and work done in the prefix]'',
     '''',
     ''## Context for Suffix'',
     ''- [Information needed to understand the retained recent work]'',
     '''',
     ''Be concise. Focus on what's needed to understand the kept suffix.'']\<close>

definition BRANCH_SUMMARY_PREAMBLE :: string where
  \<open>BRANCH_SUMMARY_PREAMBLE = join [newline]
    [''The user explored a different conversation branch before returning here.'',
     ''Summary of that exploration:'',
     '''',
     '''']\<close>

definition BRANCH_SUMMARY_PROMPT :: string where
  \<open>BRANCH_SUMMARY_PROMPT = join [newline]
    [''Create a structured summary of this conversation branch for context when returning later.'',
     '''',
     ''Use this EXACT format:'',
     '''',
     ''## Goal'',
     ''[What was the user trying to accomplish in this branch?]'',
     '''',
     ''## Constraints & Preferences'',
     ''- [Any constraints, preferences, or requirements mentioned]'',
     ''- [Or "(none)" if none were mentioned]'',
     '''',
     ''## Progress'',
     ''### Done'',
     ''- [x] [Completed tasks/changes]'',
     '''',
     ''### In Progress'',
     ''- [ ] [Work that was started but not finished]'',
     '''',
     ''### Blocked'',
     ''- [Issues preventing progress, if any]'',
     '''',
     ''## Key Decisions'',
     ''- **[Decision]**: [Brief rationale]'',
     '''',
     ''## Next Steps'',
     ''1. [What should happen next to continue this work]'',
     '''',
     ''Keep each section concise. Preserve exact file paths, function names, and error messages.'']\<close>

section \<open>Requests\<close>

record summary_request =
  sr_systemPrompt :: string
  sr_messages :: "message list"
  sr_maxTokens :: nat
  sr_reasoning :: "thinking_level option"

datatype compaction_error = SummaryAborted string | SummarizationFailed string

text \<open>What a caller provides: \<open>JSON.stringify\<close>, the clock, the request, and the model's data.\<close>

record 'w summary_env =
  se_stringify :: "json \<Rightarrow> string"
  se_now :: "'w \<Rightarrow> nat"
  se_request :: "summary_request \<Rightarrow> ('w, assistant_message) act"
  se_maxTokens :: nat
  se_reasoning :: bool

definition model_limit :: "'w summary_env \<Rightarrow> nat \<Rightarrow> nat" where
  "model_limit env n = (if 0 < se_maxTokens env then min n (se_maxTokens env) else n)"

definition completion_reasoning :: "'w summary_env \<Rightarrow> thinking_level option \<Rightarrow> thinking_level option" where
  "completion_reasoning env level = (if se_reasoning env \<and> level \<noteq> Some Off then level else None)"

definition nonempty :: "string option \<Rightarrow> string option" where
  "nonempty s = (case s of None \<Rightarrow> None | Some t \<Rightarrow> if t = [] then None else Some t)"

text \<open>How a response is read: an error value, or the text with the usage.\<close>

definition read_response :: "string \<Rightarrow> string \<Rightarrow> assistant_message \<Rightarrow> compaction_error + string \<times> usage" where
  "read_response aborted failed response =
    (if am_stopReason response = Aborted
     then Inl (SummaryAborted (or_else (nonempty (am_errorMessage response)) aborted))
     else if am_stopReason response = Error
     then Inl (SummarizationFailed (failed @ '': '' @ or_else (nonempty (am_errorMessage response)) ''Unknown error''))
     else Inr (assistantText [newline] (am_content response), am_usage response))"

definition ask ::
  "'w summary_env \<Rightarrow> string \<Rightarrow> nat \<Rightarrow> thinking_level option \<Rightarrow> ('w, assistant_message) act" where
  "ask env prompt maxTokens reasoning =
    bindA (getA (se_now env)) (\<lambda>now.
      se_request env \<lparr>sr_systemPrompt = SUMMARIZATION_SYSTEM_PROMPT,
        sr_messages = [user_blocks [text_block prompt] now], sr_maxTokens = maxTokens, sr_reasoning = reasoning\<rparr>)"

definition conversation_prompt :: "'w summary_env \<Rightarrow> coding_message list \<Rightarrow> string" where
  "conversation_prompt env ms =
    ''<conversation>'' @ [newline] @ serializeConversation (se_stringify env) (convertToLlm ms) @ [newline]
    @ ''</conversation>'' @ [newline, newline]"

text \<open>\<open>Math.floor(0.8 * reserveTokens)\<close> is \<open>4 * reserveTokens div 5\<close>.\<close>

definition generateSummaryWithRequest ::
  "'w summary_env \<Rightarrow> coding_message list \<Rightarrow> nat \<Rightarrow> string option \<Rightarrow> string option \<Rightarrow> thinking_level option
    \<Rightarrow> ('w, compaction_error + string \<times> usage) act" where
  "generateSummaryWithRequest env currentMessages reserveTokens customInstructions previousSummary thinkingLevel =
    (let maxTokens = model_limit env (4 * reserveTokens div 5);
         previous = nonempty previousSummary;
         base = (if previous \<noteq> None then UPDATE_SUMMARIZATION_PROMPT else SUMMARIZATION_PROMPT);
         basePrompt = (case nonempty customInstructions of None \<Rightarrow> base
                       | Some c \<Rightarrow> base @ [newline, newline] @ ''Additional focus: '' @ c);
         prompt = conversation_prompt env currentMessages
           @ (case previous of None \<Rightarrow> []
              | Some p \<Rightarrow> ''<previous-summary>'' @ [newline] @ p @ [newline] @ ''</previous-summary>''
                          @ [newline, newline])
           @ basePrompt
     in bindA (ask env prompt maxTokens (completion_reasoning env thinkingLevel)) (\<lambda>response.
          retA (read_response ''Summarization aborted'' ''Summarization failed'' response)))"

definition generateTurnPrefixSummary ::
  "'w summary_env \<Rightarrow> coding_message list \<Rightarrow> nat \<Rightarrow> thinking_level option
    \<Rightarrow> ('w, compaction_error + string \<times> usage) act" where
  "generateTurnPrefixSummary env messages reserveTokens thinkingLevel =
    (let maxTokens = model_limit env (reserveTokens div 2);
         prompt = conversation_prompt env messages @ TURN_PREFIX_SUMMARIZATION_PROMPT
     in bindA (ask env prompt maxTokens (completion_reasoning env thinkingLevel)) (\<lambda>response.
          retA (read_response ''Turn prefix summarization aborted'' ''Turn prefix summarization failed'' response)))"

section \<open>Compaction with requests\<close>

record compact_result =
  cx_summary :: string
  cx_tokensBefore :: nat
  cx_usage :: usage
  cx_retainedTail :: "coding_message list"
  cx_details :: json

definition paths_json :: "string list \<Rightarrow> json" where
  "paths_json ps = JArr (map JStr ps)"

definition finish_compaction ::
  "compaction_preparation \<Rightarrow> string \<Rightarrow> usage \<Rightarrow> compact_result" where
  "finish_compaction p summary summaryUsage =
    (let (readFiles, modifiedFiles) = computeFileLists (cp_fileOps p) in
     \<lparr>cx_summary = summary @ formatFileOperations readFiles modifiedFiles, cx_tokensBefore = cp_tokensBefore p,
      cx_usage = summaryUsage, cx_retainedTail = cp_retainedTail p,
      cx_details = JObj [(''readFiles'', paths_json readFiles), (''modifiedFiles'', paths_json modifiedFiles)]\<rparr>)"

definition compactWithRequest ::
  "(rat \<Rightarrow> rat \<Rightarrow> rat) \<Rightarrow> 'w summary_env \<Rightarrow> compaction_preparation \<Rightarrow> string option \<Rightarrow> thinking_level option
    \<Rightarrow> ('w, compaction_error + compact_result) act" where
  "compactWithRequest fadd env p customInstructions thinkingLevel =
    (let reserve = cs_reserveTokens (cp_settings p);
         history = generateSummaryWithRequest env (cp_messagesToSummarize p) reserve customInstructions
           (cp_previousSummary p) thinkingLevel
     in if cp_isSplitTurn p \<and> cp_turnPrefixMessages p \<noteq> [] then
          bindA (if cp_messagesToSummarize p \<noteq> []
                 then bindA history (\<lambda>r. retA (bindE r (\<lambda>(t, u). Inr (t, Some u))))
                 else retA (Inr (''No prior history.'', None))) (\<lambda>r.
            case r of Inl e \<Rightarrow> retA (Inl e)
            | Inr (historyText, historyUsage) \<Rightarrow>
                bindA (generateTurnPrefixSummary env (cp_turnPrefixMessages p) reserve thinkingLevel) (\<lambda>r.
                  retA (bindE r (\<lambda>(prefixText, prefixUsage).
                    let summary = historyText @ [newline, newline] @ ''---'' @ [newline, newline]
                          @ ''**Turn Context (split turn):**'' @ [newline, newline] @ prefixText;
                        summaryUsage = (case historyUsage of None \<Rightarrow> prefixUsage | Some u \<Rightarrow> addUsage fadd u prefixUsage)
                    in Inr (finish_compaction p summary summaryUsage)))))
        else bindA history (\<lambda>r. retA (bindE r (\<lambda>(t, u). Inr (finish_compaction p t u)))))"

section \<open>Leaving a branch\<close>

definition open_scan :: branch_scan where
  "open_scan = \<lparr>bs_stopAtType = None, bs_stopAtId = None, bs_type = None, bs_customType = None,
     bs_order = None, bs_limit = None, bs_cursor = None\<rparr>"

text \<open>The loop from the old tip up to the common ancestor; the entries are collected newest first.\<close>

partial_function (option) collect_loop ::
  "durable_session \<Rightarrow> string option \<Rightarrow> string option \<Rightarrow> entry list \<Rightarrow> (durable_error + entry list) option" where
  "collect_loop s common current entries =
    (case nonempty current of
       None \<Rightarrow> Some (Inr entries)
     | Some i \<Rightarrow>
         if Some i = common then Some (Inr entries)
         else case session_getEntry i s of
           Inl e \<Rightarrow> Some (Inl e)
         | Inr None \<Rightarrow> Some (Inl (DError (''Corrupt session: entry '' @ i @ '' not found'')))
         | Inr (Some e) \<Rightarrow> collect_loop s common (de_parentId e) (entries @ [e]))"

definition collectEntriesForBranchSummary ::
  "string \<Rightarrow> durable_session \<Rightarrow> string option \<Rightarrow> string \<Rightarrow> (durable_error + entry list \<times> string option) option" where
  "collectEntriesForBranchSummary branch s oldTipId targetId =
    (case nonempty oldTipId of
       None \<Rightarrow> Some (Inr ([], None))
     | Some old \<Rightarrow>
         (case branch_findEntries branch (Some old) open_scan s of
            None \<Rightarrow> None
          | Some (Inl e) \<Rightarrow> Some (Inl e)
          | Some (Inr oldEntries) \<Rightarrow>
              (case branch_findEntries branch (Some targetId) open_scan s of
                 None \<Rightarrow> None
               | Some (Inl e) \<Rightarrow> Some (Inl e)
               | Some (Inr targetPath) \<Rightarrow>
                   let common = map_option de_id (List.find (\<lambda>e. de_id e \<in> de_id ` set oldEntries) targetPath)
                   in map_option (\<lambda>r. bindE r (\<lambda>es. Inr (rev es, common)))
                        (collect_loop s common oldTipId []))))"

definition branch_message :: "entry \<Rightarrow> coding_message option" where
  "branch_message e =
    (case de_body e of
       MessageB m t \<Rightarrow> if is_tool_result m then None else Some m
     | BranchSummaryB fromId summary d u h \<Rightarrow>
         Some (BranchSummary \<lparr>bm_summary = summary, bm_fromId = fromId, bm_timestamp = nat (de_timestamp e)\<rparr>)
     | CompactionB summary r tokensBefore d u h \<Rightarrow>
         Some (CompactionSummary \<lparr>cm_summary = summary, cm_tokensBefore = tokensBefore,
                                  cm_timestamp = nat (de_timestamp e)\<rparr>)
     | CustomB d \<Rightarrow> None)"

record branch_preparation =
  bp_messages :: "coding_message list"
  bp_fileOps :: file_operations
  bp_totalTokens :: nat

fun branch_details :: "entry_body \<Rightarrow> json option" where
  "branch_details (BranchSummaryB f s d u h) = d"
| "branch_details _ = None"

text \<open>The loop from the newest entry back, over the first \<open>k\<close> entries.\<close>

fun prepare_loop ::
  "(json \<Rightarrow> string) \<Rightarrow> entry list \<Rightarrow> int \<Rightarrow> nat \<Rightarrow> branch_preparation \<Rightarrow> branch_preparation" where
  "prepare_loop stringify es tokenBudget 0 p = p"
| "prepare_loop stringify es tokenBudget (Suc k) p =
    (case branch_message (es ! k) of
       None \<Rightarrow> prepare_loop stringify es tokenBudget k p
     | Some m \<Rightarrow>
         let p = p\<lparr>bp_fileOps := extractFileOpsFromMessage m (bp_fileOps p)\<rparr>;
             tokens = estimateTokens stringify m;
             added = p\<lparr>bp_messages := m # bp_messages p, bp_totalTokens := bp_totalTokens p + tokens\<rparr>
         in if 0 < tokenBudget \<and> tokenBudget < int (bp_totalTokens p + tokens)
            then (if (de_type (es ! k) = CompactionT \<or> de_type (es ! k) = BranchSummaryT)
                     \<and> 10 * int (bp_totalTokens p) < 9 * tokenBudget
                  then added else p)
            else prepare_loop stringify es tokenBudget k added)"

definition prepareBranchEntries :: "(json \<Rightarrow> string) \<Rightarrow> entry list \<Rightarrow> int \<Rightarrow> branch_preparation" where
  "prepareBranchEntries stringify es tokenBudget =
    prepare_loop stringify es tokenBudget (length es)
      \<lparr>bp_messages = [], bp_fileOps = fold (\<lambda>e. add_details (branch_details (de_body e))) es createFileOps,
       bp_totalTokens = 0\<rparr>"

record branch_summary_result =
  bx_summary :: string
  bx_usage :: "usage option"
  bx_readFiles :: "string list"
  bx_modifiedFiles :: "string list"

definition generateBranchSummaryWithRequest ::
  "'w summary_env \<Rightarrow> branch_preparation \<Rightarrow> string option \<Rightarrow> bool
    \<Rightarrow> ('w, compaction_error + branch_summary_result) act" where
  "generateBranchSummaryWithRequest env p customInstructions replaceInstructions =
    (if bp_messages p = []
     then retA (Inr \<lparr>bx_summary = ''No content to summarize'', bx_usage = None, bx_readFiles = [], bx_modifiedFiles = []\<rparr>)
     else
       let instructions = (case nonempty customInstructions of
             None \<Rightarrow> BRANCH_SUMMARY_PROMPT
           | Some c \<Rightarrow> if replaceInstructions then c
                       else BRANCH_SUMMARY_PROMPT @ [newline, newline] @ ''Additional focus: '' @ c)
       in bindA (ask env (conversation_prompt env (bp_messages p) @ instructions) 2048 None) (\<lambda>response.
            retA (bindE (read_response ''Branch summary aborted'' ''Branch summary failed'' response) (\<lambda>(t, u).
              let (readFiles, modifiedFiles) = computeFileLists (bp_fileOps p)
              in Inr \<lparr>bx_summary = BRANCH_SUMMARY_PREAMBLE @ t @ formatFileOperations readFiles modifiedFiles,
                      bx_usage = Some u, bx_readFiles = readFiles, bx_modifiedFiles = modifiedFiles\<rparr>))))"

definition generateBranchSummary ::
  "'w summary_env \<Rightarrow> entry list \<Rightarrow> nat \<Rightarrow> nat option \<Rightarrow> string option \<Rightarrow> bool
    \<Rightarrow> ('w, compaction_error + branch_summary_result) act" where
  "generateBranchSummary env es contextWindow reserveTokens customInstructions replaceInstructions =
    (let window = (if contextWindow = 0 then 128000 else contextWindow);
         p = prepareBranchEntries (se_stringify env) es (int window - int (or_else reserveTokens 16384))
     in generateBranchSummaryWithRequest env p customInstructions replaceInstructions)"

end
