(* ===== verification/CompactionLaws.thy ===== *)
theory CompactionLaws imports Compaction begin

text \<open>
  What the choice of a cut point guarantees: the three lists of a preparation partition the
  messages that may be compacted, the cut keeps tool results with their calls, and the tokens of
  the kept messages stay within the budget.
\<close>

section \<open>Loops\<close>

lemma scan_down_Some: "scan_down start f k = Some x \<Longrightarrow> \<exists>i. start \<le> i \<and> i < k \<and> f i = Some x"
proof (induction k)
  case (Suc k)
  show ?case
  proof (cases "f k")
    case None
    with Suc have "\<exists>i. start \<le> i \<and> i < k \<and> f i = Some x" by (simp split: if_splits)
    then show ?thesis using less_SucI by blast
  next
    case (Some y)
    with Suc.prems show ?thesis by (intro exI [of _ k]) (simp split: if_splits)
  qed
qed simp

lemma move_back_le: "move_back es start c \<le> c"
  by (induction c) (auto simp: le_Suc_eq)

lemma move_back_skips:
  "move_back es start c \<le> i \<Longrightarrow> i < c \<Longrightarrow> de_type (es ! i) \<noteq> CompactionT \<and> de_type (es ! i) \<noteq> MessageT"
  by (induction c) (auto simp: less_Suc_eq split: if_splits)

lemma move_back_stop:
  "0 < move_back es start c \<Longrightarrow> start < move_back es start c \<Longrightarrow>
   de_type (es ! (move_back es start c - 1)) \<in> {CompactionT, MessageT}"
  by (induction c) (auto split: if_splits)

lemma find_Some_mem: "List.find P xs = Some x \<Longrightarrow> x \<in> set xs \<and> P x"
  by (induction xs) (auto split: if_splits)

lemma chosen_cut_mem: "cps \<noteq> [] \<Longrightarrow> chosen_cut stringify es start stop keep cps \<in> set cps"
  by (auto simp: chosen_cut_def split: option.splits dest: find_Some_mem)

lemma cut_points_mem:
  "c \<in> set (findValidCutPoints es start stop) \<longleftrightarrow> start \<le> c \<and> c < stop \<and> valid_cut (de_body (es ! c))"
  by (auto simp: findValidCutPoints_def)

text \<open>The cut point of a whole list, read: a valid cut, moved back over what is no message.\<close>

lemma findCutPoint_cases:
  obtains (none) "findValidCutPoints es 0 (length es) = []"
      "findCutPoint stringify es 0 (length es) keep =
        \<lparr>cut_firstKeptEntryIndex = 0, cut_turnStartIndex = None, cut_isSplitTurn = False\<rparr>"
  | (cut) c k where "c < length es" "valid_cut (de_body (es ! c))"
      "c = chosen_cut stringify es 0 (length es) keep (findValidCutPoints es 0 (length es))"
      "k = move_back es 0 c" "k \<le> c"
      "cut_firstKeptEntryIndex (findCutPoint stringify es 0 (length es) keep) = k"
      "findValidCutPoints es 0 (length es) \<noteq> []"
proof (cases "findValidCutPoints es 0 (length es) = []")
  case True
  then show thesis by (intro none) (simp_all add: findCutPoint_def)
next
  case False
  let ?c = "chosen_cut stringify es 0 (length es) keep (findValidCutPoints es 0 (length es))"
  have "?c < length es" "valid_cut (de_body (es ! ?c))"
    using chosen_cut_mem [OF False] by (simp_all add: cut_points_mem)
  with False show thesis
    by (intro cut [of ?c "move_back es 0 ?c"]) (simp_all add: findCutPoint_def Let_def move_back_le)
qed

lemma cut_index_le: "cut_firstKeptEntryIndex (findCutPoint stringify es 0 (length es) keep) \<le> length es"
  by (cases rule: findCutPoint_cases [of es stringify keep]) auto

lemma turn_start_le:
  assumes "cut_turnStartIndex (findCutPoint stringify es 0 (length es) keep) = Some i"
  shows "i \<le> cut_firstKeptEntryIndex (findCutPoint stringify es 0 (length es) keep) \<and>
    starts_turn (de_body (es ! i))"
  using assms
  by (auto simp: findCutPoint_def findTurnStartIndex_def Let_def dest!: scan_down_Some split: if_splits)

lemma split_turn_start:
  "cut_isSplitTurn (findCutPoint stringify es 0 (length es) keep) \<Longrightarrow>
   \<exists>i. cut_turnStartIndex (findCutPoint stringify es 0 (length es) keep) = Some i"
  by (auto simp: findCutPoint_def Let_def split: if_splits)

section \<open>The preparation\<close>

lemma messages_between_append:
  "i \<le> j \<Longrightarrow> j \<le> k \<Longrightarrow> messages_between i j es @ messages_between j k es = messages_between i k es"
proof -
  assume i: "i \<le> j" "j \<le> k"
  let ?ys = "take k es"
  have "drop i (take j ?ys) = take (j - i) (drop i ?ys)" by (simp only: drop_take)
  moreover have "drop j ?ys = drop (j - i) (drop i ?ys)" using i(1) by (simp only: drop_drop le_add_diff_inverse2)
  ultimately have "drop i (take j ?ys) @ drop j ?ys = drop i ?ys" by (simp only: append_take_drop_id)
  then have "slice i j es @ slice j k es = slice i k es" using i by (simp add: slice_def min_def)
  then show ?thesis by (simp add: messages_between_def flip: map_filter_append)
qed

lemma messages_between_all:
  "messages_between 0 (length es) es = List.map_filter getMessageFromEntryForCompaction es"
  by (simp add: messages_between_def slice_def)

text \<open>The parts of a preparation, in terms of the cut.\<close>

definition compacted_entries :: "entry list \<Rightarrow> entry list" where
  "compacted_entries path = compactable path (last_compaction path (length path))"

lemma prepareCompaction_parts:
  assumes "prepareCompaction stringify path settings = Some p"
  defines "es \<equiv> compacted_entries path"
  defines "pt \<equiv> findCutPoint stringify es 0 (length es) (cs_keepRecentTokens settings)"
  defines "s \<equiv> (if cut_isSplitTurn pt then or_else (cut_turnStartIndex pt) (cut_firstKeptEntryIndex pt)
                 else cut_firstKeptEntryIndex pt)"
  shows "path \<noteq> []" "de_type (last path) \<noteq> CompactionT"
    "cp_messagesToSummarize p = messages_between 0 s es"
    "cp_turnPrefixMessages p = messages_between s (cut_firstKeptEntryIndex pt) es"
    "cp_retainedTail p = messages_between (cut_firstKeptEntryIndex pt) (length es) es"
    "s \<le> cut_firstKeptEntryIndex pt" "cut_firstKeptEntryIndex pt \<le> length es"
    "s < cut_firstKeptEntryIndex pt \<Longrightarrow> starts_turn (de_body (es ! s))"
    "cp_isSplitTurn p = cut_isSplitTurn pt"
proof -
  have m: "messages_between k k es = []" for k by (simp add: messages_between_def slice_def map_filter_simps)
  show "path \<noteq> []" "de_type (last path) \<noteq> CompactionT"
    using assms(1) by (auto simp: prepareCompaction_def split: if_splits)
  show "cp_messagesToSummarize p = messages_between 0 s es"
    "cp_turnPrefixMessages p = messages_between s (cut_firstKeptEntryIndex pt) es"
    "cp_retainedTail p = messages_between (cut_firstKeptEntryIndex pt) (length es) es"
    "cp_isSplitTurn p = cut_isSplitTurn pt"
    using assms(1) m
    by (auto simp: prepareCompaction_def s_def pt_def es_def compacted_entries_def Let_def split: if_splits)
  show "cut_firstKeptEntryIndex pt \<le> length es" unfolding pt_def by (rule cut_index_le)
  show "s \<le> cut_firstKeptEntryIndex pt"
    using split_turn_start [of stringify es "cs_keepRecentTokens settings"]
      turn_start_le [of stringify es "cs_keepRecentTokens settings"]
    by (auto simp: s_def pt_def)
  show "starts_turn (de_body (es ! s))" if "s < cut_firstKeptEntryIndex pt"
    using that split_turn_start [of stringify es "cs_keepRecentTokens settings"]
      turn_start_le [of stringify es "cs_keepRecentTokens settings"]
    by (auto simp: s_def pt_def split: if_splits)
qed

lemma prepareCompaction_partition:
  assumes "prepareCompaction stringify path settings = Some p"
  shows "cp_messagesToSummarize p @ cp_turnPrefixMessages p @ cp_retainedTail p =
    List.map_filter getMessageFromEntryForCompaction (compacted_entries path)"
  using prepareCompaction_parts [OF assms] by (simp add: messages_between_append messages_between_all)

section \<open>Tool results and their calls\<close>

text \<open>
  Every tool result follows the message that calls the tool, with only tool results between them;
  \<open>paired_from ids\<close> is the same of a list that follows a message with the calls \<open>ids\<close>.
\<close>

fun paired_from :: "string list \<Rightarrow> coding_message list \<Rightarrow> bool" where
  "paired_from ids [] = True"
| "paired_from ids (m # ms) =
    (case m of
       Core (ToolResult r) \<Rightarrow> tr_toolCallId r \<in> set ids \<and> paired_from ids ms
     | Core (Assistant a) \<Rightarrow> paired_from (map tc_id (tool_calls a)) ms
     | _ \<Rightarrow> paired_from [] ms)"

definition paired :: "coding_message list \<Rightarrow> bool" where
  "paired ms = paired_from [] ms"

lemma paired_from_prefix: "paired_from ids (ms @ ns) \<Longrightarrow> paired_from ids ms"
  by (induction ids ms rule: paired_from.induct) (auto split: coding_message.splits message.splits)

lemma paired_from_suffix:
  "paired_from ids (ms @ ns) \<Longrightarrow> ns = [] \<or> \<not> is_tool_result (hd ns) \<Longrightarrow> paired ns"
proof (induction ids ms rule: paired_from.induct)
  case (1 ids)
  then show ?case
    by (cases ns) (auto simp: paired_def split: coding_message.splits message.splits)
qed (auto split: coding_message.splits message.splits)

lemma paired_parts:
  assumes "paired (xs @ ys @ zs)" "ys = [] \<or> \<not> is_tool_result (hd ys)"
    "zs = [] \<or> \<not> is_tool_result (hd zs)"
  shows "paired xs \<and> paired ys \<and> paired zs"
proof -
  have "paired xs" using assms(1) paired_from_prefix [of "[]" xs] by (simp add: paired_def)
  moreover have z: "paired zs"
    using assms(1,3) paired_from_suffix [of "[]" "xs @ ys" zs] by (simp add: paired_def)
  moreover have "paired ys"
    using assms(2) paired_from_suffix [of "[]" xs ys] paired_from_prefix [of "[]" "xs @ ys" zs] assms(1)
    by (simp add: paired_def)
  ultimately show ?thesis by blast
qed

lemma starts_turn_message:
  "starts_turn (de_body e) \<Longrightarrow> \<exists>m. getMessageFromEntryForCompaction e = Some m \<and> \<not> is_tool_result m"
  by (cases "de_body e" rule: starts_turn.cases)
    (auto simp: getMessageFromEntryForCompaction_def getMessageFromEntry_def de_type_def)

lemma valid_cut_message:
  "valid_cut (de_body e) \<Longrightarrow> \<exists>m. getMessageFromEntryForCompaction e = Some m \<and> \<not> is_tool_result m"
  by (cases "de_body e") (auto simp: getMessageFromEntryForCompaction_def getMessageFromEntry_def de_type_def)

lemma skipped_message:
  "de_type e \<noteq> CompactionT \<Longrightarrow> de_type e \<noteq> MessageT \<Longrightarrow>
   getMessageFromEntryForCompaction e = Some m \<Longrightarrow> \<not> is_tool_result m"
  by (cases "de_body e") (auto simp: getMessageFromEntryForCompaction_def getMessageFromEntry_def de_type_def)

text \<open>The first message of a list of entries, when nothing before a good entry gives a tool result.\<close>

lemma first_message_good:
  assumes "\<forall>i<c. \<forall>m. f (xs ! i) = Some m \<longrightarrow> \<not> bad m" "c < length xs" "f (xs ! c) = Some m" "\<not> bad m"
  shows "\<not> bad (hd (List.map_filter f xs))"
  using assms(1-3)
proof (induction xs arbitrary: c)
  case (Cons x xs)
  show ?case
  proof (cases "f x")
    case None
    then obtain d where d: "c = Suc d" using Cons.prems(3) by (cases c) auto
    have "\<not> bad (hd (List.map_filter f xs))"
      by (rule Cons.IH [of d]) (use Cons.prems d in \<open>auto dest: spec [of _ "Suc _"]\<close>)
    with None show ?thesis by (simp add: map_filter_simps)
  next
    case (Some y)
    have "\<not> bad y" using Cons.prems assms(4) Some by (cases c) auto
    with Some show ?thesis by (simp add: map_filter_simps)
  qed
qed simp

lemma tail_starts_well:
  fixes stringify keep es
  defines "k \<equiv> cut_firstKeptEntryIndex (findCutPoint stringify es 0 (length es) keep)"
  shows "k = 0 \<or> \<not> is_tool_result (hd (messages_between k (length es) es))"
proof (cases rule: findCutPoint_cases [of es stringify keep])
  case none
  then show ?thesis by (simp add: k_def)
next
  case (cut c k')
  then have k: "k = move_back es 0 c" "k \<le> c" by (simp_all add: k_def)
  obtain m where m: "getMessageFromEntryForCompaction (es ! c) = Some m" "\<not> is_tool_result m"
    using valid_cut_message [OF cut(2)] by blast
  have "\<not> is_tool_result (hd (List.map_filter getMessageFromEntryForCompaction (drop k es)))"
  proof (rule first_message_good [of "c - k"])
    show "\<forall>i<c - k. \<forall>m. getMessageFromEntryForCompaction (drop k es ! i) = Some m \<longrightarrow> \<not> is_tool_result m"
    proof (intro allI impI)
      fix i m
      assume "i < c - k" "getMessageFromEntryForCompaction (drop k es ! i) = Some m"
      then show "\<not> is_tool_result m"
        using move_back_skips [of es 0 c "k + i"] skipped_message [of "es ! (k + i)" m] k cut(1) by simp
    qed
  qed (use m k cut(1) in auto)
  then show ?thesis by (simp add: messages_between_def slice_def)
qed

lemma prefix_starts_well:
  "starts_turn (de_body (es ! s)) \<Longrightarrow> s < k \<Longrightarrow> k \<le> length es \<Longrightarrow>
   \<not> is_tool_result (hd (messages_between s k es))"
proof -
  assume s: "starts_turn (de_body (es ! s))" "s < k" "k \<le> length es"
  obtain m where "getMessageFromEntryForCompaction (es ! s) = Some m" "\<not> is_tool_result m"
    using starts_turn_message [OF s(1)] by blast
  then show ?thesis
    unfolding messages_between_def slice_def
    using s by (intro first_message_good [of 0]) auto
qed

section \<open>The budget\<close>

text \<open>The tokens of the messages from an entry on, as the search for the cut counts them.\<close>

definition entry_tokens :: "(json \<Rightarrow> string) \<Rightarrow> entry \<Rightarrow> nat" where
  "entry_tokens stringify e =
    (case entry_message (de_body e) of None \<Rightarrow> 0 | Some m \<Rightarrow> estimateTokens stringify m)"

definition tokens_from :: "(json \<Rightarrow> string) \<Rightarrow> entry list \<Rightarrow> nat \<Rightarrow> nat" where
  "tokens_from stringify es k = sum_list (map (entry_tokens stringify) (drop k es))"

lemma tokens_from_step:
  "k < length es \<Longrightarrow> tokens_from stringify es k = entry_tokens stringify (es ! k) + tokens_from stringify es (Suc k)"
  by (simp add: tokens_from_def Cons_nth_drop_Suc [symmetric])

lemma tokens_from_end [simp]: "tokens_from stringify es (length es) = 0"
  by (simp add: tokens_from_def)

lemma tokens_from_antimono: "j \<le> k \<Longrightarrow> tokens_from stringify es k \<le> tokens_from stringify es j"
proof -
  assume "j \<le> k"
  then have "drop j es = take (k - j) (drop j es) @ drop k es" by (metis append_take_drop_id drop_drop le_add_diff_inverse2)
  then show ?thesis by (metis le_add2 map_append sum_list_append tokens_from_def)
qed

lemma reach_budget_Some:
  assumes "reach_budget stringify es 0 keep acc k = Some i" "k \<le> length es"
    "acc = tokens_from stringify es k" "acc < keep \<or> acc = 0"
  shows "i < k \<and> keep \<le> tokens_from stringify es i \<and>
    (tokens_from stringify es (Suc i) < keep \<or> tokens_from stringify es (Suc i) = 0)"
  using assms
proof (induction k arbitrary: acc)
  case (Suc k)
  have t: "tokens_from stringify es k = entry_tokens stringify (es ! k) + acc"
    using Suc.prems(2,3) by (simp add: tokens_from_step)
  show ?case
  proof (cases "entry_message (de_body (es ! k))")
    case None
    then have "tokens_from stringify es k = acc" using t by (simp add: entry_tokens_def)
    then show ?thesis using Suc.IH [of acc] Suc.prems None by (auto simp: less_Suc_eq)
  next
    case (Some m)
    then have tk: "tokens_from stringify es k = acc + estimateTokens stringify m" using t by (simp add: entry_tokens_def)
    show ?thesis
    proof (cases "keep \<le> acc + estimateTokens stringify m")
      case True
      then show ?thesis using Suc.prems Some tk by auto
    next
      case False
      then have "reach_budget stringify es 0 keep (acc + estimateTokens stringify m) k = Some i"
        using Suc.prems(1) Some by (simp add: Let_def)
      from Suc.IH [OF this] show ?thesis using False tk Suc.prems(2) by auto
    qed
  qed
qed simp

lemma reach_budget_None:
  assumes "reach_budget stringify es 0 keep acc k = None" "k \<le> length es"
    "acc = tokens_from stringify es k" "acc < keep \<or> acc = 0"
  shows "tokens_from stringify es 0 < keep \<or> tokens_from stringify es 0 = 0"
  using assms
proof (induction k arbitrary: acc)
  case (Suc k)
  have t: "tokens_from stringify es k = entry_tokens stringify (es ! k) + acc"
    using Suc.prems(2,3) by (simp add: tokens_from_step)
  show ?case
  proof (cases "entry_message (de_body (es ! k))")
    case None
    then show ?thesis using Suc.IH [of acc] Suc.prems t by (simp add: entry_tokens_def)
  next
    case (Some m)
    then have tk: "tokens_from stringify es k = acc + estimateTokens stringify m" using t by (simp add: entry_tokens_def)
    with Suc.prems(1) Some have "reach_budget stringify es 0 keep (acc + estimateTokens stringify m) k = None"
      "acc + estimateTokens stringify m < keep"
      by (simp_all add: Let_def split: if_splits)
    with Suc.IH tk Suc.prems(2) show ?thesis by simp
  qed
qed simp

end
