(* ===== verification/CompactionProps.thy ===== *)
theory CompactionProps imports CompactionLaws begin

text \<open>The properties of compaction, with their witnesses.\<close>

section \<open>The context after a compaction\<close>

lemma compaction_before:
  "last_compaction es k = Some i \<Longrightarrow> i < k \<and> de_type (es ! i) = CompactionT \<and>
    (\<forall>j. i < j \<and> j < k \<longrightarrow> de_type (es ! j) \<noteq> CompactionT)"
proof (induction k)
  case (Suc k)
  then show ?case by (auto split: if_splits simp: less_Suc_eq)
qed simp

lemma no_compaction_before: "last_compaction es k = None \<Longrightarrow> j < k \<Longrightarrow> de_type (es ! j) \<noteq> CompactionT"
  by (induction k) (auto split: if_splits simp: less_Suc_eq)

text \<open>What an entry contributes to the context of a branch, and what it contributes once it is retained.\<close>

definition entry_context ::
  "(string \<Rightarrow> (entry \<Rightarrow> coding_message list option) option) \<Rightarrow> entry \<Rightarrow> coding_message list" where
  "entry_context projectors e =
    (if de_type e \<noteq> CustomT then sessionEntryToContextMessages e
     else case Option.bind (de_customType e) projectors of
       None \<Rightarrow> []
     | Some projector \<Rightarrow> or_else (projector e) [])"

definition retained_context :: "entry \<Rightarrow> coding_message list" where
  "retained_context e =
    (case de_body e of
       CustomB d \<Rightarrow> []
     | BranchSummaryB fromId summary d u h \<Rightarrow>
         [BranchSummary \<lparr>bm_summary = summary, bm_fromId = fromId, bm_timestamp = nat (de_timestamp e)\<rparr>]
     | _ \<Rightarrow> sessionEntryToContextMessages e)"

lemma retained_contexts:
  "\<forall>e\<in>set es. de_type e \<noteq> CompactionT \<Longrightarrow>
    filter isContextMessage (List.map_filter getMessageFromEntryForCompaction es) = concat (map retained_context es)"
proof (induction es)
  case (Cons e es)
  then have "filter isContextMessage (case getMessageFromEntryForCompaction e of None \<Rightarrow> [] | Some m \<Rightarrow> [m]) = retained_context e"
    by (cases "de_body e") (simp_all add: de_type_def getMessageFromEntryForCompaction_def getMessageFromEntry_def
        retained_context_def sessionEntryToContextMessages_def)
  with Cons show ?case by (auto simp: map_filter_simps split: option.splits)
qed (simp add: map_filter_simps)

text \<open>
  The two differ for custom entries, which a projector may put into a context, and for a branch
  summary with an empty text.
\<close>

lemma retained_context_same:
  "de_type e \<noteq> CustomT \<Longrightarrow> (\<nexists>f d u h. de_body e = BranchSummaryB f [] d u h) \<Longrightarrow>
    retained_context e = entry_context projectors e"
  by (cases "de_body e")
    (auto simp: retained_context_def entry_context_def de_type_def sessionEntryToContextMessages_def)

lemma virtual_messages:
  "List.map_filter getMessageFromEntryForCompaction (map (virtual_retained e) (List.enumerate n ms)) = ms"
  by (induction ms arbitrary: n)
    (simp_all add: map_filter_simps virtual_retained_def getMessageFromEntryForCompaction_def
      getMessageFromEntry_def de_type_def)

text \<open>The summary that a context starts with.\<close>

definition summary_messages :: "entry list \<Rightarrow> coding_message list" where
  "summary_messages path =
    (case last_compaction path (length path) of
       None \<Rightarrow> []
     | Some i \<Rightarrow> [hd (sessionEntryToContextMessages (path ! i))])"

lemma virtual_contexts:
  "concat (map (entry_context projectors) (map (virtual_retained e) (List.enumerate n ms))) = filter isContextMessage ms"
  by (induction ms arbitrary: n)
    (simp_all add: virtual_retained_def entry_context_def de_type_def sessionEntryToContextMessages_def)

lemma compacted_no_compaction: "\<forall>e\<in>set (compacted_entries path). de_type e \<noteq> CompactionT"
proof (cases "last_compaction path (length path)")
  case None
  then show ?thesis
    using no_compaction_before [OF None] by (auto simp: compacted_entries_def compactable_def in_set_conv_nth)
next
  case (Some i)
  have "de_type e \<noteq> CompactionT" if e: "e \<in> set (drop (i + 1) path)" for e
  proof -
    obtain j where "j < length (drop (i + 1) path)" "e = drop (i + 1) path ! j" using e by (auto simp: in_set_conv_nth)
    then show ?thesis using compaction_before [OF Some] by auto
  qed
  with Some show ?thesis
    by (auto simp: compacted_entries_def compactable_def virtual_retained_def de_type_def)
qed

lemma context_entries:
  "durableSessionContext projectors path = concat (map (entry_context projectors) (buildContextEntries path))"
  by (simp add: durableSessionContext_def entry_context_def [abs_def])

lemma durable_context:
  "durableSessionContext projectors path =
    summary_messages path @ concat (map (entry_context projectors) (compacted_entries path))"
proof (cases "last_compaction path (length path)")
  case None
  then show ?thesis
    by (simp add: context_entries buildContextEntries_def summary_messages_def compacted_entries_def compactable_def)
next
  case (Some i)
  have i: "de_type (path ! i) = CompactionT" using compaction_before [OF Some] by blast
  then have e: "sessionEntryToContextMessages (path ! i) =
      hd (sessionEntryToContextMessages (path ! i)) # filter isContextMessage (retained_of (de_body (path ! i)))"
    by (cases "de_body (path ! i)") (simp_all add: de_type_def sessionEntryToContextMessages_def)
  have "durableSessionContext projectors path =
      sessionEntryToContextMessages (path ! i) @ concat (map (entry_context projectors) (drop (i + 1) path))"
    using Some i by (simp add: context_entries buildContextEntries_def entry_context_def [of _ "path ! i"])
  also have "\<dots> = (hd (sessionEntryToContextMessages (path ! i)) # filter isContextMessage (retained_of (de_body (path ! i)))) @
      concat (map (entry_context projectors) (drop (i + 1) path))"
    by (subst e) (rule refl)
  finally show ?thesis
    using Some by (simp add: summary_messages_def compacted_entries_def compactable_def virtual_contexts [unfolded map_map])
qed

text \<open>The entry that a finished compaction appends (\<open>runtime/drive/structural.ts\<close>).\<close>

definition compaction_entry ::
  "compaction_preparation \<Rightarrow> string \<Rightarrow> string option \<Rightarrow> string \<Rightarrow> json option \<Rightarrow> usage option \<Rightarrow> bool \<Rightarrow> new_entry" where
  "compaction_entry p entryId parent summary details usage fromHook =
    \<lparr>de_id = entryId, de_parentId = parent, de_customType = None,
     de_body = CompactionB summary (cp_retainedTail p) (cp_tokensBefore p) details usage fromHook\<rparr>"

lemma context_after_compaction:
  assumes "de_type e = CompactionT"
  shows "durableSessionContext projectors (path @ [e]) = sessionEntryToContextMessages e"
proof -
  have "last_compaction (path @ [e]) (length (path @ [e])) = Some (length path)" using assms by simp
  with assms show ?thesis by (simp add: durableSessionContext_def buildContextEntries_def)
qed


text \<open>
  C10. A compaction never separates a tool result from its call: if on the branch every tool result
  follows the message with its call, with only tool results between, the same holds of each of the
  three lists of the preparation, whatever the budget.
\<close>

theorem compaction_keeps_calls:
  assumes "prepareCompaction stringify path settings = Some p"
    and "paired (List.map_filter getMessageFromEntryForCompaction (compacted_entries path))"
  shows "paired (cp_messagesToSummarize p) \<and> paired (cp_turnPrefixMessages p) \<and> paired (cp_retainedTail p)"
proof -
  let ?es = "compacted_entries path" and ?keep = "cs_keepRecentTokens settings"
  let ?k = "cut_firstKeptEntryIndex (findCutPoint stringify ?es 0 (length ?es) ?keep)"
  note parts = prepareCompaction_parts [OF assms(1)]
  have none: "messages_between k k ?es = []" for k by (simp add: messages_between_def slice_def map_filter_simps)
  have tail: "cp_retainedTail p = [] \<or> \<not> is_tool_result (hd (cp_retainedTail p))" if "?k \<noteq> 0"
    using tail_starts_well [of stringify ?es ?keep] that parts(5) by simp
  show ?thesis
  proof (cases "?k = 0")
    case True
    then have "cp_messagesToSummarize p = []" "cp_turnPrefixMessages p = []" using parts(3,4,6) none by simp_all
    with assms(2) prepareCompaction_partition [OF assms(1)] show ?thesis by (simp add: paired_def)
  next
    case False
    have "cp_turnPrefixMessages p = [] \<or> \<not> is_tool_result (hd (cp_turnPrefixMessages p))"
      using parts(4,6,7,8) prefix_starts_well none by (metis le_eq_less_or_eq)
    with tail [OF False] assms(2) prepareCompaction_partition [OF assms(1)]
    show ?thesis by (intro paired_parts) simp_all
  qed
qed

section \<open>The budget\<close>

lemma find_first: "sorted xs \<Longrightarrow> List.find P xs = Some d \<Longrightarrow> c \<in> set xs \<Longrightarrow> P c \<Longrightarrow> (d :: nat) \<le> c"
  by (induction xs) (auto split: if_splits)

lemma tokens_move_back:
  "c < length es \<Longrightarrow> tokens_from stringify es (move_back es 0 c) = tokens_from stringify es c"
proof (induction c)
  case (Suc c)
  show ?case
  proof (cases "de_type (es ! c) = CompactionT \<or> de_type (es ! c) = MessageT")
    case False
    then have "entry_tokens stringify (es ! c) = 0"
      by (cases "de_body (es ! c)") (auto simp: entry_tokens_def de_type_def)
    with Suc False show ?thesis by (simp add: tokens_from_step)
  qed simp
qed simp


lemma reach_budget_reaches:
  assumes "keep \<le> tokens_from stringify es j" "j \<le> k" "k \<le> length es"
    "acc = tokens_from stringify es k" "acc < keep"
  shows "\<exists>i. reach_budget stringify es 0 keep acc k = Some i \<and> j \<le> i \<and> i < k"
  using assms(2-)
proof (induction k arbitrary: acc)
  case 0
  then show ?case using assms(1) by simp
next
  case (Suc k)
  have j: "j \<le> k" using Suc.prems assms(1) by (cases "j = Suc k") auto
  have t: "tokens_from stringify es k = entry_tokens stringify (es ! k) + acc"
    using Suc.prems by (simp add: tokens_from_step)
  show ?case
  proof (cases "entry_message (de_body (es ! k))")
    case None
    then have "tokens_from stringify es k = acc" using t by (simp add: entry_tokens_def)
    then show ?thesis using Suc.IH [OF j, of acc] Suc.prems None by auto
  next
    case (Some m)
    then have tk: "tokens_from stringify es k = acc + estimateTokens stringify m" using t by (simp add: entry_tokens_def)
    show ?thesis
    proof (cases "keep \<le> acc + estimateTokens stringify m")
      case False
      then show ?thesis using Suc.IH [OF j, of "acc + estimateTokens stringify m"] Suc.prems Some tk by auto
    qed (use Some j in simp)
  qed
qed

text \<open>
  C34. When the branch ends in tool results that together reach the budget, no valid cut follows the
  entry at which the budget is reached and the search falls back to the first one: on a branch
  whose first entry is a valid cut nothing is summarized and everything is retained.
\<close>

theorem large_results_keep_all:
  assumes prep: "prepareCompaction stringify path settings = Some p"
    and es: "compacted_entries path = e # xs @ ys" and first: "valid_cut (de_body e)"
    and ys: "\<forall>y\<in>set ys. \<not> valid_cut (de_body y)"
      "cs_keepRecentTokens settings \<le> sum_list (map (entry_tokens stringify) ys)" "0 < cs_keepRecentTokens settings"
  shows "cp_messagesToSummarize p = [] \<and> cp_turnPrefixMessages p = [] \<and>
    cp_retainedTail p = List.map_filter getMessageFromEntryForCompaction (compacted_entries path)"
proof -
  let ?es = "compacted_entries path" and ?keep = "cs_keepRecentTokens settings"
  let ?cps = "findValidCutPoints ?es 0 (length ?es)"
  have cps: "?cps = 0 # filter (\<lambda>i. valid_cut (de_body (?es ! i))) [1..<length ?es]"
    using first es by (simp add: findValidCutPoints_def upt_conv_Cons del: upt_Suc)
  have "?keep \<le> tokens_from stringify ?es (Suc (length xs))"
    using es ys(2) by (simp add: tokens_from_def)
  moreover have len: "Suc (length xs) \<le> length ?es" using es by simp
  ultimately obtain i where i: "reach_budget stringify ?es 0 ?keep 0 (length ?es) = Some i" "Suc (length xs) \<le> i"
    using reach_budget_reaches [of ?keep stringify ?es "Suc (length xs)" "length ?es" 0] len ys(3) by auto
  have "\<not> valid_cut (de_body (?es ! c))" if "i \<le> c" "c < length ?es" for c
  proof -
    have "?es ! c = ys ! (c - Suc (length xs))" using i(2) that es by (auto simp: nth_append nth_Cons')
    then show ?thesis using ys(1) that i(2) es by simp
  qed
  then have "List.find (\<lambda>c. i \<le> c) ?cps = None" by (auto simp: find_None_iff findValidCutPoints_def)
  with i(1) have "chosen_cut stringify ?es 0 (length ?es) ?keep ?cps = 0"
    using cps by (simp add: chosen_cut_def)
  then have k: "cut_firstKeptEntryIndex (findCutPoint stringify ?es 0 (length ?es) ?keep) = 0"
    using cps by (cases rule: findCutPoint_cases [of ?es stringify ?keep]) auto
  have none: "messages_between 0 0 ?es = []" by (simp add: messages_between_def slice_def map_filter_simps)
  show ?thesis
    using prepareCompaction_parts(3-6) [OF prep] k none by (simp add: messages_between_all)
qed

text \<open>The start of a turn is found when only entries that start none follow it.\<close>

lemma scan_down_first:
  "start \<le> j \<Longrightarrow> j < k \<Longrightarrow> f j = Some x \<Longrightarrow> \<forall>i. j < i \<and> i < k \<longrightarrow> f i = None \<Longrightarrow> scan_down start f k = Some x"
  by (induction k) (auto simp: less_Suc_eq)

lemma findTurnStartIndex_Some:
  assumes "j \<le> k" "starts_turn (de_body (es ! j))" "\<forall>i. j < i \<and> i \<le> k \<longrightarrow> \<not> starts_turn (de_body (es ! i))"
  shows "findTurnStartIndex es k 0 = Some j"
  unfolding findTurnStartIndex_def
  by (rule scan_down_first [of _ j]) (use assms in \<open>auto simp: less_Suc_eq_le\<close>)

lemma find_unique:
  "(n :: nat) \<in> set xs \<Longrightarrow> sorted xs \<Longrightarrow> List.find (\<lambda>c. n \<le> c) xs = Some n"
  by (induction xs) auto

text \<open>
  A custom entry between two turns moves the cut back over it, and then the turn before the cut
  counts as split although it is complete: it is summarized as the prefix of a turn whose suffix is
  retained, and what is retained is the next turn from its start.
\<close>

lemma custom_entry_splits_turn:
  assumes prep: "prepareCompaction stringify path settings = Some p"
    and es: "compacted_entries path = xs @ (t # ys) @ c # u # zs"
    and turn: "starts_turn (de_body t)" "\<forall>y\<in>set ys. \<not> starts_turn (de_body y)" "de_type (last (t # ys)) = MessageT"
    and c: "de_type c = CustomT" and u: "de_body u = MessageB (Core (User m)) b"
    and budget: "sum_list (map (entry_tokens stringify) zs) < cs_keepRecentTokens settings"
      "cs_keepRecentTokens settings \<le> sum_list (map (entry_tokens stringify) (u # zs))"
  shows "cp_isSplitTurn p \<and>
    cp_messagesToSummarize p = List.map_filter getMessageFromEntryForCompaction xs \<and>
    cp_turnPrefixMessages p = List.map_filter getMessageFromEntryForCompaction (t # ys) \<and>
    cp_retainedTail p = List.map_filter getMessageFromEntryForCompaction (u # zs)"
proof -
  let ?es = "compacted_entries path" and ?keep = "cs_keepRecentTokens settings"
  let ?j = "length xs" and ?k = "length xs + Suc (length ys)"
  let ?cps = "findValidCutPoints ?es 0 (length ?es)" and ?pt = "findCutPoint stringify ?es 0 (length ?es) ?keep"
  have len: "length ?es = ?k + 2 + length zs" using es by simp
  have at: "?es ! Suc ?k = u" "?es ! ?k = c" "?es ! ?j = t" "?es ! (?k - 1) = last (t # ys)"
    using es by (simp_all add: nth_append last_conv_nth)
  have t: "tokens_from stringify ?es (Suc (Suc ?k)) = sum_list (map (entry_tokens stringify) zs)"
    "tokens_from stringify ?es (Suc ?k) = sum_list (map (entry_tokens stringify) (u # zs))"
    using es by (simp_all add: tokens_from_def numeral_3_eq_3)
  obtain i where i: "reach_budget stringify ?es 0 ?keep 0 (length ?es) = Some i" "Suc ?k \<le> i"
  proof -
    have "Suc ?k \<le> length ?es" "0 < ?keep" using len budget(1) by simp_all
    with reach_budget_reaches [of ?keep stringify ?es "Suc ?k" "length ?es" 0] t(2) budget(2) that
    show ?thesis by (metis order_refl tokens_from_end)
  qed
  have "?keep \<le> tokens_from stringify ?es i" using reach_budget_Some [OF i(1)] by simp
  then have "\<not> Suc (Suc ?k) \<le> i" using tokens_from_antimono [of "Suc (Suc ?k)" i stringify ?es] t budget(1) by linarith
  then have ik: "i = Suc ?k" using i(2) by simp
  have v: "Suc ?k \<in> set ?cps" using at(1) u len by (simp add: cut_points_mem)
  moreover have "sorted ?cps" by (simp add: findValidCutPoints_def sorted_wrt_filter)
  ultimately have "chosen_cut stringify ?es 0 (length ?es) ?keep ?cps = Suc ?k"
    using i(1) ik find_unique [of "Suc ?k" ?cps] by (simp add: chosen_cut_def)
  moreover have "move_back ?es 0 (Suc ?k) = ?k" using at c turn(3) by simp
  moreover have "\<not> user_entry (de_body (?es ! ?k))" using c at(2) by (cases "de_body c") (auto simp: de_type_def)
  moreover have "findTurnStartIndex ?es ?k 0 = Some ?j"
  proof (rule findTurnStartIndex_Some)
    have "\<not> starts_turn (de_body c)" using c by (cases "de_body c") (auto simp: de_type_def)
    then show "\<forall>i. ?j < i \<and> i \<le> ?k \<longrightarrow> \<not> starts_turn (de_body (?es ! i))"
      using es turn(2) by (auto simp: nth_append nth_Cons' le_less)
  qed (use at turn in auto)
  ultimately have pt: "cut_firstKeptEntryIndex ?pt = ?k" "cut_turnStartIndex ?pt = Some ?j" "cut_isSplitTurn ?pt"
    using v unfolding findCutPoint_def Let_def by auto
  have c': "getMessageFromEntryForCompaction c = None"
    using c by (cases "de_body c") (auto simp: getMessageFromEntryForCompaction_def getMessageFromEntry_def de_type_def)
  have "messages_between 0 ?j ?es = List.map_filter getMessageFromEntryForCompaction xs"
    "messages_between ?j ?k ?es = List.map_filter getMessageFromEntryForCompaction (t # ys)"
    "messages_between ?k (length ?es) ?es = List.map_filter getMessageFromEntryForCompaction (u # zs)"
    using es c' by (simp_all add: messages_between_def slice_def map_filter_simps)
  then show ?thesis using prepareCompaction_parts(3-5,9) [OF prep] pt by simp
qed

section \<open>A branch to compact\<close>

text \<open>A question, an answer that calls a tool, the result, and another question.\<close>

definition demo_entry :: "string \<Rightarrow> string option \<Rightarrow> int \<Rightarrow> message \<Rightarrow> entry" where
  "demo_entry i parent seq m =
    \<lparr>de_id = i, de_parentId = parent, de_customType = None, de_body = MessageB (Core m) False, de_seq = seq,
     de_timestamp = 0\<rparr>"

definition demo_user :: "string \<Rightarrow> message" where
  "demo_user s = User \<lparr>um_content = Plain s, um_timestamp = 0\<rparr>"

definition demo_call :: message where
  "demo_call = Assistant \<lparr>am_content = [AToolCallB \<lparr>tc_id = ''c'', tc_name = ''read'',
       tc_arguments = JObj [(''path'', JStr ''f'')], tc_thoughtSignature = None, tc_namespace = None\<rparr>],
     am_api = [], am_provider = [], am_model = [], am_responseModel = None, am_responseId = None,
     am_providerThinkingLevel = None, am_diagnostics = None, am_usage = emptyUsage, am_stopReason = ToolUse,
     am_deferred = None, am_errorMessage = None, am_rawStopReason = None, am_endTurn = None, am_timestamp = 0\<rparr>"

definition demo_result :: message where
  "demo_result = ToolResult \<lparr>tr_toolCallId = ''c'', tr_toolName = ''read'', tr_content = [text_block ''12345678''],
     tr_details = None, tr_usage = None, tr_addedToolNames = None, tr_isError = False, tr_timestamp = 0\<rparr>"

definition demo_turn :: "entry list" where
  "demo_turn = [demo_entry ''a'' None 1 (demo_user ''1234''), demo_entry ''b'' (Some ''a'') 2 demo_call,
     demo_entry ''r'' (Some ''b'') 3 demo_result]"

definition demo_path :: "entry list" where
  "demo_path = demo_turn @ [demo_entry ''d'' (Some ''r'') 4 (demo_user ''5678'')]"

definition demo_settings :: compaction_settings where
  "demo_settings = \<lparr>cs_enabled = True, cs_reserveTokens = 0, cs_keepRecentTokens = 1\<rparr>"

definition demo_json :: "json \<Rightarrow> string" where
  "demo_json v = ''{}''"

lemmas demo_simps = demo_path_def demo_turn_def demo_entry_def demo_user_def demo_call_def demo_result_def
  demo_settings_def demo_json_def text_block_def de_type_def

lemma demo_prepared:
  "prepareCompaction demo_json demo_path demo_settings \<noteq> None"
  "prepareCompaction demo_json demo_turn demo_settings \<noteq> None"
  by (simp_all add: prepareCompaction_def demo_simps Let_def)

lemma demo_compacted:
  "compacted_entries demo_path = demo_path" "compacted_entries demo_turn = demo_turn"
  by (simp_all add: compacted_entries_def compactable_def demo_simps)

definition demo_compaction :: "compaction_preparation \<Rightarrow> entry" where
  "demo_compaction p = materializeCommittedEntry (compaction_entry p ''s'' (Some ''d'') ''sum'' None None False) 5 0"

theorem compaction_keeps_calls_witness:
  "\<exists>p. prepareCompaction demo_json demo_path demo_settings = Some p \<and>
    paired (cp_messagesToSummarize p) \<and> paired (cp_turnPrefixMessages p) \<and> paired (cp_retainedTail p)"
proof -
  obtain p where p: "prepareCompaction demo_json demo_path demo_settings = Some p" using demo_prepared(1) by blast
  have "paired (List.map_filter getMessageFromEntryForCompaction (compacted_entries demo_path))"
    unfolding demo_compacted
    by (simp add: demo_simps paired_def map_filter_simps getMessageFromEntryForCompaction_def getMessageFromEntry_def
        tool_calls_def)
  from compaction_keeps_calls [OF p this] p show ?thesis by blast
qed


theorem large_results_keep_all_witness:
  "\<exists>p. prepareCompaction demo_json demo_turn demo_settings = Some p \<and> cp_messagesToSummarize p = [] \<and>
    cp_retainedTail p = List.map_filter getMessageFromEntryForCompaction demo_turn"
proof -
  obtain p where p: "prepareCompaction demo_json demo_turn demo_settings = Some p" using demo_prepared(2) by blast
  let ?e = "demo_entry ''a'' None 1 (demo_user ''1234'')" and ?x = "demo_entry ''b'' (Some ''a'') 2 demo_call"
    and ?y = "demo_entry ''r'' (Some ''b'') 3 demo_result"
  have "demo_turn = ?e # [?x] @ [?y]" by (simp add: demo_turn_def)
  with demo_compacted(2) have es: "compacted_entries demo_turn = ?e # [?x] @ [?y]" by (rule trans)
  have "valid_cut (de_body ?e)" "\<forall>y\<in>set [?y]. \<not> valid_cut (de_body y)"
    "cs_keepRecentTokens demo_settings \<le> sum_list (map (entry_tokens demo_json) [?y])"
    "0 < cs_keepRecentTokens demo_settings"
    by (simp_all add: demo_simps entry_tokens_def estimateTokens_def)
  from large_results_keep_all [OF p es this] p show ?thesis by (simp add: demo_compacted)
qed

text \<open>A turn, a custom entry, and the next question, which is all that fits.\<close>

definition demo_custom :: entry where
  "demo_custom = \<lparr>de_id = ''x'', de_parentId = Some ''r'', de_customType = Some ''note'', de_body = CustomB None,
     de_seq = 4, de_timestamp = 0\<rparr>"

definition demo_marked :: "entry list" where
  "demo_marked = demo_turn @ [demo_custom, demo_entry ''d'' (Some ''x'') 5 (demo_user ''5678'')]"

lemma custom_entry_splits_turn_demo:
  "\<exists>p. prepareCompaction demo_json demo_marked demo_settings = Some p \<and> cp_isSplitTurn p \<and>
    cp_messagesToSummarize p = [] \<and>
    cp_turnPrefixMessages p = List.map_filter getMessageFromEntryForCompaction demo_turn"
proof -
  obtain p where p: "prepareCompaction demo_json demo_marked demo_settings = Some p"
    by (simp add: prepareCompaction_def demo_marked_def demo_simps Let_def)
  let ?t = "demo_entry ''a'' None 1 (demo_user ''1234'')" and ?u = "demo_entry ''d'' (Some ''x'') 5 (demo_user ''5678'')"
  let ?ys = "[demo_entry ''b'' (Some ''a'') 2 demo_call, demo_entry ''r'' (Some ''b'') 3 demo_result]"
  have "compacted_entries demo_marked = demo_marked"
    by (simp add: compacted_entries_def compactable_def demo_marked_def demo_custom_def demo_simps)
  moreover have "demo_marked = [] @ (?t # ?ys) @ demo_custom # ?u # []" by (simp add: demo_marked_def demo_turn_def)
  ultimately have es: "compacted_entries demo_marked = [] @ (?t # ?ys) @ demo_custom # ?u # []" by (rule trans)
  have "starts_turn (de_body ?t)" "\<forall>y\<in>set ?ys. \<not> starts_turn (de_body y)" "de_type (last (?t # ?ys)) = MessageT"
    "de_type demo_custom = CustomT" "de_body ?u = MessageB (Core (User \<lparr>um_content = Plain ''5678'', um_timestamp = 0\<rparr>)) False"
    "sum_list (map (entry_tokens demo_json) []) < cs_keepRecentTokens demo_settings"
    "cs_keepRecentTokens demo_settings \<le> sum_list (map (entry_tokens demo_json) (?u # []))"
    by (simp_all add: demo_simps demo_custom_def entry_tokens_def estimateTokens_def)
  from custom_entry_splits_turn [OF p es this] p show ?thesis
    by (simp add: demo_turn_def map_filter_simps)
qed

text \<open>The note of the custom entry, which a projector puts into the context, does not survive.\<close>

definition demo_note :: coding_message where
  "demo_note = Core (demo_user ''note'')"

definition note_projectors :: "string \<Rightarrow> (entry \<Rightarrow> coding_message list option) option" where
  "note_projectors t = (if t = ''note'' then Some (\<lambda>e. Some [demo_note]) else None)"


end
