(* ===== verification/SummariesProps.thy ===== *)
theory SummariesProps imports Summaries CompactionProps DurableProps begin

text \<open>
  Properties of summaries: what is summarized when a branch is left, the token budget of that
  summary, and the file lists that compactions hand on.
\<close>

section \<open>The entries of an abandoned branch\<close>

lemma lineage_suffix:
  assumes "tree_wf es" "index_of es i = Some e" "lineage es i = us @ x # vs"
  shows "lineage es (de_id x) = x # vs"
  using assms
proof (induction i e arbitrary: us rule: lineage_induct)
  case (step i e)
  note l = lineage_step [OF assms(1) step.hyps]
  show ?case
  proof (cases us)
    case Nil
    then have "x = e" using step.prems l by simp
    with step.prems Nil index_of_Some [OF step.hyps] show ?thesis by simp
  next
    case (Cons y ws)
    with step.prems l have rest: "path_from es (de_parentId e) = ws @ x # vs" by auto
    then obtain p where p: "de_parentId e = Some p" by (cases "de_parentId e") auto
    obtain e' where "index_of es p = Some e'" using parent_known [OF assms(1) step.hyps p] by blast
    with step.IH [OF p this] rest p show ?thesis by simp
  qed
qed

lemma collect_loop_path:
  assumes wf: "tree_wf es" and i: "index_of es i = Some e"
    and s: "sn_status s = SOpen" "ss_entries (sn_storage s) = index_of es" and ids: "\<forall>x\<in>set es. de_id x \<noteq> []"
    and c: "case c of None \<Rightarrow> True | Some j \<Rightarrow> j \<in> de_id ` set (lineage es i)"
  shows "\<exists>new. collect_loop s c (Some i) acc = Some (Inr (acc @ new)) \<and> lineage es i = new @ path_from es c"
  using wf i c
proof (induction i e arbitrary: acc rule: lineage_induct)
  case (step i e)
  have id: "de_id e = i" "i \<noteq> []" using index_of_Some [OF step.hyps] ids by auto
  note l = lineage_step [OF wf step.hyps]
  note eq = collect_loop.simps [of s c "Some i"]
  have ne: "nonempty (Some i) = Some i" "nonempty None = None" using id by (simp_all add: nonempty_def)
  have get: "session_getEntry i s = Inr (Some e)"
    using s step.hyps by (simp add: session_getEntry_def session_getEntries_def whenOpen_def getEntries_def)
  show ?case
  proof (cases "c = Some i")
    case True
    then show ?thesis
      by (intro exI [of _ "[]"]) (simp add: collect_loop.simps [of s "Some i" "Some i"] ne)
  next
    case False
    show ?thesis
    proof (cases "de_parentId e")
      case None
      with step.prems l id False have "c = None" by (cases c) auto
      with None l show ?thesis
        by (intro exI [of _ "[e]"]) (simp add: ne get collect_loop.simps [of s None "Some i"] collect_loop.simps [of s None None])
    next
      case (Some p)
      obtain e' where p: "index_of es p = Some e'" using parent_known [OF wf step.hyps Some] by blast
      have "case c of None \<Rightarrow> True | Some j \<Rightarrow> j \<in> de_id ` set (lineage es p)"
        using step.prems l Some id False by (auto split: option.splits)
      from step.IH [OF Some p this, of "acc @ [e]"] obtain new where
        "collect_loop s c (Some p) (acc @ [e]) = Some (Inr ((acc @ [e]) @ new))" "lineage es p = new @ path_from es c"
        by blast
      with False Some l show ?thesis by (intro exI [of _ "e # new"]) (simp add: eq ne get)
    qed
  qed
qed

lemma open_scan_path:
  assumes "storage_inv fadd (sn_storage s)" "sn_status s = SOpen" "ss_entries (sn_storage s) i = Some e"
  shows "branch_findEntries b (Some i) open_scan s = Some (Inr (lineage (ss_bySeq (sn_storage s)) i))"
proof -
  have "open_scan = no_query" by (simp add: open_scan_def no_query_def)
  with scanBranch_inv [OF assms(1,3)] assms(2) scan_plain show ?thesis
    by (simp add: branch_findEntries_def session_scanBranch_def)
qed

text \<open>
  C23. Leaving a branch for an entry elsewhere, the entries to summarize are found: in chronological
  order they are exactly the part of the old branch after its deepest common ancestor with the
  target, so nothing that the target still sees is summarized and nothing else of the old branch is
  left out; without a common ancestor it is the whole old branch.
\<close>

theorem left_branch_collected:
  assumes inv: "storage_inv fadd (sn_storage s)" and s: "sn_status s = SOpen"
    and ids: "\<forall>x\<in>set (ss_bySeq (sn_storage s)). de_id x \<noteq> []"
    and old: "ss_entries (sn_storage s) old = Some eo" and target: "ss_entries (sn_storage s) target = Some et"
  defines "es \<equiv> ss_bySeq (sn_storage s)"
  shows "\<exists>new common. collectEntriesForBranchSummary b s (Some old) target = Some (Inr (new, common)) \<and>
    rev (lineage es old) = rev (path_from es common) @ new \<and>
    (case common of None \<Rightarrow> True | Some c \<Rightarrow> \<exists>us. lineage es target = us @ lineage es c) \<and>
    set new \<inter> set (lineage es target) = {}"
proof -
  have wf: "tree_wf es" and ix: "ss_entries (sn_storage s) = index_of es"
    using inv_tree_wf [OF inv] inv by (simp_all add: storage_inv_def es_def)
  have io: "index_of es old = Some eo" "index_of es target = Some et" using old target ix by simp_all
  have "eo \<in> set es" "de_id eo = old" using index_of_Some [OF io(1)] by simp_all
  then have ne: "nonempty (Some old) = Some old" using ids by (auto simp: nonempty_def es_def)
  let ?old = "lineage es old" and ?tgt = "lineage es target"
  let ?find = "List.find (\<lambda>e. de_id e \<in> de_id ` set ?old) ?tgt"
  define c where "c = map_option de_id ?find"
  have dist: "distinct (map de_id ?old)" by (rule lineage_ids_distinct [OF wf])
  have "case c of None \<Rightarrow> True | Some j \<Rightarrow> j \<in> de_id ` set ?old"
    unfolding c_def by (auto dest: find_Some_mem split: option.split)
  from collect_loop_path [OF wf io(1) s ix ids [folded es_def] this, of "[]"]
  obtain new where new: "collect_loop s c (Some old) [] = Some (Inr new)" "?old = new @ path_from es c" by auto
  have call: "collectEntriesForBranchSummary b s (Some old) target = Some (Inr (rev new, c))"
    using ne new(1) open_scan_path [OF inv s old, of b] open_scan_path [OF inv s target, of b]
    by (simp add: collectEntriesForBranchSummary_def es_def c_def)
  have sub: "de_id ` set new \<subseteq> de_id ` set ?old" by (simp add: new(2) image_Un)
  have tgt: "(case c of None \<Rightarrow> True | Some c \<Rightarrow> \<exists>us. ?tgt = us @ lineage es c) \<and> set new \<inter> set ?tgt = {}"
  proof (cases ?find)
    case None
    then have "\<forall>x\<in>set ?tgt. de_id x \<notin> de_id ` set ?old" by (auto simp: find_None_iff)
    then have "set new \<inter> set ?tgt = {}" using sub by blast
    with None show ?thesis by (simp add: c_def)
  next
    case (Some x)
    then obtain n where n: "n < length ?tgt" "?tgt ! n = x" "\<forall>m<n. de_id (?tgt ! m) \<notin> de_id ` set ?old"
      by (auto simp: find_Some_iff)
    have split: "?tgt = take n ?tgt @ x # drop (Suc n) ?tgt" using n by (metis id_take_nth_drop)
    have "lineage es (de_id x) = x # drop (Suc n) ?tgt" by (rule lineage_suffix [OF wf io(2) split])
    moreover have "de_id y \<notin> de_id ` set ?old" if y: "y \<in> set (take n ?tgt)" for y
    proof -
      from y obtain m where "m < n" "y = ?tgt ! m" by (auto simp: in_set_conv_nth)
      with n(3) show ?thesis by blast
    qed
    ultimately obtain us where us: "?tgt = us @ lineage es (de_id x)" "\<And>y. y \<in> set us \<Longrightarrow> de_id y \<notin> de_id ` set ?old"
      using split by metis
    have "set new \<inter> set us = {}" using sub us(2) by blast
    moreover have c: "c = Some (de_id x)" by (simp add: c_def Some)
    then have "set new \<inter> set (lineage es (de_id x)) = {}" using dist new(2) by auto
    moreover have "set ?tgt = set us \<union> set (lineage es (de_id x))" by (metis us(1) set_append)
    ultimately have "set new \<inter> set ?tgt = {}" by blast
    with us(1) have "?tgt = us @ lineage es (de_id x) \<and> set new \<inter> set ?tgt = {}" by blast
    then show ?thesis unfolding c option.case by blast
  qed
  have "rev ?old = rev (path_from es c) @ rev new" by (simp only: new(2) rev_append)
  with call tgt show ?thesis by (intro exI [of _ "rev new"] exI [of _ c]) (simp only: set_rev simp_thms)
qed

theorem left_branch_collected_witness:
  "\<exists>new common. collectEntriesForBranchSummary ''main'' open_session (Some ''b'') ''c'' = Some (Inr (new, common)) \<and>
    rev (lineage (ss_bySeq branch_state) ''b'') = rev (path_from (ss_bySeq branch_state) common) @ new"
proof -
  let ?st = "sn_storage open_session"
  have st: "?st = branch_state" by (simp add: open_session_def)
  have inv: "storage_inv (+) ?st" "sn_status open_session = SOpen"
    using branch_state_inv by (simp_all add: open_session_def)
  have ids: "\<forall>x\<in>set (ss_bySeq ?st). de_id x \<noteq> []" unfolding st by (simp add: branch_state_eval Let_def)
  obtain eb ec where "ss_entries ?st ''b'' = Some eb" "ss_entries ?st ''c'' = Some ec"
    unfolding st by (simp add: branch_state_eval Let_def)
  from left_branch_collected [OF inv ids this, of "''main''"] show ?thesis unfolding st by blast
qed

section \<open>The budget of a branch summary\<close>

definition older_summary :: "coding_message \<Rightarrow> bool" where
  "older_summary m = (case m of BranchSummary b \<Rightarrow> True | CompactionSummary c \<Rightarrow> True | _ \<Rightarrow> False)"

lemma branch_message_summary:
  "branch_message e = Some m \<Longrightarrow> de_type e = CompactionT \<or> de_type e = BranchSummaryT \<Longrightarrow> older_summary m"
  by (auto simp: branch_message_def de_type_def older_summary_def split: entry_body.splits)

lemma prepare_loop_parts:
  "\<exists>ms. bp_messages (prepare_loop stringify es budget k p) = ms @ bp_messages p \<and>
    bp_totalTokens (prepare_loop stringify es budget k p) =
      sum_list (map (estimateTokens stringify) ms) + bp_totalTokens p \<and>
    (\<exists>us. List.map_filter branch_message (take k es) = us @ ms) \<and>
    (budget \<le> 0 \<longrightarrow> ms = List.map_filter branch_message (take k es)) \<and>
    (0 < budget \<longrightarrow> int (bp_totalTokens p) \<le> budget \<longrightarrow>
      int (bp_totalTokens (prepare_loop stringify es budget k p)) \<le> budget \<or>
      (\<exists>m rest. ms = m # rest \<and> older_summary m \<and>
        10 * int (sum_list (map (estimateTokens stringify) rest) + bp_totalTokens p) < 9 * budget))"
  if "k \<le> length es"
  using that
proof (induction k arbitrary: p)
  case 0
  then show ?case by (simp add: map_filter_simps)
next
  case (Suc k)
  have t: "List.map_filter branch_message (take (Suc k) es) =
      List.map_filter branch_message (take k es) @ (case branch_message (es ! k) of None \<Rightarrow> [] | Some m \<Rightarrow> [m])"
    using Suc.prems by (simp add: take_Suc_conv_app_nth map_filter_simps split: option.split)
  show ?case
  proof (cases "branch_message (es ! k)")
    case None
    with Suc.IH [of p] Suc.prems t show ?thesis by simp
  next
    case (Some m)
    let ?q = "p\<lparr>bp_fileOps := extractFileOpsFromMessage m (bp_fileOps p)\<rparr>"
    let ?n = "estimateTokens stringify m"
    let ?a = "?q\<lparr>bp_messages := m # bp_messages p, bp_totalTokens := bp_totalTokens p + ?n\<rparr>"
    show ?thesis
    proof (cases "0 < budget \<and> budget < int (bp_totalTokens p + ?n)")
      case True
      then show ?thesis using Some t branch_message_summary [OF Some] by (auto simp: Let_def)
    next
      case False
      then have eq: "prepare_loop stringify es budget (Suc k) p = prepare_loop stringify es budget k ?a"
        using Some by (auto simp: Let_def)
      obtain ms us where ms: "bp_messages (prepare_loop stringify es budget k ?a) = ms @ bp_messages ?a"
        "bp_totalTokens (prepare_loop stringify es budget k ?a) =
          sum_list (map (estimateTokens stringify) ms) + bp_totalTokens ?a"
        "List.map_filter branch_message (take k es) = us @ ms"
        "budget \<le> 0 \<longrightarrow> ms = List.map_filter branch_message (take k es)"
        "0 < budget \<longrightarrow> int (bp_totalTokens ?a) \<le> budget \<longrightarrow>
          int (bp_totalTokens (prepare_loop stringify es budget k ?a)) \<le> budget \<or>
          (\<exists>m rest. ms = m # rest \<and> older_summary m \<and>
            10 * int (sum_list (map (estimateTokens stringify) rest) + bp_totalTokens ?a) < 9 * budget)"
        using Suc.IH [of ?a] Suc.prems by auto
      have "(\<exists>m' rest. ms @ [m] = m' # rest \<and> older_summary m' \<and>
          10 * int (sum_list (map (estimateTokens stringify) rest) + bp_totalTokens p) < 9 * budget)"
        if "ms = m' # rest" "older_summary m'"
          "10 * int (sum_list (map (estimateTokens stringify) rest) + bp_totalTokens ?a) < 9 * budget" for m' rest
        using that by (intro exI [of _ m'] exI [of _ "rest @ [m]"]) simp
      with ms False Some t show ?thesis unfolding eq by (intro exI [of _ "ms @ [m]"]) auto
    qed
  qed
qed

text \<open>
  C29. The messages selected for the summary of a branch are the newest ones: a suffix of its messages,
  all of them when there is no budget, whose estimated tokens are counted exactly and stay within
  the budget, except that one older summary may still be added while less than nine tenths of the
  budget are used.
\<close>

theorem branch_messages_in_budget:
  assumes "p = prepareBranchEntries stringify es budget"
  shows "(\<exists>us. List.map_filter branch_message es = us @ bp_messages p) \<and>
    bp_totalTokens p = sum_list (map (estimateTokens stringify) (bp_messages p)) \<and>
    (if budget \<le> 0 then bp_messages p = List.map_filter branch_message es
     else int (bp_totalTokens p) \<le> budget \<or> bp_messages p \<noteq> [] \<and> older_summary (hd (bp_messages p)) \<and>
       10 * int (sum_list (map (estimateTokens stringify) (tl (bp_messages p)))) < 9 * budget)"
proof -
  let ?p0 = "\<lparr>bp_messages = [], bp_fileOps = fold (\<lambda>e. add_details (branch_details (de_body e))) es createFileOps,
       bp_totalTokens = 0\<rparr>"
  have p: "p = prepare_loop stringify es budget (length es) ?p0" using assms by (simp add: prepareBranchEntries_def)
  have zero: "bp_messages ?p0 = []" "bp_totalTokens ?p0 = 0" by simp_all
  obtain ms where ms: "bp_messages p = ms @ bp_messages ?p0"
    "bp_totalTokens p = sum_list (map (estimateTokens stringify) ms) + bp_totalTokens ?p0"
    "\<exists>us. List.map_filter branch_message (take (length es) es) = us @ ms"
    "budget \<le> 0 \<longrightarrow> ms = List.map_filter branch_message (take (length es) es)"
    "0 < budget \<longrightarrow> int (bp_totalTokens ?p0) \<le> budget \<longrightarrow> int (bp_totalTokens p) \<le> budget \<or>
      (\<exists>m rest. ms = m # rest \<and> older_summary m \<and>
        10 * int (sum_list (map (estimateTokens stringify) rest) + bp_totalTokens ?p0) < 9 * budget)"
    using prepare_loop_parts [of "length es" es stringify budget ?p0, OF order_refl] unfolding p by blast
  have m: "bp_messages p = ms" using ms(1) zero(1) by simp
  have "0 < budget \<Longrightarrow> int (bp_totalTokens p) \<le> budget \<or> ms \<noteq> [] \<and> older_summary (hd ms) \<and>
      10 * int (sum_list (map (estimateTokens stringify) (tl ms))) < 9 * budget"
    using ms(5) unfolding zero by fastforce
  with ms(2-4) show ?thesis unfolding m zero by (cases "budget \<le> 0") simp_all
qed

theorem branch_messages_in_budget_witness:
  "bp_totalTokens (prepareBranchEntries demo_json demo_path 1) =
    sum_list (map (estimateTokens demo_json) (bp_messages (prepareBranchEntries demo_json demo_path 1)))"
  using branch_messages_in_budget [OF refl, of demo_path demo_json 1] by blast

section \<open>File lists\<close>

lemma set_add_set [simp]: "set (set_add x s) = insert x (set s)"
  by (auto simp: set_add_def)

lemma fold_set_add [simp]: "set (fold set_add xs s) = set xs \<union> set s"
  by (induction xs arbitrary: s) auto

lemma set_insort_by [simp]: "set (insort_by cmp x xs) = insert x (set xs)"
  by (induction xs) auto

lemma set_sort_by [simp]: "set (sort_by cmp xs) = set xs"
  by (induction xs) (simp_all add: sort_by_def)

definition ops_grow :: "file_operations \<Rightarrow> file_operations \<Rightarrow> bool" where
  "ops_grow a b \<longleftrightarrow> set (fo_read a) \<subseteq> set (fo_read b) \<and> set (fo_written a) \<subseteq> set (fo_written b) \<and>
    set (fo_edited a) \<subseteq> set (fo_edited b)"

lemma ops_grow_refl [simp]: "ops_grow a a"
  by (simp add: ops_grow_def)

lemma ops_grow_trans: "ops_grow a b \<Longrightarrow> ops_grow b c \<Longrightarrow> ops_grow a c"
  by (auto simp: ops_grow_def)

lemma ops_grow_fold: "(\<And>x a. ops_grow a (f x a)) \<Longrightarrow> ops_grow a (fold f xs a)"
  by (induction xs arbitrary: a) (auto intro: ops_grow_trans)

lemma extract_grows: "ops_grow a (extractFileOpsFromMessage m a)"
proof -
  have block: "ops_grow a (extract_block b a)" for b a
    by (cases b) (auto simp: ops_grow_def split: option.split)
  show ?thesis
    by (cases "(m, a)" rule: extractFileOpsFromMessage.cases) (auto intro: ops_grow_fold block)
qed

text \<open>What the two lists name.\<close>

lemma file_lists_sets:
  "set (snd (computeFileLists ops)) = set (fo_written ops) \<union> set (fo_edited ops)"
  "set (fst (computeFileLists ops)) = set (fo_read ops) - (set (fo_written ops) \<union> set (fo_edited ops))"
  by (auto simp: computeFileLists_def Let_def)

lemma map_filter_strings: "List.map_filter json_string (map JStr xs) = xs"
  by (induction xs) (simp_all add: map_filter_simps)

lemma finished_details:
  "detail_paths ''readFiles'' (Some (cx_details (finish_compaction p s u))) = fst (computeFileLists (cp_fileOps p))"
  "detail_paths ''modifiedFiles'' (Some (cx_details (finish_compaction p s u))) = snd (computeFileLists (cp_fileOps p))"
  by (simp_all add: finish_compaction_def detail_paths_def paths_json_def map_filter_strings split: prod.split)

text \<open>A successful compaction ends in \<open>finish_compaction\<close>.\<close>

lemma retA_Inr: "retA x w = (Inr y, w') \<longleftrightarrow> x = y \<and> w' = w"
  by (auto simp: retA_def)

lemma not_Inl: "(\<forall>x. a \<noteq> Inl x) \<longleftrightarrow> (\<exists>y. a = Inr y)"
  by (cases a) auto

lemma compact_finishes:
  assumes "compactWithRequest fadd env p custom level w = (Inr (Inr r), w')"
  shows "\<exists>s u. r = finish_compaction p s u"
  using assms
  by (auto simp: compactWithRequest_def Let_def bindA_Inr retA_Inr bindE_eq_Inr not_Inl
      split: if_split_asm sum.split_asm prod.split_asm) blast

text \<open>
  C27. The file lists survive compactions: every file that a compaction recorded as modified is
  modified for the next one as well, every file it recorded as read is read or modified, and no file
  is in both lists. A compaction returns the retained tail and the size it was prepared with.
\<close>

theorem file_lists_survive:
  assumes "compactWithRequest fadd env p custom level w = (Inr (Inr r), w')"
    and "prepareCompaction stringify path settings = Some q"
    and "last_compaction path (length path) = Some i" "compaction_details (de_body (path ! i)) = Some (cx_details r)"
    and "computeFileLists (cp_fileOps p) = (reads, mods)" "computeFileLists (cp_fileOps q) = (reads', mods')"
  shows "set mods \<subseteq> set mods' \<and> set reads \<subseteq> set reads' \<union> set mods' \<and> set reads' \<inter> set mods' = {} \<and>
    cx_retainedTail r = cp_retainedTail p \<and> cx_tokensBefore r = cp_tokensBefore p"
proof -
  obtain s u where r: "r = finish_compaction p s u" using compact_finishes [OF assms(1)] by blast
  let ?base = "add_details (Some (cx_details r)) createFileOps"
  have base: "set (fo_read ?base) = set reads" "set (fo_edited ?base) = set mods"
    using assms(5) by (simp_all add: r add_details_def finished_details createFileOps_def)
  have grow: "ops_grow ?base (extractFileOperations ms path (Some i))" for ms
    using assms(4) by (simp add: extractFileOperations_def ops_grow_fold extract_grows)
  have "ops_grow ?base (cp_fileOps q)"
    using assms(2,3) grow
    by (auto simp: prepareCompaction_def Let_def split: if_splits
        intro: ops_grow_trans [OF grow ops_grow_fold [OF extract_grows]])
  then have "set reads \<subseteq> set (fo_read (cp_fileOps q))" "set mods \<subseteq> set (fo_edited (cp_fileOps q))"
    using base by (simp_all add: ops_grow_def)
  moreover have "set mods' = set (fo_written (cp_fileOps q)) \<union> set (fo_edited (cp_fileOps q))"
    "set reads' = set (fo_read (cp_fileOps q)) - (set (fo_written (cp_fileOps q)) \<union> set (fo_edited (cp_fileOps q)))"
    using file_lists_sets [of "cp_fileOps q"] assms(6) by simp_all
  moreover have "cx_retainedTail r = cp_retainedTail p \<and> cx_tokensBefore r = cp_tokensBefore p"
    by (simp add: r finish_compaction_def split: prod.split)
  ultimately show ?thesis by blast
qed

definition demo_response :: assistant_message where
  "demo_response = \<lparr>am_content = [ATextB \<lparr>tx_text = ''sum'', tx_signature = None\<rparr>],
     am_api = [], am_provider = [], am_model = [], am_responseModel = None, am_responseId = None,
     am_providerThinkingLevel = None, am_diagnostics = None, am_usage = emptyUsage, am_stopReason = Stop,
     am_deferred = None, am_errorMessage = None, am_rawStopReason = None, am_endTurn = None, am_timestamp = 0\<rparr>"

definition demo_env :: "unit summary_env" where
  "demo_env = \<lparr>se_stringify = demo_json, se_now = (\<lambda>w. 0), se_request = (\<lambda>req. retA demo_response),
     se_maxTokens = 0, se_reasoning = False\<rparr>"

lemma demo_read: "\<exists>u. read_response a f demo_response = Inr (''sum'', u)"
  by (simp add: read_response_def demo_response_def assistantText_def map_filter_simps)

lemma demo_ask: "ask demo_env prompt n level = retA demo_response"
  by (simp add: ask_def demo_env_def bindA_def getA_def retA_def)

lemma demo_compacts: "\<exists>r. compactWithRequest (+) demo_env p None None () = (Inr (Inr r), ())"
proof -
  obtain u v where "read_response ''Summarization aborted'' ''Summarization failed'' demo_response = Inr (''sum'', u)"
    "read_response ''Turn prefix summarization aborted'' ''Turn prefix summarization failed'' demo_response =
      Inr (''sum'', v)" using demo_read by blast
  then show ?thesis
    by (simp add: compactWithRequest_def generateSummaryWithRequest_def generateTurnPrefixSummary_def demo_ask Let_def
        retA_Inr)
qed

definition demo_later :: "compact_result \<Rightarrow> entry list" where
  "demo_later r = demo_path @
    [\<lparr>de_id = ''s'', de_parentId = Some ''d'', de_customType = None,
      de_body = CompactionB (cx_summary r) (cx_retainedTail r) (cx_tokensBefore r) (Some (cx_details r)) None False,
      de_seq = 5, de_timestamp = 0\<rparr>, demo_entry ''e'' (Some ''s'') 6 (demo_user ''next'')]"

theorem file_lists_survive_witness:
  "\<exists>p r q. prepareCompaction demo_json demo_path demo_settings = Some p \<and>
    compactWithRequest (+) demo_env p None None () = (Inr (Inr r), ()) \<and>
    prepareCompaction demo_json (demo_later r) demo_settings = Some q \<and>
    set (snd (computeFileLists (cp_fileOps p))) \<subseteq> set (snd (computeFileLists (cp_fileOps q)))"
proof -
  obtain p where p: "prepareCompaction demo_json demo_path demo_settings = Some p" using demo_prepared(1) by blast
  obtain r where r: "compactWithRequest (+) demo_env p None None () = (Inr (Inr r), ())" using demo_compacts by blast
  let ?path = "demo_later r"
  obtain q where q: "prepareCompaction demo_json ?path demo_settings = Some q"
    by (simp add: prepareCompaction_def demo_later_def demo_entry_def de_type_def Let_def)
  have "last_compaction ?path (length ?path) = Some 4"
    "compaction_details (de_body (?path ! 4)) = Some (cx_details r)"
    by (simp_all add: demo_later_def demo_simps nth_append)
  from file_lists_survive [OF r q this prod.collapse [symmetric] prod.collapse [symmetric]] p q r
  show ?thesis by blast
qed

end
