(* ===== verification/JsonlStore.thy ===== *)
theory JsonlStore imports DurableState begin

text \<open>
  \<open>JsonlStorage\<close> of \<open>packages/agent/src/harness/session/jsonl\<close>: a durable session in a file of JSON
  lines, a header and one transaction per line. The file system is a map from paths to contents with
  a schedule of outcomes: an operation takes the next one, and succeeds when the schedule is
  exhausted. \<open>Failed n m\<close> reports the message \<open>m\<close>; when it writes, the first \<open>n\<close> characters have
  reached the file, so a write that lands and is then reported as aborted fails with all of them.
  \<open>JSON.stringify\<close>, \<open>JSON.parse\<close> and the object of an entry or usage row are parameters; the casts of
  a parsed object trust its shape.
\<close>

section \<open>The file system\<close>

datatype fs_outcome = Done | Failed nat string

record file_system =
  fx_files :: "string \<rightharpoonup> string"
  fx_outcomes :: "fs_outcome list"

type_synonym 'a fs_op = "file_system \<Rightarrow> (string + 'a) \<times> file_system"
type_synonym 'a io = "file_system \<Rightarrow> (durable_error + 'a) \<times> file_system"

definition next_outcome :: "file_system \<Rightarrow> fs_outcome \<times> file_system" where
  "next_outcome f = (case fx_outcomes f of [] \<Rightarrow> (Done, f) | x # xs \<Rightarrow> (x, f\<lparr>fx_outcomes := xs\<rparr>))"

definition fs_write :: "(string \<Rightarrow> string option \<Rightarrow> string) \<Rightarrow> string \<Rightarrow> string \<Rightarrow> unit fs_op" where
  "fs_write change path content f =
    (case next_outcome f of
       (Done, f) \<Rightarrow> (Inr (), f\<lparr>fx_files := (fx_files f)(path \<mapsto> change content (fx_files f path))\<rparr>)
     | (Failed n m, f) \<Rightarrow>
         (Inl m, if n = 0 then f else f\<lparr>fx_files := (fx_files f)(path \<mapsto> change (take n content) (fx_files f path))\<rparr>))"

definition writeFile :: "string \<Rightarrow> string \<Rightarrow> unit fs_op" where
  "writeFile = fs_write (\<lambda>content old. content)"

definition appendFile :: "string \<Rightarrow> string \<Rightarrow> unit fs_op" where
  "appendFile = fs_write (\<lambda>content old. (case old of None \<Rightarrow> [] | Some c \<Rightarrow> c) @ content)"

text \<open>A rename is atomic and a removal is too: when they fail nothing has changed.\<close>

definition renameFile :: "string \<Rightarrow> string \<Rightarrow> unit fs_op" where
  "renameFile source destination f =
    (case next_outcome f of
       (Failed n m, f) \<Rightarrow> (Inl m, f)
     | (Done, f) \<Rightarrow>
         (case fx_files f source of
            None \<Rightarrow> (Inl ''not_found'', f)
          | Some c \<Rightarrow> (Inr (), f\<lparr>fx_files := (fx_files f)(source := None, destination \<mapsto> c)\<rparr>)))"

definition removeFile :: "string \<Rightarrow> unit fs_op" where
  "removeFile path f =
    (case next_outcome f of
       (Failed n m, f) \<Rightarrow> (Inl m, f)
     | (Done, f) \<Rightarrow> (Inr (), f\<lparr>fx_files := (fx_files f)(path := None)\<rparr>))"

definition readTextFile :: "string \<Rightarrow> string fs_op" where
  "readTextFile path f =
    (case next_outcome f of
       (Failed n m, f) \<Rightarrow> (Inl m, f)
     | (Done, f) \<Rightarrow> (case fx_files f path of None \<Rightarrow> (Inl ''not_found'', f) | Some c \<Rightarrow> (Inr c, f)))"

text \<open>A line reader is what is left to read of the file; closing it has no effect.\<close>

definition openTextLineReader :: "string \<Rightarrow> string fs_op" where
  "openTextLineReader = readTextFile"

definition newline_free :: "string \<Rightarrow> bool" where
  "newline_free s \<longleftrightarrow> newline \<notin> set s"

definition cut_line :: "string \<Rightarrow> (string \<times> bool) option \<times> string" where
  "cut_line content =
    (if content = [] then (None, [])
     else let line = takeWhile (\<lambda>c. c \<noteq> newline) content; more = drop (length line) content
          in (Some (line, more \<noteq> []), tl more))"

definition readLine :: "string \<Rightarrow> ((string \<times> bool) option \<times> string) fs_op" where
  "readLine reader f =
    (case next_outcome f of (Failed n m, f) \<Rightarrow> (Inl m, f) | (Done, f) \<Rightarrow> (Inr (cut_line reader), f))"

section \<open>Actions on files\<close>

definition retIO :: "'a \<Rightarrow> 'a io" where
  "retIO x f = (Inr x, f)"

definition liftIO :: "durable_error + 'a \<Rightarrow> 'a io" where
  "liftIO r f = (r, f)"

definition bindIO :: "'a io \<Rightarrow> ('a \<Rightarrow> 'b io) \<Rightarrow> 'b io" where
  "bindIO m g f = (case m f of (Inl e, f) \<Rightarrow> (Inl e, f) | (Inr x, f) \<Rightarrow> g x f)"

definition fileValue :: "'a fs_op \<Rightarrow> string \<Rightarrow> 'a io" where
  "fileValue result action f =
    (case result f of (Inl m, f) \<Rightarrow> (Inl (DError (action @ '': '' @ m)), f) | (Inr x, f) \<Rightarrow> (Inr x, f))"

section \<open>Headers\<close>

definition JSONL_FORMAT_VERSION :: int where
  "JSONL_FORMAT_VERSION = 4"

definition JSONL_STORAGE_VERSION :: int where
  "JSONL_STORAGE_VERSION = 1"

record jsonl_header =
  jh_id :: string
  jh_storageVersion :: int
  jh_createdAt :: int
  jh_cwd :: string
  jh_parentSessionId :: "string option"
  jh_legacyParentSessionPath :: "string option"
  jh_nextSeq :: "int option"

fun prop_of :: "string \<Rightarrow> json \<Rightarrow> json option" where
  "prop_of k (JObj kvs) = map_of kvs k"
| "prop_of k _ = None"

fun is_record :: "json \<Rightarrow> bool" where
  "is_record (JObj kvs) = True"
| "is_record _ = False"

fun is_text :: "json option \<Rightarrow> bool" where
  "is_text (Some (JStr s)) = True"
| "is_text _ = False"

fun text_of :: "json option \<Rightarrow> string" where
  "text_of (Some (JStr s)) = s"
| "text_of _ = []"

fun is_safe :: "int \<Rightarrow> json option \<Rightarrow> bool" where
  "is_safe minimum (Some (JNum r)) = (r = of_int \<lfloor>r\<rfloor> \<and> isSafeInteger \<lfloor>r\<rfloor> \<and> minimum \<le> \<lfloor>r\<rfloor>)"
| "is_safe minimum _ = False"

fun int_of :: "json option \<Rightarrow> int" where
  "int_of (Some (JNum r)) = \<lfloor>r\<rfloor>"
| "int_of _ = 0"

definition json_int :: "int \<Rightarrow> json" where
  "json_int n = JNum (of_int n)"

definition isLegacyV3SessionHeader :: "(string \<Rightarrow> bool) \<Rightarrow> json \<Rightarrow> bool" where
  "isLegacyV3SessionHeader isDate v \<longleftrightarrow>
    is_record v \<and> prop_of ''type'' v = Some (JStr ''session'') \<and> prop_of ''version'' v = Some (JNum 3) \<and>
    is_text (prop_of ''id'' v) \<and> is_text (prop_of ''cwd'' v) \<and> is_text (prop_of ''timestamp'' v) \<and>
    isDate (text_of (prop_of ''timestamp'' v)) \<and>
    (prop_of ''parentSession'' v = None \<or> is_text (prop_of ''parentSession'' v))"

definition isJsonlStorageHeader :: "json \<Rightarrow> bool" where
  "isJsonlStorageHeader v \<longleftrightarrow>
    is_record v \<and> prop_of ''kind'' v = Some (JStr ''header'') \<and>
    prop_of ''v'' v = Some (json_int JSONL_FORMAT_VERSION) \<and>
    is_text (prop_of ''id'' v) \<and> is_text (prop_of ''cwd'' v) \<and>
    is_safe 1 (prop_of ''storageVersion'' v) \<and> is_safe 0 (prop_of ''createdAt'' v) \<and>
    (prop_of ''nextSeq'' v = None \<or> is_safe 1 (prop_of ''nextSeq'' v)) \<and>
    (prop_of ''parentSessionId'' v = None \<or> is_text (prop_of ''parentSessionId'' v)) \<and>
    (prop_of ''legacyParentSessionPath'' v = None \<or> is_text (prop_of ''legacyParentSessionPath'' v))"

definition header_of :: "json \<Rightarrow> jsonl_header" where
  "header_of v =
    \<lparr>jh_id = text_of (prop_of ''id'' v), jh_storageVersion = int_of (prop_of ''storageVersion'' v),
     jh_createdAt = int_of (prop_of ''createdAt'' v), jh_cwd = text_of (prop_of ''cwd'' v),
     jh_parentSessionId = map_option (\<lambda>x. text_of (Some x)) (prop_of ''parentSessionId'' v),
     jh_legacyParentSessionPath = map_option (\<lambda>x. text_of (Some x)) (prop_of ''legacyParentSessionPath'' v),
     jh_nextSeq = map_option (\<lambda>x. int_of (Some x)) (prop_of ''nextSeq'' v)\<rparr>"

definition optional_field :: "string \<Rightarrow> json option \<Rightarrow> (string \<times> json) list" where
  "optional_field k x = (case x of None \<Rightarrow> [] | Some v \<Rightarrow> [(k, v)])"

definition header_json :: "jsonl_header \<Rightarrow> json" where
  "header_json h = JObj
    ([(''v'', json_int JSONL_FORMAT_VERSION), (''kind'', JStr ''header''), (''id'', JStr (jh_id h)),
      (''storageVersion'', json_int (jh_storageVersion h)), (''createdAt'', json_int (jh_createdAt h)),
      (''cwd'', JStr (jh_cwd h))] @
     optional_field ''parentSessionId'' (map_option JStr (jh_parentSessionId h)) @
     optional_field ''legacyParentSessionPath'' (map_option JStr (jh_legacyParentSessionPath h)) @
     optional_field ''nextSeq'' (map_option json_int (jh_nextSeq h)))"

section \<open>Transactions\<close>

text \<open>What the environment provides: the JSON functions, \<open>Date.parse\<close> and the objects of payloads.\<close>

record jsonl_env =
  jl_stringify :: "json \<Rightarrow> string"
  jl_parse :: "string \<Rightarrow> json option"
  jl_isDate :: "string \<Rightarrow> bool"
  jl_entry :: "new_entry \<Rightarrow> (string \<times> json) list"
  jl_to_entry :: "(string \<times> json) list \<Rightarrow> new_entry"
  jl_usage :: "new_usage \<Rightarrow> (string \<times> json) list"
  jl_to_usage :: "(string \<times> json) list \<Rightarrow> new_usage"
  jl_fadd :: "rat \<Rightarrow> rat \<Rightarrow> rat"

datatype parsed_header = FormatV4 jsonl_header | FormatV3Legacy

definition parseJsonlSessionHeader :: "jsonl_env \<Rightarrow> string \<Rightarrow> durable_error + parsed_header" where
  "parseJsonlSessionHeader env line =
    (case jl_parse env line of
       None \<Rightarrow> Inl (DError ''Invalid JSONL session header: not valid JSON'')
     | Some v \<Rightarrow>
         if isJsonlStorageHeader v then Inr (FormatV4 (header_of v))
         else if isLegacyV3SessionHeader (jl_isDate env) v then Inr FormatV3Legacy
         else Inl (DError ''Unsupported JSONL session header''))"

fun write_fields :: "jsonl_env \<Rightarrow> committed \<Rightarrow> (string \<times> json) list" where
  "write_fields env (CEntry e) = (''kind'', JStr ''entry'') # jl_entry env (new_entry.truncate e) @
     [(''seq'', json_int (de_seq e)), (''timestamp'', json_int (de_timestamp e))]"
| "write_fields env (CUsage r) = (''kind'', JStr ''usage'') # jl_usage env (new_usage.truncate r) @
     [(''seq'', json_int (ur_seq r))]"
| "write_fields env (CValueSet seq n k v) =
     [(''kind'', JStr ''value''), (''op'', JStr ''set''), (''seq'', json_int seq), (''namespace'', JStr n),
      (''key'', JStr k), (''value'', v)]"
| "write_fields env (CValueDelete seq n k) =
     [(''kind'', JStr ''value''), (''op'', JStr ''delete''), (''seq'', json_int seq), (''namespace'', JStr n),
      (''key'', JStr k)]"
| "write_fields env (CListAppend seq n k v) =
     [(''kind'', JStr ''list''), (''op'', JStr ''append''), (''seq'', json_int seq), (''namespace'', JStr n),
      (''key'', JStr k), (''value'', v)]"
| "write_fields env (CListDelete seq n k) =
     [(''kind'', JStr ''list''), (''op'', JStr ''delete''), (''seq'', json_int seq), (''namespace'', JStr n),
      (''key'', JStr k)]"

definition write_json :: "jsonl_env \<Rightarrow> committed \<Rightarrow> json" where
  "write_json env w = JObj (write_fields env w)"

text \<open>The properties of a parsed object that the entry or usage row itself has.\<close>

definition payload_fields :: "json \<Rightarrow> (string \<times> json) list" where
  "payload_fields v =
    (case v of JObj kvs \<Rightarrow> filter (\<lambda>p. fst p \<notin> {''kind'', ''seq'', ''timestamp''}) kvs | _ \<Rightarrow> [])"

definition cast_json :: "json option \<Rightarrow> json" where
  "cast_json x = (case x of None \<Rightarrow> JNull | Some v \<Rightarrow> v)"

definition parseCommittedWrite :: "jsonl_env \<Rightarrow> json \<Rightarrow> durable_error + committed" where
  "parseCommittedWrite env v =
    (if \<not> is_record v then Inl (DError ''Invalid JSONL transaction write'')
     else if \<not> is_safe 1 (prop_of ''seq'' v) then Inl (DError ''Invalid JSONL write seq'')
     else
       let seq = int_of (prop_of ''seq'' v); n = text_of (prop_of ''namespace'' v); k = text_of (prop_of ''key'' v);
           x = cast_json (prop_of ''value'' v)
       in if prop_of ''kind'' v = Some (JStr ''entry'') then
            if \<not> is_safe 0 (prop_of ''timestamp'' v) then Inl (DError ''Invalid JSONL entry timestamp'')
            else Inr (CEntry (new_entry.extend (jl_to_entry env (payload_fields v))
                                (entry.fields seq (int_of (prop_of ''timestamp'' v)))))
          else if prop_of ''kind'' v = Some (JStr ''usage'') then
            Inr (CUsage (new_usage.extend (jl_to_usage env (payload_fields v)) (usage_row.fields seq)))
          else if prop_of ''kind'' v = Some (JStr ''value'') then
            if prop_of ''op'' v = Some (JStr ''set'') then Inr (CValueSet seq n k x)
            else if prop_of ''op'' v = Some (JStr ''delete'') then Inr (CValueDelete seq n k)
            else Inl (DError ''Invalid JSONL value operation'')
          else if prop_of ''kind'' v = Some (JStr ''list'') then
            if prop_of ''op'' v = Some (JStr ''append'') then Inr (CListAppend seq n k x)
            else if prop_of ''op'' v = Some (JStr ''delete'') then Inr (CListDelete seq n k)
            else Inl (DError ''Invalid JSONL list operation'')
          else Inl (DError ''Invalid JSONL write kind''))"

definition parseJsonlTransaction :: "jsonl_env \<Rightarrow> string \<Rightarrow> durable_error + committed list" where
  "parseJsonlTransaction env line =
    (case jl_parse env line of
       None \<Rightarrow> Inl (DError ''Invalid JSONL transaction: not valid JSON'')
     | Some (JArr vs) \<Rightarrow> mapE (parseCommittedWrite env) vs
     | Some v \<Rightarrow> mapE (parseCommittedWrite env) [v])"

definition transaction_json :: "jsonl_env \<Rightarrow> committed list \<Rightarrow> json" where
  "transaction_json env ws =
    (case ws of [w] \<Rightarrow> write_json env w | _ \<Rightarrow> JArr (map (write_json env) ws))"

definition serializeJsonlTransaction :: "jsonl_env \<Rightarrow> committed list \<Rightarrow> string" where
  "serializeJsonlTransaction env ws = jl_stringify env (transaction_json env ws)"

definition readJsonlHeader ::
  "jsonl_env \<Rightarrow> string \<Rightarrow> string \<Rightarrow> (parsed_header \<times> string) io" where
  "readJsonlHeader env reader path =
    bindIO (fileValue (readLine reader) (''Failed to read JSONL storage '' @ path)) (\<lambda>(line, reader).
      liftIO (case line of
        Some (t, True) \<Rightarrow>
          if t = [] then Inl (DError (''Invalid JSONL storage '' @ path @ '': missing header''))
          else (case parseJsonlSessionHeader env t of
                  Inl e \<Rightarrow> Inl (DError (''Invalid JSONL storage '' @ path @ '': invalid header''))
                | Inr h \<Rightarrow> Inr (h, reader))
      | _ \<Rightarrow> Inl (DError (''Invalid JSONL storage '' @ path @ '': missing header''))))"

section \<open>Publishing a file\<close>

definition publishFileAtomically :: "string \<Rightarrow> ((string \<Rightarrow> unit io) \<Rightarrow> unit io) \<Rightarrow> unit io" where
  "publishFileAtomically destinationPath writeContent f =
    (let tempPath = destinationPath @ ''.tmp'';
         staged = bindIO (fileValue (writeFile tempPath []) (''Failed to stage JSONL storage '' @ destinationPath)) (\<lambda>_.
           bindIO (writeContent (\<lambda>content.
             fileValue (appendFile tempPath content) (''Failed to append JSONL storage '' @ destinationPath))) (\<lambda>_.
           fileValue (renameFile tempPath destinationPath) (''Failed to publish JSONL storage '' @ destinationPath)))
     in case staged f of
          (Inr u, f) \<Rightarrow> (Inr u, f)
        | (Inl e, f) \<Rightarrow> (Inl e, snd (removeFile tempPath f)))"

definition publishJsonl ::
  "jsonl_env \<Rightarrow> string \<Rightarrow> jsonl_header \<Rightarrow> ((committed list \<Rightarrow> unit io) \<Rightarrow> unit io) \<Rightarrow> unit io" where
  "publishJsonl env destinationPath header writeTransactions =
    publishFileAtomically destinationPath (\<lambda>append.
      bindIO (append (jl_stringify env (header_json header) @ [newline])) (\<lambda>_.
        writeTransactions (\<lambda>ws. append (serializeJsonlTransaction env ws @ [newline]))))"

section \<open>The storage\<close>

datatype jsonl_status = JOpen | JClosing | JClosed

record jsonl_storage =
  js_path :: string
  js_header :: jsonl_header
  js_state :: storage_state
  js_status :: jsonl_status

definition jsonl_new :: "string \<Rightarrow> jsonl_header \<Rightarrow> jsonl_storage" where
  "jsonl_new path header = \<lparr>js_path = path, js_header = header, js_state = storage_new, js_status = JOpen\<rparr>"

definition jsonl_create ::
  "jsonl_env \<Rightarrow> string \<Rightarrow> jsonl_header \<Rightarrow> dwrite list \<Rightarrow> int \<Rightarrow> jsonl_storage io" where
  "jsonl_create env path header initialWrites ts =
    (let storage = jsonl_new path header in
     bindIO (liftIO (prepareCommit initialWrites ts (js_state storage))) (\<lambda>p.
     bindIO (publishJsonl env path header (\<lambda>append.
       if pc_writes p \<noteq> [] then append (pc_writes p) else retIO ())) (\<lambda>_.
     let (applied, st) = applyValidated (jl_fadd env) (pc_writes p) (js_state storage)
     in bindIO (liftIO applied) (\<lambda>_. retIO (storage\<lparr>js_state := st\<rparr>)))))"

text \<open>\<open>s.split("\n")\<close>, and the part of a text up to its last newline.\<close>

fun split_lines :: "string \<Rightarrow> string list" where
  "split_lines [] = [[]]"
| "split_lines (c # cs) =
    (if c = newline then [] # split_lines cs
     else case split_lines cs of l # ls \<Rightarrow> (c # l) # ls | [] \<Rightarrow> [[c]])"

definition up_to_newline :: "string \<Rightarrow> string" where
  "up_to_newline s = rev (dropWhile (\<lambda>c. c \<noteq> newline) (rev s))"

definition splitCompleteLines :: "string \<Rightarrow> string list \<times> bool" where
  "splitCompleteLines content =
    (if content \<noteq> [] \<and> last content = newline then (split_lines (butlast content), False)
     else let p = up_to_newline content in
       if p = [] then ([], True) else (split_lines (butlast p), True))"

definition replayCommitted ::
  "jsonl_env \<Rightarrow> committed list \<Rightarrow> storage_state \<Rightarrow> durable_error + storage_state" where
  "replayCommitted env ws st =
    bindE (validateCommitted ws st) (\<lambda>_.
      let (applied, st) = applyValidated (jl_fadd env) ws st in bindE applied (\<lambda>_. Inr st))"

definition replay_line ::
  "jsonl_env \<Rightarrow> string \<Rightarrow> nat \<times> string \<Rightarrow> storage_state \<Rightarrow> durable_error + storage_state" where
  "replay_line env path = (\<lambda>(index, line) st.
    (case bindE (parseJsonlTransaction env line) (\<lambda>ws. replayCommitted env ws st) of
       Inl e \<Rightarrow> Inl (DError (''Invalid JSONL storage '' @ path @ '': line '' @ show_nat (index + 1)))
     | Inr st \<Rightarrow> Inr st))"

text \<open>The lines joined again, each with its newline.\<close>

definition join_lines :: "string list \<Rightarrow> string" where
  "join_lines ls = concat (map (\<lambda>l. l @ [newline]) ls)"

definition jsonl_openV4 :: "jsonl_env \<Rightarrow> string \<Rightarrow> jsonl_header \<Rightarrow> jsonl_storage io" where
  "jsonl_openV4 env path header =
    bindIO (fileValue (readTextFile path) (''Failed to read JSONL storage '' @ path)) (\<lambda>content.
      let (lines, torn) = splitCompleteLines content in
      bindIO (liftIO
        (if jh_storageVersion header \<noteq> JSONL_STORAGE_VERSION
         then Inl (DError (''Session '' @ jh_id header @ '' uses unsupported storage version ''
                           @ show_int (jh_storageVersion header)))
         else bindE (foldE (replay_line env path) (drop 1 (List.enumerate 0 lines)) storage_new) (\<lambda>st.
                case jh_nextSeq header of None \<Rightarrow> Inr st | Some n \<Rightarrow> advanceNextSeq n st))) (\<lambda>st.
      bindIO (if torn
              then publishFileAtomically path (\<lambda>append. append (join_lines lines))
              else retIO ()) (\<lambda>_.
      retIO ((jsonl_new path header)\<lparr>js_state := st\<rparr>))))"

text \<open>A file of the legacy format is recognized; its conversion is outside of this model.\<close>

datatype jsonl_opened = Opened jsonl_storage | LegacyFile

definition jsonl_open :: "jsonl_env \<Rightarrow> string \<Rightarrow> jsonl_opened io" where
  "jsonl_open env path =
    bindIO (fileValue (openTextLineReader path) (''Failed to read JSONL storage '' @ path)) (\<lambda>reader.
    bindIO (readJsonlHeader env reader path) (\<lambda>(parsed, reader).
      case parsed of
        FormatV3Legacy \<Rightarrow> retIO LegacyFile
      | FormatV4 header \<Rightarrow> bindIO (jsonl_openV4 env path header) (\<lambda>js. retIO (Opened js))))"

text \<open>
  The job that \<open>commit\<close> puts on the commit queue, with the check that comes before. When applying the
  writes throws, their line is in the file already.
\<close>

definition jsonl_commit ::
  "jsonl_env \<Rightarrow> dwrite list \<Rightarrow> int \<Rightarrow> jsonl_storage \<Rightarrow> file_system
    \<Rightarrow> (durable_error + commit_result) \<times> jsonl_storage \<times> file_system" where
  "jsonl_commit env writes ts js f =
    (if js_status js \<noteq> JOpen then (Inl (DError ''JsonlStorage is closed''), js, f)
     else case prepareCommit writes ts (js_state js) of
       Inl e \<Rightarrow> (Inl e, js, f)
     | Inr p \<Rightarrow>
         (case (if pc_writes p \<noteq> []
                then fileValue (appendFile (js_path js) (serializeJsonlTransaction env (pc_writes p) @ [newline]))
                       (''Failed to append JSONL storage '' @ js_path js)
                else retIO ()) f of
            (Inl e, f) \<Rightarrow> (Inl e, js, f)
          | (Inr u, f) \<Rightarrow>
              (case applyValidated (jl_fadd env) (pc_writes p) (js_state js) of
                 (Inl e, st) \<Rightarrow> (Inl e, js\<lparr>js_state := st\<rparr>, f)
               | (Inr stats, st) \<Rightarrow>
                   (Inr \<lparr>cr_firstSeq = pc_firstSeq p, cr_seqs = pc_seqs p, cr_timestamp = pc_timestamp p,
                         cr_stats = stats\<rparr>, js\<lparr>js_state := st\<rparr>, f))))"

text \<open>Every read checks the state first.\<close>

definition jsonl_read :: "(storage_state \<Rightarrow> durable_error + 'a) \<Rightarrow> jsonl_storage \<Rightarrow> durable_error + 'a" where
  "jsonl_read get js =
    (if js_status js \<noteq> JOpen then Inl (DError ''JsonlStorage is closed'') else get (js_state js))"

definition jsonl_getEntries :: "string list \<Rightarrow> jsonl_storage \<Rightarrow> durable_error + (string \<times> entry) list" where
  "jsonl_getEntries ids = jsonl_read (\<lambda>st. Inr (getEntries ids st))"

definition jsonl_getValue :: "address \<Rightarrow> jsonl_storage \<Rightarrow> durable_error + stored_value option" where
  "jsonl_getValue a = jsonl_read (\<lambda>st. Inr (getValue a st))"

definition jsonl_scanValues :: "address \<Rightarrow> jsonl_storage \<Rightarrow> durable_error + stored_value list" where
  "jsonl_scanValues p = jsonl_read (\<lambda>st. Inr (scanValues p st))"

definition jsonl_readList :: "address \<Rightarrow> list_read \<Rightarrow> jsonl_storage \<Rightarrow> durable_error + list_element list" where
  "jsonl_readList a options = jsonl_read (readList a options)"

definition jsonl_scanBranch ::
  "string \<Rightarrow> branch_scan \<Rightarrow> jsonl_storage \<Rightarrow> (durable_error + entry list) option" where
  "jsonl_scanBranch start q js =
    (if js_status js \<noteq> JOpen then Some (Inl (DError ''JsonlStorage is closed''))
     else scanBranch start q (js_state js))"

definition jsonl_scanBranchStructure ::
  "string \<Rightarrow> branch_scan \<Rightarrow> jsonl_storage \<Rightarrow> (durable_error + entry_structure list) option" where
  "jsonl_scanBranchStructure start q js =
    (if js_status js \<noteq> JOpen then Some (Inl (DError ''JsonlStorage is closed''))
     else scanBranchStructure start q (js_state js))"

definition jsonl_scanEntries :: "entry_scan \<Rightarrow> jsonl_storage \<Rightarrow> durable_error + entry list" where
  "jsonl_scanEntries q = jsonl_read (\<lambda>st. Inr (scanEntries q st))"

definition jsonl_scanUsage :: "usage_scan \<Rightarrow> jsonl_storage \<Rightarrow> durable_error + usage_row list" where
  "jsonl_scanUsage q = jsonl_read (\<lambda>st. Inr (scanUsage q st))"

definition jsonl_getStats :: "jsonl_storage \<Rightarrow> durable_error + session_stats" where
  "jsonl_getStats = jsonl_read (\<lambda>st. Inr (getStats st))"

definition captureForkNextSeq :: "jsonl_storage \<Rightarrow> durable_error + int" where
  "captureForkNextSeq = jsonl_read (\<lambda>st. Inr (getNextSeq st))"

text \<open>
  \<open>close\<close> refuses new jobs at once and is closed when the jobs on the queue are done.
\<close>

definition jsonl_close :: "jsonl_storage \<Rightarrow> jsonl_storage" where
  "jsonl_close js = (if js_status js = JOpen then js\<lparr>js_status := JClosing\<rparr> else js)"

definition jsonl_drained :: "jsonl_storage \<Rightarrow> jsonl_storage" where
  "jsonl_drained js = (if js_status js = JClosing then js\<lparr>js_status := JClosed\<rparr> else js)"

end
