(* ===== verification/JsonlFork.thy ===== *)
theory JsonlFork imports JsonlStore DurableFork begin

text \<open>
  Copying a session from file to file (\<open>packages/agent/src/harness/session/jsonl/fork.ts\<close>): a first
  pass over the source indexes the entries and the current values, a second one writes the selected
  writes to a new file. The source is a file of the current format; the maps and sets of the index
  are only looked up, and are partial functions and sets. The selected entries are the list that
  the policy gives.
\<close>

section \<open>Reading the source\<close>

record fork_meta =
  fm_id :: string
  fm_cwd :: string
  fm_path :: string

datatype fork_input =
    OpenSource fork_meta int
  | ClosedSource fork_meta

fun input_meta :: "fork_input \<Rightarrow> fork_meta" where
  "input_meta (OpenSource m n) = m"
| "input_meta (ClosedSource m) = m"

definition readJsonlForkHeader ::
  "jsonl_env \<Rightarrow> string \<Rightarrow> fork_meta \<Rightarrow> (jsonl_header \<times> string) io" where
  "readJsonlForkHeader env reader source =
    bindIO (readJsonlHeader env reader (fm_path source)) (\<lambda>(parsed, reader).
      liftIO (case parsed of
        FormatV3Legacy \<Rightarrow>
          Inl (DError (''Invalid JSONL storage '' @ fm_path source @ '': expected format 4 header''))
      | FormatV4 header \<Rightarrow>
          if jh_id header \<noteq> fm_id source \<or> jh_cwd header \<noteq> fm_cwd source
          then Inl (DError (''Session identity does not match header: '' @ fm_id source))
          else if jh_storageVersion header \<noteq> JSONL_STORAGE_VERSION
          then Inl (DError (''Session '' @ fm_id source @ '' uses unsupported storage version ''
                            @ show_int (jh_storageVersion header)))
          else Inr (header, reader)))"

definition reachesForkBoundary :: "committed list \<Rightarrow> int option \<Rightarrow> durable_error + bool" where
  "reachesForkBoundary writes stopBeforeSeq =
    (case stopBeforeSeq of
       None \<Rightarrow> Inr False
     | Some stop \<Rightarrow>
         if writes = [] then Inr False
         else if stop \<le> cw_seq (hd writes) then Inr True
         else if stop \<le> cw_seq (last writes)
         then Inl (DError (''JSONL transaction crosses fork sequence boundary '' @ show_int stop))
         else Inr False)"

text \<open>
  The loop over the complete transactions, with what its consumer does with each of them; it ends at
  the boundary, at the end of the file or at a torn line.
\<close>

lemma cut_line_shorter: "cut_line s = (Some (l, True), remaining) \<Longrightarrow> length remaining < length s"
  by (auto simp: cut_line_def Let_def split: if_splits)

lemma readLine_shorter:
  "(Inr (Some (l, True), remaining), g) = fileValue (readLine s) a f \<Longrightarrow> length remaining < length s"
  by (auto simp: fileValue_def readLine_def dest: cut_line_shorter split: prod.splits sum.splits fs_outcome.splits)

function fork_transactions ::
  "jsonl_env \<Rightarrow> string \<Rightarrow> int option \<Rightarrow> (committed list \<Rightarrow> 's \<Rightarrow> 's io) \<Rightarrow> string \<Rightarrow> 's \<Rightarrow> 's io" where
  "fork_transactions env path stop body reader s f =
    (case fileValue (readLine reader) (''Failed to read JSONL fork source '' @ path) f of
       (Inl e, f) \<Rightarrow> (Inl e, f)
     | (Inr (line, remaining), f) \<Rightarrow>
         (case line of
            Some (t, True) \<Rightarrow>
              (case bindE (parseJsonlTransaction env t) (\<lambda>ws.
                      bindE (reachesForkBoundary ws stop) (\<lambda>reached. Inr (ws, reached))) of
                 Inl e \<Rightarrow> (Inl e, f)
               | Inr (ws, True) \<Rightarrow> (Inr s, f)
               | Inr (ws, False) \<Rightarrow>
                   (case body ws s f of
                      (Inl e, f) \<Rightarrow> (Inl e, f)
                    | (Inr s, f) \<Rightarrow> fork_transactions env path stop body remaining s f))
          | _ \<Rightarrow> (Inr s, f)))"
  by pat_completeness auto
termination
  by (relation "measure (\<lambda>(env, path, stop, body, reader, s, f). length reader)") (auto dest: readLine_shorter)

declare fork_transactions.simps [simp del]

section \<open>The index\<close>

record fork_index =
  fi_scalarSeqs :: "string \<rightharpoonup> int"
  fi_branchTips :: "string \<rightharpoonup> string option"
  fi_listSeqs :: "string \<rightharpoonup> int"
  fi_parents :: "string \<rightharpoonup> string option"
  fi_laneConfigs :: "string set"
  fi_laneStates :: "string set"

definition index_new :: fork_index where
  "index_new = \<lparr>fi_scalarSeqs = Map.empty, fi_branchTips = Map.empty, fi_listSeqs = Map.empty,
     fi_parents = Map.empty, fi_laneConfigs = {}, fi_laneStates = {}\<rparr>"

text \<open>\<open>v\<close> is the value that is set, and none for a delete.\<close>

definition applyLaneValue :: "string \<Rightarrow> string \<Rightarrow> json option \<Rightarrow> fork_index \<Rightarrow> fork_index" where
  "applyLaneValue namespace key v ix =
    (if namespace = ''pi.branch.tip''
     then ix\<lparr>fi_branchTips := (fi_branchTips ix)(key := map_option tip_of v)\<rparr>
     else if namespace = ''pi.lane.config''
     then ix\<lparr>fi_laneConfigs := (if v = None then fi_laneConfigs ix - {key} else insert key (fi_laneConfigs ix))\<rparr>
     else if namespace = ''pi.lane.state''
     then ix\<lparr>fi_laneStates := (if v = None then fi_laneStates ix - {key} else insert key (fi_laneStates ix))\<rparr>
     else ix)"

fun index_write :: "committed \<Rightarrow> fork_index \<Rightarrow> fork_index" where
  "index_write (CEntry e) ix = ix\<lparr>fi_parents := (fi_parents ix)(de_id e \<mapsto> de_parentId e)\<rparr>"
| "index_write (CUsage r) ix = ix"
| "index_write (CValueSet seq n k v) ix =
    applyLaneValue n k (Some v) (ix\<lparr>fi_scalarSeqs := (fi_scalarSeqs ix)(physicalKey n k \<mapsto> seq)\<rparr>)"
| "index_write (CValueDelete seq n k) ix =
    applyLaneValue n k None (ix\<lparr>fi_scalarSeqs := (fi_scalarSeqs ix)(physicalKey n k := None)\<rparr>)"
| "index_write (CListAppend seq n k v) ix =
    (if fi_listSeqs ix (physicalKey n k) = None
     then ix\<lparr>fi_listSeqs := (fi_listSeqs ix)(physicalKey n k \<mapsto> seq)\<rparr> else ix)"
| "index_write (CListDelete seq n k) ix =
    ix\<lparr>fi_listSeqs := (fi_listSeqs ix)(physicalKey n k := None)\<rparr>"

definition applyWrites :: "committed list \<Rightarrow> fork_index \<Rightarrow> fork_index" where
  "applyWrites writes ix = fold index_write writes ix"

definition hasCompleteLane :: "string \<Rightarrow> fork_index \<Rightarrow> bool" where
  "hasCompleteLane branch ix \<longleftrightarrow> branch \<in> fi_laneConfigs ix \<and> branch \<in> fi_laneStates ix"

definition isSurvivingListElement :: "string \<Rightarrow> string \<Rightarrow> int \<Rightarrow> fork_index \<Rightarrow> bool" where
  "isSurvivingListElement namespace key seq ix =
    (case fi_listSeqs ix (physicalKey namespace key) of None \<Rightarrow> False | Some first \<Rightarrow> first \<le> seq)"

definition selectJsonlFork ::
  "fork_index \<Rightarrow> fork_options \<Rightarrow> (durable_error + (fork_plan \<times> string list)) option" where
  "selectJsonlFork ix options =
    (case options of
       ForkTree \<Rightarrow> Some (Inr (PlanTree, []))
     | ForkBranch branch entryId pos \<Rightarrow>
         map_option (\<lambda>r. bindE r (\<lambda>plan.
           if \<not> hasCompleteLane branch ix
           then Inl (DError (''Source branch '' @ stringify_string branch @ '' is not a configured AgentLane''))
           else Inr plan))
         (selectBranchFork branch entryId pos (fi_branchTips ix branch) (fi_parents ix)))"

section \<open>The copy\<close>

definition keep_write :: "(json \<Rightarrow> committed) \<Rightarrow> projected \<Rightarrow> committed option" where
  "keep_write write p = (case p of Omit \<Rightarrow> None | Keep v \<Rightarrow> Some (write v))"

fun projectJsonlForkWrite ::
  "fork_index \<Rightarrow> fork_plan \<Rightarrow> (string \<Rightarrow> bool) \<Rightarrow> committed \<Rightarrow> durable_error + committed option" where
  "projectJsonlForkWrite ix plan isEntryCopied (CEntry e) =
    Inr (if isEntryCopied (de_id e) then Some (CEntry e) else None)"
| "projectJsonlForkWrite ix plan isEntryCopied (CValueSet seq n k v) =
    (if fi_scalarSeqs ix (physicalKey n k) \<noteq> Some seq then Inr None
     else bindE (projectForkCurrentStateWrite plan isEntryCopied n k v) (\<lambda>p. Inr (keep_write (CValueSet seq n k) p)))"
| "projectJsonlForkWrite ix plan isEntryCopied (CListAppend seq n k v) =
    (if \<not> isSurvivingListElement n k seq ix then Inr None
     else bindE (projectForkCurrentStateWrite plan isEntryCopied n k v) (\<lambda>p. Inr (keep_write (CListAppend seq n k) p)))"
| "projectJsonlForkWrite ix plan isEntryCopied w = Inr None"

definition indexForkInput :: "jsonl_env \<Rightarrow> fork_input \<Rightarrow> (fork_index \<times> int) io" where
  "indexForkInput env input =
    (let m = input_meta input in
     bindIO (fileValue (openTextLineReader (fm_path m)) (''Failed to open JSONL fork source '' @ fm_path m)) (\<lambda>reader.
     bindIO (readJsonlForkHeader env reader m) (\<lambda>(header, reader).
     bindIO (fork_transactions env (fm_path m) (case input of OpenSource m n \<Rightarrow> Some n | ClosedSource m \<Rightarrow> None)
       (\<lambda>ws (ix, highest). retIO (applyWrites ws ix, if ws = [] then highest else cw_seq (last ws)))
       reader (index_new, 0)) (\<lambda>(ix, highest).
     retIO (ix, case input of OpenSource m n \<Rightarrow> n
                | ClosedSource m \<Rightarrow> max (or_else (jh_nextSeq header) 1) (highest + 1))))))"

text \<open>The writes of one transaction, each projected and appended as a transaction of its own.\<close>

fun copy_writes ::
  "fork_index \<Rightarrow> fork_plan \<Rightarrow> (string \<Rightarrow> bool) \<Rightarrow> (committed list \<Rightarrow> unit io) \<Rightarrow> committed list \<Rightarrow> unit io" where
  "copy_writes ix plan isEntryCopied emit [] = retIO ()"
| "copy_writes ix plan isEntryCopied emit (w # ws) =
    bindIO (liftIO (projectJsonlForkWrite ix plan isEntryCopied w)) (\<lambda>projected.
    bindIO (case projected of None \<Rightarrow> retIO () | Some q \<Rightarrow> emit [q]) (\<lambda>_.
      copy_writes ix plan isEntryCopied emit ws))"

definition copy_source ::
  "jsonl_env \<Rightarrow> fork_meta \<Rightarrow> int \<Rightarrow> fork_index \<Rightarrow> fork_plan \<Rightarrow> (string \<Rightarrow> bool) \<Rightarrow> (committed list \<Rightarrow> unit io) \<Rightarrow> unit io" where
  "copy_source env m stopBeforeSeq ix plan isEntryCopied emit =
    bindIO (fileValue (openTextLineReader (fm_path m)) (''Failed to open JSONL fork source '' @ fm_path m)) (\<lambda>reader.
    bindIO (readJsonlForkHeader env reader m) (\<lambda>(header, reader).
      fork_transactions env (fm_path m) (Some stopBeforeSeq)
        (\<lambda>ws u. copy_writes ix plan isEntryCopied emit ws) reader ()))"

text \<open>The value is \<open>None\<close> when the walk from the tip to the root does not end.\<close>

definition runJsonlFork ::
  "jsonl_env \<Rightarrow> fork_input \<Rightarrow> string \<Rightarrow> jsonl_header \<Rightarrow> fork_options \<Rightarrow> file_system
    \<Rightarrow> ((durable_error + unit) \<times> file_system) option" where
  "runJsonlFork env input destinationPath destinationHeader options f =
    (case indexForkInput env input f of
       (Inl e, f) \<Rightarrow> Some (Inl e, f)
     | (Inr (ix, nextSeq), f) \<Rightarrow>
         (case selectJsonlFork ix options of
            None \<Rightarrow> None
          | Some (Inl e) \<Rightarrow> Some (Inl e, f)
          | Some (Inr (plan, selected)) \<Rightarrow>
              Some (publishJsonl env destinationPath (destinationHeader\<lparr>jh_nextSeq := Some nextSeq\<rparr>)
                (copy_source env (input_meta input) nextSeq ix plan (copied plan selected)) f)))"

end
