(* ===== verification/JsonlLaws.thy ===== *)
theory JsonlLaws imports JsonlStore DurableLaws begin

text \<open>
  What a file of transactions says: splitting a text into its complete lines, writing and reading a
  transaction and a header, and the replay of a log. \<open>jsonl_inv\<close> relates a storage to its file and to
  the log of the transactions committed so far.
\<close>

section \<open>Lines\<close>

lemma join_lines_simps [simp]:
  "join_lines [] = []" "join_lines (l # ls) = l @ newline # join_lines ls"
  "join_lines (ks @ ls) = join_lines ks @ join_lines ls"
  by (simp_all add: join_lines_def)

lemma split_lines_free: "newline_free l \<Longrightarrow> split_lines l = [l]"
  by (induction l) (auto simp: newline_free_def)

lemma split_at_newline: "newline_free l \<Longrightarrow> split_lines (l @ newline # s) = l # split_lines s"
  by (induction l) (auto simp: newline_free_def)

lemma split_lines_join:
  "ls \<noteq> [] \<Longrightarrow> \<forall>l\<in>set ls. newline_free l \<Longrightarrow> split_lines (butlast (join_lines ls)) = ls"
proof (induction ls)
  case (Cons l ls)
  show ?case
  proof (cases ls)
    case Nil
    with Cons.prems show ?thesis by (simp add: butlast_append split_lines_free)
  next
    case (Cons m ms)
    then have "butlast (join_lines (l # ls)) = l @ newline # butlast (join_lines ls)" by (simp add: butlast_append)
    with Cons.IH Cons.prems Cons show ?thesis by (simp add: split_at_newline)
  qed
qed simp

lemma join_lines_last: "ls \<noteq> [] \<Longrightarrow> join_lines ls \<noteq> [] \<and> last (join_lines ls) = newline"
  by (cases ls rule: rev_cases) simp_all

lemma dropWhile_all: "\<forall>x\<in>set xs. P x \<Longrightarrow> dropWhile P (xs @ ys) = dropWhile P ys"
  by (induction xs) auto

lemma up_to_newline_join:
  assumes "ls \<noteq> []" "newline_free r"
  shows "up_to_newline (join_lines ls @ r) = join_lines ls"
proof -
  obtain s where s: "join_lines ls = s @ [newline]"
    using join_lines_last [OF assms(1)] by (metis append_butlast_last_id)
  moreover have "\<forall>x\<in>set (rev r). x \<noteq> newline" using assms(2) by (auto simp: newline_free_def)
  ultimately show ?thesis
    using dropWhile_all [of "rev r" "\<lambda>c. c \<noteq> newline" "rev (join_lines ls)"] by (simp add: up_to_newline_def)
qed

lemma splitCompleteLines_join:
  assumes "ls \<noteq> []" "\<forall>l\<in>set ls. newline_free l" "newline_free r"
  shows "splitCompleteLines (join_lines ls @ r) = (ls, r \<noteq> [])"
proof (cases "r = []")
  case True
  with assms show ?thesis using join_lines_last [OF assms(1)] split_lines_join
    by (simp add: splitCompleteLines_def)
next
  case False
  then have "last r \<noteq> newline" using assms(3) by (metis last_in_set newline_free_def)
  with False assms show ?thesis
    using up_to_newline_join [OF assms(1,3)] split_lines_join [OF assms(1,2)] join_lines_last [OF assms(1)]
    by (simp add: splitCompleteLines_def Let_def)
qed

lemma cut_line_join: "newline_free l \<Longrightarrow> cut_line (l @ newline # s) = (Some (l, True), s)"
proof -
  assume l: "newline_free l"
  then have "takeWhile (\<lambda>c. c \<noteq> newline) (l @ newline # s) = l"
    by (subst takeWhile_append2) (auto simp: newline_free_def)
  then show ?thesis by (simp add: cut_line_def Let_def)
qed

lemma cut_line_torn: "newline_free r \<Longrightarrow> r \<noteq> [] \<Longrightarrow> cut_line r = (Some (r, False), [])"
proof -
  assume r: "newline_free r" "r \<noteq> []"
  then have "takeWhile (\<lambda>c. c \<noteq> newline) r = r" by (auto simp: newline_free_def takeWhile_eq_all_conv)
  with r(2) show ?thesis unfolding cut_line_def Let_def by (simp only: drop_all order_refl) simp
qed

text \<open>A prefix of a file of lines is some of its lines and a part of the next.\<close>

lemma take_join_lines:
  assumes "\<forall>l\<in>set ls. newline_free l"
  shows "\<exists>k r. k \<le> length ls \<and> take n (join_lines ls) = join_lines (take k ls) @ r \<and> newline_free r \<and>
    (k < length ls \<longrightarrow> length r \<le> length (ls ! k)) \<and> (k = length ls \<longrightarrow> r = [])"
  using assms
proof (induction ls arbitrary: n)
  case (Cons l ls)
  show ?case
  proof (cases "n \<le> length l")
    case True
    have "newline_free (take n l)" using Cons.prems by (auto simp: newline_free_def dest: in_set_takeD)
    with True show ?thesis by (intro exI [of _ 0] exI [of _ "take n l"]) simp
  next
    case False
    obtain k r where k: "k \<le> length ls" "take (n - Suc (length l)) (join_lines ls) = join_lines (take k ls) @ r"
      "newline_free r" "k < length ls \<longrightarrow> length r \<le> length (ls ! k)" "k = length ls \<longrightarrow> r = []"
      using Cons.IH Cons.prems by (metis list.set_intros(2))
    from False have "n - length l = Suc (n - Suc (length l))" by simp
    with k False show ?thesis by (intro exI [of _ "Suc k"] exI [of _ r]) (simp add: take_Cons')
  qed
qed (simp add: newline_free_def)

section \<open>Transactions and headers\<close>

text \<open>What is asked of the JSON functions, for one value: printing is read back, on one line.\<close>

definition json_text :: "jsonl_env \<Rightarrow> json \<Rightarrow> bool" where
  "json_text env v \<longleftrightarrow> jl_parse env (jl_stringify env v) = Some v \<and> newline_free (jl_stringify env v) \<and>
    jl_stringify env v \<noteq> []"

text \<open>
  The object of a payload is read back, and has none of the properties that a write adds; sequence
  and time are safe integers.
\<close>

definition writable :: "jsonl_env \<Rightarrow> committed \<Rightarrow> bool" where
  "writable env w \<longleftrightarrow> 1 \<le> cw_seq w \<and> isSafeInteger (cw_seq w) \<and>
    (case w of
       CEntry e \<Rightarrow> jl_to_entry env (jl_entry env (new_entry.truncate e)) = new_entry.truncate e \<and>
         fst ` set (jl_entry env (new_entry.truncate e)) \<inter> {''kind'', ''seq'', ''timestamp''} = {} \<and>
         0 \<le> de_timestamp e \<and> isSafeInteger (de_timestamp e)
     | CUsage r \<Rightarrow> jl_to_usage env (jl_usage env (new_usage.truncate r)) = new_usage.truncate r \<and>
         fst ` set (jl_usage env (new_usage.truncate r)) \<inter> {''kind'', ''seq'', ''timestamp''} = {}
     | _ \<Rightarrow> True)"

definition legible :: "jsonl_env \<Rightarrow> committed list \<Rightarrow> bool" where
  "legible env ws \<longleftrightarrow> ws \<noteq> [] \<and> json_text env (transaction_json env ws) \<and> (\<forall>w\<in>set ws. writable env w)"

lemma is_safe_int [simp]: "is_safe m (Some (json_int n)) \<longleftrightarrow> isSafeInteger n \<and> m \<le> n"
  by (simp add: json_int_def)

lemma int_of_int [simp]: "int_of (Some (json_int n)) = n"
  by (simp add: json_int_def)

lemma map_of_fresh: "k \<notin> fst ` set xs \<Longrightarrow> (m ++ map_of xs) k = m k"
  by (simp add: map_add_dom_app_simps(3) dom_map_of_conv_image_fst)

lemma filter_fresh: "fst ` set xs \<inter> K = {} \<Longrightarrow> filter (\<lambda>p. fst p \<notin> K) xs = xs"
  by (rule filter_True) auto

lemma entry_whole: "new_entry.extend (new_entry.truncate e) (entry.fields (de_seq e) (de_timestamp e)) = e"
  by (cases e) (simp add: new_entry.defs entry.defs)

lemma usage_whole: "new_usage.extend (new_usage.truncate r) (usage_row.fields (ur_seq r)) = r"
  by (cases r) (simp add: new_usage.defs usage_row.defs)

lemma parse_write: "writable env w \<Longrightarrow> parseCommittedWrite env (write_json env w) = Inr w"
proof (cases w)
  case (CEntry e)
  assume w: "writable env w"
  let ?fs = "jl_entry env (new_entry.truncate e)"
  from w CEntry have f: "fst ` set ?fs \<inter> {''kind'', ''seq'', ''timestamp''} = {}"
    "jl_to_entry env ?fs = new_entry.truncate e"
    and n: "1 \<le> de_seq e" "isSafeInteger (de_seq e)" "0 \<le> de_timestamp e" "isSafeInteger (de_timestamp e)"
    by (auto simp: writable_def)
  have k: "(m ++ map_of ?fs) ''seq'' = m ''seq''" "(m ++ map_of ?fs) ''timestamp'' = m ''timestamp''" for m
    by (rule map_of_fresh; use f(1) in blast)+
  have p: "payload_fields (write_json env w) = ?fs"
    using filter_fresh [OF f(1)] by (simp add: payload_fields_def write_json_def CEntry)
  show ?thesis
    unfolding parseCommittedWrite_def p
    using n by (simp add: write_json_def CEntry Let_def f(2) k entry_whole)
next
  case (CUsage r)
  assume w: "writable env w"
  let ?fs = "jl_usage env (new_usage.truncate r)"
  from w CUsage have f: "fst ` set ?fs \<inter> {''kind'', ''seq'', ''timestamp''} = {}"
    "jl_to_usage env ?fs = new_usage.truncate r" and n: "1 \<le> ur_seq r" "isSafeInteger (ur_seq r)"
    by (auto simp: writable_def)
  have k: "(m ++ map_of ?fs) ''seq'' = m ''seq''" for m
    by (rule map_of_fresh) (use f(1) in blast)
  have p: "payload_fields (write_json env w) = ?fs"
    using filter_fresh [OF f(1)] by (simp add: payload_fields_def write_json_def CUsage)
  show ?thesis
    unfolding parseCommittedWrite_def p
    using n by (simp add: write_json_def CUsage Let_def f(2) k usage_whole)
qed (simp_all add: parseCommittedWrite_def write_json_def writable_def Let_def cast_json_def)

lemma mapE_parse: "\<forall>w\<in>set ws. writable env w \<Longrightarrow> mapE (parseCommittedWrite env) (map (write_json env) ws) = Inr ws"
  by (induction ws) (simp_all add: parse_write)

lemma parse_transaction:
  assumes "legible env ws" shows "parseJsonlTransaction env (serializeJsonlTransaction env ws) = Inr ws"
proof -
  from assms have p: "jl_parse env (serializeJsonlTransaction env ws) = Some (transaction_json env ws)"
    and w: "\<forall>w\<in>set ws. writable env w"
    by (simp_all add: legible_def json_text_def serializeJsonlTransaction_def)
  note m = mapE_parse [OF w]
  show ?thesis
  proof (cases "\<exists>w. ws = [w]")
    case True
    then obtain x where x: "ws = [x]" by blast
    then have "transaction_json env ws = JObj (write_fields env x)" by (simp add: transaction_json_def write_json_def)
    with p m x show ?thesis by (simp add: parseJsonlTransaction_def write_json_def)
  next
    case False
    then have "transaction_json env ws = JArr (map (write_json env) ws)"
      by (simp add: transaction_json_def split: list.split)
    with p m show ?thesis by (simp add: parseJsonlTransaction_def)
  qed
qed

definition header_ok :: "jsonl_env \<Rightarrow> jsonl_header \<Rightarrow> bool" where
  "header_ok env h \<longleftrightarrow> json_text env (header_json h) \<and> jh_storageVersion h = JSONL_STORAGE_VERSION \<and>
    0 \<le> jh_createdAt h \<and> isSafeInteger (jh_createdAt h) \<and>
    (case jh_nextSeq h of None \<Rightarrow> True | Some n \<Rightarrow> 1 \<le> n \<and> isSafeInteger n)"

lemma map_of_optional [simp]: "map_of (optional_field k x) j = (if j = k then x else None)"
  by (simp add: optional_field_def split: option.split)

lemma is_text_map [simp]: "is_text (map_option JStr x) \<longleftrightarrow> x \<noteq> None"
  by (cases x) simp_all

lemma header_props:
  "prop_of ''kind'' (header_json h) = Some (JStr ''header'')"
  "prop_of ''v'' (header_json h) = Some (json_int JSONL_FORMAT_VERSION)"
  "prop_of ''id'' (header_json h) = Some (JStr (jh_id h))"
  "prop_of ''cwd'' (header_json h) = Some (JStr (jh_cwd h))"
  "prop_of ''storageVersion'' (header_json h) = Some (json_int (jh_storageVersion h))"
  "prop_of ''createdAt'' (header_json h) = Some (json_int (jh_createdAt h))"
  "prop_of ''nextSeq'' (header_json h) = map_option json_int (jh_nextSeq h)"
  "prop_of ''parentSessionId'' (header_json h) = map_option JStr (jh_parentSessionId h)"
  "prop_of ''legacyParentSessionPath'' (header_json h) = map_option JStr (jh_legacyParentSessionPath h)"
  by (simp_all add: header_json_def map_add_def split: option.split)

lemma header_roundtrip:
  assumes "header_ok env h"
  shows "isJsonlStorageHeader (header_json h) \<and> header_of (header_json h) = h"
proof
  have v: "isSafeInteger JSONL_STORAGE_VERSION" "1 \<le> JSONL_STORAGE_VERSION"
    by (simp_all add: isSafeInteger_def JSONL_STORAGE_VERSION_def)
  have "is_record (header_json h)" by (simp add: header_json_def)
  with assms v show "isJsonlStorageHeader (header_json h)"
    unfolding isJsonlStorageHeader_def header_props header_ok_def by (auto split: option.splits)
  show "header_of (header_json h) = h"
    unfolding header_of_def header_props by (simp add: option.map_comp comp_def option.map_ident)
qed

lemma parse_header:
  "header_ok env h \<Longrightarrow> parseJsonlSessionHeader env (jl_stringify env (header_json h)) = Inr (FormatV4 h)"
  using header_roundtrip [of env h] by (simp add: parseJsonlSessionHeader_def header_ok_def json_text_def)

section \<open>The log\<close>

text \<open>The next sequence that a header announces.\<close>

definition advanced :: "jsonl_header \<Rightarrow> storage_state \<Rightarrow> storage_state" where
  "advanced h st = (case jh_nextSeq h of None \<Rightarrow> st | Some n \<Rightarrow> st\<lparr>ss_nextSeq := max (ss_nextSeq st) n\<rparr>)"

definition log_state :: "(rat \<Rightarrow> rat \<Rightarrow> rat) \<Rightarrow> jsonl_header \<Rightarrow> committed list \<Rightarrow> storage_state" where
  "log_state fadd h ws = advanced h (after_writes fadd ws storage_new)"

definition jsonl_lines :: "jsonl_env \<Rightarrow> jsonl_header \<Rightarrow> committed list list \<Rightarrow> string list" where
  "jsonl_lines env h txs = jl_stringify env (header_json h) # map (serializeJsonlTransaction env) txs"

definition log_ok :: "jsonl_env \<Rightarrow> jsonl_header \<Rightarrow> committed list list \<Rightarrow> bool" where
  "log_ok env h txs \<longleftrightarrow> header_ok env h \<and> (\<forall>ws\<in>set txs. legible env ws) \<and>
    admissible_all (jl_fadd env) (concat txs) storage_new"

definition jsonl_inv :: "jsonl_env \<Rightarrow> jsonl_storage \<Rightarrow> file_system \<Rightarrow> committed list list \<Rightarrow> bool" where
  "jsonl_inv env js f txs \<longleftrightarrow> js_status js = JOpen \<and> log_ok env (js_header js) txs \<and>
    fx_files f (js_path js) = Some (join_lines (jsonl_lines env (js_header js) txs)) \<and>
    js_state js = log_state (jl_fadd env) (js_header js) (concat txs)"

lemma advanced_fields [simp]:
  "ss_entries (advanced h st) = ss_entries st" "ss_bySeq (advanced h st) = ss_bySeq st"
  "ss_scalar (advanced h st) = ss_scalar st" "ss_lists (advanced h st) = ss_lists st"
  "ss_usage (advanced h st) = ss_usage st" "ss_stats (advanced h st) = ss_stats st"
  "ss_nextSeq st \<le> ss_nextSeq (advanced h st)"
  by (simp_all add: advanced_def split: option.split)

lemma advanced_inv: "storage_inv fadd st \<Longrightarrow> storage_inv fadd (advanced h st)"
  using entries_wf_mono [of "ss_nextSeq st" "ss_bySeq st" "ss_nextSeq (advanced h st)"]
    usage_wf_mono [of "ss_nextSeq st" "ss_bySeq st" "ss_usage st" "ss_nextSeq (advanced h st)"]
    values_wf_mono [of "ss_nextSeq st" "ss_scalar st" "ss_nextSeq (advanced h st)"]
    lists_wf_mono [of "ss_nextSeq st" "ss_lists st" "ss_nextSeq (advanced h st)"]
  by (simp add: storage_inv_def)

lemma log_state_inv: "admissible_all fadd ws storage_new \<Longrightarrow> storage_inv fadd (log_state fadd h ws)"
  unfolding log_state_def by (intro advanced_inv after_writes_keeps_inv storage_inv_new)

text \<open>The first write after an advance does not see it.\<close>

lemma write_effect_nextSeq: "write_effect fadd w (st\<lparr>ss_nextSeq := n\<rparr>) = (write_effect fadd w st)\<lparr>ss_nextSeq := n\<rparr>"
  by (cases w) (simp_all add: put_value_def put_list_def Let_def split: option.split)

lemma after_write_advanced: "after_write fadd w (advanced h st) = after_write fadd w st"
  by (simp add: advanced_def after_write_def write_effect_nextSeq split: option.split)

lemma advanced_ids [simp]:
  "hasEntryId (advanced h st) = hasEntryId st" "hasEntryOrUsageId (advanced h st) = hasEntryOrUsageId st"
  by (simp_all add: fun_eq_iff hasEntryId_def hasEntryOrUsageId_def)

lemma admissible_advanced: "admissible w (advanced h st) \<Longrightarrow> admissible w st"
  using advanced_fields(7) [of st h] unfolding admissible_def validated_def advanced_ids by linarith

lemma admissible_all_advanced: "admissible_all fadd ws (advanced h st) \<Longrightarrow> admissible_all fadd ws st"
  by (cases ws) (auto simp: after_write_advanced dest: admissible_advanced)

lemma validated_above:
  assumes "validated_all fadd ws st" "w \<in> set ws"
  shows "ss_nextSeq st \<le> cw_seq w"
  using assms
proof (induction ws arbitrary: st)
  case (Cons x xs)
  then show ?case by (force simp: validated_def)
qed simp

lemma seqs_above: "admissible_all fadd ws st \<Longrightarrow> w \<in> set ws \<Longrightarrow> ss_nextSeq st \<le> cw_seq w"
  using validated_above by (auto simp: admissible_all_iff)

lemma apply_last_seq: "ws \<noteq> [] \<Longrightarrow> ss_nextSeq (after_writes fadd ws st) = cw_seq (last ws) + 1"
  by (induction ws arbitrary: st) auto

lemma advanced_overtaken:
  assumes "admissible_all fadd ws (advanced h st)" "ws \<noteq> []"
  shows "advanced h (after_writes fadd ws st) = after_writes fadd ws (advanced h st)"
proof -
  have eq: "after_writes fadd ws (advanced h st) = after_writes fadd ws st"
    using assms(2) by (cases ws) (simp_all add: after_write_advanced)
  have "ss_nextSeq (advanced h st) \<le> cw_seq (last ws)" using seqs_above [OF assms(1), of "last ws"] assms(2) by simp
  then have "ss_nextSeq (advanced h st) \<le> ss_nextSeq (after_writes fadd ws st)"
    using apply_last_seq [OF assms(2), of fadd st] by simp
  then show ?thesis unfolding eq by (auto simp: advanced_def split: option.splits)
qed

text \<open>A transaction committed to the state of a log is the next one of the log.\<close>

lemma log_extend:
  assumes "log_ok env h txs" "legible env ws"
    and "admissible_all (jl_fadd env) ws (log_state (jl_fadd env) h (concat txs))"
  shows "log_ok env h (txs @ [ws]) \<and>
    after_writes (jl_fadd env) ws (log_state (jl_fadd env) h (concat txs)) =
      log_state (jl_fadd env) h (concat (txs @ [ws]))"
proof -
  have "ws \<noteq> []" using assms(2) by (simp add: legible_def)
  then show ?thesis
    using assms advanced_overtaken [OF assms(3) [unfolded log_state_def]]
      admissible_all_advanced [OF assms(3) [unfolded log_state_def]]
    by (simp add: log_ok_def log_state_def admissible_all_append after_writes_append)
qed

lemma log_prefix: "log_ok env h (txs @ rest) \<Longrightarrow> log_ok env h txs"
  by (simp add: log_ok_def admissible_all_append)

lemma log_take: "log_ok env h txs \<Longrightarrow> log_ok env h (take k txs)"
  using log_prefix [of env h "take k txs" "drop k txs"] by simp

text \<open>Replaying the lines of a log.\<close>

lemma replay_committed:
  "admissible_all (jl_fadd env) ws st \<Longrightarrow> replayCommitted env ws st = Inr (after_writes (jl_fadd env) ws st)"
  using validateCommitted_iff [of ws st "jl_fadd env"]
  by (auto simp: replayCommitted_def is_ok_iff admissible_all_iff applyValidated_addressed)

text \<open>A transaction that the storage could not have applied as a whole is refused.\<close>

lemma replay_refused:
  assumes inv: "storage_inv (jl_fadd env) st" and no: "\<not> admissible_all (jl_fadd env) ws st"
  shows "\<not> is_ok (replayCommitted env ws st)"
proof (cases "validated_all (jl_fadd env) ws st")
  case True
  with no have "\<not> (\<forall>w\<in>set ws. addressed w)" by (simp add: admissible_all_iff)
  with applyValidated_thrown [OF inv True] show ?thesis
    by (cases "validateCommitted ws st") (auto simp: replayCommitted_def)
next
  case False
  with validateCommitted_iff [of ws st "jl_fadd env"] show ?thesis
    by (cases "validateCommitted ws st") (auto simp: replayCommitted_def)
qed

lemma replay_log:
  assumes "\<forall>ws\<in>set txs. legible env ws" "admissible_all (jl_fadd env) (concat txs) st"
  shows "foldE (replay_line env path) (List.enumerate i (map (serializeJsonlTransaction env) txs)) st =
    Inr (after_writes (jl_fadd env) (concat txs) st)"
  using assms
proof (induction txs arbitrary: st i)
  case (Cons ws txs)
  then have "replay_line env path (i, serializeJsonlTransaction env ws) st = Inr (after_writes (jl_fadd env) ws st)"
    by (simp add: replay_line_def parse_transaction admissible_all_append replay_committed)
  with Cons show ?case by (simp add: admissible_all_append after_writes_append)
qed simp

lemma log_lines_free: "log_ok env h txs \<Longrightarrow> \<forall>l\<in>set (jsonl_lines env h txs). newline_free l"
  by (auto simp: log_ok_def jsonl_lines_def header_ok_def json_text_def legible_def serializeJsonlTransaction_def)

section \<open>File operations without failures\<close>

definition no_faults :: "file_system \<Rightarrow> bool" where
  "no_faults f \<longleftrightarrow> fx_outcomes f = []"

definition put :: "string \<Rightarrow> string \<Rightarrow> file_system \<Rightarrow> file_system" where
  "put path c f = f\<lparr>fx_files := (fx_files f)(path \<mapsto> c)\<rparr>"

lemma put_simps [simp]:
  "fx_files (put p c f) = (fx_files f)(p \<mapsto> c)" "no_faults (put p c f) = no_faults f" "put p d (put p c f) = put p d f"
  by (simp_all add: put_def no_faults_def)

lemma fs_done:
  assumes "no_faults f"
  shows "writeFile p c f = (Inr (), put p c f)"
    "appendFile p c f = (Inr (), put p ((case fx_files f p of None \<Rightarrow> [] | Some d \<Rightarrow> d) @ c) f)"
    "fx_files f p = Some d \<Longrightarrow> readTextFile p f = (Inr d, f)"
    "readLine s f = (Inr (cut_line s), f)"
    "fx_files f p = Some d \<Longrightarrow> renameFile p q f = (Inr (), f\<lparr>fx_files := (fx_files f)(p := None, q \<mapsto> d)\<rparr>)"
  using assms
  by (simp_all add: no_faults_def writeFile_def appendFile_def readTextFile_def readLine_def renameFile_def fs_write_def
      next_outcome_def put_def)

lemma io_simps [simp]:
  "retIO x f = (Inr x, f)" "liftIO r f = (r, f)"
  "m f = (Inr x, g) \<Longrightarrow> bindIO m k f = k x g" "m f = (Inl e, g) \<Longrightarrow> bindIO m k f = (Inl e, g)"
  by (simp_all add: retIO_def liftIO_def bindIO_def)

lemma fileValue_simps [simp]:
  "m f = (Inr x, g) \<Longrightarrow> fileValue m a f = (Inr x, g)"
  "m f = (Inl e, g) \<Longrightarrow> fileValue m a f = (Inl (DError (a @ '': '' @ e)), g)"
  by (simp_all add: fileValue_def)

text \<open>A file whose content has been staged replaces the destination.\<close>

lemma publish_done:
  assumes "no_faults f" "path \<noteq> tmp" "tmp = path @ ''.tmp''"
    and "writeContent (\<lambda>c. fileValue (appendFile tmp c) (''Failed to append JSONL storage '' @ path))
      (put tmp [] f) = (Inr (), g)"
    and "no_faults g" "fx_files g tmp = Some c"
  shows "publishFileAtomically path writeContent f =
    (Inr (), g\<lparr>fx_files := (fx_files g)(tmp := None, path \<mapsto> c)\<rparr>)"
  using assms by (simp add: publishFileAtomically_def Let_def fs_done)

section \<open>File operations that may fail\<close>

lemma next_outcome_files [simp]: "next_outcome f = (x, g) \<Longrightarrow> fx_files g = fx_files f"
  by (auto simp: next_outcome_def split: list.splits)

lemma readTextFile_any:
  "readTextFile p f = (x, g) \<Longrightarrow> fx_files g = fx_files f \<and> (\<forall>c. x = Inr c \<longrightarrow> fx_files f p = Some c)"
  by (auto simp: readTextFile_def split: prod.splits fs_outcome.splits option.splits)

lemma readLine_any: "readLine s f = (x, g) \<Longrightarrow> fx_files g = fx_files f \<and> (\<forall>y. x = Inr y \<longrightarrow> y = cut_line s)"
  by (auto simp: readLine_def split: prod.splits fs_outcome.splits)

lemma fs_write_any:
  "fs_write change p c f = (x, g) \<Longrightarrow> (\<forall>q. q \<noteq> p \<longrightarrow> fx_files g q = fx_files f q) \<and>
    (\<forall>u. x = Inr u \<longrightarrow> fx_files g p = Some (change c (fx_files f p)))"
  by (auto simp: fs_write_def split: prod.splits fs_outcome.splits if_splits)

lemma renameFile_any:
  "renameFile p q f = (x, g) \<Longrightarrow> (\<forall>m. x = Inl m \<longrightarrow> fx_files g = fx_files f) \<and>
    (\<forall>u. x = Inr u \<longrightarrow> (\<exists>c. fx_files f p = Some c \<and> fx_files g = (fx_files f)(p := None, q \<mapsto> c)))"
  by (auto simp: renameFile_def split: prod.splits fs_outcome.splits option.splits)

lemma removeFile_any: "removeFile p f = (x, g) \<Longrightarrow> q \<noteq> p \<Longrightarrow> fx_files g q = fx_files f q"
  by (auto simp: removeFile_def split: prod.splits fs_outcome.splits)

lemma fileValue_cases:
  assumes "fileValue m a f = (x, g)"
  obtains y where "m f = (y, g)" "\<And>v. x = Inr v \<longleftrightarrow> y = Inr v"
  using assms by (cases "m f"; cases "fst (m f)") (auto simp: fileValue_def)

lemma bindIO_cases:
  assumes "bindIO m k f = (x, g)"
  obtains (throws) e where "m f = (Inl e, g)" "x = Inl e"
    | (returns) v h where "m f = (Inr v, h)" "k v h = (x, g)"
  using assms by (cases "m f"; cases "fst (m f)") (auto simp: bindIO_def)

text \<open>Publishing one content: the destination has either its old content or the new one.\<close>

lemma publish_any:
  assumes "publishFileAtomically path (\<lambda>append. append c) f = (x, g)"
  shows "(\<forall>e. x = Inl e \<longrightarrow> fx_files g path = fx_files f path) \<and> (\<forall>u. x = Inr u \<longrightarrow> fx_files g path = Some c)"
proof -
  let ?tmp = "path @ ''.tmp''"
  define staged where "staged = bindIO (fileValue (writeFile ?tmp []) (''Failed to stage JSONL storage '' @ path)) (\<lambda>_.
      bindIO (fileValue (appendFile ?tmp c) (''Failed to append JSONL storage '' @ path)) (\<lambda>_.
        fileValue (renameFile ?tmp path) (''Failed to publish JSONL storage '' @ path)))"
  obtain y h where y: "staged f = (y, h)" by (cases "staged f")
  obtain w f1 where w: "writeFile ?tmp [] f = (w, f1)" by (cases "writeFile ?tmp [] f")
  obtain a f2 where a: "appendFile ?tmp c f1 = (a, f2)" by (cases "appendFile ?tmp c f1")
  obtain r f3 where r: "renameFile ?tmp path f2 = (r, f3)" by (cases "renameFile ?tmp path f2")
  have tmp: "path \<noteq> ?tmp" by simp
  have files: "fx_files f1 path = fx_files f path" "fx_files f2 path = fx_files f1 path"
    "w = Inr u \<Longrightarrow> a = Inr v \<Longrightarrow> fx_files f2 ?tmp = Some c" for u v
    using fs_write_any [OF w [unfolded writeFile_def]] fs_write_any [OF a [unfolded appendFile_def]] tmp by auto
  have st: "(\<forall>e. y = Inl e \<longrightarrow> fx_files h path = fx_files f path) \<and> (\<forall>u. y = Inr u \<longrightarrow> fx_files h path = Some c)"
    using y files renameFile_any [OF r]
    by (cases w; cases a; cases r) (auto simp: staged_def bindIO_def fileValue_def w a r)
  have "publishFileAtomically path (\<lambda>append. append c) f =
      (case y of Inr u \<Rightarrow> (Inr u, h) | Inl e \<Rightarrow> (Inl e, snd (removeFile ?tmp h)))"
    using y by (simp add: publishFileAtomically_def staged_def Let_def split: sum.split)
  moreover have "fx_files (snd (removeFile ?tmp h)) path = fx_files h path"
    by (metis append_self_conv list.distinct(1) removeFile_any prod.collapse)
  ultimately show ?thesis using st assms by (cases y) auto
qed

section \<open>Opening a file\<close>

text \<open>What opening computes from the content of a log followed by the torn part of a line.\<close>

lemma log_reading:
  assumes log: "log_ok env h txs" and r: "newline_free r"
  shows "cut_line (join_lines (jsonl_lines env h txs) @ r) = (Some (jl_stringify env (header_json h), True),
      join_lines (map (serializeJsonlTransaction env) txs) @ r)"
    and "splitCompleteLines (join_lines (jsonl_lines env h txs) @ r) = (jsonl_lines env h txs, r \<noteq> [])"
    and "bindE (foldE (replay_line env path) (drop 1 (List.enumerate 0 (jsonl_lines env h txs))) storage_new)
      (\<lambda>st. case jh_nextSeq h of None \<Rightarrow> Inr st | Some n \<Rightarrow> advanceNextSeq n st) =
      Inr (log_state (jl_fadd env) h (concat txs))"
    and "jl_stringify env (header_json h) \<noteq> []"
    and "parseJsonlSessionHeader env (jl_stringify env (header_json h)) = Inr (FormatV4 h)"
    and "jh_storageVersion h = JSONL_STORAGE_VERSION"
proof -
  let ?ls = "jsonl_lines env h txs"
  have h: "header_ok env h" and free: "\<forall>l\<in>set ?ls. newline_free l" "?ls \<noteq> []"
    using log log_lines_free [OF log] by (simp_all add: log_ok_def jsonl_lines_def)
  show "cut_line (join_lines ?ls @ r) = (Some (jl_stringify env (header_json h), True),
      join_lines (map (serializeJsonlTransaction env) txs) @ r)"
    using free by (simp add: jsonl_lines_def cut_line_join)
  show "splitCompleteLines (join_lines ?ls @ r) = (?ls, r \<noteq> [])" by (rule splitCompleteLines_join [OF free(2,1) r])
  have "drop 1 (List.enumerate 0 ?ls) = List.enumerate 1 (map (serializeJsonlTransaction env) txs)"
    by (simp add: jsonl_lines_def)
  moreover have "foldE (replay_line env path) (List.enumerate 1 (map (serializeJsonlTransaction env) txs)) storage_new =
      Inr (after_writes (jl_fadd env) (concat txs) storage_new)"
    by (rule replay_log) (use log in \<open>simp_all add: log_ok_def\<close>)
  ultimately show "bindE (foldE (replay_line env path) (drop 1 (List.enumerate 0 ?ls)) storage_new)
      (\<lambda>st. case jh_nextSeq h of None \<Rightarrow> Inr st | Some n \<Rightarrow> advanceNextSeq n st) =
      Inr (log_state (jl_fadd env) h (concat txs))"
    using h by (cases "jh_nextSeq h") (simp_all add: advanceNextSeq_def log_state_def advanced_def header_ok_def)
  show "jl_stringify env (header_json h) \<noteq> []" "jh_storageVersion h = JSONL_STORAGE_VERSION"
    using h by (simp_all add: header_ok_def json_text_def)
  show "parseJsonlSessionHeader env (jl_stringify env (header_json h)) = Inr (FormatV4 h)" by (rule parse_header [OF h])
qed

text \<open>
  With failures of the file system, opening throws or gives the state of the log, and the file has
  its content or the complete lines of it.
\<close>

lemma open_any:
  assumes log: "log_ok env h txs" and r: "newline_free r"
    and content: "fx_files f path = Some (join_lines (jsonl_lines env h txs) @ r)"
    and x: "jsonl_open env path f = (x, g)"
  defines "js \<equiv> (jsonl_new path h)\<lparr>js_state := log_state (jl_fadd env) h (concat txs)\<rparr>"
  shows "(\<forall>opened. x = Inr opened \<longrightarrow>
      opened = Opened js \<and> fx_files g path = Some (join_lines (jsonl_lines env h txs))) \<and>
    (fx_files g path = Some (join_lines (jsonl_lines env h txs) @ r) \<or>
     fx_files g path = Some (join_lines (jsonl_lines env h txs)))"
proof -
  let ?ls = "jsonl_lines env h txs" and ?c = "join_lines (jsonl_lines env h txs) @ r"
  note facts = log_reading [OF log r]
  obtain a f1 where a: "readTextFile path f = (a, f1)" by (cases "readTextFile path f")
  obtain b f2 where b: "readLine ?c f1 = (b, f2)" by (cases "readLine ?c f1")
  obtain d f3 where d: "readTextFile path f2 = (d, f3)" by (cases "readTextFile path f2")
  define last_step where "last_step = (if r \<noteq> [] then publishFileAtomically path (\<lambda>append. append (join_lines ?ls)) else retIO ())"
  obtain e f4 where e: "last_step f3 = (e, f4)" by (cases "last_step f3")
  have files: "fx_files f1 path = Some ?c" "fx_files f2 path = Some ?c" "fx_files f3 path = Some ?c"
    "a = Inr s \<Longrightarrow> s = ?c" "b = Inr y \<Longrightarrow> y = cut_line ?c" "d = Inr s \<Longrightarrow> s = ?c" for s y
    using readTextFile_any [OF a] readLine_any [OF b] readTextFile_any [OF d] content by auto
  have pub: "(\<forall>m. e = Inl m \<longrightarrow> fx_files f4 path = Some ?c) \<and> (\<forall>u. e = Inr u \<longrightarrow> fx_files f4 path = Some (join_lines ?ls))"
    using e publish_any [of path "join_lines ?ls" f3] files(3)
    by (cases "r = []") (auto simp: last_step_def)
  have v4: "jsonl_openV4 env path h f2 = (case d of Inl m \<Rightarrow> (Inl (DError ((''Failed to read JSONL storage '' @ path) @ '': '' @ m)), f3)
      | Inr s \<Rightarrow> (case e of Inl m \<Rightarrow> (Inl m, f4) | Inr u \<Rightarrow> (Inr js, f4)))"
    using files(6) e facts(2,3,6)
    by (cases d; cases e) (simp_all add: jsonl_openV4_def bindIO_def fileValue_def d js_def last_step_def [symmetric])
  have head: "readJsonlHeader env ?c path f1 = (case b of Inl m \<Rightarrow> (Inl (DError ((''Failed to read JSONL storage '' @ path) @ '': '' @ m)), f2)
      | Inr y \<Rightarrow> (Inr (FormatV4 h, join_lines (map (serializeJsonlTransaction env) txs) @ r), f2))"
    using files(5) facts(1,4,5)
    by (cases b) (simp_all add: readJsonlHeader_def bindIO_def fileValue_def b)
  show ?thesis
    using x files pub
    by (cases a; cases b; cases d; cases e)
      (auto simp: jsonl_open_def openTextLineReader_def bindIO_def fileValue_def a head v4)
qed

lemma open_log:
  assumes log: "log_ok env h txs" and f: "no_faults f"
    and content: "fx_files f path = Some (join_lines (jsonl_lines env h txs) @ r)" and r: "newline_free r"
  shows "\<exists>g. jsonl_open env path f = (Inr (Opened
        ((jsonl_new path h)\<lparr>js_state := log_state (jl_fadd env) h (concat txs)\<rparr>)), g) \<and>
    no_faults g \<and> fx_files g path = Some (join_lines (jsonl_lines env h txs))"
proof -
  let ?ls = "jsonl_lines env h txs" and ?st = "log_state (jl_fadd env) h (concat txs)"
  let ?js = "(jsonl_new path h)\<lparr>js_state := ?st\<rparr>"
  let ?tmp = "path @ ''.tmp''"
  note facts = log_reading [OF log r]
  have head: "readJsonlHeader env (join_lines ?ls @ r) path f =
      (Inr (FormatV4 h, join_lines (map (serializeJsonlTransaction env) txs) @ r), f)"
    using facts(1,4,5) by (simp add: readJsonlHeader_def fs_done [OF f])
  define g where "g = (if r = [] then f else
    f\<lparr>fx_files := (fx_files f)(?tmp := None, path \<mapsto> join_lines ?ls)\<rparr>)"
  have tail: "(if r \<noteq> [] then publishFileAtomically path (\<lambda>append. append (join_lines ?ls)) else retIO ()) f = (Inr (), g)"
  proof (cases "r = []")
    case False
    have tmp: "path \<noteq> ?tmp" by simp
    have "publishFileAtomically path (\<lambda>append. append (join_lines ?ls)) f =
      (Inr (), (put ?tmp (join_lines ?ls) f)
        \<lparr>fx_files := (fx_files (put ?tmp (join_lines ?ls) f))(?tmp := None, path \<mapsto> join_lines ?ls)\<rparr>)"
      by (rule publish_done [OF f tmp refl]) (use f in \<open>simp_all add: fs_done\<close>)
    with False show ?thesis by (simp add: g_def put_def)
  qed (simp add: g_def)
  have v4: "jsonl_openV4 env path h f = (Inr ?js, g)"
    using facts(2,3,6) tail
    by (simp add: jsonl_openV4_def fs_done(3) [OF f content] bindIO_def fileValue_def)
  have "jsonl_open env path f = (Inr (Opened ?js), g)"
    by (simp add: jsonl_open_def openTextLineReader_def bindIO_def fileValue_def fs_done(3) [OF f content] head v4)
  moreover have "no_faults g" "fx_files g path = Some (join_lines ?ls)"
    using f content by (auto simp: g_def no_faults_def)
  ultimately show ?thesis by blast
qed

lemma opened_inv:
  assumes "log_ok env h txs" "fx_files g path = Some (join_lines (jsonl_lines env h txs))"
  shows "jsonl_inv env ((jsonl_new path h)\<lparr>js_state := log_state (jl_fadd env) h (concat txs)\<rparr>) g txs"
  using assms by (simp add: jsonl_inv_def jsonl_new_def)

section \<open>Commits\<close>

text \<open>A commit that takes effect writes the transaction that the state in memory applies.\<close>

lemma commit_accepted:
  assumes inv: "jsonl_inv env js f txs" and f: "no_faults f"
    and c: "prepareCommit writes ts (js_state js) = Inr p" and r: "pc_writes p = [] \<or> legible env (pc_writes p)"
    and addr: "\<forall>w\<in>set (pc_writes p). addressed w"
  shows "\<exists>res js' g. jsonl_commit env writes ts js f = (Inr res, js', g) \<and> no_faults g \<and>
    storage_commit (jl_fadd env) writes ts (js_state js) = (Inr res, js_state js') \<and>
    jsonl_inv env js' g (if pc_writes p = [] then txs else txs @ [pc_writes p])"
proof -
  let ?h = "js_header js" and ?path = "js_path js" and ?ws = "pc_writes p"
  let ?st = "after_writes (jl_fadd env) ?ws (js_state js)"
  have o: "js_status js = JOpen" and log: "log_ok env ?h txs"
    and content: "fx_files f ?path = Some (join_lines (jsonl_lines env ?h txs))"
    and st: "js_state js = log_state (jl_fadd env) ?h (concat txs)"
    using inv by (simp_all add: jsonl_inv_def)
  define g where "g = (if ?ws = [] then f
    else put ?path (join_lines (jsonl_lines env ?h txs) @ serializeJsonlTransaction env ?ws @ [newline]) f)"
  note applied = applyValidated_addressed [OF addr, of "jl_fadd env" "js_state js"]
  have eq: "jsonl_commit env writes ts js f =
      (Inr \<lparr>cr_firstSeq = pc_firstSeq p, cr_seqs = pc_seqs p, cr_timestamp = pc_timestamp p, cr_stats = ss_stats ?st\<rparr>,
       js\<lparr>js_state := ?st\<rparr>, g)"
    using o c by (simp add: jsonl_commit_def g_def fileValue_def fs_done [OF f] content applied)
  have "jsonl_inv env (js\<lparr>js_state := ?st\<rparr>) g (if ?ws = [] then txs else txs @ [?ws])"
  proof (cases "?ws = []")
    case True
    with inv show ?thesis by (simp add: g_def)
  next
    case False
    have "validateCommitted ?ws (js_state js) = Inr ()"
      using c by (auto simp: prepareCommit_def Let_def bindE_eq_Inr)
    then have "admissible_all (jl_fadd env) ?ws (js_state js)"
      using validateCommitted_iff [of ?ws "js_state js" "jl_fadd env"] addr by (simp add: is_ok_iff admissible_all_iff)
    with log_extend [OF log, of ?ws] r False o st show ?thesis
      by (simp add: jsonl_inv_def g_def jsonl_lines_def)
  qed
  moreover have "no_faults g" using f by (simp add: g_def)
  ultimately show ?thesis
    using eq c by (simp add: storage_commit_def applied)
qed

lemma commit_rejected:
  assumes "jsonl_inv env js f txs" "prepareCommit writes ts (js_state js) = Inl e"
  shows "jsonl_commit env writes ts js f = (Inl e, js, f) \<and>
    storage_commit (jl_fadd env) writes ts (js_state js) = (Inl e, js_state js)"
  using assms by (simp add: jsonl_inv_def jsonl_commit_def storage_commit_def)

end
