(* ===== verification/JsonlForkLaws.thy ===== *)
theory JsonlForkLaws imports JsonlFork JsonlLaws DurableForkLaws begin

text \<open>
  What a log says about the state it leads to, and about the index of a fork: the current values and
  surviving list elements are writes of the log, and the projected writes lead to the state that
  the fork in memory makes.
\<close>

section \<open>Sequences of a log\<close>

lemma admissible_sorted: "admissible_all fadd ws st \<Longrightarrow> sorted_wrt (<) (map cw_seq ws)"
proof (induction ws arbitrary: st)
  case (Cons w ws)
  then have "cw_seq w + 1 \<le> cw_seq x" if "x \<in> set ws" for x
    using seqs_above [of fadd ws "after_write fadd w st" x] that by simp
  then have "\<forall>x\<in>set ws. cw_seq w < cw_seq x" by force
  moreover have "sorted_wrt (<) (map cw_seq ws)" using Cons.IH [of "after_write fadd w st"] Cons.prems by simp
  ultimately show ?case by simp
qed simp

lemma same_seq:
  assumes "admissible_all fadd ws st" "v \<in> set ws" "w \<in> set ws" "cw_seq v = cw_seq w"
  shows "v = w"
proof -
  have "distinct (map cw_seq ws)" using admissible_sorted [OF assms(1)] by (simp add: strict_sorted_iff)
  with assms(2-4) show ?thesis by (simp add: distinct_map inj_on_def)
qed

fun write_namespace :: "committed \<Rightarrow> string option" where
  "write_namespace (CValueSet seq n k v) = Some n"
| "write_namespace (CValueDelete seq n k) = Some n"
| "write_namespace (CListAppend seq n k v) = Some n"
| "write_namespace (CListDelete seq n k) = Some n"
| "write_namespace w = None"

definition clean_write :: "committed \<Rightarrow> bool" where
  "clean_write w \<longleftrightarrow> (case write_namespace w of None \<Rightarrow> True | Some n \<Rightarrow> NUL \<notin> set n)"

section \<open>What a write does to values and lists\<close>

definition value_addr :: "string \<Rightarrow> string \<Rightarrow> address" where
  "value_addr n k = \<lparr>ad_namespace = n, ad_key = k, ad_kind = ValueA\<rparr>"

definition list_addr :: "string \<Rightarrow> string \<Rightarrow> address" where
  "list_addr n k = \<lparr>ad_namespace = n, ad_key = k, ad_kind = ListA\<rparr>"

lemma apply_scalar:
  "map_of (ss_scalar (after_write fadd (CEntry e) st)) = map_of (ss_scalar st)"
  "map_of (ss_scalar (after_write fadd (CUsage r) st)) = map_of (ss_scalar st)"
  "map_of (ss_scalar (after_write fadd (CListAppend seq n k v) st)) = map_of (ss_scalar st)"
  "map_of (ss_scalar (after_write fadd (CListDelete seq n k) st)) = map_of (ss_scalar st)"
  "map_of (ss_scalar (after_write fadd (CValueSet seq n k v) st)) =
    (map_of (ss_scalar st))(physicalKey n k \<mapsto> \<lparr>sv_address = value_addr n k, sv_value = v, sv_seq = seq\<rparr>)"
  "map_of (ss_scalar (after_write fadd (CValueDelete seq n k) st)) = (map_of (ss_scalar st))(physicalKey n k := None)"
  by (simp_all add: after_write_def Let_def put_value_def value_addr_def update_conv' delete_conv')

lemma apply_lists:
  "map_of (ss_lists (after_write fadd (CEntry e) st)) = map_of (ss_lists st)"
  "map_of (ss_lists (after_write fadd (CUsage r) st)) = map_of (ss_lists st)"
  "map_of (ss_lists (after_write fadd (CValueSet seq n k v) st)) = map_of (ss_lists st)"
  "map_of (ss_lists (after_write fadd (CValueDelete seq n k) st)) = map_of (ss_lists st)"
  "map_of (ss_lists (after_write fadd (CListAppend seq n k v) st)) =
    (map_of (ss_lists st))(physicalKey n k \<mapsto> (case map_of (ss_lists st) (physicalKey n k) of
       None \<Rightarrow> \<lparr>ls_address = list_addr n k, ls_elements = [\<lparr>le_seq = seq, le_value = v\<rparr>]\<rparr>
     | Some l \<Rightarrow> l\<lparr>ls_elements := ls_elements l @ [\<lparr>le_seq = seq, le_value = v\<rparr>]\<rparr>))"
  "map_of (ss_lists (after_write fadd (CListDelete seq n k) st)) = (map_of (ss_lists st))(physicalKey n k := None)"
  by (simp_all add: after_write_def Let_def put_list_def list_addr_def update_conv' delete_conv' split: option.split)

lemma apply_usage:
  "\<forall>r. w \<noteq> CUsage r \<Longrightarrow> ss_usage (after_write fadd w st) = ss_usage st"
  by (cases w) (simp_all add: after_write_def Let_def)

lemmas apply_contents = apply_scalar apply_lists

lemma new_contents [simp]:
  "map_of (ss_scalar storage_new) pk = None" "map_of (ss_lists storage_new) pk = None" "ss_entries storage_new i = None"
  "ss_bySeq storage_new = []" "ss_usage storage_new = []" "ss_nextSeq storage_new = 1"
  by (simp_all add: storage_new_def)

section \<open>The log behind a state\<close>

definition index_of_log :: "committed list \<Rightarrow> fork_index" where
  "index_of_log ws = applyWrites ws index_new"

lemma index_of_log_simps [simp]:
  "index_of_log [] = index_new" "index_of_log (ws @ [w]) = index_write w (index_of_log ws)"
  by (simp_all add: index_of_log_def applyWrites_def)

definition state_of_log :: "(rat \<Rightarrow> rat \<Rightarrow> rat) \<Rightarrow> committed list \<Rightarrow> storage_state" where
  "state_of_log fadd ws = after_writes fadd ws storage_new"

lemma state_of_log_simps [simp]:
  "state_of_log fadd [] = storage_new" "state_of_log fadd (ws @ [w]) = after_write fadd w (state_of_log fadd ws)"
  by (simp_all add: state_of_log_def after_writes_append)

lemma applyLaneValue_fields [simp]:
  "fi_scalarSeqs (applyLaneValue n k v ix) = fi_scalarSeqs ix" "fi_listSeqs (applyLaneValue n k v ix) = fi_listSeqs ix"
  "fi_parents (applyLaneValue n k v ix) = fi_parents ix"
  by (simp_all add: applyLaneValue_def)

lemma scalar_index: "fi_scalarSeqs (index_of_log ws) = map_option sv_seq \<circ> map_of (ss_scalar (state_of_log fadd ws))"
proof (induction ws rule: rev_induct)
  case (snoc w ws)
  then show ?case by (cases w) (simp_all add: apply_scalar fun_eq_iff)
qed (simp add: index_new_def fun_eq_iff)

lemma scalar_index_at:
  "fi_scalarSeqs (index_of_log ws) pk = Some n \<longleftrightarrow>
    (\<exists>s. map_of (ss_scalar (state_of_log fadd ws)) pk = Some s \<and> sv_seq s = n)"
  using scalar_index [of ws fadd] by auto

lemma parent_index: "fi_parents (index_of_log ws) = parent_in (ss_entries (state_of_log fadd ws))"
proof (induction ws rule: rev_induct)
  case (snoc w ws)
  then show ?case by (cases w) (simp_all add: fun_eq_iff parent_in_def)
qed (simp add: index_new_def fun_eq_iff parent_in_def)

text \<open>A current value is the one of a write of the log.\<close>

lemma stored_write:
  assumes "map_of (ss_scalar (state_of_log fadd ws)) pk = Some s"
  shows "\<exists>n k. CValueSet (sv_seq s) n k (sv_value s) \<in> set ws \<and> pk = physicalKey n k \<and> sv_address s = value_addr n k"
  using assms
proof (induction ws arbitrary: s rule: rev_induct)
  case (snoc w ws)
  show ?case
  proof (cases "map_of (ss_scalar (state_of_log fadd ws)) pk = Some s")
    case True
    with snoc.IH show ?thesis by fastforce
  next
    case False
    with snoc.prems show ?thesis by (cases w) (auto simp: apply_scalar split: if_splits, blast)
  qed
qed simp

lemma value_index:
  assumes "\<forall>w\<in>set ws. clean_write w"
  shows "fi_branchTips (index_of_log ws) b = map_option tip_of (value_of ''pi.branch.tip'' b (state_of_log fadd ws)) \<and>
    (b \<in> fi_laneConfigs (index_of_log ws) \<longleftrightarrow> value_of ''pi.lane.config'' b (state_of_log fadd ws) \<noteq> None) \<and>
    (b \<in> fi_laneStates (index_of_log ws) \<longleftrightarrow> value_of ''pi.lane.state'' b (state_of_log fadd ws) \<noteq> None)"
  using assms
proof (induction ws rule: rev_induct)
  case Nil
  show ?case by (simp add: index_new_def value_of_def)
next
  case (snoc w ws)
  have key: "physicalKey n k = physicalKey m j \<longleftrightarrow> n = m \<and> k = j" if "NUL \<notin> set n" "NUL \<notin> set m" for n k m j
    using physicalKey_inj that by blast
  note IH = snoc.IH
  show ?case
  proof (cases w)
    case (CValueSet seq n k v)
    then have "NUL \<notin> set n" using snoc.prems by (simp add: clean_write_def)
    note k = key [OF NUL_names(1) this] key [OF NUL_names(2) this] key [OF NUL_names(3) this]
    from IH snoc.prems CValueSet k show ?thesis
      by (auto simp: value_of_def apply_scalar applyLaneValue_def)
  next
    case (CValueDelete seq n k)
    then have "NUL \<notin> set n" using snoc.prems by (simp add: clean_write_def)
    note k = key [OF NUL_names(1) this] key [OF NUL_names(2) this] key [OF NUL_names(3) this]
    from IH snoc.prems CValueDelete k show ?thesis
      by (auto simp: value_of_def apply_scalar applyLaneValue_def)
  qed (use IH snoc.prems in \<open>simp_all add: value_of_def apply_scalar\<close>)
qed

text \<open>The elements appended to a list from a sequence on.\<close>

fun appended :: "string \<Rightarrow> int \<Rightarrow> committed \<Rightarrow> list_element option" where
  "appended pk first (CListAppend seq n k v) =
    (if physicalKey n k = pk \<and> first \<le> seq then Some \<lparr>le_seq = seq, le_value = v\<rparr> else None)"
| "appended pk first w = None"

definition appends :: "string \<Rightarrow> int \<Rightarrow> committed list \<Rightarrow> list_element list" where
  "appends pk first ws = List.map_filter (appended pk first) ws"

lemma appends_snoc [simp]:
  "appends pk first [] = []"
  "appends pk first (ws @ [w]) = appends pk first ws @ (case appended pk first w of None \<Rightarrow> [] | Some x \<Rightarrow> [x])"
  by (simp_all add: appends_def map_filter_simps split: option.split)

lemma appends_earlier:
  assumes "\<forall>w\<in>set ws. cw_seq w < first" shows "appends pk first ws = []"
  using assms
proof (induction ws rule: rev_induct)
  case (snoc w ws)
  then show ?case by (cases w) simp_all
qed simp

lemma earlier_seqs: "admissible_all fadd (ws @ [w]) storage_new \<Longrightarrow> v \<in> set ws \<Longrightarrow> cw_seq v < cw_seq w"
  using admissible_sorted [of fadd "ws @ [w]" storage_new] by (simp add: sorted_wrt_append)

text \<open>A list is what the log has appended since the first element that survives.\<close>

lemma list_index:
  assumes "admissible_all fadd ws storage_new"
  shows "case map_of (ss_lists (state_of_log fadd ws)) pk of
      None \<Rightarrow> fi_listSeqs (index_of_log ws) pk = None
    | Some l \<Rightarrow> (\<exists>first n k v. fi_listSeqs (index_of_log ws) pk = Some first \<and> ls_elements l = appends pk first ws \<and>
        CListAppend first n k v \<in> set ws \<and> pk = physicalKey n k \<and> ls_address l = list_addr n k)"
  using assms
proof (induction ws rule: rev_induct)
  case Nil
  show ?case by (simp add: index_new_def)
next
  case (snoc w ws)
  note IH = snoc.IH [OF admissible_all_append [THEN iffD1, OF snoc.prems, THEN conjunct1]]
  show ?case
  proof (cases w)
    case (CListAppend seq n k v)
    have none: "appends pk seq ws = []"
      by (rule appends_earlier) (use earlier_seqs [OF snoc.prems] CListAppend in auto)
    show ?thesis
    proof (cases "pk = physicalKey n k")
      case True
      show ?thesis
      proof (cases "map_of (ss_lists (state_of_log fadd ws)) pk")
        case None
        with IH CListAppend True none show ?thesis by (simp add: apply_lists) blast
      next
        case (Some l)
        with IH obtain first m j u where l: "fi_listSeqs (index_of_log ws) pk = Some first"
          "ls_elements l = appends pk first ws" "CListAppend first m j u \<in> set ws" "pk = physicalKey m j"
          "ls_address l = list_addr m j" by auto
        have "first < seq" using earlier_seqs [OF snoc.prems l(3)] CListAppend by simp
        with Some l(1,2) have "fi_listSeqs (index_of_log (ws @ [w])) pk = Some first"
          "map_of (ss_lists (state_of_log fadd (ws @ [w]))) pk =
            Some (l\<lparr>ls_elements := appends pk first (ws @ [w])\<rparr>)"
          using CListAppend True by (simp_all add: apply_lists)
        with l(3-5) show ?thesis by auto
      qed
    next
      case False
      with IH CListAppend show ?thesis by (auto simp: apply_lists split: option.splits)
    qed
  next
    case (CListDelete seq n k)
    with IH show ?thesis by (auto simp: apply_lists split: option.splits)
  qed (use IH in \<open>auto simp: apply_lists split: option.splits\<close>)
qed

section \<open>The copied log\<close>

definition copied_write :: "fork_index \<Rightarrow> fork_plan \<Rightarrow> (string \<Rightarrow> bool) \<Rightarrow> committed \<Rightarrow> committed option" where
  "copied_write ix plan c w = (case projectJsonlForkWrite ix plan c w of Inl e \<Rightarrow> None | Inr q \<Rightarrow> q)"

lemma copied_write_simps [simp]:
  "copied_write ix plan c (CEntry e) = (if c (de_id e) then Some (CEntry e) else None)"
  "copied_write ix plan c (CUsage r) = None"
  "copied_write ix plan c (CValueSet seq n k v) =
    (if fi_scalarSeqs ix (physicalKey n k) = Some seq then map_option (CValueSet seq n k) (kept plan c n k v) else None)"
  "copied_write ix plan c (CValueDelete seq n k) = None"
  "copied_write ix plan c (CListAppend seq n k v) =
    (if isSurvivingListElement n k seq ix then map_option (CListAppend seq n k) (kept plan c n k v) else None)"
  "copied_write ix plan c (CListDelete seq n k) = None"
  by (simp_all add: copied_write_def kept_def keep_write_def bindE_def split: sum.split projected.split)

definition fork_log :: "fork_index \<Rightarrow> fork_plan \<Rightarrow> (string \<Rightarrow> bool) \<Rightarrow> committed list \<Rightarrow> committed list" where
  "fork_log ix plan c ws = List.map_filter (copied_write ix plan c) ws"

lemma fork_log_simps [simp]:
  "fork_log ix plan c [] = []"
  "fork_log ix plan c (vs @ ws) = fork_log ix plan c vs @ fork_log ix plan c ws"
  "fork_log ix plan c [w] = (case copied_write ix plan c w of None \<Rightarrow> [] | Some q \<Rightarrow> [q])"
  by (simp_all add: fork_log_def map_filter_simps split: option.split)

lemma copied_write_seq: "copied_write ix plan c w = Some q \<Longrightarrow> cw_seq q = cw_seq w"
  by (cases w) (auto split: if_splits)

text \<open>The policy throws on none of the writes when the state can be forked.\<close>

lemma project_copied:
  assumes adm: "admissible_all fadd ws storage_new" and clean: "\<forall>w\<in>set ws. clean_write w"
    and ok: "forkable (state_of_log fadd ws)" and w: "w \<in> set ws"
  shows "projectJsonlForkWrite (index_of_log ws) plan c w = Inr (copied_write (index_of_log ws) plan c w)"
proof -
  let ?st = "state_of_log fadd ws" and ?ix = "index_of_log ws"
  have inr: "bindE r f = Inr (case bindE r f of Inl e \<Rightarrow> None | Inr q \<Rightarrow> q)"
    if "is_ok r" "\<And>p. \<exists>q. f p = Inr q" for r and f :: "projected \<Rightarrow> durable_error + committed option"
    using that by (cases r) (auto, metis sum.case(2))
  show ?thesis
  proof (cases w)
    case (CValueSet seq n k v)
    have "known_namespace n" if "fi_scalarSeqs ?ix (physicalKey n k) = Some seq"
    proof -
      obtain s where s: "map_of (ss_scalar ?st) (physicalKey n k) = Some s" "sv_seq s = seq"
        using \<open>fi_scalarSeqs ?ix (physicalKey n k) = Some seq\<close> by (auto simp: scalar_index_at [of _ _ _ fadd])
      obtain m j where "CValueSet (sv_seq s) m j (sv_value s) \<in> set ws" "sv_address s = value_addr m j"
        using stored_write [OF s(1)] by blast
      moreover from this same_seq [OF adm, of "CValueSet (sv_seq s) m j (sv_value s)" w] w CValueSet s(2)
      have "m = n" by auto
      ultimately show ?thesis using ok map_of_SomeD [OF s(1)] by (auto simp: forkable_def value_addr_def)
    qed
    then show ?thesis
      using CValueSet inr [of "projectForkCurrentStateWrite plan c n k v"]
      by (simp add: copied_write_def project_ok)
  next
    case (CListAppend seq n k v)
    have "known_namespace n" if "isSurvivingListElement n k seq ?ix"
    proof -
      have "fi_listSeqs ?ix (physicalKey n k) \<noteq> None"
        using that by (auto simp: isSurvivingListElement_def split: option.splits)
      then obtain l where l: "map_of (ss_lists ?st) (physicalKey n k) = Some l"
        using list_index [OF adm, of "physicalKey n k"] by (auto split: option.splits)
      obtain m j u first where m: "CListAppend first m j u \<in> set ws" "physicalKey n k = physicalKey m j"
        "ls_address l = list_addr m j"
        using list_index [OF adm, of "physicalKey n k"] l by auto
      have "n = m" using physicalKey_inj [OF m(2)] clean w m(1) CListAppend by (force simp: clean_write_def)
      with m(3) ok map_of_SomeD [OF l] show ?thesis by (auto simp: forkable_def list_addr_def)
    qed
    then show ?thesis
      using CListAppend inr [of "projectForkCurrentStateWrite plan c n k v"]
      by (simp add: copied_write_def project_ok)
  qed (simp_all add: copied_write_def)
qed

section \<open>The state of the copied log\<close>

lemma log_prefix_admissible: "admissible_all fadd (us @ vs) storage_new \<Longrightarrow> admissible_all fadd us storage_new"
  by (simp add: admissible_all_append)

definition value_in :: "fork_plan \<Rightarrow> (string \<Rightarrow> bool) \<Rightarrow> committed list \<Rightarrow> stored_value \<Rightarrow> stored_value option" where
  "value_in plan c us s =
    (let n = ad_namespace (sv_address s); k = ad_key (sv_address s) in
     if CValueSet (sv_seq s) n k (sv_value s) \<in> set us
     then map_option (\<lambda>v. s\<lparr>sv_value := v\<rparr>) (kept plan c n k (sv_value s)) else None)"

lemma value_in_other:
  "CValueSet (sv_seq s) (ad_namespace (sv_address s)) (ad_key (sv_address s)) (sv_value s) \<noteq> w \<Longrightarrow>
   value_in plan c (us @ [w]) s = value_in plan c us s"
  by (auto simp: value_in_def Let_def)

lemma value_in_no_value: "\<forall>seq n k v. w \<noteq> CValueSet seq n k v \<Longrightarrow> value_in plan c (us @ [w]) = value_in plan c us"
  by (intro ext value_in_other) metis

lemma copied_values:
  assumes adm: "admissible_all fadd ws storage_new" and us: "ws = us @ vs"
  shows "map_of (ss_scalar (state_of_log fadd (fork_log (index_of_log ws) plan c us))) pk =
    Option.bind (map_of (ss_scalar (state_of_log fadd ws)) pk) (value_in plan c us)"
  using us
proof (induction us arbitrary: vs rule: rev_induct)
  case Nil
  have "value_in plan c [] s = None" for s by (simp add: value_in_def Let_def)
  then show ?case by (simp add: bind_eq_None_conv)
next
  case (snoc w us)
  let ?st = "state_of_log fadd ws" and ?ix = "index_of_log ws"
  have IH: "map_of (ss_scalar (state_of_log fadd (fork_log ?ix plan c us))) pk =
      Option.bind (map_of (ss_scalar ?st) pk) (value_in plan c us)" using snoc.IH [of "w # vs"] snoc.prems by simp
  have w: "w \<in> set ws" "w \<notin> set us"
    using snoc.prems admissible_sorted [OF adm] by (auto simp: sorted_wrt_append)
  show ?case
  proof (cases w)
    case (CValueSet seq n k v)
    show ?thesis
    proof (cases "fi_scalarSeqs ?ix (physicalKey n k) = Some seq")
      case True
      then obtain s where s: "map_of (ss_scalar ?st) (physicalKey n k) = Some s" "sv_seq s = seq"
        by (auto simp: scalar_index_at [of _ _ _ fadd])
      obtain m j where m: "CValueSet (sv_seq s) m j (sv_value s) \<in> set ws" "sv_address s = value_addr m j"
        using stored_write [OF s(1)] by blast
      then have eq: "CValueSet (sv_seq s) m j (sv_value s) = w" using same_seq [OF adm m(1) w(1)] CValueSet s(2) by simp
      then have here: "s = \<lparr>sv_address = value_addr n k, sv_value = v, sv_seq = seq\<rparr>"
        using CValueSet m(2) by (cases s) simp
      show ?thesis
      proof (cases "pk = physicalKey n k")
        case pk: True
        have "value_in plan c us s = None" "value_in plan c (us @ [w]) s = map_option (\<lambda>v. s\<lparr>sv_value := v\<rparr>) (kept plan c n k v)"
          using w(2) here CValueSet by (simp_all add: value_in_def value_addr_def Let_def)
        with IH pk s(1) here CValueSet True show ?thesis
          by (cases "kept plan c n k v") (simp_all add: apply_scalar)
      next
        case False
        have "value_in plan c (us @ [w]) t = value_in plan c us t" if t: "map_of (ss_scalar ?st) pk = Some t" for t
          by (rule value_in_other) (use stored_write [OF t] CValueSet False in \<open>auto simp: value_addr_def\<close>)
        with IH False CValueSet True show ?thesis
          by (cases "kept plan c n k v"; cases "map_of (ss_scalar ?st) pk") (simp_all add: apply_scalar)
      qed
    next
      case False
      have "value_in plan c (us @ [w]) t = value_in plan c us t" if t: "map_of (ss_scalar ?st) pk = Some t" for t
      proof (rule value_in_other, rule notI)
        assume e: "CValueSet (sv_seq t) (ad_namespace (sv_address t)) (ad_key (sv_address t)) (sv_value t) = w"
        with stored_write [OF t] CValueSet have "pk = physicalKey n k" "sv_seq t = seq" by (auto simp: value_addr_def)
        with t False show False by (auto simp: scalar_index_at [of _ _ _ fadd])
      qed
      with IH CValueSet False show ?thesis by (cases "map_of (ss_scalar ?st) pk") simp_all
    qed
  next
    case (CListAppend seq n k v)
    with IH show ?thesis
      by (cases "isSurvivingListElement n k seq ?ix"; cases "kept plan c n k v")
        (simp_all add: apply_scalar value_in_no_value)
  qed (use IH in \<open>simp_all add: apply_scalar value_in_no_value\<close>)
qed

lemma kept_elements_snoc:
  "kept_elements plan c a [] = []"
  "kept_elements plan c a (xs @ [x]) = kept_elements plan c a xs @
    (case kept plan c (ad_namespace a) (ad_key a) (le_value x) of None \<Rightarrow> [] | Some v \<Rightarrow> [x\<lparr>le_value := v\<rparr>])"
  by (simp_all add: kept_elements_def map_filter_simps split: option.split)

lemma copied_lists_none:
  "fi_listSeqs ix pk = None \<Longrightarrow> map_of (ss_lists (state_of_log fadd (fork_log ix plan c us))) pk = None"
proof (induction us rule: rev_induct)
  case (snoc w us)
  show ?case
  proof (cases w)
    case (CListAppend seq n k v)
    show ?thesis
    proof (cases "isSurvivingListElement n k seq ix")
      case True
      then have "pk \<noteq> physicalKey n k" using snoc.prems by (auto simp: isSurvivingListElement_def)
      with snoc CListAppend show ?thesis
        by (cases "kept plan c n k v") (simp_all add: apply_lists)
    qed (use snoc CListAppend in simp)
  next
    case (CValueSet seq n k v)
    with snoc show ?thesis
      by (cases "fi_scalarSeqs ix (physicalKey n k) = Some seq"; cases "kept plan c n k v") (simp_all add: apply_lists)
  qed (use snoc in \<open>simp_all add: apply_lists\<close>)
qed simp

lemma copied_lists:
  assumes clean: "\<forall>w\<in>set us. clean_write w" and n: "NUL \<notin> set n" and first: "fi_listSeqs ix (physicalKey n k) = Some first"
  shows "map_of (ss_lists (state_of_log fadd (fork_log ix plan c us))) (physicalKey n k) =
    list_of (list_addr n k) (kept_elements plan c (list_addr n k) (appends (physicalKey n k) first us))"
  using clean
proof (induction us rule: rev_induct)
  case Nil
  show ?case by (simp add: list_of_def kept_elements_snoc)
next
  case (snoc w us)
  then have IH: "map_of (ss_lists (state_of_log fadd (fork_log ix plan c us))) (physicalKey n k) =
      list_of (list_addr n k) (kept_elements plan c (list_addr n k) (appends (physicalKey n k) first us))" by simp
  show ?case
  proof (cases w)
    case (CListAppend seq m j v)
    show ?thesis
    proof (cases "physicalKey m j = physicalKey n k")
      case True
      have "NUL \<notin> set m" using snoc.prems CListAppend by (simp add: clean_write_def)
      with physicalKey_inj [OF True] n have mj: "m = n" "j = k" by simp_all
      have "isSurvivingListElement m j seq ix \<longleftrightarrow> first \<le> seq"
        using first mj by (simp add: isSurvivingListElement_def)
      with IH CListAppend mj show ?thesis
        by (cases "kept plan c n k v")
          (auto simp: apply_lists kept_elements_snoc list_of_def list_addr_def)
    next
      case False
      with IH CListAppend show ?thesis
        by (cases "isSurvivingListElement m j seq ix"; cases "kept plan c m j v") (simp_all add: apply_lists)
    qed
  next
    case (CValueSet seq m j v)
    with IH show ?thesis
      by (cases "fi_scalarSeqs ix (physicalKey m j) = Some seq"; cases "kept plan c m j v") (simp_all add: apply_lists)
  qed (use IH in \<open>simp_all add: apply_lists\<close>)
qed

section \<open>The copied entries\<close>

lemma state_entries: "ss_bySeq (state_of_log fadd ws) = List.map_filter cw_entry ws"
proof (induction ws rule: rev_induct)
  case (snoc w ws)
  then show ?case by (simp add: map_filter_simps split: option.split)
qed (simp add: map_filter_simps)

lemma copied_entries:
  "List.map_filter cw_entry (fork_log ix plan c ws) = filter (\<lambda>e. c (de_id e)) (List.map_filter cw_entry ws)"
proof (induction ws)
  case (Cons w ws)
  have step: "fork_log ix plan c (w # ws) = fork_log ix plan c [w] @ fork_log ix plan c ws"
    using fork_log_simps(2) [of ix plan c "[w]" ws] by simp
  show ?case unfolding step using Cons
    by (cases w) (auto simp: map_filter_simps split: option.split)
qed (simp add: map_filter_simps)

lemma copied_seqs: "map cw_seq (fork_log ix plan c ws) = map cw_seq (filter (\<lambda>w. copied_write ix plan c w \<noteq> None) ws)"
proof (induction ws)
  case (Cons w ws)
  have step: "fork_log ix plan c (w # ws) = fork_log ix plan c [w] @ fork_log ix plan c ws"
    using fork_log_simps(2) [of ix plan c "[w]" ws] by simp
  show ?case unfolding step using Cons copied_write_seq by (auto split: option.split)
qed simp

lemma copied_write_usage: "copied_write ix plan c w \<noteq> Some (CUsage r)"
  by (cases w) (auto split: if_splits)

lemma copied_no_usage: "\<forall>r. CUsage r \<notin> set (fork_log ix plan c ws)"
proof (induction ws)
  case (Cons w ws)
  have step: "fork_log ix plan c (w # ws) = fork_log ix plan c [w] @ fork_log ix plan c ws"
    using fork_log_simps(2) [of ix plan c "[w]" ws] by simp
  have "Some (CUsage r) \<noteq> copied_write ix plan c w" for r by (metis copied_write_usage)
  then show ?case unfolding step using Cons by (auto split: option.split)
qed simp

lemma copied_write_addressed: "copied_write ix plan c w = Some q \<Longrightarrow> addressed q = addressed w"
  by (cases w) (auto split: if_splits)

lemma copied_addressed: "\<forall>w\<in>set ws. addressed w \<Longrightarrow> \<forall>q\<in>set (fork_log ix plan c ws). addressed q"
proof (induction ws)
  case (Cons w ws)
  have step: "fork_log ix plan c (w # ws) = fork_log ix plan c [w] @ fork_log ix plan c ws"
    using fork_log_simps(2) [of ix plan c "[w]" ws] by simp
  show ?case unfolding step using Cons copied_write_addressed by (auto split: option.split)
qed simp

lemma state_no_usage: "\<forall>r. CUsage r \<notin> set ws \<Longrightarrow> ss_usage (state_of_log fadd ws) = []"
proof (induction ws rule: rev_induct)
  case (snoc w ws)
  then show ?case using apply_usage [of w fadd "state_of_log fadd ws"] by auto
qed simp

text \<open>A list of writes without usage rows is admissible when its entries form a tree.\<close>

lemma admissible_log:
  assumes "sorted_wrt (<) (map cw_seq ws)" "\<forall>w\<in>set ws. 1 \<le> cw_seq w \<and> addressed w" "\<forall>r. CUsage r \<notin> set ws"
    and "tree_wf (List.map_filter cw_entry ws)"
  shows "admissible_all fadd ws storage_new"
  using assms
proof (induction ws rule: rev_induct)
  case (snoc w ws)
  have wf: "tree_wf (List.map_filter cw_entry ws)"
    using snoc.prems(4) by (cases "cw_entry w") (simp_all add: map_filter_simps tree_wf_snoc)
  have adm: "admissible_all fadd ws storage_new"
    using snoc.IH snoc.prems(1-3) wf by (simp add: sorted_wrt_append)
  let ?st = "state_of_log fadd ws"
  have inv: "storage_inv fadd ?st" unfolding state_of_log_def by (rule after_writes_keeps_inv [OF storage_inv_new adm])
  have us: "ss_usage ?st = []" using snoc.prems(3) by (intro state_no_usage) simp
  note ids = inv_has_ids [OF inv, unfolded us state_entries]
  have "ss_nextSeq ?st \<le> cw_seq w"
  proof (cases "ws = []")
    case False
    then have "cw_seq (last ws) < cw_seq w" using snoc.prems(1) by (simp add: sorted_wrt_append)
    with False show ?thesis by (simp add: state_of_log_def apply_last_seq)
  qed (use snoc.prems(2) in simp)
  then have "admissible w ?st"
  proof (cases w)
    case (CEntry e)
    with snoc.prems(4) have "de_id e \<notin> de_id ` set (List.map_filter cw_entry ws)"
      "case de_parentId e of None \<Rightarrow> True | Some p \<Rightarrow> p \<in> de_id ` set (List.map_filter cw_entry ws)"
      by (simp_all add: map_filter_simps tree_wf_snoc)
    with \<open>ss_nextSeq ?st \<le> cw_seq w\<close> CEntry show ?thesis
      unfolding admissible_def validated_def by (cases "de_parentId e") (simp_all add: ids del: list.set_map)
  next
    case (CUsage r)
    have "CUsage r \<notin> set (ws @ [w])" using snoc.prems(3) by blast
    with CUsage show ?thesis by simp
  qed (use snoc.prems(2) in \<open>simp_all add: admissible_def validated_def\<close>)
  with adm show ?case by (simp add: admissible_all_append state_of_log_def)
qed simp

section \<open>The state of the copy\<close>

text \<open>Two states with the same contents; values and lists may be stored in another order.\<close>

definition same_contents :: "storage_state \<Rightarrow> storage_state \<Rightarrow> bool" where
  "same_contents st st' \<longleftrightarrow>
    ss_entries st = ss_entries st' \<and> ss_bySeq st = ss_bySeq st' \<and>
    map_of (ss_scalar st) = map_of (ss_scalar st') \<and> map_of (ss_lists st) = map_of (ss_lists st') \<and>
    ss_usage st = ss_usage st' \<and> ss_stats st = ss_stats st' \<and> ss_nextSeq st = ss_nextSeq st'"

lemma copied_log_admissible:
  assumes adm: "admissible_all fadd ws storage_new"
    and closed: "closed_in (\<lambda>e. c (de_id e)) (ss_bySeq (state_of_log fadd ws))"
  shows "admissible_all fadd (fork_log ix plan c ws) storage_new"
proof (rule admissible_log)
  have sorted: "sorted_wrt (\<lambda>v w. cw_seq v < cw_seq w) ws" using admissible_sorted [OF adm] by (simp add: sorted_wrt_map)
  show "sorted_wrt (<) (map cw_seq (fork_log ix plan c ws))"
    unfolding copied_seqs sorted_wrt_map by (rule sorted_wrt_filter [OF sorted])
  have "cw_seq ` set (fork_log ix plan c ws) \<subseteq> cw_seq ` set ws"
    using arg_cong [OF copied_seqs [of ix plan c ws], of set] by auto
  moreover have "\<forall>w\<in>set ws. 1 \<le> cw_seq w" using seqs_above [OF adm] by simp
  ultimately have "\<forall>w\<in>set (fork_log ix plan c ws). 1 \<le> cw_seq w" by fastforce
  moreover have "\<forall>w\<in>set (fork_log ix plan c ws). addressed w"
    by (rule copied_addressed) (use adm in \<open>simp add: admissible_all_iff\<close>)
  ultimately show "\<forall>w\<in>set (fork_log ix plan c ws). 1 \<le> cw_seq w \<and> addressed w" by blast
  show "\<forall>r. CUsage r \<notin> set (fork_log ix plan c ws)" by (rule copied_no_usage)
  have "storage_inv fadd (state_of_log fadd ws)"
    unfolding state_of_log_def by (rule after_writes_keeps_inv [OF storage_inv_new adm])
  then have "tree_wf (List.map_filter cw_entry ws)" using inv_tree_wf state_entries by metis
  moreover have "closed_in (\<lambda>e. c (de_id e)) (List.map_filter cw_entry ws)" using closed by (simp add: state_entries)
  ultimately show "tree_wf (List.map_filter cw_entry (fork_log ix plan c ws))"
    unfolding copied_entries tree_wf_def using parents_first_filter by (auto simp: distinct_map_filter)
qed

lemma copied_scalar:
  assumes adm: "admissible_all fadd ws storage_new"
  shows "map_of (ss_scalar (state_of_log fadd (fork_log (index_of_log ws) plan c ws))) =
    map_of (kept_values plan c (ss_scalar (state_of_log fadd ws)))"
proof
  fix pk
  let ?st = "state_of_log fadd ws"
  have "storage_inv fadd ?st" unfolding state_of_log_def by (rule after_writes_keeps_inv [OF storage_inv_new adm])
  then have d: "distinct (map fst (ss_scalar ?st))" by (simp add: storage_inv_def values_wf_def)
  have "value_in plan c ws s = map_option (\<lambda>v. s\<lparr>sv_value := v\<rparr>)
      (kept plan c (ad_namespace (sv_address s)) (ad_key (sv_address s)) (sv_value s))"
    if "map_of (ss_scalar ?st) pk = Some s" for s
    using stored_write [OF that] by (auto simp: value_in_def value_addr_def Let_def)
  with copied_values [OF adm, of ws "[]" plan c pk]
  show "map_of (ss_scalar (state_of_log fadd (fork_log (index_of_log ws) plan c ws))) pk =
      map_of (kept_values plan c (ss_scalar ?st)) pk"
    unfolding map_of_kept_values [OF d] by (cases "map_of (ss_scalar ?st) pk") simp_all
qed

lemma copied_list_rows:
  assumes adm: "admissible_all fadd ws storage_new" and clean: "\<forall>w\<in>set ws. clean_write w"
  shows "map_of (ss_lists (state_of_log fadd (fork_log (index_of_log ws) plan c ws))) =
    map_of (kept_lists plan c (ss_lists (state_of_log fadd ws)))"
proof
  fix pk
  let ?st = "state_of_log fadd ws"
  have "storage_inv fadd ?st" unfolding state_of_log_def by (rule after_writes_keeps_inv [OF storage_inv_new adm])
  then have d: "distinct (map fst (ss_lists ?st))" by (simp add: storage_inv_def lists_wf_def)
  note ix = list_index [OF adm, of pk]
  show "map_of (ss_lists (state_of_log fadd (fork_log (index_of_log ws) plan c ws))) pk =
      map_of (kept_lists plan c (ss_lists ?st)) pk"
  proof (cases "map_of (ss_lists ?st) pk")
    case None
    with ix copied_lists_none [of "index_of_log ws" pk fadd plan c ws] show ?thesis
      by (simp add: map_of_kept_lists [OF d])
  next
    case (Some l)
    with ix obtain first n k v where l: "fi_listSeqs (index_of_log ws) pk = Some first" "ls_elements l = appends pk first ws"
      "CListAppend first n k v \<in> set ws" "pk = physicalKey n k" "ls_address l = list_addr n k" by auto
    have "NUL \<notin> set n" using clean l(3) by (force simp: clean_write_def)
    from copied_lists [OF clean this l(1) [unfolded l(4)], of fadd plan c] l Some show ?thesis
      by (simp add: map_of_kept_lists [OF d] list_addr_def)
  qed
qed

text \<open>The state that the copied log leads to is the fork of the state.\<close>

lemma copied_state:
  assumes adm: "admissible_all fadd ws storage_new" and clean: "\<forall>w\<in>set ws. clean_write w"
    and closed: "closed_in (\<lambda>e. c (de_id e)) (ss_bySeq (state_of_log fadd ws))"
    and n: "ss_nextSeq (log_state fadd h ws) = n" and h': "jh_nextSeq h' = Some n"
  shows "same_contents (log_state fadd h' (fork_log (index_of_log ws) plan c ws)) (forked plan c (log_state fadd h ws))"
proof -
  let ?ws = "fork_log (index_of_log ws) plan c ws"
  let ?st = "state_of_log fadd ws" and ?dst = "state_of_log fadd ?ws"
  have adm': "admissible_all fadd ?ws storage_new" by (rule copied_log_admissible [OF adm closed])
  have inv': "storage_inv fadd ?dst" unfolding state_of_log_def by (rule after_writes_keeps_inv [OF storage_inv_new adm'])
  have es: "ss_bySeq ?dst = filter (\<lambda>e. c (de_id e)) (ss_bySeq ?st)"
    by (simp add: state_entries copied_entries)
  have us: "ss_usage ?dst = []" by (rule state_no_usage [OF copied_no_usage])
  have low: "1 \<le> n" "\<forall>w\<in>set ws. cw_seq w < n"
  proof -
    have m: "ss_nextSeq ?st \<le> n"
      using advanced_fields(7) [of ?st h] unfolding n [symmetric] log_state_def state_of_log_def .
    show "\<forall>w\<in>set ws. cw_seq w < n"
    proof
      fix w assume w: "w \<in> set ws"
      then have "ws \<noteq> []" by auto
      then have "cw_seq w \<le> cw_seq (last ws)" 
        using admissible_sorted [OF adm] w by (cases ws rule: rev_cases) (auto simp: sorted_wrt_append)
      with m \<open>ws \<noteq> []\<close> show "cw_seq w < n" by (simp add: state_of_log_def apply_last_seq)
    qed
    show "1 \<le> n"
    proof (cases "ws = []")
      case False
      then have "1 \<le> cw_seq (last ws)" using seqs_above [OF adm, of "last ws"] by simp
      moreover have "cw_seq (last ws) < n" using False \<open>\<forall>w\<in>set ws. cw_seq w < n\<close> by simp
      ultimately show ?thesis by simp
    qed (use m in simp)
  qed
  have "ss_nextSeq ?dst \<le> n"
  proof (cases "?ws = []")
    case False
    have "cw_seq (last ?ws) \<in> cw_seq ` set ws"
      using False arg_cong [OF copied_seqs [of "index_of_log ws" plan c ws], of set] by (metis (no_types, lifting) filter_is_subset image_mono last_in_set list.set_map rev_image_eqI subsetD)
    with low(2) False show ?thesis by (auto simp: state_of_log_def apply_last_seq)
  qed (use low(1) in simp)
  then have top: "ss_nextSeq (log_state fadd h' ?ws) = n"
    using h' by (simp add: log_state_def advanced_def state_of_log_def)
  have stats: "ss_stats ?dst = \<lparr>st_messageCount = message_count (ss_bySeq ?dst), st_usage = emptyUsage\<rparr>"
    using inv' us by (cases "ss_stats ?dst") (simp add: storage_inv_def sums_of_def)
  show ?thesis
    unfolding same_contents_def
    using inv' es us stats top n copied_scalar [OF adm, of plan c] copied_list_rows [OF adm clean, of plan c]
    by (simp add: forked_def log_state_def Let_def storage_inv_def flip: state_of_log_def)
qed

section \<open>The selection\<close>

lemma select_from_index:
  assumes clean: "\<forall>w\<in>set ws. clean_write w"
    and s: "selectForkPlan options (state_of_log fadd ws) = Some (Inr (plan, selected))"
  shows "selectJsonlFork (index_of_log ws) options = Some (Inr (plan, selected))"
proof (cases options)
  case ForkTree
  with s show ?thesis by (simp add: selectForkPlan_def selectJsonlFork_def)
next
  case (ForkBranch b entryId pos)
  have nul: "NUL \<notin> set b"
    using s by (auto simp: ForkBranch selectForkPlan_def branchTip_def value_at_def validateAddress_def split: if_splits)
  note ix = value_index [OF clean, of b fadd]
  have tip: "map_option (\<lambda>s. tip_of (sv_value s)) (getValue \<lparr>ad_namespace = ''pi.branch.tip'', ad_key = b, ad_kind = ValueA\<rparr> (state_of_log fadd ws)) =
      fi_branchTips (index_of_log ws) b"
    using ix by (simp add: getValue_def value_of_def option.map_comp comp_def)
  show ?thesis
    using s ix
    unfolding ForkBranch selectForkPlan_def selectJsonlFork_def fork_options.case branch_address [OF nul] sum.case tip
      bindE_Inr parent_index [of ws fadd] hasCompleteLane_def
    by (auto simp: getValue_def value_of_def bindE_eq_Inr split: if_splits)
qed

end
