(* ===== verification/JsonlProps.thy ===== *)
theory JsonlProps imports JsonlLaws DurableProps begin

text \<open>The properties of the storage in a file, with their witnesses.\<close>

section \<open>A storage in a file and one in memory\<close>

fun jsonl_run ::
  "jsonl_env \<Rightarrow> (dwrite list \<times> int) list \<Rightarrow> jsonl_storage \<Rightarrow> file_system
    \<Rightarrow> (durable_error + commit_result) list \<times> jsonl_storage \<times> file_system" where
  "jsonl_run env [] js f = ([], js, f)"
| "jsonl_run env ((writes, ts) # jobs) js f =
    (let (r, js, f) = jsonl_commit env writes ts js f; (rs, js, f) = jsonl_run env jobs js f in (r # rs, js, f))"

fun memory_run ::
  "(rat \<Rightarrow> rat \<Rightarrow> rat) \<Rightarrow> (dwrite list \<times> int) list \<Rightarrow> storage_state
    \<Rightarrow> (durable_error + commit_result) list \<times> storage_state" where
  "memory_run fadd [] st = ([], st)"
| "memory_run fadd ((writes, ts) # jobs) st =
    (let (r, st) = storage_commit fadd writes ts st; (rs, st) = memory_run fadd jobs st in (r # rs, st))"

lemma memory_run_state [simp]:
  "snd (memory_run fadd ((writes, ts) # jobs) st) = snd (memory_run fadd jobs (snd (storage_commit fadd writes ts st)))"
  by (simp split: prod.split)

text \<open>The transactions that commits write, those included that throw at an invalid address.\<close>

fun memory_log :: "(rat \<Rightarrow> rat \<Rightarrow> rat) \<Rightarrow> (dwrite list \<times> int) list \<Rightarrow> storage_state \<Rightarrow> committed list list" where
  "memory_log fadd [] st = []"
| "memory_log fadd ((writes, ts) # jobs) st =
    (case prepareCommit writes ts st of
       Inl e \<Rightarrow> memory_log fadd jobs st
     | Inr p \<Rightarrow> (if pc_writes p = [] then [] else [pc_writes p])
         @ memory_log fadd jobs (snd (applyValidated fadd (pc_writes p) st)))"

lemma storage_commit_prepared:
  "prepareCommit writes ts st = Inr p \<Longrightarrow> snd (storage_commit fadd writes ts st) = snd (applyValidated fadd (pc_writes p) st)"
  by (simp add: storage_commit_def split: prod.split sum.split)

text \<open>A commit to a file does what the commit in memory does, and appends the line of its transaction.\<close>

lemma commit_like_memory:
  assumes "js_status js = JOpen" "no_faults f" "fx_files f (js_path js) = Some c"
  shows "\<exists>g. jsonl_commit env writes ts js f = (fst (storage_commit (jl_fadd env) writes ts (js_state js)),
      js\<lparr>js_state := snd (storage_commit (jl_fadd env) writes ts (js_state js))\<rparr>, g) \<and> no_faults g \<and>
    fx_files g (js_path js) = Some (c @ join_lines (case prepareCommit writes ts (js_state js) of
      Inl e \<Rightarrow> [] | Inr p \<Rightarrow> if pc_writes p = [] then [] else [serializeJsonlTransaction env (pc_writes p)]))"
proof (cases "prepareCommit writes ts (js_state js)")
  case (Inl e)
  with assms show ?thesis by (simp add: jsonl_commit_def storage_commit_def)
next
  case (Inr p)
  obtain r st where a: "applyValidated (jl_fadd env) (pc_writes p) (js_state js) = (r, st)"
    by (cases "applyValidated (jl_fadd env) (pc_writes p) (js_state js)")
  with assms Inr show ?thesis
    by (cases r; cases "pc_writes p = []")
      (auto simp: jsonl_commit_def storage_commit_def fileValue_def fs_done(2))
qed

lemma run_like_memory:
  assumes "js_status js = JOpen" "no_faults f" "fx_files f (js_path js) = Some c"
  shows "\<exists>g. jsonl_run env jobs js f = (fst (memory_run (jl_fadd env) jobs (js_state js)),
      js\<lparr>js_state := snd (memory_run (jl_fadd env) jobs (js_state js))\<rparr>, g) \<and> no_faults g \<and>
    fx_files g (js_path js) = Some (c @ join_lines (map (serializeJsonlTransaction env)
      (memory_log (jl_fadd env) jobs (js_state js))))"
  using assms
proof (induction jobs arbitrary: js f c)
  case (Cons job jobs)
  obtain writes ts where job: "job = (writes, ts)" by (cases job)
  let ?r = "storage_commit (jl_fadd env) writes ts (js_state js)"
  let ?l = "case prepareCommit writes ts (js_state js) of
      Inl e \<Rightarrow> [] | Inr p \<Rightarrow> if pc_writes p = [] then [] else [serializeJsonlTransaction env (pc_writes p)]"
  obtain g where g: "jsonl_commit env writes ts js f = (fst ?r, js\<lparr>js_state := snd ?r\<rparr>, g)" "no_faults g"
    "fx_files g (js_path js) = Some (c @ join_lines ?l)"
    using commit_like_memory [OF Cons.prems, of env writes ts] by blast
  have log: "map (serializeJsonlTransaction env) (memory_log (jl_fadd env) (job # jobs) (js_state js)) =
      ?l @ map (serializeJsonlTransaction env) (memory_log (jl_fadd env) jobs (snd ?r))"
    using storage_commit_prepared [of writes ts "js_state js" _ "jl_fadd env"]
    by (auto simp: job storage_commit_def split: sum.split)
  from Cons.IH [of "js\<lparr>js_state := snd ?r\<rparr>" g "c @ join_lines ?l"] Cons.prems(1) g show ?case
    unfolding log by (auto simp: job split: prod.splits)
qed simp

text \<open>As long as the addresses are valid, the log stays one that can be read back.\<close>

definition addressed_tx :: "committed list \<Rightarrow> bool" where
  "addressed_tx ws \<longleftrightarrow> (\<forall>w\<in>set ws. addressed w)"

lemma run_logged:
  assumes "log_ok env h txs" "\<forall>ws\<in>set (memory_log (jl_fadd env) jobs st). legible env ws"
    and "st = log_state (jl_fadd env) h (concat txs)"
  shows "log_ok env h (txs @ takeWhile addressed_tx (memory_log (jl_fadd env) jobs st)) \<and>
    ((\<forall>ws\<in>set (memory_log (jl_fadd env) jobs st). addressed_tx ws) \<longrightarrow>
      snd (memory_run (jl_fadd env) jobs st) =
        log_state (jl_fadd env) h (concat (txs @ memory_log (jl_fadd env) jobs st)))"
  using assms
proof (induction jobs arbitrary: st txs)
  case (Cons job jobs)
  obtain writes ts where job: "job = (writes, ts)" by (cases job)
  show ?case
  proof (cases "prepareCommit writes ts st")
    case (Inl e)
    with Cons.IH [OF Cons.prems(1) _ Cons.prems(3)] Cons.prems(2) show ?thesis
      by (simp add: job storage_commit_def del: memory_run.simps)
  next
    case (Inr p)
    note st = storage_commit_prepared [OF Inr, of "jl_fadd env"]
    show ?thesis
    proof (cases "addressed_tx (pc_writes p)")
      case True
      then have a: "applyValidated (jl_fadd env) (pc_writes p) st =
          (Inr (ss_stats (after_writes (jl_fadd env) (pc_writes p) st)), after_writes (jl_fadd env) (pc_writes p) st)"
        by (intro applyValidated_addressed) (simp add: addressed_tx_def)
      let ?txs = "txs @ (if pc_writes p = [] then [] else [pc_writes p])"
      have "log_ok env h ?txs \<and> after_writes (jl_fadd env) (pc_writes p) st = log_state (jl_fadd env) h (concat ?txs)"
      proof (cases "pc_writes p = []")
        case False
        have "validateCommitted (pc_writes p) st = Inr ()"
          using Inr by (auto simp: prepareCommit_def Let_def bindE_eq_Inr)
        then have "admissible_all (jl_fadd env) (pc_writes p) st"
          using validateCommitted_iff [of "pc_writes p" st "jl_fadd env"] True by (simp add: admissible_all_iff addressed_tx_def)
        moreover have "legible env (pc_writes p)" using Cons.prems(2) Inr False by (simp add: job)
        ultimately show ?thesis using log_extend [OF Cons.prems(1)] Cons.prems(3) False by simp
      qed (use Cons.prems in simp)
      with Cons.IH [of ?txs "after_writes (jl_fadd env) (pc_writes p) st"] Cons.prems(2) Inr a True st
      show ?thesis by (cases "pc_writes p = []") (simp_all add: job del: memory_run.simps)
    next
      case False
      then have "pc_writes p \<noteq> []" by (auto simp: addressed_tx_def)
      with False Inr Cons.prems(1) show ?thesis by (simp add: job)
    qed
  qed
qed simp

lemma jsonl_inv_opened:
  assumes "jsonl_inv env js f txs"
  shows "js = (jsonl_new (js_path js) (js_header js))
    \<lparr>js_state := log_state (jl_fadd env) (js_header js) (concat txs)\<rparr>"
  using assms by (cases js) (simp add: jsonl_inv_def jsonl_new_def)

section \<open>A file with a transaction that does not fit\<close>

lemma replay_overlap:
  assumes log: "log_ok env h txs" and ws: "legible env ws"
    and no: "\<not> admissible_all (jl_fadd env) ws (after_writes (jl_fadd env) (concat txs) storage_new)"
  shows "foldE (replay_line env path) (List.enumerate 1 (map (serializeJsonlTransaction env) (txs @ ws # later))) storage_new =
    Inl (DError (''Invalid JSONL storage '' @ path @ '': line '' @ show_nat (length txs + 2)))"
proof -
  let ?st = "after_writes (jl_fadd env) (concat txs) storage_new"
  have inv: "storage_inv (jl_fadd env) ?st"
    using log by (intro after_writes_keeps_inv [OF storage_inv_new]) (simp add: log_ok_def)
  have "\<not> is_ok (replayCommitted env ws ?st)" by (rule replay_refused [OF inv no])
  then obtain e where "replayCommitted env ws ?st = Inl e" by (cases "replayCommitted env ws ?st") simp_all
  then have last: "replay_line env path (Suc (length txs), serializeJsonlTransaction env ws) ?st =
      Inl (DError (''Invalid JSONL storage '' @ path @ '': line '' @ show_nat (length txs + 2)))"
    by (simp add: replay_line_def parse_transaction [OF ws])
  have "foldE (replay_line env path) (List.enumerate 1 (map (serializeJsonlTransaction env) txs)) storage_new = Inr ?st"
    using log by (intro replay_log) (simp_all add: log_ok_def)
  with last show ?thesis by (simp add: enumerate_append_eq foldE_append)
qed

lemma open_overlap:
  assumes f: "no_faults f" and log: "log_ok env h txs" and ws: "legible env ws" "\<forall>vs\<in>set later. legible env vs"
    and no: "\<not> admissible_all (jl_fadd env) ws (after_writes (jl_fadd env) (concat txs) storage_new)"
    and content: "fx_files f path = Some (join_lines (jsonl_lines env h (txs @ ws # later)))"
  shows "jsonl_open env path f =
    (Inl (DError (''Invalid JSONL storage '' @ path @ '': line '' @ show_nat (length txs + 2))), f)"
proof -
  let ?ls = "jsonl_lines env h (txs @ ws # later)"
  have h: "header_ok env h" using log by (simp add: log_ok_def)
  have free: "\<forall>l\<in>set ?ls. newline_free l" "?ls \<noteq> []"
    using log_lines_free [OF log] ws by (auto simp: jsonl_lines_def legible_def json_text_def serializeJsonlTransaction_def)
  have split: "splitCompleteLines (join_lines ?ls) = (?ls, False)"
    using splitCompleteLines_join [OF free(2,1), of "[]"] by (simp add: newline_free_def)
  have d: "drop 1 (List.enumerate 0 ?ls) = List.enumerate 1 (map (serializeJsonlTransaction env) (txs @ ws # later))"
    by (simp add: jsonl_lines_def)
  have "bindE (foldE (replay_line env path) (drop 1 (List.enumerate 0 ?ls)) storage_new)
      (\<lambda>st. case jh_nextSeq h of None \<Rightarrow> Inr st | Some n \<Rightarrow> advanceNextSeq n st) =
      Inl (DError (''Invalid JSONL storage '' @ path @ '': line '' @ show_nat (length txs + 2)))"
    unfolding d replay_overlap [OF log ws(1) no] by (rule bindE_Inl)
  then have v4: "jsonl_openV4 env path h f =
      (Inl (DError (''Invalid JSONL storage '' @ path @ '': line '' @ show_nat (length txs + 2))), f)"
    using h by (simp add: jsonl_openV4_def bindIO_def fileValue_def fs_done(3) [OF f content] split header_ok_def)
  have "cut_line (join_lines ?ls) = (Some (jl_stringify env (header_json h), True),
      join_lines (map (serializeJsonlTransaction env) (txs @ ws # later)))"
    using free by (simp add: jsonl_lines_def cut_line_join)
  then have "readJsonlHeader env (join_lines ?ls) path f =
      (Inr (FormatV4 h, join_lines (map (serializeJsonlTransaction env) (txs @ ws # later))), f)"
    using h parse_header [OF h] by (simp add: readJsonlHeader_def fs_done [OF f] header_ok_def json_text_def)
  with v4 show ?thesis
    by (simp add: jsonl_open_def openTextLineReader_def bindIO_def fileValue_def fs_done(3) [OF f content])
qed

section \<open>A session in a file and one in memory\<close>


section \<open>A file that is cut\<close>

lemma lines_take: "take (Suc k) (jsonl_lines env h txs) = jsonl_lines env h (take k txs)"
  by (simp add: jsonl_lines_def take_map)

text \<open>
  C7. No crash loses a committed transaction or lets a part of one through: however a file is cut after
  its header, and whatever fails while it is opened, opening it throws or gives the state after the
  transactions whose lines are complete, the file then is again one that the storage could have
  written, and a later opening without failures gives that same state.
\<close>

theorem cut_file_recovers:
  assumes inv: "jsonl_inv env js f txs"
    and n: "length (jl_stringify env (header_json (js_header js))) < n"
    and content: "fx_files f' (js_path js) = Some (take n (join_lines (jsonl_lines env (js_header js) txs)))"
    and x: "jsonl_open env (js_path js) f' = (x, g)"
  shows "\<exists>k js'. k \<le> length txs \<and>
    length (join_lines (jsonl_lines env (js_header js) (take k txs))) \<le> n \<and>
    (k = length txs \<or> n < length (join_lines (jsonl_lines env (js_header js) (take (Suc k) txs)))) \<and>
    js_state js' = log_state (jl_fadd env) (js_header js) (concat (take k txs)) \<and>
    (case x of Inr opened \<Rightarrow> opened = Opened js' \<and> jsonl_inv env js' g (take k txs) | Inl e \<Rightarrow> True) \<and>
    (\<exists>g'. jsonl_open env (js_path js) (g\<lparr>fx_outcomes := []\<rparr>) = (Inr (Opened js'), g') \<and> jsonl_inv env js' g' (take k txs))"
proof -
  let ?h = "js_header js" and ?path = "js_path js" and ?ls = "jsonl_lines env (js_header js) txs"
  have log: "log_ok env ?h txs" using inv by (simp add: jsonl_inv_def)
  obtain j r where j: "j \<le> length ?ls" "take n (join_lines ?ls) = join_lines (take j ?ls) @ r" "newline_free r"
    "j < length ?ls \<longrightarrow> length r \<le> length (?ls ! j)" "j = length ?ls \<longrightarrow> r = []"
    using take_join_lines [OF log_lines_free [OF log], of n] by blast
  have "j \<noteq> 0"
  proof
    assume "j = 0"
    then have "length (take n (join_lines ?ls)) \<le> length (?ls ! 0)" using j(2,4) by (simp add: jsonl_lines_def)
    then show False using n by (simp add: jsonl_lines_def split: if_splits)
  qed
  then obtain k where k: "j = Suc k" by (cases j) auto
  have part: "take n (join_lines ?ls) = join_lines (jsonl_lines env ?h (take k txs)) @ r"
    using j(2) by (simp add: k lines_take)
  have kn: "k \<le> length txs" using j(1) by (simp add: k jsonl_lines_def)
  have "length (join_lines (jsonl_lines env ?h (take k txs))) \<le> length (take n (join_lines ?ls))"
    unfolding part by simp
  then have low: "length (join_lines (jsonl_lines env ?h (take k txs))) \<le> n" by simp
  have high: "n < length (join_lines (jsonl_lines env ?h (take (Suc k) txs)))" if "k < length txs"
  proof -
    have lt: "Suc k < length ?ls" using that by (simp add: jsonl_lines_def)
    have whole: "join_lines (jsonl_lines env ?h (take (Suc k) txs)) =
        join_lines (jsonl_lines env ?h (take k txs)) @ ?ls ! Suc k @ [newline]"
      using that by (simp add: jsonl_lines_def take_Suc_conv_app_nth)
    then have "length (take n (join_lines ?ls)) < length (join_lines (jsonl_lines env ?h (take (Suc k) txs)))"
      using part j(4) lt by (simp add: k)
    moreover have "length (join_lines (jsonl_lines env ?h (take (Suc k) txs))) \<le> length (join_lines ?ls)"
    proof -
      have "?ls = jsonl_lines env ?h (take (Suc k) txs) @ map (serializeJsonlTransaction env) (drop (Suc k) txs)"
        by (simp add: jsonl_lines_def flip: map_append)
      then show ?thesis by (metis join_lines_simps(3) le_add1 length_append)
    qed
    ultimately show ?thesis by simp
  qed
  let ?js = "(jsonl_new ?path ?h)\<lparr>js_state := log_state (jl_fadd env) ?h (concat (take k txs))\<rparr>"
  note logk = log_take [OF log, of k]
  from open_any [OF logk j(3) content [unfolded part] x] have
    one: "\<forall>opened. x = Inr opened \<longrightarrow> opened = Opened ?js \<and>
        fx_files g ?path = Some (join_lines (jsonl_lines env ?h (take k txs)))"
    and two: "fx_files g ?path = Some (join_lines (jsonl_lines env ?h (take k txs)) @ r) \<or>
      fx_files g ?path = Some (join_lines (jsonl_lines env ?h (take k txs)) @ [])" by simp_all
  have ok: "no_faults (g\<lparr>fx_outcomes := []\<rparr>)" "newline_free []" by (simp_all add: no_faults_def newline_free_def)
  have again: "\<exists>g'. jsonl_open env ?path (g\<lparr>fx_outcomes := []\<rparr>) = (Inr (Opened ?js), g') \<and> jsonl_inv env ?js g' (take k txs)"
    using two open_log [OF logk ok(1) _ j(3)] open_log [OF logk ok(1) _ ok(2)] opened_inv [OF logk] by fastforce
  have "case x of Inr opened \<Rightarrow> opened = Opened ?js \<and> jsonl_inv env ?js g (take k txs) | Inl e \<Rightarrow> True"
    using one opened_inv [OF logk] by (simp split: sum.split)
  with kn low high again show ?thesis by (intro exI [of _ k] exI [of _ ?js]) (auto simp: le_less)
qed

section \<open>A write that lands and is reported as failed\<close>

lemma prepared_writes:
  "prepareCommit writes ts st = Inr p \<Longrightarrow> pc_writes p = commit_writes writes (ss_nextSeq st) ts \<and>
    validated_all fadd (pc_writes p) st"
  using validateCommitted_iff [of "pc_writes p" st fadd]
  by (auto simp: prepareCommit_def prepareStorageCommit_def Let_def bindE_eq_Inr is_ok_iff)

lemma committed_head: "commit_writes writes n ts = w # ws \<Longrightarrow> cw_seq w = n"
  by (cases writes) (auto simp: commitWrite_seq)

text \<open>
  C33. When the append of a commit reaches the file and is then reported as failed (as
  \<open>NodeExecutionEnv.appendFile\<close> does for an abort during the write), the commit throws and the
  storage goes on as if nothing had been written: the next commit succeeds (unless one of its own
  addresses is invalid), reuses the sequences, and from then on the file cannot be opened.
\<close>

theorem aborted_append_corrupts:
  assumes inv: "jsonl_inv env js f txs"
    and p: "prepareCommit writes ts (js_state js) = Inr p" "legible env (pc_writes p)"
    and q: "prepareCommit writes' ts' (js_state js) = Inr q" "legible env (pc_writes q)"
    and out: "fx_outcomes f = [Failed n m]" "length (serializeJsonlTransaction env (pc_writes p)) < n"
  shows "\<exists>e f1 r js' f2 e' f3. jsonl_commit env writes ts js f = (Inl e, js, f1) \<and>
    jsonl_commit env writes' ts' js f1 = (r, js', f2) \<and>
    ((\<forall>w\<in>set (pc_writes q). addressed w) \<longrightarrow> is_ok r) \<and>
    no_faults f2 \<and> jsonl_open env (js_path js) f2 = (Inl e', f3)"
proof -
  let ?h = "js_header js" and ?path = "js_path js" and ?st = "js_state js"
  let ?p = "pc_writes p" and ?q = "pc_writes q"
  let ?c = "join_lines (jsonl_lines env ?h txs)"
  have o: "js_status js = JOpen" and log: "log_ok env ?h txs" and file_is: "fx_files f ?path = Some ?c"
    and st: "?st = log_state (jl_fadd env) ?h (concat txs)"
    using inv by (simp_all add: jsonl_inv_def)
  have ne: "?p \<noteq> []" "?q \<noteq> []" using p(2) q(2) by (simp_all add: legible_def)
  let ?f1 = "put ?path (?c @ serializeJsonlTransaction env ?p @ [newline]) (f\<lparr>fx_outcomes := []\<rparr>)"
  have land: "appendFile ?path (serializeJsonlTransaction env ?p @ [newline]) f = (Inl m, ?f1)"
    using out file_is by (simp add: appendFile_def fs_write_def next_outcome_def put_def)
  have one: "jsonl_commit env writes ts js f =
      (Inl (DError ((''Failed to append JSONL storage '' @ ?path) @ '': '' @ m)), js, ?f1)"
    using o p(1) ne(1) by (simp add: jsonl_commit_def fileValue_def land)
  have f1: "no_faults ?f1" by (simp add: no_faults_def put_def)
  let ?r = "storage_commit (jl_fadd env) writes' ts' ?st"
  have "fx_files ?f1 ?path = Some (join_lines (jsonl_lines env ?h (txs @ [?p])))" by (simp add: jsonl_lines_def)
  from commit_like_memory [OF o f1 this, of env writes' ts'] q(1) ne(2) obtain f2 where
    two: "jsonl_commit env writes' ts' js ?f1 = (fst ?r, js\<lparr>js_state := snd ?r\<rparr>, f2)" "no_faults f2"
    and content: "fx_files f2 ?path = Some (join_lines (jsonl_lines env ?h (txs @ [?p])) @ join_lines [serializeJsonlTransaction env ?q])"
    by auto
  have file2: "fx_files f2 ?path = Some (join_lines (jsonl_lines env ?h (txs @ ?p # [?q])))"
    using content by (simp add: jsonl_lines_def)
  have succeeds: "is_ok (fst ?r)" if "\<forall>w\<in>set ?q. addressed w"
    using q(1) applyValidated_addressed [OF that] by (simp add: storage_commit_def)
  have val: "validated_all (jl_fadd env) ?p ?st" "?q = commit_writes writes' (ss_nextSeq ?st) ts'"
    using prepared_writes [OF p(1), THEN conjunct2, of "jl_fadd env"] prepared_writes [OF q(1), THEN conjunct1]
    by - (assumption+)
  have "\<exists>e'. jsonl_open env ?path f2 = (Inl e', f2)"
  proof (cases "\<forall>w\<in>set ?p. addressed w")
    case False
    then have "\<not> admissible_all (jl_fadd env) ?p (after_writes (jl_fadd env) (concat txs) storage_new)"
      by (simp add: admissible_all_iff)
    from open_overlap [OF two(2) log p(2) _ this file2] q(2) show ?thesis by auto
  next
    case True
    then have adm: "admissible_all (jl_fadd env) ?p ?st" using val(1) by (simp add: admissible_all_iff)
    have log': "log_ok env ?h (txs @ [?p])" using log_extend [OF log p(2)] adm st by simp
    have no: "\<not> admissible_all (jl_fadd env) ?q (after_writes (jl_fadd env) (concat (txs @ [?p])) storage_new)"
    proof
      assume a: "admissible_all (jl_fadd env) ?q (after_writes (jl_fadd env) (concat (txs @ [?p])) storage_new)"
      obtain w ws where w: "?q = w # ws" using ne(2) by (cases ?q) auto
      then have "cw_seq w = ss_nextSeq ?st" using val(2) committed_head by metis
      moreover have "ss_nextSeq ?st \<le> cw_seq (last ?p)" using seqs_above [OF adm] ne(1) by simp
      moreover have "ss_nextSeq (after_writes (jl_fadd env) (concat (txs @ [?p])) storage_new) = cw_seq (last ?p) + 1"
        using ne(1) by (simp add: after_writes_append apply_last_seq)
      moreover have "ss_nextSeq (after_writes (jl_fadd env) (concat (txs @ [?p])) storage_new) \<le> cw_seq w"
        using seqs_above [OF a, of w] w by simp
      ultimately show False by linarith
    qed
    have "fx_files f2 ?path = Some (join_lines (jsonl_lines env ?h ((txs @ [?p]) @ ?q # [])))" using file2 by simp
    from open_overlap [OF two(2) log' q(2) _ no this] show ?thesis by simp
  qed
  with one two succeeds show ?thesis by blast
qed

section \<open>A new file\<close>

lemma create_log:
  assumes f: "no_faults f" and h: "header_ok env h" "jh_nextSeq h = None"
    and p: "prepareCommit writes ts storage_new = Inr p" "pc_writes p = [] \<or> legible env (pc_writes p)"
    and addr: "\<forall>w\<in>set (pc_writes p). addressed w"
  shows "\<exists>js g. jsonl_create env path h writes ts f = (Inr js, g) \<and> no_faults g \<and> js_path js = path \<and> js_header js = h \<and>
    jsonl_inv env js g (if pc_writes p = [] then [] else [pc_writes p])"
proof -
  let ?ws = "pc_writes p" and ?tmp = "path @ ''.tmp''"
  let ?txs = "if ?ws = [] then [] else [?ws]" and ?head = "jl_stringify env (header_json h) @ [newline]"
  let ?c = "join_lines (jsonl_lines env h ?txs)"
  let ?js = "(jsonl_new path h)\<lparr>js_state := after_writes (jl_fadd env) ?ws storage_new\<rparr>"
  let ?g = "put ?tmp ?c f"
  have tmp: "path \<noteq> ?tmp" by simp
  have "publishJsonl env path h (\<lambda>append. if ?ws \<noteq> [] then append ?ws else retIO ()) f =
      (Inr (), ?g\<lparr>fx_files := (fx_files ?g)(?tmp := None, path \<mapsto> ?c)\<rparr>)"
    unfolding publishJsonl_def
    by (rule publish_done [OF f tmp refl]) (use f in \<open>simp_all add: fs_done bindIO_def fileValue_def jsonl_lines_def\<close>)
  then have create: "jsonl_create env path h writes ts f =
      (Inr ?js, ?g\<lparr>fx_files := (fx_files ?g)(?tmp := None, path \<mapsto> ?c)\<rparr>)"
    using p(1) by (simp add: jsonl_create_def Let_def bindIO_def jsonl_new_def applyValidated_addressed [OF addr])
  have "log_ok env h [] \<and> log_state (jl_fadd env) h (concat []) = storage_new"
    using h by (simp add: log_ok_def log_state_def advanced_def)
  moreover have "admissible_all (jl_fadd env) ?ws storage_new"
    using prepared_writes [OF p(1), THEN conjunct2, of "jl_fadd env"] addr by (simp add: admissible_all_iff)
  ultimately
  have "log_ok env h ?txs \<and> after_writes (jl_fadd env) ?ws storage_new = log_state (jl_fadd env) h (concat ?txs)"
    using log_extend [of env h "[]" ?ws] p(2) by auto
  then have "jsonl_inv env ?js (?g\<lparr>fx_files := (fx_files ?g)(?tmp := None, path \<mapsto> ?c)\<rparr>) ?txs"
    by (simp add: jsonl_inv_def jsonl_new_def)
  with create f show ?thesis by (force simp: no_faults_def put_def jsonl_new_def)
qed

section \<open>A small file\<close>

text \<open>A session with one entry and one value; the JSON functions know the texts of its lines.\<close>

definition demo_header :: jsonl_header where
  "demo_header = \<lparr>jh_id = ''s'', jh_storageVersion = 1, jh_createdAt = 5, jh_cwd = ''/'', jh_parentSessionId = None,
     jh_legacyParentSessionPath = None, jh_nextSeq = None\<rparr>"

definition demo_object :: "int \<Rightarrow> json \<Rightarrow> json" where
  "demo_object n v = JObj [(''kind'', JStr ''value''), (''op'', JStr ''set''), (''seq'', json_int n),
     (''namespace'', JStr ''app''), (''key'', JStr ''k''), (''value'', v)]"

definition demo_texts :: "(json \<times> string) list" where
  "demo_texts = [(header_json demo_header, ''h''),
     (JObj [(''kind'', JStr ''entry''), (''id'', JStr ''a''), (''seq'', json_int 1), (''timestamp'', json_int 7)], ''e''),
     (demo_object 2 JNull, ''v''), (demo_object 1 JNull, ''w''), (demo_object 1 (JBool True), ''x''),
     (demo_object 3 JNull, ''y''), (header_json (demo_header\<lparr>jh_nextSeq := Some 3\<rparr>), ''n'')]"

definition file_env :: jsonl_env where
  "file_env = \<lparr>jl_stringify = (\<lambda>v. case map_of demo_texts v of None \<Rightarrow> ''?'' | Some t \<Rightarrow> t),
     jl_parse = map_of (map (\<lambda>(v, t). (t, v)) demo_texts), jl_isDate = (\<lambda>s. False),
     jl_entry = (\<lambda>e. [(''id'', JStr (de_id e))]), jl_to_entry = (\<lambda>kvs. note_entry (text_of (map_of kvs ''id'')) None),
     jl_usage = (\<lambda>r. []), jl_to_usage = (\<lambda>kvs. \<lparr>ur_id = [], ur_usage = emptyUsage, ur_entryId = None,
       ur_adjustment = False, ur_details = None\<rparr>), jl_fadd = (+)\<rparr>"

definition no_files :: file_system where
  "no_files = \<lparr>fx_files = Map.empty, fx_outcomes = []\<rparr>"

definition demo_jobs :: "(dwrite list \<times> int) list" where
  "demo_jobs = [([EntryW (note_entry ''a'' None)], 7), ([EntryW (note_entry ''a'' None)], 8), ([ValueSetW ''app'' ''k'' JNull], 9)]"

lemma newline_char: "newline = CHR 0x0A"
  unfolding newline_def by code_simp

lemma demo_header_ok: "header_ok file_env demo_header"
  by (simp add: header_ok_def json_text_def file_env_def demo_texts_def demo_header_def JSONL_STORAGE_VERSION_def
      isSafeInteger_def newline_free_def newline_char)

lemma demo_created:
  obtains js f where "jsonl_create file_env ''p'' demo_header [] 0 no_files = (Inr js, f)" "no_faults f"
    "jsonl_inv file_env js f []" "js_path js = ''p''" "js_header js = demo_header" "js_state js = storage_new"
proof -
  have p: "prepareCommit [] 0 storage_new =
      Inr \<lparr>pc_writes = [], pc_firstSeq = 1, pc_seqs = [], pc_timestamp = 0\<rparr>"
    by (simp add: prepareCommit_def prepareStorageCommit_def validateCommitted_def validateCommittedWrites_def
        storage_new_def Let_def)
  have "no_faults no_files" "jh_nextSeq demo_header = None" by (simp_all add: no_faults_def no_files_def demo_header_def)
  from create_log [OF this(1) demo_header_ok this(2) p, of "''p''"] obtain js f where
    js: "jsonl_create file_env ''p'' demo_header [] 0 no_files = (Inr js, f)" "no_faults f"
    "jsonl_inv file_env js f []" "js_path js = ''p''" "js_header js = demo_header" by auto
  then have "js_state js = storage_new" by (simp add: jsonl_inv_def log_state_def advanced_def demo_header_def)
  with js that show ?thesis by blast
qed

lemma demo_legible:
  "legible file_env [CEntry (materializeCommittedEntry (note_entry ''a'' None) 1 7)]"
  "legible file_env [CValueSet 2 ''app'' ''k'' JNull]" "legible file_env [CValueSet 1 ''app'' ''k'' JNull]"
  "legible file_env [CValueSet 1 ''app'' ''k'' (JBool True)]"
  by (simp_all add: legible_def json_text_def transaction_json_def write_json_def file_env_def demo_texts_def
      demo_object_def demo_header_def header_json_def writable_def isSafeInteger_def newline_free_def newline_char
      materializeCommittedEntry_def new_entry.defs entry.defs note_entry_def json_int_def)


lemma demo_log:
  "memory_log (+) demo_jobs storage_new =
    [[CEntry (materializeCommittedEntry (note_entry ''a'' None) 1 7)], [CValueSet 2 ''app'' ''k'' JNull]]"
  by (simp add: demo_jobs_def commit_eval de_type_def)


text \<open>The file after the first commit, cut in the middle of its last line.\<close>

definition demo_txs :: "committed list list" where
  "demo_txs = [[CEntry (materializeCommittedEntry (note_entry ''a'' None) 1 7)]]"

definition cut_file :: file_system where
  "cut_file = \<lparr>fx_files = [''p'' \<mapsto> take 3 (join_lines (jsonl_lines file_env demo_header demo_txs))], fx_outcomes = []\<rparr>"

lemma demo_written:
  obtains js f where "jsonl_inv file_env js f demo_txs" "js_path js = ''p''" "js_header js = demo_header"
proof -
  obtain js f where js: "no_faults f" "jsonl_inv file_env js f []" "js_path js = ''p''" "js_header js = demo_header"
    "js_state js = storage_new" by (rule demo_created)
  have p: "prepareCommit [EntryW (note_entry ''a'' None)] 7 (js_state js) =
      Inr \<lparr>pc_writes = concat demo_txs, pc_firstSeq = 1, pc_seqs = [1], pc_timestamp = 7\<rparr>"
    by (simp add: js(5) commit_eval demo_txs_def)
  have legible: "legible file_env (concat demo_txs)" using demo_legible(1) by (simp add: demo_txs_def)
  then obtain res js' g where c: "jsonl_commit file_env [EntryW (note_entry ''a'' None)] 7 js f = (Inr res, js', g)"
    "jsonl_inv file_env js' g demo_txs"
    using commit_accepted [OF js(2,1) p] by (auto simp: demo_txs_def)
  have "js_path js' = js_path js \<and> js_header js' = js_header js"
    using c(1) p by (auto simp: jsonl_commit_def Let_def split: prod.splits sum.splits if_splits)
  with c(2) js(3,4) that show ?thesis by simp
qed

lemma cut_file_content:
  "fx_files cut_file ''p'' = Some (join_lines (jsonl_lines file_env demo_header []) @ ''e'')"
  by (simp add: cut_file_def demo_txs_def jsonl_lines_def serializeJsonlTransaction_def transaction_json_def write_json_def
      file_env_def demo_texts_def demo_object_def demo_header_def header_json_def materializeCommittedEntry_def
      new_entry.defs entry.defs note_entry_def json_int_def)

text \<open>The file after the first commit, cut in the middle of its last line.\<close>

theorem cut_file_recovers_witness:
  "\<exists>k js g. k \<le> length demo_txs \<and> jsonl_open file_env ''p'' cut_file = (Inr (Opened js), g) \<and>
    js_state js = log_state (+) demo_header (concat (take k demo_txs)) \<and> jsonl_inv file_env js g (take k demo_txs)"
proof -
  obtain js f where js: "jsonl_inv file_env js f demo_txs" "js_path js = ''p''" "js_header js = demo_header"
    by (rule demo_written)
  have fadd: "jl_fadd file_env = (+)" by (simp add: file_env_def)
  have "log_ok file_env demo_header []" using demo_header_ok by (simp add: log_ok_def)
  moreover have "no_faults cut_file" "newline_free ''e''"
    by (simp_all add: no_faults_def cut_file_def newline_free_def newline_char)
  ultimately obtain opened g where x: "jsonl_open file_env ''p'' cut_file = (Inr opened, g)"
    using open_log cut_file_content by metis
  have short: "length (jl_stringify file_env (header_json (js_header js))) < 3"
    by (simp add: js(3) file_env_def demo_texts_def)
  have content: "fx_files cut_file (js_path js) = Some (take 3 (join_lines (jsonl_lines file_env (js_header js) demo_txs)))"
    by (simp add: js(2,3) cut_file_def)
  obtain k js' where k: "k \<le> length demo_txs" "js_state js' = log_state (jl_fadd file_env) (js_header js) (concat (take k demo_txs))"
    "opened = Opened js' \<and> jsonl_inv file_env js' g (take k demo_txs)"
    using cut_file_recovers [OF js(1) short content x [folded js(2)]] unfolding sum.case by blast
  with x js(3) fadd show ?thesis by auto
qed

theorem aborted_append_corrupts_witness:
  "\<exists>js f e f1 r js' f2 e' f3.
    jsonl_commit file_env [ValueSetW ''app'' ''k'' JNull] 7 js (f\<lparr>fx_outcomes := [Failed 2 ''aborted'']\<rparr>) = (Inl e, js, f1) \<and>
    jsonl_commit file_env [ValueSetW ''app'' ''k'' (JBool True)] 8 js f1 = (Inr r, js', f2) \<and>
    jsonl_open file_env (js_path js) f2 = (Inl e', f3)"
proof -
  obtain js f where js: "no_faults f" "jsonl_inv file_env js f []" "js_state js = storage_new" by (rule demo_created)
  let ?f = "f\<lparr>fx_outcomes := [Failed 2 ''aborted'']\<rparr>"
  have inv: "jsonl_inv file_env js ?f []" using js(2) by (simp add: jsonl_inv_def)
  have p: "prepareCommit [ValueSetW ''app'' ''k'' v] ts (js_state js) =
      Inr \<lparr>pc_writes = [CValueSet 1 ''app'' ''k'' v], pc_firstSeq = 1, pc_seqs = [1], pc_timestamp = ts\<rparr>" for v ts
    by (simp add: js(3) commit_eval)
  have n: "length (serializeJsonlTransaction file_env [CValueSet 1 ''app'' ''k'' JNull]) < 2"
    by (simp add: serializeJsonlTransaction_def transaction_json_def write_json_def file_env_def demo_texts_def
        demo_object_def header_json_def json_int_def)
  have l: "legible file_env (pc_writes \<lparr>pc_writes = [CValueSet 1 ''app'' ''k'' v], pc_firstSeq = 1, pc_seqs = [1],
      pc_timestamp = ts\<rparr>)" if "v \<in> {JNull, JBool True}" for v ts
    using that demo_legible(3,4) by auto
  have n': "length (serializeJsonlTransaction file_env (pc_writes \<lparr>pc_writes = [CValueSet 1 ''app'' ''k'' JNull],
      pc_firstSeq = 1, pc_seqs = [1], pc_timestamp = 7\<rparr>)) < 2" using n by simp
  have out: "fx_outcomes ?f = [Failed 2 ''aborted'']" by simp
  from aborted_append_corrupts [OF inv p [of JNull 7] l [OF insertI1] p [of "JBool True" 8]
      l [OF insertI2 [OF singletonI]] out n']
  obtain e f1 r js' f2 e' f3 where
    "jsonl_commit file_env [ValueSetW ''app'' ''k'' JNull] 7 js ?f = (Inl e, js, f1)"
    "jsonl_commit file_env [ValueSetW ''app'' ''k'' (JBool True)] 8 js f1 = (r, js', f2)"
    "jsonl_open file_env (js_path js) f2 = (Inl e', f3)" "is_ok r"
    by (auto simp: valid_address_def NUL_char)
  moreover from \<open>is_ok r\<close> obtain res where "r = Inr res" by (auto simp: is_ok_iff)
  ultimately show ?thesis by blast
qed

end
