(* ===== verification/JsonlForkProps.thy ===== *)
theory JsonlForkProps imports JsonlForkLaws JsonlProps begin

text \<open>
  A fork from file to file and the fork in memory: the two passes over the source file, the copy they
  publish and what opening it gives. The source may grow while it is copied, and its last line may be
  torn.
\<close>

section \<open>Reading a source\<close>

text \<open>What a consumer of transactions does with the ones that are read.\<close>

fun foldIO :: "(committed list \<Rightarrow> 's \<Rightarrow> 's io) \<Rightarrow> committed list list \<Rightarrow> 's \<Rightarrow> 's io" where
  "foldIO body [] s = retIO s"
| "foldIO body (ws # txs) s = bindIO (body ws s) (foldIO body txs)"

lemma line_free: "legible env ws \<Longrightarrow> newline_free (serializeJsonlTransaction env ws)"
  by (simp add: legible_def json_text_def serializeJsonlTransaction_def)

lemma fork_transactions_line:
  assumes f: "no_faults f" and ws: "legible env ws"
    and stop: "\<forall>n. stop = Some n \<longrightarrow> (\<forall>w\<in>set ws. cw_seq w < n)"
  shows "fork_transactions env path stop body (serializeJsonlTransaction env ws @ newline # rest) s f =
    (case body ws s f of (Inl e, f) \<Rightarrow> (Inl e, f) | (Inr s, f) \<Rightarrow> fork_transactions env path stop body rest s f)"
proof -
  have ne: "ws \<noteq> []" using ws by (simp add: legible_def)
  have "reachesForkBoundary ws stop = Inr False"
    using stop hd_in_set [OF ne] last_in_set [OF ne] ne by (cases stop) (auto simp: reachesForkBoundary_def not_le)
  with f show ?thesis
    by (simp add: fork_transactions.simps [of env path stop body "serializeJsonlTransaction env ws @ newline # rest"]
        fs_done(4) cut_line_join [OF line_free [OF ws]] parse_transaction [OF ws])
qed

lemma fork_transactions_lines:
  assumes "no_faults f" "\<forall>ws\<in>set txs. legible env ws"
    and "\<forall>n. stop = Some n \<longrightarrow> (\<forall>w\<in>set (concat txs). cw_seq w < n)"
    and keeps: "\<And>ws s f. no_faults f \<Longrightarrow> no_faults (snd (body ws s f))"
  shows "fork_transactions env path stop body (join_lines (map (serializeJsonlTransaction env) txs) @ rest) s f =
    (case foldIO body txs s f of (Inl e, f) \<Rightarrow> (Inl e, f) | (Inr s, f) \<Rightarrow> fork_transactions env path stop body rest s f)"
  using assms(1-3)
proof (induction txs arbitrary: s f)
  case (Cons ws txs)
  obtain r g where r: "body ws s f = (r, g)" by (cases "body ws s f")
  have g: "no_faults g" using keeps [OF Cons.prems(1), of ws s] r by simp
  have line: "fork_transactions env path stop body
      (serializeJsonlTransaction env ws @ newline # (join_lines (map (serializeJsonlTransaction env) txs) @ rest)) s f =
      (case body ws s f of (Inl e, f) \<Rightarrow> (Inl e, f)
       | (Inr s, f) \<Rightarrow> fork_transactions env path stop body (join_lines (map (serializeJsonlTransaction env) txs) @ rest) s f)"
    by (rule fork_transactions_line) (use Cons.prems in auto)
  show ?case
  proof (cases r)
    case (Inl e)
    with line r show ?thesis by simp
  next
    case (Inr s')
    have "fork_transactions env path stop body (join_lines (map (serializeJsonlTransaction env) txs) @ rest) s' g =
      (case foldIO body txs s' g of (Inl e, f) \<Rightarrow> (Inl e, f) | (Inr s, f) \<Rightarrow> fork_transactions env path stop body rest s f)"
      by (rule Cons.IH [OF g]) (use Cons.prems in auto)
    with line r Inr show ?thesis by simp
  qed
qed simp

text \<open>The reading ends at the end of the file, at a torn line or at the boundary.\<close>

lemma fork_transactions_end:
  assumes f: "no_faults f" and r: "newline_free r" and later: "\<forall>ws\<in>set later. legible env ws"
    and stop: "later = [] \<or> (\<exists>n. stop = Some n \<and> (\<forall>w\<in>set (concat later). n \<le> cw_seq w))"
  shows "fork_transactions env path stop body (join_lines (map (serializeJsonlTransaction env) later) @ r) s f = (Inr s, f)"
proof (cases later)
  case Nil
  have "cut_line r = (None, []) \<or> cut_line r = (Some (r, False), [])"
    using cut_line_torn [OF r] by (cases "r = []") (simp_all add: cut_line_def)
  with Nil f show ?thesis
    by (auto simp: fork_transactions.simps [of env path stop body r] fs_done(4))
next
  case (Cons ws more)
  then have ws: "legible env ws" using later by simp
  then have "ws \<noteq> []" by (simp add: legible_def)
  with stop Cons have "reachesForkBoundary ws stop = Inr True"
    by (auto simp: reachesForkBoundary_def)
  with f Cons show ?thesis
    by (simp add: fork_transactions.simps [of _ _ _ _ "serializeJsonlTransaction env ws @ x" for x]
        fs_done(4) cut_line_join [OF line_free [OF ws]] parse_transaction [OF ws])
qed

text \<open>A source: the log \<open>txs\<close> to be copied, what was committed since, and the torn part of a line.\<close>

definition fork_source_file ::
  "jsonl_env \<Rightarrow> jsonl_header \<Rightarrow> committed list list \<Rightarrow> committed list list \<Rightarrow> string \<Rightarrow> string" where
  "fork_source_file env h txs later r = join_lines (jsonl_lines env h (txs @ later)) @ r"

lemma read_source:
  assumes f: "no_faults f" and h: "header_ok env h" and m: "fm_id m = jh_id h" "fm_cwd m = jh_cwd h"
  shows "readJsonlForkHeader env (fork_source_file env h txs later r) m f =
    (Inr (h, join_lines (map (serializeJsonlTransaction env) txs) @
       join_lines (map (serializeJsonlTransaction env) later) @ r), f)"
proof -
  have l: "newline_free (jl_stringify env (header_json h))" "jl_stringify env (header_json h) \<noteq> []"
    "jh_storageVersion h = JSONL_STORAGE_VERSION"
    using h by (simp_all add: header_ok_def json_text_def)
  have "readJsonlHeader env (fork_source_file env h txs later r) (fm_path m) f =
    (Inr (FormatV4 h, join_lines (map (serializeJsonlTransaction env) txs) @
       join_lines (map (serializeJsonlTransaction env) later) @ r), f)"
    using l parse_header [OF h]
    by (simp add: readJsonlHeader_def fs_done(4) [OF f] fork_source_file_def jsonl_lines_def cut_line_join)
  with m l show ?thesis by (simp add: readJsonlForkHeader_def)
qed

section \<open>The first pass\<close>

lemma foldIO_index:
  "foldIO (\<lambda>ws (ix, highest). retIO (applyWrites ws ix, if ws = [] then highest else cw_seq (last ws))) txs (ix, n) f =
    (Inr (applyWrites (concat txs) ix, if concat txs = [] then n else cw_seq (last (concat txs))), f)"
  by (induction txs arbitrary: ix n) (auto simp: applyWrites_def)

text \<open>The inputs that stand for the state after \<open>txs\<close>.\<close>

definition input_for :: "fork_input \<Rightarrow> fork_meta \<Rightarrow> int \<Rightarrow> committed list list \<Rightarrow> bool" where
  "input_for input m n later \<longleftrightarrow> input = OpenSource m n \<or> input = ClosedSource m \<and> later = []"

lemma next_of_log:
  assumes adm: "admissible_all fadd ws storage_new" and h: "header_ok env h"
  shows "ss_nextSeq (log_state fadd h ws) = max (or_else (jh_nextSeq h) 1) ((if ws = [] then 0 else cw_seq (last ws)) + 1)"
proof -
  have "1 \<le> cw_seq (last ws)" if "ws \<noteq> []" using seqs_above [OF adm last_in_set [OF that]] by simp
  with h show ?thesis
    by (cases "ws = []"; cases "jh_nextSeq h")
      (auto simp: log_state_def advanced_def or_else_def apply_last_seq header_ok_def)
qed

lemma log_below:
  assumes adm: "admissible_all fadd ws storage_new" and h: "header_ok env h" and w: "w \<in> set ws"
  shows "cw_seq w < ss_nextSeq (log_state fadd h ws)"
proof -
  have "sorted_wrt (<) (map cw_seq ws)" by (rule admissible_sorted [OF adm])
  then have "cw_seq w \<le> cw_seq (last ws)" using w by (cases ws rule: rev_cases) (auto simp: sorted_wrt_append)
  moreover have "ws \<noteq> []" using w by auto
  ultimately show ?thesis unfolding next_of_log [OF adm h] by simp
qed

lemma index_pass:
  assumes f: "no_faults f" and log: "log_ok env h txs" and later: "\<forall>ws\<in>set later. legible env ws" and r: "newline_free r"
    and n: "n = ss_nextSeq (log_state (jl_fadd env) h (concat txs))" "\<forall>w\<in>set (concat later). n \<le> cw_seq w"
    and m: "fm_id m = jh_id h" "fm_cwd m = jh_cwd h" and input: "input_for input m n later"
    and content: "fx_files f (fm_path m) = Some (fork_source_file env h txs later r)"
  shows "indexForkInput env input f = (Inr (index_of_log (concat txs), n), f)"
proof -
  let ?stop = "case input of OpenSource m n \<Rightarrow> Some n | ClosedSource m \<Rightarrow> None"
  let ?body = "\<lambda>ws (ix, highest). retIO (applyWrites ws ix, if ws = [] then highest else cw_seq (last ws))"
  define hi where "hi = (if concat txs = [] then 0 else cw_seq (last (concat txs)))"
  let ?found = "(index_of_log (concat txs), hi)"
  have h: "header_ok env h" and adm: "admissible_all (jl_fadd env) (concat txs) storage_new"
    and legible: "\<forall>ws\<in>set txs. legible env ws" using log by (simp_all add: log_ok_def)
  have below: "\<forall>k. ?stop = Some k \<longrightarrow> (\<forall>w\<in>set (concat txs). cw_seq w < k)"
    using input log_below [OF adm h] n(1) by (auto simp: input_for_def simp del: set_concat)
  have im: "input_meta input = m" and stop: "?stop = Some n \<or> (?stop = None \<and> later = [])"
    using input by (auto simp: input_for_def)
  have "fork_transactions env (fm_path m) ?stop ?body (join_lines (map (serializeJsonlTransaction env) txs) @
      join_lines (map (serializeJsonlTransaction env) later) @ r) (index_new, 0) f =
      (case foldIO ?body txs (index_new, 0) f of (Inl e, f) \<Rightarrow> (Inl e, f) | (Inr s, f) \<Rightarrow>
        fork_transactions env (fm_path m) ?stop ?body (join_lines (map (serializeJsonlTransaction env) later) @ r) s f)"
    by (rule fork_transactions_lines [OF f legible below]) auto
  also have "\<dots> = (Inr ?found, f)"
    unfolding foldIO_index index_of_log_def hi_def [symmetric]
    using fork_transactions_end [OF f r later, of ?stop "fm_path m" ?body] stop n(2) by auto
  finally have pass: "fork_transactions env (fm_path m) ?stop ?body (join_lines (map (serializeJsonlTransaction env) txs) @
      join_lines (map (serializeJsonlTransaction env) later) @ r) (index_new, 0) f = (Inr ?found, f)" .
  have "(case input of OpenSource m n \<Rightarrow> n | ClosedSource m \<Rightarrow> max (or_else (jh_nextSeq h) 1) (hi + 1)) = n"
    using input next_of_log [OF adm h, folded hi_def] n(1) by (auto simp: input_for_def)
  with pass im show ?thesis
    by (simp add: indexForkInput_def Let_def openTextLineReader_def fs_done(3) [OF f content] read_source [OF f h m])
qed

section \<open>The second pass\<close>

lemma put_same: "fx_files f p = Some c \<Longrightarrow> put p c f = f"
  by (simp add: put_def map_upd_triv)

lemma fork_log_Cons:
  "fork_log ix plan c (w # ws) = (case copied_write ix plan c w of None \<Rightarrow> [] | Some q \<Rightarrow> [q]) @ fork_log ix plan c ws"
  using fork_log_simps(2) [of ix plan c "[w]" ws] by simp

text \<open>The copied writes, each in a line of its own.\<close>

definition copied_lines :: "jsonl_env \<Rightarrow> committed list \<Rightarrow> string list" where
  "copied_lines env ws = map (\<lambda>q. serializeJsonlTransaction env [q]) ws"

lemma copied_lines_simps [simp]:
  "copied_lines env [] = []" "copied_lines env (w # ws) = serializeJsonlTransaction env [w] # copied_lines env ws"
  "copied_lines env (vs @ ws) = copied_lines env vs @ copied_lines env ws"
  by (simp_all add: copied_lines_def)

definition staged_write :: "jsonl_env \<Rightarrow> string \<Rightarrow> string \<Rightarrow> committed list \<Rightarrow> unit io" where
  "staged_write env tmp a ws = fileValue (appendFile tmp (serializeJsonlTransaction env ws @ [newline])) a"

lemma staged_write_done:
  "no_faults f \<Longrightarrow> fx_files f tmp = Some d \<Longrightarrow>
    staged_write env tmp a ws f = (Inr (), put tmp (d @ serializeJsonlTransaction env ws @ [newline]) f)"
  by (simp add: staged_write_def fs_done(2))

lemma copy_writes_keeps:
  "no_faults f \<Longrightarrow> no_faults (snd (copy_writes ix plan c (staged_write env tmp a) ws f))"
proof (induction ws arbitrary: f)
  case (Cons w ws)
  show ?case
  proof (cases "projectJsonlForkWrite ix plan c w")
    case (Inr q)
    show ?thesis
    proof (cases q)
      case None
      with Cons Inr show ?thesis by simp
    next
      case (Some v)
      obtain d where d: "appendFile tmp (serializeJsonlTransaction env [v] @ [newline]) f = (Inr (), put tmp d f)"
        using fs_done(2) [OF Cons.prems] by blast
      with Cons Inr Some show ?thesis by (simp add: staged_write_def)
    qed
  qed (use Cons.prems in simp)
qed simp

lemma copy_writes_done:
  assumes "no_faults f" "fx_files f tmp = Some d"
    and "\<forall>w\<in>set ws. projectJsonlForkWrite ix plan c w = Inr (copied_write ix plan c w)"
  shows "copy_writes ix plan c (staged_write env tmp a) ws f =
    (Inr (), put tmp (d @ join_lines (copied_lines env (fork_log ix plan c ws))) f)"
  using assms
proof (induction ws arbitrary: f d)
  case Nil
  then show ?case by (simp add: put_same)
next
  case (Cons w ws)
  show ?case
  proof (cases "copied_write ix plan c w")
    case None
    with Cons show ?thesis by (simp add: fork_log_Cons)
  next
    case (Some q)
    let ?d = "d @ serializeJsonlTransaction env [q] @ [newline]"
    have "copy_writes ix plan c (staged_write env tmp a) ws (put tmp ?d f) =
        (Inr (), put tmp (?d @ join_lines (copied_lines env (fork_log ix plan c ws))) (put tmp ?d f))"
      by (rule Cons.IH) (use Cons.prems in simp_all)
    with Cons.prems Some staged_write_done [OF Cons.prems(1,2)] show ?thesis by (simp add: fork_log_Cons)
  qed
qed

lemma foldIO_copy:
  assumes "no_faults f" "fx_files f tmp = Some d"
    and "\<forall>w\<in>set (concat txs). projectJsonlForkWrite ix plan c w = Inr (copied_write ix plan c w)"
  shows "foldIO (\<lambda>ws u. copy_writes ix plan c (staged_write env tmp a) ws) txs () f =
    (Inr (), put tmp (d @ join_lines (copied_lines env (fork_log ix plan c (concat txs)))) f)"
  using assms
proof (induction txs arbitrary: f d)
  case Nil
  then show ?case by (simp add: put_same)
next
  case (Cons ws txs)
  let ?d = "d @ join_lines (copied_lines env (fork_log ix plan c ws))"
  have "copy_writes ix plan c (staged_write env tmp a) ws f = (Inr (), put tmp ?d f)"
    by (rule copy_writes_done) (use Cons.prems in auto)
  moreover have "foldIO (\<lambda>ws u. copy_writes ix plan c (staged_write env tmp a) ws) txs () (put tmp ?d f) =
      (Inr (), put tmp (?d @ join_lines (copied_lines env (fork_log ix plan c (concat txs)))) (put tmp ?d f))"
    by (rule Cons.IH) (use Cons.prems in auto)
  ultimately show ?case by simp
qed

lemma copy_pass:
  assumes f: "no_faults f" and log: "log_ok env h txs" and later: "\<forall>ws\<in>set later. legible env ws" and r: "newline_free r"
    and n: "n = ss_nextSeq (log_state (jl_fadd env) h (concat txs))" "\<forall>w\<in>set (concat later). n \<le> cw_seq w"
    and m: "fm_id m = jh_id h" "fm_cwd m = jh_cwd h"
    and content: "fx_files f (fm_path m) = Some (fork_source_file env h txs later r)" and d: "fx_files f tmp = Some d"
    and ok: "\<forall>w\<in>set (concat txs). projectJsonlForkWrite ix plan c w = Inr (copied_write ix plan c w)"
  shows "copy_source env m n ix plan c (staged_write env tmp a) f =
    (Inr (), put tmp (d @ join_lines (copied_lines env (fork_log ix plan c (concat txs)))) f)"
proof -
  let ?body = "\<lambda>ws u. copy_writes ix plan c (staged_write env tmp a) ws"
  let ?f = "put tmp (d @ join_lines (copied_lines env (fork_log ix plan c (concat txs)))) f"
  have h: "header_ok env h" and adm: "admissible_all (jl_fadd env) (concat txs) storage_new"
    and legible: "\<forall>ws\<in>set txs. legible env ws" using log by (simp_all add: log_ok_def)
  have below: "\<forall>k. Some n = Some k \<longrightarrow> (\<forall>w\<in>set (concat txs). cw_seq w < k)"
    using log_below [OF adm h] n(1) by auto
  have "fork_transactions env (fm_path m) (Some n) ?body (join_lines (map (serializeJsonlTransaction env) txs) @
      join_lines (map (serializeJsonlTransaction env) later) @ r) () f =
      (case foldIO ?body txs () f of (Inl e, f) \<Rightarrow> (Inl e, f) | (Inr s, f) \<Rightarrow>
        fork_transactions env (fm_path m) (Some n) ?body (join_lines (map (serializeJsonlTransaction env) later) @ r) s f)"
    by (rule fork_transactions_lines [OF f legible below]) (rule copy_writes_keeps)
  also have "\<dots> = (Inr (), ?f)"
    unfolding foldIO_copy [OF f d ok]
    using fork_transactions_end [of ?f, OF _ r later, of "Some n" "fm_path m" ?body] f n(2) by auto
  finally show ?thesis
    by (simp add: copy_source_def openTextLineReader_def fs_done(3) [OF f content] read_source [OF f h m])
qed

section \<open>The fork\<close>

lemma getValue_advanced: "getValue a (advanced h st) = getValue a st"
  by (simp add: getValue_def)

lemma forked_advanced:
  "selectForkPlan options (advanced h st) = selectForkPlan options st" "forkable (advanced h st) = forkable st"
  unfolding selectForkPlan_def forkable_def getValue_advanced advanced_fields by (rule refl)+

text \<open>
  C21. A fork from file to file is the fork in memory: for a source whose writes the policy knows, open or
  closed, while it grows and with a torn last line, it succeeds when the fork of its state succeeds,
  leaves every other file as it was, and opening the new file gives a storage with the contents of
  the fork in memory.
\<close>

theorem jsonl_fork_agrees:
  assumes log: "log_ok env h txs" and st: "st = log_state (jl_fadd env) h (concat txs)"
    and clean: "\<forall>w\<in>set (concat txs). clean_write w" and ok: "forkable st"
    and plan: "selectForkPlan options st = Some (Inr (plan, selected))"
    and later: "\<forall>ws\<in>set later. legible env ws" "validated_all (jl_fadd env) (concat later) st" and r: "newline_free r"
    and f: "no_faults f" and content: "fx_files f (fm_path m) = Some (fork_source_file env h txs later r)"
    and m: "fm_id m = jh_id h" "fm_cwd m = jh_cwd h" and input: "input_for input m (ss_nextSeq st) later"
    and dest: "fm_path m \<noteq> dest" "fm_path m \<noteq> dest @ ''.tmp''"
      "header_ok env (dh\<lparr>jh_nextSeq := Some (ss_nextSeq st)\<rparr>)"
    and legible: "\<forall>q\<in>set (fork_log (index_of_log (concat txs)) plan (copied plan selected) (concat txs)). legible env [q]"
  shows "\<exists>dst g js g'. createFork options st = Some (Inr dst) \<and>
    runJsonlFork env input dest dh options f = Some (Inr (), g) \<and>
    (\<forall>p. p \<noteq> dest \<longrightarrow> p \<noteq> dest @ ''.tmp'' \<longrightarrow> fx_files g p = fx_files f p) \<and>
    jsonl_open env dest g = (Inr (Opened js), g') \<and> same_contents (js_state js) dst"
proof -
  let ?ws = "concat txs" and ?n = "ss_nextSeq st" and ?tmp = "dest @ ''.tmp''" and ?c = "copied plan selected"
  let ?ix = "index_of_log ?ws" and ?log = "fork_log (index_of_log ?ws) plan (copied plan selected) ?ws"
  let ?hd = "dh\<lparr>jh_nextSeq := Some ?n\<rparr>" and ?base = "state_of_log (jl_fadd env) ?ws"
  let ?d = "jl_stringify env (header_json ?hd) @ [newline]"
  let ?text = "join_lines (jsonl_lines env ?hd (map (\<lambda>q. [q]) ?log))"
  have adm: "admissible_all (jl_fadd env) ?ws storage_new" using log by (simp add: log_ok_def)
  have base: "st = advanced h ?base" by (simp add: st log_state_def state_of_log_def)
  have seqs: "\<forall>w\<in>set (concat later). ?n \<le> cw_seq w" using validated_above [OF later(2)] by blast
  have inv: "storage_inv (jl_fadd env) st" unfolding st by (rule log_state_inv [OF adm])
  note mem = createFork_forked [OF inv ok plan]
  have closed: "closed_in (\<lambda>e. ?c (de_id e)) (ss_bySeq ?base)" using select_closed [OF inv plan] by (simp add: base)
  have sel: "selectJsonlFork ?ix options = Some (Inr (plan, selected))"
    using select_from_index [OF clean] plan by (simp add: base forked_advanced)
  have proj: "\<forall>w\<in>set ?ws. projectJsonlForkWrite ?ix plan ?c w = Inr (copied_write ?ix plan ?c w)"
    using project_copied [OF adm clean] ok by (simp add: base forked_advanced)
  have pass: "indexForkInput env input f = (Inr (?ix, ?n), f)"
    by (rule index_pass [OF f log later(1) r _ seqs m input content]) (simp add: st)
  have im: "input_meta input = m" using input by (auto simp: input_for_def)
  let ?f = "put ?tmp ?d f" and ?a = "''Failed to append JSONL storage '' @ dest"
  have "copy_source env m ?n ?ix plan ?c (staged_write env ?tmp ?a) ?f =
      (Inr (), put ?tmp (?d @ join_lines (copied_lines env ?log)) ?f)"
    by (rule copy_pass [OF _ log later(1) r _ seqs m _ _ proj]) (use f content dest(2) st in simp_all)
  moreover have "?d @ join_lines (copied_lines env ?log) = ?text"
    by (simp add: jsonl_lines_def copied_lines_def comp_def)
  ultimately have copy: "copy_source env m ?n ?ix plan ?c (staged_write env ?tmp ?a) ?f = (Inr (), put ?tmp ?text f)" by simp
  define g where "g = (put ?tmp ?text f)\<lparr>fx_files := (fx_files (put ?tmp ?text f))(?tmp := None, dest \<mapsto> ?text)\<rparr>"
  have tmp: "dest \<noteq> ?tmp" by simp
  have "publishJsonl env dest ?hd (copy_source env m ?n ?ix plan ?c) f = (Inr (), g)"
    unfolding publishJsonl_def g_def
  proof (rule publish_done [OF f tmp refl])
    show "bindIO (fileValue (appendFile ?tmp ?d) ?a) (\<lambda>_. copy_source env m ?n ?ix plan ?c
        (\<lambda>ws. fileValue (appendFile ?tmp (serializeJsonlTransaction env ws @ [newline])) ?a)) (put ?tmp [] f) =
      (Inr (), put ?tmp ?text f)"
      using copy f by (simp add: fs_done(2) staged_write_def [abs_def])
  qed (use f in simp_all)
  then have run: "runJsonlFork env input dest dh options f = Some (Inr (), g)"
    by (simp add: runJsonlFork_def pass sel im)
  have "log_ok env ?hd (map (\<lambda>q. [q]) ?log)"
    using dest(3) legible copied_log_admissible [OF adm closed] by (simp add: log_ok_def)
  moreover have "no_faults g" "fx_files g dest = Some (?text @ [])" "newline_free []"
    using f by (simp_all add: g_def no_faults_def newline_free_def put_def)
  ultimately obtain g' where open_g: "jsonl_open env dest g =
      (Inr (Opened ((jsonl_new dest ?hd)\<lparr>js_state := log_state (jl_fadd env) ?hd ?log\<rparr>)), g')"
    using open_log by fastforce
  have "same_contents (log_state (jl_fadd env) ?hd ?log) (forked plan ?c st)"
    unfolding st by (rule copied_state [OF adm clean closed refl]) (simp add: st)
  moreover have "\<forall>p. p \<noteq> dest \<longrightarrow> p \<noteq> ?tmp \<longrightarrow> fx_files g p = fx_files f p" by (simp add: g_def)
  ultimately show ?thesis using mem run open_g by fastforce
qed

section \<open>A small fork\<close>

text \<open>
  The log of \<open>demo_jobs\<close>, with one more commit after the sequence that the fork captured and a torn line.
\<close>

definition demo_log_txs :: "committed list list" where
  "demo_log_txs = [[CEntry (materializeCommittedEntry (note_entry ''a'' None) 1 7)], [CValueSet 2 ''app'' ''k'' JNull]]"

definition demo_source :: file_system where
  "demo_source = \<lparr>fx_files = [''p'' \<mapsto> fork_source_file file_env demo_header demo_log_txs [[CValueSet 3 ''app'' ''k'' JNull]] ''x''],
     fx_outcomes = []\<rparr>"

lemma demo_legible_later: "legible file_env [CValueSet 3 ''app'' ''k'' JNull]"
  by (simp add: legible_def json_text_def transaction_json_def write_json_def file_env_def demo_texts_def
      demo_object_def demo_header_def header_json_def writable_def isSafeInteger_def newline_free_def newline_char json_int_def)

lemma demo_log_ok: "log_ok file_env demo_header demo_log_txs"
proof -
  have "admissible_all (jl_fadd file_env) (concat demo_log_txs) storage_new"
    by (simp add: demo_log_txs_def admissible_def validated_def valid_address_def NUL_char materializeCommittedEntry_def new_entry.defs entry.defs note_entry_def
        storage_new_def after_write_def de_type_def hasEntryOrUsageId_def)
  then show ?thesis using demo_header_ok demo_legible by (simp add: log_ok_def demo_log_txs_def)
qed

theorem jsonl_fork_agrees_witness:
  "\<exists>dst g js g'. createFork ForkTree (log_state (+) demo_header (concat demo_log_txs)) = Some (Inr dst) \<and>
    runJsonlFork file_env (OpenSource \<lparr>fm_id = ''s'', fm_cwd = ''/'', fm_path = ''p''\<rparr> 3) ''q'' demo_header ForkTree demo_source =
      Some (Inr (), g) \<and>
    fx_files g ''p'' = fx_files demo_source ''p'' \<and>
    jsonl_open file_env ''q'' g = (Inr (Opened js), g') \<and> same_contents (js_state js) dst"
proof -
  let ?m = "\<lparr>fm_id = ''s'', fm_cwd = ''/'', fm_path = ''p''\<rparr>"
  let ?later = "[[CValueSet 3 ''app'' ''k'' JNull]]" and ?st = "log_state (jl_fadd file_env) demo_header (concat demo_log_txs)"
  have fadd: "jl_fadd file_env = (+)" by (simp add: file_env_def)
  note state = demo_log_txs_def log_state_def advanced_def demo_header_def storage_new_def after_write_def put_value_def
    materializeCommittedEntry_def new_entry.defs entry.defs note_entry_def de_type_def physicalKey_def
  have next_seq: "ss_nextSeq ?st = 3" by (simp add: state)
  have clean: "\<forall>w\<in>set (concat demo_log_txs). clean_write w"
    by (simp add: demo_log_txs_def clean_write_def NUL_char)
  have ok: "forkable ?st"
    by (simp add: state forkable_def known_namespace_def projectForkCurrentStateWrite_def starts_with_def)
  have plan: "selectForkPlan ForkTree ?st = Some (Inr (PlanTree, []))" by (simp add: selectForkPlan_def)
  have later: "\<forall>ws\<in>set ?later. legible file_env ws" "validated_all (jl_fadd file_env) (concat ?later) ?st"
    using demo_legible_later next_seq by (simp_all add: validated_def)
  have r: "newline_free ''x''" by (simp add: newline_free_def newline_char)
  have f: "no_faults demo_source" by (simp add: no_faults_def demo_source_def)
  have content: "fx_files demo_source (fm_path ?m) = Some (fork_source_file file_env demo_header demo_log_txs ?later ''x'')"
    by (simp add: demo_source_def)
  have m: "fm_id ?m = jh_id demo_header" "fm_cwd ?m = jh_cwd demo_header" by (simp_all add: demo_header_def)
  have input: "input_for (OpenSource ?m 3) ?m (ss_nextSeq ?st) ?later" by (simp add: next_seq input_for_def)
  have dest: "fm_path ?m \<noteq> ''q''" "fm_path ?m \<noteq> ''q'' @ ''.tmp''" by simp_all
  have header: "header_ok file_env (demo_header\<lparr>jh_nextSeq := Some (ss_nextSeq ?st)\<rparr>)"
    unfolding next_seq
    by (simp add: header_ok_def json_text_def file_env_def demo_texts_def demo_object_def demo_header_def header_json_def
        JSONL_STORAGE_VERSION_def isSafeInteger_def newline_free_def newline_char json_int_def optional_field_def)
  have "set (fork_log (index_of_log (concat demo_log_txs)) PlanTree (copied PlanTree []) (concat demo_log_txs)) \<subseteq>
      set (concat demo_log_txs)"
    by (auto simp: demo_log_txs_def fork_log_Cons copied_def kept_def projectForkCurrentStateWrite_def starts_with_def
        split: if_splits)
  then have legible: "\<forall>q\<in>set (fork_log (index_of_log (concat demo_log_txs)) PlanTree (copied PlanTree []) (concat demo_log_txs)).
      legible file_env [q]"
    using demo_legible by (auto simp: demo_log_txs_def)
  from jsonl_fork_agrees [OF demo_log_ok refl clean ok plan later r f content m input dest header legible]
  show ?thesis unfolding fadd by fastforce
qed

end
