(* ===== verification/Spec2Isabelle.thy ===== *)
theory Spec2Isabelle imports AssistantStream DeltaDiff DeltaCodec AgentProps SessionProps ProtocolProps TrackerProps DurableProps SummariesProps JsonlForkProps begin

text \<open>
  Verification library for the pi agent harness (\<open>src/Day06/pi/packages\<close>, TypeScript). Paths below
  are relative to that directory.

  The program. A model response arrives as a push stream of events (\<open>ai/src/utils/event-stream.ts\<close>).
  The agent loop (\<open>agent/src/agent-loop.ts\<close>) alternates such responses with the execution of the
  tools they call and reports what happens as agent events; the agent (\<open>agent/src/agent.ts\<close>) wraps it
  with a state that reduces these events, two queues of messages, and the rule of one run at a time.
  The coding agent adds message kinds of its own (\<open>coding-agent/src/core/messages.ts\<close>) and keeps the
  conversation as an append-only tree in a session file (\<open>coding-agent/src/core/session-manager.ts\<close>).
  The agent harness keeps its sessions durably (\<open>agent/src/harness/session\<close>): entries in a tree,
  addressed values and lists, written by commits that callbacks make one at a time and copied by
  forks; when the context of a branch grows too large its older part is replaced by a summary, and a
  branch that is left is summarized too (\<open>agent/src/harness/compaction\<close>). A session can live in a
  file of JSON lines, to which commits are appended and from which it is read again
  (\<open>agent/src/harness/session/jsonl\<close>).
  State shared with other processes is tracked, and its changes travel as batches of delta
  operations (\<open>chord/src/delta/index.ts\<close>). Client and server exchange CBOR messages in
  length-prefixed frames (\<open>protocol/src\<close>).

  Theories and the code they model. A definition has the name of the function it translates, and
  stands in the order of the source.

  \<^item> \<open>Prelude\<close>: results that may throw (\<open>Inl\<close> the error, \<open>Inr\<close> the value) and their sequencing,
    association lists for objects with insertion order, facts about lists and options.
  \<^item> \<open>EventStream\<close>, \<open>AssistantStream\<close>: \<open>FifoQueue\<close> and \<open>EventStream\<close>. A consumer is named by an identifier, its pending
    request is the resolver in the code's \<open>waiting\<close> queue, and the answers are a log. A sequence of
    pushes, ends and requests is a list of commands. \<open>AssistantMessageEventStream\<close> is the instance
    for the events of \<open>Messages\<close>.
  \<^item> \<open>Json\<close>, \<open>DeltaOps\<close>, \<open>DeltaDiff\<close>, \<open>DeltaCodec\<close>, \<open>DeltaTracker\<close>: \<open>chord/src/delta/index.ts\<close> over
    \<open>chord/src/types.ts\<close>: values, paths and their safety, validator and appliers; the structural
    diff; the interning wire codec; the tracker with its tree of dirty paths.
  \<^item> \<open>Effects\<close>, \<open>Messages\<close>, \<open>AgentLoop\<close>, \<open>Agent\<close>: operations on a world that may throw and emit
    events; the data of \<open>ai/src/types.ts\<close> and \<open>agent/src/types.ts\<close>; the loop; the \<open>Agent\<close> class.
  \<^item> \<open>CodingMessages\<close>, \<open>SessionEntries\<close>, \<open>SessionStore\<close>, \<open>SessionFork\<close>: the message kinds; entries,
    migrations and the context of a branch; the \<open>SessionManager\<close> with its index, labels and file;
    extraction of a branch and forking.
  \<^item> \<open>DurableData\<close>, \<open>DurableState\<close>, \<open>DurableFork\<close>, \<open>DurableSession\<close>, \<open>DurableLine\<close>: the durable
    session storage of \<open>agent/src/harness/session\<close>. \<open>DurableData\<close> has entries, addresses, writes and
    the validation of a commit (\<open>types.ts\<close>, \<open>values.ts\<close>, \<open>commit.ts\<close>); \<open>DurableState\<close> the class
    \<open>InMemoryStorageState\<close> as a record and its commits and reads; \<open>DurableFork\<close> the fork policy and
    both forks (\<open>fork-policy.ts\<close>, \<open>fork.ts\<close>); \<open>DurableSession\<close> the session and its branches
    (\<open>session.ts\<close>) and the context of a branch (\<open>context.ts\<close>); \<open>DurableLine\<close> the mutation line
    (\<open>mutation-line.ts\<close>) as a step relation of clients and the callback that holds the line.
  \<^item> \<open>JsonlStore\<close>, \<open>JsonlFork\<close>: \<open>agent/src/harness/session/jsonl\<close>. \<open>JsonlStore\<close> has the file system as
    a map with a schedule of outcomes (the interface of \<open>harness/types.ts\<close>), the header and its
    recognition (\<open>codec.ts\<close>, \<open>types.ts\<close>), transactions, their text and the atomic publication of a
    file (\<open>io.ts\<close>), and the class \<open>JsonlStorage\<close> (\<open>storage.ts\<close>) over \<open>InMemoryStorageState\<close>;
    \<open>JsonlFork\<close> the index of a source and the copy of a file (\<open>fork.ts\<close>).
  \<^item> \<open>Compaction\<close>, \<open>Summaries\<close>: \<open>agent/src/harness/compaction\<close>. \<open>Compaction\<close> has the token estimates,
    the choice of the cut and the preparation (\<open>compaction.ts\<close>) and the files that tool calls touch
    (\<open>utils.ts\<close>); \<open>Summaries\<close> the text of a conversation, the requests for a summary, and the
    entries and messages of a branch that is left (\<open>branch-summarization.ts\<close>).
  \<^item> \<open>Bytes\<close>, \<open>StreamDecoder\<close>, \<open>Framing\<close>, \<open>Utf8\<close>, \<open>Cbor\<close>, \<open>ProtocolCodec\<close>: \<open>protocol/src/framing.ts\<close>,
    \<open>protocol/src/cbor/\<close>, \<open>codec.ts\<close> and \<open>protocol.ts\<close>.

  The other theories hold no model, only what is proved about it.

  \<^item> \<open>AgentLoopLaws\<close> runs a monitor of the event protocol beside the loop; \<open>AgentLoopKeeps\<close> lifts
    an invariant of the callbacks to a run; \<open>AgentLoopEnds\<close> shows that the loop returns;
    \<open>AgentLaws\<close> relates the agent's state to the log of its runs.
  \<^item> \<open>SessionLaws\<close> gives the path of an entry as a structural recursion; \<open>SessionInv\<close> is the
    invariant of the manager and its preservation; \<open>SessionForkLaws\<close> compares the context of an
    extracted branch with the original one.
  \<^item> \<open>FramingLaws\<close> and \<open>ProtocolLaws\<close> show that the two decoders implement a specification of whole
    byte streams; \<open>CborLaws\<close> and \<open>CborSound\<close> relate encoder, decoder and the set of encodable values.
  \<^item> \<open>TrackerLaws\<close> defines what a tree of dirty paths claims (\<open>covered\<close>), \<open>TrackerOps\<close> shows that
    every operation of a client keeps it, \<open>TrackerWalk\<close> that the walk emits what it claims.
  \<^item> \<open>DurableLaws\<close> is the invariant of the durable storage and its preservation by commits,
    \<open>DurableScan\<close> gives the path of an entry as a structural recursion and reads in pages,
    \<open>DurableForkLaws\<close> says what a fork keeps.
  \<^item> \<open>JsonlLaws\<close> relates a storage to its file and the log of its transactions (\<open>jsonl_inv\<close>), with and
    without failures of the file system; \<open>JsonlForkLaws\<close> relates the index of a log to the state it leads
    to, and the copied writes to the fork in memory.
  \<^item> \<open>CompactionLaws\<close> shows that the lists of a preparation partition what may be compacted, that
    a cut does not part calls from results, and what the search for the budget stops at.
  \<^item> \<open>AgentLoopProps\<close>, \<open>AgentProps\<close>, \<open>SessionProps\<close>, \<open>ProtocolProps\<close>, \<open>TrackerProps\<close>,
    \<open>DurableProps\<close>, \<open>JsonlProps\<close>, \<open>JsonlForkProps\<close>, \<open>CompactionProps\<close>, \<open>SummariesProps\<close> hold the
    properties with their witnesses; those of the event stream and the other parts of the delta
    package stand at the end of their theories.

  Interfaces. \<open>fifo_queue\<close> is the contract of a queue, provided by the two-array \<open>FifoQueue\<close>;
  \<open>tree_access\<close> that of reading and writing a value at a path, provided by the JSON trees;
  \<open>monitor\<close> that of a sink that checks a protocol, provided by the agent events;
  \<open>stream_decoder\<close> that of an incremental decoder, provided by the frame decoder and by the message
  decoder built on it; \<open>paged_source\<close> that of a numbered sequence read in pages after a cursor,
  provided by the scans of a branch and by the lists of the durable storage.

  What the environment provides is an argument of the definitions: the hooks, tools, stream function
  and argument validator of a run, which act on a world and may throw; the clock, the random
  identifiers, the printer and parser of JSON text and the file system of a session manager; the
  request to a provider of a summary, which may throw; the schema check of typebox; for session files
  the outcomes of the file operations and the functions \<open>JSON.stringify\<close> and \<open>JSON.parse\<close>, of which
  the properties ask that the lines at hand are read back as they were written (\<open>legible\<close>). The
  properties say in named hypotheses what they need of it, and each has a witness with concrete
  functions.

  Loops. The two \<open>while\<close> loops of the agent loop have no bound in the source; their fuel is an
  argument, and \<open>agent_run_returns\<close> and \<open>prompt_settles\<close> give an amount that suffices whenever tool
  calls and queued messages use up a budget. Other unbounded loops (the walk to the root of a
  session tree, the selection of a fork, the reading of a list in pages, the walk up from the tip of
  a branch that is left, the reading of a file in chunks, the two loops of the frame decoder) are partial
  functions whose value \<open>None\<close> means that they do not return; that they return is proved where they
  do, and \<open>migrated_file_collision\<close> shows an input for which one does not. The decoder of CBOR
  values descends at most the configured depth (512 by default), so its recursion is bounded by it,
  and the loop over the transactions of a fork's source ends because each line makes the rest shorter.

  Numbers. Lengths, indices and times are natural numbers or integers where the code keeps them
  far below the limit of exact doubles; bytes and code units are words; a double is its 64 bits,
  and the integers of CBOR are those that the code accepts as safe (at most two to the 53 minus one
  in absolute value).

  Assumptions of the models. JSON values are finite trees. A tracked state is the tree reached from
  its root: the caches of proxies then show nothing, and symbol keys, a proxy kept across a change
  of the array it came from, and one object reachable at two places are outside of the model.
  Awaits of one run do not interleave with those of another (\<open>Effects\<close>), and the commits of a session
  file run one after another, as its queue has them. Error messages leave out
  the configured numbers that the code quotes in them. The value stored as the tip of a branch is a
  string or null, and a projector of custom entries does not throw. Lengths of strings, in the
  estimates of tokens and the truncation of tool results, are those of lists of characters.

  Not modelled: the discovery and listing of session files and the default directories (file-system
  I/O around the modelled \<open>loadEntriesFromFile\<close>); the lanes and operations of the agent
  harness, the lifecycle of its storages in memory, the repositories of sessions, and the import of
  files of version 3 (\<open>legacy-v3.ts\<close>), which opening a file only recognizes; the chord
  services; the model providers (network clients and generated tables); tools, modes and
  terminal interface of the coding agent; client, server and backends over the modelled protocol;
  and the course material outside of \<open>Day06/pi\<close>, which is not part of this program.
\<close>

end
